(* ===== verification/N6_Prelude.thy ===== *)
theory N6_Prelude
  imports Main "HOL-Library.Multiset" "HOL-Library.Word"
begin

text \<open>
  Shared vocabulary of the development: references to run-time objects, results of operations
  that can abort the process, and the list, option and multiset facts that the component
  theories share. A pointer of the source is a natural number that names the object, a pointer
  that may be null is an option of it.
\<close>

section \<open>References and results\<close>

type_synonym task_ref = nat
type_synonym cpu_ref = nat
type_synonym thread_ref = nat
type_synonym size_t = "64 word"

text \<open>
  An operation aborts through \<open>FatalErrorHandler::failIf\<close> (in every build) or through a
  failed \<open>assert\<close> (in a debug build). Both are error values of the model.
\<close>

datatype nanos6_error =
    FatalError string
  | AssertFailed string

type_synonym 'a result = "nanos6_error + 'a"

definition result_bind :: "'a result \<Rightarrow> ('a \<Rightarrow> 'b result) \<Rightarrow> 'b result" where
  "result_bind m f = (case m of Inl e \<Rightarrow> Inl e | Inr x \<Rightarrow> f x)"

definition assert_that :: "bool \<Rightarrow> string \<Rightarrow> 'a result \<Rightarrow> 'a result" where
  "assert_that b msg k = (if b then k else Inl (AssertFailed msg))"

definition fail_if :: "bool \<Rightarrow> string \<Rightarrow> 'a result \<Rightarrow> 'a result" where
  "fail_if b msg k = (if b then Inl (FatalError msg) else k)"

text \<open>The types of a data access (\<open>src/dependencies/DataAccessType.hpp\<close>), shared by the dependency systems.\<close>

datatype DataAccessType =
    NO_ACCESS_TYPE
  | READ_ACCESS_TYPE
  | WRITE_ACCESS_TYPE
  | READWRITE_ACCESS_TYPE
  | CONCURRENT_ACCESS_TYPE
  | COMMUTATIVE_ACCESS_TYPE
  | REDUCTION_ACCESS_TYPE

section \<open>Collections of facts\<close>

named_theorems n6_simps \<open>unfolding equations of the model's operations\<close>
named_theorems n6_pool \<open>how an operation changes the multiset of held tasks\<close>
named_theorems n6_inv \<open>an operation keeps an invariant\<close>

lemma result_bind_simps [simp, n6_simps]:
  "result_bind (Inl e) f = Inl e"
  "result_bind (Inr x) f = f x"
  by (simp_all add: result_bind_def)

lemma result_bind_eq_Inr [simp]:
  "result_bind m f = Inr y \<longleftrightarrow> (\<exists>x. m = Inr x \<and> f x = Inr y)"
  by (cases m) (auto simp: result_bind_def)

lemma assert_that_eq_Inr [simp]:
  "assert_that b msg k = Inr y \<longleftrightarrow> b \<and> k = Inr y"
  by (simp add: assert_that_def)

lemma assert_that_True [simp]: "assert_that True msg k = k"
  by (simp add: assert_that_def)

lemma fail_if_eq_Inr [simp]:
  "fail_if b msg k = Inr y \<longleftrightarrow> \<not> b \<and> k = Inr y"
  by (simp add: fail_if_def)

lemma fail_if_False [simp]: "fail_if False msg k = k"
  by (simp add: fail_if_def)

section \<open>Optional slots as multisets\<close>

text \<open>
  A per-CPU slot (\<open>ComputePlace::_schedulerData\<close>, \<open>polling_slot_t::_task\<close>) holds at most one
  task. The tasks held in the slots of a list of CPUs form a multiset.
\<close>

definition mset_opt :: "'a option \<Rightarrow> 'a multiset" where
  "mset_opt x = (case x of None \<Rightarrow> {#} | Some a \<Rightarrow> {#a#})"

definition slots_mset :: "('c \<Rightarrow> 'a option) \<Rightarrow> 'c list \<Rightarrow> 'a multiset" where
  "slots_mset f cs = sum_list (map (\<lambda>c. mset_opt (f c)) cs)"

lemma mset_opt_simps [simp]:
  "mset_opt None = {#}"
  "mset_opt (Some a) = {#a#}"
  by (simp_all add: mset_opt_def)

lemma slots_mset_simps [simp]:
  "slots_mset f [] = {#}"
  "slots_mset f (c # cs) = mset_opt (f c) + slots_mset f cs"
  by (simp_all add: slots_mset_def)

lemma slots_mset_cong:
  "(\<And>c. c \<in> set cs \<Longrightarrow> f c = g c) \<Longrightarrow> slots_mset f cs = slots_mset g cs"
  by (induction cs) auto

lemma slots_mset_upd_notin [simp]:
  "c \<notin> set cs \<Longrightarrow> slots_mset (f(c := x)) cs = slots_mset f cs"
  by (rule slots_mset_cong) auto

lemma slots_mset_upd:
  "distinct cs \<Longrightarrow> c \<in> set cs \<Longrightarrow>
   slots_mset (f(c := x)) cs + mset_opt (f c) = slots_mset f cs + mset_opt x"
  by (induction cs) auto

lemma slots_mset_fill:
  assumes "distinct cs" "c \<in> set cs" "f c = None"
  shows "slots_mset (f(c := Some t)) cs = slots_mset f cs + {#t#}"
  using slots_mset_upd [OF assms(1,2), of f "Some t"] assms(3) by simp

lemma slots_mset_clear:
  assumes "distinct cs" "c \<in> set cs" "f c = Some t"
  shows "slots_mset f cs = slots_mset (f(c := None)) cs + {#t#}"
  using slots_mset_upd [OF assms(1,2), of f None] assms(3) by simp

lemma in_slots_mset:
  "c \<in> set cs \<Longrightarrow> f c = Some t \<Longrightarrow> t \<in># slots_mset f cs"
  by (induction cs) auto

lemma slots_mset_memD:
  "t \<in># slots_mset f cs \<Longrightarrow> \<exists>c \<in> set cs. f c = Some t"
  by (induction cs) (auto simp: mset_opt_def split: option.splits)

section \<open>Lists\<close>

text \<open>The least index of a list that satisfies a predicate, as \<open>find_first\<close> of a bit set.\<close>

fun find_index_from :: "nat \<Rightarrow> ('a \<Rightarrow> bool) \<Rightarrow> 'a list \<Rightarrow> nat option" where
  "find_index_from i P [] = None"
| "find_index_from i P (x # xs) = (if P x then Some i else find_index_from (Suc i) P xs)"

lemma find_index_from_Some:
  "find_index_from i P xs = Some j \<Longrightarrow>
   i \<le> j \<and> j < i + length xs \<and> P (xs ! (j - i)) \<and> (\<forall>k < j - i. \<not> P (xs ! k))"
proof (induction xs arbitrary: i)
  case Nil
  then show ?case by simp
next
  case (Cons x xs)
  show ?case
  proof (cases "P x")
    case True
    with Cons.prems show ?thesis by simp
  next
    case False
    with Cons.prems have "find_index_from (Suc i) P xs = Some j" by simp
    note IH = Cons.IH [OF this]
    then obtain d where d: "j - i = Suc d" "j - Suc i = d"
      by (metis Suc_diff_Suc Suc_le_lessD)
    with IH False show ?thesis
      by (auto simp: nth_Cons split: nat.splits)
  qed
qed

lemma find_index_from_None:
  "find_index_from i P xs = None \<longleftrightarrow> (\<forall>x \<in> set xs. \<not> P x)"
  by (induction xs arbitrary: i) auto

text \<open>A list whose multiset is contained in that of a duplicate-free list has no duplicates.\<close>

lemma distinct_sub_mset:
  assumes "mset xs \<subseteq># mset ys" and "distinct ys"
  shows "distinct xs"
proof -
  have "count (mset ys) a \<le> 1" for a
    using assms(2) by (simp add: distinct_count_atmost_1)
  then have le: "count (mset xs) a \<le> 1" for a
    using mset_subset_eq_count [OF assms(1), of a] le_trans by blast
  have "count (mset xs) a = (if a \<in> set xs then 1 else 0)" for a
  proof (cases "a \<in> set xs")
    case True
    then have "count (mset xs) a > 0" by simp
    with le [of a] have "count (mset xs) a = 1" by linarith
    with True show ?thesis by simp
  next
    case False
    then show ?thesis by (simp add: count_eq_zero_iff)
  qed
  then show ?thesis by (simp add: distinct_count_atmost_1)
qed

lemma upt_split: "i \<le> j \<Longrightarrow> j \<le> k \<Longrightarrow> [i..<k] = [i..<j] @ [j..<k]"
  by (metis le_add_diff_inverse upt_add_eq_append)

lemma sum_list_update_plus:
  fixes f :: "'a \<Rightarrow> 'b :: comm_monoid_add"
  shows "i < length xs \<Longrightarrow> sum_list (map f (xs[i := y])) + f (xs ! i) = sum_list (map f xs) + f y"
  by (induction xs arbitrary: i) (auto simp: ac_simps split: nat.splits)

lemma length_filter_update:
  "i < length xs \<Longrightarrow>
   length (filter P (xs[i := y])) + (if P (xs ! i) then 1 else 0) =
   length (filter P xs) + (if P y then 1 else 0)"
proof -
  have eq: "length (filter P zs) = sum_list (map (\<lambda>x. if P x then 1 else 0) zs)" for zs
    by (induction zs) auto
  assume "i < length xs"
  then show ?thesis
    unfolding eq by (rule sum_list_update_plus)
qed

lemma sum_list_mset_empty: "sum_list (map f xs) = {#} \<longleftrightarrow> (\<forall>x \<in> set xs. f x = {#})"
  by (induction xs) auto

lemma distinct_count_list: "distinct xs \<Longrightarrow> count_list xs x = (if x \<in> set xs then 1 else 0)"
  by (induction xs) auto

end
