(* ===== verification/N6_Task.thy ===== *)
theory N6_Task
  imports N6_Prelude
begin

unbundle bit_operations_syntax

text \<open>
  The task object: \<open>src/tasks/Task.hpp\<close> and \<open>src/tasks/TaskImplementation.hpp\<close>. One record
  for the fields of class \<open>Task\<close>, one definition per member function. The counters are
  \<open>std::atomic<int>\<close>: every member function performs one atomic read-modify-write, so each is one
  step of the model. An \<open>assert\<close> of the source is an error branch. Instrumentation calls change
  no state of the runtime and are left out.
\<close>

section \<open>Data\<close>

datatype nanos6_device_t =
    nanos6_host_device
  | nanos6_cuda_device
  | nanos6_opencl_device

text \<open>
  What the runtime reads of \<open>nanos6_task_info_t\<close>. The callbacks are user code: the priority
  callback is represented by the value it stores (None for a null pointer).
\<close>

record task_info =
  ti_device_type_id :: nanos6_device_t
  ti_implementation_count :: int
  ti_has_run :: bool
  ti_num_symbols :: int
  ti_get_priority :: "int option"

text \<open>The bits of \<open>Task::flags_t\<close>, a \<open>std::bitset<total_flags>\<close>.\<close>

type_synonym flags_t = "5 word"

abbreviation (input) final_flag :: nat where "final_flag \<equiv> 0"
abbreviation (input) if0_flag :: nat where "if0_flag \<equiv> 1"
abbreviation (input) taskloop_flag :: nat where "taskloop_flag \<equiv> 2"
abbreviation (input) wait_flag :: nat where "wait_flag \<equiv> 3"
abbreviation (input) non_runnable_flag :: nat where "non_runnable_flag \<equiv> 4"

record task =
  t_argsBlock :: nat
  t_taskInfo :: task_info
  t_countdownToBeWokenUp :: int
  t_parent :: "task_ref option"
  t_priority :: int
  t_thread :: "thread_ref option"
  t_flags :: flags_t
  t_predecessorCount :: int
  t_schedulerInfo :: "nat option"
  t_computePlace :: "cpu_ref option"
  t_deviceData :: "nat option"
  t_countdownToRelease :: int

section \<open>Construction\<close>

text \<open>
  \<open>Task::Task\<close>. The constructor adds the new task to the children of its parent, which
  is the separate step \<open>addChild\<close> on the parent below. A \<open>size_t\<close> of flags is truncated to the
  bits of the bit set.
\<close>

definition Task_new :: "nat \<Rightarrow> task_info \<Rightarrow> task_ref option \<Rightarrow> 64 word \<Rightarrow> task" where
  "Task_new argsBlock taskInfo parent flags =
     \<lparr>t_argsBlock = argsBlock,
      t_taskInfo = taskInfo,
      t_countdownToBeWokenUp = 1,
      t_parent = parent,
      t_priority = 0,
      t_thread = None,
      t_flags = ucast flags,
      t_predecessorCount = 0,
      t_schedulerInfo = None,
      t_computePlace = None,
      t_deviceData = None,
      t_countdownToRelease = 1\<rparr>"

section \<open>Member functions\<close>

definition hasCode :: "task \<Rightarrow> bool result" where
  "hasCode t =
     assert_that (ti_implementation_count (t_taskInfo t) = 1) ''implementation_count == 1''
       (Inr (ti_has_run (t_taskInfo t)))"

definition setThread :: "thread_ref \<Rightarrow> task \<Rightarrow> task result" where
  "setThread thread t =
     assert_that (t_thread t = None) ''_thread == nullptr'' (Inr (t\<lparr>t_thread := Some thread\<rparr>))"

definition addChild :: "task \<Rightarrow> task" where
  "addChild t = t\<lparr>t_countdownToBeWokenUp := t_countdownToBeWokenUp t + 1\<rparr>"

definition removeChild :: "task \<Rightarrow> (bool \<times> task) result" where
  "removeChild t =
     (let countdown = t_countdownToBeWokenUp t - 1 in
      assert_that (countdown \<ge> 0) ''countdown >= 0''
        (Inr (countdown = 0, t\<lparr>t_countdownToBeWokenUp := countdown\<rparr>)))"

definition increaseRemovalBlockingCount :: "task \<Rightarrow> task" where
  "increaseRemovalBlockingCount t = t\<lparr>t_countdownToBeWokenUp := t_countdownToBeWokenUp t + 1\<rparr>"

definition decreaseRemovalBlockingCount :: "task \<Rightarrow> (bool \<times> task) result" where
  "decreaseRemovalBlockingCount t =
     (let countdown = t_countdownToBeWokenUp t - 1 in
      assert_that (countdown \<ge> 0) ''countdown >= 0''
        (Inr (countdown = 0, t\<lparr>t_countdownToBeWokenUp := countdown\<rparr>)))"

definition decreaseAndGetRemovalBlockingCount :: "task \<Rightarrow> (int \<times> task) result" where
  "decreaseAndGetRemovalBlockingCount t =
     (let countdown = t_countdownToBeWokenUp t - 1 in
      assert_that (countdown \<ge> 0) ''countdown >= 0''
        (Inr (countdown, t\<lparr>t_countdownToBeWokenUp := countdown\<rparr>)))"

text \<open>
  \<open>setParent\<close> and \<open>unlinkFromParent\<close> reach the parent through its pointer: both take the
  heap of tasks.
\<close>

type_synonym task_heap = "task_ref \<Rightarrow> task"

definition setParent :: "task_ref \<Rightarrow> task_ref \<Rightarrow> task_heap \<Rightarrow> task_heap" where
  "setParent this parent h =
     (let h1 = h(this := (h this)\<lparr>t_parent := Some parent\<rparr>) in
      h1(parent := addChild (h1 parent)))"

definition unlinkFromParent :: "task_ref \<Rightarrow> task_heap \<Rightarrow> (bool \<times> task_heap) result" where
  "unlinkFromParent this h =
     (case t_parent (h this) of
        Some parent \<Rightarrow>
          result_bind (removeChild (h parent)) (\<lambda>(b, p'). Inr (b, h(parent := p')))
      | None \<Rightarrow> Inr (t_countdownToBeWokenUp (h this) = 0, h))"

definition setPriority :: "int \<Rightarrow> task \<Rightarrow> task" where
  "setPriority priority t = t\<lparr>t_priority := priority\<rparr>"

definition markAsReleased :: "task \<Rightarrow> (bool \<times> task) result" where
  "markAsReleased t =
     assert_that (t_thread t = None) ''_thread == nullptr''
       (assert_that (t_computePlace t = None) ''_computePlace == nullptr''
         (decreaseRemovalBlockingCount t))"

definition markAsBlocked :: "task \<Rightarrow> (bool \<times> task) result" where
  "markAsBlocked t =
     assert_that (t_thread t \<noteq> None) ''_thread != nullptr''
       (let countdown = t_countdownToBeWokenUp t - 1 in
        assert_that (countdown \<ge> 0) ''countdown >= 0''
          (Inr (countdown = 0, t\<lparr>t_countdownToBeWokenUp := countdown\<rparr>)))"

definition markAsUnblocked :: "task \<Rightarrow> (bool \<times> task) result" where
  "markAsUnblocked t =
     assert_that (t_thread t \<noteq> None) ''_thread != nullptr''
       (let countdown = t_countdownToBeWokenUp t + 1 in
        Inr (countdown = 1, t\<lparr>t_countdownToBeWokenUp := countdown\<rparr>))"

definition hasFinished :: "task \<Rightarrow> bool" where
  "hasFinished t =
     (if ti_device_type_id (t_taskInfo t) \<noteq> nanos6_host_device
      then t_computePlace t = None
      else t_thread t = None)"

definition canBeWokenUp :: "task \<Rightarrow> bool result" where
  "canBeWokenUp t =
     assert_that (t_thread t \<noteq> None) ''_thread != nullptr''
       (Inr (t_countdownToBeWokenUp t = 0))"

definition doesNotNeedToBlockForChildren :: "task \<Rightarrow> bool" where
  "doesNotNeedToBlockForChildren t = (t_countdownToBeWokenUp t = 1)"

text \<open>
  The compare-and-swap loop of \<open>disableScheduling\<close> retries until either the exchange succeeds or
  the counter is 0, so its net effect is one atomic conditional increment.
\<close>

definition disableScheduling :: "task \<Rightarrow> (bool \<times> task) result" where
  "disableScheduling t =
     (let countdown = t_countdownToBeWokenUp t in
      assert_that (countdown \<ge> 0) ''countdown >= 0''
        (Inr (if countdown > 0
              then (True, t\<lparr>t_countdownToBeWokenUp := countdown + 1\<rparr>)
              else (False, t))))"

definition enableScheduling :: "task \<Rightarrow> (bool \<times> task) result" where
  "enableScheduling t =
     (let countdown = t_countdownToBeWokenUp t - 1 in
      assert_that (countdown \<ge> 0) ''countdown >= 0''
        (Inr (countdown = 0, t\<lparr>t_countdownToBeWokenUp := countdown\<rparr>)))"

definition increasePredecessors :: "int \<Rightarrow> task \<Rightarrow> task" where
  "increasePredecessors amount t = t\<lparr>t_predecessorCount := t_predecessorCount t + amount\<rparr>"

definition decreasePredecessors :: "int \<Rightarrow> task \<Rightarrow> bool \<times> task" where
  "decreasePredecessors amount t =
     (let n = t_predecessorCount t - amount in (n = 0, t\<lparr>t_predecessorCount := n\<rparr>))"

definition setFlag :: "nat \<Rightarrow> bool \<Rightarrow> task \<Rightarrow> task" where
  "setFlag n b t =
     t\<lparr>t_flags := (if b then set_bit n (t_flags t) else unset_bit n (t_flags t))\<rparr>"

definition setFinal :: "bool \<Rightarrow> task \<Rightarrow> task" where
  "setFinal b = setFlag final_flag b"

definition isFinal :: "task \<Rightarrow> bool" where
  "isFinal t = bit (t_flags t) final_flag"

definition setIf0 :: "bool \<Rightarrow> task \<Rightarrow> task" where
  "setIf0 b = setFlag if0_flag b"

definition isIf0 :: "task \<Rightarrow> bool" where
  "isIf0 t = bit (t_flags t) if0_flag"

definition setTaskloop :: "bool \<Rightarrow> task \<Rightarrow> task" where
  "setTaskloop b = setFlag taskloop_flag b"

definition isTaskloop :: "task \<Rightarrow> bool" where
  "isTaskloop t = bit (t_flags t) taskloop_flag"

definition isRunnable :: "task \<Rightarrow> bool" where
  "isRunnable t = (\<not> bit (t_flags t) non_runnable_flag)"

definition mustDelayRelease :: "task \<Rightarrow> bool" where
  "mustDelayRelease t = bit (t_flags t) wait_flag"

definition completeDelayedRelease :: "task \<Rightarrow> task result" where
  "completeDelayedRelease t =
     assert_that (bit (t_flags t) wait_flag) ''_flags[wait_flag]'' (Inr (setFlag wait_flag False t))"

definition getFlags :: "task \<Rightarrow> 64 word" where
  "getFlags t = ucast (t_flags t)"

definition increaseReleaseCount :: "int \<Rightarrow> task \<Rightarrow> task" where
  "increaseReleaseCount amount t = t\<lparr>t_countdownToRelease := t_countdownToRelease t + amount\<rparr>"

definition decreaseReleaseCount :: "int \<Rightarrow> task \<Rightarrow> (bool \<times> task) result" where
  "decreaseReleaseCount amount t =
     (let count = t_countdownToRelease t - amount in
      assert_that (count \<ge> 0) ''count >= 0''
        (Inr (count = 0, t\<lparr>t_countdownToRelease := count\<rparr>)))"

definition setComputePlace :: "cpu_ref option \<Rightarrow> task \<Rightarrow> task" where
  "setComputePlace cp t = t\<lparr>t_computePlace := cp\<rparr>"

definition getDeviceType :: "task \<Rightarrow> nanos6_device_t" where
  "getDeviceType t = ti_device_type_id (t_taskInfo t)"

section \<open>Finishing a task\<close>

text \<open>
  The hooks \<open>DataAccessRegistration::handleEnterTaskwait\<close> and \<open>handleExitTaskwait\<close> of the
  discrete dependency system are empty.
\<close>

definition handleEnterTaskwait :: "task \<Rightarrow> task" where
  "handleEnterTaskwait t = t"

definition handleExitTaskwait :: "task \<Rightarrow> task" where
  "handleExitTaskwait t = t"

definition markAsFinished :: "task \<Rightarrow> (bool \<times> task) result" where
  "markAsFinished t =
     result_bind
       (if isRunnable t
        then (if ti_device_type_id (t_taskInfo t) = nanos6_host_device
              then assert_that (t_thread t \<noteq> None) ''_thread != nullptr''
                     (Inr (t\<lparr>t_thread := None\<rparr>))
              else assert_that (t_computePlace t \<noteq> None) ''_computePlace != nullptr''
                     (Inr (t\<lparr>t_computePlace := None\<rparr>)))
        else Inr t)
       (\<lambda>t1.
         if mustDelayRelease t1
         then result_bind (decreaseRemovalBlockingCount (handleEnterTaskwait t1))
                (\<lambda>(zero, t2).
                  if \<not> zero then Inr (False, t2)
                  else result_bind (completeDelayedRelease t2)
                         (\<lambda>t3. decreaseReleaseCount 1
                                 (increaseRemovalBlockingCount (handleExitTaskwait t3))))
         else decreaseReleaseCount 1 t1)"

definition markAllChildrenAsFinished :: "task \<Rightarrow> (bool \<times> task) result" where
  "markAllChildrenAsFinished t =
     assert_that (t_thread t = None) ''_thread == nullptr''
       (assert_that (t_computePlace t = None) ''_computePlace == nullptr''
         (result_bind (completeDelayedRelease t)
            (\<lambda>t1. decreaseReleaseCount 1 (increaseRemovalBlockingCount (handleExitTaskwait t1)))))"

end
