(* ===== verification/N6_World.thy ===== *)
theory N6_World
  imports N6_Task
begin

text \<open>
  The objects that the schedulers, the dependency system and the task life cycle share: compute
  places (\<open>src/hardware/places/ComputePlace.hpp\<close>, \<open>src/executors/threads/CPU.hpp\<close>), the CPU
  manager (\<open>src/executors/threads/CPUManager.hpp\<close>), worker threads
  (\<open>kernel-level/WorkerThreadBase.hpp\<close>) and the thread manager
  (\<open>src/executors/threads/ThreadManager.hpp\<close>), gathered in one record that the operations pass on.
  Every CPU manager operation holds \<open>_idleCPUsLock\<close>, every thread manager operation holds the lock
  of the list it changes: each is one step.
\<close>

section \<open>Data\<close>

datatype activation_status_t =
    uninitialized_status
  | starting_status
  | enabled_status
  | enabling_status
  | disabling_status
  | disabled_status

record compute_place =
  cp_type :: nanos6_device_t
  cp_schedulerData :: "task_ref option"
  cp_activationStatus :: activation_status_t
  cp_virtualCPUId :: nat
  cp_NUMANodeId :: nat

record cpu_manager =
  cm_cpus :: "cpu_ref option list"
  cm_idleCPUs :: "bool list"
  cm_NUMANodeMask :: "bool list list"

record worker_thread =
  th_cpu :: "cpu_ref option"
  th_cpuToBeResumedOn :: "cpu_ref option"
  th_task :: "task_ref option"
  th_originalNumaNode :: nat
  th_mustShutDown :: bool

record thread_manager =
  tm_mustExit :: bool
  tm_idleThreads :: "thread_ref list list"
  tm_totalThreads :: nat

text \<open>
  \<open>w_slot c\<close> is the field \<open>_task\<close> of the \<open>polling_slot_t\<close> on the stack of the thread that polls on
  CPU \<open>c\<close>; a polling slot is named by that CPU. \<open>w_resumed\<close> records the calls of
  \<open>KernelLevelThread::resume\<close> in order.
\<close>

record world =
  w_tasks :: task_heap
  w_places :: "cpu_ref \<Rightarrow> compute_place"
  w_slot :: "cpu_ref \<Rightarrow> task_ref option"
  w_cpum :: cpu_manager
  w_threads :: "thread_ref \<Rightarrow> worker_thread"
  w_tm :: thread_manager
  w_resumed :: "(thread_ref \<times> cpu_ref) list"

definition w_cpus :: "world \<Rightarrow> cpu_ref list" where
  "w_cpus w = List.map_filter id (cm_cpus (w_cpum w))"

section \<open>Updates of single objects\<close>

definition upd_task :: "task_ref \<Rightarrow> (task \<Rightarrow> task) \<Rightarrow> world \<Rightarrow> world" where
  "upd_task t f w = w\<lparr>w_tasks := (w_tasks w)(t := f (w_tasks w t))\<rparr>"

definition schedulerData :: "world \<Rightarrow> cpu_ref \<Rightarrow> task_ref option" where
  "schedulerData w c = cp_schedulerData (w_places w c)"

definition set_schedulerData :: "cpu_ref \<Rightarrow> task_ref option \<Rightarrow> world \<Rightarrow> world" where
  "set_schedulerData c x w =
     w\<lparr>w_places := (w_places w)(c := (w_places w c)\<lparr>cp_schedulerData := x\<rparr>)\<rparr>"

definition set_slot :: "cpu_ref \<Rightarrow> task_ref option \<Rightarrow> world \<Rightarrow> world" where
  "set_slot c x w = w\<lparr>w_slot := (w_slot w)(c := x)\<rparr>"

definition upd_thread :: "thread_ref \<Rightarrow> (worker_thread \<Rightarrow> worker_thread) \<Rightarrow> world \<Rightarrow> world" where
  "upd_thread th f w = w\<lparr>w_threads := (w_threads w)(th := f (w_threads w th))\<rparr>"

section \<open>CPU manager\<close>

definition cpuBecomesIdle :: "cpu_ref \<Rightarrow> world \<Rightarrow> world" where
  "cpuBecomesIdle cpu w =
     (let m = w_cpum w in
      w\<lparr>w_cpum := m\<lparr>cm_idleCPUs := (cm_idleCPUs m)[cp_virtualCPUId (w_places w cpu) := True]\<rparr>\<rparr>)"

definition getIdleCPU :: "world \<Rightarrow> cpu_ref option \<times> world" where
  "getIdleCPU w =
     (let m = w_cpum w in
      case find_index_from 0 id (cm_idleCPUs m) of
        Some i \<Rightarrow> (cm_cpus m ! i, w\<lparr>w_cpum := m\<lparr>cm_idleCPUs := (cm_idleCPUs m)[i := False]\<rparr>\<rparr>)
      | None \<Rightarrow> (None, w))"

text \<open>
  \<open>getIdleCPUs\<close> walks the set bits with \<open>find_first\<close> and \<open>find_next\<close>, clears each and appends the
  CPU at its position.
\<close>

fun collect_idle :: "bool list \<Rightarrow> cpu_ref option list \<Rightarrow> cpu_ref option list" where
  "collect_idle (b # bs) (c # cs) = (if b then c # collect_idle bs cs else collect_idle bs cs)"
| "collect_idle bs cs = []"

definition getIdleCPUs :: "world \<Rightarrow> cpu_ref option list \<times> world" where
  "getIdleCPUs w =
     (let m = w_cpum w in
      (collect_idle (cm_idleCPUs m) (cm_cpus m),
       w\<lparr>w_cpum := m\<lparr>cm_idleCPUs := map (\<lambda>b. False) (cm_idleCPUs m)\<rparr>\<rparr>))"

definition getIdleNUMANodeCPU :: "nat \<Rightarrow> world \<Rightarrow> cpu_ref option \<times> world" where
  "getIdleNUMANodeCPU numa w =
     (let m = w_cpum w;
          tmpIdleCPUs = map2 (\<and>) (cm_idleCPUs m) (cm_NUMANodeMask m ! numa) in
      case find_index_from 0 id tmpIdleCPUs of
        Some i \<Rightarrow> (cm_cpus m ! i, w\<lparr>w_cpum := m\<lparr>cm_idleCPUs := (cm_idleCPUs m)[i := False]\<rparr>\<rparr>)
      | None \<Rightarrow> (None, w))"

definition unidleCPU :: "cpu_ref \<Rightarrow> world \<Rightarrow> bool \<times> world" where
  "unidleCPU cpu w =
     (let m = w_cpum w; v = cp_virtualCPUId (w_places w cpu) in
      if cm_idleCPUs m ! v
      then (True, w\<lparr>w_cpum := m\<lparr>cm_idleCPUs := (cm_idleCPUs m)[v := False]\<rparr>\<rparr>)
      else (False, w))"

section \<open>Worker threads\<close>

definition thread_resume :: "thread_ref \<Rightarrow> cpu_ref \<Rightarrow> world \<Rightarrow> world result" where
  "thread_resume th cpu w =
     assert_that (th_cpuToBeResumedOn (w_threads w th) = None) ''_cpuToBeResumedOn == nullptr''
       (Inr ((upd_thread th (\<lambda>t. t\<lparr>th_cpuToBeResumedOn := Some cpu\<rparr>) w)
              \<lparr>w_resumed := w_resumed w @ [(th, cpu)]\<rparr>))"

text \<open>The part of \<open>suspend\<close> after the kernel-level thread has been woken up.\<close>

definition thread_wakeup :: "thread_ref \<Rightarrow> world \<Rightarrow> world result" where
  "thread_wakeup th w =
     assert_that (th_cpuToBeResumedOn (w_threads w th) \<noteq> None) ''_cpuToBeResumedOn != nullptr''
       (Inr (upd_thread th
              (\<lambda>t. t\<lparr>th_cpu := th_cpuToBeResumedOn t, th_cpuToBeResumedOn := None\<rparr>) w))"

definition thread_migrate :: "thread_ref \<Rightarrow> cpu_ref \<Rightarrow> world \<Rightarrow> world result" where
  "thread_migrate th cpu w =
     assert_that (th_cpu (w_threads w th) \<noteq> Some cpu) ''_cpu != cpu''
       (assert_that (th_cpuToBeResumedOn (w_threads w th) = None) ''_cpuToBeResumedOn == nullptr''
         (Inr (upd_thread th (\<lambda>t. t\<lparr>th_cpu := Some cpu\<rparr>) w)))"

text \<open>The part of \<open>switchTo\<close> before the current thread suspends itself.\<close>

definition thread_switchTo :: "thread_ref \<Rightarrow> thread_ref option \<Rightarrow> world \<Rightarrow> world result" where
  "thread_switchTo th replacement w =
     assert_that (replacement \<noteq> Some th) ''replacement != this''
       (assert_that (th_cpu (w_threads w th) \<noteq> None) ''cpu != nullptr''
         (case replacement of
            Some r \<Rightarrow> thread_resume r (the (th_cpu (w_threads w th))) w
          | None \<Rightarrow> Inr w))"

definition thread_setTask :: "thread_ref \<Rightarrow> task_ref \<Rightarrow> world \<Rightarrow> world result" where
  "thread_setTask th task w =
     assert_that (th_task (w_threads w th) = None) ''_task == nullptr''
       (Inr (upd_thread th (\<lambda>t. t\<lparr>th_task := Some task\<rparr>) w))"

section \<open>Thread manager\<close>

text \<open>A new thread is named by the number of threads created before it.\<close>

definition createWorkerThread :: "cpu_ref \<Rightarrow> world \<Rightarrow> (thread_ref \<times> world) result" where
  "createWorkerThread cpu w =
     assert_that (\<not> tm_mustExit (w_tm w)) ''!_mustExit''
       (let th = tm_totalThreads (w_tm w);
            w1 = w\<lparr>w_tm := (w_tm w)\<lparr>tm_totalThreads := Suc th\<rparr>\<rparr> in
        Inr (th, upd_thread th
                   (\<lambda>_. \<lparr>th_cpu = Some cpu, th_cpuToBeResumedOn = None, th_task = None,
                         th_originalNumaNode = cp_NUMANodeId (w_places w cpu),
                         th_mustShutDown = False\<rparr>) w1))"

definition set_idleThreads :: "nat \<Rightarrow> thread_ref list \<Rightarrow> world \<Rightarrow> world" where
  "set_idleThreads numa ths w =
     w\<lparr>w_tm := (w_tm w)\<lparr>tm_idleThreads := (tm_idleThreads (w_tm w))[numa := ths]\<rparr>\<rparr>"

definition getIdleThread ::
  "cpu_ref \<Rightarrow> bool \<Rightarrow> world \<Rightarrow> (thread_ref option \<times> world) result" where
  "getIdleThread cpu doNotCreate w =
     (let numa = cp_NUMANodeId (w_places w cpu) in
      case tm_idleThreads (w_tm w) ! numa of
        th # ths \<Rightarrow>
          assert_that (th_task (w_threads w th) = None) ''idleThread->getTask() == nullptr''
            (Inr (Some th, set_idleThreads numa ths w))
      | [] \<Rightarrow>
          if doNotCreate then Inr (None, w)
          else result_bind (createWorkerThread cpu w) (\<lambda>(th, w'). Inr (Some th, w')))"

fun getAnyIdleThread_from ::
  "nat \<Rightarrow> thread_ref list list \<Rightarrow> world \<Rightarrow> (thread_ref option \<times> world) result" where
  "getAnyIdleThread_from i [] w = Inr (None, w)"
| "getAnyIdleThread_from i ((th # ths) # rest) w =
     assert_that (th_task (w_threads w th) = None) ''idleThread->getTask() == nullptr''
       (Inr (Some th, set_idleThreads i ths w))"
| "getAnyIdleThread_from i ([] # rest) w = getAnyIdleThread_from (Suc i) rest w"

definition getAnyIdleThread :: "world \<Rightarrow> (thread_ref option \<times> world) result" where
  "getAnyIdleThread w = getAnyIdleThread_from 0 (tm_idleThreads (w_tm w)) w"

definition addIdler :: "thread_ref \<Rightarrow> world \<Rightarrow> world result" where
  "addIdler th w =
     (let numa = th_originalNumaNode (w_threads w th);
          ths = tm_idleThreads (w_tm w) ! numa in
      assert_that (th \<notin> set ths) ''idle thread already in the list''
        (Inr (set_idleThreads numa (th # ths) w)))"

definition resumeIdle :: "cpu_ref \<Rightarrow> bool \<Rightarrow> world \<Rightarrow> (thread_ref option \<times> world) result" where
  "resumeIdle cpu doNotCreate w =
     result_bind (getIdleThread cpu doNotCreate w)
       (\<lambda>(idleThread, w1).
         case idleThread of
           None \<Rightarrow> Inr (None, w1)
         | Some th \<Rightarrow> result_bind (thread_resume th cpu w1) (\<lambda>w2. Inr (Some th, w2)))"

fun resumeIdle_list :: "cpu_ref option list \<Rightarrow> bool \<Rightarrow> world \<Rightarrow> world result" where
  "resumeIdle_list [] doNotCreate w = Inr w"
| "resumeIdle_list (None # cs) doNotCreate w = Inl (AssertFailed ''idleCPU != nullptr'')"
| "resumeIdle_list (Some cpu # cs) doNotCreate w =
     result_bind (resumeIdle cpu doNotCreate w) (\<lambda>(th, w1). resumeIdle_list cs doNotCreate w1)"

definition mustExit :: "world \<Rightarrow> bool" where
  "mustExit w = tm_mustExit (w_tm w)"

section \<open>Worlds to evaluate on\<close>

text \<open>
  A machine with \<open>n\<close> enabled host CPUs on one NUMA node, all busy, no threads yet, on which every
  task is a plain host task: the start state of the concrete runs.
\<close>

definition plain_task :: task where
  "plain_task = Task_new 0 \<lparr>ti_device_type_id = nanos6_host_device, ti_implementation_count = 1,
     ti_has_run = True, ti_num_symbols = 0, ti_get_priority = None\<rparr> None 0"

definition plain_place :: "nat \<Rightarrow> compute_place" where
  "plain_place c = \<lparr>cp_type = nanos6_host_device, cp_schedulerData = None,
     cp_activationStatus = enabled_status, cp_virtualCPUId = c, cp_NUMANodeId = 0\<rparr>"

definition plain_world :: "nat \<Rightarrow> world" where
  "plain_world n =
     \<lparr>w_tasks = (\<lambda>_. plain_task), w_places = plain_place, w_slot = (\<lambda>_. None),
      w_cpum = \<lparr>cm_cpus = map Some [0..<n], cm_idleCPUs = replicate n False,
                cm_NUMANodeMask = [replicate n True]\<rparr>,
      w_threads = (\<lambda>_. \<lparr>th_cpu = None, th_cpuToBeResumedOn = None, th_task = None,
                         th_originalNumaNode = 0, th_mustShutDown = False\<rparr>),
      w_tm = \<lparr>tm_mustExit = False, tm_idleThreads = [[]], tm_totalThreads = 0\<rparr>,
      w_resumed = []\<rparr>"

end
