(* ===== verification/N6_SchedulerInterface.thy ===== *)
theory N6_SchedulerInterface
  imports N6_World
begin

text \<open>
  The scheduler interface (\<open>src/scheduling/SchedulerInterface.hpp\<close>, \<open>.cpp\<close>) and the facade that the
  rest of the runtime calls (\<open>src/scheduling/Scheduler.hpp\<close>, \<open>.cpp\<close>). The abstract class is a record
  of its virtual functions over the state \<open>'s\<close> of the concrete scheduler; the facade is written over
  that record. The locale \<open>ready_pool\<close> states what a scheduler promises: it neither loses nor
  duplicates a task.
\<close>

section \<open>Interface\<close>

datatype ReadyTaskHint =
    NO_HINT
  | CHILD_TASK_HINT
  | SIBLING_TASK_HINT
  | BUSY_COMPUTE_PLACE_TASK_HINT
  | UNBLOCKED_TASK_HINT

text \<open>
  \<open>polling_slot_t::getTask\<close> and \<open>setTask\<close>: the compare-and-swap loop of the first is an atomic
  exchange with null, the second is one compare-and-swap against null.
\<close>

definition slot_getTask :: "cpu_ref \<Rightarrow> world \<Rightarrow> task_ref option \<times> world" where
  "slot_getTask c w = (w_slot w c, set_slot c None w)"

definition slot_setTask :: "cpu_ref \<Rightarrow> task_ref \<Rightarrow> world \<Rightarrow> bool \<times> world" where
  "slot_setTask c t w =
     (case w_slot w c of None \<Rightarrow> (True, set_slot c (Some t) w) | Some _ \<Rightarrow> (False, w))"

record 's scheduler_ops =
  so_addReadyTask ::
    "'s \<Rightarrow> world \<Rightarrow> task_ref \<Rightarrow> cpu_ref option \<Rightarrow> ReadyTaskHint \<Rightarrow> bool \<Rightarrow>
       (cpu_ref option \<times> 's \<times> world) result"
  so_getReadyTask ::
    "'s \<Rightarrow> world \<Rightarrow> cpu_ref \<Rightarrow> task_ref option \<Rightarrow> bool \<Rightarrow> bool \<Rightarrow>
       (task_ref option \<times> 's \<times> world) result"
  so_canWait :: bool
  so_getIdleComputePlace :: "'s \<Rightarrow> world \<Rightarrow> bool \<Rightarrow> cpu_ref option \<times> 's \<times> world"
  so_disableComputePlace :: "'s \<Rightarrow> world \<Rightarrow> cpu_ref \<Rightarrow> ('s \<times> world) result"
  so_enableComputePlace :: "'s \<Rightarrow> world \<Rightarrow> cpu_ref \<Rightarrow> ('s \<times> world) result"
  so_requestPolling :: "'s \<Rightarrow> world \<Rightarrow> cpu_ref \<Rightarrow> cpu_ref \<Rightarrow> (bool \<times> 's \<times> world) result"
  so_releasePolling :: "'s \<Rightarrow> world \<Rightarrow> cpu_ref \<Rightarrow> cpu_ref \<Rightarrow> (bool \<times> 's \<times> world) result"
  so_getName :: string

section \<open>Default implementations of the interface\<close>

definition Interface_canWait :: bool where
  "Interface_canWait = False"

definition Interface_disableComputePlace :: "'s \<Rightarrow> world \<Rightarrow> cpu_ref \<Rightarrow> ('s \<times> world) result" where
  "Interface_disableComputePlace s w cp = Inr (s, w)"

definition Interface_enableComputePlace :: "'s \<Rightarrow> world \<Rightarrow> cpu_ref \<Rightarrow> ('s \<times> world) result" where
  "Interface_enableComputePlace s w cp = Inr (s, w)"

text \<open>
  The default \<open>requestPolling\<close> calls \<open>Scheduler::getReadyTask(computePlace)\<close>, which with
  \<open>doWait = false\<close> is the scheduler's own \<open>getReadyTask\<close> (argument \<open>get\<close>).
\<close>

definition Interface_requestPolling ::
  "('s \<Rightarrow> world \<Rightarrow> cpu_ref \<Rightarrow> task_ref option \<Rightarrow> bool \<Rightarrow> bool \<Rightarrow>
      (task_ref option \<times> 's \<times> world) result) \<Rightarrow>
   's \<Rightarrow> world \<Rightarrow> cpu_ref \<Rightarrow> cpu_ref \<Rightarrow> (bool \<times> 's \<times> world) result" where
  "Interface_requestPolling get s w cp slot =
     assert_that (w_slot w slot = None) ''pollingSlot->_task == nullptr''
       (result_bind (get s w cp None True False)
          (\<lambda>(task, s1, w1).
            case task of
              Some t \<Rightarrow> (let (b, w2) = slot_setTask slot t w1 in
                         assert_that b ''expected == nullptr'' (Inr (True, s1, w2)))
            | None \<Rightarrow> Inr (False, s1, w1)))"

definition Interface_releasePolling ::
  "'s \<Rightarrow> world \<Rightarrow> cpu_ref \<Rightarrow> cpu_ref \<Rightarrow> (bool \<times> 's \<times> world) result" where
  "Interface_releasePolling s w cp slot = Inr (w_slot w slot = None, s, w)"

section \<open>Facade\<close>

text \<open>\<open>CPUActivation::acceptsWork\<close>.\<close>

fun acceptsWork :: "activation_status_t \<Rightarrow> bool" where
  "acceptsWork starting_status = True"
| "acceptsWork enabled_status = True"
| "acceptsWork enabling_status = True"
| "acceptsWork uninitialized_status = False"
| "acceptsWork disabling_status = False"
| "acceptsWork disabled_status = False"

definition Scheduler_addReadyTask ::
  "'s scheduler_ops \<Rightarrow> 's \<Rightarrow> world \<Rightarrow> task_ref \<Rightarrow> cpu_ref option \<Rightarrow> ReadyTaskHint \<Rightarrow>
     (cpu_ref option \<times> 's \<times> world) result" where
  "Scheduler_addReadyTask ops s w task cp hint =
     (if hint = UNBLOCKED_TASK_HINT then so_addReadyTask ops s w task cp hint False
      else if isTaskloop (w_tasks w task)
      then result_bind (so_addReadyTask ops s w task cp hint False)
             (\<lambda>(_, s1, w1).
               let (idleCPUs, w2) = getIdleCPUs w1 in
               if idleCPUs \<noteq> []
               then result_bind (resumeIdle_list idleCPUs False w2) (\<lambda>w3. Inr (None, s1, w3))
               else Inr (None, s1, w2))
      else so_addReadyTask ops s w task cp hint True)"

text \<open>
  The polling loop of \<open>Scheduler::getReadyTask\<close>. Between two evaluations of the loop condition the
  other threads run: \<open>env\<close> lists what they do to the shared state before each read of the slot.
  \<open>None\<close> as result means that the loop has not returned when the list is exhausted; \<open>after\<close> is what
  the others do between the end of the loop and the tests that follow it. The polling
  services that the loop runs while it waits are part of that interference.
\<close>

fun polling_loop ::
  "('s \<times> world \<Rightarrow> 's \<times> world) list \<Rightarrow> cpu_ref \<Rightarrow> 's \<Rightarrow> world \<Rightarrow>
     (task_ref option \<times> 's \<times> world) option" where
  "polling_loop env cp s w =
     (if mustExit w \<or> \<not> acceptsWork (cp_activationStatus (w_places w cp)) then Some (None, s, w)
      else (case env of
              [] \<Rightarrow> None
            | e # es \<Rightarrow>
                (let (s1, w1) = e (s, w);
                     (task, w2) = slot_getTask cp w1 in
                 case task of
                   Some t \<Rightarrow> Some (Some t, s1, w2)
                 | None \<Rightarrow> polling_loop es cp s1 w2)))"

declare polling_loop.simps [simp del]

definition Scheduler_getReadyTask ::
  "'s scheduler_ops \<Rightarrow> ('s \<times> world \<Rightarrow> 's \<times> world) list \<Rightarrow> ('s \<times> world \<Rightarrow> 's \<times> world) \<Rightarrow>
     's \<Rightarrow> world \<Rightarrow> cpu_ref \<Rightarrow> task_ref option \<Rightarrow> bool \<Rightarrow>
     (task_ref option \<times> 's \<times> world) result option" where
  "Scheduler_getReadyTask ops env after s w cp currentTask doWait =
     (if so_canWait ops \<or> \<not> doWait
      then Some (so_getReadyTask ops s w cp currentTask True doWait)
      else
        (case so_requestPolling ops s (set_slot cp None w) cp cp of
           Inl e \<Rightarrow> Some (Inl e)
         | Inr (False, s1, w1) \<Rightarrow> Some (Inr (None, s1, w1))
         | Inr (True, s1, w1) \<Rightarrow>
             (case polling_loop env cp s1 w1 of
                None \<Rightarrow> None
              | Some (task, s1', w1') \<Rightarrow>
                  (let (s2, w2) = after (s1', w1') in
                   Some (result_bind
                     (if mustExit w2 then so_releasePolling ops s2 w2 cp cp else Inr (True, s2, w2))
                     (\<lambda>(worked, s3, w3).
                       assert_that worked ''worked''
                         (if \<not> acceptsWork (cp_activationStatus (w_places w3 cp))
                          then result_bind (so_releasePolling ops s3 w3 cp cp)
                                 (\<lambda>(_, s4, w4).
                                   let (task', w5) = slot_getTask cp w4 in Inr (task', s4, w5))
                          else Inr (task, s3, w3))))))))"

definition Scheduler_getIdleComputePlace ::
  "'s scheduler_ops \<Rightarrow> 's \<Rightarrow> world \<Rightarrow> bool \<Rightarrow> cpu_ref option \<times> 's \<times> world" where
  "Scheduler_getIdleComputePlace ops s w force = so_getIdleComputePlace ops s w force"

definition Scheduler_disableComputePlace ::
  "'s scheduler_ops \<Rightarrow> 's \<Rightarrow> world \<Rightarrow> cpu_ref \<Rightarrow> ('s \<times> world) result" where
  "Scheduler_disableComputePlace ops s w cp = so_disableComputePlace ops s w cp"

definition Scheduler_enableComputePlace ::
  "'s scheduler_ops \<Rightarrow> 's \<Rightarrow> world \<Rightarrow> cpu_ref \<Rightarrow> ('s \<times> world) result" where
  "Scheduler_enableComputePlace ops s w cp = so_enableComputePlace ops s w cp"

section \<open>Tasks held outside the queues\<close>

definition held_slots :: "world \<Rightarrow> task_ref multiset" where
  "held_slots w = slots_mset (schedulerData w) (w_cpus w) + slots_mset (w_slot w) (w_cpus w)"

definition world_ok :: "world \<Rightarrow> bool" where
  "world_ok w = distinct (w_cpus w)"

definition place_ok :: "world \<Rightarrow> cpu_ref \<Rightarrow> bool" where
  "place_ok w c = (c \<in> set (w_cpus w))"

lemma w_cpus_simps [simp, n6_simps]:
  "w_cpus (set_schedulerData c x w) = w_cpus w"
  "w_cpus (set_slot c x w) = w_cpus w"
  "w_cpus (upd_task t f w) = w_cpus w"
  "w_cpus (cpuBecomesIdle c w) = w_cpus w"
  "w_cpus (snd (getIdleCPU w)) = w_cpus w"
  "w_cpus (snd (getIdleNUMANodeCPU n w)) = w_cpus w"
  by (simp_all add: w_cpus_def set_schedulerData_def set_slot_def upd_task_def cpuBecomesIdle_def
      getIdleCPU_def getIdleNUMANodeCPU_def Let_def split: option.splits)

lemma schedulerData_simps [simp, n6_simps]:
  "schedulerData (set_schedulerData c x w) = (schedulerData w)(c := x)"
  "schedulerData (set_slot c x w) = schedulerData w"
  "schedulerData (upd_task t f w) = schedulerData w"
  "schedulerData (cpuBecomesIdle c w) = schedulerData w"
  "schedulerData (snd (getIdleCPU w)) = schedulerData w"
  "schedulerData (snd (getIdleNUMANodeCPU n w)) = schedulerData w"
  by (auto simp: schedulerData_def set_schedulerData_def set_slot_def upd_task_def
      cpuBecomesIdle_def getIdleCPU_def getIdleNUMANodeCPU_def Let_def fun_eq_iff split: option.splits)

lemma w_slot_simps [simp, n6_simps]:
  "w_slot (set_schedulerData c x w) = w_slot w"
  "w_slot (set_slot c x w) = (w_slot w)(c := x)"
  "w_slot (upd_task t f w) = w_slot w"
  "w_slot (cpuBecomesIdle c w) = w_slot w"
  "w_slot (snd (getIdleCPU w)) = w_slot w"
  "w_slot (snd (getIdleNUMANodeCPU n w)) = w_slot w"
  by (simp_all add: set_schedulerData_def set_slot_def upd_task_def cpuBecomesIdle_def
      getIdleCPU_def getIdleNUMANodeCPU_def Let_def split: option.splits)

lemma w_tasks_simps [simp, n6_simps]:
  "w_tasks (set_schedulerData c x w) = w_tasks w"
  "w_tasks (set_slot c x w) = w_tasks w"
  "w_tasks (upd_task t f w) = (w_tasks w)(t := f (w_tasks w t))"
  "w_tasks (cpuBecomesIdle c w) = w_tasks w"
  "w_tasks (snd (getIdleCPU w)) = w_tasks w"
  "w_tasks (snd (getIdleNUMANodeCPU n w)) = w_tasks w"
  by (simp_all add: set_schedulerData_def set_slot_def upd_task_def cpuBecomesIdle_def
      getIdleCPU_def getIdleNUMANodeCPU_def Let_def split: option.splits)

lemma world_ok_simps [simp, n6_simps]:
  "world_ok (set_schedulerData c x w) = world_ok w"
  "world_ok (set_slot c x w) = world_ok w"
  "world_ok (upd_task t f w) = world_ok w"
  "world_ok (cpuBecomesIdle c w) = world_ok w"
  "world_ok (snd (getIdleCPU w)) = world_ok w"
  by (simp_all add: world_ok_def)

lemma held_slots_frame [simp, n6_pool]:
  "held_slots (upd_task t f w) = held_slots w"
  "held_slots (cpuBecomesIdle c w) = held_slots w"
  "held_slots (snd (getIdleCPU w)) = held_slots w"
  "held_slots (snd (getIdleNUMANodeCPU n w)) = held_slots w"
  by (simp_all add: held_slots_def)

lemma held_slots_fill_data [n6_pool]:
  "world_ok w \<Longrightarrow> place_ok w c \<Longrightarrow> schedulerData w c = None \<Longrightarrow>
   held_slots (set_schedulerData c (Some t) w) = held_slots w + {#t#}"
  by (simp add: held_slots_def world_ok_def place_ok_def slots_mset_fill)

lemma held_slots_clear_data [n6_pool]:
  "world_ok w \<Longrightarrow> place_ok w c \<Longrightarrow> schedulerData w c = Some t \<Longrightarrow>
   held_slots w = held_slots (set_schedulerData c None w) + {#t#}"
  by (simp add: held_slots_def world_ok_def place_ok_def slots_mset_clear)

lemma held_slots_fill_slot [n6_pool]:
  "world_ok w \<Longrightarrow> place_ok w c \<Longrightarrow> w_slot w c = None \<Longrightarrow>
   held_slots (set_slot c (Some t) w) = held_slots w + {#t#}"
  by (simp add: held_slots_def world_ok_def place_ok_def slots_mset_fill)

lemma held_slots_clear_slot [n6_pool]:
  "world_ok w \<Longrightarrow> place_ok w c \<Longrightarrow> w_slot w c = Some t \<Longrightarrow>
   held_slots w = held_slots (set_slot c None w) + {#t#}"
  by (simp add: held_slots_def world_ok_def place_ok_def slots_mset_clear)

section \<open>Runs of a scheduler\<close>

text \<open>
  A history of calls on a scheduler. Every call runs its critical section atomically, so a
  concurrent execution is some order of such calls. \<open>EvRead c\<close> is the thread polling on \<open>c\<close> that
  empties its slot. An event yields the tasks that it hands to a thread for execution.
\<close>

datatype sched_event =
    EvAdd task_ref "cpu_ref option" ReadyTaskHint bool
  | EvGet cpu_ref "task_ref option" bool bool
  | EvIdle bool
  | EvDisable cpu_ref
  | EvEnable cpu_ref
  | EvRequest cpu_ref
  | EvRelease cpu_ref
  | EvRead cpu_ref

fun sched_exec ::
  "'s scheduler_ops \<Rightarrow> sched_event \<Rightarrow> 's \<Rightarrow> world \<Rightarrow> (task_ref option \<times> 's \<times> world) result" where
  "sched_exec ops (EvAdd t cp h b) s w =
     result_bind (so_addReadyTask ops s w t cp h b) (\<lambda>(_, s1, w1). Inr (None, s1, w1))"
| "sched_exec ops (EvGet c cur b d) s w = so_getReadyTask ops s w c cur b d"
| "sched_exec ops (EvIdle force) s w =
     (let (_, s1, w1) = so_getIdleComputePlace ops s w force in Inr (None, s1, w1))"
| "sched_exec ops (EvDisable c) s w =
     result_bind (so_disableComputePlace ops s w c) (\<lambda>(s1, w1). Inr (None, s1, w1))"
| "sched_exec ops (EvEnable c) s w =
     result_bind (so_enableComputePlace ops s w c) (\<lambda>(s1, w1). Inr (None, s1, w1))"
| "sched_exec ops (EvRequest c) s w =
     result_bind (so_requestPolling ops s w c c) (\<lambda>(_, s1, w1). Inr (None, s1, w1))"
| "sched_exec ops (EvRelease c) s w =
     result_bind (so_releasePolling ops s w c c) (\<lambda>(_, s1, w1). Inr (None, s1, w1))"
| "sched_exec ops (EvRead c) s w = (let (t, w1) = slot_getTask c w in Inr (t, s, w1))"

fun run_sched ::
  "'s scheduler_ops \<Rightarrow> sched_event list \<Rightarrow> 's \<Rightarrow> world \<Rightarrow> (task_ref list \<times> 's \<times> world) result" where
  "run_sched ops [] s w = Inr ([], s, w)"
| "run_sched ops (e # es) s w =
     result_bind (sched_exec ops e s w)
       (\<lambda>(r, s1, w1). result_bind (run_sched ops es s1 w1)
          (\<lambda>(ts, s2, w2). Inr ((case r of None \<Rightarrow> ts | Some t \<Rightarrow> t # ts), s2, w2)))"

fun ev_task :: "sched_event \<Rightarrow> task_ref list" where
  "ev_task (EvAdd t cp h b) = [t]"
| "ev_task e = []"

definition ev_added :: "sched_event list \<Rightarrow> task_ref list" where
  "ev_added es = concat (map ev_task es)"

fun ev_places :: "sched_event \<Rightarrow> cpu_ref list" where
  "ev_places (EvAdd t cp h b) = (case cp of None \<Rightarrow> [] | Some c \<Rightarrow> [c])"
| "ev_places (EvGet c cur b d) = [c]"
| "ev_places (EvIdle force) = []"
| "ev_places (EvDisable c) = [c]"
| "ev_places (EvEnable c) = [c]"
| "ev_places (EvRequest c) = [c]"
| "ev_places (EvRelease c) = [c]"
| "ev_places (EvRead c) = [c]"

definition ev_ok :: "world \<Rightarrow> sched_event \<Rightarrow> bool" where
  "ev_ok w e = list_all (place_ok w) (ev_places e)"

definition evs_ok :: "world \<Rightarrow> sched_event list \<Rightarrow> bool" where
  "evs_ok w es = list_all (ev_ok w) es"

text \<open>
  What a scheduler, or a claim about it, asks of its callers is a predicate on the call and the
  state in which it is made. \<open>guarded\<close> checks it along a history.
\<close>

fun guarded ::
  "'s scheduler_ops \<Rightarrow> (sched_event \<Rightarrow> 's \<Rightarrow> world \<Rightarrow> bool) \<Rightarrow> sched_event list \<Rightarrow> 's \<Rightarrow> world \<Rightarrow> bool" where
  "guarded ops guard [] s w = True"
| "guarded ops guard (e # es) s w =
     (guard e s w \<and>
      (case sched_exec ops e s w of
         Inl err \<Rightarrow> True
       | Inr (r, s1, w1) \<Rightarrow> guarded ops guard es s1 w1))"

lemma guarded_always: "guarded ops (\<lambda>_ _ _. True) es s w"
  by (induction es arbitrary: s w) (auto split: sum.split)

text \<open>
  What a call does to the tasks in the scheduler: \<open>queued\<close> is the multiset of tasks in the
  scheduler's own queues, \<open>invar\<close> its invariant. Nothing is lost and nothing duplicated when the
  tasks afterwards and those handed out are the tasks before and those added.
\<close>

definition conserves ::
  "('s \<Rightarrow> task_ref multiset) \<Rightarrow> ('s \<Rightarrow> world \<Rightarrow> bool) \<Rightarrow> task_ref multiset \<Rightarrow> task_ref multiset \<Rightarrow>
     's \<Rightarrow> world \<Rightarrow> 's \<Rightarrow> world \<Rightarrow> bool" where
  "conserves queued invar added taken s w s' w' \<longleftrightarrow>
     invar s' w' \<and> w_cpus w' = w_cpus w \<and>
     queued s' + held_slots w' + taken = queued s + held_slots w + added"

lemma conserves_refl: "invar s w \<Longrightarrow> conserves queued invar {#} {#} s w s w"
  by (simp add: conserves_def)

lemma conserves_trans:
  assumes "conserves queued invar a1 t1 s w s1 w1" "conserves queued invar a2 t2 s1 w1 s2 w2"
  shows "conserves queued invar (a1 + a2) (t1 + t2) s w s2 w2"
proof -
  have "queued s2 + held_slots w2 + (t1 + t2) = (queued s1 + held_slots w1 + a2) + t1"
    using assms(2) by (simp add: conserves_def ac_simps)
  also have "\<dots> = queued s + held_slots w + (a1 + a2)"
    using assms(1) by (simp add: conserves_def ac_simps)
  finally show ?thesis
    using assms by (simp add: conserves_def)
qed

locale guarded_pool =
  fixes queued :: "'s \<Rightarrow> task_ref multiset"
    and invar :: "'s \<Rightarrow> world \<Rightarrow> bool"
    and ops :: "'s scheduler_ops"
    and guard :: "sched_event \<Rightarrow> 's \<Rightarrow> world \<Rightarrow> bool"
  assumes inv_world: "invar s w \<Longrightarrow> world_ok w"
    and inv_read: "invar s w \<Longrightarrow> place_ok w c \<Longrightarrow> invar s (set_slot c None w)"
    and add_law:
      "invar s w \<Longrightarrow> (\<And>c. cp = Some c \<Longrightarrow> place_ok w c) \<Longrightarrow>
       so_addReadyTask ops s w t cp h b = Inr (r, s', w') \<Longrightarrow> conserves queued invar {#t#} {#} s w s' w'"
    and get_law:
      "invar s w \<Longrightarrow> place_ok w c \<Longrightarrow> so_getReadyTask ops s w c cur b d = Inr (r, s', w') \<Longrightarrow>
       conserves queued invar {#} (mset_opt r) s w s' w'"
    and idle_law:
      "invar s w \<Longrightarrow> so_getIdleComputePlace ops s w force = (r', s', w') \<Longrightarrow>
       conserves queued invar {#} {#} s w s' w'"
    and disable_law:
      "invar s w \<Longrightarrow> place_ok w c \<Longrightarrow> so_disableComputePlace ops s w c = Inr (s', w') \<Longrightarrow>
       conserves queued invar {#} {#} s w s' w'"
    and enable_law:
      "invar s w \<Longrightarrow> place_ok w c \<Longrightarrow> so_enableComputePlace ops s w c = Inr (s', w') \<Longrightarrow>
       conserves queued invar {#} {#} s w s' w'"
    and request_law:
      "invar s w \<Longrightarrow> place_ok w c \<Longrightarrow> guard (EvRequest c) s w \<Longrightarrow>
       so_requestPolling ops s w c c = Inr (ok, s', w') \<Longrightarrow>
       conserves queued invar {#} {#} s w s' w'"
    and release_law:
      "invar s w \<Longrightarrow> place_ok w c \<Longrightarrow> so_releasePolling ops s w c c = Inr (ok, s', w') \<Longrightarrow>
       conserves queued invar {#} {#} s w s' w'"
begin

lemma read_law:
  assumes "invar s w" "place_ok w c" "slot_getTask c w = (r, w')"
  shows "conserves queued invar {#} (mset_opt r) s w s w'"
proof (cases r)
  case None
  with assms have "held_slots w' = held_slots w"
    by (auto simp: slot_getTask_def held_slots_def fun_upd_idem)
  with assms None show ?thesis
    using inv_read by (auto simp: conserves_def slot_getTask_def)
next
  case (Some t)
  with assms have "held_slots w = held_slots w' + {#t#}"
    using held_slots_clear_slot [OF inv_world] by (auto simp: slot_getTask_def)
  with assms Some show ?thesis
    using inv_read by (auto simp: conserves_def slot_getTask_def)
qed

lemma exec_law:
  assumes "invar s w" "ev_ok w e" "guard e s w"
    "sched_exec ops e s w = Inr (r, s', w')"
  shows "conserves queued invar (mset (ev_task e)) (mset_opt r) s w s' w'"
proof (cases e)
  case (EvAdd t cp h b)
  with assms add_law [of s w cp t h b] show ?thesis
    by (cases cp) (auto simp: ev_ok_def)
next
  case EvGet
  with assms get_law show ?thesis by (simp add: ev_ok_def)
next
  case EvIdle
  with assms idle_law show ?thesis by (auto split: prod.splits)
next
  case EvDisable
  with assms disable_law show ?thesis by (auto simp: ev_ok_def split: prod.splits)
next
  case EvEnable
  with assms enable_law show ?thesis by (auto simp: ev_ok_def split: prod.splits)
next
  case EvRequest
  with assms request_law show ?thesis by (auto simp: ev_ok_def)
next
  case EvRelease
  with assms release_law show ?thesis by (auto simp: ev_ok_def)
next
  case (EvRead c)
  with assms read_law [of s w c] show ?thesis by (auto simp: ev_ok_def split: prod.splits)
qed

lemma run_conserves:
  "run_sched ops es s w = Inr (ts, s', w') \<Longrightarrow> invar s w \<Longrightarrow> evs_ok w es \<Longrightarrow>
   guarded ops guard es s w \<Longrightarrow> conserves queued invar (mset (ev_added es)) (mset ts) s w s' w'"
proof (induction es arbitrary: s w ts)
  case Nil
  then show ?case by (simp add: conserves_refl ev_added_def)
next
  case (Cons e es)
  obtain r s1 w1 ts1 where step: "sched_exec ops e s w = Inr (r, s1, w1)"
    and rest: "run_sched ops es s1 w1 = Inr (ts1, s', w')"
    and ts: "mset ts = mset_opt r + mset ts1"
    using Cons.prems(1) by (auto split: option.splits)
  have law: "conserves queued invar (mset (ev_task e)) (mset_opt r) s w s1 w1"
    using exec_law [OF Cons.prems(2) _ _ step] Cons.prems(3,4) by (simp add: evs_ok_def)
  then have "evs_ok w1 es"
    using Cons.prems(3) by (auto simp: evs_ok_def ev_ok_def list_all_iff conserves_def place_ok_def)
  with law Cons.IH [OF rest] Cons.prems(4) step have "conserves queued invar (mset (ev_added es)) (mset ts1) s1 w1 s' w'"
    by (simp add: conserves_def)
  from conserves_trans [OF law this] show ?case
    by (simp add: ts ev_added_def)
qed

text \<open>From an empty pool, a task is handed out at most as often as it was added.\<close>

lemma run_at_most_once:
  assumes "run_sched ops es s w = Inr (ts, s', w')" "invar s w" "evs_ok w es"
    and "guarded ops guard es s w"
    and "queued s + held_slots w = {#}" "distinct (ev_added es)"
  shows "distinct ts \<and> set ts \<subseteq> set (ev_added es)"
proof -
  have eq: "queued s' + held_slots w' + mset ts = mset (ev_added es)"
    using run_conserves [OF assms(1-4)] assms(5) by (simp add: conserves_def)
  then have sub: "mset ts \<subseteq># mset (ev_added es)"
    by (metis mset_subset_eq_add_right)
  then have "set ts \<subseteq> set (ev_added es)"
    by (metis set_mset_mono set_mset_mset)
  moreover have "distinct ts"
    using sub assms(6) by (rule distinct_sub_mset)
  ultimately show ?thesis by blast
qed

end

text \<open>A scheduler that asks nothing of its callers.\<close>

locale ready_pool =
  fixes queued :: "'s \<Rightarrow> task_ref multiset"
    and invar :: "'s \<Rightarrow> world \<Rightarrow> bool"
    and ops :: "'s scheduler_ops"
  assumes inv_world: "invar s w \<Longrightarrow> world_ok w"
    and inv_read: "invar s w \<Longrightarrow> place_ok w c \<Longrightarrow> invar s (set_slot c None w)"
    and add_law:
      "invar s w \<Longrightarrow> (\<And>c. cp = Some c \<Longrightarrow> place_ok w c) \<Longrightarrow>
       so_addReadyTask ops s w t cp h b = Inr (r, s', w') \<Longrightarrow> conserves queued invar {#t#} {#} s w s' w'"
    and get_law:
      "invar s w \<Longrightarrow> place_ok w c \<Longrightarrow> so_getReadyTask ops s w c cur b d = Inr (r, s', w') \<Longrightarrow>
       conserves queued invar {#} (mset_opt r) s w s' w'"
    and idle_law:
      "invar s w \<Longrightarrow> so_getIdleComputePlace ops s w force = (r', s', w') \<Longrightarrow>
       conserves queued invar {#} {#} s w s' w'"
    and disable_law:
      "invar s w \<Longrightarrow> place_ok w c \<Longrightarrow> so_disableComputePlace ops s w c = Inr (s', w') \<Longrightarrow>
       conserves queued invar {#} {#} s w s' w'"
    and enable_law:
      "invar s w \<Longrightarrow> place_ok w c \<Longrightarrow> so_enableComputePlace ops s w c = Inr (s', w') \<Longrightarrow>
       conserves queued invar {#} {#} s w s' w'"
    and request_law:
      "invar s w \<Longrightarrow> place_ok w c \<Longrightarrow> so_requestPolling ops s w c c = Inr (ok, s', w') \<Longrightarrow>
       conserves queued invar {#} {#} s w s' w'"
    and release_law:
      "invar s w \<Longrightarrow> place_ok w c \<Longrightarrow> so_releasePolling ops s w c c = Inr (ok, s', w') \<Longrightarrow>
       conserves queued invar {#} {#} s w s' w'"

sublocale ready_pool \<subseteq> guards: guarded_pool queued invar ops "\<lambda>_ _ _. True"
proof
  show "conserves queued invar {#} {#} s w s' w'"
    if "invar s w" "place_ok w c" "so_requestPolling ops s w c c = Inr (ok, s', w')" for s w c ok s' w'
    using that by (rule request_law)
qed (fact inv_world inv_read add_law get_law idle_law disable_law enable_law release_law)+

context ready_pool
begin

lemmas history_conserves = guards.run_conserves [OF _ _ _ guarded_always]
lemmas history_at_most_once = guards.run_at_most_once [OF _ _ _ guarded_always]

end

text \<open>
  A scheduler that keeps the interface's default implementations owes only the laws of the
  operations it defines.
\<close>

locale default_pool =
  fixes queued :: "'s \<Rightarrow> task_ref multiset"
    and invar :: "'s \<Rightarrow> world \<Rightarrow> bool"
    and ops :: "'s scheduler_ops"
  assumes inv_world: "invar s w \<Longrightarrow> world_ok w"
    and inv_slot: "invar s w \<Longrightarrow> place_ok w c \<Longrightarrow> invar s (set_slot c x w)"
    and add_law:
      "invar s w \<Longrightarrow> (\<And>c. cp = Some c \<Longrightarrow> place_ok w c) \<Longrightarrow>
       so_addReadyTask ops s w t cp h b = Inr (r, s', w') \<Longrightarrow> conserves queued invar {#t#} {#} s w s' w'"
    and get_law:
      "invar s w \<Longrightarrow> place_ok w c \<Longrightarrow> so_getReadyTask ops s w c cur b d = Inr (r, s', w') \<Longrightarrow>
       conserves queued invar {#} (mset_opt r) s w s' w'"
    and idle_law:
      "invar s w \<Longrightarrow> so_getIdleComputePlace ops s w force = (r', s', w') \<Longrightarrow>
       conserves queued invar {#} {#} s w s' w'"
    and disable_law:
      "invar s w \<Longrightarrow> place_ok w c \<Longrightarrow> so_disableComputePlace ops s w c = Inr (s', w') \<Longrightarrow>
       conserves queued invar {#} {#} s w s' w'"
    and default_enable: "so_enableComputePlace ops = Interface_enableComputePlace"
    and default_request: "so_requestPolling ops = Interface_requestPolling (so_getReadyTask ops)"
    and default_release: "so_releasePolling ops = Interface_releasePolling"
begin

lemma default_request_law:
  assumes "invar s w" "place_ok w c" "so_requestPolling ops s w c c = Inr (ok, s', w')"
  shows "conserves queued invar {#} {#} s w s' w'"
proof -
  obtain r s1 w1 where get: "so_getReadyTask ops s w c None True False = Inr (r, s1, w1)"
    and rest: "(case r of Some t \<Rightarrow> (let (b, w2) = slot_setTask c t w1 in
                  assert_that b ''expected == nullptr'' (Inr (True, s1, w2)))
                | None \<Rightarrow> Inr (False, s1, w1)) = Inr (ok, s', w')"
    using assms(3) unfolding default_request Interface_requestPolling_def by auto
  note law = get_law [OF assms(1,2) get]
  then have inv1: "invar s1 w1" and place1: "place_ok w1 c"
    using assms(2) by (auto simp: conserves_def place_ok_def)
  show ?thesis
  proof (cases r)
    case None
    with law rest show ?thesis by simp
  next
    case (Some t)
    with rest have slot: "w_slot w1 c = None" and w': "s' = s1" "w' = set_slot c (Some t) w1"
      by (auto simp: slot_setTask_def split: option.splits)
    then have "held_slots w' = held_slots w1 + {#t#}"
      using held_slots_fill_slot [OF inv_world [OF inv1] place1] by simp
    with law w' Some inv_slot [OF inv1 place1] show ?thesis
      by (simp add: conserves_def ac_simps)
  qed
qed

end

sublocale default_pool \<subseteq> pool: ready_pool queued invar ops
proof
  show "conserves queued invar {#} {#} s w s' w'"
    if "invar s w" "place_ok w c" "so_enableComputePlace ops s w c = Inr (s', w')" for s w c s' w'
    using that by (simp add: default_enable Interface_enableComputePlace_def conserves_def)
  show "conserves queued invar {#} {#} s w s' w'"
    if "invar s w" "place_ok w c" "so_releasePolling ops s w c c = Inr (ok, s', w')" for s w c ok s' w'
    using that by (simp add: default_release Interface_releasePolling_def conserves_def)
qed (fact inv_world inv_slot add_law get_law idle_law disable_law default_request_law)+

end
