(* ===== verification/N6_ImmediateSuccessor.thy ===== *)
theory N6_ImmediateSuccessor
  imports N6_SchedulerInterface
begin

text \<open>
  The immediate successor schedulers:
  \<open>src/scheduling/schedulers/ImmediateSuccessorScheduler.cpp\<close> (definitions \<open>IS_...\<close>),
  \<open>ImmediateSuccessorWithPollingScheduler.cpp\<close> (\<open>ISP_...\<close>) and
  \<open>FIFOImmediateSuccessorWithPollingScheduler.cpp\<close> (\<open>FISP_...\<close>). The deques are lists with the
  front at the head. Every member function holds \<open>_globalLock\<close> while it uses the queues; the fast
  paths outside the lock touch one slot with one atomic exchange each.
\<close>

section \<open>State\<close>

record imm_queues =
  iq_readyTasks :: "task_ref list"
  iq_unblockedTasks :: "task_ref list"

record imm_polling = imm_queues +
  ip_pollingSlot :: "cpu_ref option"

definition IS_new :: imm_queues where
  "IS_new = \<lparr>iq_readyTasks = [], iq_unblockedTasks = []\<rparr>"

definition ISP_new :: imm_polling where
  "ISP_new = \<lparr>iq_readyTasks = [], iq_unblockedTasks = [], ip_pollingSlot = None\<rparr>"

definition FISP_new :: imm_polling where
  "FISP_new = \<lparr>iq_readyTasks = [], iq_unblockedTasks = [], ip_pollingSlot = None\<rparr>"

text \<open>The two checks at the head of every \<open>addReadyTask\<close> of a host scheduler.\<close>

definition host_task_checks :: "world \<Rightarrow> task_ref \<Rightarrow> 'a result \<Rightarrow> 'a result" where
  "host_task_checks w task k =
     fail_if (getDeviceType (w_tasks w task) \<noteq> nanos6_host_device)
       ''Device tasks not supported by this scheduler''
       (fail_if (isTaskloop (w_tasks w task)) ''Task loop not supported by this scheduler'' k)"

text \<open>The condition under which a task goes to the immediate successor slot of the compute place.\<close>

definition takes_successor_slot :: "world \<Rightarrow> cpu_ref option \<Rightarrow> ReadyTaskHint \<Rightarrow> bool" where
  "takes_successor_slot w computePlace hint =
     (case computePlace of
        None \<Rightarrow> False
      | Some cp \<Rightarrow> hint \<noteq> CHILD_TASK_HINT \<and> hint \<noteq> UNBLOCKED_TASK_HINT \<and> schedulerData w cp = None)"

section \<open>Immediate successor scheduler\<close>

definition IS_getReplacementTask ::
  "'a imm_queues_scheme \<Rightarrow> task_ref option \<times> 'a imm_queues_scheme" where
  "IS_getReplacementTask s =
     (case iq_unblockedTasks s of
        t # ts \<Rightarrow> (Some t, s\<lparr>iq_unblockedTasks := ts\<rparr>)
      | [] \<Rightarrow> (None, s))"

definition IS_addReadyTask ::
  "imm_queues \<Rightarrow> world \<Rightarrow> task_ref \<Rightarrow> cpu_ref option \<Rightarrow> ReadyTaskHint \<Rightarrow> bool \<Rightarrow>
     (cpu_ref option \<times> imm_queues \<times> world) result" where
  "IS_addReadyTask s w task computePlace hint doGetIdle =
     host_task_checks w task
       (if takes_successor_slot w computePlace hint
        then Inr (None, s, set_schedulerData (the computePlace) (Some task) w)
        else
          (let s1 = (if hint = UNBLOCKED_TASK_HINT
                     then s\<lparr>iq_unblockedTasks := task # iq_unblockedTasks s\<rparr>
                     else s\<lparr>iq_readyTasks := task # iq_readyTasks s\<rparr>) in
           if doGetIdle then (let (idle, w1) = getIdleCPU w in Inr (idle, s1, w1))
           else Inr (None, s1, w)))"

definition IS_getReadyTask ::
  "imm_queues \<Rightarrow> world \<Rightarrow> cpu_ref \<Rightarrow> task_ref option \<Rightarrow> bool \<Rightarrow> bool \<Rightarrow>
     (task_ref option \<times> imm_queues \<times> world) result" where
  "IS_getReadyTask s w computePlace currentTask canMarkAsIdle doWait =
     (if cp_type (w_places w computePlace) \<noteq> nanos6_host_device then Inr (None, s, w)
      else case schedulerData w computePlace of
        Some task \<Rightarrow> Inr (Some task, s, set_schedulerData computePlace None w)
      | None \<Rightarrow>
          (let (replacement, s1) = IS_getReplacementTask s in
           case replacement of
             Some task \<Rightarrow> Inr (Some task, s1, w)
           | None \<Rightarrow>
               (case iq_readyTasks s1 of
                  task # rest \<Rightarrow> Inr (Some task, s1\<lparr>iq_readyTasks := rest\<rparr>, w)
                | [] \<Rightarrow> Inr (None, s1, if canMarkAsIdle then cpuBecomesIdle computePlace w else w))))"

definition IS_getIdleComputePlace ::
  "'a imm_queues_scheme \<Rightarrow> world \<Rightarrow> bool \<Rightarrow> cpu_ref option \<times> 'a imm_queues_scheme \<times> world" where
  "IS_getIdleComputePlace s w force =
     (if force \<or> iq_readyTasks s \<noteq> [] \<or> iq_unblockedTasks s \<noteq> []
      then (let (idle, w1) = getIdleCPU w in (idle, s, w1))
      else (None, s, w))"

definition IS_disableComputePlace ::
  "'a imm_queues_scheme \<Rightarrow> world \<Rightarrow> cpu_ref \<Rightarrow> ('a imm_queues_scheme \<times> world) result" where
  "IS_disableComputePlace s w computePlace =
     (case schedulerData w computePlace of
        Some task \<Rightarrow> Inr (s\<lparr>iq_readyTasks := task # iq_readyTasks s\<rparr>, set_schedulerData computePlace None w)
      | None \<Rightarrow> Inr (s, w))"

definition IS_ops :: "imm_queues scheduler_ops" where
  "IS_ops = \<lparr>so_addReadyTask = IS_addReadyTask,
             so_getReadyTask = IS_getReadyTask,
             so_canWait = Interface_canWait,
             so_getIdleComputePlace = IS_getIdleComputePlace,
             so_disableComputePlace = IS_disableComputePlace,
             so_enableComputePlace = Interface_enableComputePlace,
             so_requestPolling = Interface_requestPolling IS_getReadyTask,
             so_releasePolling = Interface_releasePolling,
             so_getName = ''immediate-successor''\<rparr>"

section \<open>Immediate successor scheduler with polling\<close>

definition ISP_getReplacementTask :: "imm_polling \<Rightarrow> task_ref option \<times> imm_polling" where
  "ISP_getReplacementTask s =
     (case iq_unblockedTasks s of
        t # ts \<Rightarrow> (Some t, s\<lparr>iq_unblockedTasks := ts\<rparr>)
      | [] \<Rightarrow> (None, s))"

text \<open>
  Taking the registered polling slot: the loop of loads and compare-and-swaps against
  \<open>_pollingSlot\<close> ends when the pointer is null or has been exchanged with null.
\<close>

definition take_pollingSlot :: "imm_polling \<Rightarrow> cpu_ref option \<times> imm_polling" where
  "take_pollingSlot s = (ip_pollingSlot s, s\<lparr>ip_pollingSlot := None\<rparr>)"

text \<open>Storing the task in an obtained slot, with the assertion that the slot was empty.\<close>

definition give_to_slot :: "cpu_ref \<Rightarrow> task_ref \<Rightarrow> imm_polling \<Rightarrow> world \<Rightarrow>
    (cpu_ref option \<times> imm_polling \<times> world) result" where
  "give_to_slot slot task s w =
     (let (b, w1) = slot_setTask slot task w in
      assert_that b ''expect == nullptr'' (Inr (None, s, w1)))"

text \<open>The part of \<open>addReadyTask\<close> that holds \<open>_globalLock\<close>.\<close>

definition ISP_add_locked ::
  "imm_polling \<Rightarrow> world \<Rightarrow> task_ref \<Rightarrow> ReadyTaskHint \<Rightarrow> bool \<Rightarrow>
     (cpu_ref option \<times> imm_polling \<times> world) result" where
  "ISP_add_locked s w task hint doGetIdle =
     (let (pollingSlot, s1) = take_pollingSlot s in
      case pollingSlot of
        Some slot \<Rightarrow> give_to_slot slot task s1 w
      | None \<Rightarrow>
          assert_that (ip_pollingSlot s1 = None) ''_pollingSlot.load() == nullptr''
            (let s2 = (if hint = UNBLOCKED_TASK_HINT
                       then s1\<lparr>iq_unblockedTasks := task # iq_unblockedTasks s1\<rparr>
                       else s1\<lparr>iq_readyTasks := task # iq_readyTasks s1\<rparr>) in
             if doGetIdle then (let (idle, w1) = getIdleCPU w in Inr (idle, s2, w1))
             else Inr (None, s2, w)))"

definition ISP_addReadyTask ::
  "imm_polling \<Rightarrow> world \<Rightarrow> task_ref \<Rightarrow> cpu_ref option \<Rightarrow> ReadyTaskHint \<Rightarrow> bool \<Rightarrow>
     (cpu_ref option \<times> imm_polling \<times> world) result" where
  "ISP_addReadyTask s w task computePlace hint doGetIdle =
     host_task_checks w task
       (if takes_successor_slot w computePlace hint
        then Inr (None, s, set_schedulerData (the computePlace) (Some task) w)
        else
          (let (pollingSlot, s1) = take_pollingSlot s in
           case pollingSlot of
             Some slot \<Rightarrow> give_to_slot slot task s1 w
           | None \<Rightarrow> ISP_add_locked s1 w task hint doGetIdle))"

definition ISP_getReadyTask ::
  "imm_polling \<Rightarrow> world \<Rightarrow> cpu_ref \<Rightarrow> task_ref option \<Rightarrow> bool \<Rightarrow> bool \<Rightarrow>
     (task_ref option \<times> imm_polling \<times> world) result" where
  "ISP_getReadyTask s w computePlace currentTask canMarkAsIdle doWait =
     (if cp_type (w_places w computePlace) \<noteq> nanos6_host_device then Inr (None, s, w)
      else case schedulerData w computePlace of
        Some task \<Rightarrow> Inr (Some task, s, set_schedulerData computePlace None w)
      | None \<Rightarrow>
          (let (replacement, s1) = ISP_getReplacementTask s in
           case replacement of
             Some task \<Rightarrow> Inr (Some task, s1, w)
           | None \<Rightarrow>
               (case iq_readyTasks s1 of
                  task # rest \<Rightarrow> Inr (Some task, s1\<lparr>iq_readyTasks := rest\<rparr>, w)
                | [] \<Rightarrow> Inr (None, s1, if canMarkAsIdle then cpuBecomesIdle computePlace w else w))))"

definition ISP_getIdleComputePlace ::
  "imm_polling \<Rightarrow> world \<Rightarrow> bool \<Rightarrow> cpu_ref option \<times> imm_polling \<times> world" where
  "ISP_getIdleComputePlace s w force =
     (if force \<or> iq_readyTasks s \<noteq> [] \<or> iq_unblockedTasks s \<noteq> []
      then (let (idle, w1) = getIdleCPU w in (idle, s, w1))
      else (None, s, w))"

definition ISP_disableComputePlace :: "imm_polling \<Rightarrow> world \<Rightarrow> cpu_ref \<Rightarrow> (imm_polling \<times> world) result" where
  "ISP_disableComputePlace s w computePlace =
     (case schedulerData w computePlace of
        Some task \<Rightarrow> Inr (s\<lparr>iq_readyTasks := task # iq_readyTasks s\<rparr>, set_schedulerData computePlace None w)
      | None \<Rightarrow> Inr (s, w))"

text \<open>\<open>requestPolling\<close> stores a task it finds in the caller's own slot, which must be empty.\<close>

definition store_own_slot :: "cpu_ref \<Rightarrow> task_ref \<Rightarrow> imm_polling \<Rightarrow> world \<Rightarrow>
    (bool \<times> imm_polling \<times> world) result" where
  "store_own_slot slot task s w =
     assert_that (w_slot w slot = None) ''pollingSlot->_task.load() == nullptr''
       (Inr (True, s, set_slot slot (Some task) w))"

definition ISP_requestPolling ::
  "imm_polling \<Rightarrow> world \<Rightarrow> cpu_ref \<Rightarrow> cpu_ref \<Rightarrow> (bool \<times> imm_polling \<times> world) result" where
  "ISP_requestPolling s w computePlace pollingSlot =
     (case schedulerData w computePlace of
        Some task \<Rightarrow> store_own_slot pollingSlot task s (set_schedulerData computePlace None w)
      | None \<Rightarrow>
          (let (replacement, s1) = ISP_getReplacementTask s in
           case replacement of
             Some task \<Rightarrow> store_own_slot pollingSlot task s1 w
           | None \<Rightarrow>
               (case iq_readyTasks s1 of
                  task # rest \<Rightarrow> store_own_slot pollingSlot task (s1\<lparr>iq_readyTasks := rest\<rparr>) w
                | [] \<Rightarrow>
                    (case ip_pollingSlot s1 of
                       None \<Rightarrow> Inr (True, s1\<lparr>ip_pollingSlot := Some pollingSlot\<rparr>, w)
                     | Some _ \<Rightarrow> Inr (False, s1, cpuBecomesIdle computePlace w)))))"

definition ISP_releasePolling ::
  "imm_polling \<Rightarrow> world \<Rightarrow> cpu_ref \<Rightarrow> cpu_ref \<Rightarrow> (bool \<times> imm_polling \<times> world) result" where
  "ISP_releasePolling s w computePlace pollingSlot =
     (if ip_pollingSlot s = Some pollingSlot
      then Inr (True, s\<lparr>ip_pollingSlot := None\<rparr>, cpuBecomesIdle computePlace w)
      else Inr (False, s, w))"

definition ISP_ops :: "imm_polling scheduler_ops" where
  "ISP_ops = \<lparr>so_addReadyTask = ISP_addReadyTask,
              so_getReadyTask = ISP_getReadyTask,
              so_canWait = Interface_canWait,
              so_getIdleComputePlace = ISP_getIdleComputePlace,
              so_disableComputePlace = ISP_disableComputePlace,
              so_enableComputePlace = Interface_enableComputePlace,
              so_requestPolling = ISP_requestPolling,
              so_releasePolling = ISP_releasePolling,
              so_getName = ''immediate-successor-with-polling''\<rparr>"

section \<open>FIFO immediate successor scheduler with polling\<close>

definition FISP_getReplacementTask :: "imm_polling \<Rightarrow> task_ref option \<times> imm_polling" where
  "FISP_getReplacementTask s =
     (case iq_unblockedTasks s of
        t # ts \<Rightarrow> (Some t, s\<lparr>iq_unblockedTasks := ts\<rparr>)
      | [] \<Rightarrow> (None, s))"

definition FISP_add_locked ::
  "imm_polling \<Rightarrow> world \<Rightarrow> task_ref \<Rightarrow> ReadyTaskHint \<Rightarrow> bool \<Rightarrow>
     (cpu_ref option \<times> imm_polling \<times> world) result" where
  "FISP_add_locked s w task hint doGetIdle =
     (let (pollingSlot, s1) = take_pollingSlot s in
      case pollingSlot of
        Some slot \<Rightarrow> give_to_slot slot task s1 w
      | None \<Rightarrow>
          assert_that (ip_pollingSlot s1 = None) ''_pollingSlot.load() == nullptr''
            (let s2 = (if hint = UNBLOCKED_TASK_HINT
                       then s1\<lparr>iq_unblockedTasks := iq_unblockedTasks s1 @ [task]\<rparr>
                       else s1\<lparr>iq_readyTasks := iq_readyTasks s1 @ [task]\<rparr>) in
             if doGetIdle then (let (idle, w1) = getIdleCPU w in Inr (idle, s2, w1))
             else Inr (None, s2, w)))"

definition FISP_addReadyTask ::
  "imm_polling \<Rightarrow> world \<Rightarrow> task_ref \<Rightarrow> cpu_ref option \<Rightarrow> ReadyTaskHint \<Rightarrow> bool \<Rightarrow>
     (cpu_ref option \<times> imm_polling \<times> world) result" where
  "FISP_addReadyTask s w task computePlace hint doGetIdle =
     host_task_checks w task
       (if takes_successor_slot w computePlace hint
        then Inr (None, s, set_schedulerData (the computePlace) (Some task) w)
        else
          (let (pollingSlot, s1) = take_pollingSlot s in
           case pollingSlot of
             Some slot \<Rightarrow> give_to_slot slot task s1 w
           | None \<Rightarrow> FISP_add_locked s1 w task hint doGetIdle))"

definition FISP_getReadyTask ::
  "imm_polling \<Rightarrow> world \<Rightarrow> cpu_ref \<Rightarrow> task_ref option \<Rightarrow> bool \<Rightarrow> bool \<Rightarrow>
     (task_ref option \<times> imm_polling \<times> world) result" where
  "FISP_getReadyTask s w computePlace currentTask canMarkAsIdle doWait =
     (if cp_type (w_places w computePlace) \<noteq> nanos6_host_device then Inr (None, s, w)
      else case schedulerData w computePlace of
        Some task \<Rightarrow> Inr (Some task, s, set_schedulerData computePlace None w)
      | None \<Rightarrow>
          (let (replacement, s1) = FISP_getReplacementTask s in
           case replacement of
             Some task \<Rightarrow> Inr (Some task, s1, w)
           | None \<Rightarrow>
               (case iq_readyTasks s1 of
                  task # rest \<Rightarrow> Inr (Some task, s1\<lparr>iq_readyTasks := rest\<rparr>, w)
                | [] \<Rightarrow> Inr (None, s1, if canMarkAsIdle then cpuBecomesIdle computePlace w else w))))"

definition FISP_getIdleComputePlace ::
  "imm_polling \<Rightarrow> world \<Rightarrow> bool \<Rightarrow> cpu_ref option \<times> imm_polling \<times> world" where
  "FISP_getIdleComputePlace s w force =
     (if force \<or> iq_readyTasks s \<noteq> [] \<or> iq_unblockedTasks s \<noteq> []
      then (let (idle, w1) = getIdleCPU w in (idle, s, w1))
      else (None, s, w))"

definition FISP_disableComputePlace :: "imm_polling \<Rightarrow> world \<Rightarrow> cpu_ref \<Rightarrow> (imm_polling \<times> world) result" where
  "FISP_disableComputePlace s w computePlace =
     (case schedulerData w computePlace of
        Some task \<Rightarrow> Inr (s\<lparr>iq_readyTasks := task # iq_readyTasks s\<rparr>, set_schedulerData computePlace None w)
      | None \<Rightarrow> Inr (s, w))"

definition FISP_requestPolling ::
  "imm_polling \<Rightarrow> world \<Rightarrow> cpu_ref \<Rightarrow> cpu_ref \<Rightarrow> (bool \<times> imm_polling \<times> world) result" where
  "FISP_requestPolling s w computePlace pollingSlot =
     (case schedulerData w computePlace of
        Some task \<Rightarrow> store_own_slot pollingSlot task s (set_schedulerData computePlace None w)
      | None \<Rightarrow>
          (let (replacement, s1) = FISP_getReplacementTask s in
           case replacement of
             Some task \<Rightarrow> store_own_slot pollingSlot task s1 w
           | None \<Rightarrow>
               (case iq_readyTasks s1 of
                  task # rest \<Rightarrow> store_own_slot pollingSlot task (s1\<lparr>iq_readyTasks := rest\<rparr>) w
                | [] \<Rightarrow>
                    (case ip_pollingSlot s1 of
                       None \<Rightarrow> Inr (True, s1\<lparr>ip_pollingSlot := Some pollingSlot\<rparr>, w)
                     | Some _ \<Rightarrow> Inr (False, s1, cpuBecomesIdle computePlace w)))))"

definition FISP_releasePolling ::
  "imm_polling \<Rightarrow> world \<Rightarrow> cpu_ref \<Rightarrow> cpu_ref \<Rightarrow> (bool \<times> imm_polling \<times> world) result" where
  "FISP_releasePolling s w computePlace pollingSlot =
     (if ip_pollingSlot s = Some pollingSlot
      then Inr (True, s\<lparr>ip_pollingSlot := None\<rparr>, cpuBecomesIdle computePlace w)
      else Inr (False, s, w))"

definition FISP_ops :: "imm_polling scheduler_ops" where
  "FISP_ops = \<lparr>so_addReadyTask = FISP_addReadyTask,
               so_getReadyTask = FISP_getReadyTask,
               so_canWait = Interface_canWait,
               so_getIdleComputePlace = FISP_getIdleComputePlace,
               so_disableComputePlace = FISP_disableComputePlace,
               so_enableComputePlace = Interface_enableComputePlace,
               so_requestPolling = FISP_requestPolling,
               so_releasePolling = FISP_releasePolling,
               so_getName = ''fifo-immediate-successor-with-polling''\<rparr>"

section \<open>Tasks are conserved\<close>

definition imm_queued :: "'a imm_queues_scheme \<Rightarrow> task_ref multiset" where
  "imm_queued s = mset (iq_readyTasks s) + mset (iq_unblockedTasks s)"

definition imm_inv :: "'a imm_queues_scheme \<Rightarrow> world \<Rightarrow> bool" where
  "imm_inv s w = world_ok w"

definition isp_pool_inv :: "imm_polling \<Rightarrow> world \<Rightarrow> bool" where
  "isp_pool_inv s w =
     (world_ok w \<and> (case ip_pollingSlot s of None \<Rightarrow> True | Some c \<Rightarrow> place_ok w c))"

lemma imm_queued_simps [simp]:
  "imm_queued (s\<lparr>iq_readyTasks := xs\<rparr>) = mset xs + mset (iq_unblockedTasks s)"
  "imm_queued (s\<lparr>iq_unblockedTasks := xs\<rparr>) = mset (iq_readyTasks s) + mset xs"
  by (simp_all add: imm_queued_def)

lemma imm_queued_polling [simp]:
  "imm_queued (q\<lparr>ip_pollingSlot := x\<rparr>) = imm_queued q"
  by (simp add: imm_queued_def)

lemma host_task_checks_eq_Inr [simp]:
  "host_task_checks w t k = Inr y \<longleftrightarrow>
   getDeviceType (w_tasks w t) = nanos6_host_device \<and> \<not> isTaskloop (w_tasks w t) \<and> k = Inr y"
  by (auto simp: host_task_checks_def)

lemma takes_successor_slotD:
  "takes_successor_slot w cp hint \<Longrightarrow> \<exists>c. cp = Some c \<and> schedulerData w c = None"
  by (auto simp: takes_successor_slot_def split: option.splits)

lemma place_ok_simps [simp]:
  "place_ok (set_schedulerData c x w) = place_ok w"
  "place_ok (set_slot c x w) = place_ok w"
  "place_ok (upd_task t f w) = place_ok w"
  "place_ok (cpuBecomesIdle c w) = place_ok w"
  "place_ok (snd (getIdleCPU w)) = place_ok w"
  "place_ok (snd (getIdleNUMANodeCPU n w)) = place_ok w"
  by (simp_all add: place_ok_def fun_eq_iff)

lemmas getIdleCPU_frame =
  w_cpus_simps(5) schedulerData_simps(5) w_slot_simps(5) world_ok_simps(5) held_slots_frame(3)
  place_ok_simps(5) w_tasks_simps(5)

lemma getIdleCPU_keeps:
  assumes "getIdleCPU w = (r, w')"
  shows "w_cpus w' = w_cpus w \<and> world_ok w' = world_ok w \<and> held_slots w' = held_slots w \<and>
    place_ok w' = place_ok w \<and> w_slot w' = w_slot w \<and> schedulerData w' = schedulerData w \<and>
    w_tasks w' = w_tasks w"
  using getIdleCPU_frame [of w] assms by simp

lemma IS_add_law:
  assumes "imm_inv s w" "\<And>c. cp = Some c \<Longrightarrow> place_ok w c"
    and "IS_addReadyTask s w t cp h b = Inr (r, s', w')"
  shows "conserves imm_queued imm_inv {#t#} {#} s w s' w'"
proof (cases "takes_successor_slot w cp h")
  case True
  then obtain c where "cp = Some c" "schedulerData w c = None"
    using takes_successor_slotD by blast
  with True assms show ?thesis
    by (auto simp: IS_addReadyTask_def conserves_def imm_inv_def held_slots_fill_data)
next
  case False
  with assms(1,3) show ?thesis
    by (auto simp: IS_addReadyTask_def conserves_def imm_inv_def imm_queued_def Let_def
        split: if_splits prod.splits dest!: getIdleCPU_keeps)
qed

lemma IS_get_law:
  assumes "imm_inv s w" "place_ok w c" "IS_getReadyTask s w c cur b d = Inr (r, s', w')"
  shows "conserves imm_queued imm_inv {#} (mset_opt r) s w s' w'"
proof (cases "schedulerData w c")
  case (Some t)
  then show ?thesis
    using assms held_slots_clear_data [of w c t]
    by (cases r) (auto simp: IS_getReadyTask_def conserves_def imm_inv_def split: if_splits)
next
  case None
  with assms show ?thesis
    by (auto simp: IS_getReadyTask_def IS_getReplacementTask_def conserves_def imm_inv_def
        imm_queued_def split: if_splits list.splits)
qed

lemma IS_idle_law:
  assumes "imm_inv s w" "IS_getIdleComputePlace s w force = (r', s', w')"
  shows "conserves imm_queued imm_inv {#} {#} s w s' w'"
  using assms by (auto simp: IS_getIdleComputePlace_def conserves_def imm_inv_def
      split: if_splits prod.splits dest!: getIdleCPU_keeps)

lemma IS_disable_law:
  assumes "imm_inv s w" "place_ok w c" "IS_disableComputePlace s w c = Inr (s', w')"
  shows "conserves imm_queued imm_inv {#} {#} s w s' w'"
  using assms held_slots_clear_data [of w c]
  by (auto simp: IS_disableComputePlace_def conserves_def imm_inv_def imm_queued_def
      split: option.splits)

lemma imm_inv_simps [simp]:
  "imm_inv s (set_slot c x w) = imm_inv s w"
  "imm_inv s (set_schedulerData c x w) = imm_inv s w"
  by (simp_all add: imm_inv_def)

lemma imm_inv_world: "imm_inv s w \<Longrightarrow> world_ok w"
  by (simp add: imm_inv_def)

interpretation is_pool: default_pool imm_queued imm_inv IS_ops
  by unfold_locales (auto simp: IS_ops_def intro: imm_inv_world IS_add_law IS_get_law IS_idle_law
      IS_disable_law)

lemma isp_pool_inv_world: "isp_pool_inv s w \<Longrightarrow> world_ok w"
  by (simp add: isp_pool_inv_def)

lemma isp_pool_inv_frame:
  "isp_pool_inv s w \<Longrightarrow> w_cpus w' = w_cpus w \<Longrightarrow> world_ok w' = world_ok w \<Longrightarrow>
   ip_pollingSlot s' = ip_pollingSlot s \<or> ip_pollingSlot s' = None \<Longrightarrow> isp_pool_inv s' w'"
  by (auto simp: isp_pool_inv_def place_ok_def split: option.splits)

lemma give_to_slot_law:
  assumes "world_ok w" "place_ok w c" "give_to_slot c t s w = Inr (r, s', w')"
  shows "s' = s \<and> w_cpus w' = w_cpus w \<and> world_ok w' \<and> held_slots w' = held_slots w + {#t#}"
  using assms by (auto simp: give_to_slot_def slot_setTask_def held_slots_fill_slot split: option.splits)

lemma ISP_fast_law:
  assumes "isp_pool_inv s w" "ip_pollingSlot s = Some c"
    and "give_to_slot c t (s\<lparr>ip_pollingSlot := None\<rparr>) w = Inr (r, s', w')"
  shows "conserves imm_queued isp_pool_inv {#t#} {#} s w s' w'"
proof -
  have "world_ok w" "place_ok w c"
    using assms(1,2) by (auto simp: isp_pool_inv_def)
  from give_to_slot_law [OF this assms(3)] show ?thesis
    using assms(1) by (auto simp: conserves_def isp_pool_inv_def)
qed

lemma ISP_add_law:
  assumes "isp_pool_inv s w" "\<And>c. cp = Some c \<Longrightarrow> place_ok w c"
    and "ISP_addReadyTask s w t cp h b = Inr (r, s', w')"
  shows "conserves imm_queued isp_pool_inv {#t#} {#} s w s' w'"
proof (cases "takes_successor_slot w cp h")
  case True
  then obtain c where "cp = Some c" "schedulerData w c = None"
    using takes_successor_slotD by blast
  with True assms show ?thesis
    by (auto simp: ISP_addReadyTask_def conserves_def isp_pool_inv_def held_slots_fill_data
        split: option.splits)
next
  case False
  show ?thesis
  proof (cases "ip_pollingSlot s")
    case None
    with False assms(1,3) show ?thesis
      by (auto simp: ISP_addReadyTask_def ISP_add_locked_def take_pollingSlot_def conserves_def
          isp_pool_inv_def imm_queued_def Let_def split: if_splits prod.splits dest!: getIdleCPU_keeps)
  next
    case (Some c)
    with False assms show ?thesis
      by (auto simp: ISP_addReadyTask_def take_pollingSlot_def intro: ISP_fast_law)
  qed
qed

lemma FISP_add_law:
  assumes "isp_pool_inv s w" "\<And>c. cp = Some c \<Longrightarrow> place_ok w c"
    and "FISP_addReadyTask s w t cp h b = Inr (r, s', w')"
  shows "conserves imm_queued isp_pool_inv {#t#} {#} s w s' w'"
proof (cases "takes_successor_slot w cp h \<or> ip_pollingSlot s \<noteq> None")
  case True
  with assms(3) have "ISP_addReadyTask s w t cp h b = Inr (r, s', w')"
    by (auto simp: FISP_addReadyTask_def ISP_addReadyTask_def take_pollingSlot_def)
  with assms(1,2) show ?thesis by (rule ISP_add_law)
next
  case False
  with assms(1,3) show ?thesis
    by (auto simp: FISP_addReadyTask_def FISP_add_locked_def take_pollingSlot_def conserves_def
        isp_pool_inv_def imm_queued_def Let_def split: if_splits prod.splits dest!: getIdleCPU_keeps)
qed

lemma ISP_get_law:
  assumes "isp_pool_inv s w" "place_ok w c" "ISP_getReadyTask s w c cur b d = Inr (r, s', w')"
  shows "conserves imm_queued isp_pool_inv {#} (mset_opt r) s w s' w'"
proof (cases "schedulerData w c")
  case (Some t)
  then show ?thesis
    using assms held_slots_clear_data [of w c t]
    by (cases r) (auto simp: ISP_getReadyTask_def conserves_def isp_pool_inv_def split: if_splits
        option.splits)
next
  case None
  with assms show ?thesis
    by (auto simp: ISP_getReadyTask_def ISP_getReplacementTask_def conserves_def imm_queued_def
        split: if_splits list.splits elim!: isp_pool_inv_frame)
qed

lemma ISP_idle_law:
  assumes "isp_pool_inv s w" "ISP_getIdleComputePlace s w force = (r', s', w')"
  shows "conserves imm_queued isp_pool_inv {#} {#} s w s' w'"
  using assms by (auto simp: ISP_getIdleComputePlace_def conserves_def
      split: if_splits prod.splits dest!: getIdleCPU_keeps elim!: isp_pool_inv_frame)

lemma ISP_disable_law:
  assumes "isp_pool_inv s w" "place_ok w c" "ISP_disableComputePlace s w c = Inr (s', w')"
  shows "conserves imm_queued isp_pool_inv {#} {#} s w s' w'"
  using assms held_slots_clear_data [of w c]
  by (auto simp: ISP_disableComputePlace_def conserves_def isp_pool_inv_def imm_queued_def
      split: option.splits)

lemma store_own_slot_law:
  assumes "isp_pool_inv s w" "place_ok w c" "store_own_slot c t s w = Inr (ok, s', w')"
  shows "ok \<and> s' = s \<and> isp_pool_inv s' w' \<and> w_cpus w' = w_cpus w \<and>
    held_slots w' = held_slots w + {#t#}"
  using assms by (auto simp: store_own_slot_def held_slots_fill_slot isp_pool_inv_def split: option.splits)

lemma ISP_request_law:
  assumes inv: "isp_pool_inv s w" and place: "place_ok w c"
    and req: "ISP_requestPolling s w c c = Inr (ok, s', w')"
  shows "conserves imm_queued isp_pool_inv {#} {#} s w s' w'"
proof (cases "schedulerData w c")
  case (Some t)
  have "isp_pool_inv s (set_schedulerData c None w)"
    using inv by (auto elim: isp_pool_inv_frame)
  with Some req have "conserves imm_queued isp_pool_inv {#t#} {#} s (set_schedulerData c None w) s' w'"
    using store_own_slot_law [of s "set_schedulerData c None w" c t] place
    by (auto simp: ISP_requestPolling_def conserves_def)
  moreover have "held_slots w = held_slots (set_schedulerData c None w) + {#t#}"
    using held_slots_clear_data Some inv place by (simp add: isp_pool_inv_def)
  ultimately show ?thesis by (simp add: conserves_def)
next
  case None
  have stored: "conserves imm_queued isp_pool_inv {#} {#} s w s' w'"
    if "store_own_slot c t s1 w = Inr (ok, s', w')" "imm_queued s = imm_queued s1 + {#t#}"
      "ip_pollingSlot s1 = ip_pollingSlot s" for t s1
    using store_own_slot_law [of s1 w c t] that inv place isp_pool_inv_frame [of s w w s1]
    by (auto simp: conserves_def)
  show ?thesis
  proof (cases "imm_queued s = {#}")
    case True
    with None req inv place show ?thesis
      by (auto simp: ISP_requestPolling_def ISP_getReplacementTask_def imm_queued_def conserves_def
          isp_pool_inv_def split: option.splits)
  next
    case False
    with None req show ?thesis
      by (auto simp: ISP_requestPolling_def ISP_getReplacementTask_def imm_queued_def
          split: list.splits intro!: stored)
  qed
qed

lemma ISP_release_law:
  assumes "isp_pool_inv s w" "place_ok w c" "ISP_releasePolling s w c c = Inr (ok, s', w')"
  shows "conserves imm_queued isp_pool_inv {#} {#} s w s' w'"
  using assms by (auto simp: ISP_releasePolling_def conserves_def isp_pool_inv_def split: if_splits)

lemma isp_pool_enable: "isp_pool_inv s w \<Longrightarrow> Interface_enableComputePlace s w c = Inr (s', w') \<Longrightarrow>
  conserves imm_queued isp_pool_inv {#} {#} s w s' w'"
  by (simp add: Interface_enableComputePlace_def conserves_def)

lemma isp_pool_inv_slot [simp]: "isp_pool_inv s (set_slot c x w) = isp_pool_inv s w"
  by (simp add: isp_pool_inv_def split: option.splits)

lemmas isp_pool_laws = isp_pool_inv_world isp_pool_enable ISP_add_law ISP_get_law ISP_idle_law
  ISP_disable_law ISP_request_law ISP_release_law

interpretation isp_pool: ready_pool imm_queued isp_pool_inv ISP_ops
  by unfold_locales (auto simp: ISP_ops_def intro: isp_pool_laws)

text \<open>
  The two polling classes are copies of each other but for the end at which a task joins the
  queues.
\<close>

lemma FISP_shared:
  "FISP_getReplacementTask = ISP_getReplacementTask"
  "FISP_getReadyTask = ISP_getReadyTask"
  "FISP_getIdleComputePlace = ISP_getIdleComputePlace"
  "FISP_disableComputePlace = ISP_disableComputePlace"
  "FISP_requestPolling = ISP_requestPolling"
  "FISP_releasePolling = ISP_releasePolling"
proof -
  have eq: "FISP_getReplacementTask s = ISP_getReplacementTask s" for s
    by (simp add: FISP_getReplacementTask_def ISP_getReplacementTask_def)
  then show "FISP_getReplacementTask = ISP_getReplacementTask" by (rule ext)
  show "FISP_getReadyTask = ISP_getReadyTask" "FISP_requestPolling = ISP_requestPolling"
    by (intro ext, simp only: FISP_getReadyTask_def ISP_getReadyTask_def FISP_requestPolling_def
        ISP_requestPolling_def eq)+
qed (simp_all add: fun_eq_iff FISP_getIdleComputePlace_def ISP_getIdleComputePlace_def
      FISP_disableComputePlace_def ISP_disableComputePlace_def FISP_releasePolling_def
      ISP_releasePolling_def)

interpretation fisp_pool: ready_pool imm_queued isp_pool_inv FISP_ops
  by unfold_locales (auto simp: FISP_ops_def FISP_shared intro: isp_pool_laws FISP_add_law)

section \<open>Order of service\<close>

text \<open>
  Adding a batch of child tasks with nobody polling and then taking them from a CPU whose
  immediate successor slot is empty.
\<close>

definition batch_then_gets :: "task_ref list \<Rightarrow> cpu_ref \<Rightarrow> sched_event list" where
  "batch_then_gets ts c =
     map (\<lambda>t. EvAdd t None CHILD_TASK_HINT False) ts @ replicate (length ts) (EvGet c None False False)"

lemma run_sched_append:
  "run_sched ops (es @ fs) s w =
     result_bind (run_sched ops es s w)
       (\<lambda>(ts, s1, w1). result_bind (run_sched ops fs s1 w1) (\<lambda>(us, s2, w2). Inr (ts @ us, s2, w2)))"
proof (induction es arbitrary: s w)
  case Nil
  show ?case by (auto simp: result_bind_def split: sum.splits prod.splits)
next
  case (Cons e es)
  show ?case
    by (auto simp: Cons.IH result_bind_def split: sum.splits prod.splits option.splits)
qed

definition plain_tasks :: "world \<Rightarrow> task_ref list \<Rightarrow> bool" where
  "plain_tasks w ts =
     list_all (\<lambda>t. getDeviceType (w_tasks w t) = nanos6_host_device \<and> \<not> isTaskloop (w_tasks w t)) ts"

definition ready_cpu :: "world \<Rightarrow> cpu_ref \<Rightarrow> bool" where
  "ready_cpu w c \<longleftrightarrow> cp_type (w_places w c) = nanos6_host_device \<and> schedulerData w c = None"

lemma host_task_checks_plain:
  "getDeviceType (w_tasks w t) = nanos6_host_device \<Longrightarrow> \<not> isTaskloop (w_tasks w t) \<Longrightarrow>
   host_task_checks w t k = k"
  by (simp add: host_task_checks_def)

lemma FISP_run_adds:
  "plain_tasks w ts \<Longrightarrow> ip_pollingSlot s = None \<Longrightarrow>
   run_sched FISP_ops (map (\<lambda>t. EvAdd t None CHILD_TASK_HINT False) ts) s w =
     Inr ([], s\<lparr>iq_readyTasks := iq_readyTasks s @ ts\<rparr>, w)"
  by (induction ts arbitrary: s)
    (simp_all add: FISP_ops_def FISP_addReadyTask_def FISP_add_locked_def takes_successor_slot_def
      take_pollingSlot_def host_task_checks_plain plain_tasks_def)

lemma ISP_run_adds:
  "plain_tasks w ts \<Longrightarrow> ip_pollingSlot s = None \<Longrightarrow>
   run_sched ISP_ops (map (\<lambda>t. EvAdd t None CHILD_TASK_HINT False) ts) s w =
     Inr ([], s\<lparr>iq_readyTasks := rev ts @ iq_readyTasks s\<rparr>, w)"
  by (induction ts arbitrary: s)
    (simp_all add: ISP_ops_def ISP_addReadyTask_def ISP_add_locked_def takes_successor_slot_def
      take_pollingSlot_def host_task_checks_plain plain_tasks_def)

lemma ISP_get_ready:
  "ready_cpu w c \<Longrightarrow> iq_unblockedTasks s = [] \<Longrightarrow> iq_readyTasks s = t # ts \<Longrightarrow>
   ISP_getReadyTask s w c cur b d = Inr (Some t, s\<lparr>iq_readyTasks := ts\<rparr>, w)"
  by (simp add: ISP_getReadyTask_def ISP_getReplacementTask_def ready_cpu_def)

lemma ISP_run_gets:
  "so_getReadyTask ops = ISP_getReadyTask \<Longrightarrow> ready_cpu w c \<Longrightarrow> iq_unblockedTasks s = [] \<Longrightarrow>
   iq_readyTasks s = ts @ us \<Longrightarrow>
   run_sched ops (replicate (length ts) (EvGet c None False False)) s w =
     Inr (ts, s\<lparr>iq_readyTasks := us\<rparr>, w)"
  by (induction ts arbitrary: s) (simp_all add: ISP_get_ready)

section \<open>Properties\<close>

text \<open>
  C21. The immediate successor scheduler with polling neither loses nor duplicates tasks: after any
  history of calls from the empty state, the tasks handed out, those in the queues, those in the
  immediate successor slots and those in the polling slots are together exactly the tasks that
  were added.
\<close>

theorem ISP_conserves_tasks:
  assumes "run_sched ISP_ops es ISP_new w = Inr (ts, s', w')"
    and "world_ok w" "evs_ok w es" "held_slots w = {#}"
  shows "mset ts + imm_queued s' + held_slots w' = mset (ev_added es)"
proof -
  have "isp_pool_inv ISP_new w" "imm_queued ISP_new = {#}"
    using assms(2) by (simp_all add: isp_pool_inv_def ISP_new_def imm_queued_def)
  with isp_pool.history_conserves [OF assms(1) _ assms(3)] assms(4) show ?thesis
    by (simp add: conserves_def ac_simps)
qed

definition polling_history :: "sched_event list" where
  "polling_history =
     [EvAdd 1 None NO_HINT True, EvAdd 2 (Some 0) SIBLING_TASK_HINT True, EvGet 1 None True False,
      EvRequest 1, EvAdd 3 None CHILD_TASK_HINT True, EvRead 1, EvDisable 0, EvGet 1 None True False]"

lemma polling_history_ok:
  "world_ok (plain_world 2)" "evs_ok (plain_world 2) polling_history" "held_slots (plain_world 2) = {#}"
  by (simp_all add: world_ok_def evs_ok_def ev_ok_def place_ok_def polling_history_def w_cpus_def
      plain_world_def map_filter_simps held_slots_def schedulerData_def plain_place_def
      numeral_2_eq_2)

lemmas isp_eval_simps = ISP_getReadyTask_def ISP_getReplacementTask_def ISP_requestPolling_def
  ISP_disableComputePlace_def store_own_slot_def give_to_slot_def slot_setTask_def slot_getTask_def
  take_pollingSlot_def host_task_checks_def takes_successor_slot_def plain_world_def plain_task_def
  plain_place_def Task_new_def getDeviceType_def isTaskloop_def getIdleCPU_def schedulerData_def
  set_schedulerData_def set_slot_def numeral_2_eq_2

theorem ISP_conserves_tasks_witness:
  "\<exists>ts s' w'. run_sched ISP_ops polling_history ISP_new (plain_world 2) = Inr (ts, s', w') \<and>
     ts = [1, 3, 2] \<and> mset ts + imm_queued s' + held_slots w' = mset [1, 2, 3]"
proof -
  obtain s' w' where run: "run_sched ISP_ops polling_history ISP_new (plain_world 2) = Inr ([1, 3, 2], s', w')"
    by (simp add: polling_history_def ISP_ops_def ISP_addReadyTask_def ISP_add_locked_def ISP_new_def
        isp_eval_simps)
  from ISP_conserves_tasks [OF run polling_history_ok] run show ?thesis
    by (intro exI conjI) (assumption, rule refl, simp add: polling_history_def ev_added_def)
qed

text \<open>
  The same for the variant that serves its queues in order of arrival, and in addition: if no
  task is added twice, no task is handed out twice.
\<close>

lemma FISP_at_most_once:
  assumes "run_sched FISP_ops es FISP_new w = Inr (ts, s', w')"
    and "world_ok w" "evs_ok w es" "held_slots w = {#}" "distinct (ev_added es)"
  shows "distinct ts \<and> set ts \<subseteq> set (ev_added es) \<and>
         set (ev_added es) - set ts \<subseteq> set_mset (imm_queued s' + held_slots w')"
proof -
  have inv: "isp_pool_inv FISP_new w" and empty: "imm_queued FISP_new + held_slots w = {#}"
    using assms(2,4) by (simp_all add: isp_pool_inv_def FISP_new_def imm_queued_def)
  have "imm_queued s' + held_slots w' + mset ts = mset (ev_added es)"
    using fisp_pool.history_conserves [OF assms(1) inv assms(3)] empty by (simp add: conserves_def)
  then have "set_mset (imm_queued s' + held_slots w') \<union> set ts = set (ev_added es)"
    by (metis set_mset_mset set_mset_union)
  with fisp_pool.history_at_most_once [OF assms(1) inv assms(3) empty assms(5)] show ?thesis
    by blast
qed

text \<open>
  Order of service: a batch of child tasks is executed in the order of creation by the FIFO
  variant and in the reverse order by the plain one.
\<close>

lemma service_order:
  assumes "plain_tasks w ts" "ready_cpu w c"
  shows "run_sched FISP_ops (batch_then_gets ts c) FISP_new w = Inr (ts, FISP_new, w) \<and>
         run_sched ISP_ops (batch_then_gets ts c) ISP_new w = Inr (rev ts, ISP_new, w)"
proof
  show "run_sched FISP_ops (batch_then_gets ts c) FISP_new w = Inr (ts, FISP_new, w)"
    using FISP_run_adds [OF assms(1), of FISP_new]
      ISP_run_gets [OF _ assms(2), of FISP_ops "FISP_new\<lparr>iq_readyTasks := ts\<rparr>" ts "[]"]
    by (simp add: batch_then_gets_def run_sched_append FISP_new_def FISP_ops_def FISP_shared)
  show "run_sched ISP_ops (batch_then_gets ts c) ISP_new w = Inr (rev ts, ISP_new, w)"
    using ISP_run_adds [OF assms(1), of ISP_new]
      ISP_run_gets [OF _ assms(2), of ISP_ops "ISP_new\<lparr>iq_readyTasks := rev ts\<rparr>" "rev ts" "[]"]
    by (simp add: batch_then_gets_def run_sched_append ISP_new_def ISP_ops_def)
qed

text \<open>
  A host CPU is sent away without a task only when there is none it could take: its immediate
  successor slot and both queues are empty. It is then marked idle if the caller allows it.
  Otherwise the immediate successor is preferred over an unblocked task, and that over a ready one.
\<close>

lemma IS_getReadyTask_work_conserving:
  assumes "cp_type (w_places w c) = nanos6_host_device"
  shows "\<exists>r s' w'. IS_getReadyTask s w c cur canMark d = Inr (r, s', w') \<and>
    r = (case schedulerData w c of Some t \<Rightarrow> Some t
         | None \<Rightarrow> (case iq_unblockedTasks s @ iq_readyTasks s of [] \<Rightarrow> None | t # _ \<Rightarrow> Some t)) \<and>
    (r = None \<longrightarrow> schedulerData w c = None \<and> imm_queued s = {#} \<and> s' = s \<and>
       w' = (if canMark then cpuBecomesIdle c w else w))"
  using assms
  by (auto simp: IS_getReadyTask_def IS_getReplacementTask_def imm_queued_def split: option.splits list.splits)

end
