(* ===== verification/N6_PollingProtocol.thy ===== *)
theory N6_PollingProtocol
  imports N6_ImmediateSuccessor
begin

text \<open>
  The polling protocol of \<open>ImmediateSuccessorWithPollingScheduler\<close> under interleaving. An
  \<open>addReadyTask\<close> is split at its synchronisation points: the unlocked attempt to take
  \<open>_pollingSlot\<close>, the section under \<open>_globalLock\<close>, and the store into the slot it obtained.
  The configuration keeps the additions between these points and the CPUs whose thread is inside
  the polling loop of \<open>Scheduler::getReadyTask\<close>.
\<close>

section \<open>Configurations and steps\<close>

record isp_conf =
  ic_s :: imm_polling
  ic_w :: world
  ic_pending :: "(task_ref \<times> ReadyTaskHint \<times> bool) list"
  ic_flight :: "(cpu_ref \<times> task_ref) list"
  ic_pollers :: "cpu_ref set"
  ic_out :: "task_ref list"

definition drop_nth :: "nat \<Rightarrow> 'a list \<Rightarrow> 'a list" where
  "drop_nth i xs = take i xs @ drop (Suc i) xs"

text \<open>\<open>addReadyTask\<close> up to and including the unlocked attempt.\<close>

definition isp_add_start ::
  "task_ref \<Rightarrow> cpu_ref option \<Rightarrow> ReadyTaskHint \<Rightarrow> bool \<Rightarrow> isp_conf \<Rightarrow> isp_conf result" where
  "isp_add_start task computePlace hint doGetIdle cf =
     host_task_checks (ic_w cf) task
       (if takes_successor_slot (ic_w cf) computePlace hint
        then Inr (cf\<lparr>ic_w := set_schedulerData (the computePlace) (Some task) (ic_w cf)\<rparr>)
        else
          (let (pollingSlot, s1) = take_pollingSlot (ic_s cf) in
           case pollingSlot of
             Some slot \<Rightarrow> Inr (cf\<lparr>ic_s := s1, ic_flight := (slot, task) # ic_flight cf\<rparr>)
           | None \<Rightarrow> Inr (cf\<lparr>ic_pending := (task, hint, doGetIdle) # ic_pending cf\<rparr>)))"

text \<open>The section under the lock, for the \<open>i\<close>-th pending addition.\<close>

definition isp_add_locked :: "nat \<Rightarrow> isp_conf \<Rightarrow> isp_conf result" where
  "isp_add_locked i cf =
     (let (task, hint, doGetIdle) = ic_pending cf ! i;
          cf1 = cf\<lparr>ic_pending := drop_nth i (ic_pending cf)\<rparr>;
          (pollingSlot, s1) = take_pollingSlot (ic_s cf) in
      case pollingSlot of
        Some slot \<Rightarrow> Inr (cf1\<lparr>ic_s := s1, ic_flight := (slot, task) # ic_flight cf\<rparr>)
      | None \<Rightarrow>
          result_bind (ISP_add_locked (ic_s cf) (ic_w cf) task hint doGetIdle)
            (\<lambda>(idle, s2, w2). Inr (cf1\<lparr>ic_s := s2, ic_w := w2\<rparr>)))"

text \<open>The store of the \<open>i\<close>-th addition in flight into the slot it obtained.\<close>

definition isp_store :: "nat \<Rightarrow> isp_conf \<Rightarrow> isp_conf result" where
  "isp_store i cf =
     (let (slot, task) = ic_flight cf ! i in
      result_bind (give_to_slot slot task (ic_s cf) (ic_w cf))
        (\<lambda>(_, s1, w1). Inr (cf\<lparr>ic_s := s1, ic_w := w1, ic_flight := drop_nth i (ic_flight cf)\<rparr>)))"

text \<open>A thread enters \<open>Scheduler::getReadyTask\<close> with a fresh slot and requests to poll.\<close>

definition isp_request :: "cpu_ref \<Rightarrow> isp_conf \<Rightarrow> isp_conf result" where
  "isp_request c cf =
     result_bind (ISP_requestPolling (ic_s cf) (set_slot c None (ic_w cf)) c c)
       (\<lambda>(ok, s1, w1).
         Inr (cf\<lparr>ic_s := s1, ic_w := w1,
                 ic_pollers := (if ok then insert c (ic_pollers cf) else ic_pollers cf)\<rparr>))"

text \<open>One iteration of the polling loop.\<close>

definition isp_poll :: "cpu_ref \<Rightarrow> isp_conf \<Rightarrow> isp_conf result" where
  "isp_poll c cf =
     (let (task, w1) = slot_getTask c (ic_w cf) in
      case task of
        None \<Rightarrow> Inr (cf\<lparr>ic_w := w1\<rparr>)
      | Some t \<Rightarrow> Inr (cf\<lparr>ic_w := w1, ic_pollers := ic_pollers cf - {c}, ic_out := t # ic_out cf\<rparr>))"

text \<open>A successful \<open>releasePolling\<close> ends the loop; after a failed one a task is on its way.\<close>

definition isp_release :: "cpu_ref \<Rightarrow> isp_conf \<Rightarrow> isp_conf result" where
  "isp_release c cf =
     result_bind (ISP_releasePolling (ic_s cf) (ic_w cf) c c)
       (\<lambda>(worked, s1, w1).
         Inr (cf\<lparr>ic_s := s1, ic_w := w1,
                 ic_pollers := (if worked then ic_pollers cf - {c} else ic_pollers cf)\<rparr>))"

definition isp_get :: "cpu_ref \<Rightarrow> bool \<Rightarrow> isp_conf \<Rightarrow> isp_conf result" where
  "isp_get c canMarkAsIdle cf =
     result_bind (ISP_getReadyTask (ic_s cf) (ic_w cf) c None canMarkAsIdle False)
       (\<lambda>(task, s1, w1).
         Inr (cf\<lparr>ic_s := s1, ic_w := w1,
                 ic_out := (case task of None \<Rightarrow> ic_out cf | Some t \<Rightarrow> t # ic_out cf)\<rparr>))"

datatype isp_act =
    AddStart task_ref "cpu_ref option" ReadyTaskHint bool
  | AddLocked nat
  | Store nat
  | Request cpu_ref
  | Poll cpu_ref
  | Release cpu_ref
  | Get cpu_ref bool

fun isp_exec :: "isp_act \<Rightarrow> isp_conf \<Rightarrow> isp_conf result" where
  "isp_exec (AddStart t cp h b) = isp_add_start t cp h b"
| "isp_exec (AddLocked i) = isp_add_locked i"
| "isp_exec (Store i) = isp_store i"
| "isp_exec (Request c) = isp_request c"
| "isp_exec (Poll c) = isp_poll c"
| "isp_exec (Release c) = isp_release c"
| "isp_exec (Get c b) = isp_get c b"

text \<open>
  A CPU runs one thread: while it polls it neither requests to poll again nor asks for a task.
\<close>

fun isp_enabled :: "isp_act \<Rightarrow> isp_conf \<Rightarrow> bool" where
  "isp_enabled (AddStart t cp h b) cf = True"
| "isp_enabled (AddLocked i) cf = (i < length (ic_pending cf))"
| "isp_enabled (Store i) cf = (i < length (ic_flight cf))"
| "isp_enabled (Request c) cf = (c \<notin> ic_pollers cf)"
| "isp_enabled (Poll c) cf = (c \<in> ic_pollers cf)"
| "isp_enabled (Release c) cf = (c \<in> ic_pollers cf)"
| "isp_enabled (Get c b) cf = (c \<notin> ic_pollers cf)"

definition isp_init :: "world \<Rightarrow> isp_conf" where
  "isp_init w = \<lparr>ic_s = ISP_new, ic_w = w, ic_pending = [], ic_flight = [], ic_pollers = {}, ic_out = []\<rparr>"

inductive isp_reach :: "isp_conf \<Rightarrow> bool" where
  reach_init: "isp_reach (isp_init w)"
| reach_step: "isp_reach cf \<Longrightarrow> isp_enabled a cf \<Longrightarrow> isp_exec a cf = Inr cf' \<Longrightarrow> isp_reach cf'"

section \<open>Invariant\<close>

definition flight_cpus :: "isp_conf \<Rightarrow> cpu_ref set" where
  "flight_cpus cf = fst ` set (ic_flight cf)"

definition isp_inv :: "isp_conf \<Rightarrow> bool" where
  "isp_inv cf \<longleftrightarrow>
     distinct (map fst (ic_flight cf)) \<and>
     (\<forall>c \<in> flight_cpus cf. c \<in> ic_pollers cf \<and> w_slot (ic_w cf) c = None) \<and>
     (\<forall>c. ip_pollingSlot (ic_s cf) = Some c \<longrightarrow>
        c \<in> ic_pollers cf \<and> w_slot (ic_w cf) c = None \<and> c \<notin> flight_cpus cf \<and>
        iq_readyTasks (ic_s cf) = [] \<and> iq_unblockedTasks (ic_s cf) = []) \<and>
     (\<forall>c \<in> ic_pollers cf.
        ip_pollingSlot (ic_s cf) = Some c \<or> c \<in> flight_cpus cf \<or> w_slot (ic_w cf) c \<noteq> None)"

lemma flight_cpus_cong: "ic_flight cf' = ic_flight cf \<Longrightarrow> flight_cpus cf' = flight_cpus cf"
  by (simp add: flight_cpus_def)

lemma flight_cpus_Cons [simp]:
  "flight_cpus (cf\<lparr>ic_flight := (c, t) # fs\<rparr>) = insert c (flight_cpus (cf\<lparr>ic_flight := fs\<rparr>))"
  by (simp add: flight_cpus_def)

lemma flight_cpus_frame [simp]:
  "flight_cpus (cf\<lparr>ic_s := s\<rparr>) = flight_cpus cf"
  "flight_cpus (cf\<lparr>ic_w := w\<rparr>) = flight_cpus cf"
  "flight_cpus (cf\<lparr>ic_pending := ps\<rparr>) = flight_cpus cf"
  "flight_cpus (cf\<lparr>ic_pollers := ps'\<rparr>) = flight_cpus cf"
  "flight_cpus (cf\<lparr>ic_out := os\<rparr>) = flight_cpus cf"
  "flight_cpus (cf\<lparr>ic_flight := ic_flight cf\<rparr>) = flight_cpus cf"
  by (simp_all add: flight_cpus_def)

lemma isp_inv_init: "isp_inv (isp_init w)"
  by (simp add: isp_inv_def isp_init_def ISP_new_def flight_cpus_def)

lemma isp_inv_frame:
  assumes "isp_inv cf" "ic_flight cf' = ic_flight cf" "ic_pollers cf' = ic_pollers cf"
    and "w_slot (ic_w cf') = w_slot (ic_w cf)"
    and "ip_pollingSlot (ic_s cf') = ip_pollingSlot (ic_s cf)"
    and "ip_pollingSlot (ic_s cf) \<noteq> None \<Longrightarrow>
      iq_readyTasks (ic_s cf') = [] \<and> iq_unblockedTasks (ic_s cf') = []"
  shows "isp_inv cf'"
  using assms(1,4-6) unfolding isp_inv_def assms(2,3) flight_cpus_cong [OF assms(2)] by auto

lemma isp_inv_take:
  assumes "isp_inv cf" "ip_pollingSlot (ic_s cf) = Some c"
  shows "isp_inv (cf\<lparr>ic_s := (ic_s cf)\<lparr>ip_pollingSlot := None\<rparr>, ic_flight := (c, t) # ic_flight cf\<rparr>)"
  using assms by (auto simp: isp_inv_def flight_cpus_def)

lemma isp_inv_queues:
  "isp_inv cf \<Longrightarrow> ip_pollingSlot (ic_s cf) \<noteq> None \<Longrightarrow>
   iq_readyTasks (ic_s cf) = [] \<and> iq_unblockedTasks (ic_s cf) = []"
  by (auto simp: isp_inv_def)

lemma set_drop_nth: "set (drop_nth i xs) \<subseteq> set xs"
  by (auto simp: drop_nth_def dest: in_set_takeD in_set_dropD)

lemma drop_nth_split:
  "i < length xs \<Longrightarrow> \<exists>ys zs. xs = ys @ xs ! i # zs \<and> drop_nth i xs = ys @ zs"
  by (metis drop_nth_def id_take_nth_drop)

lemma isp_inv_add_start:
  assumes "isp_inv cf" "isp_add_start t cp h b cf = Inr cf'"
  shows "isp_inv cf'"
proof (cases "\<not> takes_successor_slot (ic_w cf) cp h \<and> ip_pollingSlot (ic_s cf) \<noteq> None")
  case True
  then obtain c where "ip_pollingSlot (ic_s cf) = Some c" by blast
  with True assms isp_inv_take [OF assms(1), of c t] show ?thesis
    by (auto simp: isp_add_start_def take_pollingSlot_def)
next
  case False
  with assms(2) isp_inv_queues [OF assms(1)] show ?thesis
    by (auto simp: isp_add_start_def take_pollingSlot_def split: if_splits option.splits
        intro!: isp_inv_frame [OF assms(1)])
qed

lemma isp_inv_add_locked:
  assumes "isp_inv cf" "isp_add_locked i cf = Inr cf'"
  shows "isp_inv cf'"
proof -
  obtain t h b where pend: "ic_pending cf ! i = (t, h, b)"
    by (cases "ic_pending cf ! i")
  show ?thesis
  proof (cases "ip_pollingSlot (ic_s cf)")
    case None
    with assms(2) pend show ?thesis
      by (auto simp: isp_add_locked_def ISP_add_locked_def take_pollingSlot_def Let_def
          split: if_splits prod.splits dest!: getIdleCPU_keeps intro!: isp_inv_frame [OF assms(1)])
  next
    case (Some c)
    with assms(2) pend have "cf' = (cf\<lparr>ic_s := (ic_s cf)\<lparr>ip_pollingSlot := None\<rparr>,
        ic_flight := (c, t) # ic_flight cf\<rparr>)\<lparr>ic_pending := drop_nth i (ic_pending cf)\<rparr>"
      by (auto simp: isp_add_locked_def take_pollingSlot_def)
    with isp_inv_take [OF assms(1) Some, of t] show ?thesis
      by (simp add: isp_inv_def)
  qed
qed

lemma isp_inv_flight:
  assumes "isp_inv cf" "i < length (ic_flight cf)" "ic_flight cf ! i = (c, t)"
  shows "w_slot (ic_w cf) c = None" "c \<notin> flight_cpus (cf\<lparr>ic_flight := drop_nth i (ic_flight cf)\<rparr>)"
    "flight_cpus cf = insert c (flight_cpus (cf\<lparr>ic_flight := drop_nth i (ic_flight cf)\<rparr>))"
    "distinct (map fst (drop_nth i (ic_flight cf)))" "ip_pollingSlot (ic_s cf) \<noteq> Some c"
proof -
  obtain ys zs where split: "ic_flight cf = ys @ (c, t) # zs" "drop_nth i (ic_flight cf) = ys @ zs"
    using drop_nth_split [OF assms(2)] assms(3) by metis
  with assms(1) show "w_slot (ic_w cf) c = None" "c \<notin> flight_cpus (cf\<lparr>ic_flight := drop_nth i (ic_flight cf)\<rparr>)"
    "flight_cpus cf = insert c (flight_cpus (cf\<lparr>ic_flight := drop_nth i (ic_flight cf)\<rparr>))"
    "distinct (map fst (drop_nth i (ic_flight cf)))" "ip_pollingSlot (ic_s cf) \<noteq> Some c"
    by (auto simp: isp_inv_def flight_cpus_def)
qed

lemma isp_inv_store:
  assumes "isp_inv cf" "i < length (ic_flight cf)" "isp_store i cf = Inr cf'"
  shows "isp_inv cf'"
proof -
  obtain c t where fl: "ic_flight cf ! i = (c, t)" by (cases "ic_flight cf ! i")
  note facts = isp_inv_flight [OF assms(1,2) fl]
  have cf': "cf' = cf\<lparr>ic_flight := drop_nth i (ic_flight cf), ic_w := set_slot c (Some t) (ic_w cf)\<rparr>"
    using assms(3) fl facts(1) by (auto simp: isp_store_def give_to_slot_def slot_setTask_def)
  show ?thesis
    unfolding isp_inv_def cf' using assms(1) facts
    by (auto simp: isp_inv_def)
qed

lemma isp_request_cases:
  assumes "ISP_requestPolling s w c c = Inr (ok, s', w')"
  shows "(ok \<and> w_slot w' c \<noteq> None \<and> ip_pollingSlot s' = ip_pollingSlot s \<and>
          (iq_readyTasks s = [] \<and> iq_unblockedTasks s = [] \<longrightarrow>
           iq_readyTasks s' = [] \<and> iq_unblockedTasks s' = []) \<or>
          ok \<and> w_slot w' c = w_slot w c \<and> ip_pollingSlot s = None \<and> ip_pollingSlot s' = Some c \<and>
          iq_readyTasks s' = [] \<and> iq_unblockedTasks s' = [] \<or>
          \<not> ok \<and> s' = s \<and> w_slot w' c = w_slot w c) \<and>
         (\<forall>d. d \<noteq> c \<longrightarrow> w_slot w' d = w_slot w d)"
  using assms
  by (auto simp: ISP_requestPolling_def ISP_getReplacementTask_def store_own_slot_def
      split: option.splits list.splits)

lemma isp_inv_request:
  assumes inv: "isp_inv cf" and c: "c \<notin> ic_pollers cf" and req: "isp_request c cf = Inr cf'"
  shows "isp_inv cf'"
proof -
  obtain ok s1 w1 where
    step: "ISP_requestPolling (ic_s cf) (set_slot c None (ic_w cf)) c c = Inr (ok, s1, w1)"
    and cf': "cf' = cf\<lparr>ic_s := s1, ic_w := w1,
      ic_pollers := (if ok then insert c (ic_pollers cf) else ic_pollers cf)\<rparr>"
    using req by (auto simp: isp_request_def)
  have "c \<notin> flight_cpus cf" "ip_pollingSlot (ic_s cf) \<noteq> Some c"
    using inv c by (auto simp: isp_inv_def)
  moreover note isp_request_cases [OF step]
  ultimately show ?thesis
    unfolding cf' isp_inv_def using inv c
    by (fastforce simp: isp_inv_def)
qed

lemma isp_inv_poll:
  assumes "isp_inv cf" "c \<in> ic_pollers cf" "isp_poll c cf = Inr cf'"
  shows "isp_inv cf'"
proof (cases "w_slot (ic_w cf) c")
  case None
  with assms(3) have "cf' = cf\<lparr>ic_w := set_slot c None (ic_w cf)\<rparr>"
    by (simp add: isp_poll_def slot_getTask_def)
  moreover have "w_slot (set_slot c None (ic_w cf)) = w_slot (ic_w cf)"
    using None by (auto simp: fun_eq_iff)
  ultimately show ?thesis
    using assms(1) by (auto simp: isp_inv_def)
next
  case (Some t)
  with assms show ?thesis
    by (auto simp: isp_poll_def slot_getTask_def isp_inv_def)
qed

lemma isp_inv_release:
  "isp_inv cf \<Longrightarrow> isp_release c cf = Inr cf' \<Longrightarrow> isp_inv cf'"
  by (cases "ip_pollingSlot (ic_s cf) = Some c")
    (auto simp: isp_release_def ISP_releasePolling_def isp_inv_def)

lemma isp_inv_get:
  assumes "isp_inv cf" "isp_get c b cf = Inr cf'"
  shows "isp_inv cf'"
  using assms(2) isp_inv_queues [OF assms(1)]
  by (auto simp: isp_get_def ISP_getReadyTask_def ISP_getReplacementTask_def
      split: if_splits option.splits list.splits intro!: isp_inv_frame [OF assms(1)])

lemma isp_inv_exec:
  "isp_inv cf \<Longrightarrow> isp_enabled a cf \<Longrightarrow> isp_exec a cf = Inr cf' \<Longrightarrow> isp_inv cf'"
  by (cases a) (auto intro: isp_inv_add_start isp_inv_add_locked isp_inv_store isp_inv_request
      isp_inv_poll isp_inv_release isp_inv_get)

lemma isp_reach_inv: "isp_reach cf \<Longrightarrow> isp_inv cf"
  by (induction rule: isp_reach.induct) (auto intro: isp_inv_init isp_inv_exec)

section \<open>Properties\<close>





text \<open>
  In every reachable configuration a CPU is registered for polling only while both queues are
  empty, and a polling CPU that is no longer registered has its task already in its slot or an
  addition in flight towards it: no poller waits while work is queued, none is forgotten.
\<close>

lemma isp_pollers_served:
  assumes "isp_reach cf"
  shows "(ip_pollingSlot (ic_s cf) \<noteq> None \<longrightarrow>
            iq_readyTasks (ic_s cf) = [] \<and> iq_unblockedTasks (ic_s cf) = []) \<and>
         (\<forall>c \<in> ic_pollers cf. ip_pollingSlot (ic_s cf) \<noteq> Some c \<longrightarrow>
            (\<exists>t. w_slot (ic_w cf) c = Some t \<or> (c, t) \<in> set (ic_flight cf)))"
proof -
  note inv = isp_reach_inv [OF assms]
  moreover have "\<exists>t. w_slot (ic_w cf) c = Some t \<or> (c, t) \<in> set (ic_flight cf)"
    if "c \<in> ic_pollers cf" "ip_pollingSlot (ic_s cf) \<noteq> Some c" for c
    using inv that by (fastforce simp: isp_inv_def flight_cpus_def)
  ultimately show ?thesis
    using isp_inv_queues by blast
qed



text \<open>
  The calls that other threads make while CPU 0 polls: one releases a task, the other starts to
  disable CPU 0.
\<close>

definition deliver_task :: "task_ref \<Rightarrow> imm_polling \<times> world \<Rightarrow> imm_polling \<times> world" where
  "deliver_task t c =
     (case ISP_addReadyTask (fst c) (snd c) t None NO_HINT True of
        Inr (idle, s, w) \<Rightarrow> (s, w) | Inl e \<Rightarrow> c)"

definition start_disabling :: "cpu_ref \<Rightarrow> 's \<times> world \<Rightarrow> 's \<times> world" where
  "start_disabling cpu c =
     (fst c, (snd c)\<lparr>w_places := (w_places (snd c))
        (cpu := (w_places (snd c) cpu)\<lparr>cp_activationStatus := disabling_status\<rparr>)\<rparr>)"

text \<open>
  \<open>Scheduler::getReadyTask\<close> can lose a task: CPU 0 polls, task 7 is stored into its slot and
  the CPU starts to be disabled. The loop has read task 7, the test of \<open>acceptsWork\<close> then reads
  the slot again and overwrites it with null: the call returns no task, and task 7 is neither in a
  queue nor in a slot.
\<close>

lemma getReadyTask_drops_task:
  "\<exists>s w. Scheduler_getReadyTask ISP_ops [deliver_task 7] (start_disabling 0) ISP_new
            (plain_world 1) 0 None True = Some (Inr (None, s, w)) \<and>
         imm_queued s + held_slots w = {#}"
proof -
  let ?w = "plain_world 1"
  let ?s1 = "ISP_new\<lparr>ip_pollingSlot := Some 0\<rparr>" and ?w1 = "set_slot 0 None ?w"
  let ?w2 = "set_slot 0 None (set_slot 0 (Some 7) ?w1)"
  let ?w3 = "snd (start_disabling 0 (ISP_new, ?w2))"
  have req: "ISP_requestPolling ISP_new ?w1 0 0 = Inr (True, ?s1, ?w1)"
    by (simp add: ISP_requestPolling_def ISP_getReplacementTask_def ISP_new_def plain_world_def
        plain_place_def schedulerData_def set_slot_def)
  have "deliver_task 7 (?s1, ?w1) = (ISP_new, set_slot 0 (Some 7) ?w1)"
    by (simp add: deliver_task_def ISP_addReadyTask_def take_pollingSlot_def give_to_slot_def
        slot_setTask_def host_task_checks_def takes_successor_slot_def ISP_new_def plain_world_def
        plain_task_def Task_new_def getDeviceType_def isTaskloop_def set_slot_def)
  then have loop: "polling_loop [deliver_task 7] 0 ?s1 ?w1 = Some (Some 7, ISP_new, ?w2)"
    by (subst polling_loop.simps)
      (simp add: slot_getTask_def mustExit_def plain_world_def plain_place_def set_slot_def)
  have "Scheduler_getReadyTask ISP_ops [deliver_task 7] (start_disabling 0) ISP_new ?w 0 None True =
      Some (Inr (None, ISP_new, set_slot 0 None ?w3))"
    using req loop
    by (simp add: Scheduler_getReadyTask_def ISP_ops_def Interface_canWait_def start_disabling_def
        mustExit_def ISP_releasePolling_def slot_getTask_def plain_world_def plain_place_def
        set_slot_def ISP_new_def)
  moreover have "held_slots (set_slot 0 None ?w3) = {#}"
    by (simp add: held_slots_def w_cpus_def start_disabling_def plain_world_def plain_place_def
        schedulerData_def set_slot_def map_filter_simps)
  ultimately show ?thesis
    by (auto simp: imm_queued_def ISP_new_def)
qed

text \<open>
  \<open>disableComputePlace\<close> moves the immediate successor of the disabled CPU to the ready queue
  without looking at \<open>_pollingSlot\<close>: from a state in which another CPU is registered for polling,
  the task is queued while that CPU keeps waiting.
\<close>

lemma disable_ignores_poller:
  assumes "ip_pollingSlot s = Some c" "schedulerData w d = Some t"
  shows "\<exists>s' w'. ISP_disableComputePlace s w d = Inr (s', w') \<and>
           ip_pollingSlot s' = Some c \<and> t \<in> set (iq_readyTasks s') \<and> w_slot w' c = w_slot w c"
  using assms by (simp add: ISP_disableComputePlace_def)

end
