(* ===== verification/N6_Taskloop.thy ===== *)
theory N6_Taskloop
  imports N6_Task
begin

text \<open>
  Task loops: \<open>src/tasks/TaskloopLogic.hpp\<close> (splitting the iteration space),
  \<open>src/tasks/TaskloopInfo.hpp\<close> (the partitions), \<open>src/tasks/Taskloop.hpp\<close> and \<open>Taskloop.cpp\<close>
  (collaborators that take chunks of iterations). \<open>size_t\<close> is a 64-bit word and wraps around;
  \<open>int\<close> values that are never negative are naturals. A collaborator takes a chunk with one
  \<open>fetch_add\<close>, so a call of \<open>getPendingIterationsFromPartition\<close> is one step, and the calls of all
  collaborators form some sequence.
\<close>

section \<open>Iteration spaces\<close>

record bounds_t =
  lower_bound :: size_t
  upper_bound :: size_t
  b_step :: size_t
  chunksize :: size_t

definition getIterationCount :: "bounds_t \<Rightarrow> size_t" where
  "getIterationCount bounds = upper_bound bounds - lower_bound bounds"

text \<open>The body of the loop of \<open>splitIterations\<close>, over the remaining partition numbers.\<close>

fun split_loop ::
  "nat \<Rightarrow> size_t \<Rightarrow> size_t \<Rightarrow> size_t \<Rightarrow> nat list \<Rightarrow> size_t \<Rightarrow> bounds_t list" where
  "split_loop numPartitions totalChunks chunk originalUpperBound [] lowerBound = []"
| "split_loop numPartitions totalChunks chunk originalUpperBound (part # ps) lowerBound =
     (let chunksPerPartition = totalChunks div of_nat numPartitions;
          extraChunk = (if totalChunks mod of_nat numPartitions \<ge> of_nat numPartitions - of_nat part
                        then 1 else 0);
          myIterations = (chunksPerPartition + extraChunk) * chunk;
          upperBound = min (lowerBound + myIterations) originalUpperBound in
      \<lparr>lower_bound = lowerBound, upper_bound = upperBound, b_step = 1, chunksize = chunk\<rparr> #
      split_loop numPartitions totalChunks chunk originalUpperBound ps upperBound)"

definition splitIterations :: "nat \<Rightarrow> bounds_t \<Rightarrow> bounds_t list result" where
  "splitIterations numPartitions bounds =
     assert_that (numPartitions > 0) ''numPartitions > 0''
       (assert_that (b_step bounds = 1) ''bounds.step == 1''
         (let totalIterations = getIterationCount bounds;
              totalChunks = totalIterations div chunksize bounds +
                (if totalIterations mod chunksize bounds > 0 then 1 else 0) in
          Inr (split_loop numPartitions totalChunks (chunksize bounds) (upper_bound bounds)
                 [0..<numPartitions] (lower_bound bounds))))"

section \<open>Partitions\<close>

record TaskloopPartition =
  upperBound :: size_t
  nextLowerBound :: size_t

record TaskloopInfo =
  tl_bounds :: bounds_t
  tl_remainingPartitions :: size_t
  tl_partitions :: "TaskloopPartition list option"

definition TaskloopInfo_new :: TaskloopInfo where
  "TaskloopInfo_new =
     \<lparr>tl_bounds = \<lparr>lower_bound = 0, upper_bound = 0, b_step = 0, chunksize = 0\<rparr>,
      tl_remainingPartitions = 0, tl_partitions = None\<rparr>"

text \<open>The number of partitions from the number of CPUs and the environment's CPUs per partition.\<close>

definition getPartitionCount :: "nat \<Rightarrow> nat \<Rightarrow> nat" where
  "getPartitionCount totalCPUs cpusPerPartition = 1 + (totalCPUs - 1) div cpusPerPartition"

text \<open>The memory for the partitions is assumed to be allocated.\<close>

definition TaskloopInfo_initialize :: "nat \<Rightarrow> TaskloopInfo \<Rightarrow> TaskloopInfo result" where
  "TaskloopInfo_initialize partitionCount info =
     assert_that (tl_partitions info = None) ''_partitions == nullptr''
       (assert_that (partitionCount > 0) ''partitionCount > 0''
         (let bounds = tl_bounds info;
              bounds' = (if chunksize bounds = 0
                         then bounds\<lparr>chunksize :=
                                max (getIterationCount bounds div of_nat (2 * partitionCount)) 1\<rparr>
                         else bounds) in
          result_bind (splitIterations partitionCount bounds')
            (\<lambda>partialBounds.
              assert_that (length partialBounds = partitionCount) ''partialBounds.size() == partitionCount''
                (Inr \<lparr>tl_bounds = bounds',
                      tl_remainingPartitions =
                        of_nat (length (filter (\<lambda>b. getIterationCount b > 0) partialBounds)),
                      tl_partitions =
                        Some (map (\<lambda>b. \<lparr>upperBound = upper_bound b, nextLowerBound = lower_bound b\<rparr>)
                               partialBounds)\<rparr>))))"

definition TaskloopInfo_initialize_with :: "nat \<Rightarrow> bounds_t \<Rightarrow> TaskloopInfo \<Rightarrow> TaskloopInfo result" where
  "TaskloopInfo_initialize_with partitionCount newBounds info =
     TaskloopInfo_initialize partitionCount (info\<lparr>tl_bounds := newBounds\<rparr>)"

section \<open>Taking chunks\<close>

definition hasPendingIterations :: "TaskloopInfo \<Rightarrow> bool" where
  "hasPendingIterations info = (tl_remainingPartitions info > 0)"

definition getPendingIterationsFromPartition ::
  "nat \<Rightarrow> TaskloopInfo \<Rightarrow> (bounds_t option \<times> TaskloopInfo) result" where
  "getPendingIterationsFromPartition partitionId info =
     (case tl_partitions info of
        None \<Rightarrow> Inl (AssertFailed ''_partitions != nullptr'')
      | Some partitions \<Rightarrow>
          assert_that (partitionId < length partitions) ''partitionId < getPartitionCount()''
            (let bounds = tl_bounds info;
                 steppedChunksize = b_step bounds * chunksize bounds;
                 part = partitions ! partitionId;
                 originalUpperBound = upperBound part;
                 lowerBound = nextLowerBound part;
                 info1 = info\<lparr>tl_partitions := Some (partitions
                   [partitionId := part\<lparr>nextLowerBound := lowerBound + steppedChunksize\<rparr>])\<rparr> in
             if lowerBound < originalUpperBound
             then (let upper = min (lowerBound + steppedChunksize) originalUpperBound;
                       obtained = \<lparr>lower_bound = lowerBound, upper_bound = upper,
                                   b_step = b_step bounds, chunksize = chunksize bounds\<rparr> in
                   Inr (Some obtained,
                        if upper \<ge> originalUpperBound
                        then info1\<lparr>tl_remainingPartitions := tl_remainingPartitions info1 - 1\<rparr>
                        else info1))
             else Inr (None, info1)))"

text \<open>\<open>modulus\<close>: the remainder of C++ takes the sign of the dividend.\<close>

definition c_rem :: "int \<Rightarrow> int \<Rightarrow> int" where
  "c_rem a b = sgn a * (\<bar>a\<bar> mod \<bar>b\<bar>)"

definition modulus :: "int \<Rightarrow> int \<Rightarrow> int" where
  "modulus a b = (if a < 0 then c_rem (c_rem a b + b) b else c_rem a b)"

fun zigzag_path :: "int \<Rightarrow> nat list \<Rightarrow> int \<Rightarrow> int \<Rightarrow> int list" where
  "zigzag_path partitionCount [] part sign = []"
| "zigzag_path partitionCount (i # is) part sign =
     (let part' = modulus (part + sign * int i) partitionCount in
      part' # zigzag_path partitionCount is part' (- sign))"

fun ring_path :: "int \<Rightarrow> nat \<Rightarrow> int \<Rightarrow> int list" where
  "ring_path partitionCount 0 part = []"
| "ring_path partitionCount (Suc n) part =
     part # ring_path partitionCount n (c_rem (part + 1) partitionCount)"

definition getPartitionPath :: "bool \<Rightarrow> nat \<Rightarrow> nat \<Rightarrow> int list" where
  "getPartitionPath useDistributionFunction partitionCount CPUId =
     (let part = c_rem (int CPUId) (int partitionCount) in
      if useDistributionFunction then zigzag_path (int partitionCount) [0..<partitionCount] part 1
      else ring_path (int partitionCount) partitionCount part)"

text \<open>
  One iteration of the loop of \<open>Taskloop::run\<close> by one collaborator: the bounds it executes (if it
  obtained any), whether it is done, and how many partitions it has visited.
\<close>

record collaborator =
  co_path :: "int list"
  co_visited :: nat
  co_done :: bool

definition Taskloop_run_start :: "bool \<Rightarrow> nat \<Rightarrow> nat \<Rightarrow> collaborator" where
  "Taskloop_run_start useDistributionFunction partitionCount virtualCPUId =
     \<lparr>co_path = getPartitionPath useDistributionFunction partitionCount virtualCPUId,
      co_visited = 0, co_done = False\<rparr>"

definition Taskloop_run_iter ::
  "nat \<Rightarrow> collaborator \<Rightarrow> TaskloopInfo \<Rightarrow> (bounds_t option \<times> collaborator \<times> TaskloopInfo) result" where
  "Taskloop_run_iter partitionCount co info =
     result_bind (getPendingIterationsFromPartition (nat (co_path co ! co_visited co)) info)
       (\<lambda>(work, info1).
         case work of
           Some b \<Rightarrow> Inr (Some b, co, info1)
         | None \<Rightarrow>
             (let visited = Suc (co_visited co) in
              if \<not> hasPendingIterations info1 \<or> visited = partitionCount
              then Inr (None, co\<lparr>co_visited := visited, co_done := True\<rparr>, info1)
              else assert_that (visited < partitionCount) ''visitedPartitions < partitionCount''
                     (Inr (None, co\<lparr>co_visited := visited\<rparr>, info1))))"

text \<open>
  All collaborators of a task loop: \<open>sched\<close> says which one runs its next loop iteration. The
  result are the chunks executed, in order.
\<close>

fun run_collaborators ::
  "nat \<Rightarrow> nat list \<Rightarrow> collaborator list \<Rightarrow> TaskloopInfo \<Rightarrow>
     (bounds_t list \<times> collaborator list \<times> TaskloopInfo) result" where
  "run_collaborators partitionCount [] cos info = Inr ([], cos, info)"
| "run_collaborators partitionCount (k # sched) cos info =
     (if k < length cos \<and> \<not> co_done (cos ! k)
      then result_bind (Taskloop_run_iter partitionCount (cos ! k) info)
             (\<lambda>(work, co, info1).
               result_bind (run_collaborators partitionCount sched (cos[k := co]) info1)
                 (\<lambda>(bs, cos2, info2). Inr ((case work of None \<Rightarrow> bs | Some b \<Rightarrow> b # bs), cos2, info2)))
      else run_collaborators partitionCount sched cos info)"

text \<open>
  \<open>notifyCollaboratorHasStarted\<close> and \<open>notifyCollaboratorHasFinished\<close> act on the removal blocking
  count of the (not runnable) source task loop.
\<close>

definition notifyCollaboratorHasStarted :: "task \<Rightarrow> task result" where
  "notifyCollaboratorHasStarted t =
     assert_that (\<not> isRunnable t) ''!isRunnable()'' (Inr (increaseRemovalBlockingCount t))"

definition notifyCollaboratorHasFinished :: "task \<Rightarrow> task result" where
  "notifyCollaboratorHasFinished t =
     assert_that (\<not> isRunnable t) ''!isRunnable()''
       (result_bind (decreaseRemovalBlockingCount t) (\<lambda>(_, t'). Inr t'))"

definition setRunnable :: "bool \<Rightarrow> task \<Rightarrow> task" where
  "setRunnable b = setFlag non_runnable_flag (\<not> b)"

definition setDelayedRelease :: "bool \<Rightarrow> task \<Rightarrow> task" where
  "setDelayedRelease b = setFlag wait_flag b"

section \<open>Splitting: closed form\<close>

text \<open>
  The reference: partition \<open>k\<close> starts after \<open>chunks_before n T k\<close> of the \<open>T\<close> chunks, and
  \<open>edge\<close> is the iteration number where it starts.
\<close>

definition chunks_before :: "nat \<Rightarrow> nat \<Rightarrow> nat \<Rightarrow> nat" where
  "chunks_before n T k = k * (T div n) + (k - (n - T mod n))"

definition edge :: "nat \<Rightarrow> nat \<Rightarrow> nat \<Rightarrow> nat \<Rightarrow> nat \<Rightarrow> nat \<Rightarrow> nat" where
  "edge n T cs L U k = min (L + chunks_before n T k * cs) U"

lemma chunks_before_Suc:
  "k < n \<Longrightarrow> chunks_before n T (Suc k) =
     chunks_before n T k + (T div n + (if T mod n \<ge> n - k then 1 else 0))"
proof -
  assume "k < n"
  moreover have "T mod n < n" using \<open>k < n\<close> by simp
  ultimately show ?thesis by (auto simp: chunks_before_def)
qed

lemma chunks_before_0: "n > 0 \<Longrightarrow> chunks_before n T 0 = 0"
  by (simp add: chunks_before_def)

lemma chunks_before_n: "n > 0 \<Longrightarrow> chunks_before n T n = T"
proof -
  assume "n > 0"
  then have "T mod n \<le> n" by (simp add: less_imp_le)
  then have "chunks_before n T n = n * (T div n) + T mod n" by (simp add: chunks_before_def)
  then show ?thesis by simp
qed

lemma chunks_before_mono: "j \<le> k \<Longrightarrow> chunks_before n T j \<le> chunks_before n T k"
  by (auto simp: chunks_before_def intro!: add_mono mult_le_mono1)

lemma chunks_before_le: "n > 0 \<Longrightarrow> k \<le> n \<Longrightarrow> chunks_before n T k \<le> T"
  using chunks_before_mono [of k n n T] chunks_before_n by simp

definition split_spec :: "nat \<Rightarrow> nat \<Rightarrow> size_t \<Rightarrow> nat \<Rightarrow> nat \<Rightarrow> nat \<Rightarrow> bounds_t" where
  "split_spec n T chunk L U i =
     \<lparr>lower_bound = of_nat (edge n T (unat chunk) L U i),
      upper_bound = of_nat (edge n T (unat chunk) L U (Suc i)), b_step = 1, chunksize = chunk\<rparr>"

lemma edge_step:
  assumes "k < n" "chunk > 0" "T > 0 \<Longrightarrow> L + (T - 1) * chunk < U" "L + T * chunk < U + chunk" "L \<le> U"
    and "n > 0"
  shows "edge n T chunk L U k + (chunks_before n T (Suc k) - chunks_before n T k) * chunk < U + chunk \<and>
    edge n T chunk L U (Suc k) =
      min (edge n T chunk L U k + (chunks_before n T (Suc k) - chunks_before n T k) * chunk) U"
proof (cases "chunks_before n T k < T")
  case True
  then have T: "T > 0" and "chunks_before n T k * chunk \<le> (T - 1) * chunk"
    by (auto intro: mult_le_mono1)
  with assms(3) have "L + chunks_before n T k * chunk \<le> U" by linarith
  then have e: "edge n T chunk L U k = L + chunks_before n T k * chunk"
    by (simp add: edge_def)
  have le: "chunks_before n T k \<le> chunks_before n T (Suc k)" "chunks_before n T (Suc k) \<le> T"
    using assms(1,6) chunks_before_mono chunks_before_le by auto
  have eq: "edge n T chunk L U k + (chunks_before n T (Suc k) - chunks_before n T k) * chunk =
      L + chunks_before n T (Suc k) * chunk"
    unfolding e using le(1) by (simp add: diff_mult_distrib)
  have "chunks_before n T (Suc k) * chunk \<le> T * chunk"
    using le(2) by (rule mult_le_mono1)
  with assms(4) have "L + chunks_before n T (Suc k) * chunk < U + chunk" by linarith
  then show ?thesis
    by (simp only: eq) (simp add: edge_def)
next
  case False
  moreover have "chunks_before n T (Suc k) \<le> T" "chunks_before n T k \<le> chunks_before n T (Suc k)"
    using assms(1,6) chunks_before_mono chunks_before_le by auto
  ultimately have "chunks_before n T (Suc k) = T" "chunks_before n T k = T" by auto
  then show ?thesis using assms(2) by (simp add: edge_def)
qed

lemma edge_0: "n > 0 \<Longrightarrow> L \<le> U \<Longrightarrow> edge n T chunk L U 0 = L"
  by (simp add: edge_def chunks_before_0)

lemma edge_n: "n > 0 \<Longrightarrow> U \<le> L + T * chunk \<Longrightarrow> edge n T chunk L U n = U"
  by (simp add: edge_def chunks_before_n)

lemma edge_mono: "j \<le> k \<Longrightarrow> edge n T chunk L U j \<le> edge n T chunk L U k"
  using chunks_before_mono [of j k n T] by (auto simp: edge_def min_def dest: mult_le_mono1 [of _ _ chunk])

lemma edge_le: "edge n T chunk L U k \<le> U"
  by (simp add: edge_def)

lemma split_loop_step:
  fixes lw chunk T :: size_t
  assumes n: "k < n" "n < 2 ^ 31"
    and my: "my = unat T div n + (if unat T mod n \<ge> n - k then 1 else 0)"
    and ov: "unat lw + my * unat chunk < 2 ^ 64" and cs: "chunk \<noteq> 0"
  shows "unat (lw + (T div of_nat n + (if T mod of_nat n \<ge> of_nat n - of_nat k then 1 else 0)) * chunk) =
    unat lw + my * unat chunk"
proof -
  let ?N = "of_nat n :: size_t" and ?K = "of_nat k :: size_t"
  have un: "unat ?N = n" "unat ?K = k"
    using n by (simp_all add: unat_of_nat)
  have "unat (?N - ?K) = n - k"
    using n un by (simp add: unat_sub word_le_nat_alt)
  then have c: "T mod ?N \<ge> ?N - ?K \<longleftrightarrow> unat T mod n \<ge> n - k"
    by (simp add: word_le_nat_alt unat_mod un)
  have "my \<le> my * unat chunk" using cs by (simp add: Suc_le_eq unat_gt_0)
  then have small: "my < 2 ^ 64" using ov by linarith
  have "unat (T div ?N + (if T mod ?N \<ge> ?N - ?K then 1 else 0)) = my"
    using small unfolding c my
    by (auto simp: unat_div un unat_word_ariths)
  then have "unat ((T div ?N + (if T mod ?N \<ge> ?N - ?K then 1 else 0)) * chunk) = my * unat chunk"
    using ov by (simp add: unat_word_ariths)
  then show ?thesis
    using ov by (simp add: unat_word_ariths)
qed

lemma split_loop_closed:
  fixes T U chunk :: size_t
  assumes "0 < n" "n < 2 ^ 31" "chunk \<noteq> 0" "L \<le> unat U"
    and "unat T > 0 \<Longrightarrow> L + (unat T - 1) * unat chunk < unat U"
    and "L + unat T * unat chunk < unat U + unat chunk" "unat U + unat chunk < 2 ^ 64"
    and "k \<le> n" "unat lw = edge n (unat T) (unat chunk) L (unat U) k"
  shows "split_loop n T chunk U [k..<n] lw = map (split_spec n (unat T) chunk L (unat U)) [k..<n]"
  using assms(8,9)
proof (induction "n - k" arbitrary: k lw)
  case 0
  then show ?case by simp
next
  case (Suc d)
  then have k: "k < n" and upt: "[k..<n] = k # [Suc k..<n]"
    by (simp_all add: upt_conv_Cons)
  define my where "my = unat T div n + (if unat T mod n \<ge> n - k then 1 else 0)"
  have my: "chunks_before n (unat T) (Suc k) - chunks_before n (unat T) k = my"
    using chunks_before_Suc [OF k] by (simp add: my_def)
  have cs: "unat chunk > 0" using assms(3) by (simp add: unat_gt_0)
  note step = edge_step [OF k cs assms(5,6,4,1), unfolded my]
  have ov: "unat lw + my * unat chunk < 2 ^ 64"
    using conjunct1 [OF step] assms(7) Suc.prems(2) by linarith
  define up where "up = min (lw + (T div of_nat n +
    (if T mod of_nat n \<ge> of_nat n - of_nat k then 1 else 0)) * chunk) U"
  have "unat up = min (unat lw + my * unat chunk) (unat U)"
    unfolding up_def using split_loop_step [OF k assms(2) my_def ov assms(3)]
    by (simp add: min_def word_le_nat_alt)
  then have up: "unat up = edge n (unat T) (unat chunk) L (unat U) (Suc k)"
    using conjunct2 [OF step] Suc.prems(2) by simp
  have "split_loop n T chunk U [Suc k..<n] up = map (split_spec n (unat T) chunk L (unat U)) [Suc k..<n]"
    using Suc.hyps k up by simp
  moreover have "split_spec n (unat T) chunk L (unat U) k =
      \<lparr>lower_bound = lw, upper_bound = up, b_step = 1, chunksize = chunk\<rparr>"
    unfolding split_spec_def up [symmetric] Suc.prems(2) [symmetric] by simp
  ultimately show ?case
    by (simp add: upt Let_def up_def)
qed

section \<open>The partitions cover the iteration space\<close>

definition iterations :: "bounds_t \<Rightarrow> nat list" where
  "iterations b = [unat (lower_bound b)..<unat (upper_bound b)]"

text \<open>A normalized loop whose last chunk does not run over the end of the word.\<close>

definition bounds_ok :: "bounds_t \<Rightarrow> bool" where
  "bounds_ok b \<longleftrightarrow>
     b_step b = 1 \<and> chunksize b \<noteq> 0 \<and> lower_bound b \<le> upper_bound b \<and>
     unat (upper_bound b) + unat (chunksize b) < 2 ^ 64"

definition total_chunks :: "bounds_t \<Rightarrow> size_t" where
  "total_chunks b =
     getIterationCount b div chunksize b + (if getIterationCount b mod chunksize b > 0 then 1 else 0)"

lemma ceil_div_facts:
  fixes I cs :: nat
  assumes "cs > 0" "T = I div cs + (if I mod cs > 0 then 1 else 0)"
  shows "T > 0 \<Longrightarrow> (T - 1) * cs < I" "T * cs < I + cs" "I \<le> T * cs"
proof -
  have I: "I = (I div cs) * cs + I mod cs" by simp
  have r: "I mod cs < cs" using assms(1) by simp
  have "T * cs = (I div cs) * cs + (if I mod cs > 0 then cs else 0)"
    using assms(2) by simp
  then have "T * cs = (I div cs) * cs + cs \<and> I mod cs > 0 \<or> T * cs = (I div cs) * cs \<and> I mod cs = 0"
    by simp
  then show "T * cs < I + cs" "I \<le> T * cs"
    using I r assms(1) by linarith+
  assume "T > 0"
  then show "(T - 1) * cs < I"
  proof (cases "I mod cs > 0")
    case True
    then have "(T - 1) * cs = (I div cs) * cs" using assms(2) by simp
    with I True show ?thesis by linarith
  next
    case False
    then have "T * cs = I" using I assms(2) by simp
    with \<open>T > 0\<close> assms(1) show ?thesis by (auto simp: diff_mult_distrib)
  qed
qed

lemma total_chunks_facts:
  assumes "bounds_ok b"
  defines "cs \<equiv> unat (chunksize b)" and "T \<equiv> unat (total_chunks b)"
    and "L \<equiv> unat (lower_bound b)" and "U \<equiv> unat (upper_bound b)"
  shows "L \<le> U" "T > 0 \<Longrightarrow> L + (T - 1) * cs < U" "L + T * cs < U + cs" "U \<le> L + T * cs" "cs > 0"
proof -
  show LU: "L \<le> U" using assms(1) by (simp add: bounds_ok_def L_def U_def word_le_nat_alt)
  show cs: "cs > 0" using assms(1) by (simp add: bounds_ok_def cs_def unat_gt_0)
  have I: "unat (getIterationCount b) = U - L"
    using assms(1) by (simp add: bounds_ok_def getIterationCount_def L_def U_def unat_sub)
  have small: "(U - L) div cs + 1 < 2 ^ 64"
  proof -
    have "(U - L) div cs \<le> U" by (meson diff_le_self div_le_dividend le_trans)
    moreover have "U + cs < 2 ^ 64" using assms(1) by (simp add: bounds_ok_def U_def cs_def)
    ultimately show ?thesis using cs by linarith
  qed
  have "T = (U - L) div cs + (if (U - L) mod cs > 0 then 1 else 0)"
    using small unfolding T_def total_chunks_def word_less_nat_alt unat_mod I cs_def [symmetric]
    by (auto simp: unat_word_ariths unat_div I cs_def [symmetric])
  from ceil_div_facts [OF cs this] LU
  show "T > 0 \<Longrightarrow> L + (T - 1) * cs < U" "L + T * cs < U + cs" "U \<le> L + T * cs"
    by linarith+
qed

lemma splitIterations_closed:
  assumes "bounds_ok b" "0 < n" "n < 2 ^ 31"
  shows "splitIterations n b = Inr (map (split_spec n (unat (total_chunks b)) (chunksize b)
      (unat (lower_bound b)) (unat (upper_bound b))) [0..<n])"
proof -
  note facts = total_chunks_facts [OF assms(1)]
  have "split_loop n (total_chunks b) (chunksize b) (upper_bound b) [0..<n] (lower_bound b) =
      map (split_spec n (unat (total_chunks b)) (chunksize b)
        (unat (lower_bound b)) (unat (upper_bound b))) [0..<n]"
    using assms facts by (intro split_loop_closed) (auto simp: bounds_ok_def edge_0)
  then show ?thesis
    using assms by (simp add: splitIterations_def total_chunks_def bounds_ok_def Let_def)
qed

lemma unat_edge [simp]: "unat (of_nat (edge n T c L (unat (U :: size_t)) k) :: size_t) = edge n T c L (unat U) k"
proof -
  have "unat U < 2 ^ 64" using unsigned_less [of U] by simp
  then have "edge n T c L (unat U) k < 2 ^ 64"
    using edge_le [of n T c L "unat U" k] by linarith
  then show ?thesis by (simp add: unat_of_nat)
qed

lemma concat_edges:
  "mono (f :: nat \<Rightarrow> nat) \<Longrightarrow> concat (map (\<lambda>i. [f i..<f (Suc i)]) [0..<n]) = [f 0..<f n]"
proof (induction n)
  case (Suc n)
  have "f 0 \<le> f n" "f n \<le> f (Suc n)" using Suc.prems by (auto simp: mono_def)
  with Suc show ?case using upt_split [of "f 0" "f n" "f (Suc n)"] by simp
qed simp

lemma concat_split_spec:
  assumes "bounds_ok b" "0 < n"
  shows "concat (map (\<lambda>i. iterations (split_spec n (unat (total_chunks b)) (chunksize b)
      (unat (lower_bound b)) (unat (upper_bound b)) i)) [0..<n]) = iterations b"
proof -
  let ?e = "edge n (unat (total_chunks b)) (unat (chunksize b)) (unat (lower_bound b)) (unat (upper_bound b))"
  have "mono ?e" by (simp add: mono_def edge_mono)
  from concat_edges [OF this, of n] show ?thesis
    using assms(2) total_chunks_facts [OF assms(1)]
    by (simp add: iterations_def split_spec_def edge_0 edge_n)
qed

section \<open>Chunks are handed out once\<close>

definition exhausted :: "TaskloopPartition \<Rightarrow> bool" where
  "exhausted p = (\<not> nextLowerBound p < upperBound p)"

definition part_pending :: "TaskloopPartition \<Rightarrow> nat multiset" where
  "part_pending p = mset [unat (nextLowerBound p)..<unat (upperBound p)]"

definition the_partitions :: "TaskloopInfo \<Rightarrow> TaskloopPartition list" where
  "the_partitions info = (case tl_partitions info of None \<Rightarrow> [] | Some ps \<Rightarrow> ps)"

definition info_pending :: "TaskloopInfo \<Rightarrow> nat multiset" where
  "info_pending info = sum_list (map part_pending (the_partitions info))"

text \<open>
  The invariant of a task loop on which at most \<open>fuel\<close> more chunks are requested: no counter
  wraps around, and \<open>_remainingPartitions\<close> counts the partitions that are not exhausted.
\<close>

definition loop_inv :: "nat \<Rightarrow> nat \<Rightarrow> TaskloopInfo \<Rightarrow> bool" where
  "loop_inv n fuel info \<longleftrightarrow>
     tl_partitions info \<noteq> None \<and> length (the_partitions info) = n \<and> n < 2 ^ 31 \<and>
     b_step (tl_bounds info) = 1 \<and> chunksize (tl_bounds info) \<noteq> 0 \<and>
     (\<forall>p \<in> set (the_partitions info).
        unat (nextLowerBound p) + fuel * unat (chunksize (tl_bounds info)) < 2 ^ 64) \<and>
     unat (tl_remainingPartitions info) = length (filter (\<lambda>p. \<not> exhausted p) (the_partitions info))"

lemma part_pending_empty: "part_pending p = {#} \<longleftrightarrow> exhausted p"
  by (auto simp: part_pending_def exhausted_def word_less_nat_alt simp del: mset_upt)

lemma info_pending_empty:
  "info_pending info = {#} \<longleftrightarrow> (\<forall>p \<in> set (the_partitions info). exhausted p)"
  by (simp add: info_pending_def part_pending_empty sum_list_mset_empty)

text \<open>What one request does to its partition.\<close>

definition advance :: "size_t \<Rightarrow> TaskloopPartition \<Rightarrow> TaskloopPartition" where
  "advance cs p = p\<lparr>nextLowerBound := nextLowerBound p + cs\<rparr>"

lemma advance_pending:
  assumes "unat (nextLowerBound p) + unat cs < 2 ^ 64" "cs \<noteq> 0"
  shows "part_pending p = part_pending (advance cs p) +
      mset [unat (nextLowerBound p)..<unat (min (nextLowerBound p + cs) (upperBound p))]"
    and "exhausted p \<Longrightarrow> exhausted (advance cs p)"
    and "exhausted (advance cs p) \<longleftrightarrow> upperBound p \<le> nextLowerBound p + cs"
    and "\<not> exhausted p \<Longrightarrow>
      unat (nextLowerBound p) < unat (min (nextLowerBound p + cs) (upperBound p))"
proof -
  have next': "unat (nextLowerBound p + cs) = unat (nextLowerBound p) + unat cs"
    using assms(1) by (simp add: unat_word_ariths)
  show "exhausted p \<Longrightarrow> exhausted (advance cs p)"
    by (simp add: exhausted_def advance_def word_less_nat_alt next')
  show "exhausted (advance cs p) \<longleftrightarrow> upperBound p \<le> nextLowerBound p + cs"
    by (auto simp: exhausted_def advance_def)
  show "\<not> exhausted p \<Longrightarrow> unat (nextLowerBound p) < unat (min (nextLowerBound p + cs) (upperBound p))"
    using assms(2) by (simp add: exhausted_def min_def next' word_less_nat_alt unat_gt_0)
  let ?m = "min (unat (nextLowerBound p) + unat cs) (unat (upperBound p))"
  have m: "unat (min (nextLowerBound p + cs) (upperBound p)) = ?m"
    by (simp add: min_def word_le_nat_alt next')
  show "part_pending p = part_pending (advance cs p) +
      mset [unat (nextLowerBound p)..<unat (min (nextLowerBound p + cs) (upperBound p))]"
  proof (cases "unat (nextLowerBound p) + unat cs \<le> unat (upperBound p)")
    case True
    with upt_split [of "unat (nextLowerBound p)" "unat (nextLowerBound p) + unat cs" "unat (upperBound p)"]
    show ?thesis unfolding m by (simp add: part_pending_def advance_def next' min_def)
  next
    case False
    then show ?thesis unfolding m by (simp add: part_pending_def advance_def next' min_def)
  qed
qed

lemma getPending_cases:
  assumes "tl_partitions info = Some ps" "pid < length ps" "b_step (tl_bounds info) = 1"
  defines "p \<equiv> ps ! pid" and "cs \<equiv> chunksize (tl_bounds info)"
  shows "getPendingIterationsFromPartition pid info =
    Inr (if exhausted p then None
         else Some \<lparr>lower_bound = nextLowerBound p,
                    upper_bound = min (nextLowerBound p + cs) (upperBound p), b_step = 1, chunksize = cs\<rparr>,
         info\<lparr>tl_partitions := Some (ps[pid := advance cs p]),
              tl_remainingPartitions := tl_remainingPartitions info -
                (if \<not> exhausted p \<and> exhausted (advance cs p) then 1 else 0)\<rparr>)"
  using assms(1-3)
  by (auto simp: getPendingIterationsFromPartition_def exhausted_def advance_def p_def cs_def Let_def
      min_def not_less)

text \<open>The counter of partitions that are not exhausted, and the room left in the counters.\<close>

lemma advance_remaining:
  fixes rem :: size_t
  assumes "pid < length ps" "unat rem = length (filter (\<lambda>p. \<not> exhausted p) ps)"
    and "exhausted (ps ! pid) \<Longrightarrow> exhausted (advance cs (ps ! pid))"
  shows "unat (rem - (if \<not> exhausted (ps ! pid) \<and> exhausted (advance cs (ps ! pid)) then 1 else 0)) =
    length (filter (\<lambda>p. \<not> exhausted p) (ps[pid := advance cs (ps ! pid)]))"
proof -
  let ?p = "ps ! pid" and ?cnt = "\<lambda>ps. length (filter (\<lambda>p. \<not> exhausted p) ps)"
  have cnt: "?cnt (ps[pid := advance cs ?p]) + (if exhausted ?p then 0 else 1) =
      ?cnt ps + (if exhausted (advance cs ?p) then 0 else 1)"
    using length_filter_update [OF assms(1), of "\<lambda>p. \<not> exhausted p" "advance cs ?p"]
    by (auto split: if_splits)
  show ?thesis
  proof (cases "\<not> exhausted ?p \<and> exhausted (advance cs ?p)")
    case True
    then have dec: "?cnt (ps[pid := advance cs ?p]) + 1 = ?cnt ps"
      using cnt by simp
    with assms(2) have "1 \<le> rem" by (simp add: word_le_nat_alt)
    with True dec assms(2) show ?thesis by (simp add: unat_sub)
  next
    case False
    then show ?thesis using cnt assms(2,3) by (auto split: if_splits)
  qed
qed

lemma advance_room:
  assumes "\<And>p. p \<in> set ps \<Longrightarrow> unat (nextLowerBound p) + Suc fuel * unat cs < 2 ^ 64"
    and "pid < length ps" "q \<in> set (ps[pid := advance cs (ps ! pid)])"
  shows "unat (nextLowerBound q) + fuel * unat cs < 2 ^ 64"
proof -
  have "q \<in> set ps \<or> q = advance cs (ps ! pid)"
    using assms(3) set_update_subset_insert by fastforce
  then show ?thesis
  proof
    assume "q \<in> set ps"
    from assms(1) [OF this] show ?thesis by simp
  next
    assume q: "q = advance cs (ps ! pid)"
    have p: "unat (nextLowerBound (ps ! pid)) + unat cs + fuel * unat cs < 2 ^ 64"
      using assms(1) [of "ps ! pid"] assms(2) by simp
    then have "unat (nextLowerBound (ps ! pid) + cs) = unat (nextLowerBound (ps ! pid)) + unat cs"
      by (simp add: unat_word_ariths)
    with p q show ?thesis by (simp add: advance_def)
  qed
qed

lemma getPending_law:
  assumes inv: "loop_inv n (Suc fuel) info" and pid: "pid < n"
  shows "\<exists>work info'. getPendingIterationsFromPartition pid info = Inr (work, info') \<and>
    loop_inv n fuel info' \<and> tl_bounds info' = tl_bounds info \<and>
    the_partitions info' = (the_partitions info)
      [pid := advance (chunksize (tl_bounds info)) (the_partitions info ! pid)] \<and>
    (work = None \<longleftrightarrow> exhausted (the_partitions info ! pid)) \<and>
    (\<forall>b. work = Some b \<longrightarrow> iterations b \<noteq> []) \<and>
    info_pending info = info_pending info' + mset (case work of None \<Rightarrow> [] | Some b \<Rightarrow> iterations b)"
proof -
  obtain ps where ps: "tl_partitions info = Some ps" and len: "length ps = n"
    using inv by (auto simp: loop_inv_def the_partitions_def)
  have tp: "the_partitions info = ps" using ps by (simp add: the_partitions_def)
  let ?cs = "chunksize (tl_bounds info)" and ?p = "ps ! pid"
  let ?ps' = "ps[pid := advance ?cs ?p]"
  let ?rem = "tl_remainingPartitions info - (if \<not> exhausted ?p \<and> exhausted (advance ?cs ?p) then 1 else 0)"
  let ?info' = "info\<lparr>tl_partitions := Some ?ps', tl_remainingPartitions := ?rem\<rparr>"
  have tp': "the_partitions ?info' = ?ps'" by (simp add: the_partitions_def)
  have step: "b_step (tl_bounds info) = 1" and cs: "?cs \<noteq> 0" and n: "n < 2 ^ 31"
    and room: "\<And>p. p \<in> set ps \<Longrightarrow> unat (nextLowerBound p) + Suc fuel * unat ?cs < 2 ^ 64"
    and rem: "unat (tl_remainingPartitions info) = length (filter (\<lambda>p. \<not> exhausted p) ps)"
    using inv tp by (auto simp: loop_inv_def)
  have pid': "pid < length ps" using pid len by simp
  have "unat (nextLowerBound ?p) + unat ?cs < 2 ^ 64"
    using room [of ?p] pid' by simp
  note adv = advance_pending [OF this cs]
  have "loop_inv n fuel ?info'"
    using step cs n len advance_remaining [OF pid' rem adv(2)] advance_room [OF room pid']
    by (simp add: loop_inv_def tp')
  moreover have "sum_list (map part_pending ?ps') + part_pending ?p =
      sum_list (map part_pending ps) + part_pending (advance ?cs ?p)"
    using sum_list_update_plus [OF pid', of part_pending] by simp
  then have "info_pending info = info_pending ?info' +
      mset (case (if exhausted ?p then None else Some \<lparr>lower_bound = nextLowerBound ?p,
        upper_bound = min (nextLowerBound ?p + ?cs) (upperBound ?p), b_step = 1, chunksize = ?cs\<rparr>) of
        None \<Rightarrow> [] | Some b \<Rightarrow> iterations b)"
    using adv(1,2) part_pending_empty [of ?p] part_pending_empty [of "advance ?cs ?p"]
    by (auto simp: info_pending_def tp tp' iterations_def simp del: mset_upt)
  ultimately show ?thesis
    using getPending_cases [OF ps pid' step] tp tp' adv(4) by (auto simp: iterations_def split: if_splits)
qed

section \<open>Every path visits every partition\<close>

lemma c_rem_nonneg: "0 \<le> a \<Longrightarrow> 0 < b \<Longrightarrow> c_rem a b = a mod b"
  by (cases "a = 0") (simp_all add: c_rem_def)

lemma c_rem_neg: "a < 0 \<Longrightarrow> 0 < b \<Longrightarrow> c_rem a b = - ((- a) mod b)"
  by (simp add: c_rem_def)

lemma modulus_mod:
  assumes "0 < b"
  shows "modulus a b = a mod b"
proof (cases "a < 0")
  case True
  have "- a mod b < b" using assms by (rule pos_mod_bound)
  with c_rem_neg [OF True assms] have "0 \<le> c_rem a b + b" by linarith
  then have "modulus a b = (- ((- a) mod b) + b) mod b"
    using True assms by (simp only: modulus_def c_rem_nonneg c_rem_neg if_True)
  also have "\<dots> = a mod b"
    by (simp add: mod_minus_eq)
  finally show ?thesis .
next
  case False
  then show ?thesis using assms by (simp add: modulus_def c_rem_nonneg)
qed

definition zigzag_offset :: "nat \<Rightarrow> int" where
  "zigzag_offset i = (if even i then int (i div 2) else - int ((i + 1) div 2))"

lemma zigzag_offset_Suc:
  "zigzag_offset (Suc i) = zigzag_offset i + (if even (Suc i) then 1 else - 1) * int (Suc i)"
  by (auto simp: zigzag_offset_def elim!: evenE oddE)

lemma zigzag_path_closed:
  assumes "n > 0"
  shows "k \<le> m \<Longrightarrow> part mod n = (s + zigzag_offset k - (if even k then 1 else - 1) * int k) mod n \<Longrightarrow>
    zigzag_path n [k..<m] part (if even k then 1 else - 1) = map (\<lambda>i. (s + zigzag_offset i) mod n) [k..<m]"
proof (induction "m - k" arbitrary: k part)
  case 0
  then show ?case by simp
next
  case (Suc d)
  then have upt: "[k..<m] = k # [Suc k..<m]" by (simp add: upt_conv_Cons)
  let ?sg = "if even k then 1 else (- 1 :: int)"
  let ?p = "modulus (part + ?sg * int k) n"
  have p: "?p = (s + zigzag_offset k) mod n"
    unfolding modulus_mod [OF assms] using Suc.prems(2)
    by (metis (no_types, lifting) diff_add_cancel mod_add_left_eq)
  have sg: "(if even (Suc k) then 1 else (- 1 :: int)) = - ?sg" by simp
  have "?p mod n = (s + zigzag_offset (Suc k) - (if even (Suc k) then 1 else - 1) * int (Suc k)) mod n"
    by (simp add: p zigzag_offset_Suc)
  then have "zigzag_path n [Suc k..<m] ?p (- ?sg) = map (\<lambda>i. (s + zigzag_offset i) mod n) [Suc k..<m]"
    unfolding sg [symmetric] using Suc.hyps Suc.prems(1) by (intro Suc.hyps) auto
  then show ?case unfolding upt by (simp add: p Let_def)
qed

lemma ring_path_closed:
  assumes "n > 0"
  shows "0 \<le> s + int k \<Longrightarrow>
    ring_path n m ((s + int k) mod n) = map (\<lambda>i. (s + int i) mod n) [k..<k + m]"
proof (induction m arbitrary: k)
  case (Suc m)
  have "c_rem ((s + int k) mod n + 1) n = (s + int (Suc k)) mod n"
    using assms mod_add_left_eq [of "s + int k" n 1] by (simp add: c_rem_nonneg add.assoc add.commute [of 1])
  moreover have "ring_path n m ((s + int (Suc k)) mod n) = map (\<lambda>i. (s + int i) mod n) [Suc k..<Suc k + m]"
    using Suc.prems by (intro Suc.IH) simp
  moreover have "[k..<k + Suc m] = k # [Suc k..<Suc k + m]"
    by (simp add: upt_conv_Cons del: upt_Suc)
  ultimately show ?case by (simp del: upt_Suc of_nat_Suc)
qed simp

lemma spread_mod_perm:
  fixes n :: nat and f :: "nat \<Rightarrow> int"
  assumes "n > 0" "\<And>i j. i < n \<Longrightarrow> j < n \<Longrightarrow> \<bar>f i - f j\<bar> < int n" "inj_on f {..<n}"
  shows "distinct (map (\<lambda>i. (s + f i) mod int n) [0..<n])"
    and "set (map (\<lambda>i. (s + f i) mod int n) [0..<n]) = {0..<int n}"
proof -
  let ?g = "\<lambda>i. (s + f i) mod int n"
  have "inj_on ?g {0..<n}"
  proof (rule inj_onI)
    fix i j assume ij: "i \<in> {0..<n}" "j \<in> {0..<n}" "?g i = ?g j"
    then have "int n dvd f i - f j" by (simp add: mod_eq_dvd_iff)
    with assms(2) [of i j] ij have "f i = f j"
      by (metis abs_of_nat atLeastLessThan_iff dvd_imp_le_int eq_iff_diff_eq_0 not_less)
    with assms(3) ij show "i = j" by (auto dest: inj_onD)
  qed
  then show d: "distinct (map ?g [0..<n])" by (simp add: distinct_map)
  have "card (set (map ?g [0..<n])) = n" using distinct_card [OF d] by simp
  moreover have "set (map ?g [0..<n]) \<subseteq> {0..<int n}" using assms(1) by auto
  ultimately show "set (map ?g [0..<n]) = {0..<int n}" by (intro card_subset_eq) auto
qed

lemma zigzag_offset_spread:
  "i < n \<Longrightarrow> j < n \<Longrightarrow> \<bar>zigzag_offset i - zigzag_offset j\<bar> < int n"
  by (auto simp: zigzag_offset_def elim!: evenE oddE)

lemma zigzag_offset_inj: "inj_on zigzag_offset A"
  by (rule inj_onI) (auto simp: zigzag_offset_def elim!: evenE oddE split: if_splits)

lemma getPartitionPath_perm:
  assumes "n > 0"
  shows "length (getPartitionPath dist n cpu) = n" "distinct (getPartitionPath dist n cpu)"
    "set (getPartitionPath dist n cpu) = {0..<int n}"
proof -
  let ?s = "int cpu" and ?N = "int n"
  have N: "?N > 0" using assms by simp
  have s: "c_rem ?s ?N = ?s mod ?N" using N by (simp add: c_rem_nonneg)
  have zz: "getPartitionPath True n cpu = map (\<lambda>i. (?s + zigzag_offset i) mod ?N) [0..<n]"
    using zigzag_path_closed [OF N, of 0 n "?s mod ?N" ?s]
    by (simp add: getPartitionPath_def s zigzag_offset_def Let_def)
  have rg: "getPartitionPath False n cpu = map (\<lambda>i. (?s + int i) mod ?N) [0..<n]"
    using ring_path_closed [OF N, of ?s 0 n] by (simp add: getPartitionPath_def s)
  have "inj_on int {..<n}" "\<bar>int i - int j\<bar> < int n" if "i < n" "j < n" for i j
    using that by (auto simp: inj_on_def)
  then have ring: "distinct (getPartitionPath False n cpu)" "set (getPartitionPath False n cpu) = {0..<?N}"
    unfolding rg using spread_mod_perm [OF assms, of int ?s] assms by blast+
  have zig: "distinct (getPartitionPath True n cpu)" "set (getPartitionPath True n cpu) = {0..<?N}"
    unfolding zz
    using spread_mod_perm [OF assms zigzag_offset_spread zigzag_offset_inj, of ?s] by blast+
  show "length (getPartitionPath dist n cpu) = n" by (cases dist) (simp_all add: zz rg)
  show "distinct (getPartitionPath dist n cpu)" "set (getPartitionPath dist n cpu) = {0..<?N}"
    using ring zig by (cases dist; simp)+
qed

section \<open>Collaborators\<close>

definition co_inv :: "nat \<Rightarrow> TaskloopInfo \<Rightarrow> collaborator \<Rightarrow> bool" where
  "co_inv n info co \<longleftrightarrow>
     length (co_path co) = n \<and> set (co_path co) = {0..<int n} \<and>
     (if co_done co then info_pending info = {#} else co_visited co < n) \<and>
     (\<forall>j < co_visited co. exhausted (the_partitions info ! nat (co_path co ! j)))"

lemma exhausted_kept:
  assumes "loop_inv n (Suc fuel) info" "pid < n" "q < n"
    and "the_partitions info' = (the_partitions info)
      [pid := advance (chunksize (tl_bounds info)) (the_partitions info ! pid)]"
    and "exhausted (the_partitions info ! q)"
  shows "exhausted (the_partitions info' ! q)"
proof -
  let ?p = "the_partitions info ! pid" and ?cs = "chunksize (tl_bounds info)"
  have len: "length (the_partitions info) = n" using assms(1) by (simp add: loop_inv_def)
  have cs: "?cs \<noteq> 0" using assms(1) by (simp add: loop_inv_def)
  have "unat (nextLowerBound ?p) + Suc fuel * unat ?cs < 2 ^ 64"
    using assms(1,2) len by (auto simp: loop_inv_def)
  then have "unat (nextLowerBound ?p) + unat ?cs < 2 ^ 64" by simp
  from advance_pending(2) [OF this cs] assms(2-5) len show ?thesis
    by (cases "q = pid") simp_all
qed

lemma co_path_bound: "co_inv n info co \<Longrightarrow> j < n \<Longrightarrow> nat (co_path co ! j) < n"
proof -
  assume co: "co_inv n info co" and "j < n"
  then have "co_path co ! j \<in> set (co_path co)" unfolding co_inv_def by (metis nth_mem)
  with co have "co_path co ! j \<in> {0..<int n}" by (simp add: co_inv_def)
  then show ?thesis by auto
qed

lemma co_inv_kept:
  assumes "co_inv n info co" "loop_inv n (Suc fuel) info" "pid < n"
    and "the_partitions info' = (the_partitions info)
      [pid := advance (chunksize (tl_bounds info)) (the_partitions info ! pid)]"
    and "info_pending info = info_pending info' + X" "co_visited co \<le> n"
  shows "co_inv n info' co"
proof -
  have "exhausted (the_partitions info' ! nat (co_path co ! j))" if "j < co_visited co" for j
    using exhausted_kept [OF assms(2,3) co_path_bound [OF assms(1)] assms(4)] assms(1,6) that
    by (simp add: co_inv_def)
  with assms(1,5) show ?thesis by (auto simp: co_inv_def)
qed

lemma all_visited:
  assumes "length path = n" "set path = {0..<int n}" "length ps = n"
    and "\<forall>j < n. exhausted (ps ! nat (path ! j))"
  shows "\<forall>p \<in> set ps. exhausted p"
proof
  fix p assume "p \<in> set ps"
  then obtain i where i: "i < n" "p = ps ! i" using assms(3) by (auto simp: in_set_conv_nth)
  then have "int i \<in> set path" using assms(2) by simp
  then obtain j where "j < n" "path ! j = int i" using assms(1) by (auto simp: in_set_conv_nth)
  with assms(4) i show "exhausted p" by force
qed

text \<open>
  One loop iteration of a collaborator. \<open>left\<close> bounds the iterations it may still run: the chunks
  that nobody has taken and the partitions it has not visited.
\<close>

lemma run_iter_law:
  assumes inv: "loop_inv n (Suc fuel) info" and co: "co_inv n info co" "\<not> co_done co"
  shows "\<exists>work co' info' pid. Taskloop_run_iter n co info = Inr (work, co', info') \<and>
    loop_inv n fuel info' \<and> tl_bounds info' = tl_bounds info \<and> pid < n \<and>
    the_partitions info' = (the_partitions info)
      [pid := advance (chunksize (tl_bounds info)) (the_partitions info ! pid)] \<and>
    (\<forall>b. work = Some b \<longrightarrow> iterations b \<noteq> []) \<and>
    info_pending info = info_pending info' + mset (case work of None \<Rightarrow> [] | Some b \<Rightarrow> iterations b) \<and>
    co_inv n info' co' \<and> co_visited co' = co_visited co + (if work = None then 1 else 0)"
proof -
  have visited: "co_visited co < n" using co by (simp add: co_inv_def)
  define pid where "pid = nat (co_path co ! co_visited co)"
  have pid: "pid < n" unfolding pid_def by (rule co_path_bound [OF co(1) visited])
  obtain work info' where get: "getPendingIterationsFromPartition pid info = Inr (work, info')"
    and inv': "loop_inv n fuel info'" and bounds: "tl_bounds info' = tl_bounds info"
    and parts: "the_partitions info' = (the_partitions info)
      [pid := advance (chunksize (tl_bounds info)) (the_partitions info ! pid)]"
    and ex: "work = None \<longleftrightarrow> exhausted (the_partitions info ! pid)"
    and ne: "\<forall>b. work = Some b \<longrightarrow> iterations b \<noteq> []"
    and pend: "info_pending info = info_pending info' + mset (case work of None \<Rightarrow> [] | Some b \<Rightarrow> iterations b)"
    using getPending_law [OF inv pid] by blast
  note kept = co_inv_kept [OF co(1) inv pid parts pend less_imp_le [OF visited]]
  show ?thesis
  proof (cases work)
    case (Some b)
    then have "Taskloop_run_iter n co info = Inr (work, co, info')"
      using get by (simp add: Taskloop_run_iter_def pid_def)
    with inv' bounds pid parts ne pend kept Some show ?thesis by (intro exI conjI) auto
  next
    case None
    define co' where "co' = co\<lparr>co_visited := Suc (co_visited co),
      co_done := \<not> hasPendingIterations info' \<or> Suc (co_visited co) = n\<rparr>"
    have iter: "Taskloop_run_iter n co info = Inr (work, co', info')"
      using get None visited co(2) by (auto simp: Taskloop_run_iter_def pid_def co'_def Let_def)
    have ex': "exhausted (the_partitions info' ! pid)"
      using exhausted_kept [OF inv pid pid parts] ex None by simp
    then have vis: "\<forall>j < Suc (co_visited co). exhausted (the_partitions info' ! nat (co_path co ! j))"
      using kept by (auto simp: co_inv_def pid_def less_Suc_eq)
    have "info_pending info' = {#}" if "co_done co'"
      using that inv' all_visited [of "co_path co" n "the_partitions info'"] kept vis
      by (auto simp: co'_def info_pending_empty loop_inv_def hasPendingIterations_def co_inv_def
          word_gt_0 filter_empty_conv)
    then have "co_inv n info' co'"
      using kept vis visited by (auto simp: co_inv_def co'_def)
    with iter inv' bounds pid parts ne pend None show ?thesis
      by (intro exI conjI) (auto simp: co'_def)
  qed
qed

definition cos_inv :: "nat \<Rightarrow> TaskloopInfo \<Rightarrow> collaborator list \<Rightarrow> bool" where
  "cos_inv n info cos \<longleftrightarrow> (\<forall>co \<in> set cos. co_inv n info co \<and> co_visited co \<le> n)"

lemma collaborator_step:
  assumes inv: "loop_inv n (Suc fuel) info" and cos: "cos_inv n info cos"
    and k: "k < length cos" "\<not> co_done (cos ! k)"
  shows "\<exists>work co' info'. Taskloop_run_iter n (cos ! k) info = Inr (work, co', info') \<and>
    loop_inv n fuel info' \<and> cos_inv n info' (cos[k := co']) \<and> tl_bounds info' = tl_bounds info \<and>
    info_pending info = info_pending info' + mset (case work of None \<Rightarrow> [] | Some b \<Rightarrow> iterations b) \<and>
    size (info_pending info') + (n - co_visited co') < size (info_pending info) + (n - co_visited (cos ! k))"
proof -
  have co: "co_inv n info (cos ! k)" using cos k by (simp add: cos_inv_def)
  obtain work co' info1 pid where step: "Taskloop_run_iter n (cos ! k) info = Inr (work, co', info1)"
    and inv1: "loop_inv n fuel info1" and b1: "tl_bounds info1 = tl_bounds info"
    and pid: "pid < n" and parts: "the_partitions info1 = (the_partitions info)
      [pid := advance (chunksize (tl_bounds info)) (the_partitions info ! pid)]"
    and ne: "\<forall>b. work = Some b \<longrightarrow> iterations b \<noteq> []"
    and pend: "info_pending info = info_pending info1 +
      mset (case work of None \<Rightarrow> [] | Some b \<Rightarrow> iterations b)"
    and co1: "co_inv n info1 co'" "co_visited co' = co_visited (cos ! k) + (if work = None then 1 else 0)"
    using run_iter_law [OF inv co k(2)] by blast
  have visited: "co_visited (cos ! k) < n" using co k by (simp add: co_inv_def)
  have "co_inv n info1 c \<and> co_visited c \<le> n" if "c \<in> set cos" for c
    using co_inv_kept [OF _ inv pid parts pend] cos that by (simp add: cos_inv_def)
  then have "cos_inv n info1 (cos[k := co'])"
    using co1 visited by (auto simp: cos_inv_def dest!: subsetD [OF set_update_subset_insert])
  moreover have "size (info_pending info1) + (n - co_visited co') <
      size (info_pending info) + (n - co_visited (cos ! k))"
  proof (cases work)
    case None
    with pend co1(2) visited show ?thesis by simp
  next
    case (Some b)
    with ne have "length (iterations b) > 0" by simp
    moreover have "size (info_pending info) = size (info_pending info1) + length (iterations b)"
      "n - co_visited co' = n - co_visited (cos ! k)"
      using Some pend co1(2) by simp_all
    ultimately show ?thesis by linarith
  qed
  ultimately show ?thesis using step inv1 b1 pend by blast
qed

lemma loop_inv_weaken: "loop_inv n (Suc fuel) info \<Longrightarrow> loop_inv n fuel info"
  by (auto simp: loop_inv_def)

lemma run_collaborators_law:
  "loop_inv n (length sched + rest) info \<Longrightarrow> cos_inv n info cos \<Longrightarrow>
   \<exists>bs cos' info'. run_collaborators n sched cos info = Inr (bs, cos', info') \<and>
     length cos' = length cos \<and> loop_inv n rest info' \<and> cos_inv n info' cos' \<and>
     tl_bounds info' = tl_bounds info \<and>
     info_pending info = info_pending info' + mset (concat (map iterations bs))"
proof (induction sched arbitrary: cos info)
  case Nil
  then show ?case by simp
next
  case (Cons k sched)
  have inv: "loop_inv n (Suc (length sched + rest)) info" using Cons.prems(1) by simp
  show ?case
  proof (cases "k < length cos \<and> \<not> co_done (cos ! k)")
    case False
    with Cons.IH [OF loop_inv_weaken [OF inv] Cons.prems(2)] show ?thesis
      by (simp only: run_collaborators.simps if_False)
  next
    case True
    obtain work co' info1 where step: "Taskloop_run_iter n (cos ! k) info = Inr (work, co', info1)"
      and inv1: "loop_inv n (length sched + rest) info1" and cos1: "cos_inv n info1 (cos[k := co'])"
      and b1: "tl_bounds info1 = tl_bounds info"
      and pend: "info_pending info = info_pending info1 +
        mset (case work of None \<Rightarrow> [] | Some b \<Rightarrow> iterations b)"
      using collaborator_step [OF inv Cons.prems(2)] True by blast
    from Cons.IH [OF inv1 cos1] obtain bs cos2 info2 where
      rest: "run_collaborators n sched (cos[k := co']) info1 = Inr (bs, cos2, info2)"
        "length cos2 = length cos" "loop_inv n rest info2" "cos_inv n info2 cos2"
        "tl_bounds info2 = tl_bounds info1"
        "info_pending info1 = info_pending info2 + mset (concat (map iterations bs))"
      by auto
    have "run_collaborators n (k # sched) cos info =
        Inr ((case work of None \<Rightarrow> bs | Some b \<Rightarrow> b # bs), cos2, info2)"
      using True step rest(1) by simp
    moreover have "info_pending info = info_pending info2 +
        mset (concat (map iterations (case work of None \<Rightarrow> bs | Some b \<Rightarrow> b # bs)))"
      using pend rest(6) by (cases work) (simp_all add: ac_simps)
    ultimately show ?thesis using rest(2-5) b1 by auto
  qed
qed

text \<open>A collaborator that gets enough turns is done.\<close>

lemma run_collaborators_done:
  "loop_inv n (length sched + rest) info \<Longrightarrow> cos_inv n info cos \<Longrightarrow> k < length cos \<Longrightarrow>
   run_collaborators n sched cos info = Inr (bs, cos', info') \<Longrightarrow>
   co_done (cos ! k) \<or> size (info_pending info) + (n - co_visited (cos ! k)) \<le> count_list sched k \<Longrightarrow>
   co_done (cos' ! k)"
proof (induction sched arbitrary: cos info bs)
  case Nil
  then have "co_inv n info (cos ! k)" by (simp add: cos_inv_def)
  with Nil show ?case by (auto simp: co_inv_def split: if_splits)
next
  case (Cons j sched)
  have inv: "loop_inv n (Suc (length sched + rest)) info" using Cons.prems(1) by simp
  show ?case
  proof (cases "j < length cos \<and> \<not> co_done (cos ! j)")
    case False
    then have run: "run_collaborators n sched cos info = Inr (bs, cos', info')"
      using Cons.prems(4) by (simp only: run_collaborators.simps if_False)
    show ?thesis
      using False Cons.prems(3,5)
      by (intro Cons.IH [OF loop_inv_weaken [OF inv] Cons.prems(2,3) run]) (auto split: if_splits)
  next
    case True
    obtain work co' info1 where step: "Taskloop_run_iter n (cos ! j) info = Inr (work, co', info1)"
      and inv1: "loop_inv n (length sched + rest) info1" and cos1: "cos_inv n info1 (cos[j := co'])"
      and pend: "info_pending info = info_pending info1 +
        mset (case work of None \<Rightarrow> [] | Some b \<Rightarrow> iterations b)"
      and less: "size (info_pending info1) + (n - co_visited co') <
        size (info_pending info) + (n - co_visited (cos ! j))"
      using collaborator_step [OF inv Cons.prems(2)] True by blast
    obtain bs1 where run: "run_collaborators n sched (cos[j := co']) info1 = Inr (bs1, cos', info')"
      using Cons.prems(4) True step by auto
    have "co_done (cos[j := co'] ! k) \<or>
        size (info_pending info1) + (n - co_visited (cos[j := co'] ! k)) \<le> count_list sched k"
      using Cons.prems(3,5) True less pend by (cases "j = k") auto
    with Cons.IH [OF inv1 cos1 _ run] Cons.prems(3) show ?thesis by simp
  qed
qed

section \<open>Initialization\<close>

definition effective_bounds :: "nat \<Rightarrow> bounds_t \<Rightarrow> bounds_t" where
  "effective_bounds n b =
     (if chunksize b = 0
      then b\<lparr>chunksize := max (getIterationCount b div of_nat (2 * n)) 1\<rparr> else b)"

lemma iterations_effective [simp]: "iterations (effective_bounds n b) = iterations b"
  by (simp add: iterations_def effective_bounds_def)

definition start_partition :: "bounds_t \<Rightarrow> TaskloopPartition" where
  "start_partition b = \<lparr>upperBound = upper_bound b, nextLowerBound = lower_bound b\<rparr>"

lemma not_exhausted_start:
  "lower_bound b \<le> upper_bound b \<Longrightarrow> \<not> exhausted (start_partition b) \<longleftrightarrow> getIterationCount b > 0"
  by (auto simp: exhausted_def start_partition_def getIterationCount_def word_gt_0 order.order_iff_strict)

lemma initialize_law:
  assumes ok: "bounds_ok (effective_bounds n (tl_bounds info))" and n: "0 < n" "n < 2 ^ 31"
    and none: "tl_partitions info = None"
    and room: "unat (upper_bound (tl_bounds info)) +
      fuel * unat (chunksize (effective_bounds n (tl_bounds info))) < 2 ^ 64"
  shows "\<exists>info'. TaskloopInfo_initialize n info = Inr info' \<and> loop_inv n fuel info' \<and>
    tl_bounds info' = effective_bounds n (tl_bounds info) \<and>
    info_pending info' = mset (iterations (tl_bounds info))"
proof -
  let ?b = "effective_bounds n (tl_bounds info)"
  let ?sp = "split_spec n (unat (total_chunks ?b)) (chunksize ?b) (unat (lower_bound ?b)) (unat (upper_bound ?b))"
  let ?bs = "map ?sp [0..<n]"
  have up: "upper_bound ?b = upper_bound (tl_bounds info)" by (simp add: effective_bounds_def)
  have le: "lower_bound b \<le> upper_bound b" "unat (lower_bound b) \<le> unat (upper_bound ?b)"
    if "b \<in> set ?bs" for b
    using that edge_mono edge_le by (auto simp: split_spec_def word_le_nat_alt)
  define info' where "info' = \<lparr>tl_bounds = ?b,
    tl_remainingPartitions = of_nat (length (filter (\<lambda>b. getIterationCount b > 0) ?bs)),
    tl_partitions = Some (map start_partition ?bs)\<rparr>"
  have init: "TaskloopInfo_initialize n info = Inr info'"
    using splitIterations_closed [OF ok n] none n
    by (simp add: TaskloopInfo_initialize_def info'_def effective_bounds_def start_partition_def
        Let_def comp_def)
  have "filter (\<lambda>b. getIterationCount b > 0) ?bs = filter (\<lambda>b. \<not> exhausted (start_partition b)) ?bs"
    using le(1) not_exhausted_start by (intro filter_cong) auto
  then have "length (filter (\<lambda>b. getIterationCount b > 0) ?bs) =
      length (filter (\<lambda>p. \<not> exhausted p) (map start_partition ?bs))"
    by (simp add: filter_map comp_def del: map_map)
  moreover have "length (filter (\<lambda>b. getIterationCount b > 0) ?bs) < 2 ^ 64"
    using n length_filter_le [of "\<lambda>b. getIterationCount b > 0" ?bs] by simp
  ultimately have rem: "unat (tl_remainingPartitions info') =
      length (filter (\<lambda>p. \<not> exhausted p) (map start_partition ?bs))"
    by (simp add: info'_def unat_of_nat)
  have "unat (nextLowerBound p) + fuel * unat (chunksize ?b) < 2 ^ 64" if "p \<in> set (map start_partition ?bs)" for p
    using that le(2) room up by (fastforce simp: start_partition_def)
  then have "loop_inv n fuel info'"
    using ok n rem by (simp add: loop_inv_def info'_def the_partitions_def bounds_ok_def)
  moreover have "sum_list (map part_pending (map start_partition bs)) = mset (concat (map iterations bs))" for bs
    by (induction bs) (simp_all add: part_pending_def start_partition_def iterations_def)
  from this [of ?bs] have "info_pending info' = mset (concat (map iterations ?bs))"
    by (simp only: info_pending_def info'_def the_partitions_def) simp
  then have "info_pending info' = mset (iterations (tl_bounds info))"
    using concat_split_spec [OF ok n(1)] by (simp add: comp_def)
  ultimately show ?thesis
    using init by (auto simp: info'_def)
qed

definition start_collaborators :: "bool \<Rightarrow> nat \<Rightarrow> nat list \<Rightarrow> collaborator list" where
  "start_collaborators dist n cpus = map (Taskloop_run_start dist n) cpus"

lemma start_collaborators_inv: "n > 0 \<Longrightarrow> cos_inv n info (start_collaborators dist n cpus)"
  by (auto simp: cos_inv_def co_inv_def start_collaborators_def Taskloop_run_start_def getPartitionPath_perm)

section \<open>Properties\<close>

text \<open>
  \<open>splitIterations\<close> cuts the iteration space into consecutive pieces: there is one piece per
  partition, the concatenation of their iterations is the whole range in order, each piece starts
  where the previous one ends, and no piece has more than one chunk beyond an even share.
\<close>

lemma splitIterations_partitions:
  assumes "bounds_ok b" "0 < n" "n < 2 ^ 31"
  shows "\<exists>ps. splitIterations n b = Inr ps \<and> length ps = n \<and>
    concat (map iterations ps) = iterations b \<and>
    (\<forall>i. Suc i < n \<longrightarrow> upper_bound (ps ! i) = lower_bound (ps ! Suc i)) \<and>
    (\<forall>p \<in> set ps. length (iterations p) \<le> (unat (total_chunks b) div n + 1) * unat (chunksize b))"
proof -
  let ?T = "unat (total_chunks b)" and ?cs = "unat (chunksize b)"
  let ?L = "unat (lower_bound b)" and ?U = "unat (upper_bound b)"
  let ?sp = "split_spec n ?T (chunksize b) ?L ?U"
  have "length (iterations (?sp i)) \<le> (?T div n + 1) * ?cs" if "i < n" for i
  proof -
    note f = total_chunks_facts [OF assms(1)]
    have "edge n ?T ?cs ?L ?U (Suc i) \<le>
        edge n ?T ?cs ?L ?U i + (chunks_before n ?T (Suc i) - chunks_before n ?T i) * ?cs"
      using edge_step [OF that f(5,2,3,1) assms(2)] by simp
    moreover have "(chunks_before n ?T (Suc i) - chunks_before n ?T i) * ?cs \<le> (?T div n + 1) * ?cs"
      using chunks_before_Suc [OF that, of ?T] by (intro mult_le_mono1) simp
    ultimately show ?thesis by (simp add: iterations_def split_spec_def)
  qed
  moreover have "concat (map iterations (map ?sp [0..<n])) = iterations b"
    using concat_split_spec [OF assms(1,2)] by (simp add: comp_def)
  ultimately show ?thesis
    using splitIterations_closed [OF assms] by (intro exI conjI) (auto simp: split_spec_def)
qed

definition example_bounds :: bounds_t where
  "example_bounds = \<lparr>lower_bound = 2, upper_bound = 12, b_step = 1, chunksize = 3\<rparr>"

text \<open>
  The path of a collaborator visits every partition exactly once, with the distribution
  function (a zigzag around the CPU's own partition) and without it (a round trip).
\<close>

lemma getPartitionPath_visits_all:
  assumes "n > 0"
  shows "distinct (getPartitionPath dist n cpu) \<and> set (getPartitionPath dist n cpu) = {0..<int n} \<and>
    hd (getPartitionPath dist n cpu) = int (cpu mod n)"
proof -
  have "hd (getPartitionPath dist n cpu) = int (cpu mod n)"
    using assms
    by (cases dist; cases n)
      (auto simp: getPartitionPath_def upt_conv_Cons c_rem_nonneg modulus_mod Let_def zmod_int
        simp del: upt_Suc)
  with getPartitionPath_perm [OF assms] show ?thesis by simp
qed

text \<open>
  C9. Whatever the interleaving of the collaborators of a task loop, no assertion fails, the
  chunks they execute are disjoint parts of the iteration space, and when one of them is done all
  iterations of the loop have been handed out: each exactly once. The number of loop iterations of
  the collaborators must leave room in the \<open>size_t\<close> counters, which grow with every request.
\<close>

theorem taskloop_iterations_once:
  assumes "bounds_ok (effective_bounds n (tl_bounds info))" "0 < n" "n < 2 ^ 31" "tl_partitions info = None"
    and "unat (upper_bound (tl_bounds info)) +
      length sched * unat (chunksize (effective_bounds n (tl_bounds info))) < 2 ^ 64"
  shows "\<exists>info0 bs cos info'. TaskloopInfo_initialize n info = Inr info0 \<and>
    run_collaborators n sched (start_collaborators dist n cpus) info0 = Inr (bs, cos, info') \<and>
    distinct (concat (map iterations bs)) \<and>
    set (concat (map iterations bs)) \<subseteq> set (iterations (tl_bounds info)) \<and>
    ((\<exists>co \<in> set cos. co_done co) \<longrightarrow>
       mset (concat (map iterations bs)) = mset (iterations (tl_bounds info)) \<and> \<not> hasPendingIterations info')"
proof -
  obtain info0 where init: "TaskloopInfo_initialize n info = Inr info0"
    and inv: "loop_inv n (length sched + 0) info0"
    and pend0: "info_pending info0 = mset (iterations (tl_bounds info))"
    using initialize_law [OF assms(1-4), of "length sched"] assms(5) by auto
  obtain bs cos info' where
    run: "run_collaborators n sched (start_collaborators dist n cpus) info0 = Inr (bs, cos, info')"
    and inv': "loop_inv n 0 info'" and cos: "cos_inv n info' cos"
    and pend: "info_pending info0 = info_pending info' + mset (concat (map iterations bs))"
    using run_collaborators_law [OF inv start_collaborators_inv [OF assms(2)]] by blast
  have sub: "mset (concat (map iterations bs)) \<subseteq># mset (iterations (tl_bounds info))"
    using pend pend0 by (metis mset_subset_eq_add_right)
  then have "distinct (concat (map iterations bs))"
    by (rule distinct_sub_mset) (simp add: iterations_def)
  moreover have "set (concat (map iterations bs)) \<subseteq> set (iterations (tl_bounds info))"
    using set_mset_mono [OF sub] by (simp only: set_mset_mset)
  moreover have "mset (concat (map iterations bs)) = mset (iterations (tl_bounds info)) \<and>
      \<not> hasPendingIterations info'" if "co \<in> set cos" "co_done co" for co
  proof -
    have "info_pending info' = {#}" using cos that by (auto simp: cos_inv_def co_inv_def)
    moreover from this have "unat (tl_remainingPartitions info') = 0"
      using inv' by (simp add: loop_inv_def info_pending_empty filter_empty_conv)
    ultimately show ?thesis using pend pend0 by (simp add: hasPendingIterations_def word_less_nat_alt)
  qed
  ultimately show ?thesis using init run by blast
qed

definition example_info :: TaskloopInfo where
  "example_info = TaskloopInfo_new\<lparr>tl_bounds := example_bounds\<rparr>"

lemma example_info_ok:
  "bounds_ok (effective_bounds 3 (tl_bounds example_info))" "tl_partitions example_info = None"
  by (simp_all add: bounds_ok_def example_info_def effective_bounds_def example_bounds_def
      TaskloopInfo_new_def word_le_nat_alt)

theorem taskloop_iterations_once_witness:
  "\<exists>info0 bs cos info'. TaskloopInfo_initialize 3 example_info = Inr info0 \<and>
     run_collaborators 3 [0, 1, 0, 1, 0] (start_collaborators True 3 [0, 2]) info0 = Inr (bs, cos, info') \<and>
     distinct (concat (map iterations bs))"
proof -
  have "unat (upper_bound (tl_bounds example_info)) +
      length [0, 1, 0, 1, 0 :: nat] * unat (chunksize (effective_bounds 3 (tl_bounds example_info))) < 2 ^ 64"
    by (simp add: example_info_def effective_bounds_def example_bounds_def)
  from taskloop_iterations_once [OF example_info_ok(1) _ _ example_info_ok(2) this, of True "[0, 2]"]
  show ?thesis by (simp del: run_collaborators.simps) blast
qed

text \<open>
  C20. A collaborator terminates: after as many turns as the loop has iterations plus the number of
  partitions, whatever the others do in between, it has left its loop.
\<close>

theorem collaborator_terminates:
  assumes "bounds_ok (effective_bounds n (tl_bounds info))" "0 < n" "n < 2 ^ 31" "tl_partitions info = None"
    and "unat (upper_bound (tl_bounds info)) +
      length sched * unat (chunksize (effective_bounds n (tl_bounds info))) < 2 ^ 64"
    and "k < length cpus" "length (iterations (tl_bounds info)) + n \<le> count_list sched k"
  shows "\<exists>info0 bs cos info'. TaskloopInfo_initialize n info = Inr info0 \<and>
    run_collaborators n sched (start_collaborators dist n cpus) info0 = Inr (bs, cos, info') \<and>
    co_done (cos ! k)"
proof -
  obtain info0 where init: "TaskloopInfo_initialize n info = Inr info0"
    and inv: "loop_inv n (length sched + 0) info0"
    and pend0: "info_pending info0 = mset (iterations (tl_bounds info))"
    using initialize_law [OF assms(1-4), of "length sched"] assms(5) by auto
  note cos = start_collaborators_inv [OF assms(2), of info0 dist cpus]
  obtain bs cos' info' where
    run: "run_collaborators n sched (start_collaborators dist n cpus) info0 = Inr (bs, cos', info')"
    using run_collaborators_law [OF inv cos] by blast
  have "co_done (cos' ! k)"
    using assms(6,7) pend0
    by (intro run_collaborators_done [OF inv cos _ run]) (auto simp: start_collaborators_def Taskloop_run_start_def)
  with init run show ?thesis by blast
qed

theorem collaborator_terminates_witness:
  "\<exists>info0 bs cos info'. TaskloopInfo_initialize 3 example_info = Inr info0 \<and>
     run_collaborators 3 (replicate 13 1) (start_collaborators False 3 [0, 2]) info0 = Inr (bs, cos, info') \<and>
     co_done (cos ! 1)"
proof -
  have "count_list (replicate 13 (1 :: nat)) 1 = 13" by (simp add: count_list_eq_length_filter)
  then have "length (iterations (tl_bounds example_info)) + 3 \<le> count_list (replicate 13 (1 :: nat)) 1"
    by (simp add: example_info_def example_bounds_def iterations_def)
  moreover have "unat (upper_bound (tl_bounds example_info)) +
      length (replicate 13 (1 :: nat)) * unat (chunksize (effective_bounds 3 (tl_bounds example_info))) < 2 ^ 64"
    by (simp add: example_info_def effective_bounds_def example_bounds_def)
  ultimately show ?thesis
    using collaborator_terminates [OF example_info_ok(1) _ _ example_info_ok(2), of "replicate 13 1" 1 "[0, 2]"]
    by simp
qed

end
