(* ===== verification/N6_CPU.thy ===== *)
theory N6_CPU
  imports N6_SchedulerInterface
begin

text \<open>
  CPUs: the numbering and the idle set of \<open>src/executors/threads/CPUManager.hpp\<close> and \<open>.cpp\<close>, the
  first part of \<open>CPU.hpp\<close>, and the activation protocol of \<open>CPUActivation.hpp\<close>. An iteration of a
  compare-and-swap loop reads the status and exchanges it in one step; an iteration whose exchange
  fails changes nothing and is repeated.
\<close>

section \<open>Numbering\<close>

text \<open>
  \<open>CPUManager::preinitialize\<close>: \<open>cpus\<close> are the compute places of the host in order, each with its
  system id and NUMA node, \<open>isset\<close> the process affinity mask. \<open>None\<close> as virtual id stands for
  \<open>~0UL\<close>.
\<close>

record cpu_desc =
  cd_systemCPUId :: nat
  cd_NUMANodeId :: nat

record numbering =
  nb_cpus :: "cpu_ref option list"
  nb_totalCPUs :: nat
  nb_virtual :: "nat option list"
  nb_systemToVirtual :: "nat option list"
  nb_NUMANodeMask :: "bool list list"
  nb_idleCPUs :: "bool list"

definition numbering_step :: "(nat \<Rightarrow> bool) \<Rightarrow> cpu_desc list \<Rightarrow> nat \<Rightarrow> numbering \<Rightarrow> numbering" where
  "numbering_step isset cpus i nb =
     (let cpu = cpus ! i; v = nb_totalCPUs nb in
      if isset (cd_systemCPUId cpu)
      then nb\<lparr>nb_virtual := (nb_virtual nb)[i := Some v],
              nb_cpus := (nb_cpus nb)[v := Some i],
              nb_totalCPUs := Suc v,
              nb_NUMANodeMask := (nb_NUMANodeMask nb)
                [cd_NUMANodeId cpu := (nb_NUMANodeMask nb ! cd_NUMANodeId cpu)[v := True]],
              nb_systemToVirtual := (nb_systemToVirtual nb)[cd_systemCPUId cpu := Some v]\<rparr>
      else nb\<lparr>nb_virtual := (nb_virtual nb)[i := None],
              nb_systemToVirtual := (nb_systemToVirtual nb)[cd_systemCPUId cpu := None]\<rparr>)"

definition numbering_init :: "cpu_desc list \<Rightarrow> nat \<Rightarrow> numbering" where
  "numbering_init cpus numaNodes =
     (let maxSystemCPUId = foldr max (map cd_systemCPUId cpus) 0 in
      \<lparr>nb_cpus = replicate (length cpus) None, nb_totalCPUs = 0,
       nb_virtual = replicate (length cpus) None,
       nb_systemToVirtual = replicate (Suc maxSystemCPUId) (Some 0),
       nb_NUMANodeMask = replicate numaNodes (replicate (length cpus) False),
       nb_idleCPUs = replicate (length cpus) False\<rparr>)"

definition CPUManager_preinitialize :: "(nat \<Rightarrow> bool) \<Rightarrow> cpu_desc list \<Rightarrow> nat \<Rightarrow> numbering" where
  "CPUManager_preinitialize isset cpus numaNodes =
     fold (numbering_step isset cpus) [0..<length cpus] (numbering_init cpus numaNodes)"

text \<open>
  \<open>CPUManager::getCPU\<close>. The outer option is \<open>None\<close> when the lookup reads outside \<open>_cpus\<close>.
\<close>

definition CPUManager_getCPU :: "numbering \<Rightarrow> nat \<Rightarrow> cpu_ref option option result" where
  "CPUManager_getCPU nb systemCPUId =
     assert_that (systemCPUId < length (nb_systemToVirtual nb)) ''_systemToVirtualCPUId.size() > systemCPUId''
       (Inr (case nb_systemToVirtual nb ! systemCPUId of
               Some v \<Rightarrow> if v < length (nb_cpus nb) then Some (nb_cpus nb ! v) else None
             | None \<Rightarrow> None))"

section \<open>Printing CPU sets\<close>

text \<open>
  The state of the loops of the two overloads of \<open>maskToRegionList\<close>: the open region (valid when
  \<open>end \<ge> start\<close>) and the regions emitted so far. Every element is the number to print for a set
  bit, \<open>None\<close> for a clear one; the extra iteration at the end is a clear bit.
\<close>

fun mask_regions_loop :: "int option list \<Rightarrow> int \<Rightarrow> int \<Rightarrow> (int \<times> int) list" where
  "mask_regions_loop [] start end' = []"
| "mask_regions_loop (Some i # bits) start end' =
     (if end' \<ge> start then mask_regions_loop bits start i else mask_regions_loop bits i i)"
| "mask_regions_loop (None # bits) start end' =
     (if end' \<ge> start then (start, end') # mask_regions_loop bits start (- 1)
      else mask_regions_loop bits start end')"

definition maskToRegionList_set :: "bool list \<Rightarrow> (int \<times> int) list" where
  "maskToRegionList_set cpuMask =
     mask_regions_loop
       (map (\<lambda>i. if cpuMask ! i then Some (int i) else None) [0..<length cpuMask] @ [None]) 0 (- 1)"

definition maskToRegionList_cpus :: "bool list \<Rightarrow> nat option list \<Rightarrow> (int \<times> int) list" where
  "maskToRegionList_cpus cpuMask systemIds =
     mask_regions_loop
       (map (\<lambda>v. if cpuMask ! v then Some (case systemIds ! v of Some s \<Rightarrow> int s | None \<Rightarrow> - 1) else None)
          [0..<length cpuMask] @ [None]) 0 (- 1)"

fun digits_fuel :: "nat \<Rightarrow> nat \<Rightarrow> string" where
  "digits_fuel 0 n = ''''"
| "digits_fuel (Suc f) n =
     (if n < 10 then [char_of (48 + n)] else digits_fuel f (n div 10) @ [char_of (48 + n mod 10)])"

definition show_int :: "int \<Rightarrow> string" where
  "show_int i = (if i < 0 then ''-'' @ digits_fuel (Suc (nat (- i))) (nat (- i))
                 else digits_fuel (Suc (nat i)) (nat i))"

definition show_region :: "int \<times> int \<Rightarrow> string" where
  "show_region r = (if snd r = fst r then show_int (fst r) else show_int (fst r) @ ''-'' @ show_int (snd r))"

fun show_regions :: "(int \<times> int) list \<Rightarrow> string" where
  "show_regions [] = ''''"
| "show_regions [r] = show_region r"
| "show_regions (r # rs) = show_region r @ '','' @ show_regions rs"

section \<open>Activation\<close>

definition activation :: "world \<Rightarrow> cpu_ref \<Rightarrow> activation_status_t" where
  "activation w cpu = cp_activationStatus (w_places w cpu)"

definition set_activation :: "cpu_ref \<Rightarrow> activation_status_t \<Rightarrow> world \<Rightarrow> world" where
  "set_activation cpu st w =
     w\<lparr>w_places := (w_places w)(cpu := (w_places w cpu)\<lparr>cp_activationStatus := st\<rparr>)\<rparr>"

definition initializeIfNeeded :: "cpu_ref \<Rightarrow> world \<Rightarrow> (bool \<times> world) result" where
  "initializeIfNeeded cpu w =
     (if activation w cpu = uninitialized_status
      then Inr (True, set_activation cpu starting_status w)
      else assert_that (activation w cpu \<noteq> starting_status) ''_activationStatus != starting_status''
             (Inr (False, w)))"

text \<open>
  One iteration of the loop of \<open>CPUActivation::enable\<close>: whether the loop ends, and the state. The
  caller has left the function if the runtime must exit and has called \<open>initializeIfNeeded\<close>.
\<close>

definition enable_iter :: "cpu_ref \<Rightarrow> world \<Rightarrow> (bool \<times> world) result" where
  "enable_iter cpu w =
     (case activation w cpu of
        uninitialized_status \<Rightarrow> Inl (AssertFailed ''false'')
      | starting_status \<Rightarrow> Inr (False, w)
      | enabled_status \<Rightarrow> Inr (True, w)
      | enabling_status \<Rightarrow> Inr (True, w)
      | disabling_status \<Rightarrow> Inr (True, set_activation cpu enabled_status w)
      | disabled_status \<Rightarrow>
          result_bind (resumeIdle cpu False (set_activation cpu enabling_status w))
            (\<lambda>(th, w1). Inr (True, w1)))"

definition disable_iter :: "cpu_ref \<Rightarrow> world \<Rightarrow> (bool \<times> world) result" where
  "disable_iter cpu w =
     (case activation w cpu of
        uninitialized_status \<Rightarrow> Inl (AssertFailed ''false'')
      | starting_status \<Rightarrow> Inr (False, w)
      | enabled_status \<Rightarrow> Inr (True, set_activation cpu disabling_status w)
      | enabling_status \<Rightarrow> Inr (True, set_activation cpu disabled_status w)
      | disabling_status \<Rightarrow> Inr (True, w)
      | disabled_status \<Rightarrow> Inr (True, w))"

text \<open>
  One iteration of the loop of \<open>CPUActivation::activationCheck\<close> by thread \<open>th\<close>. It ends the loop,
  repeats it, or suspends the thread inside \<open>switchTo(nullptr)\<close>, after which the loop is repeated.
\<close>

datatype check_outcome = CheckDone | CheckAgain | CheckSuspended

definition thread_sleeps ::
  "thread_ref \<Rightarrow> 's \<Rightarrow> world \<Rightarrow> (check_outcome \<times> 's \<times> world) result" where
  "thread_sleeps th s w =
     result_bind (addIdler th w)
       (\<lambda>w1. result_bind (thread_switchTo th None w1) (\<lambda>w2. Inr (CheckSuspended, s, w2)))"

definition activationCheck_iter ::
  "'s scheduler_ops \<Rightarrow> thread_ref \<Rightarrow> 's \<Rightarrow> world \<Rightarrow> (check_outcome \<times> 's \<times> world) result" where
  "activationCheck_iter ops th s w =
     (case th_cpu (w_threads w th) of
        None \<Rightarrow> Inl (AssertFailed ''cpu != nullptr'')
      | Some cpu \<Rightarrow>
          (case activation w cpu of
             uninitialized_status \<Rightarrow> Inl (AssertFailed ''false'')
           | starting_status \<Rightarrow> Inr (CheckAgain, s, set_activation cpu enabled_status w)
           | enabled_status \<Rightarrow> Inr (CheckDone, s, w)
           | enabling_status \<Rightarrow>
               result_bind (Scheduler_enableComputePlace ops s (set_activation cpu enabled_status w) cpu)
                 (\<lambda>(s1, w1). Inr (CheckDone, s1, w1))
           | disabling_status \<Rightarrow>
               result_bind (Scheduler_disableComputePlace ops s (set_activation cpu disabled_status w) cpu)
                 (\<lambda>(s1, w1).
                   let (idle, s2, w2) = Scheduler_getIdleComputePlace ops s1 w1 False in
                   case idle of
                     Some cpu' \<Rightarrow> result_bind (thread_migrate th cpu' w2) (\<lambda>w3. Inr (CheckAgain, s2, w3))
                   | None \<Rightarrow> thread_sleeps th s2 w2)
           | disabled_status \<Rightarrow>
               (if \<not> th_mustShutDown (w_threads w th) then thread_sleeps th s w
                else Inr (CheckDone, s, w))))"

definition hasStarted :: "cpu_ref \<Rightarrow> world \<Rightarrow> bool" where
  "hasStarted cpu w = (activation w cpu \<noteq> starting_status)"

definition isBeingInitialized :: "cpu_ref \<Rightarrow> world \<Rightarrow> bool" where
  "isBeingInitialized cpu w = (activation w cpu = starting_status)"

section \<open>Debug interface\<close>

datatype nanos6_cpu_status_t =
    nanos6_invalid_cpu_status
  | nanos6_starting_cpu
  | nanos6_enabling_cpu
  | nanos6_enabled_cpu
  | nanos6_disabling_cpu
  | nanos6_disabled_cpu

fun cpu_status_of :: "activation_status_t \<Rightarrow> nanos6_cpu_status_t" where
  "cpu_status_of uninitialized_status = nanos6_disabled_cpu"
| "cpu_status_of starting_status = nanos6_starting_cpu"
| "cpu_status_of enabling_status = nanos6_enabling_cpu"
| "cpu_status_of enabled_status = nanos6_enabled_cpu"
| "cpu_status_of disabling_status = nanos6_disabling_cpu"
| "cpu_status_of disabled_status = nanos6_disabled_cpu"

text \<open>The iterator over the CPU list is an index; \<open>None\<close> is the null pointer of the interface.\<close>

function nanos6_cpus_skip_uninitialized :: "world \<Rightarrow> nat \<Rightarrow> nat option" where
  "nanos6_cpus_skip_uninitialized w it =
     (let cpuList = cm_cpus (w_cpum w) in
      if it \<ge> length cpuList then None
      else (case cpuList ! it of
              Some cpu \<Rightarrow> if activation w cpu \<noteq> uninitialized_status then Some it
                          else nanos6_cpus_skip_uninitialized w (Suc it)
            | None \<Rightarrow> nanos6_cpus_skip_uninitialized w (Suc it)))"
  by pat_completeness auto
termination
  by (relation "measure (\<lambda>(w, it). length (cm_cpus (w_cpum w)) - it)") auto

declare nanos6_cpus_skip_uninitialized.simps [simp del]

definition nanos6_cpus_begin :: "world \<Rightarrow> nat option" where
  "nanos6_cpus_begin w =
     (if cm_cpus (w_cpum w) = [] then None else nanos6_cpus_skip_uninitialized w 0)"

definition nanos6_cpus_advance :: "world \<Rightarrow> nat option \<Rightarrow> nat option" where
  "nanos6_cpus_advance w cpuIterator =
     (case cpuIterator of None \<Rightarrow> None | Some it \<Rightarrow> nanos6_cpus_skip_uninitialized w (Suc it))"

text \<open>The loop of a client that iterates from \<open>begin\<close> with \<open>advance\<close> until the null iterator.\<close>

fun cpus_from :: "nat \<Rightarrow> world \<Rightarrow> nat option \<Rightarrow> nat list" where
  "cpus_from 0 w it = []"
| "cpus_from (Suc f) w None = []"
| "cpus_from (Suc f) w (Some i) = i # cpus_from f w (nanos6_cpus_advance w (Some i))"

section \<open>The idle set\<close>

text \<open>The bit set of idle CPUs as a set of virtual ids.\<close>

definition idle_set :: "world \<Rightarrow> nat set" where
  "idle_set w = {i. i < length (cm_idleCPUs (w_cpum w)) \<and> cm_idleCPUs (w_cpum w) ! i}"

lemma finite_idle_set [simp]: "finite (idle_set w)"
  by (simp add: idle_set_def)

lemma find_index_Min:
  assumes "find_index_from 0 P xs = Some i"
  shows "i = Min {j. j < length xs \<and> P (xs ! j)}" "i < length xs" "P (xs ! i)"
proof -
  have i: "i < length xs" "P (xs ! i)" "\<forall>k < i. \<not> P (xs ! k)"
    using find_index_from_Some [OF assms] by auto
  then show "i < length xs" "P (xs ! i)" by auto
  show "i = Min {j. j < length xs \<and> P (xs ! j)}"
    using i by (intro Min_eqI [symmetric]) (auto simp: not_less [symmetric])
qed

lemma find_index_None_set:
  "find_index_from 0 P xs = None \<longleftrightarrow> {j. j < length xs \<and> P (xs ! j)} = {}"
  by (auto simp: find_index_from_None) (auto simp: in_set_conv_nth)

lemma idle_set_clear:
  "i < length (cm_idleCPUs m) \<Longrightarrow> w_cpum w = m \<Longrightarrow>
   idle_set (w\<lparr>w_cpum := m\<lparr>cm_idleCPUs := (cm_idleCPUs m)[i := False]\<rparr>\<rparr>) = idle_set w - {i}"
  by (auto simp: idle_set_def nth_list_update)

lemma collect_idle_filter:
  "length cs = length bs \<Longrightarrow> collect_idle bs cs = map (\<lambda>i. cs ! i) (filter (\<lambda>i. bs ! i) [0..<length bs])"
proof (induction bs cs rule: collect_idle.induct)
  case (1 b bs c cs)
  have "[0..<Suc (length bs)] = 0 # map Suc [0..<length bs]"
    by (simp add: map_Suc_upt upt_conv_Cons del: upt_Suc)
  with 1 show ?case by (simp add: filter_map comp_def del: upt_Suc)
qed auto

lemma cpuBecomesIdle_set:
  "cp_virtualCPUId (w_places w cpu) < length (cm_idleCPUs (w_cpum w)) \<Longrightarrow>
   idle_set (cpuBecomesIdle cpu w) = insert (cp_virtualCPUId (w_places w cpu)) (idle_set w)"
  by (auto simp: idle_set_def cpuBecomesIdle_def Let_def nth_list_update)

lemma getIdleCPU_set:
  "if idle_set w = {} then getIdleCPU w = (None, w)
   else \<exists>w'. getIdleCPU w = (cm_cpus (w_cpum w) ! Min (idle_set w), w') \<and>
          idle_set w' = idle_set w - {Min (idle_set w)}"
proof (cases "find_index_from 0 id (cm_idleCPUs (w_cpum w))")
  case None
  then show ?thesis
    using find_index_None_set [of id "cm_idleCPUs (w_cpum w)"]
    by (simp add: idle_set_def getIdleCPU_def Let_def)
next
  case (Some i)
  note f = find_index_Min [OF Some]
  have i: "i = Min (idle_set w)" "idle_set w \<noteq> {}" using f by (auto simp: idle_set_def)
  then show ?thesis
    using Some f idle_set_clear [OF _ refl, of i w] by (auto simp: getIdleCPU_def Let_def)
qed

lemma getIdleCPUs_set:
  assumes "length (cm_cpus (w_cpum w)) = length (cm_idleCPUs (w_cpum w))"
  shows "\<exists>w'. getIdleCPUs w = (map (\<lambda>i. cm_cpus (w_cpum w) ! i) (sorted_list_of_set (idle_set w)), w') \<and>
    idle_set w' = {}"
proof -
  let ?l = "filter (\<lambda>i. cm_idleCPUs (w_cpum w) ! i) [0..<length (cm_idleCPUs (w_cpum w))]"
  have "set ?l = idle_set w" by (auto simp: idle_set_def)
  moreover have "sorted_list_of_set (set ?l) = ?l"
    by (intro sorted_list_of_set.idem_if_sorted_distinct) (simp_all add: sorted_wrt_filter)
  ultimately show ?thesis
    using collect_idle_filter [OF assms] by (simp add: getIdleCPUs_def Let_def idle_set_def)
qed

lemma getIdleNUMANodeCPU_set:
  assumes "length (cm_NUMANodeMask (w_cpum w) ! node) = length (cm_idleCPUs (w_cpum w))"
    and "node_set = {i \<in> idle_set w. cm_NUMANodeMask (w_cpum w) ! node ! i}"
  shows "if node_set = {} then getIdleNUMANodeCPU node w = (None, w)
     else \<exists>w'. getIdleNUMANodeCPU node w = (cm_cpus (w_cpum w) ! Min node_set, w') \<and>
            idle_set w' = idle_set w - {Min node_set}"
proof -
  let ?both = "map2 (\<and>) (cm_idleCPUs (w_cpum w)) (cm_NUMANodeMask (w_cpum w) ! node)"
  have set: "node_set = {j. j < length ?both \<and> id (?both ! j)}"
    using assms by (auto simp: idle_set_def)
  show ?thesis
  proof (cases "find_index_from 0 id ?both")
    case None
    then show ?thesis
      using find_index_None_set [of id ?both] by (simp add: set getIdleNUMANodeCPU_def Let_def)
  next
    case (Some i)
    note f = find_index_Min [OF Some]
    have "node_set \<noteq> {}" "i = Min node_set" using f set by auto
    then show ?thesis
      using Some f(2) assms(1) idle_set_clear [OF _ refl, of i w]
      by (auto simp: getIdleNUMANodeCPU_def Let_def)
  qed
qed

lemma unidleCPU_set:
  assumes "cp_virtualCPUId (w_places w cpu) < length (cm_idleCPUs (w_cpum w))"
  shows "\<exists>w'. unidleCPU cpu w = (cp_virtualCPUId (w_places w cpu) \<in> idle_set w, w') \<and>
    idle_set w' = idle_set w - {cp_virtualCPUId (w_places w cpu)}"
  using assms idle_set_clear [OF _ refl, of "cp_virtualCPUId (w_places w cpu)" w]
  by (auto simp: unidleCPU_def Let_def idle_set_def)

section \<open>Properties\<close>

text \<open>
  The bit set of idle CPUs implements a set of CPUs. Marking adds the CPU; a request takes
  the least idle CPU out of the set and returns it, or returns none exactly when the set is empty;
  the bulk request returns all of them in order and empties the set; the request for a NUMA node
  takes the least idle CPU of that node; \<open>unidleCPU\<close> succeeds exactly on idle CPUs.
\<close>

lemma idle_CPUs_refine_set:
  assumes "length (cm_cpus (w_cpum w)) = length (cm_idleCPUs (w_cpum w))"
    and "cp_virtualCPUId (w_places w cpu) < length (cm_idleCPUs (w_cpum w))"
    and "length (cm_NUMANodeMask (w_cpum w) ! node) = length (cm_idleCPUs (w_cpum w))"
  shows "idle_set (cpuBecomesIdle cpu w) = insert (cp_virtualCPUId (w_places w cpu)) (idle_set w) \<and>
    (if idle_set w = {} then getIdleCPU w = (None, w)
     else \<exists>w'. getIdleCPU w = (cm_cpus (w_cpum w) ! Min (idle_set w), w') \<and>
            idle_set w' = idle_set w - {Min (idle_set w)}) \<and>
    (\<exists>w'. getIdleCPUs w = (map (\<lambda>i. cm_cpus (w_cpum w) ! i) (sorted_list_of_set (idle_set w)), w') \<and>
            idle_set w' = {}) \<and>
    (let node_set = {i \<in> idle_set w. cm_NUMANodeMask (w_cpum w) ! node ! i} in
     if node_set = {} then getIdleNUMANodeCPU node w = (None, w)
     else \<exists>w'. getIdleNUMANodeCPU node w = (cm_cpus (w_cpum w) ! Min node_set, w') \<and>
            idle_set w' = idle_set w - {Min node_set}) \<and>
    (\<exists>w'. unidleCPU cpu w = (cp_virtualCPUId (w_places w cpu) \<in> idle_set w, w') \<and>
            idle_set w' = idle_set w - {cp_virtualCPUId (w_places w cpu)})"
  unfolding Let_def
  using cpuBecomesIdle_set [OF assms(2)] getIdleCPU_set [of w] getIdleCPUs_set [OF assms(1)]
    getIdleNUMANodeCPU_set [OF assms(3) refl] unidleCPU_set [OF assms(2)]
  by (intro conjI)

section \<open>Numbering: the virtual ids\<close>

definition selected :: "(nat \<Rightarrow> bool) \<Rightarrow> cpu_desc list \<Rightarrow> nat \<Rightarrow> nat list" where
  "selected isset cpus k = filter (\<lambda>i. isset (cd_systemCPUId (cpus ! i))) [0..<k]"

definition descs_ok :: "cpu_desc list \<Rightarrow> bool" where
  "descs_ok cpus = distinct (map cd_systemCPUId cpus)"

lemma selected_Suc:
  "selected isset cpus (Suc k) =
   selected isset cpus k @ (if isset (cd_systemCPUId (cpus ! k)) then [k] else [])"
  by (simp add: selected_def)

lemma length_selected: "length (selected isset cpus k) \<le> k"
  using length_filter_le [of _ "[0..<k]"] by (simp add: selected_def)

lemma foldr_max_ge: "x \<in> set xs \<Longrightarrow> x \<le> foldr max xs (0 :: nat)"
  by (induction xs) auto

definition numbering_inv :: "(nat \<Rightarrow> bool) \<Rightarrow> cpu_desc list \<Rightarrow> nat \<Rightarrow> numbering \<Rightarrow> bool" where
  "numbering_inv isset cpus k nb \<longleftrightarrow>
     nb_totalCPUs nb = length (selected isset cpus k) \<and>
     nb_cpus nb = map Some (selected isset cpus k) @ replicate (length cpus - length (selected isset cpus k)) None \<and>
     length (nb_systemToVirtual nb) = Suc (foldr max (map cd_systemCPUId cpus) 0) \<and>
     (\<forall>i < k. nb_systemToVirtual nb ! cd_systemCPUId (cpus ! i) =
        (if isset (cd_systemCPUId (cpus ! i)) then Some (length (selected isset cpus i)) else None))"

lemma numbering_inv_step:
  assumes ok: "descs_ok cpus" and k: "k < length cpus" and inv: "numbering_inv isset cpus k nb"
  shows "numbering_inv isset cpus (Suc k) (numbering_step isset cpus k nb)"
proof -
  let ?sel = "selected isset cpus k" and ?sys = "\<lambda>i. cd_systemCPUId (cpus ! i)"
  have range: "?sys k < length (nb_systemToVirtual nb)"
    using k inv foldr_max_ge [of "?sys k" "map cd_systemCPUId cpus"]
    by (simp add: numbering_inv_def less_Suc_eq_le)
  have other: "\<forall>i < k. ?sys k \<noteq> ?sys i"
    using ok k by (auto simp: descs_ok_def distinct_conv_nth)
  have "length ?sel < length cpus" using length_selected [of isset cpus k] k by simp
  then have "replicate (length cpus - length ?sel) None =
      None # replicate (length cpus - Suc (length ?sel)) (None :: nat option)"
    by (metis Suc_diff_Suc replicate_Suc)
  then have "(nb_cpus nb)[length ?sel := Some k] =
      map Some (?sel @ [k]) @ replicate (length cpus - Suc (length ?sel)) None"
    using inv by (simp add: numbering_inv_def list_update_append)
  with inv range other show ?thesis
    by (auto simp: numbering_inv_def numbering_step_def selected_Suc Let_def less_Suc_eq nth_list_update)
qed

lemma numbering_prefix:
  assumes "descs_ok cpus"
  shows "k \<le> length cpus \<Longrightarrow>
    numbering_inv isset cpus k (fold (numbering_step isset cpus) [0..<k] (numbering_init cpus numaNodes))"
proof (induction k)
  case 0
  then show ?case by (simp add: numbering_inv_def numbering_init_def selected_def Let_def)
next
  case (Suc k)
  then show ?case using numbering_inv_step [OF assms] by simp
qed

text \<open>
  After \<open>preinitialize\<close> the CPUs of the process mask have the virtual ids \<open>0, 1, \<dots>\<close> in the
  order of the compute places, \<open>_cpus\<close> lists them by virtual id with null behind them, and
  \<open>getCPU\<close> finds every CPU of the mask by its system id. For a CPU outside the mask \<open>getCPU\<close>
  does not return null: it indexes \<open>_cpus\<close> with \<open>~0UL\<close>.
\<close>

lemma preinitialize_numbers_CPUs:
  fixes isset :: "nat \<Rightarrow> bool" and numaNodes :: nat
  assumes "descs_ok cpus"
  defines "nb \<equiv> CPUManager_preinitialize isset cpus numaNodes"
    and "sel \<equiv> filter (\<lambda>i. isset (cd_systemCPUId (cpus ! i))) [0..<length cpus]"
  shows "nb_totalCPUs nb = length sel \<and>
    nb_cpus nb = map Some sel @ replicate (length cpus - length sel) None \<and>
    (\<forall>i < length cpus. CPUManager_getCPU nb (cd_systemCPUId (cpus ! i)) =
       Inr (if isset (cd_systemCPUId (cpus ! i)) then Some (Some i) else None))"
proof -
  let ?sys = "\<lambda>i. cd_systemCPUId (cpus ! i)"
  note pre = numbering_prefix [OF assms(1) order_refl, of isset numaNodes, folded CPUManager_preinitialize_def nb_def]
  have sel: "selected isset cpus (length cpus) = sel" by (simp add: selected_def sel_def)
  have cpus: "nb_cpus nb = map Some sel @ replicate (length cpus - length sel) None"
    using pre sel by (simp add: numbering_inv_def)
  have get: "CPUManager_getCPU nb (?sys i) = Inr (if isset (?sys i) then Some (Some i) else None)"
    if i: "i < length cpus" for i
  proof -
    have range: "?sys i < length (nb_systemToVirtual nb)"
      using pre foldr_max_ge [of "?sys i" "map cd_systemCPUId cpus"] i by (simp add: numbering_inv_def less_Suc_eq_le)
    have virt: "nb_systemToVirtual nb ! ?sys i =
        (if isset (?sys i) then Some (length (selected isset cpus i)) else None)"
      using pre i by (simp add: numbering_inv_def)
    show ?thesis
    proof (cases "isset (?sys i)")
      case True
      have "[0..<length cpus] = [0..<i] @ i # [Suc i..<length cpus]"
        using i upt_split [of 0 i "length cpus"] by (simp add: upt_conv_Cons)
      then have "sel = selected isset cpus i @ i # filter (\<lambda>i. isset (?sys i)) [Suc i..<length cpus]"
        using True by (simp add: sel_def selected_def)
      then have "length (selected isset cpus i) < length sel" "sel ! length (selected isset cpus i) = i"
        by simp_all
      with True range virt cpus show ?thesis
        by (simp add: CPUManager_getCPU_def nth_append)
    next
      case False
      with range virt show ?thesis by (simp add: CPUManager_getCPU_def)
    qed
  qed
  show ?thesis using pre sel cpus get by (simp add: numbering_inv_def)
qed

section \<open>CPU lists\<close>

definition region_members :: "int \<times> int \<Rightarrow> int list" where
  "region_members r = [fst r..snd r]"

lemma mask_regions_members:
  assumes "k \<le> n" "0 \<le> start" "end' = - 1 \<or> start \<le> end' \<and> end' = int k - 1"
  shows "concat (map region_members (mask_regions_loop
      (map (\<lambda>i. if f i then Some (int i) else None) [k..<n] @ [None]) start end')) =
    [start..end'] @ map int (filter f [k..<n])"
  using assms
proof (induction "n - k" arbitrary: k start end')
  case 0
  then show ?case by (auto simp: region_members_def)
next
  case (Suc d)
  then have upt: "[k..<n] = k # [Suc k..<n]" by (simp add: upt_conv_Cons)
  have IH: "concat (map region_members (mask_regions_loop
      (map (\<lambda>i. if f i then Some (int i) else None) [Suc k..<n] @ [None]) s e)) =
    [s..e] @ map int (filter f [Suc k..<n])"
    if "0 \<le> s" "e = - 1 \<or> s \<le> e \<and> e = int k" for s e
    using Suc.hyps that Suc.prems(1) by (intro Suc.hyps(1)) auto
  show ?case
  proof (cases "f k")
    case True
    show ?thesis
    proof (cases "end' \<ge> start")
      case open_region: True
      then have e: "end' = int k - 1" using Suc.prems by auto
      have "[start..int k] = [start..end'] @ [int k]"
        using open_region e upto_rec2 [of start "int k"] by simp
      with True open_region e show ?thesis
        using IH [of start "int k"] Suc.prems by (simp add: upt)
    next
      case False
      then show ?thesis using True IH [of "int k" "int k"] by (simp add: upt)
    qed
  next
    case False
    then show ?thesis
      using IH [of start "- 1"] Suc.prems by (auto simp: upt region_members_def)
  qed
qed

text \<open>
  The CPU list printed for an affinity mask names exactly the CPUs of the mask, in increasing
  order: expanding the regions gives the indices of the set bits.
\<close>

lemma maskToRegionList_exact:
  "concat (map region_members (maskToRegionList_set cpuMask)) =
     map int (filter (\<lambda>i. cpuMask ! i) [0..<length cpuMask])"
  using mask_regions_members [of 0 "length cpuMask" 0 "- 1" "\<lambda>i. cpuMask ! i"]
  by (simp add: maskToRegionList_set_def)

text \<open>
  The overload that prints the CPUs of a NUMA node joins CPUs with consecutive virtual ids
  even when their system ids are not consecutive: with the system CPUs 0 and 2 of a process whose
  mask excludes CPU 1, the list printed is \<open>0-2\<close>, which names CPU 1 as well.
\<close>

lemma maskToRegionList_names_foreign_CPU:
  "show_regions (maskToRegionList_cpus [True, True] [Some 0, Some 2]) = ''0-2'' \<and>
   1 \<in> set (concat (map region_members (maskToRegionList_cpus [True, True] [Some 0, Some 2])))"
  by code_simp

end
