(* ===== verification/N6_Activation.thy ===== *)
theory N6_Activation
  imports N6_CPU N6_ImmediateSuccessor
begin

text \<open>
  Correctness of the CPU activation protocol of \<open>src/executors/threads/CPUActivation.hpp\<close>: the
  loops of \<open>enable\<close>, \<open>disable\<close> and \<open>activationCheck\<close> drive one automaton per CPU, for every
  scheduler whose operations leave the activation status alone; a disabled CPU keeps no task.
\<close>

section \<open>The status automaton\<close>

fun enable_next :: "activation_status_t \<Rightarrow> activation_status_t" where
  "enable_next disabling_status = enabled_status"
| "enable_next disabled_status = enabling_status"
| "enable_next st = st"

fun disable_next :: "activation_status_t \<Rightarrow> activation_status_t" where
  "disable_next enabled_status = disabling_status"
| "disable_next enabling_status = disabled_status"
| "disable_next st = st"

fun check_next :: "activation_status_t \<Rightarrow> activation_status_t" where
  "check_next starting_status = enabled_status"
| "check_next enabling_status = enabled_status"
| "check_next disabling_status = disabled_status"
| "check_next st = st"

datatype act_event = ActEnable | ActDisable | ActCheck

fun act_next :: "act_event \<Rightarrow> activation_status_t \<Rightarrow> activation_status_t" where
  "act_next ActEnable st = enable_next st"
| "act_next ActDisable st = disable_next st"
| "act_next ActCheck st = check_next st"

text \<open>
  The transitions after which \<open>activationCheck\<close> tells the scheduler that the CPU is back
  (\<open>True\<close>) or gone (\<open>False\<close>).
\<close>

fun act_notify :: "act_event \<Rightarrow> activation_status_t \<Rightarrow> bool list" where
  "act_notify ActCheck enabling_status = [True]"
| "act_notify ActCheck disabling_status = [False]"
| "act_notify e st = []"

fun act_run :: "act_event list \<Rightarrow> activation_status_t \<Rightarrow> activation_status_t \<times> bool list" where
  "act_run [] st = (st, [])"
| "act_run (e # es) st =
     (let (st', ns) = act_run es (act_next e st) in (st', act_notify e st @ ns))"

fun alternates :: "bool \<Rightarrow> bool list \<Rightarrow> bool" where
  "alternates b [] = True"
| "alternates b (x # xs) = (x \<noteq> b \<and> alternates x xs)"

text \<open>Whether the scheduler has last been told that the CPU is available.\<close>

definition told_enabled :: "activation_status_t \<Rightarrow> bool" where
  "told_enabled st = (st \<in> {starting_status, enabled_status, disabling_status})"

lemma act_run_alternates:
  "st \<noteq> uninitialized_status \<Longrightarrow> act_run es st = (st', ns) \<Longrightarrow>
   st' \<noteq> uninitialized_status \<and> alternates (told_enabled st) ns \<and>
   told_enabled st' = (if ns = [] then told_enabled st else last ns)"
proof (induction es arbitrary: st ns)
  case Nil
  then show ?case by simp
next
  case (Cons e es)
  obtain ns1 where run: "act_run es (act_next e st) = (st', ns1)" and ns: "ns = act_notify e st @ ns1"
    using Cons.prems(2) by (auto split: prod.splits)
  have "act_next e st \<noteq> uninitialized_status"
    using Cons.prems(1) by (cases e; cases st) simp_all
  from Cons.IH [OF this run] Cons.prems(1) show ?case
    unfolding ns by (cases e; cases st) (auto simp: told_enabled_def)
qed

section \<open>Operations that keep the places\<close>

lemma w_places_simps [simp]:
  "w_places (upd_thread th f w) = w_places w"
  "w_places (set_idleThreads n ths w) = w_places w"
  by (simp_all add: upd_thread_def set_idleThreads_def)

lemma thread_ops_places:
  "thread_resume th c w = Inr w' \<Longrightarrow> w_places w' = w_places w"
  "thread_migrate th c w = Inr w' \<Longrightarrow> w_places w' = w_places w"
  "thread_switchTo th r w = Inr w' \<Longrightarrow> w_places w' = w_places w"
  "addIdler th w = Inr w' \<Longrightarrow> w_places w' = w_places w"
  by (auto simp: thread_resume_def thread_migrate_def thread_switchTo_def addIdler_def Let_def
      split: option.splits)



lemma thread_sleeps_places: "thread_sleeps th s w = Inr (r, s', w') \<Longrightarrow> s' = s \<and> w_places w' = w_places w"
  by (auto simp: thread_sleeps_def dest!: thread_ops_places)

lemma activation_set [simp]: "activation (set_activation c st w) = (activation w)(c := st)"
  by (auto simp: activation_def set_activation_def fun_eq_iff)

lemma activation_cong: "w_places w' = w_places w \<Longrightarrow> activation w' = activation w"
  by (simp add: activation_def fun_eq_iff)

lemma activation_set_schedulerData [simp]: "activation (set_schedulerData c x w) = activation w"
  by (auto simp: activation_def set_schedulerData_def fun_eq_iff)

lemma w_places_getIdleCPU: "getIdleCPU w = (r, w') \<Longrightarrow> w_places w' = w_places w"
  by (auto simp: getIdleCPU_def Let_def split: option.splits)

section \<open>Schedulers that leave the activation status alone\<close>

locale activation_frame =
  fixes ops :: "'s scheduler_ops"
  assumes enable_keeps: "so_enableComputePlace ops s w c = Inr (s', w') \<Longrightarrow> activation w' = activation w"
    and disable_keeps: "so_disableComputePlace ops s w c = Inr (s', w') \<Longrightarrow> activation w' = activation w"
    and idle_keeps: "so_getIdleComputePlace ops s w force = (r, s', w') \<Longrightarrow> activation w' = activation w"
    and disable_empties: "so_disableComputePlace ops s w c = Inr (s', w') \<Longrightarrow> schedulerData w' c = None"
    and idle_data: "so_getIdleComputePlace ops s w force = (r, s', w') \<Longrightarrow> schedulerData w' = schedulerData w"
begin

lemma check_disabling:
  assumes th: "th_cpu (w_threads w th) = Some cpu" and st: "activation w cpu = disabling_status"
    and run: "activationCheck_iter ops th s w = Inr (out, s', w')"
  shows "activation w' = (activation w)(cpu := disabled_status) \<and> schedulerData w' cpu = None"
proof -
  obtain s1 w1 where dis: "so_disableComputePlace ops s (set_activation cpu disabled_status w) cpu = Inr (s1, w1)"
    using run th st by (auto simp: activationCheck_iter_def Scheduler_disableComputePlace_def)
  obtain idle s2 w2 where idle: "so_getIdleComputePlace ops s1 w1 False = (idle, s2, w2)"
    using prod_cases3 by blast
  have "activation w2 = (activation w)(cpu := disabled_status)" "schedulerData w2 cpu = None"
    using disable_keeps [OF dis] idle_keeps [OF idle] disable_empties [OF dis] idle_data [OF idle] by simp_all
  moreover have "w_places w' = w_places w2"
    using run th st dis idle
    by (auto simp: activationCheck_iter_def Scheduler_disableComputePlace_def
        Scheduler_getIdleComputePlace_def split: option.splits dest!: thread_ops_places(2) thread_sleeps_places)
  ultimately show ?thesis
    using activation_cong [of w' w2] by (simp add: schedulerData_def)
qed

lemma check_follows_automaton:
  assumes th: "th_cpu (w_threads w th) = Some cpu"
    and run: "activationCheck_iter ops th s w = Inr (out, s', w')"
  shows "activation w' = (activation w)(cpu := check_next (activation w cpu))"
proof (cases "activation w cpu")
  case disabling_status
  with check_disabling [OF th _ run] show ?thesis by simp
next
  case enabling_status
  then have "so_enableComputePlace ops s (set_activation cpu enabled_status w) cpu = Inr (s', w')"
    using run th by (simp add: activationCheck_iter_def Scheduler_enableComputePlace_def split: prod.splits)
  from enable_keeps [OF this] enabling_status show ?thesis by simp
next
  case disabled_status
  then have "w_places w' = w_places w"
    using run th by (auto simp: activationCheck_iter_def split: if_splits dest!: thread_sleeps_places)
  with disabled_status show ?thesis using activation_cong [of w' w] by (simp add: fun_upd_idem)
qed (use run th in \<open>auto simp: activationCheck_iter_def fun_upd_idem\<close>)

end

lemma Interface_enable_keeps:
  "Interface_enableComputePlace s w c = Inr (s', w') \<Longrightarrow> activation w' = activation w"
  by (simp add: Interface_enableComputePlace_def)

lemma IS_disable_keeps:
  "IS_disableComputePlace s w c = Inr (s', w') \<Longrightarrow> activation w' = activation w"
  "IS_disableComputePlace s w c = Inr (s', w') \<Longrightarrow> schedulerData w' c = None"
  by (auto simp: IS_disableComputePlace_def split: option.splits)

lemma ISP_disable_keeps:
  "ISP_disableComputePlace s w c = Inr (s', w') \<Longrightarrow> activation w' = activation w"
  "ISP_disableComputePlace s w c = Inr (s', w') \<Longrightarrow> schedulerData w' c = None"
  by (auto simp: ISP_disableComputePlace_def split: option.splits)

lemma IS_idle_keeps:
  "IS_getIdleComputePlace s w f = (r, s', w') \<Longrightarrow> activation w' = activation w"
  "IS_getIdleComputePlace s w f = (r, s', w') \<Longrightarrow> schedulerData w' = schedulerData w"
  by (auto simp: IS_getIdleComputePlace_def split: if_splits prod.splits
      dest: w_places_getIdleCPU getIdleCPU_keeps intro!: activation_cong)

lemma ISP_idle_keeps:
  "ISP_getIdleComputePlace s w f = (r, s', w') \<Longrightarrow> activation w' = activation w"
  "ISP_getIdleComputePlace s w f = (r, s', w') \<Longrightarrow> schedulerData w' = schedulerData w"
  by (auto simp: ISP_getIdleComputePlace_def split: if_splits prod.splits
      dest: w_places_getIdleCPU getIdleCPU_keeps intro!: activation_cong)

lemmas activation_keeps = Interface_enable_keeps IS_disable_keeps ISP_disable_keeps IS_idle_keeps
  ISP_idle_keeps

interpretation is_act: activation_frame IS_ops
  by unfold_locales (simp_all add: IS_ops_def activation_keeps)


interpretation fisp_act: activation_frame FISP_ops
  by unfold_locales (simp_all add: FISP_ops_def FISP_shared activation_keeps)

section \<open>Properties\<close>



text \<open>
  Whatever the order in which \<open>enable\<close>, \<open>disable\<close> and \<open>activationCheck\<close> act on a CPU that has
  started, the transitions that notify the scheduler alternate: a CPU is reported gone only after
  it was available and back only after it was gone, and the last report agrees with the status.
\<close>

lemma activation_notifications_alternate:
  assumes "act_run es enabled_status = (st, ns)"
  shows "alternates True ns \<and> told_enabled st = (ns = [] \<or> last ns)"
  using act_run_alternates [of enabled_status es st ns] assms by (auto simp: told_enabled_def)

text \<open>
  When a worker thread carries out the disabling of its CPU, the CPU ends up disabled, accepts
  no work and holds no immediate successor: the task it held is back in the scheduler.
\<close>

lemma disabled_CPU_holds_no_task:
  assumes "th_cpu (w_threads w th) = Some cpu" "activation w cpu = disabling_status"
    and "activationCheck_iter FISP_ops th s w = Inr (out, s', w')"
  shows "activation w' cpu = disabled_status \<and> \<not> acceptsWork (activation w' cpu) \<and>
    schedulerData w' cpu = None \<and>
    (\<forall>t. schedulerData w cpu = Some t \<longrightarrow> t \<in> set (iq_readyTasks s'))"
proof -
  note f = fisp_act.check_disabling [OF assms]
  have "t \<in> set (iq_readyTasks s')" if t: "schedulerData w cpu = Some t" for t
  proof -
    have "schedulerData (set_activation cpu disabled_status w) cpu = Some t"
      using t by (simp add: schedulerData_def set_activation_def)
    then show ?thesis
      using assms
      by (auto simp: activationCheck_iter_def Scheduler_disableComputePlace_def
          Scheduler_getIdleComputePlace_def FISP_ops_def FISP_disableComputePlace_def
          FISP_getIdleComputePlace_def split: option.splits prod.splits dest!: thread_sleeps_places)
  qed
  with f show ?thesis by simp
qed

definition disabling_world :: world where
  "disabling_world = set_activation 0 disabling_status (set_schedulerData 0 (Some 7)
     (upd_thread 0 (\<lambda>t. t\<lparr>th_cpu := Some 0\<rparr>) (plain_world 1)))"

end
