(* ===== verification/N6_Dependencies.thy ===== *)
theory N6_Dependencies
  imports N6_SchedulerInterface
begin

text \<open>
  The discrete dependency system: \<open>src/dependencies/discrete/DataAccess.hpp\<close>,
  \<open>DataAccessImplementation.hpp\<close>, \<open>DataAccessSequence(Implementation).hpp\<close>,
  \<open>DataAccessRegistration.hpp\<close> and \<open>RegisterDependencies.cpp\<close>. A \<open>DataAccess\<close> object contains the
  sequence of the accesses of its children (\<open>_subaccesses\<close>), so the accesses to one address form a
  forest: a list of trees for the root sequence, whose nodes are named by an identifier in place of
  the pointer. One lock protects the whole forest of an address, so every operation is one step.
  The back pointers \<open>_dataAccessSequence\<close> and \<open>_superAccess\<close>, which the source uses to climb, are
  the recursion of the definitions: \<open>ctx\<close> is the effective previous access of the first element of
  a sequence, as \<open>getEffectivePrevious\<close> finds it.
\<close>

section \<open>Accesses\<close>

record access_info =
  da_id :: nat
  da_type :: DataAccessType
  da_weak :: bool
  da_satisfied :: bool
  da_originator :: task_ref
  da_reductionInfo :: int

datatype access = Access (info: access_info) (subaccesses: "access list")

text \<open>
  The two overloads of \<open>evaluateSatisfiability\<close>. Their assertions only say that the types are among
  read, write, readwrite, concurrent and reduction, the types that \<open>register_access\<close> is called
  with.
\<close>

definition evaluateSatisfiability :: "access_info option \<Rightarrow> DataAccessType \<Rightarrow> bool" where
  "evaluateSatisfiability effectivePrevious nextAccessType =
     (case effectivePrevious of
        None \<Rightarrow> True
      | Some p \<Rightarrow>
          if \<not> da_satisfied p then False
          else if nextAccessType = WRITE_ACCESS_TYPE then False
          else if nextAccessType = READWRITE_ACCESS_TYPE then False
          else if nextAccessType = READ_ACCESS_TYPE then da_type p = READ_ACCESS_TYPE
          else da_type p = CONCURRENT_ACCESS_TYPE)"

definition evaluateSatisfiability_reduction :: "access_info option \<Rightarrow> int \<Rightarrow> bool" where
  "evaluateSatisfiability_reduction effectivePrevious reductionOperation =
     (case effectivePrevious of
        None \<Rightarrow> True
      | Some p \<Rightarrow>
          if \<not> da_satisfied p then False
          else da_type p = REDUCTION_ACCESS_TYPE \<and> da_reductionInfo p = reductionOperation)"

text \<open>The overload that is called for an access of a given type.\<close>

definition evaluate_for :: "access_info option \<Rightarrow> DataAccessType \<Rightarrow> int \<Rightarrow> bool" where
  "evaluate_for effectivePrevious type reductionInfo =
     (if type = REDUCTION_ACCESS_TYPE then evaluateSatisfiability_reduction effectivePrevious reductionInfo
      else evaluateSatisfiability effectivePrevious type)"

definition reevaluateSatisfiability :: "access_info option \<Rightarrow> access_info \<Rightarrow> bool \<times> access_info" where
  "reevaluateSatisfiability effectivePrevious a =
     (if da_satisfied a then (False, a)
      else (let s = evaluate_for effectivePrevious (da_type a) (da_reductionInfo a) in
            (s, a\<lparr>da_satisfied := s\<rparr>)))"

section \<open>Propagation\<close>

text \<open>
  \<open>reevaluateAndPropagateSatisfiability\<close> from an access to the end of its sequence; the second
  component is what it adds to \<open>satisfiedOriginators\<close>.
\<close>

fun reevaluateAndPropagateSatisfiability ::
  "access_info option \<Rightarrow> access list \<Rightarrow> access list \<times> task_ref list" where
  "reevaluateAndPropagateSatisfiability previous [] = ([], [])"
| "reevaluateAndPropagateSatisfiability previous (Access a subs # rest) =
     (let (becomesSatisfied, a') = reevaluateSatisfiability previous a in
      if becomesSatisfied
      then (let (subs', os) = (if da_weak a' then reevaluateAndPropagateSatisfiability previous subs
                               else (subs, [da_originator a']));
                (rest', os') = reevaluateAndPropagateSatisfiability (Some a') rest in
            (Access a' subs' # rest', os @ os'))
      else (Access a' subs # rest, []))"

section \<open>Unregistration\<close>

text \<open>
  \<open>unregisterDataAccess\<close> for an access with subaccesses \<open>subs\<close>, effective previous access \<open>ctx\<close> and
  successors \<open>rest\<close> in its sequence: the subaccesses take its place.
\<close>

definition splice_subaccesses ::
  "access_info option \<Rightarrow> access list \<Rightarrow> access list \<Rightarrow> access list \<times> task_ref list" where
  "splice_subaccesses ctx subs rest =
     (case rest of
        [] \<Rightarrow> (subs, [])
      | next # _ \<Rightarrow>
          if da_satisfied (info next) then (subs @ rest, [])
          else (let effectivePrevious = (if subs = [] then ctx else Some (info (last subs)));
                    (rest', os) = reevaluateAndPropagateSatisfiability effectivePrevious rest in
                (subs @ rest', os)))"

fun unregisterDataAccess ::
  "access_info option \<Rightarrow> nat \<Rightarrow> access list \<Rightarrow> (access list \<times> task_ref list) option" where
  "unregisterDataAccess ctx i [] = None"
| "unregisterDataAccess ctx i (Access a subs # rest) =
     (if da_id a = i then Some (splice_subaccesses ctx subs rest)
      else case unregisterDataAccess ctx i subs of
        Some (subs', os) \<Rightarrow> Some (Access a subs' # rest, os)
      | None \<Rightarrow>
          (case unregisterDataAccess (Some a) i rest of
             Some (rest', os) \<Rightarrow> Some (Access a subs # rest', os)
           | None \<Rightarrow> None))"

section \<open>Upgrades\<close>

text \<open>
  A task that accesses the same location again. The last access of the sequence is upgraded;
  \<open>prev\<close> is its effective previous access. The results are the accesses that take its place (a
  second one when the upgrade creates an additional access at the end of the sequence) and whether
  no further predecessor has to be counted.
\<close>

definition upgradeSameTypeAccess :: "access_info \<Rightarrow> bool \<Rightarrow> access_info list \<times> bool" where
  "upgradeSameTypeAccess a newAccessWeakness =
     ([if da_weak a \<noteq> newAccessWeakness then a\<lparr>da_weak := da_weak a \<and> newAccessWeakness\<rparr> else a], True)"

definition upgradeSameStrengthAccess ::
  "access_info option \<Rightarrow> access_info \<Rightarrow> DataAccessType \<Rightarrow> (access_info list \<times> bool) result" where
  "upgradeSameStrengthAccess prev a newAccessType =
     (if da_type a = READWRITE_ACCESS_TYPE then Inr ([a], True)
      else if da_type a = WRITE_ACCESS_TYPE
      then assert_that (newAccessType \<in> {READWRITE_ACCESS_TYPE, READ_ACCESS_TYPE})
             ''newAccessType is readwrite or read''
             (Inr ([a\<lparr>da_type := newAccessType\<rparr>], True))
      else assert_that (da_type a = READ_ACCESS_TYPE) ''dataAccess->_type == READ_ACCESS_TYPE''
             (assert_that (newAccessType \<in> {WRITE_ACCESS_TYPE, READWRITE_ACCESS_TYPE})
                ''newAccessType is write or readwrite''
                (let a1 = a\<lparr>da_type := READWRITE_ACCESS_TYPE\<rparr> in
                 if da_satisfied a1
                 then (let s = evaluateSatisfiability prev (da_type a1) in
                       Inr ([a1\<lparr>da_satisfied := s\<rparr>], s))
                 else Inr ([a1], True))))"

definition upgradeStrongAccessWithWeak ::
  "nat \<Rightarrow> access_info \<Rightarrow> DataAccessType \<Rightarrow> (access_info list \<times> bool) result" where
  "upgradeStrongAccessWithWeak newId a newAccessType =
     (if da_type a = READWRITE_ACCESS_TYPE then Inr ([a], True)
      else if da_type a = WRITE_ACCESS_TYPE
      then assert_that (newAccessType \<in> {READWRITE_ACCESS_TYPE, READ_ACCESS_TYPE})
             ''newAccessType is readwrite or read''
             (Inr ([a\<lparr>da_type := newAccessType\<rparr>], True))
      else assert_that (da_type a = READ_ACCESS_TYPE) ''dataAccess->_type == READ_ACCESS_TYPE''
             (if newAccessType = READ_ACCESS_TYPE then Inr ([a], True)
              else (let s = evaluateSatisfiability (Some a) newAccessType in
                    Inr ([a, \<lparr>da_id = newId, da_type = newAccessType, da_weak = True, da_satisfied = s,
                              da_originator = da_originator a, da_reductionInfo = 0\<rparr>], s))))"

text \<open>
  The instrumentation call of the last branch dereferences \<open>effectivePrevious\<close> without a test for
  null; the model returns an error there.
\<close>

definition upgradeWeakAccessWithStrong ::
  "nat \<Rightarrow> access_info option \<Rightarrow> access_info \<Rightarrow> DataAccessType \<Rightarrow> (access_info list \<times> bool) result" where
  "upgradeWeakAccessWithStrong newId prev a newAccessType =
     (if newAccessType \<noteq> READ_ACCESS_TYPE
      then assert_that (da_type a \<noteq> WRITE_ACCESS_TYPE \<or> newAccessType \<noteq> WRITE_ACCESS_TYPE)
             ''not both write''
             (let a1 = a\<lparr>da_type := READWRITE_ACCESS_TYPE, da_weak := False\<rparr> in
              if da_satisfied a1
              then (let s = evaluateSatisfiability prev (da_type a1) in
                    Inr ([a1\<lparr>da_satisfied := s\<rparr>], s))
              else Inr ([a1], True))
      else if da_type a = READ_ACCESS_TYPE
      then Inr ([a\<lparr>da_weak := False\<rparr>], da_satisfied a)
      else (let s = evaluateSatisfiability prev newAccessType in
            if prev = None then Inl (AssertFailed ''null effectivePrevious dereferenced'')
            else Inr ([a\<lparr>da_type := READ_ACCESS_TYPE, da_weak := False, da_satisfied := s\<rparr>,
                       \<lparr>da_id = newId, da_type = da_type a, da_weak = True, da_satisfied = False,
                        da_originator = da_originator a, da_reductionInfo = 0\<rparr>], s)))"

definition upgradeAccess ::
  "nat \<Rightarrow> access_info option \<Rightarrow> access_info \<Rightarrow> DataAccessType \<Rightarrow> bool \<Rightarrow> (access_info list \<times> bool) result" where
  "upgradeAccess newId prev a newAccessType newAccessWeakness =
     fail_if (da_type a = CONCURRENT_ACCESS_TYPE \<or> newAccessType = CONCURRENT_ACCESS_TYPE)
       ''Combining accesses of type concurrent with other accesses over the same data is not permitted''
       (if da_type a = newAccessType then Inr (upgradeSameTypeAccess a newAccessWeakness)
        else if da_weak a = newAccessWeakness then upgradeSameStrengthAccess prev a newAccessType
        else if \<not> da_weak a then upgradeStrongAccessWithWeak newId a newAccessType
        else upgradeWeakAccessWithStrong newId prev a newAccessType)"

section \<open>Registration\<close>

text \<open>
  \<open>registerTaskDataAccess\<close> on one sequence. The result is the new sequence, the new access to be
  added to the task's list (None for the null pointer that an upgrade leaves) and whether the
  access can start.
\<close>

definition registerTaskDataAccess ::
  "nat \<Rightarrow> task_ref \<Rightarrow> DataAccessType \<Rightarrow> bool \<Rightarrow> int \<Rightarrow> access_info option \<Rightarrow> access list \<Rightarrow>
     (access list \<times> nat option \<times> bool) result" where
  "registerTaskDataAccess newId task accessType weak reductionInfo ctx seq =
     (if seq \<noteq> [] \<and> da_originator (info (last seq)) = task
      then (let prev = (if butlast seq = [] then ctx else Some (info (last (butlast seq)))) in
            result_bind (upgradeAccess newId prev (info (last seq)) accessType weak)
              (\<lambda>(as, canStart).
                Inr (butlast seq @
                       (case as of
                          [] \<Rightarrow> []
                        | a # created \<Rightarrow> Access a (subaccesses (last seq)) # map (\<lambda>b. Access b []) created),
                     None, canStart)))
      else (let effectivePrevious = (if seq = [] then ctx else Some (info (last seq)));
                satisfied = evaluate_for effectivePrevious accessType reductionInfo;
                a = \<lparr>da_id = newId, da_type = accessType, da_weak = weak, da_satisfied = satisfied,
                     da_originator = task, da_reductionInfo = reductionInfo\<rparr> in
            Inr (seq @ [Access a []], Some newId, satisfied \<or> weak)))"

text \<open>The same on the subaccesses of the access named \<open>i\<close>.\<close>

fun register_below ::
  "(access_info option \<Rightarrow> access list \<Rightarrow> (access list \<times> 'r) result) \<Rightarrow> access_info option \<Rightarrow> nat \<Rightarrow>
     access list \<Rightarrow> (access list \<times> 'r) result option" where
  "register_below f ctx i [] = None"
| "register_below f ctx i (Access a subs # rest) =
     (if da_id a = i
      then Some (result_bind (f ctx subs) (\<lambda>(subs', r). Inr (Access a subs' # rest, r)))
      else case register_below f ctx i subs of
        Some res \<Rightarrow> Some (result_bind res (\<lambda>(subs', r). Inr (Access a subs' # rest, r)))
      | None \<Rightarrow>
          (case register_below f (Some a) i rest of
             Some res \<Rightarrow> Some (result_bind res (\<lambda>(rest', r). Inr (Access a subs # rest', r)))
           | None \<Rightarrow> None))"

section \<open>Tasks and their accesses\<close>

text \<open>
  A region of this dependency system is its start address. The root sequence of an address is in
  the dependency domain of the thread that registers the access. \<open>ds_accesses\<close> is the list of
  accesses of a task, each with the root sequence it belongs to and its name.
\<close>

type_synonym address = nat
type_synonym root_key = "thread_ref \<times> address"

record dep_state =
  ds_seq :: "root_key \<Rightarrow> access list"
  ds_accesses :: "task_ref \<Rightarrow> (root_key \<times> nat) list"
  ds_nextId :: nat

definition find_parent_access :: "(root_key \<times> nat) list \<Rightarrow> address \<Rightarrow> (root_key \<times> nat) option" where
  "find_parent_access accesses addr = find (\<lambda>((th, ad), i). ad = addr) accesses"

text \<open>
  \<open>register_access<ACCESS_TYPE, WEAK>\<close> called on \<open>thread\<close> for \<open>task\<close>.
\<close>

definition register_access ::
  "DataAccessType \<Rightarrow> bool \<Rightarrow> thread_ref \<Rightarrow> task_ref \<Rightarrow> address \<Rightarrow> int \<Rightarrow> dep_state \<times> world \<Rightarrow>
     (dep_state \<times> world) result" where
  "register_access accessType WEAK thread task start reductionInfo = (\<lambda>(d, w).
     (let t = w_tasks w task;
          weak = (WEAK \<and> \<not> isFinal t \<and> \<not> isTaskloop t);
          newId = ds_nextId d;
          reg = registerTaskDataAccess newId task accessType weak reductionInfo;
          parentAccess = (case t_parent t of
                            None \<Rightarrow> None
                          | Some p \<Rightarrow> find_parent_access (ds_accesses d p) start);
          (key, res) = (case parentAccess of
                          Some (k, i) \<Rightarrow> (k, register_below reg None i (ds_seq d k))
                        | None \<Rightarrow> ((thread, start), Some (reg None (ds_seq d (thread, start))))) in
      case res of
        None \<Rightarrow> Inl (AssertFailed ''parent access not in its sequence'')
      | Some r \<Rightarrow>
          result_bind r (\<lambda>(seq, dataAccess, canStart).
            let d1 = d\<lparr>ds_seq := (ds_seq d)(key := seq), ds_nextId := Suc newId,
                       ds_accesses := (case dataAccess of
                          None \<Rightarrow> ds_accesses d
                        | Some i \<Rightarrow> (ds_accesses d)(task := ds_accesses d task @ [(key, i)]))\<rparr> in
            Inr (d1, if canStart then w else upd_task task (increasePredecessors 1) w))))"

text \<open>
  \<open>registerTaskDataAccesses\<close>; \<open>depinfo\<close> lists the calls that the task's \<open>register_depinfo\<close> makes.
\<close>

record access_request =
  ar_type :: DataAccessType
  ar_weak :: bool
  ar_address :: address
  ar_reductionInfo :: int

fun register_all ::
  "access_request list \<Rightarrow> thread_ref \<Rightarrow> task_ref \<Rightarrow> dep_state \<times> world \<Rightarrow> (dep_state \<times> world) result" where
  "register_all [] thread task dw = Inr dw"
| "register_all (r # rs) thread task dw =
     result_bind (register_access (ar_type r) (ar_weak r) thread task (ar_address r) (ar_reductionInfo r) dw)
       (register_all rs thread task)"

definition registerTaskDataAccesses ::
  "access_request list \<Rightarrow> thread_ref \<Rightarrow> task_ref \<Rightarrow> dep_state \<times> world \<Rightarrow> (bool \<times> dep_state \<times> world) result" where
  "registerTaskDataAccesses depinfo thread task dw =
     result_bind (register_all depinfo thread task (fst dw, upd_task task (increasePredecessors 2) (snd dw)))
       (\<lambda>(d, w).
         let (ready, t') = decreasePredecessors 2 (w_tasks w task) in
         Inr (ready, d, upd_task task (\<lambda>_. t') w))"

fun processSatisfiedOriginators ::
  "'s scheduler_ops \<Rightarrow> cpu_ref \<Rightarrow> task_ref list \<Rightarrow> 's \<Rightarrow> world \<Rightarrow> ('s \<times> world) result" where
  "processSatisfiedOriginators ops cpu [] s w = Inr (s, w)"
| "processSatisfiedOriginators ops cpu (t # ts) s w =
     (let (becomesReady, t') = decreasePredecessors 1 (w_tasks w t);
          w1 = upd_task t (\<lambda>_. t') w in
      if becomesReady
      then result_bind (Scheduler_addReadyTask ops s w1 t (Some cpu) SIBLING_TASK_HINT)
             (\<lambda>(idle, s2, w2).
               result_bind (case idle of None \<Rightarrow> Inr w2
                                       | Some c \<Rightarrow> result_bind (resumeIdle c False w2) (\<lambda>(_, w3). Inr w3))
                 (\<lambda>w3. processSatisfiedOriginators ops cpu ts s2 w3))
      else processSatisfiedOriginators ops cpu ts s w1)"

fun unregister_list ::
  "'s scheduler_ops \<Rightarrow> cpu_ref \<Rightarrow> (root_key \<times> nat) list \<Rightarrow> dep_state \<Rightarrow> 's \<Rightarrow> world \<Rightarrow>
     (dep_state \<times> 's \<times> world) result" where
  "unregister_list ops cpu [] d s w = Inr (d, s, w)"
| "unregister_list ops cpu ((key, i) # rest) d s w =
     (case unregisterDataAccess None i (ds_seq d key) of
        None \<Rightarrow> Inl (AssertFailed ''access not in its sequence'')
      | Some (seq, satisfiedOriginators) \<Rightarrow>
          result_bind (processSatisfiedOriginators ops cpu satisfiedOriginators s w)
            (\<lambda>(s1, w1). unregister_list ops cpu rest (d\<lparr>ds_seq := (ds_seq d)(key := seq)\<rparr>) s1 w1))"

definition unregisterTaskDataAccesses ::
  "'s scheduler_ops \<Rightarrow> cpu_ref \<Rightarrow> task_ref \<Rightarrow> dep_state \<Rightarrow> 's \<Rightarrow> world \<Rightarrow>
     (dep_state \<times> 's \<times> world) result" where
  "unregisterTaskDataAccesses ops cpu task d s w =
     result_bind (unregister_list ops cpu (ds_accesses d task) d s w)
       (\<lambda>(d1, s1, w1). Inr (d1\<lparr>ds_accesses := (ds_accesses d1)(task := [])\<rparr>, s1, w1))"

end
