(* ===== verification/N6_DependencyProofs.thy ===== *)
theory N6_DependencyProofs
  imports N6_Dependencies
begin

text \<open>
  Correctness of the discrete dependency system. The invariant of the forest of accesses to an
  address has three parts: its shape, soundness (a satisfied access was allowed to be satisfied by
  its effective previous access) and progress (an access with nothing before it is satisfied).
  Registration and unregistration keep it; it gives mutual exclusion and progress.
\<close>

section \<open>Kinds of accesses\<close>

text \<open>Accesses of the same shareable kind may be satisfied together.\<close>

definition shareable :: "access_info \<Rightarrow> bool" where
  "shareable a = (da_type a \<in> {READ_ACCESS_TYPE, CONCURRENT_ACCESS_TYPE, REDUCTION_ACCESS_TYPE})"

definition same_kind :: "access_info \<Rightarrow> access_info \<Rightarrow> bool" where
  "same_kind a b \<longleftrightarrow> shareable a \<and> da_type b = da_type a \<and>
     (da_type a = REDUCTION_ACCESS_TYPE \<longrightarrow> da_reductionInfo b = da_reductionInfo a)"

definition supported :: "access_info \<Rightarrow> bool" where
  "supported a = (da_type a \<notin> {NO_ACCESS_TYPE, COMMUTATIVE_ACCESS_TYPE})"

text \<open>A task declares for its children nothing that it has not declared itself.\<close>

definition included :: "access_info \<Rightarrow> access_info \<Rightarrow> bool" where
  "included a b = (shareable a \<longrightarrow> same_kind a b)"

definition allowed :: "access_info option \<Rightarrow> access_info \<Rightarrow> bool" where
  "allowed ctx a = evaluate_for ctx (da_type a) (da_reductionInfo a)"

lemma allowed_None [simp]: "allowed None a"
  by (simp add: allowed_def evaluate_for_def evaluateSatisfiability_def evaluateSatisfiability_reduction_def)

lemma allowed_Some [simp]:
  "supported a \<Longrightarrow> allowed (Some p) a \<longleftrightarrow> da_satisfied p \<and> same_kind p a"
  by (cases "da_type a"; cases "da_type p")
    (auto simp: allowed_def evaluate_for_def evaluateSatisfiability_def
      evaluateSatisfiability_reduction_def same_kind_def shareable_def supported_def)

lemma same_kind_trans: "same_kind a b \<Longrightarrow> same_kind b c \<Longrightarrow> same_kind a c"
  by (auto simp: same_kind_def)

lemma same_kind_sym: "same_kind a b \<Longrightarrow> same_kind b a"
  by (auto simp: same_kind_def shareable_def)

lemma same_kind_shareable: "same_kind a b \<Longrightarrow> shareable a" "same_kind a b \<Longrightarrow> shareable b"
  by (auto simp: same_kind_def shareable_def)

lemma allowed_kind: "same_kind a b \<Longrightarrow> allowed ctx a = allowed ctx b"
  by (auto simp: allowed_def evaluate_for_def same_kind_def evaluateSatisfiability_reduction_def)

lemma allowed_satisfied [simp]: "allowed ctx (a\<lparr>da_satisfied := s\<rparr>) = allowed ctx a"
  by (simp add: allowed_def)

lemma kind_satisfied [simp]:
  "shareable (a\<lparr>da_satisfied := s\<rparr>) = shareable a"
  "supported (a\<lparr>da_satisfied := s\<rparr>) = supported a"
  "same_kind (a\<lparr>da_satisfied := s\<rparr>) b = same_kind a b"
  "same_kind b (a\<lparr>da_satisfied := s\<rparr>) = same_kind b a"
  "included (a\<lparr>da_satisfied := s\<rparr>) b = included a b"
  "included b (a\<lparr>da_satisfied := s\<rparr>) = included b a"
  by (auto simp: shareable_def supported_def same_kind_def included_def)

lemma included_trans: "included q a \<Longrightarrow> included a b \<Longrightarrow> included q b"
  by (auto simp: included_def dest: same_kind_trans same_kind_shareable)

section \<open>The invariant\<close>

fun nodes :: "access list \<Rightarrow> access_info list" where
  "nodes [] = []"
| "nodes (Access a subs # rest) = a # nodes subs @ nodes rest"

fun shape :: "access list \<Rightarrow> bool" where
  "shape [] = True"
| "shape (Access a subs # rest) =
     (supported a \<and> (\<not> da_weak a \<and> \<not> da_satisfied a \<longrightarrow> subs = []) \<and>
      (\<forall>b \<in> set subs. included a (info b)) \<and> shape subs \<and> shape rest)"

fun sound :: "access_info option \<Rightarrow> access list \<Rightarrow> bool" where
  "sound ctx [] = True"
| "sound ctx (Access a subs # rest) =
     ((da_satisfied a \<longrightarrow> allowed ctx a) \<and> sound ctx subs \<and> sound (Some a) rest)"

text \<open>
  \<open>progress h n p\<close>: \<open>h\<close> says that the sequence belongs to an access of a shareable kind, \<open>n\<close> that
  the first element has no effective previous access, \<open>p\<close> that the element before it in the
  sequence is satisfied.
\<close>

fun progress :: "bool \<Rightarrow> bool \<Rightarrow> bool \<Rightarrow> access list \<Rightarrow> bool" where
  "progress h n p [] = True"
| "progress h n p (Access a subs # rest) =
     ((n \<or> h \<and> p \<longrightarrow> da_satisfied a) \<and>
      (da_satisfied a \<and> shareable a \<and> subs \<noteq> [] \<longrightarrow> da_satisfied (info (hd subs))) \<and>
      progress (shareable a) n False subs \<and> progress h False (da_satisfied a) rest)"

definition dep_inv :: "access list \<Rightarrow> bool" where
  "dep_inv l = (shape l \<and> sound None l \<and> progress False True False l)"

fun uniform :: "access_info \<Rightarrow> access list \<Rightarrow> bool" where
  "uniform k [] = True"
| "uniform k (Access a subs # rest) =
     (da_satisfied a \<and> same_kind k a \<and> uniform k subs \<and> uniform k rest)"

lemma uniform_nodes: "uniform k l \<longleftrightarrow> (\<forall>x \<in> set (nodes l). da_satisfied x \<and> same_kind k x)"
  by (induction k l rule: uniform.induct) auto

lemma shape_append [simp]: "shape (xs @ ys) \<longleftrightarrow> shape xs \<and> shape ys"
  by (induction xs rule: shape.induct) auto

definition ctx_after :: "access_info option \<Rightarrow> access list \<Rightarrow> access_info option" where
  "ctx_after ctx xs = (if xs = [] then ctx else Some (info (last xs)))"

lemma ctx_after_simps [simp]:
  "ctx_after ctx [] = ctx"
  "ctx_after ctx (x # xs) = ctx_after (Some (info x)) xs"
  by (simp_all add: ctx_after_def)

lemma sound_append [simp]: "sound ctx (xs @ ys) \<longleftrightarrow> sound ctx xs \<and> sound (ctx_after ctx xs) ys"
  by (induction ctx xs rule: sound.induct) auto

lemma progress_append [simp]:
  "progress h n p (xs @ ys) \<longleftrightarrow>
   progress h n p xs \<and> progress h (n \<and> xs = []) (if xs = [] then p else da_satisfied (info (last xs))) ys"
  by (induction h n p xs rule: progress.induct) auto

text \<open>The accesses below a satisfied access of a shareable kind are all satisfied and of that kind.\<close>

lemma homogeneous_uniform:
  "progress True n p l \<Longrightarrow> shape l \<Longrightarrow> (\<forall>x \<in> set l. same_kind k (info x)) \<Longrightarrow>
   (l \<noteq> [] \<longrightarrow> da_satisfied (info (hd l))) \<Longrightarrow> uniform k l"
proof (induction "True" n p l rule: progress.induct)
  case (2 n p a subs rest)
  have a: "da_satisfied a" "same_kind k a" "shareable a"
    using 2(4-6) by (auto dest: same_kind_shareable)
  have "\<forall>x \<in> set subs. same_kind k (info x)"
    using 2(4) a by (auto simp: included_def dest: same_kind_trans)
  then have "uniform k subs"
    using 2(1) 2(3-5) a by simp
  moreover have "uniform k rest"
    using 2(2) 2(3-6) a by (cases rest rule: shape.cases) auto
  ultimately show ?case using a by simp
qed simp

lemma satisfied_uniform:
  assumes "progress (shareable a) n False subs" "shape subs" "\<forall>b \<in> set subs. included a (info b)"
    and "shareable a" "subs \<noteq> [] \<longrightarrow> da_satisfied (info (hd subs))"
  shows "uniform a subs"
  using homogeneous_uniform [of n False subs a] assms by (auto simp: included_def)

lemma uniform_progress: "uniform k l \<Longrightarrow> progress h n p l"
  by (induction k l arbitrary: h n p rule: uniform.induct) (auto elim: uniform.elims)

lemma uniform_sound: "uniform k l \<Longrightarrow> shape l \<Longrightarrow> allowed ctx k \<Longrightarrow> sound ctx l"
proof (induction k l arbitrary: ctx rule: uniform.induct)
  case (2 k a subs rest)
  then have "allowed ctx a" "supported a" "same_kind a k" "da_satisfied a"
    using allowed_kind same_kind_sym by auto
  moreover have "supported k" using 2(3) by (auto simp: same_kind_def supported_def shareable_def)
  ultimately show ?case using 2 by simp
qed simp

section \<open>Changing the effective previous access\<close>

text \<open>\<open>ctx'\<close> allows whatever \<open>ctx\<close> allows.\<close>

definition permits :: "access_info option \<Rightarrow> access_info option \<Rightarrow> bool" where
  "permits ctx ctx' \<longleftrightarrow> (\<forall>a. supported a \<longrightarrow> allowed ctx a \<longrightarrow> allowed ctx' a)"

lemma sound_permits: "sound ctx l \<Longrightarrow> shape l \<Longrightarrow> permits ctx ctx' \<Longrightarrow> sound ctx' l"
  by (induction ctx l arbitrary: ctx' rule: sound.induct) (auto simp: permits_def)

lemma permits_unsatisfied: "\<not> da_satisfied a \<Longrightarrow> permits (Some a) ctx"
  by (simp add: permits_def)

lemma permits_removed:
  assumes "sound ctx (Access a subs # rest)" "shape (Access a subs # rest)"
    and "progress h n p (Access a subs # rest)"
  shows "permits (Some a) (ctx_after ctx subs)"
proof (cases "da_satisfied a")
  case True
  have "allowed (ctx_after ctx subs) x" if x: "supported x" "allowed (Some a) x" for x
  proof (cases "subs = []")
    case empty: True
    have "allowed ctx a" using assms(1) True by simp
    with empty x show ?thesis using allowed_kind by auto
  next
    case False
    have kind: "same_kind a x" using x by simp
    have "uniform a subs"
      using assms True kind by (intro satisfied_uniform [of a n]) (auto dest: same_kind_shareable)
    moreover have "info (last subs) \<in> set (nodes subs)"
      using False by (induction subs rule: nodes.induct) (auto split: if_splits)
    ultimately show ?thesis
      using False x kind by (auto simp: uniform_nodes ctx_after_def intro: same_kind_trans [OF same_kind_sym])
  qed
  then show ?thesis by (simp add: permits_def)
next
  case False
  then show ?thesis by (rule permits_unsatisfied)
qed

section \<open>Propagation\<close>

text \<open>Propagation changes satisfiability only.\<close>

definition core :: "access_info \<Rightarrow> access_info" where
  "core a = a\<lparr>da_satisfied := False\<rparr>"

lemma core_simps [simp]:
  "core (a\<lparr>da_satisfied := s\<rparr>) = core a"
  "da_id (core a) = da_id a"
  by (simp_all add: core_def)

abbreviation rprop :: "access_info option \<Rightarrow> access list \<Rightarrow> access list \<times> task_ref list" where
  "rprop \<equiv> reevaluateAndPropagateSatisfiability"

lemma rprop_Cons:
  "rprop ctx (Access a subs # rest) =
     (if \<not> da_satisfied a \<and> allowed ctx a
      then (let a' = a\<lparr>da_satisfied := True\<rparr>;
                (subs', os) = (if da_weak a then rprop ctx subs else (subs, [da_originator a]));
                (rest', os') = rprop (Some a') rest in
            (Access a' subs' # rest', os @ os'))
      else (Access a subs # rest, []))"
  by (auto simp: reevaluateSatisfiability_def allowed_def Let_def split: prod.splits)

declare reevaluateAndPropagateSatisfiability.simps(2) [simp del]

text \<open>A step of the propagation, and induction over forests.\<close>

lemma rprop_step:
  assumes "rprop ctx (Access a subs # rest) = (l', os)"
  obtains (stop) "da_satisfied a \<or> \<not> allowed ctx a" "l' = Access a subs # rest" "os = []"
  | (go) a' subs' os1 rest' os2 where
      "\<not> da_satisfied a" "allowed ctx a" "a' = a\<lparr>da_satisfied := True\<rparr>"
      "l' = Access a' subs' # rest'" "os = os1 @ os2"
      "da_weak a \<Longrightarrow> rprop ctx subs = (subs', os1)"
      "\<not> da_weak a \<Longrightarrow> subs' = subs \<and> os1 = [da_originator a]"
      "rprop (Some a') rest = (rest', os2)"
  using assms
  by (auto simp: rprop_Cons Let_def split: if_splits prod.splits)

lemmas forest_induct = nodes.induct

lemma rprop_core: "rprop ctx l = (l', os) \<Longrightarrow> map (core \<circ> info) l' = map (core \<circ> info) l"
proof (induction l arbitrary: ctx l' os rule: forest_induct)
  case (2 a subs rest)
  from 2(3) show ?case
    by (cases rule: rprop_step) (use 2(2) in \<open>auto simp: core_def\<close>)
qed simp

lemma rprop_empty: "rprop ctx l = (l', os) \<Longrightarrow> l' = [] \<longleftrightarrow> l = []"
  using rprop_core by (metis map_is_Nil_conv)

lemma core_kind:
  assumes "core a = core b"
  shows "same_kind k a = same_kind k b" "included k a = included k b" "shareable a = shareable b"
  using assms kind_satisfied unfolding core_def by metis+

lemma rprop_included:
  assumes "rprop ctx l = (l', os)" "\<forall>b \<in> set l. included k (info b)"
  shows "\<forall>b \<in> set l'. included k (info b)"
proof
  fix b assume "b \<in> set l'"
  then have "core (info b) \<in> set (map (core \<circ> info) l')" by auto
  then obtain c where "c \<in> set l" "core (info b) = core (info c)"
    unfolding rprop_core [OF assms(1)] by auto
  with assms(2) core_kind(2) show "included k (info b)" by metis
qed

lemma rprop_shape: "rprop ctx l = (l', os) \<Longrightarrow> shape l \<Longrightarrow> shape l'"
proof (induction l arbitrary: ctx l' os rule: forest_induct)
  case (2 a subs rest)
  from 2(3) show ?case
  proof (cases rule: rprop_step)
    case stop
    with 2(4) show ?thesis by simp
  next
    case (go a' subs' os1 rest' os2)
    have "shape subs' \<and> (\<forall>b \<in> set subs'. included a (info b))"
      using 2(1) 2(4) go rprop_included [of ctx subs subs' os1 a] by (cases "da_weak a") auto
    with go 2(2,4) show ?thesis by auto
  qed
qed simp

text \<open>
  The main lemma: propagating from a new effective previous access that permits what the old one
  did makes the sequence sound and progressing under the new one.
\<close>

lemma rprop_hd:
  assumes "rprop ctx l = (l', os)" "l \<noteq> []" "allowed ctx (info (hd l))"
  shows "da_satisfied (info (hd l'))"
proof (cases l rule: nodes.cases)
  case (2 a subs rest)
  from assms(1) [unfolded 2] show ?thesis
    by (cases rule: rprop_step) (use assms(3) 2 in auto)
qed (use assms in simp)

lemma rprop_inv:
  assumes "rprop ctx l = (l', os)" "shape l" "sound (Some q) l" "progress h False p l"
    and "permits (Some q) ctx" "h \<longrightarrow> (\<exists>k. \<forall>x \<in> set l. same_kind k (info x))"
    and "h \<and> p' \<and> l \<noteq> [] \<longrightarrow> allowed ctx (info (hd l))"
  shows "sound ctx l' \<and> progress h (ctx = None) p' l'"
  using assms
proof (induction l arbitrary: ctx q h p p' l' os rule: forest_induct)
  case (2 a subs rest)
  have sup: "supported a" using 2(4) by simp
  have hd': "ctx = None \<or> h \<and> p' \<longrightarrow> allowed ctx a" using 2(9) by auto
  from 2(3) show ?case
  proof (cases rule: rprop_step)
    case stop
    have snd: "sound ctx (Access a subs # rest)" by (rule sound_permits [OF 2(5,4,7)])
    have "progress (shareable a) (ctx = None) False subs"
    proof (cases "da_satisfied a")
      case True
      then have "shareable a" using 2(5) sup by (auto dest: same_kind_shareable)
      with True have "uniform a subs" using 2(4,6) by (intro satisfied_uniform) auto
      then show ?thesis by (rule uniform_progress)
    next
      case False
      with stop have n: "(ctx = None) = False" by (cases ctx) auto
      show ?thesis unfolding n using 2(6) by simp
    qed
    then show ?thesis using 2(6) snd stop hd' by auto
  next
    case (go a' subs' os1 rest' os2)
    have sub: "sound ctx subs' \<and> progress (shareable a) (ctx = None) False subs'"
    proof (cases "da_weak a")
      case True
      have hom: "shareable a \<longrightarrow> (\<exists>k. \<forall>x \<in> set subs. same_kind k (info x))"
        using 2(4) by (auto simp: included_def)
      show ?thesis
        using 2(1) [of ctx subs' os1 q "shareable a" False False] go True 2(4-7) hom by auto
    next
      case False
      then show ?thesis using go 2(4) by auto
    qed
    have rest: "sound (Some a') rest' \<and> progress h False True rest'"
    proof -
      have "h \<and> rest \<noteq> [] \<longrightarrow> allowed (Some a') (info (hd rest))"
      proof
        assume h: "h \<and> rest \<noteq> []"
        then obtain k where "same_kind k a" "same_kind k (info (hd rest))"
          using 2(8) by (metis hd_in_set insert_iff list.set(2) access.sel(1))
        then have "same_kind a (info (hd rest))" using same_kind_sym same_kind_trans by blast
        moreover have "supported (info (hd rest))"
          using h 2(4) by (cases rest rule: nodes.cases) auto
        ultimately show "allowed (Some a') (info (hd rest))" using go by simp
      qed
      moreover have "h \<longrightarrow> (\<exists>k. \<forall>x \<in> set rest. same_kind k (info x))" using 2(8) by auto
      ultimately show ?thesis
        using 2(2) [OF go(8), of a h False True] 2(4-6) go(1) permits_unsatisfied by auto
    qed
    have "subs' \<noteq> [] \<and> shareable a \<longrightarrow> da_satisfied (info (hd subs'))"
    proof (cases "da_weak a")
      case True
      have "allowed ctx (info (hd subs))" if "shareable a" "subs \<noteq> []"
        using that 2(4) go(2) allowed_kind [of a "info (hd subs)" ctx] by (simp add: included_def)
      with True go(6) rprop_hd rprop_empty show ?thesis by metis
    next
      case False
      then show ?thesis using go 2(4) by auto
    qed
    with go sub rest show ?thesis by auto
  qed
qed simp

section \<open>Unregistration keeps the invariant\<close>

lemma progress_change:
  assumes "progress h1 n p1 l" "h \<longrightarrow> h1" "l \<noteq> [] \<and> h \<and> p \<longrightarrow> da_satisfied (info (hd l))"
  shows "progress h n p l"
  using assms
proof (induction l arbitrary: h h1 n p p1 rule: forest_induct)
  case (2 a subs rest)
  have "progress h False (da_satisfied a) rest"
    using 2(2) [of h1 False "da_satisfied a" h "da_satisfied a"] 2(3,4)
    by (cases rest rule: nodes.cases) auto
  with 2(3-5) show ?case by auto
qed simp

lemma progress_satisfied_head:
  assumes "progress h False p l" "sound (Some q) l" "shape l" "l \<noteq> []" "da_satisfied (info (hd l))"
  shows "progress h n p' l"
proof (cases l rule: nodes.cases)
  case (2 a subs rest)
  have "shareable a" using assms 2 by (auto dest: same_kind_shareable)
  then have "uniform a subs" using assms 2 by (intro satisfied_uniform) auto
  then show ?thesis using assms 2 uniform_progress by auto
qed (use assms in simp)

definition kinds_below :: "access list \<Rightarrow> access list \<Rightarrow> bool" where
  "kinds_below l l' \<longleftrightarrow>
     (\<forall>q. (\<forall>x \<in> set l. included q (info x)) \<longrightarrow> (\<forall>x \<in> set l'. included q (info x)))"

lemma splice_allowed:
  assumes "shape (Access a subs # rest)" "progress h n p (Access a subs # rest)"
    and "h \<longrightarrow> (\<exists>k. \<forall>x \<in> set (Access a subs # rest). same_kind k (info x))"
    and "rest = Access b bs # rest1" "h \<longrightarrow> \<not> da_satisfied a"
  shows "h \<and> (if subs = [] then p else da_satisfied (info (last subs))) \<longrightarrow> allowed (ctx_after ctx subs) b"
proof (cases "subs = []")
  case True
  then show ?thesis using assms(2,5) by auto
next
  case False
  have "same_kind (info (last subs)) b" if hh: h
  proof -
    obtain k where k: "same_kind k a" "same_kind k b" using assms(3,4) hh by auto
    have "included a (info (last subs))" using assms(1) False by simp
    then have "same_kind a (info (last subs))"
      using same_kind_shareable(2) [OF k(1)] by (simp add: included_def)
    then show ?thesis using k same_kind_sym same_kind_trans by blast
  qed
  then show ?thesis using False assms(1,4) by (auto simp: ctx_after_def)
qed

lemma splice_inv:
  assumes res: "splice_subaccesses ctx subs rest = (l', os)"
    and shp: "shape (Access a subs # rest)" and snd: "sound ctx (Access a subs # rest)"
    and prg: "progress h (ctx = None) p (Access a subs # rest)"
    and hom: "h \<longrightarrow> (\<exists>k. \<forall>x \<in> set (Access a subs # rest). same_kind k (info x))"
  shows "shape l' \<and> sound ctx l' \<and> progress h (ctx = None) p l' \<and> kinds_below (Access a subs # rest) l' \<and>
    (h \<and> da_satisfied a \<and> l' \<noteq> [] \<longrightarrow> da_satisfied (info (hd l')))"
proof -
  have sh: "h \<longrightarrow> shareable a" using hom same_kind_shareable by fastforce
  have pre: "progress h (ctx = None) p subs"
    using prg sh by (intro progress_change [of "shareable a" "ctx = None" False subs h p]) auto
  have below: "kinds_below (Access a subs # rest) (subs @ rest)"
    using shp by (auto simp: kinds_below_def intro: included_trans)
  have sat: "h \<and> da_satisfied a \<and> subs \<noteq> [] \<longrightarrow> da_satisfied (info (hd subs))" using prg sh by auto
  note per = permits_removed [OF snd shp prg]
  show ?thesis
  proof (cases rest rule: nodes.cases)
    case 1
    with res pre below sat shp snd show ?thesis
      by (auto simp: splice_subaccesses_def)
  next
    case (2 b bs rest1)
    have srest: "sound (Some a) rest" "shape rest" "progress h False (da_satisfied a) rest"
      using snd shp prg by simp_all
    show ?thesis
    proof (cases "da_satisfied b")
      case True
      then have l': "l' = subs @ rest" using res 2 by (simp add: splice_subaccesses_def)
      have "sound (ctx_after ctx subs) rest" by (rule sound_permits [OF srest(1,2) per])
      then have "sound ctx l'" using snd by (simp add: l')
      moreover have "progress h (ctx = None \<and> subs = []) (if subs = [] then p else da_satisfied (info (last subs))) rest"
        by (rule progress_satisfied_head [OF srest(3,1,2)]) (simp_all add: True 2)
      then have "progress h (ctx = None) p l'" using pre by (simp add: l')
      moreover have "h \<and> da_satisfied a \<longrightarrow> da_satisfied (info (hd l'))"
        using sat True by (cases "subs = []") (simp_all add: l' 2)
      ultimately show ?thesis
        using below shp by (simp add: l')
    next
      case False
      define ep where "ep = ctx_after ctx subs"
      obtain rest' where rp: "rprop ep rest = (rest', os)" and l': "l' = subs @ rest'"
        using res 2 False by (auto simp: splice_subaccesses_def ep_def ctx_after_def Let_def split: prod.splits)
      have unsat: "h \<longrightarrow> \<not> da_satisfied a" using srest(3) 2 False by auto
      have al: "h \<and> (if subs = [] then p else da_satisfied (info (last subs))) \<and> rest \<noteq> [] \<longrightarrow>
          allowed ep (info (hd rest))"
        using splice_allowed [OF shp prg hom] 2 unsat unfolding ep_def by simp
      have "h \<longrightarrow> (\<exists>k. \<forall>x \<in> set rest. same_kind k (info x))" using hom by auto
      from rprop_inv [OF rp srest(2,1,3) per [folded ep_def] this al]
      have "sound ep rest' \<and> progress h (ep = None) (if subs = [] then p else da_satisfied (info (last subs))) rest'" .
      moreover have "(ep = None) = (ctx = None \<and> subs = [])" by (simp add: ep_def ctx_after_def)
      moreover have "shape rest'" by (rule rprop_shape [OF rp srest(2)])
      moreover have "kinds_below (Access a subs # rest) l'"
        using below rprop_included [OF rp] by (auto simp: kinds_below_def l')
      ultimately show ?thesis
        using pre shp snd unsat by (simp add: l' ep_def [symmetric]) blast
    qed
  qed
qed

lemma unregister_inv:
  assumes "unregisterDataAccess ctx i l = Some (l', os)" "shape l" "sound ctx l"
    and "progress h (ctx = None) p l" "h \<longrightarrow> (\<exists>k. \<forall>x \<in> set l. same_kind k (info x))"
  shows "shape l' \<and> sound ctx l' \<and> progress h (ctx = None) p l' \<and> kinds_below l l' \<and>
    (h \<and> l \<noteq> [] \<and> da_satisfied (info (hd l)) \<and> l' \<noteq> [] \<longrightarrow> da_satisfied (info (hd l')))"
  using assms
proof (induction l arbitrary: ctx h p l' os rule: forest_induct)
  case (2 a subs rest)
  show ?case
  proof (cases "da_id a = i")
    case True
    then have "splice_subaccesses ctx subs rest = (l', os)" using 2(3) by simp
    from splice_inv [OF this 2(4-7)] show ?thesis by auto
  next
    case False
    show ?thesis
    proof (cases "unregisterDataAccess ctx i subs")
      case (Some r)
      then obtain subs' where sub: "unregisterDataAccess ctx i subs = Some (subs', os)"
        and l': "l' = Access a subs' # rest"
        using 2(3) False by (cases r) auto
      have "shareable a \<longrightarrow> (\<exists>k. \<forall>x \<in> set subs. same_kind k (info x))"
        using 2(4) by (auto simp: included_def)
      from 2(1) [OF sub _ _ _ this, of False] 2(4-6)
      have IH: "shape subs'" "sound ctx subs'" "progress (shareable a) (ctx = None) False subs'"
        "kinds_below subs subs'"
        "shareable a \<and> subs \<noteq> [] \<and> da_satisfied (info (hd subs)) \<and> subs' \<noteq> [] \<longrightarrow> da_satisfied (info (hd subs'))"
        by auto
      have "subs \<noteq> []" using sub by auto
      with IH 2(4-6) show ?thesis
        by (auto simp: l' kinds_below_def)
    next
      case None
      then obtain rest' where rest: "unregisterDataAccess (Some a) i rest = Some (rest', os)"
        and l': "l' = Access a subs # rest'"
        using 2(3) False by (auto split: option.splits)
      have "h \<longrightarrow> (\<exists>k. \<forall>x \<in> set rest. same_kind k (info x))" using 2(7) by auto
      from 2(2) [OF rest _ _ _ this, of "da_satisfied a"] 2(4-6)
      show ?thesis by (auto simp: l' kinds_below_def)
    qed
  qed
qed simp

section \<open>Registration keeps the invariant\<close>

text \<open>The access that a registration creates at the end of a sequence.\<close>

definition new_access ::
  "nat \<Rightarrow> task_ref \<Rightarrow> DataAccessType \<Rightarrow> bool \<Rightarrow> int \<Rightarrow> access_info option \<Rightarrow> access_info" where
  "new_access i task type weak red ctx =
     \<lparr>da_id = i, da_type = type, da_weak = weak, da_satisfied = evaluate_for ctx type red,
      da_originator = task, da_reductionInfo = red\<rparr>"

definition first_access :: "task_ref \<Rightarrow> access list \<Rightarrow> bool" where
  "first_access task l = (l = [] \<or> da_originator (info (last l)) \<noteq> task)"

lemma register_first:
  "first_access task l \<Longrightarrow>
   registerTaskDataAccess i task type weak red ctx l =
     (let a = new_access i task type weak red (ctx_after ctx l) in
      Inr (l @ [Access a []], Some i, da_satisfied a \<or> weak))"
  by (auto simp: registerTaskDataAccess_def first_access_def new_access_def ctx_after_def Let_def)

lemma new_access_satisfied [simp]:
  "da_satisfied (new_access i task type weak red ctx) = allowed ctx (new_access i task type weak red ctx)"
  by (simp add: new_access_def allowed_def)

lemma append_inv:
  assumes "shape l" "sound ctx l" "progress h (ctx = None) p l" "supported a"
    and "da_satisfied a = allowed (ctx_after ctx l) a"
    and "h \<longrightarrow> (\<exists>k. same_kind k a \<and> (\<forall>x \<in> set l. same_kind k (info x)))"
    and "h \<and> p \<and> l = [] \<longrightarrow> da_satisfied a"
  shows "shape (l @ [Access a []]) \<and> sound ctx (l @ [Access a []]) \<and> progress h (ctx = None) p (l @ [Access a []])"
proof -
  have "da_satisfied a" if c: "l \<noteq> []" "da_satisfied (info (last l))" "h"
  proof -
    obtain k where k: "same_kind k a" "\<forall>x \<in> set l. same_kind k (info x)" using assms(6) c(3) by blast
    then have "same_kind (info (last l)) a" using c(1) same_kind_sym same_kind_trans last_in_set by blast
    with c assms(4,5) show ?thesis by (simp add: ctx_after_def)
  qed
  then show ?thesis using assms by (cases "l = []") auto
qed

text \<open>The accesses on which a registration below access \<open>i\<close> is correct use of the interface.\<close>

fun parent_ok :: "nat \<Rightarrow> access_info \<Rightarrow> access list \<Rightarrow> bool" where
  "parent_ok i b [] = True"
| "parent_ok i b (Access a subs # rest) =
     ((da_id a = i \<longrightarrow> (da_weak a \<or> da_satisfied a) \<and> included a b \<and> first_access (da_originator b) subs) \<and>
      parent_ok i b subs \<and> parent_ok i b rest)"

lemma new_access_kind:
  assumes "b = new_access i task type weak red ctx'"
  shows "included a (new_access i task type weak red ctx) = included a b"
    and "same_kind a (new_access i task type weak red ctx) = same_kind a b"
    and "supported (new_access i task type weak red ctx) = supported b"
  by (auto simp: assms new_access_def included_def same_kind_def supported_def)

lemma new_access_originator [simp]: "da_originator (new_access i task type weak red ctx) = task"
  by (simp add: new_access_def)

lemma register_below_inv:
  fixes i n task type weak red
  defines "b \<equiv> new_access n task type weak red None"
  assumes "register_below (registerTaskDataAccess n task type weak red) ctx i l = Some (Inr (l', r))"
    and "shape l" "sound ctx l" "progress h (ctx = None) p l" "supported b" "parent_ok i b l"
  shows "shape l' \<and> sound ctx l' \<and> progress h (ctx = None) p l' \<and> map info l' = map info l"
  using assms(2-7)
proof (induction l arbitrary: ctx h p l' rule: forest_induct)
  case (2 a subs rest)
  show ?case
  proof (cases "da_id a = i")
    case True
    let ?b = "new_access n task type weak red (ctx_after ctx subs)"
    have par: "da_weak a \<or> da_satisfied a" "included a b" "first_access task subs"
      using 2(8) True by (simp_all add: b_def)
    then have l': "l' = Access a (subs @ [Access ?b []]) # rest"
      using 2(3) True by (auto simp: register_first Let_def)
    note nk = new_access_kind [OF meta_eq_to_obj_eq [OF b_def], where ctx = "ctx_after ctx subs"]
    have kind: "shareable a \<longrightarrow> same_kind a ?b \<and> (\<forall>x \<in> set subs. same_kind a (info x))"
      using par(2) 2(4) by (auto simp: included_def nk)
    have "shape (subs @ [Access ?b []]) \<and> sound ctx (subs @ [Access ?b []]) \<and>
        progress (shareable a) (ctx = None) False (subs @ [Access ?b []])"
      using 2(4-7) kind by (intro append_inv) (auto simp: nk)
    moreover have "da_satisfied a \<and> shareable a \<longrightarrow> da_satisfied (info (hd (subs @ [Access ?b []])))"
      using 2(5,6) kind allowed_kind [of a ?b ctx] by (cases "subs = []") auto
    ultimately show ?thesis
      using 2(4-6) par by (auto simp: l' nk)
  next
    case False
    show ?thesis
    proof (cases "register_below (registerTaskDataAccess n task type weak red) ctx i subs")
      case (Some res)
      then obtain subs' where sub: "register_below (registerTaskDataAccess n task type weak red) ctx i subs = Some (Inr (subs', r))"
        and l': "l' = Access a subs' # rest"
        using 2(3) False by (cases res) auto
      have IH: "shape subs' \<and> sound ctx subs' \<and> progress (shareable a) (ctx = None) False subs' \<and>
          map info subs' = map info subs"
        using 2(1) [OF sub, of "shareable a" False] 2(4-8) by simp
      then have inf: "info ` set subs' = info ` set subs" "subs' = [] \<longleftrightarrow> subs = []"
        "subs \<noteq> [] \<Longrightarrow> info (hd subs') = info (hd subs)"
        by (metis set_map, metis map_is_Nil_conv, metis hd_map map_is_Nil_conv)
      then have "\<forall>b \<in> set subs'. included a (info b)" using 2(4) by (metis image_iff shape.simps(2))
      with IH inf 2(4-6) show ?thesis by (auto simp: l')
    next
      case None
      then obtain rest' where rest: "register_below (registerTaskDataAccess n task type weak red) (Some a) i rest = Some (Inr (rest', r))"
        and l': "l' = Access a subs # rest'"
        using 2(3) False by (auto split: option.splits)
      have "shape rest' \<and> sound (Some a) rest' \<and> progress h False (da_satisfied a) rest' \<and> map info rest' = map info rest"
        using 2(2) [OF rest, of h "da_satisfied a"] 2(4-8) by simp
      with 2(4-6) show ?thesis by (auto simp: l')
    qed
  qed
qed simp

section \<open>Mutual exclusion and progress\<close>

text \<open>
  The pairs of accesses \<open>(x, y)\<close> in which \<open>x\<close> comes before \<open>y\<close> and is not an ancestor of \<open>y\<close>: the
  accesses that the program order puts one after the other.
\<close>

fun ordered_pairs :: "access list \<Rightarrow> (access_info \<times> access_info) list" where
  "ordered_pairs [] = []"
| "ordered_pairs (Access a subs # rest) =
     ordered_pairs subs @ List.product (a # nodes subs) (nodes rest) @ ordered_pairs rest"

lemma sound_satisfied_after:
  "sound (Some q) l \<Longrightarrow> shape l \<Longrightarrow> y \<in> set (nodes l) \<Longrightarrow> da_satisfied y \<Longrightarrow>
   da_satisfied q \<and> same_kind q y"
proof (induction l arbitrary: q rule: forest_induct)
  case (2 a subs rest)
  show ?case
  proof (cases "y \<in> set (nodes rest)")
    case True
    with 2(2) [of a] 2(3,4,6) have "da_satisfied a" "same_kind a y" by simp_all
    with 2(3,4) show ?thesis by (auto intro: same_kind_trans)
  next
    case False
    with 2 show ?thesis by auto
  qed
qed simp

lemma ordered_satisfied:
  "sound ctx l \<Longrightarrow> shape l \<Longrightarrow> progress h n p l \<Longrightarrow> (x, y) \<in> set (ordered_pairs l) \<Longrightarrow> da_satisfied y \<Longrightarrow>
   da_satisfied x \<and> same_kind x y"
proof (induction l arbitrary: ctx h n p rule: forest_induct)
  case (2 a subs rest)
  note IH2 = 2(2) [of "Some a" h False "da_satisfied a"] and prems = 2(3-5,7)
  consider "(x, y) \<in> set (ordered_pairs subs)" | "(x, y) \<in> set (ordered_pairs rest)"
    | "x = a \<or> x \<in> set (nodes subs)" "y \<in> set (nodes rest)"
    using 2(6) by auto
  then show ?case
  proof cases
    case 3
    with sound_satisfied_after [of a rest y] 2(3,4,7) have a: "da_satisfied a" "same_kind a y" by simp_all
    have "uniform a subs"
      using 2(4,5) a by (intro satisfied_uniform [of a n]) (auto dest: same_kind_shareable)
    with 3 a show ?thesis
      by (auto simp: uniform_nodes intro: same_kind_trans [OF same_kind_sym])
  next
    case 1
    with 2(1) [of ctx "shareable a" n False] 2(3-5,7) show ?thesis by simp
  next
    case 2
    with \<open>(x, y) \<in> set (ordered_pairs rest)\<close> IH2 prems show ?thesis by simp
  qed
qed simp

text \<open>The leftmost leaf: the access that nothing precedes and that has no subaccesses.\<close>

fun leftmost :: "access_info \<Rightarrow> access list \<Rightarrow> access_info" where
  "leftmost a [] = a"
| "leftmost a (Access b subs # rest) = leftmost b subs"

lemma leftmost_satisfied: "progress h True p l \<Longrightarrow> da_satisfied a \<Longrightarrow> da_satisfied (leftmost a l)"
  by (induction a l arbitrary: h p rule: leftmost.induct) auto

section \<open>Who is reported\<close>

text \<open>The tasks that wait for a strong access of the forest, once per access.\<close>

definition waiting :: "access list \<Rightarrow> task_ref multiset" where
  "waiting l = mset (map da_originator (filter (\<lambda>a. \<not> da_weak a \<and> \<not> da_satisfied a) (nodes l)))"

lemma nodes_append [simp]: "nodes (xs @ ys) = nodes xs @ nodes ys"
  by (induction xs rule: forest_induct) auto

lemma waiting_simps [simp]:
  "waiting [] = {#}"
  "waiting (Access a subs # rest) =
     (if \<not> da_weak a \<and> \<not> da_satisfied a then {#da_originator a#} else {#}) + waiting subs + waiting rest"
  "waiting (xs @ ys) = waiting xs + waiting ys"
  by (simp_all add: waiting_def)

lemma rprop_waiting: "rprop ctx l = (l', os) \<Longrightarrow> shape l \<Longrightarrow> waiting l = waiting l' + mset os"
proof (induction l arbitrary: ctx l' os rule: forest_induct)
  case (2 a subs rest)
  from 2(3) show ?case
  proof (cases rule: rprop_step)
    case (go a' subs' os1 rest' os2)
    show ?thesis
    proof (cases "da_weak a")
      case True
      with 2(1) [OF go(6)] 2(2) [OF go(8)] 2(4) go(1-5) show ?thesis by simp
    next
      case False
      with 2(2) [OF go(8)] 2(4) go(1-5,7) show ?thesis by simp
    qed
  qed simp
qed simp

lemma rprop_nodes: "rprop ctx l = (l', os) \<Longrightarrow> map core (nodes l') = map core (nodes l)"
proof (induction l arbitrary: ctx l' os rule: forest_induct)
  case (2 a subs rest)
  from 2(3) show ?case
  proof (cases rule: rprop_step)
    case (go a' subs' os1 rest' os2)
    have "map core (nodes subs') = map core (nodes subs)"
      using 2(1) go by (cases "da_weak a") auto
    with go 2(2) show ?thesis by auto
  qed simp
qed simp

fun find_access :: "nat \<Rightarrow> access list \<Rightarrow> access_info option" where
  "find_access i [] = None"
| "find_access i (Access a subs # rest) =
     (if da_id a = i then Some a
      else case find_access i subs of Some x \<Rightarrow> Some x | None \<Rightarrow> find_access i rest)"

lemma unregister_None: "unregisterDataAccess ctx i l = None \<longleftrightarrow> find_access i l = None"
proof (induction l arbitrary: ctx rule: forest_induct)
  case (2 a subs rest)
  from 2(1) [of ctx] 2(2) [of "Some a"] show ?case
    by (cases "unregisterDataAccess ctx i subs"; cases "unregisterDataAccess (Some a) i rest";
        cases "find_access i subs") auto
qed simp

lemma splice_waiting:
  "splice_subaccesses ctx subs rest = (l', os) \<Longrightarrow> shape rest \<Longrightarrow>
   waiting subs + waiting rest = waiting l' + mset os \<and>
   map core (nodes l') = map core (nodes subs @ nodes rest)"
  using rprop_waiting rprop_nodes
  by (cases rest) (fastforce simp: splice_subaccesses_def Let_def split: if_splits prod.splits)+

lemma unregister_waiting:
  "unregisterDataAccess ctx i l = Some (l', os) \<Longrightarrow> shape l \<Longrightarrow> find_access i l = Some a \<Longrightarrow>
   waiting l = waiting l' + mset os + (if \<not> da_weak a \<and> \<not> da_satisfied a then {#da_originator a#} else {#})"
proof (induction l arbitrary: ctx l' os rule: forest_induct)
  case (2 b subs rest)
  show ?case
  proof (cases "da_id b = i")
    case True
    with 2 splice_waiting [of ctx subs rest l' os] show ?thesis by (auto simp: ac_simps)
  next
    case False
    show ?thesis
    proof (cases "unregisterDataAccess ctx i subs")
      case (Some r)
      then obtain subs' where sub: "unregisterDataAccess ctx i subs = Some (subs', os)"
        and l': "l' = Access b subs' # rest" using 2(3) False by (cases r) auto
      have "find_access i subs = Some a"
        using 2(5) False unregister_None [of ctx i subs] Some by (auto split: option.splits)
      with 2(1) [OF sub] 2(4) show ?thesis by (simp add: l' ac_simps)
    next
      case None
      then obtain rest' where rest: "unregisterDataAccess (Some b) i rest = Some (rest', os)"
        and l': "l' = Access b subs # rest'" using 2(3) False by (auto split: option.splits)
      have "find_access i rest = Some a"
        using 2(5) False unregister_None [of ctx i subs] None by auto
      with 2(2) [OF rest] 2(4) show ?thesis by (simp add: l' ac_simps)
    qed
  qed
qed simp

lemma find_access_nodes: "find_access i l = None \<longleftrightarrow> i \<notin> da_id ` set (nodes l)"
  by (induction l rule: forest_induct) (auto split: option.splits)

lemma unregister_nodes:
  "unregisterDataAccess ctx i l = Some (l', os) \<Longrightarrow> shape l \<Longrightarrow>
   \<exists>xs a ys. map core (nodes l) = xs @ a # ys \<and> da_id a = i \<and> map core (nodes l') = xs @ ys"
proof (induction l arbitrary: ctx l' os rule: forest_induct)
  case (2 b subs rest)
  show ?case
  proof (cases "da_id b = i")
    case True
    with 2(3,4) splice_waiting [of ctx subs rest l' os]
    have "map core (nodes (Access b subs # rest)) = [] @ core b # map core (nodes l')" by simp
    with True show ?thesis by (metis append_Nil core_simps(2))
  next
    case False
    show ?thesis
    proof (cases "unregisterDataAccess ctx i subs")
      case (Some r)
      then obtain subs' where sub: "unregisterDataAccess ctx i subs = Some (subs', os)"
        and l': "l' = Access b subs' # rest" using 2(3) False by (cases r) auto
      obtain xs a ys where "map core (nodes subs) = xs @ a # ys" "da_id a = i" "map core (nodes subs') = xs @ ys"
        using 2(1) [OF sub] 2(4) by auto
      then have "map core (nodes (Access b subs # rest)) = (core b # xs) @ a # (ys @ map core (nodes rest))"
        "map core (nodes l') = (core b # xs) @ (ys @ map core (nodes rest))" "da_id a = i"
        by (simp_all add: l')
      then show ?thesis by blast
    next
      case None
      then obtain rest' where rest: "unregisterDataAccess (Some b) i rest = Some (rest', os)"
        and l': "l' = Access b subs # rest'" using 2(3) False by (auto split: option.splits)
      obtain xs a ys where "map core (nodes rest) = xs @ a # ys" "da_id a = i" "map core (nodes rest') = xs @ ys"
        using 2(2) [OF rest] 2(4) by auto
      then have "map core (nodes (Access b subs # rest)) = (core b # map core (nodes subs) @ xs) @ a # ys"
        "map core (nodes l') = (core b # map core (nodes subs) @ xs) @ ys" "da_id a = i"
        by (simp_all add: l')
      then show ?thesis by blast
    qed
  qed
qed simp

end
