(* ===== verification/N6_DependencyTheorems.thy ===== *)
theory N6_DependencyTheorems
  imports N6_DependencyProofs
begin

text \<open>
  The theorems on the discrete dependency system: histories of registrations and unregistrations
  on one address, the guarantees that hold after each of them, and what goes wrong when one task
  declares two accesses to the same address.
\<close>

section \<open>Histories\<close>

text \<open>
  The forests that arise when tasks register one access per address, at the top of the domain or
  below an access of their parent, and unregister in any order. A child declares no more than its
  parent did, and a parent that registers children is running: its own access is weak or satisfied
  (\<open>parent_ok\<close>).
\<close>

inductive dep_reach :: "access list \<Rightarrow> bool" where
  dr_empty: "dep_reach []"
| dr_register:
    "dep_reach l \<Longrightarrow> first_access task l \<Longrightarrow> supported (new_access n task type weak red None) \<Longrightarrow>
     registerTaskDataAccess n task type weak red None l = Inr (l', r) \<Longrightarrow> dep_reach l'"
| dr_register_child:
    "dep_reach l \<Longrightarrow> supported (new_access n task type weak red None) \<Longrightarrow>
     parent_ok i (new_access n task type weak red None) l \<Longrightarrow>
     register_below (registerTaskDataAccess n task type weak red) None i l = Some (Inr (l', r)) \<Longrightarrow>
     dep_reach l'"
| dr_unregister:
    "dep_reach l \<Longrightarrow> unregisterDataAccess None i l = Some (l', os) \<Longrightarrow> dep_reach l'"

lemma dep_reach_inv: "dep_reach l \<Longrightarrow> dep_inv l"
proof (induction rule: dep_reach.induct)
  case dr_empty
  show ?case by (simp add: dep_inv_def)
next
  case (dr_register l task n type weak red l' r)
  let ?a = "new_access n task type weak red (ctx_after None l)"
  have "supported ?a" using dr_register.hyps(3) new_access_kind(3) [OF refl] by blast
  then have "shape (l @ [Access ?a []]) \<and> sound None (l @ [Access ?a []]) \<and>
      progress False (None = (None :: access_info option)) False (l @ [Access ?a []])"
    using dr_register.IH by (intro append_inv) (auto simp: dep_inv_def)
  moreover have "l' = l @ [Access ?a []]"
    using dr_register.hyps(4) by (simp add: register_first [OF dr_register.hyps(2)] Let_def)
  ultimately show ?case by (simp add: dep_inv_def)
next
  case (dr_register_child l n task type weak red i l' r)
  from register_below_inv [OF dr_register_child.hyps(4), of False False] dr_register_child.hyps(2,3)
    dr_register_child.IH
  show ?case by (auto simp: dep_inv_def)
next
  case (dr_unregister l i l' os)
  from unregister_inv [OF dr_unregister.hyps(2), of False False] dr_unregister.IH
  show ?case by (auto simp: dep_inv_def)
qed

text \<open>Three tasks: 1 writes and reads the location, 2 and 3 read it.\<close>

definition example_forest :: "access list" where
  "example_forest =
     [Access (new_access 10 1 READWRITE_ACCESS_TYPE False 0 None) [],
      Access \<lparr>da_id = 11, da_type = READ_ACCESS_TYPE, da_weak = False, da_satisfied = False,
              da_originator = 2, da_reductionInfo = 0\<rparr> [],
      Access \<lparr>da_id = 12, da_type = READ_ACCESS_TYPE, da_weak = False, da_satisfied = False,
              da_originator = 3, da_reductionInfo = 0\<rparr> []]"

lemmas access_eval = new_access_def evaluate_for_def evaluateSatisfiability_def
  evaluateSatisfiability_reduction_def supported_def first_access_def

lemma example_forest_reach: "dep_reach example_forest"
proof -
  have "dep_reach (take 1 example_forest)"
    by (rule dr_register [OF dr_empty, of 1 10 READWRITE_ACCESS_TYPE False 0 _ "(Some 10, True)"])
      (simp_all add: example_forest_def registerTaskDataAccess_def access_eval)
  then have "dep_reach (take 2 example_forest)"
    by (rule dr_register [of _ 2 11 READ_ACCESS_TYPE False 0 _ "(Some 11, False)"])
      (simp_all add: example_forest_def registerTaskDataAccess_def access_eval numeral_2_eq_2)
  then show ?thesis
    by (rule dr_register [of _ 3 12 READ_ACCESS_TYPE False 0 _ "(Some 12, False)"])
      (simp_all add: example_forest_def registerTaskDataAccess_def access_eval numeral_2_eq_2)
qed

definition example_after :: "access list" where
  "example_after =
     [Access \<lparr>da_id = 11, da_type = READ_ACCESS_TYPE, da_weak = False, da_satisfied = True,
              da_originator = 2, da_reductionInfo = 0\<rparr> [],
      Access \<lparr>da_id = 12, da_type = READ_ACCESS_TYPE, da_weak = False, da_satisfied = True,
              da_originator = 3, da_reductionInfo = 0\<rparr> []]"

lemma example_unregister: "unregisterDataAccess None 10 example_forest = Some (example_after, [2, 3])"
  by (simp add: example_forest_def example_after_def splice_subaccesses_def rprop_Cons allowed_def
      access_eval)

lemma example_after_reach: "dep_reach example_after"
  using dr_unregister [OF example_forest_reach example_unregister] .

section \<open>Properties\<close>

text \<open>
  C2. Mutual exclusion. Take two accesses to an address of which one comes after the other in
  program order (and is not below it). If the later one is satisfied while the earlier one is still
  registered, then the earlier one is satisfied too and both are reads, both concurrent accesses or
  both reductions with the same operation. In particular an access that writes is satisfied only
  when no earlier access is left, and nothing after it is satisfied before it is gone.
\<close>

theorem satisfied_accesses_are_compatible:
  assumes "dep_reach l" "(x, y) \<in> set (ordered_pairs l)" "da_satisfied y"
  shows "da_satisfied x \<and> da_type x = da_type y \<and>
    da_type y \<in> {READ_ACCESS_TYPE, CONCURRENT_ACCESS_TYPE, REDUCTION_ACCESS_TYPE} \<and>
    (da_type y = REDUCTION_ACCESS_TYPE \<longrightarrow> da_reductionInfo x = da_reductionInfo y)"
proof -
  have "da_satisfied x \<and> same_kind x y"
    using ordered_satisfied [of None l False True False x y] dep_reach_inv [OF assms(1)] assms(2,3)
    by (simp add: dep_inv_def)
  then show ?thesis by (auto simp: same_kind_def shareable_def)
qed

theorem satisfied_accesses_are_compatible_witness:
  "dep_reach example_after \<and>
   da_satisfied (info (example_after ! 1)) \<and> da_satisfied (info (example_after ! 0)) \<and>
   da_type (info (example_after ! 0)) = da_type (info (example_after ! 1))"
proof -
  have "(info (example_after ! 0), info (example_after ! 1)) \<in> set (ordered_pairs example_after)"
    "da_satisfied (info (example_after ! 1))"
    by (simp_all add: example_after_def)
  with satisfied_accesses_are_compatible [OF example_after_reach] example_after_reach show ?thesis
    by blast
qed



text \<open>
  C19. Exactness of the reports. When an access of a finished task (one that is weak or satisfied)
  is unregistered, the tasks that \<open>unregisterDataAccess\<close> reports are exactly those whose strong
  accesses turned satisfied, once for each such access: the accesses still waited for afterwards
  and the reports make up the accesses waited for before.
\<close>

theorem unregister_reports_exactly:
  assumes "dep_reach l" "unregisterDataAccess None i l = Some (l', os)"
    and "find_access i l = Some a" "da_weak a \<or> da_satisfied a"
  shows "waiting l = waiting l' + mset os"
  using unregister_waiting [OF assms(2) _ assms(3)] dep_reach_inv [OF assms(1)] assms(4)
  by (auto simp: dep_inv_def)

theorem unregister_reports_exactly_witness:
  "waiting example_forest = waiting example_after + mset [2, 3] \<and> waiting example_forest = mset [2, 3]"
proof -
  have f: "find_access 10 example_forest = Some (new_access 10 1 READWRITE_ACCESS_TYPE False 0 None)"
    by (simp add: example_forest_def new_access_def)
  have s: "da_weak (new_access 10 1 READWRITE_ACCESS_TYPE False 0 None) \<or>
      da_satisfied (new_access 10 1 READWRITE_ACCESS_TYPE False 0 None)" by simp
  show ?thesis
    using unregister_reports_exactly [OF example_forest_reach example_unregister f s]
    by (simp add: example_after_def)
qed

text \<open>
  Unregistration keeps the program order: in the order in which the accesses of an address
  come one after the other (parents before their children), exactly the unregistered access
  disappears; types, weakness and originators of the others do not change, whether or not accesses
  of children move to the place of their parent's access.
\<close>

lemma unregister_keeps_order:
  assumes "dep_reach l" "unregisterDataAccess None i l = Some (l', os)"
  shows "\<exists>xs a ys. map core (nodes l) = xs @ a # ys \<and> da_id a = i \<and> map core (nodes l') = xs @ ys"
  using unregister_nodes [OF assms(2)] dep_reach_inv [OF assms(1)] by (simp add: dep_inv_def)

text \<open>
  The registration of a first access reports that the task can start with it exactly when the
  access is weak or satisfied, and adds the task to the tasks waited for otherwise; the predecessor
  counter of the task grows by exactly the accesses it waits for.
\<close>

lemma register_counts_predecessor:
  assumes "first_access task l"
  shows "\<exists>l' canStart. registerTaskDataAccess n task type weak red ctx l = Inr (l', Some n, canStart) \<and>
    (canStart \<longleftrightarrow> weak \<or> evaluate_for (ctx_after ctx l) type red) \<and>
    waiting l' = waiting l + (if canStart then {#} else {#task#})"
  by (simp add: register_first [OF assms] Let_def) (simp add: new_access_def allowed_def)

section \<open>Repeated accesses\<close>

text \<open>
  A task that declares a location first as weak and then as strong with the same type is not
  counted as waiting when the access is not satisfied: \<open>upgradeSameTypeAccess\<close> makes the access
  strong and answers that no predecessor has to be counted, so the task may start before the
  access it now depends on.
\<close>

lemma weak_to_strong_not_counted:
  assumes "da_weak a" "\<not> da_satisfied a" "da_type a \<noteq> CONCURRENT_ACCESS_TYPE"
  shows "\<exists>a'. upgradeAccess n prev a (da_type a) False = Inr ([a'], True) \<and>
    \<not> da_weak a' \<and> \<not> da_satisfied a'"
  using assms by (simp add: upgradeAccess_def upgradeSameTypeAccess_def)

text \<open>
  A task that declares a location as written and then as read ends up with a read access only:
  from the empty sequence, after \<open>write\<close> and \<open>read\<close> by task 1 and \<open>read\<close> by task 2, both accesses
  are satisfied and task 2 may start while task 1 writes.
\<close>

lemma write_then_read_loses_write:
  "\<exists>l1 l2 l3. registerTaskDataAccess 10 1 WRITE_ACCESS_TYPE False 0 None [] = Inr (l1, Some 10, True) \<and>
     registerTaskDataAccess 11 1 READ_ACCESS_TYPE False 0 None l1 = Inr (l2, None, True) \<and>
     registerTaskDataAccess 12 2 READ_ACCESS_TYPE False 0 None l2 = Inr (l3, Some 12, True) \<and>
     map da_type (nodes l3) = [READ_ACCESS_TYPE, READ_ACCESS_TYPE] \<and> list_all da_satisfied (nodes l3)"
  by (simp add: registerTaskDataAccess_def access_eval upgradeAccess_def upgradeSameStrengthAccess_def)

text \<open>
  When the upgrade of a satisfied strong read by a weak write creates an additional access, that
  access joins the sequence but is not returned to the caller, so it never enters the task's list
  of accesses and is never unregistered: it stays in the sequence after the task has unregistered
  everything it knows of, and a later reader is not satisfied.
\<close>

lemma additional_access_leaks:
  "\<exists>l1 l2 l3 l4. registerTaskDataAccess 10 1 READ_ACCESS_TYPE False 0 None [] = Inr (l1, Some 10, True) \<and>
     registerTaskDataAccess 11 1 WRITE_ACCESS_TYPE True 0 None l1 = Inr (l2, None, False) \<and>
     unregisterDataAccess None 10 l2 = Some (l3, []) \<and>
     registerTaskDataAccess 12 2 READ_ACCESS_TYPE False 0 None l3 = Inr (l4, Some 12, False) \<and>
     map da_id (nodes l4) = [11, 12]"
  by (simp add: registerTaskDataAccess_def access_eval upgradeAccess_def upgradeStrongAccessWithWeak_def
      splice_subaccesses_def rprop_Cons allowed_def)

end
