(* ===== verification/N6_PriorityQueue.thy ===== *)
theory N6_PriorityQueue
  imports N6_Prelude
begin

text \<open>
  The container of the priority schedulers, \<open>std::priority_queue<Task *, std::vector<Task *>,
  TaskPriorityCompare>\<close>: a binary heap in a vector. \<open>key\<close> is the priority that the comparison
  reads. The order in which equal priorities leave the queue is not fixed by the C++ standard, and
  no theorem of the development depends on it: clients use the queue through the laws of the
  locale \<open>max_queue\<close>.
\<close>

section \<open>Heap operations\<close>

definition heap_parent :: "nat \<Rightarrow> nat" where
  "heap_parent i = (i - 1) div 2"

definition swap_nth :: "nat \<Rightarrow> nat \<Rightarrow> 'a list \<Rightarrow> 'a list" where
  "swap_nth i j xs = xs[i := xs ! j, j := xs ! i]"

lemma length_swap_nth [simp]: "length (swap_nth i j xs) = length xs"
  by (simp add: swap_nth_def)

lemma mset_swap_nth [simp]:
  "i < length xs \<Longrightarrow> j < length xs \<Longrightarrow> mset (swap_nth i j xs) = mset xs"
  unfolding swap_nth_def by (rule mset_swap)

lemma nth_swap_nth:
  "i < length xs \<Longrightarrow> j < length xs \<Longrightarrow>
   swap_nth i j xs ! k = (if k = j then xs ! i else if k = i then xs ! j else xs ! k)"
  by (auto simp: swap_nth_def nth_list_update)

lemma heap_parent_less: "0 < i \<Longrightarrow> heap_parent i < i"
  unfolding heap_parent_def by linarith

lemma heap_parent_eq: "0 < j \<Longrightarrow> heap_parent j = i \<longleftrightarrow> j = 2 * i + 1 \<or> j = 2 * i + 2"
  unfolding heap_parent_def by linarith

function sift_up :: "('a \<Rightarrow> 'k::linorder) \<Rightarrow> nat \<Rightarrow> 'a list \<Rightarrow> 'a list" where
  "sift_up key i xs =
     (if i = 0 \<or> \<not> key (xs ! heap_parent i) < key (xs ! i) then xs
      else sift_up key (heap_parent i) (swap_nth i (heap_parent i) xs))"
  by pat_completeness auto
termination
  by (relation "measure (\<lambda>(key, i, xs). i)") (auto simp: heap_parent_less)

definition larger_child :: "('a \<Rightarrow> 'k::linorder) \<Rightarrow> nat \<Rightarrow> 'a list \<Rightarrow> nat" where
  "larger_child key i xs =
     (if 2 * i + 2 < length xs \<and> key (xs ! (2 * i + 1)) < key (xs ! (2 * i + 2))
      then 2 * i + 2 else 2 * i + 1)"

lemma larger_child_greater: "i < larger_child key i xs"
  by (simp add: larger_child_def)

function sift_down :: "('a \<Rightarrow> 'k::linorder) \<Rightarrow> nat \<Rightarrow> 'a list \<Rightarrow> 'a list" where
  "sift_down key i xs =
     (let c = larger_child key i xs in
      if length xs \<le> 2 * i + 1 \<or> \<not> key (xs ! i) < key (xs ! c) then xs
      else sift_down key c (swap_nth i c xs))"
  by pat_completeness auto
termination
  by (relation "measure (\<lambda>(key, i, xs). length xs - i)")
    (auto intro!: diff_less_mono2 larger_child_greater)

declare sift_up.simps [simp del] sift_down.simps [simp del]

definition pq_push :: "('a \<Rightarrow> 'k::linorder) \<Rightarrow> 'a \<Rightarrow> 'a list \<Rightarrow> 'a list" where
  "pq_push key x q = sift_up key (length q) (q @ [x])"

definition pq_top :: "'a list \<Rightarrow> 'a" where
  "pq_top q = q ! 0"

definition pq_pop :: "('a \<Rightarrow> 'k::linorder) \<Rightarrow> 'a list \<Rightarrow> 'a list" where
  "pq_pop key q =
     (if length q \<le> 1 then [] else sift_down key 0 ((butlast q)[0 := last q]))"

section \<open>Contents\<close>

lemma sift_up_mset [simp]: "i < length xs \<Longrightarrow> mset (sift_up key i xs) = mset xs"
proof (induction key i xs rule: sift_up.induct)
  case (1 key i xs)
  have "heap_parent i < length xs" if "0 < i"
    using heap_parent_less [OF that] 1(2) by simp
  with 1 show ?case by (subst sift_up.simps) auto
qed

lemma sift_down_mset [simp]: "mset (sift_down key i xs) = mset xs"
proof (induction key i xs rule: sift_down.induct)
  case (1 key i xs)
  let ?c = "larger_child key i xs"
  have "\<not> length xs \<le> 2 * i + 1 \<Longrightarrow> ?c < length xs \<and> i < length xs"
    by (auto simp: larger_child_def)
  with 1 show ?case by (subst sift_down.simps) (auto simp: Let_def)
qed

lemma pq_push_mset [simp]: "mset (pq_push key x q) = mset q + {#x#}"
  by (simp add: pq_push_def)

lemma pq_push_not_Nil [simp]: "pq_push key x q \<noteq> []"
proof -
  have "mset (pq_push key x q) \<noteq> {#}" by simp
  then show ?thesis by force
qed

lemma pq_pop_mset:
  assumes "q \<noteq> []"
  shows "mset q = mset (pq_pop key q) + {#pq_top q#}"
proof (cases "length q \<le> 1")
  case True
  with assms show ?thesis by (cases q) (auto simp: pq_pop_def pq_top_def)
next
  case False
  then obtain x y ys where q: "q = x # ys @ [y]"
    using assms by (cases q; cases "tl q" rule: rev_cases) auto
  show ?thesis
    by (simp add: q pq_pop_def pq_top_def butlast_append)
qed

section \<open>Order\<close>

definition is_heap :: "('a \<Rightarrow> 'k::linorder) \<Rightarrow> 'a list \<Rightarrow> bool" where
  "is_heap key xs = (\<forall>j < length xs. 0 < j \<longrightarrow> key (xs ! j) \<le> key (xs ! heap_parent j))"

text \<open>A heap but for the element at \<open>i\<close>, which may be too large, respectively too small.\<close>

definition heap_but_up :: "('a \<Rightarrow> 'k::linorder) \<Rightarrow> nat \<Rightarrow> 'a list \<Rightarrow> bool" where
  "heap_but_up key i xs =
     (i < length xs \<and>
      (\<forall>j < length xs. 0 < j \<longrightarrow>
         (j \<noteq> i \<longrightarrow> key (xs ! j) \<le> key (xs ! heap_parent j)) \<and>
         (heap_parent j = i \<and> 0 < i \<longrightarrow> key (xs ! j) \<le> key (xs ! heap_parent i))))"

definition heap_but_down :: "('a \<Rightarrow> 'k::linorder) \<Rightarrow> nat \<Rightarrow> 'a list \<Rightarrow> bool" where
  "heap_but_down key i xs =
     (\<forall>j < length xs. 0 < j \<longrightarrow>
         (heap_parent j \<noteq> i \<longrightarrow> key (xs ! j) \<le> key (xs ! heap_parent j)) \<and>
         (heap_parent j = i \<and> 0 < i \<longrightarrow> key (xs ! j) \<le> key (xs ! heap_parent i)))"

lemma heap_but_up_swap:
  assumes ok: "heap_but_up key i xs" and i: "0 < i" and less: "key (xs ! heap_parent i) < key (xs ! i)"
  shows "heap_but_up key (heap_parent i) (swap_nth i (heap_parent i) xs)"
proof -
  let ?p = "heap_parent i" and ?ys = "swap_nth i (heap_parent i) xs"
  have pi: "?p < i" and len: "i < length xs" "?p < length xs"
    using ok heap_parent_less [OF i] by (auto simp: heap_but_up_def)
  note nth = nth_swap_nth [OF len]
  have le: "key (xs ! j) \<le> key (xs ! heap_parent j)" if "j < length xs" "0 < j" "j \<noteq> i" for j
    using ok that by (auto simp: heap_but_up_def)
  have below: "key (xs ! j) \<le> key (xs ! ?p)" if "j < length xs" "0 < j" "heap_parent j = i" for j
    using ok that i by (auto simp: heap_but_up_def)
  have 1: "key (?ys ! j) \<le> key (?ys ! heap_parent j)" if j: "j < length xs" "0 < j" "j \<noteq> ?p" for j
  proof (cases "j = i")
    case True
    with less j show ?thesis by (simp add: nth)
  next
    case False
    with le [of j] below [of j] less j show ?thesis by (auto simp: nth)
  qed
  have 2: "key (?ys ! j) \<le> key (?ys ! heap_parent ?p)"
    if j: "j < length xs" "0 < j" "heap_parent j = ?p" "0 < ?p" for j
  proof -
    have "key (xs ! ?p) \<le> key (xs ! heap_parent ?p)" using le [of ?p] len pi j by simp
    moreover have "heap_parent ?p < ?p" "heap_parent j < j" using heap_parent_less j by blast+
    ultimately show ?thesis using le [of j] j pi by (auto simp: nth intro: order_trans)
  qed
  from 1 2 len show ?thesis by (auto simp: heap_but_up_def)
qed

lemma sift_up_heap: "heap_but_up key i xs \<Longrightarrow> is_heap key (sift_up key i xs)"
proof (induction key i xs rule: sift_up.induct)
  case (1 key i xs)
  show ?case
  proof (cases "i = 0 \<or> \<not> key (xs ! heap_parent i) < key (xs ! i)")
    case True
    with 1(2) show ?thesis
      by (subst sift_up.simps) (auto simp: heap_but_up_def is_heap_def not_less)
  next
    case False
    with 1 heap_but_up_swap show ?thesis by (subst sift_up.simps) auto
  qed
qed

lemma larger_child_max:
  assumes "2 * i + 1 < length xs" "j < length xs" "0 < j" "heap_parent j = i"
  shows "key (xs ! j) \<le> key (xs ! larger_child key i xs)"
  using assms heap_parent_eq [of j i] by (auto simp: larger_child_def)

lemma larger_child_props:
  assumes "2 * i + 1 < length xs"
  shows "larger_child key i xs < length xs" "heap_parent (larger_child key i xs) = i"
  using assms by (auto simp: larger_child_def heap_parent_def)

lemma heap_but_down_swap:
  assumes ok: "heap_but_down key i xs" and child: "2 * i + 1 < length xs"
    and c: "c = larger_child key i xs" and less: "key (xs ! i) < key (xs ! c)"
  shows "heap_but_down key c (swap_nth i c xs)"
proof -
  let ?ys = "swap_nth i c xs"
  have ic: "i < c" and len: "i < length xs" "c < length xs" and par: "heap_parent c = i"
    using child larger_child_greater larger_child_props [OF child, of key] by (auto simp: c)
  note nth = nth_swap_nth [OF len]
  have le: "key (xs ! j) \<le> key (xs ! heap_parent j)" if "j < length xs" "0 < j" "heap_parent j \<noteq> i" for j
    using ok that by (auto simp: heap_but_down_def)
  have sib: "key (xs ! j) \<le> key (xs ! c)" if "j < length xs" "0 < j" "heap_parent j = i" for j
    using larger_child_max [OF child that] by (simp add: c)
  have up: "key (xs ! c) \<le> key (xs ! heap_parent i)" if "0 < i"
    using ok that len ic par by (auto simp: heap_but_down_def)
  have 1: "key (?ys ! j) \<le> key (?ys ! heap_parent j)"
    if j: "j < length xs" "0 < j" "heap_parent j \<noteq> c" for j
  proof (cases "heap_parent j = i")
    case True
    with sib [of j] less j show ?thesis by (auto simp: nth)
  next
    case False
    then have "j \<noteq> c" using par by blast
    with False le [of j] up j show ?thesis by (auto simp: nth)
  qed
  have 2: "key (?ys ! j) \<le> key (?ys ! heap_parent c)"
    if j: "j < length xs" "0 < j" "heap_parent j = c" for j
  proof -
    have "c < j" using heap_parent_less [OF j(2)] j(3) by simp
    with le [of j] ic j show ?thesis by (auto simp: nth par)
  qed
  from 1 2 show ?thesis by (auto simp: heap_but_down_def)
qed

lemma sift_down_heap: "heap_but_down key i xs \<Longrightarrow> is_heap key (sift_down key i xs)"
proof (induction key i xs rule: sift_down.induct)
  case (1 key i xs)
  let ?c = "larger_child key i xs"
  have kids: "2 * i + 1 < length xs" if "j < length xs" "0 < j" "heap_parent j = i" for j
    using heap_parent_eq [of j i] that by auto
  show ?case
  proof (cases "length xs \<le> 2 * i + 1 \<or> \<not> key (xs ! i) < key (xs ! ?c)")
    case True
    have "key (xs ! j) \<le> key (xs ! heap_parent j)" if j: "j < length xs" "0 < j" for j
    proof (cases "heap_parent j = i")
      case par: True
      with True kids j have "\<not> key (xs ! i) < key (xs ! ?c)" by (metis not_le)
      with larger_child_max [OF kids, of j j key] par j show ?thesis
        by (metis linorder_not_less order_trans)
    next
      case False
      with 1(2) j show ?thesis by (auto simp: heap_but_down_def)
    qed
    with True show ?thesis by (subst sift_down.simps) (auto simp: is_heap_def Let_def)
  next
    case False
    with 1 heap_but_down_swap [of key i xs ?c] show ?thesis
      by (subst sift_down.simps) (auto simp: Let_def)
  qed
qed

lemma is_heap_Nil [simp]: "is_heap key []"
  by (simp add: is_heap_def)

lemma pq_push_heap:
  assumes "is_heap key q"
  shows "is_heap key (pq_push key x q)"
proof -
  have "heap_parent j < length q" if "j < Suc (length q)" "0 < j" for j
    using heap_parent_less [OF that(2)] that(1) by simp
  moreover have "heap_parent j \<noteq> length q" if "j < Suc (length q)" "0 < j" for j
    using heap_parent_less [OF that(2)] that(1) by simp
  ultimately have "heap_but_up key (length q) (q @ [x])"
    using assms by (auto simp: heap_but_up_def is_heap_def nth_append)
  then show ?thesis unfolding pq_push_def by (rule sift_up_heap)
qed

lemma pq_pop_heap:
  assumes "is_heap key q"
  shows "is_heap key (pq_pop key q)"
proof (cases "length q \<le> 1")
  case False
  let ?xs = "(butlast q)[0 := last q]"
  have "key (?xs ! j) \<le> key (?xs ! heap_parent j)"
    if j: "j < length q - 1" "0 < j" "heap_parent j \<noteq> 0" for j
  proof -
    have "heap_parent j < j" using heap_parent_less j by blast
    with assms j show ?thesis by (simp add: is_heap_def nth_list_update nth_butlast)
  qed
  then have "heap_but_down key 0 ?xs" by (simp add: heap_but_down_def)
  with False show ?thesis by (simp add: pq_pop_def sift_down_heap)
qed (simp add: pq_pop_def)

lemma heap_top_nth: "is_heap key q \<Longrightarrow> i < length q \<Longrightarrow> key (q ! i) \<le> key (q ! 0)"
proof (induction i rule: less_induct)
  case (less i)
  show ?case
  proof (cases "i = 0")
    case False
    then have "heap_parent i < i" by (simp add: heap_parent_less)
    with less False have "key (q ! heap_parent i) \<le> key (q ! 0)" by simp
    moreover have "key (q ! i) \<le> key (q ! heap_parent i)"
      using less.prems False by (auto simp: is_heap_def)
    ultimately show ?thesis by simp
  qed simp
qed

lemma pq_top_max: "is_heap key q \<Longrightarrow> x \<in> set q \<Longrightarrow> key x \<le> key (pq_top q)"
  by (auto simp: pq_top_def in_set_conv_nth heap_top_nth)

lemma pq_top_in: "q \<noteq> [] \<Longrightarrow> pq_top q \<in> set q"
  by (simp add: pq_top_def)

lemma is_heap_cong: "(\<And>x. x \<in> set q \<Longrightarrow> key x = key' x) \<Longrightarrow> is_heap key q = is_heap key' q"
proof -
  assume eq: "\<And>x. x \<in> set q \<Longrightarrow> key x = key' x"
  have "heap_parent j < length q" if "j < length q" "0 < j" for j
    using heap_parent_less [OF that(2)] that(1) by simp
  with eq show ?thesis by (simp add: is_heap_def)
qed

section \<open>Interface\<close>

text \<open>What the schedulers use of the queue.\<close>

locale max_queue =
  fixes key :: "'a \<Rightarrow> 'k::linorder"
    and push :: "'a \<Rightarrow> 'q \<Rightarrow> 'q"
    and top :: "'q \<Rightarrow> 'a"
    and pop :: "'q \<Rightarrow> 'q"
    and contents :: "'q \<Rightarrow> 'a multiset"
    and wf :: "'q \<Rightarrow> bool"
  assumes push_contents: "contents (push x q) = contents q + {#x#}"
    and pop_contents: "contents q \<noteq> {#} \<Longrightarrow> contents q = contents (pop q) + {#top q#}"
    and push_wf: "wf q \<Longrightarrow> wf (push x q)"
    and pop_wf: "wf q \<Longrightarrow> wf (pop q)"
    and top_max: "wf q \<Longrightarrow> x \<in># contents q \<Longrightarrow> key x \<le> key (top q)"
begin

lemma top_in: "contents q \<noteq> {#} \<Longrightarrow> top q \<in># contents q"
  by (subst pop_contents) simp_all

lemma pop_sub: "contents q \<noteq> {#} \<Longrightarrow> x \<in># contents (pop q) \<Longrightarrow> x \<in># contents q"
  by (subst pop_contents) simp_all

text \<open>An element larger than all others comes out next, whatever is pushed below it.\<close>

lemma top_push_smaller:
  assumes "wf q" "contents q \<noteq> {#}" "key x < key (top q)"
  shows "key (top (push x q)) = key (top q)"
proof (rule antisym)
  have "top q \<in># contents (push x q)"
    using top_in [OF assms(2)] by (simp add: push_contents)
  then show "key (top q) \<le> key (top (push x q))"
    using top_max push_wf assms(1) by blast
  have "top (push x q) \<in># contents q + {#x#}"
    using top_in [of "push x q"] by (simp add: push_contents)
  then show "key (top (push x q)) \<le> key (top q)"
    using top_max [OF assms(1)] assms(3) by auto
qed

lemma pop_maximal: "wf q \<Longrightarrow> contents q \<noteq> {#} \<Longrightarrow> x \<in># contents (pop q) \<Longrightarrow> key x \<le> key (top q)"
  using top_max pop_sub by blast

end

interpretation heap_queue: max_queue key "pq_push key" pq_top "pq_pop key" mset "is_heap key"
  for key :: "'a \<Rightarrow> 'k::linorder"
  by unfold_locales (use pq_pop_mset [of _ key] in \<open>simp_all add: pq_push_heap pq_pop_heap pq_top_max\<close>)

end
