(* ===== verification/N6_Priority.thy ===== *)
theory N6_Priority
  imports N6_ImmediateSuccessor N6_PriorityQueue
begin

text \<open>
  The priority schedulers: \<open>src/scheduling/schedulers/PriorityScheduler.cpp\<close> (definitions
  \<open>P_...\<close>: a map from negated priorities to queues), \<open>PriorityScheduler1.cpp\<close> (\<open>P1_...\<close>: two
  priority queues and one polling slot) and \<open>NoSleepPriorityScheduler.cpp\<close> (\<open>NSP_...\<close>: the same
  with a queue of polling slots). In \<open>PriorityScheduler\<close> the lock of a priority class is taken while
  the global lock is held and released after the queue has been changed, so the call takes effect
  as one step at the point where it holds the global lock.
\<close>

section \<open>Priorities\<close>

definition priority_of :: "world \<Rightarrow> task_ref \<Rightarrow> int" where
  "priority_of w t = t_priority (w_tasks w t)"

text \<open>
  The head of every \<open>addReadyTask\<close>: the local variable \<open>priority\<close> and the update of the task from
  the callback \<open>get_priority\<close>, when there is one.
\<close>

definition callback_priority :: "world \<Rightarrow> task_ref \<Rightarrow> int" where
  "callback_priority w t =
     (case ti_get_priority (t_taskInfo (w_tasks w t)) of None \<Rightarrow> 0 | Some p \<Rightarrow> p)"

definition refresh_priority :: "task_ref \<Rightarrow> world \<Rightarrow> world" where
  "refresh_priority t w =
     (case ti_get_priority (t_taskInfo (w_tasks w t)) of
        None \<Rightarrow> w | Some p \<Rightarrow> upd_task t (setPriority p) w)"

definition takes_free_successor_slot :: "world \<Rightarrow> cpu_ref option \<Rightarrow> ReadyTaskHint \<Rightarrow> bool" where
  "takes_free_successor_slot w computePlace hint =
     (hint \<noteq> BUSY_COMPUTE_PLACE_TASK_HINT \<and> takes_successor_slot w computePlace hint)"

datatype best_is =
    non_existant
  | from_immediate_successor_slot
  | from_unblocked_task_queue
  | from_ready_task_queue

section \<open>Two priority queues\<close>

record prio_queues =
  pq_readyTasks :: "task_ref list"
  pq_unblockedTasks :: "task_ref list"

text \<open>
  The choice among the immediate successor and the tops of the two queues, in the order of the
  tests: a later candidate wins only with a strictly larger priority.
\<close>

definition better :: "best_is \<Rightarrow> int option \<Rightarrow> best_is \<times> int \<Rightarrow> best_is \<times> int" where
  "better source topPriority best =
     (case topPriority of
        None \<Rightarrow> best
      | Some p \<Rightarrow> if fst best = non_existant \<or> snd best < p then (source, p) else best)"

definition top_priority :: "world \<Rightarrow> task_ref list \<Rightarrow> int option" where
  "top_priority w q = (if q = [] then None else Some (priority_of w (pq_top q)))"

definition PQ_choose :: "'a prio_queues_scheme \<Rightarrow> world \<Rightarrow> cpu_ref \<Rightarrow> best_is" where
  "PQ_choose s w computePlace =
     fst (better from_ready_task_queue (top_priority w (pq_readyTasks s))
           (better from_unblocked_task_queue (top_priority w (pq_unblockedTasks s))
             (case schedulerData w computePlace of
                None \<Rightarrow> (non_existant, 0)
              | Some task \<Rightarrow> (from_immediate_successor_slot, priority_of w task))))"

text \<open>Queueing the immediate successor when it was not chosen, and taking the chosen task.\<close>

definition requeue_successor ::
  "'a prio_queues_scheme \<Rightarrow> world \<Rightarrow> cpu_ref \<Rightarrow> 'a prio_queues_scheme \<times> world" where
  "requeue_successor s w computePlace =
     (case schedulerData w computePlace of
        None \<Rightarrow> (s, w)
      | Some task \<Rightarrow>
          (s\<lparr>pq_readyTasks := pq_push (priority_of w) task (pq_readyTasks s)\<rparr>,
           set_schedulerData computePlace None w))"

definition PQ_take ::
  "'a prio_queues_scheme \<Rightarrow> world \<Rightarrow> cpu_ref \<Rightarrow> task_ref option \<times> 'a prio_queues_scheme \<times> world" where
  "PQ_take s w computePlace =
     (case PQ_choose s w computePlace of
        non_existant \<Rightarrow> (None, s, w)
      | from_immediate_successor_slot \<Rightarrow>
          (schedulerData w computePlace, s, set_schedulerData computePlace None w)
      | from_ready_task_queue \<Rightarrow>
          (let (s1, w1) = requeue_successor s w computePlace in
           (Some (pq_top (pq_readyTasks s1)),
            s1\<lparr>pq_readyTasks := pq_pop (priority_of w1) (pq_readyTasks s1)\<rparr>, w1))
      | from_unblocked_task_queue \<Rightarrow>
          (let (s1, w1) = requeue_successor s w computePlace in
           (Some (pq_top (pq_unblockedTasks s1)),
            s1\<lparr>pq_unblockedTasks := pq_pop (priority_of w1) (pq_unblockedTasks s1)\<rparr>, w1)))"

definition PQ_enqueue ::
  "task_ref \<Rightarrow> ReadyTaskHint \<Rightarrow> bool \<Rightarrow> 'a prio_queues_scheme \<Rightarrow> world \<Rightarrow>
     (cpu_ref option \<times> 'a prio_queues_scheme \<times> world) result" where
  "PQ_enqueue task hint doGetIdle s w =
     (let s1 = (if hint = UNBLOCKED_TASK_HINT
                then s\<lparr>pq_unblockedTasks := pq_push (priority_of w) task (pq_unblockedTasks s)\<rparr>
                else s\<lparr>pq_readyTasks := pq_push (priority_of w) task (pq_readyTasks s)\<rparr>) in
      if doGetIdle then (let (idle, w1) = getIdleCPU w in Inr (idle, s1, w1))
      else Inr (None, s1, w))"

definition PQ_getReadyTask ::
  "'a prio_queues_scheme \<Rightarrow> world \<Rightarrow> cpu_ref \<Rightarrow> task_ref option \<Rightarrow> bool \<Rightarrow> bool \<Rightarrow>
     (task_ref option \<times> 'a prio_queues_scheme \<times> world) result" where
  "PQ_getReadyTask s w computePlace currentTask canMarkAsIdle doWait =
     (if cp_type (w_places w computePlace) \<noteq> nanos6_host_device then Inr (None, s, w)
      else (let (task, s1, w1) = PQ_take s w computePlace in
            case task of
              Some t \<Rightarrow> Inr (Some t, s1, w1)
            | None \<Rightarrow> Inr (None, s1, if canMarkAsIdle then cpuBecomesIdle computePlace w1 else w1)))"

definition PQ_getIdleComputePlace ::
  "'a prio_queues_scheme \<Rightarrow> world \<Rightarrow> bool \<Rightarrow> cpu_ref option \<times> 'a prio_queues_scheme \<times> world" where
  "PQ_getIdleComputePlace s w force =
     (if force \<or> pq_readyTasks s \<noteq> [] \<or> pq_unblockedTasks s \<noteq> []
      then (let (idle, w1) = getIdleCPU w in (idle, s, w1))
      else (None, s, w))"

definition PQ_disableComputePlace ::
  "'a prio_queues_scheme \<Rightarrow> world \<Rightarrow> cpu_ref \<Rightarrow> ('a prio_queues_scheme \<times> world) result" where
  "PQ_disableComputePlace s w computePlace = Inr (requeue_successor s w computePlace)"

section \<open>PriorityScheduler1\<close>

record prio_polling = prio_queues +
  pp_pollingSlot :: "cpu_ref option"

definition P1_new :: prio_polling where
  "P1_new = \<lparr>pq_readyTasks = [], pq_unblockedTasks = [], pp_pollingSlot = None\<rparr>"

text \<open>Handing a task to the registered poller, when there is one.\<close>

definition P1_hand_over ::
  "task_ref \<Rightarrow> prio_polling \<Rightarrow> world \<Rightarrow> (cpu_ref option \<times> prio_polling \<times> world) result \<Rightarrow>
     (cpu_ref option \<times> prio_polling \<times> world) result" where
  "P1_hand_over task s w otherwise =
     (case pp_pollingSlot s of
        Some slot \<Rightarrow>
          (let (b, w1) = slot_setTask slot task w in
           assert_that b ''expect == nullptr'' (Inr (None, s\<lparr>pp_pollingSlot := None\<rparr>, w1)))
      | None \<Rightarrow> otherwise)"

text \<open>
  \<open>addReadyTask\<close> tries the polling slot once before and once after it takes the lock; called as
  one step the second try sees what the first one saw.
\<close>

definition P1_addReadyTask ::
  "prio_polling \<Rightarrow> world \<Rightarrow> task_ref \<Rightarrow> cpu_ref option \<Rightarrow> ReadyTaskHint \<Rightarrow> bool \<Rightarrow>
     (cpu_ref option \<times> prio_polling \<times> world) result" where
  "P1_addReadyTask s w task computePlace hint doGetIdle =
     host_task_checks w task
       (let w0 = refresh_priority task w in
        if takes_free_successor_slot w0 computePlace hint
        then Inr (None, s, set_schedulerData (the computePlace) (Some task) w0)
        else P1_hand_over task s w0
               (P1_hand_over task s w0
                 (assert_that (pp_pollingSlot s = None) ''_pollingSlot.load() == nullptr''
                   (PQ_enqueue task hint doGetIdle s w0))))"

text \<open>The bodies of these three functions are the same in both classes.\<close>

definition P1_getReadyTask ::
  "prio_polling \<Rightarrow> world \<Rightarrow> cpu_ref \<Rightarrow> task_ref option \<Rightarrow> bool \<Rightarrow> bool \<Rightarrow>
     (task_ref option \<times> prio_polling \<times> world) result" where
  "P1_getReadyTask = PQ_getReadyTask"

definition P1_getIdleComputePlace ::
  "prio_polling \<Rightarrow> world \<Rightarrow> bool \<Rightarrow> cpu_ref option \<times> prio_polling \<times> world" where
  "P1_getIdleComputePlace = PQ_getIdleComputePlace"

definition P1_disableComputePlace :: "prio_polling \<Rightarrow> world \<Rightarrow> cpu_ref \<Rightarrow> (prio_polling \<times> world) result" where
  "P1_disableComputePlace = PQ_disableComputePlace"

definition P1_requestPolling ::
  "prio_polling \<Rightarrow> world \<Rightarrow> cpu_ref \<Rightarrow> cpu_ref \<Rightarrow> (bool \<times> prio_polling \<times> world) result" where
  "P1_requestPolling s w computePlace pollingSlot =
     (let (task, s1, w1) = PQ_take s w computePlace in
      case task of
        Some t \<Rightarrow>
          assert_that (w_slot w1 pollingSlot = None) ''pollingSlot->_task.load() == nullptr''
            (Inr (True, s1, set_slot pollingSlot (Some t) w1))
      | None \<Rightarrow>
          (case pp_pollingSlot s1 of
             None \<Rightarrow> Inr (True, s1\<lparr>pp_pollingSlot := Some pollingSlot\<rparr>, w1)
           | Some _ \<Rightarrow> Inr (False, s1, cpuBecomesIdle computePlace w1)))"

definition P1_releasePolling ::
  "prio_polling \<Rightarrow> world \<Rightarrow> cpu_ref \<Rightarrow> cpu_ref \<Rightarrow> (bool \<times> prio_polling \<times> world) result" where
  "P1_releasePolling s w computePlace pollingSlot =
     (if pp_pollingSlot s = Some pollingSlot
      then Inr (True, s\<lparr>pp_pollingSlot := None\<rparr>, cpuBecomesIdle computePlace w)
      else Inr (False, s, w))"

definition P1_ops :: "prio_polling scheduler_ops" where
  "P1_ops = \<lparr>so_addReadyTask = P1_addReadyTask,
             so_getReadyTask = P1_getReadyTask,
             so_canWait = Interface_canWait,
             so_getIdleComputePlace = P1_getIdleComputePlace,
             so_disableComputePlace = P1_disableComputePlace,
             so_enableComputePlace = Interface_enableComputePlace,
             so_requestPolling = P1_requestPolling,
             so_releasePolling = P1_releasePolling,
             so_getName = ''priority''\<rparr>"

section \<open>NoSleepPriorityScheduler\<close>

record prio_nosleep = prio_queues +
  pn_pollingSlots :: "cpu_ref list"

definition NSP_new :: prio_nosleep where
  "NSP_new = \<lparr>pq_readyTasks = [], pq_unblockedTasks = [], pn_pollingSlots = []\<rparr>"

definition NSP_addReadyTask ::
  "prio_nosleep \<Rightarrow> world \<Rightarrow> task_ref \<Rightarrow> cpu_ref option \<Rightarrow> ReadyTaskHint \<Rightarrow> bool \<Rightarrow>
     (cpu_ref option \<times> prio_nosleep \<times> world) result" where
  "NSP_addReadyTask s w task computePlace hint doGetIdle =
     fail_if (getDeviceType (w_tasks w task) \<noteq> nanos6_host_device)
       ''Device tasks not supported by this scheduler''
       (let w0 = refresh_priority task w in
        if takes_free_successor_slot w0 computePlace hint
        then Inr (None, s, set_schedulerData (the computePlace) (Some task) w0)
        else (case pn_pollingSlots s of
                slot # slots \<Rightarrow> Inr (None, s\<lparr>pn_pollingSlots := slots\<rparr>, set_slot slot (Some task) w0)
              | [] \<Rightarrow> PQ_enqueue task hint doGetIdle s w0))"

definition NSP_getReadyTask ::
  "prio_nosleep \<Rightarrow> world \<Rightarrow> cpu_ref \<Rightarrow> task_ref option \<Rightarrow> bool \<Rightarrow> bool \<Rightarrow>
     (task_ref option \<times> prio_nosleep \<times> world) result" where
  "NSP_getReadyTask = PQ_getReadyTask"

definition NSP_getIdleComputePlace ::
  "prio_nosleep \<Rightarrow> world \<Rightarrow> bool \<Rightarrow> cpu_ref option \<times> prio_nosleep \<times> world" where
  "NSP_getIdleComputePlace = PQ_getIdleComputePlace"

definition NSP_disableComputePlace :: "prio_nosleep \<Rightarrow> world \<Rightarrow> cpu_ref \<Rightarrow> (prio_nosleep \<times> world) result" where
  "NSP_disableComputePlace = PQ_disableComputePlace"

definition NSP_requestPolling ::
  "prio_nosleep \<Rightarrow> world \<Rightarrow> cpu_ref \<Rightarrow> cpu_ref \<Rightarrow> (bool \<times> prio_nosleep \<times> world) result" where
  "NSP_requestPolling s w computePlace pollingSlot =
     (let (task, s1, w1) = PQ_take s w computePlace in
      case task of
        Some t \<Rightarrow>
          assert_that (w_slot w1 pollingSlot = None) ''pollingSlot->_task.load() == nullptr''
            (Inr (True, s1, set_slot pollingSlot (Some t) w1))
      | None \<Rightarrow> Inr (True, s1\<lparr>pn_pollingSlots := pn_pollingSlots s1 @ [pollingSlot]\<rparr>, w1))"

definition NSP_releasePolling ::
  "prio_nosleep \<Rightarrow> world \<Rightarrow> cpu_ref \<Rightarrow> cpu_ref \<Rightarrow> (bool \<times> prio_nosleep \<times> world) result" where
  "NSP_releasePolling s w computePlace pollingSlot =
     assert_that (pollingSlot \<in> set (pn_pollingSlots s) \<or> w_slot w pollingSlot \<noteq> None)
       ''it != _pollingSlots.end() || pollingSlot->_task.load() != nullptr''
       (if pollingSlot \<notin> set (pn_pollingSlots s) then Inr (False, s, w)
        else Inr (True, s\<lparr>pn_pollingSlots := remove1 pollingSlot (pn_pollingSlots s)\<rparr>,
                  cpuBecomesIdle computePlace w))"

definition NSP_ops :: "prio_nosleep scheduler_ops" where
  "NSP_ops = \<lparr>so_addReadyTask = NSP_addReadyTask,
              so_getReadyTask = NSP_getReadyTask,
              so_canWait = Interface_canWait,
              so_getIdleComputePlace = NSP_getIdleComputePlace,
              so_disableComputePlace = NSP_disableComputePlace,
              so_enableComputePlace = Interface_enableComputePlace,
              so_requestPolling = NSP_requestPolling,
              so_releasePolling = NSP_releasePolling,
              so_getName = ''nosleep-priority''\<rparr>"

section \<open>PriorityScheduler\<close>

text \<open>
  \<open>_tasks\<close> is a \<open>std::map\<close> from the negated priority to the queue of that class: an association
  list with ascending keys. \<open>update_class\<close> is \<open>_tasks[key]\<close>, which inserts an empty class when there
  is none, followed by a change of the queue.
\<close>

type_synonym priority_classes = "(int \<times> task_ref list) list"

record prio_classes =
  pc_tasks :: priority_classes
  pc_pollingSlot :: "cpu_ref option"

definition P_new :: prio_classes where
  "P_new = \<lparr>pc_tasks = [], pc_pollingSlot = None\<rparr>"

fun update_class :: "int \<Rightarrow> (task_ref list \<Rightarrow> task_ref list) \<Rightarrow> priority_classes \<Rightarrow> priority_classes" where
  "update_class k f [] = [(k, f [])]"
| "update_class k f ((k', q) # m) =
     (if k = k' then (k, f q) # m
      else if k < k' then (k, f []) # (k', q) # m
      else (k', q) # update_class k f m)"

definition P_hand_over ::
  "task_ref \<Rightarrow> prio_classes \<Rightarrow> world \<Rightarrow> (cpu_ref option \<times> prio_classes \<times> world) result \<Rightarrow>
     (cpu_ref option \<times> prio_classes \<times> world) result" where
  "P_hand_over task s w otherwise =
     (case pc_pollingSlot s of
        Some slot \<Rightarrow>
          (let (b, w1) = slot_setTask slot task w in
           assert_that b ''expect == nullptr'' (Inr (None, s\<lparr>pc_pollingSlot := None\<rparr>, w1)))
      | None \<Rightarrow> otherwise)"

definition P_addReadyTask ::
  "prio_classes \<Rightarrow> world \<Rightarrow> task_ref \<Rightarrow> cpu_ref option \<Rightarrow> ReadyTaskHint \<Rightarrow> bool \<Rightarrow>
     (cpu_ref option \<times> prio_classes \<times> world) result" where
  "P_addReadyTask s w task computePlace hint doGetIdle =
     host_task_checks w task
       (let priority = callback_priority w task;
            w0 = refresh_priority task w in
        if takes_free_successor_slot w0 computePlace hint
        then Inr (None, s, set_schedulerData (the computePlace) (Some task) w0)
        else P_hand_over task s w0
               (P_hand_over task s w0
                 (assert_that (pc_pollingSlot s = None) ''_pollingSlot.load() == nullptr''
                   (let s1 = s\<lparr>pc_tasks := update_class (- priority)
                                  (if hint = UNBLOCKED_TASK_HINT \<or> hint = CHILD_TASK_HINT
                                   then (\<lambda>q. task # q) else (\<lambda>q. q @ [task])) (pc_tasks s)\<rparr> in
                    if doGetIdle then (let (idle, w1) = getIdleCPU w0 in Inr (idle, s1, w1))
                    else Inr (None, s1, w0)))))"

text \<open>
  The part that \<open>getReadyTask\<close> and \<open>requestPolling\<close> share: the choice between the immediate
  successor and the front of the first class. When the class becomes empty it is erased; when the
  immediate successor was not chosen it is appended to the class of its priority.
\<close>

definition P_requeue ::
  "cpu_ref \<Rightarrow> world \<Rightarrow> priority_classes \<Rightarrow> priority_classes \<times> world" where
  "P_requeue computePlace w m =
     (case schedulerData w computePlace of
        None \<Rightarrow> (m, w)
      | Some succ \<Rightarrow>
          (update_class (- priority_of w succ) (\<lambda>q. q @ [succ]) m, set_schedulerData computePlace None w))"

definition P_take ::
  "prio_classes \<Rightarrow> world \<Rightarrow> cpu_ref \<Rightarrow> (task_ref option \<times> prio_classes \<times> world) result" where
  "P_take s w computePlace =
     (case pc_tasks s of
        [] \<Rightarrow>
          (case schedulerData w computePlace of
             None \<Rightarrow> Inr (None, s, w)
           | Some succ \<Rightarrow> Inr (Some succ, s, set_schedulerData computePlace None w))
      | (k, q) # rest \<Rightarrow>
          (case q of
             [] \<Rightarrow> Inl (AssertFailed ''!priorityClass->_queue.empty()'')
           | queuedTask # q' \<Rightarrow>
               (case schedulerData w computePlace of
                  Some succ \<Rightarrow>
                    if priority_of w succ < priority_of w queuedTask
                    then (let (m, w1) = P_requeue computePlace w (if q' = [] then rest else (k, q') # rest) in
                          Inr (Some queuedTask, s\<lparr>pc_tasks := m\<rparr>, w1))
                    else Inr (Some succ, s, set_schedulerData computePlace None w)
                | None \<Rightarrow>
                    (let (m, w1) = P_requeue computePlace w (if q' = [] then rest else (k, q') # rest) in
                     Inr (Some queuedTask, s\<lparr>pc_tasks := m\<rparr>, w1)))))"

definition P_getReadyTask ::
  "prio_classes \<Rightarrow> world \<Rightarrow> cpu_ref \<Rightarrow> task_ref option \<Rightarrow> bool \<Rightarrow> bool \<Rightarrow>
     (task_ref option \<times> prio_classes \<times> world) result" where
  "P_getReadyTask s w computePlace currentTask canMarkAsIdle doWait =
     (if cp_type (w_places w computePlace) \<noteq> nanos6_host_device then Inr (None, s, w)
      else result_bind (P_take s w computePlace)
        (\<lambda>(task, s1, w1).
          case task of
            Some t \<Rightarrow> Inr (Some t, s1, w1)
          | None \<Rightarrow> Inr (None, s1, if canMarkAsIdle then cpuBecomesIdle computePlace w1 else w1)))"

definition P_getIdleComputePlace ::
  "prio_classes \<Rightarrow> world \<Rightarrow> bool \<Rightarrow> cpu_ref option \<times> prio_classes \<times> world" where
  "P_getIdleComputePlace s w force =
     (if force \<or> pc_tasks s \<noteq> [] then (let (idle, w1) = getIdleCPU w in (idle, s, w1))
      else (None, s, w))"

definition P_disableComputePlace ::
  "prio_classes \<Rightarrow> world \<Rightarrow> cpu_ref \<Rightarrow> (prio_classes \<times> world) result" where
  "P_disableComputePlace s w computePlace =
     (let (m, w1) = P_requeue computePlace w (pc_tasks s) in Inr (s\<lparr>pc_tasks := m\<rparr>, w1))"

definition P_requestPolling ::
  "prio_classes \<Rightarrow> world \<Rightarrow> cpu_ref \<Rightarrow> cpu_ref \<Rightarrow> (bool \<times> prio_classes \<times> world) result" where
  "P_requestPolling s w computePlace pollingSlot =
     result_bind (P_take s w computePlace)
       (\<lambda>(task, s1, w1).
         case task of
           Some t \<Rightarrow>
             assert_that (w_slot w1 pollingSlot = None) ''pollingSlot->_task.load() == nullptr''
               (Inr (True, s1, set_slot pollingSlot (Some t) w1))
         | None \<Rightarrow>
             (case pc_pollingSlot s1 of
                None \<Rightarrow> Inr (True, s1\<lparr>pc_pollingSlot := Some pollingSlot\<rparr>, w1)
              | Some _ \<Rightarrow> Inr (False, s1, cpuBecomesIdle computePlace w1)))"

definition P_releasePolling ::
  "prio_classes \<Rightarrow> world \<Rightarrow> cpu_ref \<Rightarrow> cpu_ref \<Rightarrow> (bool \<times> prio_classes \<times> world) result" where
  "P_releasePolling s w computePlace pollingSlot =
     (if pc_pollingSlot s = Some pollingSlot
      then Inr (True, s\<lparr>pc_pollingSlot := None\<rparr>, cpuBecomesIdle computePlace w)
      else Inr (False, s, w))"

definition P_ops :: "prio_classes scheduler_ops" where
  "P_ops = \<lparr>so_addReadyTask = P_addReadyTask,
            so_getReadyTask = P_getReadyTask,
            so_canWait = Interface_canWait,
            so_getIdleComputePlace = P_getIdleComputePlace,
            so_disableComputePlace = P_disableComputePlace,
            so_enableComputePlace = Interface_enableComputePlace,
            so_requestPolling = P_requestPolling,
            so_releasePolling = P_releasePolling,
            so_getName = ''priority''\<rparr>"

end
