(* ===== verification/N6_PriorityProofs.thy ===== *)
theory N6_PriorityProofs
  imports N6_Priority
begin

text \<open>
  The priority schedulers conserve tasks: the laws of the locales \<open>ready_pool\<close> and
  \<open>guarded_pool\<close> for \<open>PriorityScheduler\<close>, \<open>PriorityScheduler1\<close> and \<open>NoSleepPriorityScheduler\<close>.
\<close>

section \<open>Two priority queues\<close>

definition prio_queued :: "'a prio_queues_scheme \<Rightarrow> task_ref multiset" where
  "prio_queued s = mset (pq_readyTasks s) + mset (pq_unblockedTasks s)"

text \<open>A step that touches neither the CPUs nor the polling slots nor the tasks.\<close>

definition same_frame :: "world \<Rightarrow> world \<Rightarrow> bool" where
  "same_frame w w' = (w_cpus w' = w_cpus w \<and> w_slot w' = w_slot w \<and> w_tasks w' = w_tasks w)"

lemma same_frameD:
  assumes "same_frame w w'"
  shows "w_cpus w' = w_cpus w" "w_slot w' = w_slot w" "w_tasks w' = w_tasks w"
    "world_ok w' = world_ok w" "place_ok w' = place_ok w" "priority_of w' = priority_of w"
  using assms by (auto simp: same_frame_def world_ok_def place_ok_def priority_of_def fun_eq_iff)

lemma same_frame_simps [simp]:
  "same_frame w w"
  "same_frame w (set_schedulerData c x w)"
  "same_frame w (cpuBecomesIdle c w)"
  "same_frame w (snd (getIdleCPU w))"
  by (simp_all add: same_frame_def)

lemma getIdleCPU_same_frame: "getIdleCPU w = (r, w') \<Longrightarrow> same_frame w w' \<and> held_slots w' = held_slots w"
  using same_frame_simps(4) [of w] getIdleCPU_keeps by fastforce

lemma refresh_priority_frame [simp]:
  "w_cpus (refresh_priority t w) = w_cpus w"
  "w_slot (refresh_priority t w) = w_slot w"
  "schedulerData (refresh_priority t w) = schedulerData w"
  "world_ok (refresh_priority t w) = world_ok w"
  "place_ok (refresh_priority t w) = place_ok w"
  "held_slots (refresh_priority t w) = held_slots w"
  by (simp_all add: refresh_priority_def split: option.splits)

lemma takes_free_successor_slotD:
  "takes_free_successor_slot w cp hint \<Longrightarrow> \<exists>c. cp = Some c \<and> schedulerData w c = None"
  by (auto simp: takes_free_successor_slot_def dest: takes_successor_slotD)

text \<open>What the choice means.\<close>

lemma better_simps [simp]:
  "better src None best = best"
  "better src (Some p) best = (if fst best = non_existant \<or> snd best < p then (src, p) else best)"
  by (simp_all add: better_def)

lemma PQ_choose_sound:
  "PQ_choose s w c = from_immediate_successor_slot \<Longrightarrow> \<exists>t. schedulerData w c = Some t"
  "PQ_choose s w c = from_unblocked_task_queue \<Longrightarrow> pq_unblockedTasks s \<noteq> []"
  "PQ_choose s w c = from_ready_task_queue \<Longrightarrow> pq_readyTasks s \<noteq> []"
  "PQ_choose s w c = non_existant \<longleftrightarrow>
     schedulerData w c = None \<and> pq_unblockedTasks s = [] \<and> pq_readyTasks s = []"
  by (auto simp: PQ_choose_def top_priority_def split: option.splits if_splits)

text \<open>An operation on the queues that leaves the rest of the scheduler alone.\<close>

definition queues_only :: "'a prio_queues_scheme \<Rightarrow> 'a prio_queues_scheme \<Rightarrow> bool" where
  "queues_only s s' = (prio_queues.more s' = prio_queues.more s)"

lemma queues_only_simps [simp]:
  "queues_only s s"
  "queues_only s (s'\<lparr>pq_readyTasks := x\<rparr>) = queues_only s s'"
  "queues_only s (s'\<lparr>pq_unblockedTasks := x\<rparr>) = queues_only s s'"
  by (simp_all add: queues_only_def)

lemma queues_only_polling: "queues_only s s' \<Longrightarrow> pp_pollingSlot s' = pp_pollingSlot s"
  by (cases s; cases s') (simp add: queues_only_def)

lemma queues_only_slots: "queues_only s s' \<Longrightarrow> pn_pollingSlots s' = pn_pollingSlots s"
  by (cases s; cases s') (simp add: queues_only_def)

definition take_ok ::
  "cpu_ref \<Rightarrow> 'a prio_queues_scheme \<Rightarrow> world \<Rightarrow> task_ref option \<Rightarrow> 'a prio_queues_scheme \<Rightarrow> world \<Rightarrow> bool" where
  "take_ok c s w r s' w' =
     (same_frame w w' \<and> prio_queued s' + held_slots w' + mset_opt r = prio_queued s + held_slots w \<and>
      queues_only s s' \<and> (r = None \<longrightarrow> s' = s \<and> w' = w))"

lemma requeue_successor_law:
  assumes "world_ok w" "place_ok w c" "requeue_successor s w c = (s', w')"
  shows "same_frame w w'" "prio_queued s' + held_slots w' = prio_queued s + held_slots w"
    "queues_only s s'" "pq_unblockedTasks s' = pq_unblockedTasks s"
    "pq_readyTasks s \<noteq> [] \<Longrightarrow> pq_readyTasks s' \<noteq> []"
  using assms held_slots_clear_data [OF assms(1,2)]
  by (auto simp: requeue_successor_def prio_queued_def split: option.splits)

lemma PQ_take_law:
  assumes "world_ok w" "place_ok w c" "PQ_take s w c = (r, s', w')"
  shows "take_ok c s w r s' w'"
proof (cases "PQ_choose s w c")
  case non_existant
  with assms show ?thesis by (simp add: PQ_take_def take_ok_def)
next
  case from_immediate_successor_slot
  then obtain t where t: "schedulerData w c = Some t" using PQ_choose_sound(1) by blast
  then have "r = Some t" "s' = s" "w' = set_schedulerData c None w"
    using assms(3) from_immediate_successor_slot by (auto simp: PQ_take_def)
  then show ?thesis
    using held_slots_clear_data [OF assms(1,2) t] by (simp add: take_ok_def)
next
  case from_ready_task_queue
  obtain s1 w1 where rq: "requeue_successor s w c = (s1, w1)" by fastforce
  note law = requeue_successor_law [OF assms(1,2) rq]
  have "pq_readyTasks s1 \<noteq> []" using law(5) PQ_choose_sound(3) [OF from_ready_task_queue] by simp
  with assms(3) law rq from_ready_task_queue show ?thesis
    using pq_pop_mset [of "pq_readyTasks s1" "priority_of w1"]
    by (auto simp: PQ_take_def take_ok_def prio_queued_def)
next
  case from_unblocked_task_queue
  obtain s1 w1 where rq: "requeue_successor s w c = (s1, w1)" by fastforce
  note law = requeue_successor_law [OF assms(1,2) rq]
  have "pq_unblockedTasks s1 \<noteq> []" using law(4) PQ_choose_sound(2) [OF from_unblocked_task_queue] by simp
  with assms(3) law rq from_unblocked_task_queue show ?thesis
    using pq_pop_mset [of "pq_unblockedTasks s1" "priority_of w1"]
    by (auto simp: PQ_take_def take_ok_def prio_queued_def)
qed

lemma PQ_enqueue_law:
  assumes "PQ_enqueue t h b s w = Inr (r, s', w')"
  shows "same_frame w w'" "held_slots w' = held_slots w" "prio_queued s' = prio_queued s + {#t#}"
    "queues_only s s'"
  using assms by (auto simp: PQ_enqueue_def prio_queued_def Let_def
      split: if_splits prod.splits dest!: getIdleCPU_same_frame)

text \<open>The calls that are the same in both classes, for any invariant that they cannot break.\<close>

locale prio_client =
  fixes invar :: "'a prio_queues_scheme \<Rightarrow> world \<Rightarrow> bool"
  assumes invar_world: "invar s w \<Longrightarrow> world_ok w"
    and invar_frame: "invar s w \<Longrightarrow> queues_only s s' \<Longrightarrow> same_frame w w' \<Longrightarrow> invar s' w'"
begin

lemma take_invar:
  assumes "invar s w" "place_ok w c" "PQ_take s w c = (r, s', w')"
  shows "take_ok c s w r s' w'" "conserves prio_queued invar {#} (mset_opt r) s w s' w'"
  using PQ_take_law [OF invar_world [OF assms(1)] assms(2,3)] invar_frame [OF assms(1)]
  by (auto simp: take_ok_def conserves_def same_frame_def)

lemma get_law:
  assumes "invar s w" "place_ok w c" "PQ_getReadyTask s w c cur b d = Inr (r, s', w')"
  shows "conserves prio_queued invar {#} (mset_opt r) s w s' w'"
proof (cases "cp_type (w_places w c) \<noteq> nanos6_host_device")
  case True
  with assms show ?thesis by (simp add: PQ_getReadyTask_def conserves_def)
next
  case False
  obtain t s1 w1 where take: "PQ_take s w c = (t, s1, w1)" by (metis prod_cases3)
  note law = take_invar [OF assms(1,2) take]
  show ?thesis
  proof (cases t)
    case None
    with law assms False take invar_frame [OF assms(1), of s "cpuBecomesIdle c w"] show ?thesis
      by (auto simp: PQ_getReadyTask_def conserves_def take_ok_def)
  next
    case Some
    with law assms False take show ?thesis by (auto simp: PQ_getReadyTask_def)
  qed
qed

lemma idle_law:
  assumes "invar s w" "PQ_getIdleComputePlace s w force = (r, s', w')"
  shows "conserves prio_queued invar {#} {#} s w s' w'"
proof (cases "getIdleCPU w")
  case (Pair i w1)
  with assms getIdleCPU_same_frame [OF Pair] invar_frame [OF assms(1)] show ?thesis
    by (auto simp: PQ_getIdleComputePlace_def conserves_def same_frame_def split: if_splits)
qed

lemma disable_law:
  assumes "invar s w" "place_ok w c" "PQ_disableComputePlace s w c = Inr (s', w')"
  shows "conserves prio_queued invar {#} {#} s w s' w'"
  using requeue_successor_law [OF invar_world [OF assms(1)] assms(2), of s s' w'] assms(3)
    invar_frame [OF assms(1)]
  by (auto simp: PQ_disableComputePlace_def conserves_def same_frame_def)

lemma enqueue_law:
  assumes "invar s w" "PQ_enqueue t h b s w = Inr (r, s', w')"
  shows "conserves prio_queued invar {#t#} {#} s w s' w'"
  using PQ_enqueue_law [OF assms(2)] invar_frame [OF assms(1)]
  by (auto simp: conserves_def same_frame_def)

end

section \<open>PriorityScheduler1\<close>

definition p1_inv :: "prio_polling \<Rightarrow> world \<Rightarrow> bool" where
  "p1_inv s w = (world_ok w \<and> (\<forall>c. pp_pollingSlot s = Some c \<longrightarrow> place_ok w c))"

interpretation p1: prio_client p1_inv
  by unfold_locales
    (auto simp: p1_inv_def same_frameD dest: queues_only_polling)

lemma prio_queued_polling [simp]:
  "prio_queued (s\<lparr>pp_pollingSlot := x\<rparr>) = prio_queued s"
  "prio_queued (s'\<lparr>pn_pollingSlots := y\<rparr>) = prio_queued s'"
  by (simp_all add: prio_queued_def)

lemma P1_add_law:
  assumes "p1_inv s w" "\<And>c. cp = Some c \<Longrightarrow> place_ok w c"
    and add: "P1_addReadyTask s w t cp h b = Inr (r, s', w')"
  shows "conserves prio_queued p1_inv {#t#} {#} s w s' w'"
proof -
  let ?w = "refresh_priority t w"
  have inv: "p1_inv s ?w" using assms(1) by (simp add: p1_inv_def)
  consider (slot) "takes_free_successor_slot ?w cp h"
    | (poller) c where "\<not> takes_free_successor_slot ?w cp h" "pp_pollingSlot s = Some c"
    | (queue) "\<not> takes_free_successor_slot ?w cp h" "pp_pollingSlot s = None"
    by fastforce
  then have "conserves prio_queued p1_inv {#t#} {#} s ?w s' w'"
  proof cases
    case slot
    with takes_free_successor_slotD [OF slot] assms inv show ?thesis
      by (auto simp: P1_addReadyTask_def conserves_def p1_inv_def held_slots_fill_data)
  next
    case poller
    with add inv show ?thesis
      by (auto simp: P1_addReadyTask_def P1_hand_over_def slot_setTask_def conserves_def p1_inv_def
          held_slots_fill_slot Let_def split: option.splits)
  next
    case queue
    with add p1.enqueue_law [OF inv] show ?thesis
      by (auto simp: P1_addReadyTask_def P1_hand_over_def)
  qed
  then show ?thesis by (simp add: conserves_def)
qed

lemma P1_request_law:
  assumes "p1_inv s w" "place_ok w c" "P1_requestPolling s w c c = Inr (ok, s', w')"
  shows "conserves prio_queued p1_inv {#} {#} s w s' w'"
proof -
  obtain t s1 w1 where take: "PQ_take s w c = (t, s1, w1)" by (metis prod_cases3)
  note law = p1.take_invar [OF assms(1,2) take]
  show ?thesis
  proof (cases t)
    case None
    with law assms take show ?thesis
      by (auto simp: P1_requestPolling_def take_ok_def conserves_def p1_inv_def split: option.splits)
  next
    case (Some x)
    have "place_ok w1 c" "world_ok w1" using law assms by (auto simp: take_ok_def same_frameD p1_inv_def)
    with Some law assms take show ?thesis
      by (auto simp: P1_requestPolling_def conserves_def p1_inv_def held_slots_fill_slot)
  qed
qed

lemma P1_release_law:
  assumes "p1_inv s w" "P1_releasePolling s w c c = Inr (ok, s', w')"
  shows "conserves prio_queued p1_inv {#} {#} s w s' w'"
  using assms by (auto simp: P1_releasePolling_def conserves_def p1_inv_def split: if_splits)

lemmas P1_simps = P1_ops_def P1_getReadyTask_def P1_getIdleComputePlace_def P1_disableComputePlace_def
  Interface_enableComputePlace_def

interpretation p1_pool: ready_pool prio_queued p1_inv P1_ops
proof unfold_locales
  show "p1_inv s (set_slot c None w)" if "p1_inv s w" for s c w
    using that by (simp add: p1_inv_def)
qed (auto simp: P1_simps conserves_refl intro: p1.invar_world p1.get_law p1.idle_law p1.disable_law
  P1_add_law P1_request_law P1_release_law)

section \<open>NoSleepPriorityScheduler\<close>

definition nsp_inv :: "prio_nosleep \<Rightarrow> world \<Rightarrow> bool" where
  "nsp_inv s w =
     (world_ok w \<and> distinct (pn_pollingSlots s) \<and>
      (\<forall>c \<in> set (pn_pollingSlots s). place_ok w c \<and> w_slot w c = None))"

text \<open>
  \<open>addReadyTask\<close> stores into the polling slot without looking at it: the scheduler relies on its
  callers to offer an empty slot, and each slot once.
\<close>

fun fresh_slot :: "sched_event \<Rightarrow> prio_nosleep \<Rightarrow> world \<Rightarrow> bool" where
  "fresh_slot (EvRequest c) s w = (c \<notin> set (pn_pollingSlots s) \<and> w_slot w c = None)"
| "fresh_slot e s w = True"

interpretation nsp: prio_client nsp_inv
  by unfold_locales (auto simp: nsp_inv_def same_frameD dest: queues_only_slots)

lemma NSP_add_law:
  assumes "nsp_inv s w" "\<And>c. cp = Some c \<Longrightarrow> place_ok w c"
    and add: "NSP_addReadyTask s w t cp h b = Inr (r, s', w')"
  shows "conserves prio_queued nsp_inv {#t#} {#} s w s' w'"
proof -
  let ?w = "refresh_priority t w"
  have inv: "nsp_inv s ?w" using assms(1) by (simp add: nsp_inv_def)
  consider (slot) "takes_free_successor_slot ?w cp h"
    | (poller) c cs where "\<not> takes_free_successor_slot ?w cp h" "pn_pollingSlots s = c # cs"
    | (queue) "\<not> takes_free_successor_slot ?w cp h" "pn_pollingSlots s = []"
    by (cases "pn_pollingSlots s") auto
  then have "conserves prio_queued nsp_inv {#t#} {#} s ?w s' w'"
  proof cases
    case slot
    with takes_free_successor_slotD [OF slot] assms inv show ?thesis
      by (auto simp: NSP_addReadyTask_def conserves_def nsp_inv_def held_slots_fill_data)
  next
    case poller
    with add inv show ?thesis
      by (auto simp: NSP_addReadyTask_def conserves_def nsp_inv_def held_slots_fill_slot)
  next
    case queue
    with add nsp.enqueue_law [OF inv] show ?thesis
      by (auto simp: NSP_addReadyTask_def)
  qed
  then show ?thesis by (simp add: conserves_def)
qed

lemma NSP_request_law:
  assumes "nsp_inv s w" "place_ok w c" "fresh_slot (EvRequest c) s w"
    "NSP_requestPolling s w c c = Inr (ok, s', w')"
  shows "conserves prio_queued nsp_inv {#} {#} s w s' w'"
proof -
  obtain t s1 w1 where take: "PQ_take s w c = (t, s1, w1)" by (metis prod_cases3)
  note law = nsp.take_invar [OF assms(1,2) take]
  show ?thesis
  proof (cases t)
    case None
    with law assms take show ?thesis
      by (auto simp: NSP_requestPolling_def take_ok_def conserves_def nsp_inv_def)
  next
    case (Some x)
    have "place_ok w1 c" "world_ok w1" "pn_pollingSlots s1 = pn_pollingSlots s"
      using law assms by (auto simp: take_ok_def same_frameD nsp_inv_def queues_only_slots)
    with Some law assms take show ?thesis
      by (auto simp: NSP_requestPolling_def conserves_def nsp_inv_def held_slots_fill_slot)
  qed
qed

lemma NSP_release_law:
  assumes "nsp_inv s w" "NSP_releasePolling s w c c = Inr (ok, s', w')"
  shows "conserves prio_queued nsp_inv {#} {#} s w s' w'"
  using assms by (auto simp: NSP_releasePolling_def conserves_def nsp_inv_def split: if_splits)

lemmas NSP_simps = NSP_ops_def NSP_getReadyTask_def NSP_getIdleComputePlace_def
  NSP_disableComputePlace_def Interface_enableComputePlace_def

interpretation nsp_pool: guarded_pool prio_queued nsp_inv NSP_ops fresh_slot
proof unfold_locales
  show "nsp_inv s (set_slot c None w)" if "nsp_inv s w" for s c w
    using that by (auto simp: nsp_inv_def)
qed (auto simp: NSP_simps conserves_refl simp del: fresh_slot.simps
  intro: nsp.invar_world nsp.get_law nsp.idle_law nsp.disable_law NSP_add_law NSP_request_law NSP_release_law)

section \<open>PriorityScheduler\<close>

definition class_queued :: "priority_classes \<Rightarrow> task_ref multiset" where
  "class_queued m = mset (concat (map snd m))"

lemma class_queued_simps [simp]:
  "class_queued [] = {#}"
  "class_queued ((k, q) # m) = mset q + class_queued m"
  by (simp_all add: class_queued_def)

lemma class_queued_update:
  assumes "\<And>q. mset (f q) = mset q + {#t#}"
  shows "class_queued (update_class k f m) = class_queued m + {#t#}"
  using assms by (induction k f m rule: update_class.induct) auto

definition p_queued :: "prio_classes \<Rightarrow> task_ref multiset" where
  "p_queued s = class_queued (pc_tasks s)"

definition p_inv :: "prio_classes \<Rightarrow> world \<Rightarrow> bool" where
  "p_inv s w = (world_ok w \<and> (\<forall>c. pc_pollingSlot s = Some c \<longrightarrow> place_ok w c))"

lemma p_inv_frame: "p_inv s w \<Longrightarrow> pc_pollingSlot s' = pc_pollingSlot s \<Longrightarrow> same_frame w w' \<Longrightarrow> p_inv s' w'"
  by (simp add: p_inv_def same_frameD)

lemma P_requeue_law:
  assumes "world_ok w" "place_ok w c" "P_requeue c w m = (m', w')"
  shows "same_frame w w'" "class_queued m' + held_slots w' = class_queued m + held_slots w"
  using assms held_slots_clear_data [OF assms(1,2)]
  by (auto simp: P_requeue_def class_queued_update split: option.splits)

text \<open>The first class without its front.\<close>

definition drop_front :: "int \<Rightarrow> task_ref list \<Rightarrow> priority_classes \<Rightarrow> priority_classes" where
  "drop_front k q rest = (if q = [] then rest else (k, q) # rest)"

lemma class_queued_drop_front [simp]: "class_queued (drop_front k q rest) = mset q + class_queued rest"
  by (simp add: drop_front_def)

text \<open>The three outcomes of the choice.\<close>

lemma P_take_cases:
  assumes "P_take s w c = Inr (r, s', w')"
  obtains (none) "pc_tasks s = []" "schedulerData w c = None" "r = None" "s' = s" "w' = w"
  | (successor) t where "schedulerData w c = Some t" "r = Some t" "s' = s"
      "w' = set_schedulerData c None w"
      "\<And>k x q m. pc_tasks s = (k, x # q) # m \<Longrightarrow> priority_of w x \<le> priority_of w t"
  | (queue) k t q rest m where "pc_tasks s = (k, t # q) # rest" "r = Some t"
      "P_requeue c w (drop_front k q rest) = (m, w')" "s' = s\<lparr>pc_tasks := m\<rparr>"
      "\<And>x. schedulerData w c = Some x \<Longrightarrow> priority_of w x < priority_of w t"
proof (cases "pc_tasks s")
  case Nil
  show ?thesis
  proof (cases "schedulerData w c")
    case None
    with assms Nil show ?thesis by (intro none) (simp_all add: P_take_def)
  next
    case (Some t)
    with assms Nil show ?thesis by (intro successor [of t]) (simp_all add: P_take_def)
  qed
next
  case (Cons kq rest)
  obtain k qs where kq: "kq = (k, qs)" by (cases kq)
  with Cons assms obtain t q where qs: "qs = t # q" by (cases qs) (simp_all add: P_take_def)
  have tasks: "pc_tasks s = (k, t # q) # rest" using Cons kq qs by simp
  obtain m w1 where req: "P_requeue c w (drop_front k q rest) = (m, w1)" by fastforce
  show ?thesis
  proof (cases "\<exists>x. schedulerData w c = Some x \<and> \<not> priority_of w x < priority_of w t")
    case True
    then obtain x where "schedulerData w c = Some x" "\<not> priority_of w x < priority_of w t" by blast
    with assms tasks show ?thesis by (intro successor [of x]) (simp_all add: P_take_def)
  next
    case False
    with assms tasks req have "r = Some t" "s' = s\<lparr>pc_tasks := m\<rparr>" "w' = w1"
      by (auto simp: P_take_def drop_front_def [symmetric] split: option.splits)
    with tasks req False show ?thesis by (intro queue [of k t q rest m]) auto
  qed
qed

lemma P_take_law:
  assumes "world_ok w" "place_ok w c" "P_take s w c = Inr (r, s', w')"
  shows "same_frame w w'" "p_queued s' + held_slots w' + mset_opt r = p_queued s + held_slots w"
    "pc_pollingSlot s' = pc_pollingSlot s" "r = None \<Longrightarrow> s' = s \<and> w' = w"
  using assms(3)
  by (cases rule: P_take_cases;
      use P_requeue_law [OF assms(1,2)] held_slots_clear_data [OF assms(1,2)] in
        \<open>force simp: p_queued_def\<close>)+

lemma P_add_law:
  assumes "p_inv s w" "\<And>c. cp = Some c \<Longrightarrow> place_ok w c"
    and add: "P_addReadyTask s w t cp h b = Inr (r, s', w')"
  shows "conserves p_queued p_inv {#t#} {#} s w s' w'"
proof -
  let ?w = "refresh_priority t w"
  have inv: "p_inv s ?w" using assms(1) by (simp add: p_inv_def)
  consider (slot) "takes_free_successor_slot ?w cp h"
    | (poller) c where "\<not> takes_free_successor_slot ?w cp h" "pc_pollingSlot s = Some c"
    | (queue) "\<not> takes_free_successor_slot ?w cp h" "pc_pollingSlot s = None"
    by fastforce
  then have "conserves p_queued p_inv {#t#} {#} s ?w s' w'"
  proof cases
    case slot
    with takes_free_successor_slotD [OF slot] assms inv show ?thesis
      by (auto simp: P_addReadyTask_def conserves_def p_inv_def held_slots_fill_data Let_def)
  next
    case poller
    with add inv show ?thesis
      by (auto simp: P_addReadyTask_def P_hand_over_def slot_setTask_def conserves_def p_inv_def
          held_slots_fill_slot Let_def p_queued_def split: option.splits)
  next
    case queue
    with add inv show ?thesis
      by (auto simp: P_addReadyTask_def P_hand_over_def conserves_def p_inv_def p_queued_def Let_def
          class_queued_update same_frameD split: if_splits prod.splits dest!: getIdleCPU_same_frame)
  qed
  then show ?thesis by (simp add: conserves_def)
qed

lemma P_get_law:
  assumes "p_inv s w" "place_ok w c" "P_getReadyTask s w c cur b d = Inr (r, s', w')"
  shows "conserves p_queued p_inv {#} (mset_opt r) s w s' w'"
proof -
  have "world_ok w" using assms(1) by (simp add: p_inv_def)
  note take_law = P_take_law [OF this assms(2)]
  show ?thesis
  proof (cases "cp_type (w_places w c) \<noteq> nanos6_host_device")
    case True
    with assms show ?thesis by (simp add: P_getReadyTask_def conserves_def)
  next
    case False
    then obtain t s1 w1 where take: "P_take s w c = Inr (t, s1, w1)"
      using assms(3) by (auto simp: P_getReadyTask_def)
    note law = take_law [OF take]
    have "conserves p_queued p_inv {#} (mset_opt t) s w s1 w1"
      using law p_inv_frame [OF assms(1) law(3,1)] by (simp add: conserves_def same_frameD(1))
    with assms(3) False take show ?thesis
      by (cases t) (auto simp: P_getReadyTask_def conserves_def p_inv_def split: if_splits)
  qed
qed

lemma P_idle_law:
  assumes "p_inv s w" "P_getIdleComputePlace s w force = (r, s', w')"
  shows "conserves p_queued p_inv {#} {#} s w s' w'"
proof (cases "getIdleCPU w")
  case (Pair i w1)
  with assms getIdleCPU_same_frame [OF Pair] p_inv_frame [OF assms(1)] show ?thesis
    by (auto simp: P_getIdleComputePlace_def conserves_def same_frame_def split: if_splits)
qed

lemma P_disable_law:
  assumes "p_inv s w" "place_ok w c" "P_disableComputePlace s w c = Inr (s', w')"
  shows "conserves p_queued p_inv {#} {#} s w s' w'"
proof -
  obtain m w1 where req: "P_requeue c w (pc_tasks s) = (m, w1)" by fastforce
  have "world_ok w" using assms(1) by (simp add: p_inv_def)
  note law = P_requeue_law [OF this assms(2) req]
  with assms req p_inv_frame [OF assms(1) _ law(1)] show ?thesis
    by (auto simp: P_disableComputePlace_def conserves_def p_queued_def same_frameD(1))
qed

lemma P_request_law:
  assumes "p_inv s w" "place_ok w c" "P_requestPolling s w c c = Inr (ok, s', w')"
  shows "conserves p_queued p_inv {#} {#} s w s' w'"
proof -
  obtain t s1 w1 where take: "P_take s w c = Inr (t, s1, w1)"
    using assms(3) by (auto simp: P_requestPolling_def)
  have ok: "world_ok w" using assms(1) by (simp add: p_inv_def)
  note law = P_take_law [OF ok assms(2) take]
  have inv: "p_inv s1 w1" using p_inv_frame [OF assms(1) law(3,1)] .
  show ?thesis
  proof (cases t)
    case None
    with law assms take show ?thesis
      by (auto simp: P_requestPolling_def conserves_def p_inv_def p_queued_def split: option.splits)
  next
    case (Some x)
    have "place_ok w1 c" "world_ok w1" using law(1) assms(2) ok by (simp_all add: same_frameD)
    with Some law assms(3) take inv show ?thesis
      by (auto simp: P_requestPolling_def conserves_def p_inv_def held_slots_fill_slot same_frameD(1))
  qed
qed

lemma P_release_law:
  assumes "p_inv s w" "P_releasePolling s w c c = Inr (ok, s', w')"
  shows "conserves p_queued p_inv {#} {#} s w s' w'"
  using assms by (auto simp: P_releasePolling_def conserves_def p_inv_def p_queued_def split: if_splits)

interpretation p_pool: ready_pool p_queued p_inv P_ops
proof unfold_locales
  show "p_inv s (set_slot c None w)" if "p_inv s w" for s c w
    using that by (simp add: p_inv_def)
  show "world_ok w" if "p_inv s w" for s w
    using that by (simp add: p_inv_def)
qed (auto simp: P_ops_def Interface_enableComputePlace_def conserves_refl
  intro: P_add_law P_get_law P_idle_law P_disable_law P_request_law P_release_law)

end
