(* ===== verification/N6_PriorityOrder.thy ===== *)
theory N6_PriorityOrder
  imports N6_PriorityProofs
begin

text \<open>
  The priority schedulers hand out a task of highest priority. The locale \<open>ordered_pool\<close> extends
  \<open>guarded_pool\<close> by an order invariant of the queues, which holds along every history in which a
  task is not added while the scheduler still holds it: its priority is then not changed while it
  sits in a queue.
\<close>

section \<open>Order invariants along a history\<close>

fun fresh_add :: "('s \<Rightarrow> task_ref multiset) \<Rightarrow> sched_event \<Rightarrow> 's \<Rightarrow> world \<Rightarrow> bool" where
  "fresh_add queued (EvAdd t cp h b) s w = (t \<notin># queued s + held_slots w)"
| "fresh_add queued e s w = True"

locale ordered_pool = guarded_pool queued invar ops guard
  for queued :: "'s \<Rightarrow> task_ref multiset" and invar and ops and guard +
  fixes order_ok :: "'s \<Rightarrow> world \<Rightarrow> bool"
  assumes order_exec:
    "invar s w \<Longrightarrow> order_ok s w \<Longrightarrow> ev_ok w e \<Longrightarrow> guard e s w \<Longrightarrow> fresh_add queued e s w \<Longrightarrow>
     sched_exec ops e s w = Inr (r, s', w') \<Longrightarrow> order_ok s' w'"
begin

lemma run_ordered:
  "run_sched ops es s w = Inr (ts, s', w') \<Longrightarrow> invar s w \<Longrightarrow> order_ok s w \<Longrightarrow> evs_ok w es \<Longrightarrow>
   guarded ops guard es s w \<Longrightarrow> guarded ops (fresh_add queued) es s w \<Longrightarrow>
   order_ok s' w' \<and> invar s' w' \<and> w_cpus w' = w_cpus w"
proof (induction es arbitrary: s w ts)
  case Nil
  then show ?case by simp
next
  case (Cons e es)
  obtain r s1 w1 ts1 where step: "sched_exec ops e s w = Inr (r, s1, w1)"
    and rest: "run_sched ops es s1 w1 = Inr (ts1, s', w')"
    using Cons.prems(1) by auto
  have ok: "ev_ok w e" "guard e s w" "fresh_add queued e s w"
    using Cons.prems by (simp_all add: evs_ok_def)
  have law: "conserves queued invar (mset (ev_task e)) (mset_opt r) s w s1 w1"
    using exec_law [OF Cons.prems(2) ok(1,2) step] .
  then have "evs_ok w1 es"
    using Cons.prems(4) by (auto simp: evs_ok_def ev_ok_def list_all_iff conserves_def place_ok_def)
  with law Cons.IH [OF rest] Cons.prems step order_exec [OF Cons.prems(2,3) ok step]
  show ?case by (simp add: conserves_def)
qed

end

section \<open>Two priority queues\<close>

lemma priority_of_frame [simp]:
  "priority_of (set_schedulerData c x w) = priority_of w"
  "priority_of (set_slot c x w) = priority_of w"
  "priority_of (cpuBecomesIdle c w) = priority_of w"
  by (simp_all add: priority_of_def fun_eq_iff)

definition pq_order :: "'a prio_queues_scheme \<Rightarrow> world \<Rightarrow> bool" where
  "pq_order s w =
     (is_heap (priority_of w) (pq_readyTasks s) \<and> is_heap (priority_of w) (pq_unblockedTasks s))"

lemma pq_order_frame: "pq_order s w \<Longrightarrow> priority_of w' = priority_of w \<Longrightarrow> pq_order s w'"
  by (simp add: pq_order_def)

lemma refresh_priority_other: "u \<noteq> t \<Longrightarrow> priority_of (refresh_priority t w) u = priority_of w u"
  by (simp add: priority_of_def refresh_priority_def split: option.splits)

lemma pq_order_refresh:
  assumes "pq_order s w" "t \<notin># prio_queued s"
  shows "pq_order s (refresh_priority t w)"
proof -
  have "is_heap (priority_of (refresh_priority t w)) q = is_heap (priority_of w) q" if "t \<notin> set q" for q
    using that by (intro is_heap_cong refresh_priority_other) blast
  with assms show ?thesis by (simp add: pq_order_def prio_queued_def)
qed

lemma requeue_successor_order:
  "pq_order s w \<Longrightarrow> requeue_successor s w c = (s', w') \<Longrightarrow> pq_order s' w'"
  by (auto simp: requeue_successor_def pq_order_def pq_push_heap split: option.splits)

lemma PQ_take_order:
  assumes "pq_order s w" "PQ_take s w c = (r, s', w')"
  shows "pq_order s' w'"
proof -
  obtain s1 w1 where rq: "requeue_successor s w c = (s1, w1)" by fastforce
  have "pq_order s1 w1" using requeue_successor_order [OF assms(1) rq] .
  moreover have "pq_order s (set_schedulerData c None w)"
    using assms(1) by (simp add: pq_order_def)
  ultimately show ?thesis
    using assms rq by (auto simp: PQ_take_def pq_order_def pq_pop_heap split: best_is.splits)
qed

lemma PQ_enqueue_order:
  assumes "pq_order s w" "PQ_enqueue t h b s w = Inr (r, s', w')"
  shows "pq_order s' w'"
proof -
  have "priority_of w' = priority_of w"
    using PQ_enqueue_law(1) [OF assms(2)] by (rule same_frameD(6))
  with assms show ?thesis
    by (auto simp: PQ_enqueue_def pq_order_def pq_push_heap Let_def split: if_splits prod.splits)
qed

text \<open>The chosen task is one of highest priority among the candidates.\<close>

definition highest :: "world \<Rightarrow> task_ref multiset \<Rightarrow> task_ref \<Rightarrow> bool" where
  "highest w M t = (t \<in># M \<and> (\<forall>u \<in># M. priority_of w u \<le> priority_of w t))"

lemma top_priority_bound:
  assumes "is_heap (priority_of w) q" "u \<in> set q"
  shows "\<exists>p. top_priority w q = Some p \<and> priority_of w u \<le> p"
  using assms by (cases "q = []") (auto simp: top_priority_def pq_top_max)

lemma requeued_top:
  assumes "is_heap (priority_of w) (pq_readyTasks s)" "pq_readyTasks s \<noteq> []"
    and "\<And>x. schedulerData w c = Some x \<Longrightarrow> priority_of w x < priority_of w (pq_top (pq_readyTasks s))"
    and "requeue_successor s w c = (s1, w1)"
  shows "priority_of w (pq_top (pq_readyTasks s1)) = priority_of w (pq_top (pq_readyTasks s))"
  using assms heap_queue.top_push_smaller [of "priority_of w" "pq_readyTasks s"]
  by (auto simp: requeue_successor_def split: option.splits)

lemma PQ_choose_order:
  assumes "pq_order s w"
  shows "PQ_choose s w c = from_immediate_successor_slot \<Longrightarrow> schedulerData w c = Some t \<Longrightarrow>
      u \<in># prio_queued s \<Longrightarrow> priority_of w u \<le> priority_of w t"
    and "PQ_choose s w c = from_unblocked_task_queue \<Longrightarrow>
      u \<in># prio_queued s + mset_opt (schedulerData w c) \<Longrightarrow>
      priority_of w u \<le> priority_of w (pq_top (pq_unblockedTasks s))"
    and "PQ_choose s w c = from_ready_task_queue \<Longrightarrow>
      u \<in># prio_queued s + mset_opt (schedulerData w c) \<Longrightarrow>
      priority_of w u \<le> priority_of w (pq_top (pq_readyTasks s))"
    and "PQ_choose s w c = from_ready_task_queue \<Longrightarrow> schedulerData w c = Some t \<Longrightarrow>
      priority_of w t < priority_of w (pq_top (pq_readyTasks s))"
proof -
  have r: "u \<in> set (pq_readyTasks s) \<Longrightarrow> priority_of w u \<le> priority_of w (pq_top (pq_readyTasks s))"
    and b: "u \<in> set (pq_unblockedTasks s) \<Longrightarrow> priority_of w u \<le> priority_of w (pq_top (pq_unblockedTasks s))"
    using assms by (auto simp: pq_order_def pq_top_max)
  note defs = PQ_choose_def top_priority_def prio_queued_def
  show "PQ_choose s w c = from_immediate_successor_slot \<Longrightarrow> schedulerData w c = Some t \<Longrightarrow>
      u \<in># prio_queued s \<Longrightarrow> priority_of w u \<le> priority_of w t"
    using r b by (auto simp: defs split: if_splits)
  show "PQ_choose s w c = from_unblocked_task_queue \<Longrightarrow>
      u \<in># prio_queued s + mset_opt (schedulerData w c) \<Longrightarrow>
      priority_of w u \<le> priority_of w (pq_top (pq_unblockedTasks s))"
    using r b by (cases "schedulerData w c") (auto simp: defs split: if_splits)
  show "PQ_choose s w c = from_ready_task_queue \<Longrightarrow>
      u \<in># prio_queued s + mset_opt (schedulerData w c) \<Longrightarrow>
      priority_of w u \<le> priority_of w (pq_top (pq_readyTasks s))"
    using r b by (cases "schedulerData w c") (auto simp: defs split: if_splits)
  show "PQ_choose s w c = from_ready_task_queue \<Longrightarrow> schedulerData w c = Some t \<Longrightarrow>
      priority_of w t < priority_of w (pq_top (pq_readyTasks s))"
    by (auto simp: defs split: if_splits)
qed

lemma PQ_take_highest:
  assumes "world_ok w" "place_ok w c" "pq_order s w" "PQ_take s w c = (Some t, s', w')"
  shows "highest w (prio_queued s + mset_opt (schedulerData w c)) t"
proof -
  obtain s1 w1 where rq: "requeue_successor s w c = (s1, w1)" by fastforce
  have keep: "pq_unblockedTasks s1 = pq_unblockedTasks s"
    "set (pq_readyTasks s1) \<subseteq> set_mset (prio_queued s + mset_opt (schedulerData w c))"
    using rq by (auto simp: requeue_successor_def prio_queued_def simp flip: set_mset_mset split: option.splits)
  show ?thesis
  proof (cases "PQ_choose s w c")
    case from_immediate_successor_slot
    with assms PQ_choose_order(1) [OF assms(3) from_immediate_successor_slot] show ?thesis
      by (auto simp: PQ_take_def highest_def)
  next
    case from_unblocked_task_queue
    with assms rq keep PQ_choose_order(2) [OF assms(3) from_unblocked_task_queue]
      PQ_choose_sound(2) [OF from_unblocked_task_queue]
    show ?thesis by (auto simp: PQ_take_def highest_def prio_queued_def pq_top_in)
  next
    case from_ready_task_queue
    note ready = PQ_choose_sound(3) [OF from_ready_task_queue]
    have "pq_readyTasks s1 \<noteq> []"
      using requeue_successor_law(5) [OF assms(1,2) rq ready] .
    then have "pq_top (pq_readyTasks s1) \<in># prio_queued s + mset_opt (schedulerData w c)"
      using keep(2) pq_top_in by blast
    moreover have "priority_of w (pq_top (pq_readyTasks s1)) = priority_of w (pq_top (pq_readyTasks s))"
      using requeued_top [OF _ ready _ rq] assms(3) PQ_choose_order(4) [OF assms(3) from_ready_task_queue]
      by (auto simp: pq_order_def)
    ultimately show ?thesis
      using assms rq from_ready_task_queue PQ_choose_order(3) [OF assms(3) from_ready_task_queue]
      by (auto simp: PQ_take_def highest_def)
  next
    case non_existant
    with assms show ?thesis by (simp add: PQ_take_def)
  qed
qed

lemma PQ_get_highest:
  assumes "world_ok w" "place_ok w c" "pq_order s w" "PQ_getReadyTask s w c cur b d = Inr (Some t, s', w')"
  shows "highest w (prio_queued s + mset_opt (schedulerData w c)) t"
proof -
  obtain x s1 w1 where take: "PQ_take s w c = (x, s1, w1)" by (metis prod_cases3)
  with assms(4) have "x = Some t"
    by (auto simp: PQ_getReadyTask_def split: if_splits option.splits)
  with take PQ_take_highest [OF assms(1-3)] show ?thesis by simp
qed

text \<open>The calls that both classes share keep the order.\<close>

lemma PQ_shared_order:
  assumes "pq_order s w"
  shows "PQ_getReadyTask s w c cur b d = Inr (r, s', w') \<Longrightarrow> pq_order s' w'"
    and "PQ_getIdleComputePlace s w force = (r', s', w') \<Longrightarrow> pq_order s' w'"
    and "PQ_disableComputePlace s w c = Inr (s', w') \<Longrightarrow> pq_order s' w'"
proof -
  obtain x s1 w1 where take: "PQ_take s w c = (x, s1, w1)" by (metis prod_cases3)
  show "PQ_getReadyTask s w c cur b d = Inr (r, s', w') \<Longrightarrow> pq_order s' w'"
    using PQ_take_order [OF assms take] take assms
    by (auto simp: PQ_getReadyTask_def pq_order_def split: if_splits option.splits)
  show "PQ_getIdleComputePlace s w force = (r', s', w') \<Longrightarrow> pq_order s' w'"
    using assms by (auto simp: PQ_getIdleComputePlace_def split: if_splits prod.splits
        dest!: getIdleCPU_same_frame intro: pq_order_frame simp: same_frameD(6))
  show "PQ_disableComputePlace s w c = Inr (s', w') \<Longrightarrow> pq_order s' w'"
    using assms by (simp add: PQ_disableComputePlace_def requeue_successor_order)
qed

lemma pq_order_polling [simp]:
  "pq_order (s\<lparr>pp_pollingSlot := x\<rparr>) w = pq_order s w"
  "pq_order (s'\<lparr>pn_pollingSlots := y\<rparr>) w = pq_order s' w"
  "pq_order s'' (set_slot c z w) = pq_order s'' w"
  "pq_order s'' (set_schedulerData c v w) = pq_order s'' w"
  "pq_order s'' (cpuBecomesIdle c w) = pq_order s'' w"
  by (simp_all add: pq_order_def)

lemma P1_add_order:
  assumes "pq_order s w" "t \<notin># prio_queued s" "P1_addReadyTask s w t cp h b = Inr (r, s', w')"
  shows "pq_order s' w'"
  using pq_order_refresh [OF assms(1,2)] assms(3)
  by (auto simp: P1_addReadyTask_def P1_hand_over_def slot_setTask_def Let_def
      split: if_splits option.splits dest: PQ_enqueue_order)

lemma P1_request_order:
  assumes "pq_order s w" "P1_requestPolling s w c c = Inr (ok, s', w')"
  shows "pq_order s' w'"
proof -
  obtain x s1 w1 where take: "PQ_take s w c = (x, s1, w1)" by (metis prod_cases3)
  with PQ_take_order [OF assms(1) take] assms(2) show ?thesis
    by (auto simp: P1_requestPolling_def split: option.splits)
qed

lemma NSP_add_order:
  assumes "pq_order s w" "t \<notin># prio_queued s" "NSP_addReadyTask s w t cp h b = Inr (r, s', w')"
  shows "pq_order s' w'"
  using pq_order_refresh [OF assms(1,2)] assms(3)
  by (auto simp: NSP_addReadyTask_def Let_def split: if_splits list.splits dest: PQ_enqueue_order)

lemma NSP_request_order:
  assumes "pq_order s w" "NSP_requestPolling s w c c = Inr (ok, s', w')"
  shows "pq_order s' w'"
proof -
  obtain x s1 w1 where take: "PQ_take s w c = (x, s1, w1)" by (metis prod_cases3)
  with PQ_take_order [OF assms(1) take] assms(2) show ?thesis
    by (auto simp: NSP_requestPolling_def split: option.splits)
qed

interpretation p1_ordered: ordered_pool prio_queued p1_inv P1_ops "\<lambda>_ _ _. True" pq_order
proof
  fix s w e r s' w'
  assume "pq_order s w" "fresh_add prio_queued e s w" "sched_exec P1_ops e s w = Inr (r, s', w')"
  then show "pq_order s' w'"
    by (cases e) (auto simp: P1_simps P1_releasePolling_def slot_getTask_def
        split: prod.splits if_splits dest: PQ_shared_order P1_add_order P1_request_order)
qed

interpretation nsp_ordered: ordered_pool prio_queued nsp_inv NSP_ops fresh_slot pq_order
proof
  fix s w e r s' w'
  assume "pq_order s w" "fresh_add prio_queued e s w" "sched_exec NSP_ops e s w = Inr (r, s', w')"
  then show "pq_order s' w'"
    by (cases e) (auto simp: NSP_simps NSP_releasePolling_def slot_getTask_def
        split: prod.splits if_splits dest: PQ_shared_order NSP_add_order NSP_request_order)
qed

section \<open>Priority classes\<close>

text \<open>
  The map is ordered by its keys, holds no empty class, and the tasks of a class have the priority
  of its key. A task without a priority callback keeps the priority 0 of its construction.
\<close>

definition classes_ok :: "world \<Rightarrow> priority_classes \<Rightarrow> bool" where
  "classes_ok w m =
     (sorted_wrt (<) (map fst m) \<and>
      (\<forall>(k, q) \<in> set m. q \<noteq> [] \<and> (\<forall>t \<in> set q. priority_of w t = - k)))"

definition default_priorities :: "world \<Rightarrow> bool" where
  "default_priorities w = (\<forall>t. ti_get_priority (t_taskInfo (w_tasks w t)) = None \<longrightarrow> t_priority (w_tasks w t) = 0)"

definition p_order :: "prio_classes \<Rightarrow> world \<Rightarrow> bool" where
  "p_order s w = (classes_ok w (pc_tasks s) \<and> default_priorities w)"

lemma update_class_keys: "set (map fst (update_class k f m)) = insert k (set (map fst m))"
  by (induction k f m rule: update_class.induct) auto

lemma update_class_sorted:
  "sorted_wrt (<) (map fst m) \<Longrightarrow> sorted_wrt (<) (map fst (update_class k f m))"
proof (induction k f m rule: update_class.induct)
  case (2 k f k' q m)
  then show ?case using update_class_keys [of k f m] by auto
qed simp

lemma update_class_elem:
  "(k', q') \<in> set (update_class k f m) \<Longrightarrow> (k', q') \<in> set m \<or> k' = k \<and> (\<exists>q. q' = f q \<and> (q = [] \<or> (k, q) \<in> set m))"
  by (induction k f m rule: update_class.induct) (auto split: if_splits)

lemma update_class_ok:
  assumes "classes_ok w m" "priority_of w t = - k" "\<And>q. mset (f q) = mset q + {#t#}"
  shows "classes_ok w (update_class k f m)"
proof -
  have "f q \<noteq> []" "set (f q) = insert t (set q)" for q
    using assms(3) [of q] by (force, metis set_mset_mset set_mset_add_mset_insert add_mset_add_single)
  with assms(1,2) show ?thesis
    by (fastforce simp: classes_ok_def update_class_sorted dest!: update_class_elem)
qed

lemma classes_ok_drop_front: "classes_ok w ((k, t # q) # rest) \<Longrightarrow> classes_ok w (drop_front k q rest)"
  by (auto simp: classes_ok_def drop_front_def)

lemma P_requeue_order: "classes_ok w m \<Longrightarrow> P_requeue c w m = (m', w') \<Longrightarrow> classes_ok w m'"
  by (auto simp: P_requeue_def update_class_ok split: option.splits)

lemma classes_ok_frame: "classes_ok w m \<Longrightarrow> priority_of w' = priority_of w \<Longrightarrow> classes_ok w' m"
  by (simp add: classes_ok_def)

lemma p_order_frame: "p_order s w \<Longrightarrow> w_tasks w' = w_tasks w \<Longrightarrow> p_order s w'"
  by (simp add: p_order_def classes_ok_def default_priorities_def priority_of_def)

lemma p_order_simps [simp]:
  "p_order s (set_slot c x w) = p_order s w"
  "p_order s (set_schedulerData c y w) = p_order s w"
  "p_order s (cpuBecomesIdle c w) = p_order s w"
  by (simp_all add: p_order_def classes_ok_def default_priorities_def)

lemma P_take_order:
  assumes "world_ok w" "place_ok w c" "p_order s w" "P_take s w c = Inr (r, s', w')"
  shows "p_order s' w'"
proof -
  have "classes_ok w (pc_tasks s')"
    using assms(4)
  proof (cases rule: P_take_cases)
    case (queue k t q rest m)
    have "classes_ok w (drop_front k q rest)"
      using assms(3) queue(1) classes_ok_drop_front [of w k t q rest] by (simp add: p_order_def)
    from P_requeue_order [OF this queue(3)] queue(4) show ?thesis by simp
  qed (use assms(3) in \<open>simp_all add: p_order_def\<close>)
  then have "p_order s' w" using assms(3) by (simp add: p_order_def)
  with P_take_law(1) [OF assms(1,2,4)] show ?thesis by (simp add: p_order_frame same_frameD)
qed

lemma refresh_callback:
  assumes "default_priorities w"
  shows "priority_of (refresh_priority t w) t = callback_priority w t"
    "default_priorities (refresh_priority t w)"
  using assms
  by (auto simp: default_priorities_def priority_of_def refresh_priority_def callback_priority_def
      setPriority_def split: option.splits)

lemma classes_ok_refresh:
  assumes "classes_ok w m" "t \<notin># class_queued m"
  shows "classes_ok (refresh_priority t w) m"
proof -
  have "priority_of (refresh_priority t w) u = priority_of w u" if "(k, q) \<in> set m" "u \<in> set q" for k q u
    using assms(2) that by (intro refresh_priority_other) (auto simp: class_queued_def)
  with assms(1) show ?thesis by (fastforce simp: classes_ok_def)
qed

lemma P_add_order:
  assumes "p_order s w" "t \<notin># p_queued s" "P_addReadyTask s w t cp h b = Inr (r, s', w')"
  shows "p_order s' w'"
proof -
  let ?w = "refresh_priority t w" and ?f = "if h = UNBLOCKED_TASK_HINT \<or> h = CHILD_TASK_HINT
    then (\<lambda>q. t # q) else (\<lambda>q. q @ [t])"
  have order: "p_order s ?w"
    using assms(1,2) by (simp add: p_order_def p_queued_def classes_ok_refresh refresh_callback)
  have "classes_ok ?w (update_class (- callback_priority w t) ?f (pc_tasks s))"
    using order assms(1) by (intro update_class_ok [of _ _ t]) (auto simp: p_order_def refresh_callback)
  then have queued: "p_order (s\<lparr>pc_tasks := update_class (- callback_priority w t) ?f (pc_tasks s)\<rparr>) ?w"
    using order by (simp add: p_order_def)
  have polling: "p_order (s\<lparr>pc_pollingSlot := None\<rparr>) ?w" using order by (simp add: p_order_def)
  have "(s' = s \<or> s' = s\<lparr>pc_pollingSlot := None\<rparr> \<or>
      s' = s\<lparr>pc_tasks := update_class (- callback_priority w t) ?f (pc_tasks s)\<rparr>) \<and> w_tasks w' = w_tasks ?w"
    using assms(3)
    by (auto simp: P_addReadyTask_def P_hand_over_def slot_setTask_def Let_def same_frameD
        split: if_splits option.splits prod.splits dest!: getIdleCPU_same_frame)
  then show ?thesis using p_order_frame order queued polling by blast
qed

lemma P_shared_order:
  assumes "p_inv s w" "p_order s w"
  shows "place_ok w c \<Longrightarrow> P_getReadyTask s w c cur b d = Inr (r, s', w') \<Longrightarrow> p_order s' w'"
    and "P_getIdleComputePlace s w force = (r', s', w') \<Longrightarrow> p_order s' w'"
    and "P_disableComputePlace s w c = Inr (s', w') \<Longrightarrow> p_order s' w'"
    and "place_ok w c \<Longrightarrow> P_requestPolling s w c c = Inr (ok, s', w') \<Longrightarrow> p_order s' w'"
    and "P_releasePolling s w c c = Inr (ok, s', w') \<Longrightarrow> p_order s' w'"
proof -
  have ok: "world_ok w" using assms(1) by (simp add: p_inv_def)
  have frame: "p_order s1 (set_slot c x w1)" "p_order s1 (cpuBecomesIdle c w1)" if "p_order s1 w1" for s1 w1 x
    using that by (simp_all add: p_order_frame)
  show "place_ok w c \<Longrightarrow> P_getReadyTask s w c cur b d = Inr (r, s', w') \<Longrightarrow> p_order s' w'"
    using assms(2) frame by (auto simp: P_getReadyTask_def split: if_splits option.splits
        dest: P_take_order [OF ok _ assms(2)])
  show "P_getIdleComputePlace s w force = (r', s', w') \<Longrightarrow> p_order s' w'"
    using assms(2) by (auto simp: P_getIdleComputePlace_def split: if_splits prod.splits
        dest!: getIdleCPU_same_frame intro: p_order_frame simp: same_frameD)
  show "P_disableComputePlace s w c = Inr (s', w') \<Longrightarrow> p_order s' w'"
    using assms(2) P_requeue_order [of w "pc_tasks s" c]
    by (auto simp: P_disableComputePlace_def p_order_def P_requeue_def default_priorities_def
        classes_ok_frame split: prod.splits option.splits)
  show "place_ok w c \<Longrightarrow> P_requestPolling s w c c = Inr (ok, s', w') \<Longrightarrow> p_order s' w'"
    using frame by (auto simp: P_requestPolling_def split: option.splits
        dest!: P_take_order [OF ok _ assms(2)]) (simp_all add: p_order_def)
  show "P_releasePolling s w c c = Inr (ok, s', w') \<Longrightarrow> p_order s' w'"
    using assms(2) frame by (auto simp: P_releasePolling_def p_order_def split: if_splits)
qed

interpretation p_ordered: ordered_pool p_queued p_inv P_ops "\<lambda>_ _ _. True" p_order
proof
  fix s w e r s' w'
  assume *: "p_inv s w" "p_order s w" "ev_ok w e" "fresh_add p_queued e s w"
    "sched_exec P_ops e s w = Inr (r, s', w')"
  then show "p_order s' w'"
    by (cases e) (auto simp: P_ops_def ev_ok_def Interface_enableComputePlace_def slot_getTask_def
        split: prod.splits dest: P_add_order P_shared_order [OF *(1,2)] p_order_frame)
qed

text \<open>A front of the first class has the highest priority of all queued tasks.\<close>

lemma classes_first_highest:
  assumes "classes_ok w ((k, t # q) # rest)" "u \<in># class_queued ((k, t # q) # rest)"
  shows "priority_of w u \<le> priority_of w t"
proof -
  have t: "priority_of w t = - k" and rest: "\<And>k' q' x. (k', q') \<in> set rest \<Longrightarrow> x \<in> set q' \<Longrightarrow>
      k < k' \<and> priority_of w x = - k'"
    using assms(1) by (fastforce simp: classes_ok_def)+
  have "priority_of w u = - k" if "u \<in> set (t # q)"
    using assms(1) that by (simp add: classes_ok_def) blast
  moreover have "priority_of w u \<le> - k" if "u \<in># class_queued rest"
    using that rest by (fastforce simp: class_queued_def)
  ultimately show ?thesis
    using assms(2) t by auto
qed

lemma P_take_highest:
  assumes "p_order s w" "P_take s w c = Inr (Some t, s', w')"
  shows "highest w (p_queued s + mset_opt (schedulerData w c)) t"
  using assms(2)
proof (cases rule: P_take_cases)
  case (successor x)
  have "priority_of w u \<le> priority_of w x" if "u \<in># p_queued s" for u
  proof (cases "pc_tasks s")
    case Nil
    with that show ?thesis by (simp add: p_queued_def)
  next
    case (Cons kq m)
    moreover obtain k y q where "kq = (k, y # q)"
      using assms(1) Cons by (cases kq; cases "snd kq") (auto simp: p_order_def classes_ok_def)
    ultimately have tasks: "pc_tasks s = (k, y # q) # m" by simp
    have "priority_of w u \<le> priority_of w y"
      using assms(1) that by (intro classes_first_highest [of w k y q m]) (simp_all add: p_order_def p_queued_def tasks)
    with successor(5) [OF tasks] show ?thesis by simp
  qed
  with successor show ?thesis by (auto simp: highest_def)
next
  case (queue k y q rest m)
  have "priority_of w u \<le> priority_of w y" if "u \<in># p_queued s" for u
    using assms(1) that queue(1)
    by (intro classes_first_highest [of w k y q rest]) (simp_all add: p_order_def p_queued_def)
  with queue show ?thesis
    by (auto simp: highest_def p_queued_def mset_opt_def split: option.splits intro: less_imp_le)
qed simp

lemma P_get_highest:
  assumes "p_order s w" "P_getReadyTask s w c cur b d = Inr (Some t, s', w')"
  shows "highest w (p_queued s + mset_opt (schedulerData w c)) t"
  using assms(2)
  by (auto simp: P_getReadyTask_def split: if_splits option.splits dest!: P_take_highest [OF assms(1)])

end
