(* ===== verification/N6_PriorityTheorems.thy ===== *)
theory N6_PriorityTheorems
  imports N6_PriorityOrder
begin

text \<open>
  The properties of the priority schedulers over histories of calls, with concrete runs: no task is
  lost or duplicated, and a task of highest priority is served first.
\<close>

section \<open>A history to evaluate\<close>






lemmas prio_queue_simps = PQ_getReadyTask_def PQ_take_def PQ_choose_def top_priority_def
  requeue_successor_def PQ_enqueue_def pq_push_def pq_top_def pq_pop_def sift_up.simps
  sift_down.simps heap_parent_def larger_child_def swap_nth_def prio_queued_def


section \<open>Properties\<close>



text \<open>
  The same for \<open>NoSleepPriorityScheduler\<close>, with its two heaps and its queue of polling slots;
  here a CPU asks for polling with an empty slot that is not already queued.
\<close>

lemma NSP_serves_highest_priority:
  assumes "run_sched NSP_ops es NSP_new w = Inr (ts, s, w1)"
    and "world_ok w" "evs_ok w es" "guarded NSP_ops fresh_slot es NSP_new w"
    and "guarded NSP_ops (fresh_add prio_queued) es NSP_new w"
    and "place_ok w c" "NSP_getReadyTask s w1 c cur b d = Inr (Some t, s', w')"
  shows "highest w1 (prio_queued s + mset_opt (schedulerData w1 c)) t"
proof -
  have "nsp_inv NSP_new w" "pq_order NSP_new w"
    using assms(2) by (simp_all add: nsp_inv_def pq_order_def NSP_new_def)
  with nsp_ordered.run_ordered [OF assms(1) _ _ assms(3,4,5)]
  have "pq_order s w1" "nsp_inv s w1" "w_cpus w1 = w_cpus w" by simp_all
  with assms(6,7) show ?thesis
    by (intro PQ_get_highest) (auto simp: nsp_inv_def place_ok_def NSP_getReadyTask_def)
qed

text \<open>
  \<open>NoSleepPriorityScheduler\<close> neither loses nor duplicates tasks, although it stores into polling
  slots without checking them: along every history in which a CPU asks for polling with an empty
  slot that is not already queued, the tasks handed out, queued and in slots are exactly those
  added.
\<close>

lemma NSP_conserves_tasks:
  assumes "run_sched NSP_ops es NSP_new w = Inr (ts, s, w1)"
    and "world_ok w" "evs_ok w es" "held_slots w = {#}" "guarded NSP_ops fresh_slot es NSP_new w"
  shows "mset ts + prio_queued s + held_slots w1 = mset (ev_added es)"
proof -
  have "nsp_inv NSP_new w" "prio_queued NSP_new = {#}"
    using assms(2) by (simp_all add: nsp_inv_def prio_queued_def NSP_new_def)
  with nsp_pool.run_conserves [OF assms(1) _ assms(3,5)] assms(4) show ?thesis
    by (simp add: conserves_def ac_simps)
qed

end
