(* ===== verification/N6_Lifecycle.thy ===== *)
theory N6_Lifecycle
  imports N6_Task
begin

text \<open>
  The life of a task from its creation to its disposal: \<open>WorkerThread::handleTask\<close>
  (\<open>src/executors/threads/WorkerThread.cpp\<close>), \<open>TaskFinalization::disposeOrUnblockTask\<close>
  (\<open>TaskFinalizationImplementation.hpp\<close>), \<open>nanos6_taskwait\<close> (\<open>src/system/ompss/TaskWait.cpp\<close>),
  the countdown operations of \<open>TaskBlocking::taskBlocks\<close> and the event counter
  (\<open>src/system/EventsAPI.cpp\<close>), as an interleaving of the steps between their atomic operations on
  the two counters of the tasks. Many threads are at work: each running task is one, and every
  element of \<open>lc_agents\<close> is a thread inside \<open>disposeOrUnblockTask\<close>, about to look at that task.
  Calls into the dependency system, the scheduler and the allocator are recorded in the order in
  which they are made. The tasks of the machine are runnable host tasks.
\<close>

section \<open>State\<close>

text \<open>
  Where the thread of a task is. \<open>EnteringWait\<close> is between the fast check and \<open>markAsBlocked\<close> of
  \<open>nanos6_taskwait\<close>; \<open>Waiting\<close> is inside \<open>taskBlocks\<close>, \<open>WaitingInline\<close> while that runs another task
  between \<open>disableScheduling\<close> and \<open>enableScheduling\<close>; \<open>BodyEnded\<close> after a \<open>markAsFinished\<close> that
  answered false; \<open>Releasing\<close> before, \<open>Released\<close> after \<open>markAsReleased\<close>.
\<close>

datatype lc_phase =
    Ready
  | Running
  | EnteringWait
  | Waiting
  | WaitingInline
  | BodyEnded
  | Releasing
  | Released

datatype lc_call =
    UnregisterAccesses task_ref
  | HandleTaskRemoval task_ref
  | AddUnblocked task_ref
  | FreeTask task_ref
  | SpawnedFunctionStarts "task_ref option"
  | SpawnedFunctionEnds

record lifecycle =
  lc_tasks :: task_heap
  lc_alive :: "task_ref list"
  lc_next :: task_ref
  lc_phases :: "task_ref \<Rightarrow> lc_phase"
  lc_events :: "task_ref \<Rightarrow> int"
  lc_agents :: "task_ref list"
  lc_unblocked :: "task_ref list"
  lc_pending :: "32 word"
  lc_log :: "lc_call list"

definition lc_init :: lifecycle where
  "lc_init = \<lparr>lc_tasks = (\<lambda>_. Task_new 0 \<lparr>ti_device_type_id = nanos6_host_device,
       ti_implementation_count = 1, ti_has_run = True, ti_num_symbols = 0, ti_get_priority = None\<rparr> None 0),
     lc_alive = [], lc_next = 0, lc_phases = (\<lambda>_. Ready), lc_events = (\<lambda>_. 0), lc_agents = [],
     lc_unblocked = [], lc_pending = 0, lc_log = []\<rparr>"

definition set_task :: "task_ref \<Rightarrow> task \<Rightarrow> lifecycle \<Rightarrow> lifecycle" where
  "set_task t x cf = cf\<lparr>lc_tasks := (lc_tasks cf)(t := x)\<rparr>"

definition set_phase :: "task_ref \<Rightarrow> lc_phase \<Rightarrow> lifecycle \<Rightarrow> lifecycle" where
  "set_phase t p cf = cf\<lparr>lc_phases := (lc_phases cf)(t := p)\<rparr>"

definition log_call :: "lc_call \<Rightarrow> lifecycle \<Rightarrow> lifecycle" where
  "log_call c cf = cf\<lparr>lc_log := lc_log cf @ [c]\<rparr>"

section \<open>Steps\<close>

text \<open>
  \<open>nanos6_create_task\<close> and the part of \<open>nanos6_submit_task\<close> that links the task to the task of the
  current thread; there is none when the caller is not a worker thread.
\<close>

definition lc_create :: "task_info \<Rightarrow> 64 word \<Rightarrow> task_ref option \<Rightarrow> lifecycle \<Rightarrow> lifecycle result" where
  "lc_create info flags parent cf =
     assert_that (ti_implementation_count info = 1) ''taskInfo->implementation_count == 1''
       (let t = lc_next cf;
            h = (lc_tasks cf)(t := Task_new 0 info None flags);
            h1 = (case parent of None \<Rightarrow> h | Some p \<Rightarrow> setParent t p h) in
        Inr (cf\<lparr>lc_tasks := h1, lc_alive := t # lc_alive cf, lc_next := Suc t,
                lc_phases := (lc_phases cf)(t := Ready), lc_events := (lc_events cf)(t := 0)\<rparr>))"

text \<open>\<open>nanos6_spawn_function\<close>: its task has a wait clause and runs a wrapper on the host.\<close>

definition spawned_info :: task_info where
  "spawned_info = \<lparr>ti_device_type_id = nanos6_host_device, ti_implementation_count = 1, ti_has_run = True,
     ti_num_symbols = 0, ti_get_priority = None\<rparr>"

definition lc_spawn :: "task_ref option \<Rightarrow> lifecycle \<Rightarrow> lifecycle result" where
  "lc_spawn parent cf =
     lc_create spawned_info (2 ^ wait_flag) parent
       (log_call (SpawnedFunctionStarts parent) (cf\<lparr>lc_pending := lc_pending cf + 1\<rparr>))"

text \<open>\<open>handleTask\<close> up to the body.\<close>

definition lc_begin :: "task_ref \<Rightarrow> thread_ref \<Rightarrow> lifecycle \<Rightarrow> lifecycle result" where
  "lc_begin t th cf =
     result_bind (setThread th (lc_tasks cf t)) (\<lambda>x. Inr (set_phase t Running (set_task t x cf)))"

text \<open>\<open>nanos6_taskwait\<close>: the fast check, and \<open>markAsBlocked\<close> with the code after it when it succeeds.\<close>

definition lc_wait_check :: "task_ref \<Rightarrow> lifecycle \<Rightarrow> lifecycle result" where
  "lc_wait_check t cf =
     Inr (if doesNotNeedToBlockForChildren (lc_tasks cf t) then cf else set_phase t EnteringWait cf)"

definition lc_wait_end :: "task_ref \<Rightarrow> lifecycle \<Rightarrow> lifecycle result" where
  "lc_wait_end t cf =
     result_bind (canBeWokenUp (lc_tasks cf t))
       (\<lambda>can. assert_that can ''currentTask->canBeWokenUp()''
         (result_bind (markAsUnblocked (lc_tasks cf t))
           (\<lambda>(_, x). Inr (set_phase t Running (set_task t (handleExitTaskwait x) cf)))))"

definition lc_wait_block :: "task_ref \<Rightarrow> lifecycle \<Rightarrow> lifecycle result" where
  "lc_wait_block t cf =
     result_bind (markAsBlocked (handleEnterTaskwait (lc_tasks cf t)))
       (\<lambda>(done, x).
         if done then lc_wait_end t (set_task t x cf)
         else Inr (set_phase t Waiting (set_task t x cf)))"

text \<open>\<open>taskBlocks\<close> before and after it runs a replacement task inline.\<close>

definition lc_inline_start :: "task_ref \<Rightarrow> lifecycle \<Rightarrow> lifecycle result" where
  "lc_inline_start t cf =
     result_bind (disableScheduling (lc_tasks cf t))
       (\<lambda>(ok, x). Inr (if ok then set_phase t WaitingInline (set_task t x cf) else set_task t x cf))"

definition lc_inline_end :: "task_ref \<Rightarrow> lifecycle \<Rightarrow> lifecycle result" where
  "lc_inline_end t cf =
     result_bind (enableScheduling (lc_tasks cf t))
       (\<lambda>(done, x).
         if done then lc_wait_end t (set_task t x cf)
         else Inr (set_phase t Waiting (set_task t x cf)))"

text \<open>The scheduler hands out a task that was added with \<open>UNBLOCKED_TASK_HINT\<close>: it leaves its wait.\<close>

definition lc_wakeup :: "task_ref \<Rightarrow> lifecycle \<Rightarrow> lifecycle result" where
  "lc_wakeup t cf = lc_wait_end t (cf\<lparr>lc_unblocked := remove1 t (lc_unblocked cf)\<rparr>)"

text \<open>The end of \<open>handleTask\<close>: \<open>markAsFinished\<close>, then the release.\<close>

definition lc_end_body :: "task_ref \<Rightarrow> lifecycle \<Rightarrow> lifecycle result" where
  "lc_end_body t cf =
     result_bind (markAsFinished (lc_tasks cf t))
       (\<lambda>(release, x). Inr (set_phase t (if release then Releasing else BodyEnded) (set_task t x cf)))"

definition lc_release :: "task_ref \<Rightarrow> lifecycle \<Rightarrow> lifecycle result" where
  "lc_release t cf =
     (let cf1 = log_call (UnregisterAccesses t) cf in
      result_bind (markAsReleased (lc_tasks cf1 t))
        (\<lambda>(disposable, x).
          let cf2 = set_phase t Released (set_task t x cf1) in
          Inr (if disposable then cf2\<lparr>lc_agents := t # lc_agents cf2\<rparr> else cf2)))"

text \<open>\<open>nanos6_increase_current_task_event_counter\<close> and \<open>nanos6_decrease_task_event_counter\<close>.\<close>

definition lc_event_inc :: "task_ref \<Rightarrow> nat \<Rightarrow> lifecycle \<Rightarrow> lifecycle result" where
  "lc_event_inc t n cf =
     Inr (if n = 0 then cf
          else set_task t (increaseReleaseCount (int n) (lc_tasks cf t))
                 (cf\<lparr>lc_events := (lc_events cf)(t := lc_events cf t + int n)\<rparr>))"

definition lc_event_dec :: "task_ref \<Rightarrow> nat \<Rightarrow> lifecycle \<Rightarrow> lifecycle result" where
  "lc_event_dec t n cf =
     (if n = 0 then Inr cf
      else result_bind (decreaseReleaseCount (int n) (lc_tasks cf t))
        (\<lambda>(zero, x).
          let cf1 = set_task t x (cf\<lparr>lc_events := (lc_events cf)(t := lc_events cf t - int n)\<rparr>) in
          Inr (if zero then set_phase t Releasing cf1 else cf1)))"

text \<open>
  One iteration of the loop of \<open>disposeOrUnblockTask\<close>. The result is the task of the next iteration,
  None when the loop ends. A task it is called for is owned by the calling thread until it is
  disposed, queued or handed back, so the iteration is one step.
\<close>

definition delayed_release :: "task_ref \<Rightarrow> lifecycle \<Rightarrow> (bool \<times> lifecycle) result" where
  "delayed_release t cf =
     (if hasFinished (lc_tasks cf t) \<and> mustDelayRelease (lc_tasks cf t)
      then result_bind (markAllChildrenAsFinished (lc_tasks cf t))
        (\<lambda>(release, x).
          if release
          then (let cf1 = log_call (UnregisterAccesses t) (set_task t x cf) in
                result_bind (markAsReleased x)
                  (\<lambda>(disposable, y).
                    let cf2 = set_phase t Released (set_task t y cf1) in
                    assert_that (\<not> mustDelayRelease y) ''!task->mustDelayRelease()''
                      (Inr (disposable, cf2))))
          else assert_that (\<not> mustDelayRelease x) ''!task->mustDelayRelease()''
                 (Inr (False, set_task t x cf)))
      else Inr (True, cf))"

definition dispose_or_unblock :: "task_ref \<Rightarrow> lifecycle \<Rightarrow> (task_ref option \<times> lifecycle) result" where
  "dispose_or_unblock t cf =
     (if hasFinished (lc_tasks cf t)
      then (let cf1 = log_call (HandleTaskRemoval t) cf;
                parent = t_parent (lc_tasks cf1 t) in
            result_bind (unlinkFromParent t (lc_tasks cf1))
              (\<lambda>(readyOrDisposable, h).
                let cf2 = log_call (FreeTask t)
                            (cf1\<lparr>lc_tasks := h, lc_alive := remove1 t (lc_alive cf1)\<rparr>) in
                case parent of
                  None \<Rightarrow> Inr (None, log_call SpawnedFunctionEnds (cf2\<lparr>lc_pending := lc_pending cf2 - 1\<rparr>))
                | Some p \<Rightarrow> Inr (if readyOrDisposable then Some p else None, cf2)))
      else Inr (None, log_call (AddUnblocked t) (cf\<lparr>lc_unblocked := t # lc_unblocked cf\<rparr>)))"

definition dispose_iter :: "task_ref \<Rightarrow> lifecycle \<Rightarrow> (task_ref option \<times> lifecycle) result" where
  "dispose_iter t cf =
     result_bind (delayed_release t cf)
       (\<lambda>(readyOrDisposable, cf1).
         if readyOrDisposable then dispose_or_unblock t cf1 else Inr (None, cf1))"

definition lc_dispose :: "task_ref \<Rightarrow> lifecycle \<Rightarrow> lifecycle result" where
  "lc_dispose t cf =
     result_bind (dispose_iter t (cf\<lparr>lc_agents := remove1 t (lc_agents cf)\<rparr>))
       (\<lambda>(next, cf1). Inr (case next of None \<Rightarrow> cf1 | Some p \<Rightarrow> cf1\<lparr>lc_agents := p # lc_agents cf1\<rparr>))"

text \<open>The whole loop, run by one thread; fuel bounds the number of iterations.\<close>

fun disposeOrUnblockTask :: "nat \<Rightarrow> task_ref option \<Rightarrow> lifecycle \<Rightarrow> lifecycle result option" where
  "disposeOrUnblockTask fuel None cf = Some (Inr cf)"
| "disposeOrUnblockTask 0 (Some t) cf = None"
| "disposeOrUnblockTask (Suc fuel) (Some t) cf =
     (case dispose_iter t cf of
        Inl e \<Rightarrow> Some (Inl e)
      | Inr (next, cf1) \<Rightarrow> disposeOrUnblockTask fuel next cf1)"

section \<open>Interleavings\<close>

datatype lc_step =
    Create task_info "64 word" task_ref
  | Spawn "task_ref option"
  | Begin task_ref thread_ref
  | WaitCheck task_ref
  | WaitBlock task_ref
  | InlineStart task_ref
  | InlineEnd task_ref
  | Wakeup task_ref
  | EndBody task_ref
  | Release task_ref
  | EventInc task_ref nat
  | EventDec task_ref nat
  | Dispose task_ref

fun lc_exec :: "lc_step \<Rightarrow> lifecycle \<Rightarrow> lifecycle result" where
  "lc_exec (Create info flags parent) = lc_create info flags (Some parent)"
| "lc_exec (Spawn parent) = lc_spawn parent"
| "lc_exec (Begin t th) = lc_begin t th"
| "lc_exec (WaitCheck t) = lc_wait_check t"
| "lc_exec (WaitBlock t) = lc_wait_block t"
| "lc_exec (InlineStart t) = lc_inline_start t"
| "lc_exec (InlineEnd t) = lc_inline_end t"
| "lc_exec (Wakeup t) = lc_wakeup t"
| "lc_exec (EndBody t) = lc_end_body t"
| "lc_exec (Release t) = lc_release t"
| "lc_exec (EventInc t n) = lc_event_inc t n"
| "lc_exec (EventDec t n) = lc_event_dec t n"
| "lc_exec (Dispose t) = lc_dispose t"

definition at_phase :: "lc_phase \<Rightarrow> task_ref \<Rightarrow> lifecycle \<Rightarrow> bool" where
  "at_phase p t cf = (t \<in> set (lc_alive cf) \<and> lc_phases cf t = p)"

text \<open>
  Which step a thread can make next. Code outside the tasks creates work through
  \<open>nanos6_spawn_function\<close> only, which code inside a task may call as well. The user of the event
  counter takes back at most what was added, and adds only from within the task.
\<close>

fun lc_enabled :: "lc_step \<Rightarrow> lifecycle \<Rightarrow> bool" where
  "lc_enabled (Create info flags parent) cf =
     (ti_device_type_id info = nanos6_host_device \<and> ti_implementation_count info = 1 \<and>
      \<not> bit flags non_runnable_flag \<and> at_phase Running parent cf)"
| "lc_enabled (Spawn parent) cf = (case parent of None \<Rightarrow> True | Some p \<Rightarrow> at_phase Running p cf)"
| "lc_enabled (Begin t th) cf = at_phase Ready t cf"
| "lc_enabled (WaitCheck t) cf = at_phase Running t cf"
| "lc_enabled (WaitBlock t) cf = at_phase EnteringWait t cf"
| "lc_enabled (InlineStart t) cf = at_phase Waiting t cf"
| "lc_enabled (InlineEnd t) cf = at_phase WaitingInline t cf"
| "lc_enabled (Wakeup t) cf = (t \<in> set (lc_unblocked cf))"
| "lc_enabled (EndBody t) cf = at_phase Running t cf"
| "lc_enabled (Release t) cf = at_phase Releasing t cf"
| "lc_enabled (EventInc t n) cf = at_phase Running t cf"
| "lc_enabled (EventDec t n) cf = (t \<in> set (lc_alive cf) \<and> int n \<le> lc_events cf t)"
| "lc_enabled (Dispose t) cf = (t \<in> set (lc_agents cf))"

inductive lc_reach :: "lifecycle \<Rightarrow> bool" where
  lc_reach_init: "lc_reach lc_init"
| lc_reach_step: "lc_reach cf \<Longrightarrow> lc_enabled a cf \<Longrightarrow> lc_exec a cf = Inr cf' \<Longrightarrow> lc_reach cf'"

text \<open>A given schedule, executed; None when one of its steps is not possible or fails.\<close>

fun lc_run :: "lc_step list \<Rightarrow> lifecycle \<Rightarrow> lifecycle option" where
  "lc_run [] cf = Some cf"
| "lc_run (a # as) cf =
     (if lc_enabled a cf then (case lc_exec a cf of Inl e \<Rightarrow> None | Inr cf' \<Rightarrow> lc_run as cf') else None)"

lemma lc_run_reach: "lc_run as cf = Some cf' \<Longrightarrow> lc_reach cf \<Longrightarrow> lc_reach cf'"
  by (induction as arbitrary: cf)
    (auto split: if_splits sum.splits intro: lc_reach_step)

end
