(* ===== verification/N6_LifecycleProofs.thy ===== *)
theory N6_LifecycleProofs
  imports N6_Lifecycle
begin

text \<open>
  The invariant of the life cycle machine: the countdown of a task counts its living children and
  its own share, which the phase of the task determines; a task whose countdown is 0 is exactly in
  one pair of hands, that of a thread inside \<open>disposeOrUnblockTask\<close> or that of the scheduler.
\<close>

section \<open>Invariant\<close>

definition children :: "lifecycle \<Rightarrow> task_ref \<Rightarrow> task_ref list" where
  "children cf t = filter (\<lambda>u. t_parent (lc_tasks cf u) = Some t) (lc_alive cf)"

text \<open>The share of the task itself in its two counters.\<close>

definition own_count :: "task \<Rightarrow> lc_phase \<Rightarrow> int" where
  "own_count x p =
     (case p of Waiting \<Rightarrow> 0 | Released \<Rightarrow> 0 | BodyEnded \<Rightarrow> (if mustDelayRelease x then 0 else 1) | _ \<Rightarrow> 1)"

definition own_release :: "task \<Rightarrow> lc_phase \<Rightarrow> int" where
  "own_release x p =
     (case p of Releasing \<Rightarrow> 0 | Released \<Rightarrow> 0 | BodyEnded \<Rightarrow> (if mustDelayRelease x then 1 else 0) | _ \<Rightarrow> 1)"

definition without_thread :: "lc_phase \<Rightarrow> bool" where
  "without_thread p = (p \<in> {Ready, BodyEnded, Releasing, Released})"

definition task_ok :: "task \<Rightarrow> lc_phase \<Rightarrow> int \<Rightarrow> nat \<Rightarrow> bool \<Rightarrow> bool \<Rightarrow> bool" where
  "task_ok x p e n agent queued \<longleftrightarrow>
     ti_device_type_id (t_taskInfo x) = nanos6_host_device \<and> isRunnable x \<and> t_computePlace x = None \<and>
     t_countdownToBeWokenUp x = int n + own_count x p \<and>
     t_countdownToRelease x = e + own_release x p \<and> 0 \<le> e \<and>
     (t_thread x = None \<longleftrightarrow> without_thread p) \<and>
     (p = Releasing \<or> p = Released \<longrightarrow> \<not> mustDelayRelease x \<and> e = 0) \<and>
     (p = BodyEnded \<and> \<not> mustDelayRelease x \<longrightarrow> 0 < e) \<and>
     (t_countdownToBeWokenUp x = 0 \<longleftrightarrow> agent \<or> queued) \<and> (queued \<longrightarrow> p = Waiting)"

definition this_ok :: "lifecycle \<Rightarrow> task_ref \<Rightarrow> bool" where
  "this_ok cf t =
     task_ok (lc_tasks cf t) (lc_phases cf t) (lc_events cf t) (length (children cf t))
       (t \<in> set (lc_agents cf)) (t \<in> set (lc_unblocked cf))"

definition parent_ok :: "lifecycle \<Rightarrow> task_ref \<Rightarrow> bool" where
  "parent_ok cf t = (\<forall>p. t_parent (lc_tasks cf t) = Some p \<longrightarrow> p \<in> set (lc_alive cf) \<and> p < t)"

definition lc_inv :: "lifecycle \<Rightarrow> bool" where
  "lc_inv cf \<longleftrightarrow>
     distinct (lc_alive cf) \<and> (\<forall>t \<in> set (lc_alive cf). t < lc_next cf) \<and>
     distinct (lc_agents cf @ lc_unblocked cf) \<and>
     set (lc_agents cf @ lc_unblocked cf) \<subseteq> set (lc_alive cf) \<and>
     (\<forall>t \<in> set (lc_alive cf). this_ok cf t \<and> parent_ok cf t)"

lemma lc_invD:
  assumes "lc_inv cf" "t \<in> set (lc_alive cf)"
  shows "this_ok cf t" "parent_ok cf t" "t < lc_next cf"
  using assms by (auto simp: lc_inv_def)

section \<open>Steps that concern one task\<close>

text \<open>A step that changes the object of \<open>t\<close>, its phase, and who holds it.\<close>

definition local_upd ::
  "task_ref \<Rightarrow> task \<Rightarrow> lc_phase \<Rightarrow> int \<Rightarrow> task_ref list \<Rightarrow> task_ref list \<Rightarrow> lc_call list \<Rightarrow> lifecycle \<Rightarrow> lifecycle" where
  "local_upd t x p e ag ub lg cf =
     cf\<lparr>lc_tasks := (lc_tasks cf)(t := x), lc_phases := (lc_phases cf)(t := p),
        lc_events := (lc_events cf)(t := e), lc_agents := ag, lc_unblocked := ub, lc_log := lg\<rparr>"

lemma local_upd_simps [simp]:
  "lc_tasks (local_upd t x p e ag ub lg cf) = (lc_tasks cf)(t := x)"
  "lc_phases (local_upd t x p e ag ub lg cf) = (lc_phases cf)(t := p)"
  "lc_events (local_upd t x p e ag ub lg cf) = (lc_events cf)(t := e)"
  "lc_agents (local_upd t x p e ag ub lg cf) = ag"
  "lc_unblocked (local_upd t x p e ag ub lg cf) = ub"
  "lc_alive (local_upd t x p e ag ub lg cf) = lc_alive cf"
  "lc_next (local_upd t x p e ag ub lg cf) = lc_next cf"
  "lc_log (local_upd t x p e ag ub lg cf) = lg"
  by (simp_all add: local_upd_def)

lemma children_local_upd [simp]:
  "t_parent x = t_parent (lc_tasks cf t) \<Longrightarrow> children (local_upd t x p e ag ub lg cf) u = children cf u"
  by (auto simp: children_def intro!: filter_cong)

lemma lc_inv_local:
  assumes inv: "lc_inv cf" and t: "t \<in> set (lc_alive cf)" and par: "t_parent x = t_parent (lc_tasks cf t)"
    and ok: "task_ok x p e (length (children cf t)) (t \<in> set ag) (t \<in> set ub)"
    and ag: "\<And>u. u \<noteq> t \<Longrightarrow> u \<in> set ag \<longleftrightarrow> u \<in> set (lc_agents cf)"
    and ub: "\<And>u. u \<noteq> t \<Longrightarrow> u \<in> set ub \<longleftrightarrow> u \<in> set (lc_unblocked cf)"
    and dist: "distinct (ag @ ub)"
  shows "lc_inv (local_upd t x p e ag ub lg cf)"
proof -
  let ?cf = "local_upd t x p e ag ub lg cf"
  have "this_ok ?cf u \<and> parent_ok ?cf u" if u: "u \<in> set (lc_alive cf)" for u
  proof (cases "u = t")
    case True
    with ok par lc_invD(2) [OF inv t] show ?thesis by (simp add: this_ok_def parent_ok_def)
  next
    case False
    with lc_invD [OF inv u] ag [OF False] ub [OF False] par show ?thesis
      by (simp add: this_ok_def parent_ok_def)
  qed
  moreover have "set (ag @ ub) \<subseteq> set (lc_alive cf)"
  proof
    fix u assume "u \<in> set (ag @ ub)"
    with ag [of u] ub [of u] t inv show "u \<in> set (lc_alive cf)" by (cases "u = t") (auto simp: lc_inv_def)
  qed
  ultimately show ?thesis using inv dist by (auto simp: lc_inv_def)
qed

text \<open>The common case: nobody else gets hold of the task or lets go of it.\<close>

lemma lc_inv_object:
  assumes "lc_inv cf" "t \<in> set (lc_alive cf)" "t_parent x = t_parent (lc_tasks cf t)"
    and "task_ok x p e (length (children cf t)) (t \<in> set (lc_agents cf)) (t \<in> set (lc_unblocked cf))"
  shows "lc_inv (local_upd t x p e (lc_agents cf) (lc_unblocked cf) lg cf)"
  using assms by (intro lc_inv_local) (auto simp: lc_inv_def)

lemma set_task_local:
  "set_task t x cf = local_upd t x (lc_phases cf t) (lc_events cf t) (lc_agents cf) (lc_unblocked cf) (lc_log cf) cf"
  "set_phase t p (set_task t x cf) = local_upd t x p (lc_events cf t) (lc_agents cf) (lc_unblocked cf) (lc_log cf) cf"
  by (simp_all add: set_task_def set_phase_def local_upd_def)

lemma set_phase_local:
  "set_phase t p cf = local_upd t (lc_tasks cf t) p (lc_events cf t) (lc_agents cf) (lc_unblocked cf) (lc_log cf) cf"
  by (simp add: set_phase_def local_upd_def)

lemmas phase_simps = own_count_def own_release_def without_thread_def

lemma flag_simps [simp]:
  "mustDelayRelease (x\<lparr>t_thread := a\<rparr>) = mustDelayRelease x"
  "mustDelayRelease (x\<lparr>t_countdownToBeWokenUp := b\<rparr>) = mustDelayRelease x"
  "mustDelayRelease (x\<lparr>t_countdownToRelease := b\<rparr>) = mustDelayRelease x"
  "isRunnable (x\<lparr>t_thread := a\<rparr>) = isRunnable x"
  "isRunnable (x\<lparr>t_countdownToBeWokenUp := b\<rparr>) = isRunnable x"
  "isRunnable (x\<lparr>t_countdownToRelease := b\<rparr>) = isRunnable x"
  by (simp_all add: mustDelayRelease_def isRunnable_def)

lemma clear_wait_simps [simp]:
  "\<not> mustDelayRelease (setFlag wait_flag False x)"
  "isRunnable (setFlag wait_flag False x) = isRunnable x"
  "t_parent (setFlag n b x) = t_parent x" "t_taskInfo (setFlag n b x) = t_taskInfo x"
  "t_thread (setFlag n b x) = t_thread x" "t_computePlace (setFlag n b x) = t_computePlace x"
  "t_countdownToBeWokenUp (setFlag n b x) = t_countdownToBeWokenUp x"
  "t_countdownToRelease (setFlag n b x) = t_countdownToRelease x"
  by (simp_all add: mustDelayRelease_def isRunnable_def setFlag_def bit_simps)

lemma own_simps [simp]:
  "own_count (x\<lparr>t_countdownToRelease := b\<rparr>) p = own_count x p"
  "own_release (x\<lparr>t_countdownToRelease := b\<rparr>) p = own_release x p"
  "own_count (x\<lparr>t_countdownToBeWokenUp := b\<rparr>) p = own_count x p"
  "own_release (x\<lparr>t_countdownToBeWokenUp := b\<rparr>) p = own_release x p"
  by (simp_all add: own_count_def own_release_def)

lemma at_phaseD:
  assumes "lc_inv cf" "at_phase p t cf"
  shows "t \<in> set (lc_alive cf)" "lc_phases cf t = p"
    "task_ok (lc_tasks cf t) p (lc_events cf t) (length (children cf t))
       (t \<in> set (lc_agents cf)) (t \<in> set (lc_unblocked cf))"
  using assms lc_invD(1) [OF assms(1), of t] by (auto simp: at_phase_def this_ok_def)

text \<open>A step succeeds and keeps the invariant.\<close>

definition step_ok :: "lifecycle result \<Rightarrow> bool" where
  "step_ok r = (\<exists>cf'. r = Inr cf' \<and> lc_inv cf')"

lemma step_ok_object:
  assumes "lc_inv cf" "t \<in> set (lc_alive cf)" "t_parent x = t_parent (lc_tasks cf t)"
    and "task_ok x p e (length (children cf t)) (t \<in> set (lc_agents cf)) (t \<in> set (lc_unblocked cf))"
    and "r = Inr (local_upd t x p e (lc_agents cf) (lc_unblocked cf) lg cf)"
  shows "step_ok r"
  using lc_inv_object [OF assms(1-4)] assms(5) by (simp add: step_ok_def)

lemmas upd_simps = set_task_def set_phase_def local_upd_def log_call_def

lemma lc_begin_ok:
  assumes inv: "lc_inv cf" and at: "at_phase Ready t cf"
  shows "step_ok (lc_begin t th cf)"
proof -
  note d = at_phaseD [OF inv at]
  show ?thesis
    using d(3) by (intro step_ok_object [OF inv d(1), where x = "(lc_tasks cf t)\<lparr>t_thread := Some th\<rparr>"
          and p = Running and e = "lc_events cf t" and lg = "lc_log cf"])
      (auto simp: task_ok_def phase_simps lc_begin_def setThread_def upd_simps)
qed

lemma lc_wait_check_ok:
  assumes inv: "lc_inv cf" and at: "at_phase Running t cf"
  shows "step_ok (lc_wait_check t cf)"
proof -
  note d = at_phaseD [OF inv at]
  have "lc_inv (set_phase t EnteringWait cf)"
    unfolding set_phase_local using d(3) by (intro lc_inv_object inv d) (auto simp: task_ok_def phase_simps)
  with inv show ?thesis by (simp add: step_ok_def lc_wait_check_def)
qed

text \<open>Leaving a wait: the task is owned by the caller, with no child left.\<close>

lemma lc_wait_end_ok:
  assumes inv: "lc_inv cf" and t: "t \<in> set (lc_alive cf)"
    and x: "t_countdownToBeWokenUp x = 0" "t_parent x = t_parent (lc_tasks cf t)"
    and ok: "task_ok (x\<lparr>t_countdownToBeWokenUp := 1\<rparr>) Running (lc_events cf t) (length (children cf t)) False False"
    and ag: "t \<notin> set ag" "t \<notin> set ub" "distinct (ag @ ub)"
    and others: "\<And>u. u \<noteq> t \<Longrightarrow> u \<in> set ag \<longleftrightarrow> u \<in> set (lc_agents cf)"
      "\<And>u. u \<noteq> t \<Longrightarrow> u \<in> set ub \<longleftrightarrow> u \<in> set (lc_unblocked cf)"
    and cf0: "cf0 = local_upd t x q (lc_events cf t) ag ub lg cf"
  shows "step_ok (lc_wait_end t cf0)"
proof -
  let ?y = "x\<lparr>t_countdownToBeWokenUp := 1\<rparr>"
  have "t_thread x \<noteq> None" using ok by (simp add: task_ok_def phase_simps)
  then have "lc_wait_end t cf0 = Inr (local_upd t ?y Running (lc_events cf t) ag ub lg cf)"
    using x(1)
    by (simp add: lc_wait_end_def canBeWokenUp_def markAsUnblocked_def handleExitTaskwait_def cf0 upd_simps)
  moreover have "lc_inv (local_upd t ?y Running (lc_events cf t) ag ub lg cf)"
    using ok x(2) ag others by (intro lc_inv_local inv t) auto
  ultimately show ?thesis by (simp add: step_ok_def)
qed

lemma lc_wait_block_ok:
  assumes inv: "lc_inv cf" and at: "at_phase EnteringWait t cf"
  shows "step_ok (lc_wait_block t cf)"
proof -
  note d = at_phaseD [OF inv at]
  let ?x = "(lc_tasks cf t)\<lparr>t_countdownToBeWokenUp := t_countdownToBeWokenUp (lc_tasks cf t) - 1\<rparr>"
  have free: "t \<notin> set (lc_agents cf)" "t \<notin> set (lc_unblocked cf)" and dist: "distinct (lc_agents cf @ lc_unblocked cf)"
    using d(3) inv by (auto simp: task_ok_def phase_simps lc_inv_def)
  have block: "markAsBlocked (handleEnterTaskwait (lc_tasks cf t)) = Inr (t_countdownToBeWokenUp ?x = 0, ?x)"
    using d(3) by (simp add: markAsBlocked_def handleEnterTaskwait_def task_ok_def phase_simps)
  show ?thesis
  proof (cases "t_countdownToBeWokenUp ?x = 0")
    case True
    have "step_ok (lc_wait_end t (set_task t ?x cf))"
      using d(3) True
      by (intro lc_wait_end_ok [OF inv d(1) True _ _ free dist _ _ set_task_local(1)])
        (auto simp: task_ok_def phase_simps)
    then show ?thesis using True by (simp add: lc_wait_block_def block)
  next
    case False
    with d(3) free show ?thesis
      by (intro step_ok_object [OF inv d(1), where x = ?x and p = Waiting and e = "lc_events cf t"
            and lg = "lc_log cf"])
        (auto simp: task_ok_def phase_simps lc_wait_block_def block upd_simps)
  qed
qed

lemma lc_inline_start_ok:
  assumes inv: "lc_inv cf" and at: "at_phase Waiting t cf"
  shows "step_ok (lc_inline_start t cf)"
proof -
  note d = at_phaseD [OF inv at]
  let ?x = "lc_tasks cf t"
  show ?thesis
  proof (cases "t_countdownToBeWokenUp ?x > 0")
    case True
    with d(3) show ?thesis
      by (intro step_ok_object [OF inv d(1), where p = WaitingInline and e = "lc_events cf t" and lg = "lc_log cf"
            and x = "?x\<lparr>t_countdownToBeWokenUp := t_countdownToBeWokenUp ?x + 1\<rparr>"])
        (auto simp: task_ok_def phase_simps lc_inline_start_def disableScheduling_def upd_simps)
  next
    case False
    with d(3) have "lc_inline_start t cf = Inr (set_task t ?x cf)"
      by (simp add: task_ok_def phase_simps lc_inline_start_def disableScheduling_def)
    then show ?thesis using inv by (simp add: step_ok_def set_task_def)
  qed
qed

lemma lc_inline_end_ok:
  assumes inv: "lc_inv cf" and at: "at_phase WaitingInline t cf"
  shows "step_ok (lc_inline_end t cf)"
proof -
  note d = at_phaseD [OF inv at]
  let ?x = "(lc_tasks cf t)\<lparr>t_countdownToBeWokenUp := t_countdownToBeWokenUp (lc_tasks cf t) - 1\<rparr>"
  have free: "t \<notin> set (lc_agents cf)" "t \<notin> set (lc_unblocked cf)" and dist: "distinct (lc_agents cf @ lc_unblocked cf)"
    using d(3) inv by (auto simp: task_ok_def phase_simps lc_inv_def)
  have enable: "enableScheduling (lc_tasks cf t) = Inr (t_countdownToBeWokenUp ?x = 0, ?x)"
    using d(3) by (simp add: enableScheduling_def task_ok_def phase_simps)
  show ?thesis
  proof (cases "t_countdownToBeWokenUp ?x = 0")
    case True
    have "step_ok (lc_wait_end t (set_task t ?x cf))"
      using d(3) True
      by (intro lc_wait_end_ok [OF inv d(1) True _ _ free dist _ _ set_task_local(1)])
        (auto simp: task_ok_def phase_simps)
    then show ?thesis using True by (simp add: lc_inline_end_def enable)
  next
    case False
    with d(3) free show ?thesis
      by (intro step_ok_object [OF inv d(1), where x = ?x and p = Waiting and e = "lc_events cf t"
            and lg = "lc_log cf"])
        (auto simp: task_ok_def phase_simps lc_inline_end_def enable upd_simps)
  qed
qed

lemma unblockedD:
  assumes inv: "lc_inv cf" and t: "t \<in> set (lc_unblocked cf)"
  shows "t \<in> set (lc_alive cf)" "t \<notin> set (lc_agents cf)" "lc_phases cf t = Waiting"
    "t_countdownToBeWokenUp (lc_tasks cf t) = 0" "children cf t = []" "this_ok cf t"
proof -
  show "t \<in> set (lc_alive cf)" "t \<notin> set (lc_agents cf)" using inv t by (auto simp: lc_inv_def)
  then show ok: "this_ok cf t" using lc_invD(1) [OF inv] by blast
  with t show w: "lc_phases cf t = Waiting" "t_countdownToBeWokenUp (lc_tasks cf t) = 0"
    by (auto simp: this_ok_def task_ok_def)
  with ok show "children cf t = []" by (simp add: this_ok_def task_ok_def phase_simps)
qed

lemma lc_wakeup_ok:
  assumes inv: "lc_inv cf" and t: "t \<in> set (lc_unblocked cf)"
  shows "step_ok (lc_wakeup t cf)"
proof -
  note d = unblockedD [OF inv t]
  have dist: "distinct (lc_agents cf @ remove1 t (lc_unblocked cf))" "t \<notin> set (remove1 t (lc_unblocked cf))"
    using inv by (auto simp: lc_inv_def set_remove1_eq distinct_remove1)
  have eq: "cf\<lparr>lc_unblocked := remove1 t (lc_unblocked cf)\<rparr> =
      local_upd t (lc_tasks cf t) Waiting (lc_events cf t) (lc_agents cf) (remove1 t (lc_unblocked cf)) (lc_log cf) cf"
    using d(3) by (simp add: local_upd_def fun_upd_idem)
  show ?thesis
    unfolding lc_wakeup_def using d(3,4,5,6)
    by (intro lc_wait_end_ok [OF inv d(1,4) refl _ d(2) dist(2,1) _ _ eq])
      (auto simp: this_ok_def task_ok_def phase_simps)
qed

section \<open>The end of a task\<close>

lemma lc_end_body_ok:
  assumes inv: "lc_inv cf" and at: "at_phase Running t cf"
  shows "step_ok (lc_end_body t cf)"
proof -
  note d = at_phaseD [OF inv at]
  let ?x = "lc_tasks cf t" and ?n = "length (children cf t)"
  have base: "ti_device_type_id (t_taskInfo ?x) = nanos6_host_device" "isRunnable ?x" "t_thread ?x \<noteq> None"
    "t_countdownToBeWokenUp ?x = int ?n + 1" "t_countdownToRelease ?x = lc_events cf t + 1" "0 \<le> lc_events cf t"
    "t_computePlace ?x = None" "t \<notin> set (lc_agents cf)" "t \<notin> set (lc_unblocked cf)"
    using d(3) by (auto simp: task_ok_def phase_simps)
  note step = step_ok_object [OF inv d(1), where e = "lc_events cf t" and lg = "lc_log cf"]
  show ?thesis
  proof (cases "mustDelayRelease ?x")
    case False
    then show ?thesis using base
      by (intro step [where x = "?x\<lparr>t_thread := None, t_countdownToRelease := lc_events cf t\<rparr>"
            and p = "if lc_events cf t = 0 then Releasing else BodyEnded"])
        (auto simp: task_ok_def phase_simps lc_end_body_def markAsFinished_def decreaseReleaseCount_def upd_simps)
  next
    case wait: True
    then have bit: "bit (t_flags ?x) wait_flag" by (simp add: mustDelayRelease_def)
    show ?thesis
    proof (cases "?n = 0")
      case True
      let ?y = "(setFlag wait_flag False (?x\<lparr>t_thread := None\<rparr>))\<lparr>t_countdownToRelease := lc_events cf t\<rparr>"
      have "markAsFinished ?x = Inr (lc_events cf t = 0, ?y)"
        using base True wait bit
        by (simp add: markAsFinished_def handleEnterTaskwait_def handleExitTaskwait_def
            decreaseRemovalBlockingCount_def increaseRemovalBlockingCount_def completeDelayedRelease_def
            decreaseReleaseCount_def setFlag_def)
      then show ?thesis using base True
        by (intro step [where x = ?y and p = "if lc_events cf t = 0 then Releasing else BodyEnded"])
          (auto simp: task_ok_def phase_simps lc_end_body_def upd_simps)
    next
      case False
      with base wait show ?thesis
        by (intro step [where x = "?x\<lparr>t_thread := None, t_countdownToBeWokenUp := int ?n\<rparr>" and p = BodyEnded])
          (auto simp: task_ok_def phase_simps lc_end_body_def markAsFinished_def handleEnterTaskwait_def
            decreaseRemovalBlockingCount_def upd_simps)
    qed
  qed
qed

lemma lc_release_ok:
  assumes inv: "lc_inv cf" and at: "at_phase Releasing t cf"
  shows "step_ok (lc_release t cf)"
proof -
  note d = at_phaseD [OF inv at]
  let ?x = "lc_tasks cf t" and ?n = "length (children cf t)"
  let ?y = "?x\<lparr>t_countdownToBeWokenUp := int ?n\<rparr>" and ?lg = "lc_log cf @ [UnregisterAccesses t]"
  have free: "t \<notin> set (lc_agents cf)" "t \<notin> set (lc_unblocked cf)"
    using d(3) by (auto simp: task_ok_def phase_simps)
  have released: "markAsReleased ?x = Inr (?n = 0, ?y)"
    using d(3) by (simp add: markAsReleased_def decreaseRemovalBlockingCount_def task_ok_def phase_simps)
  show ?thesis
  proof (cases "?n = 0")
    case True
    have "lc_inv (local_upd t ?y Released (lc_events cf t) (t # lc_agents cf) (lc_unblocked cf) ?lg cf)"
      using d(3) free True inv by (intro lc_inv_local inv d(1)) (auto simp: task_ok_def phase_simps lc_inv_def)
    moreover have "lc_release t cf =
        Inr (local_upd t ?y Released (lc_events cf t) (t # lc_agents cf) (lc_unblocked cf) ?lg cf)"
      using True by (simp add: lc_release_def released upd_simps)
    ultimately show ?thesis by (simp add: step_ok_def)
  next
    case False
    then have exec: "lc_release t cf =
        Inr (local_upd t ?y Released (lc_events cf t) (lc_agents cf) (lc_unblocked cf) ?lg cf)"
      by (simp add: lc_release_def released upd_simps)
    from False d(3) free show ?thesis
      by (intro step_ok_object [OF inv d(1) _ _ exec]) (auto simp: task_ok_def phase_simps)
  qed
qed

lemma lc_event_inc_ok:
  assumes inv: "lc_inv cf" and at: "at_phase Running t cf"
  shows "step_ok (lc_event_inc t n cf)"
proof (cases "n = 0")
  case False
  note d = at_phaseD [OF inv at]
  with False show ?thesis
    by (intro step_ok_object [OF inv d(1), where p = Running and e = "lc_events cf t + int n" and lg = "lc_log cf"
          and x = "increaseReleaseCount (int n) (lc_tasks cf t)"])
      (auto simp: task_ok_def phase_simps lc_event_inc_def increaseReleaseCount_def upd_simps fun_upd_idem)
qed (use inv in \<open>simp add: lc_event_inc_def step_ok_def\<close>)

lemma lc_event_dec_ok:
  assumes inv: "lc_inv cf" and t: "t \<in> set (lc_alive cf)" and n: "int n \<le> lc_events cf t"
  shows "step_ok (lc_event_dec t n cf)"
proof (cases "n = 0")
  case False
  let ?x = "lc_tasks cf t" and ?p = "lc_phases cf t"
  let ?y = "?x\<lparr>t_countdownToRelease := t_countdownToRelease ?x - int n\<rparr>"
  have ok: "task_ok ?x ?p (lc_events cf t) (length (children cf t)) (t \<in> set (lc_agents cf)) (t \<in> set (lc_unblocked cf))"
    using lc_invD(1) [OF inv t] by (simp add: this_ok_def)
  then have dec: "decreaseReleaseCount (int n) ?x = Inr (t_countdownToRelease ?y = 0, ?y)"
    using n by (auto simp: decreaseReleaseCount_def task_ok_def own_release_def split: lc_phase.splits)
  have phase: "?p = BodyEnded \<and> \<not> mustDelayRelease ?x" if "t_countdownToRelease ?y = 0"
    using that ok n False by (auto simp: task_ok_def own_release_def split: lc_phase.splits if_splits)
  show ?thesis
  proof (cases "t_countdownToRelease ?y = 0")
    case True
    with phase ok n show ?thesis
      by (intro step_ok_object [OF inv t, where x = ?y and p = Releasing and e = "lc_events cf t - int n" and lg = "lc_log cf"])
        (auto simp: task_ok_def phase_simps lc_event_dec_def dec False upd_simps)
  next
    case nz: False
    have "lc_events cf t - int n \<noteq> 0" if "?p = BodyEnded" "\<not> mustDelayRelease ?x"
      using that ok nz by (auto simp: task_ok_def own_release_def)
    moreover have "lc_events cf t > 0" using n False by simp
    ultimately have "task_ok ?y ?p (lc_events cf t - int n) (length (children cf t))
        (t \<in> set (lc_agents cf)) (t \<in> set (lc_unblocked cf))"
      using ok n by (auto simp: task_ok_def)
    then show ?thesis using nz
      by (intro step_ok_object [OF inv t, where x = ?y and p = ?p and e = "lc_events cf t - int n" and lg = "lc_log cf"])
        (simp_all add: lc_event_dec_def dec False upd_simps fun_upd_idem)
  qed
qed (use inv in \<open>simp add: lc_event_dec_def step_ok_def\<close>)

section \<open>Creation and disposal\<close>

lemma lc_create_ok:
  assumes inv: "lc_inv cf"
    and info: "ti_device_type_id info = nanos6_host_device" "ti_implementation_count info = 1"
      "\<not> bit flags non_runnable_flag"
    and running: "\<And>p. parent = Some p \<Longrightarrow> at_phase Running p cf"
  shows "step_ok (lc_create info flags parent cf)"
proof -
  let ?t = "lc_next cf"
  let ?new = "Task_new 0 info parent flags"
  obtain cf' where cf': "lc_create info flags parent cf = Inr cf'" by (simp add: lc_create_def Let_def info)
  have fields: "lc_alive cf' = ?t # lc_alive cf" "lc_next cf' = Suc ?t" "lc_agents cf' = lc_agents cf"
    "lc_unblocked cf' = lc_unblocked cf" "lc_phases cf' = (lc_phases cf)(?t := Ready)"
    "lc_events cf' = (lc_events cf)(?t := 0)"
    using cf' by (auto simp: lc_create_def Let_def)
  have fresh: "?t \<notin> set (lc_alive cf)" using lc_invD(3) [OF inv] by blast
  have tasks: "lc_tasks cf' u = (if u = ?t then ?new
      else if parent = Some u then addChild (lc_tasks cf u) else lc_tasks cf u)" for u
    using cf' running fresh
    by (auto simp: lc_create_def Let_def at_phase_def setParent_def Task_new_def split: option.splits)
  have parent: "t_parent (lc_tasks cf' u) = t_parent (lc_tasks cf u)" if "u \<noteq> ?t" for u
    using that by (simp add: tasks addChild_def)
  have kids: "children cf' u = (if parent = Some u then ?t # children cf u else children cf u)" for u
    using parent fresh by (auto simp: children_def fields tasks Task_new_def intro!: filter_cong)
  have no_kids: "children cf ?t = []"
    using lc_invD(2) [OF inv] fresh by (auto simp: children_def parent_ok_def filter_empty_conv)
  have "this_ok cf' u \<and> parent_ok cf' u" if u: "u \<in> set (lc_alive cf')" for u
  proof (cases "u = ?t")
    case True
    have "isRunnable ?new" using info by (simp add: isRunnable_def Task_new_def bit_simps)
    moreover have "?t \<notin> set (lc_agents cf)" "?t \<notin> set (lc_unblocked cf)" "parent \<noteq> Some ?t"
      using inv fresh running by (auto simp: lc_inv_def at_phase_def)
    moreover have "p \<in> set (lc_alive cf) \<and> p < ?t" if "parent = Some p" for p
      using running [OF that] lc_invD(3) [OF inv] by (auto simp: at_phase_def)
    ultimately show ?thesis
      using True no_kids info
      by (auto simp: this_ok_def parent_ok_def task_ok_def phase_simps fields tasks kids Task_new_def)
  next
    case False
    with u have old: "u \<in> set (lc_alive cf)" by (simp add: fields)
    note d = lc_invD [OF inv old]
    have "parent_ok cf' u" using d(2) parent [OF False] by (auto simp: parent_ok_def fields)
    moreover have "this_ok cf' u"
    proof (cases "parent = Some u")
      case True
      with running at_phaseD [OF inv, of Running u] have "task_ok (lc_tasks cf u) Running (lc_events cf u)
          (length (children cf u)) (u \<in> set (lc_agents cf)) (u \<in> set (lc_unblocked cf))" "lc_phases cf u = Running"
        by auto
      with True False show ?thesis
        by (auto simp: this_ok_def task_ok_def phase_simps fields tasks kids addChild_def)
    next
      case other: False
      with d(1) False show ?thesis by (simp add: this_ok_def fields tasks kids)
    qed
    ultimately show ?thesis by blast
  qed
  then have "lc_inv cf'"
    using inv fresh by (auto simp: lc_inv_def fields)
  then show ?thesis by (simp add: step_ok_def cf')
qed

lemma lc_spawn_ok:
  assumes inv: "lc_inv cf" and running: "\<And>p. parent = Some p \<Longrightarrow> at_phase Running p cf"
  shows "step_ok (lc_spawn parent cf)"
proof -
  let ?cf = "log_call (SpawnedFunctionStarts parent) (cf\<lparr>lc_pending := lc_pending cf + 1\<rparr>)"
  have "this_ok ?cf = this_ok cf" "parent_ok ?cf = parent_ok cf"
    by (auto simp: fun_eq_iff this_ok_def parent_ok_def children_def log_call_def)
  then have "lc_inv ?cf" using inv by (simp add: lc_inv_def log_call_def)
  then show ?thesis
    unfolding lc_spawn_def using running
    by (intro lc_create_ok) (auto simp: spawned_info_def at_phase_def log_call_def bit_simps)
qed

text \<open>A thread inside \<open>disposeOrUnblockTask\<close> holds a task without living children.\<close>

lemma agentD:
  assumes inv: "lc_inv cf" and t: "t \<in> set (lc_agents cf)"
  shows "t \<in> set (lc_alive cf)" "t \<notin> set (lc_unblocked cf)" "t_countdownToBeWokenUp (lc_tasks cf t) = 0"
    "children cf t = []" "this_ok cf t"
    "lc_phases cf t = Waiting \<or> lc_phases cf t = Released \<or>
     lc_phases cf t = BodyEnded \<and> mustDelayRelease (lc_tasks cf t)"
proof -
  show al: "t \<in> set (lc_alive cf)" "t \<notin> set (lc_unblocked cf)" using inv t by (auto simp: lc_inv_def)
  show ok: "this_ok cf t" using lc_invD(1) [OF inv al(1)] .
  with t show z: "t_countdownToBeWokenUp (lc_tasks cf t) = 0" by (auto simp: this_ok_def task_ok_def)
  with ok have sum: "int (length (children cf t)) + own_count (lc_tasks cf t) (lc_phases cf t) = 0"
    by (simp add: this_ok_def task_ok_def)
  moreover have "own_count (lc_tasks cf t) (lc_phases cf t) \<ge> 0"
    by (simp add: own_count_def split: lc_phase.splits)
  ultimately have "length (children cf t) = 0" and own: "own_count (lc_tasks cf t) (lc_phases cf t) = 0"
    by linarith+
  then show "children cf t = []" by simp
  from own show "lc_phases cf t = Waiting \<or> lc_phases cf t = Released \<or>
     lc_phases cf t = BodyEnded \<and> mustDelayRelease (lc_tasks cf t)"
    by (auto simp: own_count_def split: lc_phase.splits if_splits)
qed

definition let_go :: "task_ref \<Rightarrow> lifecycle \<Rightarrow> lifecycle" where
  "let_go t cf = cf\<lparr>lc_agents := remove1 t (lc_agents cf)\<rparr>"

definition hand_on :: "task_ref option \<Rightarrow> lifecycle \<Rightarrow> lifecycle" where
  "hand_on next cf = (case next of None \<Rightarrow> cf | Some p \<Rightarrow> cf\<lparr>lc_agents := p # lc_agents cf\<rparr>)"

lemma hand_on_simps [simp]:
  "hand_on None cf = cf" "lc_alive (hand_on n cf) = lc_alive cf" "lc_next (hand_on n cf) = lc_next cf"
  "lc_tasks (hand_on n cf) = lc_tasks cf" "lc_phases (hand_on n cf) = lc_phases cf"
  "lc_events (hand_on n cf) = lc_events cf" "lc_unblocked (hand_on n cf) = lc_unblocked cf"
  "lc_log (hand_on n cf) = lc_log cf" "children (hand_on n cf) = children cf"
  by (auto simp: hand_on_def children_def split: option.splits)

lemma hand_on_agents [simp]:
  "set (lc_agents (hand_on n cf)) = set_option n \<union> set (lc_agents cf)"
  "distinct (lc_agents (hand_on n cf)) \<longleftrightarrow> distinct (lc_agents cf) \<and> set_option n \<inter> set (lc_agents cf) = {}"
  by (auto simp: hand_on_def split: option.splits)

lemma lc_dispose_eq:
  "lc_dispose t cf = result_bind (dispose_iter t (let_go t cf)) (\<lambda>(next, cf1). Inr (hand_on next cf1))"
  by (simp add: lc_dispose_def let_go_def hand_on_def)

text \<open>The parent of a living task has a share for it in its countdown, so nobody holds the parent.\<close>

lemma parent_of_living:
  assumes inv: "lc_inv cf" and t: "t \<in> set (lc_alive cf)" and par: "t_parent (lc_tasks cf t) = Some p"
  shows "p \<in> set (lc_alive cf)" "p \<noteq> t" "t_countdownToBeWokenUp (lc_tasks cf p) \<ge> 1"
    "p \<notin> set (lc_agents cf)" "p \<notin> set (lc_unblocked cf)"
proof -
  show p: "p \<in> set (lc_alive cf)" "p \<noteq> t" using lc_invD(2) [OF inv t] par by (auto simp: parent_ok_def)
  have "t \<in> set (children cf p)" using par t by (simp add: children_def)
  then have "length (children cf p) \<ge> 1" by (cases "children cf p") auto
  moreover have "own_count (lc_tasks cf p) (lc_phases cf p) \<ge> 0"
    by (simp add: own_count_def split: lc_phase.splits)
  ultimately show "t_countdownToBeWokenUp (lc_tasks cf p) \<ge> 1"
    "p \<notin> set (lc_agents cf)" "p \<notin> set (lc_unblocked cf)"
    using lc_invD(1) [OF inv p(1)] by (auto simp: this_ok_def task_ok_def)
qed

text \<open>The state after a finished task has left the machine, and who is looked at next.\<close>

definition unlinked :: "task_ref \<Rightarrow> task_heap \<Rightarrow> task_heap" where
  "unlinked t h = (case t_parent (h t) of None \<Rightarrow> h
    | Some p \<Rightarrow> h(p := (h p)\<lparr>t_countdownToBeWokenUp := t_countdownToBeWokenUp (h p) - 1\<rparr>))"

definition next_of :: "task_ref \<Rightarrow> task_heap \<Rightarrow> task_ref option" where
  "next_of t h = (case t_parent (h t) of None \<Rightarrow> None
    | Some p \<Rightarrow> if t_countdownToBeWokenUp (h p) = 1 then Some p else None)"

definition removed :: "task_ref \<Rightarrow> lifecycle \<Rightarrow> lifecycle" where
  "removed t cf = cf\<lparr>lc_agents := remove1 t (lc_agents cf), lc_tasks := unlinked t (lc_tasks cf),
     lc_alive := remove1 t (lc_alive cf),
     lc_pending := lc_pending cf - (if t_parent (lc_tasks cf t) = None then 1 else 0),
     lc_log := lc_log cf @ [HandleTaskRemoval t, FreeTask t] @
       (if t_parent (lc_tasks cf t) = None then [SpawnedFunctionEnds] else [])\<rparr>"

lemma unlinked_simps [simp]:
  "t_parent (unlinked t h u) = t_parent (h u)"
  "t_parent (h t) \<noteq> Some u \<Longrightarrow> unlinked t h u = h u"
  "t_parent (h t) \<noteq> Some u \<Longrightarrow> next_of t h \<noteq> Some u"
  "t_parent (h t) = Some u \<Longrightarrow> next_of t h = Some u \<longleftrightarrow> t_countdownToBeWokenUp (h u) = 1"
  "t_parent (h t) = Some u \<Longrightarrow>
     unlinked t h u = (h u)\<lparr>t_countdownToBeWokenUp := t_countdownToBeWokenUp (h u) - 1\<rparr>"
  by (auto simp: unlinked_def next_of_def split: option.splits)

lemma next_ofD: "next_of t h = Some p \<Longrightarrow> t_parent (h t) = Some p"
  by (auto simp: next_of_def split: option.splits if_splits)

lemma removed_simps [simp]:
  "lc_agents (removed t cf) = remove1 t (lc_agents cf)" "lc_unblocked (removed t cf) = lc_unblocked cf"
  "lc_tasks (removed t cf) = unlinked t (lc_tasks cf)" "lc_phases (removed t cf) = lc_phases cf"
  "lc_events (removed t cf) = lc_events cf" "lc_alive (removed t cf) = remove1 t (lc_alive cf)"
  "lc_next (removed t cf) = lc_next cf"
  by (simp_all add: removed_def)

lemma children_removed:
  assumes inv: "lc_inv cf" and t: "t \<in> set (lc_alive cf)"
  shows "int (length (children (removed t cf) u)) =
    int (length (children cf u)) - (if t_parent (lc_tasks cf t) = Some u then 1 else 0)"
proof -
  have "children (removed t cf) u = remove1 t (children cf u)"
    by (simp add: children_def filter_remove1)
  moreover have "t \<in> set (children cf u) \<longleftrightarrow> t_parent (lc_tasks cf t) = Some u"
    using t by (simp add: children_def)
  moreover have "length (children cf u) \<ge> 1" if "t \<in> set (children cf u)"
    using that by (cases "children cf u") auto
  ultimately show ?thesis by (auto simp: length_remove1)
qed

lemma removed_exec:
  assumes inv: "lc_inv cf" and t: "t \<in> set (lc_agents cf)" and rel: "lc_phases cf t = Released"
  shows "dispose_or_unblock t (let_go t cf) = Inr (next_of t (lc_tasks cf), removed t cf)"
proof -
  note d = agentD [OF inv t]
  have "hasFinished (lc_tasks cf t)"
    using d(5) rel by (simp add: this_ok_def task_ok_def hasFinished_def phase_simps)
  then show ?thesis
    using parent_of_living(3) [OF inv d(1)]
    by (auto simp: dispose_or_unblock_def let_go_def log_call_def unlinkFromParent_def removeChild_def
        removed_def unlinked_def next_of_def Let_def split: option.splits)
qed

lemma removed_inv:
  assumes inv: "lc_inv cf" and t: "t \<in> set (lc_agents cf)"
  shows "lc_inv (hand_on (next_of t (lc_tasks cf)) (removed t cf))" (is "lc_inv ?cf")
proof -
  note d = agentD [OF inv t]
  let ?nxt = "next_of t (lc_tasks cf)"
  note pl = parent_of_living [OF inv d(1)]
  have "this_ok ?cf u \<and> parent_ok ?cf u" if "u \<in> set (remove1 t (lc_alive cf))" for u
  proof -
    have u: "u \<in> set (lc_alive cf)" "u \<noteq> t" using that inv by (auto simp: lc_inv_def)
    note du = lc_invD [OF inv u(1)]
    have "t_parent (lc_tasks cf u) \<noteq> Some t" using d(4) u(1) by (auto simp: children_def filter_empty_conv)
    then have par: "parent_ok ?cf u" using du(2) u by (auto simp: parent_ok_def)
    have "this_ok ?cf u"
    proof (cases "t_parent (lc_tasks cf t) = Some u")
      case True
      with du(1) pl(3-5) [OF True] children_removed [OF inv d(1), of u] u(2) show ?thesis
        by (auto simp: this_ok_def task_ok_def elem_set)
    next
      case False
      with du(1) children_removed [OF inv d(1), of u] u(2) show ?thesis
        by (auto simp: this_ok_def elem_set)
    qed
    with par show ?thesis by blast
  qed
  then have each: "\<forall>u \<in> set (lc_alive ?cf). this_ok ?cf u \<and> parent_ok ?cf u" by simp
  have nxt: "p \<in> set (lc_alive cf) - set (lc_agents cf) - set (lc_unblocked cf) - {t}"
    if "p \<in> set_option ?nxt" for p
  proof -
    have "t_parent (lc_tasks cf t) = Some p" using that by (intro next_ofD) (simp add: elem_set)
    then show ?thesis using pl(1,2,4,5) by simp
  qed
  have dist: "distinct (lc_alive cf)" "distinct (lc_agents cf)" "distinct (lc_unblocked cf)"
    "set (lc_agents cf) \<inter> set (lc_unblocked cf) = {}" "set (lc_agents cf) \<subseteq> set (lc_alive cf)"
    "set (lc_unblocked cf) \<subseteq> set (lc_alive cf)"
    using inv by (auto simp: lc_inv_def)
  have "distinct (lc_agents ?cf @ lc_unblocked ?cf)" using dist nxt d(2) by (auto simp: distinct_remove1)
  moreover have "set (lc_agents ?cf @ lc_unblocked ?cf) \<subseteq> set (lc_alive ?cf)"
    using dist nxt d(2) by auto
  ultimately show ?thesis
    using dist(1) each lc_invD(3) [OF inv] unfolding lc_inv_def by (simp add: distinct_remove1)
qed

text \<open>
  The outcomes of an iteration for a task that the thread holds: a waiting task is queued, a
  released task leaves, a task with a wait clause is released first unless events are pending.
\<close>

definition queue_task :: "task_ref \<Rightarrow> lifecycle \<Rightarrow> lifecycle" where
  "queue_task t cf = local_upd t (lc_tasks cf t) Waiting (lc_events cf t) (remove1 t (lc_agents cf))
     (t # lc_unblocked cf) (lc_log cf @ [AddUnblocked t]) cf"

definition waited_task :: "task_ref \<Rightarrow> int \<Rightarrow> lifecycle \<Rightarrow> task" where
  "waited_task t n cf = (setFlag wait_flag False (lc_tasks cf t))\<lparr>t_countdownToBeWokenUp := n,
     t_countdownToRelease := lc_events cf t\<rparr>"

definition leave_to_events :: "task_ref \<Rightarrow> lifecycle \<Rightarrow> lifecycle" where
  "leave_to_events t cf = local_upd t (waited_task t 1 cf) BodyEnded (lc_events cf t)
     (remove1 t (lc_agents cf)) (lc_unblocked cf) (lc_log cf) cf"

definition late_release :: "task_ref \<Rightarrow> lifecycle \<Rightarrow> lifecycle" where
  "late_release t cf = local_upd t (waited_task t 0 cf) Released 0 (lc_agents cf) (lc_unblocked cf)
     (lc_log cf @ [UnregisterAccesses t]) cf"

lemma agent_task_ok:
  assumes "lc_inv cf" "t \<in> set (lc_agents cf)"
  shows "task_ok (lc_tasks cf t) (lc_phases cf t) (lc_events cf t) 0 True False"
    "t \<notin> set (remove1 t (lc_agents cf))" "distinct (remove1 t (lc_agents cf) @ lc_unblocked cf)"
  using agentD(2,4,5) [OF assms] assms
  by (auto simp: this_ok_def lc_inv_def distinct_remove1 dest: notin_set_remove1)

lemma queue_task_ok:
  assumes inv: "lc_inv cf" and t: "t \<in> set (lc_agents cf)" and p: "lc_phases cf t = Waiting"
  shows "dispose_iter t (let_go t cf) = Inr (None, queue_task t cf)" "lc_inv (queue_task t cf)"
proof -
  note d = agentD [OF inv t] and ok = agent_task_ok [OF inv t]
  have "\<not> hasFinished (lc_tasks cf t)" using ok(1) p by (simp add: task_ok_def hasFinished_def phase_simps)
  then show "dispose_iter t (let_go t cf) = Inr (None, queue_task t cf)"
    using p by (simp add: let_go_def dispose_iter_def delayed_release_def queue_task_def
        dispose_or_unblock_def upd_simps fun_upd_idem)
  show "lc_inv (queue_task t cf)" unfolding queue_task_def
    using ok d(2,4) p by (intro lc_inv_local inv d(1)) (auto simp: task_ok_def phase_simps)
qed

lemma removed_ok:
  assumes inv: "lc_inv cf" and t: "t \<in> set (lc_agents cf)" and p: "lc_phases cf t = Released"
  shows "dispose_iter t (let_go t cf) = Inr (next_of t (lc_tasks cf), removed t cf)"
proof -
  have "delayed_release t (let_go t cf) = Inr (True, let_go t cf)"
    using agent_task_ok(1) [OF inv t] p by (simp add: delayed_release_def let_go_def task_ok_def)
  then show ?thesis using removed_exec [OF inv t p] by (simp add: dispose_iter_def)
qed

lemma delayed_markAll:
  assumes inv: "lc_inv cf" and t: "t \<in> set (lc_agents cf)"
    and p: "lc_phases cf t = BodyEnded" "mustDelayRelease (lc_tasks cf t)"
  shows "hasFinished (lc_tasks cf t)"
    "markAllChildrenAsFinished (lc_tasks cf t) = Inr (lc_events cf t = 0, waited_task t 1 cf)"
  using agent_task_ok(1) [OF inv t] p
  by (simp_all add: hasFinished_def markAllChildrenAsFinished_def completeDelayedRelease_def
      handleExitTaskwait_def increaseRemovalBlockingCount_def decreaseReleaseCount_def task_ok_def
      phase_simps mustDelayRelease_def setFlag_def waited_task_def)

lemma waited_task_simps [simp]:
  "t_parent (waited_task t n cf) = t_parent (lc_tasks cf t)" "\<not> mustDelayRelease (waited_task t n cf)"
  "(waited_task t n cf)\<lparr>t_countdownToBeWokenUp := m\<rparr> = waited_task t m cf"
  "t_countdownToBeWokenUp (waited_task t n cf) = n" "t_countdownToRelease (waited_task t n cf) = lc_events cf t"
  "t_thread (waited_task t n cf) = t_thread (lc_tasks cf t)"
  "t_computePlace (waited_task t n cf) = t_computePlace (lc_tasks cf t)"
  "t_taskInfo (waited_task t n cf) = t_taskInfo (lc_tasks cf t)"
  "isRunnable (waited_task t n cf) = isRunnable (lc_tasks cf t)"
  by (simp_all add: waited_task_def)

lemma leave_to_events_ok:
  assumes inv: "lc_inv cf" and t: "t \<in> set (lc_agents cf)"
    and p: "lc_phases cf t = BodyEnded" "mustDelayRelease (lc_tasks cf t)" and e: "lc_events cf t \<noteq> 0"
  shows "dispose_iter t (let_go t cf) = Inr (None, leave_to_events t cf)" "lc_inv (leave_to_events t cf)"
proof -
  note d = agentD [OF inv t] and ok = agent_task_ok [OF inv t]
  show "dispose_iter t (let_go t cf) = Inr (None, leave_to_events t cf)"
    using p e delayed_markAll [OF inv t p]
    by (simp add: dispose_iter_def delayed_release_def let_go_def leave_to_events_def upd_simps fun_upd_idem)
  show "lc_inv (leave_to_events t cf)" unfolding leave_to_events_def
    using ok d(2,4) p e by (intro lc_inv_local inv d(1)) (auto simp: task_ok_def phase_simps)
qed

lemma late_release_ok:
  assumes inv: "lc_inv cf" and t: "t \<in> set (lc_agents cf)"
    and p: "lc_phases cf t = BodyEnded" "mustDelayRelease (lc_tasks cf t)" and e: "lc_events cf t = 0"
  shows "dispose_iter t (let_go t cf) = Inr (next_of t (lc_tasks (late_release t cf)), removed t (late_release t cf))"
    "lc_inv (late_release t cf)"
proof -
  note d = agentD [OF inv t] and ok = agent_task_ok [OF inv t]
  show inv': "lc_inv (late_release t cf)" unfolding late_release_def
    using ok d(2,4) t p e by (intro lc_inv_object inv d(1)) (auto simp: task_ok_def phase_simps)
  have "delayed_release t (let_go t cf) = Inr (True, let_go t (late_release t cf))"
    using ok(1) p e delayed_markAll [OF inv t p]
    by (simp add: delayed_release_def let_go_def late_release_def task_ok_def phase_simps markAsReleased_def
        decreaseRemovalBlockingCount_def upd_simps fun_upd_idem)
  moreover have "t \<in> set (lc_agents (late_release t cf))" "lc_phases (late_release t cf) t = Released"
    using t by (simp_all add: late_release_def)
  ultimately show "dispose_iter t (let_go t cf) =
      Inr (next_of t (lc_tasks (late_release t cf)), removed t (late_release t cf))"
    using removed_exec [OF inv'] by (simp add: dispose_iter_def)
qed

lemma dispose_outcomes:
  assumes inv: "lc_inv cf" and t: "t \<in> set (lc_agents cf)"
  obtains (queued) "lc_phases cf t = Waiting" "dispose_iter t (let_go t cf) = Inr (None, queue_task t cf)"
      "lc_inv (queue_task t cf)"
  | (events) "lc_phases cf t = BodyEnded" "dispose_iter t (let_go t cf) = Inr (None, leave_to_events t cf)"
      "lc_inv (leave_to_events t cf)"
  | (gone) cf0 where "cf0 = cf \<and> lc_phases cf t = Released \<or> cf0 = late_release t cf \<and> lc_phases cf t = BodyEnded"
      "lc_inv cf0" "t \<in> set (lc_agents cf0)"
      "dispose_iter t (let_go t cf) = Inr (next_of t (lc_tasks cf0), removed t cf0)"
proof -
  consider "lc_phases cf t = Waiting" | "lc_phases cf t = Released"
    | "lc_phases cf t = BodyEnded" "mustDelayRelease (lc_tasks cf t)" "lc_events cf t \<noteq> 0"
    | "lc_phases cf t = BodyEnded" "mustDelayRelease (lc_tasks cf t)" "lc_events cf t = 0"
    using agentD(6) [OF inv t] by blast
  then show thesis
  proof cases
    case 1 then show thesis using queue_task_ok [OF inv t 1] by (rule queued)
  next
    case 2 then show thesis using removed_ok [OF inv t 2] inv t gone by blast
  next
    case 3 then show thesis using leave_to_events_ok [OF inv t 3] events by blast
  next
    case 4
    have "t \<in> set (lc_agents (late_release t cf))" using t by (simp add: late_release_def)
    then show thesis using 4(1) late_release_ok [OF inv t 4] gone by blast
  qed
qed

lemma dispose_iter_ok:
  assumes inv: "lc_inv cf" and t: "t \<in> set (lc_agents cf)"
  shows "\<exists>nxt cf1. dispose_iter t (let_go t cf) = Inr (nxt, cf1) \<and> lc_inv (hand_on nxt cf1) \<and>
    (\<forall>p. nxt = Some p \<longrightarrow> p < t)"
  using inv t
proof (cases rule: dispose_outcomes)
  case (gone cf0)
  then have "t \<in> set (lc_alive cf0)" using agentD(1) by blast
  then have "p < t" if "next_of t (lc_tasks cf0) = Some p" for p
    using lc_invD(2) [OF gone(2)] next_ofD [OF that] by (auto simp: parent_ok_def)
  then show ?thesis using gone removed_inv [OF gone(2,3)] by blast
qed auto

lemma lc_dispose_ok:
  assumes inv: "lc_inv cf" and t: "t \<in> set (lc_agents cf)"
  shows "step_ok (lc_dispose t cf)"
  using dispose_iter_ok [OF inv t] by (auto simp: step_ok_def lc_dispose_eq)

section \<open>All reachable states\<close>

lemma lc_exec_ok:
  assumes inv: "lc_inv cf" and en: "lc_enabled a cf"
  shows "step_ok (lc_exec a cf)"
proof (cases a)
  case (Create info flags parent)
  then show ?thesis using en by (auto intro: lc_create_ok [OF inv])
next
  case (Spawn parent)
  then show ?thesis using en by (auto intro!: lc_spawn_ok [OF inv])
qed (use inv en in \<open>simp_all add: lc_begin_ok lc_wait_check_ok lc_wait_block_ok lc_inline_start_ok
      lc_inline_end_ok lc_wakeup_ok lc_end_body_ok lc_release_ok lc_event_inc_ok lc_event_dec_ok
      lc_dispose_ok\<close>)

lemma lc_inv_init: "lc_inv lc_init"
  by (simp add: lc_inv_def lc_init_def)

lemma lc_reach_inv: "lc_reach cf \<Longrightarrow> lc_inv cf"
proof (induction rule: lc_reach.induct)
  case (lc_reach_step cf a cf')
  then show ?case using lc_exec_ok [of cf a] by (auto simp: step_ok_def)
qed (rule lc_inv_init)

end
