(* ===== verification/N6_LifecycleTheorems.thy ===== *)
theory N6_LifecycleTheorems
  imports N6_LifecycleProofs
begin

text \<open>
  What every interleaving of the life cycle machine guarantees: no assertion fails, a task leaves a
  taskwait only without living children, none is forgotten in a taskwait, the accesses of a task
  are released and its memory freed exactly once and in this order, and the loop of
  \<open>disposeOrUnblockTask\<close> ends.
\<close>

section \<open>The calls made for a task\<close>

fun concerns :: "task_ref \<Rightarrow> lc_call \<Rightarrow> bool" where
  "concerns t (UnregisterAccesses u) = (u = t)"
| "concerns t (HandleTaskRemoval u) = (u = t)"
| "concerns t (FreeTask u) = (u = t)"
| "concerns t (AddUnblocked u) = False"
| "concerns t (SpawnedFunctionStarts u) = False"
| "concerns t SpawnedFunctionEnds = False"

definition history :: "task_ref \<Rightarrow> lifecycle \<Rightarrow> lc_call list" where
  "history t cf = filter (concerns t) (lc_log cf)"

definition expected_history :: "task_ref \<Rightarrow> lifecycle \<Rightarrow> lc_call list" where
  "expected_history t cf =
     (if t \<in> set (lc_alive cf) then (if lc_phases cf t = Released then [UnregisterAccesses t] else [])
      else if t < lc_next cf then [UnregisterAccesses t, HandleTaskRemoval t, FreeTask t] else [])"

definition log_ok :: "lifecycle \<Rightarrow> bool" where
  "log_ok cf = (\<forall>t. history t cf = expected_history t cf)"

text \<open>Most steps make no such call, and neither release nor create nor dispose of a task.\<close>

definition quiet :: "lifecycle \<Rightarrow> lifecycle \<Rightarrow> bool" where
  "quiet cf cf' \<longleftrightarrow> (\<forall>t. history t cf' = history t cf) \<and> lc_alive cf' = lc_alive cf \<and> lc_next cf' = lc_next cf \<and>
     (\<forall>u \<in> set (lc_alive cf). lc_phases cf' u = Released \<longleftrightarrow> lc_phases cf u = Released)"

lemma quiet_log_ok: "quiet cf cf' \<Longrightarrow> log_ok cf \<Longrightarrow> log_ok cf'"
  by (simp add: quiet_def log_ok_def expected_history_def)

lemma quietI:
  assumes "\<And>t. history t cf' = history t cf" "lc_alive cf' = lc_alive cf" "lc_next cf' = lc_next cf"
    "\<And>u. u \<in> set (lc_alive cf) \<Longrightarrow> lc_phases cf' u = Released \<longleftrightarrow> lc_phases cf u = Released"
  shows "quiet cf cf'"
  using assms by (simp add: quiet_def)

lemma history_simps [simp]:
  "history u (log_call c cf) = history u cf @ (if concerns u c then [c] else [])"
  "history u (set_task t x cf) = history u cf" "history u (set_phase t p cf) = history u cf"
  "history u (hand_on n cf) = history u cf"
  by (simp_all add: history_def log_call_def set_task_def set_phase_def)

lemma lc_wait_end_effect:
  assumes "lc_wait_end t cf = Inr cf'"
  shows "cf' = local_upd t ((lc_tasks cf t)\<lparr>t_countdownToBeWokenUp := 1\<rparr>) Running (lc_events cf t)
    (lc_agents cf) (lc_unblocked cf) (lc_log cf) cf"
  using assms by (auto simp: lc_wait_end_def canBeWokenUp_def markAsUnblocked_def handleExitTaskwait_def upd_simps)

lemma event_dec_phase:
  assumes "lc_inv cf" "t \<in> set (lc_alive cf)" "int n \<le> lc_events cf t" "n \<noteq> 0"
  shows "lc_phases cf t \<noteq> Released"
  using lc_invD(1) [OF assms(1,2)] assms(3,4) by (auto simp: this_ok_def task_ok_def)

lemmas step_defs = lc_begin_def lc_wait_check_def lc_wait_block_def lc_inline_start_def lc_inline_end_def
  lc_wakeup_def lc_end_body_def lc_event_inc_def lc_event_dec_def

lemma quiet_steps:
  assumes inv: "lc_inv cf" and en: "lc_enabled a cf" and ex: "lc_exec a cf = Inr cf'"
    and a: "\<nexists>info flags parent. a = Create info flags parent" "\<nexists>parent. a = Spawn parent"
      "\<nexists>t. a = Release t" "\<nexists>t. a = Dispose t"
  shows "quiet cf cf'"
proof (cases a)
  case (EventDec t n)
  then show ?thesis using en ex event_dec_phase [OF inv, of t n]
    by (intro quietI) (auto simp: history_def lc_event_dec_def Let_def set_task_def set_phase_def split: if_splits)
next
  case (Wakeup t)
  then have "lc_phases cf t = Waiting" using unblockedD(3) [OF inv] en by simp
  then show ?thesis using Wakeup ex
    by (intro quietI) (auto simp: history_def lc_wakeup_def split: if_splits dest!: lc_wait_end_effect)
qed (use en ex a in \<open>auto intro!: quietI simp: history_def step_defs at_phase_def set_task_def set_phase_def
  split: if_splits dest!: lc_wait_end_effect\<close>)

lemma create_log_ok:
  assumes inv: "lc_inv cf" and log: "log_ok cf" and ex: "lc_create info flags parent cf = Inr cf'"
  shows "log_ok cf'"
proof -
  have "lc_next cf \<notin> set (lc_alive cf)" using lc_invD(3) [OF inv] by blast
  then show ?thesis using log ex
    by (auto simp: log_ok_def expected_history_def history_def lc_create_def Let_def less_Suc_eq)
qed

lemma spawn_log_ok:
  assumes inv: "lc_inv cf" and log: "log_ok cf" and ex: "lc_spawn parent cf = Inr cf'"
  shows "log_ok cf'"
proof -
  have "lc_next cf \<notin> set (lc_alive cf)" using lc_invD(3) [OF inv] by blast
  then show ?thesis using log ex
    by (auto simp: log_ok_def expected_history_def history_def lc_spawn_def lc_create_def log_call_def Let_def less_Suc_eq)
qed

lemma release_log_ok:
  assumes inv: "lc_inv cf" and log: "log_ok cf" and at: "at_phase Releasing t cf" and ex: "lc_release t cf = Inr cf'"
  shows "log_ok cf'"
proof -
  have eq: "history u cf' = history u cf @ (if u = t then [UnregisterAccesses t] else [])"
    "lc_alive cf' = lc_alive cf" "lc_next cf' = lc_next cf" "lc_phases cf' = (lc_phases cf)(t := Released)" for u
    using ex by (auto simp: lc_release_def history_def upd_simps Let_def split: if_splits)
  then show ?thesis using log at by (simp add: log_ok_def expected_history_def at_phase_def)
qed

lemma removed_log_ok:
  assumes inv: "lc_inv cf" and t: "t \<in> set (lc_agents cf)" and rel: "lc_phases cf t = Released" and log: "log_ok cf"
  shows "log_ok (removed t cf)"
proof -
  note al = agentD(1) [OF inv t]
  have eq: "history u (removed t cf) = history u cf @ (if u = t then [HandleTaskRemoval t, FreeTask t] else [])" for u
    by (simp add: history_def removed_def)
  have "t < lc_next cf" using lc_invD(3) [OF inv al] .
  moreover have "set (remove1 t (lc_alive cf)) = set (lc_alive cf) - {t}" using inv by (simp add: lc_inv_def)
  ultimately show ?thesis using log al rel by (simp add: log_ok_def expected_history_def eq)
qed

lemma late_release_log_ok:
  assumes log: "log_ok cf" and t: "t \<in> set (lc_alive cf)" and p: "lc_phases cf t = BodyEnded"
  shows "log_ok (late_release t cf)"
proof -
  have "history u (late_release t cf) = history u cf @ (if u = t then [UnregisterAccesses t] else [])" for u
    by (simp add: history_def late_release_def)
  then show ?thesis using log t p by (simp add: log_ok_def expected_history_def late_release_def)
qed

lemma dispose_log_ok:
  assumes inv: "lc_inv cf" and log: "log_ok cf" and t: "t \<in> set (lc_agents cf)" and ex: "lc_dispose t cf = Inr cf'"
  shows "log_ok cf'"
  using inv t
proof (cases rule: dispose_outcomes)
  case queued
  then have "quiet cf cf'" using ex by (intro quietI) (auto simp: lc_dispose_eq queue_task_def history_def split: if_splits)
  then show ?thesis using log by (rule quiet_log_ok)
next
  case events
  then have "quiet cf cf'" using ex by (intro quietI) (auto simp: lc_dispose_eq leave_to_events_def history_def split: if_splits)
  then show ?thesis using log by (rule quiet_log_ok)
next
  case (gone cf0)
  have "log_ok cf0" using gone(1) log late_release_log_ok [OF log agentD(1) [OF inv t]] by blast
  moreover have "lc_phases cf0 t = Released" using gone(1) by (auto simp: late_release_def)
  ultimately have "log_ok (removed t cf0)" using removed_log_ok gone(2,3) by blast
  then show ?thesis using ex gone(4) by (auto simp: lc_dispose_eq log_ok_def expected_history_def)
qed

lemma lc_reach_log: "lc_reach cf \<Longrightarrow> log_ok cf"
proof (induction rule: lc_reach.induct)
  case lc_reach_init
  show ?case by (simp add: log_ok_def history_def expected_history_def lc_init_def)
next
  case (lc_reach_step cf a cf')
  note inv = lc_reach_inv [OF lc_reach_step(1)]
  consider info flags parent where "a = Create info flags parent" | parent where "a = Spawn parent" | t where "a = Release t" | t where "a = Dispose t"
    | "quiet cf cf'" using quiet_steps [OF inv lc_reach_step(2,3)] by blast
  then show ?case
  proof cases
    case 1 then show ?thesis using create_log_ok [OF inv lc_reach_step.IH] lc_reach_step(3) by simp
  next
    case 2 then show ?thesis using spawn_log_ok [OF inv lc_reach_step.IH] lc_reach_step(3) by simp
  next
    case 3 then show ?thesis using release_log_ok [OF inv lc_reach_step.IH] lc_reach_step(2,3) by simp
  next
    case 4 then show ?thesis using dispose_log_ok [OF inv lc_reach_step.IH] lc_reach_step(2,3) by simp
  next
    case 5 then show ?thesis using quiet_log_ok lc_reach_step.IH by blast
  qed
qed

section \<open>Leaving a taskwait\<close>

definition in_wait :: "lc_phase \<Rightarrow> bool" where
  "in_wait p = (p \<in> {EnteringWait, Waiting, WaitingInline})"

lemma running_without_children:
  assumes "lc_inv cf" "t \<in> set (lc_alive cf)" "lc_phases cf t = Running"
    "t_countdownToBeWokenUp (lc_tasks cf t) = 1"
  shows "children cf t = []"
  using lc_invD(1) [OF assms(1,2)] assms(3,4) by (simp add: this_ok_def task_ok_def own_count_def)

text \<open>The steps that let a task run again leave its countdown at 1.\<close>

lemma leaves_wait_countdown:
  assumes inv: "lc_inv cf" and en: "lc_enabled a cf" and ex: "lc_exec a cf = Inr cf'"
    and t: "t \<in> set (lc_alive cf)" and w: "in_wait (lc_phases cf t)" and run: "lc_phases cf' t = Running"
  shows "t_countdownToBeWokenUp (lc_tasks cf' t) = 1 \<and> t \<in> set (lc_alive cf')"
proof (cases a)
  case (Create info flags parent)
  moreover have "t \<noteq> lc_next cf" using lc_invD(3) [OF inv t] by simp
  ultimately show ?thesis using ex w run by (auto simp: lc_create_def Let_def in_wait_def)
next
  case (Spawn parent)
  moreover have "t \<noteq> lc_next cf" using lc_invD(3) [OF inv t] by simp
  ultimately show ?thesis using ex w run by (auto simp: lc_spawn_def lc_create_def log_call_def Let_def in_wait_def)
next
  case (Dispose u)
  then have u: "u \<in> set (lc_agents cf)" and ex': "lc_dispose u cf = Inr cf'" using en ex by simp_all
  have False using inv u
  proof (cases rule: dispose_outcomes)
    case (gone cf0)
    then show False using ex' w run by (auto simp: lc_dispose_eq in_wait_def late_release_def split: if_splits)
  qed (use ex' w run in \<open>auto simp: lc_dispose_eq in_wait_def queue_task_def leave_to_events_def split: if_splits\<close>)
  then show ?thesis ..
next
  case (Release u)
  then show ?thesis using ex w run
    by (auto simp: lc_release_def upd_simps Let_def in_wait_def split: if_splits)
next
  case (EventDec u n)
  then show ?thesis using ex w run
    by (auto simp: lc_event_dec_def upd_simps Let_def in_wait_def split: if_splits)
qed (use en ex t w run in \<open>auto simp: step_defs at_phase_def upd_simps in_wait_def
  split: if_splits dest!: lc_wait_end_effect\<close>)

section \<open>The loop of \<open>disposeOrUnblockTask\<close>\<close>

lemma dispose_loop:
  assumes "lc_reach cf" "t \<in> set (lc_agents cf)" "t < fuel"
  shows "\<exists>cf'. disposeOrUnblockTask fuel (Some t) (let_go t cf) = Some (Inr cf') \<and> lc_reach cf'"
  using assms
proof (induction fuel arbitrary: t cf)
  case (Suc n t cf)
  obtain nxt cf1 where it: "dispose_iter t (let_go t cf) = Inr (nxt, cf1)" "\<forall>p. nxt = Some p \<longrightarrow> p < t"
    using dispose_iter_ok [OF lc_reach_inv [OF Suc(2)] Suc(3)] by blast
  then have "lc_exec (Dispose t) cf = Inr (hand_on nxt cf1)" by (simp add: lc_dispose_eq)
  then have r: "lc_reach (hand_on nxt cf1)" using Suc(2,3) lc_reach_step [of cf "Dispose t"] by simp
  show ?case
  proof (cases nxt)
    case None
    then show ?thesis using it r by simp
  next
    case (Some p)
    have "let_go p (hand_on nxt cf1) = cf1" using Some by (simp add: let_go_def hand_on_def)
    moreover have "\<exists>cf'. disposeOrUnblockTask n (Some p) (let_go p (hand_on nxt cf1)) = Some (Inr cf') \<and> lc_reach cf'"
      using it(2) Some Suc(4) r by (intro Suc.IH) auto
    ultimately show ?thesis using it(1) Some by simp
  qed
qed simp

section \<open>Theorems\<close>

text \<open>
  A schedule of two tasks: the first creates the second and waits for it, the second has a wait
  clause and a pending event. After \<open>demo_wait\<close> the first task waits, after
  \<open>demo_queued\<close> it is queued in the scheduler.
\<close>

definition demo_wait :: "lc_step list" where
  "demo_wait = [Spawn None, Begin 0 7, Create spawned_info (2 ^ wait_flag) 0, WaitCheck 0, WaitBlock 0,
     Begin 1 8, EventInc 1 2, EndBody 1]"

definition demo_queued :: "lc_step list" where
  "demo_queued = demo_wait @ [EventDec 1 2, Release 1, Dispose 1, Dispose 0]"

definition demo_at :: "lc_step list \<Rightarrow> lifecycle" where
  "demo_at as = (case lc_run as lc_init of None \<Rightarrow> lc_init | Some cf \<Rightarrow> cf)"

lemma demo_at_reach: "lc_reach (demo_at as)"
  using lc_run_reach [OF _ lc_reach_init, of as] lc_reach_init by (auto simp: demo_at_def split: option.splits)

lemma lc_run_append: "lc_run (as @ bs) cf = Option.bind (lc_run as cf) (lc_run bs)"
  by (induction as arbitrary: cf) (auto split: sum.splits)

lemma demo_step:
  "lc_run (as @ [a]) lc_init \<noteq> None \<Longrightarrow> lc_exec a (demo_at as) = Inr (demo_at (as @ [a]))"
  by (auto simp: demo_at_def lc_run_append split: option.splits sum.splits if_splits bind_split_asm bind_split)



text \<open>
  C8. A taskwait waits for all children: when \<open>nanos6_taskwait\<close> lets its task run again, through the
  fast check, without blocking or after having been blocked, no child of the task is alive.
\<close>

theorem taskwait_waits_for_children:
  assumes r: "lc_reach cf" and en: "lc_enabled a cf" and ex: "lc_exec a cf = Inr cf'"
    and t: "t \<in> set (lc_alive cf)" and w: "a = WaitCheck t \<or> in_wait (lc_phases cf t)"
    and run: "lc_phases cf' t = Running"
  shows "\<forall>u \<in> set (lc_alive cf'). t_parent (lc_tasks cf' u) \<noteq> Some t"
proof -
  note inv = lc_reach_inv [OF r] and inv' = lc_reach_inv [OF lc_reach_step [OF r en ex]]
  have "t_countdownToBeWokenUp (lc_tasks cf' t) = 1 \<and> t \<in> set (lc_alive cf')"
  proof (cases "a = WaitCheck t")
    case True
    then show ?thesis using ex run t
      by (auto simp: lc_wait_check_def doesNotNeedToBlockForChildren_def set_phase_def split: if_splits)
  qed (use w leaves_wait_countdown [OF inv en ex t _ run] in blast)
  then have "children cf' t = []" using running_without_children [OF inv'] run by blast
  then show ?thesis by (simp add: children_def filter_empty_conv)
qed

theorem taskwait_waits_for_children_witness:
  "filter (\<lambda>u. t_parent (lc_tasks (demo_at (demo_queued @ [Wakeup 0])) u) = Some 0)
     (lc_alive (demo_at (demo_queued @ [Wakeup 0]))) = []"
proof -
  have ex: "lc_exec (Wakeup 0) (demo_at demo_queued) = Inr (demo_at (demo_queued @ [Wakeup 0]))"
    by (rule demo_step) code_simp
  have at: "lc_enabled (Wakeup 0) (demo_at demo_queued)" "0 \<in> set (lc_alive (demo_at demo_queued))"
    "Wakeup 0 = WaitCheck 0 \<or> in_wait (lc_phases (demo_at demo_queued) 0)"
    "lc_phases (demo_at (demo_queued @ [Wakeup 0])) 0 = Running" by code_simp+
  show ?thesis
    using taskwait_waits_for_children [OF demo_at_reach at(1) ex at(2-4)] by (simp only: filter_empty_conv)
qed



text \<open>
  C17. The calls that end a task are made exactly once and in order: the accesses of a task are
  unregistered when it is released, the task is removed from the dependency system and its memory
  freed later, and no living task has been freed. In particular nothing is freed twice and the
  parent of a living task is alive.
\<close>

theorem ended_once_in_order:
  assumes r: "lc_reach cf"
  shows "history t cf =
      (if t \<in> set (lc_alive cf) then (if lc_phases cf t = Released then [UnregisterAccesses t] else [])
       else if t < lc_next cf then [UnregisterAccesses t, HandleTaskRemoval t, FreeTask t] else []) \<and>
    (t \<in> set (lc_alive cf) \<longrightarrow> (\<forall>p. t_parent (lc_tasks cf t) = Some p \<longrightarrow> FreeTask p \<notin> set (lc_log cf)))"
proof -
  note log = lc_reach_log [OF r] and inv = lc_reach_inv [OF r]
  have "FreeTask p \<notin> set (lc_log cf)" if "t \<in> set (lc_alive cf)" "t_parent (lc_tasks cf t) = Some p" for p
  proof -
    have "set (history p cf) \<subseteq> {UnregisterAccesses p}"
      using log parent_of_living(1) [OF inv that] by (auto simp: log_ok_def expected_history_def)
    then show ?thesis by (auto simp: history_def)
  qed
  then show ?thesis using log by (simp add: log_ok_def expected_history_def)
qed

theorem ended_once_in_order_witness:
  "history 1 (demo_at demo_queued) = [UnregisterAccesses 1, HandleTaskRemoval 1, FreeTask 1]"
proof -
  have "1 \<notin> set (lc_alive (demo_at demo_queued))" "1 < lc_next (demo_at demo_queued)" by code_simp+
  then show ?thesis using ended_once_in_order [OF demo_at_reach, of 1 demo_queued] by simp
qed

text \<open>
  The loop of \<open>disposeOrUnblockTask\<close> ends: it goes from child to parent, so a number of turns
  bounded by the identifier of the task is enough, and the state it leaves is one that the
  interleaved steps reach.
\<close>

lemma disposeOrUnblockTask_terminates:
  assumes "lc_reach cf" "t \<in> set (lc_agents cf)"
  shows "\<exists>cf'. disposeOrUnblockTask (Suc t) (Some t) (cf\<lparr>lc_agents := remove1 t (lc_agents cf)\<rparr>) = Some (Inr cf') \<and>
    lc_reach cf'"
  using dispose_loop [OF assms lessI] by (simp only: let_go_def)

end
