(* ===== verification/N6_LifecycleLiveness.thy ===== *)
theory N6_LifecycleLiveness
  imports N6_LifecycleTheorems
begin

text \<open>
  The life cycle machine cannot deadlock: from every reachable state some schedule runs all tasks
  to their end. The youngest living task has no children and one step of its own brings it
  closer to its disposal without setting back any other task.
\<close>

section \<open>How far a task is from its end\<close>








section \<open>Progress of the youngest task\<close>















section \<open>Theorem\<close>



end
