(* ===== verification/N6_SpawnedFunctions.thy ===== *)
theory N6_SpawnedFunctions
  imports N6_LifecycleTheorems
begin

text \<open>
  The counter of pending spawned functions (\<open>SpawnedFunctions::_pendingSpawnedFunctions\<close>,
  \<open>src/system/ompss/SpawnFunction.cpp\<close>), for which \<open>nanos6_shutdown\<close> waits to become 0: what its value
  says about the tasks of the life cycle machine.
\<close>

section \<open>Steps keep the parent of a task\<close>

lemma keeps_parent:
  "setThread th x = Inr y \<Longrightarrow> t_parent y = t_parent x"
  "markAsBlocked x = Inr (b, y) \<Longrightarrow> t_parent y = t_parent x"
  "disableScheduling x = Inr (b, y) \<Longrightarrow> t_parent y = t_parent x"
  "enableScheduling x = Inr (b, y) \<Longrightarrow> t_parent y = t_parent x"
  "markAsReleased x = Inr (b, y) \<Longrightarrow> t_parent y = t_parent x"
  "decreaseReleaseCount n x = Inr (b, y) \<Longrightarrow> t_parent y = t_parent x"
  "decreaseRemovalBlockingCount x = Inr (b, y) \<Longrightarrow> t_parent y = t_parent x"
  "t_parent (increaseReleaseCount n x) = t_parent x"
  by (auto simp: setThread_def markAsBlocked_def disableScheduling_def enableScheduling_def markAsReleased_def
      decreaseReleaseCount_def decreaseRemovalBlockingCount_def increaseReleaseCount_def Let_def split: if_splits)

lemma markAsFinished_parent:
  assumes "markAsFinished x = Inr (b, y)"
  shows "t_parent y = t_parent x"
  using assms
  by (auto simp: markAsFinished_def handleEnterTaskwait_def handleExitTaskwait_def completeDelayedRelease_def
      increaseRemovalBlockingCount_def decreaseReleaseCount_def decreaseRemovalBlockingCount_def setFlag_def Let_def
      split: if_splits)

section \<open>The counter\<close>

fun nested_spawn :: "lc_call \<Rightarrow> bool" where
  "nested_spawn (SpawnedFunctionStarts (Some _)) = True"
| "nested_spawn _ = False"

definition roots :: "lifecycle \<Rightarrow> task_ref list" where
  "roots cf = filter (\<lambda>t. t_parent (lc_tasks cf t) = None) (lc_alive cf)"

definition nested :: "lifecycle \<Rightarrow> lc_call list" where
  "nested cf = filter nested_spawn (lc_log cf)"

definition pending_ok :: "lifecycle \<Rightarrow> bool" where
  "pending_ok cf = (lc_pending cf = word_of_nat (length (roots cf) + length (nested cf)))"

definition same_roots :: "lifecycle \<Rightarrow> lifecycle \<Rightarrow> bool" where
  "same_roots cf cf' \<longleftrightarrow> lc_pending cf' = lc_pending cf \<and> lc_alive cf' = lc_alive cf \<and> nested cf' = nested cf \<and>
     (\<forall>t. t_parent (lc_tasks cf' t) = t_parent (lc_tasks cf t))"

lemma same_roots_ok: "same_roots cf cf' \<Longrightarrow> pending_ok cf \<Longrightarrow> pending_ok cf'"
  by (simp add: same_roots_def pending_ok_def roots_def)

lemma same_roots_local:
  "t_parent x = t_parent (lc_tasks cf t) \<Longrightarrow> filter nested_spawn lg = nested cf \<Longrightarrow>
   same_roots cf (local_upd t x p e ag ub lg cf)"
  by (simp add: same_roots_def nested_def local_upd_def)

lemma steps_same_roots:
  assumes ex: "lc_exec a cf = Inr cf'"
    and a: "\<nexists>info flags parent. a = Create info flags parent" "\<nexists>parent. a = Spawn parent" "\<nexists>t. a = Dispose t"
  shows "same_roots cf cf'"
proof (cases a)
  case (Release t)
  then show ?thesis using ex
    by (auto simp: same_roots_def nested_def lc_release_def upd_simps Let_def dest!: keeps_parent(5))
next
  case (EndBody t)
  then show ?thesis using ex
    by (auto simp: same_roots_def nested_def lc_end_body_def upd_simps dest!: markAsFinished_parent)
next
  case (WaitBlock t)
  then show ?thesis using ex
    by (auto simp: same_roots_def nested_def lc_wait_block_def handleEnterTaskwait_def upd_simps split: if_splits
        dest!: lc_wait_end_effect keeps_parent(2))
qed (use ex a in \<open>auto simp: same_roots_def nested_def step_defs upd_simps Let_def keeps_parent(8) split: if_splits
  dest!: lc_wait_end_effect keeps_parent(1,3,4,6)\<close>)

text \<open>Creation adds a root exactly when the creator is no task.\<close>

lemma create_roots:
  assumes inv: "lc_inv cf" and ex: "lc_create info flags parent cf = Inr cf'"
  shows "length (roots cf') = (if parent = None then 1 else 0) + length (roots cf)"
    "nested cf' = nested cf" "lc_pending cf' = lc_pending cf"
proof -
  let ?t = "lc_next cf"
  have fresh: "?t \<notin> set (lc_alive cf)" using lc_invD(3) [OF inv] by blast
  have eq: "lc_alive cf' = ?t # lc_alive cf" "t_parent (lc_tasks cf' ?t) = parent"
    "\<And>u. u \<noteq> ?t \<Longrightarrow> t_parent (lc_tasks cf' u) = t_parent (lc_tasks cf u)"
    using ex by (auto simp: lc_create_def setParent_def addChild_def Task_new_def Let_def split: option.splits if_splits)
  have "t_parent (lc_tasks cf' u) = t_parent (lc_tasks cf u)" if "u \<in> set (lc_alive cf)" for u
    using that fresh by (intro eq(3)) auto
  then have "filter (\<lambda>u. t_parent (lc_tasks cf' u) = None) (lc_alive cf) = roots cf"
    by (simp add: roots_def cong: filter_cong)
  then show "length (roots cf') = (if parent = None then 1 else 0) + length (roots cf)"
    by (simp add: roots_def eq)
  show "nested cf' = nested cf" "lc_pending cf' = lc_pending cf"
    using ex by (auto simp: lc_create_def nested_def Let_def)
qed

lemma removed_pending:
  assumes inv: "lc_inv cf" and t: "t \<in> set (lc_agents cf)" and ok: "pending_ok cf"
  shows "pending_ok (hand_on n (removed t cf))"
proof -
  note al = agentD(1) [OF inv t]
  have eq: "roots (removed t cf) = remove1 t (roots cf)" by (simp add: roots_def filter_remove1)
  have root: "t \<in> set (roots cf) \<longleftrightarrow> t_parent (lc_tasks cf t) = None" using al by (simp add: roots_def)
  then have "length (roots cf) \<ge> 1" if "t_parent (lc_tasks cf t) = None" using that by (cases "roots cf") auto
  with root have len: "length (roots cf) = length (remove1 t (roots cf)) + (if t_parent (lc_tasks cf t) = None then 1 else 0)"
    by (auto simp: length_remove1)
  have "nested (removed t cf) = nested cf" by (simp add: nested_def removed_def)
  then have "lc_pending (removed t cf) = word_of_nat (length (roots (removed t cf)) + length (nested (removed t cf)))"
    using ok unfolding pending_ok_def len eq by (simp add: removed_def)
  moreover have "roots (hand_on n (removed t cf)) = roots (removed t cf)"
    "nested (hand_on n (removed t cf)) = nested (removed t cf)"
    "lc_pending (hand_on n (removed t cf)) = lc_pending (removed t cf)"
    by (auto simp: roots_def nested_def hand_on_def split: option.splits)
  ultimately show ?thesis by (simp add: pending_ok_def)
qed

lemma dispose_pending:
  assumes inv: "lc_inv cf" and t: "t \<in> set (lc_agents cf)" and ok: "pending_ok cf" and ex: "lc_dispose t cf = Inr cf'"
  shows "pending_ok cf'"
  using inv t
proof (cases rule: dispose_outcomes)
  case queued
  then have "same_roots cf cf'" using ex
    by (auto simp: lc_dispose_eq queue_task_def nested_def intro!: same_roots_local)
  then show ?thesis using ok by (rule same_roots_ok)
next
  case events
  then have "same_roots cf cf'" using ex
    by (auto simp: lc_dispose_eq leave_to_events_def nested_def intro!: same_roots_local)
  then show ?thesis using ok by (rule same_roots_ok)
next
  case (gone cf0)
  have "cf0 = cf \<or> same_roots cf cf0"
    using gone(1) by (auto simp: late_release_def nested_def intro!: same_roots_local)
  then have "pending_ok cf0" using ok same_roots_ok by blast
  then show ?thesis using removed_pending [OF gone(2,3)] ex gone(4) by (auto simp: lc_dispose_eq)
qed

lemma lc_reach_pending: "lc_reach cf \<Longrightarrow> pending_ok cf"
proof (induction rule: lc_reach.induct)
  case lc_reach_init
  show ?case by (simp add: pending_ok_def roots_def nested_def lc_init_def)
next
  case (lc_reach_step cf a cf')
  note inv = lc_reach_inv [OF lc_reach_step(1)] and ex = lc_reach_step(3)
  show ?case
  proof (cases a)
    case (Create info flags parent)
    then show ?thesis using create_roots [OF inv, of info flags "Some parent" cf'] ex lc_reach_step.IH
      by (simp add: pending_ok_def)
  next
    case (Spawn parent)
    let ?cf = "log_call (SpawnedFunctionStarts parent) (cf\<lparr>lc_pending := lc_pending cf + 1\<rparr>)"
    have "this_ok ?cf = this_ok cf" "parent_ok ?cf = parent_ok cf"
      by (auto simp: fun_eq_iff this_ok_def parent_ok_def children_def log_call_def)
    then have inv': "lc_inv ?cf" using inv by (simp add: lc_inv_def log_call_def)
    have "lc_create spawned_info (2 ^ wait_flag) parent ?cf = Inr cf'" using Spawn ex by (simp add: lc_spawn_def)
    note new = create_roots [OF inv' this]
    have old: "roots ?cf = roots cf" "lc_pending ?cf = lc_pending cf + 1"
      "length (nested ?cf) = length (nested cf) + (if parent = None then 0 else 1)"
      by (cases parent; simp add: roots_def nested_def log_call_def)+
    show ?thesis using lc_reach_step.IH unfolding pending_ok_def new old by simp
  next
    case (Dispose t)
    then show ?thesis using dispose_pending [OF inv _ lc_reach_step.IH] lc_reach_step(2) ex by simp
  qed (use same_roots_ok [OF steps_same_roots [OF ex] lc_reach_step.IH] in simp_all)
qed

section \<open>Theorem\<close>

text \<open>
  The counter of pending spawned functions is the number of living tasks without parent plus the
  number of calls of \<open>nanos6_spawn_function\<close> that were made inside a task. The latter are never
  taken back: after one such call the counter does not return to 0 when every task has ended, and
  \<open>nanos6_shutdown\<close>, which waits for 0, does not return.
\<close>

lemma pending_spawned_functions:
  assumes "lc_reach cf"
  shows "lc_pending cf = word_of_nat (length (filter (\<lambda>t. t_parent (lc_tasks cf t) = None) (lc_alive cf)) +
      length (filter nested_spawn (lc_log cf)))"
  using lc_reach_pending [OF assms] by (simp add: pending_ok_def roots_def nested_def)

definition demo_nested :: "lc_step list" where
  "demo_nested = [Spawn None, Begin 0 7, Spawn (Some 0), Begin 1 8, EndBody 1, Release 1, Dispose 1, EndBody 0,
     Release 0, Dispose 0]"

end
