(* ===== verification/N6_UserMutex.thy ===== *)
theory N6_UserMutex
  imports N6_SchedulerInterface
begin

text \<open>
  The user-side mutex: class \<open>UserMutex\<close> (\<open>src/system/ompss/UserMutex.hpp\<close>), its allocation on first
  use, \<open>nanos6_user_lock\<close> and \<open>nanos6_user_unlock\<close> (\<open>UserMutex.cpp\<close>), and the two decisions of
  \<open>src/executors/threads/ThreadManagerPolicy.hpp\<close>. The operations on the mutex are interleaved with
  those of any number of tasks; the sections under \<open>_blockedTasksLock\<close> are single steps.
\<close>

section \<open>The mutex\<close>

record user_mutex =
  um_userMutex :: bool
  um_blockedTasks :: "task_ref list"

definition UserMutex_new :: "bool \<Rightarrow> user_mutex" where
  "UserMutex_new initialState = \<lparr>um_userMutex = initialState, um_blockedTasks = []\<rparr>"

definition tryLock :: "user_mutex \<Rightarrow> bool \<times> user_mutex" where
  "tryLock m = (if um_userMutex m then (False, m) else (True, m\<lparr>um_userMutex := True\<rparr>))"

definition lockOrQueue :: "task_ref \<Rightarrow> user_mutex \<Rightarrow> bool \<times> user_mutex" where
  "lockOrQueue task m =
     (case tryLock m of
        (True, m1) \<Rightarrow> (True, m1)
      | (False, m1) \<Rightarrow> (False, m1\<lparr>um_blockedTasks := um_blockedTasks m1 @ [task]\<rparr>))"

definition dequeueOrUnlock :: "user_mutex \<Rightarrow> task_ref option \<times> user_mutex" where
  "dequeueOrUnlock m =
     (case um_blockedTasks m of
        [] \<Rightarrow> (None, m\<lparr>um_userMutex := False\<rparr>)
      | releasedTask # rest \<Rightarrow> (Some releasedTask, m\<lparr>um_blockedTasks := rest\<rparr>))"

section \<open>Thread manager policy\<close>

datatype thread_run_inline_policy_t =
    POLICY_NO_INLINE
  | POLICY_CHILDREN_INLINE
  | POLICY_ALL_INLINE

definition checkIfMustRunInline ::
  "task_ref \<Rightarrow> task_ref \<Rightarrow> cpu_ref \<Rightarrow> thread_run_inline_policy_t \<Rightarrow> world \<Rightarrow> bool" where
  "checkIfMustRunInline replacementTask currentTask cpu policy w =
     (if t_thread (w_tasks w replacementTask) \<noteq> None then False
      else if \<not> acceptsWork (cp_activationStatus (w_places w cpu)) then False
      else case policy of
             POLICY_NO_INLINE \<Rightarrow> False
           | POLICY_CHILDREN_INLINE \<Rightarrow> t_parent (w_tasks w replacementTask) = Some currentTask
           | POLICY_ALL_INLINE \<Rightarrow> True)"

definition checkIfUnblockedMustPreemtUnblocker :: "task_ref \<Rightarrow> task_ref \<Rightarrow> cpu_ref \<Rightarrow> bool" where
  "checkIfUnblockedMustPreemtUnblocker unblockerTask unblockedTask cpu = True"

section \<open>Waking up the released task\<close>

text \<open>
  What \<open>nanos6_user_unlock\<close> does for the task that \<open>dequeueOrUnlock\<close> returns, over the scheduler
  facade and the worker threads.
\<close>

definition wake_released ::
  "'s scheduler_ops \<Rightarrow> thread_ref \<Rightarrow> cpu_ref \<Rightarrow> task_ref \<Rightarrow> 's \<Rightarrow> world \<Rightarrow> ('s \<times> world) result" where
  "wake_released ops currentThread cpu releasedTask s w =
     (case th_task (w_threads w currentThread) of
        None \<Rightarrow> Inl (AssertFailed ''currentTask != nullptr'')
      | Some currentTask \<Rightarrow>
          if checkIfUnblockedMustPreemtUnblocker currentTask releasedTask cpu
          then (case t_thread (w_tasks w releasedTask) of
                  None \<Rightarrow> Inl (AssertFailed ''releasedThread != nullptr'')
                | Some releasedThread \<Rightarrow>
                    (case Scheduler_getIdleComputePlace ops s w False of
                       (Some idleCPU, s1, w1) \<Rightarrow>
                         result_bind (thread_resume releasedThread idleCPU w1) (\<lambda>w2. Inr (s1, w2))
                     | (None, s1, w1) \<Rightarrow>
                         result_bind (Scheduler_addReadyTask ops s1 w1 currentTask (Some cpu) UNBLOCKED_TASK_HINT)
                           (\<lambda>(_, s2, w2).
                             result_bind (thread_switchTo currentThread (Some releasedThread) w2)
                               (\<lambda>w3. Inr (s2, w3)))))
          else result_bind (Scheduler_addReadyTask ops s w releasedTask (Some cpu) UNBLOCKED_TASK_HINT)
                 (\<lambda>(_, s1, w1).
                   case Scheduler_getIdleComputePlace ops s1 w1 False of
                     (Some idleCPU, s2, w2) \<Rightarrow> result_bind (resumeIdle idleCPU False w2) (\<lambda>(_, w3). Inr (s2, w3))
                   | (None, s2, w2) \<Rightarrow> Inr (s2, w2)))"

text \<open>The released task is not queued: its own thread is the last one that is resumed.\<close>

lemma wake_released_resumes:
  assumes "wake_released ops currentThread cpu releasedTask s w = Inr (s', w')"
  shows "\<exists>th c. t_thread (w_tasks w releasedTask) = Some th \<and> last (w_resumed w') = (th, c)"
  using assms
  by (auto simp: wake_released_def checkIfUnblockedMustPreemtUnblocker_def thread_resume_def thread_switchTo_def
      upd_thread_def split: option.splits prod.splits)

section \<open>Locking and unlocking by tasks\<close>

text \<open>
  Where a task is: \<open>SawNull\<close> after it found the handler null and before its compare-exchange,
  \<open>Trying\<close> before the fast path, \<open>Queueing\<close> before \<open>lockOrQueue\<close>, \<open>Blocked\<close> in \<open>taskBlocks\<close>,
  \<open>Holding\<close> after \<open>nanos6_user_lock\<close> has returned, or will return when the thread is resumed.
\<close>

datatype um_phase = Away | SawNull | Trying | Queueing | Blocked | Holding

record mutex_machine =
  mm_mutex :: "user_mutex option"
  mm_phase :: "task_ref \<Rightarrow> um_phase"
  mm_queued :: "task_ref list"
  mm_handed :: "task_ref list"

definition mm_init :: mutex_machine where
  "mm_init = \<lparr>mm_mutex = None, mm_phase = (\<lambda>_. Away), mm_queued = [], mm_handed = []\<rparr>"

definition mm_set :: "task_ref \<Rightarrow> um_phase \<Rightarrow> mutex_machine \<Rightarrow> mutex_machine" where
  "mm_set t p s = s\<lparr>mm_phase := (mm_phase s)(t := p)\<rparr>"

definition um_read :: "task_ref \<Rightarrow> mutex_machine \<Rightarrow> mutex_machine" where
  "um_read t s = mm_set t (if mm_mutex s = None then SawNull else Trying) s"

definition um_alloc :: "task_ref \<Rightarrow> mutex_machine \<Rightarrow> mutex_machine" where
  "um_alloc t s =
     (case mm_mutex s of
        None \<Rightarrow> mm_set t Holding (s\<lparr>mm_mutex := Some (UserMutex_new True)\<rparr>)
      | Some _ \<Rightarrow> mm_set t Trying s)"

text \<open>The handler is dereferenced only after it was seen or made non-null.\<close>

definition with_mutex ::
  "mutex_machine \<Rightarrow> (user_mutex \<Rightarrow> mutex_machine result) \<Rightarrow> mutex_machine result" where
  "with_mutex s f =
     (case mm_mutex s of None \<Rightarrow> Inl (AssertFailed ''*handlerPointer != nullptr'') | Some m \<Rightarrow> f m)"

definition um_tryLock :: "task_ref \<Rightarrow> mutex_machine \<Rightarrow> mutex_machine result" where
  "um_tryLock t s =
     with_mutex s (\<lambda>m. case tryLock m of (ok, m1) \<Rightarrow>
       Inr (mm_set t (if ok then Holding else Queueing) (s\<lparr>mm_mutex := Some m1\<rparr>)))"

definition um_lockOrQueue :: "task_ref \<Rightarrow> mutex_machine \<Rightarrow> mutex_machine result" where
  "um_lockOrQueue t s =
     with_mutex s (\<lambda>m. case lockOrQueue t m of (ok, m1) \<Rightarrow>
       (let s1 = s\<lparr>mm_mutex := Some m1\<rparr> in
        Inr (if ok then mm_set t Holding s1 else mm_set t Blocked (s1\<lparr>mm_queued := mm_queued s1 @ [t]\<rparr>))))"

text \<open>
  The released task is resumed on an idle CPU or replaces the unblocker on its CPU
  (\<open>checkIfUnblockedMustPreemtUnblocker\<close> answers true): in both cases it owns the mutex from then on.
\<close>

definition um_unlock :: "task_ref \<Rightarrow> mutex_machine \<Rightarrow> mutex_machine result" where
  "um_unlock t s =
     with_mutex s (\<lambda>m. case dequeueOrUnlock m of (released, m1) \<Rightarrow>
       (let s1 = mm_set t Away (s\<lparr>mm_mutex := Some m1\<rparr>) in
        Inr (case released of
               None \<Rightarrow> s1
             | Some u \<Rightarrow> mm_set u Holding (s1\<lparr>mm_handed := mm_handed s1 @ [u]\<rparr>))))"

inductive mm_step :: "mutex_machine \<Rightarrow> mutex_machine \<Rightarrow> bool" where
  mm_read: "mm_phase s t = Away \<Longrightarrow> mm_step s (um_read t s)"
| mm_alloc: "mm_phase s t = SawNull \<Longrightarrow> mm_step s (um_alloc t s)"
| mm_try: "mm_phase s t = Trying \<Longrightarrow> um_tryLock t s = Inr s' \<Longrightarrow> mm_step s s'"
| mm_queue: "mm_phase s t = Queueing \<Longrightarrow> um_lockOrQueue t s = Inr s' \<Longrightarrow> mm_step s s'"
| mm_unlock: "mm_phase s t = Holding \<Longrightarrow> um_unlock t s = Inr s' \<Longrightarrow> mm_step s s'"

inductive mm_reach :: "mutex_machine \<Rightarrow> bool" where
  mm_reach_init: "mm_reach mm_init"
| mm_reach_step: "mm_reach s \<Longrightarrow> mm_step s s' \<Longrightarrow> mm_reach s'"

section \<open>Invariant\<close>

definition holders :: "mutex_machine \<Rightarrow> task_ref set" where
  "holders s = {t. mm_phase s t = Holding}"

definition blocked :: "mutex_machine \<Rightarrow> task_ref set" where
  "blocked s = {t. mm_phase s t = Blocked}"

lemma phase_sets [simp]:
  "holders (mm_set t p s) = (if p = Holding then insert t (holders s) else holders s - {t})"
  "holders (s\<lparr>mm_mutex := x\<rparr>) = holders s" "holders (s\<lparr>mm_queued := q\<rparr>) = holders s"
  "holders (s\<lparr>mm_handed := q\<rparr>) = holders s"
  "blocked (mm_set t p s) = (if p = Blocked then insert t (blocked s) else blocked s - {t})"
  "blocked (s\<lparr>mm_mutex := x\<rparr>) = blocked s" "blocked (s\<lparr>mm_queued := q\<rparr>) = blocked s"
  "blocked (s\<lparr>mm_handed := q\<rparr>) = blocked s"
  by (auto simp: holders_def blocked_def mm_set_def)

lemma in_phase_sets: "t \<in> holders s \<longleftrightarrow> mm_phase s t = Holding" "t \<in> blocked s \<longleftrightarrow> mm_phase s t = Blocked"
  by (simp_all add: holders_def blocked_def)

lemma mm_set_fields [simp]:
  "mm_mutex (mm_set t p s) = mm_mutex s" "mm_queued (mm_set t p s) = mm_queued s"
  "mm_handed (mm_set t p s) = mm_handed s" "mm_phase (mm_set t p s) = (mm_phase s)(t := p)"
  by (simp_all add: mm_set_def)

text \<open>
  The mutex is locked exactly while one task holds it, the blocked tasks are exactly the queued
  ones, tasks are queued only behind a holder, and they were handed the mutex in the order in which
  they queued.
\<close>

definition mutex_ok :: "user_mutex \<Rightarrow> mutex_machine \<Rightarrow> bool" where
  "mutex_ok m s \<longleftrightarrow>
     (if um_userMutex m then \<exists>t. holders s = {t} else holders s = {} \<and> um_blockedTasks m = []) \<and>
     distinct (um_blockedTasks m) \<and> set (um_blockedTasks m) = blocked s \<and>
     mm_queued s = mm_handed s @ um_blockedTasks m"

definition mm_inv :: "mutex_machine \<Rightarrow> bool" where
  "mm_inv s \<longleftrightarrow>
     (case mm_mutex s of
        None \<Rightarrow> (\<forall>t. mm_phase s t \<in> {Away, SawNull}) \<and> mm_queued s = [] \<and> mm_handed s = []
      | Some m \<Rightarrow> mutex_ok m s)"

lemma mm_inv_some:
  assumes "mm_inv s" "mm_phase s t \<notin> {Away, SawNull}"
  obtains m where "mm_mutex s = Some m" "mutex_ok m s"
  using assms by (cases "mm_mutex s") (auto simp: mm_inv_def)

lemma mutex_ok_away:
  assumes "mutex_ok m s" "mm_phase s t \<notin> {Holding, Blocked}" "p \<notin> {Holding, Blocked}"
  shows "mutex_ok m (mm_set t p s)"
  using assms in_phase_sets [of t s] by (auto simp: mutex_ok_def)

lemma mm_inv_read:
  assumes "mm_inv s" "mm_phase s t = Away"
  shows "mm_inv (um_read t s)"
  using assms by (auto simp: mm_inv_def um_read_def split: option.splits intro!: mutex_ok_away)

lemma mm_inv_alloc:
  assumes inv: "mm_inv s" and t: "mm_phase s t = SawNull"
  shows "mm_inv (um_alloc t s)"
proof (cases "mm_mutex s")
  case None
  then have none: "\<forall>u. mm_phase s u \<in> {Away, SawNull}" "mm_queued s = []" "mm_handed s = []"
    using inv by (auto simp: mm_inv_def)
  have "mm_phase s u \<noteq> Holding \<and> mm_phase s u \<noteq> Blocked" for u using none(1) [THEN spec [of _ u]] by auto
  then have "holders s = {}" "blocked s = {}" by (auto simp: in_phase_sets)
  then show ?thesis using None none by (auto simp: mm_inv_def mutex_ok_def um_alloc_def UserMutex_new_def)
next
  case (Some m)
  then show ?thesis using inv t by (auto simp: mm_inv_def um_alloc_def intro!: mutex_ok_away)
qed

text \<open>A step on the allocated mutex succeeds and keeps the invariant.\<close>

definition mm_ok :: "mutex_machine result \<Rightarrow> bool" where
  "mm_ok r = (\<exists>s'. r = Inr s' \<and> mm_inv s')"

lemma um_tryLock_ok:
  assumes inv: "mm_inv s" and t: "mm_phase s t = Trying"
  shows "mm_ok (um_tryLock t s)"
proof -
  obtain m where m: "mm_mutex s = Some m" "mutex_ok m s" using mm_inv_some [OF inv, of t] t by auto
  have "t \<notin> holders s" "t \<notin> blocked s" using t by (simp_all add: in_phase_sets)
  then show ?thesis using m
    by (auto simp: mm_ok_def um_tryLock_def with_mutex_def mm_inv_def tryLock_def mutex_ok_def)
qed

lemma um_lockOrQueue_ok:
  assumes inv: "mm_inv s" and t: "mm_phase s t = Queueing"
  shows "mm_ok (um_lockOrQueue t s)"
proof -
  obtain m where m: "mm_mutex s = Some m" "mutex_ok m s" using mm_inv_some [OF inv, of t] t by auto
  have "t \<notin> holders s" "t \<notin> blocked s" using t by (simp_all add: in_phase_sets)
  then show ?thesis using m
    by (auto simp: mm_ok_def um_lockOrQueue_def with_mutex_def mm_inv_def lockOrQueue_def tryLock_def mutex_ok_def)
qed

lemma um_unlock_ok:
  assumes inv: "mm_inv s" and t: "mm_phase s t = Holding"
  shows "mm_ok (um_unlock t s)"
proof -
  obtain m where m: "mm_mutex s = Some m" "mutex_ok m s" using mm_inv_some [OF inv, of t] t by auto
  have hold: "t \<in> holders s" "t \<notin> blocked s" using t by (simp_all add: in_phase_sets)
  with m(2) have held: "um_userMutex m" "holders s = {t}" by (auto simp: mutex_ok_def split: if_splits)
  show ?thesis
  proof (cases "um_blockedTasks m")
    case Nil
    then show ?thesis using m hold held
      by (simp add: mm_ok_def um_unlock_def with_mutex_def mm_inv_def dequeueOrUnlock_def mutex_ok_def)
  next
    case (Cons u rest)
    then have u: "u \<in> blocked s" "u \<noteq> t" "blocked s - {u} = set rest" "u \<notin> set rest" "distinct rest"
      using m(2) hold by (auto simp: mutex_ok_def)
    then have "blocked s - {t} - {u} = set rest" using hold(2) by auto
    then show ?thesis using m hold held u Cons
      by (simp add: mm_ok_def um_unlock_def with_mutex_def mm_inv_def dequeueOrUnlock_def mutex_ok_def)
  qed
qed

lemma mm_reach_inv: "mm_reach s \<Longrightarrow> mm_inv s"
proof (induction rule: mm_reach.induct)
  case mm_reach_init
  show ?case by (simp add: mm_inv_def mm_init_def)
next
  case (mm_reach_step s s')
  from mm_reach_step(2) show ?case
  proof (cases rule: mm_step.cases)
    case (mm_read t)
    then show ?thesis using mm_inv_read mm_reach_step.IH by blast
  next
    case (mm_alloc t)
    then show ?thesis using mm_inv_alloc mm_reach_step.IH by blast
  next
    case (mm_try t)
    then show ?thesis using um_tryLock_ok [OF mm_reach_step.IH, of t] by (auto simp: mm_ok_def)
  next
    case (mm_queue t)
    then show ?thesis using um_lockOrQueue_ok [OF mm_reach_step.IH, of t] by (auto simp: mm_ok_def)
  next
    case (mm_unlock t)
    then show ?thesis using um_unlock_ok [OF mm_reach_step.IH, of t] by (auto simp: mm_ok_def)
  qed
qed

section \<open>Theorem\<close>

text \<open>
  C22. The user mutex excludes, forgets nobody and is fair: in every interleaving at most one task
  holds it, the handler is never null when it is dereferenced, a task is blocked only while another
  holds the mutex and then waits in the queue exactly once, and tasks are handed the mutex in the
  order in which they queued.
\<close>

theorem user_mutex_correct:
  assumes r: "mm_reach s"
  shows "(\<forall>t u. mm_phase s t = Holding \<and> mm_phase s u = Holding \<longrightarrow> t = u) \<and>
    (\<forall>t. mm_phase s t \<notin> {Away, SawNull} \<longrightarrow> mm_mutex s \<noteq> None) \<and>
    (\<forall>m t. mm_mutex s = Some m \<and> mm_phase s t = Blocked \<longrightarrow>
       count_list (um_blockedTasks m) t = 1 \<and> (\<exists>u. u \<noteq> t \<and> mm_phase s u = Holding)) \<and>
    (\<forall>m. mm_mutex s = Some m \<longrightarrow> mm_queued s = mm_handed s @ um_blockedTasks m)"
proof -
  note inv = mm_reach_inv [OF r]
  have some: "mm_mutex s \<noteq> None" if "mm_phase s t \<notin> {Away, SawNull}" for t
    using mm_inv_some [OF inv that] by auto
  have queue: "count_list (um_blockedTasks m) t = 1 \<and> (\<exists>u. u \<noteq> t \<and> mm_phase s u = Holding)"
    if m: "mm_mutex s = Some m" and t: "mm_phase s t = Blocked" for m t
  proof -
    have ok: "mutex_ok m s" using inv m by (simp add: mm_inv_def)
    then have q: "t \<in> set (um_blockedTasks m)" "distinct (um_blockedTasks m)"
      using t by (auto simp: mutex_ok_def in_phase_sets)
    then have "\<exists>u. holders s = {u}" using ok by (auto simp: mutex_ok_def split: if_splits)
    then obtain u where "mm_phase s u = Holding" by (auto simp: holders_def)
    moreover have "u \<noteq> t" using calculation t by auto
    ultimately show ?thesis using q distinct_count_list [OF q(2), of t] by auto
  qed
  have order: "mm_queued s = mm_handed s @ um_blockedTasks m" if "mm_mutex s = Some m" for m
    using inv that by (simp add: mm_inv_def mutex_ok_def)
  have "t = u" if tu: "mm_phase s t = Holding" "mm_phase s u = Holding" for t u
  proof -
    obtain m where "mutex_ok m s" using mm_inv_some [OF inv, of t] tu by auto
    moreover have "t \<in> holders s" "u \<in> holders s" using tu by (simp_all add: in_phase_sets)
    ultimately show ?thesis by (auto simp: mutex_ok_def split: if_splits)
  qed
  then show ?thesis using some queue order by blast
qed

text \<open>Task 0 allocates the mutex and holds it, task 1 is queued behind it.\<close>

definition demo_held :: mutex_machine where
  "demo_held = um_read 1 (um_alloc 0 (um_read 0 mm_init))"

definition demo_blocked :: mutex_machine where
  "demo_blocked = (case um_tryLock 1 demo_held of Inl _ \<Rightarrow> demo_held
     | Inr s \<Rightarrow> (case um_lockOrQueue 1 s of Inl _ \<Rightarrow> s | Inr s' \<Rightarrow> s'))"

lemma demo_blocked_reach: "mm_reach demo_blocked"
proof -
  have r0: "mm_reach (um_alloc 0 (um_read 0 mm_init))"
    by (intro mm_reach_step [OF mm_reach_step [OF mm_reach_init mm_read] mm_alloc])
      (simp_all add: mm_init_def um_read_def)
  have r1: "mm_reach demo_held"
    unfolding demo_held_def
    by (intro mm_reach_step [OF r0 mm_read]) (simp add: mm_init_def um_read_def um_alloc_def)
  obtain s where s: "um_tryLock 1 demo_held = Inr s" "mm_phase s 1 = Queueing"
    by (simp add: demo_held_def mm_init_def um_read_def um_alloc_def um_tryLock_def with_mutex_def tryLock_def
        UserMutex_new_def)
  obtain s' where s': "um_lockOrQueue 1 s = Inr s'"
    using um_lockOrQueue_ok [OF _ s(2)] mm_reach_inv mm_reach_step [OF r1 mm_try [OF _ s(1)]]
    by (auto simp: mm_ok_def demo_held_def um_read_def um_alloc_def mm_init_def)
  have "mm_reach s" by (rule mm_reach_step [OF r1 mm_try [OF _ s(1)]])
      (simp add: demo_held_def um_read_def um_alloc_def mm_init_def)
  then have "mm_reach s'" using mm_reach_step mm_queue s(2) s' by blast
  then show ?thesis unfolding demo_blocked_def s(1) sum.case s' .
qed

theorem user_mutex_correct_witness:
  "\<exists>m. mm_mutex demo_blocked = Some m \<and> count_list (um_blockedTasks m) 1 = 1 \<and>
     (\<exists>u. u \<noteq> 1 \<and> mm_phase demo_blocked u = Holding) \<and> mm_queued demo_blocked = mm_handed demo_blocked @ um_blockedTasks m"
proof -
  have "\<not> Option.is_none (mm_mutex demo_blocked)" "mm_phase demo_blocked 1 = Blocked" by code_simp+
  then obtain m where "mm_mutex demo_blocked = Some m" "mm_phase demo_blocked 1 = Blocked"
    by (auto simp: Option.is_none_def)
  then show ?thesis using user_mutex_correct [OF demo_blocked_reach] by blast
qed

end
