(* ===== verification/N6_TicketLock.thy ===== *)
theory N6_TicketLock
  imports N6_Prelude
begin

text \<open>
  The ticket spin lock (\<open>src/lowlevel/TicketSpinLock.hpp\<close>): \<open>lock\<close>, \<open>tryLock\<close> and \<open>unlock\<close> as the steps
  between their atomic operations, interleaved over any number of threads. The two tickets are 16-bit
  words that wrap around; \<open>tl_issued\<close> and \<open>tl_served\<close> count without bound what the words count, and
  are read by no step.
\<close>

section \<open>State and steps\<close>

text \<open>
  A spinning or owning thread has drawn a ticket; a thread inside \<open>tryLock\<close> has read
  \<open>_nextFreeTicket\<close> (\<open>TryRead\<close>) and found \<open>_currentTicket\<close> equal to it (\<open>TryChecked\<close>). The number
  beside the ticket is the value of \<open>tl_issued\<close> when it was drawn or read.
\<close>

datatype ticket_phase =
    NoTicket
  | Spinning "16 word" nat
  | TryRead "16 word" nat
  | TryChecked "16 word" nat
  | Owner nat

record ticket_lock =
  tl_currentTicket :: "16 word"
  tl_nextFreeTicket :: "16 word"
  tl_owner :: "thread_ref option"
  tl_phase :: "thread_ref \<Rightarrow> ticket_phase"
  tl_issued :: nat
  tl_served :: nat
  tl_entered :: "nat list"


definition tl_set :: "thread_ref \<Rightarrow> ticket_phase \<Rightarrow> ticket_lock \<Rightarrow> ticket_lock" where
  "tl_set th p s = s\<lparr>tl_phase := (tl_phase s)(th := p)\<rparr>"










section \<open>Invariant\<close>







lemma tl_set_fields [simp]:
  "tl_currentTicket (tl_set th p s) = tl_currentTicket s" "tl_nextFreeTicket (tl_set th p s) = tl_nextFreeTicket s"
  "tl_owner (tl_set th p s) = tl_owner s" "tl_phase (tl_set th p s) = (tl_phase s)(th := p)"
  "tl_issued (tl_set th p s) = tl_issued s" "tl_served (tl_set th p s) = tl_served s"
  "tl_entered (tl_set th p s) = tl_entered s"
  by (simp_all add: tl_set_def)












section \<open>Theorem\<close>





end
