(* ===== verification/N6_Hierarchical.thy ===== *)
theory N6_Hierarchical
  imports N6_ImmediateSuccessor
begin

text \<open>
  The hierarchical schedulers: \<open>NUMAHierarchicalScheduler\<close> keeps one scheduler per NUMA node and
  counts the ready tasks of each, \<open>DeviceHierarchicalScheduler\<close> and \<open>HostHierarchicalScheduler\<close> pass
  their calls on (\<open>src/scheduling/schedulers\<close>, built without CUDA). Each takes the operations of the
  schedulers below it as a parameter and is proved correct over their contract.
\<close>

section \<open>NUMA scheduler\<close>

record 's numa_state =
  nh_NUMANodeScheduler :: "'s list"
  nh_readyTasks :: "int list"
  nh_enabledCPUs :: "int list"

text \<open>An index outside the vector of node schedulers is an error of the model.\<close>

definition at_node :: "nat \<Rightarrow> 's numa_state \<Rightarrow> ('s \<Rightarrow> 'a result) \<Rightarrow> 'a result" where
  "at_node n s f =
     (if n < length (nh_NUMANodeScheduler s) then f (nh_NUMANodeScheduler s ! n)
      else Inl (FatalError ''_NUMANodeScheduler[]''))"

definition set_node :: "nat \<Rightarrow> 's \<Rightarrow> 's numa_state \<Rightarrow> 's numa_state" where
  "set_node n x s = s\<lparr>nh_NUMANodeScheduler := (nh_NUMANodeScheduler s)[n := x]\<rparr>"

definition count_ready :: "nat \<Rightarrow> int \<Rightarrow> 's numa_state \<Rightarrow> 's numa_state" where
  "count_ready n d s = s\<lparr>nh_readyTasks := (nh_readyTasks s)[n := nh_readyTasks s ! n + d]\<rparr>"

text \<open>The constructor, given the NUMA nodes of the CPUs of the CPU list.\<close>

definition NUMA_new :: "'s \<Rightarrow> nat list \<Rightarrow> nat \<Rightarrow> 's numa_state" where
  "NUMA_new node cpu_nodes NUMANodeCount =
     \<lparr>nh_NUMANodeScheduler = replicate NUMANodeCount node, nh_readyTasks = replicate NUMANodeCount 0,
      nh_enabledCPUs = map (\<lambda>n. int (count_list cpu_nodes n)) [0..<NUMANodeCount]\<rparr>"

text \<open>The two searches over the counters, from node \<open>i\<close> on.\<close>

fun least_loaded :: "nat \<Rightarrow> (int \<times> int) list \<Rightarrow> int \<Rightarrow> int \<Rightarrow> int" where
  "least_loaded i [] min_load min_idx = min_idx"
| "least_loaded i ((ready, enabled) # rest) min_load min_idx =
     (if enabled > 0 \<and> (min_load = - 1 \<or> ready < min_load)
      then least_loaded (Suc i) rest ready (int i)
      else least_loaded (Suc i) rest min_load min_idx)"

fun most_loaded :: "nat \<Rightarrow> int list \<Rightarrow> int \<Rightarrow> nat \<Rightarrow> nat" where
  "most_loaded i [] max_load max_idx = max_idx"
| "most_loaded i (ready # rest) max_load max_idx =
     (if ready > max_load then most_loaded (Suc i) rest ready i
      else most_loaded (Suc i) rest max_load max_idx)"

definition node_of :: "world \<Rightarrow> cpu_ref \<Rightarrow> nat" where
  "node_of w c = cp_NUMANodeId (w_places w c)"

definition NUMA_addReadyTask ::
  "'s scheduler_ops \<Rightarrow> 's numa_state \<Rightarrow> world \<Rightarrow> task_ref \<Rightarrow> cpu_ref option \<Rightarrow> ReadyTaskHint \<Rightarrow> bool \<Rightarrow>
     (cpu_ref option \<times> 's numa_state \<times> world) result" where
  "NUMA_addReadyTask ops s w task computePlace hint doGetIdle =
     host_task_checks w task
       (if hint = UNBLOCKED_TASK_HINT
        then (case Option.bind (t_thread (w_tasks w task)) (\<lambda>th. th_cpu (w_threads w th)) of
                None \<Rightarrow> Inl (AssertFailed ''task->getThread()->getComputePlace()'')
              | Some cpu \<Rightarrow>
                  (let numa_node = node_of w cpu in
                   at_node numa_node s (\<lambda>node.
                     result_bind (so_addReadyTask ops node w task computePlace hint doGetIdle)
                       (\<lambda>(_, node1, w1). Inr (None, count_ready numa_node 1 (set_node numa_node node1 s), w1)))))
        else (let min_idx = least_loaded 0 (zip (nh_readyTasks s) (nh_enabledCPUs s)) (- 1) (- 1) in
              assert_that (min_idx \<noteq> - 1) ''min_idx != -1''
                (at_node (nat min_idx) s (\<lambda>node.
                  result_bind (so_addReadyTask ops node w task computePlace hint False)
                    (\<lambda>(_, node1, w1).
                      let s1 = count_ready (nat min_idx) 1 (set_node (nat min_idx) node1 s) in
                      if doGetIdle
                      then (case getIdleNUMANodeCPU (nat min_idx) w1 of
                              (Some cp, w2) \<Rightarrow> Inr (Some cp, s1, w2)
                            | (None, w2) \<Rightarrow> (let (cp, w3) = getIdleCPU w2 in Inr (cp, s1, w3)))
                      else Inr (None, s1, w1))))))"

text \<open>Asking the scheduler of one node, and counting what it hands out.\<close>

definition node_getReadyTask ::
  "'s scheduler_ops \<Rightarrow> nat \<Rightarrow> cpu_ref \<Rightarrow> task_ref option \<Rightarrow> bool \<Rightarrow> 's numa_state \<Rightarrow> world \<Rightarrow>
     (task_ref option \<times> 's numa_state \<times> world) result" where
  "node_getReadyTask ops n computePlace currentTask doWait s w =
     at_node n s (\<lambda>node.
       result_bind (so_getReadyTask ops node w computePlace currentTask False doWait)
         (\<lambda>(task, node1, w1).
           Inr (task, (if task = None then set_node n node1 s else count_ready n (- 1) (set_node n node1 s)), w1)))"

definition NUMA_getReadyTask ::
  "'s scheduler_ops \<Rightarrow> 's numa_state \<Rightarrow> world \<Rightarrow> cpu_ref \<Rightarrow> task_ref option \<Rightarrow> bool \<Rightarrow> bool \<Rightarrow>
     (task_ref option \<times> 's numa_state \<times> world) result" where
  "NUMA_getReadyTask ops s w computePlace currentTask canMarkAsIdle doWait =
     (if cp_type (w_places w computePlace) \<noteq> nanos6_host_device then Inr (None, s, w)
      else
        (let numa_node = node_of w computePlace in
         at_node numa_node s (\<lambda>_. result_bind
           (if nh_readyTasks s ! numa_node > 0
            then node_getReadyTask ops numa_node computePlace currentTask doWait s w
            else Inr (None, s, w))
           (\<lambda>(task, s1, w1).
             case task of
               Some t \<Rightarrow> Inr (Some t, s1, w1)
             | None \<Rightarrow>
                 (let max_idx = most_loaded 0 (nh_readyTasks s1) (nh_readyTasks s1 ! numa_node) numa_node in
                  result_bind (node_getReadyTask ops max_idx computePlace currentTask doWait s1 w1)
                    (\<lambda>(task2, s2, w2).
                      Inr (task2, s2, if canMarkAsIdle \<and> task2 = None then cpuBecomesIdle computePlace w2 else w2)))))))"

fun idle_from :: "nat \<Rightarrow> (int \<times> int) list \<Rightarrow> world \<Rightarrow> cpu_ref option \<times> world" where
  "idle_from numa [] w = (None, w)"
| "idle_from numa ((ready, enabled) # rest) w =
     (if enabled > 0 \<and> ready > 0
      then (case getIdleNUMANodeCPU numa w of
              (Some cp, w1) \<Rightarrow> (Some cp, w1)
            | (None, w1) \<Rightarrow> idle_from (Suc numa) rest w1)
      else idle_from (Suc numa) rest w)"

definition NUMA_getIdleComputePlace ::
  "'s numa_state \<Rightarrow> world \<Rightarrow> bool \<Rightarrow> cpu_ref option \<times> 's numa_state \<times> world" where
  "NUMA_getIdleComputePlace s w force =
     (let (cp, w1) = (if force then getIdleCPU w
                      else idle_from 0 (zip (nh_readyTasks s) (nh_enabledCPUs s)) w) in
      (cp, s, w1))"

definition count_enabled :: "nat \<Rightarrow> int \<Rightarrow> 's numa_state \<Rightarrow> 's numa_state" where
  "count_enabled n d s = s\<lparr>nh_enabledCPUs := (nh_enabledCPUs s)[n := nh_enabledCPUs s ! n + d]\<rparr>"

definition NUMA_disableComputePlace ::
  "'s scheduler_ops \<Rightarrow> 's numa_state \<Rightarrow> world \<Rightarrow> cpu_ref \<Rightarrow> ('s numa_state \<times> world) result" where
  "NUMA_disableComputePlace ops s w hardwarePlace =
     (let n = node_of w hardwarePlace in
      at_node n s (\<lambda>node.
        assert_that (nh_enabledCPUs s ! n > 0) ''_enabledCPUs[NUMANode] > 0''
          (result_bind (so_disableComputePlace ops node w hardwarePlace)
            (\<lambda>(node1, w1). Inr (set_node n node1 (count_enabled n (- 1) s), w1)))))"

definition NUMA_enableComputePlace ::
  "'s scheduler_ops \<Rightarrow> 's numa_state \<Rightarrow> world \<Rightarrow> cpu_ref \<Rightarrow> ('s numa_state \<times> world) result" where
  "NUMA_enableComputePlace ops s w hardwarePlace =
     (let n = node_of w hardwarePlace in
      at_node n s (\<lambda>node.
        result_bind (so_enableComputePlace ops node w hardwarePlace)
          (\<lambda>(node1, w1). Inr (set_node n node1 (count_enabled n 1 s), w1))))"

definition NUMA_requestPolling ::
  "'s scheduler_ops \<Rightarrow> 's numa_state \<Rightarrow> world \<Rightarrow> cpu_ref \<Rightarrow> cpu_ref \<Rightarrow> (bool \<times> 's numa_state \<times> world) result" where
  "NUMA_requestPolling ops s w computePlace pollingSlot =
     (let n = node_of w computePlace in
      at_node n s (\<lambda>node.
        result_bind (so_requestPolling ops node w computePlace pollingSlot)
          (\<lambda>(ok, node1, w1). Inr (ok, set_node n node1 s, w1))))"

definition NUMA_releasePolling ::
  "'s scheduler_ops \<Rightarrow> 's numa_state \<Rightarrow> world \<Rightarrow> cpu_ref \<Rightarrow> cpu_ref \<Rightarrow> (bool \<times> 's numa_state \<times> world) result" where
  "NUMA_releasePolling ops s w computePlace pollingSlot =
     (let n = node_of w computePlace in
      at_node n s (\<lambda>node.
        result_bind (so_releasePolling ops node w computePlace pollingSlot)
          (\<lambda>(ok, node1, w1). Inr (ok, set_node n node1 s, w1))))"

definition NUMA_ops :: "'s scheduler_ops \<Rightarrow> 's numa_state scheduler_ops" where
  "NUMA_ops ops =
     \<lparr>so_addReadyTask = NUMA_addReadyTask ops,
      so_getReadyTask = NUMA_getReadyTask ops,
      so_canWait = Interface_canWait,
      so_getIdleComputePlace = NUMA_getIdleComputePlace,
      so_disableComputePlace = NUMA_disableComputePlace ops,
      so_enableComputePlace = NUMA_enableComputePlace ops,
      so_requestPolling = NUMA_requestPolling ops,
      so_releasePolling = NUMA_releasePolling ops,
      so_getName = ''numa-hierarchical''\<rparr>"

definition getAvailableNUMANodeCount :: "'s numa_state \<Rightarrow> nat" where
  "getAvailableNUMANodeCount s = length (filter (\<lambda>n. n > 0) (nh_enabledCPUs s))"

section \<open>Schedulers that pass calls on\<close>

definition DeviceHierarchical_ops :: "'s scheduler_ops \<Rightarrow> 's scheduler_ops" where
  "DeviceHierarchical_ops ops = ops\<lparr>so_canWait := Interface_canWait, so_getName := ''device-hierachical''\<rparr>"

text \<open>
  Without CUDA both branches of the switches on the device type pass the call to the NUMA scheduler,
  the default one after a message.
\<close>

definition HostHierarchical_ops :: "'s scheduler_ops \<Rightarrow> 's scheduler_ops" where
  "HostHierarchical_ops ops = ops\<lparr>so_canWait := Interface_canWait, so_getName := ''host-hierarchical''\<rparr>"

section \<open>Contract of a node scheduler\<close>

text \<open>Several schedulers share the places, so the invariant of one must survive the steps of the others.\<close>

locale node_pool = ready_pool queued invar ops
  for queued :: "'s \<Rightarrow> task_ref multiset" and invar :: "'s \<Rightarrow> world \<Rightarrow> bool" and ops :: "'s scheduler_ops" +
  assumes stable: "invar s w \<Longrightarrow> w_cpus w' = w_cpus w \<Longrightarrow> invar s w'"

definition numa_queued :: "('s \<Rightarrow> task_ref multiset) \<Rightarrow> 's numa_state \<Rightarrow> task_ref multiset" where
  "numa_queued queued s = sum_list (map queued (nh_NUMANodeScheduler s))"

definition numa_inv :: "('s \<Rightarrow> world \<Rightarrow> bool) \<Rightarrow> 's numa_state \<Rightarrow> world \<Rightarrow> bool" where
  "numa_inv invar s w = (world_ok w \<and> list_all (\<lambda>node. invar node w) (nh_NUMANodeScheduler s))"

lemma sum_list_upd:
  "n < length xs \<Longrightarrow>
   sum_list (map f (xs[n := y])) + f (xs ! n) = sum_list (map f xs) + (f y :: 'a multiset)"
proof (induction xs arbitrary: n)
  case (Cons x xs)
  then show ?case by (cases n) (simp_all add: ac_simps)
qed simp

lemma numa_state_simps [simp]:
  "nh_NUMANodeScheduler (set_node n x s) = (nh_NUMANodeScheduler s)[n := x]"
  "nh_readyTasks (set_node n x s) = nh_readyTasks s" "nh_enabledCPUs (set_node n x s) = nh_enabledCPUs s"
  "nh_NUMANodeScheduler (count_ready n d s) = nh_NUMANodeScheduler s"
  "nh_enabledCPUs (count_ready n d s) = nh_enabledCPUs s"
  "nh_readyTasks (count_ready n d s) = (nh_readyTasks s)[n := nh_readyTasks s ! n + d]"
  "nh_NUMANodeScheduler (count_enabled n d s) = nh_NUMANodeScheduler s"
  "nh_readyTasks (count_enabled n d s) = nh_readyTasks s"
  by (simp_all add: set_node_def count_ready_def count_enabled_def)

lemma at_node_Inr [simp]:
  "at_node n s f = Inr r \<longleftrightarrow> n < length (nh_NUMANodeScheduler s) \<and> f (nh_NUMANodeScheduler s ! n) = Inr r"
  by (simp add: at_node_def)

lemma numa_inv_frame:
  "numa_inv invar s w \<Longrightarrow> w_cpus w' = w_cpus w \<Longrightarrow> (\<And>x. x \<in> set (nh_NUMANodeScheduler s) \<Longrightarrow> invar x w \<Longrightarrow> invar x w') \<Longrightarrow>
   numa_inv invar s w'"
  by (simp add: numa_inv_def list_all_iff world_ok_def)

text \<open>A step of one node is a step of the whole.\<close>

context node_pool
begin

lemma node_step:
  assumes inv: "numa_inv invar s w" and n: "n < length (nh_NUMANodeScheduler s)"
    and step: "conserves queued invar added taken (nh_NUMANodeScheduler s ! n) w node1 w1"
    and s1: "nh_NUMANodeScheduler s1 = (nh_NUMANodeScheduler s)[n := node1]"
  shows "conserves (numa_queued queued) (numa_inv invar) added taken s w s1 w1"
proof -
  have w1: "w_cpus w1 = w_cpus w" "invar node1 w1"
    and eq: "queued node1 + held_slots w1 + taken = queued (nh_NUMANodeScheduler s ! n) + held_slots w + added"
    using step by (simp_all add: conserves_def)
  have "\<forall>x \<in> set (nh_NUMANodeScheduler s). invar x w1"
    using inv stable [OF _ w1(1)] by (simp add: numa_inv_def list_all_iff)
  then have "\<forall>x \<in> set ((nh_NUMANodeScheduler s)[n := node1]). invar x w1"
    using w1(2) set_update_subset_insert [of "nh_NUMANodeScheduler s" n node1] by blast
  then have inv1: "numa_inv invar s1 w1"
    using inv w1(1) by (simp add: numa_inv_def list_all_iff s1 world_ok_def)
  have "numa_queued queued s1 + queued (nh_NUMANodeScheduler s ! n) = numa_queued queued s + queued node1"
    using sum_list_upd [OF n, of queued node1] by (simp add: numa_queued_def s1)
  then have "(numa_queued queued s1 + held_slots w1 + taken) + queued (nh_NUMANodeScheduler s ! n) =
      (numa_queued queued s + held_slots w + added) + queued (nh_NUMANodeScheduler s ! n)"
    using eq by (simp add: ac_simps)
  then have "numa_queued queued s1 + held_slots w1 + taken = numa_queued queued s + held_slots w + added"
    by (rule add_right_imp_eq)
  then show ?thesis using inv1 w1(1) by (simp add: conserves_def)
qed

lemma node_inv: "numa_inv invar s w \<Longrightarrow> n < length (nh_NUMANodeScheduler s) \<Longrightarrow> invar (nh_NUMANodeScheduler s ! n) w"
  by (simp add: numa_inv_def list_all_length)

lemma quiet_world:
  assumes "conserves (numa_queued queued) (numa_inv invar) added taken s w s1 w1"
    and "w_cpus w2 = w_cpus w1" "held_slots w2 = held_slots w1"
  shows "conserves (numa_queued queued) (numa_inv invar) added taken s w s1 w2"
proof -
  have "numa_inv invar s1 w1" using assms(1) by (simp add: conserves_def)
  then have "numa_inv invar s1 w2" using assms(2) stable [OF _ assms(2)] by (rule numa_inv_frame)
  then show ?thesis using assms by (simp add: conserves_def)
qed

lemma numa_get_law:
  assumes inv: "numa_inv invar s w" and c: "place_ok w c"
    and get: "node_getReadyTask ops n c cur d s w = Inr (r, s1, w1)"
  shows "conserves (numa_queued queued) (numa_inv invar) {#} (mset_opt r) s w s1 w1"
proof -
  obtain node1 where n: "n < length (nh_NUMANodeScheduler s)"
    and g: "so_getReadyTask ops (nh_NUMANodeScheduler s ! n) w c cur False d = Inr (r, node1, w1)"
    and s1: "nh_NUMANodeScheduler s1 = (nh_NUMANodeScheduler s)[n := node1]"
    using get by (auto simp: node_getReadyTask_def)
  show ?thesis using node_step [OF inv n get_law [OF node_inv [OF inv n] c g] s1] .
qed

end

lemma getIdleNUMANodeCPU_keeps:
  assumes "getIdleNUMANodeCPU n w = (r, w')"
  shows "w_cpus w' = w_cpus w \<and> held_slots w' = held_slots w"
  using assms w_cpus_simps(6) [of n w] held_slots_frame(4) [of n w] by simp

lemma idle_from_keeps:
  "idle_from n xs w = (r, w') \<Longrightarrow> w_cpus w' = w_cpus w \<and> held_slots w' = held_slots w"
  by (induction n xs w rule: idle_from.induct)
    (auto split: if_splits prod.splits option.splits dest!: getIdleNUMANodeCPU_keeps)

context node_pool
begin

lemma NUMA_get_law:
  assumes inv: "numa_inv invar s w" and c: "place_ok w c"
    and get: "NUMA_getReadyTask ops s w c cur b d = Inr (r, s', w')"
  shows "conserves (numa_queued queued) (numa_inv invar) {#} (mset_opt r) s w s' w'"
proof (cases "cp_type (w_places w c) \<noteq> nanos6_host_device")
  case True
  then show ?thesis using get inv by (simp add: NUMA_getReadyTask_def conserves_def)
next
  case host: False
  let ?n = "node_of w c"
  obtain task s1 w1 where first: "(if nh_readyTasks s ! ?n > 0 then node_getReadyTask ops ?n c cur d s w
      else Inr (None, s, w)) = Inr (task, s1, w1)"
    and rest: "(case task of Some t \<Rightarrow> Inr (Some t, s1, w1)
      | None \<Rightarrow> (let max_idx = most_loaded 0 (nh_readyTasks s1) (nh_readyTasks s1 ! ?n) ?n in
          result_bind (node_getReadyTask ops max_idx c cur d s1 w1)
            (\<lambda>(task2, s2, w2). Inr (task2, s2, if b \<and> task2 = None then cpuBecomesIdle c w2 else w2)))) =
      Inr (r, s', w')"
    using get host by (auto simp: NUMA_getReadyTask_def Let_def)
  have law1: "conserves (numa_queued queued) (numa_inv invar) {#} (mset_opt task) s w s1 w1"
    using first numa_get_law [OF inv c] inv by (auto simp: conserves_def split: if_splits)
  show ?thesis
  proof (cases task)
    case (Some t)
    then show ?thesis using rest law1 by simp
  next
    case None
    obtain m s2 w2 where get2: "node_getReadyTask ops m c cur d s1 w1 = Inr (r, s2, w2)" and s': "s' = s2"
      and w': "w' = (if b \<and> r = None then cpuBecomesIdle c w2 else w2)"
      using rest None by (auto simp: Let_def)
    have "numa_inv invar s1 w1" "place_ok w1 c" using law1 c by (auto simp: conserves_def place_ok_def)
    then have "conserves (numa_queued queued) (numa_inv invar) {#} (mset_opt r) s1 w1 s2 w2"
      using numa_get_law get2 by blast
    from conserves_trans [OF law1 this] None
    have "conserves (numa_queued queued) (numa_inv invar) {#} (mset_opt r) s w s2 w2" by simp
    then show ?thesis unfolding s' by (rule quiet_world) (simp_all add: w')
  qed
qed

lemma NUMA_add_law:
  assumes inv: "numa_inv invar s w" and c: "\<And>c. cp = Some c \<Longrightarrow> place_ok w c"
    and add: "NUMA_addReadyTask ops s w t cp h b = Inr (r, s', w')"
  shows "conserves (numa_queued queued) (numa_inv invar) {#t#} {#} s w s' w'"
proof -
  have "\<exists>n b' r' node1 w1. n < length (nh_NUMANodeScheduler s) \<and>
      so_addReadyTask ops (nh_NUMANodeScheduler s ! n) w t cp h b' = Inr (r', node1, w1) \<and>
      nh_NUMANodeScheduler s' = (nh_NUMANodeScheduler s)[n := node1] \<and>
      w_cpus w' = w_cpus w1 \<and> held_slots w' = held_slots w1"
    using add
    by (auto simp: NUMA_addReadyTask_def host_task_checks_def Let_def
        split: if_splits option.splits prod.splits dest!: getIdleNUMANodeCPU_keeps getIdleCPU_keeps; fastforce)
  then obtain n b' r' node1 w1 where n: "n < length (nh_NUMANodeScheduler s)"
    and a: "so_addReadyTask ops (nh_NUMANodeScheduler s ! n) w t cp h b' = Inr (r', node1, w1)"
    and s': "nh_NUMANodeScheduler s' = (nh_NUMANodeScheduler s)[n := node1]"
    and w': "w_cpus w' = w_cpus w1" "held_slots w' = held_slots w1" by blast
  show ?thesis
    using quiet_world [OF node_step [OF inv n add_law [OF node_inv [OF inv n] c a] s'] w'] .
qed

lemma NUMA_idle_law:
  assumes "numa_inv invar s w" "NUMA_getIdleComputePlace s w force = (r, s', w')"
  shows "conserves (numa_queued queued) (numa_inv invar) {#} {#} s w s' w'"
proof -
  have "s' = s" "w_cpus w' = w_cpus w \<and> held_slots w' = held_slots w"
    using assms(2) by (auto simp: NUMA_getIdleComputePlace_def split: prod.splits if_splits
        dest!: getIdleCPU_keeps idle_from_keeps)
  then show ?thesis using quiet_world [OF conserves_refl [where invar = "numa_inv invar", OF assms(1)]] by simp
qed

lemma NUMA_polling_law:
  assumes inv: "numa_inv invar s w" and c: "place_ok w c"
  shows "NUMA_requestPolling ops s w c c = Inr (ok, s', w') \<Longrightarrow>
      conserves (numa_queued queued) (numa_inv invar) {#} {#} s w s' w'"
    and "NUMA_releasePolling ops s w c c = Inr (ok, s', w') \<Longrightarrow>
      conserves (numa_queued queued) (numa_inv invar) {#} {#} s w s' w'"
    and "NUMA_disableComputePlace ops s w c = Inr (s', w') \<Longrightarrow>
      conserves (numa_queued queued) (numa_inv invar) {#} {#} s w s' w'"
    and "NUMA_enableComputePlace ops s w c = Inr (s', w') \<Longrightarrow>
      conserves (numa_queued queued) (numa_inv invar) {#} {#} s w s' w'"
  using node_step [OF inv] node_inv [OF inv] request_law [OF _ c] release_law [OF _ c]
    disable_law [OF _ c] enable_law [OF _ c]
  by (fastforce simp: NUMA_requestPolling_def NUMA_releasePolling_def NUMA_disableComputePlace_def
      NUMA_enableComputePlace_def Let_def)+

end

text \<open>The NUMA scheduler over schedulers that keep the contract keeps it.\<close>

sublocale node_pool \<subseteq> numa: ready_pool "numa_queued queued" "numa_inv invar" "NUMA_ops ops"
proof
  show "world_ok w" if "numa_inv invar s w" for s w using that by (simp add: numa_inv_def)
  show "numa_inv invar s (set_slot c None w)" if "numa_inv invar s w" for s w c
    using that by (rule numa_inv_frame) (auto intro: stable)
  show "conserves (numa_queued queued) (numa_inv invar) {#t#} {#} s w s' w'"
    if "numa_inv invar s w" "\<And>c. cp = Some c \<Longrightarrow> place_ok w c"
      "so_addReadyTask (NUMA_ops ops) s w t cp h b = Inr (r, s', w')" for s w cp t h b r s' w'
    using NUMA_add_law [OF that(1,2)] that(3) by (simp add: NUMA_ops_def)
qed (simp_all add: NUMA_ops_def NUMA_get_law NUMA_idle_law NUMA_polling_law)

text \<open>Passing calls on changes nothing of the contract.\<close>

lemma DeviceHierarchical_pool: "node_pool queued invar ops \<Longrightarrow> node_pool queued invar (DeviceHierarchical_ops ops)"
  by (simp add: node_pool_def node_pool_axioms_def ready_pool_def DeviceHierarchical_ops_def)

lemma HostHierarchical_pool: "ready_pool queued invar ops \<Longrightarrow> ready_pool queued invar (HostHierarchical_ops ops)"
  by (simp add: ready_pool_def HostHierarchical_ops_def)

section \<open>The hierarchy over the immediate successor schedulers\<close>

lemma imm_node_pool: "node_pool imm_queued imm_inv IS_ops"
  by (intro node_pool.intro node_pool_axioms.intro is_pool.pool.ready_pool_axioms)
    (simp add: imm_inv_def world_ok_def)

lemma isp_node_pool: "node_pool imm_queued isp_pool_inv ISP_ops"
  by (intro node_pool.intro node_pool_axioms.intro isp_pool.ready_pool_axioms)
    (auto simp: isp_pool_inv_def world_ok_def place_ok_def split: option.splits)

interpretation is_node: node_pool imm_queued imm_inv "DeviceHierarchical_ops IS_ops"
  by (rule DeviceHierarchical_pool [OF imm_node_pool])

interpretation isp_node: node_pool imm_queued isp_pool_inv "DeviceHierarchical_ops ISP_ops"
  by (rule DeviceHierarchical_pool [OF isp_node_pool])

definition Hierarchical_ops :: "imm_polling numa_state scheduler_ops" where
  "Hierarchical_ops = HostHierarchical_ops (NUMA_ops (DeviceHierarchical_ops ISP_ops))"

interpretation hierarchy: ready_pool "numa_queued imm_queued" "numa_inv isp_pool_inv" Hierarchical_ops
  unfolding Hierarchical_ops_def by (rule HostHierarchical_pool [OF isp_node.numa.ready_pool_axioms])

section \<open>Balance and work conservation\<close>

text \<open>
  The state of the search for the least loaded node after it has seen the nodes of \<open>seen\<close>: nothing
  found, or a node with enabled CPUs and a load that none of the seen ones undercuts.
\<close>

definition least_so_far :: "(int \<times> int) list \<Rightarrow> (int \<times> int) list \<Rightarrow> int \<Rightarrow> int \<Rightarrow> bool" where
  "least_so_far all seen load idx \<longleftrightarrow>
     (idx = - 1 \<and> load = - 1 \<and> (\<forall>(r, e) \<in> set seen. e \<le> 0)) \<or>
     (0 \<le> idx \<and> 0 \<le> load \<and> nat idx < length all \<and> fst (all ! nat idx) = load \<and> 0 < snd (all ! nat idx) \<and>
      (\<forall>(r, e) \<in> set seen. 0 < e \<longrightarrow> load \<le> r))"

lemma least_so_far_step:
  assumes "least_so_far all seen load idx" "\<forall>(r, e) \<in> set all. 0 \<le> r" "all = seen @ (r, e) # rest"
  shows "if 0 < e \<and> (load = - 1 \<or> r < load) then least_so_far all (seen @ [(r, e)]) r (int (length seen))
    else least_so_far all (seen @ [(r, e)]) load idx"
  using assms by (auto simp: least_so_far_def split: if_splits)

lemma least_loaded_all:
  assumes "least_so_far all seen load idx" "\<forall>(r, e) \<in> set all. 0 \<le> r" "all = seen @ rest"
  shows "\<exists>load'. least_so_far all all load' (least_loaded (length seen) rest load idx)"
  using assms
proof (induction rest arbitrary: seen load idx)
  case (Cons x rest)
  obtain r e where x: "x = (r, e)" by fastforce
  note step = least_so_far_step [OF Cons.prems(1,2), of r e rest]
  show ?case
    using step Cons.IH [of "seen @ [x]"] Cons.prems(2,3) x by (auto split: if_splits)
qed auto

lemma most_loaded_all:
  assumes "idx < length all" "all ! idx = load" "\<forall>r \<in> set seen. r \<le> load" "all = seen @ rest"
  shows "most_loaded (length seen) rest load idx < length all \<and>
    (\<forall>r \<in> set all. r \<le> all ! most_loaded (length seen) rest load idx)"
  using assms
proof (induction rest arbitrary: seen load idx)
  case (Cons r rest)
  show ?case
  proof (cases "r > load")
    case True
    then have "\<forall>x \<in> set (seen @ [r]). x \<le> r" using Cons.prems(3) by auto
    then show ?thesis using Cons.IH [of "length seen" r "seen @ [r]"] True Cons.prems(4) by simp
  next
    case False
    then have "\<forall>x \<in> set (seen @ [r]). x \<le> load" using Cons.prems(3) by auto
    then show ?thesis using Cons.IH [of idx load "seen @ [r]"] False Cons.prems by simp
  qed
qed auto

text \<open>
  A task that was not blocked goes to a NUMA node with enabled CPUs and the smallest counter of
  ready tasks among those nodes, and only the counter of that node rises.
\<close>

lemma NUMA_adds_to_least_loaded:
  assumes "NUMA_addReadyTask ops s w t cp hint b = Inr (r, s', w')" "hint \<noteq> UNBLOCKED_TASK_HINT"
    and "length (nh_enabledCPUs s) = length (nh_readyTasks s)" "list_all (\<lambda>n. 0 \<le> n) (nh_readyTasks s)"
  shows "\<exists>k < length (nh_readyTasks s). nh_enabledCPUs s ! k > 0 \<and>
    (\<forall>j < length (nh_readyTasks s). nh_enabledCPUs s ! j > 0 \<longrightarrow> nh_readyTasks s ! k \<le> nh_readyTasks s ! j) \<and>
    nh_readyTasks s' = (nh_readyTasks s)[k := nh_readyTasks s ! k + 1]"
proof -
  let ?z = "zip (nh_readyTasks s) (nh_enabledCPUs s)"
  define i where "i = least_loaded 0 ?z (- 1) (- 1)"
  have start: "least_so_far ?z [] (- 1) (- 1)" by (simp add: least_so_far_def)
  have "\<forall>(r, e) \<in> set ?z. 0 \<le> r" using assms(4) by (auto simp: list_all_iff dest: set_zip_leftD)
  from least_loaded_all [OF start this, of ?z] obtain load where least: "least_so_far ?z ?z load i"
    by (auto simp: i_def)
  have i: "i \<noteq> - 1" and upd: "nh_readyTasks s' = (nh_readyTasks s)[nat i := nh_readyTasks s ! nat i + 1]"
    using assms(1,2) by (auto simp: NUMA_addReadyTask_def host_task_checks_def assert_that_def Let_def i_def
        split: if_splits option.splits prod.splits)
  from least i have k: "nat i < length (nh_readyTasks s)" "nh_enabledCPUs s ! nat i > 0"
    and le: "\<forall>(r, e) \<in> set ?z. 0 < e \<longrightarrow> nh_readyTasks s ! nat i \<le> r"
    using assms(3) by (auto simp: least_so_far_def)
  have "nh_readyTasks s ! nat i \<le> nh_readyTasks s ! j"
    if "j < length (nh_readyTasks s)" "nh_enabledCPUs s ! j > 0" for j
    using le that assms(3) by (auto simp: set_zip)
  with k upd show ?thesis by blast
qed

text \<open>A scheduler that sends a CPU away only when its queues are empty.\<close>

locale serving_pool = node_pool +
  assumes serves: "invar s w \<Longrightarrow> cp_type (w_places w c) = nanos6_host_device \<Longrightarrow>
    so_getReadyTask ops s w c cur b d = Inr (None, s', w') \<Longrightarrow> queued s = {#}"
    and answers: "cp_type (w_places w c) = nanos6_host_device \<Longrightarrow> \<exists>r. so_getReadyTask ops s w c cur b d = Inr r"

definition counters_exact :: "('s \<Rightarrow> task_ref multiset) \<Rightarrow> 's numa_state \<Rightarrow> bool" where
  "counters_exact queued s = (nh_readyTasks s = map (\<lambda>node. int (size (queued node))) (nh_NUMANodeScheduler s))"

context serving_pool
begin

lemma node_serves:
  assumes "numa_inv invar s w" "cp_type (w_places w c) = nanos6_host_device"
    and "node_getReadyTask ops n c cur d s w = Inr (None, s', w')"
  shows "n < length (nh_NUMANodeScheduler s) \<and> queued (nh_NUMANodeScheduler s ! n) = {#}"
  using assms serves [OF node_inv [OF assms(1), of n] assms(2)] by (auto simp: node_getReadyTask_def)

lemma numa_serves:
  assumes inv: "numa_inv invar s w" and exact: "counters_exact queued s"
    and host: "cp_type (w_places w c) = nanos6_host_device"
    and get: "NUMA_getReadyTask ops s w c cur b d = Inr (None, s', w')"
  shows "numa_queued queued s = {#}"
proof -
  let ?n = "node_of w c" and ?nodes = "nh_NUMANodeScheduler s"
  have n: "?n < length ?nodes" using get host by (simp add: NUMA_getReadyTask_def Let_def)
  have ready: "nh_readyTasks s ! k = int (size (queued (?nodes ! k)))" if "k < length ?nodes" for k
    using exact that by (simp add: counters_exact_def)
  have zero: "nh_readyTasks s ! ?n = 0"
  proof (rule ccontr)
    assume "nh_readyTasks s ! ?n \<noteq> 0"
    then have pos: "nh_readyTasks s ! ?n > 0" using ready [OF n] by (simp add: nonempty_has_size)
    then obtain s1 w1 where "node_getReadyTask ops ?n c cur d s w = Inr (None, s1, w1)"
      using get host n by (auto simp: NUMA_getReadyTask_def Let_def split: option.splits)
    from node_serves [OF inv host this] pos ready [OF n] show False by simp
  qed
  let ?m = "most_loaded 0 (nh_readyTasks s) (nh_readyTasks s ! ?n) ?n"
  obtain s1 w1 where "node_getReadyTask ops ?m c cur d s w = Inr (None, s1, w1)"
    using get host n zero by (auto simp: NUMA_getReadyTask_def Let_def)
  from node_serves [OF inv host this] have m: "?m < length ?nodes" "queued (?nodes ! ?m) = {#}" by blast+
  have len: "length (nh_readyTasks s) = length ?nodes" using exact by (simp add: counters_exact_def)
  have "\<forall>r \<in> set (nh_readyTasks s). r \<le> nh_readyTasks s ! ?m"
    using most_loaded_all [of ?n "nh_readyTasks s" "nh_readyTasks s ! ?n" "[]"] n len by simp
  then have "nh_readyTasks s ! k \<le> 0" if "k < length ?nodes" for k
    using that ready [OF m(1)] m(2) len by (auto simp: all_set_conv_all_nth)
  then have "\<forall>k < length ?nodes. queued (?nodes ! k) = {#}" using ready by simp
  then have "map queued ?nodes = map (\<lambda>_. 0) ?nodes" by (simp add: list_eq_iff_nth_eq)
  then show ?thesis by (simp only: numa_queued_def sum_list_0)
qed

lemma node_answers:
  assumes "cp_type (w_places w c) = nanos6_host_device" "n < length (nh_NUMANodeScheduler s)"
  shows "\<exists>r s1 w1. node_getReadyTask ops n c cur d s w = Inr (r, s1, w1)"
  using answers [OF assms(1), of "nh_NUMANodeScheduler s ! n" cur False d] assms(2)
  by (auto simp: node_getReadyTask_def)

lemma numa_finds_work:
  assumes inv: "numa_inv invar s w" and exact: "counters_exact queued s"
    and host: "cp_type (w_places w c) = nanos6_host_device"
    and n: "node_of w c < length (nh_NUMANodeScheduler s)"
    and work: "numa_queued queued s \<noteq> {#}"
  shows "\<exists>t s' w'. NUMA_getReadyTask ops s w c cur b d = Inr (Some t, s', w')"
proof -
  let ?n = "node_of w c"
  have len: "length (nh_readyTasks s) = length (nh_NUMANodeScheduler s)" using exact by (simp add: counters_exact_def)
  have max: "most_loaded 0 (nh_readyTasks s) (nh_readyTasks s ! ?n) ?n < length (nh_NUMANodeScheduler s)"
    using most_loaded_all [of ?n "nh_readyTasks s" "nh_readyTasks s ! ?n" "[]" "nh_readyTasks s"] n len by simp
  have "NUMA_getReadyTask ops s w c cur b d \<noteq> Inr (None, s', w')" for s' w'
    using numa_serves [OF inv exact host] work by blast
  moreover have "\<exists>r s' w'. NUMA_getReadyTask ops s w c cur b d = Inr (r, s', w')"
  proof (cases "nh_readyTasks s ! ?n > 0")
    case False
    then show ?thesis using node_answers [OF host max, of cur d] host n
      by (auto simp: NUMA_getReadyTask_def Let_def)
  next
    case True
    obtain r s1 w1 where g: "node_getReadyTask ops ?n c cur d s w = Inr (r, s1, w1)"
      using node_answers [OF host n] by blast
    have "r \<noteq> None"
    proof
      assume "r = None"
      then have "queued (nh_NUMANodeScheduler s ! ?n) = {#}" using node_serves [OF inv host] g by blast
      with True exact n show False by (simp add: counters_exact_def)
    qed
    then show ?thesis using g True host n by (auto simp: NUMA_getReadyTask_def Let_def)
  qed
  ultimately show ?thesis by (metis option.exhaust)
qed

end

lemma IS_serves:
  assumes "cp_type (w_places w c) = nanos6_host_device" "IS_getReadyTask s w c cur b d = Inr (None, s', w')"
  shows "imm_queued s = {#}"
  using IS_getReadyTask_work_conserving [OF assms(1), of s cur b d] assms(2) by auto

lemma IS_answers:
  assumes "cp_type (w_places w c) = nanos6_host_device"
  shows "\<exists>r s' w'. IS_getReadyTask s w c cur b d = Inr (r, s', w')"
  using IS_getReadyTask_work_conserving [OF assms] by blast

interpretation is_serving: serving_pool imm_queued imm_inv "DeviceHierarchical_ops IS_ops"
  by unfold_locales (auto simp: DeviceHierarchical_ops_def IS_ops_def intro: IS_serves IS_answers)

section \<open>Theorems\<close>

text \<open>A machine with two NUMA nodes of one CPU each.\<close>

definition numa_world :: world where
  "numa_world = (plain_world 2)
     \<lparr>w_places := (\<lambda>c. (plain_place c)\<lparr>cp_NUMANodeId := c\<rparr>),
      w_cpum := \<lparr>cm_cpus = [Some 0, Some 1], cm_idleCPUs = [False, False],
                 cm_NUMANodeMask = [[True, False], [False, True]]\<rparr>\<rparr>"

lemma numa_world_ok: "world_ok numa_world" "held_slots numa_world = {#}" "w_cpus numa_world = [0, 1]"
  by (simp_all add: world_ok_def w_cpus_def numa_world_def map_filter_simps held_slots_def plain_world_def
      schedulerData_def plain_place_def)

lemma empties: "sum_list (replicate n {#}) = ({#} :: 'a multiset)"
  by (induction n) simp_all

text \<open>
  C23. The hierarchical scheduler loses no task and duplicates none: along every history of calls that
  runs without an error, the tasks handed out, those queued in the schedulers of the NUMA nodes and
  those held in immediate successor and polling slots are exactly the tasks that were added.
\<close>

theorem Hierarchical_conserves_tasks:
  assumes "run_sched Hierarchical_ops es (NUMA_new ISP_new cpu_nodes n) w = Inr (ts, s', w')"
    and "world_ok w" "evs_ok w es" "held_slots w = {#}"
  shows "mset ts + numa_queued imm_queued s' + held_slots w' = mset (ev_added es)"
proof -
  have "numa_inv isp_pool_inv (NUMA_new ISP_new cpu_nodes n) w"
    "numa_queued imm_queued (NUMA_new ISP_new cpu_nodes n) = {#}"
    using assms(2) by (simp_all add: numa_inv_def NUMA_new_def isp_pool_inv_def ISP_new_def imm_queued_def
        numa_queued_def empties list_all_iff)
  with hierarchy.history_conserves [OF assms(1) _ assms(3)] assms(4) show ?thesis
    by (simp add: conserves_def ac_simps)
qed

definition numa_history :: "sched_event list" where
  "numa_history =
     [EvAdd 5 None NO_HINT True, EvAdd 6 (Some 0) SIBLING_TASK_HINT True, EvGet 0 None True False,
      EvGet 0 None True False, EvGet 1 None True False]"

lemma numa_history_ok: "evs_ok numa_world numa_history"
  by (simp add: evs_ok_def ev_ok_def place_ok_def numa_history_def numa_world_ok)

theorem Hierarchical_conserves_tasks_witness:
  "\<exists>ts s' w'. run_sched Hierarchical_ops numa_history (NUMA_new ISP_new [0, 1] 2) numa_world = Inr (ts, s', w') \<and>
     mset ts + numa_queued imm_queued s' + held_slots w' = {#5, 6#}"
proof -
  have "\<not> isl (run_sched Hierarchical_ops numa_history (NUMA_new ISP_new [0, 1] 2) numa_world)"
    by code_simp
  then obtain ts s' w' where
    run: "run_sched Hierarchical_ops numa_history (NUMA_new ISP_new [0, 1] 2) numa_world = Inr (ts, s', w')"
    by (metis (no_types) isl_def sum.exhaust_sel prod_cases3)
  from Hierarchical_conserves_tasks [OF run numa_world_ok(1) numa_history_ok numa_world_ok(2)] run
  show ?thesis by (auto simp: numa_history_def ev_added_def)
qed

text \<open>
  As long as the counters agree with the queues of the nodes, the NUMA scheduler over immediate
  successor schedulers hands a task to every host CPU that asks for one while some node, not only
  the one of the CPU, has a task in its queues.
\<close>

lemma NUMA_work_conserving:
  assumes "numa_inv imm_inv s w" "counters_exact imm_queued s" "cp_type (w_places w c) = nanos6_host_device"
    and "node_of w c < length (nh_NUMANodeScheduler s)" "numa_queued imm_queued s \<noteq> {#}"
  shows "\<exists>t s' w'. NUMA_getReadyTask (DeviceHierarchical_ops IS_ops) s w c cur b d = Inr (Some t, s', w')"
  using assms by (rule is_serving.numa_finds_work)

text \<open>
  The counters of ready tasks do not follow the tasks. Task 5 is queued in node 0, then task 6 is
  counted in node 1, the least loaded, but kept in the slot of CPU 0. CPU 0 takes it through the
  scheduler of node 0, which lowers the counter of node 0. Afterwards both CPUs ask for work, the one
  of node 0 included, both are sent to the empty queue of node 1 and become idle, while task 5 stays
  in the queue of node 0.
\<close>

lemma NUMA_counters_drift:
  "map_sum id (\<lambda>(ts, s, w). (ts, map iq_readyTasks (nh_NUMANodeScheduler s), nh_readyTasks s,
      cm_idleCPUs (w_cpum w)))
     (run_sched Hierarchical_ops numa_history (NUMA_new ISP_new [0, 1] 2) numa_world) =
   Inr ([6], [[5], []], [0, 1], [True, True])"
  by code_simp

end
