(* ===== verification/N6_Multidimensional.thy ===== *)
theory N6_Multidimensional
  imports N6_Dependencies
begin

text \<open>
  Registration of multidimensional array sections: \<open>src/dependencies/MultidimensionalAPITraversal.hpp\<close>,
  the \<open>MultidimensionalAPI.hpp\<close> of the linear-region systems and of the discrete one, and
  \<open>register_linear_access\<close> of \<open>linear-regions-fragmented/RegisterDependencies.cpp\<close>. The variadic templates
  are recursive functions over the list of the dimensions, outermost first; a dimension is the triple
  of its size, start and end, in bytes for the innermost one. A \<open>long\<close> is an integer, an address or a
  \<open>size_t\<close> a 64-bit word, and the conversions from the one to the other are those of the code.
\<close>

section \<open>Traversal\<close>

type_synonym dimension = "int \<times> int \<times> int"

fun currentDimensionIsContinuous :: "dimension list \<Rightarrow> bool" where
  "currentDimensionIsContinuous ((sz, start, en) # _) = (start = 0 \<and> en = sz)"
| "currentDimensionIsContinuous [] = False"

fun getStride :: "dimension list \<Rightarrow> size_t" where
  "getStride [] = 1"
| "getStride ((sz, start, en) # otherDimensions) = of_int sz * getStride otherDimensions"

fun getStartOffset :: "dimension list \<Rightarrow> size_t" where
  "getStartOffset [] = 0"
| "getStartOffset ((sz, start, en) # otherDimensions) =
     of_int start * getStride otherDimensions + getStartOffset otherDimensions"

fun getDiscreteSize :: "dimension list \<Rightarrow> size_t" where
  "getDiscreteSize [] = 1"
| "getDiscreteSize ((sz, start, en) # otherDimensions) =
     of_int (en - start) * getDiscreteSize otherDimensions"

section \<open>Linear regions\<close>

text \<open>A call of one of the functions \<open>nanos6_register_*_depinfo\<close>: the first address and the length.\<close>

type_synonym depinfo_call = "size_t \<times> size_t"

definition register_data_access_base :: "size_t \<Rightarrow> dimension \<Rightarrow> depinfo_call" where
  "register_data_access_base baseAddress d =
     (case d of (currentDimSize, currentDimStart, currentDimEnd) \<Rightarrow>
        (baseAddress + of_int currentDimStart, of_int (currentDimEnd - currentDimStart)))"

text \<open>The addresses of the loop, \<open>n\<close> of them, each \<open>stride\<close> after the one before.\<close>

fun strided :: "nat \<Rightarrow> size_t \<Rightarrow> size_t \<Rightarrow> size_t list" where
  "strided 0 currentBaseAddress stride = []"
| "strided (Suc n) currentBaseAddress stride = currentBaseAddress # strided n (currentBaseAddress + stride) stride"

fun register_data_access :: "size_t \<Rightarrow> dimension list \<Rightarrow> depinfo_call list" where
  "register_data_access baseAddress [] = []"
| "register_data_access baseAddress [d] = [register_data_access_base baseAddress d]"
| "register_data_access baseAddress ((sz, start, en) # (size2, start2, en2) # others) =
     (if currentDimensionIsContinuous ((size2, start2, en2) # others)
      then register_data_access baseAddress ((sz * size2, start * size2, en * size2) # others)
      else
        (let stride = getStride ((size2, start2, en2) # others) in
         concat (map (\<lambda>currentBaseAddress. register_data_access currentBaseAddress ((size2, start2, en2) # others))
           (strided (nat (en - start)) (baseAddress + of_int start * stride) stride))))"

text \<open>
  The variant for reductions. Its loop advances \<open>currentBaseAddress\<close> but passes \<open>baseAddress\<close> on, and
  for one dimension it registers the size of the dimension, not the section.
\<close>

definition register_region_reduction_depinfo1 :: "size_t \<Rightarrow> dimension \<Rightarrow> depinfo_call list result" where
  "register_region_reduction_depinfo1 base_address d =
     (case d of (dim1size, dim1start, dim1end) \<Rightarrow>
        assert_that (dim1start = 0) ''dim1start == 0L'' (Inr [(base_address, of_int dim1size)]))"

fun calls :: "'a list result list \<Rightarrow> 'a list result" where
  "calls [] = Inr []"
| "calls (r # rs) = result_bind r (\<lambda>xs. result_bind (calls rs) (\<lambda>ys. Inr (xs @ ys)))"

fun register_reduction_access :: "size_t \<Rightarrow> dimension list \<Rightarrow> depinfo_call list result" where
  "register_reduction_access baseAddress [] = Inr []"
| "register_reduction_access baseAddress [d] = register_region_reduction_depinfo1 baseAddress d"
| "register_reduction_access baseAddress ((sz, start, en) # (size2, start2, en2) # others) =
     (if currentDimensionIsContinuous ((size2, start2, en2) # others)
      then register_reduction_access baseAddress ((sz * size2, start * size2, en * size2) # others)
      else
        (let stride = getStride ((size2, start2, en2) # others) in
         calls (map (\<lambda>currentBaseAddress. register_reduction_access baseAddress ((size2, start2, en2) # others))
           (strided (nat (en - start)) (baseAddress + of_int start * stride) stride))))"

text \<open>What the calls register: nothing for a null address or no bytes. The access is weak only in a task
  that can have weak accesses.\<close>

definition register_linear_access ::
  "task \<Rightarrow> DataAccessType \<Rightarrow> bool \<Rightarrow> depinfo_call \<Rightarrow> (DataAccessType \<times> bool \<times> size_t \<times> size_t) list" where
  "register_linear_access task accessType weak call =
     (case call of (start, len) \<Rightarrow>
        if start = 0 then [] else if len = 0 then []
        else [(accessType, weak \<and> \<not> isFinal task \<and> \<not> isTaskloop task, start, len)])"

definition register_region ::
  "task \<Rightarrow> DataAccessType \<Rightarrow> bool \<Rightarrow> size_t \<Rightarrow> dimension list \<Rightarrow> (DataAccessType \<times> bool \<times> size_t \<times> size_t) list" where
  "register_region task accessType weak baseAddress dims =
     concat (map (register_linear_access task (if accessType = COMMUTATIVE_ACCESS_TYPE then READWRITE_ACCESS_TYPE else accessType) weak)
       (register_data_access baseAddress dims))"

section \<open>Discrete dependencies\<close>

text \<open>The discrete system registers the first byte only, with the number of bytes as the length.\<close>

definition register_data_access_discrete :: "size_t \<Rightarrow> dimension list \<Rightarrow> depinfo_call" where
  "register_data_access_discrete baseAddress dims =
     (let currentBaseAddress = baseAddress + getStartOffset dims; sz = getDiscreteSize dims in
      register_data_access_base currentBaseAddress (sint sz, 0, sint sz))"

section \<open>The bytes of a section\<close>

text \<open>The offsets of the bytes of the section, in the order of the memory.\<close>

fun stride_of :: "dimension list \<Rightarrow> int" where
  "stride_of [] = 1"
| "stride_of ((sz, start, en) # others) = sz * stride_of others"

fun section_bytes :: "dimension list \<Rightarrow> int list" where
  "section_bytes [] = [0]"
| "section_bytes ((sz, start, en) # others) =
     concat (map (\<lambda>i. map (\<lambda>o1. i * stride_of others + o1) (section_bytes others)) [start..en - 1])"

text \<open>A section of an array that fits into the address space.\<close>

definition dims_ok :: "dimension list \<Rightarrow> bool" where
  "dims_ok dims \<longleftrightarrow> dims \<noteq> [] \<and> list_all (\<lambda>(sz, start, en). 0 \<le> start \<and> start \<le> en \<and> en \<le> sz) dims \<and>
     stride_of dims < 2 ^ 63"

definition call_bytes :: "depinfo_call \<Rightarrow> size_t list" where
  "call_bytes call = (case call of (start, len) \<Rightarrow> map (\<lambda>k. start + of_nat k) [0..<unat len])"

lemma getStride_of: "getStride dims = of_int (stride_of dims)"
  by (induction dims rule: getStride.induct) simp_all

lemma strided_map: "strided n a s = map (\<lambda>k. a + of_nat k * s) [0..<n]"
proof (induction n arbitrary: a)
  case (Suc n)
  have "[0..<Suc n] = 0 # map Suc [0..<n]" by (simp add: map_Suc_upt upt_conv_Cons del: upt_Suc)
  then show ?case using Suc by (simp add: algebra_simps del: upt_Suc)
qed simp

lemma upto_map: "[a..b - 1] = map (\<lambda>k. a + int k) [0..<nat (b - a)]"
  by (rule nth_equalityI) simp_all

text \<open>Merging a dimension with a continuous one inside it changes nothing.\<close>

lemma upto_shift: "[c..c + m - 1] = map (\<lambda>j. c + j) [0..m - 1]"
  by (rule nth_equalityI) simp_all

lemma upto_blocks:
  assumes "0 < m" "start \<le> en"
  shows "[start * m..en * m - 1] = concat (map (\<lambda>i. map (\<lambda>j. i * m + j) [0..m - 1]) [start..en - 1])"
  using assms(2)
proof (induction "nat (en - start)" arbitrary: en)
  case (Suc n)
  then have le: "start \<le> en - 1" and IH: "[start * m..(en - 1) * m - 1] =
      concat (map (\<lambda>i. map (\<lambda>j. i * m + j) [0..m - 1]) [start..en - 1 - 1])"
    by simp_all
  have "start * m \<le> (en - 1) * m" "(en - 1) * m \<le> en * m - 1"
    using le assms(1) mult_right_mono [of start "en - 1" m] by (simp_all add: left_diff_distrib)
  from upto_split1 [OF this] have "[start * m..en * m - 1] = [start * m..(en - 1) * m - 1] @ [(en - 1) * m..en * m - 1]" .
  moreover have "[(en - 1) * m..en * m - 1] = map (\<lambda>j. (en - 1) * m + j) [0..m - 1]"
    using upto_shift [of "(en - 1) * m" m] by (simp add: left_diff_distrib)
  moreover have "[start..en - 1] = [start..en - 1 - 1] @ [en - 1]" using le by (rule upto_rec2)
  ultimately show ?case using IH by simp
qed simp

lemma concat_map_flat: "concat (map f (concat (map g xs))) = concat (map (\<lambda>x. concat (map f (g x))) xs)"
  by (induction xs) simp_all

lemma section_bytes_merge:
  assumes "0 \<le> m" "start \<le> en"
  shows "section_bytes ((sz * m, start * m, en * m) # others) = section_bytes ((sz, start, en) # (m, 0, m) # others)"
proof (cases "m = 0")
  case False
  then have "[start * m..en * m - 1] = concat (map (\<lambda>i. map (\<lambda>j. i * m + j) [0..m - 1]) [start..en - 1])"
    using assms by (intro upto_blocks) simp_all
  then have "section_bytes ((sz * m, start * m, en * m) # others) =
      concat (map (\<lambda>i. concat (map (\<lambda>k. map (\<lambda>o1. k * stride_of others + o1) (section_bytes others))
        (map (\<lambda>j. i * m + j) [0..m - 1]))) [start..en - 1])"
    by (simp only: section_bytes.simps concat_map_flat)
  then show ?thesis by (simp add: map_concat comp_def distrib_right mult.assoc flip: add.assoc)
qed simp

text \<open>The registered bytes.\<close>

lemma base_bytes:
  assumes "start \<le> en" "en - start < 2 ^ 64"
  shows "call_bytes (register_data_access_base base (sz, start, en)) =
    map (\<lambda>o1. base + of_int o1) (section_bytes [(sz, start, en)])"
proof -
  have "unat (of_int (en - start) :: size_t) = nat (en - start)"
    using assms by (simp add: unsigned_of_int take_bit_int_eq_self flip: of_int_diff)
  then show ?thesis
    by (simp add: call_bytes_def register_data_access_base_def upto_map comp_def algebra_simps)
qed

lemma dims_ok_merge:
  assumes "dims_ok ((sz, start, en) # (m, 0, m) # others)"
  shows "dims_ok ((sz * m, start * m, en * m) # others)"
  using assms by (auto simp: dims_ok_def mult.assoc mult_right_mono)

lemma stride_nonneg: "list_all (\<lambda>(sz, start, en). 0 \<le> start \<and> start \<le> en \<and> en \<le> sz) dims \<Longrightarrow> 0 \<le> stride_of dims"
  by (induction dims rule: stride_of.induct) auto

lemma dims_ok_inner:
  assumes "dims_ok ((sz, start, en) # d # others)" "start < en"
  shows "dims_ok (d # others)"
proof -
  have ok: "list_all (\<lambda>(sz, start, en). 0 \<le> start \<and> start \<le> en \<and> en \<le> sz) (d # others)" "1 \<le> sz"
    and "sz * stride_of (d # others) < 2 ^ 63"
    using assms by (auto simp: dims_ok_def)
  moreover have "stride_of (d # others) \<le> sz * stride_of (d # others)"
    using mult_right_mono [OF ok(2) stride_nonneg [OF ok(1)]] by simp
  ultimately show ?thesis by (simp add: dims_ok_def)
qed

lemma stride_le:
  assumes "dims_ok [(sz, start, en)]"
  shows "start \<le> en \<and> en - start < 2 ^ 64"
  using assms by (simp add: dims_ok_def)

lemma registered_bytes:
  "dims_ok dims \<Longrightarrow>
   concat (map call_bytes (register_data_access base dims)) = map (\<lambda>o1. base + of_int o1) (section_bytes dims)"
proof (induction base dims rule: register_data_access.induct)
  case (2 base d)
  obtain sz start en where d: "d = (sz, start, en)" by (cases d) auto
  with 2 base_bytes stride_le show ?case by (simp del: section_bytes.simps)
next
  case (3 base sz start en m start2 en2 others)
  show ?case
  proof (cases "currentDimensionIsContinuous ((m, start2, en2) # others)")
    case True
    then have eq: "start2 = 0" "en2 = m" by simp_all
    then have "0 \<le> m" "start \<le> en" using "3.prems" by (simp_all add: dims_ok_def)
    with "3.IH"(1) [OF True] dims_ok_merge "3.prems" eq show ?thesis
      by (simp add: section_bytes_merge del: section_bytes.simps)
  next
    case False
    let ?rest = "(m, start2, en2) # others"
    have "concat (map call_bytes (register_data_access b ?rest)) = map (\<lambda>o1. b + of_int o1) (section_bytes ?rest)"
      if "b \<in> set (strided (nat (en - start)) (base + of_int start * getStride ?rest) (getStride ?rest))" for b
    proof -
      have "start < en" using that by (cases "nat (en - start)") auto
      with dims_ok_inner "3.prems" have "dims_ok ?rest" by blast
      then show ?thesis using "3.IH"(2) [OF False refl that] by blast
    qed
    then have "concat (map call_bytes (register_data_access base ((sz, start, en) # ?rest))) =
      concat (map (\<lambda>b. map (\<lambda>o1. b + of_int o1) (section_bytes ?rest))
        (strided (nat (en - start)) (base + of_int start * getStride ?rest) (getStride ?rest)))"
      using False
      by (simp only: register_data_access.simps if_False Let_def concat_map_flat cong: map_cong)
    also have "\<dots> = map (\<lambda>o1. base + of_int o1) (section_bytes ((sz, start, en) # ?rest))"
      by (simp add: strided_map getStride_of upto_map map_concat comp_def algebra_simps
          del: upt_Suc stride_of.simps section_bytes.simps(2)) (simp add: upto_map map_concat comp_def algebra_simps)
    finally show ?thesis .
  qed
qed (simp add: dims_ok_def)

section \<open>A byte has one address\<close>

lemma distinct_concat_map:
  assumes "distinct xs" "\<And>x. x \<in> set xs \<Longrightarrow> distinct (f x)"
    and "\<And>x y. x \<in> set xs \<Longrightarrow> y \<in> set xs \<Longrightarrow> x \<noteq> y \<Longrightarrow> set (f x) \<inter> set (f y) = {}"
  shows "distinct (concat (map f xs))"
  using assms by (induction xs) fastforce+

lemma section_bytes_bound:
  "list_all (\<lambda>(sz, start, en). 0 \<le> start \<and> start \<le> en \<and> en \<le> sz) dims \<Longrightarrow> o1 \<in> set (section_bytes dims) \<Longrightarrow>
   0 \<le> o1 \<and> o1 < stride_of dims"
proof (induction dims arbitrary: o1 rule: section_bytes.induct)
  case (2 sz start en others)
  then obtain i o2 where i: "start \<le> i" "i < en" and o2: "o2 \<in> set (section_bytes others)"
    and eq: "o1 = i * stride_of others + o2" by auto
  have b: "0 \<le> o2" "o2 < stride_of others" using "2.IH" "2.prems"(1) o2 i by auto
  have "0 \<le> i" "i + 1 \<le> sz" using "2.prems"(1) i by auto
  moreover from this(2) b have "(i + 1) * stride_of others \<le> sz * stride_of others"
    by (intro mult_right_mono) simp_all
  ultimately show ?case using b eq by (simp add: distrib_right)
qed simp

lemma section_bytes_distinct:
  "list_all (\<lambda>(sz, start, en). 0 \<le> start \<and> start \<le> en \<and> en \<le> sz) dims \<Longrightarrow> distinct (section_bytes dims)"
proof (induction dims rule: section_bytes.induct)
  case (2 sz start en others)
  have ok: "list_all (\<lambda>(sz, start, en). 0 \<le> start \<and> start \<le> en \<and> en \<le> sz) others" using "2.prems" by simp
  have div: "(i * stride_of others + o1) div stride_of others = i" if "o1 \<in> set (section_bytes others)" for i o1
    using section_bytes_bound [OF ok that] by simp
  have "distinct (map (\<lambda>o1. i * stride_of others + o1) (section_bytes others))" if "i \<in> set [start..en - 1]" for i
    using "2.IH" [OF that ok] by (simp add: distinct_map inj_on_def)
  then show ?case unfolding section_bytes.simps
    by (intro distinct_concat_map) (auto, metis div)
qed simp

lemma uint_section:
  assumes "dims_ok dims" "uint base + stride_of dims \<le> 2 ^ 64" "o1 \<in> set (section_bytes dims)"
  shows "uint (base + of_int o1 :: size_t) = uint base + o1"
proof -
  have "0 \<le> o1" "o1 < stride_of dims" using section_bytes_bound assms(1,3) by (auto simp: dims_ok_def)
  then have "uint base + o1 < 2 ^ 64" "0 \<le> uint base + o1" using assms(2) by auto
  moreover have "base + of_int o1 = of_int (uint base + o1)" by simp
  ultimately show ?thesis by (simp only: unsigned_of_int) (simp add: take_bit_int_eq_self)
qed

text \<open>The bytes of a list of registered accesses.\<close>

definition access_bytes :: "(DataAccessType \<times> bool \<times> size_t \<times> size_t) list \<Rightarrow> size_t list" where
  "access_bytes accesses = concat (map (\<lambda>(_, _, call). call_bytes call) accesses)"

lemma register_access_bytes:
  assumes "(0 :: size_t) \<notin> set (call_bytes call)"
  shows "access_bytes (register_linear_access task ty weak call) = call_bytes call"
proof -
  obtain start len where call: "call = (start, len)" by fastforce
  have "start \<in> set (call_bytes call)" if "len \<noteq> 0"
    using that by (auto simp: call call_bytes_def unat_gt_0 intro!: image_eqI [of _ _ 0])
  with assms call show ?thesis by (auto simp: register_linear_access_def call_bytes_def access_bytes_def)
qed

lemma access_bytes_concat: "access_bytes (concat xss) = concat (map access_bytes xss)"
  by (induction xss) (simp_all add: access_bytes_def)

text \<open>
  C12. Registration of an array section of any number of dimensions that lies in the address space and
  not at the null address: the accesses registered for it cover the bytes of the section, in the order
  of the memory, every byte once and no other byte, although continuous dimensions are merged and rows
  are registered one by one. An access is weak only when the task can have weak accesses.
\<close>

theorem section_registered_exactly:
  assumes "dims_ok dims" "base \<noteq> 0" "uint base + stride_of dims \<le> 2 ^ 64"
  shows "access_bytes (register_region task accessType weak base dims) =
      map (\<lambda>o1. base + of_int o1) (section_bytes dims) \<and>
    distinct (access_bytes (register_region task accessType weak base dims)) \<and>
    list_all (\<lambda>(_, weak', _). weak' = (weak \<and> \<not> isFinal task \<and> \<not> isTaskloop task))
      (register_region task accessType weak base dims)"
proof -
  let ?calls = "register_data_access base dims"
  let ?target = "map (\<lambda>o1. base + of_int o1) (section_bytes dims) :: size_t list"
  have reg: "concat (map call_bytes ?calls) = ?target" using registered_bytes [OF assms(1)] .
  have "0 \<le> o1" if "o1 \<in> set (section_bytes dims)" for o1
    using section_bytes_bound that assms(1) by (auto simp: dims_ok_def)
  moreover have "0 < uint base" using assms(2) by (metis uint_0_iff uint_nonnegative order_le_less)
  ultimately have "\<forall>b \<in> set ?target. 0 < uint b"
    using uint_section [OF assms(1,3)] by fastforce
  then have "(0 :: size_t) \<notin> set ?target" by (metis less_irrefl uint_0_eq)
  then have "(0 :: size_t) \<notin> set (call_bytes call)" if "call \<in> set ?calls" for call
    using that by (auto simp flip: reg)
  then have "access_bytes (register_region task accessType weak base dims) = concat (map call_bytes ?calls)"
    by (simp add: register_region_def access_bytes_concat comp_def register_access_bytes cong: map_cong)
  moreover have "distinct ?target"
    using section_bytes_distinct assms(1) uint_section [OF assms(1,3)]
    by (auto simp: distinct_map dims_ok_def inj_on_def) (metis add_left_cancel)
  moreover have "list_all (\<lambda>(_, weak', _). weak' = (weak \<and> \<not> isFinal task \<and> \<not> isTaskloop task))
      (register_region task accessType weak base dims)"
    by (auto simp: register_region_def register_linear_access_def list_all_iff split: if_splits)
  ultimately show ?thesis using reg by simp
qed

theorem section_registered_exactly_witness:
  "access_bytes (register_region plain_task READ_ACCESS_TYPE False 4096 [(4, 1, 3), (8, 2, 5)]) =
     [4106, 4107, 4108, 4114, 4115, 4116]"
proof -
  have "dims_ok [(4, 1, 3), (8, 2, 5)]" by (simp add: dims_ok_def)
  from section_registered_exactly [OF this, of 4096 plain_task READ_ACCESS_TYPE False] show ?thesis
    by (simp add: upto_rec1)
qed

text \<open>
  The variant for reductions registers the first row again and again: for eight bytes of each of
  four rows of sixteen bytes, all four calls name the first row, with the whole row as its length,
  where the accesses of the section are four different rows of eight bytes.
\<close>

lemma reduction_section_wrong:
  "register_reduction_access base [(4, 0, 4), (16, 0, 8)] = Inr (replicate 4 (base, 16)) \<and>
   register_data_access base [(4, 0, 4), (16, 0, 8)] =
     [(base, 8), (base + 16, 8), (base + 32, 8), (base + 48, 8)]"
  by (simp add: register_region_reduction_depinfo1_def register_data_access_base_def eval_nat_numeral)

text \<open>The discrete system registers the first byte of a section that is not empty, with the number of its bytes.\<close>

lemma section_first:
  "list_all (\<lambda>(sz, start, en). start < en) dims \<Longrightarrow>
   section_bytes dims \<noteq> [] \<and> of_int (hd (section_bytes dims)) = getStartOffset dims"
proof (induction dims rule: section_bytes.induct)
  case (2 sz start en others)
  then have "start \<le> en - 1" "section_bytes others \<noteq> []" "of_int (hd (section_bytes others)) = getStartOffset others"
    by auto
  then show ?case by (simp add: upto_rec1 getStride_of hd_append hd_map)
qed simp

lemma section_length:
  "list_all (\<lambda>(sz, start, en). start < en) dims \<Longrightarrow> of_nat (length (section_bytes dims)) = getDiscreteSize dims"
proof (induction dims rule: section_bytes.induct)
  case (2 sz start en others)
  then have IH: "of_nat (length (section_bytes others)) = getDiscreteSize others" "start < en" by auto
  have "length (section_bytes ((sz, start, en) # others)) = nat (en - start) * length (section_bytes others)"
    by (simp add: length_concat comp_def sum_list_triv)
  then show ?case using IH by simp
qed simp

lemma discrete_registers_first_byte:
  assumes "list_all (\<lambda>(sz, start, en). start < en) dims"
  shows "register_data_access_discrete base dims =
    (base + of_int (hd (section_bytes dims)), of_nat (length (section_bytes dims)))"
  using section_first [OF assms] section_length [OF assms]
  by (simp add: register_data_access_discrete_def register_data_access_base_def)

end
