(* ===== verification/N6_AccessRegion.thy ===== *)
theory N6_AccessRegion
  imports N6_Prelude
begin

text \<open>
  Regions of addresses: class \<open>DataAccessRegion\<close> of \<open>src/dependencies/linear-regions/DataAccessRegion.hpp\<close>.
  Addresses and lengths are 64-bit words. \<open>region_ok\<close> says that a region is not empty and lies in the
  address space, which is what pointers into an object guarantee; \<open>region_bytes\<close> are its addresses.
\<close>

section \<open>Operations\<close>

record DataAccessRegion =
  dr_startAddress :: size_t
  dr_length :: size_t

definition DataAccessRegion_new :: "size_t \<Rightarrow> size_t \<Rightarrow> DataAccessRegion" where
  "DataAccessRegion_new startAddress endAddress =
     \<lparr>dr_startAddress = startAddress, dr_length = endAddress - startAddress\<rparr>"

definition DataAccessRegion_none :: DataAccessRegion where
  "DataAccessRegion_none = \<lparr>dr_startAddress = 0, dr_length = 0\<rparr>"

definition region_empty :: "DataAccessRegion \<Rightarrow> bool" where
  "region_empty r = (dr_startAddress r = 0 \<and> dr_length r = 0)"

definition getEndAddress :: "DataAccessRegion \<Rightarrow> size_t" where
  "getEndAddress r = dr_startAddress r + dr_length r"

definition getBounds :: "DataAccessRegion \<Rightarrow> size_t \<times> size_t" where
  "getBounds r = (dr_startAddress r, dr_startAddress r + dr_length r - 1)"

definition region_intersect :: "DataAccessRegion \<Rightarrow> DataAccessRegion \<Rightarrow> DataAccessRegion" where
  "region_intersect r other =
     (let start = max (dr_startAddress r) (dr_startAddress other);
          en = min (getEndAddress r) (getEndAddress other) in
      if start < en then DataAccessRegion_new start en else DataAccessRegion_none)"

definition contiguous :: "DataAccessRegion \<Rightarrow> DataAccessRegion \<Rightarrow> bool" where
  "contiguous r other = (dr_startAddress r = getEndAddress other \<or> getEndAddress r = dr_startAddress other)"

definition contiguousUnion :: "DataAccessRegion \<Rightarrow> DataAccessRegion \<Rightarrow> DataAccessRegion result" where
  "contiguousUnion r other =
     assert_that (contiguous r other) ''contiguous(other)''
       (assert_that (region_empty (region_intersect r other)) ''intersect(other).empty()''
         (Inr (DataAccessRegion_new (min (dr_startAddress r) (dr_startAddress other))
                 (max (getEndAddress r) (getEndAddress other)))))"

definition fullyContainedIn :: "DataAccessRegion \<Rightarrow> DataAccessRegion \<Rightarrow> bool" where
  "fullyContainedIn r other = (region_intersect r other = r)"

text \<open>
  The three processors act on a state; the calls come in the order intersection, left, right, and at
  most one of the outer processors is called on each side.
\<close>

definition processIntersectingFragments ::
  "DataAccessRegion \<Rightarrow> DataAccessRegion \<Rightarrow> (DataAccessRegion \<Rightarrow> 's \<Rightarrow> 's result) \<Rightarrow>
     (DataAccessRegion \<Rightarrow> 's \<Rightarrow> 's result) \<Rightarrow> (DataAccessRegion \<Rightarrow> 's \<Rightarrow> 's result) \<Rightarrow> 's \<Rightarrow> 's result" where
  "processIntersectingFragments r fragmenter thisOnly intersecting otherOnly s =
     (let firstStart = dr_startAddress r; firstEnd = getEndAddress r;
          secondStart = dr_startAddress fragmenter; secondEnd = getEndAddress fragmenter;
          intersectionStart = max firstStart secondStart; intersectionEnd = min firstEnd secondEnd in
      assert_that (intersectionStart < intersectionEnd) ''intersectionStart < intersectionEnd''
        (result_bind (intersecting (DataAccessRegion_new intersectionStart intersectionEnd) s) (\<lambda>s1.
         result_bind
           (if firstStart < intersectionStart then thisOnly (DataAccessRegion_new firstStart intersectionStart) s1
            else if secondStart < intersectionStart
            then otherOnly (DataAccessRegion_new secondStart intersectionStart) s1
            else Inr s1) (\<lambda>s2.
         if intersectionEnd < firstEnd then thisOnly (DataAccessRegion_new intersectionEnd firstEnd) s2
         else if intersectionEnd < secondEnd
         then otherOnly (DataAccessRegion_new intersectionEnd secondEnd) s2
         else Inr s2))))"

section \<open>Bytes\<close>

definition region_ok :: "DataAccessRegion \<Rightarrow> bool" where
  "region_ok r \<longleftrightarrow> 0 < dr_length r \<and> unat (dr_startAddress r) + unat (dr_length r) < 2 ^ 64"

definition region_bytes :: "DataAccessRegion \<Rightarrow> nat set" where
  "region_bytes r = {unat (dr_startAddress r)..<unat (dr_startAddress r) + unat (dr_length r)}"

abbreviation start_of :: "DataAccessRegion \<Rightarrow> nat" where
  "start_of r \<equiv> unat (dr_startAddress r)"

abbreviation end_of :: "DataAccessRegion \<Rightarrow> nat" where
  "end_of r \<equiv> unat (getEndAddress r)"

lemma end_of: "region_ok r \<Longrightarrow> end_of r = start_of r + unat (dr_length r)"
  unfolding getEndAddress_def region_ok_def by (subst unat_add_lem [THEN iffD1]) simp_all

lemma start_less_end: "region_ok r \<Longrightarrow> start_of r < end_of r"
  by (simp add: end_of) (simp add: region_ok_def word_less_nat_alt)

lemma region_bytes_alt: "region_ok r \<Longrightarrow> region_bytes r = {start_of r..<end_of r}"
  by (simp add: region_bytes_def end_of)

lemma region_new:
  assumes "a < b"
  shows "region_ok (DataAccessRegion_new a b)" "start_of (DataAccessRegion_new a b) = unat a"
    "end_of (DataAccessRegion_new a b) = unat b" "region_bytes (DataAccessRegion_new a b) = {unat a..<unat b}"
proof -
  have ab: "unat a < unat b" using assms by (simp add: word_less_nat_alt)
  have len: "unat (b - a) = unat b - unat a" using assms by (simp add: unat_sub)
  have "unat b < 2 ^ 64" using unsigned_less [of b, where ?'a = nat] by simp
  then show "region_ok (DataAccessRegion_new a b)"
    using assms ab len by (simp add: region_ok_def DataAccessRegion_new_def word_less_nat_alt)
  show "start_of (DataAccessRegion_new a b) = unat a" "end_of (DataAccessRegion_new a b) = unat b"
    "region_bytes (DataAccessRegion_new a b) = {unat a..<unat b}"
    using len ab by (simp_all add: DataAccessRegion_new_def getEndAddress_def region_bytes_def)
qed

lemma region_none [simp]: "region_bytes DataAccessRegion_none = {}" "region_empty DataAccessRegion_none"
  by (simp_all add: region_bytes_def DataAccessRegion_none_def region_empty_def)

lemma region_ok_not_empty: "region_ok r \<Longrightarrow> \<not> region_empty r"
  by (auto simp: region_ok_def region_empty_def)

lemma unat_max: "unat (max a b) = max (unat a) (unat b)" for a :: size_t
  by (simp add: max_def word_le_nat_alt)

lemma unat_min: "unat (min a b) = min (unat a) (unat b)" for a :: size_t
  by (simp add: min_def word_le_nat_alt)

text \<open>The intersection.\<close>

lemma intersect_bytes:
  assumes "region_ok r" "region_ok q"
  shows "region_bytes (region_intersect r q) = region_bytes r \<inter> region_bytes q"
  using assms
  by (auto simp: region_intersect_def Let_def region_new region_bytes_alt unat_max unat_min word_less_nat_alt)

lemma intersect_ok:
  "\<not> region_empty (region_intersect r q) \<Longrightarrow> region_ok (region_intersect r q)"
  by (auto simp: region_intersect_def Let_def region_new split: if_splits)

lemma intersect_empty_iff:
  assumes "region_ok r" "region_ok q"
  shows "region_empty (region_intersect r q) \<longleftrightarrow> end_of r \<le> start_of q \<or> end_of q \<le> start_of r"
  using assms start_less_end [OF assms(1)] start_less_end [OF assms(2)] region_ok_not_empty [OF region_new(1)]
  by (auto simp: region_intersect_def Let_def unat_max unat_min word_less_nat_alt)

lemma contained_iff:
  assumes "region_ok r" "region_ok q"
  shows "fullyContainedIn r q \<longleftrightarrow> region_bytes r \<subseteq> region_bytes q"
proof
  assume "fullyContainedIn r q"
  then show "region_bytes r \<subseteq> region_bytes q"
    using intersect_bytes [OF assms] by (auto simp: fullyContainedIn_def)
next
  assume "region_bytes r \<subseteq> region_bytes q"
  then have "start_of q \<le> start_of r" "end_of r \<le> end_of q"
    using start_less_end [OF assms(1)] by (auto simp: region_bytes_alt assms)
  then have "max (dr_startAddress r) (dr_startAddress q) = dr_startAddress r" "min (getEndAddress r) (getEndAddress q) = getEndAddress r"
    by (simp_all add: max_absorb1 min_absorb1 word_le_nat_alt)
  moreover have "dr_startAddress r < getEndAddress r" using start_less_end [OF assms(1)] by (simp add: word_less_nat_alt)
  ultimately show "fullyContainedIn r q"
    by (simp add: fullyContainedIn_def region_intersect_def DataAccessRegion_new_def getEndAddress_def)
qed

lemma contiguousUnion_bytes:
  assumes "region_ok r" "region_ok q" "contiguousUnion r q = Inr u"
  shows "region_ok u \<and> region_bytes u = region_bytes r \<union> region_bytes q \<and> region_bytes r \<inter> region_bytes q = {}"
  using assms start_less_end [OF assms(1)] start_less_end [OF assms(2)]
  by (auto simp: contiguousUnion_def contiguous_def region_new region_bytes_alt intersect_empty_iff
      unat_max unat_min word_less_nat_alt)

end
