(* ===== verification/N6_RegionMap.thy ===== *)
theory N6_RegionMap
  imports N6_AccessRegion
begin

text \<open>
  Maps from regions to contents: \<open>IntrusiveLinearRegionMap\<close> and \<open>LinearRegionMap\<close> of
  \<open>src/dependencies/linear-regions\<close>. Both are an ordered set of nodes, \<open>boost::intrusive::avl_set\<close>,
  keyed by the start of the region of the node. The set is a parameter: its state is the sequence of its
  nodes, \<open>avl_ops\<close> are the two operations that depend on the order, and the locale \<open>ordered_set\<close> states
  what its documentation promises of them. A node is named by a number; an iterator is the name of its
  node, or \<open>None\<close> for \<open>end()\<close>. The contents of a node are kept beside the sequence, because an object that
  is unlinked from the set still exists. A processor (a lambda of the caller) may change the map and the
  state \<open>'s\<close> around it, and answers whether to continue. A traversal whose processor keeps adding nodes
  need not end, so traversals are partial functions: \<open>None\<close> stands for not returning.
\<close>

section \<open>Nodes and iterators\<close>

type_synonym node = "nat \<times> DataAccessRegion"

record 'c region_map =
  rm_nodes :: "node list"
  rm_contents :: "nat \<Rightarrow> 'c"
  rm_next :: nat

record avl_ops =
  as_lower_bound :: "node list \<Rightarrow> size_t \<Rightarrow> nat option"
  as_insert :: "node \<Rightarrow> node list \<Rightarrow> node list"

type_synonym ('c, 's) map_state = "'c region_map \<times> 's"
type_synonym ('c, 's) processor = "nat \<Rightarrow> ('c, 's) map_state \<Rightarrow> (bool \<times> ('c, 's) map_state) result"
type_synonym ('c, 's) missing_processor =
  "DataAccessRegion \<Rightarrow> ('c, 's) map_state \<Rightarrow> (bool \<times> ('c, 's) map_state) result"

abbreviation node_start :: "node \<Rightarrow> size_t" where
  "node_start n \<equiv> dr_startAddress (snd n)"

abbreviation node_end :: "node \<Rightarrow> size_t" where
  "node_end n \<equiv> getEndAddress (snd n)"

definition region_at :: "'c region_map \<Rightarrow> nat \<Rightarrow> DataAccessRegion option" where
  "region_at m p = map_of (rm_nodes m) p"

fun it_of :: "node list \<Rightarrow> nat option" where
  "it_of [] = None"
| "it_of (n # _) = Some (fst n)"

definition it_begin :: "'c region_map \<Rightarrow> nat option" where
  "it_begin m = it_of (rm_nodes m)"

definition nodes_from :: "'c region_map \<Rightarrow> nat option \<Rightarrow> node list" where
  "nodes_from m it = dropWhile (\<lambda>n. Some (fst n) \<noteq> it) (rm_nodes m)"

definition it_next :: "'c region_map \<Rightarrow> nat \<Rightarrow> nat option" where
  "it_next m p = it_of (tl (nodes_from m (Some p)))"

definition it_prev :: "'c region_map \<Rightarrow> nat option \<Rightarrow> nat option" where
  "it_prev m it = it_of (rev (takeWhile (\<lambda>n. Some (fst n) \<noteq> it) (rm_nodes m)))"

section \<open>Traversals\<close>

text \<open>The start of a traversal: the first node at or after the start of the region, or the one before it.\<close>

definition starts_after :: "'c region_map \<Rightarrow> nat option \<Rightarrow> size_t \<Rightarrow> bool" where
  "starts_after m it a =
     (case it of None \<Rightarrow> True
      | Some p \<Rightarrow> (case region_at m p of None \<Rightarrow> False | Some r \<Rightarrow> dr_startAddress r > a))"

definition first_position :: "avl_ops \<Rightarrow> DataAccessRegion \<Rightarrow> 'c region_map \<Rightarrow> nat option" where
  "first_position avl region m =
     (let it = as_lower_bound avl (rm_nodes m) (dr_startAddress region) in
      if it \<noteq> it_begin m \<and> starts_after m it (dr_startAddress region) then it_prev m it else it)"

partial_function (option) processAll_loop ::
  "('c, 's) processor \<Rightarrow> nat option \<Rightarrow> ('c, 's) map_state \<Rightarrow> (bool \<times> ('c, 's) map_state) result option" where
  [code]: "processAll_loop processor it st =
     (case it of
        None \<Rightarrow> Some (Inr (True, st))
      | Some position \<Rightarrow>
          (let next = it_next (fst st) position in
           case processor position st of
             Inl e \<Rightarrow> Some (Inl e)
           | Inr (cont, st1) \<Rightarrow>
               (if \<not> cont then Some (Inr (False, st1)) else processAll_loop processor next st1)))"

definition processAll ::
  "('c, 's) processor \<Rightarrow> ('c, 's) map_state \<Rightarrow> (bool \<times> ('c, 's) map_state) result option" where
  "processAll processor st = processAll_loop processor (it_begin (fst st)) st"

text \<open>An iterator that is not in the map must not be read.\<close>

partial_function (option) processIntersecting_loop ::
  "DataAccessRegion \<Rightarrow> ('c, 's) processor \<Rightarrow> nat option \<Rightarrow> ('c, 's) map_state \<Rightarrow>
     (bool \<times> ('c, 's) map_state) result option" where
  [code]: "processIntersecting_loop region processor it st =
     (case it of
        None \<Rightarrow> Some (Inr (True, st))
      | Some position \<Rightarrow>
          (case region_at (fst st) position of
             None \<Rightarrow> Some (Inl (FatalError ''invalid iterator''))
           | Some r \<Rightarrow>
               (if \<not> dr_startAddress r < getEndAddress region then Some (Inr (True, st))
                else
                  (let next = it_next (fst st) position in
                   if region_empty (region_intersect region r) then processIntersecting_loop region processor next st
                   else
                     (case processor position st of
                        Inl e \<Rightarrow> Some (Inl e)
                      | Inr (cont, st1) \<Rightarrow>
                          (if \<not> cont then Some (Inr (False, st1))
                           else processIntersecting_loop region processor next st1))))))"

definition processIntersecting ::
  "avl_ops \<Rightarrow> DataAccessRegion \<Rightarrow> ('c, 's) processor \<Rightarrow> ('c, 's) map_state \<Rightarrow>
     (bool \<times> ('c, 's) map_state) result option" where
  "processIntersecting avl region processor st =
     processIntersecting_loop region processor (first_position avl region (fst st)) st"

partial_function (option) intersectingAndMissing_loop ::
  "DataAccessRegion \<Rightarrow> ('c, 's) processor \<Rightarrow> ('c, 's) missing_processor \<Rightarrow> nat option \<Rightarrow> size_t \<Rightarrow>
     ('c, 's) map_state \<Rightarrow> (bool \<times> ('c, 's) map_state) result option" where
  [code]: "intersectingAndMissing_loop region intersecting missing it lastEnd st =
     (let finish = (if lastEnd < getEndAddress region
                    then missing (DataAccessRegion_new lastEnd (getEndAddress region)) st
                    else Inr (True, st)) in
      case it of
        None \<Rightarrow> Some finish
      | Some position \<Rightarrow>
          (case region_at (fst st) position of
             None \<Rightarrow> Some (Inl (FatalError ''invalid iterator''))
           | Some r0 \<Rightarrow>
               (if \<not> dr_startAddress r0 < getEndAddress region then Some finish
                else
                  (let next = it_next (fst st) position in
                   case (if lastEnd < dr_startAddress r0
                         then missing (DataAccessRegion_new lastEnd (dr_startAddress r0)) st
                         else Inr (True, st)) of
                     Inl e \<Rightarrow> Some (Inl e)
                   | Inr (cont, st1) \<Rightarrow>
                       (if \<not> cont then Some (Inr (False, st1))
                        else
                          (case region_at (fst st1) position of
                             None \<Rightarrow> Some (Inl (FatalError ''invalid iterator''))
                           | Some r \<Rightarrow>
                               (if getEndAddress r \<le> getEndAddress region \<or>
                                   dr_startAddress r \<ge> lastEnd \<or> dr_startAddress r < dr_startAddress region
                                then
                                  (case intersecting position st1 of
                                     Inl e \<Rightarrow> Some (Inl e)
                                   | Inr (cont1, st2) \<Rightarrow>
                                       (if \<not> cont1 then Some (Inr (False, st2))
                                        else intersectingAndMissing_loop region intersecting missing next
                                          (if getEndAddress r \<le> getEndAddress region then getEndAddress r
                                           else getEndAddress region) st2))
                                else Some (Inl (AssertFailed ''position->getStartAddress() >= lastEnd'')))))))))"

definition processIntersectingAndMissing ::
  "avl_ops \<Rightarrow> DataAccessRegion \<Rightarrow> ('c, 's) processor \<Rightarrow> ('c, 's) missing_processor \<Rightarrow> ('c, 's) map_state \<Rightarrow>
     (bool \<times> ('c, 's) map_state) result option" where
  "processIntersectingAndMissing avl region intersecting missing st =
     (if rm_nodes (fst st) = [] then Some (missing region st)
      else
        (let m = fst st;
             initial = as_lower_bound avl (rm_nodes m) (dr_startAddress region);
             it = first_position avl region m in
         case Option.bind it (region_at m) of
           None \<Rightarrow> Some (Inl (FatalError ''invalid iterator''))
         | Some r \<Rightarrow>
             intersectingAndMissing_loop region intersecting missing
               (if getEndAddress r \<le> dr_startAddress region then initial else it) (dr_startAddress region) st))"

definition processMissing ::
  "avl_ops \<Rightarrow> DataAccessRegion \<Rightarrow> ('c, 's) missing_processor \<Rightarrow> ('c, 's) map_state \<Rightarrow>
     (bool \<times> ('c, 's) map_state) result option" where
  "processMissing avl region missing st =
     processIntersectingAndMissing avl region (\<lambda>position st. Inr (True, st)) missing st"

text \<open>The searches call a condition that changes nothing.\<close>

fun exists_from :: "DataAccessRegion \<Rightarrow> (nat \<Rightarrow> bool) \<Rightarrow> node list \<Rightarrow> bool" where
  "exists_from region condition [] = False"
| "exists_from region condition (n # rest) =
     (if node_start n < getEndAddress region
      then (if \<not> region_empty (region_intersect region (snd n)) \<and> condition (fst n) then True
            else exists_from region condition rest)
      else False)"

definition exists_in :: "avl_ops \<Rightarrow> DataAccessRegion \<Rightarrow> (nat \<Rightarrow> bool) \<Rightarrow> 'c region_map \<Rightarrow> bool" where
  "exists_in avl region condition m = exists_from region condition (nodes_from m (first_position avl region m))"

definition contains :: "avl_ops \<Rightarrow> DataAccessRegion \<Rightarrow> 'c region_map \<Rightarrow> bool" where
  "contains avl region m = exists_in avl region (\<lambda>_. True) m"

section \<open>Fragmentation\<close>

definition setAccessRegion :: "nat \<Rightarrow> DataAccessRegion \<Rightarrow> 'c region_map \<Rightarrow> 'c region_map" where
  "setAccessRegion p region m =
     m\<lparr>rm_nodes := map (\<lambda>n. if fst n = p then (p, region) else n) (rm_nodes m)\<rparr>"

definition erase_node :: "nat \<Rightarrow> 'c region_map \<Rightarrow> 'c region_map" where
  "erase_node p m = m\<lparr>rm_nodes := filter (\<lambda>n. fst n \<noteq> p) (rm_nodes m)\<rparr>"

text \<open>A new node with a copy of contents, inserted into the set.\<close>

definition insert_node :: "avl_ops \<Rightarrow> DataAccessRegion \<Rightarrow> 'c \<Rightarrow> 'c region_map \<Rightarrow> nat \<times> 'c region_map" where
  "insert_node avl region contents m =
     (rm_next m,
      m\<lparr>rm_nodes := as_insert avl (rm_next m, region) (rm_nodes m),
        rm_contents := (rm_contents m)(rm_next m := contents), rm_next := Suc (rm_next m)\<rparr>)"

text \<open>
  The lambdas of \<open>fragmentByIntersection\<close>: the part outside the intersection and the intersection. The
  first component of the state is \<open>alreadyShrinked\<close>, the second \<open>intersectionPosition\<close>.
\<close>

type_synonym ('c, 's) fragment_state = "bool \<times> nat option \<times> ('c, 's) map_state"

definition fragment_outside ::
  "avl_ops \<Rightarrow> ('c \<Rightarrow> 'c) \<Rightarrow> (nat \<Rightarrow> nat \<Rightarrow> ('c, 's) map_state \<Rightarrow> ('c, 's) map_state) \<Rightarrow> nat \<Rightarrow> DataAccessRegion \<Rightarrow>
     ('c, 's) fragment_state \<Rightarrow> ('c, 's) fragment_state result" where
  "fragment_outside avl duplicator postprocessor position region fs =
     (case fs of (alreadyShrinked, ip, m, s) \<Rightarrow>
        if \<not> alreadyShrinked
        then Inr (True, ip, postprocessor position position (setAccessRegion position region m, s))
        else (let (new, m1) = insert_node avl region (duplicator (rm_contents m position)) m in
              Inr (alreadyShrinked, ip, postprocessor new position (m1, s))))"

definition fragment_inside ::
  "avl_ops \<Rightarrow> ('c \<Rightarrow> 'c) \<Rightarrow> (nat \<Rightarrow> nat \<Rightarrow> ('c, 's) map_state \<Rightarrow> ('c, 's) map_state) \<Rightarrow> nat \<Rightarrow> bool \<Rightarrow>
     DataAccessRegion \<Rightarrow> ('c, 's) fragment_state \<Rightarrow> ('c, 's) fragment_state result" where
  "fragment_inside avl duplicator postprocessor position removeIntersection region fs =
     (case fs of (alreadyShrinked, ip, m, s) \<Rightarrow>
        if \<not> removeIntersection
        then
          (if \<not> alreadyShrinked
           then (let st = postprocessor position position (setAccessRegion position region m, s) in
                 assert_that (region_at (fst st) position = Some region) ''intersectionPosition->getAccessRegion() == region''
                   (Inr (True, Some position, st)))
           else (let (new, m1) = insert_node avl region (duplicator (rm_contents m position)) m;
                     st = postprocessor new position (m1, s) in
                 assert_that (region_at (fst st) new = Some region) ''intersectionPosition->getAccessRegion() == region''
                   (Inr (alreadyShrinked, Some new, st))))
        else Inr (True, ip, if alreadyShrinked then m else erase_node position m, s))"

definition fragmentByIntersection ::
  "avl_ops \<Rightarrow> nat \<Rightarrow> DataAccessRegion \<Rightarrow> bool \<Rightarrow> ('c \<Rightarrow> 'c) \<Rightarrow>
     (nat \<Rightarrow> nat \<Rightarrow> ('c, 's) map_state \<Rightarrow> ('c, 's) map_state) \<Rightarrow> ('c, 's) map_state \<Rightarrow>
     (nat option \<times> ('c, 's) map_state) result" where
  "fragmentByIntersection avl position fragmenterRegion removeIntersection duplicator postprocessor st =
     (case region_at (fst st) position of
        None \<Rightarrow> Inl (FatalError ''invalid iterator'')
      | Some originalRegion \<Rightarrow>
          result_bind
            (processIntersectingFragments originalRegion fragmenterRegion
               (fragment_outside avl duplicator postprocessor position)
               (\<lambda>region fs.
                  assert_that (region = region_intersect originalRegion fragmenterRegion)
                    ''region == originalRegion.intersect(fragmenterRegion)''
                    (fragment_inside avl duplicator postprocessor position removeIntersection region fs))
               (\<lambda>region fs. Inr fs)
               (False, None, st))
            (\<lambda>(_, ip, st1).
               assert_that (ip = None \<or> Option.bind ip (region_at (fst st1)) = Some (region_intersect originalRegion fragmenterRegion))
                 ''intersectionPosition->getAccessRegion() == originalRegion.intersect(fragmenterRegion)''
                 (Inr (ip, st1))))"

definition fragmentIntersecting ::
  "avl_ops \<Rightarrow> DataAccessRegion \<Rightarrow> ('c \<Rightarrow> 'c) \<Rightarrow> (nat \<Rightarrow> nat \<Rightarrow> ('c, 's) map_state \<Rightarrow> ('c, 's) map_state) \<Rightarrow>
     ('c, 's) map_state \<Rightarrow> (bool \<times> ('c, 's) map_state) result option" where
  "fragmentIntersecting avl region duplicator postprocessor st =
     processIntersecting avl region
       (\<lambda>position st. result_bind (fragmentByIntersection avl position region False duplicator postprocessor st)
          (\<lambda>(_, st1). Inr (True, st1))) st"

definition replace_node :: "avl_ops \<Rightarrow> nat \<Rightarrow> nat \<Rightarrow> DataAccessRegion \<Rightarrow> 'c region_map \<Rightarrow> 'c region_map" where
  "replace_node avl toBeReplaced replacement region m =
     (let m1 = erase_node toBeReplaced m in m1\<lparr>rm_nodes := as_insert avl (replacement, region) (rm_nodes m1)\<rparr>)"

section \<open>LinearRegionMap\<close>

text \<open>
  The map that owns its nodes has the same traversals. Its \<open>insert\<close> asserts that the region is free, and
  its \<open>erase\<close> deletes the node, so that its contents must not be read afterwards.
\<close>

definition LinearRegionMap_insert ::
  "avl_ops \<Rightarrow> DataAccessRegion \<Rightarrow> 'c \<Rightarrow> 'c region_map \<Rightarrow> (nat \<times> 'c region_map) result" where
  "LinearRegionMap_insert avl region contents m =
     assert_that (\<not> exists_in avl region (\<lambda>_. True) m) ''!exists(content.getAccessRegion())''
       (Inr (insert_node avl region contents m))"

definition copy_fragment ::
  "avl_ops \<Rightarrow> nat \<Rightarrow> DataAccessRegion \<Rightarrow> 'c region_map \<Rightarrow> (nat \<times> 'c region_map) result" where
  "copy_fragment avl position region m =
     (case region_at m position of
        None \<Rightarrow> Inl (FatalError ''contents of a deleted node'')
      | Some _ \<Rightarrow> LinearRegionMap_insert avl region (rm_contents m position) m)"

definition LinearRegionMap_fragmentByIntersection ::
  "avl_ops \<Rightarrow> nat \<Rightarrow> DataAccessRegion \<Rightarrow> bool \<Rightarrow> 'c region_map \<Rightarrow> (nat option \<times> 'c region_map) result" where
  "LinearRegionMap_fragmentByIntersection avl position fragmenterRegion removeIntersection m =
     (case region_at m position of
        None \<Rightarrow> Inl (FatalError ''invalid iterator'')
      | Some originalRegion \<Rightarrow>
          result_bind
            (processIntersectingFragments originalRegion fragmenterRegion
               (\<lambda>region (alreadyShrinked, ip, m).
                  if \<not> alreadyShrinked then Inr (True, ip, setAccessRegion position region m)
                  else result_bind (copy_fragment avl position region m) (\<lambda>(_, m1). Inr (alreadyShrinked, ip, m1)))
               (\<lambda>region (alreadyShrinked, ip, m).
                  if \<not> removeIntersection
                  then
                    (if \<not> alreadyShrinked then Inr (True, Some position, setAccessRegion position region m)
                     else result_bind (copy_fragment avl position region m)
                       (\<lambda>(new, m1). Inr (alreadyShrinked, Some new, m1)))
                  else Inr (True, ip, if alreadyShrinked then m else erase_node position m))
               (\<lambda>region st. Inr st)
               (False, None, m))
            (\<lambda>(_, ip, m1). Inr (ip, m1)))"

definition LinearRegionMap_moved :: "avl_ops \<Rightarrow> nat \<Rightarrow> DataAccessRegion \<Rightarrow> 'c region_map \<Rightarrow> 'c region_map" where
  "LinearRegionMap_moved avl p region m = replace_node avl p p region m"

end
