(* ===== verification/N6_RegionMapProofs.thy ===== *)
theory N6_RegionMapProofs
  imports N6_RegionMap
begin

text \<open>
  Proofs about region maps: the invariant \<open>map_ok\<close> (regions in order and disjoint, nodes distinct), the
  contract \<open>ordered_set\<close> of the container with its interpretation on sorted lists, where a traversal
  starts, that a traversal visits exactly the nodes that intersect, and what fragmentation does to the
  sequence of the regions.
\<close>

section \<open>Invariant and container\<close>

definition nodes_ok :: "node list \<Rightarrow> bool" where
  "nodes_ok xs \<longleftrightarrow> list_all (\<lambda>n. region_ok (snd n)) xs \<and>
     sorted_wrt (\<lambda>a b. end_of (snd a) \<le> start_of (snd b)) xs \<and> distinct (map fst xs)"

definition map_ok :: "'c region_map \<Rightarrow> bool" where
  "map_ok m \<longleftrightarrow> nodes_ok (rm_nodes m) \<and> list_all (\<lambda>n. fst n < rm_next m) (rm_nodes m)"

abbreviation by_start :: "node list \<Rightarrow> bool" where
  "by_start xs \<equiv> sorted_wrt (\<lambda>a b. node_start a < node_start b) xs"

locale ordered_set =
  fixes avl :: avl_ops
  assumes lower_bound: "by_start xs \<Longrightarrow> as_lower_bound avl xs a = it_of (dropWhile (\<lambda>n. node_start n < a) xs)"
    and insert: "by_start xs \<Longrightarrow> node_start n \<notin> node_start ` set xs \<Longrightarrow>
      as_insert avl n xs =
        takeWhile (\<lambda>x. node_start x < node_start n) xs @ n # dropWhile (\<lambda>x. node_start x < node_start n) xs"

definition list_avl :: avl_ops where
  "list_avl = \<lparr>as_lower_bound = (\<lambda>xs a. it_of (dropWhile (\<lambda>n. node_start n < a) xs)),
     as_insert = (\<lambda>n xs. takeWhile (\<lambda>x. node_start x < node_start n) xs @ n #
       dropWhile (\<lambda>x. node_start x < node_start n) xs)\<rparr>"

interpretation list_set: ordered_set list_avl
  by unfold_locales (simp_all add: list_avl_def)

lemma nodes_ok_simps [simp]:
  "nodes_ok []"
  "nodes_ok (n # xs) \<longleftrightarrow> region_ok (snd n) \<and> nodes_ok xs \<and> (\<forall>x \<in> set xs. end_of (snd n) \<le> start_of (snd x)) \<and>
     fst n \<notin> fst ` set xs"
  by (auto simp: nodes_ok_def)

lemma nodes_ok_append:
  "nodes_ok (xs @ ys) \<longleftrightarrow> nodes_ok xs \<and> nodes_ok ys \<and>
     (\<forall>x \<in> set xs. \<forall>y \<in> set ys. end_of (snd x) \<le> start_of (snd y)) \<and> fst ` set xs \<inter> fst ` set ys = {}"
  by (auto simp: nodes_ok_def sorted_wrt_append list_all_iff)

lemma nodes_ok_region: "nodes_ok xs \<Longrightarrow> x \<in> set xs \<Longrightarrow> region_ok (snd x)"
  by (simp add: nodes_ok_def list_all_iff)

lemma nodes_ok_by_start: "nodes_ok xs \<Longrightarrow> by_start xs"
proof (induction xs)
  case (Cons n xs)
  then have "start_of (snd n) < end_of (snd n)" by (simp add: start_less_end)
  with Cons show ?case by (auto simp: word_less_nat_alt intro: less_le_trans)
qed simp

section \<open>Iterators\<close>

lemma it_of_inj:
  assumes "distinct (map fst (xs @ n # ys))"
  shows "dropWhile (\<lambda>x. Some (fst x) \<noteq> Some (fst n)) (xs @ n # ys) = n # ys"
    "takeWhile (\<lambda>x. Some (fst x) \<noteq> Some (fst n)) (xs @ n # ys) = xs"
  using assms by (induction xs) auto

lemma region_at_mid: "map_ok m \<Longrightarrow> rm_nodes m = pre @ n # post \<Longrightarrow> region_at m (fst n) = Some (snd n)"
  unfolding region_at_def by (rule map_of_is_SomeI) (auto simp: map_ok_def nodes_ok_def)

lemma it_next_mid: "map_ok m \<Longrightarrow> rm_nodes m = pre @ n # post \<Longrightarrow> it_next m (fst n) = it_of post"
  using it_of_inj(1) [of pre n post] by (simp add: it_next_def nodes_from_def map_ok_def nodes_ok_def)

lemma it_prev_mid:
  assumes "map_ok m" "rm_nodes m = pre @ n # post"
  shows "it_prev m (it_of post) = Some (fst n)"
proof (cases post)
  case Nil
  then show ?thesis using assms(2) by (simp add: it_prev_def)
next
  case (Cons x xs)
  then have "takeWhile (\<lambda>y. Some (fst y) \<noteq> Some (fst x)) ((pre @ [n]) @ x # xs) = pre @ [n]"
    using assms by (intro it_of_inj(2)) (simp add: map_ok_def nodes_ok_def)
  then show ?thesis using assms(2) Cons by (simp add: it_prev_def)
qed

lemma nodes_from_mid:
  assumes "map_ok m" "rm_nodes m = pre @ post"
  shows "nodes_from m (it_of post) = post"
proof (cases post)
  case Nil
  then show ?thesis by (simp add: nodes_from_def)
next
  case (Cons n xs)
  then show ?thesis using assms it_of_inj(1) [of pre n xs] by (simp add: nodes_from_def map_ok_def nodes_ok_def)
qed

lemma it_of_eq:
  assumes "distinct (map fst (xs @ ys))" "it_of (xs @ ys) = it_of ys"
  shows "xs = []"
  using assms by (cases xs; cases ys) auto

section \<open>Where a traversal starts\<close>

definition node_hits :: "DataAccessRegion \<Rightarrow> node \<Rightarrow> bool" where
  "node_hits region n = (\<not> region_empty (region_intersect region (snd n)))"

lemma node_misses: "region_empty (region_intersect region (snd n)) = (\<not> node_hits region n)"
  by (simp add: node_hits_def)

lemma node_hits_iff:
  assumes "region_ok region" "region_ok (snd n)"
  shows "node_hits region n \<longleftrightarrow> start_of region < end_of (snd n) \<and> start_of (snd n) < end_of region"
  using intersect_empty_iff [OF assms] by (auto simp: node_hits_def)

context ordered_set
begin

text \<open>The sequence splits into nodes that end before the region and those from the iterator on.\<close>

lemma lower_bound_split:
  assumes "map_ok m"
  obtains pre post where "rm_nodes m = pre @ post" "as_lower_bound avl (rm_nodes m) a = it_of post"
    "\<forall>n \<in> set pre. node_start n < a" "\<forall>n \<in> set post. a \<le> node_start n"
proof
  let ?P = "\<lambda>n. node_start n < a"
  show "rm_nodes m = takeWhile ?P (rm_nodes m) @ dropWhile ?P (rm_nodes m)" by simp
  have s: "by_start (rm_nodes m)" using assms nodes_ok_by_start by (simp add: map_ok_def)
  then show "as_lower_bound avl (rm_nodes m) a = it_of (dropWhile ?P (rm_nodes m))" by (rule lower_bound)
  show "\<forall>n \<in> set (takeWhile ?P (rm_nodes m)). ?P n" by (auto dest: set_takeWhileD)
  show "\<forall>n \<in> set (dropWhile ?P (rm_nodes m)). a \<le> node_start n"
  proof (cases "dropWhile ?P (rm_nodes m)")
    case (Cons n xs)
    then have "\<not> node_start n < a" by (metis hd_dropWhile list.discI list.sel(1))
    moreover have "by_start (n # xs)"
      using s Cons by (metis sorted_wrt_append takeWhile_dropWhile_id)
    ultimately show ?thesis using Cons by auto
  qed (simp only: list.set ball_empty)
qed

lemma first_position_split:
  assumes "map_ok m" "region_ok region"
  obtains pre post where "rm_nodes m = pre @ post" "first_position avl region m = it_of post"
    "\<forall>n \<in> set pre. end_of (snd n) \<le> start_of region"
    "rm_nodes m \<noteq> [] \<Longrightarrow> post \<noteq> []"
    "\<forall>n \<in> set (tl post). start_of region \<le> start_of (snd n)"
proof -
  let ?a = "dr_startAddress region"
  obtain pre post where split: "rm_nodes m = pre @ post" "as_lower_bound avl (rm_nodes m) ?a = it_of post"
    and before: "\<forall>n \<in> set pre. node_start n < ?a" and after: "\<forall>n \<in> set post. ?a \<le> node_start n"
    using lower_bound_split [OF assms(1)] by blast
  have d: "distinct (map fst (pre @ post))" and ok: "nodes_ok (pre @ post)"
    using assms(1) split(1) by (simp_all add: map_ok_def nodes_ok_def)
  show thesis
  proof (cases "pre \<noteq> [] \<and> starts_after m (it_of post) ?a")
    case True
    then obtain pre1 n where pre: "pre = pre1 @ [n]" by (metis rev_exhaust)
    have nb: "it_of post \<noteq> it_begin m" using it_of_eq [OF d] True split(1) by (auto simp: it_begin_def)
    have "first_position avl region m = it_of (n # post)"
      using nb True it_prev_mid [OF assms(1), of pre1 n post] split pre by (simp add: first_position_def)
    moreover have "\<forall>x \<in> set pre1. end_of (snd x) \<le> start_of region"
    proof
      fix x assume "x \<in> set pre1"
      then have "end_of (snd x) \<le> start_of (snd n)" using ok pre by (simp add: nodes_ok_append)
      also have "\<dots> \<le> start_of region" using before pre by (auto simp: word_less_nat_alt)
      finally show "end_of (snd x) \<le> start_of region" .
    qed
    ultimately show thesis using that [of pre1 "n # post"] split(1) pre after by (auto simp: word_le_nat_alt)
  next
    case False
    then have "first_position avl region m = it_of post"
      using split by (auto simp: first_position_def it_begin_def)
    moreover have "\<forall>x \<in> set pre. end_of (snd x) \<le> start_of region" if "pre \<noteq> []"
    proof -
      from False that have "\<not> starts_after m (it_of post) ?a" by blast
      then obtain n xs where post: "post = n # xs" by (cases post) (auto simp: starts_after_def)
      have "region_at m (fst n) = Some (snd n)" using region_at_mid [OF assms(1)] split(1) post by simp
      with \<open>\<not> starts_after m (it_of post) ?a\<close> post have "start_of (snd n) \<le> start_of region"
        by (simp add: starts_after_def word_less_nat_alt)
      then show ?thesis using ok post by (auto simp: nodes_ok_append)
    qed
    ultimately show thesis
      using that [of pre post] split(1) False after
      by (cases post) (fastforce simp: starts_after_def word_le_nat_alt)+
  qed
qed

end

section \<open>What a traversal visits\<close>

text \<open>Calling a processor on a list of nodes until it stops: the specification of the traversals.\<close>

fun visit :: "('c, 's) processor \<Rightarrow> nat list \<Rightarrow> ('c, 's) map_state \<Rightarrow> (bool \<times> ('c, 's) map_state) result" where
  "visit processor [] st = Inr (True, st)"
| "visit processor (p # ps) st =
     result_bind (processor p st) (\<lambda>(cont, st1). if cont then visit processor ps st1 else Inr (False, st1))"

lemma hits_before_end:
  assumes "nodes_ok xs" "region_ok region"
  shows "filter (node_hits region) (takeWhile (\<lambda>n. node_start n < getEndAddress region) xs) = filter (node_hits region) xs"
  using assms(1)
proof (induction xs)
  case (Cons n xs)
  show ?case
  proof (cases "node_start n < getEndAddress region")
    case False
    then have far: "end_of region \<le> start_of (snd x)" if "x \<in> set (n # xs)" for x
      using that Cons.prems start_less_end [of "snd n"] by (fastforce simp: word_less_nat_alt)
    have "\<not> node_hits region x" if x: "x \<in> set (n # xs)" for x
      using node_hits_iff [OF assms(2) nodes_ok_region [OF Cons.prems x]] far [OF x] by simp
    then show ?thesis using False by (simp add: filter_empty_conv)
  qed (use Cons in simp)
qed simp

text \<open>A processor may do anything to the nodes up to the one it is called on.\<close>

locale node_processor =
  fixes processor :: "('c, 's) processor"
  assumes keeps_later: "map_ok m \<Longrightarrow> rm_nodes m = pre @ n # post \<Longrightarrow> processor (fst n) (m, s) = Inr (c, m', s') \<Longrightarrow>
    map_ok m' \<and> (\<exists>pre'. rm_nodes m' = pre' @ post)"
begin

lemma all_loop:
  "map_ok m \<Longrightarrow> rm_nodes m = pre @ post \<Longrightarrow>
   processAll_loop processor (it_of post) (m, s) = Some (visit processor (map fst post) (m, s))"
proof (induction post arbitrary: m s pre)
  case Nil
  then show ?case by (simp add: processAll_loop.simps)
next
  case (Cons n post)
  note nx = it_next_mid [OF Cons.prems]
  show ?case
  proof (cases "processor (fst n) (m, s)")
    case (Inr r)
    obtain c m' s' where r: "r = (c, m', s')" by (cases r) auto
    obtain pre' where "map_ok m'" "rm_nodes m' = pre' @ post"
      using keeps_later [OF Cons.prems Inr [unfolded r]] by blast
    with Cons.IH show ?thesis using nx Inr r by (subst processAll_loop.simps) (simp add: result_bind_def)
  qed (use nx in \<open>subst processAll_loop.simps, simp add: result_bind_def\<close>)
qed

lemma intersecting_loop:
  "map_ok m \<Longrightarrow> rm_nodes m = pre @ post \<Longrightarrow>
   processIntersecting_loop region processor (it_of post) (m, s) =
     Some (visit processor (map fst (filter (node_hits region)
       (takeWhile (\<lambda>n. node_start n < getEndAddress region) post))) (m, s))"
proof (induction post arbitrary: m s pre)
  case Nil
  then show ?case by (simp add: processIntersecting_loop.simps)
next
  case (Cons n post)
  note here = it_next_mid [OF Cons.prems] region_at_mid [OF Cons.prems]
  show ?case
  proof (cases "node_start n < getEndAddress region \<and> node_hits region n")
    case hit: True
    show ?thesis
    proof (cases "processor (fst n) (m, s)")
      case (Inr r)
      obtain c m' s' where r: "r = (c, m', s')" by (cases r) auto
      obtain pre' where "map_ok m'" "rm_nodes m' = pre' @ post"
        using keeps_later [OF Cons.prems Inr [unfolded r]] by blast
      with Cons.IH show ?thesis using here hit Inr r
        by (subst processIntersecting_loop.simps) (simp add: result_bind_def node_misses)
    qed (use here hit in \<open>subst processIntersecting_loop.simps, simp add: result_bind_def node_misses\<close>)
  next
    case False
    have "rm_nodes m = (pre @ [n]) @ post" using Cons.prems(2) by simp
    with False Cons.IH [OF Cons.prems(1)] here show ?thesis
      by (subst processIntersecting_loop.simps) (auto simp: node_misses)
  qed
qed

lemma processAll_visits: "map_ok m \<Longrightarrow> processAll processor (m, s) = Some (visit processor (map fst (rm_nodes m)) (m, s))"
  using all_loop [of m "[]" "rm_nodes m"] by (simp add: processAll_def it_begin_def)

end

text \<open>The searches find exactly the nodes that intersect.\<close>

lemma exists_from_iff:
  "exists_from region condition xs \<longleftrightarrow>
     list_ex (\<lambda>n. condition (fst n)) (filter (node_hits region) (takeWhile (\<lambda>n. node_start n < getEndAddress region) xs))"
  by (induction xs) (simp_all add: node_misses)

context ordered_set
begin

lemma first_position_hits:
  assumes "map_ok m" "region_ok region"
  obtains pre post where "rm_nodes m = pre @ post" "first_position avl region m = it_of post"
    "filter (node_hits region) (takeWhile (\<lambda>n. node_start n < getEndAddress region) post) =
      filter (node_hits region) (rm_nodes m)"
proof -
  obtain pre post where split: "rm_nodes m = pre @ post" "first_position avl region m = it_of post"
    and before: "\<forall>n \<in> set pre. end_of (snd n) \<le> start_of region"
    using first_position_split [OF assms] by metis
  have ok: "nodes_ok pre" "nodes_ok post" using assms(1) split(1) by (simp_all add: map_ok_def nodes_ok_append)
  then have "\<forall>n \<in> set pre. \<not> node_hits region n"
    using before assms(2) by (simp add: node_hits_iff nodes_ok_region [OF ok(1)] leD)
  then have "filter (node_hits region) (rm_nodes m) = filter (node_hits region) post"
    using split(1) by (simp add: filter_empty_conv)
  then show thesis using that [OF split] hits_before_end [OF ok(2) assms(2)] by simp
qed

lemma exists_in_iff:
  assumes "map_ok m" "region_ok region"
  shows "exists_in avl region condition m \<longleftrightarrow> (\<exists>n \<in> set (rm_nodes m). node_hits region n \<and> condition (fst n))"
proof -
  obtain pre post where split: "rm_nodes m = pre @ post" "first_position avl region m = it_of post"
    and hits: "filter (node_hits region) (takeWhile (\<lambda>n. node_start n < getEndAddress region) post) =
      filter (node_hits region) (rm_nodes m)"
    using first_position_hits [OF assms] by metis
  have "exists_in avl region condition m = list_ex (\<lambda>n. condition (fst n)) (filter (node_hits region) (rm_nodes m))"
    using nodes_from_mid [OF assms(1) split(1)] split(2) hits by (simp add: exists_in_def exists_from_iff)
  then show ?thesis by (auto simp: list_ex_iff)
qed

end

locale map_processor = ordered_set avl + node_processor processor
  for avl :: avl_ops and processor :: "('c, 's) processor"
begin

lemma processIntersecting_visits:
  assumes "map_ok m" "region_ok region"
  shows "processIntersecting avl region processor (m, s) =
    Some (visit processor (map fst (filter (node_hits region) (rm_nodes m))) (m, s))"
proof -
  obtain pre post where "rm_nodes m = pre @ post" "first_position avl region m = it_of post"
    "filter (node_hits region) (takeWhile (\<lambda>n. node_start n < getEndAddress region) post) =
      filter (node_hits region) (rm_nodes m)"
    using first_position_hits [OF assms] by metis
  then show ?thesis using intersecting_loop [OF assms(1)] by (simp add: processIntersecting_def)
qed

end

section \<open>Fragmentation\<close>

text \<open>The parts of a region before and after another one, and all its parts.\<close>

definition left_part :: "DataAccessRegion \<Rightarrow> DataAccessRegion \<Rightarrow> DataAccessRegion list" where
  "left_part region r = (if dr_startAddress r < dr_startAddress region
     then [DataAccessRegion_new (dr_startAddress r) (dr_startAddress region)] else [])"

definition right_part :: "DataAccessRegion \<Rightarrow> DataAccessRegion \<Rightarrow> DataAccessRegion list" where
  "right_part region r = (if getEndAddress region < getEndAddress r
     then [DataAccessRegion_new (getEndAddress region) (getEndAddress r)] else [])"

definition cut :: "DataAccessRegion \<Rightarrow> DataAccessRegion \<Rightarrow> DataAccessRegion list" where
  "cut region r = (if region_empty (region_intersect region r) then [r]
     else left_part region r @ [region_intersect r region] @ right_part region r)"

lemma intersect_between:
  assumes "region_ok region" "region_ok r" "\<not> region_empty (region_intersect region r)"
  shows "region_ok (region_intersect r region)"
    "start_of (region_intersect r region) = max (start_of r) (start_of region)"
    "end_of (region_intersect r region) = min (end_of r) (end_of region)"
    "max (start_of r) (start_of region) < min (end_of r) (end_of region)"
proof -
  have lt: "max (start_of r) (start_of region) < min (end_of r) (end_of region)"
    using assms(3) start_less_end [OF assms(1)] start_less_end [OF assms(2)]
    by (auto simp: intersect_empty_iff [OF assms(1,2)])
  then have "max (dr_startAddress r) (dr_startAddress region) < min (getEndAddress r) (getEndAddress region)"
    by (simp add: word_less_nat_alt unat_max unat_min)
  note new = region_new [OF this]
  show "region_ok (region_intersect r region)"
    "start_of (region_intersect r region) = max (start_of r) (start_of region)"
    "end_of (region_intersect r region) = min (end_of r) (end_of region)"
    using lt new by (simp_all add: region_intersect_def Let_def word_less_nat_alt unat_max unat_min)
  show "max (start_of r) (start_of region) < min (end_of r) (end_of region)" by (rule lt)
qed

lemma fragments_in_order:
  assumes "region_ok region" "region_ok r" "\<not> region_empty (region_intersect region r)"
  shows "processIntersectingFragments r region out ins (\<lambda>_ s. Inr s) s =
    result_bind (ins (region_intersect r region) s) (\<lambda>s1.
    result_bind (case left_part region r of [] \<Rightarrow> Inr s1 | q # _ \<Rightarrow> out q s1) (\<lambda>s2.
    case right_part region r of [] \<Rightarrow> Inr s2 | q # _ \<Rightarrow> out q s2))"
proof -
  note lt = intersect_between(4) [OF assms]
  then have "max (dr_startAddress r) (dr_startAddress region) < min (getEndAddress r) (getEndAddress region)"
    by (simp add: word_less_nat_alt unat_max unat_min)
  moreover have "(dr_startAddress r < max (dr_startAddress r) (dr_startAddress region)) = (dr_startAddress r < dr_startAddress region)"
    "(min (getEndAddress r) (getEndAddress region) < getEndAddress r) = (getEndAddress region < getEndAddress r)"
    by (auto simp: max_def min_def)
  moreover have "dr_startAddress r < dr_startAddress region \<Longrightarrow> max (dr_startAddress r) (dr_startAddress region) = dr_startAddress region"
    "getEndAddress region < getEndAddress r \<Longrightarrow> min (getEndAddress r) (getEndAddress region) = getEndAddress region"
    by (auto simp: max_def min_def)
  ultimately show ?thesis
    by (simp add: processIntersectingFragments_def left_part_def right_part_def region_intersect_def Let_def)
qed

context ordered_set
begin

lemma insert_in_gap:
  assumes ok: "map_ok m" and m: "rm_nodes m = pre @ post" and r: "region_ok region"
    and before: "\<forall>x \<in> set pre. end_of (snd x) \<le> start_of region"
    and after: "\<forall>x \<in> set post. end_of region \<le> start_of (snd x)"
  shows "\<exists>m'. insert_node avl region c m = (rm_next m, m') \<and> map_ok m' \<and>
    rm_nodes m' = pre @ (rm_next m, region) # post \<and> rm_next m' = Suc (rm_next m)"
proof -
  have nodes: "nodes_ok pre" "nodes_ok post" using ok m by (simp_all add: map_ok_def nodes_ok_append)
  have pre: "node_start x < dr_startAddress region" if "x \<in> set pre" for x
    using start_less_end [OF nodes_ok_region [OF nodes(1) that]] before that by (force simp: word_less_nat_alt)
  have post: "dr_startAddress region < node_start x" if "x \<in> set post" for x
    using start_less_end [OF r] after that by (force simp: word_less_nat_alt)
  have "dropWhile (\<lambda>x. node_start x < dr_startAddress region) post = post"
    "takeWhile (\<lambda>x. node_start x < dr_startAddress region) post = []"
    using post by (cases post; fastforce)+
  then have tw: "takeWhile (\<lambda>x. node_start x < dr_startAddress region) (pre @ post) = pre"
    "dropWhile (\<lambda>x. node_start x < dr_startAddress region) (pre @ post) = post"
    using pre by (simp_all add: takeWhile_append2 dropWhile_append2)
  have "by_start (pre @ post)" using ok m nodes_ok_by_start by (simp add: map_ok_def)
  moreover have "dr_startAddress region \<notin> node_start ` set (pre @ post)" using pre post by fastforce
  ultimately have "as_insert avl (rm_next m, region) (pre @ post) = pre @ (rm_next m, region) # post"
    using insert [of "pre @ post" "(rm_next m, region)"] tw by simp
  moreover have "rm_next m \<notin> fst ` set (pre @ post)" using ok m by (force simp: map_ok_def list_all_iff)
  then have "nodes_ok (pre @ (rm_next m, region) # post)"
    using ok m r before after by (simp add: map_ok_def nodes_ok_append image_Un)
  moreover have "list_all (\<lambda>n. fst n < Suc (rm_next m)) (pre @ (rm_next m, region) # post)"
    using ok m by (auto simp: map_ok_def list_all_iff intro: less_SucI)
  ultimately show ?thesis using m by (simp add: insert_node_def map_ok_def)
qed

end

lemma map_other: "k \<notin> fst ` set xs \<Longrightarrow> map (\<lambda>x. if fst x = k then y else x) xs = xs"
  by (induction xs) auto

lemma filter_other: "k \<notin> fst ` set xs \<Longrightarrow> filter (\<lambda>x. fst x \<noteq> k) xs = xs"
  by (induction xs) auto

lemma shrink_node:
  assumes ok: "map_ok m" and m: "rm_nodes m = pre @ n # post" and r: "region_ok region"
    and inside: "start_of (snd n) \<le> start_of region" "end_of region \<le> end_of (snd n)"
  shows "map_ok (setAccessRegion (fst n) region m) \<and>
    rm_nodes (setAccessRegion (fst n) region m) = pre @ (fst n, region) # post"
proof -
  have "map (\<lambda>x. if fst x = fst n then (fst n, region) else x) (pre @ n # post) = pre @ (fst n, region) # post"
    using ok m by (simp add: map_ok_def nodes_ok_append map_other)
  then have "rm_nodes (setAccessRegion (fst n) region m) = pre @ (fst n, region) # post"
    using m by (simp add: setAccessRegion_def)
  moreover have "nodes_ok (pre @ (fst n, region) # post)"
    using ok m r inside by (fastforce simp: map_ok_def nodes_ok_append)
  ultimately show ?thesis using ok m by (simp add: map_ok_def) (simp add: setAccessRegion_def)
qed

text \<open>The lambdas of a caller: the postprocessor may change contents, not the regions.\<close>

locale fragmenter = ordered_set avl
  for avl :: avl_ops +
  fixes duplicator :: "'c \<Rightarrow> 'c" and postprocessor :: "nat \<Rightarrow> nat \<Rightarrow> ('c, 's) map_state \<Rightarrow> ('c, 's) map_state"
  assumes post_keeps: "postprocessor p q (m, s) = (m', s') \<Longrightarrow> rm_nodes m' = rm_nodes m \<and> rm_next m \<le> rm_next m'"
begin

lemma post_ok:
  assumes "postprocessor p q (m, s) = (m', s')" "map_ok m"
  shows "map_ok m' \<and> rm_nodes m' = rm_nodes m"
  using post_keeps [OF assms(1)] assms(2) by (auto simp: map_ok_def list_all_iff intro: less_le_trans)

lemma outside_in_gap:
  assumes "map_ok m" "rm_nodes m = pre @ post" "region_ok region"
    and "\<forall>x \<in> set pre. end_of (snd x) \<le> start_of region" "\<forall>x \<in> set post. end_of region \<le> start_of (snd x)"
  shows "\<exists>k m' s'. fragment_outside avl duplicator postprocessor position region (True, ip, m, s) = Inr (True, ip, m', s') \<and>
    map_ok m' \<and> rm_nodes m' = pre @ (k, region) # post"
proof -
  obtain m1 where i: "insert_node avl region (duplicator (rm_contents m position)) m = (rm_next m, m1)"
    "map_ok m1" "rm_nodes m1 = pre @ (rm_next m, region) # post"
    using insert_in_gap [OF assms] by blast
  obtain m' s' where p: "postprocessor (rm_next m) position (m1, s) = (m', s')" by fastforce
  with i post_ok [OF p i(2)] show ?thesis by (auto simp: fragment_outside_def)
qed

lemma parts_in_gap:
  assumes "map_ok m" "rm_nodes m = pre @ post" "list_all region_ok parts" "length parts \<le> 1"
    and "\<forall>r \<in> set parts. (\<forall>x \<in> set pre. end_of (snd x) \<le> start_of r) \<and> (\<forall>x \<in> set post. end_of r \<le> start_of (snd x))"
  shows "\<exists>new m' s'. (case parts of [] \<Rightarrow> Inr (True, ip, m, s)
      | q # _ \<Rightarrow> fragment_outside avl duplicator postprocessor position q (True, ip, m, s)) = Inr (True, ip, m', s') \<and>
    map_ok m' \<and> rm_nodes m' = pre @ new @ post \<and> map snd new = parts"
proof (cases parts)
  case Nil
  then show ?thesis using assms(1,2) by auto
next
  case (Cons q qs)
  then have "qs = []" using assms(4) by simp
  have "region_ok q" "\<forall>x \<in> set pre. end_of (snd x) \<le> start_of q" "\<forall>x \<in> set post. end_of q \<le> start_of (snd x)"
    using assms(3,5) Cons by simp_all
  from outside_in_gap [OF assms(1,2) this, of position ip s] obtain k m' s' where
    "fragment_outside avl duplicator postprocessor position q (True, ip, m, s) = Inr (True, ip, m', s')"
    "map_ok m'" "rm_nodes m' = pre @ [(k, q)] @ post" by auto
  then show ?thesis using Cons \<open>qs = []\<close> by (intro exI [of _ "[(k, q)]"]) auto
qed

lemma parts_ok:
  assumes "region_ok region" "region_ok r" "\<not> region_empty (region_intersect region r)"
  shows "list_all region_ok (left_part region r)" "length (left_part region r) \<le> 1"
    "\<forall>q \<in> set (left_part region r). start_of q = start_of r \<and> end_of q = start_of (region_intersect r region)"
    "list_all region_ok (right_part region r)" "length (right_part region r) \<le> 1"
    "\<forall>q \<in> set (right_part region r). end_of q = end_of r \<and> start_of q = end_of (region_intersect r region)"
  using intersect_between [OF assms]
  by (auto simp: left_part_def right_part_def region_new word_less_nat_alt)

text \<open>Cutting a node replaces it by its parts; the one inside the region keeps its name.\<close>

lemma fragment_cuts:
  assumes ok: "map_ok m" and m: "rm_nodes m = pre @ n # post" and region: "region_ok region"
    and hit: "node_hits region n"
  shows "\<exists>mid m' s'. fragmentByIntersection avl (fst n) region False duplicator postprocessor (m, s) =
      Inr (Some (fst n), m', s') \<and>
    map_ok m' \<and> rm_nodes m' = pre @ mid @ post \<and> map snd mid = cut region (snd n)"
proof -
  let ?r = "snd n" let ?i = "region_intersect ?r region" let ?p = "fst n"
  have r: "region_ok ?r" using ok m by (simp add: map_ok_def nodes_ok_append)
  have h: "\<not> region_empty (region_intersect region ?r)" using hit by (simp add: node_hits_def)
  note i = intersect_between [OF region r h]
  note parts = parts_ok [OF region r h]
  have order: "\<forall>x \<in> set pre. end_of (snd x) \<le> start_of ?r" "\<forall>x \<in> set post. end_of ?r \<le> start_of (snd x)"
    using ok m by (simp_all add: map_ok_def nodes_ok_append)
  have m0: "map_ok (setAccessRegion ?p ?i m)" "rm_nodes (setAccessRegion ?p ?i m) = pre @ (?p, ?i) # post"
    using shrink_node [OF ok m i(1)] i(2,3) by simp_all
  obtain m1 s1 where p1: "postprocessor ?p ?p (setAccessRegion ?p ?i m, s) = (m1, s1)" by fastforce
  with post_ok [OF p1 m0(1)] m0(2) have m1: "map_ok m1" "rm_nodes m1 = pre @ (?p, ?i) # post" by simp_all
  then have inside: "fragment_inside avl duplicator postprocessor ?p False ?i (False, None, m, s) = Inr (True, Some ?p, m1, s1)"
    using p1 region_at_mid [OF m1] by (simp add: fragment_inside_def)
  obtain lnew m2 s2 where left: "(case left_part region ?r of [] \<Rightarrow> Inr (True, Some ?p, m1, s1)
      | q # _ \<Rightarrow> fragment_outside avl duplicator postprocessor ?p q (True, Some ?p, m1, s1)) = Inr (True, Some ?p, m2, s2)"
    and m2: "map_ok m2" "rm_nodes m2 = (pre @ lnew @ [(?p, ?i)]) @ post" "map snd lnew = left_part region ?r"
    using parts_in_gap [OF m1(1), of pre "(?p, ?i) # post" "left_part region ?r" "Some ?p" s1 ?p] m1(2) parts order i
    by fastforce
  have gap: "\<forall>q \<in> set (right_part region ?r). (\<forall>x \<in> set (pre @ lnew @ [(?p, ?i)]). end_of (snd x) \<le> start_of q) \<and>
      (\<forall>x \<in> set post. end_of q \<le> start_of (snd x))"
  proof -
    have "end_of (snd x) \<le> end_of ?i" if "x \<in> set (pre @ lnew @ [(?p, ?i)])" for x
    proof -
      have "region_ok (snd x) \<and> end_of (snd x) \<le> start_of ?i \<or> x = (?p, ?i)"
        using that m2(1,2) by (auto simp: map_ok_def nodes_ok_append intro: nodes_ok_region)
      then show ?thesis using start_less_end [OF i(1)] by auto
    qed
    then show ?thesis using parts(6) order(2) by auto
  qed
  obtain rnew m3 s3 where right: "(case right_part region ?r of [] \<Rightarrow> Inr (True, Some ?p, m2, s2)
      | q # _ \<Rightarrow> fragment_outside avl duplicator postprocessor ?p q (True, Some ?p, m2, s2)) = Inr (True, Some ?p, m3, s3)"
    and m3: "map_ok m3" "rm_nodes m3 = (pre @ lnew @ [(?p, ?i)]) @ rnew @ post" "map snd rnew = right_part region ?r"
    using parts_in_gap [OF m2(1,2) parts(4,5) gap, of "Some ?p" s2 ?p] by auto
  have "region_at m3 ?p = Some ?i" using region_at_mid [OF m3(1), of "pre @ lnew" "(?p, ?i)" "rnew @ post"] m3(2) by simp
  then have "fragmentByIntersection avl ?p region False duplicator postprocessor (m, s) = Inr (Some ?p, m3, s3)"
    using region_at_mid [OF ok m] inside left right by (simp add: fragmentByIntersection_def fragments_in_order [OF region r h])
  moreover have "map snd (lnew @ [(?p, ?i)] @ rnew) = cut region ?r" using m2(3) m3(3) h by (simp add: cut_def)
  ultimately show ?thesis using m3(1,2) by (intro exI [of _ "lnew @ [(?p, ?i)] @ rnew"]) auto
qed

lemma fragment_removes:
  assumes ok: "map_ok m" and m: "rm_nodes m = pre @ n # post" and region: "region_ok region"
    and hit: "node_hits region n"
  shows "\<exists>mid m' s'. fragmentByIntersection avl (fst n) region True duplicator postprocessor (m, s) = Inr (None, m', s') \<and>
    map_ok m' \<and> rm_nodes m' = pre @ mid @ post \<and> map snd mid = left_part region (snd n) @ right_part region (snd n)"
proof -
  let ?r = "snd n" let ?i = "region_intersect ?r region" let ?p = "fst n"
  have r: "region_ok ?r" using ok m by (simp add: map_ok_def nodes_ok_append)
  have h: "\<not> region_empty (region_intersect region ?r)" using hit by (simp add: node_hits_def)
  note i = intersect_between [OF region r h]
  note parts = parts_ok [OF region r h]
  have order: "\<forall>x \<in> set pre. end_of (snd x) \<le> start_of ?r" "\<forall>x \<in> set post. end_of ?r \<le> start_of (snd x)"
    using ok m by (simp_all add: map_ok_def nodes_ok_append)
  have "fst n \<notin> fst ` set pre" "fst n \<notin> fst ` set post" using ok m by (simp_all add: map_ok_def nodes_ok_append)
  then have "filter (\<lambda>x. fst x \<noteq> ?p) pre = pre" "filter (\<lambda>x. fst x \<noteq> ?p) post = post"
    by (simp_all add: filter_other)
  then have m1: "map_ok (erase_node ?p m)" "rm_nodes (erase_node ?p m) = pre @ post"
    using ok m by (simp_all add: erase_node_def map_ok_def nodes_ok_append)
  obtain lnew m2 s2 where left: "(case left_part region ?r of [] \<Rightarrow> Inr (True, None, erase_node ?p m, s)
      | q # _ \<Rightarrow> fragment_outside avl duplicator postprocessor ?p q (True, None, erase_node ?p m, s)) = Inr (True, None, m2, s2)"
    and m2: "map_ok m2" "rm_nodes m2 = (pre @ lnew) @ post" "map snd lnew = left_part region ?r"
    using parts_in_gap [OF m1(1), of pre post "left_part region ?r" None s ?p] m1(2) parts order i
    by fastforce
  have gap: "\<forall>q \<in> set (right_part region ?r). (\<forall>x \<in> set (pre @ lnew). end_of (snd x) \<le> start_of q) \<and>
      (\<forall>x \<in> set post. end_of q \<le> start_of (snd x))"
  proof -
    have "end_of (snd x) \<le> end_of ?i" if "x \<in> set (pre @ lnew)" for x
    proof -
      have "snd x \<in> set (left_part region ?r)" if "x \<in> set lnew"
        using that by (metis m2(3) image_eqI list.set_map)
      then show ?thesis using that order(1) parts(3) i start_less_end [OF i(1)] by fastforce
    qed
    then show ?thesis using parts(6) order(2) by auto
  qed
  obtain rnew m3 s3 where right: "(case right_part region ?r of [] \<Rightarrow> Inr (True, None, m2, s2)
      | q # _ \<Rightarrow> fragment_outside avl duplicator postprocessor ?p q (True, None, m2, s2)) = Inr (True, None, m3, s3)"
    and m3: "map_ok m3" "rm_nodes m3 = (pre @ lnew) @ rnew @ post" "map snd rnew = right_part region ?r"
    using parts_in_gap [OF m2(1,2) parts(4,5) gap, of None s2 ?p] by auto
  have "fragmentByIntersection avl ?p region True duplicator postprocessor (m, s) = Inr (None, m3, s3)"
    using region_at_mid [OF ok m] left right
    by (simp add: fragmentByIntersection_def fragments_in_order [OF region r h] fragment_inside_def)
  then show ?thesis using m2(3) m3 by (intro exI [of _ "lnew @ rnew"]) auto
qed

text \<open>Fragmenting all nodes that intersect a region.\<close>

definition fragment_processor :: "DataAccessRegion \<Rightarrow> ('c, 's) processor" where
  "fragment_processor region position st =
     result_bind (fragmentByIntersection avl position region False duplicator postprocessor st) (\<lambda>(_, st1). Inr (True, st1))"

lemma fragment_needs_hit:
  assumes "map_ok m" "rm_nodes m = pre @ n # post" "region_ok region"
    and "fragmentByIntersection avl (fst n) region False duplicator postprocessor (m, s) = Inr r"
  shows "node_hits region n"
proof (rule ccontr)
  assume "\<not> node_hits region n"
  moreover have "region_ok (snd n)" using assms(1,2) by (simp add: map_ok_def nodes_ok_append)
  ultimately have "end_of region \<le> start_of (snd n) \<or> end_of (snd n) \<le> start_of region"
    using intersect_empty_iff [OF assms(3)] by (simp add: node_hits_def)
  then have "\<not> max (dr_startAddress (snd n)) (dr_startAddress region) < min (getEndAddress (snd n)) (getEndAddress region)"
    by (auto simp: word_less_nat_alt unat_max unat_min)
  then show False using assms(4) region_at_mid [OF assms(1,2)]
    by (simp add: fragmentByIntersection_def processIntersectingFragments_def Let_def)
qed

lemma fragment_processor_keeps:
  assumes "region_ok region"
  shows "node_processor (fragment_processor region)"
proof
  fix m :: "'c region_map" and pre n post s c m' s'
  assume m: "map_ok m" "rm_nodes m = pre @ n # post"
    and run: "fragment_processor region (fst n) (m, s) = Inr (c, m', s')"
  then have "node_hits region n"
    using fragment_needs_hit [OF m assms] by (auto simp: fragment_processor_def)
  from fragment_cuts [OF m assms this, of s] run show "map_ok m' \<and> (\<exists>pre'. rm_nodes m' = pre' @ post)"
    by (auto simp: fragment_processor_def)
qed

lemma visit_fragments:
  assumes "region_ok region"
  shows "map_ok m \<Longrightarrow> rm_nodes m = pre @ post \<Longrightarrow>
    \<exists>new m' s'. visit (fragment_processor region) (map fst (filter (node_hits region) post)) (m, s) = Inr (True, m', s') \<and>
      map_ok m' \<and> rm_nodes m' = pre @ new \<and> map snd new = concat (map (cut region) (map snd post))"
proof (induction post arbitrary: m s pre)
  case Nil
  then show ?case by simp
next
  case (Cons n post)
  show ?case
  proof (cases "node_hits region n")
    case True
    obtain mid m1 s1 where f: "fragmentByIntersection avl (fst n) region False duplicator postprocessor (m, s) = Inr (Some (fst n), m1, s1)"
      "map_ok m1" "rm_nodes m1 = (pre @ mid) @ post" "map snd mid = cut region (snd n)"
      using fragment_cuts [OF Cons.prems assms True, of s] by auto
    with True Cons.IH [OF f(2,3), of s1] show ?thesis
      by (force simp: fragment_processor_def intro: exI [of _ "mid @ new" for new])
  next
    case False
    have "rm_nodes m = (pre @ [n]) @ post" using Cons.prems(2) by simp
    from Cons.IH [OF Cons.prems(1) this, of s] False show ?thesis
      by (force simp: cut_def node_hits_def)
  qed
qed

lemma fragmentIntersecting_cuts:
  assumes "map_ok m" "region_ok region"
  shows "\<exists>m' s'. fragmentIntersecting avl region duplicator postprocessor (m, s) = Some (Inr (True, m', s')) \<and>
    map_ok m' \<and> map snd (rm_nodes m') = concat (map (cut region) (map snd (rm_nodes m)))"
proof -
  have "map_processor avl (fragment_processor region)"
    using fragment_processor_keeps [OF assms(2)] ordered_set_axioms by (simp add: map_processor_def)
  from map_processor.processIntersecting_visits [OF this assms]
  have "fragmentIntersecting avl region duplicator postprocessor (m, s) =
      Some (visit (fragment_processor region) (map fst (filter (node_hits region) (rm_nodes m))) (m, s))"
    by (simp add: fragmentIntersecting_def fragment_processor_def [abs_def])
  with visit_fragments [OF assms(2,1), of "[]" "rm_nodes m" s] show ?thesis by auto
qed

end

end
