(* ===== verification/N6_RegionTiling.thy ===== *)
theory N6_RegionTiling
  imports N6_RegionMapProofs
begin

text \<open>
  The traversal \<open>processIntersectingAndMissing\<close>: the nodes it visits, clipped to the region, and the
  missing pieces it reports are consecutive intervals that make up the region.
\<close>

section \<open>Tiles\<close>

datatype tile = Missing DataAccessRegion | Hit nat

fun tiles :: "DataAccessRegion \<Rightarrow> size_t \<Rightarrow> node list \<Rightarrow> tile list" where
  "tiles region lastEnd [] =
     (if lastEnd < getEndAddress region then [Missing (DataAccessRegion_new lastEnd (getEndAddress region))] else [])"
| "tiles region lastEnd (n # rest) =
     (if node_start n < getEndAddress region
      then (if lastEnd < node_start n then [Missing (DataAccessRegion_new lastEnd (node_start n))] else []) @
           Hit (fst n) # tiles region (min (node_end n) (getEndAddress region)) rest
      else tiles region lastEnd [])"

fun visit_tiles ::
  "('c, 's) processor \<Rightarrow> ('c, 's) missing_processor \<Rightarrow> tile list \<Rightarrow> ('c, 's) map_state \<Rightarrow>
     (bool \<times> ('c, 's) map_state) result" where
  "visit_tiles intersecting missing [] st = Inr (True, st)"
| "visit_tiles intersecting missing (t # ts) st =
     result_bind (case t of Missing r \<Rightarrow> missing r st | Hit p \<Rightarrow> intersecting p st)
       (\<lambda>(cont, st1). if cont then visit_tiles intersecting missing ts st1 else Inr (False, st1))"

lemma region_new_self: "region_ok region \<Longrightarrow> DataAccessRegion_new (dr_startAddress region) (getEndAddress region) = region"
  by (simp add: DataAccessRegion_new_def getEndAddress_def)

text \<open>The bounds of a tile, and intervals that follow one another from \<open>a\<close> to \<open>b\<close>.\<close>

fun tile_bounds :: "DataAccessRegion \<Rightarrow> node list \<Rightarrow> tile \<Rightarrow> nat \<times> nat" where
  "tile_bounds region xs (Missing r) = (start_of r, end_of r)"
| "tile_bounds region xs (Hit p) =
     (case map_of xs p of None \<Rightarrow> (0, 0)
      | Some r \<Rightarrow> (max (start_of r) (start_of region), min (end_of r) (end_of region)))"

fun consecutive :: "nat \<Rightarrow> nat \<Rightarrow> (nat \<times> nat) list \<Rightarrow> bool" where
  "consecutive a b [] = (a = b)"
| "consecutive a b ((x, y) # rest) = (x = a \<and> x < y \<and> consecutive y b rest)"

lemma tiles_hits: "Hit p \<in> set (tiles region a xs) \<Longrightarrow> p \<in> fst ` set xs"
  by (induction xs arbitrary: a) (auto split: if_splits)

lemma tile_bounds_later:
  assumes "fst n \<notin> fst ` set xs"
  shows "map (tile_bounds region (n # xs)) (tiles region a xs) = map (tile_bounds region xs) (tiles region a xs)"
proof (rule map_cong [OF refl])
  fix t assume t: "t \<in> set (tiles region a xs)"
  show "tile_bounds region (n # xs) t = tile_bounds region xs t"
  proof (cases t)
    case (Hit p)
    then have "p \<in> fst ` set xs" using tiles_hits t by blast
    then have "p \<noteq> fst n" using assms by metis
    then show ?thesis using Hit by simp
  qed simp
qed

lemma tiles_consecutive:
  assumes "nodes_ok xs" "\<forall>x \<in> set xs. start_of region < end_of (snd x)" "region_ok region"
    and "\<forall>x \<in> set xs. lastEnd \<le> node_start x \<or> lastEnd = dr_startAddress region"
    and "dr_startAddress region \<le> lastEnd" "lastEnd \<le> getEndAddress region"
  shows "consecutive (unat lastEnd) (end_of region) (map (tile_bounds region xs) (tiles region lastEnd xs))"
  using assms
proof (induction xs arbitrary: lastEnd)
  case Nil
  then show ?case using region_new [of lastEnd "getEndAddress region"] by (auto simp: word_le_nat_alt word_less_nat_alt)
next
  case (Cons n xs)
  show ?case
  proof (cases "node_start n < getEndAddress region")
    case False
    then show ?thesis using Cons.prems region_new [of lastEnd "getEndAddress region"]
      by (auto simp: word_le_nat_alt word_less_nat_alt)
  next
    case True
    let ?last = "min (node_end n) (getEndAddress region)"
    have order: "\<forall>x \<in> set xs. node_end n \<le> node_start x" and n: "region_ok (snd n)" "fst n \<notin> fst ` set xs"
      using Cons.prems(1) by (auto simp: word_le_nat_alt)
    have hit: "start_of region < end_of (snd n)" using Cons.prems(2) by simp
    have IH: "consecutive (unat ?last) (end_of region) (map (tile_bounds region xs) (tiles region ?last xs))"
      using Cons.prems order hit start_less_end [OF assms(3)]
      by (intro Cons.IH) (auto simp: word_le_nat_alt min_def)
    have IH': "consecutive (unat ?last) (end_of region) (map (tile_bounds region (n # xs)) (tiles region ?last xs))"
      using IH by (simp only: tile_bounds_later [OF n(2)])
    have bounds: "tile_bounds region (n # xs) (Hit (fst n)) = (max (start_of (snd n)) (start_of region), unat ?last)"
      by (simp add: unat_min)
    have lt: "max (start_of (snd n)) (start_of region) < unat ?last"
      using True hit start_less_end [OF n(1)] start_less_end [OF assms(3)] by (simp add: word_less_nat_alt unat_min)
    show ?thesis
    proof (cases "lastEnd < node_start n")
      case gap: True
      then have "max (start_of (snd n)) (start_of region) = start_of (snd n)"
        using Cons.prems(5) by (simp add: word_less_nat_alt word_le_nat_alt)
      then show ?thesis
        using gap True IH' bounds lt region_new [OF gap] by (simp add: word_less_nat_alt)
    next
      case False
      then have "max (start_of (snd n)) (start_of region) = unat lastEnd"
        using Cons.prems(4,5) by (auto simp: word_less_nat_alt word_le_nat_alt)
      then show ?thesis using False True IH' bounds lt by simp
    qed
  qed
qed

section \<open>The traversal visits the tiles\<close>

locale tile_processors =
  fixes intersecting :: "('c, 's) processor" and missing :: "('c, 's) missing_processor"
  assumes intersecting_keeps: "map_ok m \<Longrightarrow> rm_nodes m = pre @ n # post \<Longrightarrow>
      intersecting (fst n) (m, s) = Inr (c, m', s') \<Longrightarrow>
      map_ok m' \<and> (\<exists>pre'. rm_nodes m' = pre' @ post \<and> (\<forall>x \<in> set pre'. end_of (snd x) \<le> end_of (snd n)))"
    and missing_keeps: "map_ok m \<Longrightarrow> rm_nodes m = pre @ post \<Longrightarrow> region_ok r \<Longrightarrow>
      \<forall>x \<in> set pre. end_of (snd x) \<le> start_of r \<Longrightarrow> \<forall>x \<in> set post. end_of r \<le> start_of (snd x) \<Longrightarrow>
      missing r (m, s) = Inr (c, m', s') \<Longrightarrow>
      map_ok m' \<and> (\<exists>pre'. rm_nodes m' = pre' @ post \<and> (\<forall>x \<in> set pre'. end_of (snd x) \<le> end_of r))"
begin

text \<open>What is known when the traversal stands before the nodes of \<open>post\<close>.\<close>

definition standing :: "DataAccessRegion \<Rightarrow> size_t \<Rightarrow> 'c region_map \<Rightarrow> node list \<Rightarrow> node list \<Rightarrow> bool" where
  "standing region lastEnd m pre post \<longleftrightarrow> map_ok m \<and> rm_nodes m = pre @ post \<and>
     ((\<forall>x \<in> set pre. end_of (snd x) \<le> unat lastEnd) \<or> lastEnd = getEndAddress region) \<and>
     (\<forall>x \<in> set post. lastEnd \<le> node_start x \<or> node_start x < dr_startAddress region)"

lemma after_missing:
  assumes st: "standing region lastEnd m pre post" and lt: "lastEnd < b"
    and before: "\<forall>x \<in> set post. b \<le> node_start x" and b: "b \<le> getEndAddress region"
    and run: "missing (DataAccessRegion_new lastEnd b) (m, s) = Inr (c, m', s')"
  shows "\<exists>pre'. map_ok m' \<and> rm_nodes m' = pre' @ post"
proof -
  have "lastEnd \<noteq> getEndAddress region" using lt b by auto
  then have pre: "\<forall>x \<in> set pre. end_of (snd x) \<le> unat lastEnd" using st by (simp add: standing_def)
  note new = region_new [OF lt]
  have "\<forall>x \<in> set post. end_of (DataAccessRegion_new lastEnd b) \<le> start_of (snd x)"
    using before new by (simp add: word_le_nat_alt)
  with missing_keeps [of m pre post "DataAccessRegion_new lastEnd b" s c m' s'] st pre new run
  show ?thesis by (auto simp: standing_def)
qed

lemma tiles_loop:
  "standing region lastEnd m pre post \<Longrightarrow>
   intersectingAndMissing_loop region intersecting missing (it_of post) lastEnd (m, s) =
     Some (visit_tiles intersecting missing (tiles region lastEnd post) (m, s))"
proof (induction post arbitrary: lastEnd m s pre)
  case Nil
  show ?case
    by (subst intersectingAndMissing_loop.simps)
      (auto simp: result_bind_def Let_def split: sum.splits prod.splits)
next
  case (Cons n post)
  have m: "map_ok m" "rm_nodes m = pre @ n # post" using Cons.prems by (simp_all add: standing_def)
  note here = region_at_mid [OF m] it_next_mid [OF m]
  show ?case
  proof (cases "node_start n < getEndAddress region")
    case False
    then show ?thesis using here
      by (subst intersectingAndMissing_loop.simps) (auto simp: result_bind_def Let_def split: sum.splits prod.splits)
  next
    case inside: True
    let ?miss = "if lastEnd < node_start n then missing (DataAccessRegion_new lastEnd (node_start n)) (m, s) else Inr (True, m, s)"
    have order: "\<forall>x \<in> set post. node_end n \<le> node_start x"
      using m by (auto simp: map_ok_def nodes_ok_append word_le_nat_alt)
    have n_ok: "region_ok (snd n)" using m by (simp add: map_ok_def nodes_ok_append)
    have le: "\<forall>x \<in> set (n # post). node_start n \<le> node_start x"
      using order start_less_end [OF n_ok] by (fastforce simp: word_le_nat_alt)
    have assertion: "node_end n \<le> getEndAddress region \<or> node_start n \<ge> lastEnd \<or> node_start n < dr_startAddress region"
      using Cons.prems by (auto simp: standing_def)
    show ?thesis
    proof (cases ?miss)
      case (Inl e)
      then show ?thesis using here inside
        by (subst intersectingAndMissing_loop.simps) (auto simp: Let_def split: if_splits)
    next
      case (Inr r)
      obtain c m1 s1 where r: "r = (c, m1, s1)" by (cases r) auto
      obtain pre1 where m1: "map_ok m1" "rm_nodes m1 = pre1 @ n # post"
      proof (cases "lastEnd < node_start n")
        case True
        then show ?thesis
          using after_missing [OF Cons.prems True le less_imp_le [OF inside], of s c m1 s1] Inr r that by auto
      qed (use Inr r m that in auto)
      show ?thesis
      proof (cases "c")
        case False
        then show ?thesis using here inside Inr r
          by (subst intersectingAndMissing_loop.simps) (auto simp: Let_def split: if_splits)
      next
        case c: True
        note here1 = region_at_mid [OF m1]
        let ?last = "min (node_end n) (getEndAddress region)"
        have next_loop: "intersectingAndMissing_loop region intersecting missing (it_of post) ?last (m2, s2) =
            Some (visit_tiles intersecting missing (tiles region ?last post) (m2, s2))"
          if run: "intersecting (fst n) (m1, s1) = Inr (c2, m2, s2)" for c2 m2 s2
        proof -
          obtain pre2 where m2: "map_ok m2" "rm_nodes m2 = pre2 @ post" "\<forall>x \<in> set pre2. end_of (snd x) \<le> end_of (snd n)"
            using intersecting_keeps [OF m1 run] by blast
          have "standing region ?last m2 pre2 post"
            using m2 order by (auto simp: standing_def min_def word_le_nat_alt)
          then show ?thesis by (rule Cons.IH)
        qed
        have min: "(if node_end n \<le> getEndAddress region then node_end n else getEndAddress region) = ?last"
          by (simp add: min_def)
        show ?thesis
        proof (cases "intersecting (fst n) (m1, s1)")
          case (Inl e)
          then show ?thesis using here here1 inside Inr r c assertion
            by (subst intersectingAndMissing_loop.simps) (auto simp: Let_def split: if_splits)
        next
          case I: (Inr r2)
          obtain c2 m2 s2 where r2: "r2 = (c2, m2, s2)" by (cases r2) auto
          show ?thesis using here here1 inside Inr r c assertion I r2 next_loop [of c2 m2 s2] min
            by (subst intersectingAndMissing_loop.simps) (auto simp: Let_def split: if_splits)
        qed
      qed
    qed
  qed
qed

end

locale tiled_map = ordered_set avl + tile_processors intersecting missing
  for avl :: avl_ops and intersecting :: "('c, 's) processor" and missing :: "('c, 's) missing_processor"
begin

lemma filter_from:
  assumes "map_ok m" "rm_nodes m = pre @ post" "region_ok region"
    and "\<forall>n \<in> set pre. end_of (snd n) \<le> start_of region" "\<forall>n \<in> set post. start_of region < end_of (snd n)"
  shows "filter (\<lambda>n. start_of region < end_of (snd n)) (rm_nodes m) = post"
  using assms(2,4,5) by (auto simp: filter_empty_conv filter_id_conv)

lemma processIntersectingAndMissing_visits:
  assumes ok: "map_ok m" and region: "region_ok region"
  shows "processIntersectingAndMissing avl region intersecting missing (m, s) =
    Some (visit_tiles intersecting missing
      (tiles region (dr_startAddress region) (filter (\<lambda>n. start_of region < end_of (snd n)) (rm_nodes m))) (m, s))"
proof (cases "rm_nodes m = []")
  case True
  then show ?thesis using region_new_self [OF region] start_less_end [OF region]
    by (auto simp: word_less_nat_alt processIntersectingAndMissing_def result_bind_def split: sum.splits prod.splits)
next
  case False
  let ?a = "dr_startAddress region"
  obtain pre post where split: "rm_nodes m = pre @ post" "first_position avl region m = it_of post"
    and before: "\<forall>n \<in> set pre. end_of (snd n) \<le> start_of region" and ne: "post \<noteq> []"
    and later: "\<forall>n \<in> set (tl post). start_of region \<le> start_of (snd n)"
    using first_position_split [OF ok region] False by metis
  obtain h rest where post: "post = h # rest" using ne by (cases post) auto
  have h: "region_at m (fst h) = Some (snd h)" using region_at_mid [OF ok] split(1) post by simp
  obtain pre1 post1 where it: "(if node_end h \<le> ?a then as_lower_bound avl (rm_nodes m) ?a else it_of post) = it_of post1"
    and split1: "rm_nodes m = pre1 @ post1" and b1: "\<forall>n \<in> set pre1. end_of (snd n) \<le> start_of region"
    and a1: "\<forall>n \<in> set post1. start_of region < end_of (snd n)"
  proof (cases "node_end h \<le> ?a")
    case True
    obtain pre2 post2 where s2: "rm_nodes m = pre2 @ post2" "as_lower_bound avl (rm_nodes m) ?a = it_of post2"
      "\<forall>n \<in> set pre2. node_start n < ?a" "\<forall>n \<in> set post2. ?a \<le> node_start n"
      using lower_bound_split [OF ok] by blast
    have "end_of (snd n) \<le> start_of region" if n: "n \<in> set pre2" for n
    proof -
      have "n \<in> set pre \<or> n = h \<or> n \<in> set rest" using n s2(1) split(1) post by (metis Un_iff set_append set_ConsD)
      moreover have "start_of (snd n) < start_of region" using s2(3) n by (simp add: word_less_nat_alt)
      ultimately show ?thesis using before True later post by (auto simp: word_le_nat_alt)
    qed
    moreover have "start_of region < end_of (snd n)" if n: "n \<in> set post2" for n
    proof -
      have "region_ok (snd n)" using ok s2(1) n by (auto simp: map_ok_def nodes_ok_append intro: nodes_ok_region)
      with start_less_end [OF this] s2(4) n show ?thesis by (force simp: word_le_nat_alt)
    qed
    ultimately show ?thesis using that [of post2 pre2] True s2 by simp
  next
    case far: False
    have "start_of region < end_of (snd n)" if n: "n \<in> set post" for n
    proof (cases "n = h")
      case True
      then show ?thesis using far by (simp add: word_le_nat_alt)
    next
      case False
      then have "n \<in> set rest" using n post by simp
      moreover have "region_ok (snd n)" using ok split(1) n by (auto simp: map_ok_def nodes_ok_append intro: nodes_ok_region)
      ultimately show ?thesis using later post start_less_end [of "snd n"] by force
    qed
    then show ?thesis using that [of post pre] far split before by simp
  qed
  have "standing region ?a m pre1 post1"
    using ok split1 b1 by (auto simp: standing_def not_le)
  from tiles_loop [OF this] h it split(2) post False filter_from [OF ok split1 region b1 a1]
  show ?thesis by (auto simp: processIntersectingAndMissing_def Let_def split: if_splits)
qed

end

end
