(* ===== verification/N6_RegionTheorems.thy ===== *)
theory N6_RegionTheorems
  imports N6_RegionTiling
begin

text \<open>
  The properties of regions and region maps: a region cut by another one, what traversals visit, what
  fragmentation keeps, and where the map that owns its nodes reads a deleted node.
\<close>

section \<open>Fragments of two regions\<close>

datatype side = This | Both | Other

definition record_fragment :: "side \<Rightarrow> DataAccessRegion \<Rightarrow> (side \<times> DataAccessRegion) list \<Rightarrow> (side \<times> DataAccessRegion) list result" where
  "record_fragment k r l = Inr (l @ [(k, r)])"

text \<open>The processors to which a byte is passed.\<close>

definition sides_of :: "nat \<Rightarrow> (side \<times> DataAccessRegion) list \<Rightarrow> side list" where
  "sides_of b l = map fst (filter (\<lambda>f. b \<in> region_bytes (snd f)) l)"

lemma sides_of_simps [simp]:
  "sides_of b [] = []"
  "sides_of b (f # l) = (if b \<in> region_bytes (snd f) then fst f # sides_of b l else sides_of b l)"
  "sides_of b (l @ l') = sides_of b l @ sides_of b l'"
  by (simp_all add: sides_of_def)

lemma recorded_fragments:
  assumes "max (dr_startAddress r) (dr_startAddress q) < min (getEndAddress r) (getEndAddress q)"
  shows "processIntersectingFragments r q (record_fragment This) (record_fragment Both) (record_fragment Other) [] =
    Inr ((Both, DataAccessRegion_new (max (dr_startAddress r) (dr_startAddress q)) (min (getEndAddress r) (getEndAddress q))) #
      (if dr_startAddress r < dr_startAddress q then [(This, DataAccessRegion_new (dr_startAddress r) (dr_startAddress q))]
       else if dr_startAddress q < dr_startAddress r then [(Other, DataAccessRegion_new (dr_startAddress q) (dr_startAddress r))]
       else []) @
      (if getEndAddress q < getEndAddress r then [(This, DataAccessRegion_new (getEndAddress q) (getEndAddress r))]
       else if getEndAddress r < getEndAddress q then [(Other, DataAccessRegion_new (getEndAddress r) (getEndAddress q))]
       else []))"
  using assms by (auto simp: processIntersectingFragments_def record_fragment_def Let_def max_def min_def)

lemma sides_nat:
  fixes a b c e f :: nat
  assumes "max a c < min e f"
  shows "(if b \<in> {max a c..<min e f}
      then Both # (if a \<le> b \<and> b < c then [This] else if c \<le> b \<and> b < a then [Other] else []) @
        (if f \<le> b \<and> b < e then [This] else if e \<le> b \<and> b < f then [Other] else [])
      else (if a \<le> b \<and> b < c then [This] else if c \<le> b \<and> b < a then [Other] else []) @
        (if f \<le> b \<and> b < e then [This] else if e \<le> b \<and> b < f then [Other] else [])) =
    (if b \<in> {a..<e} \<inter> {c..<f} then [Both]
     else if b \<in> {a..<e} then [This] else if b \<in> {c..<f} then [Other] else [])"
  using assms by (cases "a \<le> b"; cases "b < e"; cases "c \<le> b"; cases "b < f") simp_all

text \<open>
  Two regions that intersect are cut into fragments such that every byte is passed to the right
  processor, once: a byte of both regions to that of the intersection, a byte of one of them only to
  the processor of that region, any other byte to none.
\<close>

lemma fragments_partition:
  assumes "region_ok r" "region_ok q" "\<not> region_empty (region_intersect r q)"
  shows "\<exists>l. processIntersectingFragments r q (record_fragment This) (record_fragment Both) (record_fragment Other) [] = Inr l \<and>
    sides_of b l = (if b \<in> region_bytes r \<inter> region_bytes q then [Both]
      else if b \<in> region_bytes r then [This] else if b \<in> region_bytes q then [Other] else [])"
proof -
  let ?a = "max (dr_startAddress r) (dr_startAddress q)" and ?b = "min (getEndAddress r) (getEndAddress q)"
  have rq: "start_of r < end_of r" "start_of q < end_of q" using assms start_less_end by auto
  have lt: "max (start_of r) (start_of q) < min (end_of r) (end_of q)"
    using assms(3) rq by (auto simp: intersect_empty_iff [OF assms(1,2)])
  then have ab: "?a < ?b" by (simp add: word_less_nat_alt unat_max unat_min)
  have both: "region_bytes (DataAccessRegion_new ?a ?b) = {max (start_of r) (start_of q)..<min (end_of r) (end_of q)}"
    using region_new(4) [OF ab] by (simp add: unat_max unat_min)
  note bytes = region_bytes_alt [OF assms(1)] region_bytes_alt [OF assms(2)] both
  let ?left = "if dr_startAddress r < dr_startAddress q then [(This, DataAccessRegion_new (dr_startAddress r) (dr_startAddress q))]
     else if dr_startAddress q < dr_startAddress r then [(Other, DataAccessRegion_new (dr_startAddress q) (dr_startAddress r))] else []"
  let ?right = "if getEndAddress q < getEndAddress r then [(This, DataAccessRegion_new (getEndAddress q) (getEndAddress r))]
     else if getEndAddress r < getEndAddress q then [(Other, DataAccessRegion_new (getEndAddress r) (getEndAddress q))] else []"
  have left: "sides_of b ?left = (if start_of r \<le> b \<and> b < start_of q then [This] else if start_of q \<le> b \<and> b < start_of r then [Other] else [])"
    using region_new(4) [of "dr_startAddress r" "dr_startAddress q"] region_new(4) [of "dr_startAddress q" "dr_startAddress r"]
    by (auto simp: word_less_nat_alt)
  have right: "sides_of b ?right = (if end_of q \<le> b \<and> b < end_of r then [This] else if end_of r \<le> b \<and> b < end_of q then [Other] else [])"
    using region_new(4) [of "getEndAddress q" "getEndAddress r"] region_new(4) [of "getEndAddress r" "getEndAddress q"]
    by (auto simp: word_less_nat_alt)
  have "sides_of b ((Both, DataAccessRegion_new ?a ?b) # ?left @ ?right) =
    (if b \<in> region_bytes r \<inter> region_bytes q then [Both]
      else if b \<in> region_bytes r then [This] else if b \<in> region_bytes q then [Other] else [])"
    unfolding sides_of_simps left right bytes snd_conv fst_conv by (rule sides_nat [OF lt])
  with recorded_fragments [OF ab] show ?thesis by blast
qed

lemmas region_eval = region_ok_def region_intersect_def getEndAddress_def DataAccessRegion_new_def
  DataAccessRegion_none_def region_empty_def region_bytes_def

section \<open>Traversals\<close>

text \<open>
  A traversal of the nodes that intersect a region ends and calls its processor on exactly those
  nodes, in the order of the addresses and each once, until the processor stops it; it makes no
  difference how the processor changes the nodes up to the one it is called on.
\<close>

lemma traversal_visits_intersecting:
  assumes "ordered_set avl" "node_processor processor" "map_ok m" "region_ok region"
  shows "processIntersecting avl region processor (m, s) =
    Some (visit processor (map fst (filter (\<lambda>n. \<not> region_empty (region_intersect region (snd n))) (rm_nodes m))) (m, s))"
  using map_processor.processIntersecting_visits [of avl processor m region s] assms
  by (simp add: map_processor_def node_hits_def [abs_def])

text \<open>The lambdas of a caller that copies contents and does nothing else.\<close>

interpretation copies: fragmenter list_avl id "\<lambda>_ _ st. st"
  by unfold_locales simp

definition example_map :: "nat region_map" where
  "example_map = \<lparr>rm_nodes = [(0, \<lparr>dr_startAddress = 100, dr_length = 50\<rparr>), (1, \<lparr>dr_startAddress = 160, dr_length = 40\<rparr>),
     (2, \<lparr>dr_startAddress = 300, dr_length = 10\<rparr>)], rm_contents = (\<lambda>n. n), rm_next = 3\<rparr>"

lemma example_map_ok: "map_ok example_map" "region_ok \<lparr>dr_startAddress = 120, dr_length = 60\<rparr>"
  by (simp_all add: region_eval map_ok_def nodes_ok_def example_map_def)

section \<open>Fragmentation\<close>

definition map_bytes :: "'c region_map \<Rightarrow> nat set" where
  "map_bytes m = \<Union> (region_bytes ` snd ` set (rm_nodes m))"

lemma cut_ok:
  assumes "region_ok region" "region_ok r"
  shows "\<Union> (region_bytes ` set (cut region r)) = region_bytes r"
    "q \<in> set (cut region r) \<Longrightarrow> region_ok q \<and> (fullyContainedIn q region \<or> region_empty (region_intersect region q))"
proof -
  consider "region_empty (region_intersect region r)" | (hit) "\<not> region_empty (region_intersect region r)" by blast
  then have "\<Union> (region_bytes ` set (cut region r)) = region_bytes r \<and>
    (q \<in> set (cut region r) \<longrightarrow> region_ok q \<and> (fullyContainedIn q region \<or> region_empty (region_intersect region q)))"
  proof cases
    case 1
    then show ?thesis using assms by (simp add: cut_def)
  next
    case hit
    note i = intersect_between [OF assms hit]
    have left: "region_ok x \<and> start_of x = start_of r \<and> end_of x = start_of region" if "x \<in> set (left_part region r)" for x
      using that by (auto simp: left_part_def region_new split: if_splits)
    have right: "region_ok x \<and> start_of x = end_of region \<and> end_of x = end_of r" if "x \<in> set (right_part region r)" for x
      using that by (auto simp: right_part_def region_new split: if_splits)
    have "\<Union> (region_bytes ` set (left_part region r)) = {start_of r..<start_of region}"
      using region_new(4) [of "dr_startAddress r" "dr_startAddress region"] by (auto simp: left_part_def word_less_nat_alt)
    moreover have "\<Union> (region_bytes ` set (right_part region r)) = {end_of region..<end_of r}"
      using region_new(4) [of "getEndAddress region" "getEndAddress r"] by (auto simp: right_part_def word_less_nat_alt)
    ultimately have "\<Union> (region_bytes ` set (cut region r)) = region_bytes r"
      using hit i by (auto simp: cut_def region_bytes_alt i(1) region_bytes_alt [OF assms(2)])
    moreover have "region_ok q \<and> (fullyContainedIn q region \<or> region_empty (region_intersect region q))"
      if "q \<in> set (cut region r)"
    proof -
      from that hit consider "q \<in> set (left_part region r)" | "q = region_intersect r region" | "q \<in> set (right_part region r)"
        by (auto simp: cut_def)
      then show ?thesis
        using i left [of q] right [of q]
        by cases (auto simp: intersect_empty_iff [OF assms(1)] contained_iff [OF _ assms(1)] region_bytes_alt assms(1))
    qed
    ultimately show ?thesis by blast
  qed
  then show "\<Union> (region_bytes ` set (cut region r)) = region_bytes r"
    "q \<in> set (cut region r) \<Longrightarrow> region_ok q \<and> (fullyContainedIn q region \<or> region_empty (region_intersect region q))"
    by blast+
qed

text \<open>
  C11. Fragmenting a map by a region ends without an error, whatever the caller's lambdas do to the
  contents: the map stays ordered and disjoint, covers the same bytes, and afterwards every node lies
  either completely inside the region or completely outside it.
\<close>

theorem fragmentIntersecting_splits:
  assumes "fragmenter avl postprocessor" "map_ok m" "region_ok region"
  shows "\<exists>m' s'. fragmentIntersecting avl region duplicator postprocessor (m, s) = Some (Inr (True, m', s')) \<and>
    map_ok m' \<and> map_bytes m' = map_bytes m \<and>
    list_all (\<lambda>n. fullyContainedIn (snd n) region \<or> region_empty (region_intersect region (snd n))) (rm_nodes m')"
proof -
  obtain m' s' where run: "fragmentIntersecting avl region duplicator postprocessor (m, s) = Some (Inr (True, m', s'))"
    "map_ok m'" and cuts: "map snd (rm_nodes m') = concat (map (cut region) (map snd (rm_nodes m)))"
    using fragmenter.fragmentIntersecting_cuts [OF assms, of duplicator s] by blast
  have ok: "region_ok r" if "r \<in> snd ` set (rm_nodes m)" for r
    using that assms(2) by (auto simp: map_ok_def nodes_ok_def list_all_iff)
  have set_eq: "snd ` set (rm_nodes m') = (\<Union>r \<in> snd ` set (rm_nodes m). set (cut region r))"
    using arg_cong [OF cuts, of set] by simp
  have "map_bytes m' = (\<Union>r \<in> snd ` set (rm_nodes m). \<Union> (region_bytes ` set (cut region r)))"
    by (simp add: map_bytes_def set_eq)
  also have "\<dots> = map_bytes m" using cut_ok(1) [OF assms(3) ok] by (simp add: map_bytes_def)
  finally have "map_bytes m' = map_bytes m" .
  moreover have "\<forall>q \<in> snd ` set (rm_nodes m'). fullyContainedIn q region \<or> region_empty (region_intersect region q)"
    unfolding set_eq using cut_ok(2) [OF assms(3) ok] by blast
  ultimately show ?thesis using run by (auto simp: list_all_iff)
qed

theorem fragmentIntersecting_splits_witness:
  "\<exists>m' s'. fragmentIntersecting list_avl \<lparr>dr_startAddress = 120, dr_length = 60\<rparr> id (\<lambda>_ _ st. st) (example_map, ()) =
      Some (Inr (True, m', s')) \<and> map_bytes m' = map_bytes example_map"
  using fragmentIntersecting_splits [OF copies.fragmenter_axioms example_map_ok, of id "()"] by blast

section \<open>Tiling\<close>

definition hit_nodes :: "tile list \<Rightarrow> nat list" where
  "hit_nodes ts = concat (map (\<lambda>t. case t of Hit p \<Rightarrow> [p] | Missing _ \<Rightarrow> []) ts)"

lemma hit_nodes_tiles:
  "hit_nodes (tiles region a xs) = map fst (takeWhile (\<lambda>n. node_start n < getEndAddress region) xs)"
  by (induction xs arbitrary: a) (simp_all add: hit_nodes_def)

lemma tiles_of_map:
  assumes ok: "map_ok m" and region: "region_ok region"
  defines "xs \<equiv> filter (\<lambda>n. start_of region < end_of (snd n)) (rm_nodes m)"
  shows "consecutive (start_of region) (end_of region)
      (map (tile_bounds region (rm_nodes m)) (tiles region (dr_startAddress region) xs))"
    "hit_nodes (tiles region (dr_startAddress region) xs) = map fst (filter (node_hits region) (rm_nodes m))"
proof -
  have nodes: "nodes_ok (rm_nodes m)" using ok by (simp add: map_ok_def)
  have xs: "nodes_ok xs"
    using nodes by (auto simp: xs_def nodes_ok_def list_all_iff distinct_map_filter intro: sorted_wrt_filter)
  have "dr_startAddress region \<le> getEndAddress region"
    using start_less_end [OF region] by (simp add: word_le_nat_alt)
  then have "consecutive (start_of region) (end_of region)
      (map (tile_bounds region xs) (tiles region (dr_startAddress region) xs))"
    using xs region by (intro tiles_consecutive) (auto simp: xs_def)
  moreover have "tile_bounds region (rm_nodes m) t = tile_bounds region xs t"
    if t: "t \<in> set (tiles region (dr_startAddress region) xs)" for t
  proof (cases t)
    case (Hit p)
    then obtain r where r: "(p, r) \<in> set xs" using tiles_hits t by fastforce
    have "map_of xs p = Some r" "map_of (rm_nodes m) p = Some r"
      using r xs nodes by (auto simp: nodes_ok_def xs_def)
    then show ?thesis using Hit by simp
  qed simp
  ultimately show "consecutive (start_of region) (end_of region)
      (map (tile_bounds region (rm_nodes m)) (tiles region (dr_startAddress region) xs))"
    by (simp cong: map_cong)
  have "filter (node_hits region) xs = filter (node_hits region) (rm_nodes m)"
    using node_hits_iff [OF region nodes_ok_region [OF nodes]] by (auto simp: xs_def intro!: filter_cong)
  moreover have "filter (node_hits region) (takeWhile (\<lambda>n. node_start n < getEndAddress region) xs) =
      takeWhile (\<lambda>n. node_start n < getEndAddress region) xs"
    using node_hits_iff [OF region nodes_ok_region [OF nodes]]
    by (auto simp: filter_id_conv word_less_nat_alt xs_def dest!: set_takeWhileD)
  ultimately show "hit_nodes (tiles region (dr_startAddress region) xs) = map fst (filter (node_hits region) (rm_nodes m))"
    using hits_before_end [OF xs region] by (simp add: hit_nodes_tiles)
qed

text \<open>
  C10. The traversal of intersecting nodes and missing pieces ends and covers the region without a gap
  and without an overlap: the missing pieces and the visited nodes, clipped to the region, are
  non-empty intervals that follow one another from its start to its end, and the visited nodes are
  exactly those that intersect it. The processors may replace the node they are called on and insert
  nodes into the missing piece they are given.
\<close>

theorem region_is_tiled:
  assumes "ordered_set avl" "tile_processors intersecting missing" "map_ok m" "region_ok region"
  shows "\<exists>ts. processIntersectingAndMissing avl region intersecting missing (m, s) =
      Some (visit_tiles intersecting missing ts (m, s)) \<and>
    consecutive (start_of region) (end_of region) (map (tile_bounds region (rm_nodes m)) ts) \<and>
    hit_nodes ts = map fst (filter (\<lambda>n. \<not> region_empty (region_intersect region (snd n))) (rm_nodes m))"
proof -
  have "tiled_map avl intersecting missing" using assms(1,2) by (simp add: tiled_map_def)
  from tiled_map.processIntersectingAndMissing_visits [OF this assms(3,4), of s] tiles_of_map [OF assms(3,4)]
  show ?thesis by (auto simp: node_hits_def [abs_def])
qed

text \<open>A caller that inserts a node for every missing piece, as the bottom maps do.\<close>

definition fill_missing :: "avl_ops \<Rightarrow> 'c \<Rightarrow> ('c, 's) missing_processor" where
  "fill_missing avl c r st = Inr (True, snd (insert_node avl r c (fst st)), snd st)"

context ordered_set
begin

lemma fill_processors:
  fixes c :: 'c
  shows "tile_processors (\<lambda>p (st :: ('c, 's) map_state). Inr (True, st)) (fill_missing avl c)"
proof
  fix m m' :: "'c region_map" and pre n post c' and s s' :: 's
  assume "map_ok m" "rm_nodes m = pre @ n # post" "Inr (True, m, s) = Inr (c', m', s')"
  then show "map_ok m' \<and> (\<exists>pre'. rm_nodes m' = pre' @ post \<and> (\<forall>x \<in> set pre'. end_of (snd x) \<le> end_of (snd n)))"
    using start_less_end [of "snd n"] by (intro conjI exI [of _ "pre @ [n]"]) (auto simp: map_ok_def nodes_ok_append)
next
  fix m m' :: "'c region_map" and pre post r c' and s s' :: 's
  assume *: "map_ok m" "rm_nodes m = pre @ post" "region_ok r" "\<forall>x \<in> set pre. end_of (snd x) \<le> start_of r"
    "\<forall>x \<in> set post. end_of r \<le> start_of (snd x)" and run: "fill_missing avl c r (m, s) = Inr (c', m', s')"
  from insert_in_gap [OF *, of c] run have "map_ok m'" "rm_nodes m' = (pre @ [(rm_next m, r)]) @ post"
    by (auto simp: fill_missing_def)
  moreover have "\<forall>x \<in> set (pre @ [(rm_next m, r)]). end_of (snd x) \<le> end_of r"
    using *(4) start_less_end [OF *(3)] by auto
  ultimately show "map_ok m' \<and> (\<exists>pre'. rm_nodes m' = pre' @ post \<and> (\<forall>x \<in> set pre'. end_of (snd x) \<le> end_of r))" by blast
qed

end

theorem region_is_tiled_witness:
  "\<exists>ts. processIntersectingAndMissing list_avl \<lparr>dr_startAddress = 120, dr_length = 60\<rparr> (\<lambda>p st. Inr (True, st))
       (fill_missing list_avl 7) (example_map, ()) =
      Some (visit_tiles (\<lambda>p st. Inr (True, st)) (fill_missing list_avl 7) ts (example_map, ())) \<and> hit_nodes ts = [0, 1]"
proof -
  let ?r = "\<lparr>dr_startAddress = 120, dr_length = 60\<rparr>"
  have "map fst (filter (\<lambda>n. \<not> region_empty (region_intersect ?r (snd n))) (rm_nodes example_map)) = [0, 1]"
    by (simp add: region_eval example_map_def)
  with region_is_tiled [OF list_set.ordered_set_axioms list_set.fill_processors example_map_ok, of 7 "()"]
  show ?thesis by auto
qed

section \<open>The map that owns its nodes\<close>

text \<open>
  \<open>LinearRegionMap::fragmentByIntersection\<close> with the intersection removed deletes the node first and
  copies its contents afterwards: whenever the node reaches beyond the region, it reads a deleted node.
\<close>

lemma fragment_reads_deleted_node:
  assumes "region_at m p = Some r" "region_ok r" "region_ok region" "\<not> region_empty (region_intersect region r)"
    and "\<not> fullyContainedIn r region"
  shows "LinearRegionMap_fragmentByIntersection avl p region True m = Inl (FatalError ''contents of a deleted node'')"
proof -
  have gone: "region_at (erase_node p m) p = None"
    by (simp add: region_at_def erase_node_def map_of_eq_None_iff image_iff)
  have "left_part region r \<noteq> [] \<or> right_part region r \<noteq> []"
  proof (rule ccontr)
    assume "\<not> ?thesis"
    then have "start_of region \<le> start_of r" "end_of r \<le> end_of region"
      by (simp_all add: left_part_def right_part_def word_less_nat_alt split: if_splits)
    with assms(5) show False
      by (auto simp: contained_iff [OF assms(2,3)] region_bytes_alt assms(2,3))
  qed
  then show ?thesis using assms(1) gone
    by (auto simp: LinearRegionMap_fragmentByIntersection_def fragments_in_order [OF assms(3,2,4)] copy_fragment_def
        result_bind_def split: list.splits)
qed

end
