(* ===== verification/N6_FragmentedAccess.thy ===== *)
theory N6_FragmentedAccess
  imports N6_Task N6_RegionMap
begin

text \<open>
  The access object of the default dependency system: \<open>struct DataAccess\<close> of
  \<open>src/dependencies/linear-regions-fragmented/DataAccess.hpp\<close>, the update operations of
  \<open>CPUDependencyData.hpp\<close> and \<open>DataAccessStatusEffects\<close> of \<open>DataAccessRegistration.cpp\<close>, which says
  what an access passes on. Every status bit is a field; a setter fails when its assertion does. The
  region of an access is kept by the node of the region map that holds it.
\<close>

section \<open>Data\<close>

datatype DataAccessObjectType =
    access_type
  | fragment_type
  | taskwait_type
  | top_level_sink_type

record DataAccessLink =
  dl_task :: task_ref
  dl_objectType :: DataAccessObjectType

text \<open>A bit set of \<open>boost::dynamic_bitset\<close> is a list of bits; an empty list is a set that has not been sized.\<close>

record DataAccess =
  fa_objectType :: DataAccessObjectType
  fa_type :: DataAccessType
  fa_weak :: bool
  fa_originator :: task_ref
  fa_registered :: bool
  fa_complete :: bool
  fa_readSatisfied :: bool
  fa_writeSatisfied :: bool
  fa_concurrentSatisfied :: bool
  fa_receivedReductionInfo :: bool
  fa_allocatedReductionInfo :: bool
  fa_receivedReductionCpuSet :: bool
  fa_readInhibited :: bool
  fa_concurrentInhibited :: bool
  fa_reductionInfoInhibited :: bool
  fa_hasSubaccesses :: bool
  fa_inBottomMap :: bool
  fa_topmost :: bool
  fa_topLevel :: bool
  fa_reachable :: bool
  fa_discounted :: bool
  fa_next :: "DataAccessLink option"
  fa_reductionTypeAndOperatorIndex :: int
  fa_reductionIndex :: int
  fa_symbols :: "64 word"
  fa_reductionInfo :: "nat option"
  fa_previousReductionInfo :: "nat option"
  fa_reductionCpuSet :: "bool list"
  fa_previousReductionCpuSet :: "bool list"

abbreviation no_reduction_type_and_operator :: int where
  "no_reduction_type_and_operator \<equiv> 2147483647"

text \<open>The constructor with its default status; \<open>nCpus\<close> is \<open>CPUManager::getTotalCPUs()\<close>.\<close>

definition DataAccess_new ::
  "nat \<Rightarrow> DataAccessObjectType \<Rightarrow> DataAccessType \<Rightarrow> bool \<Rightarrow> task_ref \<Rightarrow> int \<Rightarrow> int \<Rightarrow> DataAccess" where
  "DataAccess_new nCpus objectType type weak originator reductionTypeAndOperatorIndex reductionIndex =
     \<lparr>fa_objectType = objectType, fa_type = type, fa_weak = weak, fa_originator = originator,
      fa_registered = False, fa_complete = False, fa_readSatisfied = False, fa_writeSatisfied = False,
      fa_concurrentSatisfied = False, fa_receivedReductionInfo = False, fa_allocatedReductionInfo = False,
      fa_receivedReductionCpuSet = False, fa_readInhibited = False, fa_concurrentInhibited = False,
      fa_reductionInfoInhibited = False, fa_hasSubaccesses = False, fa_inBottomMap = False, fa_topmost = False,
      fa_topLevel = False, fa_reachable = False, fa_discounted = False, fa_next = None,
      fa_reductionTypeAndOperatorIndex = reductionTypeAndOperatorIndex, fa_reductionIndex = reductionIndex,
      fa_symbols = 0, fa_reductionInfo = None, fa_previousReductionInfo = None,
      fa_reductionCpuSet = (if type = REDUCTION_ACCESS_TYPE then replicate nCpus False else []),
      fa_previousReductionCpuSet = []\<rparr>"

section \<open>Member functions\<close>

definition setRegistered :: "DataAccess \<Rightarrow> DataAccess result" where
  "setRegistered a = assert_that (\<not> fa_registered a) ''!isRegistered()'' (Inr (a\<lparr>fa_registered := True\<rparr>))"

definition clearRegistered :: "DataAccess \<Rightarrow> DataAccess" where
  "clearRegistered a = a\<lparr>fa_registered := False\<rparr>"

definition setComplete :: "DataAccess \<Rightarrow> DataAccess result" where
  "setComplete a = assert_that (\<not> fa_complete a) ''!complete()'' (Inr (a\<lparr>fa_complete := True\<rparr>))"

definition setReadSatisfied :: "DataAccess \<Rightarrow> DataAccess result" where
  "setReadSatisfied a =
     assert_that (\<not> fa_readSatisfied a) ''!readSatisfied()'' (Inr (a\<lparr>fa_readSatisfied := True\<rparr>))"

definition setWriteSatisfied :: "DataAccess \<Rightarrow> DataAccess result" where
  "setWriteSatisfied a =
     assert_that (\<not> fa_writeSatisfied a) ''!writeSatisfied()'' (Inr (a\<lparr>fa_writeSatisfied := True\<rparr>))"

definition setConcurrentSatisfied :: "DataAccess \<Rightarrow> DataAccess result" where
  "setConcurrentSatisfied a =
     assert_that (\<not> fa_concurrentSatisfied a) ''!concurrentSatisfied()'' (Inr (a\<lparr>fa_concurrentSatisfied := True\<rparr>))"

definition setReceivedReductionInfo :: "DataAccess \<Rightarrow> DataAccess result" where
  "setReceivedReductionInfo a =
     assert_that (\<not> fa_receivedReductionInfo a) ''!receivedReductionInfo()''
       (Inr (a\<lparr>fa_receivedReductionInfo := True\<rparr>))"

definition setAllocatedReductionInfo :: "DataAccess \<Rightarrow> DataAccess result" where
  "setAllocatedReductionInfo a =
     assert_that (\<not> fa_allocatedReductionInfo a) ''!allocatedReductionInfo()''
       (Inr (a\<lparr>fa_allocatedReductionInfo := True\<rparr>))"

definition setReceivedReductionCpuSet :: "DataAccess \<Rightarrow> DataAccess result" where
  "setReceivedReductionCpuSet a =
     assert_that (\<not> fa_receivedReductionCpuSet a) ''!receivedReductionCpuSet()''
       (Inr (a\<lparr>fa_receivedReductionCpuSet := True\<rparr>))"

definition unsetCanPropagateReadSatisfiability :: "DataAccess \<Rightarrow> DataAccess result" where
  "unsetCanPropagateReadSatisfiability a =
     assert_that (\<not> fa_readInhibited a) ''canPropagateReadSatisfiability()'' (Inr (a\<lparr>fa_readInhibited := True\<rparr>))"

definition unsetCanPropagateConcurrentSatisfiability :: "DataAccess \<Rightarrow> DataAccess result" where
  "unsetCanPropagateConcurrentSatisfiability a =
     assert_that (\<not> fa_concurrentInhibited a) ''canPropagateConcurrentSatisfiability()''
       (Inr (a\<lparr>fa_concurrentInhibited := True\<rparr>))"

definition unsetCanPropagateReductionInfo :: "DataAccess \<Rightarrow> DataAccess result" where
  "unsetCanPropagateReductionInfo a =
     assert_that (\<not> fa_reductionInfoInhibited a) ''canPropagateReductionInfo()''
       (Inr (a\<lparr>fa_reductionInfoInhibited := True\<rparr>))"

definition setHasSubaccesses :: "DataAccess \<Rightarrow> DataAccess result" where
  "setHasSubaccesses a =
     assert_that (\<not> fa_hasSubaccesses a) ''!hasSubaccesses()'' (Inr (a\<lparr>fa_hasSubaccesses := True\<rparr>))"

definition unsetHasSubaccesses :: "DataAccess \<Rightarrow> DataAccess result" where
  "unsetHasSubaccesses a =
     assert_that (fa_hasSubaccesses a) ''hasSubaccesses()'' (Inr (a\<lparr>fa_hasSubaccesses := False\<rparr>))"

definition setInBottomMap :: "DataAccess \<Rightarrow> DataAccess result" where
  "setInBottomMap a = assert_that (\<not> fa_inBottomMap a) ''!isInBottomMap()'' (Inr (a\<lparr>fa_inBottomMap := True\<rparr>))"

definition unsetInBottomMap :: "DataAccess \<Rightarrow> DataAccess result" where
  "unsetInBottomMap a = assert_that (fa_inBottomMap a) ''isInBottomMap()'' (Inr (a\<lparr>fa_inBottomMap := False\<rparr>))"

definition setTopmost :: "DataAccess \<Rightarrow> DataAccess result" where
  "setTopmost a = assert_that (\<not> fa_topmost a) ''!isTopmost()'' (Inr (a\<lparr>fa_topmost := True\<rparr>))"

definition setTopLevel :: "DataAccess \<Rightarrow> DataAccess result" where
  "setTopLevel a = assert_that (\<not> fa_topLevel a) ''!isTopLevel()'' (Inr (a\<lparr>fa_topLevel := True\<rparr>))"

definition setReachable :: "DataAccess \<Rightarrow> DataAccess result" where
  "setReachable a = assert_that (\<not> fa_reachable a) ''!isReachable()'' (Inr (a\<lparr>fa_reachable := True\<rparr>))"

definition markAsDiscounted :: "DataAccess \<Rightarrow> DataAccess result" where
  "markAsDiscounted a =
     assert_that (\<not> fa_discounted a) ''!_status[HAS_BEEN_DISCOUNTED_BIT]'' (Inr (a\<lparr>fa_discounted := True\<rparr>))"

definition setNext :: "DataAccessLink \<Rightarrow> DataAccess \<Rightarrow> DataAccess" where
  "setNext link a = a\<lparr>fa_next := Some link\<rparr>"

definition setReductionInfo :: "nat option \<Rightarrow> DataAccess \<Rightarrow> DataAccess result" where
  "setReductionInfo info a =
     assert_that (fa_reductionInfo a = None) ''_reductionInfo == nullptr''
       (assert_that (fa_type a = REDUCTION_ACCESS_TYPE) ''_type == REDUCTION_ACCESS_TYPE''
         (Inr (a\<lparr>fa_reductionInfo := info\<rparr>)))"

definition setPreviousReductionInfo :: "nat option \<Rightarrow> DataAccess \<Rightarrow> DataAccess result" where
  "setPreviousReductionInfo info a =
     assert_that (fa_previousReductionInfo a = None) ''_previousReductionInfo == nullptr''
       (Inr (a\<lparr>fa_previousReductionInfo := info\<rparr>))"

definition setReductionCpuSet :: "bool list \<Rightarrow> DataAccess \<Rightarrow> DataAccess result" where
  "setReductionCpuSet cpus a =
     assert_that (\<not> list_ex id (fa_reductionCpuSet a)) ''_reductionCpuSet.none()''
       (assert_that (fa_type a = REDUCTION_ACCESS_TYPE) ''_type == REDUCTION_ACCESS_TYPE''
         (Inr (a\<lparr>fa_reductionCpuSet := cpus\<rparr>)))"

definition setPreviousReductionCpuSet :: "bool list \<Rightarrow> DataAccess \<Rightarrow> DataAccess result" where
  "setPreviousReductionCpuSet cpus a =
     assert_that (fa_previousReductionCpuSet a = []) ''_previousReductionCpuSet.size() == 0''
       (Inr (a\<lparr>fa_previousReductionCpuSet := cpus\<rparr>))"

definition addToSymbols :: "64 word \<Rightarrow> DataAccess \<Rightarrow> DataAccess" where
  "addToSymbols symbols a = a\<lparr>fa_symbols := or (fa_symbols a) symbols\<rparr>"

text \<open>\<open>upgrade\<close> answers whether anything changed.\<close>

definition DataAccess_upgrade :: "bool \<Rightarrow> DataAccessType \<Rightarrow> DataAccess \<Rightarrow> bool \<times> DataAccess" where
  "DataAccess_upgrade newWeak newType a =
     (if newWeak \<noteq> fa_weak a \<or> newType \<noteq> fa_type a then (True, a\<lparr>fa_weak := newWeak, fa_type := newType\<rparr>)
      else (False, a))"

text \<open>Status of a new fragment of \<open>other\<close>; a step is skipped unless its condition holds.\<close>

definition when_result :: "bool \<Rightarrow> ('a \<Rightarrow> 'a result) \<Rightarrow> 'a \<Rightarrow> 'a result" where
  "when_result b f a = (if b then f a else Inr a)"

definition inheritFragmentStatus :: "DataAccess \<Rightarrow> DataAccess \<Rightarrow> DataAccess result" where
  "inheritFragmentStatus other a =
     result_bind (when_result (fa_readSatisfied other) setReadSatisfied a) (\<lambda>a.
     result_bind (when_result (fa_writeSatisfied other) setWriteSatisfied a) (\<lambda>a.
     result_bind (when_result (fa_concurrentSatisfied other) setConcurrentSatisfied a) (\<lambda>a.
     result_bind
       (when_result (fa_receivedReductionInfo other)
         (\<lambda>a. result_bind (setReceivedReductionInfo a) (setPreviousReductionInfo (fa_previousReductionInfo other))) a) (\<lambda>a.
     result_bind (when_result (fa_reductionInfo other \<noteq> None) (setReductionInfo (fa_reductionInfo other)) a) (\<lambda>a.
     result_bind
       (when_result (fa_receivedReductionCpuSet other)
         (\<lambda>a. result_bind (setReceivedReductionCpuSet a)
                (setPreviousReductionCpuSet (fa_previousReductionCpuSet other))) a) (\<lambda>a.
     result_bind (when_result (fa_reductionCpuSet other \<noteq> []) (setReductionCpuSet (fa_reductionCpuSet other)) a) (\<lambda>a.
     when_result (fa_complete other) setComplete a)))))))"

definition satisfied :: "DataAccess \<Rightarrow> bool" where
  "satisfied a =
     (let receivedReductionStructures =
        fa_receivedReductionInfo a \<and> (fa_previousReductionInfo a = None \<or> fa_receivedReductionCpuSet a) in
      if fa_type a = READ_ACCESS_TYPE then fa_readSatisfied a \<and> receivedReductionStructures
      else if fa_type a = CONCURRENT_ACCESS_TYPE then fa_concurrentSatisfied a \<and> receivedReductionStructures
      else if fa_type a = REDUCTION_ACCESS_TYPE
      then fa_receivedReductionInfo a \<and>
           (fa_writeSatisfied a \<or>
            (fa_reductionInfo a \<noteq> None \<and> fa_reductionInfo a = fa_previousReductionInfo a))
      else fa_readSatisfied a \<and> fa_writeSatisfied a \<and> receivedReductionStructures)"

definition duplicateDataAccess :: "DataAccess \<Rightarrow> DataAccess" where
  "duplicateDataAccess a = clearRegistered a"

section \<open>Update operations\<close>

record UpdateOperation =
  uo_target :: DataAccessLink
  uo_region :: DataAccessRegion
  uo_makeReadSatisfied :: bool
  uo_makeWriteSatisfied :: bool
  uo_makeConcurrentSatisfied :: bool
  uo_makeTopmost :: bool
  uo_makeTopLevel :: bool
  uo_setReductionInfo :: bool
  uo_reductionInfo :: "nat option"
  uo_reductionCpuSet :: "bool list"

definition UpdateOperation_new :: "DataAccessLink \<Rightarrow> DataAccessRegion \<Rightarrow> UpdateOperation" where
  "UpdateOperation_new target region =
     \<lparr>uo_target = target, uo_region = region, uo_makeReadSatisfied = False, uo_makeWriteSatisfied = False,
      uo_makeConcurrentSatisfied = False, uo_makeTopmost = False, uo_makeTopLevel = False,
      uo_setReductionInfo = False, uo_reductionInfo = None, uo_reductionCpuSet = []\<rparr>"

definition UpdateOperation_empty :: "UpdateOperation \<Rightarrow> bool" where
  "UpdateOperation_empty u =
     (\<not> uo_makeReadSatisfied u \<and> \<not> uo_makeWriteSatisfied u \<and> \<not> uo_makeConcurrentSatisfied u \<and>
      \<not> uo_makeTopmost u \<and> \<not> uo_makeTopLevel u \<and> \<not> uo_setReductionInfo u \<and> uo_reductionCpuSet u = [])"

record CPUDependencyData =
  cd_satisfiedOriginators :: "task_ref list"
  cd_delayedOperations :: "UpdateOperation list"
  cd_removableTasks :: "task_ref list"

definition CPUDependencyData_new :: CPUDependencyData where
  "CPUDependencyData_new =
     \<lparr>cd_satisfiedOriginators = [], cd_delayedOperations = [], cd_removableTasks = []\<rparr>"

definition CPUDependencyData_empty :: "CPUDependencyData \<Rightarrow> bool" where
  "CPUDependencyData_empty hp =
     (cd_satisfiedOriginators hp = [] \<and> cd_delayedOperations hp = [] \<and> cd_removableTasks hp = [])"

section \<open>What an access passes on\<close>

record DataAccessStatusEffects =
  ef_isRegistered :: bool
  ef_isSatisfied :: bool
  ef_enforcesDependency :: bool
  ef_hasNext :: bool
  ef_readToNext :: bool
  ef_writeToNext :: bool
  ef_concurrentToNext :: bool
  ef_reductionInfoToNext :: bool
  ef_reductionCpuSetToNext :: bool
  ef_makesNextTopmost :: bool
  ef_propagatesTopLevel :: bool
  ef_readToFragments :: bool
  ef_writeToFragments :: bool
  ef_concurrentToFragments :: bool
  ef_reductionInfoToFragments :: bool
  ef_reductionCpuSetToFragments :: bool
  ef_closesPreviousReduction :: bool
  ef_linksBottomMap :: bool
  ef_isRemovable :: bool

definition effects_default :: DataAccessStatusEffects where
  "effects_default =
     \<lparr>ef_isRegistered = False, ef_isSatisfied = False, ef_enforcesDependency = False, ef_hasNext = False,
      ef_readToNext = False, ef_writeToNext = False, ef_concurrentToNext = False, ef_reductionInfoToNext = False,
      ef_reductionCpuSetToNext = False, ef_makesNextTopmost = False, ef_propagatesTopLevel = False,
      ef_readToFragments = False, ef_writeToFragments = False, ef_concurrentToFragments = False,
      ef_reductionInfoToFragments = False, ef_reductionCpuSetToFragments = False,
      ef_closesPreviousReduction = False, ef_linksBottomMap = False, ef_isRemovable = False\<rparr>"

text \<open>
  The five effects on the next access, in the order read, write, concurrent, reduction information, CPU
  set: one definition per branch of the constructor.
\<close>

type_synonym next_effects = "bool \<times> bool \<times> bool \<times> bool \<times> bool"

abbreviation hasReductionInfo :: "DataAccess \<Rightarrow> bool" where
  "hasReductionInfo a \<equiv> fa_receivedReductionInfo a \<or> fa_allocatedReductionInfo a"

definition passes_cpu_set :: "DataAccess \<Rightarrow> bool" where
  "passes_cpu_set a =
     (fa_type a = REDUCTION_ACCESS_TYPE \<and> fa_complete a \<and> fa_receivedReductionInfo a \<and>
      (fa_reductionInfo a \<noteq> fa_previousReductionInfo a \<or> fa_receivedReductionCpuSet a))"

definition next_effects_with_subaccesses :: "DataAccess \<Rightarrow> next_effects" where
  "next_effects_with_subaccesses a =
     (\<not> fa_readInhibited a \<and> fa_readSatisfied a \<and> fa_type a = READ_ACCESS_TYPE,
      False,
      \<not> fa_concurrentInhibited a \<and> fa_concurrentSatisfied a \<and> fa_type a = CONCURRENT_ACCESS_TYPE,
      \<not> fa_reductionInfoInhibited a \<and> hasReductionInfo a \<and>
        fa_type a \<noteq> WRITE_ACCESS_TYPE \<and> fa_type a \<noteq> READWRITE_ACCESS_TYPE,
      False)"

definition next_effects_of_fragment :: "DataAccess \<Rightarrow> next_effects" where
  "next_effects_of_fragment a =
     (\<not> fa_readInhibited a \<and> fa_readSatisfied a,
      fa_writeSatisfied a,
      \<not> fa_concurrentInhibited a \<and> fa_concurrentSatisfied a,
      \<not> fa_reductionInfoInhibited a \<and> hasReductionInfo a,
      passes_cpu_set a)"

definition next_effects_of_access :: "DataAccess \<Rightarrow> next_effects" where
  "next_effects_of_access a =
     (\<not> fa_readInhibited a \<and> fa_readSatisfied a \<and> (fa_type a = READ_ACCESS_TYPE \<or> fa_complete a),
      fa_writeSatisfied a \<and> fa_complete a,
      \<not> fa_concurrentInhibited a \<and> fa_concurrentSatisfied a \<and> (fa_type a = CONCURRENT_ACCESS_TYPE \<or> fa_complete a),
      \<not> fa_reductionInfoInhibited a \<and> hasReductionInfo a \<and>
        (fa_type a \<noteq> WRITE_ACCESS_TYPE \<and> fa_type a \<noteq> READWRITE_ACCESS_TYPE \<or> fa_complete a),
      passes_cpu_set a)"

definition next_effects :: "DataAccess \<Rightarrow> next_effects result" where
  "next_effects a =
     (if fa_next a \<noteq> None
      then assert_that (fa_objectType a \<noteq> taskwait_type) ''access->getObjectType() != taskwait_type''
        (assert_that (fa_objectType a \<noteq> top_level_sink_type) ''access->getObjectType() != top_level_sink_type''
          (if fa_hasSubaccesses a
           then assert_that (fa_objectType a = access_type) ''access->getObjectType() == access_type''
             (Inr (next_effects_with_subaccesses a))
           else if fa_objectType a = fragment_type then Inr (next_effects_of_fragment a)
           else Inr (next_effects_of_access a)))
      else Inr (False, False, False, False, False))"

definition closes_previous_reduction :: "DataAccess \<Rightarrow> bool" where
  "closes_previous_reduction a =
     (fa_writeSatisfied a \<and> fa_receivedReductionInfo a \<and> fa_receivedReductionCpuSet a \<and>
      fa_previousReductionInfo a \<noteq> None \<and>
      (fa_objectType a = taskwait_type \<and> fa_type a \<noteq> REDUCTION_ACCESS_TYPE \<or>
       fa_objectType a = access_type \<and> fa_reductionInfo a \<noteq> fa_previousReductionInfo a))"

definition is_removable :: "DataAccess \<Rightarrow> bool" where
  "is_removable a =
     (fa_topmost a \<and> fa_readSatisfied a \<and> fa_writeSatisfied a \<and> fa_receivedReductionInfo a \<and>
      (fa_previousReductionInfo a = None \<or> fa_receivedReductionCpuSet a) \<and> fa_complete a \<and>
      (\<not> fa_inBottomMap a \<or> fa_next a \<noteq> None \<or> fa_objectType a = taskwait_type \<or>
       fa_objectType a = top_level_sink_type))"

definition enforces_dependency :: "DataAccess \<Rightarrow> bool" where
  "enforces_dependency a =
     (\<not> fa_weak a \<and> \<not> satisfied a \<and>
      \<not> (fa_type a = REDUCTION_ACCESS_TYPE \<and> hasReductionInfo a) \<and> fa_objectType a = access_type)"

text \<open>The task whose dependency domain an access, or the target of a link, belongs to.\<close>

definition domain_parent :: "(task_ref \<Rightarrow> task_ref option) \<Rightarrow> DataAccessObjectType \<Rightarrow> task_ref \<Rightarrow> task_ref option" where
  "domain_parent parent objectType t = (if objectType = access_type then parent t else Some t)"

definition makes_next_topmost :: "(task_ref \<Rightarrow> task_ref option) \<Rightarrow> DataAccess \<Rightarrow> bool result" where
  "makes_next_topmost parent a =
     (let domainParent = domain_parent parent (fa_objectType a) (fa_originator a) in
      assert_that (domainParent \<noteq> None) ''domainParent != nullptr''
        (case fa_next a of
           None \<Rightarrow> Inr False
         | Some next \<Rightarrow>
             (if is_removable a
              then (let nextDomainParent = domain_parent parent (dl_objectType next) (dl_task next) in
                    assert_that (nextDomainParent \<noteq> None) ''nextDomainParent != nullptr''
                      (Inr (domainParent = nextDomainParent)))
              else Inr False)))"

definition propagates_top_level :: "(task_ref \<Rightarrow> task_ref option) \<Rightarrow> DataAccess \<Rightarrow> bool" where
  "propagates_top_level parent a =
     (fa_topLevel a \<and>
      (case fa_next a of None \<Rightarrow> False | Some next \<Rightarrow> parent (fa_originator a) = parent (dl_task next)))"

definition effects_of :: "(task_ref \<Rightarrow> task_ref option) \<Rightarrow> DataAccess \<Rightarrow> DataAccessStatusEffects result" where
  "effects_of parent a =
     result_bind (next_effects a) (\<lambda>(toNextR, toNextW, toNextC, toNextI, toNextS).
     result_bind (makes_next_topmost parent a) (\<lambda>topmost.
       Inr \<lparr>ef_isRegistered = fa_registered a, ef_isSatisfied = satisfied a,
            ef_enforcesDependency = enforces_dependency a, ef_hasNext = (fa_next a \<noteq> None),
            ef_readToNext = toNextR, ef_writeToNext = toNextW, ef_concurrentToNext = toNextC,
            ef_reductionInfoToNext = toNextI, ef_reductionCpuSetToNext = toNextS,
            ef_makesNextTopmost = topmost, ef_propagatesTopLevel = propagates_top_level parent a,
            ef_readToFragments = (fa_hasSubaccesses a \<and> fa_readSatisfied a),
            ef_writeToFragments = (fa_hasSubaccesses a \<and> fa_writeSatisfied a),
            ef_concurrentToFragments = (fa_hasSubaccesses a \<and> fa_concurrentSatisfied a),
            ef_reductionInfoToFragments = (fa_hasSubaccesses a \<and> hasReductionInfo a),
            ef_reductionCpuSetToFragments = (fa_hasSubaccesses a \<and> fa_receivedReductionCpuSet a),
            ef_closesPreviousReduction = closes_previous_reduction a,
            ef_linksBottomMap = (fa_next a \<noteq> None \<and> fa_complete a \<and> fa_hasSubaccesses a),
            ef_isRemovable = is_removable a\<rparr>))"

end
