(* ===== verification/N6_Fragmented.thy ===== *)
theory N6_Fragmented
  imports N6_FragmentedAccess
begin

text \<open>
  The default dependency system, \<open>src/dependencies/linear-regions-fragmented/DataAccessRegistration.cpp\<close>:
  status changes of an access and their propagation. The accesses of a task, its fragments (accesses of
  the parent seen by its children), its taskwait fragments and its bottom map are region maps; a pointer
  to a \<open>DataAccess\<close> is the task that owns it, the kind of map, and the node. The state also holds the
  tasks, the reductions, and the \<open>CPUDependencyData\<close> of the CPU that runs the operation; calls of the
  scheduler and of \<open>disposeOrUnblockTask\<close> are recorded in order. The assertions on locks and on deleted
  structures are left out: locks are what makes an operation a step, and no operation here deletes the
  structures of a task. A traversal that would not return is an error value (\<open>returned\<close>).
\<close>

section \<open>State\<close>

record ReductionInfo =
  ri_region :: DataAccessRegion
  ri_typeAndOperatorIndex :: int
  ri_sizeCounter :: size_t
  ri_combined :: "(nat \<times> DataAccessRegion) list"

record BottomMapEntry =
  bm_link :: DataAccessLink
  bm_accessType :: DataAccessType

record TaskDataAccesses =
  td_accesses :: "DataAccess region_map"
  td_accessFragments :: "DataAccess region_map"
  td_taskwaitFragments :: "DataAccess region_map"
  td_subaccessBottomMap :: "BottomMapEntry region_map"
  td_removalBlockers :: int
  td_liveTaskwaitFragmentCount :: int

text \<open>The local variables of \<open>replaceMatchingInBottomMapLinkAndPropagate\<close> that its lambdas change.\<close>

record link_locals =
  lo_hasAllocatedReductionInfo :: bool
  lo_previousReductionInfo :: "nat option"
  lo_local :: bool
  lo_lastWasLocal :: bool
  lo_first :: bool
  lo_parentAccessType :: DataAccessType

definition link_locals_new :: link_locals where
  "link_locals_new =
     \<lparr>lo_hasAllocatedReductionInfo = False, lo_previousReductionInfo = None, lo_local = False,
      lo_lastWasLocal = False, lo_first = True, lo_parentAccessType = NO_ACCESS_TYPE\<rparr>"

record access_state =
  ds_nCpus :: nat
  ds_tasks :: task_heap
  ds_structures :: "task_ref \<Rightarrow> TaskDataAccesses"
  ds_reductions :: "nat \<Rightarrow> ReductionInfo option"
  ds_nextReduction :: nat
  ds_hp :: CPUDependencyData
  ds_link :: link_locals
  ds_readied :: "task_ref list"
  ds_disposed :: "task_ref list"

type_synonym access_ptr = "task_ref \<times> DataAccessObjectType \<times> nat"

definition parent_of :: "access_state \<Rightarrow> task_ref \<Rightarrow> task_ref option" where
  "parent_of s t = t_parent (ds_tasks s t)"

fun access_map :: "DataAccessObjectType \<Rightarrow> TaskDataAccesses \<Rightarrow> DataAccess region_map" where
  "access_map access_type td = td_accesses td"
| "access_map fragment_type td = td_accessFragments td"
| "access_map taskwait_type td = td_taskwaitFragments td"
| "access_map top_level_sink_type td = td_taskwaitFragments td"

fun set_access_map :: "DataAccessObjectType \<Rightarrow> DataAccess region_map \<Rightarrow> TaskDataAccesses \<Rightarrow> TaskDataAccesses" where
  "set_access_map access_type m td = td\<lparr>td_accesses := m\<rparr>"
| "set_access_map fragment_type m td = td\<lparr>td_accessFragments := m\<rparr>"
| "set_access_map taskwait_type m td = td\<lparr>td_taskwaitFragments := m\<rparr>"
| "set_access_map top_level_sink_type m td = td\<lparr>td_taskwaitFragments := m\<rparr>"

definition map_in :: "task_ref \<Rightarrow> DataAccessObjectType \<Rightarrow> access_state \<Rightarrow> DataAccess region_map" where
  "map_in t k s = access_map k (ds_structures s t)"

definition put_map :: "task_ref \<Rightarrow> DataAccessObjectType \<Rightarrow> DataAccess region_map \<Rightarrow> access_state \<Rightarrow> access_state" where
  "put_map t k m s =
     s\<lparr>ds_structures := (ds_structures s)(t := set_access_map k m (ds_structures s t))\<rparr>"

definition bottom_in :: "task_ref \<Rightarrow> access_state \<Rightarrow> BottomMapEntry region_map" where
  "bottom_in t s = td_subaccessBottomMap (ds_structures s t)"

definition put_bottom :: "task_ref \<Rightarrow> BottomMapEntry region_map \<Rightarrow> access_state \<Rightarrow> access_state" where
  "put_bottom t m s =
     s\<lparr>ds_structures := (ds_structures s)(t := (ds_structures s t)\<lparr>td_subaccessBottomMap := m\<rparr>)\<rparr>"

definition load :: "access_ptr \<Rightarrow> access_state \<Rightarrow> DataAccess" where
  "load ptr s = (case ptr of (t, k, p) \<Rightarrow> rm_contents (map_in t k s) p)"

definition store :: "access_ptr \<Rightarrow> DataAccess \<Rightarrow> access_state \<Rightarrow> access_state" where
  "store ptr a s =
     (case ptr of (t, k, p) \<Rightarrow>
        (let m = map_in t k s in put_map t k (m\<lparr>rm_contents := (rm_contents m)(p := a)\<rparr>) s))"

definition region_of :: "access_ptr \<Rightarrow> access_state \<Rightarrow> DataAccessRegion" where
  "region_of ptr s =
     (case ptr of (t, k, p) \<Rightarrow>
        (case region_at (map_in t k s) p of None \<Rightarrow> DataAccessRegion_none | Some r \<Rightarrow> r))"

definition with_task :: "task_ref \<Rightarrow> (task \<Rightarrow> task) \<Rightarrow> access_state \<Rightarrow> access_state" where
  "with_task t f s = s\<lparr>ds_tasks := (ds_tasks s)(t := f (ds_tasks s t))\<rparr>"

definition with_structures :: "task_ref \<Rightarrow> (TaskDataAccesses \<Rightarrow> TaskDataAccesses) \<Rightarrow> access_state \<Rightarrow> access_state" where
  "with_structures t f s = s\<lparr>ds_structures := (ds_structures s)(t := f (ds_structures s t))\<rparr>"

definition with_hp :: "(CPUDependencyData \<Rightarrow> CPUDependencyData) \<Rightarrow> access_state \<Rightarrow> access_state" where
  "with_hp f s = s\<lparr>ds_hp := f (ds_hp s)\<rparr>"

definition push_operation :: "UpdateOperation \<Rightarrow> access_state \<Rightarrow> access_state" where
  "push_operation u =
     with_hp (\<lambda>hp. if UpdateOperation_empty u then hp
                   else hp\<lparr>cd_delayedOperations := cd_delayedOperations hp @ [u]\<rparr>)"

definition push_satisfied :: "task_ref \<Rightarrow> access_state \<Rightarrow> access_state" where
  "push_satisfied t = with_hp (\<lambda>hp. hp\<lparr>cd_satisfiedOriginators := cd_satisfiedOriginators hp @ [t]\<rparr>)"

definition push_removable :: "task_ref \<Rightarrow> access_state \<Rightarrow> access_state" where
  "push_removable t = with_hp (\<lambda>hp. hp\<lparr>cd_removableTasks := cd_removableTasks hp @ [t]\<rparr>)"

section \<open>Traversals inside the state\<close>

definition returned :: "'a result option \<Rightarrow> 'a result" where
  "returned r = (case r of None \<Rightarrow> Inl (FatalError ''does not return'') | Some x \<Rightarrow> x)"

text \<open>The processor of a traversal reads and writes the map where the state keeps it.\<close>

definition inside ::
  "('s \<Rightarrow> 'c region_map) \<Rightarrow> ('c region_map \<Rightarrow> 's \<Rightarrow> 's) \<Rightarrow> ('x \<Rightarrow> 's \<Rightarrow> (bool \<times> 's) result) \<Rightarrow>
     'x \<Rightarrow> ('c, 's) map_state \<Rightarrow> (bool \<times> ('c, 's) map_state) result" where
  "inside get put f x st =
     result_bind (f x (put (fst st) (snd st))) (\<lambda>(cont, s). Inr (cont, get s, s))"

definition traverse ::
  "('s \<Rightarrow> 'c region_map) \<Rightarrow> ('c region_map \<Rightarrow> 's \<Rightarrow> 's) \<Rightarrow>
     (('c, 's) map_state \<Rightarrow> (bool \<times> ('c, 's) map_state) result option) \<Rightarrow> 's \<Rightarrow> (bool \<times> 's) result" where
  "traverse get put trav s =
     result_bind (returned (trav (get s, s))) (\<lambda>(cont, m, s1). Inr (cont, put m s1))"

type_synonym access_processor = "nat \<Rightarrow> access_state \<Rightarrow> (bool \<times> access_state) result"
type_synonym region_processor = "DataAccessRegion \<Rightarrow> access_state \<Rightarrow> (bool \<times> access_state) result"

definition intersecting_accesses ::
  "avl_ops \<Rightarrow> task_ref \<Rightarrow> DataAccessObjectType \<Rightarrow> DataAccessRegion \<Rightarrow> access_processor \<Rightarrow>
     access_state \<Rightarrow> (bool \<times> access_state) result" where
  "intersecting_accesses avl t k region f =
     traverse (map_in t k) (put_map t k)
       (processIntersecting avl region (inside (map_in t k) (put_map t k) f))"

definition all_accesses ::
  "task_ref \<Rightarrow> DataAccessObjectType \<Rightarrow> access_processor \<Rightarrow> access_state \<Rightarrow> (bool \<times> access_state) result" where
  "all_accesses t k f =
     traverse (map_in t k) (put_map t k) (processAll (inside (map_in t k) (put_map t k) f))"

definition tiled_accesses ::
  "avl_ops \<Rightarrow> task_ref \<Rightarrow> DataAccessObjectType \<Rightarrow> DataAccessRegion \<Rightarrow> access_processor \<Rightarrow> region_processor \<Rightarrow>
     access_state \<Rightarrow> (bool \<times> access_state) result" where
  "tiled_accesses avl t k region f g =
     traverse (map_in t k) (put_map t k)
       (processIntersectingAndMissing avl region (inside (map_in t k) (put_map t k) f)
          (inside (map_in t k) (put_map t k) g))"

definition intersecting_entries ::
  "avl_ops \<Rightarrow> task_ref \<Rightarrow> DataAccessRegion \<Rightarrow> access_processor \<Rightarrow> access_state \<Rightarrow> (bool \<times> access_state) result" where
  "intersecting_entries avl t region f =
     traverse (bottom_in t) (put_bottom t)
       (processIntersecting avl region (inside (bottom_in t) (put_bottom t) f))"

definition all_entries ::
  "task_ref \<Rightarrow> access_processor \<Rightarrow> access_state \<Rightarrow> (bool \<times> access_state) result" where
  "all_entries t f =
     traverse (bottom_in t) (put_bottom t) (processAll (inside (bottom_in t) (put_bottom t) f))"

definition tiled_entries ::
  "avl_ops \<Rightarrow> task_ref \<Rightarrow> DataAccessRegion \<Rightarrow> access_processor \<Rightarrow> region_processor \<Rightarrow>
     access_state \<Rightarrow> (bool \<times> access_state) result" where
  "tiled_entries avl t region f g =
     traverse (bottom_in t) (put_bottom t)
       (processIntersectingAndMissing avl region (inside (bottom_in t) (put_bottom t) f)
          (inside (bottom_in t) (put_bottom t) g))"

text \<open>A processor that always answers that the traversal continues.\<close>

definition continue :: "access_state result \<Rightarrow> (bool \<times> access_state) result" where
  "continue r = result_bind r (\<lambda>s. Inr (True, s))"

definition ended :: "(bool \<times> access_state) result \<Rightarrow> access_state result" where
  "ended r = result_bind r (\<lambda>(_, s). Inr s)"

section \<open>Status changes\<close>

type_synonym status_handler =
  "DataAccessStatusEffects \<Rightarrow> DataAccessStatusEffects \<Rightarrow> access_ptr \<Rightarrow> access_state \<Rightarrow> access_state result"

text \<open>
  The pattern around every change of an access: the effects before, the change, the effects after, and
  the handler.
\<close>

definition change_access ::
  "status_handler \<Rightarrow> access_ptr \<Rightarrow> (DataAccess \<Rightarrow> DataAccess result) \<Rightarrow> access_state \<Rightarrow> access_state result" where
  "change_access handle ptr f s =
     result_bind (effects_of (parent_of s) (load ptr s)) (\<lambda>initial.
     result_bind (f (load ptr s)) (\<lambda>a.
     result_bind (effects_of (parent_of s) a) (\<lambda>updated.
       handle initial updated ptr (store ptr a s))))"

definition count_registration :: status_handler where
  "count_registration initial updated ptr s =
     (case ptr of (t, k, p) \<Rightarrow>
        if ef_isRegistered initial \<noteq> ef_isRegistered updated
        then assert_that (\<not> ef_isRegistered initial) ''!initialStatus._isRegistered''
          (let s1 =
             (if \<not> ef_isRemovable initial
              then
                (let s0 = (if td_removalBlockers (ds_structures s t) = 0
                           then with_task t increaseRemovalBlockingCount s else s) in
                 with_structures t (\<lambda>td. td\<lparr>td_removalBlockers := td_removalBlockers td + 1,
                     td_liveTaskwaitFragmentCount := td_liveTaskwaitFragmentCount td +
                       (if fa_objectType (load ptr s) = taskwait_type then 1 else 0)\<rparr>) s0)
              else s) in
           Inr (if ef_enforcesDependency updated then with_task t (increasePredecessors 1) s1 else s1))
        else Inr s)"

definition count_dependency :: status_handler where
  "count_dependency initial updated ptr s =
     (case ptr of (t, k, p) \<Rightarrow>
        if ef_enforcesDependency initial \<noteq> ef_enforcesDependency updated
        then
          (if ef_enforcesDependency updated
           then assert_that (\<not> ef_isRegistered initial \<and> ef_isRegistered updated)
                  ''!initialStatus._isRegistered && updatedStatus._isRegistered'' (Inr s)
           else
             (case decreasePredecessors 1 (ds_tasks s t) of (ready, task) \<Rightarrow>
                Inr (if ready then push_satisfied t (with_task t (\<lambda>_. task) s) else with_task t (\<lambda>_. task) s)))
        else Inr s)"

text \<open>\<open>ReductionInfo::combineRegion\<close>: the calls of the combination function are recorded.\<close>

definition combineRegion :: "nat \<Rightarrow> DataAccessRegion \<Rightarrow> bool list \<Rightarrow> ReductionInfo \<Rightarrow> (bool \<times> ReductionInfo) result" where
  "combineRegion nCpus region cpus ri =
     assert_that (nCpus > 0) ''nCpus > 0''
       (assert_that (cpus \<noteq> []) ''reductionCpuSet.size() > 0''
         (let ri1 = ri\<lparr>ri_combined := ri_combined ri @
                         map (\<lambda>i. (i, region)) (filter (\<lambda>i. i < length cpus \<and> cpus ! i) [0..<nCpus]),
                       ri_sizeCounter := ri_sizeCounter ri - dr_length region\<rparr> in
          Inr (ri_sizeCounter ri1 = 0, ri1)))"

definition close_reduction :: status_handler where
  "close_reduction initial updated ptr s =
     (if ef_closesPreviousReduction initial \<noteq> ef_closesPreviousReduction updated
      then assert_that (\<not> ef_closesPreviousReduction initial) ''!initialStatus._closesPreviousReduction''
        (let a = load ptr s in
         assert_that (fa_objectType a = access_type \<or> fa_objectType a = taskwait_type)
           ''access->getObjectType() is access_type or taskwait_type''
           (case fa_previousReductionInfo a of
              None \<Rightarrow> Inl (AssertFailed ''prevReductionInfo != nullptr'')
            | Some r \<Rightarrow>
                (case ds_reductions s r of
                   None \<Rightarrow> Inl (FatalError ''deleted ReductionInfo'')
                 | Some ri \<Rightarrow>
                     result_bind (combineRegion (ds_nCpus s) (region_of ptr s) (fa_previousReductionCpuSet a) ri)
                       (\<lambda>(wasLast, ri1).
                          Inr (s\<lparr>ds_reductions := (ds_reductions s)(r := if wasLast then None else Some ri1)\<rparr>)))))
      else Inr s)"

text \<open>
  A change of one effect: the assertion that it did not hold before, and the change of the update
  operation.
\<close>

definition raise_effect ::
  "(DataAccessStatusEffects \<Rightarrow> bool) \<Rightarrow> string \<Rightarrow> DataAccessStatusEffects \<Rightarrow> DataAccessStatusEffects \<Rightarrow>
     ('u \<Rightarrow> 'u result) \<Rightarrow> 'u \<Rightarrow> 'u result" where
  "raise_effect ef msg initial updated f u =
     (if ef initial \<noteq> ef updated then assert_that (\<not> ef initial) msg (f u) else Inr u)"

definition merge_cpu_sets :: "DataAccess \<Rightarrow> DataAccess result" where
  "merge_cpu_sets a =
     (if fa_reductionInfo a = fa_previousReductionInfo a
      then assert_that (fa_previousReductionCpuSet a \<noteq> []) ''access->getPreviousReductionCpuSet().size() > 0''
        (assert_that (length (fa_reductionCpuSet a) = length (fa_previousReductionCpuSet a))
          ''access->getReductionCpuSet().size() == access->getPreviousReductionCpuSet().size()''
          (Inr (a\<lparr>fa_reductionCpuSet := map2 (\<or>) (fa_reductionCpuSet a) (fa_previousReductionCpuSet a)\<rparr>)))
      else Inr a)"

definition cpu_set_to_next :: "bool \<Rightarrow> UpdateOperation \<times> DataAccess \<Rightarrow> (UpdateOperation \<times> DataAccess) result" where
  "cpu_set_to_next final ua =
     (case ua of (u, a) \<Rightarrow>
        assert_that (fa_type a = REDUCTION_ACCESS_TYPE) ''access->getType() == REDUCTION_ACCESS_TYPE''
          (assert_that (hasReductionInfo a) ''access->receivedReductionInfo() || access->allocatedReductionInfo()''
            (assert_that (fa_reductionCpuSet a \<noteq> []) ''access->getReductionCpuSet().size() > 0''
              (assert_that (fa_weak a \<or> final \<or> list_ex id (fa_reductionCpuSet a))
                ''access->isWeak() || task->isFinal() || access->getReductionCpuSet().any()''
                (result_bind (merge_cpu_sets a) (\<lambda>a1. Inr (u\<lparr>uo_reductionCpuSet := fa_reductionCpuSet a1\<rparr>, a1)))))))"

text \<open>The update of the next access, and the access whose CPU set the computation may have changed.\<close>

definition next_operation ::
  "bool \<Rightarrow> DataAccessStatusEffects \<Rightarrow> DataAccessStatusEffects \<Rightarrow> DataAccessLink \<Rightarrow> DataAccessRegion \<Rightarrow>
     DataAccess \<Rightarrow> (UpdateOperation \<times> DataAccess) result" where
  "next_operation final initial updated next region a =
     result_bind (raise_effect ef_readToNext ''!initialStatus._propagatesReadSatisfiabilityToNext'' initial updated
       (\<lambda>u. Inr (u\<lparr>uo_makeReadSatisfied := True\<rparr>)) (UpdateOperation_new next region)) (\<lambda>u.
     result_bind (raise_effect ef_writeToNext ''!initialStatus._propagatesWriteSatisfiabilityToNext'' initial updated
       (\<lambda>u. assert_that (fa_reductionInfoInhibited a \<or> ef_reductionInfoToNext updated)
              ''!access->canPropagateReductionInfo() || updatedStatus._propagatesReductionInfoToNext''
              (Inr (u\<lparr>uo_makeWriteSatisfied := True\<rparr>))) u) (\<lambda>u.
     result_bind (raise_effect ef_concurrentToNext ''!initialStatus._propagatesConcurrentSatisfiabilityToNext''
       initial updated (\<lambda>u. Inr (u\<lparr>uo_makeConcurrentSatisfied := True\<rparr>)) u) (\<lambda>u.
     result_bind (raise_effect ef_reductionInfoToNext ''!initialStatus._propagatesReductionInfoToNext'' initial updated
       (\<lambda>u. assert_that (fa_type a \<noteq> REDUCTION_ACCESS_TYPE \<or> hasReductionInfo a)
              ''access->receivedReductionInfo() || access->allocatedReductionInfo()''
              (Inr (u\<lparr>uo_setReductionInfo := True, uo_reductionInfo := fa_reductionInfo a\<rparr>))) u) (\<lambda>u.
     result_bind (raise_effect ef_reductionCpuSetToNext ''!initialStatus._propagatesReductionCpuSetToNext''
       initial updated (cpu_set_to_next final) (u, a)) (\<lambda>(u, a1).
     result_bind (raise_effect ef_makesNextTopmost ''!initialStatus._makesNextTopmost'' initial updated
       (\<lambda>u. Inr (u\<lparr>uo_makeTopmost := True\<rparr>)) u) (\<lambda>u.
     result_bind (raise_effect ef_propagatesTopLevel ''!initialStatus._propagatesTopLevel'' initial updated
       (\<lambda>u. Inr (u\<lparr>uo_makeTopLevel := True\<rparr>)) u) (\<lambda>u.
     Inr (u, a1))))))))"

definition propagate_to_next :: status_handler where
  "propagate_to_next initial updated ptr s =
     (case ptr of (t, k, p) \<Rightarrow>
        (let a = load ptr s in
         case fa_next a of
           None \<Rightarrow> Inr s
         | Some next \<Rightarrow>
             result_bind (next_operation (isFinal (ds_tasks s t)) initial updated next (region_of ptr s) a)
               (\<lambda>(u, a1). Inr (push_operation u (store ptr a1 s)))))"

definition cpu_set_to_fragments :: "UpdateOperation \<times> DataAccess \<Rightarrow> (UpdateOperation \<times> DataAccess) result" where
  "cpu_set_to_fragments ua =
     (case ua of (u, a) \<Rightarrow>
        if fa_type a = REDUCTION_ACCESS_TYPE
        then assert_that (hasReductionInfo a) ''access->receivedReductionInfo() || access->allocatedReductionInfo()''
          (result_bind (merge_cpu_sets a) (\<lambda>a1. Inr (u\<lparr>uo_reductionCpuSet := fa_reductionCpuSet a1\<rparr>, a1)))
        else assert_that (fa_reductionCpuSet a = []) ''access->getReductionCpuSet().size() == 0''
          (Inr (u\<lparr>uo_reductionCpuSet := fa_previousReductionCpuSet a\<rparr>, a)))"

definition fragments_operation ::
  "DataAccessStatusEffects \<Rightarrow> DataAccessStatusEffects \<Rightarrow> task_ref \<Rightarrow> DataAccessRegion \<Rightarrow> DataAccess \<Rightarrow>
     (UpdateOperation \<times> DataAccess) result" where
  "fragments_operation initial updated t region a =
     result_bind (raise_effect ef_readToFragments ''!initialStatus._propagatesReadSatisfiabilityToFragments''
       initial updated (\<lambda>u. Inr (u\<lparr>uo_makeReadSatisfied := True\<rparr>))
       (UpdateOperation_new \<lparr>dl_task = t, dl_objectType = fragment_type\<rparr> region)) (\<lambda>u.
     result_bind (raise_effect ef_writeToFragments ''!initialStatus._propagatesWriteSatisfiabilityToFragments''
       initial updated (\<lambda>u. Inr (u\<lparr>uo_makeWriteSatisfied := True\<rparr>)) u) (\<lambda>u.
     result_bind (raise_effect ef_concurrentToFragments ''!initialStatus._propagatesConcurrentSatisfiabilityToFragments''
       initial updated (\<lambda>u. Inr (u\<lparr>uo_makeConcurrentSatisfied := True\<rparr>)) u) (\<lambda>u.
     result_bind (raise_effect ef_reductionInfoToFragments ''!initialStatus._propagatesReductionInfoToFragments''
       initial updated
       (\<lambda>u. assert_that (fa_type a \<noteq> REDUCTION_ACCESS_TYPE \<or> hasReductionInfo a)
              ''access->receivedReductionInfo() || access->allocatedReductionInfo()''
              (Inr (u\<lparr>uo_setReductionInfo := True, uo_reductionInfo := fa_reductionInfo a\<rparr>))) u) (\<lambda>u.
     raise_effect ef_reductionCpuSetToFragments ''!initialStatus._propagatesReductionCpuSetToFragments''
       initial updated cpu_set_to_fragments (u, a)))))"

definition propagate_to_fragments :: status_handler where
  "propagate_to_fragments initial updated ptr s =
     (case ptr of (t, k, p) \<Rightarrow>
        (let a = load ptr s in
         if fa_hasSubaccesses a
         then result_bind (fragments_operation initial updated t (region_of ptr s) a)
                (\<lambda>(u, a1). Inr (push_operation u (store ptr a1 s)))
         else Inr s))"


section \<open>Fragmentation\<close>

text \<open>
  \<open>setUpNewFragment\<close> registers a new fragment with \<open>CPUDependencyData\<close> of its own, which must stay empty. It is
  the postprocessor of \<open>fragmentByIntersection\<close>, which has no result: an error is kept in the state.
\<close>

definition with_local_hp :: "(access_state \<Rightarrow> access_state result) \<Rightarrow> access_state \<Rightarrow> access_state result" where
  "with_local_hp f s =
     result_bind (f (s\<lparr>ds_hp := CPUDependencyData_new\<rparr>)) (\<lambda>s1.
       assert_that (CPUDependencyData_empty (ds_hp s1)) ''hpDependencyData.empty()'' (Inr (s1\<lparr>ds_hp := ds_hp s\<rparr>)))"

definition setUpNewFragment :: "status_handler \<Rightarrow> access_ptr \<Rightarrow> access_ptr \<Rightarrow> access_state \<Rightarrow> access_state result" where
  "setUpNewFragment handle fragment original s =
     (if fragment \<noteq> original then with_local_hp (change_access handle fragment setRegistered) s else Inr s)"

definition set_up_in_map ::
  "status_handler \<Rightarrow> task_ref \<Rightarrow> DataAccessObjectType \<Rightarrow> nat \<Rightarrow> nat \<Rightarrow>
     DataAccess region_map \<times> access_state result \<Rightarrow> DataAccess region_map \<times> access_state result" where
  "set_up_in_map handle t k new original st =
     (case st of (m, r) \<Rightarrow>
        (case result_bind r (\<lambda>s. setUpNewFragment handle (t, k, new) (t, k, original) (put_map t k m s)) of
           Inl e \<Rightarrow> (m, Inl e)
         | Inr s1 \<Rightarrow> (map_in t k s1, Inr s1)))"

text \<open>
  The three functions that fragment an object of a kind. The node that is cut reaches beyond the region,
  so the duplicator is called, and its assertions on the original are checked first.
\<close>

definition fragment_object ::
  "avl_ops \<Rightarrow> status_handler \<Rightarrow> DataAccessObjectType set \<Rightarrow> access_ptr \<Rightarrow> DataAccessRegion \<Rightarrow> access_state \<Rightarrow>
     (nat \<times> access_state) result" where
  "fragment_object avl handle kinds ptr region s =
     (case ptr of (t, k, p) \<Rightarrow>
        (let a = load ptr s in
         assert_that (\<not> fa_discounted a) ''!dataAccess->hasBeenDiscounted()''
           (assert_that (fa_objectType a \<in> kinds) ''dataAccess->getObjectType()''
             (if fullyContainedIn (region_of ptr s) region then Inr (p, s)
              else
                assert_that (fa_registered a) ''toBeDuplicated.isRegistered()''
                  (result_bind
                    (fragmentByIntersection avl p region False duplicateDataAccess (set_up_in_map handle t k)
                       (map_in t k s, Inr s))
                    (\<lambda>(ip, m, r). result_bind r (\<lambda>s1.
                       case ip of
                         None \<Rightarrow> Inl (FatalError ''invalid iterator'')
                       | Some q \<Rightarrow>
                           (let s2 = put_map t k m s1 in
                            assert_that (fullyContainedIn (region_of (t, k, q) s2) region)
                              ''dataAccess->getAccessRegion().fullyContainedIn(region)'' (Inr (q, s2))))))))))"

definition fragmentAccessObject ::
  "avl_ops \<Rightarrow> status_handler \<Rightarrow> access_ptr \<Rightarrow> DataAccessRegion \<Rightarrow> access_state \<Rightarrow> (nat \<times> access_state) result" where
  "fragmentAccessObject avl handle = fragment_object avl handle {access_type}"

definition fragmentFragmentObject ::
  "avl_ops \<Rightarrow> status_handler \<Rightarrow> access_ptr \<Rightarrow> DataAccessRegion \<Rightarrow> access_state \<Rightarrow> (nat \<times> access_state) result" where
  "fragmentFragmentObject avl handle = fragment_object avl handle {fragment_type}"

definition fragmentTaskwaitFragmentObject ::
  "avl_ops \<Rightarrow> status_handler \<Rightarrow> access_ptr \<Rightarrow> DataAccessRegion \<Rightarrow> access_state \<Rightarrow> (nat \<times> access_state) result" where
  "fragmentTaskwaitFragmentObject avl handle = fragment_object avl handle {taskwait_type, top_level_sink_type}"

definition fragmentAccess ::
  "avl_ops \<Rightarrow> status_handler \<Rightarrow> access_ptr \<Rightarrow> DataAccessRegion \<Rightarrow> access_state \<Rightarrow> (nat \<times> access_state) result" where
  "fragmentAccess avl handle ptr region s =
     (let a = load ptr s in
      assert_that (\<not> fa_discounted a) ''!dataAccess->hasBeenDiscounted()''
        (if fullyContainedIn (region_of ptr s) region then Inr (snd (snd ptr), s)
         else if fa_objectType a = access_type then fragmentAccessObject avl handle ptr region s
         else if fa_objectType a = fragment_type then fragmentFragmentObject avl handle ptr region s
         else fragmentTaskwaitFragmentObject avl handle ptr region s))"

text \<open>An entry of a bottom map is copied with its link and type.\<close>

definition fragmentBottomMapEntry ::
  "avl_ops \<Rightarrow> task_ref \<Rightarrow> nat \<Rightarrow> DataAccessRegion \<Rightarrow> bool \<Rightarrow> access_state \<Rightarrow> (nat option \<times> access_state) result" where
  "fragmentBottomMapEntry avl t p region removeIntersection s =
     (case region_at (bottom_in t s) p of
        None \<Rightarrow> Inl (FatalError ''invalid iterator'')
      | Some r \<Rightarrow>
          (if fullyContainedIn r region then Inr (Some p, s)
           else
             result_bind
               (fragmentByIntersection avl p region removeIntersection (\<lambda>e. e) (\<lambda>_ _ st. st) (bottom_in t s, ()))
               (\<lambda>(ip, m, _).
                  (let s1 = put_bottom t m s in
                   if removeIntersection then Inr (None, s1)
                   else
                     assert_that (case Option.bind ip (region_at m) of None \<Rightarrow> False | Some r1 \<Rightarrow> fullyContainedIn r1 region)
                       ''bottomMapEntry->getAccessRegion().fullyContainedIn(region)'' (Inr (ip, s1))))))"

section \<open>Links\<close>

text \<open>The accesses that a link and a region stand for, each cut to the region.\<close>

definition followLink ::
  "avl_ops \<Rightarrow> status_handler \<Rightarrow> DataAccessLink \<Rightarrow> DataAccessRegion \<Rightarrow>
     (access_ptr \<Rightarrow> access_state \<Rightarrow> (bool \<times> access_state) result) \<Rightarrow> access_state \<Rightarrow> (bool \<times> access_state) result" where
  "followLink avl handle link region processor =
     (let t = dl_task link; k = dl_objectType link in
      intersecting_accesses avl t k region (\<lambda>p s.
        assert_that (\<not> fa_discounted (load (t, k, p) s)) ''!access->hasBeenDiscounted()''
          (result_bind
            (if k = access_type then fragmentAccessObject avl handle (t, k, p) region s
             else if k = fragment_type then fragmentFragmentObject avl handle (t, k, p) region s
             else fragmentTaskwaitFragmentObject avl handle (t, k, p) region s)
            (\<lambda>(q, s1). processor (t, k, q) s1))))"

text \<open>\<open>foreachBottomMapMatch\<close>, whose second lambda does nothing in its only use.\<close>

definition foreachBottomMapMatch ::
  "avl_ops \<Rightarrow> status_handler \<Rightarrow> DataAccessRegion \<Rightarrow> task_ref \<Rightarrow> (access_ptr \<Rightarrow> access_state \<Rightarrow> access_state result) \<Rightarrow>
     access_state \<Rightarrow> access_state result" where
  "foreachBottomMapMatch avl handle region task processor s =
     ended (intersecting_entries avl task region (\<lambda>b s.
       (case region_at (bottom_in task s) b of
          None \<Rightarrow> Inl (FatalError ''invalid iterator'')
        | Some r \<Rightarrow>
            (let target = bm_link (rm_contents (bottom_in task s) b) in
             assert_that (dl_task target = task \<longrightarrow> dl_objectType target \<noteq> access_type)
               ''target._objectType is fragment_type, taskwait_type or top_level_sink_type''
               (continue (ended
                 (followLink avl handle target (region_intersect region r) (\<lambda>ptr s.
                    assert_that (fa_reachable (load ptr s)) ''subaccess->isReachable()''
                      (assert_that (fa_inBottomMap (load ptr s)) ''subaccess->isInBottomMap()''
                        (continue (processor ptr s)))) s)))))) s)"

record BottomMapUpdateOperation =
  bo_region :: DataAccessRegion
  bo_parentAccessType :: DataAccessType
  bo_linkBottomMapAccessesToNext :: bool
  bo_inhibitRead :: bool
  bo_inhibitConcurrent :: bool
  bo_inhibitReductionInfo :: bool
  bo_next :: DataAccessLink

definition processBottomMapUpdate ::
  "avl_ops \<Rightarrow> status_handler \<Rightarrow> BottomMapUpdateOperation \<Rightarrow> task_ref \<Rightarrow> access_state \<Rightarrow> access_state result" where
  "processBottomMapUpdate avl handle operation task s =
     assert_that (bo_linkBottomMapAccessesToNext operation) ''!operation.empty()''
       (assert_that (\<not> region_empty (bo_region operation)) ''!operation._region.empty()''
         (foreachBottomMapMatch avl handle (bo_region operation) task (\<lambda>ptr s.
            fail_if ((bo_parentAccessType operation = CONCURRENT_ACCESS_TYPE \<or>
                      bo_parentAccessType operation = COMMUTATIVE_ACCESS_TYPE) \<and>
                     fa_type (load ptr s) = REDUCTION_ACCESS_TYPE)
              ''declares a reduction within a region registered as concurrent or commutative without a taskwait''
              (change_access handle ptr (\<lambda>a.
                 result_bind (when_result (bo_inhibitRead operation) unsetCanPropagateReadSatisfiability a) (\<lambda>a.
                 result_bind (when_result (bo_inhibitConcurrent operation) unsetCanPropagateConcurrentSatisfiability a) (\<lambda>a.
                 result_bind (when_result (bo_inhibitReductionInfo operation) unsetCanPropagateReductionInfo a) (\<lambda>a.
                   assert_that (fa_next a = None) ''!access->hasNext()'' (Inr (setNext (bo_next operation) a)))))) s)) s))"

definition update_bottom_map :: "avl_ops \<Rightarrow> status_handler \<Rightarrow> status_handler" where
  "update_bottom_map avl handle initial updated ptr s =
     (case ptr of (t, k, p) \<Rightarrow>
        (let a = load ptr s in
         if fa_hasSubaccesses a \<and> ef_linksBottomMap initial \<noteq> ef_linksBottomMap updated
         then
           (case fa_next a of
              None \<Rightarrow> Inl (FatalError ''null link'')
            | Some next \<Rightarrow>
                assert_that (\<not> ef_writeToNext updated) ''!updatedStatus._propagatesWriteSatisfiabilityToNext''
                  (processBottomMapUpdate avl handle
                    \<lparr>bo_region = region_of ptr s, bo_parentAccessType = fa_type a,
                     bo_linkBottomMapAccessesToNext = True,
                     bo_inhibitRead = (fa_type a = READ_ACCESS_TYPE),
                     bo_inhibitConcurrent = (fa_type a = CONCURRENT_ACCESS_TYPE),
                     bo_inhibitReductionInfo =
                       (fa_type a \<noteq> WRITE_ACCESS_TYPE \<and> fa_type a \<noteq> READWRITE_ACCESS_TYPE),
                     bo_next = next\<rparr> t s))
         else Inr s))"

section \<open>Removal\<close>

definition erase_access :: "access_ptr \<Rightarrow> access_state \<Rightarrow> access_state" where
  "erase_access ptr s = (case ptr of (t, k, p) \<Rightarrow> put_map t k (erase_node p (map_in t k s)) s)"

definition erase_entry :: "task_ref \<Rightarrow> nat \<Rightarrow> access_state \<Rightarrow> access_state" where
  "erase_entry t b s = put_bottom t (erase_node b (bottom_in t s)) s"

definition removeBottomMapTaskwaitOrTopLevelSink :: "avl_ops \<Rightarrow> access_ptr \<Rightarrow> access_state \<Rightarrow> access_state result" where
  "removeBottomMapTaskwaitOrTopLevelSink avl ptr s =
     (case ptr of (t, k, p) \<Rightarrow>
        (let a = load ptr s; region = region_of ptr s in
         assert_that (fa_originator a = t) ''access->getOriginator() == task''
           (assert_that (fa_objectType a = taskwait_type \<or> fa_objectType a = top_level_sink_type)
             ''access->getObjectType() is taskwait_type or top_level_sink_type''
             (result_bind
               (ended (intersecting_entries avl t region (\<lambda>b s.
                  (case region_at (bottom_in t s) b of
                     None \<Rightarrow> Inl (FatalError ''invalid iterator'')
                   | Some r \<Rightarrow>
                       (let link = bm_link (rm_contents (bottom_in t s) b) in
                        assert_that (fullyContainedIn region r)
                          ''access->getAccessRegion().fullyContainedIn(bottomMapEntry->getAccessRegion())''
                          (assert_that (dl_task link = t) ''bottomMapEntry->_link._task == task''
                            (assert_that (dl_objectType link = fa_objectType a)
                              ''bottomMapEntry->_link._objectType == access->getObjectType()''
                              (continue
                                (if region = r then Inr (erase_entry t b s)
                                 else result_bind (fragmentBottomMapEntry avl t b region True s) (\<lambda>(_, s1). Inr s1)))))))) s))
               (\<lambda>s1. Inr (erase_access ptr s1))))))"

text \<open>The CPUs of a taskwait on a reduction are added to the accesses of the task.\<close>

definition collect_cpu_set :: "avl_ops \<Rightarrow> access_ptr \<Rightarrow> access_state \<Rightarrow> access_state result" where
  "collect_cpu_set avl ptr s =
     (case ptr of (t, k, p) \<Rightarrow>
        (let a = load ptr s in
         assert_that (fa_reductionCpuSet a \<noteq> []) ''access->getReductionCpuSet().size() > 0''
           (ended (intersecting_accesses avl t access_type (region_of ptr s) (\<lambda>q s.
              (let d = load (t, access_type, q) s in
               assert_that (\<not> fa_discounted d \<and> fa_type d = REDUCTION_ACCESS_TYPE \<and> fa_weak d \<and> hasReductionInfo d \<and>
                            fa_receivedReductionInfo a \<and> fa_reductionInfo d = fa_reductionInfo a \<and>
                            length (fa_reductionCpuSet d) = length (fa_reductionCpuSet a))
                 ''weak reduction access of the same reduction''
                 (continue (Inr (store (t, access_type, q)
                    (d\<lparr>fa_reductionCpuSet := map2 (\<or>) (fa_reductionCpuSet d) (fa_previousReductionCpuSet a)\<rparr>) s))))) s))))"

definition unblock_removal :: "task_ref \<Rightarrow> access_state \<Rightarrow> access_state result" where
  "unblock_removal t s =
     result_bind (decreaseRemovalBlockingCount (ds_tasks s t)) (\<lambda>(removable, task).
       Inr (if removable then push_removable t (with_task t (\<lambda>_. task) s) else with_task t (\<lambda>_. task) s))"

definition discount_taskwait :: "avl_ops \<Rightarrow> access_ptr \<Rightarrow> access_state \<Rightarrow> access_state result" where
  "discount_taskwait avl ptr s =
     (case ptr of (t, k, p) \<Rightarrow>
        result_bind (if fa_type (load ptr s) = REDUCTION_ACCESS_TYPE then collect_cpu_set avl ptr s else Inr s) (\<lambda>s1.
          assert_that (td_liveTaskwaitFragmentCount (ds_structures s1 t) > 0)
            ''accessStructures._liveTaskwaitFragmentCount > 0''
            (let s2 = with_structures t (\<lambda>td.
                        td\<lparr>td_liveTaskwaitFragmentCount := td_liveTaskwaitFragmentCount td - 1\<rparr>) s1 in
             if td_liveTaskwaitFragmentCount (ds_structures s2 t) = 0 then unblock_removal t s2 else Inr s2)))"

definition discount_access :: "avl_ops \<Rightarrow> status_handler" where
  "discount_access avl initial updated ptr s =
     (case ptr of (t, k, p) \<Rightarrow>
        if ef_isRemovable initial \<noteq> ef_isRemovable updated
        then
          assert_that (\<not> ef_isRemovable initial) ''!initialStatus._isRemovable''
            (assert_that (td_removalBlockers (ds_structures s t) > 0) ''accessStructures._removalBlockers > 0''
              (let s1 = with_structures t (\<lambda>td. td\<lparr>td_removalBlockers := td_removalBlockers td - 1\<rparr>) s in
               result_bind (markAsDiscounted (load ptr s1)) (\<lambda>a.
               result_bind
                 (if fa_objectType a = taskwait_type then discount_taskwait avl ptr (store ptr a s1)
                  else Inr (store ptr a s1)) (\<lambda>s2.
               result_bind
                 (if fa_next a \<noteq> None then Inr s2
                  else
                    assert_that (fa_objectType a = taskwait_type \<or> fa_objectType a = top_level_sink_type)
                      ''access->getObjectType() is taskwait_type or top_level_sink_type''
                      (removeBottomMapTaskwaitOrTopLevelSink avl ptr s2)) (\<lambda>s3.
               if td_removalBlockers (ds_structures s3 t) = 0 then unblock_removal t s3 else Inr s3)))))
        else Inr s)"

section \<open>The handler\<close>

text \<open>
  \<open>handleDataAccessStatusChanges\<close> reaches itself through the bottom map of the task: a linked access of a
  child may in turn link the accesses of its own children. The recursion descends the nesting of tasks,
  which the first argument bounds.
\<close>

definition status_changes :: "avl_ops \<Rightarrow> status_handler \<Rightarrow> status_handler" where
  "status_changes avl handle initial updated ptr s =
     result_bind (count_registration initial updated ptr s) (\<lambda>s.
       if \<not> ef_isRegistered updated then Inr s
       else
         assert_that (ef_isSatisfied initial \<noteq> ef_isSatisfied updated \<longrightarrow> \<not> ef_isSatisfied initial)
           ''!initialStatus._isSatisfied''
           (assert_that (ef_hasNext initial \<noteq> ef_hasNext updated \<longrightarrow> \<not> ef_hasNext initial) ''!initialStatus._hasNext''
             (result_bind (count_dependency initial updated ptr s) (\<lambda>s.
              result_bind (close_reduction initial updated ptr s) (\<lambda>s.
              result_bind (propagate_to_next initial updated ptr s) (\<lambda>s.
              result_bind (propagate_to_fragments initial updated ptr s) (\<lambda>s.
              result_bind (update_bottom_map avl handle initial updated ptr s) (\<lambda>s.
                discount_access avl initial updated ptr s))))))))"

fun handleDataAccessStatusChanges :: "avl_ops \<Rightarrow> nat \<Rightarrow> status_handler" where
  "handleDataAccessStatusChanges avl 0 initial updated ptr s = Inl (FatalError ''does not return'')"
| "handleDataAccessStatusChanges avl (Suc n) initial updated ptr s =
     status_changes avl (handleDataAccessStatusChanges avl n) initial updated ptr s"

end
