(* ===== verification/N6_FragmentedRegistration.thy ===== *)
theory N6_FragmentedRegistration
  imports N6_Fragmented
begin

text \<open>
  The operations of the default dependency system that other components call
  (\<open>DataAccessRegistration.cpp\<close>): update operations, registration and linking of the accesses of a task,
  release and unregistration, and the hooks of blocking and taskwait. \<open>depth\<close> bounds the nesting of tasks
  that a status change descends. A function that takes locks is the composition of its steps, which other
  CPUs may interleave; a step is what it does under one set of locks.
\<close>

section \<open>Update operations\<close>

definition receive_reduction_info :: "access_state \<Rightarrow> UpdateOperation \<Rightarrow> DataAccess \<Rightarrow> DataAccess result" where
  "receive_reduction_info s u a =
     result_bind (setPreviousReductionInfo (uo_reductionInfo u) a) (\<lambda>a.
     result_bind
       (if fa_reductionInfo a \<noteq> None
        then assert_that (fa_type a = REDUCTION_ACCESS_TYPE) ''access->getType() == REDUCTION_ACCESS_TYPE''
               (assert_that (fa_allocatedReductionInfo a) ''access->allocatedReductionInfo()'' (Inr a))
        else
          (case uo_reductionInfo u of
             None \<Rightarrow> Inr a
           | Some r \<Rightarrow>
               (if fa_type a = REDUCTION_ACCESS_TYPE
                then
                  (case ds_reductions s r of
                     None \<Rightarrow> Inl (FatalError ''deleted ReductionInfo'')
                   | Some ri \<Rightarrow>
                       (if fa_reductionTypeAndOperatorIndex a = ri_typeAndOperatorIndex ri
                        then setReductionInfo (Some r) a else Inr a))
                else Inr a)))
       setReceivedReductionInfo)"

definition apply_update :: "access_state \<Rightarrow> UpdateOperation \<Rightarrow> DataAccess \<Rightarrow> DataAccess result" where
  "apply_update s u a =
     result_bind (when_result (uo_makeReadSatisfied u) setReadSatisfied a) (\<lambda>a.
     result_bind (when_result (uo_makeWriteSatisfied u) setWriteSatisfied a) (\<lambda>a.
     result_bind (when_result (uo_makeConcurrentSatisfied u) setConcurrentSatisfied a) (\<lambda>a.
     result_bind (when_result (uo_setReductionInfo u) (receive_reduction_info s u) a) (\<lambda>a.
     result_bind
       (when_result (uo_reductionCpuSet u \<noteq> [])
         (\<lambda>a. result_bind (setPreviousReductionCpuSet (uo_reductionCpuSet u) a) setReceivedReductionCpuSet) a) (\<lambda>a.
     result_bind (when_result (uo_makeTopmost u) setTopmost a) (\<lambda>a.
     when_result (uo_makeTopLevel u) setTopLevel a))))))"

definition applyUpdateOperationOnAccess ::
  "avl_ops \<Rightarrow> status_handler \<Rightarrow> UpdateOperation \<Rightarrow> access_ptr \<Rightarrow> access_state \<Rightarrow> access_state result" where
  "applyUpdateOperationOnAccess avl handle u ptr s =
     (case ptr of (t, k, p) \<Rightarrow>
        result_bind (fragmentAccess avl handle ptr (uo_region u) s) (\<lambda>(q, s1).
          change_access handle (t, k, q) (apply_update s1 u) s1))"

definition processUpdateOperation ::
  "avl_ops \<Rightarrow> nat \<Rightarrow> UpdateOperation \<Rightarrow> access_state \<Rightarrow> access_state result" where
  "processUpdateOperation avl depth u s =
     assert_that (\<not> UpdateOperation_empty u) ''!updateOperation.empty()''
       (let t = dl_task (uo_target u); k = dl_objectType (uo_target u) in
        ended (intersecting_accesses avl t k (uo_region u) (\<lambda>p s.
          continue (applyUpdateOperationOnAccess avl (handleDataAccessStatusChanges avl depth) u (t, k, p) s)) s))"

text \<open>One turn of the loop of \<open>processDelayedOperations\<close>: the operation is popped after it was processed.\<close>

definition delayed_operation_turn :: "avl_ops \<Rightarrow> nat \<Rightarrow> access_state \<Rightarrow> access_state result" where
  "delayed_operation_turn avl depth s =
     (case cd_delayedOperations (ds_hp s) of
        [] \<Rightarrow> Inr s
      | u # _ \<Rightarrow>
          result_bind (processUpdateOperation avl depth u s) (\<lambda>s1.
            Inr (with_hp (\<lambda>hp. hp\<lparr>cd_delayedOperations := tl (cd_delayedOperations hp)\<rparr>) s1)))"

partial_function (option) processDelayedOperations ::
  "avl_ops \<Rightarrow> nat \<Rightarrow> access_state \<Rightarrow> access_state result option" where
  [code]: "processDelayedOperations avl depth s =
     (if cd_delayedOperations (ds_hp s) = [] then Some (Inr s)
      else
        (case delayed_operation_turn avl depth s of
           Inl e \<Rightarrow> Some (Inl e)
         | Inr s1 \<Rightarrow> processDelayedOperations avl depth s1))"

text \<open>The calls of \<open>Scheduler::addReadyTask\<close> and \<open>disposeOrUnblockTask\<close> are recorded.\<close>

definition processSatisfiedOriginators_fragmented :: "access_state \<Rightarrow> access_state" where
  "processSatisfiedOriginators_fragmented s =
     with_hp (\<lambda>hp. hp\<lparr>cd_satisfiedOriginators := []\<rparr>)
       (s\<lparr>ds_readied := ds_readied s @ cd_satisfiedOriginators (ds_hp s)\<rparr>)"

definition handleRemovableTasks :: "access_state \<Rightarrow> access_state" where
  "handleRemovableTasks s =
     with_hp (\<lambda>hp. hp\<lparr>cd_removableTasks := []\<rparr>)
       (s\<lparr>ds_disposed := ds_disposed s @ cd_removableTasks (ds_hp s)\<rparr>)"

definition processDelayedOperationsSatisfiedOriginatorsAndRemovableTasks ::
  "avl_ops \<Rightarrow> nat \<Rightarrow> access_state \<Rightarrow> access_state result" where
  "processDelayedOperationsSatisfiedOriginatorsAndRemovableTasks avl depth s =
     result_bind (returned (processDelayedOperations avl depth s)) (\<lambda>s1.
       Inr (handleRemovableTasks (processSatisfiedOriginators_fragmented s1)))"

section \<open>Registration\<close>

definition upgradeAccess_fragmented :: "DataAccessType \<Rightarrow> bool \<Rightarrow> int \<Rightarrow> DataAccess \<Rightarrow> DataAccess result" where
  "upgradeAccess_fragmented accessType weak reductionTypeAndOperatorIndex a =
     assert_that (\<not> fa_discounted a) ''!dataAccess->hasBeenDiscounted()''
       (let newWeak = (fa_weak a \<and> weak) in
        if accessType \<noteq> fa_type a
        then fail_if (accessType = REDUCTION_ACCESS_TYPE \<or> fa_type a = REDUCTION_ACCESS_TYPE)
               ''has non-reduction accesses that overlap a reduction''
               (Inr (snd (DataAccess_upgrade newWeak READWRITE_ACCESS_TYPE a)))
        else fail_if (accessType = REDUCTION_ACCESS_TYPE \<and>
                      fa_reductionTypeAndOperatorIndex a \<noteq> reductionTypeAndOperatorIndex)
               ''has two overlapping reductions over different types or with different operators''
               (Inr (snd (DataAccess_upgrade newWeak accessType a))))"

text \<open>
  \<open>registerTaskDataAccess\<close> works on the accesses of the task only. The symbols gathered while the
  overlapping accesses are cut are the state of the first traversal, which also keeps a failed assertion
  of the duplicator.
\<close>

definition gather_symbols ::
  "nat \<Rightarrow> nat \<Rightarrow> (DataAccess, 64 word result) map_state \<Rightarrow> (DataAccess, 64 word result) map_state" where
  "gather_symbols new original st =
     (case st of (m, r) \<Rightarrow>
        (let a = rm_contents m original in
         (m, result_bind r (\<lambda>symbols.
               assert_that (new \<noteq> original \<longrightarrow> \<not> fa_registered a) ''!toBeDuplicated.isRegistered()''
                 (assert_that (new \<noteq> original \<longrightarrow> \<not> fa_discounted a) ''!toBeDuplicated.hasBeenDiscounted()''
                   (Inr (or symbols (fa_symbols a))))))))"

text \<open>\<open>std::bitset::set\<close> throws when the index is not below \<open>MAX_SYMBOLS\<close>.\<close>

definition initial_symbols :: "int \<Rightarrow> 64 word result" where
  "initial_symbols symbolIndex =
     fail_if (symbolIndex \<ge> 64) ''std::out_of_range''
       (Inr (if symbolIndex \<ge> 0 then set_bit (nat symbolIndex) 0 else 0))"

definition upgrade_position ::
  "DataAccessType \<Rightarrow> bool \<Rightarrow> int \<Rightarrow> (DataAccess, 64 word) processor" where
  "upgrade_position accessType weak reductionTypeAndOperatorIndex p st =
     (case st of (m, symbols) \<Rightarrow>
        result_bind (upgradeAccess_fragmented accessType weak reductionTypeAndOperatorIndex (rm_contents m p)) (\<lambda>a.
          Inr (True, m\<lparr>rm_contents := (rm_contents m)(p := addToSymbols symbols a)\<rparr>, symbols)))"

definition create_missing ::
  "avl_ops \<Rightarrow> nat \<Rightarrow> task_ref \<Rightarrow> DataAccessType \<Rightarrow> bool \<Rightarrow> int \<Rightarrow> int \<Rightarrow> (DataAccess, 64 word) missing_processor" where
  "create_missing avl nCpus task accessType weak reductionTypeAndOperatorIndex reductionIndex region st =
     (case st of (m, symbols) \<Rightarrow>
        Inr (True,
             snd (insert_node avl region
                    (addToSymbols symbols
                      (DataAccess_new nCpus access_type accessType weak task reductionTypeAndOperatorIndex reductionIndex)) m),
             symbols))"

definition registerTaskDataAccess_fragmented ::
  "avl_ops \<Rightarrow> nat \<Rightarrow> task_ref \<Rightarrow> DataAccessType \<Rightarrow> bool \<Rightarrow> DataAccessRegion \<Rightarrow> int \<Rightarrow> int \<Rightarrow> int \<Rightarrow>
     DataAccess region_map \<Rightarrow> DataAccess region_map result" where
  "registerTaskDataAccess_fragmented avl nCpus task accessType weak region symbolIndex reductionTypeAndOperatorIndex reductionIndex m =
     result_bind (initial_symbols symbolIndex) (\<lambda>symbols0.
     result_bind (returned (fragmentIntersecting avl region duplicateDataAccess gather_symbols
       (m, Inr symbols0))) (\<lambda>(_, m1, r).
     result_bind r (\<lambda>symbols.
     result_bind (returned (processIntersectingAndMissing avl region
       (upgrade_position accessType weak reductionTypeAndOperatorIndex)
       (create_missing avl nCpus task accessType weak reductionTypeAndOperatorIndex reductionIndex) (m1, symbols)))
       (\<lambda>(_, m2, _). Inr m2))))"

text \<open>\<open>register_access\<close> of \<open>RegisterDependencies.cpp\<close>: a weak access of a final task or a task loop is strong.\<close>

definition register_access_fragmented ::
  "avl_ops \<Rightarrow> task_ref \<Rightarrow> DataAccessType \<Rightarrow> bool \<Rightarrow> size_t \<Rightarrow> size_t \<Rightarrow> int \<Rightarrow> int \<Rightarrow> int \<Rightarrow> access_state \<Rightarrow>
     access_state result" where
  "register_access_fragmented avl t accessType weak start len symbolIndex reductionTypeAndOperatorIndex reductionIndex s =
     (if start = 0 \<or> len = 0 then Inr s
      else
        result_bind
          (registerTaskDataAccess_fragmented avl (ds_nCpus s) t accessType
             (weak \<and> \<not> isFinal (ds_tasks s t) \<and> \<not> isTaskloop (ds_tasks s t))
             \<lparr>dr_startAddress = start, dr_length = len\<rparr> symbolIndex reductionTypeAndOperatorIndex reductionIndex
             (map_in t access_type s))
          (\<lambda>m. Inr (put_map t access_type m s)))"

section \<open>Linking\<close>

text \<open>
  The first access of a child inside an access of its parent makes a fragment of that access. The second
  component of the result is the fragment.
\<close>

definition createInitialFragment ::
  "avl_ops \<Rightarrow> task_ref \<Rightarrow> nat \<Rightarrow> DataAccessRegion \<Rightarrow> access_state \<Rightarrow> (access_ptr \<times> access_state) result" where
  "createInitialFragment avl t p subregion s =
     (let a = load (t, access_type, p) s; region = region_of (t, access_type, p) s in
      assert_that (\<not> contains avl region (map_in t fragment_type s))
        ''!accessStructures._accessFragments.contains(dataAccess->getAccessRegion())''
        (result_bind
          (inheritFragmentStatus a
             (DataAccess_new (ds_nCpus s) fragment_type (fa_type a) (fa_weak a) (fa_originator a)
                (fa_reductionTypeAndOperatorIndex a) (fa_reductionIndex a))) (\<lambda>f.
         result_bind (setReachable f) (\<lambda>f.
         assert_that (fa_readSatisfied f \<or> \<not> fa_writeSatisfied f) ''fragment->readSatisfied() || !fragment->writeSatisfied()''
           (case insert_node avl region f (map_in t fragment_type s) of (q, m) \<Rightarrow>
              (let s1 = put_map t fragment_type m s in
               result_bind (setInBottomMap f) (\<lambda>f.
               result_bind (setHasSubaccesses (load (t, access_type, p) s1)) (\<lambda>a1.
                 (let s2 = store (t, access_type, p) a1 (store (t, fragment_type, q) f s1) in
                  result_bind
                    (if subregion \<noteq> region
                     then processIntersectingFragments region subregion
                       (\<lambda>excluded s. Inr (put_bottom t
                          (snd (insert_node avl excluded
                             \<lparr>bm_link = \<lparr>dl_task = fa_originator a, dl_objectType = fragment_type\<rparr>, bm_accessType = fa_type a\<rparr>
                             (bottom_in t s))) s))
                       (\<lambda>_ s. Inr s) (\<lambda>_ s. Inr s) s2
                     else Inr s2)
                    (\<lambda>s3. Inr ((t, fragment_type, q), s3)))))))))))"

type_synonym match_processor = "access_ptr \<Rightarrow> BottomMapEntry \<Rightarrow> access_state \<Rightarrow> (bool \<times> access_state) result"

definition match_entry ::
  "avl_ops \<Rightarrow> status_handler \<Rightarrow> task_ref \<Rightarrow> DataAccessRegion \<Rightarrow> match_processor \<Rightarrow> access_processor" where
  "match_entry avl handle parent region matching b s =
     (case region_at (bottom_in parent s) b of
        None \<Rightarrow> Inl (FatalError ''invalid iterator'')
      | Some r \<Rightarrow>
          (let subregion = region_intersect region r; contents = rm_contents (bottom_in parent s) b;
               target = bm_link contents in
           assert_that (dl_task target = parent \<longrightarrow> dl_objectType target = fragment_type)
             ''target._objectType == fragment_type''
             (result_bind
               (followLink avl handle target subregion (\<lambda>ptr s.
                  assert_that (fa_next (load ptr s) = None) ''!previous->hasNext()''
                    (assert_that (fa_inBottomMap (load ptr s)) ''previous->isInBottomMap()''
                      (matching ptr contents s))) s) (\<lambda>(result, s1).
              result_bind (fragmentBottomMapEntry avl parent b subregion False s1) (\<lambda>(e, s2).
                case e of
                  None \<Rightarrow> Inl (FatalError ''null bottom map entry'')
                | Some q \<Rightarrow> Inr (result, erase_entry parent q s2))))))"

definition match_superaccess ::
  "avl_ops \<Rightarrow> status_handler \<Rightarrow> task_ref \<Rightarrow> DataAccessRegion \<Rightarrow> match_processor \<Rightarrow> access_processor" where
  "match_superaccess avl handle parent missingRegion matching p s =
     result_bind (createInitialFragment avl parent p missingRegion s) (\<lambda>(ptr, s1).
     assert_that (fa_objectType (load ptr s1) = fragment_type) ''previous->getObjectType() == fragment_type''
       (result_bind (setTopmost (load ptr s1)) (\<lambda>f.
        result_bind (setRegistered f) (\<lambda>f.
        result_bind (effects_of (parent_of s1) f) (\<lambda>updated.
        result_bind (with_local_hp (handle effects_default updated ptr) (store ptr f s1)) (\<lambda>s2.
        result_bind (fragmentAccess avl handle ptr missingRegion s2) (\<lambda>(q, s3).
          matching (parent, fragment_type, q)
            \<lparr>bm_link = \<lparr>dl_task = parent, dl_objectType = fragment_type\<rparr>, bm_accessType = fa_type f\<rparr> s3)))))))"

definition foreachBottomMapMatchPossiblyCreatingInitialFragmentsAndMissingRegion ::
  "avl_ops \<Rightarrow> status_handler \<Rightarrow> task_ref \<Rightarrow> DataAccessRegion \<Rightarrow> match_processor \<Rightarrow> region_processor \<Rightarrow>
     access_state \<Rightarrow> (bool \<times> access_state) result" where
  "foreachBottomMapMatchPossiblyCreatingInitialFragmentsAndMissingRegion avl handle parent region matching missing =
     tiled_entries avl parent region (match_entry avl handle parent region matching)
       (\<lambda>missingRegion s.
          continue (ended (tiled_accesses avl parent access_type missingRegion
            (match_superaccess avl handle parent missingRegion matching) missing s)))"

text \<open>\<open>allocateReductionInfo\<close> for the access of a task; the functions of the user are not kept.\<close>

definition allocate_reduction :: "status_handler \<Rightarrow> access_ptr \<Rightarrow> access_state \<Rightarrow> access_state result" where
  "allocate_reduction handle ptr s =
     (let a = load ptr s; r = ds_nextReduction s;
          ri = \<lparr>ri_region = region_of ptr s, ri_typeAndOperatorIndex = fa_reductionTypeAndOperatorIndex a,
                ri_sizeCounter = dr_length (region_of ptr s), ri_combined = []\<rparr> in
      assert_that (fa_type a = REDUCTION_ACCESS_TYPE) ''dataAccess.getType() == REDUCTION_ACCESS_TYPE''
        (change_access handle ptr (\<lambda>a. result_bind (setReductionInfo (Some r) a) setAllocatedReductionInfo)
          (s\<lparr>ds_reductions := (ds_reductions s)(r := Some ri), ds_nextReduction := Suc r\<rparr>)))"

definition with_link :: "(link_locals \<Rightarrow> link_locals) \<Rightarrow> access_state \<Rightarrow> access_state" where
  "with_link f s = s\<lparr>ds_link := f (ds_link s)\<rparr>"

text \<open>The debug check that all parts of an access are local, or none.\<close>

definition check_nesting :: "access_state \<Rightarrow> access_state result" where
  "check_nesting s =
     (let l = ds_link s in
      assert_that (\<not> lo_first l \<longrightarrow> lo_local l = lo_lastWasLocal l) ''This fails with wrongly nested regions''
        (Inr (with_link (\<lambda>l. l\<lparr>lo_first := False, lo_lastWasLocal := lo_local l\<rparr>) s)))"

definition allocates_reduction :: "DataAccess \<Rightarrow> DataAccess \<Rightarrow> link_locals \<Rightarrow> bool \<times> link_locals" where
  "allocates_reduction previous a l =
     (if fa_reductionTypeAndOperatorIndex previous \<noteq> fa_reductionTypeAndOperatorIndex a then (True, l)
      else if lo_previousReductionInfo l = None then (False, l\<lparr>lo_previousReductionInfo := fa_reductionInfo previous\<rparr>)
      else (fa_reductionInfo previous \<noteq> lo_previousReductionInfo l, l))"

definition link_previous ::
  "status_handler \<Rightarrow> DataAccessLink \<Rightarrow> access_ptr \<Rightarrow> DataAccessRegion \<Rightarrow> match_processor" where
  "link_previous handle next dataAccess region ptr entry s =
     (let previous = load ptr s in
      assert_that (fa_reachable previous) ''previous->isReachable()''
        (assert_that (\<not> fa_discounted previous) ''!previous->hasBeenDiscounted()''
          (assert_that (fa_next previous = None) ''!previous->hasNext()''
            (let s1 = with_link (\<lambda>l. l\<lparr>lo_parentAccessType := bm_accessType entry,
                                      lo_local := (bm_accessType entry = NO_ACCESS_TYPE)\<rparr>) s in
             result_bind
               (if fa_type (load dataAccess s1) = REDUCTION_ACCESS_TYPE \<and> \<not> lo_hasAllocatedReductionInfo (ds_link s1)
                then
                  (case allocates_reduction previous (load dataAccess s1) (ds_link s1) of (allocates, l) \<Rightarrow>
                     (if allocates
                      then allocate_reduction handle dataAccess (s1\<lparr>ds_link := l\<lparr>lo_hasAllocatedReductionInfo := True\<rparr>\<rparr>)
                      else Inr (s1\<lparr>ds_link := l\<rparr>)))
                else Inr s1) (\<lambda>s2.
             result_bind (check_nesting s2) (\<lambda>s3.
               assert_that (fullyContainedIn (region_of ptr s3) region) ''previous->getAccessRegion().fullyContainedIn(region)''
                 (continue (change_access handle ptr (\<lambda>a. unsetInBottomMap (setNext next a)) s3))))))))"

text \<open>A region that neither the bottom map nor the accesses of the parent cover is satisfied at once.\<close>

definition satisfy_access :: "DataAccess \<Rightarrow> DataAccess result" where
  "satisfy_access a =
     result_bind (setReadSatisfied a) (\<lambda>a.
     result_bind (setWriteSatisfied a) (\<lambda>a.
     result_bind (setConcurrentSatisfied a) (\<lambda>a.
     result_bind (setReceivedReductionInfo a) (\<lambda>a.
     result_bind (setTopmost a) setTopLevel))))"

definition satisfy_missing ::
  "avl_ops \<Rightarrow> status_handler \<Rightarrow> task_ref \<Rightarrow> task_ref \<Rightarrow> access_ptr \<Rightarrow> region_processor" where
  "satisfy_missing avl handle parent t dataAccess missingRegion s =
     assert_that (\<not> contains avl missingRegion (map_in parent access_type s))
       ''!parentAccessStructures._accesses.contains(missingRegion)''
       (result_bind (check_nesting (with_link (\<lambda>l. l\<lparr>lo_local := True\<rparr>) s)) (\<lambda>s1.
        continue (ended (intersecting_accesses avl t access_type missingRegion (\<lambda>p s.
          assert_that (\<not> fa_discounted (load (t, access_type, p) s)) ''!targetAccess->hasBeenDiscounted()''
            (result_bind
              (if fa_type (load dataAccess s) = REDUCTION_ACCESS_TYPE \<and> \<not> lo_hasAllocatedReductionInfo (ds_link s)
               then allocate_reduction handle dataAccess (with_link (\<lambda>l. l\<lparr>lo_hasAllocatedReductionInfo := True\<rparr>) s)
               else Inr s) (\<lambda>s1.
             result_bind (fragmentAccess avl handle (t, access_type, p) missingRegion s1) (\<lambda>(q, s2).
               continue (change_access handle (t, access_type, q) satisfy_access s2))))) s1))))"

definition replaceMatchingInBottomMapLinkAndPropagate ::
  "avl_ops \<Rightarrow> status_handler \<Rightarrow> DataAccessLink \<Rightarrow> access_ptr \<Rightarrow> task_ref \<Rightarrow> access_state \<Rightarrow> access_state result" where
  "replaceMatchingInBottomMapLinkAndPropagate avl handle next dataAccess parent s =
     (let region = region_of dataAccess s in
      result_bind
        (ended (foreachBottomMapMatchPossiblyCreatingInitialFragmentsAndMissingRegion avl handle parent region
           (link_previous handle next dataAccess region)
           (satisfy_missing avl handle parent (dl_task next) dataAccess)
           (s\<lparr>ds_link := link_locals_new\<rparr>))) (\<lambda>s1.
        Inr (put_bottom parent
          (snd (insert_node avl region \<lparr>bm_link = next, bm_accessType = lo_parentAccessType (ds_link s1)\<rparr>
             (bottom_in parent s1))) s1)))"

definition enter_bottom_map :: "DataAccess \<Rightarrow> DataAccess result" where
  "enter_bottom_map a =
     result_bind (setInBottomMap a) (\<lambda>a. result_bind (setRegistered a) setReachable)"

definition linkTaskAccesses :: "avl_ops \<Rightarrow> nat \<Rightarrow> task_ref \<Rightarrow> access_state \<Rightarrow> access_state result" where
  "linkTaskAccesses avl depth t s =
     (if rm_nodes (map_in t access_type s) = [] then Inr s
      else
        (case parent_of s t of
           None \<Rightarrow> Inl (AssertFailed ''parent != nullptr'')
         | Some parent \<Rightarrow>
             (let handle = handleDataAccessStatusChanges avl depth in
              ended (all_accesses t access_type (\<lambda>p s.
                assert_that (\<not> fa_discounted (load (t, access_type, p) s)) ''!dataAccess->hasBeenDiscounted()''
                  (result_bind (change_access handle (t, access_type, p) enter_bottom_map s) (\<lambda>s1.
                   continue (replaceMatchingInBottomMapLinkAndPropagate avl handle
                     \<lparr>dl_task = t, dl_objectType = access_type\<rparr> (t, access_type, p) parent s1)))) s))))"

text \<open>
  \<open>registerTaskDataAccesses\<close> after \<open>register_depinfo\<close>: the section that links, then the delayed operations,
  then the guard of two predecessors is taken away. The answer is whether the task is ready.
\<close>

definition registration_links :: "avl_ops \<Rightarrow> nat \<Rightarrow> task_ref \<Rightarrow> access_state \<Rightarrow> access_state result" where
  "registration_links avl depth t s = linkTaskAccesses avl depth t (with_task t (increasePredecessors 2) s)"

definition registration_ends :: "task_ref \<Rightarrow> access_state \<Rightarrow> bool \<times> access_state" where
  "registration_ends t s =
     (case decreasePredecessors 2 (ds_tasks s t) of (ready, task) \<Rightarrow> (ready, with_task t (\<lambda>_. task) s))"

definition registerTaskDataAccesses_fragmented ::
  "avl_ops \<Rightarrow> nat \<Rightarrow> task_ref \<Rightarrow> (access_state \<Rightarrow> access_state result) \<Rightarrow> access_state \<Rightarrow> (bool \<times> access_state) result" where
  "registerTaskDataAccesses_fragmented avl depth t register_depinfo s =
     result_bind (register_depinfo s) (\<lambda>s1.
       if rm_nodes (map_in t access_type s1) \<noteq> []
       then
         result_bind (registration_links avl depth t s1) (\<lambda>s2.
         result_bind (processDelayedOperationsSatisfiedOriginatorsAndRemovableTasks avl depth s2) (\<lambda>s3.
           Inr (registration_ends t s3)))
       else Inr (True, s1))"


section \<open>Completion\<close>

definition complete_access :: "status_handler \<Rightarrow> access_ptr \<Rightarrow> access_state \<Rightarrow> access_state result" where
  "complete_access handle ptr s = change_access handle ptr setComplete s"

definition finalizeFragments :: "avl_ops \<Rightarrow> nat \<Rightarrow> task_ref \<Rightarrow> access_state \<Rightarrow> access_state result" where
  "finalizeFragments avl depth t s =
     ended (all_accesses t fragment_type (\<lambda>p s.
       assert_that (\<not> fa_discounted (load (t, fragment_type, p) s)) ''!fragment->hasBeenDiscounted()''
         (continue
           (if fa_complete (load (t, fragment_type, p) s) then Inr s
            else complete_access (handleDataAccessStatusChanges avl depth) (t, fragment_type, p) s))) s)"

definition applyToAccessAndFragments ::
  "avl_ops \<Rightarrow> status_handler \<Rightarrow> access_ptr \<Rightarrow> DataAccessRegion \<Rightarrow>
     (access_ptr \<Rightarrow> access_state \<Rightarrow> (bool \<times> access_state) result) \<Rightarrow> access_state \<Rightarrow> access_state result" where
  "applyToAccessAndFragments avl handle ptr region processor s =
     (case ptr of (t, k, p) \<Rightarrow>
        result_bind (fragmentAccess avl handle ptr region s) (\<lambda>(q, s1).
          (let hasSubaccesses = fa_hasSubaccesses (load (t, k, q) s1); finalRegion = region_of (t, k, q) s1 in
           result_bind (processor (t, k, q) s1) (\<lambda>(alsoSubaccesses, s2).
             if alsoSubaccesses \<and> hasSubaccesses
             then
               ended (intersecting_accesses avl t fragment_type finalRegion (\<lambda>f s.
                 assert_that (\<not> fa_discounted (load (t, fragment_type, f) s)) ''!fragment->hasBeenDiscounted()''
                   (result_bind (fragmentAccess avl handle (t, fragment_type, f) finalRegion s) (\<lambda>(g, s1).
                    continue (ended (processor (t, fragment_type, g) s1))))) s2)
             else Inr s2))))"

definition finalizeAccess ::
  "avl_ops \<Rightarrow> nat \<Rightarrow> task_ref \<Rightarrow> nat \<Rightarrow> DataAccessRegion \<Rightarrow> access_state \<Rightarrow> access_state result" where
  "finalizeAccess avl depth t p region s =
     (let a = load (t, access_type, p) s; handle = handleDataAccessStatusChanges avl depth in
      assert_that (fa_originator a = t) ''dataAccess->getOriginator() == finishedTask''
        (assert_that (\<not> region_empty region) ''!region.empty()''
          (if fa_complete a then Inr s
           else
             assert_that (\<not> fa_discounted a) ''!dataAccess->hasBeenDiscounted()''
               (applyToAccessAndFragments avl handle (t, access_type, p) region
                 (\<lambda>ptr s.
                    assert_that (\<not> fa_complete (load ptr s)) ''!accessOrFragment->complete()''
                      (assert_that (fa_originator (load ptr s) = t) ''accessOrFragment->getOriginator() == finishedTask''
                        (continue (complete_access handle ptr s)))) s))))"

section \<open>Taskwaits and sinks\<close>

text \<open>
  An object of a task that takes the place of a bottom map entry: created complete, linked from the
  accesses that the entry stood for. Both functions link the previous accesses to \<open>taskwait_type\<close>.
\<close>

definition complete_fragment :: "DataAccess \<Rightarrow> DataAccess result" where
  "complete_fragment a =
     result_bind (setInBottomMap a) (\<lambda>a.
     result_bind (setRegistered a) (\<lambda>a.
     result_bind (setComplete a) setReachable))"

definition wait_on_entry ::
  "avl_ops \<Rightarrow> nat \<Rightarrow> task_ref \<Rightarrow> DataAccessObjectType \<Rightarrow> nat \<Rightarrow> access_state \<Rightarrow> access_state result" where
  "wait_on_entry avl depth t kind b s =
     (case region_at (bottom_in t s) b of
        None \<Rightarrow> Inl (FatalError ''invalid iterator'')
      | Some region \<Rightarrow>
          (let handle = handleDataAccessStatusChanges avl depth;
               entry = rm_contents (bottom_in t s) b; previous = bm_link entry;
               a = DataAccess_new (ds_nCpus s) kind (bm_accessType entry) False t no_reduction_type_and_operator (- 1) in
           result_bind (effects_of (parent_of s) a) (\<lambda>initial.
           result_bind (complete_fragment a) (\<lambda>a1.
             (case insert_node avl region a1 (map_in t kind s) of (q, m) \<Rightarrow>
                (let s1 = put_map t kind m s; bm = bottom_in t s1;
                     s2 = put_bottom t (bm\<lparr>rm_contents := (rm_contents bm)(b :=
                            (rm_contents bm b)\<lparr>bm_link := \<lparr>dl_task = t, dl_objectType = kind\<rparr>\<rparr>)\<rparr>) s1 in
                 result_bind (effects_of (parent_of s2) a1) (\<lambda>updated.
                 result_bind (handle initial updated (t, kind, q) s2) (\<lambda>s3.
                   ended (followLink avl handle previous region (\<lambda>ptr s.
                     continue (change_access handle ptr
                       (\<lambda>a. unsetInBottomMap (setNext \<lparr>dl_task = t, dl_objectType = taskwait_type\<rparr> a)) s)) s3)))))))))"

definition createTaskwait :: "avl_ops \<Rightarrow> nat \<Rightarrow> task_ref \<Rightarrow> access_state \<Rightarrow> access_state result" where
  "createTaskwait avl depth t s =
     (if rm_nodes (bottom_in t s) = [] then Inr s
      else
        assert_that (rm_nodes (map_in t taskwait_type s) = []) ''accessStructures._taskwaitFragments.empty()''
          (ended (all_entries t (\<lambda>b s. continue (wait_on_entry avl depth t taskwait_type b s))
             (with_task t increaseRemovalBlockingCount s))))"

definition createTopLevelSink :: "avl_ops \<Rightarrow> nat \<Rightarrow> task_ref \<Rightarrow> access_state \<Rightarrow> access_state result" where
  "createTopLevelSink avl depth t s =
     ended (all_entries t (\<lambda>b s.
       continue
         (if bm_accessType (rm_contents (bottom_in t s) b) \<noteq> NO_ACCESS_TYPE then Inr s
          else wait_on_entry avl depth t top_level_sink_type b s)) s)"

section \<open>Release and unregistration\<close>

text \<open>Each is the section under the lock of the task, followed by the delayed operations.\<close>

definition release_section ::
  "avl_ops \<Rightarrow> nat \<Rightarrow> task_ref \<Rightarrow> DataAccessRegion \<Rightarrow> DataAccessType \<Rightarrow> bool \<Rightarrow> access_state \<Rightarrow> access_state result" where
  "release_section avl depth t region accessType weak s =
     ended (intersecting_accesses avl t access_type region (\<lambda>p s.
       (let a = load (t, access_type, p) s in
        assert_that (fa_type a = accessType) ''dataAccess->getType() == accessType''
          (assert_that (fa_weak a = weak) ''dataAccess->isWeak() == weak''
            (continue (finalizeAccess avl depth t p region s))))) s)"

definition releaseAccessRegion ::
  "avl_ops \<Rightarrow> nat \<Rightarrow> task_ref \<Rightarrow> DataAccessRegion \<Rightarrow> DataAccessType \<Rightarrow> bool \<Rightarrow> access_state \<Rightarrow> access_state result" where
  "releaseAccessRegion avl depth t region accessType weak s =
     result_bind (release_section avl depth t region accessType weak s)
       (processDelayedOperationsSatisfiedOriginatorsAndRemovableTasks avl depth)"

definition unregister_section :: "avl_ops \<Rightarrow> nat \<Rightarrow> task_ref \<Rightarrow> access_state \<Rightarrow> access_state result" where
  "unregister_section avl depth t s =
     result_bind (createTopLevelSink avl depth t s) (\<lambda>s1.
       ended (all_accesses t access_type (\<lambda>p s.
         continue (finalizeAccess avl depth t p (region_of (t, access_type, p) s) s)) s1))"

definition unregisterTaskDataAccesses_fragmented :: "avl_ops \<Rightarrow> nat \<Rightarrow> task_ref \<Rightarrow> access_state \<Rightarrow> access_state result" where
  "unregisterTaskDataAccesses_fragmented avl depth t s =
     result_bind (unregister_section avl depth t s)
       (processDelayedOperationsSatisfiedOriginatorsAndRemovableTasks avl depth)"

section \<open>Blocking and taskwait\<close>

definition hold_removal :: "task_ref \<Rightarrow> access_state \<Rightarrow> access_state" where
  "hold_removal t s = with_task t increaseRemovalBlockingCount s"

definition drop_removal :: "task_ref \<Rightarrow> access_state \<Rightarrow> access_state result" where
  "drop_removal t s =
     result_bind (decreaseRemovalBlockingCount (ds_tasks s t)) (\<lambda>(_, task). Inr (with_task t (\<lambda>_. task) s))"

definition handleEnterBlocking_fragmented :: "task_ref \<Rightarrow> access_state \<Rightarrow> access_state result" where
  "handleEnterBlocking_fragmented t s =
     (if rm_nodes (map_in t access_type s) \<noteq> [] then drop_removal t s else Inr s)"

definition handleExitBlocking_fragmented :: "task_ref \<Rightarrow> access_state \<Rightarrow> access_state" where
  "handleExitBlocking_fragmented t s =
     (if rm_nodes (map_in t access_type s) \<noteq> [] then hold_removal t s else s)"

definition enter_taskwait_section :: "avl_ops \<Rightarrow> nat \<Rightarrow> task_ref \<Rightarrow> access_state \<Rightarrow> access_state result" where
  "enter_taskwait_section avl depth t s =
     result_bind
       (if rm_nodes (map_in t access_type s) \<noteq> []
        then assert_that (td_removalBlockers (ds_structures s t) > 0) ''accessStructures._removalBlockers > 0''
               (drop_removal t s)
        else Inr s) (\<lambda>s1.
     result_bind (createTaskwait avl depth t s1) (finalizeFragments avl depth t))"

definition handleEnterTaskwait_fragmented :: "avl_ops \<Rightarrow> nat \<Rightarrow> task_ref \<Rightarrow> access_state \<Rightarrow> access_state result" where
  "handleEnterTaskwait_fragmented avl depth t s =
     result_bind (enter_taskwait_section avl depth t s)
       (processDelayedOperationsSatisfiedOriginatorsAndRemovableTasks avl depth)"

definition forget_subaccesses :: "task_ref \<Rightarrow> access_state \<Rightarrow> access_state result" where
  "forget_subaccesses t s =
     ended (all_accesses t access_type (\<lambda>p s.
       (let a = load (t, access_type, p) s in
        assert_that (\<not> fa_discounted a) ''!dataAccess->hasBeenDiscounted()''
          (if fa_hasSubaccesses a
           then result_bind (unsetHasSubaccesses a) (\<lambda>a1. Inr (True, store (t, access_type, p) a1 s))
           else Inr (True, s)))) s)"

definition delete_fragments :: "task_ref \<Rightarrow> access_state \<Rightarrow> access_state result" where
  "delete_fragments t s =
     ended (all_accesses t fragment_type (\<lambda>p s. Inr (True, erase_access (t, fragment_type, p) s)) s)"

definition delete_taskwait_fragments :: "task_ref \<Rightarrow> access_state \<Rightarrow> access_state result" where
  "delete_taskwait_fragments t s =
     ended (all_accesses t taskwait_type (\<lambda>p s.
       result_bind (effects_of (parent_of s) (load (t, taskwait_type, p) s)) (\<lambda>status.
         assert_that (ef_isRemovable status) ''currentStatus._isRemovable''
           (Inr (True, erase_access (t, taskwait_type, p) s)))) s)"

definition clean_bottom_map :: "task_ref \<Rightarrow> access_state \<Rightarrow> access_state result" where
  "clean_bottom_map t s =
     result_bind (ended (all_entries t (\<lambda>b s.
       (let k = dl_objectType (bm_link (rm_contents (bottom_in t s) b)) in
        assert_that (k = taskwait_type \<or> k = top_level_sink_type)
          ''bottomMapEntry->_link._objectType is taskwait_type or top_level_sink_type''
          (Inr (True, erase_entry t b s)))) s)) (\<lambda>s1.
       assert_that (rm_nodes (bottom_in t s1) = []) ''accessStructures._subaccessBottomMap.empty()'' (Inr s1))"

definition handleExitTaskwait_fragmented :: "task_ref \<Rightarrow> access_state \<Rightarrow> access_state result" where
  "handleExitTaskwait_fragmented t s =
     result_bind
       (if rm_nodes (map_in t access_type s) \<noteq> []
        then
          assert_that (td_removalBlockers (ds_structures s t) > 0) ''accessStructures._removalBlockers > 0''
            (result_bind (forget_subaccesses t (hold_removal t s)) (\<lambda>s1.
             result_bind (delete_fragments t s1) (delete_taskwait_fragments t)))
        else Inr s)
       (clean_bottom_map t)"

end
