(* ===== verification/N6_FragmentedChain.thy ===== *)
theory N6_FragmentedChain
  imports N6_FragmentedRegistration N6_RegionMapProofs
begin

text \<open>
  Sibling tasks whose accesses have the same region, and no accesses of their own children: the accesses
  form a chain, from each to the next one registered. This theory evaluates the operations of
  \<open>N6_FragmentedRegistration\<close> on a state that holds such a chain.
\<close>

section \<open>Traversals of one node\<close>

lemma put_map_in [simp]: "put_map t k (map_in t k s) s = s"
  by (cases k) (simp_all add: put_map_def map_in_def)

lemma put_bottom_in [simp]: "put_bottom t (bottom_in t s) s = s"
  by (simp add: put_bottom_def bottom_in_def)

lemma result_bind_Inr [simp]: "result_bind r Inr = r"
  by (cases r) simp_all

lemma result_bind_pair [simp]: "result_bind r (\<lambda>(x, y). Inr (x, y)) = r"
  by (cases r) (simp_all add: split_beta)

lemma region_self: "region_ok r \<Longrightarrow> region_intersect r r = r"
  using contained_iff [of r r] by (simp add: fullyContainedIn_def)

lemma start_before_end: "region_ok r \<Longrightarrow> dr_startAddress r < getEndAddress r"
  using start_less_end [of r] by (simp add: word_less_nat_alt)

context ordered_set
begin

lemma single_position:
  assumes "region_ok r" "rm_nodes m = [(p, r)]"
  shows "first_position avl r m = Some p" "as_lower_bound avl (rm_nodes m) (dr_startAddress r) = Some p"
  using lower_bound [of "rm_nodes m" "dr_startAddress r"] assms
  by (simp_all add: first_position_def Let_def it_begin_def)

lemma single_intersecting:
  assumes "region_ok r" "rm_nodes m = [(p, r)]"
  shows "processIntersecting avl r f (m, s) = Some (f p (m, s))"
proof -
  have n: "region_at m p = Some r" "it_next m p = None" using assms(2) by (simp_all add: region_at_def it_next_def nodes_from_def)
  show ?thesis
    unfolding processIntersecting_def fst_conv single_position(1) [OF assms]
    apply (subst processIntersecting_loop.simps)
    using start_before_end [OF assms(1)] region_ok_not_empty [OF assms(1)]
    by (simp add: n region_self assms(1) processIntersecting_loop.simps [of _ _ None] split: sum.splits prod.splits)
qed

lemma single_tiled:
  assumes "region_ok r" "rm_nodes m = [(p, r)]"
  shows "processIntersectingAndMissing avl r f g (m, s) = Some (f p (m, s))"
proof -
  have n: "region_at m p = Some r" "it_next m p = None" using assms(2) by (simp_all add: region_at_def it_next_def nodes_from_def)
  have e: "\<not> getEndAddress r \<le> dr_startAddress r" using start_before_end [OF assms(1)] by simp
  have pos: "first_position avl r m = Some p" using single_position(1) [OF assms] .
  show ?thesis
    using start_before_end [OF assms(1)]
    by (simp add: processIntersectingAndMissing_def Let_def assms(2) pos n e intersectingAndMissing_loop.simps [of _ _ _ "Some p"]
      intersectingAndMissing_loop.simps [of _ _ _ None] split: sum.splits prod.splits)
qed

end

lemma empty_tiled: "rm_nodes m = [] \<Longrightarrow> processIntersectingAndMissing avl r f g (m, s) = Some (g r (m, s))"
  by (simp add: processIntersectingAndMissing_def)

lemma single_all: "rm_nodes m = [(p, r)] \<Longrightarrow> processAll f (m, s) = Some (f p (m, s))"
  by (simp add: processAll_def it_begin_def processAll_loop.simps [of _ "Some p"] processAll_loop.simps [of _ None]
      it_next_def nodes_from_def split: sum.splits prod.splits)

lemma empty_all: "rm_nodes m = [] \<Longrightarrow> processAll f (m, s) = Some (Inr (True, m, s))"
  by (simp add: processAll_def it_begin_def processAll_loop.simps)

lemma traverse_one:
  assumes "\<And>s. put (get s) s = s" "trav (get s, s) = Some (inside get put f x (get s, s))"
  shows "traverse get put trav s = f x s"
  using assms by (cases "f x s") (auto simp: traverse_def returned_def inside_def)

text \<open>The traversals of the operations, on a map with the one node of the region, or none.\<close>

context ordered_set
begin

lemma one_access:
  assumes "region_ok r" "rm_nodes (map_in t k s) = [(p, r)]"
  shows "intersecting_accesses avl t k r f s = f p s" "all_accesses t k f s = f p s" "tiled_accesses avl t k r f g s = f p s"
  using assms by (simp_all add: intersecting_accesses_def all_accesses_def tiled_accesses_def traverse_one
      single_intersecting single_all single_tiled)

lemma one_entry:
  assumes "region_ok r" "rm_nodes (bottom_in t s) = [(b, r)]"
  shows "tiled_entries avl t r f g s = f b s" "intersecting_entries avl t r f s = f b s"
  using assms by (simp_all add: tiled_entries_def intersecting_entries_def traverse_one single_tiled single_intersecting)

end

lemma no_access: "rm_nodes (map_in t k s) = [] \<Longrightarrow> tiled_accesses avl t k r f g s = g r s"
  by (simp add: tiled_accesses_def traverse_one empty_tiled)

lemma no_entry:
  assumes "rm_nodes (bottom_in t s) = []"
  shows "tiled_entries avl t r f g s = g r s" "all_entries t h s = Inr (True, s)"
  using assms by (simp add: tiled_entries_def traverse_one empty_tiled,
    simp add: all_entries_def traverse_def returned_def empty_all)

section \<open>Tokens\<close>

text \<open>What an access receives from its predecessor, and the access passes on to its successor.\<close>

datatype token = Read | Write | Concurrent | Info | Topmost | TopLevel

fun received :: "token \<Rightarrow> DataAccess \<Rightarrow> bool" where
  "received Read a = fa_readSatisfied a"
| "received Write a = fa_writeSatisfied a"
| "received Concurrent a = fa_concurrentSatisfied a"
| "received Info a = fa_receivedReductionInfo a"
| "received Topmost a = fa_topmost a"
| "received TopLevel a = fa_topLevel a"

fun passes :: "token \<Rightarrow> DataAccess \<Rightarrow> bool" where
  "passes Read a = (fa_readSatisfied a \<and> (fa_type a = READ_ACCESS_TYPE \<or> fa_complete a))"
| "passes Write a = (fa_writeSatisfied a \<and> fa_complete a)"
| "passes Concurrent a = (fa_concurrentSatisfied a \<and> (fa_type a = CONCURRENT_ACCESS_TYPE \<or> fa_complete a))"
| "passes Info a =
     (fa_receivedReductionInfo a \<and>
      (fa_type a \<noteq> WRITE_ACCESS_TYPE \<and> fa_type a \<noteq> READWRITE_ACCESS_TYPE \<or> fa_complete a))"
| "passes Topmost a =
     (fa_topmost a \<and> fa_readSatisfied a \<and> fa_writeSatisfied a \<and> fa_receivedReductionInfo a \<and> fa_complete a)"
| "passes TopLevel a = fa_topLevel a"

fun carries :: "token \<Rightarrow> UpdateOperation \<Rightarrow> bool" where
  "carries Read u = uo_makeReadSatisfied u"
| "carries Write u = uo_makeWriteSatisfied u"
| "carries Concurrent u = uo_makeConcurrentSatisfied u"
| "carries Info u = uo_setReductionInfo u"
| "carries Topmost u = uo_makeTopmost u"
| "carries TopLevel u = uo_makeTopLevel u"

text \<open>An access without subaccesses, of a type other than a reduction.\<close>

definition plain :: "DataAccess \<Rightarrow> bool" where
  "plain a \<longleftrightarrow> fa_objectType a = access_type \<and> \<not> fa_hasSubaccesses a \<and> fa_type a \<noteq> REDUCTION_ACCESS_TYPE \<and>
     \<not> fa_readInhibited a \<and> \<not> fa_concurrentInhibited a \<and> \<not> fa_reductionInfoInhibited a \<and>
     \<not> fa_allocatedReductionInfo a \<and> \<not> fa_receivedReductionCpuSet a \<and> fa_reductionInfo a = None \<and>
     fa_previousReductionInfo a = None \<and> fa_reductionCpuSet a = [] \<and> fa_previousReductionCpuSet a = []"

definition to_sibling :: "(task_ref \<Rightarrow> task_ref option) \<Rightarrow> task_ref \<Rightarrow> DataAccess \<Rightarrow> bool" where
  "to_sibling parent par a \<longleftrightarrow> parent (fa_originator a) = Some par \<and>
     (\<forall>l. fa_next a = Some l \<longrightarrow> dl_objectType l = access_type \<and> parent (dl_task l) = Some par)"

definition gives :: "token \<Rightarrow> DataAccess \<Rightarrow> bool" where
  "gives x a \<longleftrightarrow> fa_next a \<noteq> None \<and> passes x a"

lemma all_tokens: "(\<forall>x. P x) \<longleftrightarrow> P Read \<and> P Write \<and> P Concurrent \<and> P Info \<and> P Topmost \<and> P TopLevel"
  by (metis token.exhaust)

definition plain_status :: "DataAccess \<Rightarrow> DataAccessStatusEffects" where
  "plain_status a =
    \<lparr>ef_isRegistered = fa_registered a, ef_isSatisfied = satisfied a,
         ef_enforcesDependency = (\<not> fa_weak a \<and> \<not> satisfied a), ef_hasNext = (fa_next a \<noteq> None),
         ef_readToNext = gives Read a, ef_writeToNext = gives Write a, ef_concurrentToNext = gives Concurrent a,
         ef_reductionInfoToNext = gives Info a, ef_reductionCpuSetToNext = False,
         ef_makesNextTopmost = gives Topmost a, ef_propagatesTopLevel = gives TopLevel a,
         ef_readToFragments = False, ef_writeToFragments = False, ef_concurrentToFragments = False,
         ef_reductionInfoToFragments = False, ef_reductionCpuSetToFragments = False,
         ef_closesPreviousReduction = False, ef_linksBottomMap = False, ef_isRemovable = is_removable a\<rparr>"

lemma plain_effects:
  assumes "plain a" "to_sibling parent par a"
  shows "effects_of parent a = Inr (plain_status a)"
  using assms
  by (auto simp: effects_of_def next_effects_def next_effects_of_access_def plain_def to_sibling_def passes_cpu_set_def
      makes_next_topmost_def Let_def domain_parent_def propagates_top_level_def enforces_dependency_def
      closes_previous_reduction_def is_removable_def plain_status_def gives_def split: option.splits)


section \<open>One change of an access\<close>

text \<open>The state without the counters of tasks and without the data of the CPU.\<close>

definition shared :: "access_state \<Rightarrow> access_state" where
  "shared s =
     s\<lparr>ds_tasks := (\<lambda>t. (ds_tasks s t)\<lparr>t_predecessorCount := 0, t_countdownToBeWokenUp := 0\<rparr>),
       ds_structures := (\<lambda>t. (ds_structures s t)\<lparr>td_removalBlockers := 0, td_liveTaskwaitFragmentCount := 0\<rparr>),
       ds_hp := CPUDependencyData_new\<rparr>"

lemma shared_views:
  "map_in t k (shared s) = map_in t k s" "bottom_in t (shared s) = bottom_in t s" "parent_of (shared s) = parent_of s"
  "load ptr (shared s) = load ptr s" "ds_link (shared s) = ds_link s" "ds_nCpus (shared s) = ds_nCpus s"
  "region_of ptr (shared s) = region_of ptr s" "shared (shared s) = shared s" "ds_readied (shared s) = ds_readied s"
  "t_flags (ds_tasks (shared s) t) = t_flags (ds_tasks s t)"
proof -
  show m: "map_in t k (shared s) = map_in t k s" for t k by (cases k) (simp_all add: map_in_def shared_def)
  show "load ptr (shared s) = load ptr s" "region_of ptr (shared s) = region_of ptr s"
    by (simp_all add: load_def region_of_def m split: prod.splits)
qed (simp_all add: shared_def bottom_in_def parent_of_def fun_eq_iff)

lemma shared_eqD:
  assumes "shared s = shared s'"
  shows "map_in t k s = map_in t k s'" "bottom_in t s = bottom_in t s'" "parent_of s = parent_of s'"
  "load ptr s = load ptr s'" "ds_link s = ds_link s'" "ds_nCpus s = ds_nCpus s'" "region_of ptr s = region_of ptr s'"
  "ds_readied s = ds_readied s'" "t_flags (ds_tasks s t) = t_flags (ds_tasks s' t)"
  using assms by (metis shared_views)+

lemma shared_counters [simp]:
  "(f (ds_tasks s t))\<lparr>t_predecessorCount := 0, t_countdownToBeWokenUp := 0\<rparr> =
     (ds_tasks s t)\<lparr>t_predecessorCount := 0, t_countdownToBeWokenUp := 0\<rparr> \<Longrightarrow> shared (with_task t f s) = shared s"
  "(g (ds_structures s t))\<lparr>td_removalBlockers := 0, td_liveTaskwaitFragmentCount := 0\<rparr> =
     (ds_structures s t)\<lparr>td_removalBlockers := 0, td_liveTaskwaitFragmentCount := 0\<rparr> \<Longrightarrow> shared (with_structures t g s) = shared s"
  "shared (with_hp h s) = shared s"
  "shared (s\<lparr>ds_hp := hp\<rparr>) = shared s"
  by (auto simp: shared_def with_task_def with_structures_def with_hp_def fun_eq_iff)

lemma shared_store: "shared (store ptr a s) = store ptr a (shared s)"
  by (cases ptr; rename_tac t k p; case_tac k)
    (simp_all add: shared_def store_def put_map_def map_in_def Let_def fun_eq_iff)

lemma shared_store_cong: "shared s = shared s' \<Longrightarrow> shared (store ptr a s) = shared (store ptr a s')"
  by (simp add: shared_store)

lemma map_in_store:
  "map_in t' k' (store (t, access_type, p) a s) =
     (if t' = t \<and> k' = access_type
      then (map_in t access_type s)\<lparr>rm_contents := (rm_contents (map_in t access_type s))(p := a)\<rparr> else map_in t' k' s)"
  by (cases k') (simp_all add: map_in_def store_def put_map_def Let_def)

lemma store_views [simp]:
  "bottom_in t' (store ptr a s) = bottom_in t' s" "parent_of (store ptr a s) = parent_of s"
  "ds_link (store ptr a s) = ds_link s" "ds_nCpus (store ptr a s) = ds_nCpus s" "ds_hp (store ptr a s) = ds_hp s"
  "ds_tasks (store ptr a s) = ds_tasks s" "ds_readied (store ptr a s) = ds_readied s"
  "td_removalBlockers (ds_structures (store ptr a s) t') = td_removalBlockers (ds_structures s t')"
  by (cases ptr; rename_tac t k p; case_tac k;
      simp add: bottom_in_def store_def put_map_def map_in_def Let_def parent_of_def fun_eq_iff)+

lemma load_store [simp]: "load (t, access_type, p) (store (t, access_type, p) a s) = a"
  by (simp add: load_def map_in_store)

lemma store_load [simp]: "store ptr (load ptr s) s = s"
  by (cases ptr) (simp add: store_def load_def Let_def)

lemma store_store [simp]: "store ptr a (store ptr b s) = store ptr a s"
  by (cases ptr; rename_tac t k p; case_tac k) (simp_all add: store_def put_map_def map_in_def Let_def)

abbreviation blockers :: "task_ref \<Rightarrow> access_state \<Rightarrow> int" where
  "blockers t s \<equiv> td_removalBlockers (ds_structures s t)"

abbreviation predecessors :: "task_ref \<Rightarrow> access_state \<Rightarrow> int" where
  "predecessors t s \<equiv> t_predecessorCount (ds_tasks s t)"

abbreviation countdown :: "task_ref \<Rightarrow> access_state \<Rightarrow> int" where
  "countdown t s \<equiv> t_countdownToBeWokenUp (ds_tasks s t)"

text \<open>A task with accesses that are not removable is not disposed of.\<close>

definition held :: "task_ref \<Rightarrow> access_state \<Rightarrow> bool" where
  "held t s \<longleftrightarrow> 0 \<le> countdown t s \<and> (blockers t s \<noteq> 0 \<longrightarrow> 1 \<le> countdown t s)"

abbreviation delayed :: "access_state \<Rightarrow> UpdateOperation list" where
  "delayed s \<equiv> cd_delayedOperations (ds_hp s)"

abbreviation satisfied_tasks :: "access_state \<Rightarrow> task_ref list" where
  "satisfied_tasks s \<equiv> cd_satisfiedOriginators (ds_hp s)"

lemma held_store [simp]: "held t (store ptr a s) = held t s"
  by (simp add: held_def)

lemma view_counters [simp]:
  "ds_hp (with_task t f s) = ds_hp s" "ds_hp (with_structures t g s) = ds_hp s" "ds_hp (with_hp h s) = h (ds_hp s)"
  "ds_tasks (with_task t f s) = (ds_tasks s)(t := f (ds_tasks s t))" "ds_tasks (with_structures t g s) = ds_tasks s"
  "ds_tasks (with_hp h s) = ds_tasks s" "ds_structures (with_task t f s) = ds_structures s"
  "ds_structures (with_structures t g s) = (ds_structures s)(t := g (ds_structures s t))"
  "ds_structures (with_hp h s) = ds_structures s"
  by (simp_all add: with_task_def with_structures_def with_hp_def)

lemma count_registration_Inr:
  "count_registration initial updated (t, k, p) s = Inr s' \<Longrightarrow>
     shared s' = shared s \<and> ds_hp s' = ds_hp s \<and> (ef_isRegistered initial \<longrightarrow> s' = s) \<and>
     blockers t' s' = blockers t' s +
       (if t' = t \<and> ef_isRegistered initial \<noteq> ef_isRegistered updated \<and> \<not> ef_isRemovable initial then 1 else 0) \<and>
     predecessors t' s' = predecessors t' s +
       (if t' = t \<and> ef_isRegistered initial \<noteq> ef_isRegistered updated \<and> ef_enforcesDependency updated then 1 else 0) \<and>
     (held t' s \<longrightarrow> held t' s')"
  by (auto simp: count_registration_def Let_def increaseRemovalBlockingCount_def increasePredecessors_def held_def split: if_splits)

lemma count_dependency_Inr:
  "count_dependency initial updated (t, k, p) s = Inr s' \<Longrightarrow>
     shared s' = shared s \<and> delayed s' = delayed s \<and> ds_structures s' = ds_structures s \<and>
     countdown t' s' = countdown t' s \<and>
     (let fewer = ef_enforcesDependency initial \<and> \<not> ef_enforcesDependency updated in
      predecessors t' s' = predecessors t' s - (if t' = t \<and> fewer then 1 else 0) \<and>
      satisfied_tasks s' = satisfied_tasks s @ (if fewer \<and> predecessors t s = 1 then [t] else []))"
  by (auto simp: count_dependency_def push_satisfied_def decreasePredecessors_def Let_def split: if_splits)


text \<open>The operation for the next access carries the tokens that the change makes the access give.\<close>

definition token_operation :: "DataAccessLink \<Rightarrow> DataAccessRegion \<Rightarrow> (token \<Rightarrow> bool) \<Rightarrow> UpdateOperation" where
  "token_operation l r given =
     \<lparr>uo_target = l, uo_region = r, uo_makeReadSatisfied = given Read, uo_makeWriteSatisfied = given Write,
      uo_makeConcurrentSatisfied = given Concurrent, uo_makeTopmost = given Topmost, uo_makeTopLevel = given TopLevel,
      uo_setReductionInfo = given Info, uo_reductionInfo = None, uo_reductionCpuSet = []\<rparr>"

lemma token_operation_simps [simp]:
  "carries x (token_operation l r given) = given x" "uo_target (token_operation l r given) = l"
  "uo_region (token_operation l r given) = r" "uo_reductionInfo (token_operation l r given) = None"
  "uo_reductionCpuSet (token_operation l r given) = []"
  by (cases x; simp add: token_operation_def)+

lemma token_operation_empty: "UpdateOperation_empty (token_operation l r given) \<longleftrightarrow> (\<forall>x. \<not> given x)"
  by (simp add: UpdateOperation_empty_def token_operation_def) (metis token.exhaust)

abbreviation grows :: "DataAccess \<Rightarrow> DataAccess \<Rightarrow> bool" where
  "grows a a' \<equiv> \<forall>x. gives x a \<longrightarrow> gives x a'"

lemma next_operation_plain:
  assumes "plain a'"
  shows "next_operation final (plain_status a) (plain_status a') l r a' = Inr (u, a1) \<longleftrightarrow>
    grows a a' \<and> (gives Write a' \<and> \<not> gives Write a \<longrightarrow> gives Info a') \<and>
    u = token_operation l r (\<lambda>x. gives x a' \<and> \<not> gives x a) \<and> a1 = a'"
  using assms
  by (auto simp: next_operation_def raise_effect_def plain_status_def all_tokens plain_def token_operation_def
      UpdateOperation_new_def)

lemma propagate_plain:
  assumes "plain (load ptr s)" "ptr = (t, k, p)"
  shows "propagate_to_next (plain_status a) (plain_status (load ptr s)) ptr s = Inr s' \<longleftrightarrow>
    (case fa_next (load ptr s) of
       None \<Rightarrow> s' = s
     | Some l \<Rightarrow>
         (let a' = load ptr s in
          grows a a' \<and> (gives Write a' \<and> \<not> gives Write a \<longrightarrow> gives Info a') \<and>
          s' = push_operation (token_operation l (region_of ptr s) (\<lambda>x. gives x a' \<and> \<not> gives x a)) s))"
  using assms by (auto simp: propagate_to_next_def next_operation_plain Let_def split: option.splits)


definition newly_removable :: "DataAccess \<Rightarrow> DataAccess \<Rightarrow> bool" where
  "newly_removable a a' \<longleftrightarrow> is_removable a' \<and> \<not> is_removable a"

definition discounted_after :: "DataAccess \<Rightarrow> DataAccess \<Rightarrow> DataAccess" where
  "discounted_after a a' = a'\<lparr>fa_discounted := fa_discounted a' \<or> newly_removable a a'\<rparr>"

lemma unblock_removal_Inr:
  "unblock_removal t s = Inr s' \<longleftrightarrow> countdown t s \<ge> 1 \<and>
     s' = (let s1 = with_task t (\<lambda>_. (ds_tasks s t)\<lparr>t_countdownToBeWokenUp := countdown t s - 1\<rparr>) s in
           if countdown t s = 1 then push_removable t s1 else s1)"
  by (auto simp: unblock_removal_def decreaseRemovalBlockingCount_def Let_def)

lemma discount_plain:
  assumes "plain a'" "load (t, access_type, p) s = a'"
    and "discount_access avl (plain_status a) (plain_status a') (t, access_type, p) s = Inr s'"
  shows "shared s' = shared (store (t, access_type, p) (discounted_after a a') s)" "delayed s' = delayed s"
    "satisfied_tasks s' = satisfied_tasks s" "predecessors t' s' = predecessors t' s"
    "blockers t' s' = blockers t' s - (if t' = t \<and> newly_removable a a' then 1 else 0)"
    "is_removable a \<Longrightarrow> is_removable a'" "newly_removable a a' \<Longrightarrow> \<not> fa_discounted a'" "held t' s \<Longrightarrow> held t' s'"
proof -
  have load: "load (t, access_type, p) (with_structures t (\<lambda>td. td\<lparr>td_removalBlockers := td_removalBlockers td - 1\<rparr>) s) = a'"
    using assms(2) shared_eqD(4) [of "with_structures t (\<lambda>td. td\<lparr>td_removalBlockers := td_removalBlockers td - 1\<rparr>) s" s] by simp
  have obj: "fa_objectType a' = access_type" using assms(1) by (simp add: plain_def)
  have same: "store (t, access_type, p) a' (shared s) = shared s"
    using store_load [of "(t, access_type, p)" "shared s"] assms(2) shared_views(4) by simp
  have eq: "a'\<lparr>fa_discounted := fa_discounted a'\<rparr> = a'" by simp
  show "shared s' = shared (store (t, access_type, p) (discounted_after a a') s)" "delayed s' = delayed s"
    "satisfied_tasks s' = satisfied_tasks s" "predecessors t' s' = predecessors t' s"
    "blockers t' s' = blockers t' s - (if t' = t \<and> newly_removable a a' then 1 else 0)"
    "is_removable a \<Longrightarrow> is_removable a'" "newly_removable a a' \<Longrightarrow> \<not> fa_discounted a'" "held t' s \<Longrightarrow> held t' s'"
    using assms(3) load obj same eq
    by (auto simp: held_def discount_access_def plain_status_def Let_def markAsDiscounted_def unblock_removal_Inr push_removable_def
        newly_removable_def discounted_after_def shared_store split: if_splits)
qed

lemma discount_plain_ex:
  assumes "plain a'" "load (t, access_type, p) s = a'" "is_removable a \<Longrightarrow> is_removable a'"
    and "newly_removable a a' \<Longrightarrow> \<not> fa_discounted a' \<and> fa_next a' \<noteq> None \<and> blockers t s > 0 \<and> countdown t s \<ge> 1"
  shows "\<exists>s'. discount_access avl (plain_status a) (plain_status a') (t, access_type, p) s = Inr s'"
proof -
  have load: "load (t, access_type, p) (with_structures t (\<lambda>td. td\<lparr>td_removalBlockers := td_removalBlockers td - 1\<rparr>) s) = a'"
    using assms(2) shared_eqD(4) [of "with_structures t (\<lambda>td. td\<lparr>td_removalBlockers := td_removalBlockers td - 1\<rparr>) s" s] by simp
  have obj: "fa_objectType a' = access_type" using assms(1) by (simp add: plain_def)
  show ?thesis
  proof (cases "newly_removable a a'")
    case True
    with assms(4) load obj show ?thesis
      by (auto simp: discount_access_def plain_status_def Let_def markAsDiscounted_def unblock_removal_Inr newly_removable_def)
  next
    case False
    with assms(3) have "is_removable a = is_removable a'" by (auto simp: newly_removable_def)
    then show ?thesis by (simp add: discount_access_def plain_status_def)
  qed
qed


lemma middle_plain:
  assumes "plain (load (t, access_type, p) s)"
  shows "close_reduction (plain_status a) (plain_status a') ptr s = Inr s"
    "propagate_to_fragments i u (t, access_type, p) s = Inr s" "update_bottom_map avl h i u (t, access_type, p) s = Inr s"
  using assms by (simp_all add: close_reduction_def plain_status_def propagate_to_fragments_def update_bottom_map_def plain_def)

lemma push_views [simp]:
  "shared (push_operation u s) = shared s" "ds_tasks (push_operation u s) = ds_tasks s"
  "ds_structures (push_operation u s) = ds_structures s"
  "delayed (push_operation u s) = delayed s @ (if UpdateOperation_empty u then [] else [u])"
  "satisfied_tasks (push_operation u s) = satisfied_tasks s"
  by (simp_all add: push_operation_def)

definition passed_on :: "DataAccess \<Rightarrow> DataAccess \<Rightarrow> DataAccessRegion \<Rightarrow> UpdateOperation list" where
  "passed_on a a' r =
     (case fa_next a' of
        None \<Rightarrow> []
      | Some l \<Rightarrow> (if \<exists>x. gives x a' \<and> \<not> gives x a then [token_operation l r (\<lambda>x. gives x a' \<and> \<not> gives x a)] else []))"

text \<open>What a status change of an access of the chain does, as far as the chain can tell.\<close>

lemma status_changes_plain:
  assumes pl: "plain a" "plain a'" and a': "load (t, access_type, p) s = a'" and reg: "fa_registered a'"
    and run: "status_changes avl h (plain_status a) (plain_status a') (t, access_type, p) s = Inr s'"
  shows "shared s' = shared (store (t, access_type, p) (discounted_after a a') s)"
    "delayed s' = delayed s @ passed_on a a' (region_of (t, access_type, p) s)"
    "fa_next a' \<noteq> None \<Longrightarrow> grows a a'" "is_removable a \<Longrightarrow> is_removable a'" "newly_removable a a' \<Longrightarrow> \<not> fa_discounted a'"
    "blockers t' s' = blockers t' s + (if t' = t \<and> \<not> fa_registered a \<and> \<not> is_removable a then 1 else 0) -
       (if t' = t \<and> newly_removable a a' then 1 else 0)"
    "predecessors t' s' = predecessors t' s + (if t' = t \<and> \<not> fa_registered a \<and> ef_enforcesDependency (plain_status a') then 1 else 0) -
       (if t' = t \<and> ef_enforcesDependency (plain_status a) \<and> \<not> ef_enforcesDependency (plain_status a') then 1 else 0)"
    "satisfied_tasks s' = satisfied_tasks s @
       (if ef_enforcesDependency (plain_status a) \<and> \<not> ef_enforcesDependency (plain_status a') \<and> predecessors t s = 1 then [t] else [])"
    "held t' s \<Longrightarrow> held t' s'"
proof -
  let ?ptr = "(t, access_type, p)" and ?i = "plain_status a" and ?u = "plain_status a'"
  have r: "ef_isRegistered ?u" "ef_isRegistered ?i = fa_registered a" "ef_isRemovable ?i = is_removable a"
    using reg by (simp_all add: plain_status_def)
  obtain s1 where s1: "count_registration ?i ?u ?ptr s = Inr s1" using run by (auto simp: status_changes_def)
  note c1 = count_registration_Inr [OF s1]
  obtain s2 where s2: "count_dependency ?i ?u ?ptr s1 = Inr s2" using run s1 by (auto simp: status_changes_def r)
  note c2 = count_dependency_Inr [OF s2]
  have l2: "load ?ptr s2 = a'" "region_of ?ptr s2 = region_of ?ptr s"
    using a' c1 c2 shared_eqD(4,7) [of s2 s ?ptr] by simp_all
  obtain s3 where s3: "propagate_to_next ?i ?u ?ptr s2 = Inr s3"
    using run s1 s2 middle_plain(1) [of t p s2 a a' ?ptr] l2 pl by (auto simp: status_changes_def r)
  then have p3: "case fa_next a' of None \<Rightarrow> s3 = s2
     | Some l \<Rightarrow> grows a a' \<and> s3 = push_operation (token_operation l (region_of ?ptr s) (\<lambda>x. gives x a' \<and> \<not> gives x a)) s2"
    using propagate_plain [of ?ptr s2 t access_type p a s3] l2 pl(2) by (auto simp: Let_def split: option.splits)
  then have c3: "shared s3 = shared s2" "ds_tasks s3 = ds_tasks s2" "ds_structures s3 = ds_structures s2"
    "delayed s3 = delayed s2 @ passed_on a a' (region_of ?ptr s)" "satisfied_tasks s3 = satisfied_tasks s2"
    by (auto simp: passed_on_def token_operation_empty split: option.splits)
  have l3: "load ?ptr s3 = a'" using l2 c3(1) shared_eqD(4) by metis
  have s4: "discount_access avl ?i ?u ?ptr s3 = Inr s'"
    using run s1 s2 s3 l2 l3 pl middle_plain(1) [of t p s2 a a' ?ptr] middle_plain(2,3) [of t p s3]
    by (auto simp: status_changes_def r)
  note c4 = discount_plain [OF pl(2) l3 s4]
  have "shared s3 = shared s" using c1 c2 c3 by simp
  then show "shared s' = shared (store ?ptr (discounted_after a a') s)" using c4(1) shared_store_cong by metis
  show "delayed s' = delayed s @ passed_on a a' (region_of ?ptr s)" using c1 c2 c3 c4 by simp
  show "fa_next a' \<noteq> None \<Longrightarrow> grows a a'" using p3 by (auto split: option.splits)
  show "is_removable a \<Longrightarrow> is_removable a'" "newly_removable a a' \<Longrightarrow> \<not> fa_discounted a'" using c4 by auto
  show "blockers t' s' = blockers t' s + (if t' = t \<and> \<not> fa_registered a \<and> \<not> is_removable a then 1 else 0) -
       (if t' = t \<and> newly_removable a a' then 1 else 0)"
    using c4(5) c3(3) c2 count_registration_Inr [OF s1, of t'] r by auto
  show "predecessors t' s' = predecessors t' s + (if t' = t \<and> \<not> fa_registered a \<and> ef_enforcesDependency ?u then 1 else 0) -
       (if t' = t \<and> ef_enforcesDependency ?i \<and> \<not> ef_enforcesDependency ?u then 1 else 0)"
    using c4(4) c3(2) count_dependency_Inr [OF s2, of t'] count_registration_Inr [OF s1, of t'] r
    by (auto simp: Let_def)
  show "satisfied_tasks s' = satisfied_tasks s @
       (if ef_enforcesDependency ?i \<and> \<not> ef_enforcesDependency ?u \<and> predecessors t s = 1 then [t] else [])"
    using c4(3) c3(5) count_dependency_Inr [OF s2, of t] count_registration_Inr [OF s1, of t]
    by (auto simp: Let_def)
  show "held t' s'" if "held t' s"
  proof -
    have "held t' s1" using count_registration_Inr [OF s1, of t'] that by simp
    then have "held t' s3" using count_dependency_Inr [OF s2, of t'] c3 by (simp add: held_def)
    then show ?thesis using c4(8) by simp
  qed
qed


text \<open>Conversely, a status change that keeps the order of the protocol succeeds.\<close>

lemma status_changes_plain_ex:
  assumes pl: "plain a" "plain a'" and a': "load (t, access_type, p) s = a'" and reg: "fa_registered a'"
    and mono: "satisfied a \<longrightarrow> satisfied a'" "fa_next a \<noteq> None \<longrightarrow> fa_next a' \<noteq> None" "fa_weak a' = fa_weak a"
    and gives: "fa_next a' \<noteq> None \<longrightarrow> grows a a' \<and> (gives Write a' \<and> \<not> gives Write a \<longrightarrow> gives Info a')"
    and rem: "is_removable a \<longrightarrow> is_removable a'"
      "newly_removable a a' \<longrightarrow> fa_registered a \<and> \<not> fa_discounted a' \<and> fa_next a' \<noteq> None \<and> blockers t s > 0 \<and> held t s"
  shows "\<exists>s'. status_changes avl h (plain_status a) (plain_status a') (t, access_type, p) s = Inr s'"
proof -
  let ?ptr = "(t, access_type, p)" and ?i = "plain_status a" and ?u = "plain_status a'"
  have r: "ef_isRegistered ?u" "ef_isRegistered ?i = fa_registered a" "ef_isRemovable ?i = is_removable a"
    "ef_isSatisfied ?i = satisfied a" "ef_isSatisfied ?u = satisfied a'" "ef_hasNext ?i = (fa_next a \<noteq> None)"
    "ef_hasNext ?u = (fa_next a' \<noteq> None)"
    using reg by (simp_all add: plain_status_def)
  have en: "ef_enforcesDependency ?u \<longrightarrow> ef_enforcesDependency ?i" using mono by (auto simp: plain_status_def)
  obtain s1 where s1: "count_registration ?i ?u ?ptr s = Inr s1" by (cases "fa_registered a") (auto simp: count_registration_def Let_def r)
  note c1 = count_registration_Inr [OF s1, of t]
  obtain s2 where s2: "count_dependency ?i ?u ?ptr s1 = Inr s2"
    using en by (cases "ef_enforcesDependency ?i"; cases "ef_enforcesDependency ?u")
      (auto simp: count_dependency_def split_beta)
  note c2 = count_dependency_Inr [OF s2, of t]
  have l2: "load ?ptr s2 = a'" using a' c1 c2 shared_eqD(4) [of s2 s ?ptr] by simp
  obtain s3 where s3: "propagate_to_next ?i ?u ?ptr s2 = Inr s3" and c3: "shared s3 = shared s2" "ds_tasks s3 = ds_tasks s2"
    "ds_structures s3 = ds_structures s2"
  proof (cases "fa_next a'")
    case None
    then show ?thesis using that [of s2] propagate_plain [of ?ptr s2 t access_type p a s2] l2 pl(2) by simp
  next
    case (Some l)
    let ?s3 = "push_operation (token_operation l (region_of ?ptr s2) (\<lambda>x. gives x a' \<and> \<not> gives x a)) s2"
    show ?thesis using that [of ?s3] propagate_plain [of ?ptr s2 t access_type p a ?s3] l2 pl(2) Some gives by (simp add: Let_def)
  qed
  have l3: "load ?ptr s3 = a'" using l2 c3(1) shared_eqD(4) by metis
  have "\<exists>s'. discount_access avl ?i ?u ?ptr s3 = Inr s'"
  proof (rule discount_plain_ex [OF pl(2) l3])
    show "is_removable a'" if "is_removable a" using rem that by simp
    assume "newly_removable a a'"
    with rem(2) have n: "fa_registered a" "\<not> fa_discounted a'" "fa_next a' \<noteq> None" "blockers t s > 0" "held t s" by simp_all
    then have "s1 = s" using c1 r by simp
    then show "\<not> fa_discounted a' \<and> fa_next a' \<noteq> None \<and> blockers t s3 > 0 \<and> countdown t s3 \<ge> 1"
      using n c2 c3 by (auto simp: held_def)
  qed
  then show ?thesis
    using s1 s2 s3 l2 l3 pl middle_plain(1) [of t p s2 a a' ?ptr] middle_plain(2,3) [of t p s3] mono
    by (auto simp: status_changes_def r)
qed

end
