(* ===== verification/N6_FragmentedSteps.thy ===== *)
theory N6_FragmentedSteps
  imports N6_FragmentedChain
begin

text \<open>
  The operations of the default dependency system on a chain: what linking a new access, completing one
  and applying an update operation do to the sequence of accesses and to the pending operations.
\<close>

section \<open>A chain in the state\<close>

abbreviation to_access :: "task_ref \<Rightarrow> DataAccessLink" where
  "to_access t \<equiv> \<lparr>dl_task = t, dl_objectType = access_type\<rparr>"

definition enforces :: "DataAccess \<Rightarrow> bool" where
  "enforces a \<longleftrightarrow> \<not> fa_weak a \<and> \<not> satisfied a"

text \<open>
  \<open>ts\<close> are the tasks in the order of registration and \<open>as\<close> their accesses. A task has \<open>extra\<close> predecessors
  besides this access: the guard while it is being registered.
\<close>

definition chain_node :: "DataAccessRegion \<Rightarrow> task_ref \<Rightarrow> (task_ref \<Rightarrow> int) \<Rightarrow> access_state \<Rightarrow> task_ref \<Rightarrow> DataAccess \<Rightarrow> bool" where
  "chain_node r par extra s t a \<longleftrightarrow>
     (\<exists>p. rm_nodes (map_in t access_type s) = [(p, r)] \<and> load (t, access_type, p) s = a) \<and>
     rm_nodes (bottom_in t s) = [] \<and> parent_of s t = Some par \<and>
     blockers t s = (if is_removable a then 0 else 1) \<and> predecessors t s = extra t + (if enforces a then 1 else 0)"

definition chain_access :: "task_ref \<Rightarrow> task_ref option \<Rightarrow> DataAccess \<Rightarrow> bool" where
  "chain_access t successor a \<longleftrightarrow>
     plain a \<and> fa_originator a = t \<and> fa_registered a \<and> fa_reachable a \<and>
     fa_next a = map_option to_access successor \<and> fa_inBottomMap a = (successor = None) \<and>
     fa_discounted a = is_removable a"

definition successor :: "task_ref list \<Rightarrow> nat \<Rightarrow> task_ref option" where
  "successor ts i = (if Suc i < length ts then Some (ts ! Suc i) else None)"

definition holds_chain ::
  "DataAccessRegion \<Rightarrow> task_ref \<Rightarrow> (task_ref \<Rightarrow> int) \<Rightarrow> task_ref list \<Rightarrow> DataAccess list \<Rightarrow> access_state \<Rightarrow> bool" where
  "holds_chain r par extra ts as s \<longleftrightarrow>
     region_ok r \<and> distinct (par # ts) \<and> length as = length ts \<and> rm_nodes (map_in par access_type s) = [] \<and>
     (if ts = [] then rm_nodes (bottom_in par s) = []
      else \<exists>b. rm_nodes (bottom_in par s) = [(b, r)] \<and>
             rm_contents (bottom_in par s) b = \<lparr>bm_link = to_access (last ts), bm_accessType = NO_ACCESS_TYPE\<rparr>) \<and>
     (\<forall>i < length ts. chain_node r par extra s (ts ! i) (as ! i) \<and> chain_access (ts ! i) (successor ts i) (as ! i))"

lemma chain_siblings:
  assumes "holds_chain r par extra ts as s" "i < length ts"
  shows "to_sibling (parent_of s) par (as ! i)" "plain (as ! i)"
  using assms
  by (auto simp: holds_chain_def to_sibling_def chain_access_def chain_node_def successor_def split: if_splits)

text \<open>A task that an operation leaves alone.\<close>

definition untouched :: "task_ref \<Rightarrow> access_state \<Rightarrow> access_state \<Rightarrow> bool" where
  "untouched t s s' \<longleftrightarrow> map_in t access_type s' = map_in t access_type s \<and> bottom_in t s' = bottom_in t s \<and>
     parent_of s' t = parent_of s t \<and> blockers t s' = blockers t s \<and> predecessors t s' = predecessors t s \<and>
     t_flags (ds_tasks s' t) = t_flags (ds_tasks s t)"

lemma untouched_trans: "untouched t s1 s2 \<Longrightarrow> untouched t s2 s3 \<Longrightarrow> untouched t s1 s3"
  by (simp add: untouched_def)

text \<open>A change of the status of one access.\<close>

definition changed ::
  "task_ref \<Rightarrow> nat \<Rightarrow> DataAccess \<Rightarrow> DataAccess \<Rightarrow> DataAccessRegion \<Rightarrow> access_state \<Rightarrow> access_state \<Rightarrow> bool" where
  "changed t p a a' r s s' \<longleftrightarrow>
     shared s' = shared (store (t, access_type, p) (discounted_after a a') s) \<and> delayed s' = delayed s @ passed_on a a' r \<and>
     (fa_next a' \<noteq> None \<longrightarrow> grows a a') \<and> (is_removable a \<longrightarrow> is_removable a') \<and>
     (newly_removable a a' \<longrightarrow> \<not> fa_discounted a') \<and>
     (\<forall>t'. blockers t' s' = blockers t' s +
        (if t' = t then (if \<not> fa_registered a \<and> \<not> is_removable a then 1 else 0) - (if newly_removable a a' then 1 else 0) else 0)) \<and>
     (\<forall>t'. predecessors t' s' = predecessors t' s +
        (if t' = t then (if \<not> fa_registered a \<and> enforces a' then 1 else 0) -
           (if enforces a \<and> \<not> enforces a' then 1 else 0) else 0)) \<and>
     satisfied_tasks s' = satisfied_tasks s @ (if enforces a \<and> \<not> enforces a' \<and> predecessors t s = 1 then [t] else []) \<and>
     (\<forall>t'. held t' s \<longrightarrow> held t' s')"

lemma changed_untouched: "changed t p a a' r s s' \<Longrightarrow> x \<noteq> t \<Longrightarrow> untouched x s s'"
  using shared_eqD [of s' "store (t, access_type, p) (discounted_after a a') s"]
  by (simp add: changed_def untouched_def map_in_store)

lemma change_access_plain:
  assumes run: "change_access (handleDataAccessStatusChanges avl (Suc n)) (t, access_type, p) f s = Inr s'"
    and a: "load (t, access_type, p) s = a" "plain a" "to_sibling (parent_of s) par a"
    and f: "\<And>a'. f a = Inr a' \<Longrightarrow> plain a' \<and> to_sibling (parent_of s) par a' \<and> fa_registered a'"
    and r: "region_of (t, access_type, p) s = r"
  shows "\<exists>a'. f a = Inr a' \<and> changed t p a a' r s s'"
proof -
  obtain a' where a': "f a = Inr a'"
    using run a plain_effects [OF a(2,3)] by (auto simp: change_access_def)
  note fa = f [OF a']
  have e: "effects_of (parent_of s) a = Inr (plain_status a)" "effects_of (parent_of s) a' = Inr (plain_status a')"
    using plain_effects a fa by blast+
  have st: "status_changes avl (handleDataAccessStatusChanges avl n) (plain_status a) (plain_status a') (t, access_type, p)
      (store (t, access_type, p) a' s) = Inr s'"
    using run a(1) a' e by (simp add: change_access_def)
  have rs: "region_of (t, access_type, p) (store (t, access_type, p) a' s) = r"
    using r by (simp add: region_of_def map_in_store region_at_def)
  have ef: "ef_enforcesDependency (plain_status x) = enforces x" for x by (simp add: plain_status_def enforces_def)
  note st = status_changes_plain [OF a(2) _ load_store _ st, unfolded rs ef store_store store_views held_store]
  have "changed t p a a' r s s'"
    unfolding changed_def using st fa by auto
  with a' show ?thesis by blast
qed


lemma discounted_after_simps [simp]:
  "is_removable (discounted_after a a') = is_removable a'" "enforces (discounted_after a a') = enforces a'"
  "passes x (discounted_after a a') = passes x a'" "received x (discounted_after a a') = received x a'"
  "plain (discounted_after a a') = plain a'" "fa_type (discounted_after a a') = fa_type a'"
  "fa_complete (discounted_after a a') = fa_complete a'" "fa_weak (discounted_after a a') = fa_weak a'"
  "fa_next (discounted_after a a') = fa_next a'" "fa_originator (discounted_after a a') = fa_originator a'"
  "fa_registered (discounted_after a a') = fa_registered a'" "fa_reachable (discounted_after a a') = fa_reachable a'"
  "fa_inBottomMap (discounted_after a a') = fa_inBottomMap a'"
  "fa_discounted (discounted_after a a') = (fa_discounted a' \<or> newly_removable a a')"
proof -
  have s: "satisfied (discounted_after a a') = satisfied a'" by (simp add: satisfied_def discounted_after_def)
  show "enforces (discounted_after a a') = enforces a'" by (simp add: enforces_def s) (simp add: discounted_after_def)
  show "passes x (discounted_after a a') = passes x a'" "received x (discounted_after a a') = received x a'"
    by (cases x; simp add: discounted_after_def)+
qed (simp_all add: is_removable_def plain_def discounted_after_def)

lemma change_access_plain_ex:
  assumes a: "load (t, access_type, p) s = a" "plain a" "to_sibling (parent_of s) par a"
    and f: "f a = Inr a'" "plain a'" "to_sibling (parent_of s) par a'" "fa_registered a'"
    and mono: "satisfied a \<longrightarrow> satisfied a'" "fa_next a \<noteq> None \<longrightarrow> fa_next a' \<noteq> None" "fa_weak a' = fa_weak a"
    and gives: "fa_next a' \<noteq> None \<longrightarrow> grows a a' \<and> (gives Write a' \<and> \<not> gives Write a \<longrightarrow> gives Info a')"
    and rem: "is_removable a \<longrightarrow> is_removable a'"
      "newly_removable a a' \<longrightarrow> fa_registered a \<and> \<not> fa_discounted a' \<and> fa_next a' \<noteq> None \<and> blockers t s > 0 \<and> held t s"
  shows "\<exists>s'. change_access (handleDataAccessStatusChanges avl (Suc n)) (t, access_type, p) f s = Inr s'"
proof -
  have "\<exists>s'. status_changes avl (handleDataAccessStatusChanges avl n) (plain_status a) (plain_status a') (t, access_type, p)
      (store (t, access_type, p) a' s) = Inr s'"
    by (rule status_changes_plain_ex [OF a(2) f(2) load_store f(4) mono gives rem(1)]) (use rem in simp)
  then show ?thesis
    using plain_effects [OF a(2,3)] plain_effects [OF f(2,3)] a(1) f(1) by (auto simp: change_access_def)
qed

text \<open>The fields of an access that no change of its status touches.\<close>

definition same_place :: "DataAccess \<Rightarrow> DataAccess \<Rightarrow> bool" where
  "same_place a a' \<longleftrightarrow> (plain a \<longrightarrow> plain a') \<and> fa_originator a' = fa_originator a \<and>
     (fa_registered a \<longrightarrow> fa_registered a') \<and>
     (fa_reachable a \<longrightarrow> fa_reachable a') \<and> fa_next a' = fa_next a \<and> fa_inBottomMap a' = fa_inBottomMap a \<and>
     fa_discounted a' = fa_discounted a \<and> (enforces a' \<longrightarrow> enforces a)"

lemma chain_node_other:
  assumes "chain_node r par extra s t a" "shared s' = shared (store (u, access_type, p) a' s)" "t \<noteq> u"
    "blockers t s' = blockers t s" "predecessors t s' = predecessors t s"
  shows "chain_node r par extra s' t a"
  using assms shared_eqD [OF assms(2)] by (auto simp: chain_node_def load_def map_in_store)

lemma changed_chain:
  assumes h: "holds_chain r par extra ts as s" and i: "i < length ts"
    and p: "rm_nodes (map_in (ts ! i) access_type s) = [(p, r)]"
    and c: "changed (ts ! i) p (as ! i) a' r s s'" and a': "same_place (as ! i) a'"
  shows "holds_chain r par extra ts (as[i := discounted_after (as ! i) a']) s'"
proof -
  let ?t = "ts ! i" and ?a = "as ! i" and ?a' = "discounted_after (as ! i) a'"
  have len: "length as = length ts" and dist: "distinct (par # ts)" using h by (simp_all add: holds_chain_def)
  have shared: "shared s' = shared (store (?t, access_type, p) ?a' s)" using c by (simp add: changed_def)
  note views = shared_eqD [OF shared]
  have par: "par \<noteq> ?t" using dist i by auto
  have ca: "chain_access ?t (successor ts i) ?a" "chain_node r par extra s ?t ?a" using h i by (auto simp: holds_chain_def)
  have old: "load (?t, access_type, p) s = ?a" using ca(2) p by (auto simp: chain_node_def)
  have new: "chain_access ?t (successor ts i) ?a'"
  proof -
    have "is_removable ?a \<longrightarrow> is_removable a'" using c by (simp add: changed_def)
    then have "(fa_discounted ?a \<or> newly_removable ?a a') = is_removable a'"
      using ca(1) by (auto simp: chain_access_def newly_removable_def)
    then show ?thesis using ca(1) a' by (simp add: chain_access_def same_place_def)
  qed
  have node: "chain_node r par extra s' ?t ?a'"
  proof -
    have "rm_nodes (map_in ?t access_type s') = [(p, r)]" "load (?t, access_type, p) s' = ?a'"
      using p by (simp_all add: views map_in_store)
    moreover have "rm_nodes (bottom_in ?t s') = []" "parent_of s' ?t = Some par"
      using ca(2) by (simp_all add: views chain_node_def)
    moreover have "blockers ?t s' = (if is_removable ?a' then 0 else 1)"
      using ca c by (auto simp: chain_node_def changed_def chain_access_def newly_removable_def)
    moreover have "predecessors ?t s' = extra ?t + (if enforces ?a' then 1 else 0)"
      using ca c a' by (auto simp: chain_node_def changed_def chain_access_def same_place_def)
    ultimately show ?thesis by (auto simp: chain_node_def)
  qed
  have others: "chain_node r par extra s' (ts ! j) (as ! j)" if j: "j < length ts" "j \<noteq> i" for j
  proof -
    have ne: "ts ! j \<noteq> ?t" using dist i j by (simp add: nth_eq_iff_index_eq)
    have "chain_node r par extra s (ts ! j) (as ! j)" using h j by (simp add: holds_chain_def)
    with shared ne show ?thesis using c by (intro chain_node_other [OF _ shared ne]) (auto simp: changed_def)
  qed
  have bottom: "bottom_in par s' = bottom_in par s" "map_in par access_type s' = map_in par access_type s"
    using par by (simp_all add: views map_in_store)
  have "chain_node r par extra s' (ts ! j) (as[i := ?a'] ! j) \<and> chain_access (ts ! j) (successor ts j) (as[i := ?a'] ! j)"
    if j: "j < length ts" for j
    using node new others [OF j] h j len by (cases "j = i") (auto simp: holds_chain_def)
  then show ?thesis using h bottom by (simp add: holds_chain_def)
qed

section \<open>Update operations\<close>

definition gain :: "UpdateOperation \<Rightarrow> DataAccess \<Rightarrow> DataAccess" where
  "gain u a =
     a\<lparr>fa_readSatisfied := fa_readSatisfied a \<or> carries Read u, fa_writeSatisfied := fa_writeSatisfied a \<or> carries Write u,
       fa_concurrentSatisfied := fa_concurrentSatisfied a \<or> carries Concurrent u,
       fa_receivedReductionInfo := fa_receivedReductionInfo a \<or> carries Info u,
       fa_topmost := fa_topmost a \<or> carries Topmost u, fa_topLevel := fa_topLevel a \<or> carries TopLevel u\<rparr>"

lemma gain_simps [simp]:
  "received x (gain u a) = (received x a \<or> carries x u)" "fa_type (gain u a) = fa_type a" "fa_complete (gain u a) = fa_complete a"
  "fa_weak (gain u a) = fa_weak a"
  by (cases x; simp add: gain_def)+

lemma when_set:
  "when_result b setReadSatisfied a = Inr a' \<longleftrightarrow> \<not> (fa_readSatisfied a \<and> b) \<and> a' = a\<lparr>fa_readSatisfied := fa_readSatisfied a \<or> b\<rparr>"
  "when_result b setWriteSatisfied a = Inr a' \<longleftrightarrow> \<not> (fa_writeSatisfied a \<and> b) \<and> a' = a\<lparr>fa_writeSatisfied := fa_writeSatisfied a \<or> b\<rparr>"
  "when_result b setConcurrentSatisfied a = Inr a' \<longleftrightarrow>
     \<not> (fa_concurrentSatisfied a \<and> b) \<and> a' = a\<lparr>fa_concurrentSatisfied := fa_concurrentSatisfied a \<or> b\<rparr>"
  "when_result b setReceivedReductionInfo a = Inr a' \<longleftrightarrow>
     \<not> (fa_receivedReductionInfo a \<and> b) \<and> a' = a\<lparr>fa_receivedReductionInfo := fa_receivedReductionInfo a \<or> b\<rparr>"
  "when_result b setTopmost a = Inr a' \<longleftrightarrow> \<not> (fa_topmost a \<and> b) \<and> a' = a\<lparr>fa_topmost := fa_topmost a \<or> b\<rparr>"
  "when_result b setTopLevel a = Inr a' \<longleftrightarrow> \<not> (fa_topLevel a \<and> b) \<and> a' = a\<lparr>fa_topLevel := fa_topLevel a \<or> b\<rparr>"
  by (cases a; auto simp: when_result_def setReadSatisfied_def setWriteSatisfied_def setConcurrentSatisfied_def
      setReceivedReductionInfo_def setTopmost_def setTopLevel_def)+

lemma plain_bits [simp]:
  "plain (a\<lparr>fa_readSatisfied := b\<rparr>) = plain a" "plain (a\<lparr>fa_writeSatisfied := b\<rparr>) = plain a"
  "plain (a\<lparr>fa_concurrentSatisfied := b\<rparr>) = plain a" "plain (a\<lparr>fa_receivedReductionInfo := b\<rparr>) = plain a"
  "plain (a\<lparr>fa_topmost := b\<rparr>) = plain a" "plain (a\<lparr>fa_topLevel := b\<rparr>) = plain a" "plain (a\<lparr>fa_complete := b\<rparr>) = plain a"
  "plain (a\<lparr>fa_next := l\<rparr>) = plain a" "plain (a\<lparr>fa_inBottomMap := b\<rparr>) = plain a" "plain (a\<lparr>fa_registered := b\<rparr>) = plain a"
  "plain (a\<lparr>fa_reachable := b\<rparr>) = plain a"
  by (simp_all add: plain_def)

lemma receive_null_info:
  assumes "plain a" "uo_reductionInfo u = None"
  shows "when_result b (receive_reduction_info s u) a = when_result b setReceivedReductionInfo a"
proof -
  have "setReceivedReductionInfo (a\<lparr>fa_previousReductionInfo := None\<rparr>) = setReceivedReductionInfo a"
    using assms(1) by (cases a) (simp add: plain_def setReceivedReductionInfo_def)
  then show ?thesis
    using assms by (simp add: when_result_def receive_reduction_info_def setPreviousReductionInfo_def plain_def)
qed

lemma apply_update_plain:
  assumes "plain a" "uo_reductionInfo u = None" "uo_reductionCpuSet u = []"
  shows "apply_update s u a = Inr a' \<longleftrightarrow> (\<forall>x. \<not> (received x a \<and> carries x u)) \<and> a' = gain u a"
proof -
  have skip: "when_result False f x = Inr x" for f and x :: DataAccess by (simp add: when_result_def)
  show ?thesis
    unfolding apply_update_def result_bind_eq_Inr when_set all_tokens gain_def
    using assms by (auto simp: receive_null_info when_set skip)
qed


lemma satisfied_mono:
  assumes "plain a" "fa_type a' = fa_type a" "fa_previousReductionInfo a' = fa_previousReductionInfo a"
    "\<And>x. received x a \<Longrightarrow> received x a'" "satisfied a"
  shows "satisfied a'"
  using assms(1-3,5) assms(4) [of Read] assms(4) [of Write] assms(4) [of Concurrent] assms(4) [of Info]
  by (auto simp: satisfied_def plain_def Let_def split: if_splits)

lemma same_place_gain: "plain a \<Longrightarrow> same_place a (gain u a)"
proof -
  assume pl: "plain a"
  have "satisfied (gain u a)" if "satisfied a"
    by (rule satisfied_mono [OF pl _ _ _ that]) (simp_all, simp add: gain_def)
  then show ?thesis by (auto simp: same_place_def enforces_def) (simp_all add: gain_def)
qed

definition completed :: "DataAccess \<Rightarrow> DataAccess" where
  "completed a = a\<lparr>fa_complete := True\<rparr>"

lemma completed_simps [simp]:
  "received x (completed a) = received x a" "fa_type (completed a) = fa_type a" "fa_complete (completed a)"
  "fa_weak (completed a) = fa_weak a"
  by (cases x; simp add: completed_def)+

lemma same_place_completed: "plain a \<Longrightarrow> same_place a (completed a)"
proof -
  assume pl: "plain a"
  have "satisfied (completed a)" if "satisfied a"
    by (rule satisfied_mono [OF pl _ _ _ that]) (simp_all, simp add: completed_def)
  then show ?thesis by (auto simp: same_place_def enforces_def) (simp_all add: completed_def)
qed

text \<open>A change of one access of the chain, which keeps its place.\<close>

definition chain_change ::
  "DataAccessRegion \<Rightarrow> task_ref \<Rightarrow> (task_ref \<Rightarrow> int) \<Rightarrow> task_ref list \<Rightarrow> DataAccess list \<Rightarrow> nat \<Rightarrow> DataAccess \<Rightarrow>
     access_state \<Rightarrow> access_state \<Rightarrow> bool" where
  "chain_change r par extra ts as i a' s s' \<longleftrightarrow>
     holds_chain r par extra ts (as[i := discounted_after (as ! i) a']) s' \<and>
     delayed s' = delayed s @ passed_on (as ! i) a' r \<and>
     (fa_next (as ! i) \<noteq> None \<longrightarrow> grows (as ! i) a') \<and>
     satisfied_tasks s' = satisfied_tasks s @
       (if enforces (as ! i) \<and> \<not> enforces a' \<and> predecessors (ts ! i) s = 1 then [ts ! i] else []) \<and>
     ds_readied s' = ds_readied s \<and> (\<forall>t'. held t' s \<longrightarrow> held t' s') \<and> (\<forall>t'. t' \<noteq> ts ! i \<longrightarrow> untouched t' s s')"

lemma change_in_chain:
  assumes h: "holds_chain r par extra ts as s" and i: "i < length ts"
    and p: "rm_nodes (map_in (ts ! i) access_type s) = [(p, r)]"
    and run: "change_access (handleDataAccessStatusChanges avl (Suc n)) (ts ! i, access_type, p) f s = Inr s'"
    and f: "\<And>a'. f (as ! i) = Inr a' \<Longrightarrow> same_place (as ! i) a'"
  shows "\<exists>a'. f (as ! i) = Inr a' \<and> chain_change r par extra ts as i a' s s'"
proof -
  have ca: "chain_access (ts ! i) (successor ts i) (as ! i)" and cn: "chain_node r par extra s (ts ! i) (as ! i)"
    using h i by (auto simp: holds_chain_def)
  have a: "load (ts ! i, access_type, p) s = as ! i" using cn p by (auto simp: chain_node_def)
  note sib = chain_siblings [OF h i]
  have r: "region_of (ts ! i, access_type, p) s = r" using p by (simp add: region_of_def region_at_def)
  have "plain a' \<and> to_sibling (parent_of s) par a' \<and> fa_registered a'" if "f (as ! i) = Inr a'" for a'
    using f [OF that] sib ca by (auto simp: same_place_def to_sibling_def chain_access_def)
  from change_access_plain [OF run a sib(2,1) this r]
  obtain a' where a': "f (as ! i) = Inr a'" and c: "changed (ts ! i) p (as ! i) a' r s s'" by blast
  have "fa_next a' = fa_next (as ! i)" using f [OF a'] by (simp add: same_place_def)
  moreover have "ds_readied s' = ds_readied s"
    using c shared_eqD(8) [of s' "store (ts ! i, access_type, p) (discounted_after (as ! i) a') s"] by (simp add: changed_def)
  ultimately show ?thesis using changed_chain [OF h i p c f [OF a']] c a' changed_untouched [OF c]
    by (auto simp: chain_change_def changed_def)
qed

context ordered_set
begin

lemma update_in_chain:
  assumes h: "holds_chain r par extra ts as s" and i: "i < length ts"
    and u: "uo_target u = to_access (ts ! i)" "uo_region u = r" "uo_reductionInfo u = None" "uo_reductionCpuSet u = []"
    and run: "processUpdateOperation avl (Suc n) u s = Inr s'"
  shows "(\<forall>x. \<not> (received x (as ! i) \<and> carries x u)) \<and> \<not> fa_discounted (as ! i) \<and>
    chain_change r par extra ts as i (gain u (as ! i)) s s'"
proof -
  obtain p where p: "rm_nodes (map_in (ts ! i) access_type s) = [(p, r)]" "load (ts ! i, access_type, p) s = as ! i"
    using h i by (auto simp: holds_chain_def chain_node_def)
  have r: "region_ok r" using h by (simp add: holds_chain_def)
  have reg: "region_of (ts ! i, access_type, p) s = r" using p by (simp add: region_of_def region_at_def)
  have run: "\<not> fa_discounted (as ! i)" "change_access (handleDataAccessStatusChanges avl (Suc n)) (ts ! i, access_type, p) (apply_update s u) s = Inr s'"
    using run u p r reg one_access(1) [OF r p(1)]
    by (auto simp: processUpdateOperation_def Let_def ended_def continue_def applyUpdateOperationOnAccess_def
        fragmentAccess_def fullyContainedIn_def region_self simp del: handleDataAccessStatusChanges.simps)
  note pl = chain_siblings(2) [OF h i]
  have "same_place (as ! i) a'" if "apply_update s u (as ! i) = Inr a'" for a'
    using that apply_update_plain [OF pl u(3,4)] same_place_gain [OF pl] by auto
  from change_in_chain [OF h i p(1) run(2) this] run(1) show ?thesis
    using apply_update_plain [OF pl u(3,4)] by auto
qed

lemma finish_in_chain:
  assumes h: "holds_chain r par extra ts as s" and i: "i < length ts" and nc: "\<not> fa_complete (as ! i)"
    and run: "unregister_section avl (Suc n) (ts ! i) s = Inr s'"
  shows "chain_change r par extra ts as i (completed (as ! i)) s s'"
proof -
  obtain p where p: "rm_nodes (map_in (ts ! i) access_type s) = [(p, r)]" "load (ts ! i, access_type, p) s = as ! i"
    and b: "rm_nodes (bottom_in (ts ! i) s) = []"
    using h i by (auto simp: holds_chain_def chain_node_def)
  have r: "region_ok r" using h by (simp add: holds_chain_def)
  have reg: "region_of (ts ! i, access_type, p) s = r" using p by (simp add: region_of_def region_at_def)
  note pl = chain_siblings(2) [OF h i]
  have ns: "\<not> fa_hasSubaccesses (as ! i)" using pl by (simp add: plain_def)
  have run: "change_access (handleDataAccessStatusChanges avl (Suc n)) (ts ! i, access_type, p) setComplete s = Inr s'"
    using run p r reg nc ns one_access(2) [OF r p(1)] no_entry(2) [OF b]
    by (auto simp: unregister_section_def createTopLevelSink_def finalizeAccess_def applyToAccessAndFragments_def
        Let_def ended_def continue_def complete_access_def
        fragmentAccess_def fullyContainedIn_def region_self simp del: handleDataAccessStatusChanges.simps)
  have c: "setComplete (as ! i) = Inr (completed (as ! i))" using nc by (simp add: setComplete_def completed_def)
  have "same_place (as ! i) a'" if "setComplete (as ! i) = Inr a'" for a'
    using that c same_place_completed [OF pl] by simp
  from change_in_chain [OF h i p(1) run this] c show ?thesis by auto
qed

end


text \<open>Both succeed when a write token never overtakes the reduction information.\<close>

definition bits_grow :: "DataAccess \<Rightarrow> DataAccess \<Rightarrow> bool" where
  "bits_grow a a' \<longleftrightarrow> same_place a a' \<and> fa_type a' = fa_type a \<and> fa_weak a' = fa_weak a \<and>
     fa_previousReductionInfo a' = fa_previousReductionInfo a \<and> (fa_complete a \<longrightarrow> fa_complete a') \<and>
     (\<forall>x. received x a \<longrightarrow> received x a')"

lemma bits_grow_passes: "bits_grow a a' \<Longrightarrow> passes x a \<Longrightarrow> passes x a'"
  by (cases x) (auto simp: bits_grow_def all_tokens)

lemma bits_grow_removable: "bits_grow a a' \<Longrightarrow> plain a \<Longrightarrow> is_removable a \<Longrightarrow> is_removable a'"
  by (auto simp: bits_grow_def all_tokens is_removable_def plain_def same_place_def)

lemma bits_grow_gain: "plain a \<Longrightarrow> bits_grow a (gain u a)"
  by (simp add: bits_grow_def same_place_gain) (simp add: gain_def)

lemma bits_grow_completed: "plain a \<Longrightarrow> bits_grow a (completed a)"
  by (simp add: bits_grow_def same_place_completed) (simp add: completed_def)

definition info_before_write :: "DataAccess \<Rightarrow> bool" where
  "info_before_write a \<longleftrightarrow> (received Write a \<and> fa_complete a \<longrightarrow> received Info a)"

lemma change_in_chain_ex:
  assumes h: "holds_chain r par extra ts as s" and i: "i < length ts"
    and p: "rm_nodes (map_in (ts ! i) access_type s) = [(p, r)]"
    and f: "f (as ! i) = Inr a'" "bits_grow (as ! i) a'" "info_before_write a'" and held: "held (ts ! i) s"
  shows "\<exists>s'. change_access (handleDataAccessStatusChanges avl (Suc n)) (ts ! i, access_type, p) f s = Inr s'"
proof -
  let ?a = "as ! i"
  have ca: "chain_access (ts ! i) (successor ts i) ?a" and cn: "chain_node r par extra s (ts ! i) ?a"
    using h i by (auto simp: holds_chain_def)
  have a: "load (ts ! i, access_type, p) s = ?a" using cn p by (auto simp: chain_node_def)
  note sib = chain_siblings [OF h i]
  have sp: "same_place ?a a'" using f(2) by (simp add: bits_grow_def)
  have nx: "fa_next a' = fa_next ?a" "fa_registered a'" "plain a'" "to_sibling (parent_of s) par a'"
    using sp ca sib by (auto simp: same_place_def chain_access_def to_sibling_def)
  have sat: "satisfied ?a \<longrightarrow> satisfied a'" using satisfied_mono [OF sib(2), of a'] f(2) by (simp add: bits_grow_def)
  have gr: "grows ?a a'" using bits_grow_passes [OF f(2)] nx by (auto simp: gives_def)
  have wi: "gives Write a' \<longrightarrow> gives Info a'" using f(3) by (auto simp: gives_def info_before_write_def)
  have rm: "is_removable ?a \<longrightarrow> is_removable a'" using bits_grow_removable [OF f(2) sib(2)] by blast
  have new: "newly_removable ?a a' \<longrightarrow> fa_registered ?a \<and> \<not> fa_discounted a' \<and> fa_next a' \<noteq> None \<and> blockers (ts ! i) s > 0 \<and> held (ts ! i) s"
  proof
    assume n: "newly_removable ?a a'"
    then have "\<not> is_removable ?a" "is_removable a'" by (simp_all add: newly_removable_def)
    moreover from this have "fa_next a' \<noteq> None"
      using nx(3) sp ca by (cases "successor ts i") (auto simp: is_removable_def plain_def same_place_def chain_access_def)
    ultimately show "fa_registered ?a \<and> \<not> fa_discounted a' \<and> fa_next a' \<noteq> None \<and> blockers (ts ! i) s > 0 \<and> held (ts ! i) s"
      using ca cn sp held by (simp add: chain_access_def chain_node_def same_place_def)
  qed
  show ?thesis
    by (rule change_access_plain_ex [where f = f, OF a sib(2,1) f(1) nx(3,4,2) sat _ _ _ rm new])
      (use nx gr wi f(2) in \<open>auto simp: bits_grow_def\<close>)
qed

context ordered_set
begin

lemma update_in_chain_ex:
  assumes h: "holds_chain r par extra ts as s" and i: "i < length ts"
    and u: "uo_target u = to_access (ts ! i)" "uo_region u = r" "uo_reductionInfo u = None" "uo_reductionCpuSet u = []"
      "\<not> UpdateOperation_empty u"
    and ok: "\<forall>x. \<not> (received x (as ! i) \<and> carries x u)" "\<not> fa_discounted (as ! i)"
      "info_before_write (gain u (as ! i))" "held (ts ! i) s"
  shows "\<exists>s'. processUpdateOperation avl (Suc n) u s = Inr s'"
proof -
  obtain p where p: "rm_nodes (map_in (ts ! i) access_type s) = [(p, r)]" "load (ts ! i, access_type, p) s = as ! i"
    using h i by (auto simp: holds_chain_def chain_node_def)
  have r: "region_ok r" using h by (simp add: holds_chain_def)
  have reg: "region_of (ts ! i, access_type, p) s = r" using p by (simp add: region_of_def region_at_def)
  note pl = chain_siblings(2) [OF h i]
  have "apply_update s u (as ! i) = Inr (gain u (as ! i))" using apply_update_plain [OF pl u(3,4)] ok(1) by simp
  from change_in_chain_ex [where f = "apply_update s u", OF h i p(1) this bits_grow_gain [OF pl] ok(3,4)]
  obtain s' where "change_access (handleDataAccessStatusChanges avl (Suc n)) (ts ! i, access_type, p) (apply_update s u) s = Inr s'" by blast
  then show ?thesis
    using u p r reg ok(2) one_access(1) [OF r p(1)]
    by (auto simp: processUpdateOperation_def Let_def ended_def continue_def applyUpdateOperationOnAccess_def
        fragmentAccess_def fullyContainedIn_def region_self simp del: handleDataAccessStatusChanges.simps)
qed

lemma finish_in_chain_ex:
  assumes h: "holds_chain r par extra ts as s" and i: "i < length ts" and nc: "\<not> fa_complete (as ! i)"
    and ok: "info_before_write (completed (as ! i))" "held (ts ! i) s"
  shows "\<exists>s'. unregister_section avl (Suc n) (ts ! i) s = Inr s'"
proof -
  obtain p where p: "rm_nodes (map_in (ts ! i) access_type s) = [(p, r)]" "load (ts ! i, access_type, p) s = as ! i"
    and b: "rm_nodes (bottom_in (ts ! i) s) = []"
    using h i by (auto simp: holds_chain_def chain_node_def)
  have r: "region_ok r" using h by (simp add: holds_chain_def)
  have reg: "region_of (ts ! i, access_type, p) s = r" using p by (simp add: region_of_def region_at_def)
  note pl = chain_siblings(2) [OF h i]
  have ns: "\<not> fa_hasSubaccesses (as ! i)" using pl by (simp add: plain_def)
  have ca: "fa_originator (as ! i) = ts ! i" "\<not> fa_discounted (as ! i)"
    using h i nc by (auto simp: holds_chain_def chain_access_def is_removable_def)
  have "setComplete (as ! i) = Inr (completed (as ! i))" using nc by (simp add: setComplete_def completed_def)
  from change_in_chain_ex [where f = setComplete, OF h i p(1) this bits_grow_completed [OF pl] ok]
  obtain s' where "change_access (handleDataAccessStatusChanges avl (Suc n)) (ts ! i, access_type, p) setComplete s = Inr s'" by blast
  then show ?thesis
    using p r reg nc ns ca one_access(2) [OF r p(1)] no_entry(2) [OF b] region_ok_not_empty [OF r]
    by (auto simp: unregister_section_def createTopLevelSink_def finalizeAccess_def applyToAccessAndFragments_def
        Let_def ended_def continue_def complete_access_def
        fragmentAccess_def fullyContainedIn_def region_self simp del: handleDataAccessStatusChanges.simps)
qed

end

section \<open>Linking a new access\<close>

lemma link_views [simp]:
  "map_in t k (s\<lparr>ds_link := l\<rparr>) = map_in t k s" "bottom_in t (s\<lparr>ds_link := l\<rparr>) = bottom_in t s"
  "parent_of (s\<lparr>ds_link := l\<rparr>) = parent_of s" "load ptr (s\<lparr>ds_link := l\<rparr>) = load ptr s"
  "region_of ptr (s\<lparr>ds_link := l\<rparr>) = region_of ptr s" "held t (s\<lparr>ds_link := l\<rparr>) = held t s"
proof -
  show m: "map_in t k (s\<lparr>ds_link := l\<rparr>) = map_in t k s" for t k by (simp add: map_in_def)
  show "load ptr (s\<lparr>ds_link := l\<rparr>) = load ptr s" "region_of ptr (s\<lparr>ds_link := l\<rparr>) = region_of ptr s"
    by (simp_all add: load_def region_of_def m split: prod.splits)
qed (simp_all add: bottom_in_def parent_of_def fun_eq_iff held_def)

lemma bottom_views [simp]:
  "map_in t' k (put_bottom t m s) = map_in t' k s" "bottom_in t' (put_bottom t m s) = (if t' = t then m else bottom_in t' s)"
  "parent_of (put_bottom t m s) = parent_of s" "load ptr (put_bottom t m s) = load ptr s"
  "ds_tasks (put_bottom t m s) = ds_tasks s" "ds_hp (put_bottom t m s) = ds_hp s" "ds_link (put_bottom t m s) = ds_link s"
  "ds_readied (put_bottom t m s) = ds_readied s" "held t' (put_bottom t m s) = held t' s"
  "td_removalBlockers (ds_structures (put_bottom t m s) t') = td_removalBlockers (ds_structures s t')"
proof -
  show m: "map_in t' k (put_bottom t m s) = map_in t' k s" for t' k by (cases k) (simp_all add: map_in_def put_bottom_def)
  show "load ptr (put_bottom t m s) = load ptr s" by (simp add: load_def m split: prod.splits)
qed (simp_all add: put_bottom_def bottom_in_def parent_of_def fun_eq_iff held_def)

definition entered :: "DataAccess \<Rightarrow> DataAccess" where
  "entered a = a\<lparr>fa_inBottomMap := True, fa_registered := True, fa_reachable := True\<rparr>"

definition fresh_access :: "task_ref \<Rightarrow> DataAccess \<Rightarrow> bool" where
  "fresh_access t a \<longleftrightarrow> plain a \<and> fa_originator a = t \<and> \<not> fa_registered a \<and> \<not> fa_complete a \<and> fa_next a = None \<and>
     \<not> fa_inBottomMap a \<and> \<not> fa_reachable a \<and> \<not> fa_discounted a \<and> (\<forall>x. \<not> received x a)"

definition all_received :: "DataAccess \<Rightarrow> DataAccess" where
  "all_received a =
     a\<lparr>fa_readSatisfied := True, fa_writeSatisfied := True, fa_concurrentSatisfied := True,
       fa_receivedReductionInfo := True, fa_topmost := True, fa_topLevel := True\<rparr>"

definition linked_to :: "task_ref \<Rightarrow> DataAccess \<Rightarrow> DataAccess" where
  "linked_to t a = a\<lparr>fa_next := Some (to_access t), fa_inBottomMap := False\<rparr>"

lemma entered_simps [simp]:
  "received x (entered a) = received x a" "fa_type (entered a) = fa_type a" "fa_complete (entered a) = fa_complete a"
  "fa_weak (entered a) = fa_weak a" "fa_next (entered a) = fa_next a" "plain (entered a) = plain a"
  "fa_originator (entered a) = fa_originator a" "satisfied (entered a) = satisfied a"
  by (cases x; simp add: entered_def plain_def satisfied_def)+

lemma all_received_simps [simp]:
  "received x (all_received a)" "fa_type (all_received a) = fa_type a" "fa_complete (all_received a) = fa_complete a"
  "fa_weak (all_received a) = fa_weak a" "fa_next (all_received a) = fa_next a" "plain (all_received a) = plain a"
  "fa_originator (all_received a) = fa_originator a"
  by (cases x; simp add: all_received_def plain_def)+

lemma linked_to_simps [simp]:
  "received x (linked_to t a) = received x a" "fa_type (linked_to t a) = fa_type a"
  "fa_complete (linked_to t a) = fa_complete a" "fa_weak (linked_to t a) = fa_weak a"
  "fa_next (linked_to t a) = Some (to_access t)" "plain (linked_to t a) = plain a"
  "fa_originator (linked_to t a) = fa_originator a" "satisfied (linked_to t a) = satisfied a"
  "passes x (linked_to t a) = passes x a"
  by (cases x; simp add: linked_to_def plain_def satisfied_def)+

lemma fresh_unsatisfied: "fresh_access t a \<Longrightarrow> \<not> satisfied a"
  unfolding fresh_access_def all_tokens by (simp add: satisfied_def)

lemma all_received_satisfied: "plain a \<Longrightarrow> satisfied (all_received a)"
  by (simp add: satisfied_def plain_def all_received_def)

lemma enter_fresh:
  assumes "fresh_access t a" "load (t, access_type, p) s = a" "parent_of s t = Some par" "region_of (t, access_type, p) s = r"
    and run: "change_access (handleDataAccessStatusChanges avl (Suc n)) (t, access_type, p) enter_bottom_map s = Inr s'"
  shows "changed t p a (entered a) r s s'"
proof -
  have e: "enter_bottom_map a = Inr (entered a)"
    using assms(1) by (simp add: enter_bottom_map_def setInBottomMap_def setRegistered_def setReachable_def fresh_access_def entered_def)
  have "\<exists>a'. enter_bottom_map a = Inr a' \<and> changed t p a a' r s s'"
    by (rule change_access_plain [OF run assms(2) _ _ _ assms(4)])
      (use assms(1,3) e in \<open>auto simp: fresh_access_def to_sibling_def\<close>, simp add: entered_def)
  with e show ?thesis by simp
qed


lemma holds_chain_cong:
  assumes h: "holds_chain r par extra ts as s"
    and v: "\<And>t. t \<in> set (par # ts) \<Longrightarrow> untouched t s s'"
  shows "holds_chain r par extra ts as s'"
proof -
  have "chain_node r par extra s' (ts ! i) (as ! i)" if i: "i < length ts" for i
    using h i v [of "ts ! i"] by (auto simp: holds_chain_def chain_node_def load_def untouched_def)
  with h v [of par] show ?thesis by (simp add: holds_chain_def untouched_def)
qed

lemma changed_elsewhere:
  assumes "holds_chain r par extra ts as s" "changed t p a a' r' s s'" "t \<notin> set (par # ts)"
  shows "holds_chain r par extra ts as s'"
  by (rule holds_chain_cong [OF assms(1)], rule changed_untouched [OF assms(2)]) (use assms(3) in auto)

lemma contains_none: "rm_nodes m = [] \<Longrightarrow> \<not> contains avl r m"
  by (simp add: contains_def exists_in_def nodes_from_def)

context ordered_set
begin

lemma replace_first:
  assumes r: "region_ok r" and p: "rm_nodes (map_in t access_type s) = [(p, r)]" and a: "load (t, access_type, p) s = a"
    and pl: "plain a" and par: "rm_nodes (map_in par access_type s) = []" "rm_nodes (bottom_in par s) = []"
    and run: "replaceMatchingInBottomMapLinkAndPropagate avl handle (to_access t) (t, access_type, p) par s = Inr s'"
  shows "\<exists>l s3. lo_parentAccessType l = NO_ACCESS_TYPE \<and>
    change_access handle (t, access_type, p) satisfy_access (s\<lparr>ds_link := l\<rparr>) = Inr s3 \<and>
    s' = put_bottom par (snd (insert_node avl r \<lparr>bm_link = to_access t, bm_accessType = lo_parentAccessType (ds_link s3)\<rparr>
      (bottom_in par s3))) s3"
proof -
  let ?l = "link_locals_new\<lparr>lo_local := True, lo_first := False, lo_lastWasLocal := True\<rparr>"
  have reg: "region_of (t, access_type, p) s = r" using p by (simp add: region_of_def region_at_def)
  have one: "intersecting_accesses avl t access_type r f (s\<lparr>ds_link := l\<rparr>) = f p (s\<lparr>ds_link := l\<rparr>)" for f l
    using one_access(1) [OF r, of t access_type "s\<lparr>ds_link := l\<rparr>" p] p by simp
  have none: "tiled_entries avl par r f g (s\<lparr>ds_link := l\<rparr>) = g r (s\<lparr>ds_link := l\<rparr>)"
    "tiled_accesses avl par access_type r f g (s\<lparr>ds_link := l\<rparr>) = g r (s\<lparr>ds_link := l\<rparr>)" for f g l
    using par by (simp_all add: no_entry no_access)
  have nest: "check_nesting (with_link (\<lambda>l. l\<lparr>lo_local := True\<rparr>) (s\<lparr>ds_link := link_locals_new\<rparr>)) = Inr (s\<lparr>ds_link := ?l\<rparr>)"
    by (simp add: check_nesting_def with_link_def link_locals_new_def)
  have nr: "fa_type a \<noteq> REDUCTION_ACCESS_TYPE" using pl by (simp add: plain_def)
  have "\<exists>s3. change_access handle (t, access_type, p) satisfy_access (s\<lparr>ds_link := ?l\<rparr>) = Inr s3 \<and>
    s' = put_bottom par (snd (insert_node avl r \<lparr>bm_link = to_access t, bm_accessType = lo_parentAccessType (ds_link s3)\<rparr>
      (bottom_in par s3))) s3"
    using run reg nr a one none r contains_none [of "map_in par access_type s" avl r] par nest
    by (auto simp: replaceMatchingInBottomMapLinkAndPropagate_def Let_def foreachBottomMapMatchPossiblyCreatingInitialFragmentsAndMissingRegion_def
        satisfy_missing_def ended_def continue_def fragmentAccess_def fullyContainedIn_def region_self)
  then show ?thesis by (auto intro!: exI [of _ ?l] simp: link_locals_new_def)
qed

lemma replace_next:
  assumes r: "region_ok r" and p: "rm_nodes (map_in t access_type s) = [(p, r)]" and a: "load (t, access_type, p) s = a"
    and pl: "plain a" "plain prev" and q: "rm_nodes (map_in u access_type s) = [(q, r)]" and u: "u \<noteq> par"
    and prev: "load (u, access_type, q) s = prev"
    and b: "rm_nodes (bottom_in par s) = [(b, r)]"
      "rm_contents (bottom_in par s) b = \<lparr>bm_link = to_access u, bm_accessType = NO_ACCESS_TYPE\<rparr>"
    and run: "replaceMatchingInBottomMapLinkAndPropagate avl handle (to_access t) (t, access_type, p) par s = Inr s'"
    and keeps: "\<And>l s3. change_access handle (u, access_type, q) (\<lambda>a. unsetInBottomMap (setNext (to_access t) a)) (s\<lparr>ds_link := l\<rparr>) = Inr s3 \<Longrightarrow>
      bottom_in par s3 = bottom_in par s"
  shows "\<exists>l s3. lo_parentAccessType l = NO_ACCESS_TYPE \<and> fa_inBottomMap prev \<and>
    change_access handle (u, access_type, q) (\<lambda>a. unsetInBottomMap (setNext (to_access t) a)) (s\<lparr>ds_link := l\<rparr>) = Inr s3 \<and>
    s' = put_bottom par (snd (insert_node avl r \<lparr>bm_link = to_access t, bm_accessType = lo_parentAccessType (ds_link s3)\<rparr>
      (erase_node b (bottom_in par s3)))) s3"
proof -
  let ?l = "link_locals_new\<lparr>lo_local := True, lo_first := False, lo_lastWasLocal := True\<rparr>"
  have reg: "region_of (t, access_type, p) s = r" "region_of (u, access_type, q) s = r"
    using p q by (simp_all add: region_of_def region_at_def)
  have one: "intersecting_accesses avl u access_type r f (s\<lparr>ds_link := l\<rparr>) = f q (s\<lparr>ds_link := l\<rparr>)" for f l
    using one_access(1) [OF r, of u access_type "s\<lparr>ds_link := l\<rparr>" q] q by simp
  have entry: "tiled_entries avl par r f g (s\<lparr>ds_link := l\<rparr>) = f b (s\<lparr>ds_link := l\<rparr>)" for f g l
    using one_entry(1) [OF r, of par "s\<lparr>ds_link := l\<rparr>" b] b by simp
  have nr: "fa_type a \<noteq> REDUCTION_ACCESS_TYPE" using pl by (simp add: plain_def)
  have at: "region_at (bottom_in par s) b = Some r" using b by (simp add: region_at_def)
  have loc: "(link_locals_new\<lparr>lo_parentAccessType := NO_ACCESS_TYPE, lo_local := True\<rparr>)\<lparr>lo_first := False, lo_lastWasLocal := True\<rparr> = ?l"
    by (simp add: link_locals_new_def)
  have nest: "check_nesting (with_link (\<lambda>l. l\<lparr>lo_parentAccessType := NO_ACCESS_TYPE, lo_local := True\<rparr>) (s\<lparr>ds_link := link_locals_new\<rparr>)) =
      Inr (s\<lparr>ds_link := ?l\<rparr>)"
    by (simp add: check_nesting_def with_link_def link_locals_new_def)
  let ?s0 = "s\<lparr>ds_link := link_locals_new\<rparr>" and ?e = "\<lparr>bm_link = to_access u, bm_accessType = NO_ACCESS_TYPE\<rparr>"
  let ?change = "change_access handle (u, access_type, q) (\<lambda>a. unsetInBottomMap (setNext (to_access t) a)) (s\<lparr>ds_link := ?l\<rparr>)"
  have ld: "load ptr (with_link f s1) = load ptr s1" for ptr f s1 by (simp add: with_link_def)
  have lp: "\<exists>s3. ?change = Inr s3 \<and> s2 = (True, s3)"
    if "link_previous handle (to_access t) (t, access_type, p) r (u, access_type, q) ?e ?s0 = Inr s2" for s2
    using that nest nr a reg r by (auto simp: link_previous_def Let_def ld continue_def fullyContainedIn_def region_self)
  have fl: "\<exists>s3. fa_inBottomMap prev \<and> ?change = Inr s3 \<and> s2 = (True, s3)"
    if "followLink avl handle (to_access u) r (\<lambda>ptr s.
         assert_that (fa_next (load ptr s) = None) ''!previous->hasNext()''
           (assert_that (fa_inBottomMap (load ptr s)) ''previous->isInBottomMap()''
             (link_previous handle (to_access t) (t, access_type, p) r ptr ?e s))) ?s0 = Inr s2" for s2
    using that lp [of s2] one prev reg r pl(2)
    by (auto simp: followLink_def Let_def fragmentAccessObject_def fragment_object_def fullyContainedIn_def region_self)
  have me: "\<exists>s3. fa_inBottomMap prev \<and> ?change = Inr s3 \<and> s2 = (True, erase_entry par b s3)"
    if m: "match_entry avl handle par r (link_previous handle (to_access t) (t, access_type, p) r) b ?s0 = Inr s2" for s2
  proof -
    obtain c s3 where f: "followLink avl handle (to_access u) r (\<lambda>ptr s.
         assert_that (fa_next (load ptr s) = None) ''!previous->hasNext()''
           (assert_that (fa_inBottomMap (load ptr s)) ''previous->isInBottomMap()''
             (link_previous handle (to_access t) (t, access_type, p) r ptr ?e s))) ?s0 = Inr (c, s3)"
      and fb: "result_bind (fragmentBottomMapEntry avl par b r False s3) (\<lambda>(e, s2).
         case e of None \<Rightarrow> Inl (FatalError ''null bottom map entry'') | Some q \<Rightarrow> Inr (c, erase_entry par q s2)) = Inr s2"
      using m at b(2) r by (auto simp: match_entry_def Let_def region_self)
    from fl [OF f] have s3: "fa_inBottomMap prev" "?change = Inr s3" "c" by auto
    have "fragmentBottomMapEntry avl par b r False s3 = Inr (Some b, s3)"
      using keeps [OF s3(2)] at r by (simp add: fragmentBottomMapEntry_def fullyContainedIn_def region_self)
    with fb s3 show ?thesis by auto
  qed
  have "\<exists>s3. fa_inBottomMap prev \<and>
    change_access handle (u, access_type, q) (\<lambda>a. unsetInBottomMap (setNext (to_access t) a)) (s\<lparr>ds_link := ?l\<rparr>) = Inr s3 \<and>
    s' = put_bottom par (snd (insert_node avl r \<lparr>bm_link = to_access t, bm_accessType = lo_parentAccessType (ds_link s3)\<rparr>
      (erase_node b (bottom_in par s3)))) s3"
  proof -
    obtain c s2 where m: "match_entry avl handle par r (link_previous handle (to_access t) (t, access_type, p) r) b ?s0 = Inr (c, s2)"
      and s': "s' = put_bottom par (snd (insert_node avl r \<lparr>bm_link = to_access t, bm_accessType = lo_parentAccessType (ds_link s2)\<rparr>
        (bottom_in par s2))) s2"
      using run reg entry
      by (auto simp: replaceMatchingInBottomMapLinkAndPropagate_def Let_def ended_def
          foreachBottomMapMatchPossiblyCreatingInitialFragmentsAndMissingRegion_def)
    have pp: "put_bottom par x (put_bottom par y z) = put_bottom par x z" for x y z by (simp add: put_bottom_def)
    from me [OF m] s' show ?thesis by (auto simp: erase_entry_def pp)
  qed
  then show ?thesis by (auto intro!: exI [of _ ?l] simp: link_locals_new_def)
qed

end

lemma not_removable_discounted: "\<not> is_removable a' \<Longrightarrow> discounted_after a a' = a'"
  by (simp add: discounted_after_def newly_removable_def)

lemma changed_views:
  assumes "changed t p a a' r s s'"
  shows "map_in x k s' = (if x = t \<and> k = access_type
      then (map_in t access_type s)\<lparr>rm_contents := (rm_contents (map_in t access_type s))(p := discounted_after a a')\<rparr> else map_in x k s)"
    "bottom_in x s' = bottom_in x s" "parent_of s' = parent_of s" "ds_link s' = ds_link s"
    "load (t, access_type, p) s' = discounted_after a a'" "ds_readied s' = ds_readied s"
proof -
  have c: "shared s' = shared (store (t, access_type, p) (discounted_after a a') s)" using assms by (simp add: changed_def)
  note v = shared_eqD [OF c]
  show "map_in x k s' = (if x = t \<and> k = access_type
      then (map_in t access_type s)\<lparr>rm_contents := (rm_contents (map_in t access_type s))(p := discounted_after a a')\<rparr> else map_in x k s)"
    "bottom_in x s' = bottom_in x s" "parent_of s' = parent_of s" "ds_link s' = ds_link s"
    "load (t, access_type, p) s' = discounted_after a a'" "ds_readied s' = ds_readied s"
    by (simp_all add: v map_in_store)
qed

text \<open>The new task and its access, before it is linked.\<close>

definition newcomer :: "DataAccessRegion \<Rightarrow> task_ref \<Rightarrow> (task_ref \<Rightarrow> int) \<Rightarrow> task_ref \<Rightarrow> nat \<Rightarrow> DataAccess \<Rightarrow> access_state \<Rightarrow> bool" where
  "newcomer r par extra t p a s \<longleftrightarrow>
     fresh_access t a \<and> rm_nodes (map_in t access_type s) = [(p, r)] \<and> load (t, access_type, p) s = a \<and>
     rm_nodes (bottom_in t s) = [] \<and> parent_of s t = Some par \<and> blockers t s = 0 \<and> predecessors t s = extra t"

lemma newcomer_enters:
  assumes n: "newcomer r par extra t p a s"
    and run: "change_access (handleDataAccessStatusChanges avl (Suc n)) (t, access_type, p) enter_bottom_map s = Inr s'"
  shows "changed t p a (entered a) r s s'" "rm_nodes (map_in t access_type s') = [(p, r)]"
    "load (t, access_type, p) s' = entered a" "rm_nodes (bottom_in t s') = []" "parent_of s' t = Some par" "blockers t s' = 1"
    "predecessors t s' = extra t + (if enforces (entered a) then 1 else 0)" "delayed s' = delayed s" "\<not> is_removable (entered a)"
    "satisfied_tasks s' = satisfied_tasks s"
proof -
  have r: "region_of (t, access_type, p) s = r" using n by (simp add: newcomer_def region_of_def region_at_def)
  show c: "changed t p a (entered a) r s s'"
    using n by (intro enter_fresh [OF _ _ _ r run, of a par]) (simp_all add: newcomer_def)
  note v = changed_views [OF c]
  have nr: "\<not> is_removable a" "\<not> is_removable (entered a)" "fa_next (entered a) = None" "\<not> fa_registered a"
    using n by (auto simp: newcomer_def fresh_access_def is_removable_def entered_def)
  have ne: "enforces a \<longrightarrow> enforces (entered a)" by (simp add: enforces_def)
  show "rm_nodes (map_in t access_type s') = [(p, r)]" "load (t, access_type, p) s' = entered a"
    "rm_nodes (bottom_in t s') = []" "parent_of s' t = Some par" "\<not> is_removable (entered a)"
    using n nr v(5) by (simp_all add: v(1-4) newcomer_def not_removable_discounted)
  show "blockers t s' = 1" "predecessors t s' = extra t + (if enforces (entered a) then 1 else 0)" "delayed s' = delayed s"
    "satisfied_tasks s' = satisfied_tasks s"
    using c n nr ne by (auto simp: changed_def newcomer_def passed_on_def newly_removable_def)
qed

context ordered_set
begin

lemma insert_alone: "rm_nodes m = [] \<Longrightarrow>
    rm_nodes (snd (insert_node avl r e m)) = [(rm_next m, r)] \<and> rm_contents (snd (insert_node avl r e m)) (rm_next m) = e"
  using insert [of "[]" "(rm_next m, r)"] by (simp add: insert_node_def)

lemma link_first:
  assumes h: "holds_chain r par extra [] [] s" and t: "t \<noteq> par" and n: "newcomer r par extra t p a s"
    and run: "linkTaskAccesses avl (Suc d) t s = Inr s'"
  shows "holds_chain r par extra [t] [all_received (entered a)] s' \<and> delayed s' = delayed s \<and>
    (extra t \<noteq> 0 \<longrightarrow> satisfied_tasks s' = satisfied_tasks s) \<and> ds_readied s' = ds_readied s \<and>
    (\<forall>x. held x s \<longrightarrow> held x s') \<and> (\<forall>x. x \<notin> {t, par} \<longrightarrow> untouched x s s')"
proof -
  let ?h = "handleDataAccessStatusChanges avl (Suc d)" and ?e = "entered a"
  have r: "region_ok r" using h by (simp add: holds_chain_def)
  have nn: "rm_nodes (map_in t access_type s) = [(p, r)]" "parent_of s t = Some par" using n by (simp_all add: newcomer_def)
  obtain s1 where s1: "change_access ?h (t, access_type, p) enter_bottom_map s = Inr s1"
    and run1: "replaceMatchingInBottomMapLinkAndPropagate avl ?h (to_access t) (t, access_type, p) par s1 = Inr s'"
    using run one_access(2) [OF r nn(1)] nn
    by (auto simp: linkTaskAccesses_def Let_def ended_def continue_def simp del: handleDataAccessStatusChanges.simps)
  note e = newcomer_enters [OF n s1]
  have h1: "holds_chain r par extra [] [] s1" using changed_elsewhere [OF h e(1)] t by simp
  have pl: "plain ?e" using n by (simp add: newcomer_def fresh_access_def)
  from replace_first [OF r e(2,3) pl _ _ run1] h1
  obtain l s3 where l: "lo_parentAccessType l = NO_ACCESS_TYPE"
    and s3: "change_access ?h (t, access_type, p) satisfy_access (s1\<lparr>ds_link := l\<rparr>) = Inr s3"
    and s': "s' = put_bottom par (snd (insert_node avl r \<lparr>bm_link = to_access t, bm_accessType = lo_parentAccessType (ds_link s3)\<rparr>
      (bottom_in par s3))) s3"
    by (auto simp: holds_chain_def)
  have fr: "\<forall>x. \<not> received x ?e" "fa_next ?e = None" "fa_originator ?e = t" using n by (simp_all add: newcomer_def fresh_access_def)
  have sat: "satisfy_access ?e = Inr (all_received ?e)"
    using fr(1) unfolding all_tokens
    by (simp add: satisfy_access_def setReadSatisfied_def setWriteSatisfied_def setConcurrentSatisfied_def
        setReceivedReductionInfo_def setTopmost_def setTopLevel_def all_received_def entered_def)
  have rg: "region_of (t, access_type, p) (s1\<lparr>ds_link := l\<rparr>) = r" using e(2) by (simp add: region_of_def region_at_def)
  have "\<exists>a'. satisfy_access ?e = Inr a' \<and> changed t p ?e a' r (s1\<lparr>ds_link := l\<rparr>) s3"
    by (rule change_access_plain [OF s3 _ _ _ _ rg, of _ par])
      (use e fr pl sat in \<open>auto simp: to_sibling_def\<close>, simp add: entered_def all_received_def)
  then have c: "changed t p ?e (all_received ?e) r (s1\<lparr>ds_link := l\<rparr>) s3" using sat by simp
  note v = changed_views [OF c]
  have nr: "\<not> is_removable (all_received ?e)"
    using n by (auto simp: is_removable_def newcomer_def fresh_access_def all_received_def entered_def)
  have en: "\<not> enforces (all_received ?e)" using all_received_satisfied [OF pl] by (simp add: enforces_def)
  have reg: "fa_registered ?e" by (simp add: entered_def)
  have bm: "rm_nodes (bottom_in par s3) = []" "rm_nodes (map_in par access_type s3) = []"
    using h1 t by (simp_all add: v holds_chain_def)
  have cn: "chain_node r par extra s' t (all_received ?e)"
  proof -
    have "rm_nodes (map_in t access_type s') = [(p, r)]" "load (t, access_type, p) s' = all_received ?e"
      using e(2) v(5) nr by (simp_all add: s' v(1) not_removable_discounted)
    moreover have "rm_nodes (bottom_in t s') = []" "parent_of s' t = Some par" using e(4,5) t by (simp_all add: s' v)
    moreover have "blockers t s' = 1" using c e(6) nr reg by (simp add: s' changed_def newly_removable_def)
    moreover have "predecessors t s' = extra t" using c e(7) en reg by (simp add: s' changed_def)
    ultimately show ?thesis using nr en by (simp add: chain_node_def)
  qed
  have ca: "chain_access t None (all_received ?e)"
    using n nr by (auto simp: chain_access_def newcomer_def fresh_access_def) (simp_all add: entered_def all_received_def)
  have d: "delayed s' = delayed s" using c fr(2) e(8) by (simp add: s' changed_def passed_on_def)
  have "satisfied_tasks s' = satisfied_tasks s \<and> ds_readied s' = ds_readied s" if "extra t \<noteq> 0"
    using c e(1,7,10) that v(6) changed_views(6) [OF e(1)] by (simp add: s' changed_def)
  moreover have "ds_readied s' = ds_readied s" using v(6) changed_views(6) [OF e(1)] by (simp add: s')
  moreover have "held x s'" if "held x s" for x using c e(1) that by (simp add: s' changed_def)
  moreover have "untouched x s s'" if "x \<notin> {t, par}" for x
    using changed_untouched [OF c, of x] changed_untouched [OF e(1), of x] that by (simp add: s' untouched_def)
  moreover have "ds_link s3 = l" using v(4) by simp
  ultimately show ?thesis using insert_alone [OF bm(1)] bm(2) cn ca d r t
    by (auto simp: holds_chain_def s' successor_def l)
qed

lemma change_to_next:
  assumes pl: "plain prev" and ib: "fa_inBottomMap prev" "fa_registered prev"
    and sib: "parent_of s u = Some par" "fa_originator prev = u" "parent_of s t = Some par"
    and q: "rm_nodes (map_in u access_type s) = [(q, r)]" "load (u, access_type, q) s = prev" and nx: "fa_next prev = None"
    and run: "change_access (handleDataAccessStatusChanges avl (Suc d)) (u, access_type, q)
      (\<lambda>a. unsetInBottomMap (setNext (to_access t) a)) s = Inr s'"
  shows "changed u q prev (linked_to t prev) r s s'"
proof -
  have f: "unsetInBottomMap (setNext (to_access t) prev) = Inr (linked_to t prev)"
    using ib by (simp add: unsetInBottomMap_def setNext_def linked_to_def)
  have rg: "region_of (u, access_type, q) s = r" using q by (simp add: region_of_def region_at_def)
  have reg: "fa_registered (linked_to t prev)" using ib by (simp add: linked_to_def)
  have "\<exists>a'. unsetInBottomMap (setNext (to_access t) prev) = Inr a' \<and> changed u q prev a' r s s'"
    by (rule change_access_plain [OF run q(2) pl _ _ rg, of par])
      (use f pl sib nx reg in \<open>auto simp: to_sibling_def\<close>)
  with f show ?thesis by simp
qed

lemma link_next:
  assumes h: "holds_chain r par extra ts as s" and ts: "ts \<noteq> []" and t: "t \<notin> set (par # ts)"
    and n: "newcomer r par extra t p a s" and prev: "prev = last as"
    and run: "linkTaskAccesses avl (Suc d) t s = Inr s'"
  shows "holds_chain r par extra (ts @ [t]) (butlast as @ [discounted_after prev (linked_to t prev), entered a]) s' \<and>
    delayed s' = delayed s @ passed_on prev (linked_to t prev) r \<and>
    satisfied_tasks s' = satisfied_tasks s \<and> ds_readied s' = ds_readied s \<and> (\<forall>x. held x s \<longrightarrow> held x s') \<and>
    (\<forall>x. x \<notin> set (t # par # ts) \<longrightarrow> untouched x s s')"
proof -
  let ?h = "handleDataAccessStatusChanges avl (Suc d)" and ?e = "entered a" and ?u = "last ts" and ?k = "length ts - 1"
  let ?prev' = "discounted_after prev (linked_to t prev)"
  have r: "region_ok r" and len: "length as = length ts" and dist: "distinct (par # ts)" using h by (simp_all add: holds_chain_def)
  have "as \<noteq> []" using len ts by auto
  then have k: "?k < length ts" "ts ! ?k = ?u" "as ! ?k = prev" using ts len prev by (auto simp: last_conv_nth)
  have cnk: "chain_node r par extra s ?u prev" and cak: "chain_access ?u None prev"
  proof -
    have "successor ts ?k = None" using ts by (cases ts) (auto simp: successor_def)
    moreover have "chain_node r par extra s (ts ! ?k) (as ! ?k)" "chain_access (ts ! ?k) (successor ts ?k) (as ! ?k)"
      using h k(1) by (simp_all add: holds_chain_def)
    ultimately show "chain_node r par extra s ?u prev" "chain_access ?u None prev" using k by simp_all
  qed
  have u: "?u \<noteq> par" "?u \<noteq> t" "?u \<in> set ts" using t dist ts by (auto dest: last_in_set)
  have nn: "rm_nodes (map_in t access_type s) = [(p, r)]" "parent_of s t = Some par" using n by (simp_all add: newcomer_def)
  obtain s1 where s1: "change_access ?h (t, access_type, p) enter_bottom_map s = Inr s1"
    and run1: "replaceMatchingInBottomMapLinkAndPropagate avl ?h (to_access t) (t, access_type, p) par s1 = Inr s'"
    using run one_access(2) [OF r nn(1)] nn
    by (auto simp: linkTaskAccesses_def Let_def ended_def continue_def simp del: handleDataAccessStatusChanges.simps)
  note e = newcomer_enters [OF n s1]
  have h1: "holds_chain r par extra ts as s1" using changed_elsewhere [OF h e(1) t] .
  have cn1: "chain_node r par extra s1 ?u prev" using h1 k by (auto simp: holds_chain_def dest!: spec [of _ ?k])
  obtain q where q: "rm_nodes (map_in ?u access_type s1) = [(q, r)]" "load (?u, access_type, q) s1 = prev"
    using cn1 by (auto simp: chain_node_def)
  obtain b where b: "rm_nodes (bottom_in par s1) = [(b, r)]"
    "rm_contents (bottom_in par s1) b = \<lparr>bm_link = to_access ?u, bm_accessType = NO_ACCESS_TYPE\<rparr>"
    using h1 ts by (auto simp: holds_chain_def)
  have pl: "plain ?e" "plain prev" using n cak by (simp_all add: newcomer_def fresh_access_def chain_access_def)
  have pv: "fa_inBottomMap prev" "fa_registered prev" "fa_originator prev = ?u" "fa_next prev = None"
    using cak by (simp_all add: chain_access_def)
  have pu: "parent_of s1 ?u = Some par" using cn1 by (simp add: chain_node_def)
  have chg: "changed ?u q prev (linked_to t prev) r (s1\<lparr>ds_link := l\<rparr>) s3"
    if "change_access ?h (?u, access_type, q) (\<lambda>a. unsetInBottomMap (setNext (to_access t) a)) (s1\<lparr>ds_link := l\<rparr>) = Inr s3" for l s3
    by (rule change_to_next [OF pl(2) pv(1,2) _ pv(3) _ _ _ pv(4) that]) (use pu q e(5) in simp_all)
  from replace_next [OF r e(2,3) pl q(1) u(1) q(2) b run1] changed_views(2) [OF chg]
  obtain l s3 where l: "lo_parentAccessType l = NO_ACCESS_TYPE"
    and s3: "change_access ?h (?u, access_type, q) (\<lambda>a. unsetInBottomMap (setNext (to_access t) a)) (s1\<lparr>ds_link := l\<rparr>) = Inr s3"
    and s': "s' = put_bottom par (snd (insert_node avl r \<lparr>bm_link = to_access t, bm_accessType = lo_parentAccessType (ds_link s3)\<rparr>
      (erase_node b (bottom_in par s3)))) s3"
    by (auto simp del: handleDataAccessStatusChanges.simps)
  note c = chg [OF s3]
  note v = changed_views [OF c]
  have notrem: "\<not> is_removable prev" using pv pl(2) by (simp add: is_removable_def plain_def)
  have en: "enforces (linked_to t prev) = enforces prev" by (simp add: enforces_def)
  have node_u: "chain_node r par extra s' ?u ?prev'"
  proof -
    have "rm_nodes (map_in ?u access_type s') = [(q, r)]" "load (?u, access_type, q) s' = ?prev'"
      using q(1) v(5) by (simp_all add: s' v(1))
    moreover have "rm_nodes (bottom_in ?u s') = []" "parent_of s' ?u = Some par" using cn1 u(1) by (simp_all add: s' v chain_node_def)
    moreover have "blockers ?u s' = (if is_removable ?prev' then 0 else 1)"
      using c cn1 notrem pv(2) by (simp add: s' changed_def newly_removable_def chain_node_def)
    moreover have "predecessors ?u s' = extra ?u + (if enforces ?prev' then 1 else 0)"
      using c cn1 pv(2) en by (simp add: s' changed_def chain_node_def)
    ultimately show ?thesis by (simp add: chain_node_def)
  qed
  have acc_u: "chain_access ?u (Some t) ?prev'"
    using cak notrem by (auto simp: chain_access_def newly_removable_def) (simp_all add: linked_to_def)
  have other: "chain_node r par extra s' x y" if "chain_node r par extra s1 x y" "x \<noteq> ?u" "x \<noteq> par" for x y
    using that c by (auto simp: s' v chain_node_def load_def changed_def)
  have node_t: "chain_node r par extra s' t ?e"
    using e t u by (intro other) (auto simp: chain_node_def)
  have acc_t: "chain_access t None ?e"
    using n e(9) by (auto simp: chain_access_def newcomer_def fresh_access_def) (simp_all add: entered_def)
  have others: "chain_node r par extra s' (ts ! j) (as ! j) \<and> chain_access (ts ! j) (successor (ts @ [t]) j) (as ! j)"
    if j: "j < ?k" for j
  proof -
    have "ts ! j \<noteq> ts ! ?k" "ts ! j \<noteq> par" using j dist by (auto simp: nth_eq_iff_index_eq)
    then have "chain_node r par extra s' (ts ! j) (as ! j)"
      using j h1 k(2) by (intro other) (auto simp: holds_chain_def)
    moreover have "successor (ts @ [t]) j = successor ts j" using j by (auto simp: successor_def nth_append)
    ultimately show ?thesis using j h1 by (simp add: holds_chain_def)
  qed
  let ?ts = "ts @ [t]" and ?as = "butlast as @ [?prev', ?e]"
  have "chain_node r par extra s' (?ts ! j) (?as ! j) \<and> chain_access (?ts ! j) (successor ?ts j) (?as ! j)"
    if j: "j < length ?ts" for j
  proof -
    consider "j < ?k" | "j = ?k" | "j = length ts" using j by fastforce
    then show ?thesis
    proof cases
      case 1
      then have "j < length ts" by simp
      with 1 show ?thesis using others [of j] len by (simp add: nth_append nth_butlast)
    next
      case 2
      have "successor ?ts ?k = Some t" using ts by (auto simp: successor_def nth_append)
      with 2 show ?thesis using node_u acc_u k len ts by (simp add: nth_append)
    next
      case 3
      have "?as ! length ts = ?e" using len ts by (cases "length ts") (auto simp: nth_append)
      with 3 show ?thesis using node_t acc_t by (simp add: successor_def)
    qed
  qed
  moreover have "length ?as = length ?ts" using len ts by simp
  moreover have "rm_nodes (map_in par access_type s') = []" using h1 u by (simp add: s' v holds_chain_def)
  moreover have "rm_nodes (erase_node b (bottom_in par s3)) = []" using b by (simp add: v erase_node_def)
  moreover have "delayed s' = delayed s @ passed_on prev (linked_to t prev) r" using c e(8) by (simp add: s' changed_def)
  moreover have "satisfied_tasks s' = satisfied_tasks s" using c e(10) en by (simp add: s' changed_def)
  moreover have "ds_readied s' = ds_readied s" using v(6) changed_views(6) [OF e(1)] by (simp add: s')
  moreover have "held x s'" if "held x s" for x using c e(1) that by (simp add: s' changed_def)
  moreover have "untouched x s s'" if "x \<notin> set (t # par # ts)" for x
  proof -
    have "x \<noteq> t" "x \<noteq> par" "x \<noteq> ?u" using that u(3) by auto
    then show ?thesis using changed_untouched [OF c, of x] changed_untouched [OF e(1), of x] by (simp add: s' untouched_def)
  qed
  ultimately show ?thesis
    using insert_alone [of "erase_node b (bottom_in par s3)"] r dist t v(4) l by (simp add: holds_chain_def s')
qed

lemma replace_first_ex:
  assumes r: "region_ok r" and p: "rm_nodes (map_in t access_type s) = [(p, r)]" and a: "load (t, access_type, p) s = a"
    and pl: "plain a" "\<not> fa_discounted a" and par: "rm_nodes (map_in par access_type s) = []" "rm_nodes (bottom_in par s) = []"
    and ex: "\<And>l. \<exists>s3. change_access handle (t, access_type, p) satisfy_access (s\<lparr>ds_link := l\<rparr>) = Inr s3"
  shows "\<exists>s'. replaceMatchingInBottomMapLinkAndPropagate avl handle (to_access t) (t, access_type, p) par s = Inr s'"
proof -
  let ?l = "link_locals_new\<lparr>lo_local := True, lo_first := False, lo_lastWasLocal := True\<rparr>"
  have reg: "region_of (t, access_type, p) s = r" using p by (simp add: region_of_def region_at_def)
  have one: "intersecting_accesses avl t access_type r f (s\<lparr>ds_link := l\<rparr>) = f p (s\<lparr>ds_link := l\<rparr>)" for f l
    using one_access(1) [OF r, of t access_type "s\<lparr>ds_link := l\<rparr>" p] p by simp
  have none: "tiled_entries avl par r f g (s\<lparr>ds_link := l\<rparr>) = g r (s\<lparr>ds_link := l\<rparr>)"
    "tiled_accesses avl par access_type r f g (s\<lparr>ds_link := l\<rparr>) = g r (s\<lparr>ds_link := l\<rparr>)" for f g l
    using par by (simp_all add: no_entry no_access)
  have nest: "check_nesting (with_link (\<lambda>l. l\<lparr>lo_local := True\<rparr>) (s\<lparr>ds_link := link_locals_new\<rparr>)) = Inr (s\<lparr>ds_link := ?l\<rparr>)"
    by (simp add: check_nesting_def with_link_def link_locals_new_def)
  have nr: "fa_type a \<noteq> REDUCTION_ACCESS_TYPE" using pl by (simp add: plain_def)
  obtain s3 where "change_access handle (t, access_type, p) satisfy_access (s\<lparr>ds_link := ?l\<rparr>) = Inr s3" using ex by blast
  then show ?thesis
    using reg nr a pl(2) one none r contains_none [of "map_in par access_type s" avl r] par nest
    by (auto simp: replaceMatchingInBottomMapLinkAndPropagate_def Let_def foreachBottomMapMatchPossiblyCreatingInitialFragmentsAndMissingRegion_def
        satisfy_missing_def ended_def continue_def fragmentAccess_def fullyContainedIn_def region_self)
qed

lemma replace_next_ex:
  assumes r: "region_ok r" and p: "rm_nodes (map_in t access_type s) = [(p, r)]" and a: "load (t, access_type, p) s = a"
    and pl: "plain a" "plain prev" and q: "rm_nodes (map_in u access_type s) = [(q, r)]" and u: "u \<noteq> par"
    and prev: "load (u, access_type, q) s = prev" "fa_inBottomMap prev" "fa_next prev = None" "fa_reachable prev" "\<not> fa_discounted prev"
    and b: "rm_nodes (bottom_in par s) = [(b, r)]"
      "rm_contents (bottom_in par s) b = \<lparr>bm_link = to_access u, bm_accessType = NO_ACCESS_TYPE\<rparr>"
    and ex: "\<And>l. \<exists>s3. change_access handle (u, access_type, q) (\<lambda>a. unsetInBottomMap (setNext (to_access t) a)) (s\<lparr>ds_link := l\<rparr>) = Inr s3 \<and>
      bottom_in par s3 = bottom_in par s"
  shows "\<exists>s'. replaceMatchingInBottomMapLinkAndPropagate avl handle (to_access t) (t, access_type, p) par s = Inr s'"
proof -
  let ?l = "link_locals_new\<lparr>lo_local := True, lo_first := False, lo_lastWasLocal := True\<rparr>"
  let ?s0 = "s\<lparr>ds_link := link_locals_new\<rparr>" and ?e = "\<lparr>bm_link = to_access u, bm_accessType = NO_ACCESS_TYPE\<rparr>"
  have reg: "region_of (t, access_type, p) s = r" "region_of (u, access_type, q) s = r"
    using p q by (simp_all add: region_of_def region_at_def)
  have one: "intersecting_accesses avl u access_type r f ?s0 = f q ?s0" for f
    using one_access(1) [OF r, of u access_type ?s0 q] q by simp
  have entry: "tiled_entries avl par r f g ?s0 = f b ?s0" for f g
    using one_entry(1) [OF r, of par ?s0 b] b by simp
  have nr: "fa_type a \<noteq> REDUCTION_ACCESS_TYPE" "fa_objectType prev = access_type" using pl by (simp_all add: plain_def)
  have at: "region_at (bottom_in par s) b = Some r" using b by (simp add: region_at_def)
  have nest: "check_nesting (with_link (\<lambda>l. l\<lparr>lo_parentAccessType := NO_ACCESS_TYPE, lo_local := True\<rparr>) ?s0) = Inr (s\<lparr>ds_link := ?l\<rparr>)"
    by (simp add: check_nesting_def with_link_def link_locals_new_def)
  have ld: "load ptr (with_link f s1) = load ptr s1" for ptr f s1 by (simp add: with_link_def)
  obtain s3 where s3: "change_access handle (u, access_type, q) (\<lambda>a. unsetInBottomMap (setNext (to_access t) a)) (s\<lparr>ds_link := ?l\<rparr>) = Inr s3"
    and bm: "bottom_in par s3 = bottom_in par s" using ex by blast
  have lp: "link_previous handle (to_access t) (t, access_type, p) r (u, access_type, q) ?e ?s0 = Inr (True, s3)"
    using s3 nest nr a reg r prev by (simp add: link_previous_def Let_def ld continue_def fullyContainedIn_def region_self)
  have fl: "followLink avl handle (to_access u) r (\<lambda>ptr s.
         assert_that (fa_next (load ptr s) = None) ''!previous->hasNext()''
           (assert_that (fa_inBottomMap (load ptr s)) ''previous->isInBottomMap()''
             (link_previous handle (to_access t) (t, access_type, p) r ptr ?e s))) ?s0 = Inr (True, s3)"
    using lp one prev reg r nr
    by (simp add: followLink_def Let_def fragmentAccessObject_def fragment_object_def fullyContainedIn_def region_self)
  have "fragmentBottomMapEntry avl par b r False s3 = Inr (Some b, s3)"
    using bm at r by (simp add: fragmentBottomMapEntry_def fullyContainedIn_def region_self)
  then have "match_entry avl handle par r (link_previous handle (to_access t) (t, access_type, p) r) b ?s0 = Inr (True, erase_entry par b s3)"
    using fl at b(2) r u by (simp add: match_entry_def Let_def region_self)
  then show ?thesis
    using reg entry
    by (simp add: replaceMatchingInBottomMapLinkAndPropagate_def Let_def ended_def
        foreachBottomMapMatchPossiblyCreatingInitialFragmentsAndMissingRegion_def)
qed

end

end
