(* ===== verification/N6_FragmentedSystem.thy ===== *)
theory N6_FragmentedSystem
  imports N6_FragmentedSteps
begin

text \<open>
  CPUs that run the default dependency system at the same time, on sibling tasks with accesses of one
  region. A step is what a CPU does under one set of locks: the linking section of a registration, the
  completing section of an unregistration, one delayed operation, or the end of an operation, which hands
  satisfied tasks to the scheduler. Each CPU works through its own delayed operations in order; the CPUs
  interleave in any way. The siblings are created by the body of their parent, so one registration ends
  before the next begins. A task may finish as soon as this access does not hold it back.
\<close>

section \<open>The system\<close>

record frag_system =
  fs_state :: access_state
  fs_hp :: "cpu_ref \<Rightarrow> CPUDependencyData"
  fs_order :: "task_ref list"
  fs_registering :: "(cpu_ref \<times> task_ref) option"
  fs_submitted :: "task_ref list"

definition on_cpu :: "cpu_ref \<Rightarrow> frag_system \<Rightarrow> access_state" where
  "on_cpu c S = (fs_state S)\<lparr>ds_hp := fs_hp S c\<rparr>"

definition resume :: "cpu_ref \<Rightarrow> access_state \<Rightarrow> frag_system \<Rightarrow> frag_system" where
  "resume c s S = S\<lparr>fs_state := s, fs_hp := (fs_hp S)(c := ds_hp s)\<rparr>"

definition access_in :: "task_ref \<Rightarrow> access_state \<Rightarrow> DataAccess" where
  "access_in t s = (let m = map_in t access_type s in rm_contents m (fst (hd (rm_nodes m))))"

definition access_of :: "task_ref \<Rightarrow> frag_system \<Rightarrow> DataAccess" where
  "access_of t S = access_in t (fs_state S)"

text \<open>A task that has been created and has no accesses yet.\<close>

definition unlinked_task :: "task_ref \<Rightarrow> task_ref \<Rightarrow> access_state \<Rightarrow> bool" where
  "unlinked_task par t s \<longleftrightarrow> parent_of s t = Some par \<and> rm_nodes (map_in t access_type s) = [] \<and>
     rm_nodes (bottom_in t s) = [] \<and> blockers t s = 0 \<and> predecessors t s = 0"

definition idle_cpu :: "cpu_ref \<Rightarrow> frag_system \<Rightarrow> bool" where
  "idle_cpu c S \<longleftrightarrow> CPUDependencyData_empty (fs_hp S c) \<and> map_option fst (fs_registering S) \<noteq> Some c"

inductive frag_step ::
  "avl_ops \<Rightarrow> nat \<Rightarrow> cpu_ref list \<Rightarrow> DataAccessRegion \<Rightarrow> task_ref \<Rightarrow> frag_system \<Rightarrow> frag_system \<Rightarrow> bool"
  for avl depth cpus region par where
  register: "\<lbrakk>c \<in> set cpus; idle_cpu c S; fs_registering S = None; t \<notin> set (par # fs_order S);
      unlinked_task par t (fs_state S); type \<noteq> REDUCTION_ACCESS_TYPE;
      register_access_fragmented avl t type weak (dr_startAddress region) (dr_length region) symbol index rindex (on_cpu c S) = Inr s1;
      registration_links avl depth t s1 = Inr s2\<rbrakk> \<Longrightarrow>
    frag_step avl depth cpus region par S
      ((resume c s2 S)\<lparr>fs_order := fs_order S @ [t], fs_registering := Some (c, t)\<rparr>)"
| finish: "\<lbrakk>c \<in> set cpus; idle_cpu c S; t \<in> set (fs_order S); \<forall>c'. fs_registering S \<noteq> Some (c', t);
      \<not> fa_complete (access_of t S); fa_weak (access_of t S) \<or> satisfied (access_of t S);
      unregister_section avl depth t (on_cpu c S) = Inr s1\<rbrakk> \<Longrightarrow>
    frag_step avl depth cpus region par S (resume c s1 S)"
| operation: "\<lbrakk>c \<in> set cpus; cd_delayedOperations (fs_hp S c) \<noteq> [];
      delayed_operation_turn avl depth (on_cpu c S) = Inr s1\<rbrakk> \<Longrightarrow>
    frag_step avl depth cpus region par S (resume c s1 S)"
| flush: "\<lbrakk>c \<in> set cpus; cd_delayedOperations (fs_hp S c) = []; map_option fst (fs_registering S) \<noteq> Some c;
      s1 = handleRemovableTasks (processSatisfiedOriginators_fragmented (on_cpu c S))\<rbrakk> \<Longrightarrow>
    frag_step avl depth cpus region par S (resume c s1 S)"
| registered: "\<lbrakk>c \<in> set cpus; cd_delayedOperations (fs_hp S c) = []; fs_registering S = Some (c, t);
      s1 = handleRemovableTasks (processSatisfiedOriginators_fragmented (on_cpu c S)); registration_ends t s1 = (ready, s2)\<rbrakk> \<Longrightarrow>
    frag_step avl depth cpus region par S
      ((resume c s2 S)\<lparr>fs_registering := None, fs_submitted := fs_submitted S @ (if ready then [t] else [])\<rparr>)"

definition frag_initial :: "task_ref \<Rightarrow> frag_system \<Rightarrow> bool" where
  "frag_initial par S \<longleftrightarrow> fs_order S = [] \<and> fs_registering S = None \<and> fs_submitted S = [] \<and> ds_readied (fs_state S) = [] \<and>
     (\<forall>c. fs_hp S c = CPUDependencyData_new) \<and> rm_nodes (map_in par access_type (fs_state S)) = [] \<and>
     rm_nodes (bottom_in par (fs_state S)) = []"

definition frag_reachable ::
  "avl_ops \<Rightarrow> nat \<Rightarrow> cpu_ref list \<Rightarrow> DataAccessRegion \<Rightarrow> task_ref \<Rightarrow> frag_system \<Rightarrow> bool" where
  "frag_reachable avl depth cpus region par S \<longleftrightarrow>
     (\<exists>S0. frag_initial par S0 \<and> (frag_step avl depth cpus region par)\<^sup>*\<^sup>* S0 S)"

section \<open>Accounting of tokens\<close>

text \<open>The operations that are on their way, and how many of them carry a token to a task.\<close>

definition pending :: "cpu_ref list \<Rightarrow> frag_system \<Rightarrow> UpdateOperation multiset" where
  "pending cpus S = sum_list (map (\<lambda>c. mset (cd_delayedOperations (fs_hp S c))) cpus)"

definition travelling :: "token \<Rightarrow> task_ref \<Rightarrow> UpdateOperation multiset \<Rightarrow> nat" where
  "travelling x t Q = size (filter_mset (\<lambda>u. dl_task (uo_target u) = t \<and> carries x u) Q)"

lemma travelling_simps [simp]:
  "travelling x t {#} = 0"
  "travelling x t (add_mset u Q) = of_bool (dl_task (uo_target u) = t \<and> carries x u) + travelling x t Q"
  "travelling x t (Q + Q') = travelling x t Q + travelling x t Q'"
  by (simp_all add: travelling_def)

definition good_operation :: "DataAccessRegion \<Rightarrow> task_ref list \<Rightarrow> UpdateOperation \<Rightarrow> bool" where
  "good_operation r ts u \<longleftrightarrow>
     uo_target u \<in> to_access ` set (tl ts) \<and> uo_region u = r \<and> uo_reductionInfo u = None \<and> uo_reductionCpuSet u = []"

text \<open>
  What an access has received, together with what is on its way to it, is what its predecessor gives; the
  first access has received everything.
\<close>

definition accounted :: "task_ref list \<Rightarrow> DataAccess list \<Rightarrow> UpdateOperation multiset \<Rightarrow> bool" where
  "accounted ts as Q \<longleftrightarrow>
     (as \<noteq> [] \<longrightarrow> (\<forall>x. received x (as ! 0))) \<and>
     (\<forall>i x. Suc i < length ts \<longrightarrow>
        of_bool (received x (as ! Suc i)) + travelling x (ts ! Suc i) Q = (of_bool (passes x (as ! i)) :: nat))"

lemma accounted_received: "accounted ts as Q \<Longrightarrow> Suc i < length ts \<Longrightarrow> received x (as ! Suc i) \<Longrightarrow> passes x (as ! i)"
  unfolding accounted_def by (cases "passes x (as ! i)") (auto dest!: spec [of _ i] spec [of _ x])

lemma passed_on_travels:
  assumes "fa_next a' = Some (to_access u)"
  shows "travelling x t (mset (passed_on a a' r)) = of_bool (t = u \<and> gives x a' \<and> \<not> gives x a)"
  using assms by (auto simp: passed_on_def)

lemma passed_on_none: "fa_next a' = None \<Longrightarrow> passed_on a a' r = []"
  by (simp add: passed_on_def)

lemma passed_on_good:
  assumes "u \<in> set (passed_on a a' r)" "fa_next a' = Some (to_access v)" "v \<in> set (tl ts)"
  shows "good_operation r ts u"
  using assms by (auto simp: passed_on_def good_operation_def split: if_splits)

text \<open>An access takes the operations \<open>G\<close>, and passes on what that makes it give.\<close>

lemma accounted_change:
  assumes acc: "accounted ts as (Q + G)" and len: "length as = length ts" and dist: "distinct ts" and i: "i < length ts"
    and nx: "fa_next (as ! i) = map_option to_access (successor ts i)" "fa_next a' = fa_next (as ! i)"
    and grows: "fa_next (as ! i) \<noteq> None \<longrightarrow> grows (as ! i) a'"
    and G: "\<And>x t. t \<noteq> ts ! i \<Longrightarrow> travelling x t G = 0"
    and got: "\<And>x. of_bool (received x a') = of_bool (received x (as ! i)) + travelling x (ts ! i) G"
  shows "accounted ts (as[i := discounted_after (as ! i) a']) (Q + mset (passed_on (as ! i) a' r))"
proof -
  let ?as = "as[i := discounted_after (as ! i) a']" and ?Q = "Q + mset (passed_on (as ! i) a' r)"
  have out: "travelling x t (mset (passed_on (as ! i) a' r)) =
      of_bool (Suc i < length ts \<and> t = ts ! Suc i \<and> passes x a' \<and> \<not> passes x (as ! i))" for x t
    using nx passed_on_travels [of a' "ts ! Suc i" x t "as ! i" r]
    by (cases "Suc i < length ts") (auto simp: successor_def passed_on_none gives_def)
  have "of_bool (received x (?as ! Suc j)) + travelling x (ts ! Suc j) ?Q = (of_bool (passes x (?as ! j)) :: nat)"
    if j: "Suc j < length ts" for j x
  proof -
    have eq: "of_bool (received x (as ! Suc j)) + travelling x (ts ! Suc j) (Q + G) = (of_bool (passes x (as ! j)) :: nat)"
      using acc j by (simp add: accounted_def)
    have ne: "ts ! Suc j = ts ! k \<longleftrightarrow> Suc j = k" if "k < length ts" for k using dist j that by (simp add: nth_eq_iff_index_eq)
    show ?thesis
    proof (cases "Suc j = i")
      case True
      then have "travelling x (ts ! Suc j) (mset (passed_on (as ! i) a' r)) = 0" using out ne [of "Suc i"] by auto
      with True eq got [of x] j len show ?thesis by simp
    next
      case False
      then have z: "travelling x (ts ! Suc j) G = 0" using G ne [OF i] by simp
      show ?thesis
      proof (cases "j = i")
        case True
        have "passes x (as ! i) \<longrightarrow> passes x a'" using grows nx True j by (auto simp: gives_def successor_def)
        with True eq z j len out [of x "ts ! Suc i"] show ?thesis by (cases "passes x (as ! i)") auto
      next
        case ne': False
        then have "travelling x (ts ! Suc j) (mset (passed_on (as ! i) a' r)) = 0"
          using out ne [of "Suc i"] False by auto
        with eq z False ne' show ?thesis by simp
      qed
    qed
  qed
  moreover have "received x (?as ! 0)" if "as \<noteq> []" for x
  proof (cases "i = 0")
    case True
    have "received x (as ! 0)" using acc that by (simp add: accounted_def)
    then show ?thesis using True i len got [of x] by (cases "received x a'") auto
  next
    case False
    then show ?thesis using acc that by (simp add: accounted_def)
  qed
  ultimately show ?thesis by (simp add: accounted_def)
qed

lemma accounted_link:
  assumes acc: "accounted ts as Q" and len: "length as = length ts" and ts: "ts \<noteq> []" and t: "t \<notin> set ts"
    and Q: "\<And>x. travelling x t Q = 0" and prev: "prev = last as" "fa_next prev = None" and a: "\<And>x. \<not> received x a"
  shows "accounted (ts @ [t]) (butlast as @ [discounted_after prev (linked_to t prev), entered a])
    (Q + mset (passed_on prev (linked_to t prev) r))"
proof -
  let ?as = "butlast as @ [discounted_after prev (linked_to t prev), entered a]" and ?ts = "ts @ [t]"
  have "as \<noteq> []" using len ts by auto
  then have as: "as = butlast as @ [prev]" "as \<noteq> []" using prev(1) by simp_all
  have old: "received x (?as ! j) = received x (as ! j)" "passes x (?as ! j) = passes x (as ! j)" if "j < length ts" for j x
  proof -
    have "j < length (butlast as) \<or> j = length (butlast as)" using that len by auto
    then show "received x (?as ! j) = received x (as ! j)" "passes x (?as ! j) = passes x (as ! j)"
      using as(1) by (metis discounted_after_simps(3,4) linked_to_simps(1,9) nth_append nth_append_length)+
  qed
  have out: "travelling x u (mset (passed_on prev (linked_to t prev) r)) = of_bool (u = t \<and> passes x prev)" for x u
    using prev(2) passed_on_travels [of "linked_to t prev" t x u prev r] by (simp add: gives_def)
  have "of_bool (received x (?as ! Suc j)) + travelling x (?ts ! Suc j) (Q + mset (passed_on prev (linked_to t prev) r)) =
      (of_bool (passes x (?as ! j)) :: nat)" if j: "Suc j < length ?ts" for j x
  proof (cases "Suc j < length ts")
    case True
    then have "ts ! Suc j \<noteq> t" using t by (metis nth_mem)
    then show ?thesis using acc True old [of "Suc j" x] old [of j x] out by (simp add: accounted_def nth_append)
  next
    case False
    then have l: "length ts = Suc j" "length (butlast as) = j" using j len by simp_all
    then have "?as ! Suc j = entered a" "?ts ! Suc j = t" by (simp_all add: nth_append)
    moreover have "as ! j = prev" using as(1) l by (metis nth_append_length)
    ultimately show ?thesis using a [of x] Q [of x] out old(2) [of j x] l by simp
  qed
  moreover have "received x (?as ! 0)" for x using old(1) [of 0 x] ts acc as(2) by (simp add: accounted_def)
  ultimately show ?thesis by (simp add: accounted_def)
qed

section \<open>Invariant\<close>

lemma sum_upd:
  fixes f :: "'a \<Rightarrow> 'b :: comm_monoid_add"
  assumes "distinct cs" "c \<in> set cs"
  shows "sum_list (map (\<lambda>x. f ((h(c := v)) x)) cs) + f (h c) = sum_list (map (\<lambda>x. f (h x)) cs) + f v"
  using assms
proof (induction cs)
  case (Cons x xs)
  have same: "sum_list (map (\<lambda>x. f ((h(c := v)) x)) xs) = sum_list (map (\<lambda>x. f (h x)) xs)" if "c \<notin> set xs"
    using that by (intro arg_cong [of _ _ sum_list] map_cong) auto
  show ?case
  proof (cases "x = c")
    case True
    then show ?thesis using Cons same by (simp add: ac_simps)
  next
    case False
    then show ?thesis using Cons by (simp add: add.assoc)
  qed
qed simp

definition extra_of :: "frag_system \<Rightarrow> task_ref \<Rightarrow> int" where
  "extra_of S t = (if map_option snd (fs_registering S) = Some t then 2 else 0)"

text \<open>How often a task has been reported: handed to the scheduler, about to be, or answered ready by its registration.\<close>

definition reports :: "cpu_ref list \<Rightarrow> frag_system \<Rightarrow> task_ref \<Rightarrow> nat" where
  "reports cpus S t = count_list (ds_readied (fs_state S)) t + count_list (fs_submitted S) t +
     sum_list (map (\<lambda>c. count_list (cd_satisfiedOriginators (fs_hp S c)) t) cpus)"

definition frag_inv :: "cpu_ref list \<Rightarrow> DataAccessRegion \<Rightarrow> task_ref \<Rightarrow> frag_system \<Rightarrow> DataAccess list \<Rightarrow> bool" where
  "frag_inv cpus r par S as \<longleftrightarrow>
     holds_chain r par (extra_of S) (fs_order S) as (fs_state S) \<and> accounted (fs_order S) as (pending cpus S) \<and>
     (\<forall>u \<in># pending cpus S. good_operation r (fs_order S) u) \<and>
     (\<forall>c t. fs_registering S = Some (c, t) \<longrightarrow> t \<in> set (fs_order S)) \<and>
     (\<forall>i < length (fs_order S). reports cpus S (fs_order S ! i) = of_bool (extra_of S (fs_order S ! i) = 0 \<and> \<not> enforces (as ! i))) \<and>
     (\<forall>t. t \<notin> set (fs_order S) \<longrightarrow> reports cpus S t = 0)"

lemma holds_chain_hp: "holds_chain r par extra ts as (s\<lparr>ds_hp := hp\<rparr>) \<longleftrightarrow> holds_chain r par extra ts as s"
proof -
  have "holds_chain r par extra ts as s1 \<Longrightarrow> s2 = s1\<lparr>ds_hp := hp\<rparr> \<Longrightarrow> holds_chain r par extra ts as s2" for s1 s2 hp
    by (erule holds_chain_cong) (simp add: untouched_def map_in_def bottom_in_def parent_of_def)
  from this [of s "s\<lparr>ds_hp := hp\<rparr>" hp] this [of "s\<lparr>ds_hp := hp\<rparr>" s "ds_hp s"] show ?thesis by auto
qed

lemma holds_chain_extra:
  "holds_chain r par extra ts as s \<Longrightarrow> (\<And>t. t \<in> set ts \<Longrightarrow> extra' t = extra t) \<Longrightarrow> holds_chain r par extra' ts as s"
  by (simp add: holds_chain_def chain_node_def)

lemma pending_resume:
  assumes "distinct cpus" "c \<in> set cpus"
  shows "pending cpus (resume c s S) + mset (cd_delayedOperations (fs_hp S c)) = pending cpus S + mset (delayed s)"
  using sum_upd [OF assms, of "\<lambda>h. mset (cd_delayedOperations h)" "fs_hp S" "ds_hp s"]
  by (simp add: pending_def resume_def)

lemma reports_resume:
  assumes "distinct cpus" "c \<in> set cpus"
  shows "reports cpus (resume c s S) t + count_list (cd_satisfiedOriginators (fs_hp S c)) t + count_list (ds_readied (fs_state S)) t =
    reports cpus S t + count_list (satisfied_tasks s) t + count_list (ds_readied s) t"
  using sum_upd [OF assms, of "\<lambda>h. count_list (cd_satisfiedOriginators h) t" "fs_hp S" "ds_hp s"]
  by (simp add: reports_def resume_def)

lemma chain_access_in: "holds_chain r par extra ts as s \<Longrightarrow> i < length ts \<Longrightarrow> access_in (ts ! i) s = as ! i"
  by (auto simp: holds_chain_def chain_node_def access_in_def Let_def load_def)

lemma chain_access_of: "holds_chain r par extra ts as (fs_state S) \<Longrightarrow> i < length ts \<Longrightarrow> access_of (ts ! i) S = as ! i"
  by (simp add: access_of_def chain_access_in)

lemma chain_accesses: "holds_chain r par extra ts as s \<Longrightarrow> map (\<lambda>t. access_in t s) ts = as"
  by (rule nth_equalityI) (simp_all add: chain_access_in, simp add: holds_chain_def)


text \<open>A change of one access by a CPU.\<close>

lemma change_keeps_inv:
  assumes inv: "frag_inv cpus r par S as" and cpus: "distinct cpus" "c \<in> set cpus" and i: "i < length (fs_order S)"
    and ch: "chain_change r par (extra_of S) (fs_order S) as i a' (on_cpu c S) s1" and same: "same_place (as ! i) a'"
    and ops: "cd_delayedOperations (fs_hp S c) = G @ rest" "delayed s2 = rest @ passed_on (as ! i) a' r"
    and s2: "s2 = s1\<lparr>ds_hp := hp\<rparr>" "cd_satisfiedOriginators hp = satisfied_tasks s1"
    and G: "\<And>x t. t \<noteq> fs_order S ! i \<Longrightarrow> travelling x t (mset G) = 0"
    and got: "\<And>x. of_bool (received x a') = of_bool (received x (as ! i)) + travelling x (fs_order S ! i) (mset G)"
  shows "frag_inv cpus r par (resume c s2 S) (as[i := discounted_after (as ! i) a'])"
proof -
  let ?S = "resume c s2 S" and ?ts = "fs_order S" and ?as = "as[i := discounted_after (as ! i) a']"
  have h: "holds_chain r par (extra_of S) ?ts as (fs_state S)" and acc: "accounted ?ts as (pending cpus S)"
    and good: "\<forall>u \<in># pending cpus S. good_operation r ?ts u"
    and rep: "\<forall>j < length ?ts. reports cpus S (?ts ! j) = of_bool (extra_of S (?ts ! j) = 0 \<and> \<not> enforces (as ! j))"
    using inv by (auto simp: frag_inv_def)
  have len: "length as = length ?ts" and dist: "distinct ?ts" using h by (auto simp: holds_chain_def)
  have ca: "chain_access (?ts ! i) (successor ?ts i) (as ! i)" "chain_node r par (extra_of S) (fs_state S) (?ts ! i) (as ! i)"
    using h i by (auto simp: holds_chain_def)
  have ex: "extra_of ?S = extra_of S" by (simp add: extra_of_def resume_def fun_eq_iff)
  have h': "holds_chain r par (extra_of S) ?ts ?as (fs_state ?S)"
    using ch by (simp add: chain_change_def resume_def s2 holds_chain_hp)
  have eq: "pending cpus ?S + (mset G + mset rest) = pending cpus S + (mset rest + mset (passed_on (as ! i) a' r))"
    using pending_resume [OF cpus, of s2 S] ops by simp
  have sub: "mset G \<subseteq># pending cpus S"
  proof -
    have "mset (cd_delayedOperations (fs_hp S c)) \<subseteq># pending cpus S"
      unfolding pending_def using cpus(2) by (induction cpus) (auto intro: subset_mset.add_increasing subset_mset.add_increasing2)
    then show ?thesis using ops(1) by (metis mset_append mset_subset_eq_add_left subset_mset.order_trans)
  qed
  then obtain Q where Q: "pending cpus S = Q + mset G" by (metis subset_mset.diff_add)
  then have pend: "pending cpus ?S = Q + mset (passed_on (as ! i) a' r)" using eq by (simp add: ac_simps)
  have nx: "fa_next a' = fa_next (as ! i)" "fa_next (as ! i) = map_option to_access (successor ?ts i)"
    using same ca by (simp_all add: same_place_def chain_access_def)
  have acc': "accounted ?ts ?as (pending cpus ?S)"
    unfolding pend
    by (rule accounted_change [OF _ len dist i nx(2,1) _ G got]) (use acc Q ch in \<open>auto simp: chain_change_def\<close>)
  have good': "good_operation r ?ts u" if u: "u \<in># pending cpus ?S" for u
  proof (cases "u \<in># Q")
    case True
    then show ?thesis using good Q by auto
  next
    case False
    with u pend have p: "u \<in> set (passed_on (as ! i) a' r)" by simp
    then obtain v where v: "fa_next a' = Some (to_access v)" "successor ?ts i = Some v"
      using nx by (cases "successor ?ts i") (auto simp: passed_on_none)
    have "v \<in> set (tl ?ts)" using v(2) by (auto simp: successor_def nth_tl in_set_conv_nth intro!: exI [of _ i] split: if_splits)
    with passed_on_good [OF p v(1)] show ?thesis .
  qed
  have rc: "reports cpus ?S t = reports cpus S t + of_bool (t = ?ts ! i \<and> extra_of S t = 0 \<and> enforces (as ! i) \<and> \<not> enforces a')" for t
  proof -
    have "predecessors (?ts ! i) (on_cpu c S) = extra_of S (?ts ! i) + (if enforces (as ! i) then 1 else 0)"
      using ca(2) by (simp add: chain_node_def on_cpu_def)
    moreover have "ds_readied s2 = ds_readied (fs_state S)" using ch by (simp add: s2 chain_change_def on_cpu_def)
    ultimately show ?thesis
      using reports_resume [OF cpus, of s2 S t] ch s2
      by (auto simp: chain_change_def on_cpu_def)
  qed
  have en: "enforces a' \<longrightarrow> enforces (as ! i)" using same by (simp add: same_place_def)
  have rep': "reports cpus ?S (?ts ! j) = of_bool (extra_of ?S (?ts ! j) = 0 \<and> \<not> enforces (?as ! j))" if j: "j < length ?ts" for j
  proof (cases "j = i")
    case True
    then show ?thesis using rep j rc [of "?ts ! j"] en len ex by auto
  next
    case False
    then have "?ts ! j \<noteq> ?ts ! i" using dist i j by (simp add: nth_eq_iff_index_eq)
    then show ?thesis using rep j rc [of "?ts ! j"] False ex by simp
  qed
  have "reports cpus ?S t = 0" if "t \<notin> set ?ts" for t
  proof -
    have "t \<noteq> ?ts ! i" using that i by auto
    then show ?thesis using rc [of t] inv that by (simp add: frag_inv_def)
  qed
  then show ?thesis
    using h' acc' good' rep' ex inv by (simp add: frag_inv_def resume_def)
qed


lemma same_hp [simp]: "(s\<lparr>ds_hp := ds_hp s\<rparr>) = s"
  by simp

lemma on_cpu_views [simp]:
  "ds_hp (on_cpu c S) = fs_hp S c" "ds_readied (on_cpu c S) = ds_readied (fs_state S)"
  "holds_chain r par extra ts as (on_cpu c S) \<longleftrightarrow> holds_chain r par extra ts as (fs_state S)"
  by (simp_all add: on_cpu_def holds_chain_hp)

context ordered_set
begin

lemma finish_keeps_inv:
  assumes inv: "frag_inv cpus r par S as" and cpus: "distinct cpus" "c \<in> set cpus" and idle: "idle_cpu c S"
    and i: "i < length (fs_order S)" "t = fs_order S ! i" and t: "\<not> fa_complete (access_of t S)"
    and run: "unregister_section avl (Suc d) t (on_cpu c S) = Inr s1"
  shows "frag_inv cpus r par (resume c s1 S) (as[i := discounted_after (as ! i) (completed (as ! i))]) \<and>
    delayed s1 = passed_on (as ! i) (completed (as ! i)) r \<and>
    (\<forall>t. held t (fs_state S) \<longrightarrow> held t s1) \<and> (\<forall>t. t \<noteq> fs_order S ! i \<longrightarrow> untouched t (fs_state S) s1)"
proof -
  have h: "holds_chain r par (extra_of S) (fs_order S) as (fs_state S)" using inv by (simp add: frag_inv_def)
  then have a: "access_of t S = as ! i" using i chain_access_of by blast
  have ch: "chain_change r par (extra_of S) (fs_order S) as i (completed (as ! i)) (on_cpu c S) s1"
    using finish_in_chain [of r par "extra_of S" "fs_order S" as "on_cpu c S" i d s1] h i a t run by simp
  have pl: "plain (as ! i)" using h i by (simp add: holds_chain_def chain_access_def)
  have e: "cd_delayedOperations (fs_hp S c) = []" using idle by (simp add: idle_cpu_def CPUDependencyData_empty_def)
  have "frag_inv cpus r par (resume c s1 S) (as[i := discounted_after (as ! i) (completed (as ! i))])"
    by (rule change_keeps_inv [OF inv cpus i(1) ch same_place_completed [OF pl], where G = "[]" and rest = "[]" and hp = "ds_hp s1"])
      (use e ch in \<open>simp_all add: chain_change_def\<close>)
  moreover have "untouched t (fs_state S) s1" if "t \<noteq> fs_order S ! i" for t
    using ch that by (simp add: chain_change_def untouched_def on_cpu_def map_in_def bottom_in_def parent_of_def)
  ultimately show ?thesis using e ch by (simp add: chain_change_def held_def on_cpu_def)
qed

lemma operation_target:
  assumes inv: "frag_inv cpus r par S as" and c: "c \<in> set cpus" and ops: "cd_delayedOperations (fs_hp S c) = u # rest"
  shows "good_operation r (fs_order S) u" "\<exists>i < length (fs_order S). uo_target u = to_access (fs_order S ! i)"
proof -
  have "u \<in># pending cpus S"
    using c ops unfolding pending_def by (induction cpus) auto
  then show g: "good_operation r (fs_order S) u" using inv by (simp add: frag_inv_def)
  then obtain v where v: "v \<in> set (tl (fs_order S))" "uo_target u = to_access v" by (auto simp: good_operation_def)
  then have "v \<in> set (fs_order S)" by (cases "fs_order S") auto
  then show "\<exists>i < length (fs_order S). uo_target u = to_access (fs_order S ! i)" using v(2) by (metis in_set_conv_nth)
qed

lemma operation_keeps_inv:
  assumes inv: "frag_inv cpus r par S as" and cpus: "distinct cpus" "c \<in> set cpus"
    and ops: "cd_delayedOperations (fs_hp S c) = u # rest"
    and i: "i < length (fs_order S)" "uo_target u = to_access (fs_order S ! i)"
    and run: "delayed_operation_turn avl (Suc d) (on_cpu c S) = Inr s2"
  shows "frag_inv cpus r par (resume c s2 S) (as[i := discounted_after (as ! i) (gain u (as ! i))]) \<and>
    (\<forall>x. \<not> (received x (as ! i) \<and> carries x u)) \<and> delayed s2 = rest @ passed_on (as ! i) (gain u (as ! i)) r \<and>
    (\<forall>t. held t (fs_state S) \<longrightarrow> held t s2) \<and> (\<forall>t. t \<noteq> fs_order S ! i \<longrightarrow> untouched t (fs_state S) s2)"
proof -
  have h: "holds_chain r par (extra_of S) (fs_order S) as (fs_state S)" using inv by (simp add: frag_inv_def)
  note g = operation_target(1) [OF inv cpus(2) ops]
  obtain s1 where s1: "processUpdateOperation avl (Suc d) u (on_cpu c S) = Inr s1"
    and s2: "s2 = with_hp (\<lambda>hp. hp\<lparr>cd_delayedOperations := tl (cd_delayedOperations hp)\<rparr>) s1"
    using run ops by (auto simp: delayed_operation_turn_def)
  have up: "\<forall>x. \<not> (received x (as ! i) \<and> carries x u)" and
    ch: "chain_change r par (extra_of S) (fs_order S) as i (gain u (as ! i)) (on_cpu c S) s1"
    using update_in_chain [of r par "extra_of S" "fs_order S" as "on_cpu c S" i u d s1] h i g s1
    by (auto simp: good_operation_def)
  have pl: "plain (as ! i)" using h i by (simp add: holds_chain_def chain_access_def)
  have d: "delayed s1 = u # rest @ passed_on (as ! i) (gain u (as ! i)) r" using ch ops by (simp add: chain_change_def)
  have "frag_inv cpus r par (resume c s2 S) (as[i := discounted_after (as ! i) (gain u (as ! i))])"
    by (rule change_keeps_inv [OF inv cpus i(1) ch same_place_gain [OF pl], where G = "[u]" and rest = rest
          and hp = "(ds_hp s1)\<lparr>cd_delayedOperations := tl (delayed s1)\<rparr>"])
      (use ops d up i s2 in \<open>auto simp: with_hp_def\<close>)
  moreover have "untouched t (fs_state S) s2" if "t \<noteq> fs_order S ! i" for t
    using ch that s2 by (simp add: chain_change_def untouched_def on_cpu_def with_hp_def map_in_def bottom_in_def parent_of_def)
  ultimately show ?thesis using up d ch s2 by (simp add: chain_change_def held_def on_cpu_def)
qed

end


lemma flushed_views:
  "ds_hp (handleRemovableTasks (processSatisfiedOriginators_fragmented s)) =
     (ds_hp s)\<lparr>cd_satisfiedOriginators := [], cd_removableTasks := []\<rparr>"
  "ds_readied (handleRemovableTasks (processSatisfiedOriginators_fragmented s)) = ds_readied s @ satisfied_tasks s"
  "ds_tasks (handleRemovableTasks (processSatisfiedOriginators_fragmented s)) = ds_tasks s"
  by (simp_all add: handleRemovableTasks_def processSatisfiedOriginators_fragmented_def with_hp_def)

lemma flushed_untouched: "untouched t s (handleRemovableTasks (processSatisfiedOriginators_fragmented s))"
  by (simp add: untouched_def handleRemovableTasks_def processSatisfiedOriginators_fragmented_def with_hp_def map_in_def bottom_in_def parent_of_def)

lemma flushed_chain:
  "holds_chain r par extra ts as s \<Longrightarrow> holds_chain r par extra ts as (handleRemovableTasks (processSatisfiedOriginators_fragmented s))"
  by (erule holds_chain_cong) (rule flushed_untouched)

lemma flush_keeps_inv:
  assumes inv: "frag_inv cpus r par S as" and cpus: "distinct cpus" "c \<in> set cpus"
    and s1: "s1 = handleRemovableTasks (processSatisfiedOriginators_fragmented (on_cpu c S))"
  shows "frag_inv cpus r par (resume c s1 S) as"
proof -
  have h: "holds_chain r par (extra_of S) (fs_order S) as (fs_state S)" using inv by (simp add: frag_inv_def)
  have "pending cpus (resume c s1 S) = pending cpus S"
    using pending_resume [OF cpus, of s1 S] by (simp add: s1 flushed_views)
  moreover have "reports cpus (resume c s1 S) t = reports cpus S t" for t
    using reports_resume [OF cpus, of s1 S t] by (simp add: s1 flushed_views)
  moreover have "extra_of (resume c s1 S) = extra_of S" by (simp add: extra_of_def resume_def fun_eq_iff)
  moreover have "holds_chain r par (extra_of S) (fs_order S) as s1" using flushed_chain [of _ _ _ _ _ "on_cpu c S"] h by (simp add: s1)
  ultimately show ?thesis using inv by (simp add: frag_inv_def resume_def)
qed

lemma registration_ends_chain:
  assumes h: "holds_chain r par extra ts as s" and i: "i < length ts" "t = ts ! i"
    and ex: "extra t = 2" "\<And>u. u \<noteq> t \<Longrightarrow> extra u = 0" and fin: "registration_ends t s = (ready, s2)"
  shows "holds_chain r par (\<lambda>_. 0) ts as s2" "shared s2 = shared s" "ready \<longleftrightarrow> \<not> enforces (as ! i)" "ds_hp s2 = ds_hp s"
    "held u s2 = held u s"
proof -
  have dist: "distinct ts" using h by (simp add: holds_chain_def)
  have s2: "s2 = with_task t (\<lambda>_. (ds_tasks s t)\<lparr>t_predecessorCount := predecessors t s - 2\<rparr>) s"
    and rd: "ready \<longleftrightarrow> predecessors t s = 2"
    using fin by (auto simp: registration_ends_def decreasePredecessors_def Let_def split: if_splits)
  have pr: "predecessors t s = 2 + (if enforces (as ! i) then 1 else 0)"
    using h i ex(1) by (auto simp: holds_chain_def chain_node_def)
  show shared: "shared s2 = shared s" and "ds_hp s2 = ds_hp s" "held u s2 = held u s" by (simp_all add: s2 held_def)
  show "ready \<longleftrightarrow> \<not> enforces (as ! i)" using rd pr by simp
  note v = shared_eqD [OF shared]
  have "chain_node r par (\<lambda>_. 0) s2 (ts ! j) (as ! j)" if j: "j < length ts" for j
  proof -
    have n: "chain_node r par extra s (ts ! j) (as ! j)" using h j by (simp add: holds_chain_def)
    have "predecessors (ts ! j) s2 = (if enforces (as ! j) then 1 else 0)"
    proof (cases "j = i")
      case True
      then show ?thesis using pr i by (simp add: s2)
    next
      case False
      then have "ts ! j \<noteq> t" using dist i j by (simp add: nth_eq_iff_index_eq)
      then show ?thesis using n ex(2) [of "ts ! j"] by (simp add: s2 chain_node_def)
    qed
    then show ?thesis using n v by (simp add: chain_node_def s2)
  qed
  then show "holds_chain r par (\<lambda>_. 0) ts as s2" using h v by (simp add: holds_chain_def)
qed

lemma registered_keeps_inv:
  assumes inv: "frag_inv cpus r par S as" and reg: "fs_registering S = Some (c, t)"
    and fin: "registration_ends t (fs_state S) = (ready, s2)"
  shows "frag_inv cpus r par (S\<lparr>fs_state := s2, fs_registering := None,
    fs_submitted := fs_submitted S @ (if ready then [t] else [])\<rparr>) as"
proof -
  let ?S = "S\<lparr>fs_state := s2, fs_registering := None, fs_submitted := fs_submitted S @ (if ready then [t] else [])\<rparr>"
  let ?ts = "fs_order S"
  have h: "holds_chain r par (extra_of S) ?ts as (fs_state S)" using inv by (simp add: frag_inv_def)
  have dist: "distinct ?ts" using h by (simp add: holds_chain_def)
  have "t \<in> set ?ts" using inv reg by (auto simp: frag_inv_def)
  then obtain i where i: "i < length ?ts" "t = ?ts ! i" by (metis in_set_conv_nth)
  have ex: "extra_of S t = 2" "u \<noteq> t \<Longrightarrow> extra_of S u = 0" for u by (simp_all add: extra_of_def reg)
  have ex': "extra_of ?S = (\<lambda>_. 0)" by (simp add: extra_of_def fun_eq_iff)
  note e = registration_ends_chain [OF h i ex fin]
  have "holds_chain r par (extra_of ?S) ?ts as s2" using e(1) ex' by simp
  moreover have "pending cpus ?S = pending cpus S" by (simp add: pending_def)
  moreover have rep: "reports cpus ?S u = reports cpus S u + (if u = t \<and> ready then 1 else 0)" for u
    using shared_eqD(8) [OF e(2)] by (simp add: reports_def)
  moreover have "reports cpus ?S (?ts ! j) = of_bool (extra_of ?S (?ts ! j) = 0 \<and> \<not> enforces (as ! j))" if j: "j < length ?ts" for j
  proof (cases "j = i")
    case True
    then show ?thesis using inv i rep [of t] e(3) ex ex' by (simp add: frag_inv_def)
  next
    case False
    then have "?ts ! j \<noteq> t" using dist i j by (simp add: nth_eq_iff_index_eq)
    then show ?thesis using inv j rep [of "?ts ! j"] ex ex' by (simp add: frag_inv_def)
  qed
  moreover have "reports cpus ?S u = 0" if "u \<notin> set ?ts" for u
  proof -
    have "u \<noteq> t" using that i by auto
    with rep [of u] inv that show ?thesis by (simp add: frag_inv_def)
  qed
  ultimately show ?thesis using inv by (simp add: frag_inv_def)
qed


context ordered_set
begin

lemma empty_intersecting: "rm_nodes m = [] \<Longrightarrow> processIntersecting avl r f (m, s) = Some (Inr (True, m, s))"
  using lower_bound [of "[]" "dr_startAddress r"]
  by (simp add: processIntersecting_def first_position_def Let_def it_begin_def processIntersecting_loop.simps)

lemma register_alone:
  assumes nodes: "rm_nodes (map_in t access_type s) = []" and r: "region_ok r" "dr_startAddress r \<noteq> 0"
    and ty: "type \<noteq> REDUCTION_ACCESS_TYPE"
    and run: "register_access_fragmented avl t type weak (dr_startAddress r) (dr_length r) symbol index rindex s = Inr s1"
  shows "\<exists>m p a. s1 = put_map t access_type m s \<and> rm_nodes m = [(p, r)] \<and> rm_contents m p = a \<and> fresh_access t a \<and> fa_type a = type \<and>
    fa_weak a = (weak \<and> \<not> isFinal (ds_tasks s t) \<and> \<not> isTaskloop (ds_tasks s t))"
proof -
  have len: "dr_length r \<noteq> 0" using r by (auto simp: region_ok_def)
  have rr: "\<lparr>dr_startAddress = dr_startAddress r, dr_length = dr_length r\<rparr> = r" by simp
  let ?w = "weak \<and> \<not> isFinal (ds_tasks s t) \<and> \<not> isTaskloop (ds_tasks s t)"
  let ?a = "\<lambda>y. addToSymbols y (DataAccess_new (ds_nCpus s) access_type type ?w t index rindex)"
  have fr: "fresh_access t (?a y)" "fa_type (?a y) = type" "fa_weak (?a y) = ?w" for y
    using ty unfolding fresh_access_def all_tokens by (simp_all add: addToSymbols_def DataAccess_new_def plain_def)
  obtain m where m: "registerTaskDataAccess_fragmented avl (ds_nCpus s) t type ?w r symbol index rindex (map_in t access_type s) = Inr m"
    and s1: "s1 = put_map t access_type m s"
    using run r(2) len rr by (auto simp: register_access_fragmented_def)
  have "\<exists>y. m = snd (insert_node avl r (?a y) (map_in t access_type s))"
    using m nodes
    by (auto simp: registerTaskDataAccess_fragmented_def fragmentIntersecting_def empty_intersecting empty_tiled returned_def create_missing_def)
  then obtain y where "m = snd (insert_node avl r (?a y) (map_in t access_type s))" by blast
  with insert_alone [OF nodes, of r "?a y"] fr [of y] s1 show ?thesis by blast
qed

lemma register_newcomer:
  assumes u: "unlinked_task par t s" and r: "region_ok r" "dr_startAddress r \<noteq> 0" and ty: "type \<noteq> REDUCTION_ACCESS_TYPE"
    and run: "register_access_fragmented avl t type weak (dr_startAddress r) (dr_length r) symbol index rindex s = Inr s1"
    and ex: "extra t = 2"
  shows "\<exists>p a. newcomer r par extra t p a (with_task t (increasePredecessors 2) s1) \<and> ds_hp s1 = ds_hp s \<and>
    ds_readied s1 = ds_readied s \<and> fa_type a = type \<and>
    fa_weak a = (weak \<and> \<not> isFinal (ds_tasks s t) \<and> \<not> isTaskloop (ds_tasks s t)) \<and>
    (\<forall>x. held x (with_task t (increasePredecessors 2) s1) = held x s) \<and>
    (\<forall>x. x \<noteq> t \<longrightarrow> untouched x s (with_task t (increasePredecessors 2) s1)) \<and>
    (\<forall>ts as extra. t \<notin> set (par # ts) \<longrightarrow> holds_chain r par extra ts as s \<longrightarrow>
       holds_chain r par extra ts as (with_task t (increasePredecessors 2) s1))"
proof -
  obtain m p a where s1: "s1 = put_map t access_type m s" and m: "rm_nodes m = [(p, r)]" "rm_contents m p = a" "fresh_access t a" "fa_type a = type"
      "fa_weak a = (weak \<and> \<not> isFinal (ds_tasks s t) \<and> \<not> isTaskloop (ds_tasks s t))"
    using register_alone [OF _ r ty run] u by (auto simp: unlinked_task_def)
  have "newcomer r par extra t p a (with_task t (increasePredecessors 2) s1)"
    using u m ex
    by (simp add: newcomer_def s1 unlinked_task_def put_map_def with_task_def map_in_def load_def bottom_in_def parent_of_def
        increasePredecessors_def)
  moreover have un: "untouched x s (with_task t (increasePredecessors 2) s1)" if "x \<noteq> t" for x
    using that by (simp add: untouched_def s1 put_map_def with_task_def map_in_def bottom_in_def parent_of_def)
  moreover have "holds_chain r par extra ts as (with_task t (increasePredecessors 2) s1)"
    if "t \<notin> set (par # ts)" "holds_chain r par extra ts as s" for ts as extra
    by (rule holds_chain_cong [OF that(2)], rule un) (use that(1) in auto)
  moreover have "\<forall>x. held x (with_task t (increasePredecessors 2) s1) = held x s"
    by (auto simp: s1 put_map_def held_def with_task_def increasePredecessors_def)
  ultimately show ?thesis using m(4,5) by (intro exI [of _ p] exI [of _ a]) (simp add: s1 put_map_def)
qed

lemma register_keeps_inv:
  assumes inv: "frag_inv cpus r par S as" and cpus: "distinct cpus" "c \<in> set cpus" and idle: "idle_cpu c S"
    and none: "fs_registering S = None" and t: "t \<notin> set (par # fs_order S)" and u: "unlinked_task par t (fs_state S)"
    and r: "dr_startAddress r \<noteq> 0" and ty: "type \<noteq> REDUCTION_ACCESS_TYPE"
    and run: "register_access_fragmented avl t type weak (dr_startAddress r) (dr_length r) symbol index rindex (on_cpu c S) = Inr s1"
      "registration_links avl (Suc d) t s1 = Inr s2"
  shows "\<exists>a. fresh_access t a \<and> fa_type a = type \<and>
    fa_weak a = (weak \<and> \<not> isFinal (ds_tasks (fs_state S) t) \<and> \<not> isTaskloop (ds_tasks (fs_state S) t)) \<and>
    frag_inv cpus r par ((resume c s2 S)\<lparr>fs_order := fs_order S @ [t], fs_registering := Some (c, t)\<rparr>)
      (if fs_order S = [] then [all_received (entered a)]
       else butlast as @ [discounted_after (last as) (linked_to t (last as)), entered a]) \<and>
    delayed s2 = (if fs_order S = [] then [] else passed_on (last as) (linked_to t (last as)) r) \<and>
    (\<forall>x. held x (fs_state S) \<longrightarrow> held x s2) \<and> (\<forall>x. x \<notin> set (t # par # fs_order S) \<longrightarrow> untouched x (fs_state S) s2)"
proof -
  let ?S = "(resume c s2 S)\<lparr>fs_order := fs_order S @ [t], fs_registering := Some (c, t)\<rparr>" and ?ts = "fs_order S"
  let ?s = "with_task t (increasePredecessors 2) s1"
  have ex: "extra_of S = (\<lambda>_. 0)" "extra_of ?S = (\<lambda>u. if u = t then 2 else 0)"
    using none by (auto simp: extra_of_def fun_eq_iff)
  have h: "holds_chain r par (extra_of ?S) ?ts as (fs_state S)"
    using inv ex t by (auto simp: frag_inv_def intro: holds_chain_extra)
  then have rok: "region_ok r" and len: "length as = length ?ts" by (simp_all add: holds_chain_def)
  have u': "unlinked_task par t (on_cpu c S)" using u by (simp add: unlinked_task_def on_cpu_def map_in_def bottom_in_def parent_of_def)
  have ex2: "extra_of ?S t = 2" by (simp add: ex)
  have hc: "holds_chain r par (extra_of ?S) ?ts as (on_cpu c S)" and tk: "ds_tasks (on_cpu c S) = ds_tasks (fs_state S)"
    using h by simp_all (simp add: on_cpu_def)
  obtain p a where n: "newcomer r par (extra_of ?S) t p a ?s" and hp: "ds_hp s1 = ds_hp (on_cpu c S)"
    and rd: "ds_readied s1 = ds_readied (on_cpu c S)" and h1: "holds_chain r par (extra_of ?S) ?ts as ?s"
    and ty': "fa_type a = type" "fa_weak a = (weak \<and> \<not> isFinal (ds_tasks (fs_state S) t) \<and> \<not> isTaskloop (ds_tasks (fs_state S) t))"
    and hl: "\<forall>x. held x ?s = held x (on_cpu c S)" and un: "\<forall>x. x \<noteq> t \<longrightarrow> untouched x (on_cpu c S) ?s"
    using register_newcomer [OF u' rok r ty run(1), where extra = "extra_of ?S", OF ex2, unfolded tk] t hc by blast
  have onc: "held x (on_cpu c S) = held x (fs_state S)" "untouched x (on_cpu c S) s' = untouched x (fs_state S) s'" for x s'
    by (simp_all add: on_cpu_def held_def untouched_def map_in_def bottom_in_def parent_of_def)
  have link: "linkTaskAccesses avl (Suc d) t ?s = Inr s2" using run(2) by (simp add: registration_links_def)
  have e: "cd_delayedOperations (fs_hp S c) = []" "cd_satisfiedOriginators (fs_hp S c) = []"
    using idle by (simp_all add: idle_cpu_def CPUDependencyData_empty_def)
  have rdy: "ds_readied ?s = ds_readied (fs_state S)" using rd by (simp add: with_task_def)
  have fr: "\<not> received x a" "fresh_access t a" for x using n by (simp_all add: newcomer_def fresh_access_def)
  have pend: "pending cpus ?S = pending cpus S + mset (delayed s2)"
    using pending_resume [OF cpus, of s2 S] e by (simp add: pending_def resume_def)
  have rep: "reports cpus ?S x = reports cpus S x" if "satisfied_tasks s2 = satisfied_tasks ?s" "ds_readied s2 = ds_readied ?s" for x
    using reports_resume [OF cpus, of s2 S x] that rdy e hp by (simp add: reports_def resume_def)
  have noreg: "\<forall>v. v \<notin> set (?ts @ [t]) \<longrightarrow> reports cpus S v = 0" "reports cpus S t = 0" using inv t by (auto simp: frag_inv_def)
  have trav: "travelling x t (pending cpus S) = 0" for x
  proof -
    have "dl_task (uo_target v) \<noteq> t" if "v \<in># pending cpus S" for v
    proof -
      have "uo_target v \<in> to_access ` set (tl ?ts)" using inv that by (auto simp: frag_inv_def good_operation_def)
      then show ?thesis using t by (cases ?ts) auto
    qed
    then have "filter_mset (\<lambda>u. dl_task (uo_target u) = t \<and> carries x u) (pending cpus S) =
        filter_mset (\<lambda>_. False) (pending cpus S)"
      by (intro filter_mset_cong) auto
    then show ?thesis by (simp add: travelling_def)
  qed
  show ?thesis
  proof (cases "?ts = []")
    case True
    with link_first [OF _ _ n link] h1 t len
    have l: "holds_chain r par (extra_of ?S) [t] [all_received (entered a)] s2" "delayed s2 = []"
      "satisfied_tasks s2 = satisfied_tasks ?s" "ds_readied s2 = ds_readied ?s"
      "\<forall>x. held x ?s \<longrightarrow> held x s2" "\<forall>x. x \<notin> {t, par} \<longrightarrow> untouched x ?s s2"
      using e hp ex2 by (auto simp: ex)
    have "accounted [t] [all_received (entered a)] (pending cpus ?S)" by (simp add: accounted_def)
    moreover have "\<forall>v \<in># pending cpus ?S. good_operation r [t] v" using inv True pend l(2) by (auto simp: frag_inv_def good_operation_def)
    ultimately have "frag_inv cpus r par ?S [all_received (entered a)]"
      using True l(1) rep [OF l(3,4)] noreg ex by (simp add: frag_inv_def resume_def)
    then show ?thesis using True l(2,5,6) fr(2) ty' hl un onc by (intro exI [of _ a]) (auto intro: untouched_trans)
  next
    case False
    let ?prev = "last as"
    let ?as = "butlast as @ [discounted_after ?prev (linked_to t ?prev), entered a]"
    from link_next [OF h1 False t n refl link]
    have l: "holds_chain r par (extra_of ?S) (?ts @ [t]) ?as s2" "delayed s2 = passed_on ?prev (linked_to t ?prev) r"
      "satisfied_tasks s2 = satisfied_tasks ?s" "ds_readied s2 = ds_readied ?s"
      "\<forall>x. held x ?s \<longrightarrow> held x s2" "\<forall>x. x \<notin> set (t # par # ?ts) \<longrightarrow> untouched x ?s s2"
      using e hp by auto
    have as: "as \<noteq> []" using False len by auto
    have prev: "fa_next ?prev = None"
    proof -
      have "chain_access (?ts ! (length ?ts - 1)) (successor ?ts (length ?ts - 1)) (as ! (length ?ts - 1))"
        using h False by (simp add: holds_chain_def)
      moreover have "successor ?ts (length ?ts - 1) = None" using False by (cases ?ts) (auto simp: successor_def)
      ultimately show ?thesis using as len by (simp add: chain_access_def last_conv_nth)
    qed
    have acc: "accounted (?ts @ [t]) ?as (pending cpus ?S)"
      unfolding pend l(2)
      by (rule accounted_link [OF _ len False _ trav refl prev fr(1)]) (use inv t in \<open>auto simp: frag_inv_def\<close>)
    have good: "good_operation r (?ts @ [t]) v" if v: "v \<in># pending cpus ?S" for v
    proof (cases "v \<in># pending cpus S")
      case True
      then have "good_operation r ?ts v" using inv by (auto simp: frag_inv_def)
      then show ?thesis using False by (auto simp: good_operation_def)
    next
      case ne: False
      with v pend l(2) have "v \<in> set (passed_on ?prev (linked_to t ?prev) r)" by simp
      then show ?thesis by (rule passed_on_good [where v = t]) (use False in auto)
    qed
    have en: "enforces (?as ! j) = enforces (as ! j)" if "j < length ?ts" for j
    proof -
      have "j < length (butlast as) \<or> j = length (butlast as)" using that len by auto
      moreover have "as = butlast as @ [?prev]" using as by simp
      moreover have "enforces (linked_to t ?prev) = enforces ?prev" by (simp add: enforces_def)
      ultimately show ?thesis by (metis discounted_after_simps(2) nth_append nth_append_length)
    qed
    have "reports cpus ?S ((?ts @ [t]) ! j) = of_bool (extra_of ?S ((?ts @ [t]) ! j) = 0 \<and> \<not> enforces (?as ! j))"
      if j: "j < length (?ts @ [t])" for j
    proof (cases "j < length ?ts")
      case True
      then have "?ts ! j \<noteq> t" using t by auto
      then show ?thesis using True inv rep [OF l(3,4)] en [OF True] ex by (simp add: frag_inv_def nth_append)
    next
      case ne: False
      then have "(?ts @ [t]) ! j = t" using j by (simp add: nth_append)
      then show ?thesis using rep [OF l(3,4)] noreg(2) ex by simp
    qed
    then have "frag_inv cpus r par ?S ?as"
      using l(1,2) acc good rep [OF l(3,4)] noreg by (simp add: frag_inv_def resume_def)
    then show ?thesis using False l(2,5,6) fr(2) ty' hl un onc by (intro exI [of _ a]) (auto intro: untouched_trans)
  qed
qed

lemma step_keeps_inv:
  assumes "frag_step avl (Suc d) cpus r par S S'" "frag_inv cpus r par S as" "distinct cpus" "dr_startAddress r \<noteq> 0"
  shows "\<exists>as. frag_inv cpus r par S' as"
  using assms
proof cases
  case (register c t type weak symbol index rindex s1 s2)
  then show ?thesis using register_keeps_inv [OF assms(2,3)] assms(4) by blast
next
  case (finish c t s1)
  then obtain i where "i < length (fs_order S)" "t = fs_order S ! i" by (metis in_set_conv_nth)
  with finish show ?thesis using finish_keeps_inv [OF assms(2,3)] by blast
next
  case (operation c s1)
  then obtain u rest where "cd_delayedOperations (fs_hp S c) = u # rest" by (cases "cd_delayedOperations (fs_hp S c)") auto
  with operation show ?thesis using operation_keeps_inv [OF assms(2,3)] operation_target [OF assms(2)] by meson
next
  case (flush c s1)
  then show ?thesis using flush_keeps_inv [OF assms(2,3)] by blast
next
  case (registered c t s1 ready s2)
  let ?S = "resume c s1 S"
  have inv: "frag_inv cpus r par ?S as" using flush_keeps_inv [OF assms(2,3)] registered by blast
  have "frag_inv cpus r par (?S\<lparr>fs_state := s2, fs_registering := None,
      fs_submitted := fs_submitted ?S @ (if ready then [t] else [])\<rparr>) as"
    by (rule registered_keeps_inv [OF inv]) (use registered in \<open>simp_all add: resume_def\<close>)
  moreover have "ds_hp s2 = ds_hp s1" using registered by (auto simp: registration_ends_def split: prod.splits)
  then have "S' = ?S\<lparr>fs_state := s2, fs_registering := None, fs_submitted := fs_submitted ?S @ (if ready then [t] else [])\<rparr>"
    using registered(1) by (cases S) (simp add: resume_def)
  ultimately show ?thesis by auto
qed

lemma reachable_inv:
  assumes "frag_reachable avl (Suc d) cpus r par S" "distinct cpus" "region_ok r" "dr_startAddress r \<noteq> 0"
  shows "\<exists>as. frag_inv cpus r par S as"
proof -
  obtain S0 where S0: "frag_initial par S0" "(frag_step avl (Suc d) cpus r par)\<^sup>*\<^sup>* S0 S"
    using assms(1) by (auto simp: frag_reachable_def)
  have z: "sum_list (map (\<lambda>c. 0 :: nat) cpus) = 0" "sum_list (map (\<lambda>c. {#} :: UpdateOperation multiset) cpus) = {#}"
    by (induction cpus) simp_all
  have "frag_inv cpus r par S0 []"
    using S0(1) assms(3) z
    by (simp add: frag_inv_def frag_initial_def holds_chain_def accounted_def pending_def reports_def CPUDependencyData_new_def)
  with S0(2) show ?thesis
  proof (induction rule: rtranclp_induct)
    case (step S1 S2)
    then show ?case using step_keeps_inv assms(2,4) by blast
  qed blast
qed

end

end
