(* ===== verification/N6_FragmentedSerial.thy ===== *)
theory N6_FragmentedSerial
  imports N6_FragmentedSystem
begin

text \<open>
  Operations of the default dependency system that do not overlap: a registration or an unregistration
  runs with its delayed operations to its end before the next one starts. Then no assertion fails and
  every operation returns. Only one delayed operation is on its way at any time; it runs down the chain.
\<close>

section \<open>What tokens mean\<close>

text \<open>Two accesses that may be in progress at the same time.\<close>

definition may_overlap :: "DataAccess \<Rightarrow> DataAccess \<Rightarrow> bool" where
  "may_overlap a b \<longleftrightarrow>
     fa_type a = READ_ACCESS_TYPE \<and> fa_type b = READ_ACCESS_TYPE \<or>
     fa_type a = CONCURRENT_ACCESS_TYPE \<and> fa_type b = CONCURRENT_ACCESS_TYPE"

text \<open>What an access must be for a token to pass it.\<close>

fun lets_through :: "token \<Rightarrow> DataAccess \<Rightarrow> bool" where
  "lets_through Read a = (fa_type a = READ_ACCESS_TYPE \<or> fa_complete a)"
| "lets_through Write a = fa_complete a"
| "lets_through Concurrent a = (fa_type a = CONCURRENT_ACCESS_TYPE \<or> fa_complete a)"
| "lets_through Info a = (fa_type a \<noteq> WRITE_ACCESS_TYPE \<and> fa_type a \<noteq> READWRITE_ACCESS_TYPE \<or> fa_complete a)"
| "lets_through Topmost a = fa_complete a"
| "lets_through TopLevel a = True"

lemma passes_lets_through: "passes x a \<Longrightarrow> received x a \<and> lets_through x a"
  by (cases x) auto

lemma received_only_after:
  assumes "accounted ts as Q" "received x (as ! j)" "i < j" "j < length ts"
  shows "lets_through x (as ! i)"
  using assms(2-4)
proof (induction j)
  case (Suc j)
  then have "passes x (as ! j)" using accounted_received [OF assms(1)] by blast
  with passes_lets_through have "received x (as ! j)" "lets_through x (as ! j)" by blast+
  with Suc show ?case by (cases "i = j") auto
qed simp

lemma satisfied_needs:
  assumes "plain a" "satisfied a"
  shows "received (if fa_type a = READ_ACCESS_TYPE then Read else if fa_type a = CONCURRENT_ACCESS_TYPE then Concurrent else Write) a"
  using assms by (auto simp: satisfied_def plain_def split: if_splits)

lemma drained_passes: "accounted ts as {#} \<Longrightarrow> Suc i < length ts \<Longrightarrow> received x (as ! Suc i) \<longleftrightarrow> passes x (as ! i)"
  unfolding accounted_def by (auto dest!: spec [of _ i] spec [of _ x] simp: of_bool_def split: if_splits)

lemma drained_received:
  assumes "accounted ts as {#}" "length as = length ts" "j < length ts" "x \<noteq> Topmost"
  shows "received x (as ! j) \<longleftrightarrow> (\<forall>i < j. lets_through x (as ! i))"
  using assms(3)
proof (induction j)
  case 0
  then have "as \<noteq> []" using assms(2) by auto
  then show ?case using assms(1) by (simp add: accounted_def)
next
  case (Suc j)
  have "passes x a \<longleftrightarrow> received x a \<and> lets_through x a" for a using assms(4) by (cases x) auto
  then show ?case using Suc drained_passes [OF assms(1) Suc.prems, of x] by (auto simp: less_Suc_eq)
qed

lemma satisfied_plain:
  assumes "plain a"
  shows "satisfied a \<longleftrightarrow> received Info a \<and>
    (if fa_type a = READ_ACCESS_TYPE then received Read a
     else if fa_type a = CONCURRENT_ACCESS_TYPE then received Concurrent a else received Read a \<and> received Write a)"
  using assms by (auto simp: satisfied_def plain_def)

lemma drained_satisfied:
  assumes "accounted ts as {#}" "length as = length ts" "j < length ts" "plain (as ! j)"
  shows "satisfied (as ! j) \<longleftrightarrow> (\<forall>i < j. fa_complete (as ! i) \<or> may_overlap (as ! i) (as ! j))"
proof -
  note d = drained_received [OF assms(1-3)]
  have e: "received Info (as ! j) = (\<forall>i < j. lets_through Info (as ! i))"
    "received Read (as ! j) = (\<forall>i < j. lets_through Read (as ! i))"
    "received Concurrent (as ! j) = (\<forall>i < j. lets_through Concurrent (as ! i))"
    "received Write (as ! j) = (\<forall>i < j. lets_through Write (as ! i))"
    by (rule d, simp)+
  show ?thesis unfolding satisfied_plain [OF assms(4)] e by (auto simp: may_overlap_def)
qed

section \<open>Linking succeeds\<close>

lemma enter_fresh_ex:
  assumes "newcomer r par extra t p a s"
  shows "\<exists>s'. change_access (handleDataAccessStatusChanges avl (Suc n)) (t, access_type, p) enter_bottom_map s = Inr s'"
proof -
  have a: "fresh_access t a" "load (t, access_type, p) s = a" "parent_of s t = Some par" using assms by (simp_all add: newcomer_def)
  have e: "enter_bottom_map a = Inr (entered a)"
    using a(1) by (simp add: enter_bottom_map_def setInBottomMap_def setRegistered_def setReachable_def fresh_access_def entered_def)
  have nr: "\<not> is_removable a" "\<not> is_removable (entered a)"
    using a(1) by (auto simp: fresh_access_def is_removable_def entered_def)
  have f: "plain a" "fa_next a = None" "fa_originator a = t" using a(1) by (simp_all add: fresh_access_def)
  show ?thesis
    by (rule change_access_plain_ex [where f = enter_bottom_map and a' = "entered a" and par = par, OF a(2) f(1) _ e])
      (use f nr a(3) in \<open>simp_all add: to_sibling_def newly_removable_def\<close>, simp add: entered_def)
qed

context ordered_set
begin

lemma link_ex:
  assumes h: "holds_chain r par extra ts as s" and t: "t \<notin> set (par # ts)" and n: "newcomer r par extra t p a s"
    and held: "\<And>x. x \<in> set ts \<Longrightarrow> held x s" and ord: "ts \<noteq> [] \<Longrightarrow> info_before_write (last as)"
  shows "\<exists>s'. linkTaskAccesses avl (Suc d) t s = Inr s'"
proof -
  let ?h = "handleDataAccessStatusChanges avl (Suc d)" and ?e = "entered a"
  have r: "region_ok r" using h by (simp add: holds_chain_def)
  have nn: "rm_nodes (map_in t access_type s) = [(p, r)]" "parent_of s t = Some par" "load (t, access_type, p) s = a"
    "\<not> fa_discounted a" using n by (simp_all add: newcomer_def fresh_access_def)
  obtain s1 where s1: "change_access ?h (t, access_type, p) enter_bottom_map s = Inr s1"
    using enter_fresh_ex [OF n] by blast
  note e = newcomer_enters [OF n s1]
  have h1: "holds_chain r par extra ts as s1" using changed_elsewhere [OF h e(1) t] .
  have fr: "\<forall>x. \<not> received x ?e" "fa_next ?e = None" "fa_originator ?e = t" "plain ?e" "\<not> fa_discounted ?e"
    using n by (simp_all add: newcomer_def fresh_access_def) (simp add: entered_def)
  have "\<exists>s'. replaceMatchingInBottomMapLinkAndPropagate avl ?h (to_access t) (t, access_type, p) par s1 = Inr s'"
  proof (cases "ts = []")
    case True
    have sat: "satisfy_access ?e = Inr (all_received ?e)"
      using fr(1) unfolding all_tokens
      by (simp add: satisfy_access_def setReadSatisfied_def setWriteSatisfied_def setConcurrentSatisfied_def
          setReceivedReductionInfo_def setTopmost_def setTopLevel_def all_received_def entered_def)
    have reg: "fa_registered (all_received ?e)" by (simp add: all_received_def entered_def)
    have nr: "\<not> is_removable (all_received ?e)"
      using n by (auto simp: is_removable_def newcomer_def fresh_access_def all_received_def entered_def)
    have "\<exists>s3. change_access ?h (t, access_type, p) satisfy_access (s1\<lparr>ds_link := l\<rparr>) = Inr s3" for l
      by (rule change_access_plain_ex [where f = satisfy_access and a' = "all_received ?e" and par = par and a = ?e])
        (use e fr sat nr reg all_received_satisfied [OF fr(4)] in \<open>simp_all add: to_sibling_def newly_removable_def\<close>)
    then show ?thesis
      using replace_first_ex [OF r e(2,3) fr(4,5), of par ?h] h1 True by (simp add: holds_chain_def)
  next
    case False
    let ?u = "last ts" and ?k = "length ts - 1" and ?prev = "last as"
    have dist: "distinct (par # ts)" and len: "length as = length ts" using h by (simp_all add: holds_chain_def)
    have "as \<noteq> []" using len False by auto
    then have k: "?k < length ts" "ts ! ?k = ?u" "as ! ?k = ?prev" using False len by (auto simp: last_conv_nth)
    have su: "successor ts ?k = None" using False by (cases ts) (auto simp: successor_def)
    have cn: "chain_node r par extra s1 (ts ! ?k) (as ! ?k)" and ca: "chain_access (ts ! ?k) (successor ts ?k) (as ! ?k)"
      using h1 k(1) by (simp_all add: holds_chain_def)
    obtain q where q: "rm_nodes (map_in ?u access_type s1) = [(q, r)]" "load (?u, access_type, q) s1 = ?prev"
      using cn k by (auto simp: chain_node_def)
    obtain b where b: "rm_nodes (bottom_in par s1) = [(b, r)]"
      "rm_contents (bottom_in par s1) b = \<lparr>bm_link = to_access ?u, bm_accessType = NO_ACCESS_TYPE\<rparr>"
      using h1 False by (auto simp: holds_chain_def)
    have pv: "plain ?prev" "fa_inBottomMap ?prev" "fa_next ?prev = None" "fa_reachable ?prev" "fa_registered ?prev"
      "fa_originator ?prev = ?u" "fa_discounted ?prev = is_removable ?prev"
      using ca k su by (simp_all add: chain_access_def)
    have nr: "\<not> is_removable ?prev" using pv by (auto simp: is_removable_def plain_def)
    have u: "?u \<noteq> par" "?u \<in> set ts" using dist False by auto
    have pu: "parent_of s1 ?u = Some par" "blockers ?u s1 = 1" using cn k nr by (simp_all add: chain_node_def)
    have hu: "held ?u s1" using held [OF u(2)] e(1) by (simp add: changed_def)
    have ft: "unsetInBottomMap (setNext (to_access t) ?prev) = Inr (linked_to t ?prev)"
      using pv by (simp add: unsetInBottomMap_def setNext_def linked_to_def)
    have reg: "fa_registered (linked_to t ?prev)" "\<not> fa_discounted (linked_to t ?prev)" using pv nr by (simp_all add: linked_to_def)
    have wi: "gives Write (linked_to t ?prev) \<longrightarrow> gives Info (linked_to t ?prev)"
      using ord [OF False] by (auto simp: info_before_write_def gives_def)
    have ch: "\<exists>s3. change_access ?h (?u, access_type, q) (\<lambda>a. unsetInBottomMap (setNext (to_access t) a)) (s1\<lparr>ds_link := l\<rparr>) = Inr s3 \<and>
        bottom_in par s3 = bottom_in par s1" for l
    proof -
      have "\<exists>s3. change_access ?h (?u, access_type, q) (\<lambda>a. unsetInBottomMap (setNext (to_access t) a)) (s1\<lparr>ds_link := l\<rparr>) = Inr s3"
        by (rule change_access_plain_ex [where f = "\<lambda>a. unsetInBottomMap (setNext (to_access t) a)" and
              a' = "linked_to t ?prev" and par = par and a = ?prev])
          (use q pv pu e(5) ft nr reg wi hu in \<open>auto simp: to_sibling_def gives_def [of _ ?prev]\<close>)
      then obtain s3 where s3: "change_access ?h (?u, access_type, q) (\<lambda>a. unsetInBottomMap (setNext (to_access t) a)) (s1\<lparr>ds_link := l\<rparr>) = Inr s3" by blast
      have "changed ?u q ?prev (linked_to t ?prev) r (s1\<lparr>ds_link := l\<rparr>) s3"
        by (rule change_to_next [OF pv(1,2,5) _ pv(6) _ _ _ pv(3) s3]) (use pu q e(5) in simp_all)
      then show ?thesis using s3 changed_views(2) by fastforce
    qed
    show ?thesis
      by (rule replace_next_ex [OF r e(2,3) fr(4) pv(1) q(1) u(1) q(2) pv(2,3,4) _ b ch]) (use pv nr in simp)
  qed
  then show ?thesis
    using s1 one_access(2) [OF r nn(1)] nn
    by (auto simp: linkTaskAccesses_def Let_def ended_def continue_def simp del: handleDataAccessStatusChanges.simps)
qed

lemma register_ex:
  assumes "unlinked_task par t s" "region_ok r" "dr_startAddress r \<noteq> 0" "symbol < 64"
  shows "\<exists>s1. register_access_fragmented avl t type weak (dr_startAddress r) (dr_length r) symbol index rindex s = Inr s1"
proof -
  let ?r = "\<lparr>dr_startAddress = dr_startAddress r, dr_length = dr_length r\<rparr>"
  have len: "dr_length r \<noteq> 0" using assms(2) by (auto simp: region_ok_def)
  have nodes: "rm_nodes (map_in t access_type s) = []" using assms(1) by (simp add: unlinked_task_def)
  obtain y where y: "initial_symbols symbol = Inr y" using assms(4) by (simp add: initial_symbols_def)
  have "\<exists>m. registerTaskDataAccess_fragmented avl (ds_nCpus s) t type w ?r symbol index rindex (map_in t access_type s) = Inr m" for w
    using nodes y
    by (simp add: registerTaskDataAccess_fragmented_def fragmentIntersecting_def empty_intersecting empty_tiled returned_def create_missing_def)
  then obtain m where "registerTaskDataAccess_fragmented avl (ds_nCpus s) t type
      (weak \<and> \<not> isFinal (ds_tasks s t) \<and> \<not> isTaskloop (ds_tasks s t)) ?r symbol index rindex (map_in t access_type s) = Inr m" by blast
  then show ?thesis using assms(3) len by (simp add: register_access_fragmented_def)
qed

end

section \<open>One operation on its way\<close>

text \<open>The order in which tokens reach an access when operations do not overtake each other.\<close>

definition tokens_in_order :: "DataAccess \<Rightarrow> bool" where
  "tokens_in_order a \<longleftrightarrow> (received Write a \<longrightarrow> received Info a) \<and> (received Topmost a \<longrightarrow> (\<forall>x. received x a))"

lemma order_passed: "tokens_in_order b \<Longrightarrow> (\<And>x. received x a \<longleftrightarrow> passes x b) \<Longrightarrow> tokens_in_order a"
  unfolding tokens_in_order_def all_tokens by auto

lemma order_info: "tokens_in_order a \<Longrightarrow> info_before_write a"
  by (simp add: tokens_in_order_def info_before_write_def)

lemma order_cong: "(\<And>x. received x a' = received x a) \<Longrightarrow> tokens_in_order a' = tokens_in_order a"
  by (simp add: tokens_in_order_def)

lemma drained_in_order:
  assumes "accounted ts as {#}" "length as = length ts" "j < length ts"
  shows "tokens_in_order (as ! j)"
  using assms(3)
proof (induction j)
  case 0
  then have "as \<noteq> []" using assms(2) by auto
  then show ?case using assms(1) by (simp add: accounted_def tokens_in_order_def)
next
  case (Suc j)
  then show ?case using order_passed [of "as ! j"] drained_passes [OF assms(1) Suc.prems] by simp
qed

definition token_carrier :: "DataAccessRegion \<Rightarrow> task_ref \<Rightarrow> UpdateOperation \<Rightarrow> bool" where
  "token_carrier r t u \<longleftrightarrow> uo_target u = to_access t \<and> uo_region u = r \<and> uo_reductionInfo u = None \<and>
     uo_reductionCpuSet u = [] \<and> \<not> UpdateOperation_empty u"

definition cascading ::
  "DataAccessRegion \<Rightarrow> task_ref \<Rightarrow> (task_ref \<Rightarrow> int) \<Rightarrow> task_ref list \<Rightarrow> DataAccess list \<Rightarrow> nat \<Rightarrow> access_state \<Rightarrow> bool" where
  "cascading r par extra ts as k s \<longleftrightarrow>
     holds_chain r par extra ts as s \<and> accounted ts as (mset (delayed s)) \<and> (\<forall>a \<in> set as. tokens_in_order a) \<and>
     (\<forall>t \<in> set ts. held t s) \<and>
     (delayed s = [] \<or> Suc k < length ts \<and> (\<exists>u. delayed s = [u] \<and> token_carrier r (ts ! Suc k) u))"

lemma passed_on_carrier:
  assumes "fa_next a' = map_option to_access (successor ts i)"
  shows "passed_on a a' r = [] \<or> Suc i < length ts \<and> (\<exists>u. passed_on a a' r = [u] \<and> token_carrier r (ts ! Suc i) u)"
  using assms by (auto simp: passed_on_def successor_def token_carrier_def token_operation_empty)

lemma change_cascades:
  assumes ch: "chain_change r par extra ts as i a' s s1" and same: "same_place (as ! i) a'"
    and c: "holds_chain r par extra ts as s" "accounted ts as (mset (delayed s))" "\<forall>a \<in> set as. tokens_in_order a" "\<forall>t \<in> set ts. held t s"
    and i: "i < length ts" and s2: "s2 = s1\<lparr>ds_hp := hp\<rparr>" "cd_delayedOperations hp = passed_on (as ! i) a' r"
    and ord: "tokens_in_order a'" and G: "\<And>x t. t \<noteq> ts ! i \<Longrightarrow> travelling x t (mset (delayed s)) = 0"
    and got: "\<And>x. of_bool (received x a') = of_bool (received x (as ! i)) + travelling x (ts ! i) (mset (delayed s))"
  shows "cascading r par extra ts (as[i := discounted_after (as ! i) a']) i s2"
proof -
  have ca: "chain_access (ts ! i) (successor ts i) (as ! i)" and len: "length as = length ts" and dist: "distinct ts"
    using c(1) i by (auto simp: holds_chain_def)
  have nx: "fa_next (as ! i) = map_option to_access (successor ts i)" "fa_next a' = fa_next (as ! i)"
    using same ca by (simp_all add: same_place_def chain_access_def)
  have "accounted ts (as[i := discounted_after (as ! i) a']) ({#} + mset (passed_on (as ! i) a' r))"
    by (rule accounted_change [OF _ len dist i nx _ G got]) (use c(2) ch in \<open>auto simp: chain_change_def\<close>)
  moreover have "tokens_in_order (discounted_after (as ! i) a')" using ord order_cong [of "discounted_after (as ! i) a'" a'] by simp
  then have "\<forall>a \<in> set (as[i := discounted_after (as ! i) a']). tokens_in_order a"
    using c(3) by (auto dest: set_update_subset_insert [THEN subsetD])
  moreover have "passed_on (as ! i) a' r = [] \<or>
      Suc i < length ts \<and> (\<exists>u. passed_on (as ! i) a' r = [u] \<and> token_carrier r (ts ! Suc i) u)"
    by (rule passed_on_carrier) (simp add: nx)
  moreover have "held t s2 = held t s1" for t by (simp add: s2 held_def)
  ultimately show ?thesis
    using ch c(4) s2(2) by (simp add: cascading_def s2(1) holds_chain_hp chain_change_def)
qed

text \<open>The tasks between two positions that stop being held back.\<close>

definition released_tasks :: "(task_ref \<Rightarrow> int) \<Rightarrow> task_ref list \<Rightarrow> DataAccess list \<Rightarrow> DataAccess list \<Rightarrow> nat \<Rightarrow> task_ref list" where
  "released_tasks extra ts as as' k =
     map ((!) ts) (filter (\<lambda>j. extra (ts ! j) = 0 \<and> enforces (as ! j) \<and> \<not> enforces (as' ! j)) [k..<length ts])"

definition same_access_kind :: "DataAccess \<Rightarrow> DataAccess \<Rightarrow> bool" where
  "same_access_kind a a' \<longleftrightarrow> fa_type a' = fa_type a \<and> fa_weak a' = fa_weak a \<and> fa_complete a' = fa_complete a"

context ordered_set
begin

lemma turn_cascades:
  assumes c: "cascading r par extra ts as k s" and u: "delayed s = [u]"
  shows "\<exists>s' a'. delayed_operation_turn avl (Suc d) s = Inr s' \<and>
    cascading r par extra ts (as[Suc k := a']) (Suc k) s' \<and> ds_readied s' = ds_readied s \<and> same_access_kind (as ! Suc k) a' \<and>
    satisfied_tasks s' = satisfied_tasks s @
      (if extra (ts ! Suc k) = 0 \<and> enforces (as ! Suc k) \<and> \<not> enforces a' then [ts ! Suc k] else [])"
proof -
  let ?i = "Suc k" and ?a' = "gain u (as ! Suc k)"
  have h: "holds_chain r par extra ts as s" and acc: "accounted ts as {#u#}" and o: "\<forall>a \<in> set as. tokens_in_order a"
    and hd: "\<forall>t \<in> set ts. held t s" and i: "?i < length ts" and tc: "token_carrier r (ts ! ?i) u"
    using c u by (auto simp: cascading_def)
  have len: "length as = length ts" using h by (simp add: holds_chain_def)
  have eq: "of_bool (received x (as ! ?i)) + of_bool (carries x u) = (of_bool (passes x (as ! k)) :: nat)" for x
  proof -
    have "of_bool (received x (as ! ?i)) + travelling x (ts ! ?i) {#u#} = (of_bool (passes x (as ! k)) :: nat)"
      using acc i unfolding accounted_def by blast
    then show ?thesis using tc by (simp add: token_carrier_def del: of_bool_eq_iff)
  qed
  have dis: "\<forall>x. \<not> (received x (as ! ?i) \<and> carries x u)"
  proof
    fix x
    show "\<not> (received x (as ! ?i) \<and> carries x u)" using eq [of x] by (auto simp: of_bool_def split: if_splits)
  qed
  have got: "received x ?a' \<longleftrightarrow> passes x (as ! k)" for x
    using eq [of x] by (auto simp: of_bool_def split: if_splits)
  have "as ! k \<in> set as" "as ! ?i \<in> set as" using i len by simp_all
  with o have ok: "tokens_in_order (as ! k)" "tokens_in_order (as ! ?i)" by simp_all
  have ord: "tokens_in_order ?a'" using order_passed [OF ok(1) got] .
  have some: "\<not> (\<forall>x. \<not> carries x u)"
    unfolding all_tokens using tc by (auto simp: token_carrier_def UpdateOperation_empty_def)
  have nd: "\<not> fa_discounted (as ! ?i)"
  proof
    assume "fa_discounted (as ! ?i)"
    then have "received Topmost (as ! ?i)" using h i by (auto simp: holds_chain_def chain_access_def is_removable_def)
    with ok(2) have "\<forall>x. received x (as ! ?i)" by (simp add: tokens_in_order_def)
    with dis some show False by blast
  qed
  have hu: "held (ts ! ?i) s" using hd i by simp
  have tu: "uo_target u = to_access (ts ! ?i)" "uo_region u = r" "uo_reductionInfo u = None" "uo_reductionCpuSet u = []"
    "\<not> UpdateOperation_empty u" using tc by (simp_all add: token_carrier_def)
  obtain s1 where s1: "processUpdateOperation avl (Suc d) u s = Inr s1"
    using update_in_chain_ex [OF h i tu dis nd order_info [OF ord] hu] by blast
  have ch: "chain_change r par extra ts as ?i ?a' s s1" using update_in_chain [OF h i tu(1-4) s1] by blast
  let ?hp = "(ds_hp s1)\<lparr>cd_delayedOperations := tl (delayed s1)\<rparr>"
  let ?s2 = "s1\<lparr>ds_hp := ?hp\<rparr>"
  have turn: "delayed_operation_turn avl (Suc d) s = Inr ?s2" using s1 u by (simp add: delayed_operation_turn_def with_hp_def)
  have pl: "plain (as ! ?i)" using h i by (simp add: holds_chain_def chain_access_def)
  have "cascading r par extra ts (as[?i := discounted_after (as ! ?i) ?a']) ?i ?s2"
    by (rule change_cascades [OF ch same_place_gain [OF pl] h _ o hd i refl])
      (use acc u ch ord tu dis in \<open>auto simp: chain_change_def\<close>)
  moreover have "predecessors (ts ! ?i) s = extra (ts ! ?i) + (if enforces (as ! ?i) then 1 else 0)"
    using h i by (simp add: holds_chain_def chain_node_def)
  then have "satisfied_tasks ?s2 = satisfied_tasks s @ (if extra (ts ! ?i) = 0 \<and> enforces (as ! ?i) \<and> \<not> enforces ?a' then [ts ! ?i] else [])"
    using ch by (auto simp: chain_change_def)
  moreover have "ds_readied ?s2 = ds_readied s" using ch by (simp add: chain_change_def)
  moreover have "same_access_kind (as ! ?i) (discounted_after (as ! ?i) ?a')" by (simp add: same_access_kind_def)
  ultimately show ?thesis using turn by (intro exI [of _ ?s2] exI [of _ "discounted_after (as ! ?i) ?a'"]) simp
qed

lemma cascade_ends:
  assumes "cascading r par extra ts as k s"
  shows "\<exists>s' as'. processDelayedOperations avl (Suc d) s = Some (Inr s') \<and> holds_chain r par extra ts as' s' \<and>
    accounted ts as' {#} \<and> delayed s' = [] \<and> (\<forall>t \<in> set ts. held t s') \<and> ds_readied s' = ds_readied s \<and>
    (\<forall>j < length ts. same_access_kind (as ! j) (as' ! j) \<and> (j \<le> k \<longrightarrow> as' ! j = as ! j)) \<and>
    satisfied_tasks s' = satisfied_tasks s @ released_tasks extra ts as as' (Suc k)"
  using assms
proof (induction "length ts - k" arbitrary: as k s rule: less_induct)
  case less
  show ?case
  proof (cases "delayed s = []")
    case True
    then show ?thesis using less.prems
      by (intro exI [of _ s] exI [of _ as])
        (simp add: cascading_def same_access_kind_def processDelayedOperations.simps [of avl "Suc d" s] released_tasks_def)
  next
    case False
    then obtain u where u: "delayed s = [u]" and k: "Suc k < length ts" using less.prems by (auto simp: cascading_def)
    from turn_cascades [OF less.prems u] obtain s1 a' where
      t: "delayed_operation_turn avl (Suc d) s = Inr s1" "cascading r par extra ts (as[Suc k := a']) (Suc k) s1"
      "ds_readied s1 = ds_readied s" "same_access_kind (as ! Suc k) a'"
      "satisfied_tasks s1 = satisfied_tasks s @
        (if extra (ts ! Suc k) = 0 \<and> enforces (as ! Suc k) \<and> \<not> enforces a' then [ts ! Suc k] else [])" by blast
    have len: "length as = length ts" using less.prems by (simp add: cascading_def holds_chain_def)
    obtain s' as' where i: "processDelayedOperations avl (Suc d) s1 = Some (Inr s')" "holds_chain r par extra ts as' s'"
      "accounted ts as' {#}" "delayed s' = []" "\<forall>t \<in> set ts. held t s'" "ds_readied s' = ds_readied s1"
      "\<forall>j < length ts. same_access_kind (as[Suc k := a'] ! j) (as' ! j) \<and> (j \<le> Suc k \<longrightarrow> as' ! j = as[Suc k := a'] ! j)"
      "satisfied_tasks s' = satisfied_tasks s1 @ released_tasks extra ts (as[Suc k := a']) as' (Suc (Suc k))"
      using less.hyps [OF _ t(2)] diff_less_mono2 [OF lessI Suc_lessD [OF k]] by blast
    have at: "as' ! Suc k = a'" using i(7) k len by simp
    have later: "released_tasks extra ts (as[Suc k := a']) as' (Suc (Suc k)) = released_tasks extra ts as as' (Suc (Suc k))"
      unfolding released_tasks_def by (intro arg_cong [of _ _ "map _"] filter_cong) auto
    have rel: "released_tasks extra ts as as' (Suc k) =
        (if extra (ts ! Suc k) = 0 \<and> enforces (as ! Suc k) \<and> \<not> enforces a' then [ts ! Suc k] else []) @
        released_tasks extra ts as as' (Suc (Suc k))"
      using k at by (simp add: released_tasks_def upt_conv_Cons)
    have kinds: "same_access_kind (as ! j) (as' ! j) \<and> (j \<le> k \<longrightarrow> as' ! j = as ! j)" if "j < length ts" for j
      using i(7) that len t(4) at by (cases "j = Suc k") auto
    show ?thesis
      using i t(1,3,5) kinds rel later False
      by (intro exI [of _ s'] exI [of _ as']) (simp add: processDelayedOperations.simps [of avl "Suc d" s])
  qed
qed

end

section \<open>Settled states\<close>

definition settled :: "DataAccessRegion \<Rightarrow> task_ref \<Rightarrow> task_ref list \<Rightarrow> access_state \<Rightarrow> bool" where
  "settled r par ts s \<longleftrightarrow>
     holds_chain r par (\<lambda>_. 0) ts (map (\<lambda>t. access_in t s) ts) s \<and> accounted ts (map (\<lambda>t. access_in t s) ts) {#} \<and>
     delayed s = [] \<and> satisfied_tasks s = [] \<and> (\<forall>t \<in> set ts. held t s)"

lemma settledI:
  "holds_chain r par (\<lambda>_. 0) ts as s \<Longrightarrow> accounted ts as {#} \<Longrightarrow> delayed s = [] \<Longrightarrow> satisfied_tasks s = [] \<Longrightarrow>
    \<forall>t \<in> set ts. held t s \<Longrightarrow> settled r par ts s"
  using chain_accesses [of r par "\<lambda>_. 0" ts as s] by (simp add: settled_def)

lemma settledD:
  assumes "settled r par ts s"
  obtains as where "as = map (\<lambda>t. access_in t s) ts" "holds_chain r par (\<lambda>_. 0) ts as s" "accounted ts as {#}"
    "length as = length ts" "\<forall>a \<in> set as. tokens_in_order a" "delayed s = []" "satisfied_tasks s = []" "\<forall>t \<in> set ts. held t s"
proof
  let ?as = "map (\<lambda>t. access_in t s) ts"
  show "?as = map (\<lambda>t. access_in t s) ts" "length ?as = length ts" by simp_all
  show "holds_chain r par (\<lambda>_. 0) ts ?as s" "accounted ts ?as {#}" "delayed s = []" "satisfied_tasks s = []" "\<forall>t \<in> set ts. held t s"
    using assms by (simp_all add: settled_def)
  then show "\<forall>a \<in> set ?as. tokens_in_order a"
    using drained_in_order [of ts ?as] by (metis in_set_conv_nth length_map)
qed

definition ready_in :: "task_ref \<Rightarrow> access_state \<Rightarrow> bool" where
  "ready_in t s \<longleftrightarrow> fa_weak (access_in t s) \<or> satisfied (access_in t s)"

lemma settled_exact:
  assumes "settled r par ts s" "j < length ts"
  shows "satisfied (access_in (ts ! j) s) \<longleftrightarrow>
    (\<forall>i < j. fa_complete (access_in (ts ! i) s) \<or> may_overlap (access_in (ts ! i) s) (access_in (ts ! j) s))"
proof -
  let ?as = "map (\<lambda>t. access_in t s) ts"
  have h: "holds_chain r par (\<lambda>_. 0) ts ?as s" "accounted ts ?as {#}" using assms(1) by (simp_all add: settled_def)
  have "plain (?as ! j)" using chain_siblings(2) [OF h(1) assms(2)] .
  from drained_satisfied [OF h(2) _ assms(2) this] assms(2) show ?thesis by simp
qed

text \<open>After the last operation, the satisfied tasks are handed over.\<close>

lemma flushed_held: "held t (handleRemovableTasks (processSatisfiedOriginators_fragmented s)) = held t s"
  by (simp add: handleRemovableTasks_def processSatisfiedOriginators_fragmented_def with_hp_def held_def)

lemma released_filter:
  assumes "as = map (\<lambda>t. access_in t s) ts" "as' = map (\<lambda>t. access_in t s') ts"
    and "\<And>j. j < k \<Longrightarrow> j < length ts \<Longrightarrow> enforces (as' ! j) = enforces (as ! j)" "k \<le> length ts"
  shows "released_tasks (\<lambda>_. 0) ts as as' k = filter (\<lambda>t. ready_in t s' \<and> \<not> ready_in t s) ts"
proof -
  let ?P = "\<lambda>t. ready_in t s' \<and> \<not> ready_in t s"
  have e: "enforces (access_in t s) \<longleftrightarrow> \<not> ready_in t s" for t s by (auto simp: enforces_def ready_in_def)
  have "filter ?P ts = filter ?P (map ((!) ts) [0..<length ts])" by (simp add: map_nth)
  also have "\<dots> = map ((!) ts) (filter (?P \<circ> (!) ts) [0..<length ts])" by (simp add: filter_map)
  also have "[0..<length ts] = [0..<k] @ [k..<length ts]" using assms(4) upt_add_eq_append [of 0 k "length ts - k"] by simp
  also have "filter (?P \<circ> (!) ts) ([0..<k] @ [k..<length ts]) = filter (?P \<circ> (!) ts) [k..<length ts]"
    using assms by (auto simp: filter_empty_conv e)
  also have "map ((!) ts) \<dots> = released_tasks (\<lambda>_. 0) ts as as' k"
    unfolding released_tasks_def using assms(1,2) by (intro arg_cong [of _ _ "map _"] filter_cong) (auto simp: e)
  finally show ?thesis ..
qed

context ordered_set
begin

lemma finish_settles:
  assumes st: "settled r par ts s" and t: "t \<in> set ts" "\<not> fa_complete (access_in t s)"
  shows "\<exists>s'. unregisterTaskDataAccesses_fragmented avl (Suc d) t s = Inr s' \<and> settled r par ts s' \<and>
    ds_readied s' = ds_readied s @ filter (\<lambda>u. ready_in u s' \<and> \<not> ready_in u s) ts \<and>
    (\<forall>u \<in> set ts. fa_type (access_in u s') = fa_type (access_in u s) \<and>
       fa_complete (access_in u s') = (u = t \<or> fa_complete (access_in u s)))"
proof -
  obtain as where as: "as = map (\<lambda>t. access_in t s) ts" "holds_chain r par (\<lambda>_. 0) ts as s" "accounted ts as {#}"
    "length as = length ts" "\<forall>a \<in> set as. tokens_in_order a" "delayed s = []" "satisfied_tasks s = []" "\<forall>t \<in> set ts. held t s"
    using settledD [OF st] by blast
  obtain i where i: "i < length ts" "t = ts ! i" using t(1) by (metis in_set_conv_nth)
  let ?a' = "completed (as ! i)" and ?as = "as[i := discounted_after (as ! i) (completed (as ! i))]"
  have a: "as ! i = access_in t s" "as ! i \<in> set as" using as i by simp_all
  have pl: "plain (as ! i)" using chain_siblings(2) [OF as(2) i(1)] .
  have ord: "tokens_in_order ?a'" using as(5) a(2) order_cong [of ?a' "as ! i"] by simp
  obtain s1 where s1: "unregister_section avl (Suc d) t s = Inr s1"
    using finish_in_chain_ex [OF as(2) i(1) _ order_info [OF ord]] as(8) t a i by auto
  have ch: "chain_change r par (\<lambda>_. 0) ts as i ?a' s s1" using finish_in_chain [OF as(2) i(1)] s1 t a i by simp
  have en: "enforces ?a' = enforces (as ! i)" using same_place_completed [OF pl]
    by (auto simp: enforces_def satisfied_def completed_def)
  have c: "cascading r par (\<lambda>_. 0) ts ?as i s1"
    by (rule change_cascades [OF ch same_place_completed [OF pl] as(2) _ as(5,8) i(1), where hp = "ds_hp s1"])
      (use as ch ord in \<open>auto simp: chain_change_def\<close>)
  from cascade_ends [OF c, of d] obtain s2 as' where
    e: "processDelayedOperations avl (Suc d) s1 = Some (Inr s2)" "holds_chain r par (\<lambda>_. 0) ts as' s2"
    "accounted ts as' {#}" "delayed s2 = []" "\<forall>t \<in> set ts. held t s2" "ds_readied s2 = ds_readied s1"
    "\<forall>j < length ts. same_access_kind (?as ! j) (as' ! j) \<and> (j \<le> i \<longrightarrow> as' ! j = ?as ! j)"
    "satisfied_tasks s2 = satisfied_tasks s1 @ released_tasks (\<lambda>_. 0) ts ?as as' (Suc i)" by blast
  let ?s' = "handleRemovableTasks (processSatisfiedOriginators_fragmented s2)"
  have h': "holds_chain r par (\<lambda>_. 0) ts as' ?s'" using flushed_chain [OF e(2)] .
  note as' = chain_accesses [OF h']
  have "settled r par ts ?s'" using settledI [OF h' e(3)] e(4,5) by (simp add: flushed_views flushed_held)
  moreover have "released_tasks (\<lambda>_. 0) ts ?as as' (Suc i) = released_tasks (\<lambda>_. 0) ts as as' (Suc i)"
    unfolding released_tasks_def by (intro arg_cong [of _ _ "map _"] filter_cong) auto
  moreover have "released_tasks (\<lambda>_. 0) ts as as' (Suc i) = filter (\<lambda>u. ready_in u ?s' \<and> \<not> ready_in u s) ts"
  proof (rule released_filter [OF as(1) as' [symmetric]])
    show "enforces (as' ! j) = enforces (as ! j)" if "j < Suc i" "j < length ts" for j
      using e(7) that en as(4) by (cases "j = i") auto
  qed (use i in simp)
  moreover have "satisfied_tasks s1 = []" "ds_readied s1 = ds_readied s" using ch as(7) en by (simp_all add: chain_change_def)
  ultimately have "ds_readied ?s' = ds_readied s @ filter (\<lambda>u. ready_in u ?s' \<and> \<not> ready_in u s) ts"
    using e(6,8) by (simp add: flushed_views)
  moreover have "fa_type (access_in u ?s') = fa_type (access_in u s) \<and>
       fa_complete (access_in u ?s') = (u = t \<or> fa_complete (access_in u s))" if u: "u \<in> set ts" for u
  proof -
    obtain j where j: "j < length ts" "u = ts ! j" using u by (metis in_set_conv_nth)
    have "u = t \<longleftrightarrow> j = i" using i j as(2) by (simp add: holds_chain_def nth_eq_iff_index_eq)
    then show ?thesis using e(7) j chain_access_in [OF h' j(1)] chain_access_in [OF as(2) j(1)] as(4)
      by (cases "j = i") (auto simp: same_access_kind_def)
  qed
  ultimately show ?thesis using s1 e(1) \<open>settled r par ts ?s'\<close>
    by (intro exI [of _ ?s'])
      (simp add: unregisterTaskDataAccesses_fragmented_def processDelayedOperationsSatisfiedOriginatorsAndRemovableTasks_def returned_def)
qed

lemma link_cascades:
  assumes h: "holds_chain r par extra ts as s" "accounted ts as {#}" "\<forall>a \<in> set as. tokens_in_order a" "\<forall>x \<in> set (ts @ [t]). held x s"
    and d: "delayed s = []" and t: "t \<notin> set (par # ts)" and n: "newcomer r par extra t p a s" and ex: "extra t = 2"
  shows "\<exists>s' as'. linkTaskAccesses avl (Suc d) t s = Inr s' \<and> cascading r par extra (ts @ [t]) as' (length ts - 1) s' \<and>
    satisfied_tasks s' = satisfied_tasks s \<and> ds_readied s' = ds_readied s \<and>
    (\<forall>j < length ts. same_access_kind (as ! j) (as' ! j) \<and> enforces (as' ! j) = enforces (as ! j)) \<and> same_access_kind a (as' ! length ts)"
proof -
  have len: "length as = length ts" using h by (simp add: holds_chain_def)
  have fr: "\<not> received x a" for x using n by (simp add: newcomer_def fresh_access_def)
  have "info_before_write (last as)" if "ts \<noteq> []"
  proof -
    have "last as \<in> set as" using that len by (intro last_in_set) auto
    with h(3) show ?thesis by (auto intro: order_info)
  qed
  then obtain s' where s': "linkTaskAccesses avl (Suc d) t s = Inr s'"
    using link_ex [OF h(1) t n] h(4) by fastforce
  show ?thesis
  proof (cases "ts = []")
    case True
    with link_first [OF _ _ n s'] h(1) t len ex
    have l: "holds_chain r par extra [t] [all_received (entered a)] s'" "delayed s' = []"
      "satisfied_tasks s' = satisfied_tasks s" "ds_readied s' = ds_readied s" "held t s'"
      using d h(4) by auto
    have "accounted [t] [all_received (entered a)] {#}" by (simp add: accounted_def)
    moreover have "tokens_in_order (all_received (entered a))" by (simp add: tokens_in_order_def)
    moreover have "same_access_kind a (all_received (entered a))" by (simp add: same_access_kind_def)
    ultimately show ?thesis using s' l True
      by (intro exI [of _ s'] exI [of _ "[all_received (entered a)]"]) (simp add: cascading_def)
  next
    case False
    let ?prev = "last as" and ?k = "length ts - 1"
    let ?prev' = "discounted_after ?prev (linked_to t ?prev)"
    let ?as = "butlast as @ [?prev', entered a]"
    have as: "as \<noteq> []" using False len by auto
    then have in_as: "?prev \<in> set as" by simp
    from link_next [OF h(1) False t n refl s']
    have l: "holds_chain r par extra (ts @ [t]) ?as s'" "delayed s' = passed_on ?prev (linked_to t ?prev) r"
      "satisfied_tasks s' = satisfied_tasks s" "ds_readied s' = ds_readied s" "\<forall>x. held x s \<longrightarrow> held x s'"
      using d by auto
    have k: "?k < length ts" "as ! ?k = ?prev" using False as len by (auto simp: last_conv_nth)
    have "chain_access (ts ! ?k) (successor ts ?k) (as ! ?k)" using h(1) k(1) by (simp add: holds_chain_def)
    moreover have "successor ts ?k = None" using False by (cases ts) (auto simp: successor_def)
    ultimately have prev: "fa_next ?prev = None" using k by (simp add: chain_access_def)
    have acc: "accounted (ts @ [t]) ?as ({#} + mset (delayed s'))"
      unfolding l(2) by (rule accounted_link [OF h(2) len False _ _ refl prev fr]) (use t in auto)
    have "tokens_in_order ?prev'" using h(3) in_as order_cong [of ?prev' ?prev] by simp
    moreover have "tokens_in_order (entered a)" using fr by (simp add: tokens_in_order_def)
    ultimately have ord: "\<forall>a \<in> set ?as. tokens_in_order a" using h(3) by (auto dest: in_set_butlastD)
    have "(ts @ [t]) ! Suc ?k = t" "successor (ts @ [t]) ?k = Some t" using False by (auto simp: successor_def nth_append)
    then have car: "delayed s' = [] \<or> Suc ?k < length (ts @ [t]) \<and> (\<exists>u. delayed s' = [u] \<and> token_carrier r ((ts @ [t]) ! Suc ?k) u)"
      unfolding l(2) by (intro passed_on_carrier) simp
    have old: "same_access_kind (as ! j) (?as ! j) \<and> enforces (?as ! j) = enforces (as ! j)" if "j < length ts" for j
    proof -
      have "enforces (linked_to t ?prev) = enforces ?prev" by (simp add: enforces_def)
      then have p: "same_access_kind ?prev ?prev'" "enforces ?prev' = enforces ?prev" by (simp_all add: same_access_kind_def)
      have "j < ?k \<or> j = ?k" using that by auto
      then consider "j < ?k" | "j = ?k" by blast
      then show ?thesis
      proof cases
        case 1
        then show ?thesis using len by (simp add: nth_append nth_butlast same_access_kind_def)
      next
        case 2
        then show ?thesis using len p k by (simp add: nth_append)
      qed
    qed
    have new: "?as ! length ts = entered a" using len False by (cases "length ts") (auto simp: nth_append)
    have "cascading r par extra (ts @ [t]) ?as ?k s'"
      using l(1,5) acc ord car h(4) by (simp add: cascading_def)
    then show ?thesis using s' l old new
      by (intro exI [of _ s'] exI [of _ ?as]) (simp add: same_access_kind_def)
  qed
qed

lemma register_settles:
  assumes st: "settled r par ts s" and t: "t \<notin> set (par # ts)" "unlinked_task par t s" "held t s"
    and r: "dr_startAddress r \<noteq> 0" and ty: "type \<noteq> REDUCTION_ACCESS_TYPE" and sy: "symbol < 64"
  shows "\<exists>ready s'. registerTaskDataAccesses_fragmented avl (Suc d) t
      (register_access_fragmented avl t type weak (dr_startAddress r) (dr_length r) symbol index rindex) s = Inr (ready, s') \<and>
    settled r par (ts @ [t]) s' \<and> ready = ready_in t s' \<and> ds_readied s' = ds_readied s \<and>
    fa_type (access_in t s') = type \<and> \<not> fa_complete (access_in t s') \<and>
    (\<forall>u \<in> set ts. fa_type (access_in u s') = fa_type (access_in u s) \<and>
       fa_complete (access_in u s') = fa_complete (access_in u s) \<and> ready_in u s' = ready_in u s)"
proof -
  define extra :: "task_ref \<Rightarrow> int" where "extra = (\<lambda>u. if u = t then 2 else 0)"
  have ex: "extra t = 2" "u \<noteq> t \<Longrightarrow> extra u = 0" for u by (simp_all add: extra_def)
  obtain as where as: "as = map (\<lambda>t. access_in t s) ts" "holds_chain r par (\<lambda>_. 0) ts as s" "accounted ts as {#}"
    "length as = length ts" "\<forall>a \<in> set as. tokens_in_order a" "delayed s = []" "satisfied_tasks s = []" "\<forall>t \<in> set ts. held t s"
    using settledD [OF st] by blast
  have rok: "region_ok r" using as(2) by (simp add: holds_chain_def)
  have h: "holds_chain r par extra ts as s" by (rule holds_chain_extra [OF as(2)]) (use t(1) in \<open>auto simp: extra_def\<close>)
  obtain s1 where s1: "register_access_fragmented avl t type weak (dr_startAddress r) (dr_length r) symbol index rindex s = Inr s1"
    using register_ex [OF t(2) rok r sy] by blast
  let ?s = "with_task t (increasePredecessors 2) s1"
  from register_newcomer [OF t(2) rok r ty s1, where extra = extra, OF ex(1)] t h
  obtain p a where n: "newcomer r par extra t p a ?s" "ds_hp s1 = ds_hp s" "ds_readied s1 = ds_readied s" "fa_type a = type"
    "\<forall>x. held x ?s = held x s" and h1: "holds_chain r par extra ts as ?s" by blast
  have nodes: "rm_nodes (map_in t access_type s1) \<noteq> []"
    using n(1) shared_eqD(1) [of ?s s1 t access_type] by (auto simp: newcomer_def increasePredecessors_def)
  have hl: "\<forall>x \<in> set (ts @ [t]). held x ?s" using n(5) as(8) t(3) by auto
  have d0: "delayed ?s = []" using n(2) as(6) by simp
  from link_cascades [OF h1 as(3,5) hl d0 t(1) n(1) ex(1), of d] obtain s2 as2 where
    l: "linkTaskAccesses avl (Suc d) t ?s = Inr s2" "cascading r par extra (ts @ [t]) as2 (length ts - 1) s2"
    "satisfied_tasks s2 = satisfied_tasks ?s" "ds_readied s2 = ds_readied ?s"
    "\<forall>j < length ts. same_access_kind (as ! j) (as2 ! j) \<and> enforces (as2 ! j) = enforces (as ! j)" "same_access_kind a (as2 ! length ts)" by blast
  from cascade_ends [OF l(2), of d] obtain s3 as3 where
    e: "processDelayedOperations avl (Suc d) s2 = Some (Inr s3)" "holds_chain r par extra (ts @ [t]) as3 s3"
    "accounted (ts @ [t]) as3 {#}" "delayed s3 = []" "\<forall>t \<in> set (ts @ [t]). held t s3" "ds_readied s3 = ds_readied s2"
    "\<forall>j < length (ts @ [t]). same_access_kind (as2 ! j) (as3 ! j) \<and> (j \<le> length ts - 1 \<longrightarrow> as3 ! j = as2 ! j)"
    "satisfied_tasks s3 = satisfied_tasks s2 @ released_tasks extra (ts @ [t]) as2 as3 (Suc (length ts - 1))" by blast
  have "released_tasks extra (ts @ [t]) as2 as3 (Suc (length ts - 1)) = []"
    using ex(1) by (cases ts) (auto simp: released_tasks_def nth_append)
  then have none: "satisfied_tasks s3 = []" using e(8) l(3) n(2) as(7) by simp
  let ?s3 = "handleRemovableTasks (processSatisfiedOriginators_fragmented s3)"
  obtain ready s' where fin: "registration_ends t ?s3 = (ready, s')" by (cases "registration_ends t ?s3") auto
  have at: "length ts < length (ts @ [t])" "t = (ts @ [t]) ! length ts" by simp_all
  note f = registration_ends_chain [OF flushed_chain [OF e(2)] at ex fin]
  have set': "settled r par (ts @ [t]) s'"
    using settledI [OF f(1) e(3)] e(4,5) f(4,5) by (simp add: flushed_views flushed_held)
  have acc: "access_in ((ts @ [t]) ! j) s' = as3 ! j" if "j < length (ts @ [t])" for j using chain_access_in [OF f(1) that] .
  have tt: "access_in t s' = as3 ! length ts" "same_access_kind a (as3 ! length ts)"
    using acc [OF at(1)] e(7) l(6) by (auto simp: same_access_kind_def)
  have "ready = ready_in t s'" using f(3) tt(1) by (auto simp: enforces_def ready_in_def)
  moreover have "ds_readied s' = ds_readied s" using shared_eqD(8) [OF f(2)] none e(6) l(4) n(3) by (simp add: flushed_views with_task_def)
  moreover have "fa_type (access_in t s') = type" "\<not> fa_complete (access_in t s')"
    using tt n(1,4) by (simp_all add: same_access_kind_def newcomer_def fresh_access_def)
  moreover have "fa_type (access_in u s') = fa_type (access_in u s) \<and>
       fa_complete (access_in u s') = fa_complete (access_in u s) \<and> ready_in u s' = ready_in u s" if u: "u \<in> set ts" for u
  proof -
    obtain j where j: "j < length ts" "u = ts ! j" using u by (metis in_set_conv_nth)
    have "as3 ! j = as2 ! j" using e(7) j by simp
    moreover have "access_in u s' = as3 ! j" using acc [of j] j by (simp add: nth_append)
    moreover have "access_in u s = as ! j" using as(1) j by simp
    ultimately show ?thesis using l(5) j by (auto simp: same_access_kind_def enforces_def ready_in_def)
  qed
  ultimately show ?thesis
    using s1 nodes l(1) e(1) fin set'
    by (intro exI [of _ ready] exI [of _ s'])
      (simp add: registerTaskDataAccesses_fragmented_def registration_links_def
        processDelayedOperationsSatisfiedOriginatorsAndRemovableTasks_def returned_def)
qed

end

end
