(* ===== verification/N6_FragmentedRuns.thy ===== *)
theory N6_FragmentedRuns
  imports N6_FragmentedSerial
begin

text \<open>
  Executions of the default dependency system by what matters of them: for each access its type and the
  tokens it has, for each CPU the tokens that its delayed operations carry. Each rule says that a step of
  the system of \<open>N6_FragmentedSystem\<close> can be taken and what it leads to. With the rules an execution
  is put together step by step.
\<close>

section \<open>Shapes\<close>

record access_shape =
  sh_type :: DataAccessType
  sh_weak :: bool
  sh_complete :: bool
  sh_tokens :: "token list"

definition tokens :: "token list" where
  "tokens = [Read, Write, Concurrent, Info, Topmost, TopLevel]"

lemma in_tokens [simp]: "x \<in> set tokens"
  by (cases x) (simp_all add: tokens_def)

definition shape_of :: "DataAccess \<Rightarrow> access_shape" where
  "shape_of a = \<lparr>sh_type = fa_type a, sh_weak = fa_weak a, sh_complete = fa_complete a, sh_tokens = filter (\<lambda>x. received x a) tokens\<rparr>"

fun shape_passes :: "access_shape \<Rightarrow> token \<Rightarrow> bool" where
  "shape_passes a Read = (Read \<in> set (sh_tokens a) \<and> (sh_type a = READ_ACCESS_TYPE \<or> sh_complete a))"
| "shape_passes a Write = (Write \<in> set (sh_tokens a) \<and> sh_complete a)"
| "shape_passes a Concurrent = (Concurrent \<in> set (sh_tokens a) \<and> (sh_type a = CONCURRENT_ACCESS_TYPE \<or> sh_complete a))"
| "shape_passes a Info =
     (Info \<in> set (sh_tokens a) \<and> (sh_type a \<noteq> WRITE_ACCESS_TYPE \<and> sh_type a \<noteq> READWRITE_ACCESS_TYPE \<or> sh_complete a))"
| "shape_passes a Topmost = ({Topmost, Read, Write, Info} \<subseteq> set (sh_tokens a) \<and> sh_complete a)"
| "shape_passes a TopLevel = (TopLevel \<in> set (sh_tokens a))"

lemma shape_of_simps [simp]:
  "sh_type (shape_of a) = fa_type a" "sh_weak (shape_of a) = fa_weak a" "sh_complete (shape_of a) = fa_complete a"
  "x \<in> set (sh_tokens (shape_of a)) \<longleftrightarrow> received x a"
  by (simp_all add: shape_of_def)

lemma shape_passes_of [simp]: "shape_passes (shape_of a) = (\<lambda>x. passes x a)"
proof
  show "shape_passes (shape_of a) x = passes x a" for x by (cases x) auto
qed

definition shape_given :: "access_shape \<Rightarrow> access_shape \<Rightarrow> token list" where
  "shape_given a a' = filter (\<lambda>x. shape_passes a' x \<and> \<not> shape_passes a x) tokens"

definition shape_gain :: "token list \<Rightarrow> access_shape \<Rightarrow> access_shape" where
  "shape_gain X a = a\<lparr>sh_tokens := filter (\<lambda>x. x \<in> set (sh_tokens a) \<or> x \<in> set X) tokens\<rparr>"

definition shape_done :: "access_shape \<Rightarrow> access_shape" where
  "shape_done a = a\<lparr>sh_complete := True\<rparr>"

definition shape_in_order :: "access_shape \<Rightarrow> bool" where
  "shape_in_order a \<longleftrightarrow> (Write \<in> set (sh_tokens a) \<and> sh_complete a \<longrightarrow> Info \<in> set (sh_tokens a))"

definition shape_removable :: "access_shape \<Rightarrow> bool" where
  "shape_removable a \<longleftrightarrow> {Topmost, Read, Write, Info} \<subseteq> set (sh_tokens a) \<and> sh_complete a"

definition shape_satisfied :: "access_shape \<Rightarrow> bool" where
  "shape_satisfied a \<longleftrightarrow> Info \<in> set (sh_tokens a) \<and>
     (if sh_type a = READ_ACCESS_TYPE then Read \<in> set (sh_tokens a)
      else if sh_type a = CONCURRENT_ACCESS_TYPE then Concurrent \<in> set (sh_tokens a)
      else {Read, Write} \<subseteq> set (sh_tokens a))"

definition op_view :: "UpdateOperation \<Rightarrow> task_ref \<times> token list" where
  "op_view u = (dl_task (uo_target u), filter (\<lambda>x. carries x u) tokens)"

definition sends :: "task_ref option \<Rightarrow> token list \<Rightarrow> (task_ref \<times> token list) list" where
  "sends to X = (case to of None \<Rightarrow> [] | Some t \<Rightarrow> if X = [] then [] else [(t, X)])"

lemma shape_changes [simp]:
  "shape_of (discounted_after a a') = shape_of a'" "shape_of (completed a) = shape_done (shape_of a)"
  "shape_of (linked_to t a) = shape_of a" "shape_of (entered a) = shape_of a"
  by (simp_all add: shape_of_def shape_done_def)

lemma shape_of_gain: "op_view u = (t, X) \<Longrightarrow> shape_of (gain u a) = shape_gain X (shape_of a)"
  by (auto simp: shape_of_def shape_gain_def op_view_def)

lemma shape_removable_of: "plain a \<Longrightarrow> is_removable a \<longleftrightarrow> shape_removable (shape_of a) \<and> (\<not> fa_inBottomMap a \<or> fa_next a \<noteq> None)"
  by (auto simp: is_removable_def shape_removable_def plain_def)

lemma shape_satisfied_of: "plain a \<Longrightarrow> satisfied a = shape_satisfied (shape_of a)"
  by (simp add: satisfied_plain shape_satisfied_def)

lemma shape_in_order_of [simp]: "shape_in_order (shape_of a) = info_before_write a"
  by (simp add: shape_in_order_def info_before_write_def)

lemma op_view_empty: "op_view u = (t, X) \<Longrightarrow> X \<noteq> [] \<Longrightarrow> \<not> UpdateOperation_empty u"
proof -
  assume "op_view u = (t, X)" "X \<noteq> []"
  then have "\<not> (\<forall>x. \<not> carries x u)" by (auto simp: op_view_def filter_empty_conv)
  then show ?thesis unfolding all_tokens by (auto simp: UpdateOperation_empty_def)
qed

lemma passed_on_view:
  assumes "fa_next a' = map_option to_access to" "fa_next a = fa_next a'"
  shows "map op_view (passed_on a a' r) = sends to (shape_given (shape_of a) (shape_of a'))"
  using assms by (cases to) (auto simp: passed_on_def sends_def shape_given_def gives_def op_view_def filter_empty_conv)

lemma passed_on_link_view:
  assumes "fa_next a = None"
  shows "map op_view (passed_on a (linked_to t a) r) = sends (Some t) (filter (shape_passes (shape_of a)) tokens)"
  using assms by (auto simp: passed_on_def sends_def gives_def op_view_def filter_empty_conv)

section \<open>Runs\<close>

definition future_task :: "task_ref \<Rightarrow> task_ref \<Rightarrow> access_state \<Rightarrow> bool" where
  "future_task par t s \<longleftrightarrow> unlinked_task par t s \<and> t_flags (ds_tasks s t) = 0"

lemma untouched_future: "untouched t s s' \<Longrightarrow> future_task par t s \<Longrightarrow> future_task par t s'"
  by (simp add: untouched_def future_task_def unlinked_task_def)

lemma on_cpu_tasks [simp]:
  "held t (on_cpu c S) = held t (fs_state S)" "future_task par t (on_cpu c S) = future_task par t (fs_state S)"
  "unlinked_task par t (on_cpu c S) = unlinked_task par t (fs_state S)"
  by (simp_all add: on_cpu_def held_def future_task_def unlinked_task_def map_in_def bottom_in_def parent_of_def)

definition run_state ::
  "avl_ops \<Rightarrow> nat \<Rightarrow> cpu_ref list \<Rightarrow> DataAccessRegion \<Rightarrow> task_ref \<Rightarrow> task_ref list \<Rightarrow> access_shape list \<Rightarrow>
     (cpu_ref \<Rightarrow> (task_ref \<times> token list) list) \<Rightarrow> (cpu_ref \<times> task_ref) option \<Rightarrow> frag_system \<Rightarrow> bool" where
  "run_state avl d cpus r par ts shs q reg S \<longleftrightarrow>
     frag_reachable avl (Suc d) cpus r par S \<and> fs_order S = ts \<and> fs_registering S = reg \<and>
     (\<exists>as. frag_inv cpus r par S as \<and> map shape_of as = shs) \<and> (\<forall>t. held t (fs_state S)) \<and>
     (\<forall>t. t \<notin> set (par # ts) \<longrightarrow> future_task par t (fs_state S)) \<and>
     (\<forall>c. map op_view (cd_delayedOperations (fs_hp S c)) = q c)"

lemma reachable_step: "frag_reachable avl d cpus r par S \<Longrightarrow> frag_step avl d cpus r par S S' \<Longrightarrow> frag_reachable avl d cpus r par S'"
  unfolding frag_reachable_def by (meson rtranclp.rtrancl_into_rtrancl)

lemma run_access:
  assumes "run_state avl d cpus r par ts shs q reg S" "i < length ts"
  shows "shape_of (access_of (ts ! i) S) = shs ! i"
  using assms by (auto simp: run_state_def frag_inv_def chain_access_of) (simp add: holds_chain_def)

text \<open>The end of an operation of a CPU, which leaves the CPU idle.\<close>

lemma run_flush:
  assumes run: "run_state avl d cpus r par ts shs q reg S" and c: "c \<in> set cpus" "q c = []" "map_option fst reg \<noteq> Some c"
    and cpus: "distinct cpus"
  shows "\<exists>S'. run_state avl d cpus r par ts shs q reg S' \<and> idle_cpu c S'"
proof -
  let ?s = "handleRemovableTasks (processSatisfiedOriginators_fragmented (on_cpu c S))" and ?S = "resume c (handleRemovableTasks (processSatisfiedOriginators_fragmented (on_cpu c S))) S"
  have q: "cd_delayedOperations (fs_hp S c) = []" using run c(2) by (auto simp: run_state_def dest: spec [of _ c])
  have "frag_step avl (Suc d) cpus r par S ?S"
    by (rule frag_step.flush [OF c(1) q]) (use run c(3) in \<open>simp_all add: run_state_def\<close>)
  then have "frag_reachable avl (Suc d) cpus r par ?S" using run reachable_step by (auto simp: run_state_def)
  moreover have "frag_inv cpus r par ?S as" if "frag_inv cpus r par S as" for as using flush_keeps_inv [OF that cpus c(1) refl] .
  moreover have "held t (fs_state ?S)" for t using run by (simp add: run_state_def resume_def flushed_held)
  moreover have "future_task par t (fs_state ?S)" if "future_task par t (fs_state S)" for t
    using untouched_future [OF flushed_untouched [of t "on_cpu c S"], of par] that by (simp add: resume_def)
  ultimately show ?thesis using run c q
    by (intro exI [of _ ?S])
      (auto simp: run_state_def resume_def flushed_views idle_cpu_def CPUDependencyData_empty_def)
qed

context ordered_set
begin

lemma run_finish:
  assumes run: "run_state avl d cpus r par ts shs q reg S" and c: "c \<in> set cpus" "q c = []" "map_option fst reg \<noteq> Some c"
    and cpus: "distinct cpus" and i: "i < length ts" "\<forall>c'. reg \<noteq> Some (c', ts ! i)" "\<not> sh_complete (shs ! i)"
    and free: "sh_weak (shs ! i) \<or> shape_satisfied (shs ! i)" and ord: "shape_in_order (shape_done (shs ! i))"
  shows "\<exists>S'. run_state avl d cpus r par ts (shs[i := shape_done (shs ! i)])
    (q(c := sends (successor ts i) (shape_given (shs ! i) (shape_done (shs ! i))))) reg S'"
proof -
  obtain S1 where S1: "run_state avl d cpus r par ts shs q reg S1" "idle_cpu c S1" using run_flush [OF run c cpus] by blast
  obtain as where as: "frag_inv cpus r par S1 as" "map shape_of as = shs" using S1 by (auto simp: run_state_def)
  have o: "fs_order S1 = ts" "fs_registering S1 = reg" "\<forall>t. held t (fs_state S1)" using S1 by (simp_all add: run_state_def)
  have h: "holds_chain r par (extra_of S1) ts as (fs_state S1)" using as(1) o(1) by (simp add: frag_inv_def)
  have sh: "shape_of (as ! i) = shs ! i" using as(2) i(1) h by (auto simp: holds_chain_def)
  have acc: "access_of (ts ! i) S1 = as ! i" using chain_access_of [OF h i(1)] .
  have nc: "\<not> fa_complete (as ! i)" using i(3) sh by (metis shape_of_simps(3))
  have ord': "info_before_write (completed (as ! i))" using ord sh by (metis shape_in_order_of shape_changes(2))
  obtain s1 where s1: "unregister_section avl (Suc d) (ts ! i) (on_cpu c S1) = Inr s1"
    using finish_in_chain_ex [of r par "extra_of S1" ts as "on_cpu c S1", OF _ i(1) nc ord'] h o(3) by auto
  let ?S = "resume c s1 S1"
  have w: "fa_weak (as ! i) \<or> satisfied (as ! i)" using free shape_satisfied_of [OF chain_siblings(2) [OF h i(1)]] sh by (metis shape_of_simps(2))
  have step: "frag_step avl (Suc d) cpus r par S1 ?S"
    by (rule frag_step.finish [OF c(1) S1(2) _ _ _ _ s1]) (use o i acc nc w in auto)
  from finish_keeps_inv [OF as(1) cpus c(1) S1(2) _ _ _ s1] o i acc nc
  have f: "frag_inv cpus r par ?S (as[i := discounted_after (as ! i) (completed (as ! i))])"
    "delayed s1 = passed_on (as ! i) (completed (as ! i)) r" "\<forall>t. held t s1" "\<forall>t. t \<noteq> ts ! i \<longrightarrow> untouched t (fs_state S1) s1" by auto
  have nx: "fa_next (completed (as ! i)) = map_option to_access (successor ts i)" "fa_next (as ! i) = fa_next (completed (as ! i))"
    using h i(1) by (auto simp: holds_chain_def chain_access_def completed_def)
  have q: "map op_view (delayed s1) = sends (successor ts i) (shape_given (shs ! i) (shape_done (shs ! i)))"
    using passed_on_view [OF nx] f(2) sh by simp
  have "future_task par t s1" if "t \<notin> set (par # ts)" for t
    using S1(1) that f(4) i(1) untouched_future by (metis list.set_intros(2) nth_mem run_state_def)
  moreover have "frag_reachable avl (Suc d) cpus r par ?S" using S1(1) reachable_step step by (auto simp: run_state_def)
  moreover have "map shape_of (as[i := discounted_after (as ! i) (completed (as ! i))]) = shs[i := shape_done (shs ! i)]"
    using as(2) sh by (simp add: map_update)
  ultimately show ?thesis
    using f(1,3) o S1(1) q by (intro exI [of _ ?S]) (auto simp: run_state_def resume_def)
qed

lemma run_operation_target:
  assumes run: "run_state avl d cpus r par ts shs q reg S" and c: "c \<in> set cpus" and q: "q c = (ts ! i, X) # rest" and i: "i < length ts"
    and as: "frag_inv cpus r par S as"
  obtains u us where "cd_delayedOperations (fs_hp S c) = u # us" "op_view u = (ts ! i, X)" "map op_view us = rest"
    "uo_target u = to_access (ts ! i)" "good_operation r ts u" "\<forall>x. \<not> (received x (as ! i) \<and> carries x u)"
proof -
  have o: "fs_order S = ts" using run by (simp add: run_state_def)
  have "map op_view (cd_delayedOperations (fs_hp S c)) = (ts ! i, X) # rest" using run q by (simp add: run_state_def)
  then obtain u us where u: "cd_delayedOperations (fs_hp S c) = u # us" "op_view u = (ts ! i, X)" "map op_view us = rest" by auto
  have h: "holds_chain r par (extra_of S) ts as (fs_state S)" and acc: "accounted ts as (pending cpus S)"
    using as o by (simp_all add: frag_inv_def)
  have g: "good_operation r ts u" using operation_target(1) [OF as c u(1)] o by simp
  have t: "uo_target u = to_access (ts ! i)" using operation_target(2) [OF as c u(1)] u(2) by (auto simp: op_view_def)
  have "ts ! i \<in> set (tl ts)" using g t by (auto simp: good_operation_def)
  moreover have "distinct ts" using h by (simp add: holds_chain_def)
  ultimately obtain k where k: "i = Suc k" using i by (cases i; cases ts) auto
  have "u \<in># pending cpus S" using c u(1) unfolding pending_def by (induction cpus) auto
  then obtain Q where Q: "pending cpus S = add_mset u Q" by (metis insert_DiffM)
  have "\<not> (received x (as ! i) \<and> carries x u)" for x
  proof -
    have "of_bool (received x (as ! i)) + travelling x (ts ! i) (pending cpus S) = (of_bool (passes x (as ! k)) :: nat)"
      using acc i k unfolding accounted_def by blast
    then show ?thesis using Q t by (auto simp: of_bool_def split: if_splits)
  qed
  with u t g that show thesis by blast
qed

lemma run_operation:
  assumes run: "run_state avl d cpus r par ts shs q reg S" and c: "c \<in> set cpus" and cpus: "distinct cpus"
    and q: "q c = (ts ! i, X) # rest" and i: "i < length ts" and X: "X \<noteq> []"
    and ok: "\<not> shape_removable (shs ! i)" "shape_in_order (shape_gain X (shs ! i))"
  shows "\<exists>S'. run_state avl d cpus r par ts (shs[i := shape_gain X (shs ! i)])
    (q(c := rest @ sends (successor ts i) (shape_given (shs ! i) (shape_gain X (shs ! i))))) reg S'"
proof -
  obtain as where as: "frag_inv cpus r par S as" "map shape_of as = shs" using run by (auto simp: run_state_def)
  have o: "fs_order S = ts" "fs_registering S = reg" "\<forall>t. held t (fs_state S)" using run by (simp_all add: run_state_def)
  obtain u us where u: "cd_delayedOperations (fs_hp S c) = u # us" "op_view u = (ts ! i, X)" "map op_view us = rest"
    "uo_target u = to_access (ts ! i)" "good_operation r ts u" "\<forall>x. \<not> (received x (as ! i) \<and> carries x u)"
    using run_operation_target [OF run c q i as(1)] by blast
  have h: "holds_chain r par (extra_of S) ts as (fs_state S)" using as(1) o(1) by (simp add: frag_inv_def)
  have sh: "shape_of (as ! i) = shs ! i" using as(2) i h by (auto simp: holds_chain_def)
  have g: "shape_of (gain u (as ! i)) = shape_gain X (shs ! i)" using shape_of_gain [OF u(2)] sh by simp
  have ne: "\<not> UpdateOperation_empty u" using op_view_empty [OF u(2)] X by simp
  have nd: "\<not> fa_discounted (as ! i)"
    using h i ok(1) shape_removable_of [OF chain_siblings(2) [OF h i]] sh by (simp add: holds_chain_def chain_access_def)
  have ord: "info_before_write (gain u (as ! i))" using ok(2) g by (metis shape_in_order_of)
  obtain s1 where s1: "processUpdateOperation avl (Suc d) u (on_cpu c S) = Inr s1"
    using update_in_chain_ex [of r par "extra_of S" ts as "on_cpu c S", OF _ i u(4) _ _ _ ne u(6) nd ord] h o(3) u(5)
    by (auto simp: good_operation_def)
  then obtain s2 where s2: "delayed_operation_turn avl (Suc d) (on_cpu c S) = Inr s2" using u(1) by (simp add: delayed_operation_turn_def)
  let ?S = "resume c s2 S"
  have step: "frag_step avl (Suc d) cpus r par S ?S" by (rule frag_step.operation [OF c _ s2]) (simp add: u(1))
  from operation_keeps_inv [OF as(1) cpus c u(1) _ _ s2] o i u(4)
  have f: "frag_inv cpus r par ?S (as[i := discounted_after (as ! i) (gain u (as ! i))])"
    "delayed s2 = us @ passed_on (as ! i) (gain u (as ! i)) r" "\<forall>t. held t s2" "\<forall>t. t \<noteq> ts ! i \<longrightarrow> untouched t (fs_state S) s2" by auto
  have nx: "fa_next (gain u (as ! i)) = map_option to_access (successor ts i)" "fa_next (as ! i) = fa_next (gain u (as ! i))"
    using h i by (auto simp: holds_chain_def chain_access_def gain_def)
  have q': "map op_view (delayed s2) = rest @ sends (successor ts i) (shape_given (shs ! i) (shape_gain X (shs ! i)))"
    using passed_on_view [OF nx, of r] f(2) sh g u(3) by simp
  have "future_task par t s2" if "t \<notin> set (par # ts)" for t
    using run that f(4) i untouched_future by (metis list.set_intros(2) nth_mem run_state_def)
  moreover have "frag_reachable avl (Suc d) cpus r par ?S" using run reachable_step step by (auto simp: run_state_def)
  moreover have "map shape_of (as[i := discounted_after (as ! i) (gain u (as ! i))]) = shs[i := shape_gain X (shs ! i)]"
    using as(2) g by (simp add: map_update)
  ultimately show ?thesis
    using f(1,3) o run q' by (intro exI [of _ ?S]) (auto simp: run_state_def resume_def)
qed

text \<open>An operation that comes too late: its target has been discounted.\<close>

lemma run_too_late:
  assumes run: "run_state avl d cpus r par ts shs q reg S" and c: "c \<in> set cpus"
    and q: "q c = (ts ! i, X) # rest" and i: "Suc i < length ts" and X: "X \<noteq> []" and rem: "shape_removable (shs ! i)"
  shows "delayed_operation_turn avl (Suc d) (on_cpu c S) = Inl (AssertFailed ''!dataAccess->hasBeenDiscounted()'')"
proof -
  obtain as where as: "frag_inv cpus r par S as" "map shape_of as = shs" using run by (auto simp: run_state_def)
  have i': "i < length ts" using i by simp
  obtain u us where u: "cd_delayedOperations (fs_hp S c) = u # us" "op_view u = (ts ! i, X)"
    "uo_target u = to_access (ts ! i)" "good_operation r ts u"
    using run_operation_target [OF run c q i' as(1)] by blast
  have h: "holds_chain r par (extra_of S) ts as (on_cpu c S)" using as(1) run by (simp add: frag_inv_def run_state_def)
  have sh: "shape_of (as ! i) = shs ! i" using as(2) i h by (auto simp: holds_chain_def)
  have nx: "fa_next (as ! i) \<noteq> None" using h i by (auto simp: holds_chain_def chain_access_def successor_def)
  have d: "fa_discounted (as ! i)"
    using h i' rem shape_removable_of [OF chain_siblings(2) [OF h i']] sh nx by (simp add: holds_chain_def chain_access_def)
  obtain p where p: "rm_nodes (map_in (ts ! i) access_type (on_cpu c S)) = [(p, r)]" "load (ts ! i, access_type, p) (on_cpu c S) = as ! i"
    using h i' by (auto simp: holds_chain_def chain_node_def)
  have r: "region_ok r" "region_of (ts ! i, access_type, p) (on_cpu c S) = r"
    using h p by (simp_all add: holds_chain_def region_of_def region_at_def)
  have ne: "\<not> UpdateOperation_empty u" using op_view_empty [OF u(2)] X by simp
  then have "processUpdateOperation avl (Suc d) u (on_cpu c S) = Inl (AssertFailed ''!dataAccess->hasBeenDiscounted()'')"
    using u p r d one_access(1) [OF r(1) p(1)]
    by (simp add: processUpdateOperation_def Let_def ended_def continue_def applyUpdateOperationOnAccess_def good_operation_def
        fragmentAccess_def fullyContainedIn_def region_self assert_that_def del: handleDataAccessStatusChanges.simps)
  then show ?thesis using u(1) by (simp add: delayed_operation_turn_def)
qed

lemma run_register:
  assumes run: "run_state avl d cpus r par ts shs q None S" and c: "c \<in> set cpus" "q c = []" and cpus: "distinct cpus"
    and t: "t \<notin> set (par # ts)" and r: "region_ok r" "dr_startAddress r \<noteq> 0" and ty: "type \<noteq> REDUCTION_ACCESS_TYPE"
    and ord: "ts \<noteq> [] \<Longrightarrow> shape_in_order (last shs)"
  shows "\<exists>S'. run_state avl d cpus r par (ts @ [t])
    (shs @ [\<lparr>sh_type = type, sh_weak = weak, sh_complete = False, sh_tokens = (if ts = [] then tokens else [])\<rparr>])
    (q(c := (if ts = [] then [] else sends (Some t) (filter (shape_passes (last shs)) tokens)))) (Some (c, t)) S'"
proof -
  obtain S1 where S1: "run_state avl d cpus r par ts shs q None S1" "idle_cpu c S1" using run_flush [OF run c _ cpus] by auto
  obtain as where as: "frag_inv cpus r par S1 as" "map shape_of as = shs" using S1 by (auto simp: run_state_def)
  have o: "fs_order S1 = ts" "fs_registering S1 = None" "\<forall>t. held t (fs_state S1)" "future_task par t (fs_state S1)"
    using S1 t by (simp_all add: run_state_def)
  have u: "unlinked_task par t (fs_state S1)" and fl: "t_flags (ds_tasks (fs_state S1) t) = 0" using o(4) by (simp_all add: future_task_def)
  define extra :: "task_ref \<Rightarrow> int" where "extra = (\<lambda>u. if u = t then 2 else 0)"
  have h0: "holds_chain r par (extra_of S1) ts as (fs_state S1)" using as(1) o(1) by (simp add: frag_inv_def)
  have h: "holds_chain r par extra ts as (on_cpu c S1)"
    by (rule holds_chain_extra [of r par "extra_of S1"]) (use h0 t o(2) in \<open>auto simp: extra_def extra_of_def\<close>)
  obtain s1 where s1: "register_access_fragmented avl t type weak (dr_startAddress r) (dr_length r) 0 0 0 (on_cpu c S1) = Inr s1"
    using register_ex [of par t "on_cpu c S1" r 0 type weak 0 0] u r by auto
  let ?s = "with_task t (increasePredecessors 2) s1"
  have u1: "unlinked_task par t (on_cpu c S1)" using u by simp
  have ex: "extra t = 2" by (simp add: extra_def)
  from register_newcomer [OF u1 r ty s1, of extra, OF ex] t h
  obtain p a where n: "newcomer r par extra t p a ?s" "\<forall>x. held x ?s = held x (on_cpu c S1)" "holds_chain r par extra ts as ?s"
    by blast
  have len: "length as = length ts" using h by (simp add: holds_chain_def)
  have last: "shape_of (last as) = last shs" if "ts \<noteq> []" using as(2) that len by (metis last_map length_0_conv)
  have "\<exists>s2. linkTaskAccesses avl (Suc d) t ?s = Inr s2"
    by (rule link_ex [OF n(3) t n(1)]) (use n(2) o(3) ord last in \<open>auto simp flip: shape_in_order_of\<close>)
  then obtain s2 where s2: "registration_links avl (Suc d) t s1 = Inr s2" by (auto simp: registration_links_def)
  let ?S = "(resume c s2 S1)\<lparr>fs_order := fs_order S1 @ [t], fs_registering := Some (c, t)\<rparr>"
  have step: "frag_step avl (Suc d) cpus r par S1 ?S"
    by (rule frag_step.register [OF c(1) S1(2) o(2) _ u ty s1 s2]) (use o t in simp)
  from register_keeps_inv [OF as(1) cpus c(1) S1(2) o(2) _ u r(2) ty s1 s2] o(1) t
  obtain a where a: "fresh_access t a" "fa_type a = type" "fa_weak a = (weak \<and> \<not> isFinal (ds_tasks (fs_state S1) t) \<and> \<not> isTaskloop (ds_tasks (fs_state S1) t))"
    and inv: "frag_inv cpus r par ?S (if ts = [] then [all_received (entered a)]
       else butlast as @ [discounted_after (last as) (linked_to t (last as)), entered a])"
    and d: "delayed s2 = (if ts = [] then [] else passed_on (last as) (linked_to t (last as)) r)"
    and hl: "\<forall>x. held x (fs_state S1) \<longrightarrow> held x s2" and un: "\<forall>x. x \<notin> set (t # par # ts) \<longrightarrow> untouched x (fs_state S1) s2"
    by auto
  have wk: "fa_weak a = weak" using a(3) fl by (simp add: isFinal_def isTaskloop_def)
  have rec: "\<not> received x a" for x using a(1) by (simp add: fresh_access_def)
  have sa: "shape_of a = \<lparr>sh_type = type, sh_weak = weak, sh_complete = False, sh_tokens = []\<rparr>"
    "shape_of (all_received (entered a)) = \<lparr>sh_type = type, sh_weak = weak, sh_complete = False, sh_tokens = tokens\<rparr>"
    using a wk rec by (simp_all add: shape_of_def fresh_access_def)
  have shapes: "map shape_of (if ts = [] then [all_received (entered a)]
       else butlast as @ [discounted_after (last as) (linked_to t (last as)), entered a]) =
     shs @ [\<lparr>sh_type = type, sh_weak = weak, sh_complete = False, sh_tokens = (if ts = [] then tokens else [])\<rparr>]"
  proof (cases "ts = []")
    case True
    then show ?thesis using as(2) len sa by simp
  next
    case False
    then have "as \<noteq> []" using len by auto
    then have "map shape_of (butlast as) @ [shape_of (last as)] = shs" using as(2) by (metis append_butlast_last_id list.simps(8,9) map_append)
    with False sa show ?thesis by simp
  qed
  have q: "map op_view (delayed s2) = (if ts = [] then [] else sends (Some t) (filter (shape_passes (last shs)) tokens))"
  proof (cases "ts = []")
    case False
    have "fa_next (last as) = None"
    proof -
      have "chain_access (ts ! (length ts - 1)) (successor ts (length ts - 1)) (as ! (length ts - 1))"
        using h False by (simp add: holds_chain_def)
      moreover have "successor ts (length ts - 1) = None" using False by (cases ts) (auto simp: successor_def)
      moreover have "as \<noteq> []" using False len by auto
      ultimately show ?thesis using len by (simp add: chain_access_def last_conv_nth)
    qed
    from passed_on_link_view [OF this, of t r] last [OF False] show ?thesis using d False by simp
  qed (simp add: d)
  have "future_task par x s2" if "x \<notin> set (par # ts @ [t])" for x
    using S1(1) un that untouched_future [of x "fs_state S1" s2 par] by (auto simp: run_state_def)
  moreover have "frag_reachable avl (Suc d) cpus r par ?S" using S1(1) reachable_step step by (auto simp: run_state_def)
  moreover have "\<exists>as. frag_inv cpus r par ?S as \<and> map shape_of as =
      shs @ [\<lparr>sh_type = type, sh_weak = weak, sh_complete = False, sh_tokens = (if ts = [] then tokens else [])\<rparr>]"
    using inv shapes by blast
  moreover have "held x s2" for x using hl o(3) by simp
  moreover have "map op_view (cd_delayedOperations (fs_hp S1 c')) = q c'" for c' using S1(1) by (simp add: run_state_def)
  ultimately show ?thesis
    using o(1,2) q by (intro exI [of _ ?S]) (simp add: run_state_def resume_def)
qed

end

lemma run_registered:
  assumes run: "run_state avl d cpus r par ts shs q (Some (c, t)) S" and c: "c \<in> set cpus" "q c = []" and cpus: "distinct cpus"
  shows "\<exists>S'. run_state avl d cpus r par ts shs q None S'"
proof -
  obtain as where as: "frag_inv cpus r par S as" "map shape_of as = shs" using run by (auto simp: run_state_def)
  have o: "fs_order S = ts" "fs_registering S = Some (c, t)" "\<forall>t. held t (fs_state S)"
    "\<forall>t. t \<notin> set (par # ts) \<longrightarrow> future_task par t (fs_state S)" "\<forall>c. map op_view (cd_delayedOperations (fs_hp S c)) = q c"
    "frag_reachable avl (Suc d) cpus r par S"
    using run by (simp_all add: run_state_def)
  have t: "t \<in> set ts" using as(1) o by (auto simp: frag_inv_def)
  have e: "cd_delayedOperations (fs_hp S c) = []" using o(5) c(2) by (metis map_is_Nil_conv)
  let ?s1 = "handleRemovableTasks (processSatisfiedOriginators_fragmented (on_cpu c S))"
  obtain ready s2 where fin: "registration_ends t ?s1 = (ready, s2)" by (cases "registration_ends t ?s1") auto
  let ?S = "(resume c s2 S)\<lparr>fs_registering := None, fs_submitted := fs_submitted S @ (if ready then [t] else [])\<rparr>"
  have step: "frag_step avl (Suc d) cpus r par S ?S" by (rule frag_step.registered [OF c(1) e o(2) refl fin])
  have inv1: "frag_inv cpus r par (resume c ?s1 S) as" by (rule flush_keeps_inv [OF as(1) cpus c(1) refl])
  have "frag_inv cpus r par ((resume c ?s1 S)\<lparr>fs_state := s2, fs_registering := None,
      fs_submitted := fs_submitted (resume c ?s1 S) @ (if ready then [t] else [])\<rparr>) as"
    by (rule registered_keeps_inv [OF inv1]) (use fin o in \<open>simp_all add: resume_def\<close>)
  moreover have s2: "ds_hp s2 = ds_hp ?s1" "held x s2 = held x ?s1" "x \<noteq> t \<Longrightarrow> untouched x ?s1 s2" for x
    using fin by (auto simp: registration_ends_def decreasePredecessors_def Let_def held_def untouched_def with_task_def
        map_in_def bottom_in_def parent_of_def split: if_splits)
  ultimately have inv: "frag_inv cpus r par ?S as" by (cases S) (simp add: resume_def)
  have "future_task par x s2" if "x \<notin> set (par # ts)" for x
  proof -
    have "x \<noteq> t" using that t by auto
    then show ?thesis
      using untouched_trans [OF flushed_untouched s2(3)] untouched_future [of x "on_cpu c S" s2 par] o(4) that by auto
  qed
  moreover have "held x s2" for x using s2(2) o(3) by (simp add: flushed_held)
  ultimately show ?thesis
    using inv as(2) o reachable_step [OF o(6) step] s2(1) e c(2)
    by (intro exI [of _ ?S]) (auto simp: run_state_def resume_def flushed_views)
qed

section \<open>Executions on two CPUs\<close>

text \<open>A parent with tasks that have been created, none of which has an access.\<close>

definition no_accesses :: "DataAccess region_map" where
  "no_accesses = \<lparr>rm_nodes = [], rm_contents = (\<lambda>_. DataAccess_new 0 access_type NO_ACCESS_TYPE False 0 0 0), rm_next = 0\<rparr>"

definition no_entries :: "BottomMapEntry region_map" where
  "no_entries = \<lparr>rm_nodes = [], rm_contents = (\<lambda>_. \<lparr>bm_link = to_access 0, bm_accessType = NO_ACCESS_TYPE\<rparr>), rm_next = 0\<rparr>"

definition example_tasks :: access_state where
  "example_tasks =
     \<lparr>ds_nCpus = 2,
      ds_tasks = (\<lambda>t. Task_new 0
        \<lparr>ti_device_type_id = nanos6_host_device, ti_implementation_count = 1, ti_has_run = True, ti_num_symbols = 0,
         ti_get_priority = None\<rparr> (if t = 0 then None else Some 0) 0),
      ds_structures = (\<lambda>_. \<lparr>td_accesses = no_accesses, td_accessFragments = no_accesses, td_taskwaitFragments = no_accesses,
        td_subaccessBottomMap = no_entries, td_removalBlockers = 0, td_liveTaskwaitFragmentCount = 0\<rparr>),
      ds_reductions = (\<lambda>_. None), ds_nextReduction = 0, ds_hp = CPUDependencyData_new, ds_link = link_locals_new,
      ds_readied = [], ds_disposed = []\<rparr>"

definition example_system :: frag_system where
  "example_system = \<lparr>fs_state = example_tasks, fs_hp = (\<lambda>_. CPUDependencyData_new), fs_order = [], fs_registering = None,
     fs_submitted = []\<rparr>"

definition example_region :: DataAccessRegion where
  "example_region = \<lparr>dr_startAddress = 100, dr_length = 8\<rparr>"

lemma example_region_ok: "region_ok example_region" "dr_startAddress example_region \<noteq> 0"
  by (simp_all add: example_region_def region_ok_def)

lemma example_task:
  "rm_nodes (map_in t access_type example_tasks) = []" "rm_nodes (bottom_in t example_tasks) = []"
  "held t example_tasks" "t \<noteq> 0 \<Longrightarrow> future_task 0 t example_tasks" "ds_hp example_tasks = CPUDependencyData_new"
  by (simp_all add: example_tasks_def map_in_def bottom_in_def no_accesses_def no_entries_def held_def Task_new_def
      future_task_def unlinked_task_def parent_of_def)

definition two_cpus :: "'a \<Rightarrow> 'a \<Rightarrow> 'a \<Rightarrow> cpu_ref \<Rightarrow> 'a" where
  "two_cpus z a b c = (if c = 0 then a else if c = 1 then b else z)"

lemma two_cpus_simps [simp]:
  "two_cpus z a b 0 = a" "two_cpus z a b (Suc 0) = b" "(two_cpus z a b)(0 := x) = two_cpus z x b" "(two_cpus z a b)(Suc 0 := x) = two_cpus z a x"
  by (auto simp: two_cpus_def fun_eq_iff)

abbreviation example_run where
  "example_run avl d ts shs a b reg S \<equiv> run_state avl d [0, 1] example_region 0 ts shs (two_cpus [] a b) reg S"

abbreviation shaped :: "DataAccessType \<Rightarrow> bool \<Rightarrow> bool \<Rightarrow> token list \<Rightarrow> access_shape" where
  "shaped type weak done toks \<equiv> \<lparr>sh_type = type, sh_weak = weak, sh_complete = done, sh_tokens = toks\<rparr>"

lemmas shape_eval = shape_given_def shape_gain_def shape_done_def shape_in_order_def shape_removable_def shape_satisfied_def
  sends_def tokens_def successor_def

lemma example_initial: "example_run avl d [] [] [] [] None example_system"
proof -
  have "frag_initial 0 example_system"
    using example_task by (simp add: frag_initial_def example_system_def example_tasks_def)
  then have "frag_reachable avl (Suc d) [0, 1] example_region 0 example_system" by (auto simp: frag_reachable_def)
  moreover have "frag_inv [0, 1] example_region 0 example_system []"
    using example_task example_region_ok
    by (simp add: frag_inv_def example_system_def holds_chain_def accounted_def pending_def reports_def CPUDependencyData_new_def
        example_tasks_def)
  ultimately show ?thesis
    using example_task by (simp add: run_state_def example_system_def CPUDependencyData_new_def two_cpus_def)
qed

context ordered_set
begin

text \<open>A task is registered and its operations, if any, are processed by the CPU that registers it.\<close>

lemma example_first:
  assumes "type \<noteq> REDUCTION_ACCESS_TYPE"
  shows "\<exists>S. example_run avl d [1] [shaped type weak False tokens] [] [] None S"
proof -
  obtain S1 where "example_run avl d [1] [shaped type weak False tokens] [] [] (Some (0, 1)) S1"
    using run_register [OF example_initial [of avl d], of 0 1 type weak] assms example_region_ok by auto
  from run_registered [OF this] show ?thesis by simp
qed

lemma example_next:
  assumes run: "example_run avl d ts shs [] [] None S" and ts: "ts \<noteq> []" "t \<notin> set (0 # ts)" "length shs = length ts"
    and ty: "type \<noteq> REDUCTION_ACCESS_TYPE" and ord: "shape_in_order (last shs)"
    and X: "X = filter (shape_passes (last shs)) tokens" "X \<noteq> []"
  shows "\<exists>S'. example_run avl d (ts @ [t]) (shs @ [shaped type weak False X]) [] [] None S'"
proof -
  obtain S1 where S1: "example_run avl d (ts @ [t]) (shs @ [shaped type weak False []]) [(t, X)] [] (Some (0, t)) S1"
    using run_register [OF run, of 0 t type weak] ts ty ord X example_region_ok by (auto simp: sends_def)
  have g: "shape_gain X (shaped type weak False []) = shaped type weak False X"
    using X by (auto simp: shape_gain_def intro!: filter_cong)
  have su: "successor (ts @ [t]) (length ts) = None" by (simp add: successor_def)
  have "\<exists>S'. example_run avl d (ts @ [t]) (shs @ [shaped type weak False X]) [] [] (Some (0, t)) S'"
    using run_operation [OF S1, of 0 "length ts" X "[]"] X(2) ts(3) g su
    by (simp add: nth_append shape_removable_def shape_in_order_def sends_def list_update_append)
  then show ?thesis using run_registered by fastforce
qed

text \<open>An execution in which an operation is overtaken by the completion of its target.\<close>

lemma late_registered:
  "\<exists>S. example_run avl d [1, 2, 3, 4]
      [shaped READ_ACCESS_TYPE False False tokens, shaped CONCURRENT_ACCESS_TYPE True False [Read, Info, TopLevel],
       shaped WRITE_ACCESS_TYPE False False [Info, TopLevel], shaped READ_ACCESS_TYPE False False [TopLevel]] [] [] None S"
proof -
  obtain S1 where S1: "example_run avl d [1] [shaped READ_ACCESS_TYPE False False tokens] [] [] None S1"
    using example_first [of READ_ACCESS_TYPE d False] by auto
  have "\<exists>S. example_run avl d ([1] @ [2]) ([shaped READ_ACCESS_TYPE False False tokens] @
      [shaped CONCURRENT_ACCESS_TYPE True False [Read, Info, TopLevel]]) [] [] None S"
    by (rule example_next [OF S1]) (simp_all add: shape_eval)
  then obtain S2 where S2: "example_run avl d [1, 2] [shaped READ_ACCESS_TYPE False False tokens,
      shaped CONCURRENT_ACCESS_TYPE True False [Read, Info, TopLevel]] [] [] None S2" by auto
  have "\<exists>S. example_run avl d ([1, 2] @ [3]) ([shaped READ_ACCESS_TYPE False False tokens,
      shaped CONCURRENT_ACCESS_TYPE True False [Read, Info, TopLevel]] @ [shaped WRITE_ACCESS_TYPE False False [Info, TopLevel]]) [] [] None S"
    by (rule example_next [OF S2]) (simp_all add: shape_eval)
  then obtain S3 where S3: "example_run avl d [1, 2, 3] [shaped READ_ACCESS_TYPE False False tokens,
      shaped CONCURRENT_ACCESS_TYPE True False [Read, Info, TopLevel], shaped WRITE_ACCESS_TYPE False False [Info, TopLevel]] [] [] None S3"
    by auto
  have "\<exists>S. example_run avl d ([1, 2, 3] @ [4]) ([shaped READ_ACCESS_TYPE False False tokens,
      shaped CONCURRENT_ACCESS_TYPE True False [Read, Info, TopLevel], shaped WRITE_ACCESS_TYPE False False [Info, TopLevel]] @
      [shaped READ_ACCESS_TYPE False False [TopLevel]]) [] [] None S"
    by (rule example_next [OF S3]) (simp_all add: shape_eval)
  then show ?thesis by simp
qed

lemma late_run:
  "\<exists>S. example_run avl d [1, 2, 3, 4]
      [shaped READ_ACCESS_TYPE False True tokens, shaped CONCURRENT_ACCESS_TYPE True True tokens,
       shaped WRITE_ACCESS_TYPE False True [Read, Write, Info, Topmost, TopLevel],
       shaped READ_ACCESS_TYPE False False [TopLevel]]
      [(3, [Concurrent])] [(4, [Read, Write, Info, Topmost])] None S"
proof -
  let ?ts = "[1, 2, 3, 4]" and ?r = "shaped READ_ACCESS_TYPE False" and ?c = "shaped CONCURRENT_ACCESS_TYPE True"
    and ?w = "shaped WRITE_ACCESS_TYPE False" and ?l = "shaped READ_ACCESS_TYPE False False [TopLevel]"
  obtain S0 where S0: "example_run avl d ?ts [?r False tokens, ?c False [Read, Info, TopLevel], ?w False [Info, TopLevel], ?l] [] [] None S0"
    using late_registered by blast
  obtain S1 where S1: "example_run avl d ?ts [?r True tokens, ?c False [Read, Info, TopLevel], ?w False [Info, TopLevel], ?l]
      [(2, [Write, Concurrent, Topmost])] [] None S1"
    using run_finish [OF S0, of 0 0] by (auto simp: shape_eval)
  obtain S2 where S2: "example_run avl d ?ts [?r True tokens, ?c False tokens, ?w False [Info, TopLevel], ?l]
      [(3, [Concurrent])] [] None S2"
    using run_operation [OF S1, of 0 1 "[Write, Concurrent, Topmost]" "[]"] by (auto simp: shape_eval)
  obtain S3 where S3: "example_run avl d ?ts [?r True tokens, ?c True tokens, ?w False [Info, TopLevel], ?l]
      [(3, [Concurrent])] [(3, [Read, Write, Topmost])] None S3"
    using run_finish [OF S2, of 1 1] by (auto simp: shape_eval)
  obtain S4 where S4: "example_run avl d ?ts [?r True tokens, ?c True tokens, ?w False [Read, Write, Info, Topmost, TopLevel], ?l]
      [(3, [Concurrent])] [] None S4"
    using run_operation [OF S3, of 1 2 "[Read, Write, Topmost]" "[]"] by (auto simp: shape_eval)
  show ?thesis using run_finish [OF S4, of 1 2] by (auto simp: shape_eval)
qed

end

end
