(* ===== verification/N6_FragmentedTheorems.thy ===== *)
theory N6_FragmentedTheorems
  imports N6_FragmentedRuns
begin

text \<open>
  Properties of the default dependency system on sibling tasks with accesses of one region, under every
  interleaving of CPUs: which accesses may be satisfied together, that a drained system has satisfied all
  it may, and that a task is reported ready exactly once.
\<close>

section \<open>Two readers\<close>

context ordered_set
begin

lemma two_readers:
  "\<exists>S. example_run avl d [1, 2] [shaped READ_ACCESS_TYPE False False tokens,
     shaped READ_ACCESS_TYPE False False [Read, Info, TopLevel]] [] [] None S"
proof -
  obtain S1 where S1: "example_run avl d [1] [shaped READ_ACCESS_TYPE False False tokens] [] [] None S1"
    using example_first [of READ_ACCESS_TYPE d False] by auto
  have "\<exists>S. example_run avl d ([1] @ [2]) ([shaped READ_ACCESS_TYPE False False tokens] @
      [shaped READ_ACCESS_TYPE False False [Read, Info, TopLevel]]) [] [] None S"
    by (rule example_next [OF S1]) (simp_all add: shape_eval)
  then show ?thesis by simp
qed

end

lemma access_satisfied:
  assumes "run_state avl d cpus r par ts shs q reg S" "i < length ts"
  shows "satisfied (access_of (ts ! i) S) = shape_satisfied (shs ! i)" "fa_weak (access_of (ts ! i) S) = sh_weak (shs ! i)"
    "fa_complete (access_of (ts ! i) S) = sh_complete (shs ! i)"
proof -
  note sh = run_access [OF assms]
  have "plain (access_of (ts ! i) S)"
    using assms by (auto simp: run_state_def frag_inv_def chain_access_of holds_chain_def chain_access_def)
  then show "satisfied (access_of (ts ! i) S) = shape_satisfied (shs ! i)" using shape_satisfied_of sh by metis
  show "fa_weak (access_of (ts ! i) S) = sh_weak (shs ! i)" "fa_complete (access_of (ts ! i) S) = sh_complete (shs ! i)"
    using sh shape_of_simps by metis+
qed

section \<open>Properties\<close>

text \<open>
  C3. In every state that the CPUs can reach, an access of the default dependency system is satisfied only
  when every access of an earlier sibling to the region is complete, except that reads overlap reads and
  concurrent accesses overlap concurrent accesses.
\<close>

theorem fragmented_satisfied_compatible:
  assumes "ordered_set avl" "frag_reachable avl (Suc depth) cpus region par S" "distinct cpus"
    and "region_ok region" "dr_startAddress region \<noteq> 0"
    and "i < j" "j < length (fs_order S)" "satisfied (access_of (fs_order S ! j) S)"
  shows "fa_complete (access_of (fs_order S ! i) S) \<or>
    may_overlap (access_of (fs_order S ! i) S) (access_of (fs_order S ! j) S)"
proof -
  obtain as where inv: "frag_inv cpus region par S as"
    using ordered_set.reachable_inv [OF assms(1-5)] by blast
  then have h: "holds_chain region par (extra_of S) (fs_order S) as (fs_state S)" and acc: "accounted (fs_order S) as (pending cpus S)"
    by (simp_all add: frag_inv_def)
  have a: "access_of (fs_order S ! i) S = as ! i" "access_of (fs_order S ! j) S = as ! j"
    using chain_access_of [OF h] assms(6,7) by simp_all
  have pl: "plain (as ! j)" using h assms(7) by (simp add: holds_chain_def chain_access_def)
  from received_only_after [OF acc satisfied_needs [OF pl] assms(6,7)] assms(8)
  show ?thesis by (auto simp: a may_overlap_def split: if_splits)
qed

theorem fragmented_satisfied_compatible_witness:
  "\<exists>S. frag_reachable list_avl 1 [0, 1] example_region 0 S \<and> fs_order S = [1, 2] \<and> satisfied (access_of 2 S) \<and>
    \<not> fa_complete (access_of 1 S) \<and> may_overlap (access_of 1 S) (access_of 2 S)"
proof -
  obtain S where S: "example_run list_avl 0 [1, 2] [shaped READ_ACCESS_TYPE False False tokens,
     shaped READ_ACCESS_TYPE False False [Read, Info, TopLevel]] [] [] None S"
    using list_set.two_readers by blast
  have o: "frag_reachable list_avl (Suc 0) [0, 1] example_region 0 S" "fs_order S = [1, 2]" using S by (simp_all add: run_state_def)
  have a: "satisfied (access_of 2 S)" "\<not> fa_complete (access_of 1 S)"
    using access_satisfied(1) [OF S, of 1] access_satisfied(3) [OF S, of 0] by (simp_all add: shape_satisfied_def)
  have "fa_complete (access_of (fs_order S ! 0) S) \<or> may_overlap (access_of (fs_order S ! 0) S) (access_of (fs_order S ! 1) S)"
    by (rule fragmented_satisfied_compatible [OF list_set.ordered_set_axioms o(1) _ example_region_ok]) (use a o in simp_all)
  then show ?thesis using o a by auto
qed

text \<open>
  C4. When no update operation is on its way, an access is satisfied exactly when all earlier accesses are
  complete or may overlap it: no access waits for an operation that was lost.
\<close>

theorem fragmented_drained_exact:
  assumes "ordered_set avl" "frag_reachable avl (Suc depth) cpus region par S" "distinct cpus"
    and "region_ok region" "dr_startAddress region \<noteq> 0"
    and "\<forall>c \<in> set cpus. cd_delayedOperations (fs_hp S c) = []" "j < length (fs_order S)"
  shows "satisfied (access_of (fs_order S ! j) S) \<longleftrightarrow>
    (\<forall>i < j. fa_complete (access_of (fs_order S ! i) S) \<or>
       may_overlap (access_of (fs_order S ! i) S) (access_of (fs_order S ! j) S))"
proof -
  obtain as where inv: "frag_inv cpus region par S as"
    using ordered_set.reachable_inv [OF assms(1-5)] by blast
  have "pending cpus S = {#}" unfolding pending_def using assms(6) by (induction cpus) auto
  with inv have h: "holds_chain region par (extra_of S) (fs_order S) as (fs_state S)" and acc: "accounted (fs_order S) as {#}"
    by (simp_all add: frag_inv_def)
  have "length as = length (fs_order S)" "plain (as ! j)" using h assms(7) by (simp_all add: holds_chain_def chain_access_def)
  from drained_satisfied [OF acc this(1) assms(7) this(2)] show ?thesis
    using chain_access_of [OF h] assms(7) by simp
qed

theorem fragmented_drained_exact_witness:
  "\<exists>S. frag_reachable list_avl 1 [0, 1] example_region 0 S \<and> fs_order S = [1, 2] \<and> satisfied (access_of 2 S) \<and>
    (fa_complete (access_of 1 S) \<or> may_overlap (access_of 1 S) (access_of 2 S))"
proof -
  obtain S where S: "example_run list_avl 0 [1, 2] [shaped READ_ACCESS_TYPE False False tokens,
     shaped READ_ACCESS_TYPE False False [Read, Info, TopLevel]] [] [] None S"
    using list_set.two_readers by blast
  have o: "frag_reachable list_avl (Suc 0) [0, 1] example_region 0 S" "fs_order S = [1, 2]" using S by (simp_all add: run_state_def)
  have "map op_view (cd_delayedOperations (fs_hp S c)) = []" for c using S by (simp add: run_state_def two_cpus_def)
  then have q: "\<forall>c \<in> set [0, 1]. cd_delayedOperations (fs_hp S c) = []" by simp
  have a: "satisfied (access_of 2 S)" using access_satisfied(1) [OF S, of 1] by (simp add: shape_satisfied_def)
  have "satisfied (access_of (fs_order S ! 1) S) \<longleftrightarrow> (\<forall>i < 1. fa_complete (access_of (fs_order S ! i) S) \<or>
       may_overlap (access_of (fs_order S ! i) S) (access_of (fs_order S ! 1) S))"
    by (rule fragmented_drained_exact [OF list_set.ordered_set_axioms o(1) _ example_region_ok q]) (use o in simp_all)
  then show ?thesis using o a by auto
qed

text \<open>
  C5. A task is reported ready once, when its registration has ended and its access is weak or satisfied,
  and never before.
\<close>

theorem fragmented_ready_once:
  assumes "ordered_set avl" "frag_reachable avl (Suc depth) cpus region par S" "distinct cpus"
    and "region_ok region" "dr_startAddress region \<noteq> 0" "t \<in> set (fs_order S)"
  shows "reports cpus S t =
    (if (\<forall>c. fs_registering S \<noteq> Some (c, t)) \<and> (fa_weak (access_of t S) \<or> satisfied (access_of t S)) then 1 else 0)"
proof -
  obtain as where inv: "frag_inv cpus region par S as"
    using ordered_set.reachable_inv [OF assms(1-5)] by blast
  obtain i where i: "i < length (fs_order S)" "t = fs_order S ! i" using assms(6) by (metis in_set_conv_nth)
  have a: "access_of t S = as ! i" using inv chain_access_of i by (auto simp: frag_inv_def)
  have "extra_of S t = 0 \<longleftrightarrow> (\<forall>c. fs_registering S \<noteq> Some (c, t))" by (auto simp: extra_of_def)
  then show ?thesis using inv i a by (auto simp: frag_inv_def enforces_def)
qed

theorem fragmented_ready_once_witness:
  "\<exists>S. frag_reachable list_avl 1 [0, 1] example_region 0 S \<and> 2 \<in> set (fs_order S) \<and> reports [0, 1] S 2 = 1"
proof -
  obtain S where S: "example_run list_avl 0 [1, 2] [shaped READ_ACCESS_TYPE False False tokens,
     shaped READ_ACCESS_TYPE False False [Read, Info, TopLevel]] [] [] None S"
    using list_set.two_readers by blast
  have o: "frag_reachable list_avl (Suc 0) [0, 1] example_region 0 S" "fs_order S = [1, 2]" "fs_registering S = None"
    using S by (simp_all add: run_state_def)
  have a: "satisfied (access_of 2 S)" using access_satisfied(1) [OF S, of 1] by (simp add: shape_satisfied_def)
  have "reports [0, 1] S 2 =
    (if (\<forall>c. fs_registering S \<noteq> Some (c, 2)) \<and> (fa_weak (access_of 2 S) \<or> satisfied (access_of 2 S)) then 1 else 0)"
    by (rule fragmented_ready_once [OF list_set.ordered_set_axioms o(1) _ example_region_ok]) (use o in simp_all)
  then show ?thesis using o a by auto
qed

section \<open>Operations that do not overlap\<close>

text \<open>
  C6. Registering a task when no other operation is in progress returns without a failed assertion, whatever
  the accesses of its earlier siblings are. It leaves no delayed operation, answers that the task is ready
  exactly when its access is weak or all earlier accesses are complete or may overlap it, and does not change
  whether an earlier sibling is ready.
\<close>

theorem fragmented_registration_returns:
  assumes "ordered_set avl" "settled region par ts s" "t \<notin> set (par # ts)" "unlinked_task par t s" "held t s"
    and "dr_startAddress region \<noteq> 0" "type \<noteq> REDUCTION_ACCESS_TYPE" "symbol < 64"
  shows "\<exists>ready s'. registerTaskDataAccesses_fragmented avl (Suc depth) t
      (register_access_fragmented avl t type weak (dr_startAddress region) (dr_length region) symbol index rindex) s = Inr (ready, s') \<and>
    settled region par (ts @ [t]) s' \<and> ds_readied s' = ds_readied s \<and> fa_type (access_in t s') = type \<and>
    ready = (fa_weak (access_in t s') \<or>
      (\<forall>u \<in> set ts. fa_complete (access_in u s') \<or> may_overlap (access_in u s') (access_in t s'))) \<and>
    (\<forall>u \<in> set ts. fa_complete (access_in u s') = fa_complete (access_in u s) \<and> ready_in u s' = ready_in u s)"
proof -
  obtain ready s' where r: "registerTaskDataAccesses_fragmented avl (Suc depth) t
      (register_access_fragmented avl t type weak (dr_startAddress region) (dr_length region) symbol index rindex) s = Inr (ready, s')"
    "settled region par (ts @ [t]) s'" "ready = ready_in t s'" "ds_readied s' = ds_readied s" "fa_type (access_in t s') = type"
    "\<forall>u \<in> set ts. fa_complete (access_in u s') = fa_complete (access_in u s) \<and> ready_in u s' = ready_in u s"
    using ordered_set.register_settles [OF assms, of depth weak index rindex] by blast
  have "satisfied (access_in t s') \<longleftrightarrow>
    (\<forall>i < length ts. fa_complete (access_in (ts ! i) s') \<or> may_overlap (access_in (ts ! i) s') (access_in t s'))"
    using settled_exact [OF r(2), of "length ts"] by (auto simp: nth_append)
  also have "\<dots> \<longleftrightarrow> (\<forall>u \<in> set ts. fa_complete (access_in u s') \<or> may_overlap (access_in u s') (access_in t s'))"
    by (auto simp: all_set_conv_all_nth)
  finally show ?thesis using r by (auto simp: ready_in_def)
qed

lemma example_settled: "settled example_region 0 [] example_tasks"
  by (rule settledI [where as = "[]"])
    (use example_task example_region_ok in \<open>simp_all add: holds_chain_def accounted_def CPUDependencyData_new_def\<close>)

theorem fragmented_registration_returns_witness:
  "\<exists>s'. registerTaskDataAccesses_fragmented list_avl 1 1
      (register_access_fragmented list_avl 1 READWRITE_ACCESS_TYPE False 100 8 0 0 0) example_tasks = Inr (True, s') \<and>
    settled example_region 0 [1] s'"
proof -
  have r: "dr_startAddress example_region = 100" "dr_length example_region = 8" by (simp_all add: example_region_def)
  have "future_task 0 1 example_tasks" using example_task(4) [of 1] by simp
  then have u: "unlinked_task 0 1 example_tasks" by (simp add: future_task_def)
  from fragmented_registration_returns [OF list_set.ordered_set_axioms example_settled _ u example_task(3)
      example_region_ok(2), of READWRITE_ACCESS_TYPE 0 0 False 0 0]
  show ?thesis unfolding r by auto
qed

text \<open>
  C7. Unregistering a task when no other operation is in progress returns without a failed assertion. It
  leaves no delayed operation, and hands to the scheduler, in the order of registration, exactly the
  siblings that it makes ready.
\<close>

theorem fragmented_completion_returns:
  assumes "ordered_set avl" "settled region par ts s" "t \<in> set ts" "\<not> fa_complete (access_in t s)"
  shows "\<exists>s'. unregisterTaskDataAccesses_fragmented avl (Suc depth) t s = Inr s' \<and> settled region par ts s' \<and>
    ds_readied s' = ds_readied s @ filter (\<lambda>u. ready_in u s' \<and> \<not> ready_in u s) ts \<and>
    (\<forall>u \<in> set ts. fa_type (access_in u s') = fa_type (access_in u s) \<and>
       fa_complete (access_in u s') = (u = t \<or> fa_complete (access_in u s)))"
  using ordered_set.finish_settles [OF assms] .

theorem fragmented_completion_returns_witness:
  "\<exists>s s'. settled example_region 0 [1] s \<and> \<not> fa_complete (access_in 1 s) \<and>
    unregisterTaskDataAccesses_fragmented list_avl 1 1 s = Inr s' \<and> settled example_region 0 [1] s' \<and> fa_complete (access_in 1 s')"
proof -
  have "future_task 0 1 example_tasks" using example_task(4) [of 1] by simp
  then have u: "unlinked_task 0 1 example_tasks" by (simp add: future_task_def)
  from list_set.register_settles [OF example_settled _ u example_task(3) example_region_ok(2), of READWRITE_ACCESS_TYPE 0 0 False 0 0]
  obtain s where s: "settled example_region 0 [1] s" "\<not> fa_complete (access_in 1 s)" by auto
  from fragmented_completion_returns [OF list_set.ordered_set_axioms s(1) _ s(2), of 0] s show ?thesis by auto
qed

section \<open>Operations that overlap\<close>

text \<open>
  C27. The CPUs can reach a state in which a delayed operation comes too late. A reader completes, and the CPU
  that completed it leaves the concurrent token for the third task in its queue; meanwhile another CPU
  completes the weak concurrent access behind the reader and the write access behind that, which is
  discounted without having received the concurrent token. The assertion of \<open>applyUpdateOperationOnAccess\<close>
  then fails; without assertions the access has been given up and is used nevertheless.
\<close>

theorem fragmented_late_operation:
  assumes "ordered_set avl"
  shows "\<exists>S. frag_reachable avl (Suc depth) [0, 1] example_region 0 S \<and>
    delayed_operation_turn avl (Suc depth) (on_cpu 0 S) = Inl (AssertFailed ''!dataAccess->hasBeenDiscounted()'')"
proof -
  obtain S where run: "example_run avl depth [1, 2, 3, 4]
      [shaped READ_ACCESS_TYPE False True tokens, shaped CONCURRENT_ACCESS_TYPE True True tokens,
       shaped WRITE_ACCESS_TYPE False True [Read, Write, Info, Topmost, TopLevel],
       shaped READ_ACCESS_TYPE False False [TopLevel]]
      [(3, [Concurrent])] [(4, [Read, Write, Info, Topmost])] None S"
    using ordered_set.late_run [OF assms] by blast
  have "delayed_operation_turn avl (Suc depth) (on_cpu 0 S) = Inl (AssertFailed ''!dataAccess->hasBeenDiscounted()'')"
    by (rule ordered_set.run_too_late [OF assms run, of 0 2 "[Concurrent]" "[]"]) (simp_all add: shape_removable_def)
  then show ?thesis using run by (auto simp: run_state_def)
qed

theorem fragmented_late_operation_witness:
  "\<exists>S. frag_reachable list_avl 1 [0, 1] example_region 0 S \<and>
    delayed_operation_turn list_avl 1 (on_cpu 0 S) = Inl (AssertFailed ''!dataAccess->hasBeenDiscounted()'')"
  using fragmented_late_operation [OF list_set.ordered_set_axioms, of 0] by simp

end
