(* ===== verification/N6_PollingServices.thy ===== *)
theory N6_PollingServices
  imports N6_CPU
begin

text \<open>
  Polling services (\<open>src/system/PollingAPI.cpp\<close>): functions that the run-time calls periodically until
  they answer true or are unregistered. Any number of threads call the operations at once; the lock is
  held while the services are traversed or changed, and is free while a service runs. A section under
  the lock is one step, a thread that is inside a service or waits in
  \<open>nanos6_unregister_polling_service\<close> has a frame on its stack, and a service may use the interface
  itself, so that frames nest.
\<close>

section \<open>Services\<close>

record ServiceKey =
  sk_name :: string
  sk_function :: nat
  sk_functionData :: nat

text \<open>\<open>_discard\<close> points to the local variable \<open>unregistered\<close> of the call that removes the service.\<close>

record ServiceData =
  sd_processing :: bool
  sd_discard :: "nat option"

definition ServiceData_init :: ServiceData where
  "ServiceData_init = \<lparr>sd_processing = False, sd_discard = None\<rparr>"

text \<open>The order of the keys, in which the name is of no account.\<close>

definition key_less :: "ServiceKey \<Rightarrow> ServiceKey \<Rightarrow> bool" where
  "key_less a b =
     (if sk_function a < sk_function b then True
      else if sk_function a > sk_function b then False
      else if sk_functionData a < sk_functionData b then True
      else if sk_functionData a > sk_functionData b then False
      else False)"

text \<open>\<open>std::map\<close>: a list of entries in the order of the keys; two keys are equal when neither is less.\<close>

definition same_key :: "ServiceKey \<Rightarrow> ServiceKey \<Rightarrow> bool" where
  "same_key a b \<longleftrightarrow> \<not> key_less a b \<and> \<not> key_less b a"

type_synonym services = "(ServiceKey \<times> ServiceData) list"

fun find_service :: "ServiceKey \<Rightarrow> services \<Rightarrow> ServiceData option" where
  "find_service k [] = None"
| "find_service k ((k', d) # svs) = (if same_key k k' then Some d else find_service k svs)"

fun emplace_service :: "ServiceKey \<Rightarrow> ServiceData \<Rightarrow> services \<Rightarrow> services" where
  "emplace_service k d [] = [(k, d)]"
| "emplace_service k d ((k', d') # svs) =
     (if key_less k k' then (k, d) # (k', d') # svs
      else if key_less k' k then (k', d') # emplace_service k d svs
      else (k', d') # svs)"

fun set_discard :: "ServiceKey \<Rightarrow> nat option \<Rightarrow> services \<Rightarrow> services" where
  "set_discard k x [] = []"
| "set_discard k x ((k', d) # svs) =
     (if same_key k k' then (k', d\<lparr>sd_discard := x\<rparr>) # svs else (k', d) # set_discard k x svs)"

section \<open>State\<close>

text \<open>
  A frame is the execution of a service inside \<open>handleServices\<close>, whose iterator is at that service,
  or the loop of \<open>nanos6_unregister_polling_service\<close> with its variable \<open>unregistered\<close>. Entries of
  \<open>RuntimeInfo\<close> are name, description and text. The log is a history of what the program sees and is read
  by no operation.
\<close>

datatype polling_frame =
    Callback ServiceKey
  | WaitUnregistered ServiceKey nat

datatype polling_event =
    ServiceRegistered ServiceKey
  | ServiceCalled ServiceKey
  | UnregisterBegins ServiceKey nat
  | UnregisterReturns ServiceKey nat

record polling_state =
  ps_services :: services
  ps_unique :: "(nat \<times> string) list"
  ps_info :: "(string \<times> string \<times> string) list"
  ps_unregistered :: "nat \<Rightarrow> bool"
  ps_calls :: nat
  ps_stack :: "thread_ref \<Rightarrow> polling_frame list"
  ps_log :: "polling_event list"

definition polling_init :: polling_state where
  "polling_init = \<lparr>ps_services = [], ps_unique = [], ps_info = [], ps_unregistered = (\<lambda>_. False),
     ps_calls = 0, ps_stack = (\<lambda>_. []), ps_log = []\<rparr>"

section \<open>Operations\<close>

definition RuntimeInfo_addEntry :: "string \<Rightarrow> string \<Rightarrow> string \<Rightarrow> polling_state \<Rightarrow> polling_state" where
  "RuntimeInfo_addEntry name description value s = s\<lparr>ps_info := ps_info s @ [(name, description, value)]\<rparr>"

definition note_service :: "ServiceKey \<Rightarrow> polling_state \<Rightarrow> polling_state" where
  "note_service k s =
     (case map_of (ps_unique s) (sk_function k) of
        Some _ \<Rightarrow> s
      | None \<Rightarrow>
          let s' = s\<lparr>ps_unique := ps_unique s @ [(sk_function k, sk_name k)]\<rparr>;
              number = show_int (int (length (ps_unique s')))
          in RuntimeInfo_addEntry (''registered_service_'' @ number) (''Registered Service '' @ number) (sk_name k) s')"

definition register_polling_service :: "ServiceKey \<Rightarrow> polling_state \<Rightarrow> polling_state result" where
  "register_polling_service k s =
     (case find_service k (ps_services s) of
        Some d \<Rightarrow>
          assert_that (sd_discard d \<noteq> None) ''serviceData._discard != nullptr''
            (Inr (s\<lparr>ps_services := set_discard k None (ps_services s), ps_log := ps_log s @ [ServiceRegistered k]\<rparr>))
      | None \<Rightarrow>
          Inr (note_service k
            (s\<lparr>ps_services := emplace_service k ServiceData_init (ps_services s),
               ps_log := ps_log s @ [ServiceRegistered k]\<rparr>)))"

text \<open>The locked section of \<open>nanos6_unregister_polling_service\<close>; the loop is the frame it leaves.\<close>

definition unregister_polling_service :: "thread_ref \<Rightarrow> ServiceKey \<Rightarrow> polling_state \<Rightarrow> polling_state result" where
  "unregister_polling_service th k s =
     (case find_service k (ps_services s) of
        None \<Rightarrow> Inl (AssertFailed ''Attempt to unregister a non-existing polling service'')
      | Some d \<Rightarrow>
          assert_that (sd_discard d = None) ''Attempt to unregister an already unregistered polling service''
            (Inr (s\<lparr>ps_services := set_discard k (Some (ps_calls s)) (ps_services s),
               ps_calls := ps_calls s + 1,
               ps_stack := (ps_stack s)(th := WaitUnregistered k (ps_calls s) # ps_stack s th),
               ps_log := ps_log s @ [UnregisterBegins k (ps_calls s)]\<rparr>)))"

text \<open>
  The loop of \<open>handleServices\<close> from its iterator to the service that is called next or to the end: the
  services that are left, the one that is called, and the variables that are set.
\<close>

fun handle_loop :: "services \<Rightarrow> services \<times> ServiceKey option \<times> nat list" where
  "handle_loop [] = ([], None, [])"
| "handle_loop ((k, d) # svs) =
     (if sd_processing d
      then (case handle_loop svs of (svs', c, fs) \<Rightarrow> ((k, d) # svs', c, fs))
      else (case sd_discard d of
              Some f \<Rightarrow> (case handle_loop svs of (svs', c, fs) \<Rightarrow> (svs', c, f # fs))
            | None \<Rightarrow> ((k, d\<lparr>sd_processing := True\<rparr>) # svs, Some k, [])))"

text \<open>The code after the call of the service \<open>k\<close>, whose answer is \<open>unregister\<close>, up to the next one.\<close>

fun after_callback :: "ServiceKey \<Rightarrow> bool \<Rightarrow> services \<Rightarrow> (services \<times> ServiceKey option \<times> nat list) result" where
  "after_callback k unregister [] = Inl (AssertFailed ''the iterator is not valid'')"
| "after_callback k unregister ((k', d) # svs) =
     (if same_key k k'
      then assert_that (sd_processing d) ''serviceData._processing''
        (case handle_loop svs of (svs', c, fs) \<Rightarrow>
           Inr (if unregister \<or> sd_discard d \<noteq> None
                then (svs', c, (case sd_discard d of Some f \<Rightarrow> f # fs | None \<Rightarrow> fs))
                else ((k', d\<lparr>sd_processing := False\<rparr>) # svs', c, fs)))
      else (case after_callback k unregister svs of
              Inl e \<Rightarrow> Inl e
            | Inr (svs', c, fs) \<Rightarrow> Inr ((k', d) # svs', c, fs)))"

definition signal_all :: "nat list \<Rightarrow> (nat \<Rightarrow> bool) \<Rightarrow> nat \<Rightarrow> bool" where
  "signal_all fs u = (\<lambda>f. f \<in> set fs \<or> u f)"

text \<open>The end of a section: the service is called, or \<open>handleServices\<close> returns to the frame below.\<close>

definition section_ends ::
  "thread_ref \<Rightarrow> polling_frame list \<Rightarrow> services \<times> ServiceKey option \<times> nat list \<Rightarrow> polling_state \<Rightarrow> polling_state" where
  "section_ends th stack r s =
     (case r of (svs, c, fs) \<Rightarrow>
        s\<lparr>ps_services := svs, ps_unregistered := signal_all fs (ps_unregistered s),
          ps_stack := (ps_stack s)(th := (case c of Some k \<Rightarrow> Callback k # stack | None \<Rightarrow> stack)),
          ps_log := ps_log s @ (case c of Some k \<Rightarrow> [ServiceCalled k] | None \<Rightarrow> [])\<rparr>)"

definition handleServices :: "thread_ref \<Rightarrow> polling_state \<Rightarrow> polling_state" where
  "handleServices th s = section_ends th (ps_stack s th) (handle_loop (ps_services s)) s"

definition callback_returns :: "thread_ref \<Rightarrow> ServiceKey \<Rightarrow> bool \<Rightarrow> polling_state \<Rightarrow> polling_state result" where
  "callback_returns th k unregister s =
     result_bind (after_callback k unregister (ps_services s))
       (\<lambda>r. Inr (section_ends th (tl (ps_stack s th)) r s))"

definition unregister_returns :: "thread_ref \<Rightarrow> ServiceKey \<Rightarrow> nat \<Rightarrow> polling_state \<Rightarrow> polling_state" where
  "unregister_returns th k f s =
     s\<lparr>ps_stack := (ps_stack s)(th := tl (ps_stack s th)), ps_log := ps_log s @ [UnregisterReturns k f]\<rparr>"

section \<open>Threads\<close>

text \<open>
  A thread runs the program (which registers and unregisters), the leader thread or a worker (which call
  \<open>handleServices\<close> at any time), a service, or the loop that waits for an unregistration, which calls
  \<open>handleServices\<close> until its variable is set. When \<open>tryLock\<close> fails, \<open>handleServices\<close> returns without effect.
\<close>

definition user_code :: "polling_frame list \<Rightarrow> bool" where
  "user_code st = (case st of WaitUnregistered _ _ # _ \<Rightarrow> False | _ \<Rightarrow> True)"

inductive polling_step :: "thread_ref \<Rightarrow> polling_state \<Rightarrow> polling_state result \<Rightarrow> bool" where
  step_register: "user_code (ps_stack s th) \<Longrightarrow> polling_step th s (register_polling_service k s)"
| step_unregister: "user_code (ps_stack s th) \<Longrightarrow> polling_step th s (unregister_polling_service th k s)"
| step_handle: "user_code (ps_stack s th) \<Longrightarrow> polling_step th s (Inr (handleServices th s))"
| step_wait: "ps_stack s th = WaitUnregistered k f # st \<Longrightarrow> \<not> ps_unregistered s f \<Longrightarrow>
    polling_step th s (Inr (handleServices th s))"
| step_busy: "polling_step th s (Inr s)"
| step_callback: "ps_stack s th = Callback k # st \<Longrightarrow> polling_step th s (callback_returns th k unregister s)"
| step_return: "ps_stack s th = WaitUnregistered k f # st \<Longrightarrow> ps_unregistered s f \<Longrightarrow>
    polling_step th s (Inr (unregister_returns th k f s))"

inductive polling_reach :: "polling_state \<Rightarrow> bool" where
  polling_reach_init: "polling_reach polling_init"
| polling_reach_step: "polling_reach s \<Longrightarrow> polling_step th s (Inr s') \<Longrightarrow> polling_reach s'"

text \<open>Executions of any threads, and those in which only the given threads move.\<close>

inductive polling_run :: "thread_ref set \<Rightarrow> polling_state \<Rightarrow> polling_state \<Rightarrow> bool" for A where
  run_refl: "polling_run A s s"
| run_step: "th \<in> A \<Longrightarrow> polling_step th s (Inr s') \<Longrightarrow> polling_run A s' s'' \<Longrightarrow> polling_run A s s''"

section \<open>The services as a map\<close>

text \<open>A service is identified by its function and its data.\<close>

datatype service = Service nat nat

definition service_id :: "ServiceKey \<Rightarrow> service" where
  "service_id k = Service (sk_function k) (sk_functionData k)"

definition service_map :: "services \<Rightarrow> service \<Rightarrow> ServiceData option" where
  "service_map svs = map_of (map (\<lambda>(k, d). (service_id k, d)) svs)"

fun keys_sorted :: "services \<Rightarrow> bool" where
  "keys_sorted [] = True"
| "keys_sorted ((k, d) # svs) = ((\<forall>x \<in> set svs. key_less k (fst x)) \<and> keys_sorted svs)"

lemma same_key_id [simp]: "same_key k k' \<longleftrightarrow> service_id k = service_id k'"
  by (auto simp: same_key_def key_less_def service_id_def)

lemma key_less_id: "key_less k k' \<Longrightarrow> service_id k \<noteq> service_id k'"
  by (auto simp: key_less_def service_id_def split: if_splits)

lemma key_less_trans: "key_less a b \<Longrightarrow> key_less b c \<Longrightarrow> key_less a c"
  by (auto simp: key_less_def split: if_splits)

lemma key_less_same: "service_id k = service_id k' \<Longrightarrow> key_less k a = key_less k' a"
  by (auto simp: key_less_def service_id_def)

lemma key_less_total: "service_id a \<noteq> service_id b \<Longrightarrow> \<not> key_less a b \<Longrightarrow> key_less b a"
  by (auto simp: key_less_def service_id_def split: if_splits)

lemma service_map_simps [simp]:
  "service_map [] = Map.empty"
  "service_map ((k, d) # svs) = (service_map svs)(service_id k \<mapsto> d)"
  by (simp_all add: service_map_def)

lemma service_map_Some: "service_map svs i = Some d \<Longrightarrow> \<exists>k. (k, d) \<in> set svs \<and> service_id k = i"
  by (induction svs) (auto split: if_splits)

lemma sorted_head_notin [simp]:
  assumes "keys_sorted ((k, d) # svs)"
  shows "service_map svs (service_id k) = None"
proof (rule ccontr)
  assume "service_map svs (service_id k) \<noteq> None"
  then obtain x where "x \<in> set svs" "service_id (fst x) = service_id k"
    using service_map_Some by fastforce
  then show False using assms key_less_id [of k "fst x"] by auto
qed

lemma find_service_map [simp]: "find_service k svs = service_map svs (service_id k)"
  by (induction svs) auto

lemma set_emplace_service: "set (emplace_service k d svs) \<subseteq> insert (k, d) (set svs)"
  by (induction k d svs rule: emplace_service.induct) (simp_all, blast)

lemma emplace_service_map:
  "keys_sorted svs \<Longrightarrow> service_map svs (service_id k) = None \<Longrightarrow>
   service_map (emplace_service k d svs) = (service_map svs)(service_id k \<mapsto> d)"
proof (induction k d svs rule: emplace_service.induct)
  case (2 k d k' d' svs)
  then show ?case
    using key_less_id [of k' k] key_less_total [of k k']
    by (cases "key_less k k'"; cases "key_less k' k") (auto simp: fun_eq_iff split: if_splits)
qed simp

lemma emplace_service_sorted:
  assumes "keys_sorted svs" "service_map svs (service_id k) = None"
  shows "keys_sorted (emplace_service k d svs)"
  using assms
proof (induction k d svs rule: emplace_service.induct)
  case (2 k d k' d' svs)
  show ?case
  proof (cases "key_less k k'")
    case True
    with 2(2) show ?thesis by (auto intro: key_less_trans)
  next
    case False
    moreover from this have k': "key_less k' k" using 2(3) by (auto intro: key_less_total split: if_splits)
    moreover have "\<forall>x \<in> set (emplace_service k d svs). key_less k' (fst x)"
      using set_emplace_service [of k d svs] 2(2) k' by auto
    ultimately show ?thesis using 2 by (simp split: if_splits)
  qed
qed simp

lemma keys_subset_ball:
  assumes "fst ` A \<subseteq> fst ` B" "\<forall>x \<in> B. P (fst x)"
  shows "\<forall>x \<in> A. P (fst x)"
proof
  fix x assume "x \<in> A"
  then have "fst x \<in> fst ` B" using assms(1) by blast
  then obtain y where "y \<in> B" "fst x = fst y" by blast
  then show "P (fst x)" using assms(2) by metis
qed

lemma set_discard_keys: "fst ` set (set_discard k x svs) = fst ` set svs"
  by (induction k x svs rule: set_discard.induct) simp_all

lemma set_discard_sorted: "keys_sorted svs \<Longrightarrow> keys_sorted (set_discard k x svs)"
proof (induction k x svs rule: set_discard.induct)
  case (2 k x k' d svs)
  have "\<forall>z \<in> set (set_discard k x svs). key_less k' (fst z)"
    using 2(2) by (intro keys_subset_ball [OF equalityD1 [OF set_discard_keys]]) simp
  with 2 show ?case by simp
qed simp

lemma set_discard_map:
  "service_map svs (service_id k) = Some d \<Longrightarrow>
   service_map (set_discard k x svs) = (service_map svs)(service_id k \<mapsto> d\<lparr>sd_discard := x\<rparr>)"
  by (induction k x svs rule: set_discard.induct) (auto simp: fun_eq_iff split: if_splits)

text \<open>
  What a stretch of the loop does to the map: the service that is called is an unmarked one that nobody
  processes; every other service stays, or it was marked and not processed and its variable is set.
\<close>

definition loop_spec :: "(service \<Rightarrow> ServiceData option) \<Rightarrow> services \<times> ServiceKey option \<times> nat list \<Rightarrow> bool" where
  "loop_spec M r \<longleftrightarrow>
     (case r of (svs, c, fs) \<Rightarrow>
        (\<forall>k. c = Some k \<longrightarrow> (\<exists>d. M (service_id k) = Some d \<and> \<not> sd_processing d \<and> sd_discard d = None \<and>
           service_map svs (service_id k) = Some (d\<lparr>sd_processing := True\<rparr>))) \<and>
        (\<forall>i. i \<notin> service_id ` set_option c \<longrightarrow> service_map svs i = M i \<or>
           service_map svs i = None \<and> (\<exists>d f. M i = Some d \<and> \<not> sd_processing d \<and> sd_discard d = Some f \<and> f \<in> set fs)) \<and>
        (\<forall>f \<in> set fs. \<exists>i d. M i = Some d \<and> sd_discard d = Some f \<and> service_map svs i = None))"

lemma handle_loop_keys: "fst ` set (fst (handle_loop svs)) \<subseteq> fst ` set svs"
proof (induction svs rule: handle_loop.induct)
  case (2 k d svs)
  then show ?case
    by (cases "sd_processing d"; cases "sd_discard d") (simp_all add: prod.case_eq_if subset_insertI2)
qed simp

lemma handle_loop_sorted: "keys_sorted svs \<Longrightarrow> keys_sorted (fst (handle_loop svs))"
proof (induction svs rule: handle_loop.induct)
  case (2 k d svs)
  have "\<forall>x \<in> set (fst (handle_loop svs)). key_less k (fst x)"
    using 2(3) by (intro keys_subset_ball [OF handle_loop_keys]) simp
  with 2 show ?case by (cases "sd_processing d"; cases "sd_discard d") (simp_all add: prod.case_eq_if)
qed simp

lemma loop_specI:
  assumes "\<And>k. c = Some k \<Longrightarrow> \<exists>d. M (service_id k) = Some d \<and> \<not> sd_processing d \<and> sd_discard d = None \<and>
      service_map svs (service_id k) = Some (d\<lparr>sd_processing := True\<rparr>)"
    and "\<And>i. i \<notin> service_id ` set_option c \<Longrightarrow> service_map svs i = M i \<or>
      service_map svs i = None \<and> (\<exists>d f. M i = Some d \<and> \<not> sd_processing d \<and> sd_discard d = Some f \<and> f \<in> set fs)"
    and "\<And>f. f \<in> set fs \<Longrightarrow> \<exists>i d. M i = Some d \<and> sd_discard d = Some f \<and> service_map svs i = None"
  shows "loop_spec M (svs, c, fs)"
  using assms by (auto simp only: loop_spec_def prod.case)

lemma loop_specD:
  assumes "loop_spec M (svs, c, fs)"
  shows loop_spec_called: "c = Some k \<Longrightarrow> \<exists>d. M (service_id k) = Some d \<and> \<not> sd_processing d \<and> sd_discard d = None \<and>
      service_map svs (service_id k) = Some (d\<lparr>sd_processing := True\<rparr>)"
    and loop_spec_other: "i \<notin> service_id ` set_option c \<Longrightarrow> service_map svs i = M i \<or>
      service_map svs i = None \<and> (\<exists>d f. M i = Some d \<and> \<not> sd_processing d \<and> sd_discard d = Some f \<and> f \<in> set fs)"
    and loop_spec_signal: "f \<in> set fs \<Longrightarrow> \<exists>i d. M i = Some d \<and> sd_discard d = Some f \<and> service_map svs i = None"
  using assms by (auto simp only: loop_spec_def prod.case)

lemma loop_spec_absent:
  assumes "loop_spec M (svs, c, fs)" "M i = None"
  shows "service_map svs i = None" "c = Some k \<Longrightarrow> service_id k \<noteq> i"
proof -
  show c: "service_id k \<noteq> i" if "c = Some k" for k
    using loop_spec_called [OF assms(1) that] assms(2) by auto
  then have "i \<notin> service_id ` set_option c" by auto
  then show "service_map svs i = None"
    using loop_spec_other [OF assms(1)] assms(2) by metis
qed

text \<open>A service in front of the iterator is left alone, a marked one is removed.\<close>

lemma loop_spec_Cons:
  assumes spec: "loop_spec M (svs, c, fs)" and k: "M (service_id k) = None"
  shows "loop_spec (M(service_id k \<mapsto> d)) ((k, d) # svs, c, fs)"
proof (rule loop_specI)
  fix k' assume "c = Some k'"
  then show "\<exists>d'. (M(service_id k \<mapsto> d)) (service_id k') = Some d' \<and> \<not> sd_processing d' \<and> sd_discard d' = None \<and>
      service_map ((k, d) # svs) (service_id k') = Some (d'\<lparr>sd_processing := True\<rparr>)"
    using loop_spec_called [OF spec] loop_spec_absent(2) [OF spec k] by simp
next
  fix i assume "i \<notin> service_id ` set_option c"
  then show "service_map ((k, d) # svs) i = (M(service_id k \<mapsto> d)) i \<or> service_map ((k, d) # svs) i = None \<and>
      (\<exists>d' f. (M(service_id k \<mapsto> d)) i = Some d' \<and> \<not> sd_processing d' \<and> sd_discard d' = Some f \<and> f \<in> set fs)"
    using loop_spec_other [OF spec] by simp
next
  fix f assume "f \<in> set fs"
  from loop_spec_signal [OF spec this] k
  show "\<exists>i d'. (M(service_id k \<mapsto> d)) i = Some d' \<and> sd_discard d' = Some f \<and> service_map ((k, d) # svs) i = None"
    by (metis fun_upd_other option.distinct(1) service_map_simps(2))
qed

lemma loop_spec_erase:
  assumes spec: "loop_spec M (svs, c, fs)" and k: "M (service_id k) = None"
    and d: "\<not> sd_processing d" "sd_discard d = Some f"
  shows "loop_spec (M(service_id k \<mapsto> d)) (svs, c, f # fs)"
proof (rule loop_specI)
  fix k' assume "c = Some k'"
  then show "\<exists>d'. (M(service_id k \<mapsto> d)) (service_id k') = Some d' \<and> \<not> sd_processing d' \<and> sd_discard d' = None \<and>
      service_map svs (service_id k') = Some (d'\<lparr>sd_processing := True\<rparr>)"
    using loop_spec_called [OF spec] loop_spec_absent(2) [OF spec k] by simp
next
  fix i assume "i \<notin> service_id ` set_option c"
  then show "service_map svs i = (M(service_id k \<mapsto> d)) i \<or> service_map svs i = None \<and>
      (\<exists>d' g. (M(service_id k \<mapsto> d)) i = Some d' \<and> \<not> sd_processing d' \<and> sd_discard d' = Some g \<and> g \<in> set (f # fs))"
    using loop_spec_other [OF spec, of i] loop_spec_absent(1) [OF spec k] d by (cases "i = service_id k") auto
next
  fix g assume "g \<in> set (f # fs)"
  then show "\<exists>i d'. (M(service_id k \<mapsto> d)) i = Some d' \<and> sd_discard d' = Some g \<and> service_map svs i = None"
    using loop_spec_signal [OF spec, of g] loop_spec_absent(1) [OF spec k] d(2) k
    by (metis fun_upd_other fun_upd_same option.distinct(1) set_ConsD)
qed

lemma handle_loop_spec: "keys_sorted svs \<Longrightarrow> loop_spec (service_map svs) (handle_loop svs)"
proof (induction svs rule: handle_loop.induct)
  case 1
  show ?case by (simp add: loop_spec_def)
next
  case (2 k d svs)
  obtain svs' c fs where r: "handle_loop svs = (svs', c, fs)" by (metis prod_cases3)
  have k: "service_map svs (service_id k) = None" using sorted_head_notin [OF 2(3)] .
  have sorted: "keys_sorted svs" using 2(3) by simp
  consider "sd_processing d" | f where "\<not> sd_processing d" "sd_discard d = Some f"
    | "\<not> sd_processing d" "sd_discard d = None" by (cases "sd_discard d") auto
  then show ?case
  proof cases
    case 1
    then show ?thesis using loop_spec_Cons [of "service_map svs" svs' c fs k d] k 2(1) [OF 1 sorted] r
      by (simp only: handle_loop.simps if_True prod.case service_map_simps)
  next
    case (2 f)
    have "loop_spec (service_map svs) (svs', c, fs)" using "2.IH"(2) [OF 2 sorted] r by simp
    from loop_spec_erase [OF this k 2] show ?thesis using 2 r
      by (simp only: handle_loop.simps if_False option.case prod.case service_map_simps)
  next
    case 3
    then show ?thesis using k by (auto simp: loop_spec_def)
  qed
qed

text \<open>
  After the call the service has left the map, and its variable is set if it was marked, or it is free
  again; then the loop goes on.
\<close>

definition after_map :: "ServiceKey \<Rightarrow> bool \<Rightarrow> ServiceData \<Rightarrow> (service \<Rightarrow> ServiceData option) \<Rightarrow> service \<Rightarrow> ServiceData option" where
  "after_map k unregister d M =
     M(service_id k := (if unregister \<or> sd_discard d \<noteq> None then None else Some (d\<lparr>sd_processing := False\<rparr>)))"

lemma after_callback_keys: "after_callback k u svs = Inr r \<Longrightarrow> fst ` set (fst r) \<subseteq> fst ` set svs"
proof (induction k u svs arbitrary: r rule: after_callback.induct)
  case (2 k u k' d svs)
  show ?case
  proof (cases "service_id k = service_id k'")
    case True
    obtain svs' c fs where h: "handle_loop svs = (svs', c, fs)" by (metis prod_cases3)
    have "fst ` set svs' \<subseteq> fst ` set svs" using handle_loop_keys [of svs] h by simp
    moreover have "fst r = svs' \<or> (\<exists>d'. fst r = (k', d') # svs')" using True 2(2) h by (auto split: if_splits)
    ultimately show ?thesis by (elim disjE exE) (simp_all add: subset_insertI2)
  next
    case False
    with 2(2) obtain svs' c fs where r: "after_callback k u svs = Inr (svs', c, fs)" "r = ((k', d) # svs', c, fs)"
      by (auto split: sum.splits)
    show ?thesis using 2(1) [OF _ r(1)] False r(2) by (simp add: subset_insertI2)
  qed
qed simp

lemma after_callback_spec:
  assumes "keys_sorted svs" "service_map svs (service_id k) = Some d" "sd_processing d"
  shows "\<exists>svs' c fs. after_callback k u svs = Inr (svs', c, (case sd_discard d of Some f \<Rightarrow> f # fs | None \<Rightarrow> fs)) \<and>
    keys_sorted svs' \<and> loop_spec (after_map k u d (service_map svs)) (svs', c, fs)"
  using assms
proof (induction k u svs rule: after_callback.induct)
  case (2 k u k' d' svs)
  have k': "service_map svs (service_id k') = None" using sorted_head_notin [OF 2(2)] .
  have sorted: "keys_sorted svs" and below: "\<forall>x \<in> set svs. key_less k' (fst x)" using 2(2) by simp_all
  show ?case
  proof (cases "service_id k = service_id k'")
    case True
    obtain svs' c fs where r: "handle_loop svs = (svs', c, fs)" by (metis prod_cases3)
    have d: "d' = d" using 2(3) True by simp
    have spec: "loop_spec (service_map svs) (svs', c, fs)" and sorted': "keys_sorted svs'"
      using handle_loop_spec [OF sorted] handle_loop_sorted [OF sorted] r by simp_all
    have below': "\<forall>x \<in> set svs'. key_less k' (fst x)"
      using keys_subset_ball [OF handle_loop_keys below] r by simp
    have gone: "(service_map ((k', d') # svs))(service_id k := None) = service_map svs"
      using k' True by auto
    have kept: "(service_map ((k', d') # svs))(service_id k := x) = (service_map svs)(service_id k' := x)" for x
      using True by simp
    show ?thesis
    proof (cases "u \<or> sd_discard d \<noteq> None")
      case removed: True
      have "after_map k u d (service_map ((k', d') # svs)) = service_map svs"
        unfolding after_map_def using removed gone by simp
      moreover have "after_callback k u ((k', d') # svs) =
          Inr (svs', c, (case sd_discard d of Some f \<Rightarrow> f # fs | None \<Rightarrow> fs))"
        using True 2(4) d removed r by (simp split: option.splits)
      ultimately show ?thesis using spec sorted' by metis
    next
      case stays: False
      have "after_map k u d (service_map ((k', d') # svs)) = (service_map svs)(service_id k' \<mapsto> d\<lparr>sd_processing := False\<rparr>)"
        unfolding after_map_def using stays kept by simp
      moreover have "after_callback k u ((k', d') # svs) = Inr ((k', d\<lparr>sd_processing := False\<rparr>) # svs', c, fs)"
        using True 2(4) d stays r by simp
      moreover have "keys_sorted ((k', d\<lparr>sd_processing := False\<rparr>) # svs')" using below' sorted' by simp
      moreover have "(case sd_discard d of Some f \<Rightarrow> f # fs | None \<Rightarrow> fs) = fs" using stays by simp
      ultimately show ?thesis
        using loop_spec_Cons [OF spec k'] by metis
    qed
  next
    case False
    obtain svs' c fs where r: "after_callback k u svs = Inr (svs', c, (case sd_discard d of Some f \<Rightarrow> f # fs | None \<Rightarrow> fs))"
      and sorted': "keys_sorted svs'" and spec: "loop_spec (after_map k u d (service_map svs)) (svs', c, fs)"
      using 2(1) [OF _ sorted _ 2(4)] 2(3) False by auto
    have "after_map k u d (service_map ((k', d') # svs)) = (after_map k u d (service_map svs))(service_id k' \<mapsto> d')"
      unfolding after_map_def using False by (simp add: fun_upd_twist)
    moreover have "after_map k u d (service_map svs) (service_id k') = None"
      unfolding after_map_def using False k' by simp
    moreover have "keys_sorted ((k', d') # svs')"
      using keys_subset_ball [OF after_callback_keys [OF r] below] sorted' by simp
    moreover have "after_callback k u ((k', d') # svs) =
        Inr ((k', d') # svs', c, (case sd_discard d of Some f \<Rightarrow> f # fs | None \<Rightarrow> fs))"
      using r False by simp
    ultimately show ?thesis using loop_spec_Cons [OF spec] by metis
  qed
qed simp

end
