(* ===== verification/N6_PollingServicesProofs.thy ===== *)
theory N6_PollingServicesProofs
  imports N6_PollingServices
begin

text \<open>
  The invariant of the polling services and its consequences: which services may be called, who may wait,
  and what a section under the lock does to both.
\<close>

section \<open>Invariant\<close>

text \<open>A frame is identified by the service that it runs or by the variable that it waits for.\<close>

fun frame_tag :: "polling_frame \<Rightarrow> service + nat" where
  "frame_tag (Callback k) = Inl (service_id k)"
| "frame_tag (WaitUnregistered k f) = Inr f"

type_synonym stacks = "thread_ref \<Rightarrow> polling_frame list"

definition tags :: "stacks \<Rightarrow> (service + nat) set" where
  "tags S = (\<Union>th. frame_tag ` set (S th))"

definition stacks_distinct :: "stacks \<Rightarrow> bool" where
  "stacks_distinct S \<longleftrightarrow> (\<forall>th. distinct (map frame_tag (S th))) \<and>
     (\<forall>th th'. th \<noteq> th' \<longrightarrow> frame_tag ` set (S th) \<inter> frame_tag ` set (S th') = {})"

definition waits :: "stacks \<Rightarrow> service \<Rightarrow> nat \<Rightarrow> bool" where
  "waits S i f \<longleftrightarrow> (\<exists>th k. WaitUnregistered k f \<in> set (S th) \<and> service_id k = i)"

text \<open>
  No two frames are the same; a service is processed exactly when a frame runs it; a marked service
  points to the variable of a call that waits for it and has not been told; variables are fresh.
\<close>

definition core_inv :: "(service \<Rightarrow> ServiceData option) \<Rightarrow> (nat \<Rightarrow> bool) \<Rightarrow> nat \<Rightarrow> stacks \<Rightarrow> bool" where
  "core_inv M u n S \<longleftrightarrow>
     stacks_distinct S \<and>
     (\<forall>i. Inl i \<in> tags S \<longleftrightarrow> (\<exists>d. M i = Some d \<and> sd_processing d)) \<and>
     (\<forall>i d f. M i = Some d \<longrightarrow> sd_discard d = Some f \<longrightarrow> waits S i f \<and> \<not> u f) \<and>
     (\<forall>f. Inr f \<in> tags S \<longrightarrow> f < n) \<and> (\<forall>f. u f \<longrightarrow> f < n)"

definition polling_inv :: "polling_state \<Rightarrow> bool" where
  "polling_inv s \<longleftrightarrow> keys_sorted (ps_services s) \<and>
     core_inv (service_map (ps_services s)) (ps_unregistered s) (ps_calls s) (ps_stack s)"

lemma core_invD:
  assumes "core_inv M u n S"
  shows "stacks_distinct S" "Inl i \<in> tags S \<longleftrightarrow> (\<exists>d. M i = Some d \<and> sd_processing d)"
    "M i = Some d \<Longrightarrow> sd_discard d = Some f \<Longrightarrow> waits S i f"
    "M i = Some d \<Longrightarrow> sd_discard d = Some f \<Longrightarrow> \<not> u f"
    "Inr f \<in> tags S \<Longrightarrow> f < n" "u f \<Longrightarrow> f < n"
  using assms unfolding core_inv_def by blast+

lemma core_invI:
  assumes "stacks_distinct S" "\<And>i. Inl i \<in> tags S \<longleftrightarrow> (\<exists>d. M i = Some d \<and> sd_processing d)"
    "\<And>i d f. M i = Some d \<Longrightarrow> sd_discard d = Some f \<Longrightarrow> waits S i f \<and> \<not> u f"
    "\<And>f. Inr f \<in> tags S \<Longrightarrow> f < n" "\<And>f. u f \<Longrightarrow> f < n"
  shows "core_inv M u n S"
  using assms unfolding core_inv_def by blast

subsection \<open>Stacks\<close>

lemma tagsI: "x \<in> set (S th) \<Longrightarrow> frame_tag x \<in> tags S"
  unfolding tags_def by blast

lemma tags_upd: "g \<in> tags (S(th := st)) \<longleftrightarrow> g \<in> frame_tag ` set st \<or> (\<exists>t. t \<noteq> th \<and> g \<in> frame_tag ` set (S t))"
  unfolding tags_def UN_iff by (metis UNIV_I fun_upd_apply)

lemma tags_same: "g \<in> tags S \<longleftrightarrow> g \<in> frame_tag ` set (S th) \<or> (\<exists>t. t \<noteq> th \<and> g \<in> frame_tag ` set (S t))"
  using tags_upd [of g S th "S th"] by simp

lemma tags_push: "tags (S(th := x # S th)) = insert (frame_tag x) (tags S)"
  by (rule set_eqI) (simp add: tags_upd tags_same [of _ S th] del: image_iff)

lemma stacks_distinct_push:
  assumes "stacks_distinct S" "frame_tag x \<notin> tags S"
  shows "stacks_distinct (S(th := x # S th))"
proof -
  have "frame_tag x \<notin> frame_tag ` set (S th')" for th' using assms(2) unfolding tags_def by blast
  then show ?thesis using assms(1) unfolding stacks_distinct_def by auto
qed

lemma stacks_distinct_pop:
  assumes "stacks_distinct S" "S th = x # st"
  shows "stacks_distinct (S(th := st))" "frame_tag x \<notin> tags (S(th := st))"
    "tags S = insert (frame_tag x) (tags (S(th := st)))"
proof -
  have th: "frame_tag x \<notin> frame_tag ` set st" "distinct (map frame_tag st)"
    using assms unfolding stacks_distinct_def by (metis distinct.simps(2) list.set_map list.simps(9))+
  have disj: "frame_tag ` set (S t) \<inter> frame_tag ` set (S t') = {}" if "t \<noteq> t'" for t t'
    using assms(1) that unfolding stacks_distinct_def by blast
  have sub: "frame_tag ` set st \<subseteq> frame_tag ` set (S th)" using assms(2) by auto
  show "stacks_distinct (S(th := st))"
    unfolding stacks_distinct_def
  proof (intro conjI allI impI)
    show "distinct (map frame_tag ((S(th := st)) t))" for t
      using assms(1) th(2) unfolding stacks_distinct_def by simp
    show "frame_tag ` set ((S(th := st)) t) \<inter> frame_tag ` set ((S(th := st)) t') = {}" if "t \<noteq> t'" for t t'
      using disj [OF that] sub that by (cases "t = th"; cases "t' = th") (simp_all, blast+)
  qed
  show "frame_tag x \<notin> tags (S(th := st))"
  proof
    assume "frame_tag x \<in> tags (S(th := st))"
    then obtain t where t: "frame_tag x \<in> frame_tag ` set ((S(th := st)) t)" unfolding tags_def by blast
    then have "t \<noteq> th" using th(1) by auto
    then show False using t disj [of t th] assms(2) by auto
  qed
  show "tags S = insert (frame_tag x) (tags (S(th := st)))"
    by (rule set_eqI) (simp add: tags_upd tags_same [of _ S th] assms(2) del: image_iff)
qed

lemma waits_tag: "waits S i f \<Longrightarrow> Inr f \<in> tags S"
  unfolding waits_def using tagsI by fastforce

lemma waits_unique:
  assumes "stacks_distinct S" "waits S i f" "waits S j f"
  shows "i = j"
proof -
  obtain th k th' k' where w: "WaitUnregistered k f \<in> set (S th)" "service_id k = i"
      "WaitUnregistered k' f \<in> set (S th')" "service_id k' = j"
    using assms(2,3) unfolding waits_def by blast
  have "th = th'"
  proof (rule ccontr)
    assume "th \<noteq> th'"
    then have "frame_tag ` set (S th) \<inter> frame_tag ` set (S th') = {}"
      using assms(1) unfolding stacks_distinct_def by blast
    moreover have "Inr f \<in> frame_tag ` set (S th)" "Inr f \<in> frame_tag ` set (S th')"
      using w(1,3) by (auto simp: image_iff intro!: bexI)
    ultimately show False by blast
  qed
  moreover have "inj_on frame_tag (set (S th))"
    using assms(1) unfolding stacks_distinct_def by (simp add: distinct_map)
  ultimately have "WaitUnregistered k f = WaitUnregistered k' f"
    using w(1,3) by (auto dest: inj_onD [where x = "WaitUnregistered k f" and y = "WaitUnregistered k' f"])
  then show ?thesis using w(2,4) by simp
qed

lemma waits_push: "waits (S(th := x # S th)) i f \<longleftrightarrow> waits S i f \<or> (\<exists>k. x = WaitUnregistered k f \<and> service_id k = i)"
  unfolding waits_def by auto

lemma waits_pop:
  "S th = x # st \<Longrightarrow> waits S i f \<Longrightarrow> frame_tag x \<noteq> Inr f \<Longrightarrow> waits (S(th := st)) i f"
  unfolding waits_def by (auto split: if_splits) (metis fun_upd_other fun_upd_same frame_tag.simps(2) set_ConsD)

lemma mark_unique:
  assumes "core_inv M u n S" "M i = Some d" "sd_discard d = Some f" "M j = Some d'" "sd_discard d' = Some f"
  shows "i = j"
  using waits_unique [OF core_invD(1) [OF assms(1)]] core_invD(3) [OF assms(1)] assms(2-) by blast

subsection \<open>Sections\<close>

text \<open>How the frames and the map fit together after one stretch of the loop.\<close>

definition push_call :: "ServiceKey option \<Rightarrow> polling_frame list \<Rightarrow> polling_frame list" where
  "push_call c st = (case c of Some k \<Rightarrow> Callback k # st | None \<Rightarrow> st)"

lemma push_call_simps [simp]: "push_call None st = st" "push_call (Some k) st = Callback k # st"
  by (simp_all add: push_call_def)

lemma loop_processing:
  assumes spec: "loop_spec M (svs, c, fs)"
  shows "(\<exists>d. service_map svs i = Some d \<and> sd_processing d) \<longleftrightarrow>
    i \<in> service_id ` set_option c \<or> (\<exists>d. M i = Some d \<and> sd_processing d)"
proof (cases "i \<in> service_id ` set_option c")
  case True
  then obtain k where "c = Some k" "i = service_id k" by auto
  then show ?thesis using loop_spec_called [OF spec] by auto
next
  case False
  then show ?thesis using loop_spec_other [OF spec False] by auto
qed

lemma loop_discard:
  assumes spec: "loop_spec M (svs, c, fs)" and d: "service_map svs i = Some d" "sd_discard d = Some f"
  shows "\<exists>d'. M i = Some d' \<and> sd_discard d' = Some f"
proof (cases "i \<in> service_id ` set_option c")
  case True
  then obtain k where "c = Some k" "i = service_id k" by auto
  then show ?thesis using loop_spec_called [OF spec] d by auto
next
  case False
  then show ?thesis using loop_spec_other [OF spec False] d by auto
qed

lemma loop_signal_not_kept:
  assumes inv: "core_inv M u n S" and spec: "loop_spec M (svs, c, fs)"
    and d: "service_map svs i = Some d" "sd_discard d = Some f"
  shows "f \<notin> set fs"
proof
  assume "f \<in> set fs"
  then obtain j d' where j: "M j = Some d'" "sd_discard d' = Some f" "service_map svs j = None"
    using loop_spec_signal [OF spec] by blast
  obtain d'' where "M i = Some d''" "sd_discard d'' = Some f" using loop_discard [OF spec d] by blast
  then have "i = j" using mark_unique [OF inv _ _ j(1,2)] by blast
  then show False using j(3) d(1) by simp
qed

lemma core_handle:
  assumes inv: "core_inv M u n S" and spec: "loop_spec M (svs, c, fs)"
  shows "core_inv (service_map svs) (signal_all fs u) n (S(th := push_call c (S th)))"
proof (rule core_invI)
  let ?S = "S(th := push_call c (S th))"
  have fresh: "Inl (service_id k) \<notin> tags S" if "c = Some k" for k
    using loop_spec_called [OF spec that] core_invD(2) [OF inv] by fastforce
  have tags: "tags ?S = Inl ` service_id ` set_option c \<union> tags S"
    by (cases c) (simp_all add: tags_push del: image_iff)
  show "stacks_distinct ?S"
    using stacks_distinct_push [OF core_invD(1) [OF inv]] fresh core_invD(1) [OF inv] by (cases c) simp_all
  show "Inl i \<in> tags ?S \<longleftrightarrow> (\<exists>d. service_map svs i = Some d \<and> sd_processing d)" for i
    unfolding loop_processing [OF spec] tags using core_invD(2) [OF inv, of i] by auto
  show "waits ?S i f \<and> \<not> signal_all fs u f" if d: "service_map svs i = Some d" "sd_discard d = Some f" for i d f
  proof -
    obtain d' where "M i = Some d'" "sd_discard d' = Some f" using loop_discard [OF spec d] by blast
    then have "waits S i f" "\<not> u f" using core_invD(3,4) [OF inv] by blast+
    then show ?thesis
      using loop_signal_not_kept [OF inv spec d] by (cases c) (auto simp: signal_all_def waits_push)
  qed
  show "f < n" if "Inr f \<in> tags ?S" for f using that core_invD(5) [OF inv] unfolding tags by blast
  show "f < n" if "signal_all fs u f" for f
  proof (cases "u f")
    case True
    then show ?thesis using core_invD(6) [OF inv] by blast
  next
    case False
    then have "f \<in> set fs" using that by (simp add: signal_all_def)
    then obtain j d' where "M j = Some d'" "sd_discard d' = Some f" using loop_spec_signal [OF spec] by blast
    then show ?thesis using core_invD(3,5) [OF inv] waits_tag by blast
  qed
qed

definition discard_list :: "ServiceData \<Rightarrow> nat list" where
  "discard_list d = (case sd_discard d of Some f \<Rightarrow> [f] | None \<Rightarrow> [])"

lemma core_finish:
  assumes inv: "core_inv M u n S" and th: "S th = Callback k # st" and d: "M (service_id k) = Some d"
  shows "core_inv (after_map k un d M) (signal_all (discard_list d) u) n (S(th := st))"
proof (rule core_invI)
  note pop = stacks_distinct_pop [OF core_invD(1) [OF inv] th]
  show "stacks_distinct (S(th := st))" by (rule pop(1))
  show "Inl i \<in> tags (S(th := st)) \<longleftrightarrow> (\<exists>d'. after_map k un d M i = Some d' \<and> sd_processing d')" for i
    using core_invD(2) [OF inv, of i] pop(2) unfolding pop(3) by (cases "i = service_id k") (auto simp: after_map_def)
  show "waits (S(th := st)) i f \<and> \<not> signal_all (discard_list d) u f"
    if d': "after_map k un d M i = Some d'" "sd_discard d' = Some f" for i d' f
  proof -
    have i: "i \<noteq> service_id k" "M i = Some d'" using d' by (auto simp: after_map_def split: if_splits)
    have "f \<notin> set (discard_list d)"
      using mark_unique [OF inv i(2) d'(2) d] i(1) by (auto simp: discard_list_def split: option.splits)
    then show ?thesis
      using waits_pop [OF th core_invD(3) [OF inv i(2) d'(2)]] core_invD(4) [OF inv i(2) d'(2)]
      by (simp add: signal_all_def)
  qed
  show "f < n" if "Inr f \<in> tags (S(th := st))" for f using that core_invD(5) [OF inv] pop(3) by blast
  show "f < n" if f: "signal_all (discard_list d) u f" for f
  proof (cases "u f")
    case False
    then have "sd_discard d = Some f" using f by (auto simp: signal_all_def discard_list_def split: option.splits)
    then show ?thesis using core_invD(3,5) [OF inv] d waits_tag by blast
  qed (use core_invD(6) [OF inv] in blast)
qed

section \<open>The steps keep the invariant\<close>

lemma section_ends_fields [simp]:
  "ps_services (section_ends th st (svs, c, fs) s) = svs"
  "ps_unregistered (section_ends th st (svs, c, fs) s) = signal_all fs (ps_unregistered s)"
  "ps_calls (section_ends th st (svs, c, fs) s) = ps_calls s"
  "ps_stack (section_ends th st (svs, c, fs) s) = (ps_stack s)(th := push_call c st)"
  "ps_log (section_ends th st (svs, c, fs) s) = ps_log s @ (case c of Some k \<Rightarrow> [ServiceCalled k] | None \<Rightarrow> [])"
  by (simp_all add: section_ends_def push_call_def)

lemma note_service_fields [simp]:
  "ps_services (note_service k s) = ps_services s" "ps_unregistered (note_service k s) = ps_unregistered s"
  "ps_calls (note_service k s) = ps_calls s" "ps_stack (note_service k s) = ps_stack s"
  "ps_log (note_service k s) = ps_log s"
  by (simp_all add: note_service_def RuntimeInfo_addEntry_def Let_def split: option.splits)

lemma handleServices_inv:
  assumes "polling_inv s"
  shows "polling_inv (handleServices th s)"
proof -
  obtain svs c fs where r: "handle_loop (ps_services s) = (svs, c, fs)" by (metis prod_cases3)
  have sorted: "keys_sorted (ps_services s)" using assms by (simp add: polling_inv_def)
  have inv: "core_inv (service_map (ps_services s)) (ps_unregistered s) (ps_calls s) (ps_stack s)"
    using assms by (simp add: polling_inv_def)
  have "loop_spec (service_map (ps_services s)) (svs, c, fs)" "keys_sorted svs"
    using handle_loop_spec [OF sorted] handle_loop_sorted [OF sorted] r by simp_all
  then show ?thesis
    using core_handle [OF inv, of svs c fs th] r by (simp add: polling_inv_def handleServices_def)
qed

lemma signal_all_append: "signal_all fs (signal_all gs u) = signal_all (gs @ fs) u"
  by (auto simp: signal_all_def)

text \<open>The iterator is valid: the service that a frame runs is in the map and is marked as processed.\<close>

lemma callback_in_map:
  assumes "core_inv M u n S" "S th = Callback k # st"
  obtains d where "M (service_id k) = Some d" "sd_processing d"
proof -
  have "Inl (service_id k) \<in> tags S" using tagsI [of "Callback k" S th] assms(2) by simp
  then show thesis using core_invD(2) [OF assms(1)] that by blast
qed

lemma callback_returns_inv:
  assumes "polling_inv s" "ps_stack s th = Callback k # st"
  shows "\<exists>s'. callback_returns th k un s = Inr s' \<and> polling_inv s'"
proof -
  let ?M = "service_map (ps_services s)"
  have inv: "core_inv ?M (ps_unregistered s) (ps_calls s) (ps_stack s)" and sorted: "keys_sorted (ps_services s)"
    using assms(1) by (simp_all add: polling_inv_def)
  obtain d where d: "?M (service_id k) = Some d" "sd_processing d" using callback_in_map [OF inv assms(2)] .
  obtain svs c fs where r: "after_callback k un (ps_services s) = Inr (svs, c, discard_list d @ fs)"
    and svs: "keys_sorted svs" "loop_spec (after_map k un d ?M) (svs, c, fs)"
    using after_callback_spec [OF sorted d, of un] by (auto simp: discard_list_def split: option.splits)
  show ?thesis
    using core_handle [OF core_finish [OF inv assms(2) d(1)] svs(2), of th] svs(1) r assms(2)
    by (simp add: callback_returns_def polling_inv_def signal_all_append)
qed

lemma core_register:
  assumes "core_inv M u n S" "M i = None"
  shows "core_inv (M(i \<mapsto> ServiceData_init)) u n S"
  using assms(1,2) core_invD(2) [OF assms(1), of i] unfolding core_inv_def
  by (auto simp: ServiceData_init_def)

lemma core_unmark:
  assumes "core_inv M u n S" "M i = Some d"
  shows "core_inv (M(i \<mapsto> d\<lparr>sd_discard := None\<rparr>)) u n S"
  using assms(1,2) core_invD(2) [OF assms(1), of i] unfolding core_inv_def by auto

lemma core_mark:
  assumes inv: "core_inv M u n S" and d: "M (service_id k) = Some d" "sd_discard d = None"
  shows "core_inv (M(service_id k \<mapsto> d\<lparr>sd_discard := Some n\<rparr>)) u (n + 1) (S(th := WaitUnregistered k n # S th))"
proof (rule core_invI)
  have fresh: "Inr n \<notin> tags S" using core_invD(5) [OF inv, of n] by auto
  show "stacks_distinct (S(th := WaitUnregistered k n # S th))"
    using fresh by (intro stacks_distinct_push core_invD(1) [OF inv]) simp
  show "Inl i \<in> tags (S(th := WaitUnregistered k n # S th)) \<longleftrightarrow>
      (\<exists>d'. (M(service_id k \<mapsto> d\<lparr>sd_discard := Some n\<rparr>)) i = Some d' \<and> sd_processing d')" for i
    unfolding tags_push using core_invD(2) [OF inv, of i] d(1) by auto
  show "waits (S(th := WaitUnregistered k n # S th)) i f \<and> \<not> u f"
    if "(M(service_id k \<mapsto> d\<lparr>sd_discard := Some n\<rparr>)) i = Some d'" "sd_discard d' = Some f" for i d' f
    unfolding waits_push using that core_invD(3,4) [OF inv, of i d' f] core_invD(6) [OF inv, of n]
    by (cases "i = service_id k") auto
  show "f < n + 1" if "Inr f \<in> tags (S(th := WaitUnregistered k n # S th))" for f
    using that core_invD(5) [OF inv, of f] unfolding tags_push by auto
  show "f < n + 1" if "u f" for f using core_invD(6) [OF inv that] by simp
qed

lemma core_return:
  assumes inv: "core_inv M u n S" and th: "S th = WaitUnregistered k f # st" and f: "u f"
  shows "core_inv M u n (S(th := st))"
proof (rule core_invI)
  note pop = stacks_distinct_pop [OF core_invD(1) [OF inv] th]
  show "stacks_distinct (S(th := st))" by (rule pop(1))
  show "Inl i \<in> tags (S(th := st)) \<longleftrightarrow> (\<exists>d. M i = Some d \<and> sd_processing d)" for i
    using core_invD(2) [OF inv, of i] unfolding pop(3) by simp
  show "waits (S(th := st)) i g \<and> \<not> u g" if "M i = Some d" "sd_discard d = Some g" for i d g
    using waits_pop [OF th core_invD(3) [OF inv that]] core_invD(4) [OF inv that] f by auto
  show "g < n" if "Inr g \<in> tags (S(th := st))" for g using that core_invD(5) [OF inv] pop(3) by blast
qed (use core_invD(6) [OF inv] in blast)

lemma register_polling_inv:
  assumes "polling_inv s" "register_polling_service k s = Inr s'"
  shows "polling_inv s'"
proof (cases "service_map (ps_services s) (service_id k)")
  case None
  then show ?thesis
    using assms core_register by (auto simp: polling_inv_def register_polling_service_def emplace_service_sorted emplace_service_map)
next
  case (Some d)
  then show ?thesis
    using assms core_unmark
    by (auto simp: polling_inv_def register_polling_service_def set_discard_sorted set_discard_map)
qed

lemma unregister_polling_inv:
  assumes "polling_inv s" "unregister_polling_service th k s = Inr s'"
  shows "polling_inv s'"
  using assms core_mark
  by (auto simp: polling_inv_def unregister_polling_service_def set_discard_sorted set_discard_map split: option.splits)

lemma step_inv:
  assumes "polling_step th s (Inr s')" "polling_inv s"
  shows "polling_inv s'"
  using assms
proof (cases rule: polling_step.cases)
  case (step_register k)
  then show ?thesis using register_polling_inv [OF assms(2)] by metis
next
  case (step_unregister k)
  then show ?thesis using unregister_polling_inv [OF assms(2)] by metis
next
  case (step_callback k st un)
  then show ?thesis using callback_returns_inv [OF assms(2)] by (metis sum.inject(2))
next
  case (step_return k f st)
  have "core_inv (service_map (ps_services s)) (ps_unregistered s) (ps_calls s) (ps_stack s)"
    using assms(2) by (simp add: polling_inv_def)
  from core_return [OF this step_return(2,3)] show ?thesis
    using step_return(1,2) assms(2) by (simp add: polling_inv_def unregister_returns_def)
qed (use assms(2) handleServices_inv in auto)

lemma polling_inv_init: "polling_inv polling_init"
  by (simp add: polling_inv_def polling_init_def core_inv_def stacks_distinct_def tags_def)

lemma reach_inv: "polling_reach s \<Longrightarrow> polling_inv s"
  by (induction rule: polling_reach.induct) (auto intro: polling_inv_init step_inv)

section \<open>What a call that unregisters can rely on\<close>

text \<open>The service is marked with the variable of the call, or it is gone and the variable is set.\<close>

definition marked :: "(service \<Rightarrow> ServiceData option) \<Rightarrow> (nat \<Rightarrow> bool) \<Rightarrow> service \<Rightarrow> nat \<Rightarrow> bool" where
  "marked M u i f \<longleftrightarrow> u f \<and> M i = None \<or> \<not> u f \<and> (\<exists>d. M i = Some d \<and> sd_discard d = Some f)"

lemma marked_handle:
  assumes inv: "core_inv M u n S" and spec: "loop_spec M (svs, c, fs)" and i: "marked M u i f"
  shows "marked (service_map svs) (signal_all fs u) i f" "c = Some k \<Longrightarrow> service_id k \<noteq> i"
proof -
  show c: "service_id k \<noteq> i" if "c = Some k" for k
    using loop_spec_called [OF spec that] i unfolding marked_def by auto
  then have ni: "i \<notin> service_id ` set_option c" by auto
  show "marked (service_map svs) (signal_all fs u) i f"
    using i loop_spec_other [OF spec ni] loop_signal_not_kept [OF inv spec]
    unfolding marked_def signal_all_def by auto
qed

lemma marked_finish:
  assumes inv: "core_inv M u n S" and d: "M (service_id k) = Some d" and i: "marked M u i f"
  shows "marked (after_map k un d M) (signal_all (discard_list d) u) i f"
proof (cases "i = service_id k")
  case True
  then show ?thesis using i d by (auto simp: marked_def after_map_def signal_all_def discard_list_def)
next
  case False
  have "sd_discard d \<noteq> Some f" if "M i = Some d'" "sd_discard d' = Some f" for d'
    using mark_unique [OF inv that d] False by blast
  then show ?thesis
    using i False by (auto simp: marked_def after_map_def signal_all_def discard_list_def split: option.splits)
qed

abbreviation marked_in :: "polling_state \<Rightarrow> service \<Rightarrow> nat \<Rightarrow> bool" where
  "marked_in s \<equiv> marked (service_map (ps_services s)) (ps_unregistered s)"

definition registered_in :: "service \<Rightarrow> polling_event list \<Rightarrow> bool" where
  "registered_in i es \<longleftrightarrow> (\<exists>k. service_id k = i \<and> ServiceRegistered k \<in> set es)"

definition called_in :: "service \<Rightarrow> polling_event list \<Rightarrow> bool" where
  "called_in i es \<longleftrightarrow> (\<exists>k. service_id k = i \<and> ServiceCalled k \<in> set es)"

lemma in_log_simps [simp]:
  "\<not> registered_in i []" "\<not> called_in i []"
  "registered_in i (es @ es') \<longleftrightarrow> registered_in i es \<or> registered_in i es'"
  "called_in i (es @ es') \<longleftrightarrow> called_in i es \<or> called_in i es'"
  by (auto simp: registered_in_def called_in_def)

text \<open>
  One step appends at most one event; a mark stays until the service is registered again or the
  variable is set, and a marked service is not called.
\<close>

definition log_step :: "polling_state \<Rightarrow> polling_event list \<Rightarrow> polling_state \<Rightarrow> bool" where
  "log_step s es s' \<longleftrightarrow>
     ps_log s' = ps_log s @ es \<and> length es \<le> 1 \<and>
     (\<forall>i f. marked_in s i f \<longrightarrow> \<not> registered_in i es \<longrightarrow> marked_in s' i f \<and> \<not> called_in i es) \<and>
     (\<forall>k f. UnregisterBegins k f \<in> set es \<longrightarrow> marked_in s' (service_id k) f) \<and>
     (\<forall>k f. UnregisterReturns k f \<in> set es \<longrightarrow> ps_unregistered s' f) \<and>
     (\<forall>f. ps_unregistered s f \<longrightarrow> ps_unregistered s' f)"

abbreviation call_events :: "ServiceKey option \<Rightarrow> polling_event list" where
  "call_events c \<equiv> (case c of Some k \<Rightarrow> [ServiceCalled k] | None \<Rightarrow> [])"

lemma call_events_facts:
  "length (call_events c) \<le> Suc 0" "UnregisterBegins k f \<notin> set (call_events c)" "UnregisterReturns k f \<notin> set (call_events c)"
  "called_in i (call_events c) \<longleftrightarrow> (\<exists>k. c = Some k \<and> service_id k = i)"
  by (auto simp: called_in_def split: option.splits)

lemma handleServices_log:
  assumes "polling_inv s"
  shows "\<exists>es. log_step s es (handleServices th s)"
proof -
  obtain svs c fs where r: "handle_loop (ps_services s) = (svs, c, fs)" by (metis prod_cases3)
  have inv: "core_inv (service_map (ps_services s)) (ps_unregistered s) (ps_calls s) (ps_stack s)"
    and sorted: "keys_sorted (ps_services s)" using assms by (simp_all add: polling_inv_def)
  have spec: "loop_spec (service_map (ps_services s)) (svs, c, fs)" using handle_loop_spec [OF sorted] r by simp
  have "log_step s (call_events c) (handleServices th s)"
    unfolding log_step_def handleServices_def r section_ends_fields
    using marked_handle [OF inv spec] by (auto simp: call_events_facts signal_all_def)
  then show ?thesis by blast
qed

lemma callback_returns_log:
  assumes "polling_inv s" "ps_stack s th = Callback k # st" "callback_returns th k un s = Inr s'"
  shows "\<exists>es. log_step s es s'"
proof -
  let ?M = "service_map (ps_services s)"
  have inv: "core_inv ?M (ps_unregistered s) (ps_calls s) (ps_stack s)" and sorted: "keys_sorted (ps_services s)"
    using assms(1) by (simp_all add: polling_inv_def)
  obtain d where d: "?M (service_id k) = Some d" "sd_processing d" using callback_in_map [OF inv assms(2)] .
  obtain svs c fs where r: "after_callback k un (ps_services s) = Inr (svs, c, discard_list d @ fs)"
    and spec: "loop_spec (after_map k un d ?M) (svs, c, fs)"
    using after_callback_spec [OF sorted d, of un] by (auto simp: discard_list_def split: option.splits)
  note inv' = core_finish [OF inv assms(2) d(1), of un]
  have mark: "marked (service_map svs) (signal_all (discard_list d @ fs) (ps_unregistered s)) i f \<and>
      (\<forall>k'. c = Some k' \<longrightarrow> service_id k' \<noteq> i)" if "marked_in s i f" for i f
    using marked_handle [OF inv' spec marked_finish [OF inv d(1) that]] by (simp add: signal_all_append)
  have s': "s' = section_ends th st (svs, c, discard_list d @ fs) s"
    using assms(2,3) r by (simp add: callback_returns_def)
  have "log_step s (call_events c) s'"
    unfolding log_step_def s' section_ends_fields
    using mark by (auto simp: call_events_facts signal_all_def)
  then show ?thesis by blast
qed

lemma register_log:
  assumes "polling_inv s" "register_polling_service k s = Inr s'"
  shows "log_step s [ServiceRegistered k] s'"
proof (cases "service_map (ps_services s) (service_id k)")
  case None
  have "service_map (emplace_service k ServiceData_init (ps_services s)) =
      (service_map (ps_services s))(service_id k \<mapsto> ServiceData_init)"
    using emplace_service_map assms(1) None by (simp add: polling_inv_def)
  with None show ?thesis
    using assms by (auto simp: log_step_def register_polling_service_def registered_in_def called_in_def marked_def)
next
  case (Some d)
  with assms(2) show ?thesis
    by (auto simp: log_step_def register_polling_service_def registered_in_def called_in_def marked_def set_discard_map)
qed

lemma unregister_log:
  assumes "polling_inv s" "unregister_polling_service th k s = Inr s'"
  shows "log_step s [UnregisterBegins k (ps_calls s)] s'"
proof -
  have fresh: "\<not> ps_unregistered s (ps_calls s)"
    using assms(1) core_invD(6) by (fastforce simp: polling_inv_def)
  obtain d where d: "service_map (ps_services s) (service_id k) = Some d" "sd_discard d = None"
    using assms(2) by (auto simp: unregister_polling_service_def split: option.splits)
  have "service_map (ps_services s') = (service_map (ps_services s))(service_id k \<mapsto> d\<lparr>sd_discard := Some (ps_calls s)\<rparr>)"
    "ps_unregistered s' = ps_unregistered s" "ps_log s' = ps_log s @ [UnregisterBegins k (ps_calls s)]"
    using assms(2) d by (auto simp: unregister_polling_service_def set_discard_map)
  then show ?thesis
    using d fresh by (auto simp: log_step_def registered_in_def called_in_def marked_def)
qed

lemma step_log:
  assumes "polling_step th s (Inr s')" "polling_inv s"
  shows "\<exists>es. log_step s es s'"
  using assms
proof (cases rule: polling_step.cases)
  case (step_register k)
  then show ?thesis using register_log [OF assms(2)] by metis
next
  case (step_unregister k)
  then show ?thesis using unregister_log [OF assms(2)] by metis
next
  case (step_callback k st un)
  then show ?thesis using callback_returns_log [OF assms(2) step_callback(2)] by metis
next
  case (step_return k f st)
  then have "log_step s [UnregisterReturns k f] s'"
    by (auto simp: log_step_def unregister_returns_def registered_in_def called_in_def)
  then show ?thesis by blast
next
  case step_busy
  have "log_step s [] s" by (simp add: log_step_def)
  then show ?thesis using step_busy by blast
qed (use assms(2) handleServices_log in auto)

text \<open>Since the unregistration began and unless the service was registered again, it is marked or gone and was not called.\<close>

definition log_inv :: "polling_state \<Rightarrow> bool" where
  "log_inv s \<longleftrightarrow>
     (\<forall>xs k f ys. ps_log s = xs @ UnregisterBegins k f # ys \<longrightarrow> \<not> registered_in (service_id k) ys \<longrightarrow>
        marked_in s (service_id k) f \<and> \<not> called_in (service_id k) ys) \<and>
     (\<forall>k f. UnregisterReturns k f \<in> set (ps_log s) \<longrightarrow> ps_unregistered s f)"

lemma log_inv_step:
  assumes "log_inv s" and step: "log_step s es s'"
  shows "log_inv s'"
proof -
  note st = step [unfolded log_step_def]
  have begins: "marked_in s' (service_id k) f \<and> \<not> called_in (service_id k) ys"
    if log: "ps_log s' = xs @ UnregisterBegins k f # ys" and quiet: "\<not> registered_in (service_id k) ys" for xs k f ys
  proof (cases "\<exists>zs. ps_log s = xs @ UnregisterBegins k f # zs \<and> ys = zs @ es")
    case True
    then obtain zs where zs: "ps_log s = xs @ UnregisterBegins k f # zs" "ys = zs @ es" by blast
    have old: "marked_in s (service_id k) f \<and> \<not> called_in (service_id k) zs"
      using assms(1) zs quiet unfolding log_inv_def by simp
    have "\<not> registered_in (service_id k) es" using quiet zs(2) by simp
    with old have "marked_in s' (service_id k) f" "\<not> called_in (service_id k) es" using st by blast+
    with old show ?thesis using zs(2) by simp
  next
    case False
    have "es = [UnregisterBegins k f] \<and> ys = []"
    proof (cases es)
      case Nil
      then show ?thesis using log st False by simp
    next
      case (Cons e es')
      then have "es = [e]" using st by simp
      then show ?thesis
        using log st False by (cases ys rule: rev_cases) auto
    qed
    then show ?thesis using st by simp
  qed
  have "ps_unregistered s' f" if "UnregisterReturns k f \<in> set (ps_log s')" for k f
    using that st assms(1) unfolding log_inv_def by auto
  with begins show ?thesis unfolding log_inv_def by blast
qed

lemma reach_log_inv: "polling_reach s \<Longrightarrow> log_inv s"
proof (induction rule: polling_reach.induct)
  case polling_reach_init
  show ?case by (simp add: log_inv_def polling_init_def)
next
  case (polling_reach_step s th s')
  then show ?case using step_log [OF _ reach_inv] log_inv_step by blast
qed

section \<open>A traversal comes to its end\<close>

text \<open>The services behind the iterator.\<close>

fun rest :: "ServiceKey \<Rightarrow> services \<Rightarrow> services" where
  "rest k [] = []"
| "rest k ((k', d) # svs) = (if same_key k k' then svs else rest k svs)"

definition to_remove :: "nat \<Rightarrow> ServiceKey \<times> ServiceData \<Rightarrow> bool" where
  "to_remove f x \<longleftrightarrow> \<not> sd_processing (snd x) \<and> sd_discard (snd x) = Some f"

lemma handle_loop_called: "handle_loop svs = (svs', Some k, fs) \<Longrightarrow> k \<in> fst ` set svs"
proof (induction svs arbitrary: svs' fs rule: handle_loop.induct)
  case (2 k' d svs)
  then show ?case
    by (cases "sd_processing d"; cases "sd_discard d") (auto split: prod.splits)
qed simp

lemma sorted_called_other:
  assumes "keys_sorted ((k', d) # svs)" "k \<in> fst ` set svs"
  shows "service_id k \<noteq> service_id k'"
  using assms key_less_id [of k' k] by fastforce

lemma handle_loop_ends:
  "handle_loop svs = (svs', None, fs) \<Longrightarrow> x \<in> set svs \<Longrightarrow> to_remove f x \<Longrightarrow> f \<in> set fs"
proof (induction svs arbitrary: svs' fs rule: handle_loop.induct)
  case (2 k d svs)
  then show ?case
    by (cases "sd_processing d"; cases "sd_discard d") (auto simp: to_remove_def split: prod.splits)
qed simp

lemma handle_loop_rest:
  assumes "handle_loop svs = (svs', Some k, fs)" "keys_sorted svs"
  shows "length (rest k svs') < length svs"
    "x \<in> set svs \<Longrightarrow> to_remove f x \<Longrightarrow> f \<in> set fs \<or> x \<in> set (rest k svs')"
proof -
  have "length (rest k svs') < length svs \<and> (\<forall>x \<in> set svs. to_remove f x \<longrightarrow> f \<in> set fs \<or> x \<in> set (rest k svs'))"
    using assms
  proof (induction svs arbitrary: svs' fs rule: handle_loop.induct)
    case (2 k' d svs)
    obtain svs'' c fs' where r: "handle_loop svs = (svs'', c, fs')" by (metis prod_cases3)
    have sorted: "keys_sorted svs" using 2(4) by simp
    have other: "service_id k \<noteq> service_id k'" if "c = Some k"
      using sorted_called_other [OF 2(4)] handle_loop_called r that by blast
    consider "sd_processing d" | g where "\<not> sd_processing d" "sd_discard d = Some g"
      | "\<not> sd_processing d" "sd_discard d = None" by (cases "sd_discard d") auto
    then show ?case
    proof cases
      case 1
      then have "c = Some k" "svs' = (k', d) # svs''" "fs = fs'" using 2(3) r by auto
      then show ?thesis using 2(1) [OF 1 _ sorted, of svs'' fs'] r other 1 by (auto simp: to_remove_def)
    next
      case (2 g)
      then have c: "c = Some k" "svs' = svs''" "fs = g # fs'" using "2.prems"(1) r by auto
      then show ?thesis using "2.IH"(2) [OF 2 _ sorted, of svs'' fs'] r 2 by (auto simp: to_remove_def)
    next
      case 3
      then show ?thesis using "2.prems"(1) by (auto simp: to_remove_def)
    qed
  qed simp
  then show "length (rest k svs') < length svs"
    "x \<in> set svs \<Longrightarrow> to_remove f x \<Longrightarrow> f \<in> set fs \<or> x \<in> set (rest k svs')" by auto
qed

lemma rest_subset: "set (rest k svs) \<subseteq> set svs"
  by (induction k svs rule: rest.induct) (simp_all, blast)

lemma after_callback_ends:
  "after_callback k un svs = Inr (svs', None, fs) \<Longrightarrow> x \<in> set (rest k svs) \<Longrightarrow> to_remove f x \<Longrightarrow> f \<in> set fs"
proof (induction k un svs arbitrary: svs' fs rule: after_callback.induct)
  case (2 k un k' d svs)
  show ?case
  proof (cases "service_id k = service_id k'")
    case True
    obtain svs'' c fs' where r: "handle_loop svs = (svs'', c, fs')" by (metis prod_cases3)
    then have "c = None" "set fs' \<subseteq> set fs" using 2(2) True by (auto split: if_splits option.splits)
    then show ?thesis using handle_loop_ends [of svs svs'' fs' x f] r 2(3,4) True by auto
  next
    case False
    then show ?thesis using 2 by (auto split: sum.splits)
  qed
qed simp

lemma after_callback_rest:
  assumes "after_callback k un svs = Inr (svs', Some k', fs)" "keys_sorted svs"
  shows "k' \<in> fst ` set (rest k svs)" "length (rest k' svs') < length (rest k svs)"
    "x \<in> set (rest k svs) \<Longrightarrow> to_remove f x \<Longrightarrow> f \<in> set fs \<or> x \<in> set (rest k' svs')"
proof -
  have "k' \<in> fst ` set (rest k svs) \<and> length (rest k' svs') < length (rest k svs) \<and>
      (\<forall>x \<in> set (rest k svs). to_remove f x \<longrightarrow> f \<in> set fs \<or> x \<in> set (rest k' svs'))"
    using assms
  proof (induction k un svs arbitrary: svs' fs rule: after_callback.induct)
    case (2 k un k0 d svs)
    have sorted: "keys_sorted svs" using 2(3) by simp
    show ?case
    proof (cases "service_id k = service_id k0")
      case True
      obtain svs'' c fs' where r: "handle_loop svs = (svs'', c, fs')" by (metis prod_cases3)
      then have c: "c = Some k'" "set fs' \<subseteq> set fs" "svs' = svs'' \<or> (\<exists>d'. svs' = (k0, d') # svs'')"
        using 2(2) True by (auto split: if_splits option.splits)
      have "k' \<in> fst ` set svs" using handle_loop_called r c(1) by blast
      moreover from this have "service_id k' \<noteq> service_id k0" using sorted_called_other [OF 2(3)] by blast
      moreover have "rest k' svs' = rest k' svs''" "rest k ((k0, d) # svs) = svs"
        using c(3) \<open>service_id k' \<noteq> service_id k0\<close> True by auto
      ultimately show ?thesis
        using handle_loop_rest [OF r [unfolded c(1)] sorted] c(2) by (metis subsetD)
    next
      case False
      then obtain svs'' where r: "after_callback k un svs = Inr (svs'', Some k', fs)" "svs' = (k0, d) # svs''"
        using 2(2) by (auto split: sum.splits)
      note IH = 2(1) [OF _ r(1) sorted]
      have "k' \<in> fst ` set svs" using IH False rest_subset [of k svs] by auto
      then have "service_id k' \<noteq> service_id k0" using sorted_called_other [OF 2(3)] by blast
      then show ?thesis using IH False r(2) by simp
    qed
  qed simp
  then show "k' \<in> fst ` set (rest k svs)" "length (rest k' svs') < length (rest k svs)"
    "x \<in> set (rest k svs) \<Longrightarrow> to_remove f x \<Longrightarrow> f \<in> set fs \<or> x \<in> set (rest k' svs')" by auto
qed

text \<open>When the services that the waiting thread calls return, its traversal returns and has set the variable.\<close>

lemma traversal_returns:
  assumes "polling_inv s" "ps_stack s th = Callback k # st"
    and "ps_unregistered s f \<or> (\<exists>x \<in> set (rest k (ps_services s)). to_remove f x)"
  shows "\<exists>s'. polling_run {th} s s' \<and> polling_inv s' \<and> ps_stack s' th = st \<and> ps_unregistered s' f"
  using assms
proof (induction "length (rest k (ps_services s))" arbitrary: s k rule: less_induct)
  case less
  have sorted: "keys_sorted (ps_services s)" using less(2) by (simp add: polling_inv_def)
  obtain s' where s': "callback_returns th k False s = Inr s'" "polling_inv s'"
    using callback_returns_inv [OF less(2,3)] by blast
  obtain svs c fs where r: "after_callback k False (ps_services s) = Inr (svs, c, fs)"
      "s' = section_ends th st (svs, c, fs) s"
    using s'(1) less(3) by (auto simp: callback_returns_def)
  have step: "polling_step th s (Inr s')" using step_callback [OF less(3), of False] s'(1) by simp
  show ?case
  proof (cases c)
    case None
    then have "ps_unregistered s' f" "ps_stack s' th = st"
      using less(4) after_callback_ends [of k False "ps_services s" svs fs] r by (auto simp: signal_all_def)
    then show ?thesis using run_step [OF _ step run_refl] s'(2) by blast
  next
    case (Some k')
    note r' = r(1) [unfolded Some]
    have "ps_unregistered s' f \<or> (\<exists>x \<in> set (rest k' (ps_services s')). to_remove f x)"
      using less(4) after_callback_rest(3) [OF r' sorted] r(2) by (auto simp: signal_all_def)
    moreover have "length (rest k' (ps_services s')) < length (rest k (ps_services s))"
      using after_callback_rest(2) [OF r' sorted] r(2) by simp
    moreover have "ps_stack s' th = Callback k' # st" using r(2) Some by simp
    ultimately show ?thesis using less(1) [of k' s'] s'(2) run_step [OF _ step] by blast
  qed
qed

end
