(* ===== verification/N6_PollingServicesTheorems.thy ===== *)
theory N6_PollingServicesTheorems
  imports N6_PollingServicesProofs
begin

text \<open>
  Properties of the polling services: what a program may rely on when it unregisters a service, why the
  iterators of concurrent traversals stay valid, when an unregistration can return, and how a
  registration at the wrong moment keeps it from returning.
\<close>

section \<open>Lost marks\<close>

text \<open>No service points to the variable of a call that waits for it.\<close>

definition lost :: "polling_state \<Rightarrow> thread_ref \<Rightarrow> ServiceKey \<Rightarrow> nat \<Rightarrow> bool" where
  "lost s th k f \<longleftrightarrow> f < ps_calls s \<and> \<not> ps_unregistered s f \<and> WaitUnregistered k f \<in> set (ps_stack s th) \<and>
     (\<forall>i d. service_map (ps_services s) i = Some d \<longrightarrow> sd_discard d \<noteq> Some f)"

lemma push_call_keeps: "x \<in> set st \<Longrightarrow> x \<in> set (push_call c st)"
  by (cases c) simp_all

lemma lost_section:
  assumes "loop_spec M (svs, c, fs)" "\<And>i d. M i = Some d \<Longrightarrow> sd_discard d \<noteq> Some f"
  shows "f \<notin> set fs" "service_map svs i = Some d \<Longrightarrow> sd_discard d \<noteq> Some f"
  using loop_spec_signal [OF assms(1)] loop_discard [OF assms(1)] assms(2) by blast+

lemma lost_handle:
  assumes "polling_inv s" "lost s th k f"
  shows "lost (handleServices th' s) th k f"
proof -
  obtain svs c fs where r: "handle_loop (ps_services s) = (svs, c, fs)" by (metis prod_cases3)
  have "loop_spec (service_map (ps_services s)) (svs, c, fs)"
    using handle_loop_spec r assms(1) by (metis polling_inv_def)
  from lost_section [OF this, of f] assms(2) show ?thesis
    by (auto simp: lost_def handleServices_def r signal_all_def push_call_keeps)
qed

lemma lost_callback:
  assumes "polling_inv s" "lost s th k f" "ps_stack s th' = Callback k' # st" "callback_returns th' k' un s = Inr s'"
  shows "lost s' th k f"
proof -
  let ?M = "service_map (ps_services s)"
  have inv: "core_inv ?M (ps_unregistered s) (ps_calls s) (ps_stack s)" and sorted: "keys_sorted (ps_services s)"
    using assms(1) by (simp_all add: polling_inv_def)
  obtain d where d: "?M (service_id k') = Some d" "sd_processing d" using callback_in_map [OF inv assms(3)] .
  obtain svs c fs where r: "after_callback k' un (ps_services s) = Inr (svs, c, discard_list d @ fs)"
    and spec: "loop_spec (after_map k' un d ?M) (svs, c, fs)"
    using after_callback_spec [OF sorted d, of un] by (auto simp: discard_list_def split: option.splits)
  have s': "s' = section_ends th' st (svs, c, discard_list d @ fs) s"
    using assms(3,4) r by (simp add: callback_returns_def)
  have none: "sd_discard d' \<noteq> Some f" if "?M i = Some d'" for i d' using assms(2) that unfolding lost_def by blast
  have "sd_discard d' \<noteq> Some f" if "after_map k' un d ?M i = Some d'" for i d'
    using that none d(1) by (auto simp: after_map_def split: if_splits)
  note sec = lost_section [OF spec, of f, OF this]
  have "f \<notin> set (discard_list d)" using none [OF d(1)] by (auto simp: discard_list_def split: option.splits)
  with sec assms(2,3) show ?thesis
    by (auto simp: lost_def s' signal_all_def intro!: push_call_keeps)
qed

lemma lost_step:
  assumes "polling_step th' s (Inr s')" "polling_inv s" "lost s th k f"
  shows "lost s' th k f"
  using assms(1)
proof (cases rule: polling_step.cases)
  case (step_register k')
  have "\<exists>d. sd_discard d = None \<and> service_map (ps_services s') = (service_map (ps_services s))(service_id k' \<mapsto> d)"
    "ps_calls s' = ps_calls s" "ps_unregistered s' = ps_unregistered s" "ps_stack s' = ps_stack s"
    using step_register(1) [symmetric] assms(2)
    by (auto simp: register_polling_service_def polling_inv_def emplace_service_map set_discard_map ServiceData_init_def
        split: option.splits intro: exI [of _ "sd\<lparr>sd_discard := None\<rparr>" for sd] exI [of _ ServiceData_init])
  then show ?thesis using assms(3) by (auto simp: lost_def split: if_splits)
next
  case (step_unregister k')
  from step_unregister(1) [symmetric] show ?thesis
    using assms(3) by (auto simp: unregister_polling_service_def lost_def set_discard_map split: option.splits if_splits)
next
  case (step_callback k' st un)
  then show ?thesis using lost_callback [OF assms(2,3) step_callback(2)] by metis
next
  case (step_return k' f' st)
  then show ?thesis using assms(3) by (auto simp: lost_def unregister_returns_def)
qed (use assms lost_handle in auto)

lemma run_inv: "polling_run A s s' \<Longrightarrow> polling_inv s \<Longrightarrow> polling_inv s'"
  by (induction rule: polling_run.induct) (auto intro: step_inv)

lemma lost_run: "polling_run A s s' \<Longrightarrow> polling_inv s \<Longrightarrow> lost s th k f \<Longrightarrow> lost s' th k f"
  by (induction rule: polling_run.induct) (auto intro: step_inv lost_step)


lemma register_loses:
  assumes inv: "polling_inv s" and wait: "WaitUnregistered k f \<in> set (ps_stack s th)"
    and d: "service_map (ps_services s) (service_id k') = Some d" "sd_discard d = Some f"
    and s': "register_polling_service k' s = Inr s'"
  shows "lost s' th k f"
proof -
  have core: "core_inv (service_map (ps_services s)) (ps_unregistered s) (ps_calls s) (ps_stack s)"
    using inv by (simp add: polling_inv_def)
  have "service_map (ps_services s') = (service_map (ps_services s))(service_id k' \<mapsto> d\<lparr>sd_discard := None\<rparr>)"
    "ps_calls s' = ps_calls s" "ps_unregistered s' = ps_unregistered s" "ps_stack s' = ps_stack s"
    using s' d by (auto simp: register_polling_service_def set_discard_map)
  moreover have "f < ps_calls s" using core_invD(5) [OF core, of f] tagsI [of _ "ps_stack s", OF wait] by simp
  moreover have "sd_discard d' \<noteq> Some f" if "service_map (ps_services s) i = Some d'" "i \<noteq> service_id k'" for i d'
    using mark_unique [OF core that(1) _ d] that(2) by blast
  ultimately show ?thesis using core_invD(4) [OF core d] wait by (auto simp: lost_def)
qed

section \<open>An execution\<close>

text \<open>A program registers a service and unregisters it; its thread removes the service itself.\<close>

definition example_key :: ServiceKey where
  "example_key = \<lparr>sk_name = ''service'', sk_function = 1, sk_functionData = 2\<rparr>"

definition example_registered :: polling_state where
  "example_registered = note_service example_key
     (polling_init\<lparr>ps_services := [(example_key, ServiceData_init)], ps_log := [ServiceRegistered example_key]\<rparr>)"

definition example_marked :: polling_state where
  "example_marked = example_registered\<lparr>
     ps_services := [(example_key, ServiceData_init\<lparr>sd_discard := Some 0\<rparr>)], ps_calls := 1,
     ps_stack := (\<lambda>_. [])(0 := [WaitUnregistered example_key 0]),
     ps_log := [ServiceRegistered example_key, UnregisterBegins example_key 0]\<rparr>"

lemma example_registered_fields [simp]:
  "ps_services example_registered = [(example_key, ServiceData_init)]" "ps_unregistered example_registered = (\<lambda>_. False)"
  "ps_calls example_registered = 0" "ps_stack example_registered = (\<lambda>_. [])"
  "ps_log example_registered = [ServiceRegistered example_key]"
  by (simp_all add: example_registered_def polling_init_def)

lemma example_registered_reach: "polling_reach example_registered"
proof -
  have "register_polling_service example_key polling_init = Inr example_registered"
    by (simp add: register_polling_service_def polling_init_def example_registered_def)
  moreover have "polling_step 0 polling_init (register_polling_service example_key polling_init)"
    by (rule step_register) (simp add: user_code_def polling_init_def)
  ultimately show ?thesis using polling_reach_step [OF polling_reach_init] by metis
qed

lemma example_marked_reach: "polling_reach example_marked"
proof -
  have "unregister_polling_service 0 example_key example_registered = Inr example_marked"
    by (simp add: unregister_polling_service_def example_marked_def ServiceData_init_def)
  moreover have "polling_step 0 example_registered (unregister_polling_service 0 example_key example_registered)"
    by (rule step_unregister) (simp add: user_code_def)
  ultimately show ?thesis using polling_reach_step [OF example_registered_reach] by metis
qed

lemma example_marked_fields [simp]:
  "ps_services example_marked = [(example_key, ServiceData_init\<lparr>sd_discard := Some 0\<rparr>)]"
  "ps_stack example_marked = (\<lambda>_. [])(0 := [WaitUnregistered example_key 0])"
  "ps_unregistered example_marked = (\<lambda>_. False)"
  "ps_log example_marked = [ServiceRegistered example_key, UnregisterBegins example_key 0]"
  by (simp_all add: example_marked_def)

lemma example_in_callback: "polling_reach (handleServices 0 example_registered)"
  "ps_stack (handleServices 0 example_registered) 0 = [Callback example_key]"
  using polling_reach_step [OF example_registered_reach step_handle [of example_registered 0]]
  by (simp_all add: user_code_def handleServices_def ServiceData_init_def)

definition example_unregistered :: polling_state where
  "example_unregistered = unregister_returns 0 example_key 0 (handleServices 0 example_marked)"

lemma example_unregistered_reach: "polling_reach example_unregistered"
proof -
  have "polling_step 0 example_marked (Inr (handleServices 0 example_marked))"
    by (rule step_wait [of _ _ example_key 0 "[]"]) simp_all
  moreover have "polling_step 0 (handleServices 0 example_marked) (Inr example_unregistered)"
    unfolding example_unregistered_def
    by (rule step_return [of _ _ example_key 0 "[]"]) (simp_all add: handleServices_def ServiceData_init_def signal_all_def)
  ultimately show ?thesis using polling_reach_step example_marked_reach by blast
qed

lemma example_unregistered_log:
  "ps_log example_unregistered = [ServiceRegistered example_key] @ UnregisterBegins example_key 0 # [UnregisterReturns example_key 0]"
  by (simp add: example_unregistered_def unregister_returns_def handleServices_def ServiceData_init_def)

section \<open>Properties\<close>

text \<open>
  C28. From the moment at which an unregistration has marked a service, and until the service is
  registered again, no thread begins to call it; once the unregistration has returned, no thread is
  still inside it.
\<close>

theorem unregistered_service_is_quiet:
  assumes "polling_reach s" "ps_log s = before @ UnregisterBegins k f # after"
    and "\<not> registered_in (service_id k) after"
  shows "\<not> called_in (service_id k) after \<and>
    (UnregisterReturns k f \<in> set after \<longrightarrow>
      (\<forall>th k'. service_id k' = service_id k \<longrightarrow> Callback k' \<notin> set (ps_stack s th)))"
proof -
  have log: "marked_in s (service_id k) f" "\<not> called_in (service_id k) after"
    "UnregisterReturns k f \<in> set (ps_log s) \<Longrightarrow> ps_unregistered s f"
    using reach_log_inv [OF assms(1)] assms(2,3) unfolding log_inv_def by blast+
  have "Callback k' \<notin> set (ps_stack s th)"
    if "UnregisterReturns k f \<in> set after" "service_id k' = service_id k" for th k'
  proof
    assume "Callback k' \<in> set (ps_stack s th)"
    then have "Inl (service_id k) \<in> tags (ps_stack s)" using tagsI that(2) by (metis frame_tag.simps(1))
    moreover have "service_map (ps_services s) (service_id k) = None"
      using log(1,3) that(1) assms(2) by (simp add: marked_def)
    ultimately show False
      using reach_inv [OF assms(1)] core_invD(2) by (fastforce simp: polling_inv_def)
  qed
  with log(2) show ?thesis by blast
qed

theorem unregistered_service_is_quiet_witness:
  "polling_reach example_unregistered \<and> UnregisterReturns example_key 0 \<in> set (ps_log example_unregistered) \<and>
   (\<forall>th. Callback example_key \<notin> set (ps_stack example_unregistered th))"
  using unregistered_service_is_quiet [OF example_unregistered_reach example_unregistered_log]
    example_unregistered_reach example_unregistered_log by (simp add: registered_in_def)

text \<open>
  C29. The iterator of a traversal stays valid while its service runs without the lock, whatever other
  threads do: the section after the service finds it, marked as processed. A service is run by one
  frame at a time, and a service that is marked points to the variable of a call that has not returned.
\<close>

theorem polling_traversals_safe:
  assumes "polling_reach s"
  shows "(ps_stack s th = Callback k # st \<longrightarrow> (\<exists>s'. callback_returns th k unregister s = Inr s')) \<and>
    (Callback k \<in> set (ps_stack s th) \<and> Callback k' \<in> set (ps_stack s th') \<and> service_id k = service_id k' \<longrightarrow>
      th = th' \<and> k = k' \<and> count_list (ps_stack s th) (Callback k) = 1) \<and>
    (find_service k (ps_services s) = Some d \<and> sd_discard d = Some f \<longrightarrow>
      \<not> ps_unregistered s f \<and> (\<exists>th k'. service_id k' = service_id k \<and> WaitUnregistered k' f \<in> set (ps_stack s th)))"
proof -
  have inv: "polling_inv s" by (rule reach_inv [OF assms])
  then have core: "core_inv (service_map (ps_services s)) (ps_unregistered s) (ps_calls s) (ps_stack s)"
    by (simp add: polling_inv_def)
  have one: "th = th' \<and> k = k' \<and> count_list (ps_stack s th) (Callback k) = 1"
    if "Callback k \<in> set (ps_stack s th)" "Callback k' \<in> set (ps_stack s th')" "service_id k = service_id k'"
  proof -
    have dist: "distinct (map frame_tag (ps_stack s th))"
      "th \<noteq> th' \<Longrightarrow> frame_tag ` set (ps_stack s th) \<inter> frame_tag ` set (ps_stack s th') = {}"
      using core_invD(1) [OF core] unfolding stacks_distinct_def by blast+
    have "frame_tag (Callback k) \<in> frame_tag ` set (ps_stack s th)" "frame_tag (Callback k) \<in> frame_tag ` set (ps_stack s th')"
      using that by (auto intro: rev_image_eqI)
    then have "th = th'" using dist(2) by blast
    moreover from this have "Callback k = Callback k'"
      using dist(1) that by (metis distinct_map frame_tag.simps(1) inj_onD)
    ultimately show ?thesis using that(1) dist(1) by (simp add: distinct_map distinct_count_list)
  qed
  have "\<not> ps_unregistered s f \<and> (\<exists>th k'. service_id k' = service_id k \<and> WaitUnregistered k' f \<in> set (ps_stack s th))"
    if "find_service k (ps_services s) = Some d" "sd_discard d = Some f"
    using that core_invD(3,4) [OF core, of "service_id k" d f] by (auto simp: waits_def)
  with one callback_returns_inv [OF inv] show ?thesis by blast
qed

theorem polling_traversals_safe_witness:
  "\<exists>s'. callback_returns 0 example_key False (handleServices 0 example_registered) = Inr s'"
  using polling_traversals_safe [OF example_in_callback(1), of 0 example_key "[]" False] example_in_callback(2) by simp



text \<open>
  When a service is registered again while an unregistration waits for it, the registration takes the
  mark back, and the waiting call never returns, whatever the threads do afterwards.
\<close>

lemma reregistration_blocks_unregister:
  assumes "polling_reach s" "WaitUnregistered k f \<in> set (ps_stack s th)"
    and "find_service k' (ps_services s) = Some d" "sd_discard d = Some f"
    and "register_polling_service k' s = Inr s'" "polling_run UNIV s' s''"
  shows "WaitUnregistered k f \<in> set (ps_stack s'' th) \<and> \<not> ps_unregistered s'' f"
proof -
  have "lost s' th k f"
    using register_loses [OF reach_inv [OF assms(1)] assms(2) _ assms(4,5)] assms(3) by simp
  then have "lost s'' th k f"
    using lost_run [OF assms(6)] register_polling_inv [OF reach_inv [OF assms(1)] assms(5)] by blast
  then show ?thesis by (simp add: lost_def)
qed

end
