(* ===== verification/N6_Locks.thy ===== *)
theory N6_Locks
  imports N6_Prelude
begin

text \<open>
  The spin lock (\<open>src/lowlevel/SpinLock.hpp\<close>, \<open>cxx/SpinLockImplementation.hpp\<close>), the readers-writer lock
  built from two of them (\<open>RWSpinLock.hpp\<close>) and the condition variable on which worker threads are
  suspended (\<open>ConditionVariable.hpp\<close>), as steps of any number of threads. The parameter \<open>debug\<close> chooses
  the template argument \<open>DEBUG_KIND\<close>: \<open>SpinLockOwnerDebug\<close> keeps the owner and checks it,
  \<open>SpinLockNoDebug\<close> does neither.
\<close>

section \<open>Owner of a lock\<close>

record spin_lock =
  sl_lock :: bool
  sl_owner :: "thread_ref option"

definition spin_lock_init :: spin_lock where
  "spin_lock_init = \<lparr>sl_lock = False, sl_owner = None\<rparr>"

definition assertCurrentOwner :: "bool \<Rightarrow> bool \<Rightarrow> thread_ref \<Rightarrow> spin_lock \<Rightarrow> 'a result \<Rightarrow> 'a result" where
  "assertCurrentOwner debug ignoreOwner th l k =
     (if debug then assert_that (ignoreOwner \<or> sl_owner l = Some th) ''_owner == getCurrentThread()'' k else k)"

definition assertUnowned :: "bool \<Rightarrow> spin_lock \<Rightarrow> 'a result \<Rightarrow> 'a result" where
  "assertUnowned debug l k = (if debug then assert_that (sl_owner l = None) ''_owner == nullptr'' k else k)"

definition assertNotCurrentOwner :: "bool \<Rightarrow> thread_ref \<Rightarrow> spin_lock \<Rightarrow> 'a result \<Rightarrow> 'a result" where
  "assertNotCurrentOwner debug th l k =
     (if debug then assert_that (sl_owner l \<noteq> Some th) ''_owner != getCurrentThread()'' k else k)"

definition setOwner :: "bool \<Rightarrow> thread_ref \<Rightarrow> spin_lock \<Rightarrow> spin_lock" where
  "setOwner debug th l = (if debug then l\<lparr>sl_owner := Some th\<rparr> else l)"

definition unsetOwner :: "bool \<Rightarrow> spin_lock \<Rightarrow> spin_lock" where
  "unsetOwner debug l = (if debug then l\<lparr>sl_owner := None\<rparr> else l)"

section \<open>Spin lock\<close>

subsection \<open>Steps\<close>

text \<open>
  Where a thread is: in front of the compare-exchange of \<open>lock\<close>, in the loop of plain reads with the
  reads that are left, after a successful exchange, owner of the lock, or in \<open>unlock\<close> before the store.
\<close>

datatype spin_phase =
    SpinIdle
  | SpinExchange
  | SpinReading int
  | SpinWon
  | SpinOwner
  | SpinReleasing

record spin_state =
  ss_lock :: spin_lock
  ss_phase :: "thread_ref \<Rightarrow> spin_phase"

definition spin_init :: spin_state where
  "spin_init = \<lparr>ss_lock = spin_lock_init, ss_phase = (\<lambda>_. SpinIdle)\<rparr>"

definition spin_goto :: "thread_ref \<Rightarrow> spin_phase \<Rightarrow> spin_state \<Rightarrow> spin_state" where
  "spin_goto th p s = s\<lparr>ss_phase := (ss_phase s)(th := p)\<rparr>"

definition SPIN_LOCK_READS_BETWEEN_CMPXCHG :: int where
  "SPIN_LOCK_READS_BETWEEN_CMPXCHG = 1000"

definition spin_lock_begin :: "bool \<Rightarrow> thread_ref \<Rightarrow> spin_state \<Rightarrow> spin_state result" where
  "spin_lock_begin debug th s = assertNotCurrentOwner debug th (ss_lock s) (Inr (spin_goto th SpinExchange s))"

text \<open>\<open>compare_exchange_weak\<close> may fail although the lock is free.\<close>

definition spin_exchange :: "thread_ref \<Rightarrow> bool \<Rightarrow> spin_state \<Rightarrow> spin_state result" where
  "spin_exchange th spurious s =
     (if \<not> sl_lock (ss_lock s) \<and> \<not> spurious
      then Inr (spin_goto th SpinWon (s\<lparr>ss_lock := (ss_lock s)\<lparr>sl_lock := True\<rparr>\<rparr>))
      else Inr (spin_goto th (SpinReading SPIN_LOCK_READS_BETWEEN_CMPXCHG) s))"

definition spin_read :: "thread_ref \<Rightarrow> int \<Rightarrow> spin_state \<Rightarrow> spin_state result" where
  "spin_read th spinsLeft s =
     Inr (spin_goto th (if sl_lock (ss_lock s) \<and> spinsLeft - 1 > 0 then SpinReading (spinsLeft - 1) else SpinExchange) s)"

definition spin_own :: "bool \<Rightarrow> thread_ref \<Rightarrow> spin_state \<Rightarrow> spin_state result" where
  "spin_own debug th s =
     assertUnowned debug (ss_lock s) (Inr (spin_goto th SpinOwner (s\<lparr>ss_lock := setOwner debug th (ss_lock s)\<rparr>)))"

definition spin_tryLock :: "bool \<Rightarrow> thread_ref \<Rightarrow> spin_state \<Rightarrow> spin_state result" where
  "spin_tryLock debug th s =
     assertNotCurrentOwner debug th (ss_lock s)
       (if \<not> sl_lock (ss_lock s)
        then Inr (spin_goto th SpinWon (s\<lparr>ss_lock := (ss_lock s)\<lparr>sl_lock := True\<rparr>\<rparr>))
        else Inr s)"

definition spin_unlock :: "bool \<Rightarrow> thread_ref \<Rightarrow> spin_state \<Rightarrow> spin_state result" where
  "spin_unlock debug th s =
     assertCurrentOwner debug False th (ss_lock s)
       (Inr (spin_goto th SpinReleasing (s\<lparr>ss_lock := unsetOwner debug (ss_lock s)\<rparr>)))"

definition spin_store :: "thread_ref \<Rightarrow> spin_state \<Rightarrow> spin_state result" where
  "spin_store th s = Inr (spin_goto th SpinIdle (s\<lparr>ss_lock := (ss_lock s)\<lparr>sl_lock := False\<rparr>\<rparr>))"

inductive spin_step :: "bool \<Rightarrow> spin_state \<Rightarrow> spin_state result \<Rightarrow> bool" for debug where
  "ss_phase s th = SpinIdle \<Longrightarrow> spin_step debug s (spin_lock_begin debug th s)"
| "ss_phase s th = SpinExchange \<Longrightarrow> spin_step debug s (spin_exchange th spurious s)"
| "ss_phase s th = SpinReading n \<Longrightarrow> spin_step debug s (spin_read th n s)"
| "ss_phase s th = SpinWon \<Longrightarrow> spin_step debug s (spin_own debug th s)"
| "ss_phase s th = SpinIdle \<Longrightarrow> spin_step debug s (spin_tryLock debug th s)"
| "ss_phase s th = SpinOwner \<Longrightarrow> spin_step debug s (spin_unlock debug th s)"
| "ss_phase s th = SpinReleasing \<Longrightarrow> spin_step debug s (spin_store th s)"

inductive spin_reach :: "bool \<Rightarrow> spin_state \<Rightarrow> bool" for debug where
  spin_reach_init: "spin_reach debug spin_init"
| spin_reach_step: "spin_reach debug s \<Longrightarrow> spin_step debug s (Inr s') \<Longrightarrow> spin_reach debug s'"

subsection \<open>An atomic lock\<close>

text \<open>The specification: a lock is free or held by one thread.\<close>

inductive atomic_lock_step :: "thread_ref option \<Rightarrow> thread_ref option \<Rightarrow> bool" where
  lock_stays: "atomic_lock_step h h"
| lock_acquired: "atomic_lock_step None (Some th)"
| lock_released: "atomic_lock_step (Some th) None"

definition spin_holds :: "spin_phase \<Rightarrow> bool" where
  "spin_holds p \<longleftrightarrow> p = SpinWon \<or> p = SpinOwner \<or> p = SpinReleasing"

text \<open>The thread that has exchanged the flag and has not stored it yet is the holder.\<close>

definition spin_refines :: "bool \<Rightarrow> spin_state \<Rightarrow> thread_ref option \<Rightarrow> bool" where
  "spin_refines debug s h \<longleftrightarrow>
     (\<forall>th. spin_holds (ss_phase s th) \<longleftrightarrow> h = Some th) \<and> (sl_lock (ss_lock s) \<longleftrightarrow> h \<noteq> None) \<and>
     (debug \<longrightarrow> (\<forall>th. sl_owner (ss_lock s) = Some th \<longleftrightarrow> ss_phase s th = SpinOwner))"

lemmas spin_defs = spin_refines_def spin_holds_def spin_goto_def setOwner_def unsetOwner_def
  assertUnowned_def assertNotCurrentOwner_def assertCurrentOwner_def

lemma spin_holder: "spin_refines debug s h \<Longrightarrow> spin_holds (ss_phase s th) \<Longrightarrow> h = Some th"
  by (simp add: spin_refines_def)

lemma spin_own_unowned:
  assumes "spin_refines debug s h" "ss_phase s th = SpinWon" debug
  shows "sl_owner (ss_lock s) = None"
proof (rule ccontr)
  assume "sl_owner (ss_lock s) \<noteq> None"
  then obtain u where u: "ss_phase s u = SpinOwner" using assms(1,3) by (auto simp: spin_refines_def)
  then have "h = Some u" "h = Some th" using assms(1,2) by (auto simp: spin_refines_def spin_holds_def)
  then show False using u assms(2) by simp
qed

lemma spin_goto_refines:
  assumes "spin_refines debug s h" "spin_holds p = spin_holds (ss_phase s th)" "p = SpinOwner \<longleftrightarrow> ss_phase s th = SpinOwner"
  shows "spin_refines debug (spin_goto th p s) h"
  using assms by (simp add: spin_refines_def spin_goto_def)

lemma spin_idle_not_owner:
  "spin_refines debug s h \<Longrightarrow> ss_phase s th = SpinIdle \<Longrightarrow> debug \<Longrightarrow> sl_owner (ss_lock s) \<noteq> Some th"
  by (auto simp: spin_refines_def)

lemma spin_step_refines:
  assumes "spin_step debug s r" "spin_refines debug s h"
  shows "\<exists>s' h'. r = Inr s' \<and> atomic_lock_step h h' \<and> spin_refines debug s' h'"
  using assms(1)
proof (cases rule: spin_step.cases)
  case (1 th)
  then have "r = Inr (spin_goto th SpinExchange s)"
    using spin_idle_not_owner [OF assms(2)] by (auto simp: spin_lock_begin_def assertNotCurrentOwner_def)
  moreover have "spin_refines debug (spin_goto th SpinExchange s) h"
    using 1(2) by (intro spin_goto_refines [OF assms(2)]) (simp_all add: spin_holds_def)
  ultimately show ?thesis using lock_stays by blast
next
  case (2 th spurious)
  show ?thesis
  proof (cases "\<not> sl_lock (ss_lock s) \<and> \<not> spurious")
    case True
    then have "h = None" using assms(2) by (auto simp: spin_refines_def)
    moreover have "spin_refines debug (spin_goto th SpinWon (s\<lparr>ss_lock := (ss_lock s)\<lparr>sl_lock := True\<rparr>\<rparr>)) (Some th)"
      using 2(2) assms(2) \<open>h = None\<close> by (auto simp: spin_defs)
    ultimately show ?thesis using 2(1) True lock_acquired by (auto simp: spin_exchange_def)
  next
    case False
    then have "spin_refines debug (spin_goto th (SpinReading SPIN_LOCK_READS_BETWEEN_CMPXCHG) s) h"
      using 2(2) by (intro spin_goto_refines [OF assms(2)]) (simp_all add: spin_holds_def)
    then show ?thesis using 2(1) False lock_stays by (auto simp: spin_exchange_def)
  qed
next
  case (3 th n)
  then have "spin_refines debug (spin_goto th p s) h" if "p = SpinExchange \<or> p = SpinReading (n - 1)" for p
    using that by (intro spin_goto_refines [OF assms(2)]) (auto simp: spin_holds_def)
  then show ?thesis using 3(1) lock_stays by (auto simp: spin_read_def)
next
  case (4 th)
  have "r = Inr (spin_goto th SpinOwner (s\<lparr>ss_lock := setOwner debug th (ss_lock s)\<rparr>))"
    using 4 spin_own_unowned [OF assms(2) 4(2)] by (auto simp: spin_own_def assertUnowned_def)
  moreover have "spin_refines debug (spin_goto th SpinOwner (s\<lparr>ss_lock := setOwner debug th (ss_lock s)\<rparr>)) h"
    using 4(2) assms(2) spin_own_unowned [OF assms(2) 4(2)] by (auto simp: spin_defs)
  ultimately show ?thesis using lock_stays by blast
next
  case (5 th)
  have r: "r = (if \<not> sl_lock (ss_lock s)
      then Inr (spin_goto th SpinWon (s\<lparr>ss_lock := (ss_lock s)\<lparr>sl_lock := True\<rparr>\<rparr>)) else Inr s)"
    using 5 spin_idle_not_owner [OF assms(2)] by (auto simp: spin_tryLock_def assertNotCurrentOwner_def)
  show ?thesis
  proof (cases "sl_lock (ss_lock s)")
    case True
    then show ?thesis using r assms(2) lock_stays by auto
  next
    case False
    then have "h = None" using assms(2) by (auto simp: spin_refines_def)
    moreover have "spin_refines debug (spin_goto th SpinWon (s\<lparr>ss_lock := (ss_lock s)\<lparr>sl_lock := True\<rparr>\<rparr>)) (Some th)"
      using 5(2) assms(2) \<open>h = None\<close> by (auto simp: spin_defs)
    ultimately show ?thesis using r False lock_acquired by auto
  qed
next
  case (6 th)
  then have "r = Inr (spin_goto th SpinReleasing (s\<lparr>ss_lock := unsetOwner debug (ss_lock s)\<rparr>))"
    using assms(2) by (auto simp: spin_unlock_def spin_refines_def assertCurrentOwner_def)
  moreover have "ss_phase s u \<noteq> SpinOwner" if "u \<noteq> th" for u
    using spin_holder [OF assms(2), of u] spin_holder [OF assms(2), of th] 6(2) that by (auto simp: spin_holds_def)
  then have "spin_refines debug (spin_goto th SpinReleasing (s\<lparr>ss_lock := unsetOwner debug (ss_lock s)\<rparr>)) h"
    using 6(2) assms(2) by (auto simp: spin_defs)
  ultimately show ?thesis using lock_stays by blast
next
  case (7 th)
  then have "h = Some th" using spin_holder [OF assms(2), of th] by (simp add: spin_holds_def)
  moreover have "\<not> spin_holds (ss_phase s u)" if "u \<noteq> th" for u
    using spin_holder [OF assms(2), of u] \<open>h = Some th\<close> that by auto
  then have "spin_refines debug (spin_goto th SpinIdle (s\<lparr>ss_lock := (ss_lock s)\<lparr>sl_lock := False\<rparr>\<rparr>)) None"
    using 7(2) assms(2) by (auto simp: spin_refines_def spin_goto_def spin_holds_def)
  ultimately show ?thesis using 7(1) lock_released by (auto simp: spin_store_def)
qed

lemma spin_reach_refines: "spin_reach debug s \<Longrightarrow> \<exists>h. spin_refines debug s h"
proof (induction rule: spin_reach.induct)
  case spin_reach_init
  have "spin_refines debug spin_init None" by (simp add: spin_defs spin_init_def spin_lock_init_def)
  then show ?case by blast
next
  case (spin_reach_step s s')
  then show ?case using spin_step_refines by blast
qed

section \<open>Readers-writer lock\<close>

subsection \<open>Steps\<close>

text \<open>
  \<open>lock\<close> and \<open>unlock\<close> of the inner spin locks as they appear to the other threads: \<open>lock\<close> checks the owner
  when it is entered and takes the lock when it finds it free.
\<close>

definition sl_take :: "bool \<Rightarrow> thread_ref \<Rightarrow> spin_lock \<Rightarrow> spin_lock result" where
  "sl_take debug th l = assertUnowned debug l (Inr (setOwner debug th (l\<lparr>sl_lock := True\<rparr>)))"

definition sl_unlock :: "bool \<Rightarrow> bool \<Rightarrow> thread_ref \<Rightarrow> spin_lock \<Rightarrow> spin_lock result" where
  "sl_unlock debug ignoreOwner th l =
     assertCurrentOwner debug ignoreOwner th l (Inr ((unsetOwner debug l)\<lparr>sl_lock := False\<rparr>))"

text \<open>
  Where a thread is: it waits for the readers lock, has it, waits for the writer lock as first reader,
  has counted itself, reads; and likewise when it leaves and when it writes.
\<close>

datatype rw_phase =
    RWIdle
  | ReadWantReaders
  | ReadHasReaders
  | ReadWantWriter
  | ReadCounted
  | Reading
  | UnreadWantReaders
  | UnreadHasReaders
  | UnreadCounted
  | WriteWantWriter
  | Writing

record rw_lock =
  rw_readersSpinLock :: spin_lock
  rw_readers :: int
  rw_writerSpinLock :: spin_lock
  rw_phase :: "thread_ref \<Rightarrow> rw_phase"

definition rw_init :: rw_lock where
  "rw_init = \<lparr>rw_readersSpinLock = spin_lock_init, rw_readers = 0, rw_writerSpinLock = spin_lock_init,
     rw_phase = (\<lambda>_. RWIdle)\<rparr>"

definition rw_goto :: "thread_ref \<Rightarrow> rw_phase \<Rightarrow> rw_lock \<Rightarrow> rw_lock" where
  "rw_goto th p s = s\<lparr>rw_phase := (rw_phase s)(th := p)\<rparr>"

definition rw_enter_readers :: "bool \<Rightarrow> thread_ref \<Rightarrow> rw_phase \<Rightarrow> rw_lock \<Rightarrow> rw_lock result" where
  "rw_enter_readers debug th p s = assertNotCurrentOwner debug th (rw_readersSpinLock s) (Inr (rw_goto th p s))"

definition rw_take_readers :: "bool \<Rightarrow> thread_ref \<Rightarrow> rw_phase \<Rightarrow> rw_lock \<Rightarrow> rw_lock result" where
  "rw_take_readers debug th p s =
     result_bind (sl_take debug th (rw_readersSpinLock s)) (\<lambda>l. Inr (rw_goto th p (s\<lparr>rw_readersSpinLock := l\<rparr>)))"

definition rw_take_writer :: "bool \<Rightarrow> thread_ref \<Rightarrow> rw_phase \<Rightarrow> rw_lock \<Rightarrow> rw_lock result" where
  "rw_take_writer debug th p s =
     result_bind (sl_take debug th (rw_writerSpinLock s)) (\<lambda>l. Inr (rw_goto th p (s\<lparr>rw_writerSpinLock := l\<rparr>)))"

definition rw_unlock_readers :: "bool \<Rightarrow> thread_ref \<Rightarrow> rw_phase \<Rightarrow> rw_lock \<Rightarrow> rw_lock result" where
  "rw_unlock_readers debug th p s =
     result_bind (sl_unlock debug False th (rw_readersSpinLock s)) (\<lambda>l. Inr (rw_goto th p (s\<lparr>rw_readersSpinLock := l\<rparr>)))"

text \<open>\<open>readLock\<close>: the increment of \<open>_readers\<close>; the first reader enters \<open>lock\<close> of the writer lock.\<close>

definition rw_count_reader :: "bool \<Rightarrow> thread_ref \<Rightarrow> rw_lock \<Rightarrow> rw_lock result" where
  "rw_count_reader debug th s =
     (let s' = s\<lparr>rw_readers := rw_readers s + 1\<rparr>
      in if rw_readers s' = 1
         then assertNotCurrentOwner debug th (rw_writerSpinLock s') (Inr (rw_goto th ReadWantWriter s'))
         else Inr (rw_goto th ReadCounted s'))"

text \<open>\<open>readUnlock\<close>: the decrement; the last reader unlocks the writer lock, whoever locked it.\<close>

definition rw_discount_reader :: "bool \<Rightarrow> thread_ref \<Rightarrow> rw_lock \<Rightarrow> rw_lock result" where
  "rw_discount_reader debug th s =
     (let s' = s\<lparr>rw_readers := rw_readers s - 1\<rparr>
      in if rw_readers s' = 0
         then result_bind (sl_unlock debug True th (rw_writerSpinLock s'))
                (\<lambda>l. Inr (rw_goto th UnreadCounted (s'\<lparr>rw_writerSpinLock := l\<rparr>)))
         else Inr (rw_goto th UnreadCounted s'))"

definition rw_writeLock :: "bool \<Rightarrow> thread_ref \<Rightarrow> rw_lock \<Rightarrow> rw_lock result" where
  "rw_writeLock debug th s = assertNotCurrentOwner debug th (rw_writerSpinLock s) (Inr (rw_goto th WriteWantWriter s))"

definition rw_writeUnlock :: "bool \<Rightarrow> thread_ref \<Rightarrow> rw_lock \<Rightarrow> rw_lock result" where
  "rw_writeUnlock debug th s =
     result_bind (sl_unlock debug False th (rw_writerSpinLock s)) (\<lambda>l. Inr (rw_goto th RWIdle (s\<lparr>rw_writerSpinLock := l\<rparr>)))"

inductive rw_step :: "bool \<Rightarrow> rw_lock \<Rightarrow> rw_lock result \<Rightarrow> bool" for debug where
  readLock: "rw_phase s th = RWIdle \<Longrightarrow> rw_step debug s (rw_enter_readers debug th ReadWantReaders s)"
| readLock_readers: "rw_phase s th = ReadWantReaders \<Longrightarrow> \<not> sl_lock (rw_readersSpinLock s) \<Longrightarrow>
    rw_step debug s (rw_take_readers debug th ReadHasReaders s)"
| readLock_count: "rw_phase s th = ReadHasReaders \<Longrightarrow> rw_step debug s (rw_count_reader debug th s)"
| readLock_writer: "rw_phase s th = ReadWantWriter \<Longrightarrow> \<not> sl_lock (rw_writerSpinLock s) \<Longrightarrow>
    rw_step debug s (rw_take_writer debug th ReadCounted s)"
| readLock_ends: "rw_phase s th = ReadCounted \<Longrightarrow> rw_step debug s (rw_unlock_readers debug th Reading s)"
| readUnlock: "rw_phase s th = Reading \<Longrightarrow> rw_step debug s (rw_enter_readers debug th UnreadWantReaders s)"
| readUnlock_readers: "rw_phase s th = UnreadWantReaders \<Longrightarrow> \<not> sl_lock (rw_readersSpinLock s) \<Longrightarrow>
    rw_step debug s (rw_take_readers debug th UnreadHasReaders s)"
| readUnlock_count: "rw_phase s th = UnreadHasReaders \<Longrightarrow> rw_step debug s (rw_discount_reader debug th s)"
| readUnlock_ends: "rw_phase s th = UnreadCounted \<Longrightarrow> rw_step debug s (rw_unlock_readers debug th RWIdle s)"
| writeLock: "rw_phase s th = RWIdle \<Longrightarrow> rw_step debug s (rw_writeLock debug th s)"
| writeLock_writer: "rw_phase s th = WriteWantWriter \<Longrightarrow> \<not> sl_lock (rw_writerSpinLock s) \<Longrightarrow>
    rw_step debug s (rw_take_writer debug th Writing s)"
| writeUnlock: "rw_phase s th = Writing \<Longrightarrow> rw_step debug s (rw_writeUnlock debug th s)"

inductive rw_reach :: "bool \<Rightarrow> rw_lock \<Rightarrow> bool" for debug where
  rw_reach_init: "rw_reach debug rw_init"
| rw_reach_step: "rw_reach debug s \<Longrightarrow> rw_step debug s (Inr s') \<Longrightarrow> rw_reach debug s'"

subsection \<open>Invariant\<close>

definition has_readers :: "rw_phase \<Rightarrow> bool" where
  "has_readers p \<longleftrightarrow> p \<in> {ReadHasReaders, ReadWantWriter, ReadCounted, UnreadHasReaders, UnreadCounted}"

definition counted :: "rw_phase \<Rightarrow> bool" where
  "counted p \<longleftrightarrow> p \<in> {ReadWantWriter, ReadCounted, Reading, UnreadWantReaders, UnreadHasReaders}"

text \<open>
  One thread has the readers lock; \<open>_readers\<close> counts the threads that are counted; the writer lock is
  taken while one thread writes or the counted readers hold it together, never both.
\<close>

definition rw_core :: "(thread_ref \<Rightarrow> rw_phase) \<Rightarrow> bool \<Rightarrow> int \<Rightarrow> bool \<Rightarrow> bool" where
  "rw_core f rl n wl \<longleftrightarrow>
     (\<forall>th th'. has_readers (f th) \<longrightarrow> has_readers (f th') \<longrightarrow> th = th') \<and>
     (rl \<longleftrightarrow> (\<exists>th. has_readers (f th))) \<and>
     finite {th. counted (f th)} \<and> n = int (card {th. counted (f th)}) \<and>
     (\<forall>th th'. f th = Writing \<longrightarrow> f th' = Writing \<longrightarrow> th = th') \<and>
     (\<forall>th. f th = ReadWantWriter \<longrightarrow> n = 1) \<and>
     (\<forall>th th'. f th = Writing \<longrightarrow> counted (f th') \<longrightarrow> f th' = ReadWantWriter) \<and>
     (wl \<longleftrightarrow> (\<exists>th. f th = Writing) \<or> n > 0 \<and> (\<forall>th. f th \<noteq> ReadWantWriter))"

definition rw_inv :: "rw_lock \<Rightarrow> bool" where
  "rw_inv s = rw_core (rw_phase s) (sl_lock (rw_readersSpinLock s)) (rw_readers s) (sl_lock (rw_writerSpinLock s))"

lemma card_upd:
  assumes "finite {t. P (f t)}"
  shows "finite {t. P ((f(x := y)) t)}"
    "int (card {t. P ((f(x := y)) t)}) = int (card {t. P (f t)}) + of_bool (P y) - of_bool (P (f x))"
proof -
  have eq: "{t. P ((f(x := y)) t)} = (if P y then insert x ({t. P (f t)} - {x}) else {t. P (f t)} - {x})"
    by (auto split: if_splits)
  show "finite {t. P ((f(x := y)) t)}" unfolding eq using assms by simp
  have "int (card ({t. P (f t)} - {x})) = int (card {t. P (f t)}) - of_bool (P (f x))"
  proof (cases "P (f x)")
    case True
    then have "x \<in> {t. P (f t)}" by simp
    then show ?thesis using assms True card_Suc_Diff1 [of "{t. P (f t)}" x] by simp
  next
    case False
    then show ?thesis by simp
  qed
  then show "int (card {t. P ((f(x := y)) t)}) = int (card {t. P (f t)}) + of_bool (P y) - of_bool (P (f x))"
    unfolding eq using assms by (auto simp: insert_absorb)
qed

lemma rw_coreD:
  assumes "rw_core f rl n wl"
  shows "has_readers (f th) \<Longrightarrow> has_readers (f th') \<Longrightarrow> th = th'"
    "rl \<longleftrightarrow> (\<exists>th. has_readers (f th))" "finite {th. counted (f th)}" "n = int (card {th. counted (f th)})"
    "f th = Writing \<Longrightarrow> f th' = Writing \<Longrightarrow> th = th'" "f th = ReadWantWriter \<Longrightarrow> n = 1"
    "f th = Writing \<Longrightarrow> counted (f th') \<Longrightarrow> f th' = ReadWantWriter"
    "wl \<longleftrightarrow> (\<exists>th. f th = Writing) \<or> n > 0 \<and> (\<forall>th. f th \<noteq> ReadWantWriter)"
  using assms unfolding rw_core_def by blast+

lemma rw_coreI:
  assumes "\<And>th th'. has_readers (f th) \<Longrightarrow> has_readers (f th') \<Longrightarrow> th = th'"
    "rl \<longleftrightarrow> (\<exists>th. has_readers (f th))" "finite {th. counted (f th)}" "n = int (card {th. counted (f th)})"
    "\<And>th th'. f th = Writing \<Longrightarrow> f th' = Writing \<Longrightarrow> th = th'" "\<And>th. f th = ReadWantWriter \<Longrightarrow> n = 1"
    "\<And>th th'. f th = Writing \<Longrightarrow> counted (f th') \<Longrightarrow> f th' = ReadWantWriter"
    "wl \<longleftrightarrow> (\<exists>th. f th = Writing) \<or> n > 0 \<and> (\<forall>th. f th \<noteq> ReadWantWriter)"
  shows "rw_core f rl n wl"
  unfolding rw_core_def using assms by blast

lemma counted_positive:
  assumes "rw_core f rl n wl" "counted (f th)"
  shows "n > 0"
proof -
  have "th \<in> {th. counted (f th)}" using assms(2) by simp
  then show ?thesis using rw_coreD(3,4) [OF assms(1)] by (metis card_gt_0_iff empty_iff of_nat_0_less_iff)
qed

lemma counted_exists:
  assumes "rw_core f rl n wl" "n \<noteq> 0"
  obtains th where "counted (f th)"
proof -
  have "{th. counted (f th)} \<noteq> {}"
  proof
    assume "{th. counted (f th)} = {}"
    then show False using rw_coreD(4) [OF assms(1)] assms(2) by simp
  qed
  then show thesis using that by blast
qed

lemma only_reader:
  assumes "rw_core f rl 1 wl" "counted (f th)" "counted (f th')"
  shows "th = th'"
proof -
  have "card {th. counted (f th)} = 1" using rw_coreD(4) [OF assms(1)] by simp
  then obtain x where "{th. counted (f th)} = {x}" by (rule card_1_singletonE)
  then show ?thesis using assms(2,3) by (metis mem_Collect_eq singletonD)
qed

text \<open>Steps that take or give the readers lock, and steps that touch neither lock.\<close>

lemma rw_core_readers:
  assumes "rw_core f rl n wl" "counted p = counted (f th)" "p = Writing \<longleftrightarrow> f th = Writing"
    "p = ReadWantWriter \<longleftrightarrow> f th = ReadWantWriter" "has_readers p \<Longrightarrow> has_readers (f th) \<or> \<not> rl"
    "rl' = (if has_readers p = has_readers (f th) then rl else has_readers p)"
  shows "rw_core (f(th := p)) rl' n wl"
proof -
  have sets: "counted ((f(th := p)) t) = counted (f t)" "(f(th := p)) t = Writing \<longleftrightarrow> f t = Writing"
    "(f(th := p)) t = ReadWantWriter \<longleftrightarrow> f t = ReadWantWriter" for t using assms(2-4) by auto
  have "t = t'" if "has_readers ((f(th := p)) t)" "has_readers ((f(th := p)) t')" for t t'
    using that assms(5) rw_coreD(1,2) [OF assms(1)] by (auto split: if_splits)
  moreover have "rl' \<longleftrightarrow> (\<exists>t. has_readers ((f(th := p)) t))"
  proof (cases "has_readers p = has_readers (f th)")
    case True
    then have "has_readers ((f(th := p)) t) = has_readers (f t)" for t by simp
    then show ?thesis using True assms(6) rw_coreD(2) [OF assms(1)] by simp
  next
    case False
    have "\<not> has_readers (f t)" if "t \<noteq> th" "\<not> has_readers p" for t
      using False that rw_coreD(1) [OF assms(1)] by blast
    then show ?thesis using False assms(6) by auto
  qed
  ultimately show ?thesis
    using assms(1) unfolding rw_core_def sets by blast
qed

lemma rw_core_count:
  assumes inv: "rw_core f rl n wl" and th: "f th = ReadHasReaders"
  shows "rw_core (f(th := (if n + 1 = 1 then ReadWantWriter else ReadCounted))) rl (n + 1) wl"
proof -
  define p where "p = (if n + 1 = 1 then ReadWantWriter else ReadCounted)"
  have p: "counted p" "has_readers p" "p \<noteq> Writing" "p = ReadWantWriter \<longleftrightarrow> n = 0"
    by (auto simp: p_def counted_def has_readers_def)
  have nc: "\<not> counted (f th)" "has_readers (f th)" using th by (simp_all add: counted_def has_readers_def)
  have has: "has_readers ((f(th := p)) t) = has_readers (f t)" for t using p(2) nc(2) by auto
  have card: "finite {t. counted ((f(th := p)) t)}" "n + 1 = int (card {t. counted ((f(th := p)) t)})"
    using card_upd [of counted f th p, OF rw_coreD(3) [OF inv]] rw_coreD(4) [OF inv] p(1) nc(1) by simp_all
  have wr: "(f(th := p)) t = Writing \<longleftrightarrow> f t = Writing" for t using p(3) th by auto
  have want: "f t \<noteq> ReadWantWriter" if "t \<noteq> th" for t
    using rw_coreD(1) [OF inv, of t th] nc(2) that by (auto simp: has_readers_def)
  have "(f(th := p)) t' = ReadWantWriter" if "f t = Writing" "counted ((f(th := p)) t')" for t t'
  proof (cases "t' = th")
    case True
    have "n = 0"
    proof (rule ccontr)
      assume "n \<noteq> 0"
      then obtain u where "counted (f u)" using counted_exists [OF inv] by blast
      then have "f u = ReadWantWriter" using rw_coreD(7) [OF inv that(1)] by blast
      then show False using want [of u] th by (cases "u = th") auto
    qed
    then show ?thesis using True p(4) by simp
  next
    case False
    then show ?thesis using that rw_coreD(7) [OF inv, of t t'] by simp
  qed
  moreover have "wl \<longleftrightarrow> (\<exists>t. f t = Writing) \<or> n + 1 > 0 \<and> (\<forall>t. (f(th := p)) t \<noteq> ReadWantWriter)"
  proof -
    have "n \<ge> 0" using rw_coreD(4) [OF inv] by simp
    moreover have "f t \<noteq> ReadWantWriter" for t using want [of t] th by (cases "t = th") auto
    moreover have "(\<forall>t. (f(th := p)) t \<noteq> ReadWantWriter) \<longleftrightarrow> n \<noteq> 0" using want p(4) by auto
    ultimately show ?thesis using rw_coreD(8) [OF inv] by auto
  qed
  moreover have "n + 1 = 1" if "(f(th := p)) t = ReadWantWriter" for t
    using that want [of t] p(4) by (auto split: if_splits)
  ultimately show ?thesis
    using inv card unfolding rw_core_def p_def [symmetric] has wr by blast
qed

lemma rw_core_discount:
  assumes inv: "rw_core f rl n wl" and th: "f th = UnreadHasReaders"
  shows "rw_core (f(th := UnreadCounted)) rl (n - 1) (if n - 1 = 0 then False else wl)"
proof -
  let ?p = UnreadCounted
  have c: "counted (f th)" "has_readers (f th)" "\<not> counted ?p" "has_readers ?p"
    using th by (simp_all add: counted_def has_readers_def)
  have has: "has_readers ((f(th := ?p)) t) = has_readers (f t)" for t using c by auto
  have card: "finite {t. counted ((f(th := ?p)) t)}" "n - 1 = int (card {t. counted ((f(th := ?p)) t)})"
    using card_upd [of counted f th ?p, OF rw_coreD(3) [OF inv]] rw_coreD(4) [OF inv] c by simp_all
  have nowr: "f t \<noteq> Writing" for t using rw_coreD(7) [OF inv, of t th] c(1) th by auto
  have want: "f t \<noteq> ReadWantWriter" for t
    using rw_coreD(1) [OF inv, of t th] c(2) th by (auto simp: has_readers_def)
  have wl: "wl" using rw_coreD(8) [OF inv] counted_positive [OF inv c(1)] want by blast
  have new: "(f(th := ?p)) t \<noteq> Writing" "(f(th := ?p)) t \<noteq> ReadWantWriter" for t using nowr want by auto
  have n: "n - 1 \<ge> 0" using counted_positive [OF inv c(1)] by simp
  show ?thesis
  proof (rule rw_coreI)
    show "rl \<longleftrightarrow> (\<exists>t. has_readers ((f(th := ?p)) t))" unfolding has by (rule rw_coreD(2) [OF inv])
    show "t = t'" if "has_readers ((f(th := ?p)) t)" "has_readers ((f(th := ?p)) t')" for t t'
      using rw_coreD(1) [OF inv] that unfolding has .
    show "(if n - 1 = 0 then False else wl) \<longleftrightarrow>
        (\<exists>t. (f(th := ?p)) t = Writing) \<or> n - 1 > 0 \<and> (\<forall>t. (f(th := ?p)) t \<noteq> ReadWantWriter)"
      using new wl n by auto
  qed (use card new in blast)+
qed

lemma rw_core_writer:
  assumes inv: "rw_core f rl n wl" and wl: "\<not> wl"
    and th: "f th = ReadWantWriter \<and> p = ReadCounted \<or> f th = WriteWantWriter \<and> p = Writing"
  shows "rw_core (f(th := p)) rl n True"
proof -
  have nowr: "f t \<noteq> Writing" for t using rw_coreD(8) [OF inv] wl by blast
  have has: "has_readers ((f(th := p)) t) = has_readers (f t)" for t using th by (auto simp: has_readers_def)
  have cnt: "counted ((f(th := p)) t) = counted (f t)" for t using th by (auto simp: counted_def)
  have alone: "f t = ReadWantWriter" if t: "counted (f t)" for t
  proof -
    obtain u where u: "f u = ReadWantWriter" using rw_coreD(8) [OF inv] wl counted_positive [OF inv t] by blast
    then have "n = 1" "counted (f u)" using rw_coreD(6) [OF inv] by (auto simp: counted_def)
    then show ?thesis using only_reader [of f rl wl t u] inv t u by metis
  qed
  have other: "f t \<noteq> ReadWantWriter" if "t \<noteq> th" "f th = ReadWantWriter" for t
    using only_reader [of f rl wl t th] inv rw_coreD(6) [OF inv that(2)] that by (auto simp: counted_def)
  show ?thesis
  proof (rule rw_coreI)
    show "rl \<longleftrightarrow> (\<exists>t. has_readers ((f(th := p)) t))" unfolding has by (rule rw_coreD(2) [OF inv])
    show "t = t'" if "has_readers ((f(th := p)) t)" "has_readers ((f(th := p)) t')" for t t'
      using rw_coreD(1) [OF inv] that unfolding has .
    show "t = t'" if "(f(th := p)) t = Writing" "(f(th := p)) t' = Writing" for t t'
      using that nowr by (auto split: if_splits)
    show "n = 1" if "(f(th := p)) t = ReadWantWriter" for t
      using that th rw_coreD(6) [OF inv, of t] by (auto split: if_splits)
    show "(f(th := p)) t' = ReadWantWriter" if "(f(th := p)) t = Writing" "counted ((f(th := p)) t')" for t t'
    proof -
      have p: "p = Writing" "t = th" using that(1) nowr by (auto split: if_splits)
      then have "f t' = ReadWantWriter" "t' \<noteq> th" using that(2) alone [of t'] th cnt [of t'] by auto
      then show ?thesis by simp
    qed
    show "True \<longleftrightarrow> (\<exists>t. (f(th := p)) t = Writing) \<or> n > 0 \<and> (\<forall>t. (f(th := p)) t \<noteq> ReadWantWriter)"
      using th other rw_coreD(6) [OF inv, of th] by auto
  qed (use rw_coreD(3,4) [OF inv] in \<open>unfold cnt\<close>)
qed

lemma rw_core_unwrite:
  assumes inv: "rw_core f rl n wl" and th: "f th = Writing"
  shows "rw_core (f(th := RWIdle)) rl n False"
proof -
  have has: "has_readers ((f(th := RWIdle)) t) = has_readers (f t)" for t using th by (auto simp: has_readers_def)
  have cnt: "counted ((f(th := RWIdle)) t) = counted (f t)" for t using th by (auto simp: counted_def)
  have nowr: "f t \<noteq> Writing" if "t \<noteq> th" for t using rw_coreD(5) [OF inv _ th] that by blast
  have "\<exists>t. f t = ReadWantWriter" if "n > 0"
    using counted_exists [OF inv] rw_coreD(7) [OF inv th] that by (metis less_irrefl)
  moreover have "(f(th := RWIdle)) t = ReadWantWriter" if "f t = ReadWantWriter" for t using that th by auto
  ultimately have want: "\<not> n > 0 \<or> (\<exists>t. (f(th := RWIdle)) t = ReadWantWriter)" by blast
  have no: "(f(th := RWIdle)) t \<noteq> Writing" for t using nowr by auto
  show ?thesis
  proof (rule rw_coreI)
    show "rl \<longleftrightarrow> (\<exists>t. has_readers ((f(th := RWIdle)) t))" unfolding has by (rule rw_coreD(2) [OF inv])
    show "t = t'" if "has_readers ((f(th := RWIdle)) t)" "has_readers ((f(th := RWIdle)) t')" for t t'
      using rw_coreD(1) [OF inv] that unfolding has .
    show "n = 1" if "(f(th := RWIdle)) t = ReadWantWriter" for t
      using that rw_coreD(6) [OF inv, of t] by (auto split: if_splits)
    show "False \<longleftrightarrow> (\<exists>t. (f(th := RWIdle)) t = Writing) \<or> n > 0 \<and> (\<forall>t. (f(th := RWIdle)) t \<noteq> ReadWantWriter)"
      using no want by blast
  qed (use rw_coreD(3,4) [OF inv] no in \<open>unfold cnt, blast+\<close>)
qed

lemma rw_goto_fields [simp]:
  "rw_phase (rw_goto th p s) = (rw_phase s)(th := p)" "rw_readersSpinLock (rw_goto th p s) = rw_readersSpinLock s"
  "rw_readers (rw_goto th p s) = rw_readers s" "rw_writerSpinLock (rw_goto th p s) = rw_writerSpinLock s"
  by (simp_all add: rw_goto_def)

lemma setOwner_lock [simp]: "sl_lock (setOwner debug th l) = sl_lock l"
  by (simp add: setOwner_def)

text \<open>The result of a step that does not fail.\<close>

lemma sl_take_Inr: "sl_take debug th l = Inr l' \<Longrightarrow> sl_lock l'"
  by (auto simp: sl_take_def assertUnowned_def split: if_splits)

lemma sl_unlock_Inr: "sl_unlock debug ig th l = Inr l' \<Longrightarrow> \<not> sl_lock l'"
  by (auto simp: sl_unlock_def assertCurrentOwner_def split: if_splits)

lemma rw_enter_readers_Inr: "rw_enter_readers debug th p s = Inr s' \<Longrightarrow> s' = rw_goto th p s"
  by (simp add: rw_enter_readers_def assertNotCurrentOwner_def split: if_splits)

lemma rw_take_readers_Inr:
  "rw_take_readers debug th p s = Inr s' \<Longrightarrow> \<exists>l. sl_lock l \<and> s' = rw_goto th p (s\<lparr>rw_readersSpinLock := l\<rparr>)"
  by (auto simp: rw_take_readers_def dest: sl_take_Inr)

lemma rw_take_writer_Inr:
  "rw_take_writer debug th p s = Inr s' \<Longrightarrow> \<exists>l. sl_lock l \<and> s' = rw_goto th p (s\<lparr>rw_writerSpinLock := l\<rparr>)"
  by (auto simp: rw_take_writer_def dest: sl_take_Inr)

lemma rw_unlock_readers_Inr:
  "rw_unlock_readers debug th p s = Inr s' \<Longrightarrow> \<exists>l. \<not> sl_lock l \<and> s' = rw_goto th p (s\<lparr>rw_readersSpinLock := l\<rparr>)"
  by (auto simp: rw_unlock_readers_def dest: sl_unlock_Inr)

lemma rw_count_reader_Inr:
  "rw_count_reader debug th s = Inr s' \<Longrightarrow>
   s' = rw_goto th (if rw_readers s + 1 = 1 then ReadWantWriter else ReadCounted) (s\<lparr>rw_readers := rw_readers s + 1\<rparr>)"
  by (auto simp: rw_count_reader_def assertNotCurrentOwner_def Let_def split: if_splits)

lemma rw_discount_reader_Inr:
  "rw_discount_reader debug th s = Inr s' \<Longrightarrow>
   \<exists>l. sl_lock l = (if rw_readers s - 1 = 0 then False else sl_lock (rw_writerSpinLock s)) \<and>
     s' = rw_goto th UnreadCounted (s\<lparr>rw_readers := rw_readers s - 1, rw_writerSpinLock := l\<rparr>)"
  by (auto simp: rw_discount_reader_def Let_def dest: sl_unlock_Inr split: if_splits
      intro: exI [of _ "rw_writerSpinLock s"])

lemma rw_writeLock_Inr: "rw_writeLock debug th s = Inr s' \<Longrightarrow> s' = rw_goto th WriteWantWriter s"
  by (simp add: rw_writeLock_def assertNotCurrentOwner_def split: if_splits)

lemma rw_writeUnlock_Inr:
  "rw_writeUnlock debug th s = Inr s' \<Longrightarrow> \<exists>l. \<not> sl_lock l \<and> s' = rw_goto th RWIdle (s\<lparr>rw_writerSpinLock := l\<rparr>)"
  by (auto simp: rw_writeUnlock_def dest: sl_unlock_Inr)

lemma rw_step_inv:
  assumes "rw_step debug s (Inr s')" "rw_inv s"
  shows "rw_inv s'"
proof -
  note core = assms(2) [unfolded rw_inv_def]
  note readers = rw_core_readers [OF core]
  note phases = has_readers_def counted_def
  from assms(1) show ?thesis
  proof (cases rule: rw_step.cases)
    case (readLock th)
    show ?thesis using rw_enter_readers_Inr [OF readLock(1) [symmetric]] readers [of ReadWantReaders th] readLock(2)
      by (simp add: rw_inv_def phases)
  next
    case (readLock_readers th)
    show ?thesis using rw_take_readers_Inr [OF readLock_readers(1) [symmetric]] readers [of ReadHasReaders th True] readLock_readers(2,3)
      by (auto simp: rw_inv_def phases)
  next
    case (readLock_count th)
    show ?thesis using rw_count_reader_Inr [OF readLock_count(1) [symmetric]] rw_core_count [OF core readLock_count(2)]
      by (simp add: rw_inv_def)
  next
    case (readLock_writer th)
    show ?thesis using rw_take_writer_Inr [OF readLock_writer(1) [symmetric]] rw_core_writer [OF core readLock_writer(3), of th ReadCounted] readLock_writer(2)
      by (auto simp: rw_inv_def)
  next
    case (readLock_ends th)
    show ?thesis using rw_unlock_readers_Inr [OF readLock_ends(1) [symmetric]] readers [of Reading th False] readLock_ends(2)
      by (auto simp: rw_inv_def phases)
  next
    case (readUnlock th)
    show ?thesis using rw_enter_readers_Inr [OF readUnlock(1) [symmetric]] readers [of UnreadWantReaders th] readUnlock(2)
      by (simp add: rw_inv_def phases)
  next
    case (readUnlock_readers th)
    show ?thesis using rw_take_readers_Inr [OF readUnlock_readers(1) [symmetric]] readers [of UnreadHasReaders th True] readUnlock_readers(2,3)
      by (auto simp: rw_inv_def phases)
  next
    case (readUnlock_count th)
    show ?thesis using rw_discount_reader_Inr [OF readUnlock_count(1) [symmetric]] rw_core_discount [OF core readUnlock_count(2)]
      by (auto simp: rw_inv_def split: if_splits)
  next
    case (readUnlock_ends th)
    show ?thesis using rw_unlock_readers_Inr [OF readUnlock_ends(1) [symmetric]] readers [of RWIdle th False] readUnlock_ends(2)
      by (auto simp: rw_inv_def phases)
  next
    case (writeLock th)
    show ?thesis using rw_writeLock_Inr [OF writeLock(1) [symmetric]] readers [of WriteWantWriter th] writeLock(2)
      by (simp add: rw_inv_def phases)
  next
    case (writeLock_writer th)
    show ?thesis using rw_take_writer_Inr [OF writeLock_writer(1) [symmetric]] rw_core_writer [OF core writeLock_writer(3), of th Writing] writeLock_writer(2)
      by (auto simp: rw_inv_def)
  next
    case (writeUnlock th)
    show ?thesis using rw_writeUnlock_Inr [OF writeUnlock(1) [symmetric]] rw_core_unwrite [OF core writeUnlock(2)]
      by (auto simp: rw_inv_def)
  qed
qed

lemma rw_reach_inv: "rw_reach debug s \<Longrightarrow> rw_inv s"
proof (induction rule: rw_reach.induct)
  case rw_reach_init
  show ?case by (simp add: rw_inv_def rw_core_def rw_init_def spin_lock_init_def has_readers_def counted_def)
next
  case (rw_reach_step s s')
  then show ?case using rw_step_inv by blast
qed

text \<open>Without the checks of the owner no step fails.\<close>

lemma no_debug [simp]:
  "assertCurrentOwner False ig th l k = k" "assertUnowned False l k = k" "assertNotCurrentOwner False th l k = k"
  by (simp_all add: assertCurrentOwner_def assertUnowned_def assertNotCurrentOwner_def)

lemma rw_step_no_debug:
  assumes "rw_step False s r"
  shows "\<exists>s'. r = Inr s'"
  using assms
  by (cases rule: rw_step.cases)
    (auto simp: rw_enter_readers_def rw_take_readers_def rw_count_reader_def rw_take_writer_def rw_unlock_readers_def
      rw_discount_reader_def rw_writeLock_def rw_writeUnlock_def sl_take_def sl_unlock_def Let_def)

section \<open>Condition variable\<close>

subsection \<open>Steps\<close>

text \<open>
  A thread that waits takes the mutex, sleeps on the inner condition variable while \<open>_signaled\<close> is false
  (which gives the mutex back), and takes the mutex again when it is woken, by \<open>notify_one\<close> or without
  reason. A thread that signals sets \<open>_signaled\<close> under the mutex and calls \<open>notify_one\<close> afterwards.
  Sections under the mutex are one step. \<open>cv_signals\<close> and \<open>cv_returns\<close> count and are read by no step.
\<close>

datatype cv_phase =
    CVIdle
  | CVSleeping
  | CVWoken
  | CVNotify

record condition_variable =
  cv_signaled :: bool
  cv_owner :: "thread_ref option"
  cv_phase :: "thread_ref \<Rightarrow> cv_phase"
  cv_signals :: nat
  cv_returns :: nat

definition cv_init :: condition_variable where
  "cv_init = \<lparr>cv_signaled = False, cv_owner = None, cv_phase = (\<lambda>_. CVIdle), cv_signals = 0, cv_returns = 0\<rparr>"

definition cv_goto :: "thread_ref \<Rightarrow> cv_phase \<Rightarrow> condition_variable \<Rightarrow> condition_variable" where
  "cv_goto th p s = s\<lparr>cv_phase := (cv_phase s)(th := p)\<rparr>"

text \<open>The loop of \<open>wait\<close> under the mutex: sleep, or take the signal and return.\<close>

definition cv_check :: "thread_ref \<Rightarrow> condition_variable \<Rightarrow> condition_variable" where
  "cv_check th s =
     (if \<not> cv_signaled s then cv_goto th CVSleeping s
      else cv_goto th CVIdle (s\<lparr>cv_signaled := False, cv_returns := cv_returns s + 1\<rparr>))"

text \<open>The first thread that waits becomes the owner, and only the owner may wait.\<close>

definition cv_wait :: "thread_ref \<Rightarrow> condition_variable \<Rightarrow> condition_variable result" where
  "cv_wait th s =
     (case cv_owner s of
        None \<Rightarrow> Inr (cv_check th (s\<lparr>cv_owner := Some th\<rparr>))
      | Some o' \<Rightarrow> assert_that (o' = th) ''_owner == currentThread'' (Inr (cv_check th s)))"

definition cv_signal :: "thread_ref \<Rightarrow> condition_variable \<Rightarrow> condition_variable result" where
  "cv_signal th s =
     assert_that (cv_owner s \<noteq> Some th) ''_owner != currentThread''
       (assert_that (\<not> cv_signaled s) ''_signaled == false''
         (Inr (cv_goto th CVNotify (s\<lparr>cv_signaled := True, cv_signals := cv_signals s + 1\<rparr>))))"

text \<open>\<open>notify_one\<close> wakes one of the sleeping threads, if there is any.\<close>

definition cv_notify :: "thread_ref \<Rightarrow> thread_ref option \<Rightarrow> condition_variable \<Rightarrow> condition_variable" where
  "cv_notify th w s = cv_goto th CVIdle (case w of Some u \<Rightarrow> cv_goto u CVWoken s | None \<Rightarrow> s)"

definition cv_isPresignaled :: "condition_variable \<Rightarrow> bool" where
  "cv_isPresignaled s = cv_signaled s"

definition cv_clearPresignal :: "condition_variable \<Rightarrow> condition_variable result" where
  "cv_clearPresignal s =
     assert_that (cv_signaled s) ''_signaled'' (Inr (s\<lparr>cv_signaled := False, cv_returns := cv_returns s + 1\<rparr>))"

text \<open>The thread that waits on the variable clears a signal instead of waiting for it (\<open>abortResumption\<close>).\<close>

inductive cv_step :: "condition_variable \<Rightarrow> condition_variable result \<Rightarrow> bool" where
  step_wait: "cv_phase s th = CVIdle \<Longrightarrow> cv_step s (cv_wait th s)"
| step_spurious: "cv_phase s th = CVSleeping \<Longrightarrow> cv_step s (Inr (cv_goto th CVWoken s))"
| step_recheck: "cv_phase s th = CVWoken \<Longrightarrow> cv_step s (Inr (cv_check th s))"
| step_signal: "cv_phase s th = CVIdle \<Longrightarrow> cv_step s (cv_signal th s)"
| step_notify_one: "cv_phase s th = CVNotify \<Longrightarrow> cv_phase s u = CVSleeping \<Longrightarrow> cv_step s (Inr (cv_notify th (Some u) s))"
| step_notify_none: "cv_phase s th = CVNotify \<Longrightarrow> (\<And>u. cv_phase s u \<noteq> CVSleeping) \<Longrightarrow> cv_step s (Inr (cv_notify th None s))"
| step_clear: "cv_owner s = Some th \<or> cv_owner s = None \<Longrightarrow> cv_phase s th = CVIdle \<Longrightarrow> cv_isPresignaled s \<Longrightarrow> cv_step s (cv_clearPresignal s)"

inductive cv_reach :: "condition_variable \<Rightarrow> bool" where
  cv_reach_init: "cv_reach cv_init"
| cv_reach_step: "cv_reach s \<Longrightarrow> cv_step s (Inr s') \<Longrightarrow> cv_reach s'"

subsection \<open>Invariant\<close>

definition cv_inv :: "condition_variable \<Rightarrow> bool" where
  "cv_inv s \<longleftrightarrow>
     (\<forall>th. cv_phase s th = CVSleeping \<or> cv_phase s th = CVWoken \<longrightarrow> cv_owner s = Some th) \<and>
     (\<forall>th. cv_phase s th = CVNotify \<longrightarrow> cv_owner s \<noteq> Some th) \<and>
     (\<forall>th. cv_signaled s \<longrightarrow> cv_phase s th = CVSleeping \<longrightarrow> (\<exists>u. cv_phase s u = CVNotify)) \<and>
     cv_signals s = cv_returns s + of_bool (cv_signaled s)"

end
