(* ===== verification/N6_LockTheorems.thy ===== *)
theory N6_LockTheorems
  imports N6_Locks
begin

text \<open>
  Properties of the spin lock, the readers-writer lock and the condition variable.
\<close>

section \<open>Condition variable\<close>

lemma cv_goto_fields [simp]:
  "cv_signaled (cv_goto th p s) = cv_signaled s" "cv_owner (cv_goto th p s) = cv_owner s"
  "cv_phase (cv_goto th p s) = (cv_phase s)(th := p)" "cv_signals (cv_goto th p s) = cv_signals s"
  "cv_returns (cv_goto th p s) = cv_returns s"
  by (simp_all add: cv_goto_def)








section \<open>Executions of the readers-writer lock\<close>

text \<open>The next step of a thread; an idle thread begins to write or to read. Spinning leaves the state as it is.\<close>

definition rw_move :: "bool \<Rightarrow> thread_ref \<times> bool \<Rightarrow> rw_lock \<Rightarrow> rw_lock result" where
  "rw_move debug m s =
     (case m of (th, write) \<Rightarrow> (case rw_phase s th of
        RWIdle \<Rightarrow> if write then rw_writeLock debug th s else rw_enter_readers debug th ReadWantReaders s
      | ReadWantReaders \<Rightarrow> if sl_lock (rw_readersSpinLock s) then Inr s else rw_take_readers debug th ReadHasReaders s
      | ReadHasReaders \<Rightarrow> rw_count_reader debug th s
      | ReadWantWriter \<Rightarrow> if sl_lock (rw_writerSpinLock s) then Inr s else rw_take_writer debug th ReadCounted s
      | ReadCounted \<Rightarrow> rw_unlock_readers debug th Reading s
      | Reading \<Rightarrow> rw_enter_readers debug th UnreadWantReaders s
      | UnreadWantReaders \<Rightarrow> if sl_lock (rw_readersSpinLock s) then Inr s else rw_take_readers debug th UnreadHasReaders s
      | UnreadHasReaders \<Rightarrow> rw_discount_reader debug th s
      | UnreadCounted \<Rightarrow> rw_unlock_readers debug th RWIdle s
      | WriteWantWriter \<Rightarrow> if sl_lock (rw_writerSpinLock s) then Inr s else rw_take_writer debug th Writing s
      | Writing \<Rightarrow> rw_writeUnlock debug th s))"

lemma rw_move_step: "rw_move debug m s = Inr s' \<Longrightarrow> s' = s \<or> rw_step debug s (Inr s')"
  using rw_step.intros [of s "fst m" debug]
  by (cases m) (auto simp: rw_move_def split: rw_phase.splits if_splits)

fun rw_moves :: "bool \<Rightarrow> (thread_ref \<times> bool) list \<Rightarrow> rw_lock \<Rightarrow> rw_lock result" where
  "rw_moves debug [] s = Inr s"
| "rw_moves debug (m # ms) s = result_bind (rw_move debug m s) (rw_moves debug ms)"

lemma rw_moves_reach: "rw_moves debug ms s = Inr s' \<Longrightarrow> rw_reach debug s \<Longrightarrow> rw_reach debug s'"
  by (induction ms arbitrary: s) (auto dest!: rw_move_step intro: rw_reach_step)

lemmas rw_move_defs = rw_move_def rw_enter_readers_def rw_take_readers_def rw_count_reader_def rw_take_writer_def
  rw_unlock_readers_def rw_discount_reader_def rw_writeLock_def rw_writeUnlock_def sl_take_def sl_unlock_def
  assertCurrentOwner_def assertUnowned_def assertNotCurrentOwner_def setOwner_def unsetOwner_def rw_goto_def

text \<open>Thread 0 begins to read, thread 1 reads as well, thread 0 stops reading.\<close>

definition first_reader_left :: "(thread_ref \<times> bool) list" where
  "first_reader_left = replicate 5 (0, False) @ replicate 4 (1, False) @ replicate 4 (0, False)"

lemma rw_moves_append: "rw_moves debug (ms @ ms') s = result_bind (rw_moves debug ms s) (rw_moves debug ms')"
  by (induction ms arbitrary: s) (auto simp: result_bind_def split: sum.splits)

lemma first_reader_left_state:
  "\<exists>s. rw_moves True first_reader_left rw_init = Inr s \<and> rw_phase s 0 = RWIdle \<and> rw_phase s 1 = Reading \<and>
     sl_owner (rw_writerSpinLock s) = Some 0"
  by (simp add: first_reader_left_def numeral_eq_Suc rw_move_defs rw_init_def spin_lock_init_def Let_def)

section \<open>Properties\<close>

text \<open>
  C31. The spin lock implements an atomic lock, with and without the checks of the owner: no assertion
  fails, and every step of a thread either leaves the holder as it is, gives a free lock to one thread, or
  frees the lock.
\<close>

theorem spin_lock_refines_atomic:
  assumes "spin_reach debug s"
  shows "\<exists>h. (\<forall>th. spin_holds (ss_phase s th) \<longleftrightarrow> h = Some th) \<and>
    (\<forall>r. spin_step debug s r \<longrightarrow>
      (\<exists>s' h'. r = Inr s' \<and> atomic_lock_step h h' \<and> (\<forall>th. spin_holds (ss_phase s' th) \<longleftrightarrow> h' = Some th)))"
proof -
  obtain h where h: "spin_refines debug s h" using spin_reach_refines [OF assms] by blast
  have "\<exists>s' h'. r = Inr s' \<and> atomic_lock_step h h' \<and> (\<forall>th. spin_holds (ss_phase s' th) \<longleftrightarrow> h' = Some th)"
    if step: "spin_step debug s r" for r
  proof -
    obtain s' h' where "r = Inr s'" "atomic_lock_step h h'" "spin_refines debug s' h'"
      using spin_step_refines [OF step h] by blast
    then show ?thesis by (auto simp: spin_refines_def)
  qed
  then show ?thesis using h by (auto simp: spin_refines_def)
qed

theorem spin_lock_refines_atomic_witness:
  "\<exists>h. (\<forall>th. spin_holds (ss_phase spin_init th) \<longleftrightarrow> h = Some th)"
  using spin_lock_refines_atomic [OF spin_reach_init, of True] by blast

text \<open>
  C32. The readers-writer lock excludes: while a thread writes, no other thread writes and none reads; the
  counter of readers is exact, and without the checks of the owner no step fails.
\<close>

theorem rw_lock_excludes:
  assumes "rw_reach debug s"
  shows "(rw_phase s th = Writing \<longrightarrow> (\<forall>th'. rw_phase s th' \<noteq> Reading \<and> (rw_phase s th' = Writing \<longrightarrow> th' = th))) \<and>
    rw_readers s = int (card {th. counted (rw_phase s th)}) \<and>
    (\<not> debug \<longrightarrow> rw_step debug s r \<longrightarrow> (\<exists>s'. r = Inr s'))"
proof -
  have core: "rw_core (rw_phase s) (sl_lock (rw_readersSpinLock s)) (rw_readers s) (sl_lock (rw_writerSpinLock s))"
    using rw_reach_inv [OF assms] by (simp add: rw_inv_def)
  have "rw_phase s th' \<noteq> Reading" if "rw_phase s th = Writing" for th'
    using rw_coreD(7) [OF core that, of th'] by (auto simp: counted_def)
  moreover have "th' = th" if "rw_phase s th = Writing" "rw_phase s th' = Writing" for th'
    using rw_coreD(5) [OF core that(2,1)] .
  moreover have "\<exists>s'. r = Inr s'" if "\<not> debug" "rw_step debug s r" using rw_step_no_debug that by simp
  ultimately show ?thesis using rw_coreD(4) [OF core] by blast
qed

theorem rw_lock_excludes_witness:
  "\<exists>s. rw_reach False s \<and> rw_phase s 0 = Writing \<and> rw_phase s 1 \<noteq> Reading \<and> rw_readers s = int (card {th. counted (rw_phase s th)})"
proof -
  obtain s where s: "rw_moves False [(0, True), (0, True)] rw_init = Inr s" "rw_phase s 0 = Writing"
    by (simp add: rw_move_defs rw_init_def spin_lock_init_def)
  have reach: "rw_reach False s" by (rule rw_moves_reach [OF s(1) rw_reach_init])
  show ?thesis using rw_lock_excludes [OF reach, of 0 "Inr s"] s(2) reach by auto
qed

text \<open>
  The check of the owner rejects correct programs: a thread that was the first reader and has stopped
  reading, while another thread still reads, is taken for the owner of the writer lock, and the assertion of
  its \<open>writeLock\<close> fails although it holds nothing.
\<close>

lemma first_reader_cannot_write:
  "\<exists>s. rw_reach True s \<and> rw_phase s 0 = RWIdle \<and> rw_phase s 1 = Reading \<and>
     rw_step True s (Inl (AssertFailed ''_owner != getCurrentThread()''))"
proof -
  obtain s where s: "rw_moves True first_reader_left rw_init = Inr s" "rw_phase s 0 = RWIdle" "rw_phase s 1 = Reading"
    "sl_owner (rw_writerSpinLock s) = Some 0" using first_reader_left_state by blast
  have "rw_reach True s" using rw_moves_reach [OF s(1) rw_reach_init] .
  moreover have "rw_step True s (rw_writeLock True 0 s)" by (rule writeLock) (simp add: s(2))
  ultimately show ?thesis
    using s(2-4) by (auto simp: rw_writeLock_def assertNotCurrentOwner_def assert_that_def)
qed



end
