(* ===== verification/N6_VirtualMemory.thy ===== *)
theory N6_VirtualMemory
  imports N6_Prelude
begin

text \<open>
  The memory that the run-time maps (\<open>src/memory/vmm/VirtualMemoryArea.hpp\<close>,
  \<open>VirtualMemoryAllocation.hpp\<close>, \<open>smp/VirtualMemoryManagement.hpp\<close> and \<open>.cpp\<close>). Addresses and sizes are
  natural numbers, the null pointer is 0, and the wrap-around of \<open>size_t\<close> is written out where a sum or a
  product may reach it. The kernel is a parameter \<open>mmap\<close>: given the existing mappings, a requested address
  and a size, it answers an address or fails; \<open>mmap_law\<close> states what the code relies on.

  The bytes of blocks are counted in multisets of addresses, such that two blocks are disjoint when no
  address is counted twice.
\<close>

section \<open>Sizes and blocks\<close>

definition wrap :: "nat \<Rightarrow> nat" where
  "wrap n = n mod 2 ^ 64"

definition ROUND_UP :: "nat \<Rightarrow> nat \<Rightarrow> nat" where
  "ROUND_UP s r = wrap (wrap (s + r - 1) div r * r)"

definition block :: "nat \<Rightarrow> nat \<Rightarrow> nat multiset" where
  "block a n = mset [a..<a + n]"

definition once :: "'a multiset \<Rightarrow> bool" where
  "once M \<longleftrightarrow> (\<forall>x. count M x \<le> 1)"

lemma wrap_small [simp]: "n < 2 ^ 64 \<Longrightarrow> wrap n = n"
  by (simp add: wrap_def)

lemma round_up_multiple:
  assumes "0 < (r::nat)"
  shows "s \<le> (s + r - 1) div r * r" "(s + r - 1) div r * r < s + r"
proof -
  have "s + r - 1 = (s + r - 1) div r * r + (s + r - 1) mod r" by simp
  moreover have "(s + r - 1) mod r < r" using assms by simp
  ultimately show "s \<le> (s + r - 1) div r * r" "(s + r - 1) div r * r < s + r" using assms by linarith+
qed

lemma ROUND_UP_bounds:
  assumes "0 < r" "s + r < 2 ^ 64"
  shows "ROUND_UP s r = (s + r - 1) div r * r" "s \<le> ROUND_UP s r" "ROUND_UP s r < s + r"
proof -
  show eq: "ROUND_UP s r = (s + r - 1) div r * r"
    using assms round_up_multiple [OF assms(1), of s] by (simp add: ROUND_UP_def)
  show "s \<le> ROUND_UP s r" "ROUND_UP s r < s + r"
    using round_up_multiple [OF assms(1), of s] by (simp_all only: eq)
qed

lemma ROUND_UP_mono: "s \<le> t \<Longrightarrow> 0 < r \<Longrightarrow> t + r < 2 ^ 64 \<Longrightarrow> ROUND_UP s r \<le> ROUND_UP t r"
  by (simp add: ROUND_UP_bounds(1) div_le_mono)

lemma block_0 [simp]: "block a 0 = {#}"
  by (simp add: block_def)

lemma block_add: "block a (m + n) = block a m + block (a + m) n"
  using upt_add_eq_append [of a "a + m" n] by (simp add: block_def add.assoc)

lemma block_split: "m \<le> n \<Longrightarrow> block a n = block a m + block (a + m) (n - m)"
  using block_add [of a m "n - m"] by simp

lemma count_block: "count (block a n) x = (if a \<le> x \<and> x < a + n then 1 else 0)"
  by (simp add: block_def distinct_count_atmost_1 count_mset_set flip: mset_set_upto_eq_mset_upto)

lemma in_block [simp]: "x \<in># block a n \<longleftrightarrow> a \<le> x \<and> x < a + n"
  by (simp add: block_def)

lemma block_mono: "m \<le> n \<Longrightarrow> block a m \<subseteq># block a n"
  by (simp add: block_split)

lemma once_sub: "once M \<Longrightarrow> N \<subseteq># M \<Longrightarrow> once N"
  unfolding once_def by (meson le_trans mset_subset_eq_count)

lemma once_disjoint: "once (M + N) \<Longrightarrow> x \<in># M \<Longrightarrow> x \<notin># N"
proof
  assume "once (M + N)" "x \<in># M" "x \<in># N"
  then have "count M x + count N x \<le> 1" "0 < count M x" "0 < count N x"
    by (simp_all add: once_def count_greater_zero_iff flip: count_union)
  then show False by linarith
qed

lemma once_addI: "once M \<Longrightarrow> once N \<Longrightarrow> (\<And>x. x \<in># M \<Longrightarrow> x \<notin># N) \<Longrightarrow> once (M + N)"
  unfolding once_def by (metis add.right_neutral add_0 count_greater_zero_iff count_union le_zero_eq not_gr_zero)

lemma once_block [simp]: "once (block a n)"
  by (simp add: once_def count_block)

text \<open>Blocks that are counted together are disjoint.\<close>

lemma once_blocks:
  assumes "once (block a m + block b n)" "0 < m" "0 < n"
  shows "a + m \<le> b \<or> b + n \<le> a"
proof (rule ccontr)
  assume "\<not> ?thesis"
  then have "max a b \<in># block a m" "max a b \<in># block b n" using assms(2,3) by simp_all
  then show False using once_disjoint [OF assms(1)] by blast
qed

section \<open>Areas\<close>

record VirtualMemoryArea =
  va_start :: nat
  va_size :: nat
  va_end :: nat
  va_nextFree :: nat
  va_available :: nat

definition VirtualMemoryArea_new :: "nat \<Rightarrow> nat \<Rightarrow> VirtualMemoryArea" where
  "VirtualMemoryArea_new address sz =
     \<lparr>va_start = address, va_size = sz, va_end = address + sz, va_nextFree = address, va_available = sz\<rparr>"

definition allocBlock :: "nat \<Rightarrow> nat \<Rightarrow> VirtualMemoryArea \<Rightarrow> nat \<times> VirtualMemoryArea" where
  "allocBlock pageSize requested vma =
     (let sz = ROUND_UP requested pageSize
      in if sz > va_available vma then (0, vma)
         else (va_nextFree vma,
               vma\<lparr>va_available := va_available vma - sz, va_nextFree := va_nextFree vma + sz\<rparr>))"

definition includesRange :: "nat \<Rightarrow> nat \<Rightarrow> VirtualMemoryArea \<Rightarrow> bool" where
  "includesRange address sz vma \<longleftrightarrow> address \<ge> va_start vma \<and> address + sz < va_end vma"

definition includesAddress :: "nat \<Rightarrow> VirtualMemoryArea \<Rightarrow> bool" where
  "includesAddress address vma \<longleftrightarrow> address \<ge> va_start vma \<and> address < va_end vma"

section \<open>Mappings and their division among the NUMA nodes\<close>

text \<open>A \<open>VirtualMemoryAllocation\<close> is its address and its size.\<close>

type_synonym mappings = "(nat \<times> nat) list"
type_synonym kernel = "mappings \<Rightarrow> nat \<Rightarrow> nat \<Rightarrow> nat option"

definition VirtualMemoryAllocation_new :: "kernel \<Rightarrow> mappings \<Rightarrow> nat \<Rightarrow> nat \<Rightarrow> (nat \<times> nat) result" where
  "VirtualMemoryAllocation_new mmap ms address sz =
     (case mmap ms address sz of
        None \<Rightarrow> Inl (FatalError ''mapping virtual address space failed'')
      | Some ret \<Rightarrow> Inr (ret, sz))"

record vmm =
  vm_pageSize :: nat
  vm_size :: nat
  vm_allocations :: mappings
  vm_localNUMAVMA :: "VirtualMemoryArea list list"

text \<open>The loop of \<open>setupMemoryLayout\<close> over the indices of the NUMA nodes.\<close>

fun layout_loop :: "nat \<Rightarrow> nat \<Rightarrow> nat \<Rightarrow> nat \<Rightarrow> nat list \<Rightarrow> VirtualMemoryArea list list \<Rightarrow> VirtualMemoryArea list list" where
  "layout_loop pageSize sizePerNUMA extraPages ptr [] vmas = vmas"
| "layout_loop pageSize sizePerNUMA extraPages ptr (nodeId # nodes) vmas =
     (let numaSize = (if extraPages > 0 then sizePerNUMA + pageSize else sizePerNUMA)
      in layout_loop pageSize sizePerNUMA (extraPages - 1) (ptr + numaSize) nodes
           (vmas[nodeId := (vmas ! nodeId) @ [VirtualMemoryArea_new ptr numaSize]]))"

text \<open>The exception of the processor at a division by zero is an error value, like an abort of the process.\<close>

definition setupMemoryLayout ::
  "nat \<Rightarrow> nat \<times> nat \<Rightarrow> nat list \<Rightarrow> VirtualMemoryArea list list \<Rightarrow> VirtualMemoryArea list list result" where
  "setupMemoryLayout pageSize allocation numaNodes vmas =
     (case allocation of (address, sz) \<Rightarrow>
        let numaNodeCount = length numaNodes; localPages = sz div pageSize
        in fail_if (numaNodeCount = 0) ''division by zero''
             (Inr (layout_loop pageSize (localPages div numaNodeCount * pageSize) (localPages mod numaNodeCount)
                address numaNodes vmas)))"

text \<open>
  \<open>initialize\<close>: \<open>env\<close> is the value of \<open>NANOS6_LOCAL_MEMORY\<close>, if it is set; the memory places of the host and
  the size of the physical memory come from the hardware description.
\<close>

definition vmm_initialize :: "kernel \<Rightarrow> nat \<Rightarrow> nat \<Rightarrow> nat option \<Rightarrow> nat list \<Rightarrow> vmm result" where
  "vmm_initialize mmap pageSize totalPhysicalMemory env numaNodes =
     (let requested = (case env of Some v \<Rightarrow> v | None \<Rightarrow> min (2 * 2 ^ 30) (totalPhysicalMemory div 20))
      in assert_that (requested > 0) ''_size > 0''
        (let sz = ROUND_UP requested pageSize
         in result_bind (VirtualMemoryAllocation_new mmap [] 0 sz) (\<lambda>allocation.
            result_bind (setupMemoryLayout pageSize allocation numaNodes (replicate (length numaNodes) [])) (\<lambda>vmas.
              Inr \<lparr>vm_pageSize = pageSize, vm_size = sz, vm_allocations = [allocation], vm_localNUMAVMA = vmas\<rparr>))))"

section \<open>Allocation\<close>

text \<open>
  \<open>allocLocalNUMA\<close> runs under the lock of the class. Calling \<open>back\<close> on an empty vector, or indexing a vector
  out of range, is an error value.
\<close>

definition allocLocalNUMA :: "kernel \<Rightarrow> nat \<Rightarrow> nat \<Rightarrow> vmm \<Rightarrow> (nat \<times> vmm) result" where
  "allocLocalNUMA mmap sz numaNodeId vm =
     assert_that (numaNodeId < length (vm_localNUMAVMA vm) \<and> vm_localNUMAVMA vm ! numaNodeId \<noteq> []) ''_localNUMAVMA[numaNodeId].back()''
       (let vmas = vm_localNUMAVMA vm ! numaNodeId;
            (ret, vma) = allocBlock (vm_pageSize vm) sz (last vmas)
        in if ret \<noteq> 0
           then Inr (ret, vm\<lparr>vm_localNUMAVMA := (vm_localNUMAVMA vm)[numaNodeId := butlast vmas @ [vma]]\<rparr>)
           else
             let allocation_size = ROUND_UP (if sz < vm_size vm then vm_size vm else wrap (2 * sz)) (vm_pageSize vm)
             in result_bind (VirtualMemoryAllocation_new mmap (vm_allocations vm) 0 allocation_size) (\<lambda>alloc.
                  let (ret, vma) = allocBlock (vm_pageSize vm) sz (VirtualMemoryArea_new (fst alloc) allocation_size)
                  in Inr (ret, vm\<lparr>vm_allocations := vm_allocations vm @ [alloc],
                       vm_localNUMAVMA := (vm_localNUMAVMA vm)[numaNodeId := vmas @ [vma]]\<rparr>)))"

definition findNUMA :: "nat \<Rightarrow> vmm \<Rightarrow> nat" where
  "findNUMA ptr vm =
     (case find_index_from 0 (list_ex (includesAddress ptr)) (vm_localNUMAVMA vm) of
        Some i \<Rightarrow> i
      | None \<Rightarrow> length (vm_localNUMAVMA vm))"

section \<open>What the code relies on and the invariant\<close>

text \<open>
  Sizes and addresses stay below \<open>max_address\<close>, far from the wrap-around: a mapping lies in the part of the
  address space that the kernel gives to a process, and does not overlap the existing ones.
\<close>

definition max_address :: nat where
  "max_address = 2 ^ 60"

definition mmap_law :: "kernel \<Rightarrow> bool" where
  "mmap_law mmap \<longleftrightarrow>
     (\<forall>ms sz a. mmap ms 0 sz = Some a \<longrightarrow>
        a \<noteq> 0 \<and> a + sz \<le> max_address \<and> (\<forall>(b, n) \<in> set ms. a + sz \<le> b \<or> b + n \<le> a))"

definition mapped :: "vmm \<Rightarrow> nat multiset" where
  "mapped vm = sum_list (map (\<lambda>(a, n). block a n) (vm_allocations vm))"

definition area_extent :: "VirtualMemoryArea \<Rightarrow> nat multiset" where
  "area_extent vma = block (va_start vma) (va_size vma)"

definition area_free :: "VirtualMemoryArea \<Rightarrow> nat multiset" where
  "area_free vma = block (va_nextFree vma) (va_available vma)"

definition over_areas :: "(VirtualMemoryArea \<Rightarrow> nat multiset) \<Rightarrow> VirtualMemoryArea list list \<Rightarrow> nat multiset" where
  "over_areas f vmass = sum_list (map (\<lambda>vmas. sum_list (map f vmas)) vmass)"

definition vm_free :: "vmm \<Rightarrow> nat multiset" where
  "vm_free vm = over_areas area_free (vm_localNUMAVMA vm)"

definition area_ok :: "VirtualMemoryArea \<Rightarrow> bool" where
  "area_ok vma \<longleftrightarrow> va_start vma \<noteq> 0 \<and> va_start vma \<le> va_nextFree vma \<and>
     va_nextFree vma + va_available vma = va_end vma \<and> va_end vma = va_start vma + va_size vma \<and>
     va_end vma \<le> max_address"

definition vm_ok :: "vmm \<Rightarrow> bool" where
  "vm_ok vm \<longleftrightarrow> 0 < vm_pageSize vm \<and> vm_pageSize vm \<le> max_address \<and> vm_size vm \<le> 2 * max_address \<and>
     (\<forall>vmas \<in> set (vm_localNUMAVMA vm). vmas \<noteq> [] \<and> (\<forall>vma \<in> set vmas. area_ok vma)) \<and>
     once (mapped vm) \<and> over_areas area_extent (vm_localNUMAVMA vm) \<subseteq># mapped vm"

section \<open>The laws of the operations\<close>

lemma over_areas_update:
  assumes "i < length vmass"
  shows "over_areas f (vmass[i := vmas]) + sum_list (map f (vmass ! i)) = over_areas f vmass + sum_list (map f vmas)"
  using sum_list_update_plus [OF assms, of "\<lambda>vmas. sum_list (map f vmas)" vmas] by (simp add: over_areas_def)

lemma allocBlock_none: "area_ok vma \<Longrightarrow> allocBlock page sz vma = (0, vma') \<Longrightarrow> vma' = vma \<and> va_available vma < ROUND_UP sz page"
  by (auto simp: allocBlock_def area_ok_def Let_def split: if_splits)

lemma allocBlock_some:
  assumes "area_ok vma" "allocBlock page sz vma = (ret, vma')" "ret \<noteq> 0"
  shows "area_free vma = block ret (ROUND_UP sz page) + area_free vma'" "area_extent vma' = area_extent vma"
    "area_ok vma'" "va_start vma \<le> ret" "ret + ROUND_UP sz page \<le> va_end vma"
    "va_start vma' = va_start vma" "va_end vma' = va_end vma"
  using assms by (auto simp: allocBlock_def area_ok_def area_free_def area_extent_def Let_def block_split split: if_splits)

lemma allocBlock_fits: "area_ok vma \<Longrightarrow> ROUND_UP sz page \<le> va_available vma \<Longrightarrow> fst (allocBlock page sz vma) \<noteq> 0"
  by (auto simp: allocBlock_def area_ok_def Let_def)

lemma area_new_ok: "a \<noteq> 0 \<Longrightarrow> a + n \<le> max_address \<Longrightarrow> area_ok (VirtualMemoryArea_new a n)"
  by (simp add: area_ok_def VirtualMemoryArea_new_def)

lemma area_new_simps [simp]:
  "area_free (VirtualMemoryArea_new a n) = block a n" "area_extent (VirtualMemoryArea_new a n) = block a n"
  "va_available (VirtualMemoryArea_new a n) = n"
  by (simp_all add: area_free_def area_extent_def VirtualMemoryArea_new_def)

lemma mapping_new:
  assumes "mmap_law mmap" "VirtualMemoryAllocation_new mmap ms 0 n = Inr alloc"
  shows "\<exists>a. alloc = (a, n) \<and> a \<noteq> 0 \<and> a + n \<le> max_address \<and> (\<forall>(b, m) \<in> set ms. a + n \<le> b \<or> b + m \<le> a)"
  using assms by (auto simp: VirtualMemoryAllocation_new_def mmap_law_def split: option.splits)

lemma mapped_fresh: "(\<forall>(b, m) \<in> set ms. a + n \<le> b \<or> b + m \<le> a) \<Longrightarrow> x \<in># block a n \<Longrightarrow>
  x \<notin># sum_list (map (\<lambda>(a, n). block a n) ms)"
  by (induction ms) auto

text \<open>
  Sizes that are requested stay below \<open>max_request\<close>, and sums of two of them below the wrap-around.
\<close>

definition max_request :: nat where
  "max_request = 4 * max_address"

lemma allocation_size_fits:
  assumes "vm_ok vm" "sz \<le> max_request"
  shows "ROUND_UP sz (vm_pageSize vm)
      \<le> ROUND_UP (if sz < vm_size vm then vm_size vm else wrap (2 * sz)) (vm_pageSize vm)"
proof -
  have "wrap (2 * sz) = 2 * sz" using assms(2) by (simp add: max_request_def max_address_def)
  then show ?thesis
    using assms by (intro ROUND_UP_mono) (auto simp: vm_ok_def max_request_def max_address_def)
qed

lemma vm_areas_ok: "vm_ok vm \<Longrightarrow> node < length (vm_localNUMAVMA vm) \<Longrightarrow> vma \<in> set (vm_localNUMAVMA vm ! node) \<Longrightarrow> area_ok vma"
  by (auto simp: vm_ok_def)

lemma areas_ok_update:
  assumes "vm_ok vm" "vmas \<noteq> []" "\<forall>vma \<in> set vmas. area_ok vma"
  shows "\<forall>ws \<in> set ((vm_localNUMAVMA vm)[node := vmas]). ws \<noteq> [] \<and> (\<forall>w \<in> set ws. area_ok w)"
  using assms by (auto simp: vm_ok_def dest!: set_update_subset_insert [THEN subsetD])

text \<open>A block of the last area of the node.\<close>

lemma alloc_from_last:
  assumes ok: "vm_ok vm" and node: "node < length (vm_localNUMAVMA vm)" "vm_localNUMAVMA vm ! node = rest @ [v]"
    and alloc: "allocBlock (vm_pageSize vm) sz v = (ret, v')" "ret \<noteq> 0"
  defines "vm' \<equiv> vm\<lparr>vm_localNUMAVMA := (vm_localNUMAVMA vm)[node := rest @ [v']]\<rparr>"
  shows "vm_ok vm' \<and> vm_free vm' + block ret (ROUND_UP sz (vm_pageSize vm)) = vm_free vm \<and>
    ret + ROUND_UP sz (vm_pageSize vm) \<le> max_address"
proof -
  have okv: "\<forall>w \<in> set (rest @ [v]). area_ok w" using vm_areas_ok [OF ok node(1)] node(2) by simp
  then have "area_ok v" by simp
  note laws = allocBlock_some [OF this alloc]
  note upd = over_areas_update [OF node(1), of _ "rest @ [v']"]
  have "over_areas area_extent (vm_localNUMAVMA vm') = over_areas area_extent (vm_localNUMAVMA vm)"
    using upd [of area_extent] by (simp add: node(2) laws vm'_def)
  moreover have "\<forall>ws \<in> set (vm_localNUMAVMA vm'). ws \<noteq> [] \<and> (\<forall>w \<in> set ws. area_ok w)"
    using areas_ok_update [OF ok, of "rest @ [v']"] okv laws(3) by (auto simp: vm'_def)
  ultimately have "vm_ok vm'" using ok by (simp add: vm_ok_def vm'_def mapped_def)
  moreover have "vm_free vm' + block ret (ROUND_UP sz (vm_pageSize vm)) = vm_free vm"
    using upd [of area_free] by (simp add: node(2) laws vm_free_def vm'_def)
  ultimately show ?thesis using laws(5) okv by (simp add: area_ok_def)
qed

text \<open>A block of a new area over the whole of a new mapping.\<close>

lemma alloc_from_new:
  assumes ok: "vm_ok vm" and node: "node < length (vm_localNUMAVMA vm)"
    and a: "a \<noteq> 0" "a + n \<le> max_address" "\<forall>(b, m) \<in> set (vm_allocations vm). a + n \<le> b \<or> b + m \<le> a"
    and alloc: "allocBlock (vm_pageSize vm) sz (VirtualMemoryArea_new a n) = (ret, w)" "ROUND_UP sz (vm_pageSize vm) \<le> n"
  defines "vm' \<equiv> vm\<lparr>vm_allocations := vm_allocations vm @ [(a, n)],
      vm_localNUMAVMA := (vm_localNUMAVMA vm)[node := vm_localNUMAVMA vm ! node @ [w]]\<rparr>"
  shows "vm_ok vm' \<and> vm_free vm' + block ret (ROUND_UP sz (vm_pageSize vm)) + mapped vm = vm_free vm + mapped vm' \<and>
    ret \<noteq> 0 \<and> ret + ROUND_UP sz (vm_pageSize vm) \<le> max_address"
proof -
  have okn: "area_ok (VirtualMemoryArea_new a n)" using a by (intro area_new_ok)
  have ret: "ret \<noteq> 0" using allocBlock_fits [OF okn] alloc by fastforce
  note laws = allocBlock_some [OF okn alloc(1) ret]
  note upd = over_areas_update [OF node, of _ "vm_localNUMAVMA vm ! node @ [w]"]
  have mapped: "mapped vm' = mapped vm + block a n" by (simp add: mapped_def vm'_def)
  have "over_areas area_extent (vm_localNUMAVMA vm') = over_areas area_extent (vm_localNUMAVMA vm) + block a n"
    using upd [of area_extent] laws(2) by (simp add: vm'_def)
  moreover have "x \<notin># block a n" if "x \<in># mapped vm" for x
    using mapped_fresh [OF a(3), of x] that unfolding mapped_def by blast
  then have "once (mapped vm + block a n)" using ok by (intro once_addI) (simp_all add: vm_ok_def)
  moreover have "\<forall>ws \<in> set (vm_localNUMAVMA vm'). ws \<noteq> [] \<and> (\<forall>w \<in> set ws. area_ok w)"
    using areas_ok_update [OF ok, of "vm_localNUMAVMA vm ! node @ [w]"] vm_areas_ok [OF ok node] laws(3)
    by (auto simp: vm'_def)
  ultimately have "vm_ok vm'" using ok by (simp add: vm_ok_def mapped) (simp add: vm'_def)
  moreover have "vm_free vm' + block ret (ROUND_UP sz (vm_pageSize vm)) = vm_free vm + block a n"
    using upd [of area_free] laws(1) by (simp add: vm_free_def vm'_def add.commute add.left_commute)
  ultimately show ?thesis using ret laws(5) a(2) by (simp add: mapped VirtualMemoryArea_new_def)
qed

definition mapping_size :: "nat \<Rightarrow> vmm \<Rightarrow> nat" where
  "mapping_size sz vm = ROUND_UP (if sz < vm_size vm then vm_size vm else wrap (2 * sz)) (vm_pageSize vm)"

lemma allocLocalNUMA_cases:
  assumes "allocLocalNUMA mmap sz node vm = Inr (ret, vm')"
  obtains (last) rest v v' where "node < length (vm_localNUMAVMA vm)" "vm_localNUMAVMA vm ! node = rest @ [v]"
      "allocBlock (vm_pageSize vm) sz v = (ret, v')" "ret \<noteq> 0"
      "vm' = vm\<lparr>vm_localNUMAVMA := (vm_localNUMAVMA vm)[node := rest @ [v']]\<rparr>"
  | (new) a w where "node < length (vm_localNUMAVMA vm)"
      "VirtualMemoryAllocation_new mmap (vm_allocations vm) 0 (mapping_size sz vm) = Inr (a, mapping_size sz vm)"
      "allocBlock (vm_pageSize vm) sz (VirtualMemoryArea_new a (mapping_size sz vm)) = (ret, w)"
      "vm' = vm\<lparr>vm_allocations := vm_allocations vm @ [(a, mapping_size sz vm)],
        vm_localNUMAVMA := (vm_localNUMAVMA vm)[node := vm_localNUMAVMA vm ! node @ [w]]\<rparr>"
proof -
  have node: "node < length (vm_localNUMAVMA vm)" "vm_localNUMAVMA vm ! node \<noteq> []"
    using assms by (simp_all add: allocLocalNUMA_def)
  obtain rest v where vmas: "vm_localNUMAVMA vm ! node = rest @ [v]" using node(2) by (metis rev_exhaust)
  obtain r v' where b: "allocBlock (vm_pageSize vm) sz v = (r, v')" by fastforce
  show thesis
  proof (cases "r = 0")
    case False
    then show thesis using assms b vmas node(1) by (intro last) (auto simp: allocLocalNUMA_def)
  next
    case True
    then obtain al where al: "VirtualMemoryAllocation_new mmap (vm_allocations vm) 0 (mapping_size sz vm) = Inr al"
      and vm': "Inr (ret, vm') = (let (ret, w) = allocBlock (vm_pageSize vm) sz (VirtualMemoryArea_new (fst al) (mapping_size sz vm))
        in Inr (ret, vm\<lparr>vm_allocations := vm_allocations vm @ [al],
             vm_localNUMAVMA := (vm_localNUMAVMA vm)[node := vm_localNUMAVMA vm ! node @ [w]]\<rparr>) :: (nat \<times> vmm) result)"
      using assms b vmas by (auto simp: allocLocalNUMA_def Let_def mapping_size_def)
    obtain a where a: "al = (a, mapping_size sz vm)" using al by (auto simp: VirtualMemoryAllocation_new_def split: option.splits)
    obtain r' w where "allocBlock (vm_pageSize vm) sz (VirtualMemoryArea_new a (mapping_size sz vm)) = (r', w)" by fastforce
    then show thesis using new [of a w] node(1) al vm' by (simp add: a)
  qed
qed

lemma new_area_serves:
  assumes ok: "vm_ok vm" and mmap: "mmap_law mmap" and size: "sz \<le> max_request"
    and al: "VirtualMemoryAllocation_new mmap (vm_allocations vm) 0 (mapping_size sz vm) = Inr (a, mapping_size sz vm)"
  shows "a \<noteq> 0" "a + mapping_size sz vm \<le> max_address"
    "\<forall>(b, m) \<in> set (vm_allocations vm). a + mapping_size sz vm \<le> b \<or> b + m \<le> a"
    "ROUND_UP sz (vm_pageSize vm) \<le> mapping_size sz vm" "area_ok (VirtualMemoryArea_new a (mapping_size sz vm))"
proof -
  from mapping_new [OF mmap al] show a: "a \<noteq> 0" "a + mapping_size sz vm \<le> max_address"
    "\<forall>(b, m) \<in> set (vm_allocations vm). a + mapping_size sz vm \<le> b \<or> b + m \<le> a" by auto
  show "ROUND_UP sz (vm_pageSize vm) \<le> mapping_size sz vm"
    using allocation_size_fits [OF ok size] by (simp only: mapping_size_def)
  show "area_ok (VirtualMemoryArea_new a (mapping_size sz vm))" using a by (intro area_new_ok)
qed

lemma request_rounded: "vm_ok vm \<Longrightarrow> sz \<le> max_request \<Longrightarrow> sz \<le> ROUND_UP sz (vm_pageSize vm)"
  by (intro ROUND_UP_bounds(2)) (auto simp: vm_ok_def max_request_def max_address_def)

lemma allocLocalNUMA_law:
  assumes ok: "vm_ok vm" and mmap: "mmap_law mmap" and size: "sz \<le> max_request"
    and alloc: "allocLocalNUMA mmap sz node vm = Inr (ret, vm')"
  shows "vm_ok vm' \<and> vm_free vm' + block ret sz + mapped vm \<subseteq># vm_free vm + mapped vm' \<and> ret \<noteq> 0 \<and>
    ret + sz \<le> max_address"
proof -
  let ?n = "ROUND_UP sz (vm_pageSize vm)"
  have "vm_ok vm' \<and> vm_free vm' + block ret ?n + mapped vm \<subseteq># vm_free vm + mapped vm' \<and> ret \<noteq> 0 \<and> ret + ?n \<le> max_address"
    using alloc
  proof (cases rule: allocLocalNUMA_cases)
    case (last rest v v')
    then show ?thesis using alloc_from_last [OF ok last(1-4)] by (simp add: mapped_def)
  next
    case (new a w)
    note a = new_area_serves [OF ok mmap size new(2)]
    then show ?thesis using alloc_from_new [OF ok new(1) a(1-3) new(3) a(4)] new(4) by simp
  qed
  moreover have "block ret sz \<subseteq># block ret ?n" using request_rounded [OF ok size] by (rule block_mono)
  ultimately show ?thesis
    using request_rounded [OF ok size]
    by (meson dual_order.trans add_left_mono subset_mset.add_left_mono subset_mset.add_right_mono subset_mset.order_trans)
qed

section \<open>The layout at the start\<close>

lemma layout_loop_length [simp]: "length (layout_loop page per extra ptr nodes vmas) = length vmas"
  by (induction page per extra ptr nodes vmas rule: layout_loop.induct) (simp_all add: Let_def)

lemma layout_size: "Suc n * per + min extra (Suc n) * page =
    (if extra > 0 then per + page else per) + (n * per + min (extra - 1) n * page)"
  by (cases extra) (simp_all add: min_def algebra_simps)

lemma over_areas_empty [simp]: "over_areas f (replicate n []) = {#}"
  by (induction n) (simp_all add: over_areas_def)

lemma layout_loop_bytes:
  assumes "\<And>a n. f (VirtualMemoryArea_new a n) = block a n" "set nodes \<subseteq> {..<length vmas}"
  shows "over_areas f (layout_loop page per extra ptr nodes vmas) =
    over_areas f vmas + block ptr (length nodes * per + min extra (length nodes) * page)"
  using assms(2)
proof (induction page per extra ptr nodes vmas rule: layout_loop.induct)
  case (2 page per extra ptr nodeId nodes vmas)
  let ?n = "if extra > 0 then per + page else per"
  have "over_areas f (vmas[nodeId := vmas ! nodeId @ [VirtualMemoryArea_new ptr ?n]]) = over_areas f vmas + block ptr ?n"
    using over_areas_update [of nodeId vmas f "vmas ! nodeId @ [VirtualMemoryArea_new ptr ?n]"] 2(2) assms(1) by simp
  then show ?case
    using 2(1) [OF refl] 2(2) by (simp only: layout_loop.simps Let_def length_Cons layout_size block_add [of ptr ?n]
        length_list_update list.set insert_subset add.assoc)
qed simp

lemma layout_loop_ok:
  assumes "ptr \<noteq> 0" "ptr + (length nodes * per + min extra (length nodes) * page) \<le> max_address"
    and "set nodes \<subseteq> {..<length vmas}" "\<forall>ws \<in> set vmas. \<forall>w \<in> set ws. area_ok w"
  shows "(\<forall>ws \<in> set (layout_loop page per extra ptr nodes vmas). \<forall>w \<in> set ws. area_ok w) \<and>
    (\<forall>i < length vmas. i \<in> set nodes \<or> vmas ! i \<noteq> [] \<longrightarrow> layout_loop page per extra ptr nodes vmas ! i \<noteq> [])"
  using assms
proof (induction page per extra ptr nodes vmas rule: layout_loop.induct)
  case (2 page per extra ptr nodeId nodes vmas)
  let ?n = "if extra > 0 then per + page else per"
  let ?vmas = "vmas[nodeId := vmas ! nodeId @ [VirtualMemoryArea_new ptr ?n]]"
  have size: "length (nodeId # nodes) * per + min extra (length (nodeId # nodes)) * page
      = ?n + (length nodes * per + min (extra - 1) (length nodes) * page)" by (simp only: length_Cons layout_size)
  have "\<forall>w \<in> set (vmas ! nodeId). area_ok w" using 2(4,5) nth_mem by auto
  moreover have "area_ok (VirtualMemoryArea_new ptr ?n)" using 2(2,3) unfolding size by (intro area_new_ok) simp_all
  ultimately have "\<forall>ws \<in> set ?vmas. \<forall>w \<in> set ws. area_ok w"
    using 2(5) by (auto dest!: set_update_subset_insert [THEN subsetD])
  then have IH: "(\<forall>ws \<in> set (layout_loop page per (extra - 1) (ptr + ?n) nodes ?vmas). \<forall>w \<in> set ws. area_ok w) \<and>
    (\<forall>i < length ?vmas. i \<in> set nodes \<or> ?vmas ! i \<noteq> [] \<longrightarrow> layout_loop page per (extra - 1) (ptr + ?n) nodes ?vmas ! i \<noteq> [])"
    using 2(2-4) unfolding size by (intro 2(1) [OF refl]) simp_all
  moreover have "?vmas ! i \<noteq> []" if "i < length vmas" "i = nodeId \<or> vmas ! i \<noteq> []" for i
    using that 2(4) by (auto simp: nth_list_update)
  ultimately show ?case by (simp add: Let_def)
qed simp

lemma vmm_initialize_law:
  assumes mmap: "mmap_law mmap" and page: "0 < page" "page \<le> max_address"
    and nodes: "set nodes = {..<length nodes}" and env: "case env of Some v \<Rightarrow> v \<le> max_address | None \<Rightarrow> True"
    and init: "vmm_initialize mmap page phys env nodes = Inr vm"
  shows "vm_ok vm \<and> vm_free vm \<subseteq># mapped vm \<and> length (vm_localNUMAVMA vm) = length nodes"
proof -
  define sz where "sz = ROUND_UP (case env of Some v \<Rightarrow> v | None \<Rightarrow> min (2 * 2 ^ 30) (phys div 20)) page"
  obtain alloc vmas where al: "VirtualMemoryAllocation_new mmap [] 0 sz = Inr alloc"
    "setupMemoryLayout page alloc nodes (replicate (length nodes) []) = Inr vmas"
    and vm: "vm = \<lparr>vm_pageSize = page, vm_size = sz, vm_allocations = [alloc], vm_localNUMAVMA = vmas\<rparr>"
    using init by (auto simp: vmm_initialize_def Let_def sz_def)
  obtain a where a: "alloc = (a, sz)" "a \<noteq> 0" "a + sz \<le> max_address" using mapping_new [OF mmap al(1)] by blast
  define per where "per = sz div page div length nodes * page"
  define extra where "extra = sz div page mod length nodes"
  have n: "length nodes \<noteq> 0" and vmas: "vmas = layout_loop page per extra a nodes (replicate (length nodes) [])"
    using al(2) by (auto simp: setupMemoryLayout_def a(1) Let_def per_def extra_def)
  then have "extra < length nodes" by (simp add: extra_def)
  then have "length nodes * per + min extra (length nodes) * page = sz div page * page"
    by (simp add: per_def extra_def flip: add_mult_distrib mult.assoc)
  also have "\<dots> \<le> sz" by simp
  finally have size: "length nodes * per + min extra (length nodes) * page \<le> sz" .
  have "\<forall>ws \<in> set vmas. \<forall>w \<in> set ws. area_ok w" "\<forall>i < length nodes. vmas ! i \<noteq> []"
    using layout_loop_ok [OF a(2), of nodes per extra page "replicate (length nodes) []"] a(3) size nodes
    by (auto simp: vmas)
  then have areas: "\<forall>ws \<in> set vmas. ws \<noteq> [] \<and> (\<forall>w \<in> set ws. area_ok w)"
    by (auto simp: in_set_conv_nth vmas)
  have "over_areas f vmas \<subseteq># block a sz" if "\<And>a n. f (VirtualMemoryArea_new a n) = block a n" for f
    using layout_loop_bytes [OF that, of nodes "replicate (length nodes) []" page per extra a] nodes block_mono [OF size]
    by (simp add: vmas)
  moreover have "sz \<le> 2 * max_address" using a(3) by simp
  ultimately show ?thesis
    using areas page by (simp add: vm vm_ok_def mapped_def a(1) vm_free_def) (simp add: vmas)
qed

section \<open>The node of an address\<close>

definition covers :: "vmm \<Rightarrow> nat \<Rightarrow> nat \<Rightarrow> bool" where
  "covers vm x i \<longleftrightarrow> i < length (vm_localNUMAVMA vm) \<and> (\<exists>vma \<in> set (vm_localNUMAVMA vm ! i). includesAddress x vma)"

lemma two_entries:
  assumes "i < length vmass" "j < length vmass" "i \<noteq> j"
  shows "sum_list (map f (vmass ! i)) + sum_list (map f (vmass ! j)) \<subseteq># over_areas f vmass"
proof -
  have "over_areas f vmass = over_areas f (vmass[i := []]) + sum_list (map f (vmass ! i))"
    using over_areas_update [OF assms(1), of f "[]"] by simp
  moreover have "over_areas f (vmass[i := []]) = over_areas f (vmass[i := [], j := []]) + sum_list (map f (vmass ! j))"
    using over_areas_update [of j "vmass[i := []]" f "[]"] assms by simp
  ultimately show ?thesis by (simp add: add.commute add.left_commute)
qed

lemma covers_extent:
  assumes "vm_ok vm" "covers vm x i"
  shows "x \<in># sum_list (map area_extent (vm_localNUMAVMA vm ! i))"
proof -
  obtain vma where vma: "vma \<in> set (vm_localNUMAVMA vm ! i)" "includesAddress x vma" using assms(2) by (auto simp: covers_def)
  then have "area_ok vma" using assms vm_areas_ok by (auto simp: covers_def)
  with vma show ?thesis by (auto simp: area_extent_def includesAddress_def area_ok_def)
qed

lemma covers_unique: "vm_ok vm \<Longrightarrow> covers vm x i \<Longrightarrow> covers vm x j \<Longrightarrow> i = j"
  using two_entries [of i "vm_localNUMAVMA vm" j area_extent] covers_extent
    once_disjoint [OF once_sub, of "mapped vm" "sum_list (map area_extent (vm_localNUMAVMA vm ! i))"
      "sum_list (map area_extent (vm_localNUMAVMA vm ! j))" x]
  by (meson covers_def subset_mset.order_trans vm_ok_def)

lemma findNUMA_covers:
  assumes "vm_ok vm" "covers vm x i"
  shows "findNUMA x vm = i"
proof (cases "find_index_from 0 (list_ex (includesAddress x)) (vm_localNUMAVMA vm)")
  case None
  then show ?thesis using assms(2) nth_mem by (fastforce simp: find_index_from_None covers_def list_ex_iff)
next
  case (Some j)
  then have "covers vm x j" using find_index_from_Some [OF Some] by (simp add: covers_def list_ex_iff)
  then show ?thesis using Some covers_unique [OF assms(1) assms(2)] by (simp add: findNUMA_def)
qed

lemma covers_update:
  assumes "vm_localNUMAVMA vm' = (vm_localNUMAVMA vm)[node := ws]" "node < length (vm_localNUMAVMA vm)" "covers vm x i"
    and "\<forall>w \<in> set (vm_localNUMAVMA vm ! node). includesAddress x w \<longrightarrow> (\<exists>w' \<in> set ws. includesAddress x w')"
  shows "covers vm' x i"
  using assms by (cases "i = node") (auto simp: covers_def)

lemma allocLocalNUMA_covers:
  assumes "vm_ok vm" "allocLocalNUMA mmap sz node vm = Inr (ret, vm')" "covers vm x i"
  shows "covers vm' x i"
  using assms(2)
proof (cases rule: allocLocalNUMA_cases)
  case (last rest v v')
  have "area_ok v" using vm_areas_ok [OF assms(1) last(1)] last(2) by simp
  then have "includesAddress x v = includesAddress x v'"
    using allocBlock_some(6,7) [OF _ last(3,4)] by (simp add: includesAddress_def)
  then show ?thesis using last assms(3) by (intro covers_update [of vm' vm node "rest @ [v']"]) auto
next
  case (new a w)
  then show ?thesis using assms(3) by (intro covers_update [of vm' vm node "vm_localNUMAVMA vm ! node @ [w]"]) auto
qed

lemma allocLocalNUMA_in_node:
  assumes ok: "vm_ok vm" and mmap: "mmap_law mmap" and size: "sz \<le> max_request"
    and alloc: "allocLocalNUMA mmap sz node vm = Inr (ret, vm')" and k: "k < sz"
  shows "covers vm' (ret + k) node"
proof -
  have k: "k < ROUND_UP sz (vm_pageSize vm)" using k request_rounded [OF ok size] by simp
  show ?thesis using alloc
  proof (cases rule: allocLocalNUMA_cases)
    case (last rest v v')
    have "area_ok v" using vm_areas_ok [OF ok last(1)] last(2) by simp
    from allocBlock_some [OF this last(3,4)] k have "includesAddress (ret + k) v'" by (simp add: includesAddress_def)
    then show ?thesis using last by (simp add: covers_def)
  next
    case (new a w)
    note a = new_area_serves [OF ok mmap size new(2)]
    have "ret \<noteq> 0" using allocBlock_fits [OF a(5)] a(4) new(3) by fastforce
    from allocBlock_some [OF a(5) new(3) this] k have "includesAddress (ret + k) w" by (simp add: includesAddress_def)
    then show ?thesis using new by (simp add: covers_def)
  qed
qed

section \<open>Histories\<close>

inductive vm_run :: "kernel \<Rightarrow> vmm \<Rightarrow> vmm \<Rightarrow> bool" for mmap where
  vm_run_refl: "vm_run mmap vm vm"
| vm_run_step: "vm_run mmap vm vm1 \<Longrightarrow> sz \<le> max_request \<Longrightarrow> allocLocalNUMA mmap sz node vm1 = Inr (ret, vm2) \<Longrightarrow>
    vm_run mmap vm vm2"

lemma vm_run_ok: "vm_run mmap vm vm' \<Longrightarrow> mmap_law mmap \<Longrightarrow> vm_ok vm \<Longrightarrow> vm_ok vm' \<and> (covers vm x i \<longrightarrow> covers vm' x i)"
proof (induction rule: vm_run.induct)
  case (vm_run_step vm vm1 sz node ret vm2)
  then have "vm_ok vm1" by blast
  then show ?case
    using vm_run_step allocLocalNUMA_law [OF _ vm_run_step(5,2,3)] allocLocalNUMA_covers [OF _ vm_run_step(3)] by blast
qed simp

end
