(* ===== verification/N6_MemoryPool.thy ===== *)
theory N6_MemoryPool
  imports N6_VirtualMemory "HOL-Library.AList"
begin

unbundle bit_operations_syntax

text \<open>
  The memory allocator of the run-time (\<open>src/memory/allocator/pool\<close>): \<open>MemoryPoolGlobal\<close>, one per NUMA node,
  takes large chunks from the virtual memory areas; a \<open>MemoryPool\<close> per CPU and size cuts them into chunks of
  one size and keeps the free ones in a list that it threads through the chunks themselves;
  \<open>MemoryAllocator\<close> finds the pool for a size and a thread. This is the configuration without \<open>memkind\<close>.
  The memory is a function from the addresses of pointer cells to their values.
\<close>

section \<open>The global pool\<close>

record MemoryPoolGlobal =
  pg_globalAllocSize :: nat
  pg_memoryChunkSize :: nat
  pg_oldMemoryChunks :: "nat list"
  pg_curMemoryChunk :: nat
  pg_curAvailable :: nat
  pg_NUMANodeId :: nat

definition MemoryPoolGlobal_fillPool :: "kernel \<Rightarrow> MemoryPoolGlobal \<Rightarrow> vmm \<Rightarrow> (MemoryPoolGlobal \<times> vmm) result" where
  "MemoryPoolGlobal_fillPool mmap g vm =
     result_bind (allocLocalNUMA mmap (pg_globalAllocSize g) (pg_NUMANodeId g) vm) (\<lambda>(chunk, vm').
       fail_if (chunk = 0) ''could not allocate a memory chunk for the global allocator''
         (Inr (g\<lparr>pg_curAvailable := pg_globalAllocSize g, pg_curMemoryChunk := chunk,
            pg_oldMemoryChunks := pg_oldMemoryChunks g @ [chunk]\<rparr>, vm')))"

text \<open>\<open>NANOS6_GLOBAL_ALLOC_SIZE\<close> and \<open>NANOS6_ALLOCATOR_CHUNK_SIZE\<close> are arguments of the constructor.\<close>

definition MemoryPoolGlobal_new :: "kernel \<Rightarrow> nat \<Rightarrow> nat \<Rightarrow> nat \<Rightarrow> vmm \<Rightarrow> (MemoryPoolGlobal \<times> vmm) result" where
  "MemoryPoolGlobal_new mmap globalAllocSize memoryChunkSize NUMANodeId vm =
     fail_if (memoryChunkSize = 0) ''division by zero''
       (fail_if (globalAllocSize mod memoryChunkSize \<noteq> 0) ''Pool size and chunk size must be multiples of eachother''
         (MemoryPoolGlobal_fillPool mmap
            \<lparr>pg_globalAllocSize = globalAllocSize, pg_memoryChunkSize = memoryChunkSize, pg_oldMemoryChunks = [],
             pg_curMemoryChunk = 0, pg_curAvailable = 0, pg_NUMANodeId = NUMANodeId\<rparr> vm))"

text \<open>
  \<open>getMemory\<close> in its three parts: refilling an exhausted chunk, raising the chunk size to the request, and
  cutting the chunk off. The subtraction from \<open>_curAvailable\<close> wraps around like that of \<open>size_t\<close>.
\<close>

definition refill_exhausted :: "kernel \<Rightarrow> MemoryPoolGlobal \<Rightarrow> vmm \<Rightarrow> (MemoryPoolGlobal \<times> vmm) result" where
  "refill_exhausted mmap g vm =
     (if pg_curAvailable g < pg_memoryChunkSize g
      then MemoryPoolGlobal_fillPool mmap
             (if pg_curAvailable g \<noteq> 0
              then g\<lparr>pg_globalAllocSize := ROUND_UP (pg_globalAllocSize g) (pg_memoryChunkSize g)\<rparr> else g) vm
      else Inr (g, vm))"

definition raise_chunkSize :: "kernel \<Rightarrow> nat \<Rightarrow> MemoryPoolGlobal \<Rightarrow> vmm \<Rightarrow> (MemoryPoolGlobal \<times> vmm) result" where
  "raise_chunkSize mmap minSize g vm =
     (if pg_memoryChunkSize g < minSize
      then let chunkSize = ROUND_UP minSize (pg_memoryChunkSize g);
               g' = g\<lparr>pg_memoryChunkSize := chunkSize\<rparr>
           in if pg_curAvailable g' < chunkSize
              then MemoryPoolGlobal_fillPool mmap (g'\<lparr>pg_globalAllocSize := ROUND_UP (pg_globalAllocSize g') chunkSize\<rparr>) vm
              else Inr (g', vm)
      else Inr (g, vm))"

definition getMemory :: "kernel \<Rightarrow> nat \<Rightarrow> MemoryPoolGlobal \<Rightarrow> vmm \<Rightarrow> (nat \<times> nat \<times> MemoryPoolGlobal \<times> vmm) result" where
  "getMemory mmap minSize g vm =
     result_bind (refill_exhausted mmap g vm) (\<lambda>(g1, vm1).
     result_bind (raise_chunkSize mmap minSize g1 vm1) (\<lambda>(g2, vm2).
       let chunkSize = pg_memoryChunkSize g2
       in Inr (pg_curMemoryChunk g2, chunkSize,
            g2\<lparr>pg_curAvailable := wrap (pg_curAvailable g2 + 2 ^ 64 - chunkSize),
               pg_curMemoryChunk := pg_curMemoryChunk g2 + chunkSize\<rparr>, vm2)))"

section \<open>The pool of a CPU\<close>

record MemoryPool =
  mp_globalAllocator :: nat
  mp_chunkSize :: nat
  mp_topChunk :: nat

type_synonym memory = "nat \<Rightarrow> nat"

text \<open>A pool belongs to a CPU or to the threads without CPU, and to a number of cache lines.\<close>

datatype pool_key = LocalPool nat nat | ExternalPool nat

record allocator =
  al_cacheLineSize :: nat
  al_vmm :: vmm
  al_globalMemoryPool :: "MemoryPoolGlobal list"
  al_pools :: "(pool_key \<times> MemoryPool) list"
  al_memory :: memory

definition set_pool :: "pool_key \<Rightarrow> MemoryPool \<Rightarrow> allocator \<Rightarrow> allocator" where
  "set_pool k p al = al\<lparr>al_pools := AList.update k p (al_pools al)\<rparr>"

text \<open>The loop that links the chunks; \<open>is\<close> are the values of its counter.\<close>

fun link_chunks :: "nat \<Rightarrow> nat \<Rightarrow> nat list \<Rightarrow> nat \<times> memory \<Rightarrow> nat \<times> memory" where
  "link_chunks topChunk chunkSize [] (prevChunk, mem) = (prevChunk, mem)"
| "link_chunks topChunk chunkSize (i # is) (prevChunk, mem) =
     link_chunks topChunk chunkSize is (topChunk + i * chunkSize, mem(prevChunk := topChunk + i * chunkSize))"

definition MemoryPool_fillPool :: "kernel \<Rightarrow> MemoryPool \<Rightarrow> allocator \<Rightarrow> (MemoryPool \<times> allocator) result" where
  "MemoryPool_fillPool mmap p al =
     result_bind (getMemory mmap (mp_chunkSize p) (al_globalMemoryPool al ! mp_globalAllocator p) (al_vmm al))
       (\<lambda>(topChunk, globalChunkSize, g, vm).
         fail_if (mp_chunkSize p = 0) ''division by zero''
           (let numChunks = globalChunkSize div mp_chunkSize p
            in fail_if (numChunks = 0) ''Memory returned from global pool is smaller than chunk size''
                 (let (prevChunk, mem) = link_chunks topChunk (mp_chunkSize p) [1..<numChunks] (topChunk, al_memory al)
                  in Inr (p\<lparr>mp_topChunk := topChunk\<rparr>,
                       al\<lparr>al_vmm := vm,
                          al_globalMemoryPool := (al_globalMemoryPool al)[mp_globalAllocator p := g],
                          al_memory := mem(prevChunk := 0)\<rparr>))))"

definition getChunk :: "kernel \<Rightarrow> pool_key \<Rightarrow> allocator \<Rightarrow> (nat \<times> allocator) result" where
  "getChunk mmap k al =
     (case map_of (al_pools al) k of
        None \<Rightarrow> Inl (AssertFailed ''no pool'')
      | Some p \<Rightarrow>
          result_bind (if mp_topChunk p = 0 then MemoryPool_fillPool mmap p al else Inr (p, al)) (\<lambda>(p', al').
            let chunk = mp_topChunk p'
            in Inr (chunk, set_pool k (p'\<lparr>mp_topChunk := al_memory al' chunk\<rparr>) al')))"

definition returnChunk :: "pool_key \<Rightarrow> nat \<Rightarrow> allocator \<Rightarrow> allocator result" where
  "returnChunk k chunk al =
     (case map_of (al_pools al) k of
        None \<Rightarrow> Inl (AssertFailed ''no pool'')
      | Some p \<Rightarrow>
          Inr (set_pool k (p\<lparr>mp_topChunk := chunk\<rparr>) (al\<lparr>al_memory := (al_memory al)(chunk := mp_topChunk p)\<rparr>)))"

section \<open>The allocator\<close>

text \<open>A caller is a worker thread on a CPU, given by its number and its NUMA node, or another thread.\<close>

type_synonym caller = "(nat \<times> nat) option"

definition round_to_line :: "nat \<Rightarrow> nat \<Rightarrow> nat" where
  "round_to_line cacheLineSize sz =
     unat ((word_of_nat sz + word_of_nat cacheLineSize - 1) AND NOT (word_of_nat cacheLineSize - 1 :: 64 word))"

definition pool_for :: "caller \<Rightarrow> nat \<Rightarrow> pool_key" where
  "pool_for caller cacheLines =
     (case caller of Some (cpuId, _) \<Rightarrow> LocalPool cpuId cacheLines | None \<Rightarrow> ExternalPool cacheLines)"

definition getPool :: "caller \<Rightarrow> nat \<Rightarrow> allocator \<Rightarrow> pool_key \<times> allocator" where
  "getPool caller sz al =
     (let roundedSize = round_to_line (al_cacheLineSize al) sz;
          cacheLines = roundedSize div al_cacheLineSize al;
          k = pool_for caller cacheLines;
          numaNodeId = (case caller of Some (_, node) \<Rightarrow> node | None \<Rightarrow> 0)
      in case map_of (al_pools al) k of
           Some _ \<Rightarrow> (k, al)
         | None \<Rightarrow> (k, set_pool k \<lparr>mp_globalAllocator = numaNodeId, mp_chunkSize = roundedSize, mp_topChunk = 0\<rparr> al))"

definition MemoryAllocator_alloc :: "kernel \<Rightarrow> caller \<Rightarrow> nat \<Rightarrow> allocator \<Rightarrow> (nat \<times> allocator) result" where
  "MemoryAllocator_alloc mmap caller sz al = (case getPool caller sz al of (k, al') \<Rightarrow> getChunk mmap k al')"

definition MemoryAllocator_free :: "caller \<Rightarrow> nat \<Rightarrow> nat \<Rightarrow> allocator \<Rightarrow> allocator result" where
  "MemoryAllocator_free caller chunk sz al = (case getPool caller sz al of (k, al') \<Rightarrow> returnChunk k chunk al')"

fun create_pools :: "kernel \<Rightarrow> nat \<Rightarrow> nat \<Rightarrow> nat list \<Rightarrow> vmm \<Rightarrow> (MemoryPoolGlobal list \<times> vmm) result" where
  "create_pools mmap globalAllocSize memoryChunkSize [] vm = Inr ([], vm)"
| "create_pools mmap globalAllocSize memoryChunkSize (i # is) vm =
     result_bind (MemoryPoolGlobal_new mmap globalAllocSize memoryChunkSize i vm) (\<lambda>(g, vm1).
     result_bind (create_pools mmap globalAllocSize memoryChunkSize is vm1) (\<lambda>(gs, vm2). Inr (g # gs, vm2)))"

definition MemoryAllocator_initialize ::
  "kernel \<Rightarrow> nat \<Rightarrow> nat \<Rightarrow> nat \<Rightarrow> nat option \<Rightarrow> nat list \<Rightarrow> nat \<Rightarrow> nat \<Rightarrow> memory \<Rightarrow> allocator result" where
  "MemoryAllocator_initialize mmap cacheLineSize pageSize physicalMemory env numaNodes globalAllocSize memoryChunkSize mem =
     result_bind (vmm_initialize mmap pageSize physicalMemory env numaNodes) (\<lambda>vm.
     result_bind (create_pools mmap globalAllocSize memoryChunkSize [0..<length numaNodes] vm) (\<lambda>(gs, vm').
       Inr \<lparr>al_cacheLineSize = cacheLineSize, al_vmm = vm', al_globalMemoryPool = gs, al_pools = [], al_memory = mem\<rparr>))"

section \<open>Rounding to cache lines\<close>

lemma word_clear_low: "(x :: 64 word) AND NOT (mask n) = push_bit n (drop_bit n x)"
  by (rule bit_eqI) (auto simp: bit_simps)

lemma unat_clear_low: "unat ((x :: 64 word) AND NOT (mask n)) = unat x div 2 ^ n * 2 ^ n"
proof -
  have "x AND NOT (mask n) = x - take_bit n x"
    using bits_ident [of n x] by (simp add: word_clear_low algebra_simps)
  moreover have "unat (take_bit n x) = unat x mod 2 ^ n" by (simp add: unsigned_take_bit_eq flip: take_bit_eq_mod)
  ultimately show ?thesis by (simp add: unat_sub word_le_nat_alt minus_mod_eq_div_mult)
qed

text \<open>The bit operations round up to a multiple of the cache line size, which is a power of two.\<close>

lemma round_to_line_eq:
  assumes "sz + 2 ^ n < 2 ^ 64"
  shows "round_to_line (2 ^ n) sz = (sz + 2 ^ n - 1) div 2 ^ n * 2 ^ n"
proof -
  have m: "word_of_nat (2 ^ n) - 1 = (mask n :: 64 word)" by (simp add: mask_eq_exp_minus_1)
  have "word_of_nat sz + word_of_nat (2 ^ n) - 1 = (word_of_nat (sz + 2 ^ n - 1) :: 64 word)"
    by (simp add: of_nat_diff Suc_leI)
  then have "unat (word_of_nat sz + word_of_nat (2 ^ n) - 1 :: 64 word) = sz + 2 ^ n - 1"
    using assms by (simp add: unat_of_nat)
  then show ?thesis by (simp only: round_to_line_def m unat_clear_low)
qed

section \<open>Laws of the global pool\<close>

definition pg_free :: "MemoryPoolGlobal \<Rightarrow> nat multiset" where
  "pg_free g = block (pg_curMemoryChunk g) (pg_curAvailable g)"

definition pg_sizes :: "MemoryPoolGlobal \<Rightarrow> bool" where
  "pg_sizes g \<longleftrightarrow> 0 < pg_memoryChunkSize g \<and> pg_memoryChunkSize g \<le> pg_globalAllocSize g"

definition pg_ok :: "MemoryPoolGlobal \<Rightarrow> bool" where
  "pg_ok g \<longleftrightarrow> pg_sizes g \<and> pg_globalAllocSize g \<le> max_address \<and> pg_curAvailable g \<le> pg_globalAllocSize g \<and>
     pg_curMemoryChunk g \<noteq> 0 \<and> pg_curMemoryChunk g + pg_curAvailable g \<le> max_address"

text \<open>Bytes move from the free areas and the global pool to the pair that is returned, and no byte is given twice.\<close>

definition supplies :: "MemoryPoolGlobal \<times> vmm \<Rightarrow> MemoryPoolGlobal \<times> vmm \<Rightarrow> nat multiset \<Rightarrow> bool" where
  "supplies x x' B \<longleftrightarrow> vm_ok (snd x') \<and> pg_NUMANodeId (fst x') = pg_NUMANodeId (fst x) \<and>
     length (vm_localNUMAVMA (snd x')) = length (vm_localNUMAVMA (snd x)) \<and>
     vm_free (snd x') + pg_free (fst x') + B + mapped (snd x) \<subseteq># vm_free (snd x) + pg_free (fst x) + mapped (snd x')"

lemma balance_trans: "A1 + M0 \<subseteq># A0 + M1 \<Longrightarrow> A2 + M1 \<subseteq># A1 + M2 \<Longrightarrow> A2 + M0 \<subseteq># A0 + M2" for A0 :: "'a multiset"
proof (unfold subseteq_mset_def count_union, rule allI)
  fix x assume "\<forall>x. count A1 x + count M0 x \<le> count A0 x + count M1 x" "\<forall>x. count A2 x + count M1 x \<le> count A1 x + count M2 x"
  then have "count A1 x + count M0 x \<le> count A0 x + count M1 x" "count A2 x + count M1 x \<le> count A1 x + count M2 x" by blast+
  then show "count A2 x + count M0 x \<le> count A0 x + count M2 x" by linarith
qed

lemma balance_use: "A1 + B + M0 \<subseteq># A0 + M1 \<Longrightarrow> A0 + M \<subseteq># M0 \<Longrightarrow> A1 + (M + B) \<subseteq># M1" for A0 :: "'a multiset"
proof (unfold subseteq_mset_def count_union, rule allI)
  fix x assume "\<forall>x. count A1 x + count B x + count M0 x \<le> count A0 x + count M1 x" "\<forall>x. count A0 x + count M x \<le> count M0 x"
  then have "count A1 x + count B x + count M0 x \<le> count A0 x + count M1 x" "count A0 x + count M x \<le> count M0 x" by blast+
  then show "count A1 x + (count M x + count B x) \<le> count M1 x" by linarith
qed

lemma sub_middle: "A \<subseteq># B + C \<Longrightarrow> A \<subseteq># B + D + C" for A :: "'a multiset"
  by (metis add.commute add.left_commute subset_mset.add_increasing2 subset_mset.zero_le)

lemma ROUND_UP_ge: "0 < s \<Longrightarrow> 0 < r \<Longrightarrow> s + r < 2 ^ 64 \<Longrightarrow> r \<le> ROUND_UP s r"
proof -
  assume *: "0 < s" "0 < r" "s + r < 2 ^ 64"
  then have "1 \<le> (s + r - 1) div r" by (simp add: Suc_leI div_greater_zero_iff)
  then show ?thesis using * by (simp add: ROUND_UP_bounds(1))
qed

lemma allocLocalNUMA_length:
  "allocLocalNUMA mmap sz node vm = Inr (ret, vm') \<Longrightarrow> length (vm_localNUMAVMA vm') = length (vm_localNUMAVMA vm)"
  by (erule allocLocalNUMA_cases) simp_all

lemma MemoryPoolGlobal_fillPool_law:
  assumes "mmap_law mmap" "vm_ok vm" "pg_sizes g" "pg_globalAllocSize g \<le> max_request"
    and fill: "MemoryPoolGlobal_fillPool mmap g vm = Inr (g', vm')"
  shows "pg_ok g' \<and> pg_curAvailable g' = pg_globalAllocSize g \<and> pg_globalAllocSize g' = pg_globalAllocSize g \<and>
    pg_memoryChunkSize g' = pg_memoryChunkSize g \<and> supplies (g, vm) (g', vm') {#}"
proof -
  obtain chunk where al: "allocLocalNUMA mmap (pg_globalAllocSize g) (pg_NUMANodeId g) vm = Inr (chunk, vm')"
    and g': "g' = g\<lparr>pg_curAvailable := pg_globalAllocSize g, pg_curMemoryChunk := chunk,
      pg_oldMemoryChunks := pg_oldMemoryChunks g @ [chunk]\<rparr>"
    using fill by (auto simp: MemoryPoolGlobal_fillPool_def prod.case_eq_if)
  note law = allocLocalNUMA_law [OF assms(2,1,4) al] and len = allocLocalNUMA_length [OF al]
  have "pg_free g' = block chunk (pg_globalAllocSize g)" by (simp add: pg_free_def g')
  then have "supplies (g, vm) (g', vm') {#}"
    using law len unfolding supplies_def by (simp add: g' sub_middle)
  then show ?thesis using law assms(3) by (simp add: pg_ok_def pg_sizes_def g')
qed

lemma supplies_trans: "supplies x y {#} \<Longrightarrow> supplies y z B \<Longrightarrow> supplies x z B"
  unfolding supplies_def using balance_trans
    [of "vm_free (snd y) + pg_free (fst y)" "mapped (snd x)" "vm_free (snd x) + pg_free (fst x)" "mapped (snd y)"
       "vm_free (snd z) + pg_free (fst z) + B" "mapped (snd z)"] by simp

lemma supplies_refl: "vm_ok (snd x) \<Longrightarrow> supplies x x {#}"
  by (simp add: supplies_def)

lemma supplies_same: "vm_ok vm \<Longrightarrow> supplies (g, vm) (g\<lparr>pg_memoryChunkSize := c, pg_globalAllocSize := n\<rparr>, vm) {#}"
  by (simp add: supplies_def pg_free_def)

lemma fill_resized:
  assumes "mmap_law mmap" "vm_ok vm" "0 < c" "c \<le> n" "n \<le> max_request"
    and "MemoryPoolGlobal_fillPool mmap (g\<lparr>pg_memoryChunkSize := c, pg_globalAllocSize := n\<rparr>) vm = Inr (g', vm')"
  shows "pg_ok g' \<and> pg_curAvailable g' = n \<and> pg_memoryChunkSize g' = c \<and> supplies (g, vm) (g', vm') {#}"
proof -
  let ?h = "g\<lparr>pg_memoryChunkSize := c, pg_globalAllocSize := n\<rparr>"
  have "pg_sizes ?h" "pg_globalAllocSize ?h \<le> max_request" using assms by (simp_all add: pg_sizes_def)
  note law = MemoryPoolGlobal_fillPool_law [OF assms(1,2) this assms(6)]
  have "supplies (g, vm) (g', vm') {#}"
    by (rule supplies_trans [OF supplies_same [OF assms(2)]]) (use law in blast)
  then show ?thesis using law by simp
qed

lemma refill_exhausted_law:
  assumes mmap: "mmap_law mmap" and vm: "vm_ok vm" and g: "pg_ok g" and refill: "refill_exhausted mmap g vm = Inr (g', vm')"
  shows "pg_ok g' \<and> pg_memoryChunkSize g' \<le> pg_curAvailable g' \<and> supplies (g, vm) (g', vm') {#}"
proof (cases "pg_curAvailable g < pg_memoryChunkSize g")
  case False
  then show ?thesis using refill g vm by (simp add: refill_exhausted_def supplies_refl)
next
  case True
  define n where "n = (if pg_curAvailable g \<noteq> 0 then ROUND_UP (pg_globalAllocSize g) (pg_memoryChunkSize g) else pg_globalAllocSize g)"
  have sizes: "pg_globalAllocSize g \<le> n" "n \<le> max_request"
    using ROUND_UP_bounds [of "pg_memoryChunkSize g" "pg_globalAllocSize g"] g
    by (auto simp: n_def pg_ok_def pg_sizes_def max_request_def max_address_def)
  have "MemoryPoolGlobal_fillPool mmap (g\<lparr>pg_memoryChunkSize := pg_memoryChunkSize g, pg_globalAllocSize := n\<rparr>) vm = Inr (g', vm')"
    using refill True by (cases "pg_curAvailable g = 0") (simp_all add: refill_exhausted_def n_def)
  note law = fill_resized [OF mmap vm _ _ sizes(2) this]
  show ?thesis using law g sizes(1) by (simp add: pg_ok_def pg_sizes_def)
qed

lemma raise_chunkSize_law:
  assumes mmap: "mmap_law mmap" and vm: "vm_ok vm" and g: "pg_ok g" "pg_memoryChunkSize g \<le> pg_curAvailable g"
    and min: "minSize \<le> max_address" and raise: "raise_chunkSize mmap minSize g vm = Inr (g', vm')"
  shows "pg_ok g' \<and> pg_memoryChunkSize g' \<le> pg_curAvailable g' \<and> minSize \<le> pg_memoryChunkSize g' \<and>
    supplies (g, vm) (g', vm') {#}"
proof (cases "pg_memoryChunkSize g < minSize")
  case False
  then show ?thesis using raise g vm by (simp add: raise_chunkSize_def supplies_refl)
next
  case True
  define c where "c = ROUND_UP minSize (pg_memoryChunkSize g)"
  have c: "minSize \<le> c" "c \<le> 2 * max_address"
    using ROUND_UP_bounds [of "pg_memoryChunkSize g" minSize] g(1) min
    by (auto simp: c_def pg_ok_def pg_sizes_def max_address_def)
  show ?thesis
  proof (cases "pg_curAvailable g < c")
    case False
    then have "g' = g\<lparr>pg_memoryChunkSize := c, pg_globalAllocSize := pg_globalAllocSize g\<rparr>" "vm' = vm"
      using raise True by (auto simp: raise_chunkSize_def c_def Let_def)
    then show ?thesis
      using supplies_same [OF vm, where g = g and c = c and n = "pg_globalAllocSize g"] g c False True by (auto simp: pg_ok_def pg_sizes_def)
  next
    case False': True
    define n where "n = ROUND_UP (pg_globalAllocSize g) c"
    have sizes: "c \<le> n" "n \<le> max_request" "0 < c"
      using ROUND_UP_bounds [of c "pg_globalAllocSize g"] ROUND_UP_ge [of "pg_globalAllocSize g" c] g(1) c True
      by (auto simp: n_def pg_ok_def pg_sizes_def max_request_def max_address_def)
    have "MemoryPoolGlobal_fillPool mmap (g\<lparr>pg_memoryChunkSize := c, pg_globalAllocSize := n\<rparr>) vm = Inr (g', vm')"
      using raise True False' by (auto simp: raise_chunkSize_def n_def c_def Let_def)
    then show ?thesis using fill_resized [OF mmap vm sizes(3,1,2)] sizes c by fastforce
  qed
qed

lemma wrap_sub: "c \<le> a \<Longrightarrow> a < 2 ^ 64 \<Longrightarrow> wrap (a + 2 ^ 64 - c) = a - c"
  by (metis Nat.add_diff_assoc2 less_imp_diff_less mod_add_self2 mod_less wrap_def)

lemma getMemory_law:
  assumes mmap: "mmap_law mmap" and vm: "vm_ok vm" and g: "pg_ok g" and min: "minSize \<le> max_address"
    and get: "getMemory mmap minSize g vm = Inr (addr, chunkSize, g', vm')"
  shows "pg_ok g' \<and> addr \<noteq> 0 \<and> minSize \<le> chunkSize \<and> 0 < chunkSize \<and> supplies (g, vm) (g', vm') (block addr chunkSize)"
proof -
  obtain g1 vm1 g2 where r: "refill_exhausted mmap g vm = Inr (g1, vm1)" "raise_chunkSize mmap minSize g1 vm1 = Inr (g2, vm')"
    and res: "addr = pg_curMemoryChunk g2" "chunkSize = pg_memoryChunkSize g2"
      "g' = g2\<lparr>pg_curAvailable := wrap (pg_curAvailable g2 + 2 ^ 64 - chunkSize),
               pg_curMemoryChunk := pg_curMemoryChunk g2 + chunkSize\<rparr>"
    using get by (auto simp: getMemory_def Let_def)
  note l1 = refill_exhausted_law [OF mmap vm g r(1)]
  then have "vm_ok vm1" by (simp add: supplies_def)
  note l2 = raise_chunkSize_law [OF mmap this _ _ min r(2)]
  have g2: "pg_ok g2" "chunkSize \<le> pg_curAvailable g2" "minSize \<le> chunkSize" "supplies (g, vm) (g2, vm') {#}"
    using l1 l2 supplies_trans res(2) by blast+
  have av: "pg_curAvailable g' = pg_curAvailable g2 - chunkSize"
    using wrap_sub [OF g2(2)] g2(1) by (simp add: res(3) pg_ok_def max_address_def)
  then have "pg_free g2 = pg_free g' + block addr chunkSize"
    using block_split [OF g2(2), of addr] by (simp add: pg_free_def res)
  then have "supplies (g2, vm') (g', vm') (block addr chunkSize)"
    using g2(4) by (simp add: supplies_def res(3))
  moreover have "pg_ok g'" "addr \<noteq> 0" "0 < chunkSize"
    using g2 av by (auto simp: pg_ok_def pg_sizes_def res)
  ultimately show ?thesis using g2 supplies_trans by blast
qed

end
