(* ===== verification/N6_MemoryPoolProofs.thy ===== *)
theory N6_MemoryPoolProofs
  imports N6_MemoryPool
begin

text \<open>
  The invariant of the memory allocator: the free chunks of every pool form a list in memory, and the bytes
  of the areas, the global pools, the free chunks and the blocks that are in use are counted once each in
  what is mapped. Every operation keeps it.
\<close>

section \<open>Lists of free chunks in memory\<close>

fun free_list :: "memory \<Rightarrow> nat \<Rightarrow> nat list \<Rightarrow> bool" where
  "free_list mem a [] \<longleftrightarrow> a = 0"
| "free_list mem a (c # cs) \<longleftrightarrow> a = c \<and> c \<noteq> 0 \<and> free_list mem (mem c) cs"

definition chunks :: "nat \<Rightarrow> nat list \<Rightarrow> nat multiset" where
  "chunks n cs = sum_list (map (\<lambda>c. block c n) cs)"

lemma chunks_simps [simp]: "chunks n [] = {#}" "chunks n (c # cs) = block c n + chunks n cs"
  by (simp_all add: chunks_def)

lemma free_list_cong: "free_list mem a cs \<Longrightarrow> (\<And>c. c \<in> set cs \<Longrightarrow> mem' c = mem c) \<Longrightarrow> free_list mem' a cs"
  by (induction cs arbitrary: a) auto

lemma free_list_top: "free_list mem a cs \<Longrightarrow> a = 0 \<longleftrightarrow> cs = []"
  by (cases cs) auto

lemma chunk_in_chunks: "c \<in> set cs \<Longrightarrow> 0 < n \<Longrightarrow> c \<in># chunks n cs"
  by (induction cs) auto

definition rows :: "nat \<Rightarrow> nat \<Rightarrow> nat \<Rightarrow> nat \<Rightarrow> nat list" where
  "rows base n i m = map (\<lambda>j. base + j * n) [i..<m]"

lemma rows_Cons: "i < m \<Longrightarrow> rows base n i m = (base + i * n) # rows base n (Suc i) m"
  by (simp add: rows_def upt_conv_Cons)

lemma chunks_rows: "i \<le> m \<Longrightarrow> chunks n (rows base n i m) = block (base + i * n) ((m - i) * n)"
proof (induction m)
  case (Suc m)
  show ?case
  proof (cases "i = Suc m")
    case False
    then have "i \<le> m" using Suc by simp
    then have "rows base n i (Suc m) = rows base n i m @ [base + m * n]" "Suc m - i = Suc (m - i)"
      by (simp_all add: rows_def Suc_diff_le)
    moreover have "base + i * n + (m - i) * n = base + m * n" using \<open>i \<le> m\<close> by (simp flip: add_mult_distrib)
    then have "block (base + i * n) (Suc (m - i) * n) = block (base + i * n) ((m - i) * n) + block (base + m * n) n"
      using block_add [of "base + i * n" "(m - i) * n" n] by (simp only: mult_Suc add.commute [of n])
    ultimately show ?thesis using Suc.IH \<open>i \<le> m\<close> by (simp add: chunks_def)
  qed (simp add: rows_def)
qed (simp add: rows_def)

text \<open>The loop of \<open>fillPool\<close> writes a list through the chunks and changes no other cell.\<close>

lemma link_chunks_list:
  assumes "0 < n" "base \<noteq> 0" "i < m" "link_chunks base n [Suc i..<m] (base + i * n, mem) = (prev, mem')"
  shows "free_list (mem'(prev := 0)) (base + i * n) (rows base n i m) \<and>
    (\<forall>x. x \<notin> set (rows base n i m) \<longrightarrow> (mem'(prev := 0)) x = mem x)"
  using assms(3,4)
proof (induction "m - i" arbitrary: i mem)
  case 0
  then show ?case by simp
next
  case (Suc d)
  show ?case
  proof (cases "Suc i = m")
    case True
    then show ?thesis using Suc.prems assms(2) by (auto simp: rows_def)
  next
    case False
    then have less: "Suc i < m" using Suc.prems by simp
    let ?mem = "mem(base + i * n := base + Suc i * n)"
    have "link_chunks base n [Suc (Suc i)..<m] (base + Suc i * n, ?mem) = (prev, mem')"
      using Suc.prems(2) less by (simp add: upt_conv_Cons)
    then have IH: "free_list (mem'(prev := 0)) (base + Suc i * n) (rows base n (Suc i) m)"
      "\<And>x. x \<notin> set (rows base n (Suc i) m) \<Longrightarrow> (mem'(prev := 0)) x = ?mem x"
      using Suc.hyps(1) [OF _ less] Suc.hyps(2) by (simp_all only: Suc_diff_Suc) (metis Suc_inject Suc_diff_Suc Suc.prems(1))+
    have "base + i * n \<notin> set (rows base n (Suc i) m)" using assms(1) by (auto simp: rows_def)
    then have "(mem'(prev := 0)) (base + i * n) = base + Suc i * n" using IH(2) by simp
    then show ?thesis
      using IH assms(2) Suc.prems(1) by (auto simp: rows_Cons [OF Suc.prems(1)])
  qed
qed

section \<open>Association lists\<close>

lemma set_update_distinct:
  assumes "distinct (map fst ps)"
  shows "(k', q) \<in> set (AList.update k p ps) \<longleftrightarrow> (if k' = k then q = p else (k', q) \<in> set ps)"
proof -
  have "(k', q) \<in> set (AList.update k p ps) \<longleftrightarrow> map_of (AList.update k p ps) k' = Some q"
    by (rule map_of_eq_Some_iff [OF distinct_update [OF assms], symmetric])
  also have "\<dots> \<longleftrightarrow> (if k' = k then q = p else map_of ps k' = Some q)" by (auto simp: update_conv')
  finally show ?thesis by (simp only: map_of_eq_Some_iff [OF assms])
qed

lemma update_again: "AList.update k p (AList.update k q ps) = AList.update k p ps"
  by (induction ps) auto

lemma sum_update:
  assumes "distinct (map fst ps)" "map_of ps k = Some p" "\<And>k' q. k' \<noteq> k \<Longrightarrow> h' (k', q) = h (k', q)"
  shows "sum_list (map h' (AList.update k p' ps)) + h (k, p) = sum_list (map h ps) + (h' (k, p') :: 'b :: comm_monoid_add)"
  using assms(1,2)
proof (induction ps)
  case (Cons x ps)
  obtain k1 p1 where x: "x = (k1, p1)" by fastforce
  show ?case
  proof (cases "k1 = k")
    case True
    then have "k \<notin> fst ` set ps" using Cons.prems(1) x by auto
    then have "sum_list (map h' ps) = sum_list (map h ps)"
      using assms(3) by (intro arg_cong [where f = sum_list] map_cong) (force simp: image_iff)+
    then show ?thesis using True Cons.prems(2) x by (simp add: ac_simps)
  next
    case False
    then show ?thesis using Cons x assms(3) by (simp add: add.assoc)
  qed
qed simp

lemma sum_update_new:
  assumes "map_of ps k = None" "\<And>k' q. k' \<noteq> k \<Longrightarrow> h' (k', q) = h (k', q)"
  shows "sum_list (map h' (AList.update k p' ps)) = sum_list (map h ps) + (h' (k, p') :: 'b :: comm_monoid_add)"
  using assms(1)
proof (induction ps)
  case (Cons x ps)
  then show ?case using assms(2) by (cases x) (simp add: ac_simps split: if_splits)
qed simp

section \<open>The invariant\<close>

fun key_lines :: "pool_key \<Rightarrow> nat" where
  "key_lines (LocalPool _ n) = n"
| "key_lines (ExternalPool n) = n"

definition pool_ok :: "(pool_key \<Rightarrow> nat list) \<Rightarrow> allocator \<Rightarrow> pool_key \<times> MemoryPool \<Rightarrow> bool" where
  "pool_ok F al kp \<longleftrightarrow> (case kp of (k, p) \<Rightarrow>
     mp_globalAllocator p < length (al_globalMemoryPool al) \<and> mp_chunkSize p = key_lines k * al_cacheLineSize al \<and>
     0 < key_lines k \<and> 0 < al_cacheLineSize al \<and> mp_chunkSize p \<le> max_address \<and> free_list (al_memory al) (mp_topChunk p) (F k))"

definition al_struct :: "(pool_key \<Rightarrow> nat list) \<Rightarrow> allocator \<Rightarrow> bool" where
  "al_struct F al \<longleftrightarrow> vm_ok (al_vmm al) \<and>
     (\<forall>g \<in> set (al_globalMemoryPool al). pg_ok g \<and> pg_NUMANodeId g < length (vm_localNUMAVMA (al_vmm al))) \<and>
     length (al_globalMemoryPool al) = length (vm_localNUMAVMA (al_vmm al)) \<and>
     (\<exists>n. al_cacheLineSize al = 2 ^ n) \<and> al_cacheLineSize al \<le> max_address \<and>
     distinct (map fst (al_pools al)) \<and> (\<forall>kp \<in> set (al_pools al). pool_ok F al kp)"

definition pool_bytes :: "(pool_key \<Rightarrow> nat list) \<Rightarrow> pool_key \<times> MemoryPool \<Rightarrow> nat multiset" where
  "pool_bytes F kp = chunks (mp_chunkSize (snd kp)) (F (fst kp))"

definition owned :: "(pool_key \<Rightarrow> nat list) \<Rightarrow> allocator \<Rightarrow> nat multiset" where
  "owned F al = vm_free (al_vmm al) + sum_list (map pg_free (al_globalMemoryPool al)) + sum_list (map (pool_bytes F) (al_pools al))"

text \<open>\<open>M\<close> are the bytes that the program uses.\<close>

definition al_inv :: "(pool_key \<Rightarrow> nat list) \<Rightarrow> allocator \<Rightarrow> nat multiset \<Rightarrow> bool" where
  "al_inv F al M \<longleftrightarrow> al_struct F al \<and> owned F al + M \<subseteq># mapped (al_vmm al)"

lemma al_inv_once: "al_inv F al M \<Longrightarrow> once (owned F al + M)"
  using once_sub by (auto simp: al_inv_def al_struct_def vm_ok_def)

lemma pool_lookup: "al_struct F al \<Longrightarrow> map_of (al_pools al) k = Some p \<Longrightarrow> pool_ok F al (k, p)"
  by (auto simp: al_struct_def dest: map_of_SomeD)

lemma free_chunk_owned:
  assumes "al_struct F al" "(k, p) \<in> set (al_pools al)" "c \<in> set (F k)"
  shows "c \<in># owned F al"
proof -
  have "0 < mp_chunkSize p" using assms(1,2) by (auto simp: al_struct_def pool_ok_def)
  then have "c \<in># pool_bytes F (k, p)" using chunk_in_chunks [OF assms(3)] by (simp add: pool_bytes_def)
  then show ?thesis using assms(2) by (force simp: owned_def)
qed

text \<open>Cells outside the free chunks may change.\<close>

lemma al_struct_memory:
  assumes "al_struct F al" "\<And>x. x \<in># owned F al \<Longrightarrow> mem x = al_memory al x"
  shows "al_struct F (al\<lparr>al_memory := mem\<rparr>)"
proof -
  have "pool_ok F (al\<lparr>al_memory := mem\<rparr>) (k, p)" if kp: "(k, p) \<in> set (al_pools al)" for k p
  proof -
    have ok: "pool_ok F al (k, p)" using kp assms(1) by (auto simp: al_struct_def)
    have "free_list mem (mp_topChunk p) (F k)"
      by (rule free_list_cong [of "al_memory al"]) (use ok assms(2) free_chunk_owned [OF assms(1) kp] in \<open>auto simp: pool_ok_def\<close>)
    then show ?thesis using ok by (simp add: pool_ok_def)
  qed
  then show ?thesis using assms(1) by (auto simp: al_struct_def)
qed

lemma owned_memory [simp]: "owned F (al\<lparr>al_memory := mem\<rparr>) = owned F al"
  by (simp add: owned_def)

lemma inv_write:
  assumes "al_inv F al M" "x \<in># M"
  shows "al_inv F (al\<lparr>al_memory := (al_memory al)(x := v)\<rparr>) M"
proof -
  have "y \<noteq> x" if "y \<in># owned F al" for y using once_disjoint [OF al_inv_once [OF assms(1)] that] assms(2) by blast
  then have "al_struct F (al\<lparr>al_memory := (al_memory al)(x := v)\<rparr>)"
    using assms(1) by (intro al_struct_memory) (auto simp: al_inv_def)
  then show ?thesis using assms(1) by (simp add: al_inv_def)
qed

text \<open>A pool gets another state.\<close>

lemma owned_set_pool:
  assumes "al_struct F al" "map_of (al_pools al) k = Some p"
  shows "owned (F(k := cs)) (set_pool k p' al) + chunks (mp_chunkSize p) (F k) = owned F al + chunks (mp_chunkSize p') cs"
proof -
  have "distinct (map fst (al_pools al))" using assms(1) by (simp add: al_struct_def)
  from sum_update [OF this assms(2), of "pool_bytes (F(k := cs))" "pool_bytes F" p']
  have "sum_list (map (pool_bytes (F(k := cs))) (AList.update k p' (al_pools al))) + chunks (mp_chunkSize p) (F k)
    = sum_list (map (pool_bytes F) (al_pools al)) + chunks (mp_chunkSize p') cs" by (simp add: pool_bytes_def)
  then show ?thesis by (simp add: owned_def set_pool_def add.assoc)
qed

lemma struct_set_pool:
  assumes "al_struct F al" "pool_ok (F(k := cs)) al (k, p')"
  shows "al_struct (F(k := cs)) (set_pool k p' al)"
proof -
  have "distinct (map fst (al_pools al))" using assms(1) by (simp add: al_struct_def)
  then have "pool_ok (F(k := cs)) (set_pool k p' al) (k', q)" if "(k', q) \<in> set (AList.update k p' (al_pools al))" for k' q
    using that assms by (auto simp: set_update_distinct pool_ok_def set_pool_def al_struct_def split: if_splits)
  then show ?thesis using assms(1) distinct_update by (auto simp: al_struct_def set_pool_def)
qed

lemma inv_take:
  assumes inv: "al_inv F al M" and p: "map_of (al_pools al) k = Some p" and F: "F k = c # cs"
  shows "mp_topChunk p = c \<and> c \<noteq> 0 \<and>
    al_inv (F(k := cs)) (set_pool k (p\<lparr>mp_topChunk := al_memory al c\<rparr>) al) (M + block c (mp_chunkSize p))"
proof -
  let ?p = "p\<lparr>mp_topChunk := al_memory al c\<rparr>"
  have struct: "al_struct F al" using inv by (simp add: al_inv_def)
  note ok = pool_lookup [OF struct p]
  then have "al_struct (F(k := cs)) (set_pool k ?p al)" using F by (intro struct_set_pool [OF struct]) (simp add: pool_ok_def)
  moreover have "owned (F(k := cs)) (set_pool k ?p al) + block c (mp_chunkSize p) = owned F al"
    using owned_set_pool [OF struct p, of cs ?p] F by (simp add: add.assoc [symmetric] add.commute)
  moreover have "al_vmm (set_pool k ?p al) = al_vmm al" by (simp add: set_pool_def)
  ultimately show ?thesis using inv ok F by (simp add: al_inv_def pool_ok_def) (metis add.assoc add.commute)
qed

lemma inv_return:
  assumes inv: "al_inv F al (M + block c (mp_chunkSize p))" and p: "map_of (al_pools al) k = Some p" and c: "c \<noteq> 0"
  shows "al_inv (F(k := c # F k)) (set_pool k (p\<lparr>mp_topChunk := c\<rparr>) (al\<lparr>al_memory := (al_memory al)(c := mp_topChunk p)\<rparr>)) M"
proof -
  let ?p = "p\<lparr>mp_topChunk := c\<rparr>" and ?al = "al\<lparr>al_memory := (al_memory al)(c := mp_topChunk p)\<rparr>"
  have "pool_ok F al (k, p)" using inv p by (auto simp: al_inv_def intro: pool_lookup)
  then have "c \<in># M + block c (mp_chunkSize p)" by (simp add: pool_ok_def)
  from inv_write [OF inv this] have inv': "al_inv F ?al (M + block c (mp_chunkSize p))" .
  then have struct: "al_struct F ?al" and p': "map_of (al_pools ?al) k = Some p" using p by (simp_all add: al_inv_def)
  have "al_struct (F(k := c # F k)) (set_pool k ?p ?al)"
    using pool_lookup [OF struct p'] c by (intro struct_set_pool [OF struct]) (simp add: pool_ok_def)
  moreover have "owned (F(k := c # F k)) (set_pool k ?p ?al) = owned F ?al + block c (mp_chunkSize p)"
    using owned_set_pool [OF struct p', of "c # F k" ?p] by (simp add: add.assoc [symmetric])
  moreover have "al_vmm (set_pool k ?p ?al) = al_vmm al" by (simp add: set_pool_def)
  ultimately show ?thesis using inv' by (simp add: al_inv_def) (metis add.assoc add.commute)
qed

section \<open>Filling a pool\<close>

lemma sum_list_global:
  assumes "i < length gs" "vm_free vm' + pg_free g + B + M \<subseteq># vm_free vm + pg_free (gs ! i) + M'"
  shows "vm_free vm' + sum_list (map pg_free (gs[i := g])) + B + M \<subseteq># vm_free vm + sum_list (map pg_free gs) + M'"
proof -
  have "sum_list (map pg_free (gs[i := g])) + pg_free (gs ! i) = sum_list (map pg_free gs) + pg_free g"
    by (rule sum_list_update_plus [OF assms(1)])
  then have "count (sum_list (map pg_free (gs[i := g]))) x + count (pg_free (gs ! i)) x
      = count (sum_list (map pg_free gs)) x + count (pg_free g) x" for x by (metis count_union)
  moreover have "count (vm_free vm') x + count (pg_free g) x + count B x + count M x
      \<le> count (vm_free vm) x + count (pg_free (gs ! i)) x + count M' x" for x
    using mset_subset_eq_count [OF assms(2), of x] by simp
  ultimately show ?thesis unfolding subseteq_mset_def count_union by (smt (verit) add.commute add.left_commute add_le_cancel_left)
qed

lemma fill_bytes:
  assumes inv: "al_inv F al M" and mmap: "mmap_law mmap" and p: "map_of (al_pools al) k = Some p"
    and get: "getMemory mmap (mp_chunkSize p) (al_globalMemoryPool al ! mp_globalAllocator p) (al_vmm al) = Inr (addr, n, g, vm)"
  defines "al' \<equiv> al\<lparr>al_vmm := vm, al_globalMemoryPool := (al_globalMemoryPool al)[mp_globalAllocator p := g]\<rparr>"
  shows "al_inv F al' (M + block addr n)" "addr \<noteq> 0" "mp_chunkSize p \<le> n"
proof -
  let ?i = "mp_globalAllocator p" and ?gs = "al_globalMemoryPool al"
  have struct: "al_struct F al" using inv by (simp add: al_inv_def)
  note ok = pool_lookup [OF struct p]
  then have i: "?i < length ?gs" "mp_chunkSize p \<le> max_address" by (simp_all add: pool_ok_def)
  then have g: "pg_ok (?gs ! ?i)" "pg_NUMANodeId (?gs ! ?i) < length (vm_localNUMAVMA (al_vmm al))" "vm_ok (al_vmm al)"
    using struct by (simp_all add: al_struct_def)
  note law = getMemory_law [OF mmap g(3,1) i(2) get]
  then show "addr \<noteq> 0" "mp_chunkSize p \<le> n" by simp_all
  have s: "vm_ok vm" "pg_NUMANodeId g = pg_NUMANodeId (?gs ! ?i)"
    "length (vm_localNUMAVMA vm) = length (vm_localNUMAVMA (al_vmm al))"
    "vm_free vm + pg_free g + block addr n + mapped (al_vmm al) \<subseteq># vm_free (al_vmm al) + pg_free (?gs ! ?i) + mapped vm"
    using law by (simp_all add: supplies_def)
  have "\<forall>g' \<in> set (?gs[?i := g]). pg_ok g' \<and> pg_NUMANodeId g' < length (vm_localNUMAVMA vm)"
    using struct law s g(2) by (auto simp: al_struct_def dest!: set_update_subset_insert [THEN subsetD])
  then have "al_struct F al'" using struct s(1,3) by (auto simp: al_struct_def al'_def pool_ok_def)
  moreover have "owned F al' + (M + block addr n) \<subseteq># mapped vm"
  proof -
    have "owned F al' + block addr n + mapped (al_vmm al) \<subseteq># owned F al + mapped vm"
      using sum_list_global [OF i(1) s(4)] by (simp add: owned_def al'_def add.commute add.left_commute)
    moreover have "owned F al + M \<subseteq># mapped (al_vmm al)" using inv by (simp add: al_inv_def)
    ultimately show ?thesis by (rule balance_use)
  qed
  ultimately show "al_inv F al' (M + block addr n)" by (simp add: al_inv_def al'_def)
qed

lemma set_pool_simps [simp]:
  "al_vmm (set_pool k p al) = al_vmm al" "al_memory (set_pool k p al) = al_memory al"
  "al_cacheLineSize (set_pool k p al) = al_cacheLineSize al" "al_globalMemoryPool (set_pool k p al) = al_globalMemoryPool al"
  "map_of (al_pools (set_pool k p al)) k = Some p" "set_pool k q (set_pool k p al) = set_pool k q al"
  by (simp_all add: set_pool_def update_conv' update_again)

lemma inv_fill:
  assumes inv: "al_inv F al M" and mmap: "mmap_law mmap" and p: "map_of (al_pools al) k = Some p" and F: "F k = []"
    and fill: "MemoryPool_fillPool mmap p al = Inr (p', al')"
  shows "\<exists>cs. cs \<noteq> [] \<and> al_inv (F(k := cs)) (set_pool k p' al') M \<and> mp_chunkSize p' = mp_chunkSize p \<and>
    al_cacheLineSize al' = al_cacheLineSize al \<and> length (al_globalMemoryPool al') = length (al_globalMemoryPool al)"
proof -
  let ?n = "mp_chunkSize p"
  obtain addr n g vm where get: "getMemory mmap ?n (al_globalMemoryPool al ! mp_globalAllocator p) (al_vmm al) = Inr (addr, n, g, vm)"
    using fill by (auto simp: MemoryPool_fillPool_def)
  obtain prev mem where link: "link_chunks addr ?n [Suc 0..<n div ?n] (addr + 0 * ?n, al_memory al) = (prev, mem)" by fastforce
  define al1 where "al1 = al\<lparr>al_vmm := vm, al_globalMemoryPool := (al_globalMemoryPool al)[mp_globalAllocator p := g]\<rparr>"
  have res: "p' = p\<lparr>mp_topChunk := addr\<rparr>" "al' = al1\<lparr>al_memory := mem(prev := 0)\<rparr>" "?n \<noteq> 0" "0 < n div ?n"
    using fill get link by (auto simp: MemoryPool_fillPool_def Let_def al1_def)
  have inv1: "al_inv F al1 (M + block addr n)" and addr: "addr \<noteq> 0"
    using fill_bytes [OF inv mmap p get] by (simp_all add: al1_def)
  have mem1: "al_memory al1 = al_memory al" by (simp add: al1_def)
  define cs where "cs = rows addr ?n 0 (n div ?n)"
  have list: "free_list (mem(prev := 0)) addr cs" "\<And>x. x \<notin> set cs \<Longrightarrow> (mem(prev := 0)) x = al_memory al x"
    using link_chunks_list [OF _ addr res(4) link] res(3) by (simp_all add: cs_def)
  have bytes: "chunks ?n cs = block addr (n div ?n * ?n)" using chunks_rows [of 0 "n div ?n" ?n addr] by (simp add: cs_def)
  have sub: "block addr (n div ?n * ?n) \<subseteq># block addr n" by (intro block_mono) simp
  have "x \<notin># owned F al1" if "x \<in> set cs" for x
    using once_disjoint [OF al_inv_once [OF inv1], of x] chunk_in_chunks [OF that, of ?n] mset_subset_eqD [OF sub] res(3)
    by (auto simp: bytes)
  then have "(mem(prev := 0)) x = al_memory al1 x" if "x \<in># owned F al1" for x
    using list(2) that unfolding mem1 by blast
  then have struct: "al_struct F al'"
    unfolding res(2) by (rule al_struct_memory [rotated]) (use inv1 in \<open>simp_all add: al_inv_def\<close>)
  have p': "map_of (al_pools al') k = Some p" using p by (simp add: res(2) al1_def)
  have "al_struct (F(k := cs)) (set_pool k p' al')"
    using pool_lookup [OF struct p'] list(1) by (intro struct_set_pool [OF struct]) (simp add: pool_ok_def res)
  moreover have "owned (F(k := cs)) (set_pool k p' al') = owned F al1 + block addr (n div ?n * ?n)"
    using owned_set_pool [OF struct p', of cs p'] F by (simp add: res bytes)
  then have "owned (F(k := cs)) (set_pool k p' al') + M \<subseteq># mapped (al_vmm al1)"
    using inv1 subset_mset.order_trans [OF subset_mset.add_left_mono [OF sub, of "owned F al1 + M"]]
    by (simp add: al_inv_def add.assoc add.commute [of M] add.left_commute [of M])
  ultimately have "al_inv (F(k := cs)) (set_pool k p' al') M" by (simp add: al_inv_def res(2))
  moreover have "cs \<noteq> []" using res(4) by (simp add: cs_def rows_def)
  ultimately show ?thesis by (auto simp: res(1,2) al1_def)
qed

lemma getChunk_law:
  assumes inv: "al_inv F al M" and mmap: "mmap_law mmap" and p: "map_of (al_pools al) k = Some p"
    and get: "getChunk mmap k al = Inr (c, al')"
  shows "\<exists>F'. al_inv F' al' (M + block c (mp_chunkSize p)) \<and> c \<noteq> 0 \<and> al_cacheLineSize al' = al_cacheLineSize al \<and>
    length (al_globalMemoryPool al') = length (al_globalMemoryPool al)"
proof -
  have list: "free_list (al_memory al) (mp_topChunk p) (F k)"
    using pool_lookup [OF _ p, of F] inv by (simp add: al_inv_def pool_ok_def)
  obtain G p1 al1 where G: "G k \<noteq> []" "al_inv G (set_pool k p1 al1) M" "mp_chunkSize p1 = mp_chunkSize p"
    "al_cacheLineSize al1 = al_cacheLineSize al" "length (al_globalMemoryPool al1) = length (al_globalMemoryPool al)"
    and res: "c = mp_topChunk p1" "al' = set_pool k (p1\<lparr>mp_topChunk := al_memory al1 c\<rparr>) al1"
  proof (cases "mp_topChunk p = 0")
    case True
    then obtain p1 al1 where 1: "MemoryPool_fillPool mmap p al = Inr (p1, al1)" "c = mp_topChunk p1"
      "al' = set_pool k (p1\<lparr>mp_topChunk := al_memory al1 c\<rparr>) al1" using get p by (auto simp: getChunk_def Let_def)
    have "F k = []" using True free_list_top [OF list] by simp
    from inv_fill [OF inv mmap p this 1(1)] obtain cs where "cs \<noteq> []" "al_inv (F(k := cs)) (set_pool k p1 al1) M"
      "mp_chunkSize p1 = mp_chunkSize p" "al_cacheLineSize al1 = al_cacheLineSize al"
      "length (al_globalMemoryPool al1) = length (al_globalMemoryPool al)" by blast
    then show thesis using that [of "F(k := cs)" p1 al1] 1 by simp
  next
    case False
    have "set_pool k p al = al" using p by (simp add: set_pool_def update_triv)
    moreover have "c = mp_topChunk p" "al' = set_pool k (p\<lparr>mp_topChunk := al_memory al c\<rparr>) al"
      using get p False by (auto simp: getChunk_def Let_def)
    ultimately show thesis using that [of F p al] False free_list_top [OF list] inv by simp
  qed
  obtain c' cs where c': "G k = c' # cs" using G(1) by (cases "G k") auto
  from inv_take [OF G(2) set_pool_simps(5) c'] show ?thesis using G(3-5) res by auto
qed

lemma getPool_law:
  assumes inv: "al_inv F al M" and caller: "(case caller of Some (_, node) \<Rightarrow> node | None \<Rightarrow> 0) < length (al_globalMemoryPool al)"
    and sz: "0 < sz" "sz + al_cacheLineSize al \<le> max_address" and get: "getPool caller sz al = (k, al')"
  shows "\<exists>F' p. al_inv F' al' M \<and> map_of (al_pools al') k = Some p \<and> mp_chunkSize p = round_to_line (al_cacheLineSize al) sz \<and>
    sz \<le> mp_chunkSize p \<and> al_cacheLineSize al' = al_cacheLineSize al \<and> al_globalMemoryPool al' = al_globalMemoryPool al"
proof -
  let ?cl = "al_cacheLineSize al"
  define r where "r = round_to_line ?cl sz"
  have struct: "al_struct F al" using inv by (simp add: al_inv_def)
  then obtain n where cl: "?cl = 2 ^ n" by (auto simp: al_struct_def)
  have r: "r = (sz + ?cl - 1) div ?cl * ?cl"
    using round_to_line_eq [of sz n] sz(2) by (simp add: r_def cl max_address_def)
  have bounds: "sz \<le> r" "r < sz + ?cl" using round_up_multiple [of ?cl sz] by (simp_all add: r cl)
  have lines: "r div ?cl * ?cl = r" by (simp add: r)
  have key: "k = pool_for caller (r div ?cl)" using get by (auto simp: getPool_def Let_def r_def split: option.splits)
  then have kl: "key_lines k = r div ?cl" by (simp add: pool_for_def split: option.splits prod.splits)
  show ?thesis
  proof (cases "map_of (al_pools al) k")
    case (Some p)
    then have "al' = al" using get key by (simp add: getPool_def Let_def r_def [symmetric])
    then show ?thesis using Some inv pool_lookup [OF struct Some] kl lines bounds by (auto simp: pool_ok_def r_def)
  next
    case None
    let ?p = "\<lparr>mp_globalAllocator = (case caller of Some (_, node) \<Rightarrow> node | None \<Rightarrow> 0), mp_chunkSize = r, mp_topChunk = 0\<rparr>"
    have al': "al' = set_pool k ?p al" using get key None by (simp add: getPool_def Let_def r_def [symmetric])
    have "0 < r div ?cl" using bounds(1) sz(1) lines by (cases "r div ?cl") auto
    then have "al_struct (F(k := [])) al'"
      using caller bounds sz kl lines unfolding al' by (intro struct_set_pool [OF struct]) (simp add: pool_ok_def cl)
    moreover have "owned (F(k := [])) al' = owned F al"
      using sum_update_new [OF None, of "pool_bytes (F(k := []))" "pool_bytes F" ?p]
      by (simp add: owned_def al' pool_bytes_def) (simp add: set_pool_def)
    ultimately have "al_inv (F(k := [])) al' M" using inv by (simp add: al_inv_def al')
    then show ?thesis using bounds by (auto simp: al' r_def)
  qed
qed

end
