(* ===== verification/N6_MemoryTheorems.thy ===== *)
theory N6_MemoryTheorems
  imports N6_MemoryPoolProofs
begin

text \<open>
  Histories of the memory allocator: any sequence of allocations, releases and writes into blocks that are in
  use, by threads on CPUs and by other threads. A call is one step, because a pool is used by the thread of
  its CPU only and the global pools are locked; the pool of the threads without CPU has no lock, and the last
  section shows what two such threads do to it.
\<close>

section \<open>The state after the initialization\<close>

lemma create_pools_law:
  assumes "mmap_law mmap" "vm_ok vm" "0 < gas" "gas \<le> max_address" "\<forall>i \<in> set is. i < length (vm_localNUMAVMA vm)"
    and "create_pools mmap gas mcs is vm = Inr (gs, vm')"
  shows "vm_ok vm' \<and> length (vm_localNUMAVMA vm') = length (vm_localNUMAVMA vm) \<and> length gs = length is \<and>
    (\<forall>g \<in> set gs. pg_ok g \<and> pg_NUMANodeId g < length (vm_localNUMAVMA vm)) \<and>
    vm_free vm' + sum_list (map pg_free gs) + mapped vm \<subseteq># vm_free vm + mapped vm'"
  using assms(2,5,6)
proof (induction "is" arbitrary: vm gs)
  case (Cons i "is")
  obtain g vm1 gs' where new: "MemoryPoolGlobal_new mmap gas mcs i vm = Inr (g, vm1)"
    "create_pools mmap gas mcs is vm1 = Inr (gs', vm')" "gs = g # gs'" using Cons.prems(3) by (auto simp: prod.case_eq_if)
  define g0 where "g0 = \<lparr>pg_globalAllocSize = gas, pg_memoryChunkSize = mcs, pg_oldMemoryChunks = [],
    pg_curMemoryChunk = 0, pg_curAvailable = 0, pg_NUMANodeId = i\<rparr>"
  have mcs: "0 < mcs" "gas mod mcs = 0" and fill: "MemoryPoolGlobal_fillPool mmap g0 vm = Inr (g, vm1)"
    using new(1) by (auto simp: MemoryPoolGlobal_new_def g0_def)
  then have "pg_sizes g0" "pg_globalAllocSize g0 \<le> max_request"
    using assms(3,4) by (auto simp: g0_def pg_sizes_def max_request_def intro: dvd_imp_le)
  note law = MemoryPoolGlobal_fillPool_law [OF assms(1) Cons.prems(1) this fill]
  then have s: "vm_ok vm1" "pg_ok g" "pg_NUMANodeId g = i" "length (vm_localNUMAVMA vm1) = length (vm_localNUMAVMA vm)"
    "vm_free vm1 + pg_free g + mapped vm \<subseteq># vm_free vm + mapped vm1"
    by (auto simp: supplies_def g0_def pg_free_def)
  note IH = Cons.IH [OF s(1) _ new(2)]
  have "vm_free vm' + sum_list (map pg_free gs') + pg_free g + mapped vm1 \<subseteq># vm_free vm1 + pg_free g + mapped vm'"
    using IH Cons.prems(2) s(4) by (simp add: add.commute add.left_commute)
  then have "vm_free vm' + sum_list (map pg_free gs') + pg_free g + mapped vm \<subseteq># vm_free vm + mapped vm'"
    by (rule balance_trans [OF s(5)])
  then show ?case
    using IH Cons.prems(2) s by (simp add: new(3) add.commute add.left_commute)
qed simp

definition sizes_ok :: "nat \<Rightarrow> nat \<Rightarrow> nat option \<Rightarrow> nat list \<Rightarrow> nat \<Rightarrow> bool" where
  "sizes_ok cacheLineSize pageSize env numaNodes globalAllocSize \<longleftrightarrow>
     (\<exists>n < 60. cacheLineSize = 2 ^ n) \<and> 0 < pageSize \<and> pageSize \<le> max_address \<and>
     (case env of Some v \<Rightarrow> v \<le> max_address | None \<Rightarrow> True) \<and> set numaNodes = {..<length numaNodes} \<and>
     0 < globalAllocSize \<and> globalAllocSize \<le> max_address"

lemma initialize_inv:
  assumes mmap: "mmap_law mmap" and sizes: "sizes_ok cl page env nodes gas"
    and init: "MemoryAllocator_initialize mmap cl page phys env nodes gas mcs mem = Inr al"
  shows "al_inv (\<lambda>_. []) al {#} \<and> length (al_globalMemoryPool al) = length nodes \<and> al_cacheLineSize al = cl"
proof -
  obtain vm gs vm' where vm: "vmm_initialize mmap page phys env nodes = Inr vm"
    and cp: "create_pools mmap gas mcs [0..<length nodes] vm = Inr (gs, vm')"
    and al: "al = \<lparr>al_cacheLineSize = cl, al_vmm = vm', al_globalMemoryPool = gs, al_pools = [], al_memory = mem\<rparr>"
    using init by (auto simp: MemoryAllocator_initialize_def)
  have 1: "vm_ok vm \<and> vm_free vm \<subseteq># mapped vm \<and> length (vm_localNUMAVMA vm) = length nodes"
    using sizes by (intro vmm_initialize_law [OF mmap _ _ _ _ vm]) (simp_all add: sizes_ok_def)
  then have 2: "vm_ok vm' \<and> length (vm_localNUMAVMA vm') = length (vm_localNUMAVMA vm) \<and> length gs = length nodes \<and>
    (\<forall>g \<in> set gs. pg_ok g \<and> pg_NUMANodeId g < length (vm_localNUMAVMA vm)) \<and>
    vm_free vm' + sum_list (map pg_free gs) + mapped vm \<subseteq># vm_free vm + mapped vm'"
    using sizes create_pools_law [OF mmap _ _ _ _ cp] by (simp add: sizes_ok_def)
  then have "vm_free vm' + sum_list (map pg_free gs) \<subseteq># mapped vm'"
    using balance_use [of "vm_free vm' + sum_list (map pg_free gs)" "{#}" "mapped vm" "vm_free vm" "mapped vm'" "{#}"] 1 by simp
  moreover obtain n where n: "cl = 2 ^ n" "n < 60" using sizes by (auto simp: sizes_ok_def)
  moreover have "(2 :: nat) ^ n \<le> 2 ^ 60" using n(2) by (intro power_increasing) simp_all
  ultimately show ?thesis using 1 2 by (auto simp: al_inv_def al_struct_def owned_def al max_address_def)
qed

section \<open>Histories\<close>

text \<open>The blocks that the program uses, with the size of their chunk.\<close>

record mem_state =
  ms_al :: allocator
  ms_live :: "(nat \<times> nat) list"

definition caller_node :: "caller \<Rightarrow> nat" where
  "caller_node caller = (case caller of Some (_, node) \<Rightarrow> node | None \<Rightarrow> 0)"

definition request_ok :: "caller \<Rightarrow> nat \<Rightarrow> allocator \<Rightarrow> bool" where
  "request_ok caller sz al \<longleftrightarrow>
     caller_node caller < length (al_globalMemoryPool al) \<and> 0 < sz \<and> sz + al_cacheLineSize al \<le> max_address"

inductive mem_step :: "kernel \<Rightarrow> mem_state \<Rightarrow> mem_state \<Rightarrow> bool" for mmap where
  mem_alloc: "request_ok caller sz (ms_al s) \<Longrightarrow> MemoryAllocator_alloc mmap caller sz (ms_al s) = Inr (c, al) \<Longrightarrow>
    mem_step mmap s \<lparr>ms_al = al, ms_live = (c, round_to_line (al_cacheLineSize (ms_al s)) sz) # ms_live s\<rparr>"
| mem_free: "request_ok caller sz (ms_al s) \<Longrightarrow> (c, n) \<in> set (ms_live s) \<Longrightarrow> n = round_to_line (al_cacheLineSize (ms_al s)) sz \<Longrightarrow>
    MemoryAllocator_free caller c sz (ms_al s) = Inr al \<Longrightarrow> mem_step mmap s \<lparr>ms_al = al, ms_live = remove1 (c, n) (ms_live s)\<rparr>"
| mem_write: "(c, n) \<in> set (ms_live s) \<Longrightarrow> c \<le> x \<Longrightarrow> x < c + n \<Longrightarrow>
    mem_step mmap s (s\<lparr>ms_al := (ms_al s)\<lparr>al_memory := (al_memory (ms_al s))(x := v)\<rparr>\<rparr>)"

inductive mem_reach :: "kernel \<Rightarrow> mem_state \<Rightarrow> bool" for mmap where
  mem_start: "sizes_ok cl page env nodes gas \<Longrightarrow> MemoryAllocator_initialize mmap cl page phys env nodes gas mcs mem = Inr al \<Longrightarrow>
    mem_reach mmap \<lparr>ms_al = al, ms_live = []\<rparr>"
| mem_next: "mem_reach mmap s \<Longrightarrow> mem_step mmap s s' \<Longrightarrow> mem_reach mmap s'"

definition live_bytes :: "(nat \<times> nat) list \<Rightarrow> nat multiset" where
  "live_bytes live = sum_list (map (\<lambda>(c, n). block c n) live)"

definition mem_inv :: "mem_state \<Rightarrow> bool" where
  "mem_inv s \<longleftrightarrow> (\<exists>F. al_inv F (ms_al s) (live_bytes (ms_live s))) \<and> (\<forall>(c, n) \<in> set (ms_live s). c \<noteq> 0 \<and> 0 < n)"

lemma live_bytes_Cons [simp]: "live_bytes [] = {#}" "live_bytes ((c, n) # live) = live_bytes live + block c n"
  by (simp_all add: live_bytes_def)

lemma live_bytes_remove: "(c, n) \<in> set live \<Longrightarrow> live_bytes live = live_bytes (remove1 (c, n) live) + block c n"
  by (induction live) (auto simp: live_bytes_def add.commute add.left_commute)

lemma in_live_bytes: "(c, n) \<in> set live \<Longrightarrow> x \<in># block c n \<Longrightarrow> x \<in># live_bytes live"
  by (simp add: live_bytes_remove)

text \<open>The laws of the two operations on the invariant.\<close>

lemma alloc_law:
  assumes mmap: "mmap_law mmap" and inv: "al_inv F al M" and req: "request_ok caller sz al"
    and alloc: "MemoryAllocator_alloc mmap caller sz al = Inr (c, al')"
  shows "\<exists>F'. al_inv F' al' (M + block c (round_to_line (al_cacheLineSize al) sz)) \<and> c \<noteq> 0 \<and>
    sz \<le> round_to_line (al_cacheLineSize al) sz \<and> al_cacheLineSize al' = al_cacheLineSize al \<and>
    length (al_globalMemoryPool al') = length (al_globalMemoryPool al)"
proof -
  obtain k al1 where get: "getPool caller sz al = (k, al1)" by fastforce
  obtain F1 p where p: "al_inv F1 al1 M" "map_of (al_pools al1) k = Some p" "mp_chunkSize p = round_to_line (al_cacheLineSize al) sz"
    "sz \<le> mp_chunkSize p" "al_cacheLineSize al1 = al_cacheLineSize al" "al_globalMemoryPool al1 = al_globalMemoryPool al"
    using getPool_law [OF inv _ _ _ get] req by (auto simp: request_ok_def caller_node_def)
  then show ?thesis
    using getChunk_law [OF p(1) mmap p(2), of c al'] alloc get by (simp add: MemoryAllocator_alloc_def)
qed

lemma free_law:
  assumes inv: "al_inv F al (M + block c n)" and req: "request_ok caller sz al" and c: "c \<noteq> 0"
    and n: "n = round_to_line (al_cacheLineSize al) sz"
  shows "\<exists>al' F'. MemoryAllocator_free caller c sz al = Inr al' \<and> al_inv F' al' M \<and>
    al_cacheLineSize al' = al_cacheLineSize al \<and> length (al_globalMemoryPool al') = length (al_globalMemoryPool al)"
proof -
  obtain k al1 where get: "getPool caller sz al = (k, al1)" by fastforce
  obtain F1 p where p: "al_inv F1 al1 (M + block c n)" "map_of (al_pools al1) k = Some p"
    "mp_chunkSize p = n" "al_cacheLineSize al1 = al_cacheLineSize al" "al_globalMemoryPool al1 = al_globalMemoryPool al"
    using getPool_law [OF inv _ _ _ get] req n by (auto simp: request_ok_def caller_node_def)
  then show ?thesis
    using inv_return [of F1 al1 M c p k] c get by (auto simp: MemoryAllocator_free_def returnChunk_def)
qed

lemma mem_step_inv:
  assumes "mmap_law mmap" "mem_step mmap s s'" "mem_inv s"
  shows "mem_inv s'"
proof -
  obtain F where F: "al_inv F (ms_al s) (live_bytes (ms_live s))" and nz: "\<forall>(c, n) \<in> set (ms_live s). c \<noteq> 0 \<and> 0 < n"
    using assms(3) by (auto simp: mem_inv_def)
  show ?thesis using assms(2)
  proof cases
    case (mem_alloc caller sz c al)
    then show ?thesis using alloc_law [OF assms(1) F mem_alloc(2,3)] nz by (auto simp: mem_inv_def request_ok_def)
  next
    case (mem_free caller sz c n al)
    have "al_inv F (ms_al s) (live_bytes (remove1 (c, n) (ms_live s)) + block c n)" using F live_bytes_remove [OF mem_free(3)] by simp
    from free_law [OF this mem_free(2) _ mem_free(4)] show ?thesis
      using mem_free nz by (auto simp: mem_inv_def dest: notin_set_remove1)
  next
    case (mem_write c n x v)
    then have "al_inv F ((ms_al s)\<lparr>al_memory := (al_memory (ms_al s))(x := v)\<rparr>) (live_bytes (ms_live s))"
      by (intro inv_write [OF F]) (auto intro: in_live_bytes)
    then show ?thesis using nz mem_write by (auto simp: mem_inv_def)
  qed
qed

lemma mem_reach_inv: "mem_reach mmap s \<Longrightarrow> mmap_law mmap \<Longrightarrow> mem_inv s"
proof (induction rule: mem_reach.induct)
  case (mem_start cl page env nodes gas phys mcs mem al)
  then show ?case using initialize_inv [OF mem_start(3,1,2)] by (auto simp: mem_inv_def)
qed (rule mem_step_inv)

section \<open>Only the kernel can make an allocation fail\<close>

definition out_of_memory :: nanos6_error where
  "out_of_memory = FatalError ''mapping virtual address space failed''"

definition only_oom :: "'a result \<Rightarrow> bool" where
  "only_oom r \<longleftrightarrow> (\<forall>e. r = Inl e \<longrightarrow> e = out_of_memory)"

lemma only_oom_simps [simp]: "only_oom (Inr x)" "only_oom (Inl e) \<longleftrightarrow> e = out_of_memory"
  by (simp_all add: only_oom_def)

lemma only_oom_bind: "only_oom r \<Longrightarrow> (\<And>x. r = Inr x \<Longrightarrow> only_oom (f x)) \<Longrightarrow> only_oom (result_bind r f)"
  by (cases r) simp_all

lemma only_oom_mapping [simp]: "only_oom (VirtualMemoryAllocation_new mmap ms a n)"
  by (simp add: VirtualMemoryAllocation_new_def out_of_memory_def split: option.splits)

lemma only_oom_local:
  "vm_ok vm \<Longrightarrow> node < length (vm_localNUMAVMA vm) \<Longrightarrow> only_oom (allocLocalNUMA mmap sz node vm)"
  by (auto simp: allocLocalNUMA_def vm_ok_def Let_def prod.case_eq_if intro!: only_oom_bind)

lemma only_oom_fill:
  assumes "mmap_law mmap" "vm_ok vm" "pg_globalAllocSize g \<le> max_request" "pg_NUMANodeId g < length (vm_localNUMAVMA vm)"
  shows "only_oom (MemoryPoolGlobal_fillPool mmap g vm)"
  unfolding MemoryPoolGlobal_fillPool_def
proof (rule only_oom_bind [OF only_oom_local [OF assms(2,4)]])
  fix x assume "allocLocalNUMA mmap (pg_globalAllocSize g) (pg_NUMANodeId g) vm = Inr x"
  then have "fst x \<noteq> 0" using allocLocalNUMA_law [OF assms(2,1,3)] by (metis prod.collapse)
  then show "only_oom (case x of (chunk, vm') \<Rightarrow> fail_if (chunk = 0) ''could not allocate a memory chunk for the global allocator''
      (Inr (g\<lparr>pg_curAvailable := pg_globalAllocSize g, pg_curMemoryChunk := chunk,
        pg_oldMemoryChunks := pg_oldMemoryChunks g @ [chunk]\<rparr>, vm')))" by (simp add: prod.case_eq_if)
qed

lemma only_oom_get:
  assumes mmap: "mmap_law mmap" and vm: "vm_ok vm" and g: "pg_ok g" "pg_NUMANodeId g < length (vm_localNUMAVMA vm)"
    and min: "minSize \<le> max_address"
  shows "only_oom (getMemory mmap minSize g vm)"
proof -
  have b: "ROUND_UP (pg_globalAllocSize g') c \<le> max_request" if "pg_ok g'" "0 < c" "c \<le> 2 * max_address" for g' c
    using ROUND_UP_bounds(3) [of c "pg_globalAllocSize g'"] that by (auto simp: pg_ok_def max_request_def max_address_def)
  have "only_oom (refill_exhausted mmap g vm)"
    using g b [OF g(1), of "pg_memoryChunkSize g"] unfolding refill_exhausted_def
    by (auto intro!: only_oom_fill [OF mmap vm] simp: pg_ok_def pg_sizes_def max_request_def)
  moreover have "only_oom (raise_chunkSize mmap minSize g1 vm1)" if "refill_exhausted mmap g vm = Inr (g1, vm1)" for g1 vm1
  proof -
    have 1: "pg_ok g1" "vm_ok vm1" "pg_NUMANodeId g1 < length (vm_localNUMAVMA vm1)"
      using refill_exhausted_law [OF mmap vm g(1) that] g(2) by (auto simp: supplies_def)
    have "0 < ROUND_UP minSize (pg_memoryChunkSize g1) \<and> ROUND_UP minSize (pg_memoryChunkSize g1) \<le> 2 * max_address"
      if "pg_memoryChunkSize g1 < minSize"
      using ROUND_UP_bounds(2,3) [of "pg_memoryChunkSize g1" minSize] 1(1) min that by (auto simp: pg_ok_def pg_sizes_def max_address_def)
    then show ?thesis using 1 b [OF 1(1)] unfolding raise_chunkSize_def Let_def by (auto intro!: only_oom_fill [OF mmap])
  qed
  ultimately show ?thesis by (auto simp: getMemory_def Let_def intro!: only_oom_bind)
qed

lemma only_oom_alloc:
  assumes mmap: "mmap_law mmap" and inv: "al_inv F al M" and req: "request_ok caller sz al"
  shows "only_oom (MemoryAllocator_alloc mmap caller sz al)"
proof -
  obtain k al1 where get: "getPool caller sz al = (k, al1)" by fastforce
  obtain F1 p where p: "al_inv F1 al1 M" "map_of (al_pools al1) k = Some p"
    using getPool_law [OF inv _ _ _ get] req by (auto simp: request_ok_def caller_node_def)
  have ok: "pool_ok F1 al1 (k, p)" using pool_lookup [OF _ p(2)] p(1) by (simp add: al_inv_def)
  let ?g = "al_globalMemoryPool al1 ! mp_globalAllocator p"
  have g: "vm_ok (al_vmm al1)" "pg_ok ?g" "pg_NUMANodeId ?g < length (vm_localNUMAVMA (al_vmm al1))" "mp_chunkSize p \<le> max_address"
    using p(1) ok by (auto simp: al_inv_def al_struct_def pool_ok_def)
  have "only_oom (MemoryPool_fillPool mmap p al1)"
    unfolding MemoryPool_fillPool_def
  proof (rule only_oom_bind [OF only_oom_get [OF mmap g]], clarify)
    fix c n g' vm assume "getMemory mmap (mp_chunkSize p) ?g (al_vmm al1) = Inr (c, n, g', vm)"
    then have "mp_chunkSize p \<le> n" using fill_bytes [OF p(1) mmap p(2)] by blast
    moreover have "mp_chunkSize p \<noteq> 0" using ok by (simp add: pool_ok_def)
    ultimately have "n div mp_chunkSize p \<noteq> 0" by (simp add: div_eq_0_iff)
    with \<open>mp_chunkSize p \<noteq> 0\<close> show "only_oom (fail_if (mp_chunkSize p = 0) ''division by zero''
        (let numChunks = n div mp_chunkSize p in fail_if (numChunks = 0) ''Memory returned from global pool is smaller than chunk size''
          (let (prevChunk, mem) = link_chunks c (mp_chunkSize p) [1..<numChunks] (c, al_memory al1)
           in Inr (p\<lparr>mp_topChunk := c\<rparr>, al1\<lparr>al_vmm := vm,
                al_globalMemoryPool := (al_globalMemoryPool al1)[mp_globalAllocator p := g'], al_memory := mem(prevChunk := 0)\<rparr>))))"
      by (simp add: Let_def prod.case_eq_if)
  qed
  then show ?thesis
    using p(2) get by (auto simp: MemoryAllocator_alloc_def getChunk_def Let_def prod.case_eq_if intro!: only_oom_bind)
qed

section \<open>An example\<close>

text \<open>A kernel that maps behind the last mapping, and a program that uses two blocks.\<close>

definition bump_mmap :: kernel where
  "bump_mmap ms a n =
     (let e = foldr (\<lambda>(b, m). max (b + m)) ms 4096 in if e + n \<le> max_address then Some e else None)"

lemma bump_law: "mmap_law bump_mmap"
proof -
  have "b + m \<le> foldr (\<lambda>(b, m). max (b + m)) ms e" if "(b, m) \<in> set ms" for b m e :: nat and ms
    using that by (induction ms) (auto simp: le_max_iff_disj)
  moreover have "e \<le> foldr (\<lambda>(b, m). max (b + m)) ms e" for e :: nat and ms
    by (induction ms) (auto simp: le_max_iff_disj)
  moreover have "a \<noteq> 0 \<and> a + sz \<le> max_address \<and> a = foldr (\<lambda>(b, m). max (b + m)) ms 4096"
    if "bump_mmap ms 0 sz = Some a" for ms sz a
    using that calculation(2) [of 4096 ms] by (auto simp: bump_mmap_def Let_def split: if_splits)
  ultimately show ?thesis unfolding mmap_law_def by blast
qed

lemmas memory_eval = MemoryAllocator_initialize_def vmm_initialize_def VirtualMemoryAllocation_new_def setupMemoryLayout_def
  bump_mmap_def max_address_def ROUND_UP_def wrap_def VirtualMemoryArea_new_def MemoryPoolGlobal_new_def
  MemoryPoolGlobal_fillPool_def allocLocalNUMA_def allocBlock_def MemoryAllocator_alloc_def getPool_def getChunk_def
  MemoryPool_fillPool_def getMemory_def refill_exhausted_def raise_chunkSize_def set_pool_def pool_for_def Let_def

lemma example_round: "round_to_line 64 2000 = 2048"
  using round_to_line_eq [of 2000 6] by simp

definition example_al :: allocator where
  "example_al =
     \<lparr>al_cacheLineSize = 64,
       al_vmm = \<lparr>vm_pageSize = 4096, vm_size = 8192, vm_allocations = [(4096, 8192)],
         vm_localNUMAVMA = [[\<lparr>va_start = 4096, va_size = 8192, va_end = 12288, va_nextFree = 8192, va_available = 4096\<rparr>]]\<rparr>,
       al_globalMemoryPool = [\<lparr>pg_globalAllocSize = 4096, pg_memoryChunkSize = 4096, pg_oldMemoryChunks = [4096],
         pg_curMemoryChunk = 4096, pg_curAvailable = 4096, pg_NUMANodeId = 0\<rparr>],
       al_pools = [], al_memory = (\<lambda>_. 0)\<rparr>"

lemma example_init: "MemoryAllocator_initialize bump_mmap 64 4096 0 (Some 8192) [0] 4096 4096 (\<lambda>_. 0) = Inr example_al"
  by (simp add: memory_eval example_al_def)

lemma example_blocks:
  "\<exists>al1 al2. MemoryAllocator_alloc bump_mmap None 2000 example_al = Inr (4096, al1) \<and>
     MemoryAllocator_alloc bump_mmap None 2000 al1 = Inr (6144, al2) \<and>
     al_cacheLineSize al1 = 64 \<and> al_cacheLineSize al2 = 64 \<and> length (al_globalMemoryPool al1) = 1 \<and> length (al_globalMemoryPool al2) = 1"
  by (simp add: memory_eval example_al_def example_round upt_conv_Cons)

lemma example_reach:
  "\<exists>s. mem_reach bump_mmap s \<and> ms_live s = [(6144, 2048), (4096, 2048)] \<and>
     al_cacheLineSize (ms_al s) = 64 \<and> length (al_globalMemoryPool (ms_al s)) = 1"
proof -
  obtain al1 al2 where al: "MemoryAllocator_alloc bump_mmap None 2000 example_al = Inr (4096, al1)"
    "MemoryAllocator_alloc bump_mmap None 2000 al1 = Inr (6144, al2)" "al_cacheLineSize al1 = 64" "al_cacheLineSize al2 = 64"
    "length (al_globalMemoryPool al1) = 1" "length (al_globalMemoryPool al2) = 1" using example_blocks by blast
  let ?s0 = "\<lparr>ms_al = example_al, ms_live = []\<rparr>"
  have "sizes_ok 64 4096 (Some 8192) [0] 4096"
    by (auto simp: sizes_ok_def max_address_def intro!: exI [of _ 6])
  then have r0: "mem_reach bump_mmap ?s0" using example_init by (rule mem_start)
  have "mem_step bump_mmap ?s0 \<lparr>ms_al = al1, ms_live = [(4096, 2048)]\<rparr>"
    using mem_alloc [of None 2000 ?s0 bump_mmap 4096 al1] al
    by (simp add: example_round request_ok_def caller_node_def max_address_def example_al_def)
  with r0 have r1: "mem_reach bump_mmap \<lparr>ms_al = al1, ms_live = [(4096, 2048)]\<rparr>" by (rule mem_next)
  have "mem_step bump_mmap \<lparr>ms_al = al1, ms_live = [(4096, 2048)]\<rparr> \<lparr>ms_al = al2, ms_live = [(6144, 2048), (4096, 2048)]\<rparr>"
    using mem_alloc [of None 2000 "\<lparr>ms_al = al1, ms_live = [(4096, 2048)]\<rparr>" bump_mmap 6144 al2] al
    by (simp add: example_round request_ok_def caller_node_def max_address_def)
  with r1 have "mem_reach bump_mmap \<lparr>ms_al = al2, ms_live = [(6144, 2048), (4096, 2048)]\<rparr>" by (rule mem_next)
  then show ?thesis using al by (intro exI [of _ "\<lparr>ms_al = al2, ms_live = [(6144, 2048), (4096, 2048)]\<rparr>"]) simp
qed

section \<open>The properties\<close>

lemma live_pair:
  assumes "i < j" "j < length live" "live ! i = (a, m)" "live ! j = (b, n)"
  shows "block a m + block b n \<subseteq># live_bytes live"
proof -
  have "live_bytes live = live_bytes (take j live) + live_bytes (drop j live)" by (simp add: live_bytes_def flip: sum_list_append map_append)
  moreover have "(a, m) \<in> set (take j live)" "(b, n) \<in> set (drop j live)"
    using assms by (auto simp: in_set_conv_nth intro: exI [of _ i] exI [of _ 0])
  then have "block a m \<subseteq># live_bytes (take j live)" "block b n \<subseteq># live_bytes (drop j live)"
    using live_bytes_remove by (metis mset_subset_eq_add_right)+
  ultimately show ?thesis by (metis subset_mset.add_mono)
qed

text \<open>
  C34. In every history of allocations, releases and writes, two blocks that are in use do not overlap, and
  every byte of a block lies in a mapping: the kernel's mappings are cut into areas, chunks and free lists
  without giving a byte away twice.
\<close>

theorem allocated_blocks_disjoint:
  assumes "mmap_law mmap" "mem_reach mmap s"
  shows "(i < j \<and> j < length (ms_live s) \<and> ms_live s ! i = (a, m) \<and> ms_live s ! j = (b, n) \<longrightarrow> a + m \<le> b \<or> b + n \<le> a) \<and>
    ((a, m) \<in> set (ms_live s) \<and> a \<le> x \<and> x < a + m \<longrightarrow>
      (\<exists>(c, l) \<in> set (vm_allocations (al_vmm (ms_al s))). c \<le> x \<and> x < c + l))"
proof -
  obtain F where F: "al_inv F (ms_al s) (live_bytes (ms_live s))" and nz: "\<forall>(c, n) \<in> set (ms_live s). c \<noteq> 0 \<and> 0 < n"
    using mem_reach_inv [OF assms(2,1)] by (auto simp: mem_inv_def)
  have once: "once (live_bytes (ms_live s))"
    using once_sub [OF al_inv_once [OF F]] by (simp add: mset_subset_eq_add_right)
  have "a + m \<le> b \<or> b + n \<le> a" if ij: "i < j" "j < length (ms_live s)" "ms_live s ! i = (a, m)" "ms_live s ! j = (b, n)"
  proof -
    have "(a, m) \<in> set (ms_live s)" "(b, n) \<in> set (ms_live s)" using ij by (metis nth_mem order.strict_trans)+
    then show ?thesis using once_blocks [OF once_sub [OF once live_pair [OF ij]]] nz by auto
  qed
  moreover have "x \<in># mapped (al_vmm (ms_al s))" if "(a, m) \<in> set (ms_live s)" "a \<le> x" "x < a + m"
    using F in_live_bytes [OF that(1), of x] that(2,3) by (auto simp: al_inv_def dest!: mset_subset_eqD [of _ _ x])
  ultimately show ?thesis by (fastforce simp: mapped_def)
qed

theorem allocated_blocks_disjoint_witness:
  "\<exists>s. mem_reach bump_mmap s \<and> ms_live s = [(6144, 2048), (4096, 2048)] \<and> (6144 + 2048 \<le> (4096 :: nat) \<or> 4096 + 2048 \<le> (6144 :: nat)) \<and>
     (\<exists>c l. (c, l) \<in> set (vm_allocations (al_vmm (ms_al s))) \<and> c \<le> 7000 \<and> 7000 < c + l)"
proof -
  obtain s where s: "mem_reach bump_mmap s" "ms_live s = [(6144, 2048), (4096, 2048)]" using example_reach by blast
  have "6144 + 2048 \<le> (4096 :: nat) \<or> 4096 + 2048 \<le> (6144 :: nat)"
    using allocated_blocks_disjoint [OF bump_law s(1), of 0 1 6144 2048 4096 2048] s(2) by simp
  moreover have "\<exists>(c, l) \<in> set (vm_allocations (al_vmm (ms_al s))). c \<le> 7000 \<and> 7000 < c + l"
    using allocated_blocks_disjoint [OF bump_law s(1), of 0 1 6144 2048 4096 2048 7000] s(2) by simp
  ultimately show ?thesis using s by blast
qed

text \<open>
  C35. An allocation fails only because the kernel refuses a mapping. Otherwise it returns a block of the
  requested size that does not overlap any block in use; none of the other error exits of the pools is taken.
  A release of a block in use always succeeds, from whatever thread.
\<close>

theorem allocation_fails_only_without_memory:
  assumes "mmap_law mmap" "mem_reach mmap s" "request_ok caller sz (ms_al s)"
  shows "(MemoryAllocator_alloc mmap caller sz (ms_al s) = Inl (FatalError ''mapping virtual address space failed'') \<or>
      (\<exists>c al. MemoryAllocator_alloc mmap caller sz (ms_al s) = Inr (c, al) \<and> c \<noteq> 0 \<and>
         (\<forall>(a, n) \<in> set (ms_live s). c + sz \<le> a \<or> a + n \<le> c))) \<and>
    ((c, round_to_line (al_cacheLineSize (ms_al s)) sz) \<in> set (ms_live s) \<longrightarrow>
      (\<exists>al. MemoryAllocator_free caller c sz (ms_al s) = Inr al))"
proof -
  obtain F where F: "al_inv F (ms_al s) (live_bytes (ms_live s))" and nz: "\<forall>(c, n) \<in> set (ms_live s). c \<noteq> 0 \<and> 0 < n"
    using mem_reach_inv [OF assms(2,1)] by (auto simp: mem_inv_def)
  have "c \<noteq> 0 \<and> (\<forall>(a, n) \<in> set (ms_live s). c + sz \<le> a \<or> a + n \<le> c)"
    if alloc: "MemoryAllocator_alloc mmap caller sz (ms_al s) = Inr (c, al)" for c al
  proof -
    let ?r = "round_to_line (al_cacheLineSize (ms_al s)) sz"
    obtain F' where F': "al_inv F' al (live_bytes (ms_live s) + block c ?r)" "c \<noteq> 0" "sz \<le> ?r"
      using alloc_law [OF assms(1) F assms(3) alloc] by blast
    have "c + sz \<le> a \<or> a + n \<le> c" if "(a, n) \<in> set (ms_live s)" for a n
    proof -
      have "block a n + block c ?r \<subseteq># live_bytes (ms_live s) + block c ?r"
        using live_bytes_remove [OF that] by simp
      then have "once (block a n + block c ?r)"
        using once_sub [OF al_inv_once [OF F'(1)]] by (simp add: subset_mset.add_increasing)
      moreover have "0 < n" "0 < sz" using nz that assms(3) by (auto simp: request_ok_def)
      ultimately show ?thesis using once_blocks [of a n c ?r] F'(3) by auto
    qed
    then show ?thesis using F'(2) by blast
  qed
  moreover have "\<exists>al. MemoryAllocator_free caller c sz (ms_al s) = Inr al"
    if "(c, round_to_line (al_cacheLineSize (ms_al s)) sz) \<in> set (ms_live s)"
    using free_law [OF _ assms(3) _ refl, of F "live_bytes (remove1 (c, round_to_line (al_cacheLineSize (ms_al s)) sz) (ms_live s))" c]
      F live_bytes_remove [OF that] nz that by auto
  moreover have "only_oom (MemoryAllocator_alloc mmap caller sz (ms_al s))" by (rule only_oom_alloc [OF assms(1) F assms(3)])
  ultimately show ?thesis
    by (cases "MemoryAllocator_alloc mmap caller sz (ms_al s)") (auto simp: out_of_memory_def)
qed

theorem allocation_fails_only_without_memory_witness:
  "\<exists>s. mem_reach bump_mmap s \<and> ms_live s = [(6144, 2048), (4096, 2048)] \<and>
     (\<exists>al. MemoryAllocator_free (Some (3, 0)) 4096 2000 (ms_al s) = Inr al)"
proof -
  obtain s where s: "mem_reach bump_mmap s" "ms_live s = [(6144, 2048), (4096, 2048)]"
    "al_cacheLineSize (ms_al s) = 64" "length (al_globalMemoryPool (ms_al s)) = 1" using example_reach by blast
  have "request_ok (Some (3, 0)) 2000 (ms_al s)" using s by (simp add: request_ok_def caller_node_def max_address_def)
  then show ?thesis
    using allocation_fails_only_without_memory [OF bump_law s(1), of "Some (3, 0)" 2000 4096] s example_round by auto
qed

text \<open>
  C36. \<open>findNUMA\<close> is the inverse of an allocation: for every address of a block it answers the node for
  which the block was allocated, at any later time.
\<close>

theorem findNUMA_inverts_allocation:
  assumes "mmap_law mmap" "sizes_ok cl page env nodes gas" "vmm_initialize mmap page phys env nodes = Inr vm0"
    and "vm_run mmap vm0 vm1" "sz \<le> max_request" "allocLocalNUMA mmap sz node vm1 = Inr (ret, vm2)"
    and "vm_run mmap vm2 vm3" "k < sz"
  shows "findNUMA (ret + k) vm3 = node"
proof -
  have "vm_ok vm0" using vmm_initialize_law [OF assms(1) _ _ _ _ assms(3)] assms(2) by (simp add: sizes_ok_def)
  then have ok: "vm_ok vm1" using vm_run_ok [OF assms(4,1)] by blast
  then have "vm_ok vm2" using allocLocalNUMA_law [OF ok assms(1,5,6)] by blast
  moreover have "covers vm2 (ret + k) node" by (rule allocLocalNUMA_in_node [OF ok assms(1,5,6,8)])
  ultimately show ?thesis using vm_run_ok [OF assms(7,1)] findNUMA_covers by blast
qed

lemma example_vmm:
  "vmm_initialize bump_mmap 4096 0 (Some 8192) [0, 1] = Inr \<lparr>vm_pageSize = 4096, vm_size = 8192, vm_allocations = [(4096, 8192)],
     vm_localNUMAVMA = [[VirtualMemoryArea_new 4096 4096], [VirtualMemoryArea_new 8192 4096]]\<rparr>"
  by (simp add: memory_eval flip: numeral_2_eq_2) (simp add: numeral_2_eq_2)

theorem findNUMA_inverts_allocation_witness:
  "\<exists>vm0 vm2. vmm_initialize bump_mmap 4096 0 (Some 8192) [0, 1] = Inr vm0 \<and>
     allocLocalNUMA bump_mmap 5000 1 vm0 = Inr (12288, vm2) \<and> findNUMA 17000 vm2 = 1"
proof -
  obtain vm2 where vm2: "allocLocalNUMA bump_mmap 5000 1 \<lparr>vm_pageSize = 4096, vm_size = 8192, vm_allocations = [(4096, 8192)],
     vm_localNUMAVMA = [[VirtualMemoryArea_new 4096 4096], [VirtualMemoryArea_new 8192 4096]]\<rparr> = Inr (12288, vm2)"
    by (simp add: memory_eval)
  have "sizes_ok 64 4096 (Some 8192) [0, 1] 4096"
    by (auto simp: sizes_ok_def max_address_def intro!: exI [of _ 6])
  from findNUMA_inverts_allocation [OF bump_law this example_vmm vm_run_refl _ vm2 vm_run_refl, of 4712]
  have "findNUMA 17000 vm2 = 1" by (simp add: max_request_def max_address_def)
  then show ?thesis using example_vmm vm2 by blast
qed

end
