(* ===== verification/N6_ObjectCache.thy ===== *)
theory N6_ObjectCache
  imports N6_MemoryTheorems
begin

text \<open>
  The caches of objects (\<open>src/memory/allocator/pool\<close>: \<open>ObjectCache.hpp\<close>, \<open>CPUObjectCache.hpp\<close>,
  \<open>NUMAObjectCache.hpp\<close>, \<open>ObjectAllocator.hpp\<close>). An object is its address. A CPU takes objects from its own
  cache, refills it from the pool of its NUMA node, and asks the memory allocator for an array of objects when
  that pool is empty; a deleted object goes to the cache of the CPU that deletes it and, when it belongs to
  another node, in batches to the pool of that node.

  The interface to the memory allocator is the locale \<open>memory_source\<close>; the allocator of \<open>N6_MemoryTheorems\<close>
  interprets it. Constructors and destructors of the objects are user code.
\<close>

section \<open>The pools of the NUMA nodes\<close>

type_synonym object_pools = "nat list list"

definition fillCPUPool :: "nat \<Rightarrow> nat list \<Rightarrow> nat \<Rightarrow> object_pools \<Rightarrow> nat \<times> nat list \<times> object_pools" where
  "fillCPUPool numaId pool requestedObjects numaPools =
     (let numaPool = numaPools ! numaId; poolSize = length numaPool
      in if poolSize = 0 then (0, pool, numaPools)
         else let nrObjects = min requestedObjects poolSize
              in (nrObjects, rev (take nrObjects numaPool) @ pool, numaPools[numaId := drop nrObjects numaPool]))"

definition returnObjects :: "nat \<Rightarrow> nat list \<Rightarrow> object_pools \<Rightarrow> nat list \<times> object_pools" where
  "returnObjects numaId pool numaPools = ([], numaPools[numaId := numaPools ! numaId @ pool])"

section \<open>The cache of a CPU\<close>

record CPUObjectCache =
  oc_NUMANodeId :: nat
  oc_allocationSize :: nat
  oc_available :: object_pools

definition CPUObjectCache_new :: "nat \<Rightarrow> nat \<Rightarrow> CPUObjectCache" where
  "CPUObjectCache_new numaId numaNodeCount =
     \<lparr>oc_NUMANodeId = numaId, oc_allocationSize = 1, oc_available = replicate (numaNodeCount + 1) []\<rparr>"

text \<open>
  \<open>newObject\<close>: \<open>alloc\<close> is \<open>MemoryAllocator::alloc\<close> for the calling thread and \<open>m\<close> the state of the memory. The
  first part makes objects available in \<open>local\<close>, the second takes the first of them; taking the front of an
  empty deque is an error value.
\<close>

definition refill_local ::
  "(nat \<Rightarrow> 'm \<Rightarrow> (nat \<times> 'm) result) \<Rightarrow> nat \<Rightarrow> CPUObjectCache \<Rightarrow> object_pools \<Rightarrow> 'm \<Rightarrow> (nat list \<times> nat \<times> object_pools \<times> 'm) result" where
  "refill_local alloc sizeofT c numaPools m =
     (let allocationSize = wrap (oc_allocationSize c * 2);
          (allocated, local, numaPools') = fillCPUPool (oc_NUMANodeId c) (oc_available c ! oc_NUMANodeId c) allocationSize numaPools
      in if allocated = 0
         then result_bind (alloc (wrap (allocationSize * sizeofT)) m) (\<lambda>(ptr, m').
                Inr (local @ map (\<lambda>i. ptr + i * sizeofT) [0..<allocationSize], allocationSize, numaPools', m'))
         else Inr (local, allocationSize, numaPools', m))"

definition CPUObjectCache_newObject ::
  "(nat \<Rightarrow> 'm \<Rightarrow> (nat \<times> 'm) result) \<Rightarrow> nat \<Rightarrow> CPUObjectCache \<Rightarrow> object_pools \<Rightarrow> 'm \<Rightarrow> (nat \<times> CPUObjectCache \<times> object_pools \<times> 'm) result" where
  "CPUObjectCache_newObject alloc sizeofT c numaPools m =
     result_bind
       (if oc_available c ! oc_NUMANodeId c = [] then refill_local alloc sizeofT c numaPools m
        else Inr (oc_available c ! oc_NUMANodeId c, oc_allocationSize c, numaPools, m))
       (\<lambda>(local, allocationSize, numaPools', m').
         case local of
           [] \<Rightarrow> Inl (AssertFailed ''front() of an empty deque'')
         | ret # rest \<Rightarrow>
             Inr (ret, c\<lparr>oc_allocationSize := allocationSize, oc_available := (oc_available c)[oc_NUMANodeId c := rest]\<rparr>, numaPools', m'))"

definition CPUObjectCache_deleteObject :: "nat \<Rightarrow> nat \<Rightarrow> CPUObjectCache \<Rightarrow> object_pools \<Rightarrow> CPUObjectCache \<times> object_pools" where
  "CPUObjectCache_deleteObject nodeId ptr c numaPools =
     (let pool = ptr # oc_available c ! nodeId
      in if nodeId \<noteq> oc_NUMANodeId c \<and> length pool = 64
         then let (pool', numaPools') = returnObjects nodeId pool numaPools
              in (c\<lparr>oc_available := (oc_available c)[nodeId := pool']\<rparr>, numaPools')
         else (c\<lparr>oc_available := (oc_available c)[nodeId := pool]\<rparr>, numaPools))"

section \<open>The object cache\<close>

record ObjectCache =
  obc_NUMACache :: object_pools
  obc_CPUCaches :: "CPUObjectCache list"
  obc_externalObjectCache :: CPUObjectCache

text \<open>The constructor; the arguments are the NUMA nodes of the CPUs and the number of NUMA nodes.\<close>

definition ObjectCache_new :: "nat list \<Rightarrow> nat \<Rightarrow> ObjectCache" where
  "ObjectCache_new nodes numaNodeCount =
     \<lparr>obc_NUMACache = replicate (numaNodeCount + 1) [],
      obc_CPUCaches = map (\<lambda>node. CPUObjectCache_new node numaNodeCount) nodes,
      obc_externalObjectCache = CPUObjectCache_new 0 numaNodeCount\<rparr>"

definition cache_of :: "caller \<Rightarrow> ObjectCache \<Rightarrow> CPUObjectCache" where
  "cache_of caller oc = (case caller of Some (cpuId, _) \<Rightarrow> obc_CPUCaches oc ! cpuId | None \<Rightarrow> obc_externalObjectCache oc)"

definition set_cache :: "caller \<Rightarrow> CPUObjectCache \<Rightarrow> object_pools \<Rightarrow> ObjectCache \<Rightarrow> ObjectCache" where
  "set_cache caller c numaPools oc =
     (case caller of
        Some (cpuId, _) \<Rightarrow> oc\<lparr>obc_CPUCaches := (obc_CPUCaches oc)[cpuId := c], obc_NUMACache := numaPools\<rparr>
      | None \<Rightarrow> oc\<lparr>obc_externalObjectCache := c, obc_NUMACache := numaPools\<rparr>)"

definition ObjectCache_newObject ::
  "(caller \<Rightarrow> nat \<Rightarrow> 'm \<Rightarrow> (nat \<times> 'm) result) \<Rightarrow> nat \<Rightarrow> caller \<Rightarrow> ObjectCache \<Rightarrow> 'm \<Rightarrow> (nat \<times> ObjectCache \<times> 'm) result" where
  "ObjectCache_newObject alloc sizeofT caller oc m =
     result_bind (CPUObjectCache_newObject (alloc caller) sizeofT (cache_of caller oc) (obc_NUMACache oc) m) (\<lambda>(ret, c, numaPools, m').
       Inr (ret, set_cache caller c numaPools oc, m'))"

definition ObjectCache_deleteObject :: "nat \<Rightarrow> caller \<Rightarrow> nat \<Rightarrow> ObjectCache \<Rightarrow> ObjectCache" where
  "ObjectCache_deleteObject nodeId caller ptr oc =
     (let (c, numaPools) = CPUObjectCache_deleteObject nodeId ptr (cache_of caller oc) (obc_NUMACache oc)
      in set_cache caller c numaPools oc)"

section \<open>Objects and their bytes\<close>

definition objects_in :: "object_pools \<Rightarrow> nat multiset" where
  "objects_in pools = mset (concat pools)"

definition object_bytes :: "nat \<Rightarrow> nat multiset \<Rightarrow> nat multiset" where
  "object_bytes n O' = sum_mset (image_mset (\<lambda>a. block a n) O')"

lemma object_bytes_simps [simp]:
  "object_bytes n {#} = {#}" "object_bytes n (A + B) = object_bytes n A + object_bytes n B" "object_bytes n {#a#} = block a n"
  "object_bytes n (add_mset a A) = block a n + object_bytes n A"
  by (simp_all add: object_bytes_def)

lemma object_bytes_array: "object_bytes n (mset (map (\<lambda>i. a + i * n) [0..<k])) = block a (k * n)"
proof (induction k)
  case (Suc k)
  then show ?case using block_add [of a "k * n" n] by (simp add: add.commute)
qed simp

lemma objects_in_update: "i < length pools \<Longrightarrow> objects_in (pools[i := xs]) + mset (pools ! i) = objects_in pools + mset xs"
  by (simp add: objects_in_def mset_concat sum_list_update_plus)

lemma fillCPUPool_objects:
  assumes "node < length pools" "fillCPUPool node pool req pools = (n, pool', pools')"
  shows "objects_in pools' + mset pool' = objects_in pools + mset pool" "length pools' = length pools"
    "n = 0 \<Longrightarrow> pool' = pool \<and> pools' = pools"
proof -
  let ?k = "min req (length (pools ! node))"
  have *: "objects_in (pools[node := drop ?k (pools ! node)]) + mset (take ?k (pools ! node)) = objects_in pools"
    using objects_in_update [OF assms(1), of "drop ?k (pools ! node)"] mset_append [of "take ?k (pools ! node)" "drop ?k (pools ! node)"]
    by (simp add: add.assoc [symmetric] del: mset_append)
  then show "objects_in pools' + mset pool' = objects_in pools + mset pool" "length pools' = length pools"
    "n = 0 \<Longrightarrow> pool' = pool \<and> pools' = pools"
    using assms(2) by (auto simp: fillCPUPool_def Let_def add.assoc [symmetric] split: if_splits)
qed

lemma take_object:
  assumes "i < length pools" "local = ret # rest"
  shows "objects_in (pools[i := rest]) + {#ret#} + mset (pools ! i) = objects_in pools + mset local"
  using objects_in_update [OF assms(1), of rest] assms(2) by simp

lemma swap_bytes: "X' + L \<subseteq># X + L0 + T \<Longrightarrow> A' + L0 = A + L \<Longrightarrow> X' + A' \<subseteq># X + A + T" for X :: "'a multiset"
proof (unfold subseteq_mset_def count_union, rule allI)
  fix x assume 1: "\<forall>x. count X' x + count L x \<le> count X x + count L0 x + count T x" and 2: "A' + L0 = A + L"
  have "count X' x + count L x \<le> count X x + count L0 x + count T x" using 1 by blast
  moreover have "count A' x + count L0 x = count A x + count L x" using 2 by (metis count_union)
  ultimately show "count X' x + count A' x \<le> count X x + count A x + count T x" by linarith
qed

definition cache_ok :: "nat \<Rightarrow> CPUObjectCache \<Rightarrow> bool" where
  "cache_ok pools c \<longleftrightarrow> oc_NUMANodeId c < pools \<and> length (oc_available c) = pools"

lemma newObject_takes:
  assumes "CPUObjectCache_newObject alloc n c pools m = Inr (ret, c', pools', m')"
  obtains local as where "(if oc_available c ! oc_NUMANodeId c = [] then refill_local alloc n c pools m
      else Inr (oc_available c ! oc_NUMANodeId c, oc_allocationSize c, pools, m)) = Inr (local, as, pools', m')"
    "local = ret # tl local" "c' = c\<lparr>oc_allocationSize := as, oc_available := (oc_available c)[oc_NUMANodeId c := tl local]\<rparr>"
proof -
  obtain local as pools1 m1 where 1: "(if oc_available c ! oc_NUMANodeId c = [] then refill_local alloc n c pools m
      else Inr (oc_available c ! oc_NUMANodeId c, oc_allocationSize c, pools, m)) = Inr (local, as, pools1, m1)"
    using assms unfolding CPUObjectCache_newObject_def result_bind_eq_Inr by fastforce
  obtain ret' rest where 2: "local = ret' # rest"
    using assms unfolding CPUObjectCache_newObject_def 1 by (cases local) simp_all
  show thesis using that [of local as] assms unfolding CPUObjectCache_newObject_def 1 by (simp add: 2)
qed

section \<open>The interface to the memory allocator\<close>

locale memory_source =
  fixes alloc :: "'p \<Rightarrow> nat \<Rightarrow> 'm \<Rightarrow> (nat \<times> 'm) result"
    and live :: "'m \<Rightarrow> (nat \<times> nat) list"
    and admissible :: "'p \<Rightarrow> nat \<Rightarrow> 'm \<Rightarrow> bool"
    and inv :: "'m \<Rightarrow> bool"
  assumes alloc_live: "inv m \<Longrightarrow> admissible p n m \<Longrightarrow> alloc p n m = Inr (a, m') \<Longrightarrow>
      inv m' \<and> (\<exists>n' \<ge> n. live m' = (a, n') # live m)"
    and admissible_size: "admissible p n m \<Longrightarrow> n < 2 ^ 64"
    and live_once: "inv m \<Longrightarrow> once (live_bytes (live m))"
begin

lemma refill_local_law:
  assumes node: "oc_NUMANodeId c < length pools" and m: "inv m" "admissible p (2 * oc_allocationSize c * n) m" and n: "0 < n"
    and refill: "refill_local (alloc p) n c pools m = Inr (local, as, pools', m')"
  shows "inv m' \<and> length pools' = length pools \<and> (\<exists>taken. live m' = taken @ live m \<and>
    object_bytes n (objects_in pools' + mset local)
      \<subseteq># object_bytes n (objects_in pools + mset (oc_available c ! oc_NUMANodeId c)) + live_bytes taken)"
proof -
  let ?k = "2 * oc_allocationSize c" and ?pool = "oc_available c ! oc_NUMANodeId c"
  have size: "?k * n < 2 ^ 64" by (rule admissible_size [OF m(2)])
  moreover have "?k \<le> ?k * n" using n by simp
  ultimately have "?k < 2 ^ 64" by (rule le_less_trans [rotated])
  then have as: "wrap (oc_allocationSize c * 2) = ?k" "wrap (?k * n) = ?k * n"
    using size by (simp_all only: wrap_small mult.commute [of _ 2])
  obtain k local1 pools1 where fill: "fillCPUPool (oc_NUMANodeId c) ?pool ?k pools = (k, local1, pools1)" by (metis prod_cases3)
  note laws = fillCPUPool_objects [OF node fill]
  show ?thesis
  proof (cases "k = 0")
    case False
    then have "local = local1" "pools' = pools1" "m' = m" using refill by (simp_all add: refill_local_def as fill)
    then show ?thesis using laws m(1) by (auto intro!: exI [of _ "[]"] simp flip: object_bytes_simps(2))
  next
    case True
    then obtain ptr where al: "alloc p (?k * n) m = Inr (ptr, m')" "pools' = pools" "local = ?pool @ map (\<lambda>i. ptr + i * n) [0..<?k]"
      using refill laws(3) by (auto simp: refill_local_def as fill Let_def)
    obtain n' where n': "?k * n \<le> n'" "live m' = (ptr, n') # live m" "inv m'" using alloc_live [OF m al(1)] by blast
    have "object_bytes n (mset local) = object_bytes n (mset ?pool) + block ptr (?k * n)"
      unfolding al(3) mset_append object_bytes_simps(2) object_bytes_array ..
    then show ?thesis
      using al(2) n' block_mono [OF n'(1), of ptr] by (auto intro!: exI [of _ "[(ptr, n')]"] simp: add.assoc)
  qed
qed

lemma newObject_law:
  assumes c: "cache_ok (length pools) c" and m: "inv m" "admissible p (2 * oc_allocationSize c * n) m" and n: "0 < n"
    and new: "CPUObjectCache_newObject (alloc p) n c pools m = Inr (ret, c', pools', m')"
  shows "inv m' \<and> cache_ok (length pools) c' \<and> length pools' = length pools \<and>
    (\<exists>taken. live m' = taken @ live m \<and>
      object_bytes n (objects_in pools') + object_bytes n (objects_in (oc_available c') + {#ret#})
        \<subseteq># object_bytes n (objects_in pools) + object_bytes n (objects_in (oc_available c)) + live_bytes taken)"
proof -
  let ?node = "oc_NUMANodeId c" and ?pool = "oc_available c ! oc_NUMANodeId c"
  have node: "?node < length pools" "?node < length (oc_available c)" using c by (simp_all add: cache_ok_def)
  obtain local as where r: "(if ?pool = [] then refill_local (alloc p) n c pools m
      else Inr (?pool, oc_allocationSize c, pools, m)) = Inr (local, as, pools', m')"
    and take: "local = ret # tl local" "c' = c\<lparr>oc_allocationSize := as, oc_available := (oc_available c)[?node := tl local]\<rparr>"
    using newObject_takes [OF new] .
  have "inv m' \<and> length pools' = length pools \<and> (\<exists>taken. live m' = taken @ live m \<and>
    object_bytes n (objects_in pools' + mset local) \<subseteq># object_bytes n (objects_in pools + mset ?pool) + live_bytes taken)"
  proof (cases "?pool = []")
    case True
    then show ?thesis using refill_local_law [OF node(1) m n] r by simp
  next
    case False
    then show ?thesis using r m(1) by (auto intro!: exI [of _ "[]"])
  qed
  then obtain taken where taken: "inv m'" "length pools' = length pools" "live m' = taken @ live m"
    "object_bytes n (objects_in pools') + object_bytes n (mset local)
      \<subseteq># object_bytes n (objects_in pools) + object_bytes n (mset ?pool) + live_bytes taken" by auto
  have "objects_in (oc_available c') + {#ret#} + mset ?pool = objects_in (oc_available c) + mset local"
    using take_object [OF node(2) take(1)] by (simp add: take(2))
  then have "object_bytes n (objects_in (oc_available c') + {#ret#}) + object_bytes n (mset ?pool)
    = object_bytes n (objects_in (oc_available c)) + object_bytes n (mset local)" by (metis object_bytes_simps(2))
  from swap_bytes [OF taken(4) this] show ?thesis using taken(1-3) c by (auto simp: cache_ok_def take(2))
qed

end

text \<open>The allocator with its record of the blocks in use is such a source.\<close>

definition alloc_block :: "kernel \<Rightarrow> caller \<Rightarrow> nat \<Rightarrow> mem_state \<Rightarrow> (nat \<times> mem_state) result" where
  "alloc_block mmap caller sz s =
     result_bind (MemoryAllocator_alloc mmap caller sz (ms_al s)) (\<lambda>(c, al).
       Inr (c, \<lparr>ms_al = al, ms_live = (c, round_to_line (al_cacheLineSize (ms_al s)) sz) # ms_live s\<rparr>))"

lemma alloc_block_step:
  "request_ok caller sz (ms_al s) \<Longrightarrow> alloc_block mmap caller sz s = Inr (c, s') \<Longrightarrow> mem_step mmap s s'"
  by (auto simp: alloc_block_def intro: mem_alloc)

definition source_inv :: "kernel \<Rightarrow> nat \<Rightarrow> mem_state \<Rightarrow> bool" where
  "source_inv mmap k s \<longleftrightarrow> mmap_law mmap \<and> mem_inv s \<and> length (al_globalMemoryPool (ms_al s)) = k"

lemma mem_step_nodes:
  assumes "mmap_law mmap" "mem_step mmap s s'" "mem_inv s"
  shows "length (al_globalMemoryPool (ms_al s')) = length (al_globalMemoryPool (ms_al s))"
proof -
  obtain F where F: "al_inv F (ms_al s) (live_bytes (ms_live s))" and nz: "\<forall>(c, n) \<in> set (ms_live s). c \<noteq> 0 \<and> 0 < n"
    using assms(3) by (auto simp: mem_inv_def)
  show ?thesis using assms(2)
  proof cases
    case (mem_alloc caller sz c al)
    then show ?thesis using alloc_law [OF assms(1) F mem_alloc(2,3)] by auto
  next
    case (mem_free caller sz c n al)
    have "al_inv F (ms_al s) (live_bytes (remove1 (c, n) (ms_live s)) + block c n)" using F live_bytes_remove [OF mem_free(3)] by simp
    from free_law [OF this mem_free(2) _ mem_free(4)] show ?thesis using mem_free nz by auto
  qed simp
qed

interpretation allocator: memory_source "alloc_block mmap" ms_live "\<lambda>caller sz s. request_ok caller sz (ms_al s)"
  "source_inv mmap k" for mmap k
proof
  fix m p n a m'
  assume inv: "source_inv mmap k m" and req: "request_ok p n (ms_al m)" and al: "alloc_block mmap p n m = Inr (a, m')"
  then have step: "mem_step mmap m m'" using alloc_block_step by blast
  then have "source_inv mmap k m'"
    using inv mem_step_inv [OF _ step] mem_step_nodes [OF _ step] by (auto simp: source_inv_def)
  moreover obtain F where "al_inv F (ms_al m) (live_bytes (ms_live m))" using inv by (auto simp: mem_inv_def source_inv_def)
  from alloc_law [OF _ this req] inv al have "n \<le> round_to_line (al_cacheLineSize (ms_al m)) n"
    by (auto simp: alloc_block_def source_inv_def)
  ultimately show "source_inv mmap k m' \<and> (\<exists>n' \<ge> n. ms_live m' = (a, n') # ms_live m)"
    using al by (auto simp: alloc_block_def)
next
  fix p n m assume "request_ok p n (ms_al m)"
  then show "n < 2 ^ 64" by (simp add: request_ok_def max_address_def)
next
  fix m assume "source_inv mmap k m"
  then obtain F where "al_inv F (ms_al m) (live_bytes (ms_live m))" by (auto simp: mem_inv_def source_inv_def)
  then show "once (live_bytes (ms_live m))" using once_sub [OF al_inv_once] by (metis mset_subset_eq_add_right)
qed

section \<open>Histories of object caches\<close>

text \<open>
  The state of a cache with the memory below it, the objects that the program uses, and the blocks that the
  cache has taken from the allocator. Other users of the allocator may do anything but release those blocks.
\<close>

record object_state =
  os_cache :: ObjectCache
  os_mem :: mem_state
  os_objects :: "nat list"
  os_taken :: "(nat \<times> nat) list"

definition known_caller :: "caller \<Rightarrow> ObjectCache \<Rightarrow> bool" where
  "known_caller caller oc \<longleftrightarrow> (case caller of Some (cpuId, _) \<Rightarrow> cpuId < length (obc_CPUCaches oc) | None \<Rightarrow> True)"

inductive object_step :: "kernel \<Rightarrow> nat \<Rightarrow> object_state \<Rightarrow> object_state \<Rightarrow> bool" for mmap sizeofT where
  obj_new: "known_caller caller (os_cache s) \<Longrightarrow>
    request_ok caller (2 * oc_allocationSize (cache_of caller (os_cache s)) * sizeofT) (ms_al (os_mem s)) \<Longrightarrow>
    ObjectCache_newObject (alloc_block mmap) sizeofT caller (os_cache s) (os_mem s) = Inr (ret, oc, m) \<Longrightarrow>
    object_step mmap sizeofT s \<lparr>os_cache = oc, os_mem = m, os_objects = ret # os_objects s,
      os_taken = take (length (ms_live m) - length (ms_live (os_mem s))) (ms_live m) @ os_taken s\<rparr>"
| obj_delete: "known_caller caller (os_cache s) \<Longrightarrow> ptr \<in> set (os_objects s) \<Longrightarrow>
    object_step mmap sizeofT s (s\<lparr>os_cache := ObjectCache_deleteObject (findNUMA ptr (al_vmm (ms_al (os_mem s)))) caller ptr (os_cache s),
      os_objects := remove1 ptr (os_objects s)\<rparr>)"
| obj_other: "mem_step mmap (os_mem s) m \<Longrightarrow> mset (os_taken s) \<subseteq># mset (ms_live m) \<Longrightarrow>
    object_step mmap sizeofT s (s\<lparr>os_mem := m\<rparr>)"

inductive object_reach :: "kernel \<Rightarrow> nat \<Rightarrow> object_state \<Rightarrow> bool" for mmap sizeofT where
  obj_start: "mem_reach mmap m \<Longrightarrow> numaNodeCount = length (al_globalMemoryPool (ms_al m)) \<Longrightarrow>
    set nodes \<subseteq> {..<numaNodeCount} \<Longrightarrow>
    object_reach mmap sizeofT \<lparr>os_cache = ObjectCache_new nodes numaNodeCount, os_mem = m, os_objects = [], os_taken = []\<rparr>"
| obj_next: "object_reach mmap sizeofT s \<Longrightarrow> object_step mmap sizeofT s s' \<Longrightarrow> object_reach mmap sizeofT s'"

definition cached_objects :: "ObjectCache \<Rightarrow> nat multiset" where
  "cached_objects oc = objects_in (obc_NUMACache oc) + sum_list (map (\<lambda>c. objects_in (oc_available c)) (obc_CPUCaches oc)) +
     objects_in (oc_available (obc_externalObjectCache oc))"

definition object_inv :: "nat \<Rightarrow> object_state \<Rightarrow> bool" where
  "object_inv n s \<longleftrightarrow> mem_inv (os_mem s) \<and>
     length (obc_NUMACache (os_cache s)) = length (al_globalMemoryPool (ms_al (os_mem s))) + 1 \<and>
     (\<forall>c \<in> insert (obc_externalObjectCache (os_cache s)) (set (obc_CPUCaches (os_cache s))). cache_ok (length (obc_NUMACache (os_cache s))) c) \<and>
     object_bytes n (cached_objects (os_cache s) + mset (os_objects s)) \<subseteq># live_bytes (os_taken s) \<and>
     mset (os_taken s) \<subseteq># mset (ms_live (os_mem s))"

lemma live_bytes_append [simp]: "live_bytes (xs @ ys) = live_bytes xs + live_bytes ys"
  by (simp add: live_bytes_def)

lemma live_bytes_mono: "mset xs \<subseteq># mset ys \<Longrightarrow> live_bytes xs \<subseteq># live_bytes ys"
proof (induction xs arbitrary: ys)
  case (Cons x xs)
  obtain c n where x: "x = (c, n)" by fastforce
  have "x \<in> set ys" using mset_subset_eqD [OF Cons.prems, of x] by simp
  then have "mset xs \<subseteq># mset (remove1 x ys)" using Cons.prems by (simp add: insert_subset_eq_iff)
  then show ?case using Cons.IH live_bytes_remove [of c n ys] \<open>x \<in> set ys\<close> x by simp
qed simp

text \<open>Exchanging the cache of a caller.\<close>

lemma cached_set_cache:
  assumes "known_caller caller oc"
  shows "cached_objects (set_cache caller c pools oc) + objects_in (obc_NUMACache oc) + objects_in (oc_available (cache_of caller oc))
    = cached_objects oc + objects_in pools + objects_in (oc_available c)"
proof (cases caller)
  case None
  then show ?thesis by (simp add: cached_objects_def set_cache_def cache_of_def add.commute add.left_commute)
next
  case (Some x)
  then obtain i k where "caller = Some (i, k)" "i < length (obc_CPUCaches oc)" using assms by (cases x) (auto simp: known_caller_def)
  then show ?thesis
    using sum_list_update_plus [of i "obc_CPUCaches oc" "\<lambda>c. objects_in (oc_available c)" c]
    by (simp add: cached_objects_def set_cache_def cache_of_def add.assoc add.commute add.left_commute)
qed

lemma caches_set_cache:
  assumes "known_caller caller oc" "\<forall>c \<in> insert (obc_externalObjectCache oc) (set (obc_CPUCaches oc)). cache_ok k c" "cache_ok k c"
  shows "\<forall>c \<in> insert (obc_externalObjectCache (set_cache caller c pools oc)) (set (obc_CPUCaches (set_cache caller c pools oc))). cache_ok k c"
    "cache_ok k (cache_of caller oc)" "obc_NUMACache (set_cache caller c pools oc) = pools"
  using assms by (auto simp: set_cache_def cache_of_def known_caller_def split: option.splits dest!: set_update_subset_insert [THEN subsetD])

lemma deleteObject_law:
  assumes c: "cache_ok (length pools) c" "nodeId < length pools"
    and del: "CPUObjectCache_deleteObject nodeId ptr c pools = (c', pools')"
  shows "objects_in pools' + objects_in (oc_available c') = objects_in pools + objects_in (oc_available c) + {#ptr#} \<and>
    cache_ok (length pools) c' \<and> length pools' = length pools"
proof -
  let ?pool = "oc_available c ! nodeId"
  have len: "nodeId < length (oc_available c)" using c by (simp add: cache_ok_def)
  have "objects_in ((oc_available c)[nodeId := ptr # ?pool]) = objects_in (oc_available c) + {#ptr#}"
    using objects_in_update [OF len, of "ptr # ?pool"] by simp
  moreover have "objects_in ((oc_available c)[nodeId := []]) + objects_in (pools[nodeId := pools ! nodeId @ ptr # ?pool])
    = objects_in pools + objects_in (oc_available c) + {#ptr#}"
    using objects_in_update [OF len, of "[]"] objects_in_update [OF c(2), of "pools ! nodeId @ ptr # ?pool"]
    by (simp add: add.assoc [symmetric])
  ultimately show ?thesis
    using del c(1) by (auto simp: CPUObjectCache_deleteObject_def returnObjects_def Let_def cache_ok_def add.commute split: if_splits)
qed

lemma findNUMA_bound: "findNUMA ptr vm \<le> length (vm_localNUMAVMA vm)"
  by (auto simp: findNUMA_def split: option.splits dest!: find_index_from_Some)

lemma object_new_inv:
  assumes mmap: "mmap_law mmap" and n: "0 < n" and inv: "object_inv n s" and caller: "known_caller caller (os_cache s)"
    and req: "request_ok caller (2 * oc_allocationSize (cache_of caller (os_cache s)) * n) (ms_al (os_mem s))"
    and new: "ObjectCache_newObject (alloc_block mmap) n caller (os_cache s) (os_mem s) = Inr (ret, oc, m)"
  shows "object_inv n \<lparr>os_cache = oc, os_mem = m, os_objects = ret # os_objects s,
      os_taken = take (length (ms_live m) - length (ms_live (os_mem s))) (ms_live m) @ os_taken s\<rparr>"
proof -
  let ?oc = "os_cache s" and ?P = "obc_NUMACache (os_cache s)"
  note i = inv [unfolded object_inv_def]
  have c: "cache_ok (length ?P) (cache_of caller ?oc)" using caches_set_cache(2) [OF caller] i by blast
  obtain c' P' where cpu: "CPUObjectCache_newObject (alloc_block mmap caller) n (cache_of caller ?oc) ?P (os_mem s) = Inr (ret, c', P', m)"
    and oc: "oc = set_cache caller c' P' ?oc" using new by (auto simp: ObjectCache_newObject_def)
  have src: "source_inv mmap (length (al_globalMemoryPool (ms_al (os_mem s)))) (os_mem s)" using mmap i by (simp add: source_inv_def)
  from allocator.newObject_law [OF c src req n cpu] obtain taken where t: "mem_inv m" "cache_ok (length ?P) c'" "length P' = length ?P"
    "ms_live m = taken @ ms_live (os_mem s)"
    "object_bytes n (objects_in P') + object_bytes n (objects_in (oc_available c') + {#ret#})
      \<subseteq># object_bytes n (objects_in ?P) + object_bytes n (objects_in (oc_available (cache_of caller ?oc))) + live_bytes taken"
    and pools: "length (al_globalMemoryPool (ms_al m)) = length (al_globalMemoryPool (ms_al (os_mem s)))"
    by (auto simp: source_inv_def)
  have "object_bytes n (cached_objects oc) + object_bytes n (objects_in ?P + objects_in (oc_available (cache_of caller ?oc)))
    = object_bytes n (cached_objects ?oc) + object_bytes n (objects_in P' + objects_in (oc_available c'))"
    using cached_set_cache [OF caller, of c' P'] oc by (metis add.assoc object_bytes_simps(2))
  from swap_bytes [OF _ this, of "block ret n" "{#}" "live_bytes taken"] t(5)
  have "block ret n + object_bytes n (cached_objects oc) \<subseteq># object_bytes n (cached_objects ?oc) + live_bytes taken"
    by (simp add: add.commute add.left_commute)
  moreover have "object_bytes n (cached_objects ?oc) + object_bytes n (mset (os_objects s)) \<subseteq># live_bytes (os_taken s)" using i by simp
  ultimately have "block ret n + object_bytes n (cached_objects oc) + (object_bytes n (cached_objects ?oc) + object_bytes n (mset (os_objects s)))
      \<subseteq># object_bytes n (cached_objects ?oc) + live_bytes taken + live_bytes (os_taken s)"
    by (rule subset_mset.add_mono)
  then have "block ret n + (object_bytes n (cached_objects oc) + object_bytes n (mset (os_objects s))) \<subseteq># live_bytes taken + live_bytes (os_taken s)"
    by (simp add: add.commute add.left_commute)
  moreover have "\<forall>c \<in> insert (obc_externalObjectCache oc) (set (obc_CPUCaches oc)). cache_ok (length ?P) c" "obc_NUMACache oc = P'"
    using caches_set_cache(1,3) [OF caller _ t(2)] i unfolding oc by blast+
  moreover have "mset (os_taken s) \<subseteq># mset (ms_live (os_mem s))" "length ?P = length (al_globalMemoryPool (ms_al (os_mem s))) + 1"
    using i by blast+
  ultimately show ?thesis using t(1,3,4) pools by (simp add: object_inv_def)
qed

lemma object_delete_inv:
  assumes inv: "object_inv n s" and caller: "known_caller caller (os_cache s)" and ptr: "ptr \<in> set (os_objects s)"
    and node: "nodeId < length (obc_NUMACache (os_cache s))"
  shows "object_inv n (s\<lparr>os_cache := ObjectCache_deleteObject nodeId caller ptr (os_cache s), os_objects := remove1 ptr (os_objects s)\<rparr>)"
proof -
  let ?oc = "os_cache s" and ?P = "obc_NUMACache (os_cache s)"
  note i = inv [unfolded object_inv_def]
  have c: "cache_ok (length ?P) (cache_of caller ?oc)" using caches_set_cache(2) [OF caller] i by blast
  obtain c' P' where del: "CPUObjectCache_deleteObject nodeId ptr (cache_of caller ?oc) ?P = (c', P')" by fastforce
  define oc where "oc = set_cache caller c' P' ?oc"
  note law = deleteObject_law [OF c node del]
  have "cached_objects oc + (objects_in ?P + objects_in (oc_available (cache_of caller ?oc)))
    = cached_objects ?oc + {#ptr#} + (objects_in ?P + objects_in (oc_available (cache_of caller ?oc)))"
    using cached_set_cache [OF caller, of c' P'] law by (simp add: oc_def add.assoc add.commute add.left_commute)
  then have "cached_objects oc = cached_objects ?oc + {#ptr#}" by (rule add_right_imp_eq)
  moreover have "mset (os_objects s) = {#ptr#} + mset (remove1 ptr (os_objects s))" using ptr by simp
  ultimately have "cached_objects oc + mset (remove1 ptr (os_objects s)) = cached_objects ?oc + mset (os_objects s)"
    by (metis add.assoc)
  then have "object_bytes n (cached_objects oc + mset (remove1 ptr (os_objects s))) \<subseteq># live_bytes (os_taken s)" using i by (simp only:)
  moreover have "cache_ok (length ?P) c'" "length P' = length ?P" using law by blast+
  moreover have "\<forall>c \<in> insert (obc_externalObjectCache oc) (set (obc_CPUCaches oc)). cache_ok (length ?P) c" "obc_NUMACache oc = P'"
    using caches_set_cache(1,3) [OF caller _ calculation(2)] i unfolding oc_def by blast+
  moreover have "ObjectCache_deleteObject nodeId caller ptr ?oc = oc" by (simp add: ObjectCache_deleteObject_def del oc_def)
  ultimately show ?thesis using i by (simp add: object_inv_def)
qed

lemma object_step_inv:
  assumes "mmap_law mmap" "0 < n" "object_step mmap n s s'" "object_inv n s"
  shows "object_inv n s'"
  using assms(3)
proof cases
  case (obj_new caller ret oc m)
  then show ?thesis using object_new_inv [OF assms(1,2,4)] by simp
next
  case (obj_delete caller ptr)
  obtain F where "al_inv F (ms_al (os_mem s)) (live_bytes (ms_live (os_mem s)))" using assms(4) by (auto simp: object_inv_def mem_inv_def)
  then have "findNUMA ptr (al_vmm (ms_al (os_mem s))) < length (obc_NUMACache (os_cache s))"
    using findNUMA_bound [of ptr "al_vmm (ms_al (os_mem s))"] assms(4) by (auto simp: object_inv_def al_inv_def al_struct_def)
  then show ?thesis using object_delete_inv [OF assms(4)] obj_delete by simp
next
  case (obj_other m)
  then have "mem_inv m" "length (al_globalMemoryPool (ms_al m)) = length (al_globalMemoryPool (ms_al (os_mem s)))"
    using mem_step_inv [OF assms(1)] mem_step_nodes [OF assms(1)] assms(4) by (auto simp: object_inv_def)
  then show ?thesis using obj_other assms(4) by (auto simp: object_inv_def)
qed

lemma objects_in_replicate [simp]: "objects_in (replicate k []) = {#}" "objects_in ([] # pools) = objects_in pools"
  by (induction k) (simp_all add: objects_in_def)

lemma object_reach_inv: "object_reach mmap n s \<Longrightarrow> mmap_law mmap \<Longrightarrow> 0 < n \<Longrightarrow> object_inv n s"
proof (induction rule: object_reach.induct)
  case (obj_start m numaNodeCount nodes)
  have "cached_objects (ObjectCache_new nodes numaNodeCount) = {#}"
    by (induction nodes) (simp_all add: cached_objects_def ObjectCache_new_def CPUObjectCache_new_def)
  then show ?case
    using obj_start mem_reach_inv by (auto simp: object_inv_def ObjectCache_new_def CPUObjectCache_new_def cache_ok_def)
qed (rule object_step_inv)

section \<open>The properties\<close>

lemma object_pair:
  assumes "i < j" "j < length objs"
  shows "block (objs ! i) n + block (objs ! j) n \<subseteq># object_bytes n (mset objs)"
proof -
  have "mset objs = mset (take j objs) + mset (drop j objs)" by (metis append_take_drop_id mset_append)
  moreover have "{#objs ! i#} \<subseteq># mset (take j objs)" "{#objs ! j#} \<subseteq># mset (drop j objs)"
    using assms by (auto simp: in_set_conv_nth intro: exI [of _ i] exI [of _ 0])
  then obtain A B where "mset (take j objs) = {#objs ! i#} + A" "mset (drop j objs) = {#objs ! j#} + B"
    by (metis subset_mset.add_diff_inverse)
  ultimately show ?thesis by (simp add: add.commute add.left_commute)
qed

text \<open>
  C37. Objects that the program uses do not overlap each other nor an object that waits in a cache, whatever CPUs
  and other threads create, delete and recycle them, and every byte of an object lies in a block that the
  cache has taken from the memory allocator.
\<close>

theorem cached_objects_disjoint:
  assumes "mmap_law mmap" "0 < n" "object_reach mmap n s"
  shows "(i < j \<and> j < length (os_objects s) \<longrightarrow> os_objects s ! i + n \<le> os_objects s ! j \<or> os_objects s ! j + n \<le> os_objects s ! i) \<and>
    (a \<in> set (os_objects s) \<and> b \<in># cached_objects (os_cache s) \<longrightarrow> a + n \<le> b \<or> b + n \<le> a) \<and>
    (a \<in> set (os_objects s) \<and> a \<le> x \<and> x < a + n \<longrightarrow> (\<exists>(c, l) \<in> set (ms_live (os_mem s)). c \<le> x \<and> x < c + l))"
proof -
  have inv: "object_inv n s" by (rule object_reach_inv [OF assms(3,1,2)])
  let ?O = "object_bytes n (cached_objects (os_cache s)) + object_bytes n (mset (os_objects s))"
  have sub: "?O \<subseteq># live_bytes (ms_live (os_mem s))"
    using inv live_bytes_mono subset_mset.order_trans by (fastforce simp: object_inv_def)
  have "source_inv mmap (length (al_globalMemoryPool (ms_al (os_mem s)))) (os_mem s)"
    using inv assms(1) by (simp add: source_inv_def object_inv_def)
  then have once: "once ?O" using allocator.live_once once_sub [OF _ sub] by blast
  have one: "block a n \<subseteq># object_bytes n A" if "a \<in># A" for a A
    using multi_member_split [OF that] by auto
  have "os_objects s ! i + n \<le> os_objects s ! j \<or> os_objects s ! j + n \<le> os_objects s ! i" if "i < j" "j < length (os_objects s)"
    using once_blocks [OF once_sub [OF once], of "os_objects s ! i" n "os_objects s ! j" n] object_pair [OF that, of n] assms(2)
    by (simp add: subset_mset.add_increasing)
  moreover have "a + n \<le> b \<or> b + n \<le> a" if "a \<in> set (os_objects s)" "b \<in># cached_objects (os_cache s)"
    using once_blocks [OF once_sub [OF once], of b n a n] subset_mset.add_mono [OF one [OF that(2)] one [of a "mset (os_objects s)"]]
      that(1) assms(2) by auto
  moreover have "x \<in># live_bytes (ms_live (os_mem s))" if "a \<in> set (os_objects s)" "a \<le> x" "x < a + n"
    using that one [of a "mset (os_objects s)"] by (intro mset_subset_eqD [OF sub]) (auto dest: mset_subset_eqD [of _ _ x])
  ultimately show ?thesis by (fastforce simp: live_bytes_def)
qed

lemma example_object:
  "\<exists>s. object_reach bump_mmap 24 s \<and> os_objects s = [4120, 4096] \<and> cached_objects (os_cache s) = {#} \<and> ms_live (os_mem s) = [(4096, 64)]"
proof -
  let ?m = "\<lparr>ms_al = example_al, ms_live = []\<rparr>"
  have "sizes_ok 64 4096 (Some 8192) [0] 4096" by (auto simp: sizes_ok_def max_address_def intro!: exI [of _ 6])
  then have "mem_reach bump_mmap ?m" using example_init by (rule mem_start)
  then have r0: "object_reach bump_mmap 24 \<lparr>os_cache = ObjectCache_new [0] 1, os_mem = ?m, os_objects = [], os_taken = []\<rparr>" (is "object_reach _ _ ?s0")
    by (rule obj_start) (simp_all add: example_al_def)
  have round: "round_to_line 64 48 = 64" using round_to_line_eq [of 48 6] by simp
  let ?c = "\<lambda>xs. \<lparr>obc_NUMACache = [[], []], obc_CPUCaches = [\<lparr>oc_NUMANodeId = 0, oc_allocationSize = 2, oc_available = [xs, []]\<rparr>],
    obc_externalObjectCache = \<lparr>oc_NUMANodeId = 0, oc_allocationSize = 1, oc_available = [[], []]\<rparr>\<rparr>"
  obtain al where al: "MemoryAllocator_alloc bump_mmap (Some (0, 0)) 48 example_al = Inr (4096, al)"
    "al_cacheLineSize al = 64" "length (al_globalMemoryPool al) = 1"
    by (simp add: memory_eval example_al_def round prod.case_eq_if del: upt_Suc)
  let ?m1 = "\<lparr>ms_al = al, ms_live = [(4096, 64)]\<rparr>"
  let ?s1 = "\<lparr>os_cache = ?c [4120], os_mem = ?m1, os_objects = [4096], os_taken = [(4096, 64)]\<rparr>"
  have n1: "ObjectCache_newObject (alloc_block bump_mmap) 24 (Some (0, 0)) (ObjectCache_new [0] 1) ?m = Inr (4096, ?c [4120], ?m1)"
    using al(1) by (simp add: ObjectCache_newObject_def CPUObjectCache_newObject_def cache_of_def set_cache_def ObjectCache_new_def
        CPUObjectCache_new_def refill_local_def fillCPUPool_def alloc_block_def wrap_def Let_def upt_conv_Cons round example_al_def)
  have "object_step bump_mmap 24 ?s0 ?s1"
    using obj_new [of "Some (0, 0)" ?s0 24 bump_mmap 4096 "?c [4120]" ?m1] n1
    by (simp add: known_caller_def cache_of_def ObjectCache_new_def CPUObjectCache_new_def request_ok_def caller_node_def example_al_def max_address_def)
  with r0 have r1: "object_reach bump_mmap 24 ?s1" by (rule obj_next)
  have n2: "ObjectCache_newObject (alloc_block bump_mmap) 24 (Some (0, 0)) (?c [4120]) ?m1 = Inr (4120, ?c [], ?m1)"
    by (simp add: ObjectCache_newObject_def CPUObjectCache_newObject_def cache_of_def set_cache_def)
  let ?s2 = "\<lparr>os_cache = ?c [], os_mem = ?m1, os_objects = [4120, 4096], os_taken = [(4096, 64)]\<rparr>"
  have "object_step bump_mmap 24 ?s1 ?s2"
    using obj_new [of "Some (0, 0)" ?s1 24 bump_mmap 4120 "?c []" ?m1] n2 al
    by (simp add: known_caller_def cache_of_def request_ok_def caller_node_def max_address_def)
  with r1 have "object_reach bump_mmap 24 ?s2" by (rule obj_next)
  then show ?thesis by (intro exI [of _ ?s2]) (simp add: cached_objects_def objects_in_def)
qed

theorem cached_objects_disjoint_witness:
  "\<exists>s. object_reach bump_mmap 24 s \<and> os_objects s = [4120, 4096] \<and> (4120 + 24 \<le> (4096 :: nat) \<or> 4096 + 24 \<le> (4120 :: nat)) \<and>
     (\<exists>c l. (c, l) \<in> set (ms_live (os_mem s)) \<and> c \<le> 4130 \<and> 4130 < c + l)"
proof -
  obtain s where s: "object_reach bump_mmap 24 s" "os_objects s = [4120, 4096]" using example_object by blast
  have "4120 + 24 \<le> (4096 :: nat) \<or> 4096 + 24 \<le> (4120 :: nat)"
    using cached_objects_disjoint [OF bump_law _ s(1), of 0 1] s(2) by simp
  moreover have "\<exists>(c, l) \<in> set (ms_live (os_mem s)). c \<le> 4130 \<and> 4130 < c + l"
    using cached_objects_disjoint [OF bump_law _ s(1), of 0 1 4120 0 4130] s(2) by simp
  ultimately show ?thesis using s by blast
qed

text \<open>
  Rounds of recycling: in each the pool of the node holds the objects \<open>numaPools\<close>, which another CPU has
  returned, and the CPU creates one object.
\<close>

fun recycle_rounds :: "(nat \<Rightarrow> 'm \<Rightarrow> (nat \<times> 'm) result) \<Rightarrow> nat \<Rightarrow> object_pools \<Rightarrow> 'm \<Rightarrow> nat \<Rightarrow> CPUObjectCache \<Rightarrow> CPUObjectCache result" where
  "recycle_rounds alloc n numaPools m 0 c = Inr c"
| "recycle_rounds alloc n numaPools m (Suc k) c =
     result_bind (recycle_rounds alloc n numaPools m k c) (\<lambda>c'.
     result_bind (CPUObjectCache_newObject alloc n c' numaPools m) (\<lambda>(_, c'', _, _). Inr c''))"

lemma recycle_round:
  assumes "node < length (oc_available c)" "oc_NUMANodeId c = node" "oc_available c ! node = []"
    and "numaPools ! node = [x]" "wrap (oc_allocationSize c * 2) \<noteq> 0"
  shows "CPUObjectCache_newObject alloc n c numaPools m =
    Inr (x, c\<lparr>oc_allocationSize := wrap (oc_allocationSize c * 2)\<rparr>, numaPools[node := []], m)"
proof -
  have "(oc_available c)[node := []] = oc_available c" using assms(3) list_update_id [of "oc_available c" node] by simp
  moreover have "min (wrap (oc_allocationSize c * 2)) (Suc 0) = Suc 0" using assms(5) by simp
  ultimately show ?thesis
    using assms by (simp add: CPUObjectCache_newObject_def refill_local_def fillCPUPool_def Let_def)
qed

lemma recycle_rounds_size:
  assumes "node < length (oc_available c)" "oc_NUMANodeId c = node" "oc_available c ! node = []" "numaPools ! node = [x]"
    and "oc_allocationSize c = 1" "k < 64"
  shows "recycle_rounds alloc n numaPools m k c = Inr (c\<lparr>oc_allocationSize := 2 ^ k\<rparr>)"
  using assms(6)
proof (induction k)
  case 0
  then show ?case using assms(5) by simp
next
  case (Suc k)
  have "(2 :: nat) ^ k * 2 < 2 ^ 64" using Suc.prems power_strict_increasing [of "Suc k" 64 "2 :: nat"] by simp
  then have "wrap (2 ^ k * 2) = 2 ^ Suc k" by (simp only: wrap_small mult.commute power_Suc)
  then show ?case
    using Suc recycle_round [of node "c\<lparr>oc_allocationSize := 2 ^ k\<rparr>" numaPools x alloc n m] assms(1-4) by simp
qed

text \<open>
  \<open>_allocationSize\<close> is doubled also when the objects come from the pool of the node, without any
  allocation. After 63 such rounds the product is zero: \<open>newObject\<close> ignores the object that waits in the pool, asks
  the memory allocator for zero bytes, and cannot return an object.
\<close>

lemma recycling_wraps_allocationSize:
  assumes "node < numaNodeCount" "node < length numaPools" "numaPools ! node = [x]"
  shows "\<exists>c. recycle_rounds alloc n numaPools m 63 (CPUObjectCache_new node numaNodeCount) = Inr c \<and>
    CPUObjectCache_newObject alloc n c numaPools m =
      result_bind (alloc 0 m) (\<lambda>_. Inl (AssertFailed ''front() of an empty deque''))"
proof -
  let ?c = "CPUObjectCache_new node numaNodeCount"
  have c: "node < length (oc_available ?c)" "oc_NUMANodeId ?c = node" "oc_available ?c ! node = []" "oc_allocationSize ?c = 1"
    using assms(1) by (simp_all add: CPUObjectCache_new_def del: replicate.simps)
  have "recycle_rounds alloc n numaPools m 63 ?c = Inr (?c\<lparr>oc_allocationSize := 2 ^ 63\<rparr>)"
    by (rule recycle_rounds_size [OF c(1-3) assms(3) c(4)]) simp
  moreover have "wrap (2 ^ 63 * 2) = 0" by (simp add: wrap_def)
  then have "CPUObjectCache_newObject alloc n (?c\<lparr>oc_allocationSize := 2 ^ 63\<rparr>) numaPools m =
      result_bind (alloc 0 m) (\<lambda>_. Inl (AssertFailed ''front() of an empty deque''))"
    using c assms(3) by (cases "alloc 0 m")
      (auto simp: CPUObjectCache_newObject_def refill_local_def fillCPUPool_def Let_def prod.case_eq_if wrap_def)
  ultimately show ?thesis by blast
qed

lemma example_zero: "alloc_block bump_mmap None 0 \<lparr>ms_al = example_al, ms_live = []\<rparr> = Inl (FatalError ''division by zero'')"
  using round_to_line_eq [of 0 6] by (simp add: alloc_block_def memory_eval example_al_def fail_if_def)

end
