(* ===== verification/N6_TreeScheduler.thy ===== *)
theory N6_TreeScheduler
  imports N6_SchedulerInterface
begin

text \<open>
  The tree scheduler (\<open>src/scheduling/schedulers/TreeScheduler.cpp\<close> and \<open>tree-scheduler/\<close>): one
  \<open>LeafScheduler\<close> for each CPU, below \<open>NodeScheduler\<close>s for the NUMA nodes and a top node. A CPU takes tasks
  from its leaf; batches of tasks move up when a queue grows over a threshold and down when a child is idle.

  Any number of threads are inside these operations at once. A call that is in progress is a stack of
  frames, the innermost first: a frame is the rest of a member function up to its next access to shared
  data. A step of a thread takes its innermost frame, makes one access to an atomic variable or runs one
  section that holds a lock, and leaves the frames of the calls that follow. Nodes and leaves are numbered,
  the top node is node 0 and the leaf of a CPU has its virtual identifier.
\<close>

section \<open>Queues\<close>

datatype queue_kind = FIFOQueue | LIFOQueue

text \<open>\<open>TreeSchedulerQueueInterface::initialize\<close>, with the value of \<open>NANOS6_SCHEDULER_QUEUE\<close> if it is set.\<close>

definition queue_initialize :: "string option \<Rightarrow> queue_kind result" where
  "queue_initialize env =
     (let queueName = (case env of None \<Rightarrow> ''lifo'' | Some v \<Rightarrow> v) in
      if queueName = ''fifo'' then Inr FIFOQueue
      else if queueName = ''lifo'' then Inr LIFOQueue
      else Inl (FatalError ''Invalid scheduler queue name ''))"

text \<open>The deques are lists with the front at the head. A batch is a vector; the order of its elements
  is read from the end.\<close>

definition FIFOQueue_addTask :: "task_ref \<Rightarrow> task_ref list \<Rightarrow> nat \<times> task_ref list" where
  "FIFOQueue_addTask task q = (let q' = q @ [task] in (length q', q'))"

definition LIFOQueue_addTask :: "task_ref \<Rightarrow> task_ref list \<Rightarrow> nat \<times> task_ref list" where
  "LIFOQueue_addTask task q = (let q' = task # q in (length q', q'))"

definition FIFOQueue_addTaskBatch :: "task_ref list \<Rightarrow> task_ref list \<Rightarrow> nat \<times> task_ref list" where
  "FIFOQueue_addTaskBatch taskBatch q = (let q' = fold (\<lambda>t d. d @ [t]) (rev taskBatch) q in (length q', q'))"

definition LIFOQueue_addTaskBatch :: "task_ref list \<Rightarrow> task_ref list \<Rightarrow> nat \<times> task_ref list" where
  "LIFOQueue_addTaskBatch taskBatch q = (let q' = fold (\<lambda>t d. t # d) (rev taskBatch) q in (length q', q'))"

definition queue_getTask :: "task_ref list \<Rightarrow> task_ref option \<times> task_ref list" where
  "queue_getTask q = (case q of [] \<Rightarrow> (None, q) | task # rest \<Rightarrow> (Some task, rest))"

text \<open>The loop of \<open>getTaskBatch\<close>: \<open>taskBatch[i] = _queue.back(); _queue.pop_back();\<close>\<close>

fun take_back :: "nat \<Rightarrow> task_ref list \<Rightarrow> task_ref list \<times> task_ref list" where
  "take_back 0 q = ([], q)"
| "take_back (Suc n) q = (let (batch, rest) = take_back n (butlast q) in (last q # batch, rest))"

text \<open>
  \<open>getTaskBatch\<close> takes an \<open>int\<close> that is compared as a \<open>size_t\<close>: a negative number is greater than
  every size. Its callers pass a \<open>size_t\<close>, which loses its upper half (\<open>int_of_size\<close>). The size of a
  queue itself fits in an \<open>int\<close>: one of \<open>2\<^sup>3\<^sup>1\<close> pointers is out of reach.
\<close>

definition int_of_size :: "nat \<Rightarrow> int" where
  "int_of_size n = (let m = int (n mod 2 ^ 32) in if m < 2 ^ 31 then m else m - 2 ^ 32)"

definition queue_getTaskBatch :: "int \<Rightarrow> task_ref list \<Rightarrow> task_ref list \<times> task_ref list" where
  "queue_getTaskBatch elements q =
     (if elements < 0 \<or> elements > int (length q) then take_back (length q) q
      else take_back (nat elements) q)"

definition queue_addTask :: "queue_kind \<Rightarrow> task_ref \<Rightarrow> task_ref list \<Rightarrow> nat \<times> task_ref list" where
  "queue_addTask k task q =
     (case k of FIFOQueue \<Rightarrow> FIFOQueue_addTask task q | LIFOQueue \<Rightarrow> LIFOQueue_addTask task q)"

definition queue_addTaskBatch :: "queue_kind \<Rightarrow> task_ref list \<Rightarrow> task_ref list \<Rightarrow> nat \<times> task_ref list" where
  "queue_addTaskBatch k batch q =
     (case k of FIFOQueue \<Rightarrow> FIFOQueue_addTaskBatch batch q | LIFOQueue \<Rightarrow> LIFOQueue_addTaskBatch batch q)"

section \<open>Nodes and leaves\<close>

datatype sched_ref = NodeRef nat | LeafRef nat

record NodeScheduler =
  ns_queueThreshold :: nat
  ns_rebalance :: bool
  ns_idleChildren :: "sched_ref list"
  ns_queue :: "task_ref list"
  ns_parent :: "nat option"
  ns_children :: "sched_ref list"
  ns_enabledChildren :: nat

text \<open>
  \<open>ls_woken\<close> is a history variable that no operation reads: the CPU has been resumed since the leaf
  was last marked as idle.
\<close>

record LeafScheduler =
  ls_queueThreshold :: nat
  ls_rebalance :: bool
  ls_pollingSlot :: "task_ref option"
  ls_queue :: "task_ref list"
  ls_parent :: nat
  ls_computePlace :: cpu_ref
  ls_idle :: bool
  ls_running :: bool
  ls_woken :: bool

text \<open>\<open>tr_CPUScheduler\<close> is the vector \<open>_CPUScheduler\<close>: at a position without a CPU it holds null (False).\<close>

record tree =
  tr_kind :: queue_kind
  tr_pollingIterations :: nat
  tr_nodeCount :: nat
  tr_node :: "nat \<Rightarrow> NodeScheduler"
  tr_leaf :: "nat \<Rightarrow> LeafScheduler"
  tr_CPUScheduler :: "bool list"
  tr_schedRRCounter :: nat
  tr_world :: world

definition upd_node :: "nat \<Rightarrow> (NodeScheduler \<Rightarrow> NodeScheduler) \<Rightarrow> tree \<Rightarrow> tree" where
  "upd_node n f t = t\<lparr>tr_node := (tr_node t)(n := f (tr_node t n))\<rparr>"

definition upd_leaf :: "nat \<Rightarrow> (LeafScheduler \<Rightarrow> LeafScheduler) \<Rightarrow> tree \<Rightarrow> tree" where
  "upd_leaf l f t = t\<lparr>tr_leaf := (tr_leaf t)(l := f (tr_leaf t l))\<rparr>"

section \<open>Construction\<close>

definition NodeScheduler_new :: "nat option \<Rightarrow> NodeScheduler" where
  "NodeScheduler_new parent =
     \<lparr>ns_queueThreshold = 0, ns_rebalance = False, ns_idleChildren = [], ns_queue = [],
      ns_parent = parent, ns_children = [], ns_enabledChildren = 0\<rparr>"

definition LeafScheduler_new :: "cpu_ref \<Rightarrow> nat \<Rightarrow> LeafScheduler" where
  "LeafScheduler_new computePlace parent =
     \<lparr>ls_queueThreshold = 0, ls_rebalance = False, ls_pollingSlot = None, ls_queue = [],
      ls_parent = parent, ls_computePlace = computePlace, ls_idle = False, ls_running = False,
      ls_woken = False\<rparr>"

definition setChild :: "nat \<Rightarrow> sched_ref \<Rightarrow> tree \<Rightarrow> tree" where
  "setChild n child t =
     upd_node n (\<lambda>s. s\<lparr>ns_enabledChildren := ns_enabledChildren s + 1, ns_children := ns_children s @ [child]\<rparr>) t"

definition add_node :: "tree \<Rightarrow> tree" where
  "add_node t =
     (let i = tr_nodeCount t in
      setChild 0 (NodeRef i)
        (t\<lparr>tr_nodeCount := i + 1, tr_node := (tr_node t)(i := NodeScheduler_new (Some 0))\<rparr>))"

definition add_leaf :: "(nat \<Rightarrow> nat) \<Rightarrow> cpu_ref option \<Rightarrow> tree \<Rightarrow> tree" where
  "add_leaf parentOf cpu t =
     (case cpu of
        None \<Rightarrow> t
      | Some c \<Rightarrow>
          let v = cp_virtualCPUId (w_places (tr_world t) c);
              p = parentOf (cp_NUMANodeId (w_places (tr_world t) c))
          in setChild p (LeafRef v)
               (t\<lparr>tr_leaf := (tr_leaf t)(v := LeafScheduler_new c p),
                  tr_CPUScheduler := (tr_CPUScheduler t)[v := True]\<rparr>))"

text \<open>The constructor \<open>TreeScheduler()\<close> for the CPUs of the CPU manager.\<close>

definition TreeScheduler_new :: "queue_kind \<Rightarrow> nat \<Rightarrow> nat \<Rightarrow> world \<Rightarrow> tree" where
  "TreeScheduler_new kind iterations NUMANodeCount w =
     (let cpus = cm_cpus (w_cpum w);
          top = \<lparr>tr_kind = kind, tr_pollingIterations = iterations, tr_nodeCount = 1,
                 tr_node = (\<lambda>_. NodeScheduler_new None), tr_leaf = (\<lambda>_. LeafScheduler_new 0 0),
                 tr_CPUScheduler = replicate (length cpus) False, tr_schedRRCounter = 0, tr_world = w\<rparr>
      in if NUMANodeCount > 1
         then fold (add_leaf Suc) cpus ((add_node ^^ NUMANodeCount) top)
         else fold (add_leaf (\<lambda>_. 0)) cpus top)"

section \<open>Frames\<close>

text \<open>What is left of a member function of a node.\<close>

datatype node_op =
    N_addTaskBatch sched_ref "task_ref list" bool
  | N_setRebalance bool
  | N_setThreshold nat
  | N_handleQueueOverflow bool
  | N_overflow_take nat bool
  | N_decreaseQueueThreshold
  | N_increaseQueueThreshold
  | N_getTask sched_ref bool
  | N_getTask_take sched_ref bool nat
  | N_rebalance
  | N_rebalance_cas
  | N_rebalance_size
  | N_rebalance_compare nat
  | N_unidleChild sched_ref
  | N_updateQueueThreshold
  | N_update_compare nat
  | N_getQueueThreshold sched_ref
  | N_disableChild
  | N_disable_take
  | N_enableChild

text \<open>What is left of a member function of a leaf: of those that \<open>getTask\<close> consists of, and of the others.\<close>

datatype leaf_get =
    L_getTask bool
  | L_getTask_unidle bool
  | L_getTask_slot bool
  | L_getTask_queue bool
  | L_rebalance
  | L_rebalance_cas
  | L_rebalance_size
  | L_rebalance_compare nat
  | L_poll bool nat
  | L_timeout
  | L_final

datatype leaf_op =
    L_setRebalance bool
  | L_setThreshold nat
  | L_setRunning bool
  | L_handleQueueOverflow
  | L_take nat bool
  | L_addTask task_ref bool
  | L_addTask_slot task_ref
  | L_enqueue task_ref
  | L_enqueue_compare nat
  | L_addTaskBatch nat "task_ref list"
  | L_enqueueBatch "task_ref list"
  | L_resume
  | L_unidleCPU
  | L_disable
  | L_disable_take
  | L_disable_slot "task_ref list"
  | L_enable
  | L_updateQueueThreshold
  | L_update_rebalance nat
  | L_update_running nat
  | L_update_compare nat

datatype frame =
    InNode nat node_op
  | InGet nat leaf_get
  | InLeaf nat leaf_op
  | T_addReadyTask task_ref
  | Return "task_ref option"

text \<open>The virtual functions of \<open>TreeSchedulerInterface\<close>.\<close>

definition addTaskBatch :: "sched_ref \<Rightarrow> nat \<Rightarrow> task_ref list \<Rightarrow> bool \<Rightarrow> frame" where
  "addTaskBatch child who batch handleThreshold =
     (case child of
        NodeRef n \<Rightarrow> InNode n (N_addTaskBatch (NodeRef who) batch handleThreshold)
      | LeafRef l \<Rightarrow> InLeaf l (L_addTaskBatch who batch))"

definition updateQueueThreshold :: "sched_ref \<Rightarrow> frame" where
  "updateQueueThreshold child =
     (case child of
        NodeRef n \<Rightarrow> InNode n N_updateQueueThreshold
      | LeafRef l \<Rightarrow> InLeaf l L_updateQueueThreshold)"

text \<open>\<open>size_t elements = th / 2; if (elements == 0) elements = 1;\<close>\<close>

definition batch_elements :: "nat \<Rightarrow> nat" where
  "batch_elements th = (if th div 2 = 0 then 1 else th div 2)"

section \<open>Operations of a node\<close>

type_synonym stepped = "(tree \<times> frame list) result"

text \<open>The loop that takes the first idle child other than the caller.\<close>

fun pop_idle :: "sched_ref \<Rightarrow> sched_ref \<Rightarrow> sched_ref list \<Rightarrow> sched_ref \<times> sched_ref list" where
  "pop_idle who idleChild [] = (idleChild, [])"
| "pop_idle who idleChild (c # cs) =
     (if idleChild = who then pop_idle who c cs else (idleChild, c # cs))"

definition Node_addTaskBatch :: "nat \<Rightarrow> sched_ref \<Rightarrow> task_ref list \<Rightarrow> bool \<Rightarrow> tree \<Rightarrow> stepped" where
  "Node_addTaskBatch n who taskBatch handleThreshold t =
     (let (idleChild, idle) = pop_idle who who (ns_idleChildren (tr_node t n));
          t1 = upd_node n (\<lambda>s. s\<lparr>ns_idleChildren := idle\<rparr>) t
      in if idleChild \<noteq> who
         then Inr (t1, [addTaskBatch idleChild n taskBatch handleThreshold, InNode n (N_setRebalance False)])
         else
           let (elements, q) = queue_addTaskBatch (tr_kind t) taskBatch (ns_queue (tr_node t n));
               t2 = upd_node n (\<lambda>s. s\<lparr>ns_queue := q\<rparr>) t1
           in Inr (t2, (if elements > ns_queueThreshold (tr_node t n)
                        then [InNode n (N_handleQueueOverflow handleThreshold)] else [])
                       @ [InNode n (N_setRebalance False)]))"

definition Node_handleQueueOverflow :: "nat \<Rightarrow> bool \<Rightarrow> tree \<Rightarrow> stepped" where
  "Node_handleQueueOverflow n handleThreshold t =
     (case ns_parent (tr_node t n) of
        Some p \<Rightarrow>
          Inr (t, [InNode n (N_overflow_take (batch_elements (ns_queueThreshold (tr_node t n))) handleThreshold)])
      | None \<Rightarrow> Inr (t, if handleThreshold then [InNode n N_increaseQueueThreshold] else []))"

definition Node_overflow_take :: "nat \<Rightarrow> nat \<Rightarrow> bool \<Rightarrow> tree \<Rightarrow> stepped" where
  "Node_overflow_take n elements handleThreshold t =
     (case ns_parent (tr_node t n) of
        None \<Rightarrow> Inr (t, [])
      | Some p \<Rightarrow>
          let (taskBatch, q) = queue_getTaskBatch (int_of_size elements) (ns_queue (tr_node t n));
              t1 = upd_node n (\<lambda>s. s\<lparr>ns_queue := q\<rparr>) t
          in Inr (t1, if taskBatch \<noteq> [] then [InNode p (N_addTaskBatch (NodeRef n) taskBatch handleThreshold)] else []))"

definition Node_decreaseQueueThreshold :: "nat \<Rightarrow> tree \<Rightarrow> stepped" where
  "Node_decreaseQueueThreshold n t =
     assert_that (ns_parent (tr_node t n) = None) ''_parent == nullptr''
       (Inr (upd_node n (\<lambda>s. s\<lparr>ns_queueThreshold := ns_queueThreshold s div 2\<rparr>) t,
             [InNode n N_updateQueueThreshold]))"

definition Node_increaseQueueThreshold :: "nat \<Rightarrow> tree \<Rightarrow> stepped" where
  "Node_increaseQueueThreshold n t =
     assert_that (ns_parent (tr_node t n) = None) ''_parent == nullptr''
       (Inr (upd_node n (\<lambda>s. s\<lparr>ns_queueThreshold :=
               (if ns_queueThreshold s = 0 then 1 else (ns_queueThreshold s * 2) mod 2 ^ 64)\<rparr>) t,
             [InNode n N_updateQueueThreshold]))"

definition Node_getTask :: "nat \<Rightarrow> sched_ref \<Rightarrow> bool \<Rightarrow> tree \<Rightarrow> stepped" where
  "Node_getTask n child force t =
     Inr (t, [InNode n (N_getTask_take child force (batch_elements (ns_queueThreshold (tr_node t n))))])"

definition Node_getTask_take :: "nat \<Rightarrow> sched_ref \<Rightarrow> bool \<Rightarrow> nat \<Rightarrow> tree \<Rightarrow> stepped" where
  "Node_getTask_take n child force elements t =
     (let (taskBatch, q) = queue_getTaskBatch (int_of_size elements) (ns_queue (tr_node t n))
      in if taskBatch \<noteq> []
         then Inr (upd_node n (\<lambda>s. s\<lparr>ns_queue := q\<rparr>) t,
                   [addTaskBatch child n taskBatch True, InNode n N_rebalance])
         else
           Inr (upd_node n (\<lambda>s. s\<lparr>ns_queue := q, ns_idleChildren := ns_idleChildren s @ [child],
                                   ns_rebalance := False\<rparr>) t,
                case ns_parent (tr_node t n) of
                  Some p \<Rightarrow> [InNode p (N_getTask (NodeRef n) force)]
                | None \<Rightarrow> if force then [InNode n (N_setThreshold 0), InNode n N_updateQueueThreshold]
                          else [InNode n N_decreaseQueueThreshold]))"

text \<open>
  The part of \<open>getTask\<close> after a batch has been given to the child. The product \<open>_queueThreshold * 1.5\<close>
  is a \<open>double\<close>; the comparison is exact for thresholds below \<open>2\<^sup>5\<^sup>1\<close>.
\<close>

definition Node_rebalance :: "nat \<Rightarrow> tree \<Rightarrow> stepped" where
  "Node_rebalance n t =
     Inr (t, if ns_parent (tr_node t n) \<noteq> None \<and> ns_rebalance (tr_node t n) then [InNode n N_rebalance_cas] else [])"

definition Node_rebalance_cas :: "nat \<Rightarrow> tree \<Rightarrow> stepped" where
  "Node_rebalance_cas n t =
     (if ns_rebalance (tr_node t n)
      then Inr (upd_node n (\<lambda>s. s\<lparr>ns_rebalance := False\<rparr>) t, [InNode n N_rebalance_size])
      else Inr (t, []))"

definition Node_rebalance_size :: "nat \<Rightarrow> tree \<Rightarrow> stepped" where
  "Node_rebalance_size n t = Inr (t, [InNode n (N_rebalance_compare (length (ns_queue (tr_node t n))))])"

definition Node_rebalance_compare :: "nat \<Rightarrow> nat \<Rightarrow> tree \<Rightarrow> stepped" where
  "Node_rebalance_compare n elements t =
     Inr (t, if 2 * elements > 3 * ns_queueThreshold (tr_node t n) then [InNode n (N_handleQueueOverflow True)] else [])"

definition Node_unidleChild :: "nat \<Rightarrow> sched_ref \<Rightarrow> tree \<Rightarrow> stepped" where
  "Node_unidleChild n child t =
     Inr (upd_node n (\<lambda>s. s\<lparr>ns_idleChildren := remove1 child (ns_idleChildren s)\<rparr>) t,
          case ns_parent (tr_node t n) of
            Some p \<Rightarrow> [InNode p (N_unidleChild (NodeRef n))]
          | None \<Rightarrow> [])"

definition Node_updateQueueThreshold :: "nat \<Rightarrow> tree \<Rightarrow> stepped" where
  "Node_updateQueueThreshold n t =
     Inr (t, case ns_parent (tr_node t n) of
               Some p \<Rightarrow> [InNode p (N_getQueueThreshold (NodeRef n))]
             | None \<Rightarrow> map updateQueueThreshold (ns_children (tr_node t n)))"

definition Node_update_compare :: "nat \<Rightarrow> nat \<Rightarrow> tree \<Rightarrow> stepped" where
  "Node_update_compare n queueThreshold t =
     Inr (t, (if queueThreshold < ns_queueThreshold (tr_node t n) then [InNode n (N_setRebalance True)] else [])
             @ [InNode n (N_setThreshold queueThreshold)]
             @ map updateQueueThreshold (ns_children (tr_node t n)))"

definition Node_getQueueThreshold :: "nat \<Rightarrow> sched_ref \<Rightarrow> tree \<Rightarrow> stepped" where
  "Node_getQueueThreshold n who t =
     Inr (t, case ns_parent (tr_node t n) of
               Some p \<Rightarrow> [InNode p (N_getQueueThreshold who)]
             | None \<Rightarrow>
                 (case who of
                    NodeRef m \<Rightarrow> [InNode m (N_update_compare (ns_queueThreshold (tr_node t n)))]
                  | LeafRef l \<Rightarrow> [InLeaf l (L_update_rebalance (ns_queueThreshold (tr_node t n)))]))"

definition Node_disableChild :: "nat \<Rightarrow> tree \<Rightarrow> stepped" where
  "Node_disableChild n t =
     assert_that (ns_enabledChildren (tr_node t n) > 0) ''_enabledChildren > 0''
       (Inr (upd_node n (\<lambda>s. s\<lparr>ns_enabledChildren := ns_enabledChildren s - 1\<rparr>) t,
             if ns_enabledChildren (tr_node t n) = 1 \<and> ns_parent (tr_node t n) \<noteq> None
             then [InNode n N_disable_take] else []))"

definition Node_disable_take :: "nat \<Rightarrow> tree \<Rightarrow> stepped" where
  "Node_disable_take n t =
     (case ns_parent (tr_node t n) of
        None \<Rightarrow> Inr (t, [])
      | Some p \<Rightarrow>
          let (taskBatch, q) = queue_getTaskBatch (- 1) (ns_queue (tr_node t n));
              t1 = upd_node n (\<lambda>s. s\<lparr>ns_queue := q\<rparr>) t
          in Inr (t1, (if taskBatch \<noteq> [] then [InNode p (N_addTaskBatch (NodeRef n) taskBatch True)] else [])
                      @ [InNode p N_disableChild]))"

definition Node_enableChild :: "nat \<Rightarrow> tree \<Rightarrow> stepped" where
  "Node_enableChild n t =
     Inr (upd_node n (\<lambda>s. s\<lparr>ns_enabledChildren := ns_enabledChildren s + 1\<rparr>) t, [])"

fun node_step :: "nat \<Rightarrow> node_op \<Rightarrow> tree \<Rightarrow> stepped" where
  "node_step n (N_addTaskBatch who b h) t = Node_addTaskBatch n who b h t"
| "node_step n (N_setRebalance b) t = Inr (upd_node n (\<lambda>s. s\<lparr>ns_rebalance := b\<rparr>) t, [])"
| "node_step n (N_setThreshold q) t = Inr (upd_node n (\<lambda>s. s\<lparr>ns_queueThreshold := q\<rparr>) t, [])"
| "node_step n (N_handleQueueOverflow h) t = Node_handleQueueOverflow n h t"
| "node_step n (N_overflow_take e h) t = Node_overflow_take n e h t"
| "node_step n N_decreaseQueueThreshold t = Node_decreaseQueueThreshold n t"
| "node_step n N_increaseQueueThreshold t = Node_increaseQueueThreshold n t"
| "node_step n (N_getTask c f) t = Node_getTask n c f t"
| "node_step n (N_getTask_take c f e) t = Node_getTask_take n c f e t"
| "node_step n N_rebalance t = Node_rebalance n t"
| "node_step n N_rebalance_cas t = Node_rebalance_cas n t"
| "node_step n N_rebalance_size t = Node_rebalance_size n t"
| "node_step n (N_rebalance_compare k) t = Node_rebalance_compare n k t"
| "node_step n (N_unidleChild c) t = Node_unidleChild n c t"
| "node_step n N_updateQueueThreshold t = Node_updateQueueThreshold n t"
| "node_step n (N_update_compare q) t = Node_update_compare n q t"
| "node_step n (N_getQueueThreshold who) t = Node_getQueueThreshold n who t"
| "node_step n N_disableChild t = Node_disableChild n t"
| "node_step n N_disable_take t = Node_disable_take n t"
| "node_step n N_enableChild t = Node_enableChild n t"

section \<open>Operations of a leaf\<close>

definition leaf_parent :: "tree \<Rightarrow> nat \<Rightarrow> nat" where
  "leaf_parent t l = ls_parent (tr_leaf t l)"

definition Leaf_handleQueueOverflow :: "nat \<Rightarrow> tree \<Rightarrow> stepped" where
  "Leaf_handleQueueOverflow l t =
     Inr (t, [InLeaf l (L_take (batch_elements (ls_queueThreshold (tr_leaf t l))) True)])"

text \<open>
  The end of \<open>handleQueueOverflow\<close>, and \<open>forceRebalance\<close> with one element: the batch goes to the parent,
  which is to raise the threshold in the first case only.
\<close>

definition Leaf_take :: "nat \<Rightarrow> nat \<Rightarrow> bool \<Rightarrow> tree \<Rightarrow> stepped" where
  "Leaf_take l elements handleThreshold t =
     (let (taskBatch, q) = queue_getTaskBatch (int_of_size elements) (ls_queue (tr_leaf t l));
          t1 = upd_leaf l (\<lambda>s. s\<lparr>ls_queue := q\<rparr>) t
      in Inr (t1, if taskBatch \<noteq> []
                  then [InNode (leaf_parent t l) (N_addTaskBatch (LeafRef l) taskBatch handleThreshold)] else []))"

definition Leaf_addTask :: "nat \<Rightarrow> task_ref \<Rightarrow> bool \<Rightarrow> tree \<Rightarrow> stepped" where
  "Leaf_addTask l task hasComputePlace t =
     (if hasComputePlace
      then assert_that (\<not> ls_idle (tr_leaf t l)) ''!_idle''
             (assert_that (ls_running (tr_leaf t l)) ''_running''
               (Inr (t, [InLeaf l (L_enqueue task), InLeaf l (L_setRebalance False)])))
      else if \<not> ls_running (tr_leaf t l)
      then Inr (t, [InLeaf l (L_addTask_slot task), InLeaf l (L_setRebalance False)])
      else Inr (t, [InLeaf l (L_enqueue task), InLeaf l (L_setRebalance False)]))"

text \<open>The sections under \<open>_globalLock\<close> that try to fill the polling slot and read \<open>_idle\<close>.\<close>

definition Leaf_addTask_slot :: "nat \<Rightarrow> task_ref \<Rightarrow> tree \<Rightarrow> stepped" where
  "Leaf_addTask_slot l task t =
     (case ls_pollingSlot (tr_leaf t l) of
        None \<Rightarrow>
          Inr (upd_leaf l (\<lambda>s. s\<lparr>ls_pollingSlot := Some task\<rparr>) t,
               if ls_idle (tr_leaf t l) then [InLeaf l L_resume] else [])
      | Some _ \<Rightarrow> Inr (t, [InLeaf l (L_enqueue task)]))"

definition Leaf_enqueue :: "nat \<Rightarrow> task_ref \<Rightarrow> tree \<Rightarrow> stepped" where
  "Leaf_enqueue l task t =
     (let (elements, q) = queue_addTask (tr_kind t) task (ls_queue (tr_leaf t l))
      in Inr (upd_leaf l (\<lambda>s. s\<lparr>ls_queue := q\<rparr>) t, [InLeaf l (L_enqueue_compare elements)]))"

definition Leaf_enqueue_compare :: "nat \<Rightarrow> nat \<Rightarrow> tree \<Rightarrow> stepped" where
  "Leaf_enqueue_compare l elements t =
     Inr (t, if elements > ls_queueThreshold (tr_leaf t l) then [InLeaf l L_handleQueueOverflow] else [])"

definition Leaf_addTaskBatch :: "nat \<Rightarrow> nat \<Rightarrow> task_ref list \<Rightarrow> tree \<Rightarrow> stepped" where
  "Leaf_addTaskBatch l who taskBatch t =
     assert_that (taskBatch \<noteq> []) ''taskBatch.size() > 0''
       (assert_that (who = leaf_parent t l) ''who == _parent''
         (case ls_pollingSlot (tr_leaf t l) of
            None \<Rightarrow>
              Inr (upd_leaf l (\<lambda>s. s\<lparr>ls_pollingSlot := Some (last taskBatch)\<rparr>) t,
                   (if ls_idle (tr_leaf t l) then [InLeaf l L_resume] else [])
                   @ [InLeaf l (L_enqueueBatch (butlast taskBatch))])
          | Some _ \<Rightarrow> Inr (t, [InLeaf l (L_enqueueBatch taskBatch)])))"

definition Leaf_enqueueBatch :: "nat \<Rightarrow> task_ref list \<Rightarrow> tree \<Rightarrow> stepped" where
  "Leaf_enqueueBatch l taskBatch t =
     (let (elements, q) = queue_addTaskBatch (tr_kind t) taskBatch (ls_queue (tr_leaf t l))
      in Inr (upd_leaf l (\<lambda>s. s\<lparr>ls_queue := q\<rparr>) t, []))"

text \<open>The calls of the thread manager and the CPU manager.\<close>

definition Leaf_resume :: "nat \<Rightarrow> tree \<Rightarrow> stepped" where
  "Leaf_resume l t =
     result_bind (resumeIdle (ls_computePlace (tr_leaf t l)) False (tr_world t))
       (\<lambda>(_, w). Inr ((upd_leaf l (\<lambda>s. s\<lparr>ls_woken := True\<rparr>) t)\<lparr>tr_world := w\<rparr>, []))"

definition Leaf_unidleCPU :: "nat \<Rightarrow> tree \<Rightarrow> stepped" where
  "Leaf_unidleCPU l t =
     Inr (t\<lparr>tr_world := snd (unidleCPU (ls_computePlace (tr_leaf t l)) (tr_world t))\<rparr>, [])"

definition Leaf_disable :: "nat \<Rightarrow> tree \<Rightarrow> stepped" where
  "Leaf_disable l t =
     (if ls_idle (tr_leaf t l)
      then Inr (upd_leaf l (\<lambda>s. s\<lparr>ls_idle := False\<rparr>) t,
                [InNode (leaf_parent t l) (N_unidleChild (LeafRef l)), InLeaf l L_unidleCPU, InLeaf l L_disable_take])
      else Inr (t, [InLeaf l L_disable_take]))"

definition Leaf_disable_take :: "nat \<Rightarrow> tree \<Rightarrow> stepped" where
  "Leaf_disable_take l t =
     (let (taskBatch, q) = queue_getTaskBatch (- 1) (ls_queue (tr_leaf t l))
      in Inr (upd_leaf l (\<lambda>s. s\<lparr>ls_queue := q\<rparr>) t, [InLeaf l (L_disable_slot taskBatch)]))"

definition Leaf_disable_slot :: "nat \<Rightarrow> task_ref list \<Rightarrow> tree \<Rightarrow> stepped" where
  "Leaf_disable_slot l batch t =
     (let taskBatch = (case ls_pollingSlot (tr_leaf t l) of Some task \<Rightarrow> batch @ [task] | None \<Rightarrow> batch);
          p = leaf_parent t l
      in Inr (upd_leaf l (\<lambda>s. s\<lparr>ls_pollingSlot := None\<rparr>) t,
              (if taskBatch \<noteq> [] then [InNode p (N_addTaskBatch (LeafRef l) taskBatch True)] else [])
              @ [InNode p N_disableChild]))"

definition Leaf_enable :: "nat \<Rightarrow> tree \<Rightarrow> stepped" where
  "Leaf_enable l t = Inr (t, [InNode (leaf_parent t l) N_enableChild])"

text \<open>\<open>updateQueueThreshold\<close>, after the parent has been asked for the threshold.\<close>

definition Leaf_update_rebalance :: "nat \<Rightarrow> nat \<Rightarrow> tree \<Rightarrow> stepped" where
  "Leaf_update_rebalance l queueThreshold t =
     Inr (t, if queueThreshold = 0 \<and> ls_rebalance (tr_leaf t l)
             then [InLeaf l (L_update_running queueThreshold)]
             else [InLeaf l (L_update_compare queueThreshold)])"

definition Leaf_update_running :: "nat \<Rightarrow> nat \<Rightarrow> tree \<Rightarrow> stepped" where
  "Leaf_update_running l queueThreshold t =
     Inr (t, if ls_running (tr_leaf t l)
             then [InLeaf l (L_take 1 False), InLeaf l (L_setThreshold queueThreshold)]
             else [InLeaf l (L_update_compare queueThreshold)])"

definition Leaf_update_compare :: "nat \<Rightarrow> nat \<Rightarrow> tree \<Rightarrow> stepped" where
  "Leaf_update_compare l queueThreshold t =
     Inr (t, (if queueThreshold < ls_queueThreshold (tr_leaf t l) then [InLeaf l (L_setRebalance True)] else [])
             @ [InLeaf l (L_setThreshold queueThreshold)])"

fun leaf_step :: "nat \<Rightarrow> leaf_op \<Rightarrow> tree \<Rightarrow> stepped" where
  "leaf_step l (L_setRebalance b) t = Inr (upd_leaf l (\<lambda>s. s\<lparr>ls_rebalance := b\<rparr>) t, [])"
| "leaf_step l (L_setThreshold q) t = Inr (upd_leaf l (\<lambda>s. s\<lparr>ls_queueThreshold := q\<rparr>) t, [])"
| "leaf_step l (L_setRunning b) t = Inr (upd_leaf l (\<lambda>s. s\<lparr>ls_running := b\<rparr>) t, [])"
| "leaf_step l L_handleQueueOverflow t = Leaf_handleQueueOverflow l t"
| "leaf_step l (L_take e h) t = Leaf_take l e h t"
| "leaf_step l (L_addTask task h) t = Leaf_addTask l task h t"
| "leaf_step l (L_addTask_slot task) t = Leaf_addTask_slot l task t"
| "leaf_step l (L_enqueue task) t = Leaf_enqueue l task t"
| "leaf_step l (L_enqueue_compare e) t = Leaf_enqueue_compare l e t"
| "leaf_step l (L_addTaskBatch who b) t = Leaf_addTaskBatch l who b t"
| "leaf_step l (L_enqueueBatch b) t = Leaf_enqueueBatch l b t"
| "leaf_step l L_resume t = Leaf_resume l t"
| "leaf_step l L_unidleCPU t = Leaf_unidleCPU l t"
| "leaf_step l L_disable t = Leaf_disable l t"
| "leaf_step l L_disable_take t = Leaf_disable_take l t"
| "leaf_step l (L_disable_slot b) t = Leaf_disable_slot l b t"
| "leaf_step l L_enable t = Leaf_enable l t"
| "leaf_step l L_updateQueueThreshold t = Inr (t, [InNode (leaf_parent t l) (N_getQueueThreshold (LeafRef l))])"
| "leaf_step l (L_update_rebalance q) t = Leaf_update_rebalance l q t"
| "leaf_step l (L_update_running q) t = Leaf_update_running l q t"
| "leaf_step l (L_update_compare q) t = Leaf_update_compare l q t"

section \<open>Obtaining a task from a leaf\<close>

text \<open>The return of a task that has been found: \<open>_running = true; return task;\<close>\<close>

definition found :: "nat \<Rightarrow> task_ref \<Rightarrow> frame list" where
  "found l task = [InLeaf l (L_setRunning True), Return (Some task)]"

definition Leaf_getTask :: "nat \<Rightarrow> bool \<Rightarrow> tree \<Rightarrow> stepped" where
  "Leaf_getTask l doWait t =
     Inr (upd_leaf l (\<lambda>s. s\<lparr>ls_running := False\<rparr>) t, [InGet l (L_getTask_unidle doWait)])"

text \<open>\<open>_idle\<close> is written only by threads of its CPU, so that the test and the assignment are one step.\<close>

definition Leaf_getTask_unidle :: "nat \<Rightarrow> bool \<Rightarrow> tree \<Rightarrow> stepped" where
  "Leaf_getTask_unidle l doWait t =
     (if ls_idle (tr_leaf t l)
      then Inr (upd_leaf l (\<lambda>s. s\<lparr>ls_idle := False\<rparr>) t, [InLeaf l L_unidleCPU, InGet l (L_getTask_slot doWait)])
      else Inr (t, [InGet l (L_getTask_slot doWait)]))"

definition Leaf_getTask_slot :: "nat \<Rightarrow> bool \<Rightarrow> tree \<Rightarrow> stepped" where
  "Leaf_getTask_slot l doWait t =
     (case ls_pollingSlot (tr_leaf t l) of
        Some task \<Rightarrow>
          Inr (upd_leaf l (\<lambda>s. s\<lparr>ls_pollingSlot := None\<rparr>) t, InLeaf l (L_setRebalance False) # found l task)
      | None \<Rightarrow> Inr (t, [InGet l (L_getTask_queue doWait)]))"

definition Leaf_getTask_queue :: "nat \<Rightarrow> bool \<Rightarrow> tree \<Rightarrow> stepped" where
  "Leaf_getTask_queue l doWait t =
     (let (task, q) = queue_getTask (ls_queue (tr_leaf t l));
          t1 = upd_leaf l (\<lambda>s. s\<lparr>ls_queue := q\<rparr>) t
      in case task of
           Some task \<Rightarrow> Inr (t1, InGet l L_rebalance # found l task)
         | None \<Rightarrow>
             Inr (t1, [InLeaf l (L_setRebalance False), InNode (leaf_parent t l) (N_getTask (LeafRef l) False),
                       InGet l (L_poll doWait 0)]))"

definition Leaf_rebalance :: "nat \<Rightarrow> tree \<Rightarrow> stepped" where
  "Leaf_rebalance l t = Inr (t, if ls_rebalance (tr_leaf t l) then [InGet l L_rebalance_cas] else [])"

definition Leaf_rebalance_cas :: "nat \<Rightarrow> tree \<Rightarrow> stepped" where
  "Leaf_rebalance_cas l t =
     (if ls_rebalance (tr_leaf t l)
      then Inr (upd_leaf l (\<lambda>s. s\<lparr>ls_rebalance := False\<rparr>) t, [InGet l L_rebalance_size])
      else Inr (t, []))"

definition Leaf_rebalance_size :: "nat \<Rightarrow> tree \<Rightarrow> stepped" where
  "Leaf_rebalance_size l t = Inr (t, [InGet l (L_rebalance_compare (length (ls_queue (tr_leaf t l))))])"

definition Leaf_rebalance_compare :: "nat \<Rightarrow> nat \<Rightarrow> tree \<Rightarrow> stepped" where
  "Leaf_rebalance_compare l elements t =
     Inr (t, if 2 * elements > 3 * ls_queueThreshold (tr_leaf t l) then [InLeaf l L_handleQueueOverflow] else [])"

text \<open>One turn of the polling loop, or the single look at the slot when the caller does not wait.\<close>

definition Leaf_poll :: "nat \<Rightarrow> bool \<Rightarrow> nat \<Rightarrow> tree \<Rightarrow> stepped" where
  "Leaf_poll l doWait iterations t =
     (if doWait \<and> \<not> iterations < tr_pollingIterations t then Inr (t, [InGet l L_timeout])
      else
        case ls_pollingSlot (tr_leaf t l) of
          Some task \<Rightarrow> Inr (upd_leaf l (\<lambda>s. s\<lparr>ls_pollingSlot := None\<rparr>) t, found l task)
        | None \<Rightarrow> Inr (t, [if doWait then InGet l (L_poll True (iterations + 1)) else InGet l L_timeout]))"

definition Leaf_timeout :: "nat \<Rightarrow> tree \<Rightarrow> stepped" where
  "Leaf_timeout l t =
     Inr (t, (if ls_queueThreshold (tr_leaf t l) \<noteq> 0
              then [InNode (leaf_parent t l) (N_getTask (LeafRef l) True)] else [])
             @ [InGet l L_final])"

definition Leaf_final :: "nat \<Rightarrow> tree \<Rightarrow> stepped" where
  "Leaf_final l t =
     (case ls_pollingSlot (tr_leaf t l) of
        Some task \<Rightarrow> Inr (upd_leaf l (\<lambda>s. s\<lparr>ls_pollingSlot := None\<rparr>) t, found l task)
      | None \<Rightarrow>
          Inr ((upd_leaf l (\<lambda>s. s\<lparr>ls_idle := True, ls_woken := False\<rparr>) t)
                 \<lparr>tr_world := cpuBecomesIdle (ls_computePlace (tr_leaf t l)) (tr_world t)\<rparr>,
               [Return None]))"

fun get_step :: "nat \<Rightarrow> leaf_get \<Rightarrow> tree \<Rightarrow> stepped" where
  "get_step l (L_getTask d) t = Leaf_getTask l d t"
| "get_step l (L_getTask_unidle d) t = Leaf_getTask_unidle l d t"
| "get_step l (L_getTask_slot d) t = Leaf_getTask_slot l d t"
| "get_step l (L_getTask_queue d) t = Leaf_getTask_queue l d t"
| "get_step l L_rebalance t = Leaf_rebalance l t"
| "get_step l L_rebalance_cas t = Leaf_rebalance_cas l t"
| "get_step l L_rebalance_size t = Leaf_rebalance_size l t"
| "get_step l (L_rebalance_compare e) t = Leaf_rebalance_compare l e t"
| "get_step l (L_poll d i) t = Leaf_poll l d i t"
| "get_step l L_timeout t = Leaf_timeout l t"
| "get_step l L_final t = Leaf_final l t"

section \<open>The scheduler\<close>

text \<open>
  One turn of the loop that looks for a leaf for a task that comes without a compute place. The loop of
  compare-and-swaps on the counter is one atomic update of it.
\<close>

definition Tree_roundRobin :: "task_ref \<Rightarrow> tree \<Rightarrow> stepped" where
  "Tree_roundRobin task t =
     (let pos = tr_schedRRCounter t; n = length (tr_CPUScheduler t) in
      if n = 0 then Inl (FatalError ''division by zero'')
      else Inr (t\<lparr>tr_schedRRCounter := (pos + 1) mod n\<rparr>,
                if tr_CPUScheduler t ! pos then [InLeaf pos (L_addTask task False)] else [T_addReadyTask task]))"

fun frame_step :: "frame \<Rightarrow> tree \<Rightarrow> stepped" where
  "frame_step (InNode n op) t = node_step n op t"
| "frame_step (InLeaf l op) t = leaf_step l op t"
| "frame_step (InGet l op) t = get_step l op t"
| "frame_step (T_addReadyTask task) t = Tree_roundRobin task t"
| "frame_step (Return r) t = Inr (t, [])"

text \<open>
  The functions of \<open>TreeScheduler\<close> that begin a call. \<open>addReadyTask\<close> answers null whatever it is asked
  for, \<open>getIdleComputePlace\<close> answers null and changes nothing.
\<close>

definition cpu_leaf :: "tree \<Rightarrow> cpu_ref \<Rightarrow> nat" where
  "cpu_leaf t c = cp_virtualCPUId (w_places (tr_world t) c)"

definition on_leaf :: "tree \<Rightarrow> cpu_ref \<Rightarrow> (nat \<Rightarrow> frame) \<Rightarrow> frame list result" where
  "on_leaf t c k =
     (let v = cpu_leaf t c in
      if v < length (tr_CPUScheduler t) \<and> tr_CPUScheduler t ! v then Inr [k v]
      else Inl (FatalError ''null pointer''))"

definition Tree_addReadyTask :: "tree \<Rightarrow> task_ref \<Rightarrow> cpu_ref option \<Rightarrow> ReadyTaskHint \<Rightarrow> bool \<Rightarrow> frame list result" where
  "Tree_addReadyTask t task computePlace hint doGetIdle =
     fail_if (isTaskloop (w_tasks (tr_world t) task)) ''Task loop not supported yet''
       (case computePlace of
          Some c \<Rightarrow> on_leaf t c (\<lambda>l. InLeaf l (L_addTask task True))
        | None \<Rightarrow> Inr [T_addReadyTask task])"

definition Tree_getReadyTask :: "tree \<Rightarrow> cpu_ref \<Rightarrow> task_ref option \<Rightarrow> bool \<Rightarrow> bool \<Rightarrow> frame list result" where
  "Tree_getReadyTask t computePlace currentTask canMarkAsIdle doWait =
     on_leaf t computePlace (\<lambda>l. InGet l (L_getTask doWait))"

definition Tree_canWait :: bool where
  "Tree_canWait = True"

definition Tree_getIdleComputePlace :: "tree \<Rightarrow> bool \<Rightarrow> cpu_ref option" where
  "Tree_getIdleComputePlace t force = None"

definition Tree_disableComputePlace :: "tree \<Rightarrow> cpu_ref \<Rightarrow> frame list result" where
  "Tree_disableComputePlace t computePlace = on_leaf t computePlace (\<lambda>l. InLeaf l L_disable)"

definition Tree_enableComputePlace :: "tree \<Rightarrow> cpu_ref \<Rightarrow> frame list result" where
  "Tree_enableComputePlace t computePlace = on_leaf t computePlace (\<lambda>l. InLeaf l L_enable)"

section \<open>Threads\<close>

datatype tree_call =
    AddReady task_ref "cpu_ref option" ReadyTaskHint
  | GetReady cpu_ref bool
  | DisablePlace cpu_ref
  | EnablePlace cpu_ref

fun call_frames :: "tree \<Rightarrow> tree_call \<Rightarrow> frame list result" where
  "call_frames t (AddReady task cp hint) = Tree_addReadyTask t task cp hint True"
| "call_frames t (GetReady c doWait) = Tree_getReadyTask t c None True doWait"
| "call_frames t (DisablePlace c) = Tree_disableComputePlace t c"
| "call_frames t (EnablePlace c) = Tree_enableComputePlace t c"

text \<open>
  The threads with their stacks, the tasks that have been handed to the scheduler and those that it has
  handed out. A thread begins a call when it is outside the scheduler; otherwise it takes a step.
\<close>

record tree_config =
  tc_tree :: tree
  tc_stacks :: "frame list list"
  tc_added :: "task_ref list"
  tc_handed :: "task_ref list"

datatype tree_event = Begin nat tree_call | Step nat

fun call_task :: "tree_call \<Rightarrow> task_ref list" where
  "call_task (AddReady task cp hint) = [task]"
| "call_task _ = []"

fun frame_result :: "frame \<Rightarrow> task_ref list" where
  "frame_result (Return (Some task)) = [task]"
| "frame_result _ = []"

fun tree_exec :: "tree_event \<Rightarrow> tree_config \<Rightarrow> tree_config result" where
  "tree_exec (Begin i c) m =
     (if i < length (tc_stacks m) \<and> tc_stacks m ! i = []
      then result_bind (call_frames (tc_tree m) c)
             (\<lambda>fs. Inr (m\<lparr>tc_stacks := (tc_stacks m)[i := fs], tc_added := tc_added m @ call_task c\<rparr>))
      else Inr m)"
| "tree_exec (Step i) m =
     (if i < length (tc_stacks m) then
        (case tc_stacks m ! i of
           [] \<Rightarrow> Inr m
         | f # fs \<Rightarrow>
             result_bind (frame_step f (tc_tree m))
               (\<lambda>(t, gs). Inr (m\<lparr>tc_tree := t, tc_stacks := (tc_stacks m)[i := gs @ fs],
                                 tc_handed := tc_handed m @ frame_result f\<rparr>)))
      else Inr m)"

fun run_tree :: "tree_event list \<Rightarrow> tree_config \<Rightarrow> tree_config result" where
  "run_tree [] m = Inr m"
| "run_tree (e # es) m = result_bind (tree_exec e m) (run_tree es)"

definition tree_start :: "queue_kind \<Rightarrow> nat \<Rightarrow> nat \<Rightarrow> world \<Rightarrow> nat \<Rightarrow> tree_config" where
  "tree_start kind iterations NUMANodeCount w threads =
     \<lparr>tc_tree = TreeScheduler_new kind iterations NUMANodeCount w,
      tc_stacks = replicate threads [], tc_added = [], tc_handed = []\<rparr>"

end
