(* ===== verification/N6_TreeSchedulerProofs.thy ===== *)
theory N6_TreeSchedulerProofs
  imports N6_TreeScheduler
begin

text \<open>
  The steps of the tree scheduler keep the shape of the tree and the well-formedness of nodes, leaves and
  frames, move tasks without losing any, fill the slot of an idle leaf only together with a resumption of
  its CPU, and decrease a measure of the thread that takes them.
\<close>

section \<open>Queues\<close>

lemma FIFOQueue_addTaskBatch_eq:
  "FIFOQueue_addTaskBatch b q = (length q + length b, q @ rev b)"
proof -
  have "fold (\<lambda>t d. d @ [t]) xs q = q @ xs" for xs :: "task_ref list"
    by (induction xs arbitrary: q) auto
  then show ?thesis by (simp add: FIFOQueue_addTaskBatch_def)
qed

lemma LIFOQueue_addTaskBatch_eq:
  "LIFOQueue_addTaskBatch b q = (length q + length b, b @ q)"
proof -
  have "fold (\<lambda>t d. t # d) xs q = rev xs @ q" for xs :: "task_ref list"
    by (induction xs arbitrary: q) auto
  then show ?thesis by (simp add: LIFOQueue_addTaskBatch_def)
qed

lemma take_back_eq:
  "n \<le> length q \<Longrightarrow> take_back n q = (take n (rev q), take (length q - n) q)"
proof (induction n arbitrary: q)
  case (Suc n)
  then obtain p x where q: "q = p @ [x]" by (cases q rule: rev_cases) auto
  with Suc.IH [of p] Suc.prems show ?case by simp
qed simp

lemma queue_getTaskBatch_append:
  "queue_getTaskBatch e q = (b, r) \<Longrightarrow> q = r @ rev b"
proof -
  have app: "q = r @ rev b" if "take_back n q = (b, r)" "n \<le> length q" for n
    using that take_back_eq [of n q] by (auto simp: rev_take)
  assume "queue_getTaskBatch e q = (b, r)"
  then show ?thesis
    by (auto simp: queue_getTaskBatch_def split: if_splits intro: app)
qed

lemma queue_getTaskBatch_mset:
  "queue_getTaskBatch e q = (b, r) \<Longrightarrow> mset r + mset b = mset q"
  by (drule queue_getTaskBatch_append) simp

text \<open>
  The interface \<open>TreeSchedulerQueueInterface\<close>: whatever the order in which a queue keeps its tasks, it
  gains the tasks that are added and answers its size.
\<close>

locale batch_queue =
  fixes add :: "task_ref \<Rightarrow> task_ref list \<Rightarrow> nat \<times> task_ref list"
    and add_batch :: "task_ref list \<Rightarrow> task_ref list \<Rightarrow> nat \<times> task_ref list"
  assumes add_law: "add x q = (n, r) \<Longrightarrow> mset r = mset q + {#x#} \<and> n = length r"
    and add_batch_law: "add_batch b q = (n, r) \<Longrightarrow> mset r = mset q + mset b \<and> n = length r"
begin

text \<open>A batch that is taken from one queue and put in another is neither lost nor copied.\<close>

lemma batch_moves:
  assumes "queue_getTaskBatch e q = (b, q')" "add_batch b d = (n, d')"
  shows "mset q' + mset d' = mset q + mset d"
  using queue_getTaskBatch_mset [OF assms(1)] add_batch_law [OF assms(2)] by (metis add.assoc add.commute)

end

interpretation fifo: batch_queue FIFOQueue_addTask FIFOQueue_addTaskBatch
  by unfold_locales (auto simp: FIFOQueue_addTask_def FIFOQueue_addTaskBatch_eq Let_def)

interpretation lifo: batch_queue LIFOQueue_addTask LIFOQueue_addTaskBatch
  by unfold_locales (auto simp: LIFOQueue_addTask_def LIFOQueue_addTaskBatch_eq Let_def)

interpretation tree_queue: batch_queue "queue_addTask k" "queue_addTaskBatch k" for k
  by unfold_locales
    (auto simp: queue_addTask_def queue_addTaskBatch_def split: queue_kind.splits
      dest: fifo.add_law fifo.add_batch_law lifo.add_law lifo.add_batch_law)

lemmas queue_addTask_mset = tree_queue.add_law [THEN conjunct1]
lemmas queue_addTaskBatch_mset = tree_queue.add_batch_law [THEN conjunct1]

lemma queue_getTask_mset: "queue_getTask q = (x, r) \<Longrightarrow> mset r + mset_opt x = mset q"
  by (auto simp: queue_getTask_def split: list.splits)

text \<open>
  Order in a queue: tasks are served from the head of the list. A batch lists tasks from the last to be
  served to the first. The FIFO queue serves a batch that it receives in that order; the LIFO queue
  serves it backwards, although both say that the task to run earliest is at the end of the batch.
\<close>

lemma moved_batch_order:
  assumes "queue_getTaskBatch e q = (b, r)"
  shows "q = r @ rev b"
    and "snd (FIFOQueue_addTaskBatch b []) = rev b"
    and "snd (LIFOQueue_addTaskBatch b []) = b"
  using queue_getTaskBatch_append [OF assms]
  by (simp_all add: FIFOQueue_addTaskBatch_eq LIFOQueue_addTaskBatch_eq)

section \<open>Shape\<close>

type_synonym shape =
  "nat \<times> bool list \<times> (nat \<Rightarrow> nat option) \<times> (nat \<Rightarrow> sched_ref list) \<times> (nat \<Rightarrow> nat) \<times> nat"

definition tree_shape :: "tree \<Rightarrow> shape" where
  "tree_shape t =
     (tr_nodeCount t, tr_CPUScheduler t, \<lambda>n. ns_parent (tr_node t n), \<lambda>n. ns_children (tr_node t n),
      \<lambda>l. ls_parent (tr_leaf t l), tr_pollingIterations t)"

definition leafCount :: "tree \<Rightarrow> nat" where
  "leafCount t = length (tr_CPUScheduler t)"

definition child_of :: "tree \<Rightarrow> nat \<Rightarrow> sched_ref \<Rightarrow> bool" where
  "child_of t n c =
     (case c of
        NodeRef m \<Rightarrow> n < m \<and> m < tr_nodeCount t \<and> ns_parent (tr_node t m) = Some n
      | LeafRef l \<Rightarrow> l < leafCount t \<and> ls_parent (tr_leaf t l) = n)"

definition sched_ok :: "tree \<Rightarrow> sched_ref \<Rightarrow> bool" where
  "sched_ok t c = (case c of NodeRef m \<Rightarrow> m < tr_nodeCount t | LeafRef l \<Rightarrow> l < leafCount t)"

definition node_ok :: "tree \<Rightarrow> nat \<Rightarrow> bool" where
  "node_ok t n \<longleftrightarrow>
     (case ns_parent (tr_node t n) of None \<Rightarrow> True | Some p \<Rightarrow> p < n) \<and>
     list_all (child_of t n) (ns_children (tr_node t n)) \<and>
     list_all (child_of t n) (ns_idleChildren (tr_node t n))"

definition tree_wf :: "tree \<Rightarrow> bool" where
  "tree_wf t \<longleftrightarrow>
     (\<forall>n<tr_nodeCount t. node_ok t n) \<and> (\<forall>l<leafCount t. ls_parent (tr_leaf t l) < tr_nodeCount t) \<and>
     (leafCount t = 0 \<or> tr_schedRRCounter t < leafCount t)"

fun node_op_ok :: "tree \<Rightarrow> nat \<Rightarrow> node_op \<Rightarrow> bool" where
  "node_op_ok t n (N_addTaskBatch who b h) = (b \<noteq> [])"
| "node_op_ok t n N_decreaseQueueThreshold = (ns_parent (tr_node t n) = None)"
| "node_op_ok t n N_increaseQueueThreshold = (ns_parent (tr_node t n) = None)"
| "node_op_ok t n (N_getTask c f) = child_of t n c"
| "node_op_ok t n (N_getTask_take c f e) = child_of t n c"
| "node_op_ok t n (N_getQueueThreshold who) = sched_ok t who"
| "node_op_ok t n op = True"

fun leaf_op_ok :: "tree \<Rightarrow> nat \<Rightarrow> leaf_op \<Rightarrow> bool" where
  "leaf_op_ok t l (L_addTaskBatch who b) = (b \<noteq> [] \<and> who = ls_parent (tr_leaf t l))"
| "leaf_op_ok t l op = True"

fun frame_ok :: "tree \<Rightarrow> frame \<Rightarrow> bool" where
  "frame_ok t (InNode n op) = (n < tr_nodeCount t \<and> node_op_ok t n op)"
| "frame_ok t (InLeaf l op) = (l < leafCount t \<and> leaf_op_ok t l op)"
| "frame_ok t (InGet l op) = (l < leafCount t)"
| "frame_ok t (T_addReadyTask task) = True"
| "frame_ok t (Return r) = True"

lemma upd_node_simps [simp]:
  "tr_kind (upd_node n f t) = tr_kind t"
  "tr_pollingIterations (upd_node n f t) = tr_pollingIterations t"
  "tr_nodeCount (upd_node n f t) = tr_nodeCount t"
  "tr_node (upd_node n f t) = (tr_node t)(n := f (tr_node t n))"
  "tr_leaf (upd_node n f t) = tr_leaf t"
  "tr_CPUScheduler (upd_node n f t) = tr_CPUScheduler t"
  "tr_schedRRCounter (upd_node n f t) = tr_schedRRCounter t"
  "tr_world (upd_node n f t) = tr_world t"
  by (simp_all add: upd_node_def)

lemma upd_leaf_simps [simp]:
  "tr_kind (upd_leaf l f t) = tr_kind t"
  "tr_pollingIterations (upd_leaf l f t) = tr_pollingIterations t"
  "tr_nodeCount (upd_leaf l f t) = tr_nodeCount t"
  "tr_node (upd_leaf l f t) = tr_node t"
  "tr_leaf (upd_leaf l f t) = (tr_leaf t)(l := f (tr_leaf t l))"
  "tr_CPUScheduler (upd_leaf l f t) = tr_CPUScheduler t"
  "tr_schedRRCounter (upd_leaf l f t) = tr_schedRRCounter t"
  "tr_world (upd_leaf l f t) = tr_world t"
  by (simp_all add: upd_leaf_def)

lemma tree_shape_eqD:
  assumes "tree_shape t' = tree_shape t"
  shows "tr_nodeCount t' = tr_nodeCount t" "leafCount t' = leafCount t"
    "ns_parent (tr_node t' n) = ns_parent (tr_node t n)"
    "ns_children (tr_node t' n) = ns_children (tr_node t n)"
    "ls_parent (tr_leaf t' l) = ls_parent (tr_leaf t l)"
    "tr_pollingIterations t' = tr_pollingIterations t"
    "tr_CPUScheduler t' = tr_CPUScheduler t"
  using assms by (auto simp: tree_shape_def leafCount_def fun_eq_iff)

lemma child_of_shape:
  assumes "tree_shape t' = tree_shape t"
  shows "child_of t' = child_of t"
  by (simp add: fun_eq_iff child_of_def tree_shape_eqD [OF assms] split: sched_ref.splits)

lemma sched_ok_shape:
  assumes "tree_shape t' = tree_shape t"
  shows "sched_ok t' = sched_ok t"
  by (simp add: fun_eq_iff sched_ok_def tree_shape_eqD [OF assms] split: sched_ref.splits)

lemma frame_ok_shape:
  assumes "tree_shape t' = tree_shape t"
  shows "frame_ok t' f = frame_ok t f"
proof -
  note eq = tree_shape_eqD [OF assms] child_of_shape [OF assms] sched_ok_shape [OF assms]
  have "node_op_ok t' n op = node_op_ok t n op" for n op
    by (cases op) (simp_all add: eq)
  moreover have "leaf_op_ok t' l op = leaf_op_ok t l op" for l op
    by (cases op) (simp_all add: eq)
  ultimately show ?thesis by (cases f) (simp_all add: eq)
qed

lemma shape_upd_node:
  assumes "\<And>s. ns_parent (f s) = ns_parent s" "\<And>s. ns_children (f s) = ns_children s"
  shows "tree_shape (upd_node n f t) = tree_shape t"
  using assms by (auto simp: tree_shape_def)

lemma shape_upd_leaf:
  assumes "\<And>s. ls_parent (f s) = ls_parent s"
  shows "tree_shape (upd_leaf l f t) = tree_shape t"
  using assms by (auto simp: tree_shape_def)

lemma shape_other [simp]:
  "tree_shape (t\<lparr>tr_world := w\<rparr>) = tree_shape t"
  "tree_shape (t\<lparr>tr_schedRRCounter := i\<rparr>) = tree_shape t"
  by (simp_all add: tree_shape_def)

text \<open>What a change of the tree must keep for the tree to stay well-formed.\<close>

lemma tree_wf_step:
  assumes "tree_wf t" "tree_shape t' = tree_shape t"
    and "\<And>n. n < tr_nodeCount t \<Longrightarrow> list_all (child_of t n) (ns_idleChildren (tr_node t' n))"
    and "leafCount t = 0 \<or> tr_schedRRCounter t' < leafCount t"
  shows "tree_wf t'"
  using assms tree_shape_eqD [OF assms(2)] child_of_shape [OF assms(2)]
  by (auto simp: tree_wf_def node_ok_def)

lemma tree_wf_idle:
  "tree_wf t \<Longrightarrow> n < tr_nodeCount t \<Longrightarrow> list_all (child_of t n) (ns_idleChildren (tr_node t n))"
  by (simp add: tree_wf_def node_ok_def)

lemma tree_wf_children:
  "tree_wf t \<Longrightarrow> n < tr_nodeCount t \<Longrightarrow> c \<in> set (ns_children (tr_node t n)) \<Longrightarrow> child_of t n c"
  by (simp add: tree_wf_def node_ok_def list_all_iff)

lemma tree_wf_parent:
  "tree_wf t \<Longrightarrow> n < tr_nodeCount t \<Longrightarrow> ns_parent (tr_node t n) = Some p \<Longrightarrow>
   p < n \<and> p < tr_nodeCount t \<and> child_of t p (NodeRef n)"
  unfolding tree_wf_def node_ok_def child_of_def by force

lemma tree_wf_leaf_parent:
  "tree_wf t \<Longrightarrow> l < leafCount t \<Longrightarrow> leaf_parent t l < tr_nodeCount t \<and> child_of t (leaf_parent t l) (LeafRef l)"
  by (simp add: tree_wf_def child_of_def leaf_parent_def)

lemma child_of_sched_ok: "child_of t n c \<Longrightarrow> sched_ok t c"
  by (auto simp: child_of_def sched_ok_def split: sched_ref.splits)

lemma addTaskBatch_ok:
  "child_of t n c \<Longrightarrow> n < tr_nodeCount t \<Longrightarrow> b \<noteq> [] \<Longrightarrow> frame_ok t (addTaskBatch c n b h)"
  by (auto simp: addTaskBatch_def child_of_def split: sched_ref.splits)

lemma updateQueueThreshold_ok: "child_of t n c \<Longrightarrow> frame_ok t (updateQueueThreshold c)"
  by (auto simp: updateQueueThreshold_def child_of_def split: sched_ref.splits)

lemma pop_idle_cases:
  assumes "pop_idle who who cs = (c, rest)"
  shows "c = who \<and> rest = [] \<and> (\<forall>x \<in> set cs. x = who) \<or>
    c \<noteq> who \<and> c \<in> set cs \<and> (\<exists>k. rest = drop k cs \<and> 0 < k \<and> k \<le> length cs)"
proof -
  have other: "pop_idle who x cs = (x, cs)" if "x \<noteq> who" for x cs
    using that by (cases cs) auto
  show ?thesis
    using assms
  proof (induction cs)
    case (Cons x cs)
    show ?case
    proof (cases "x = who")
      case True
      with Cons show ?thesis by (auto intro: exI [of _ "Suc k" for k])
    next
      case False
      with Cons.prems other [of x cs] show ?thesis by (auto intro: exI [of _ 1])
    qed
  qed simp
qed

lemmas node_step_defs = Node_addTaskBatch_def Node_handleQueueOverflow_def Node_overflow_take_def
  Node_decreaseQueueThreshold_def Node_increaseQueueThreshold_def Node_getTask_def Node_getTask_take_def
  Node_rebalance_def Node_rebalance_cas_def Node_rebalance_size_def Node_rebalance_compare_def
  Node_unidleChild_def Node_updateQueueThreshold_def Node_update_compare_def Node_getQueueThreshold_def
  Node_disableChild_def Node_disable_take_def Node_enableChild_def

lemmas leaf_step_defs = Leaf_handleQueueOverflow_def Leaf_take_def Leaf_addTask_def Leaf_addTask_slot_def
  Leaf_enqueue_def Leaf_enqueue_compare_def Leaf_addTaskBatch_def Leaf_enqueueBatch_def Leaf_resume_def
  Leaf_unidleCPU_def Leaf_disable_def Leaf_disable_take_def Leaf_disable_slot_def Leaf_enable_def
  Leaf_update_rebalance_def Leaf_update_running_def Leaf_update_compare_def

lemmas get_step_defs = Leaf_getTask_def Leaf_getTask_unidle_def Leaf_getTask_slot_def Leaf_getTask_queue_def
  Leaf_rebalance_def Leaf_rebalance_cas_def Leaf_rebalance_size_def Leaf_rebalance_compare_def
  Leaf_poll_def Leaf_timeout_def Leaf_final_def

lemma shape_node_step: "node_step n op t = Inr (t', fs) \<Longrightarrow> tree_shape t' = tree_shape t"
  by (cases op)
    (auto simp: node_step_defs Let_def shape_upd_node split: prod.splits if_splits option.splits)

lemma shape_leaf_step: "leaf_step l op t = Inr (t', fs) \<Longrightarrow> tree_shape t' = tree_shape t"
  by (cases op)
    (auto simp: leaf_step_defs Let_def shape_upd_leaf split: prod.splits if_splits option.splits)

lemma shape_get_step: "get_step l op t = Inr (t', fs) \<Longrightarrow> tree_shape t' = tree_shape t"
  by (cases op)
    (auto simp: get_step_defs Let_def shape_upd_leaf split: prod.splits if_splits option.splits)

lemma shape_frame_step: "frame_step f t = Inr (t', fs) \<Longrightarrow> tree_shape t' = tree_shape t"
  by (cases f)
    (auto simp: Tree_roundRobin_def Let_def shape_node_step shape_leaf_step shape_get_step split: if_splits)

section \<open>Well-formed trees and frames\<close>

lemma pop_idle_list_all:
  "pop_idle who who cs = (c, rest) \<Longrightarrow> list_all P cs \<Longrightarrow> list_all P rest"
  by (drule pop_idle_cases) (auto simp: list_all_iff dest: in_set_dropD)

lemma idle_node_step:
  assumes "node_step n op t = Inr (t', fs)" "tree_wf t" "n < tr_nodeCount t" "node_op_ok t n op"
    and "m < tr_nodeCount t"
  shows "list_all (child_of t m) (ns_idleChildren (tr_node t' m))"
proof -
  note idle = tree_wf_idle [OF assms(2)]
  show ?thesis
    using assms(1,3-5) idle [of n] idle [of m]
    by (cases op)
      (auto simp: node_step_defs Let_def list_all_iff split: prod.splits if_splits option.splits
        dest!: pop_idle_cases in_set_dropD dest: notin_set_remove1)
qed

lemma frames_node_step:
  assumes "node_step n op t = Inr (t', fs)" "tree_wf t" "n < tr_nodeCount t" "node_op_ok t n op"
  shows "list_all (frame_ok t) fs"
  using assms(1,3-4) tree_wf_parent [OF assms(2,3)] tree_wf_idle [OF assms(2,3)] tree_wf_children [OF assms(2,3)]
  by (cases op)
    (auto simp: node_step_defs Let_def list_all_iff split: prod.splits if_splits option.splits sched_ref.splits
      intro!: addTaskBatch_ok updateQueueThreshold_ok dest!: pop_idle_cases simp: sched_ok_def)

lemma frames_leaf_step:
  assumes "leaf_step l op t = Inr (t', fs)" "tree_wf t" "l < leafCount t" "leaf_op_ok t l op"
  shows "list_all (frame_ok t) fs"
  using assms(1,3-4) tree_wf_leaf_parent [OF assms(2,3)]
  by (cases op)
    (auto simp: leaf_step_defs Let_def sched_ok_def split: prod.splits if_splits option.splits)

lemma frames_get_step:
  assumes "get_step l op t = Inr (t', fs)" "tree_wf t" "l < leafCount t"
  shows "list_all (frame_ok t) fs"
  using assms(1,3) tree_wf_leaf_parent [OF assms(2,3)]
  by (cases op)
    (auto simp: get_step_defs found_def Let_def split: prod.splits if_splits option.splits)

lemma leaf_step_frame:
  "leaf_step l op t = Inr (t', fs) \<Longrightarrow> tr_node t' = tr_node t \<and> tr_schedRRCounter t' = tr_schedRRCounter t"
  by (cases op) (auto simp: leaf_step_defs Let_def split: prod.splits if_splits option.splits)

lemma get_step_frame:
  "get_step l op t = Inr (t', fs) \<Longrightarrow> tr_node t' = tr_node t \<and> tr_schedRRCounter t' = tr_schedRRCounter t"
  by (cases op) (auto simp: get_step_defs Let_def split: prod.splits if_splits option.splits)

lemma node_step_frame:
  "node_step n op t = Inr (t', fs) \<Longrightarrow> tr_leaf t' = tr_leaf t \<and> tr_schedRRCounter t' = tr_schedRRCounter t"
  by (cases op) (auto simp: node_step_defs Let_def split: prod.splits if_splits option.splits)

lemma frame_step_ok:
  assumes "frame_step f t = Inr (t', fs)" "tree_wf t" "frame_ok t f"
  shows "tree_wf t' \<and> list_all (frame_ok t') fs"
proof -
  note shape = shape_frame_step [OF assms(1)]
  have rr: "leafCount t = 0 \<or> tr_schedRRCounter t < leafCount t"
    using assms(2) by (simp add: tree_wf_def)
  have "tree_wf t'"
  proof (rule tree_wf_step [OF assms(2) shape])
    show "list_all (child_of t n) (ns_idleChildren (tr_node t' n))" if "n < tr_nodeCount t" for n
      using assms that tree_wf_idle [OF assms(2) that]
      by (cases f) (auto simp: idle_node_step Tree_roundRobin_def Let_def
          dest: leaf_step_frame get_step_frame split: if_splits)
    show "leafCount t = 0 \<or> tr_schedRRCounter t' < leafCount t"
      using assms(1) rr
      by (cases f) (auto simp: Tree_roundRobin_def Let_def leafCount_def
          dest: node_step_frame leaf_step_frame get_step_frame split: if_splits)
  qed
  moreover have "list_all (frame_ok t) fs"
    using assms rr frames_node_step frames_leaf_step frames_get_step
    by (cases f) (auto simp: Tree_roundRobin_def Let_def leafCount_def split: if_splits)
  ultimately show ?thesis
    by (simp add: frame_ok_shape [OF shape] list_all_iff)
qed

text \<open>
  The assertions that a step can violate: those on the state of the caller's CPU when a task is added,
  the one on the number of enabled children, and those of the thread manager when it resumes a thread.
\<close>

lemma frame_step_errors:
  assumes "frame_step f t = Inl e" "tree_wf t" "frame_ok t f"
  shows "(\<exists>l task. f = InLeaf l (L_addTask task True) \<and> e \<in> {AssertFailed ''!_idle'', AssertFailed ''_running''}) \<or>
    (\<exists>n. f = InNode n N_disableChild \<and> e = AssertFailed ''_enabledChildren > 0'') \<or>
    (\<exists>l. f = InLeaf l L_resume \<and> resumeIdle (ls_computePlace (tr_leaf t l)) False (tr_world t) = Inl e) \<or>
    (\<exists>task. f = T_addReadyTask task \<and> leafCount t = 0)"
proof (cases f)
  case (InNode n op)
  with assms(1,3) show ?thesis
    by (cases op) (auto simp: node_step_defs Let_def assert_that_def split: prod.splits if_splits option.splits)
next
  case (InLeaf l op)
  with assms(1,3) show ?thesis
    by (cases op) (auto simp: leaf_step_defs Let_def assert_that_def result_bind_def leaf_parent_def
        split: prod.splits if_splits option.splits sum.splits)
next
  case (InGet l op)
  with assms(1) show ?thesis
    by (cases op) (auto simp: get_step_defs Let_def split: prod.splits if_splits option.splits)
qed (use assms(1) in \<open>auto simp: Tree_roundRobin_def Let_def leafCount_def split: if_splits\<close>)

section \<open>Tasks\<close>

definition node_tasks :: "tree \<Rightarrow> nat \<Rightarrow> task_ref multiset" where
  "node_tasks t n = mset (ns_queue (tr_node t n))"

definition leaf_tasks :: "tree \<Rightarrow> nat \<Rightarrow> task_ref multiset" where
  "leaf_tasks t l = mset (ls_queue (tr_leaf t l)) + mset_opt (ls_pollingSlot (tr_leaf t l))"

definition tree_tasks :: "tree \<Rightarrow> task_ref multiset" where
  "tree_tasks t = (\<Sum>n<tr_nodeCount t. node_tasks t n) + (\<Sum>l<leafCount t. leaf_tasks t l)"

fun node_op_tasks :: "node_op \<Rightarrow> task_ref multiset" where
  "node_op_tasks (N_addTaskBatch who b h) = mset b"
| "node_op_tasks op = {#}"

fun leaf_op_tasks :: "leaf_op \<Rightarrow> task_ref multiset" where
  "leaf_op_tasks (L_addTask task h) = {#task#}"
| "leaf_op_tasks (L_addTask_slot task) = {#task#}"
| "leaf_op_tasks (L_enqueue task) = {#task#}"
| "leaf_op_tasks (L_addTaskBatch who b) = mset b"
| "leaf_op_tasks (L_enqueueBatch b) = mset b"
| "leaf_op_tasks (L_disable_slot b) = mset b"
| "leaf_op_tasks op = {#}"

fun frame_tasks :: "frame \<Rightarrow> task_ref multiset" where
  "frame_tasks (InNode n op) = node_op_tasks op"
| "frame_tasks (InLeaf l op) = leaf_op_tasks op"
| "frame_tasks (InGet l op) = {#}"
| "frame_tasks (T_addReadyTask task) = {#task#}"
| "frame_tasks (Return r) = mset_opt r"

definition stack_tasks :: "frame list \<Rightarrow> task_ref multiset" where
  "stack_tasks fs = sum_list (map frame_tasks fs)"

lemma stack_tasks_simps [simp]:
  "stack_tasks [] = {#}"
  "stack_tasks (f # fs) = frame_tasks f + stack_tasks fs"
  "stack_tasks (fs @ gs) = stack_tasks fs + stack_tasks gs"
  by (simp_all add: stack_tasks_def)

lemma frame_tasks_dispatch [simp]:
  "frame_tasks (addTaskBatch c n b h) = mset b"
  "frame_tasks (updateQueueThreshold c) = {#}"
  "stack_tasks (map updateQueueThreshold cs) = {#}"
proof -
  show *: "frame_tasks (updateQueueThreshold c) = {#}" for c
    by (simp add: updateQueueThreshold_def split: sched_ref.splits)
  show "stack_tasks (map updateQueueThreshold cs) = {#}"
    by (induction cs) (simp_all add: *)
qed (simp add: addTaskBatch_def split: sched_ref.splits)

lemma sum_upd_lessThan:
  fixes g :: "nat \<Rightarrow> 'a multiset"
  assumes "n < (k :: nat)" "\<And>m. m \<noteq> n \<Longrightarrow> g' m = g m"
  shows "(\<Sum>m<k. g' m) + g n = (\<Sum>m<k. g m) + g' n"
proof -
  have "(\<Sum>m \<in> {..<k} - {n}. g' m) = (\<Sum>m \<in> {..<k} - {n}. g m)"
    using assms(2) by (intro sum.cong) auto
  with assms(1) show ?thesis
    by (simp add: sum.remove [of "{..<k}" n])
qed

text \<open>A change of one node or leaf that adds or removes tasks.\<close>

lemma tree_tasks_upd_node:
  assumes "n < tr_nodeCount t"
  shows "tree_tasks (upd_node n f t) + mset (ns_queue (tr_node t n)) =
    tree_tasks t + mset (ns_queue (f (tr_node t n)))"
  using sum_upd_lessThan [OF assms, of "node_tasks (upd_node n f t)" "node_tasks t"]
  by (simp add: tree_tasks_def node_tasks_def leaf_tasks_def leafCount_def ac_simps)

lemma tree_tasks_upd_leaf:
  assumes "l < leafCount t"
  shows "tree_tasks (upd_leaf l f t) + leaf_tasks t l =
    tree_tasks t + (mset (ls_queue (f (tr_leaf t l))) + mset_opt (ls_pollingSlot (f (tr_leaf t l))))"
  using sum_upd_lessThan [OF assms, of "leaf_tasks (upd_leaf l f t)" "leaf_tasks t"]
  by (simp add: tree_tasks_def node_tasks_def leaf_tasks_def leafCount_def ac_simps)

lemma tree_tasks_other [simp]:
  "tree_tasks (t\<lparr>tr_world := w\<rparr>) = tree_tasks t"
  "tree_tasks (t\<lparr>tr_schedRRCounter := i\<rparr>) = tree_tasks t"
  by (simp_all add: tree_tasks_def node_tasks_def leaf_tasks_def leafCount_def)

lemma mset_exchange:
  fixes a b x y c d :: "'a multiset"
  assumes "a + x = b + y" "y + c = x + d"
  shows "a + c = b + d"
proof -
  have "(a + c) + (x + y) = (a + x) + (y + c)" by (simp only: ac_simps)
  also have "\<dots> = (b + d) + (x + y)" unfolding assms by (simp only: ac_simps)
  finally show ?thesis by (rule add_right_imp_eq)
qed

lemma node_moves:
  assumes "n < tr_nodeCount t"
    and "mset (ns_queue (f (tr_node t n))) + out = mset (ns_queue (tr_node t n)) + into"
  shows "tree_tasks (upd_node n f t) + out = tree_tasks t + into"
  using mset_exchange [OF tree_tasks_upd_node [OF assms(1)]] assms(2) by simp

lemma leaf_moves:
  assumes "l < leafCount t"
    and "mset (ls_queue (f (tr_leaf t l))) + mset_opt (ls_pollingSlot (f (tr_leaf t l))) + out =
      mset (ls_queue (tr_leaf t l)) + mset_opt (ls_pollingSlot (tr_leaf t l)) + into"
  shows "tree_tasks (upd_leaf l f t) + out = tree_tasks t + into"
  using mset_exchange [OF tree_tasks_upd_leaf [OF assms(1)]] assms(2) by (simp add: leaf_tasks_def)

lemmas node_take = node_moves [where into = "{#}", simplified]
lemmas node_put = node_moves [where out = "{#}", simplified]
lemmas node_keeps = node_moves [where into = "{#}" and out = "{#}", simplified]
lemmas leaf_take_moves = leaf_moves [where into = "{#}", simplified]
lemmas leaf_put = leaf_moves [where out = "{#}", simplified]
lemmas leaf_put_one = leaf_moves [where out = "{#}" and into = "{#x#}" for x, simplified]
lemmas leaf_keeps = leaf_moves [where into = "{#}" and out = "{#}", simplified]

lemma upd_node_twice [simp]: "upd_node n f (upd_node n g t) = upd_node n (\<lambda>s. f (g s)) t"
  by (simp add: upd_node_def)

lemma node_step_tasks:
  assumes "node_step n op t = Inr (t', fs)" "n < tr_nodeCount t"
  shows "tree_tasks t' + stack_tasks fs = tree_tasks t + node_op_tasks op"
  using assms
  by (cases op)
    (auto simp: node_step_defs Let_def node_keeps
      split: prod.splits if_splits option.splits sched_ref.splits
      intro!: node_put node_take dest!: queue_addTaskBatch_mset queue_getTaskBatch_mset)

lemma leaf_step_tasks:
  assumes "leaf_step l op t = Inr (t', fs)" "l < leafCount t" "leaf_op_ok t l op"
  shows "tree_tasks t' + stack_tasks fs = tree_tasks t + leaf_op_tasks op"
proof (cases op)
  case (L_addTaskBatch who b)
  have "b \<noteq> [] \<Longrightarrow> mset (butlast b) + {#last b#} = mset b"
    by (cases b rule: rev_cases) auto
  with L_addTaskBatch assms show ?thesis
    by (auto simp: Leaf_addTaskBatch_def split: option.splits if_splits intro!: leaf_moves)
next
  case (L_disable_slot b)
  with assms show ?thesis
    by (auto simp: Leaf_disable_slot_def Let_def split: option.splits if_splits intro!: leaf_moves leaf_keeps)
qed (use assms in \<open>auto simp: leaf_step_defs Let_def leaf_keeps
       split: prod.splits if_splits option.splits intro!: leaf_put leaf_put_one leaf_take_moves
       dest!: queue_addTaskBatch_mset queue_getTaskBatch_mset queue_addTask_mset\<close>)

lemma get_step_tasks:
  assumes "get_step l op t = Inr (t', fs)" "l < leafCount t"
  shows "tree_tasks t' + stack_tasks fs = tree_tasks t"
  using assms
  by (cases op)
    (auto simp: get_step_defs found_def Let_def leaf_keeps
      split: prod.splits if_splits option.splits intro!: leaf_take_moves dest!: queue_getTask_mset)

lemma frame_step_tasks:
  assumes "frame_step f t = Inr (t', fs)" "frame_ok t f"
  shows "tree_tasks t' + stack_tasks fs + mset (frame_result f) = tree_tasks t + frame_tasks f"
proof (cases f)
  case (Return r)
  with assms show ?thesis by (cases r) auto
qed (use assms node_step_tasks leaf_step_tasks get_step_tasks in
      \<open>auto simp: Tree_roundRobin_def Let_def split: if_splits\<close>)

section \<open>Waking idle CPUs\<close>

text \<open>A task waits in the polling slot of a leaf that is idle and whose CPU has not been resumed.\<close>

definition needs_wakeup :: "tree \<Rightarrow> nat \<Rightarrow> bool" where
  "needs_wakeup t l \<longleftrightarrow>
     ls_idle (tr_leaf t l) \<and> ls_pollingSlot (tr_leaf t l) \<noteq> None \<and> \<not> ls_woken (tr_leaf t l)"

lemma frame_step_wakeup:
  assumes "frame_step f t = Inr (t', fs)" "needs_wakeup t' l"
  shows "needs_wakeup t l \<and> f \<noteq> InLeaf l L_resume \<or> InLeaf l L_resume \<in> set fs"
proof (cases f)
  case (InNode n op)
  with assms show ?thesis
    using node_step_frame [of n op t t' fs] by (simp add: needs_wakeup_def)
next
  case (InLeaf l' op)
  with assms show ?thesis
    by (cases op)
      (auto simp: leaf_step_defs needs_wakeup_def Let_def split: prod.splits if_splits option.splits)
next
  case (InGet l' op)
  with assms show ?thesis
    by (cases op)
      (auto simp: get_step_defs found_def needs_wakeup_def Let_def split: prod.splits if_splits option.splits)
qed (use assms in \<open>auto simp: Tree_roundRobin_def needs_wakeup_def Let_def split: if_splits\<close>)

section \<open>Termination\<close>

text \<open>
  A thread that runs alone makes progress in a lexicographic measure. First come the requests for tasks
  that it may still make on its way to the top (\<open>frame_requests\<close>): only these put children on the lists
  of idle children. Then come the entries of those lists: a batch is passed down only against an entry.
  Then comes the multiset of the ranks of its frames: with no entry taken, a step replaces a frame by
  frames of lower ranks, since an overflow goes up, an update of the threshold goes down, and an update
  causes additions that cause no further update. Last is the distance of the counter from the next CPU.
\<close>

fun node_requests :: "nat \<Rightarrow> node_op \<Rightarrow> nat" where
  "node_requests n (N_getTask c f) = 2 * n + 2"
| "node_requests n (N_getTask_take c f e) = 2 * n + 1"
| "node_requests n op = 0"

fun get_requests :: "nat \<Rightarrow> leaf_get \<Rightarrow> nat" where
  "get_requests k (L_getTask d) = 4 * k"
| "get_requests k (L_getTask_unidle d) = 4 * k"
| "get_requests k (L_getTask_slot d) = 4 * k"
| "get_requests k (L_getTask_queue d) = 4 * k"
| "get_requests k (L_poll d i) = 2 * k"
| "get_requests k L_timeout = 2 * k"
| "get_requests k op = 0"

fun frame_requests :: "tree \<Rightarrow> frame \<Rightarrow> nat" where
  "frame_requests t (InNode n op) = node_requests n op"
| "frame_requests t (InGet l op) = get_requests (tr_nodeCount t) op"
| "frame_requests t f = 0"

definition stack_requests :: "tree \<Rightarrow> frame list \<Rightarrow> nat" where
  "stack_requests t fs = sum_list (map (frame_requests t) fs)"

definition idle_entries :: "tree \<Rightarrow> nat" where
  "idle_entries t = (\<Sum>n<tr_nodeCount t. length (ns_idleChildren (tr_node t n)))"

text \<open>The ranks at the borders of the groups, for \<open>k\<close> nodes.\<close>

definition rank_update :: "nat \<Rightarrow> nat \<Rightarrow> nat" where
  "rank_update k m = 20 + 4 * k + (k - m) * (k + 5)"

definition rank_raise :: "nat \<Rightarrow> nat" where
  "rank_raise k = rank_update k 0 + k + 2"

definition rank_ask :: "nat \<Rightarrow> nat" where
  "rank_ask k = rank_raise k + 3 * k + 20"

definition rank_top :: "tree \<Rightarrow> nat" where
  "rank_top t = rank_ask (tr_nodeCount t) + 2 * tr_nodeCount t + tr_pollingIterations t + 5"

fun node_rank :: "tree \<Rightarrow> nat \<Rightarrow> node_op \<Rightarrow> nat" where
  "node_rank t n (N_overflow_take e h) = (if h then rank_raise (tr_nodeCount t) + 1 + 3 * n else 10 + 3 * n)"
| "node_rank t n (N_handleQueueOverflow h) = (if h then rank_raise (tr_nodeCount t) + 2 + 3 * n else 11 + 3 * n)"
| "node_rank t n (N_addTaskBatch who b h) = (if h then rank_raise (tr_nodeCount t) + 3 + 3 * n else 12 + 3 * n)"
| "node_rank t n (N_setRebalance b) = 1"
| "node_rank t n (N_setThreshold q) = 1"
| "node_rank t n N_enableChild = 1"
| "node_rank t n N_decreaseQueueThreshold = rank_raise (tr_nodeCount t)"
| "node_rank t n N_increaseQueueThreshold = rank_raise (tr_nodeCount t)"
| "node_rank t n (N_update_compare q) = rank_update (tr_nodeCount t) n"
| "node_rank t n (N_getQueueThreshold who) =
     (case who of NodeRef m \<Rightarrow> rank_update (tr_nodeCount t) m + 1 + n | LeafRef l \<Rightarrow> 13 + 3 * tr_nodeCount t + n)"
| "node_rank t n N_updateQueueThreshold = rank_update (tr_nodeCount t) n + 1 + tr_nodeCount t"
| "node_rank t n (N_rebalance_compare k) = rank_raise (tr_nodeCount t) + 3 * tr_nodeCount t + 10"
| "node_rank t n N_rebalance_size = rank_raise (tr_nodeCount t) + 3 * tr_nodeCount t + 11"
| "node_rank t n N_rebalance_cas = rank_raise (tr_nodeCount t) + 3 * tr_nodeCount t + 12"
| "node_rank t n N_rebalance = rank_raise (tr_nodeCount t) + 3 * tr_nodeCount t + 13"
| "node_rank t n (N_getTask_take c f e) = rank_ask (tr_nodeCount t) + 2 * n"
| "node_rank t n (N_getTask c f) = rank_ask (tr_nodeCount t) + 2 * n + 1"
| "node_rank t n (N_unidleChild c) = 3 + n"
| "node_rank t n N_disable_take = rank_top t + 2 * n"
| "node_rank t n N_disableChild = rank_top t + 2 * n + 1"

fun leaf_rank :: "tree \<Rightarrow> leaf_op \<Rightarrow> nat" where
  "leaf_rank t (L_addTaskBatch who b) = 2"
| "leaf_rank t (L_take e h) = (if h then rank_raise (tr_nodeCount t) + 3 * tr_nodeCount t + 1 else 10 + 3 * tr_nodeCount t)"
| "leaf_rank t (L_update_compare q) = 10 + 3 * tr_nodeCount t"
| "leaf_rank t (L_update_running q) = 11 + 3 * tr_nodeCount t"
| "leaf_rank t (L_update_rebalance q) = 12 + 3 * tr_nodeCount t"
| "leaf_rank t L_updateQueueThreshold = 13 + 4 * tr_nodeCount t"
| "leaf_rank t L_handleQueueOverflow = rank_raise (tr_nodeCount t) + 3 * tr_nodeCount t + 2"
| "leaf_rank t (L_enqueue_compare e) = rank_raise (tr_nodeCount t) + 3 * tr_nodeCount t + 3"
| "leaf_rank t (L_enqueue task) = rank_raise (tr_nodeCount t) + 3 * tr_nodeCount t + 4"
| "leaf_rank t (L_addTask_slot task) = rank_raise (tr_nodeCount t) + 3 * tr_nodeCount t + 5"
| "leaf_rank t (L_addTask task h) = rank_raise (tr_nodeCount t) + 3 * tr_nodeCount t + 6"
| "leaf_rank t (L_disable_slot b) = rank_top t + 2 * tr_nodeCount t + 1"
| "leaf_rank t L_disable_take = rank_top t + 2 * tr_nodeCount t + 2"
| "leaf_rank t L_disable = rank_top t + 2 * tr_nodeCount t + 3"
| "leaf_rank t L_enable = 2"
| "leaf_rank t op = 1"

fun get_rank :: "tree \<Rightarrow> leaf_get \<Rightarrow> nat" where
  "get_rank t (L_rebalance_compare e) = rank_raise (tr_nodeCount t) + 3 * tr_nodeCount t + 10"
| "get_rank t L_rebalance_size = rank_raise (tr_nodeCount t) + 3 * tr_nodeCount t + 11"
| "get_rank t L_rebalance_cas = rank_raise (tr_nodeCount t) + 3 * tr_nodeCount t + 12"
| "get_rank t L_rebalance = rank_raise (tr_nodeCount t) + 3 * tr_nodeCount t + 13"
| "get_rank t L_final = rank_ask (tr_nodeCount t) + 2 * tr_nodeCount t"
| "get_rank t L_timeout = rank_ask (tr_nodeCount t) + 2 * tr_nodeCount t + 1"
| "get_rank t (L_poll d i) = rank_ask (tr_nodeCount t) + 2 * tr_nodeCount t + 2 + (tr_pollingIterations t - i)"
| "get_rank t (L_getTask_queue d) = rank_top t"
| "get_rank t (L_getTask_slot d) = rank_top t + 1"
| "get_rank t (L_getTask_unidle d) = rank_top t + 2"
| "get_rank t (L_getTask d) = rank_top t + 3"

fun frame_rank :: "tree \<Rightarrow> frame \<Rightarrow> nat" where
  "frame_rank t (InNode n op) = node_rank t n op"
| "frame_rank t (InLeaf l op) = leaf_rank t op"
| "frame_rank t (InGet l op) = get_rank t op"
| "frame_rank t (T_addReadyTask task) = rank_raise (tr_nodeCount t) + 3 * tr_nodeCount t + 7"
| "frame_rank t (Return r) = 0"

lemma rank_update_less:
  assumes "m < m'" "m' < k"
  shows "rank_update k m' + k + 1 < rank_update k m"
proof -
  have "k - m \<ge> Suc (k - m')" using assms by simp
  then have "Suc (k - m') * (k + 5) \<le> (k - m) * (k + 5)" by (rule mult_le_mono1)
  then show ?thesis by (simp add: rank_update_def)
qed

lemma rank_update_bounds:
  "20 + 4 * k \<le> rank_update k m"
  "rank_update k m + k + 1 < rank_raise k"
proof -
  have "(k - m) * (k + 5) \<le> k * (k + 5)" by (intro mult_le_mono1) simp
  moreover have "rank_raise k = 20 + 4 * k + k * (k + 5) + k + 2"
    by (simp add: rank_raise_def rank_update_def)
  ultimately show "rank_update k m + k + 1 < rank_raise k"
    unfolding rank_update_def by linarith
qed (simp add: rank_update_def)

lemma rank_dispatch:
  assumes "child_of t n c"
  shows "frame_rank t (updateQueueThreshold c) < rank_update (tr_nodeCount t) n"
    and "frame_rank t (addTaskBatch c n b True) < rank_raise (tr_nodeCount t) + 3 * tr_nodeCount t + 3"
  using assms rank_update_less [of n _ "tr_nodeCount t"] rank_update_bounds(1) [of "tr_nodeCount t" n]
  by (auto simp: updateQueueThreshold_def addTaskBatch_def child_of_def split: sched_ref.splits)

lemma rank_shape:
  assumes "tree_shape t' = tree_shape t"
  shows "frame_rank t' f = frame_rank t f" "frame_requests t' f = frame_requests t f"
proof -
  note eq = tree_shape_eqD [OF assms]
  have top: "rank_top t' = rank_top t" by (simp add: rank_top_def eq)
  have "node_rank t' n op = node_rank t n op" for n op
    by (cases op) (simp_all add: eq top split: sched_ref.split)
  moreover have "leaf_rank t' op = leaf_rank t op" for op by (cases op) (simp_all add: eq top)
  moreover have "get_rank t' op = get_rank t op" for op by (cases op) (simp_all add: eq top)
  ultimately show "frame_rank t' f = frame_rank t f" by (cases f) (simp_all add: eq)
  show "frame_requests t' f = frame_requests t f" by (cases f) (simp_all add: eq)
qed

lemma idle_entries_upd:
  assumes "n < tr_nodeCount t"
  shows "idle_entries (upd_node n f t) + length (ns_idleChildren (tr_node t n)) =
    idle_entries t + length (ns_idleChildren (f (tr_node t n)))"
proof -
  let ?g = "\<lambda>t m. length (ns_idleChildren (tr_node t m))"
  have "(\<Sum>m \<in> {..<tr_nodeCount t} - {n}. ?g (upd_node n f t) m) = (\<Sum>m \<in> {..<tr_nodeCount t} - {n}. ?g t m)"
    by (intro sum.cong) auto
  with assms show ?thesis
    by (simp add: idle_entries_def sum.remove [of "{..<tr_nodeCount t}" n])
qed

lemma idle_entries_keeps:
  "n < tr_nodeCount t \<Longrightarrow> length (ns_idleChildren (f (tr_node t n))) = length (ns_idleChildren (tr_node t n)) \<Longrightarrow>
   idle_entries (upd_node n f t) = idle_entries t"
  using idle_entries_upd [of n t f] by simp

lemma idle_entries_less:
  "n < tr_nodeCount t \<Longrightarrow> length (ns_idleChildren (f (tr_node t n))) < length (ns_idleChildren (tr_node t n)) \<Longrightarrow>
   idle_entries (upd_node n f t) < idle_entries t"
  using idle_entries_upd [of n t f] by simp

lemma idle_entries_le:
  "n < tr_nodeCount t \<Longrightarrow> length (ns_idleChildren (f (tr_node t n))) \<le> length (ns_idleChildren (tr_node t n)) \<Longrightarrow>
   idle_entries (upd_node n f t) \<le> idle_entries t"
  using idle_entries_upd [of n t f] by simp

lemma stack_requests_simps [simp]:
  "stack_requests t [] = 0"
  "stack_requests t (f # fs) = frame_requests t f + stack_requests t fs"
  "stack_requests t (fs @ gs) = stack_requests t fs + stack_requests t gs"
  by (simp_all add: stack_requests_def)

lemma requests_dispatch [simp]:
  "frame_requests t (addTaskBatch c n b h) = 0"
  "frame_requests t (updateQueueThreshold c) = 0"
  "stack_requests t (map updateQueueThreshold cs) = 0"
proof -
  show *: "frame_requests t (updateQueueThreshold c) = 0" for c
    by (simp add: updateQueueThreshold_def split: sched_ref.splits)
  show "stack_requests t (map updateQueueThreshold cs) = 0"
    by (induction cs) (simp_all add: *)
qed (simp add: addTaskBatch_def split: sched_ref.splits)

text \<open>A step makes progress: fewer requests, or no more requests and fewer idle entries, or neither more of one nor of the other and lower ranks.\<close>

definition progress :: "tree \<Rightarrow> frame \<Rightarrow> tree \<Rightarrow> frame list \<Rightarrow> bool" where
  "progress t f t' fs \<longleftrightarrow>
     stack_requests t fs < frame_requests t f \<or>
     stack_requests t fs \<le> frame_requests t f \<and> idle_entries t' < idle_entries t \<or>
     stack_requests t fs \<le> frame_requests t f \<and> idle_entries t' \<le> idle_entries t \<and>
       (\<forall>g \<in> set fs. frame_rank t g < frame_rank t f)"

lemma pop_idle_length:
  "pop_idle who who cs = (c, rest) \<Longrightarrow> length rest < length cs \<or> c = who \<and> cs = [] \<and> rest = []"
  by (drule pop_idle_cases) (cases cs; auto)

lemma node_step_progress:
  assumes "node_step n op t = Inr (t', fs)" "tree_wf t" "n < tr_nodeCount t" "node_op_ok t n op"
  shows "progress t (InNode n op) t' fs"
proof (cases op)
  case (N_addTaskBatch who b h)
  show ?thesis
  proof (cases "ns_idleChildren (tr_node t n) = []")
    case True
    with N_addTaskBatch assms(1,3) show ?thesis
      by (auto simp: progress_def Node_addTaskBatch_def Let_def idle_entries_keeps split: prod.splits if_splits)
  next
    case False
    obtain c rest where pop: "pop_idle who who (ns_idleChildren (tr_node t n)) = (c, rest)"
      by (cases "pop_idle who who (ns_idleChildren (tr_node t n))")
    then have "length rest < length (ns_idleChildren (tr_node t n))"
      using pop_idle_length False by blast
    with N_addTaskBatch pop assms(1,3) show ?thesis
      by (auto simp: progress_def Node_addTaskBatch_def Let_def idle_entries_less split: prod.splits if_splits)
  qed
next
  case (N_getTask_take c f e)
  with assms(1,3,4) tree_wf_parent [OF assms(2,3)] rank_dispatch(2) [of t n c] show ?thesis
    by (auto simp: progress_def Node_getTask_take_def Let_def idle_entries_keeps rank_ask_def
        split: prod.splits if_splits option.splits)
next
  case (N_unidleChild c)
  with assms(1,3) tree_wf_parent [OF assms(2,3)] show ?thesis
    by (auto simp: progress_def Node_unidleChild_def length_remove1 intro!: idle_entries_le split: option.splits)
next
  case (N_updateQueueThreshold)
  with assms(1,3) tree_wf_parent [OF assms(2,3)] rank_dispatch(1) [OF tree_wf_children [OF assms(2,3)]] show ?thesis
    by (auto simp: progress_def Node_updateQueueThreshold_def less_Suc_eq trans_less_add1 split: option.splits)
next
  case (N_update_compare q)
  with assms(1,3) rank_dispatch(1) [OF tree_wf_children [OF assms(2,3)]] rank_update_bounds(1) [of "tr_nodeCount t" n]
  show ?thesis
    by (auto simp: progress_def Node_update_compare_def split: option.splits if_splits)
next
  case (N_getQueueThreshold who)
  with assms(1,3) tree_wf_parent [OF assms(2,3)] show ?thesis
    by (auto simp: progress_def Node_getQueueThreshold_def split: option.splits sched_ref.splits)
qed (use assms(1,3) tree_wf_parent [OF assms(2,3)] rank_update_bounds [of "tr_nodeCount t" n] in
     \<open>auto simp: progress_def node_step_defs Let_def idle_entries_keeps rank_ask_def rank_top_def
        split: prod.splits if_splits option.splits\<close>)

lemma idle_entries_cong: "tr_node t' = tr_node t \<Longrightarrow> tr_nodeCount t' = tr_nodeCount t \<Longrightarrow> idle_entries t' = idle_entries t"
  by (simp add: idle_entries_def)

lemma leaf_step_progress:
  assumes "leaf_step l op t = Inr (t', fs)" "tree_wf t" "l < leafCount t"
  shows "progress t (InLeaf l op) t' fs"
proof -
  have "idle_entries t' = idle_entries t"
    using leaf_step_frame [OF assms(1)] tree_shape_eqD(1) [OF shape_leaf_step [OF assms(1)]]
    by (intro idle_entries_cong) auto
  moreover have "stack_requests t fs = 0"
    using assms(1)
    by (cases op) (auto simp: leaf_step_defs Let_def split: prod.splits if_splits option.splits)
  moreover have "\<forall>g \<in> set fs. frame_rank t g < leaf_rank t op"
    using assms(1) tree_wf_leaf_parent [OF assms(2,3)]
    by (cases op) (auto simp: leaf_step_defs rank_top_def rank_ask_def Let_def
        split: prod.splits if_splits option.splits)
  ultimately show ?thesis by (simp add: progress_def)
qed

lemma get_step_progress:
  assumes "get_step l op t = Inr (t', fs)" "tree_wf t" "l < leafCount t"
  shows "progress t (InGet l op) t' fs"
proof -
  note parent = tree_wf_leaf_parent [OF assms(2,3)]
  have "idle_entries t' = idle_entries t"
    using get_step_frame [OF assms(1)] tree_shape_eqD(1) [OF shape_get_step [OF assms(1)]]
    by (intro idle_entries_cong) auto
  moreover have "stack_requests t fs \<le> get_requests (tr_nodeCount t) op"
    using assms(1) parent
    by (cases op) (auto simp: get_step_defs found_def Let_def split: prod.splits if_splits option.splits)
  moreover have "\<forall>g \<in> set fs. frame_rank t g < get_rank t op"
    using assms(1) parent
    by (cases op) (auto simp: get_step_defs found_def rank_top_def rank_ask_def Let_def
        split: prod.splits if_splits option.splits)
  ultimately show ?thesis by (simp add: progress_def)
qed

text \<open>The distance of the counter of the round robin from the next position with a CPU.\<close>

definition rr_distance :: "tree \<Rightarrow> nat" where
  "rr_distance t = (LEAST d. tr_CPUScheduler t ! ((tr_schedRRCounter t + d) mod leafCount t))"

lemma rr_distance_step:
  assumes "True \<in> set (tr_CPUScheduler t)" "tr_schedRRCounter t < leafCount t"
    and "\<not> tr_CPUScheduler t ! tr_schedRRCounter t"
  shows "rr_distance (t\<lparr>tr_schedRRCounter := (tr_schedRRCounter t + 1) mod leafCount t\<rparr>) < rr_distance t"
proof -
  let ?P = "\<lambda>d. tr_CPUScheduler t ! ((tr_schedRRCounter t + d) mod leafCount t)"
  obtain i where i: "i < leafCount t" "tr_CPUScheduler t ! i"
    using assms(1) by (auto simp: in_set_conv_nth leafCount_def)
  have "?P (i + (leafCount t - tr_schedRRCounter t))"
    using i assms(2) by simp
  moreover have "\<not> ?P 0" using assms(2,3) by simp
  ultimately have "(LEAST d. ?P d) = Suc (LEAST d. ?P (Suc d))"
    by (rule Least_Suc)
  then show ?thesis
    by (simp add: rr_distance_def leafCount_def mod_add_left_eq [of "Suc _"] mod_simps)
qed

lemma frame_step_progress:
  assumes "frame_step f t = Inr (t', fs)" "tree_wf t" "frame_ok t f" "True \<in> set (tr_CPUScheduler t)"
  shows "progress t f t' fs \<or> (fs = [f] \<and> idle_entries t' = idle_entries t \<and> rr_distance t' < rr_distance t)"
proof (cases f)
  case (T_addReadyTask task)
  have "tr_schedRRCounter t < leafCount t"
    using assms(2,4) by (auto simp: tree_wf_def leafCount_def)
  with T_addReadyTask assms(1,4) rr_distance_step [OF assms(4)] show ?thesis
    by (auto simp: Tree_roundRobin_def Let_def progress_def leafCount_def idle_entries_def split: if_splits)
next
  case (Return r)
  with assms(1) show ?thesis by (simp add: progress_def)
qed (use assms node_step_progress leaf_step_progress get_step_progress in auto)

end
