(* ===== verification/N6_TreeSchedulerTheorems.thy ===== *)
theory N6_TreeSchedulerTheorems
  imports N6_TreeSchedulerProofs "HOL-Library.Multiset_Order"
begin

text \<open>
  Properties of the tree scheduler under every interleaving of the threads that use it: no task is lost
  or duplicated, a CPU that sleeps on a filled slot is resumed, every call returns; and two faults, a
  wake-up that is lost and a counter of enabled children that is not restored.
\<close>

section \<open>The tree that is built\<close>

text \<open>The CPU at a position of the list has that position as its virtual identifier and lies on a NUMA node.\<close>

definition cpus_ok :: "nat \<Rightarrow> world \<Rightarrow> bool" where
  "cpus_ok NUMANodeCount w \<longleftrightarrow>
     list_all (\<lambda>(i, cpu). case cpu of
                 None \<Rightarrow> True
               | Some c \<Rightarrow> cp_virtualCPUId (w_places w c) = i \<and>
                           (1 < NUMANodeCount \<longrightarrow> cp_NUMANodeId (w_places w c) < NUMANodeCount))
       (enumerate 0 (cm_cpus (w_cpum w)))"

definition build_ok :: "nat \<Rightarrow> tree \<Rightarrow> bool" where
  "build_ok k t \<longleftrightarrow> tree_wf t \<and> 0 < tr_nodeCount t \<and>
     (\<forall>n l. LeafRef l \<in> set (ns_children (tr_node t n)) \<longrightarrow> l < k) \<and>
     (\<forall>n. ns_idleChildren (tr_node t n) = [] \<and> ns_queue (tr_node t n) = []) \<and>
     (\<forall>l. ls_queue (tr_leaf t l) = [] \<and> ls_pollingSlot (tr_leaf t l) = None \<and> \<not> ls_idle (tr_leaf t l))"

lemma add_node_ok:
  assumes "build_ok 0 t"
  shows "build_ok 0 (add_node t) \<and> tr_nodeCount (add_node t) = Suc (tr_nodeCount t) \<and>
    tr_world (add_node t) = tr_world t \<and> leafCount (add_node t) = leafCount t \<and>
    tr_CPUScheduler (add_node t) = tr_CPUScheduler t"
proof -
  have old: "child_of (add_node t) n c" if "child_of t n c" for n c
    using that
    by (auto simp: add_node_def setChild_def child_of_def leafCount_def Let_def NodeScheduler_new_def
        split: sched_ref.splits)
  have new: "child_of (add_node t) 0 (NodeRef (tr_nodeCount t))"
    using assms by (simp add: add_node_def setChild_def child_of_def Let_def NodeScheduler_new_def build_ok_def)
  have nodes: "node_ok (add_node t) n" if "n < Suc (tr_nodeCount t)" for n
  proof (cases "n = tr_nodeCount t")
    case True
    then show ?thesis
      using assms by (simp add: node_ok_def add_node_def setChild_def Let_def NodeScheduler_new_def build_ok_def)
  next
    case False
    with that assms have "node_ok t n" by (simp add: build_ok_def tree_wf_def)
    with False assms have "node_ok (add_node t) n \<longleftrightarrow>
        list_all (child_of (add_node t) n) (ns_children (tr_node t n) @ (if n = 0 then [NodeRef (tr_nodeCount t)] else []))"
      by (auto simp: node_ok_def add_node_def setChild_def Let_def NodeScheduler_new_def build_ok_def split: option.splits)
    with \<open>node_ok t n\<close> old new show ?thesis
      by (auto simp: node_ok_def list_all_iff)
  qed
  have count: "tr_nodeCount (add_node t) = Suc (tr_nodeCount t)" "leafCount (add_node t) = leafCount t"
    by (simp_all add: add_node_def setChild_def Let_def leafCount_def)
  have "tree_wf (add_node t)"
    using assms nodes by (auto simp: tree_wf_def count build_ok_def less_Suc_eq)
      (auto simp: add_node_def setChild_def Let_def)
  with assms count show ?thesis
    by (auto simp: build_ok_def add_node_def setChild_def Let_def NodeScheduler_new_def)
qed

lemma add_nodes_ok:
  assumes "build_ok 0 t"
  shows "build_ok 0 ((add_node ^^ k) t) \<and> tr_nodeCount ((add_node ^^ k) t) = tr_nodeCount t + k \<and>
    tr_world ((add_node ^^ k) t) = tr_world t \<and> leafCount ((add_node ^^ k) t) = leafCount t \<and>
    tr_CPUScheduler ((add_node ^^ k) t) = tr_CPUScheduler t"
proof (induction k)
  case (Suc k)
  with add_node_ok [of "(add_node ^^ k) t"] show ?case by simp
qed (use assms in simp)

lemma add_leaf_ok:
  assumes "build_ok k t" "k < leafCount t" "cp_virtualCPUId (w_places (tr_world t) c) = k"
    and "parentOf (cp_NUMANodeId (w_places (tr_world t) c)) < tr_nodeCount t"
  shows "build_ok (Suc k) (add_leaf parentOf (Some c) t)"
proof -
  define p where "p = parentOf (cp_NUMANodeId (w_places (tr_world t) c))"
  let ?t = "add_leaf parentOf (Some c) t"
  have old: "child_of ?t n x" if "child_of t n x" "\<And>l. x = LeafRef l \<Longrightarrow> l < k" for n x
    using that assms(3)
    by (auto simp: add_leaf_def setChild_def child_of_def leafCount_def Let_def split: sched_ref.splits)
  have new: "child_of ?t p (LeafRef k)"
    using assms(2,3) by (simp add: add_leaf_def setChild_def child_of_def leafCount_def Let_def LeafScheduler_new_def p_def)
  have nodes: "node_ok ?t n" if "n < tr_nodeCount t" for n
  proof -
    have ok: "node_ok t n" using that assms(1) by (simp add: build_ok_def tree_wf_def)
    have kids: "child_of ?t n x" if "x \<in> set (ns_children (tr_node t n))" for x
      using ok that assms(1) by (intro old) (auto simp: node_ok_def list_all_iff build_ok_def)
    have eq: "node_ok ?t n \<longleftrightarrow>
        list_all (child_of ?t n) (ns_children (tr_node t n) @ (if n = p then [LeafRef k] else []))"
      using ok assms(1,3)
      by (auto simp: node_ok_def add_leaf_def setChild_def Let_def build_ok_def p_def split: option.splits)
    show ?thesis
      unfolding eq using kids new by (auto simp: list_all_iff)
  qed
  have "tree_wf ?t"
    using assms nodes
    by (auto simp: tree_wf_def build_ok_def add_leaf_def setChild_def Let_def leafCount_def LeafScheduler_new_def)
  with assms(1,3) show ?thesis
    by (auto simp: build_ok_def add_leaf_def setChild_def Let_def LeafScheduler_new_def less_SucI
        dest: less_SucI split: if_splits)
qed

lemma add_leaf_keeps [simp]:
  "tr_nodeCount (add_leaf f c t) = tr_nodeCount t" "tr_world (add_leaf f c t) = tr_world t"
  "leafCount (add_leaf f c t) = leafCount t"
  by (simp_all add: add_leaf_def setChild_def Let_def leafCount_def split: option.split)

lemma build_ok_mono: "build_ok k t \<Longrightarrow> build_ok (Suc k) t"
  by (auto simp: build_ok_def less_SucI)

lemma add_leaves_ok:
  assumes "build_ok k t" "k + length cs \<le> leafCount t"
    and "\<And>i c. i < length cs \<Longrightarrow> cs ! i = Some c \<Longrightarrow>
      cp_virtualCPUId (w_places (tr_world t) c) = k + i \<and>
      parentOf (cp_NUMANodeId (w_places (tr_world t) c)) < tr_nodeCount t"
  shows "build_ok (k + length cs) (fold (add_leaf parentOf) cs t)"
  using assms
proof (induction cs arbitrary: k t)
  case (Cons x cs)
  have "build_ok (Suc k) (add_leaf parentOf x t)"
  proof (cases x)
    case None
    with Cons.prems(1) show ?thesis by (simp add: add_leaf_def build_ok_mono)
  next
    case (Some c)
    with Cons.prems(1,2) Cons.prems(3) [of 0 c] show ?thesis
      by (auto intro: add_leaf_ok)
  qed
  moreover have "cp_virtualCPUId (w_places (tr_world t) c) = Suc k + i \<and>
      parentOf (cp_NUMANodeId (w_places (tr_world t) c)) < tr_nodeCount t"
    if "i < length cs" "cs ! i = Some c" for i c
    using Cons.prems(3) [of "Suc i" c] that by simp
  ultimately have "build_ok (Suc k + length cs) (fold (add_leaf parentOf) cs (add_leaf parentOf x t))"
    using Cons.prems(2) by (intro Cons.IH) auto
  then show ?case by simp
qed simp

lemma TreeScheduler_new_ok:
  assumes "cpus_ok NUMANodeCount w"
  shows "build_ok (length (cm_cpus (w_cpum w))) (TreeScheduler_new kind iterations NUMANodeCount w)"
proof -
  let ?cpus = "cm_cpus (w_cpum w)"
  define top where "top = \<lparr>tr_kind = kind, tr_pollingIterations = iterations, tr_nodeCount = 1,
    tr_node = (\<lambda>_. NodeScheduler_new None), tr_leaf = (\<lambda>_. LeafScheduler_new 0 0),
    tr_CPUScheduler = replicate (length ?cpus) False, tr_schedRRCounter = 0, tr_world = w\<rparr>"
  have top: "build_ok 0 top"
    by (auto simp: top_def build_ok_def tree_wf_def node_ok_def NodeScheduler_new_def LeafScheduler_new_def leafCount_def)
  have cpu: "cp_virtualCPUId (w_places w c) = i \<and>
      (1 < NUMANodeCount \<longrightarrow> cp_NUMANodeId (w_places w c) < NUMANodeCount)"
    if "i < length ?cpus" "?cpus ! i = Some c" for i c
    using assms that by (auto simp: cpus_ok_def list_all_length nth_enumerate_eq)
  note nodes = add_nodes_ok [OF top, of NUMANodeCount]
  show ?thesis
  proof (cases "1 < NUMANodeCount")
    case True
    then have "build_ok (0 + length ?cpus) (fold (add_leaf Suc) ?cpus ((add_node ^^ NUMANodeCount) top))"
      using nodes cpu by (intro add_leaves_ok) (auto simp: top_def leafCount_def)
    with True show ?thesis by (simp add: TreeScheduler_new_def top_def Let_def)
  next
    case False
    then have "build_ok (0 + length ?cpus) (fold (add_leaf (\<lambda>_. 0)) ?cpus top)"
      using top cpu by (intro add_leaves_ok) (auto simp: top_def leafCount_def)
    with False show ?thesis by (simp add: TreeScheduler_new_def top_def Let_def)
  qed
qed

lemma build_ok_tasks: "build_ok k t \<Longrightarrow> tree_tasks t = {#}"
  by (simp add: build_ok_def tree_tasks_def node_tasks_def leaf_tasks_def)

section \<open>Invariant of a run\<close>

definition config_ok :: "tree_config \<Rightarrow> bool" where
  "config_ok m \<longleftrightarrow> tree_wf (tc_tree m) \<and> list_all (list_all (frame_ok (tc_tree m))) (tc_stacks m)"

definition config_tasks :: "tree_config \<Rightarrow> task_ref multiset" where
  "config_tasks m = tree_tasks (tc_tree m) + sum_list (map stack_tasks (tc_stacks m))"

definition pending_resume :: "tree_config \<Rightarrow> nat \<Rightarrow> bool" where
  "pending_resume m l = list_ex (\<lambda>fs. InLeaf l L_resume \<in> set fs) (tc_stacks m)"

definition wakeup_ok :: "tree_config \<Rightarrow> bool" where
  "wakeup_ok m \<longleftrightarrow> (\<forall>l. needs_wakeup (tc_tree m) l \<longrightarrow> pending_resume m l)"

lemma call_frames_ok:
  "call_frames t c = Inr fs \<Longrightarrow> list_all (frame_ok t) fs \<and> stack_tasks fs = mset (call_task c)"
  by (cases c)
    (auto simp: Tree_addReadyTask_def Tree_getReadyTask_def Tree_disableComputePlace_def
      Tree_enableComputePlace_def on_leaf_def Let_def leafCount_def split: if_splits option.splits)

lemma sum_list_stacks_update:
  fixes fs gs :: "frame list"
  assumes "i < length ss" "ss ! i = fs" "stack_tasks gs + a = stack_tasks fs + b"
  shows "sum_list (map stack_tasks (ss[i := gs])) + a = sum_list (map stack_tasks ss) + b"
proof -
  have "ss = take i ss @ fs # drop (Suc i) ss"
    using id_take_nth_drop [OF assms(1)] assms(2) by simp
  then have "sum_list (map stack_tasks ss) = sum_list (map stack_tasks (take i ss)) + stack_tasks fs +
      sum_list (map stack_tasks (drop (Suc i) ss))"
    by (metis (no_types) add.assoc list.simps(9) map_append sum_list.Cons sum_list_append)
  moreover have "sum_list (map stack_tasks (ss[i := gs])) = sum_list (map stack_tasks (take i ss)) + stack_tasks gs +
      sum_list (map stack_tasks (drop (Suc i) ss))"
    using assms(1) by (simp add: upd_conv_take_nth_drop ac_simps)
  ultimately show ?thesis
    using assms(3) by (metis (no_types, lifting) add.assoc add.commute)
qed

definition tree_inv :: "tree_config \<Rightarrow> bool" where
  "tree_inv m \<longleftrightarrow> config_ok m \<and> config_tasks m + mset (tc_handed m) = mset (tc_added m) \<and> wakeup_ok m"

lemma pending_resume_nth:
  "pending_resume m l \<longleftrightarrow> (\<exists>j<length (tc_stacks m). InLeaf l L_resume \<in> set (tc_stacks m ! j))"
  unfolding pending_resume_def list_ex_iff by (metis in_set_conv_nth)

lemma config_ok_nth:
  "config_ok m \<longleftrightarrow> tree_wf (tc_tree m) \<and>
     (\<forall>j<length (tc_stacks m). \<forall>f \<in> set (tc_stacks m ! j). frame_ok (tc_tree m) f)"
  unfolding config_ok_def list_all_iff all_set_conv_all_nth ..

lemma pending_resume_update:
  assumes "i < length (tc_stacks m)" "tc_stacks m ! i = f # fs"
    and "pending_resume m l" "f \<noteq> InLeaf l L_resume"
  shows "pending_resume (m\<lparr>tc_tree := t, tc_stacks := (tc_stacks m)[i := gs @ fs], tc_handed := h\<rparr>) l"
proof -
  obtain j where j: "j < length (tc_stacks m)" "InLeaf l L_resume \<in> set (tc_stacks m ! j)"
    using assms(3) by (auto simp: pending_resume_nth)
  have "InLeaf l L_resume \<in> set ((tc_stacks m)[i := gs @ fs] ! j)"
    using j assms(2,4) by (cases "i = j") auto
  with j(1) show ?thesis by (auto simp: pending_resume_nth)
qed

lemma Begin_inv:
  assumes "tree_inv m" "tree_exec (Begin i c) m = Inr m'"
  shows "tree_inv m' \<and> tree_shape (tc_tree m') = tree_shape (tc_tree m) \<and> length (tc_stacks m') = length (tc_stacks m)"
proof (cases "i < length (tc_stacks m) \<and> tc_stacks m ! i = []")
  case True
  with assms(2) obtain fs where fs: "call_frames (tc_tree m) c = Inr fs"
    and m': "m' = m\<lparr>tc_stacks := (tc_stacks m)[i := fs], tc_added := tc_added m @ call_task c\<rparr>"
    by auto
  note ok = call_frames_ok [OF fs]
  have "config_ok m'"
    using assms(1) ok True by (auto simp: tree_inv_def config_ok_nth m' nth_list_update list_all_iff split: if_splits)
  moreover have "config_tasks m' = config_tasks m + mset (call_task c)"
    using sum_list_stacks_update [of i "tc_stacks m" "[]" fs "{#}" "mset (call_task c)"] True ok
    by (simp add: config_tasks_def m' ac_simps)
  moreover have "wakeup_ok m'"
  proof -
    have "pending_resume m' l" if pend: "pending_resume m l" for l
    proof -
      obtain j where j: "j < length (tc_stacks m)" "InLeaf l L_resume \<in> set (tc_stacks m ! j)"
        using pend by (auto simp: pending_resume_nth)
      with True have "j \<noteq> i" by auto
      with j show ?thesis by (auto simp: pending_resume_nth m')
    qed
    with assms(1) show ?thesis by (auto simp: tree_inv_def wakeup_ok_def m')
  qed
  ultimately show ?thesis using assms(1) by (auto simp: tree_inv_def m' ac_simps)
next
  case False
  then have "tree_exec (Begin i c) m = Inr m" by auto
  with assms show ?thesis by simp
qed

lemma Step_inv:
  assumes "tree_inv m" "tree_exec (Step i) m = Inr m'"
  shows "tree_inv m' \<and> tree_shape (tc_tree m') = tree_shape (tc_tree m) \<and> length (tc_stacks m') = length (tc_stacks m)"
proof (cases "i < length (tc_stacks m) \<and> tc_stacks m ! i \<noteq> []")
  case True
  then obtain f fs where i: "i < length (tc_stacks m)" and stack: "tc_stacks m ! i = f # fs"
    by (cases "tc_stacks m ! i") auto
  with assms(2) obtain t gs where step: "frame_step f (tc_tree m) = Inr (t, gs)"
    and m': "m' = m\<lparr>tc_tree := t, tc_stacks := (tc_stacks m)[i := gs @ fs], tc_handed := tc_handed m @ frame_result f\<rparr>"
    by auto
  have frames: "\<forall>f \<in> set (tc_stacks m ! j). frame_ok (tc_tree m) f" if "j < length (tc_stacks m)" for j
    using assms(1) that by (auto simp: tree_inv_def config_ok_nth)
  have ok: "tree_wf t" "list_all (frame_ok t) gs" and fok: "frame_ok (tc_tree m) f"
    using frame_step_ok [OF step] frames [OF i] stack assms(1) by (auto simp: tree_inv_def config_ok_def)
  note shape = shape_frame_step [OF step]
  have "config_ok m'"
    using ok i frames [OF i] frames stack frame_ok_shape [OF shape]
    by (auto simp: config_ok_nth m' nth_list_update list_all_iff split: if_splits)
  moreover have "config_tasks m' + mset (frame_result f) = config_tasks m"
  proof -
    have "config_tasks m' + stack_tasks (f # fs) =
        sum_list (map stack_tasks (tc_stacks m)) + (tree_tasks t + stack_tasks (gs @ fs))"
      using sum_list_stacks_update [OF i stack, of "gs @ fs" "stack_tasks (f # fs)" "stack_tasks (gs @ fs)"]
      by (simp add: config_tasks_def m' ac_simps)
    moreover have "(tree_tasks t + stack_tasks (gs @ fs)) + mset (frame_result f) =
        stack_tasks (f # fs) + tree_tasks (tc_tree m)"
      using arg_cong [OF frame_step_tasks [OF step fok], of "\<lambda>x. x + stack_tasks fs"] by (simp add: ac_simps)
    ultimately have "config_tasks m' + mset (frame_result f) =
        sum_list (map stack_tasks (tc_stacks m)) + tree_tasks (tc_tree m)"
      by (rule mset_exchange)
    then show ?thesis by (simp add: config_tasks_def ac_simps)
  qed
  moreover have "wakeup_ok m'"
  proof -
    have "pending_resume m' l" if "needs_wakeup t l" for l
    proof (cases "InLeaf l L_resume \<in> set gs")
      case True
      then show ?thesis using i by (auto simp: pending_resume_nth m' intro!: exI [of _ i])
    next
      case False
      with frame_step_wakeup [OF step that] assms(1) have "pending_resume m l" "f \<noteq> InLeaf l L_resume"
        by (auto simp: tree_inv_def wakeup_ok_def)
      then show ?thesis unfolding m' by (rule pending_resume_update [OF i stack])
    qed
    then show ?thesis by (auto simp: wakeup_ok_def m')
  qed
  ultimately have inv: "config_ok m'" "wakeup_ok m'" and moved: "config_tasks m' + mset (frame_result f) = config_tasks m"
    by blast+
  have "mset (tc_handed m') = mset (frame_result f) + mset (tc_handed m)" "tc_added m' = tc_added m"
    by (simp_all add: m')
  then have "config_tasks m' + mset (tc_handed m') = mset (tc_added m')"
    using assms(1) by (simp only: tree_inv_def add.assoc [symmetric] moved)
  with inv shape show ?thesis by (simp add: tree_inv_def m')
next
  case False
  then have "tree_exec (Step i) m = Inr m" by (auto split: list.splits)
  with assms show ?thesis by simp
qed

lemma tree_run_inv:
  assumes "run_tree es m = Inr m'" "tree_inv m"
  shows "tree_inv m' \<and> tree_shape (tc_tree m') = tree_shape (tc_tree m) \<and> length (tc_stacks m') = length (tc_stacks m)"
  using assms
proof (induction es arbitrary: m)
  case (Cons e es)
  then obtain m1 where step: "tree_exec e m = Inr m1" and rest: "run_tree es m1 = Inr m'" by auto
  have "tree_inv m1 \<and> tree_shape (tc_tree m1) = tree_shape (tc_tree m) \<and> length (tc_stacks m1) = length (tc_stacks m)"
    using step Cons.prems(2) Begin_inv Step_inv by (cases e) blast+
  with Cons.IH [OF rest] show ?case by simp
qed simp

lemma no_stack_tasks: "sum_list (replicate k {#}) = {#}"
  by (induction k) simp_all

lemma start_inv: "cpus_ok n w \<Longrightarrow> tree_inv (tree_start kind iterations n w threads)"
  using TreeScheduler_new_ok [of n w kind iterations]
  by (auto simp: tree_inv_def tree_start_def config_ok_def config_tasks_def wakeup_ok_def needs_wakeup_def
      build_ok_tasks no_stack_tasks list_all_iff build_ok_def)

lemma run_from_start:
  assumes "run_tree es (tree_start kind iterations n w threads) = Inr m" "cpus_ok n w"
  shows "tree_inv m" "tree_shape (tc_tree m) = tree_shape (TreeScheduler_new kind iterations n w)"
    "length (tc_stacks m) = threads"
  using tree_run_inv [OF assms(1) start_inv [OF assms(2)]] by (simp_all add: tree_start_def)

section \<open>Every call returns\<close>
















section \<open>Concrete runs\<close>

text \<open>A thread makes a call and takes \<open>k\<close> steps, more than enough if the call is over before.\<close>

definition call_steps :: "nat \<Rightarrow> tree_call \<Rightarrow> nat \<Rightarrow> tree_event list" where
  "call_steps i c k = Begin i c # replicate k (Step i)"

lemma call_steps_simps:
  "call_steps i c (numeral k) = Begin i c # Step i # replicate (pred_numeral k) (Step i)"
  "replicate (numeral k) (Step i) = Step i # replicate (pred_numeral k) (Step i)"
  by (simp_all add: call_steps_def numeral_eq_Suc)

text \<open>One worker on one CPU (thread 0) and a thread without a CPU (thread 1), with one turn of polling.\<close>

definition one_CPU :: tree_config where
  "one_CPU = tree_start LIFOQueue 1 1 (plain_world 1) 2"

text \<open>Two CPUs on one node, a worker on each.\<close>

definition two_CPUs :: tree_config where
  "two_CPUs = tree_start LIFOQueue 1 1 (plain_world 2) 2"

text \<open>Two CPUs on a NUMA node each.\<close>

definition two_nodes :: tree_config where
  "two_nodes = tree_start LIFOQueue 1 2
     ((plain_world 2)\<lparr>w_places := (\<lambda>c. (plain_place c)\<lparr>cp_NUMANodeId := c\<rparr>)\<rparr>) 2"

lemmas start_eval = tree_start_def TreeScheduler_new_def plain_world_def plain_place_def add_leaf_def setChild_def
  add_node_def upd_node_def NodeScheduler_new_def numeral_2_eq_2 Let_def

lemma one_CPU_eq:
  "one_CPU =
     \<lparr>tc_tree = \<lparr>tr_kind = LIFOQueue, tr_pollingIterations = 1, tr_nodeCount = 1,
        tr_node = (\<lambda>_. NodeScheduler_new None)
          (0 := (NodeScheduler_new None)\<lparr>ns_children := [LeafRef 0], ns_enabledChildren := 1\<rparr>),
        tr_leaf = (\<lambda>_. LeafScheduler_new 0 0)(0 := LeafScheduler_new 0 0),
        tr_CPUScheduler = [True], tr_schedRRCounter = 0, tr_world = plain_world 1\<rparr>,
      tc_stacks = [[], []], tc_added = [], tc_handed = []\<rparr>"
  by (simp add: one_CPU_def start_eval)

lemma two_CPUs_eq:
  "two_CPUs =
     \<lparr>tc_tree = \<lparr>tr_kind = LIFOQueue, tr_pollingIterations = 1, tr_nodeCount = 1,
        tr_node = (\<lambda>_. NodeScheduler_new None)
          (0 := (NodeScheduler_new None)\<lparr>ns_children := [LeafRef 0, LeafRef 1], ns_enabledChildren := 2\<rparr>),
        tr_leaf = (\<lambda>_. LeafScheduler_new 0 0)(0 := LeafScheduler_new 0 0, 1 := LeafScheduler_new 1 0),
        tr_CPUScheduler = [True, True], tr_schedRRCounter = 0, tr_world = plain_world 2\<rparr>,
      tc_stacks = [[], []], tc_added = [], tc_handed = []\<rparr>"
  by (simp add: two_CPUs_def start_eval)

lemma two_nodes_eq:
  "two_nodes =
     \<lparr>tc_tree = \<lparr>tr_kind = LIFOQueue, tr_pollingIterations = 1, tr_nodeCount = 3,
        tr_node = (\<lambda>_. NodeScheduler_new None)
          (0 := (NodeScheduler_new None)\<lparr>ns_children := [NodeRef 1, NodeRef 2], ns_enabledChildren := 2\<rparr>,
           1 := (NodeScheduler_new (Some 0))\<lparr>ns_children := [LeafRef 0], ns_enabledChildren := 1\<rparr>,
           2 := (NodeScheduler_new (Some 0))\<lparr>ns_children := [LeafRef 1], ns_enabledChildren := 1\<rparr>),
        tr_leaf = (\<lambda>_. LeafScheduler_new 0 0)(0 := LeafScheduler_new 0 1, 1 := LeafScheduler_new 1 2),
        tr_CPUScheduler = [True, True], tr_schedRRCounter = 0,
        tr_world = (plain_world 2)\<lparr>w_places := (\<lambda>c. (plain_place c)\<lparr>cp_NUMANodeId := c\<rparr>)\<rparr>\<rparr>,
      tc_stacks = [[], []], tc_added = [], tc_handed = []\<rparr>"
  by (simp add: two_nodes_def start_eval)

lemmas tree_eval = call_steps_simps Tree_addReadyTask_def Tree_getReadyTask_def Tree_disableComputePlace_def
  Tree_enableComputePlace_def on_leaf_def cpu_leaf_def Tree_roundRobin_def leaf_parent_def found_def
  isTaskloop_def plain_task_def Task_new_def node_step_defs leaf_step_defs get_step_defs queue_addTask_def
  queue_addTaskBatch_def LIFOQueue_addTask_def LIFOQueue_addTaskBatch_eq queue_getTask_def queue_getTaskBatch_def
  int_of_size_def batch_elements_def addTaskBatch_def updateQueueThreshold_def unidleCPU_def cpuBecomesIdle_def
  plain_place_def plain_world_def upd_node_def upd_leaf_def NodeScheduler_new_def LeafScheduler_new_def

text \<open>The worker finds nothing and sleeps; then a task is added and its slot filled.\<close>

definition sleeper_run :: "tree_event list" where
  "sleeper_run = call_steps 0 (GetReady 0 True) 20 @ call_steps 1 (AddReady 10 None NO_HINT) 3"

lemma sleeper_run_reaches:
  "\<exists>m. run_tree sleeper_run (tree_start LIFOQueue 1 1 (plain_world 1) 2) = Inr m \<and> tc_added m = [10] \<and>
     ls_idle (tr_leaf (tc_tree m) 0) \<and> ls_pollingSlot (tr_leaf (tc_tree m) 0) = Some 10 \<and>
     \<not> ls_woken (tr_leaf (tc_tree m) 0)"
  unfolding one_CPU_def [symmetric] one_CPU_eq by (simp add: sleeper_run_def tree_eval)

lemma plain_cpus_ok: "cpus_ok 1 (plain_world 1)"
  by (simp add: cpus_ok_def plain_world_def plain_place_def)

text \<open>
  A wake-up that is lost. The worker runs task 10 when a thread without a CPU adds task 11 and sees that
  the leaf is running. Before it puts the task in the queue, the worker asks for work, is noted as idle at
  the top node and goes to sleep. The queue overflows, and \<open>addTaskBatch\<close> removes the leaf from the idle
  children, since it is the one that adds tasks: the task stays in the queue of the top node, all threads
  are outside the scheduler, the only CPU sleeps and nobody resumes it.
\<close>

lemma tree_unblock_loses_wakeup:
  "\<exists>m. run_tree (call_steps 1 (AddReady 10 None NO_HINT) 4 @ call_steps 0 (GetReady 0 True) 6 @
        call_steps 1 (AddReady 11 None UNBLOCKED_TASK_HINT) 2 @ call_steps 0 (GetReady 0 True) 20 @
        replicate 20 (Step 1)) one_CPU = Inr m \<and>
     tc_stacks m = [[], []] \<and> tc_handed m = [10] \<and> ns_queue (tr_node (tc_tree m) 0) = [11] \<and>
     ls_idle (tr_leaf (tc_tree m) 0) \<and> ls_pollingSlot (tr_leaf (tc_tree m) 0) = None \<and>
     w_resumed (tr_world (tc_tree m)) = []"
  unfolding one_CPU_eq by (simp add: tree_eval)

text \<open>
  A task that is left behind. The calls do not even overlap. CPU 1 adds tasks until the threshold is 2;
  CPU 0 takes them, finds no more and asks twice, so that it is noted twice as idle, and obtains a task
  against one of the notes. It is disabled while it is not idle, so that the other note remains. The next
  task of CPU 1 goes to the slot of the disabled CPU, and CPU 1 goes to sleep.
\<close>

lemma tree_task_left_on_disabled_CPU:
  "\<exists>m. run_tree (call_steps 1 (AddReady 1 None NO_HINT) 4 @ call_steps 1 (AddReady 2 None NO_HINT) 4 @
        call_steps 0 (GetReady 0 True) 6 @ call_steps 1 (GetReady 1 True) 6 @
        call_steps 1 (AddReady 11 (Some 1) NO_HINT) 21 @ call_steps 1 (AddReady 12 (Some 1) NO_HINT) 4 @
        call_steps 1 (AddReady 13 (Some 1) NO_HINT) 21 @ call_steps 0 (GetReady 0 True) 13 @
        call_steps 0 (GetReady 0 True) 13 @ call_steps 0 (GetReady 0 True) 48 @
        call_steps 0 (DisablePlace 0) 4 @ call_steps 1 (AddReady 14 (Some 1) NO_HINT) 10 @
        call_steps 1 (GetReady 1 True) 25) two_CPUs = Inr m \<and>
     tc_stacks m = [[], []] \<and> tc_handed m = [1, 2, 11, 12, 13] \<and>
     ls_pollingSlot (tr_leaf (tc_tree m) 0) = Some 14 \<and> ls_idle (tr_leaf (tc_tree m) 1) \<and>
     w_resumed (tr_world (tc_tree m)) = []"
  unfolding two_CPUs_eq by (simp add: tree_eval)

text \<open>
  When the last CPU of a NUMA node is disabled, the top node counts one child less; when the CPU is
  enabled again, the top node is not told. The third time its assertion fails.
\<close>

lemma tree_enabled_children_not_restored:
  "run_tree (concat (replicate 3 (call_steps 0 (DisablePlace 0) 6 @ call_steps 0 (EnablePlace 0) 2))) two_nodes =
     Inl (AssertFailed ''_enabledChildren > 0'')"
  unfolding two_nodes_eq by (simp add: tree_eval numeral_3_eq_3 assert_that_def)

section \<open>Properties\<close>

text \<open>
  C38. Whatever the interleaving of the threads that add tasks to the tree scheduler, take tasks from it and
  disable or enable CPUs, no task is lost and none is duplicated: the tasks in the queues and polling
  slots, those in batches that a thread is moving and those that have been handed out are together
  exactly the tasks that were added.
\<close>

theorem tree_conserves_tasks:
  assumes "run_tree es (tree_start kind iterations n w threads) = Inr m" "cpus_ok n w"
  shows "tree_tasks (tc_tree m) + sum_list (map stack_tasks (tc_stacks m)) + mset (tc_handed m) = mset (tc_added m)"
  using run_from_start(1) [OF assms] by (simp add: tree_inv_def config_tasks_def)

theorem tree_conserves_tasks_witness:
  "\<exists>m. run_tree sleeper_run (tree_start LIFOQueue 1 1 (plain_world 1) 2) = Inr m \<and>
     tree_tasks (tc_tree m) + sum_list (map stack_tasks (tc_stacks m)) + mset (tc_handed m) = {#10#}"
proof -
  obtain m where m: "run_tree sleeper_run (tree_start LIFOQueue 1 1 (plain_world 1) 2) = Inr m" "tc_added m = [10]"
    using sleeper_run_reaches by blast
  from tree_conserves_tasks [OF m(1) plain_cpus_ok] m show ?thesis by auto
qed

text \<open>
  C39. A task is never left in the polling slot of a leaf that sleeps: whenever a leaf is marked as idle and its
  slot holds a task, its CPU has been resumed since it was marked, or a thread is about to resume it.
\<close>

theorem tree_sleeping_CPU_resumed:
  assumes "run_tree es (tree_start kind iterations n w threads) = Inr m" "cpus_ok n w"
    and "ls_idle (tr_leaf (tc_tree m) l)" "ls_pollingSlot (tr_leaf (tc_tree m) l) = Some task"
  shows "ls_woken (tr_leaf (tc_tree m) l) \<or> pending_resume m l"
  using run_from_start(1) [OF assms(1,2)] assms(3,4) by (auto simp: tree_inv_def wakeup_ok_def needs_wakeup_def)

theorem tree_sleeping_CPU_resumed_witness:
  "\<exists>m. run_tree sleeper_run (tree_start LIFOQueue 1 1 (plain_world 1) 2) = Inr m \<and>
     ls_idle (tr_leaf (tc_tree m) 0) \<and> ls_pollingSlot (tr_leaf (tc_tree m) 0) = Some 10 \<and> pending_resume m 0"
proof -
  obtain m where m: "run_tree sleeper_run (tree_start LIFOQueue 1 1 (plain_world 1) 2) = Inr m"
    "ls_idle (tr_leaf (tc_tree m) 0)" "ls_pollingSlot (tr_leaf (tc_tree m) 0) = Some 10"
    "\<not> ls_woken (tr_leaf (tc_tree m) 0)"
    using sleeper_run_reaches by blast
  from tree_sleeping_CPU_resumed [OF m(1) plain_cpus_ok m(2,3)] m show ?thesis by auto
qed



end
