(* ===== verification/Spec2Isabelle.thy ===== *)
theory Spec2Isabelle
  imports N6_PollingProtocol N6_Taskloop N6_Activation N6_DependencyTheorems N6_PriorityTheorems
    N6_LifecycleLiveness N6_SpawnedFunctions N6_UserMutex N6_TicketLock N6_Hierarchical N6_Multidimensional
    N6_RegionTheorems N6_FragmentedTheorems N6_PollingServicesTheorems N6_LockTheorems
    N6_ObjectCache N6_TreeSchedulerTheorems
begin

text \<open>
  \<^bold>\<open>Nanos6: a verification development\<close>

  Nanos6 is the run-time of the OmpSs-2 programming model. A program creates \<^emph>\<open>tasks\<close>; each declares
  the data it accesses. The \<^emph>\<open>dependency system\<close> (\<open>src/dependencies\<close>) orders the accesses and reports
  the tasks that may start; a \<^emph>\<open>scheduler\<close> (\<open>src/scheduling\<close>) keeps ready tasks and hands them to
  \<^emph>\<open>worker threads\<close> (\<open>src/executors/threads\<close>), one of which runs on every enabled \<^emph>\<open>CPU\<close>; a thread that
  waits for children, a mutex or a dependency gives its CPU to another thread. A finished task releases
  its accesses, which makes further tasks ready, and is disposed of together with those of its
  ancestors that were waiting for it only. A \<^emph>\<open>task loop\<close> is a task whose iterations are shared among
  collaborator tasks.

  \<^bold>\<open>How the code is modelled.\<close> Objects are records, pointers are natural numbers that name the object
  (a pointer that may be null is an option), enumerations are datatypes, \<open>size_t\<close> and ticket counters
  are words, atomic \<open>int\<close> counters are integers. An operation is a function from the state to a
  \<^emph>\<open>result\<close>: the new state, or the error value of the failed \<open>assert\<close> or \<open>FatalErrorHandler::failIf\<close>.
  A section under a lock, or one atomic instruction, is one step; threads interleave steps in any order.
  Calls of instrumentation, which observes and changes nothing, are left out.

  \<^bold>\<open>Theories.\<close>
  \<^item> \<open>N6_Prelude\<close>: references, results, collections of facts, lemmas on slots, lists and words.
  \<^item> \<open>N6_Task\<close>: class \<open>Task\<close> (\<open>src/tasks/Task.hpp\<close>, \<open>TaskImplementation.hpp\<close>), all fields that the
    run-time logic reads and every member function that changes them.
  \<^item> \<open>N6_World\<close>: the state that schedulers share: tasks, compute places, polling slots, the idle CPU set
    of \<open>CPUManager.hpp\<close>, worker threads (\<open>WorkerThreadBase.hpp\<close>) and the lists of idle threads
    (\<open>ThreadManager.hpp\<close>).
  \<^item> \<open>N6_SchedulerInterface\<close>: \<open>SchedulerInterface\<close> as a record of operations with its default
    implementations, the facade \<open>Scheduler\<close> with its polling loop, and the contracts of a scheduler as
    locales: \<open>guarded_pool\<close>, \<open>ready_pool\<close> and \<open>default_pool\<close> promise that no call loses or
    duplicates a task; the consequences for histories of calls are proved once inside them.
  \<^item> \<open>N6_ImmediateSuccessor\<close>: the three immediate-successor schedulers (\<open>IS_\<close>, \<open>ISP_\<close>, \<open>FISP_\<close>
    operations), which interpret the contracts. \<open>N6_PollingProtocol\<close>: the atomic sections of the
    polling scheduler under any interleaving of additions, polling requests, polls and releases.
  \<^item> \<open>N6_PriorityQueue\<close>, \<open>N6_Priority\<close>, \<open>N6_PriorityProofs\<close>, \<open>N6_PriorityOrder\<close>, \<open>N6_PriorityTheorems\<close>:
    the three priority schedulers over a binary heap that implements the interface \<open>max_queue\<close>; they
    conserve tasks and serve a task of highest priority.
  \<^item> \<open>N6_Hierarchical\<close>: the hierarchical schedulers. The NUMA scheduler takes the schedulers of its nodes as
    a parameter; \<open>node_pool\<close> is the contract it asks of them, and it keeps the contract \<open>ready_pool\<close> itself.
  \<^item> \<open>N6_TreeScheduler\<close>, \<open>N6_TreeSchedulerProofs\<close>, \<open>N6_TreeSchedulerTheorems\<close>: the tree scheduler
    (\<open>src/scheduling/schedulers/tree-scheduler\<close>): leaves for the CPUs below nodes, between which batches of
    tasks move. Threads have stacks of frames and interleave between accesses to shared data; the locale
    \<open>batch_queue\<close> is the contract of the two kinds of queue.
  \<^item> \<open>N6_CPU\<close>, \<open>N6_Activation\<close>: numbering of CPUs, idle set, printed CPU lists, iteration over CPUs for
    debuggers, and the activation automaton of \<open>CPUActivation.hpp\<close>.
  \<^item> \<open>N6_Taskloop\<close>: \<open>src/tasks/Taskloop*.hpp\<close>: splitting of the iteration space into partitions and the
    competition of collaborators for chunks, on 64-bit words.
  \<^item> \<open>N6_Dependencies\<close>, \<open>N6_DependencyProofs\<close>, \<open>N6_DependencyTheorems\<close>: the discrete dependency system
    (\<open>src/dependencies/discrete\<close>): the forest of accesses of an address, registration with upgrades,
    unregistration with propagation of satisfiability.
  \<^item> \<open>N6_AccessRegion\<close>, \<open>N6_RegionMap\<close>, \<open>N6_RegionMapProofs\<close>, \<open>N6_RegionTiling\<close>, \<open>N6_RegionTheorems\<close>: regions of
    memory and the maps keyed by them (\<open>DataAccessRegion.hpp\<close>, \<open>IntrusiveLinearRegionMap*.hpp\<close>,
    \<open>LinearRegionMap*.hpp\<close> of \<open>src/dependencies/linear-regions\<close>). The tree of the boost library is a parameter,
    \<open>ordered_set\<close> the contract that it documents. \<open>N6_Multidimensional\<close>: registration of array sections.
  \<^item> \<open>N6_FragmentedAccess\<close>, \<open>N6_Fragmented\<close>, \<open>N6_FragmentedRegistration\<close>: the default dependency system
    (\<open>src/dependencies/linear-regions-fragmented\<close>) on top of the region maps: \<open>DataAccess\<close> with its status
    bits, \<open>DataAccessStatusEffects\<close>, \<open>handleDataAccessStatusChanges\<close>, fragmentation, bottom maps, update
    operations, and the operations for registration, release, unregistration, blocking and taskwait. A
    pointer to an access is a task, the kind of the object and a node; the data of the CPU that runs the
    operation (\<open>CPUDependencyData\<close>) is part of the state. \<open>N6_FragmentedChain\<close>, \<open>N6_FragmentedSteps\<close>: these
    operations on sibling tasks that access one region; \<open>N6_FragmentedSystem\<close>: CPUs that interleave them;
    \<open>N6_FragmentedSerial\<close>: operations that do not overlap; \<open>N6_FragmentedRuns\<close>: how to put executions
    together; \<open>N6_FragmentedTheorems\<close>: the properties.
  \<^item> \<open>N6_Lifecycle\<close>, \<open>N6_LifecycleProofs\<close>, \<open>N6_LifecycleTheorems\<close>, \<open>N6_LifecycleLiveness\<close>: the life of a
    task over its two counters: creation, execution, taskwait, events, release, delayed release and
    \<open>disposeOrUnblockTask\<close>, interleaved over any number of tasks. \<open>N6_SpawnedFunctions\<close>: the counter of
    pending spawned functions.
  \<^item> \<open>N6_UserMutex\<close>: the user-side mutex and the thread policy. \<open>N6_TicketLock\<close>: the ticket spin lock.
    \<open>N6_Locks\<close>, \<open>N6_LockTheorems\<close>: the spin lock with its checks of the owner, the readers-writer lock and the
    condition variable of \<open>src/lowlevel\<close>, at the level of their atomic instructions.
  \<^item> \<open>N6_PollingServices\<close>, \<open>N6_PollingServicesProofs\<close>, \<open>N6_PollingServicesTheorems\<close>: the services that the
    run-time calls periodically (\<open>src/system/PollingAPI.cpp\<close>). A thread is a stack of frames, because a service
    may itself register and unregister services; the traversal gives up the lock while a service runs.
  \<^item> \<open>N6_VirtualMemory\<close>: the memory that the run-time maps and divides among the NUMA nodes
    (\<open>src/memory/vmm\<close>, with \<open>mmap\<close> as a parameter). \<open>N6_MemoryPool\<close>, \<open>N6_MemoryPoolProofs\<close>,
    \<open>N6_MemoryTheorems\<close>: the allocator (\<open>src/memory/allocator/pool\<close>) down to the pointers that link free
    chunks in memory; bytes are counted in multisets of addresses. \<open>N6_ObjectCache\<close>: the caches of objects per
    CPU and per NUMA node; the locale \<open>memory_source\<close> is what they ask of the allocator.

  \<^bold>\<open>What is proved.\<close> Each property stands behind a block of text that names it C1 to C40.
  \<^item> Safety of interleavings: no assertion of the polling scheduler, the task life cycle or the ticket
    lock fails; satisfied accesses of an address are compatible; every iteration of a task loop runs
    exactly once; a taskwait waits for all children; all locks exclude; an unregistered polling service
    is not called, and the traversal that gives up the lock for a service keeps a valid iterator.
  \<^item> Conservation: schedulers neither lose nor duplicate tasks over any history of calls, the tree
    scheduler under any interleaving of calls; a CPU that sleeps on a filled slot of the tree is resumed.
  \<^item> Memory: blocks and objects in use never overlap, allocation fails only when the kernel refuses memory,
    and the node of a block is found again from any of its addresses.
  \<^item> Service: highest priority first, queue order, hand-over of mutexes in order.
  \<^item> Liveness and termination: the first access of a sequence is satisfied, no wake-up is lost, from every
    state of the life cycle all tasks can end, collaborators and the disposal loop terminate, every call of the tree scheduler returns, the condition
    variable keeps every signal, an unregistration of a polling service can return.
  \<^item> Regions: an array section registers exactly the bytes it denotes; a region map stays a set of disjoint
    nodes; traversals visit exactly the overlapping nodes and gaps, and fragmenting keeps the covered bytes.
  \<^item> Default dependency system, for sibling tasks that access one region in any number and with any types
    but reductions: under every interleaving of CPUs, accesses are satisfied only when the earlier ones
    permit it, none is forgotten, and a task is reported ready once; operations that do not overlap return
    without a failed assertion. Accesses that are fragmented, nested or reductions are modelled, and the
    theorems do not cover them.
  \<^item> Refinement and equivalence: the idle bit set implements a set, the activation loops an automaton,
    the spin lock an atomic lock; the atomic sections of an addition compose to \<open>addReadyTask\<close>.
  \<^item> Deviations: theorems that exhibit where the code does not do what it means to (a task lost by
    \<open>Scheduler::getReadyTask\<close>, a predecessor not counted after an upgrade, an update operation applied to an access that was given up, counters of a NUMA node that drift, a spawn inside a task
    that blocks the shutdown, a task of the tree scheduler that waits while all CPUs sleep, an allocation size that doubles until it is zero, an unregistration that never returns, a section of a reduction registered wrongly, a deleted map node that is read, and others).

  \<^bold>\<open>Bounds and fuel.\<close> \<open>disposeOrUnblockTask\<close> goes from child to parent, and a parent is older than its
  child, so the identifier of the task bounds its turns; this is proved. The polling loop of the facade
  is given the list of what other threads do between two reads, and is undefined when the list ends. The
  collaborator loop is a step relation with a measure. A traversal of
  a region map is a partial function, undefined if the loop does not end; that it ends is proved. A status
  change of an access may change accesses of child tasks: \<open>depth\<close> bounds this nesting, and the theorems on
  siblings without children hold for every depth from one. The loop over delayed operations is a partial
  function too; a traversal or loop that does not return is an error value of the operation. Digits of printed numbers use the number itself as
  fuel. Tickets identify threads while fewer than \<open>2 ^ 16\<close> are drawn at once, which is a condition of the
  step that draws one. Sizes of memory wrap around like \<open>size_t\<close>; the theorems on the allocator bound
  requests and addresses by \<open>2 ^ 60\<close>, from which it is proved that no sum wraps. The
  calls of the tree scheduler need no fuel: a thread runs until its stack is empty, by a lexicographic
  measure of the requests it may still make, the notes of idle children and the ranks of its frames. In the other theories an allocation is a fresh identifier.

  \<^bold>\<open>Not modelled.\<close> The instrumentation and performance back ends (observers), the unfragmented
  and the alternative region-based dependency systems, private storage of reductions, the FIFO and naive schedulers, CUDA, cluster and
  hardware discovery (external libraries), the shutdown of the memory allocator and its variants on \<open>malloc\<close> and \<open>memkind\<close>, process start
  and signals, the main loop of the worker thread and if0 tasks, the placement
  of kernel threads on CPUs. Bodies of tasks and callbacks are user code: a body is represented by the
  steps that it may take. Memory-order annotations are not modelled: the atomic operations are taken as
  sequentially consistent.
\<close>

end
